(* ===== verification/Prelude.thy ===== *)
theory Prelude
  imports Main "HOL-Library.Word" "HOL-Library.Multiset"
begin

text \<open>
  Shared vocabulary of the development.

  Rust's fixed-width integers are words (\<open>u8\<close>, \<open>u16\<close>, \<open>u32\<close>, \<open>u64\<close>). Sizes
  (\<open>usize\<close>) and the millisecond ticks (\<open>u64\<close>) that the code only ever adds with
  \<open>saturating_add\<close> are \<open>nat\<close>, with the saturation or the checked overflow written
  out (\<open>sat_add\<close>, \<open>checked_add\<close>). Byte strings are lists of \<open>u8\<close>; the
  big-endian conversions of \<open>to_be_bytes\<close> and \<open>from_be_bytes\<close> are \<open>nat_be\<close>
  and \<open>be_nat\<close>. Slices, \<open>Vec\<close> operations and the iterator searches of the standard
  library that the sources use are defined here once.
\<close>

unbundle bit_operations_syntax

section \<open>Machine integers\<close>

type_synonym u8 = "8 word"
type_synonym u16 = "16 word"
type_synonym u32 = "32 word"
type_synonym u64 = "64 word"
type_synonym bytes = "u8 list"

definition u64_max :: nat where
  "u64_max = 18446744073709551615"

definition u32_max :: nat where
  "u32_max = 4294967295"

definition u16_max :: nat where
  "u16_max = 65535"

definition u8_max :: nat where
  "u8_max = 255"

text \<open>\<open>saturating_add\<close> of the type whose largest value is \<open>m\<close>.\<close>

definition sat_add :: "nat \<Rightarrow> nat \<Rightarrow> nat \<Rightarrow> nat" where
  "sat_add m a b = min m (a + b)"

definition sat_mul :: "nat \<Rightarrow> nat \<Rightarrow> nat \<Rightarrow> nat" where
  "sat_mul m a b = min m (a * b)"

text \<open>\<open>checked_add\<close> and \<open>checked_mul\<close> of the type whose largest value is \<open>m\<close>.\<close>

definition checked_add :: "nat \<Rightarrow> nat \<Rightarrow> nat \<Rightarrow> nat option" where
  "checked_add m a b = (if a + b \<le> m then Some (a + b) else None)"

definition checked_mul :: "nat \<Rightarrow> nat \<Rightarrow> nat \<Rightarrow> nat option" where
  "checked_mul m a b = (if a * b \<le> m then Some (a * b) else None)"

text \<open>\<open>div_ceil\<close> on a nonzero divisor.\<close>

definition div_ceil :: "nat \<Rightarrow> nat \<Rightarrow> nat" where
  "div_ceil a b = (a + b - 1) div b"

named_theorems int_defs \<open>definitions of the integer helpers\<close>

lemmas [int_defs] = u64_max_def u32_max_def u16_max_def u8_max_def sat_add_def sat_mul_def
  checked_add_def checked_mul_def

lemma sat_add_le [simp]: "sat_add m a b \<le> m"
  by (simp add: sat_add_def)

lemma sat_add_ge: "a \<le> m \<Longrightarrow> a \<le> sat_add m a b"
  by (simp add: sat_add_def)

lemma sat_add_eq: "a + b \<le> m \<Longrightarrow> sat_add m a b = a + b"
  by (simp add: sat_add_def)

lemma sat_add_mono: "a \<le> a' \<Longrightarrow> b \<le> b' \<Longrightarrow> sat_add m a b \<le> sat_add m a' b'"
  unfolding sat_add_def by linarith

lemma div_ceil_mult_ge: "0 < b \<Longrightarrow> a \<le> div_ceil a b * b"
proof -
  assume "0 < b"
  have "a + b - 1 < ((a + b - 1) div b) * b + b"
    using \<open>0 < b\<close> by (metis add.commute dividend_less_div_times)
  then show ?thesis by (simp add: div_ceil_def)
qed

section \<open>Big-endian bytes\<close>

fun be_nat :: "bytes \<Rightarrow> nat" where
  "be_nat [] = 0"
| "be_nat (b # bs) = unat b * 256 ^ length bs + be_nat bs"

fun nat_be :: "nat \<Rightarrow> nat \<Rightarrow> bytes" where
  "nat_be 0 v = []"
| "nat_be (Suc n) v = of_nat (v div 256 ^ n) # nat_be n v"

lemma length_nat_be [simp]: "length (nat_be n v) = n"
  by (induction n) auto

lemma u8_less: "unat (b :: u8) < 256"
proof -
  have "unat b < 2 ^ LENGTH(8)" by (rule unsigned_less)
  also have "(2 :: nat) ^ LENGTH(8) = 256" by simp
  finally show ?thesis .
qed

lemma unat_ucast_byte: "unat (ucast (x :: u8) :: u64) = unat x"
proof -
  have "unat x < 2 ^ 64" using u8_less[of x] by simp
  then show ?thesis by (simp add: unsigned_ucast_eq take_bit_nat_eq_self)
qed

lemma be_nat_less: "be_nat bs < 256 ^ length bs"
proof (induction bs)
  case Nil
  then show ?case by simp
next
  case (Cons b bs)
  have "unat b * 256 ^ length bs + be_nat bs < (unat b + 1) * 256 ^ length bs"
    using Cons by simp
  also have "\<dots> \<le> 256 * 256 ^ length bs"
    by (intro mult_right_mono) (use u8_less[of b] in linarith, simp)
  finally show ?case by simp
qed

lemma be_nat_nat_be: "be_nat (nat_be n v) = v mod 256 ^ n"
proof (induction n)
  case 0
  then show ?case by simp
next
  case (Suc n)
  have "v mod 256 ^ Suc n = 256 ^ n * (v div 256 ^ n mod 256) + v mod 256 ^ n"
    by (metis mod_mult2_eq mult.commute power_Suc)
  with Suc show ?case by (simp add: unat_of_nat)
qed

lemma nat_be_add_mult: "nat_be n (a * 256 ^ n + v) = nat_be n v"
proof (induction n arbitrary: a v)
  case 0
  then show ?case by simp
next
  case (Suc n)
  have "(a * 256 ^ Suc n + v) div 256 ^ n = (v + (a * 256) * 256 ^ n) div 256 ^ n"
    by (simp add: ac_simps)
  also have "\<dots> = a * 256 + v div 256 ^ n"
    by (rule div_mult_self1) simp
  finally have eq: "(a * 256 ^ Suc n + v) div 256 ^ n = a * 256 + v div 256 ^ n" .
  have "(of_nat (a * 256 + v div 256 ^ n) :: u8) = of_nat (v div 256 ^ n)"
    by (rule word_unat_eq_iff [THEN iffD2]) (simp only: unat_of_nat, simp)
  note zero = this
  have "nat_be n (a * 256 ^ Suc n + v) = nat_be n v"
    using Suc[of "a * 256" v] by (simp add: ac_simps)
  then show ?case by (simp only: nat_be.simps eq zero)
qed

lemma nat_be_be_nat [simp]: "nat_be (length bs) (be_nat bs) = bs"
proof (induction bs)
  case Nil
  then show ?case by simp
next
  case (Cons b bs)
  have "(unat b * 256 ^ length bs + be_nat bs) div 256 ^ length bs = unat b"
    using be_nat_less[of bs] by (simp add: div_mult_self3)
  with Cons show ?case by (simp add: nat_be_add_mult)
qed

lemma be_nat_append: "be_nat (xs @ ys) = be_nat xs * 256 ^ length ys + be_nat ys"
  by (induction xs) (auto simp: power_add algebra_simps)

text \<open>\<open>to_be_bytes\<close> of a word of \<open>n\<close> bytes, and \<open>from_be_bytes\<close>.\<close>

definition to_be :: "nat \<Rightarrow> 'a::len word \<Rightarrow> bytes" where
  "to_be n w = nat_be n (unat w)"

definition of_be :: "bytes \<Rightarrow> 'a::len word" where
  "of_be bs = of_nat (be_nat bs)"

lemma length_to_be [simp]: "length (to_be n w) = n"
  by (simp add: to_be_def)

lemma of_be_to_be:
  fixes w :: "'a::len word"
  assumes "LENGTH('a) = 8 * n"
  shows "of_be (to_be n w) = w"
proof -
  have "(256 :: nat) ^ n = 2 ^ LENGTH('a)"
    using assms by (simp add: power_mult)
  then have "unat w mod 256 ^ n = unat w"
    using unsigned_less[of w] by simp
  then show ?thesis by (simp add: of_be_def to_be_def be_nat_nat_be)
qed

lemma to_be_of_be:
  assumes "LENGTH('a::len) = 8 * length bs"
  shows "to_be (length bs) (of_be bs :: 'a word) = bs"
proof -
  have "(256 :: nat) ^ length bs = 2 ^ LENGTH('a)"
    using assms by (simp add: power_mult)
  then have "be_nat bs < 2 ^ LENGTH('a)"
    using be_nat_less[of bs] by simp
  then have "unat (of_nat (be_nat bs) :: 'a word) = be_nat bs"
    by (simp add: unat_of_nat)
  then show ?thesis by (simp add: of_be_def to_be_def)
qed

lemma of_be_to_be_16 [simp]: "of_be (to_be 2 (w :: u16)) = w"
  and of_be_to_be_32 [simp]: "of_be (to_be 4 (w' :: u32)) = w'"
  and of_be_to_be_64 [simp]: "of_be (to_be 8 (w'' :: u64)) = w''"
  by (simp_all add: of_be_to_be)

lemma and_single_bit: "(b :: 'a::len word) AND 2 ^ n = (if bit b n then 2 ^ n else 0)"
  by (rule bit_eqI) (auto simp: bit_simps)

lemma bit_and_single: "bit ((b :: 'a::len word) AND 2 ^ k) n \<longleftrightarrow> n = k \<and> bit b k"
  by (auto simp: bit_simps dest: bit_imp_le_length)

section \<open>Slices, vectors and iterator searches\<close>

text \<open>\<open>slice.get(i..j)\<close>.\<close>

definition slice_get :: "'a list \<Rightarrow> nat \<Rightarrow> nat \<Rightarrow> 'a list option" where
  "slice_get xs i j = (if i \<le> j \<and> j \<le> length xs then Some (take (j - i) (drop i xs)) else None)"

text \<open>\<open>slice.get(i)\<close>.\<close>

definition get_at :: "'a list \<Rightarrow> nat \<Rightarrow> 'a option" where
  "get_at xs i = (if i < length xs then Some (xs ! i) else None)"

text \<open>\<open>iter().position(p)\<close> and \<open>iter().rposition(p)\<close>.\<close>

fun position :: "('a \<Rightarrow> bool) \<Rightarrow> 'a list \<Rightarrow> nat option" where
  "position p [] = None"
| "position p (x # xs) = (if p x then Some 0 else map_option Suc (position p xs))"

fun rposition :: "('a \<Rightarrow> bool) \<Rightarrow> 'a list \<Rightarrow> nat option" where
  "rposition p [] = None"
| "rposition p (x # xs) =
     (case rposition p xs of Some i \<Rightarrow> Some (Suc i) | None \<Rightarrow> if p x then Some 0 else None)"

text \<open>\<open>Vec::remove\<close> and \<open>Vec::swap_remove\<close> at an index in range.\<close>

definition remove_at :: "nat \<Rightarrow> 'a list \<Rightarrow> 'a list" where
  "remove_at i xs = take i xs @ drop (Suc i) xs"

definition swap_remove :: "nat \<Rightarrow> 'a list \<Rightarrow> 'a list" where
  "swap_remove i xs = butlast (xs[i := last xs])"

text \<open>
  \<open>min_by_key\<close> returns the first of several minima, \<open>max_by_key\<close> the last of several
  maxima.
\<close>

fun min_by_key :: "('a \<Rightarrow> 'k::linorder) \<Rightarrow> 'a list \<Rightarrow> 'a option" where
  "min_by_key f [] = None"
| "min_by_key f (x # xs) =
     (case min_by_key f xs of None \<Rightarrow> Some x | Some y \<Rightarrow> if f y < f x then Some y else Some x)"

fun max_by_key :: "('a \<Rightarrow> 'k::linorder) \<Rightarrow> 'a list \<Rightarrow> 'a option" where
  "max_by_key f [] = None"
| "max_by_key f (x # xs) =
     (case max_by_key f xs of None \<Rightarrow> Some x | Some y \<Rightarrow> if f x \<le> f y then Some y else Some x)"

lemma slice_get_Some:
  "slice_get xs i j = Some ys \<longleftrightarrow> i \<le> j \<and> j \<le> length xs \<and> ys = take (j - i) (drop i xs)"
  by (auto simp: slice_get_def)

lemma position_Some:
  "position p xs = Some i \<Longrightarrow> i < length xs \<and> p (xs ! i) \<and> (\<forall>j < i. \<not> p (xs ! j))"
  by (induction xs arbitrary: i) (auto split: if_splits simp: less_Suc_eq_0_disj)

lemma position_None: "position p xs = None \<longleftrightarrow> (\<forall>x \<in> set xs. \<not> p x)"
  by (induction xs) auto

lemma rposition_Some:
  "rposition p xs = Some i \<Longrightarrow> i < length xs \<and> p (xs ! i)"
  by (induction xs arbitrary: i) (auto split: if_splits option.splits)

lemma rposition_None: "rposition p xs = None \<longleftrightarrow> (\<forall>x \<in> set xs. \<not> p x)"
  by (induction xs) (auto split: option.splits)

lemma length_remove_at: "i < length xs \<Longrightarrow> length (remove_at i xs) = length xs - 1"
  by (simp add: remove_at_def)

lemma set_remove_at: "set (remove_at i xs) \<subseteq> set xs"
  by (auto simp: remove_at_def dest: in_set_takeD in_set_dropD)

lemma length_swap_remove [simp]: "length (swap_remove i xs) = length xs - 1"
  by (simp add: swap_remove_def)

lemma split_at: "i < length xs \<Longrightarrow> xs = take i xs @ xs ! i # drop (Suc i) xs"
  by (rule id_take_nth_drop)

lemma mset_remove_at: "i < length xs \<Longrightarrow> mset xs = add_mset (xs ! i) (mset (remove_at i xs))"
  by (subst split_at[of i xs]) (simp_all add: remove_at_def)

lemma mset_swap_remove:
  assumes "i < length xs"
  shows "mset (swap_remove i xs) = mset (remove_at i xs)"
proof (cases "Suc i = length xs")
  case True
  then have "i = length xs - 1" by simp
  then have "last xs = xs ! i" using assms by (cases xs) (auto simp: last_conv_nth)
  then have "xs[i := last xs] = xs" by simp
  with True show ?thesis
    by (auto simp: swap_remove_def remove_at_def butlast_conv_take \<open>i = length xs - 1\<close>)
next
  case False
  then have ne: "drop (Suc i) xs \<noteq> []" using assms by auto
  have "xs[i := last xs] = take i xs @ last xs # drop (Suc i) xs"
    using assms by (simp add: upd_conv_take_nth_drop)
  with ne have "swap_remove i xs = take i xs @ last xs # butlast (drop (Suc i) xs)"
    by (simp add: swap_remove_def butlast_append)
  moreover have "last xs = last (drop (Suc i) xs)" using ne by simp
  ultimately have "mset (swap_remove i xs)
      = mset (take i xs) + mset (butlast (drop (Suc i) xs) @ [last (drop (Suc i) xs)])"
    by (metis (no_types, lifting) mset_append mset.simps(2) add_mset_add_single append.right_neutral
        union_mset_add_mset_right union_commute mset.simps(1) add_0)
  also have "\<dots> = mset (remove_at i xs)"
    by (simp only: append_butlast_last_id[OF ne] remove_at_def mset_append)
  finally show ?thesis .
qed

lemma distinct_map_remove_at: "distinct (map f xs) \<Longrightarrow> distinct (map f (remove_at i xs))"
  by (auto simp: remove_at_def take_map drop_map set_take_disj_set_drop_if_distinct
      simp flip: take_map drop_map)

lemma set_remove_at_distinct:
  assumes "distinct (map f xs)" and "i < length xs"
  shows "set (remove_at i xs) = {x \<in> set xs. f x \<noteq> f (xs ! i)}"
proof -
  have "distinct (map f (take i xs @ xs ! i # drop (Suc i) xs))"
    using assms by (simp flip: id_take_nth_drop)
  moreover have "set xs = set (take i xs @ xs ! i # drop (Suc i) xs)"
    using assms(2) by (simp flip: id_take_nth_drop)
  ultimately show ?thesis by (auto simp: remove_at_def) (metis image_eqI)+
qed

lemma min_by_key_None [simp]: "min_by_key f xs = None \<longleftrightarrow> xs = []"
  by (cases xs) (auto split: option.splits)

lemma min_by_key_Some:
  "min_by_key f xs = Some y \<Longrightarrow> y \<in> set xs \<and> (\<forall>x \<in> set xs. f y \<le> f x)"
  by (induction xs arbitrary: y)
    (force split: option.splits if_splits dest: less_imp_le order.trans)+

lemma max_by_key_None [simp]: "max_by_key f xs = None \<longleftrightarrow> xs = []"
  by (cases xs) (auto split: option.splits)

lemma max_by_key_Some:
  "max_by_key f xs = Some y \<Longrightarrow> y \<in> set xs \<and> (\<forall>x \<in> set xs. f x \<le> f y)"
  by (induction xs arbitrary: y)
    (force split: option.splits if_splits dest: less_imp_le order.trans)+

section \<open>Results\<close>

text \<open>
  A \<open>Result<T, E>\<close> is the sum \<open>'e + 'a\<close>: \<open>Inl\<close> is \<open>Err\<close>, \<open>Inr\<close> is \<open>Ok\<close>. The
  \<open>?\<close> operator is \<open>and_then\<close>, \<open>Option::ok_or\<close> keeps its name.
\<close>

fun and_then :: "'e + 'a \<Rightarrow> ('a \<Rightarrow> 'e + 'b) \<Rightarrow> 'e + 'b" where
  "and_then (Inl e) f = Inl e"
| "and_then (Inr x) f = f x"

fun ok_or :: "'a option \<Rightarrow> 'e \<Rightarrow> 'e + 'a" where
  "ok_or None e = Inl e"
| "ok_or (Some x) e = Inr x"

definition is_ok :: "'e + 'a \<Rightarrow> bool" where
  "is_ok r = (case r of Inl _ \<Rightarrow> False | Inr _ \<Rightarrow> True)"

lemma and_then_Inr [simp]: "and_then r f = Inr y \<longleftrightarrow> (\<exists>x. r = Inr x \<and> f x = Inr y)"
  by (cases r) auto

lemma and_then_Inl: "and_then r f = Inl e \<longleftrightarrow> r = Inl e \<or> (\<exists>x. r = Inr x \<and> f x = Inl e)"
  by (cases r) auto

lemma ok_or_Inr [simp]: "ok_or x e = Inr y \<longleftrightarrow> x = Some y"
  by (cases x) auto

lemma ok_or_Inl [simp]: "ok_or x e = Inl e' \<longleftrightarrow> x = None \<and> e' = e"
  by (cases x) auto

lemma is_ok_simps [simp]: "is_ok (Inr x)" "\<not> is_ok (Inl e)"
  by (simp_all add: is_ok_def)

end
