(* ===== verification/Hashes.thy ===== *)
theory Hashes
  imports Prelude
begin

text \<open>
  \<open>crates/retinue/src/hash.rs\<close> and the crate's error type (\<open>lib.rs\<close>).

  \<open>AddressHash\<close> and \<open>NameHash\<close> wrap byte arrays of fixed length; the array
  \<open>[u8; 16]\<close> is the 128-bit word its bytes spell big-endian, so that the length is part of
  the type and the derived (lexicographic) \<open>Ord\<close> is the order of the words, which
  \<open>address_hash_less_lexordp\<close> proves. SHA-256 comes from the \<open>sha2\<close> crate and is the parameter
  \<open>sha\<close> of every definition that hashes.
\<close>

section \<open>Errors\<close>

datatype error =
    Truncated | Oversize | HopLimit | BadKey | BadSignature | BadIfac | DestinationMismatch
  | BadMac | BadPadding | NotAnAnnounce | BadLinkMode | NotAProof | NotALinkRequest
  | LinkMismatch | BadRequest | ResourceCorrupt | Unsupported | CapacityExceeded
  | DecompressionLimit | MultiSegmentResource | ResourceRejected | ResourceTimedOut

section \<open>Hashes\<close>

definition HASH_LEN :: nat where "HASH_LEN = 32"
definition ADDRESS_HASH_LEN :: nat where "ADDRESS_HASH_LEN = 16"
definition NAME_HASH_LEN :: nat where "NAME_HASH_LEN = 10"

lemmas hash_lens [simp] = HASH_LEN_def ADDRESS_HASH_LEN_def NAME_HASH_LEN_def

datatype address_hash = AddressHash (hash_word: "128 word")

datatype name_hash = NameHash (name_word: "80 word")

instantiation address_hash :: linorder
begin

definition less_eq_address_hash :: "address_hash \<Rightarrow> address_hash \<Rightarrow> bool" where
  "a \<le> b \<longleftrightarrow> hash_word a \<le> hash_word b"

definition less_address_hash :: "address_hash \<Rightarrow> address_hash \<Rightarrow> bool" where
  "a < b \<longleftrightarrow> hash_word a < hash_word b"

instance
  by standard (auto simp: less_eq_address_hash_def less_address_hash_def address_hash.expand)

end

instantiation name_hash :: linorder
begin

definition less_eq_name_hash :: "name_hash \<Rightarrow> name_hash \<Rightarrow> bool" where
  "a \<le> b \<longleftrightarrow> name_word a \<le> name_word b"

definition less_name_hash :: "name_hash \<Rightarrow> name_hash \<Rightarrow> bool" where
  "a < b \<longleftrightarrow> name_word a < name_word b"

instance
  by standard (auto simp: less_eq_name_hash_def less_name_hash_def name_hash.expand)

end

definition address_slice :: "address_hash \<Rightarrow> bytes" where
  "address_slice h = to_be ADDRESS_HASH_LEN (hash_word h)"

definition address_from_slice :: "bytes \<Rightarrow> address_hash option" where
  "address_from_slice s =
     map_option (\<lambda>bs. AddressHash (of_be bs)) (slice_get s 0 ADDRESS_HASH_LEN)"

definition name_slice :: "name_hash \<Rightarrow> bytes" where
  "name_slice h = to_be NAME_HASH_LEN (name_word h)"

definition name_from_slice :: "bytes \<Rightarrow> name_hash option" where
  "name_from_slice s = map_option (\<lambda>bs. NameHash (of_be bs)) (slice_get s 0 NAME_HASH_LEN)"

type_synonym sha256 = "bytes \<Rightarrow> 256 word"

definition full_hash :: "sha256 \<Rightarrow> bytes \<Rightarrow> bytes" where
  "full_hash sha data = to_be HASH_LEN (sha data)"

definition address_of :: "sha256 \<Rightarrow> bytes \<Rightarrow> address_hash" where
  "address_of sha data = AddressHash (of_be (take ADDRESS_HASH_LEN (full_hash sha data)))"

definition name_of :: "sha256 \<Rightarrow> bytes \<Rightarrow> name_hash" where
  "name_of sha data = NameHash (of_be (take NAME_HASH_LEN (full_hash sha data)))"

lemma length_address_slice [simp]: "length (address_slice h) = 16"
  by (simp add: address_slice_def)

lemma length_full_hash [simp]: "length (full_hash sha data) = 32"
  by (simp add: full_hash_def)

lemma address_from_slice_append [simp]: "address_from_slice (address_slice h @ rest) = Some h"
  by (simp add: address_from_slice_def slice_get_def address_slice_def of_be_to_be)

lemma name_from_slice_append [simp]: "name_from_slice (name_slice h @ rest) = Some h"
  by (simp add: name_from_slice_def slice_get_def name_slice_def of_be_to_be)

lemma address_from_slice_Some:
  "address_from_slice s = Some h \<longleftrightarrow> 16 \<le> length s \<and> address_slice h = take 16 s"
proof
  assume "address_from_slice s = Some h"
  then have len: "16 \<le> length s" and h: "h = AddressHash (of_be (take 16 s))"
    by (auto simp: address_from_slice_def slice_get_def split: if_splits)
  have "address_slice h = take 16 s"
    using to_be_of_be[of "take 16 s", where 'a = 128] len by (simp add: h address_slice_def)
  with len show "16 \<le> length s \<and> address_slice h = take 16 s" by simp
next
  assume "16 \<le> length s \<and> address_slice h = take 16 s"
  then have "s = address_slice h @ drop 16 s" by (metis append_take_drop_id)
  then show "address_from_slice s = Some h" by (metis address_from_slice_append)
qed

lemma address_from_slice_None: "address_from_slice s = None \<longleftrightarrow> length s < 16"
  by (auto simp: address_from_slice_def slice_get_def)

lemma address_slice_inject [simp]: "address_slice a = address_slice b \<longleftrightarrow> a = b"
  by (metis address_from_slice_append option.inject)

text \<open>The order of address hashes is the lexicographic order of their bytes.\<close>

lemma be_nat_less_iff:
  "length xs = length ys \<Longrightarrow> be_nat xs < be_nat ys \<longleftrightarrow> ord_class.lexordp xs ys"
proof (induction xs ys rule: list_induct2)
  case Nil
  then show ?case by simp
next
  case (Cons x xs y ys)
  let ?k = "256 ^ length ys :: nat"
  have bx: "be_nat xs < ?k" and by_: "be_nat ys < ?k"
    using be_nat_less[of xs] be_nat_less[of ys] Cons by simp_all
  have step: "unat a * ?k + be_nat us < unat b * ?k + be_nat vs"
    if "unat a < unat b" "be_nat us < ?k" for a b :: u8 and us vs
  proof -
    have "unat a * ?k + be_nat us < (unat a + 1) * ?k" using that by simp
    also have "\<dots> \<le> unat b * ?k" using that by (intro mult_right_mono) auto
    finally show ?thesis by simp
  qed
  consider "unat x < unat y" | "unat y < unat x" | "x = y"
    by (metis linorder_neqE_nat word_unat_eq_iff)
  then show ?case
  proof cases
    case 1
    then show ?thesis using step[of x y xs ys] bx Cons by (simp add: word_less_nat_alt)
  next
    case 2
    then show ?thesis using step[of y x ys xs] by_ Cons
      by (auto simp: word_less_nat_alt not_less)
  next
    case 3
    then show ?thesis using Cons by simp
  qed
qed

lemma address_hash_less_lexordp:
  "a < b \<longleftrightarrow> ord_class.lexordp (address_slice a) (address_slice b)"
proof -
  have "unat w = be_nat (to_be 16 w)" for w :: "128 word"
  proof -
    have "unat w < 2 ^ LENGTH(128)" by (rule unsigned_less)
    also have "(2 :: nat) ^ LENGTH(128) = 256 ^ 16" by simp
    finally have "unat w mod 256 ^ 16 = unat w" by (rule mod_less)
    then show ?thesis unfolding to_be_def be_nat_nat_be by simp
  qed
  then show ?thesis
    by (simp add: less_address_hash_def word_less_nat_alt address_slice_def be_nat_less_iff)
qed

end
