(* ===== verification/Interfaces.thy ===== *)
theory Interfaces
  imports Prelude
begin

text \<open>
  The contracts several components share, each proved once from its laws and interpreted on the
  components' own definitions: a wire codec, a codec that accepts nothing else, a byte framing,
  and a table whose operations keep an invariant.
\<close>

section \<open>Codecs\<close>

locale wire_codec =
  fixes enc :: "'a \<Rightarrow> bytes" and dec :: "bytes \<Rightarrow> 'a option" and wf :: "'a \<Rightarrow> bool"
  assumes dec_enc: "wf x \<Longrightarrow> dec (enc x) = Some x"
begin

lemma enc_inject: "wf x \<Longrightarrow> wf y \<Longrightarrow> enc x = enc y \<Longrightarrow> x = y"
  using dec_enc by (metis option.inject)

end

locale strict_codec = wire_codec +
  assumes dec_sound: "dec bs = Some x \<Longrightarrow> wf x \<and> enc x = bs"
begin

lemma dec_iff: "dec bs = Some x \<longleftrightarrow> wf x \<and> bs = enc x"
  using dec_enc dec_sound by blast

lemma dec_inject: "dec bs = Some x \<Longrightarrow> dec bs' = Some x \<Longrightarrow> bs = bs'"
  using dec_sound by blast

end

section \<open>Framing\<close>

text \<open>A decoder fed byte by byte, and what it hands over on the way.\<close>

fun feed_bytes :: "('s \<Rightarrow> u8 \<Rightarrow> 's \<times> 'f option) \<Rightarrow> 's \<Rightarrow> bytes \<Rightarrow> 's \<times> 'f list" where
  "feed_bytes push s [] = (s, [])"
| "feed_bytes push s (b # bs) =
     (let (s', f) = push s b; (s'', fs) = feed_bytes push s' bs
      in (s'', (case f of None \<Rightarrow> fs | Some x \<Rightarrow> x # fs)))"

lemma feed_bytes_append:
  "feed_bytes push s (xs @ ys) =
     (let (s', fs) = feed_bytes push s xs; (s'', gs) = feed_bytes push s' ys in (s'', fs @ gs))"
  by (induction xs arbitrary: s) (auto simp: Let_def split: prod.splits option.splits)

locale framing =
  fixes push :: "'s \<Rightarrow> u8 \<Rightarrow> 's \<times> 'f option" and frame :: "'f \<Rightarrow> bytes"
    and ready :: "'s \<Rightarrow> bool" and fits :: "'f \<Rightarrow> bool"
  assumes one_frame: "ready s \<Longrightarrow> fits p \<Longrightarrow>
    \<exists>s'. feed_bytes push s (frame p) = (s', [p]) \<and> ready s'"
begin

lemma frames_back_to_back:
  "ready s \<Longrightarrow> \<forall>p \<in> set ps. fits p \<Longrightarrow>
     \<exists>s'. feed_bytes push s (concat (map frame ps)) = (s', ps) \<and> ready s'"
proof (induction ps arbitrary: s)
  case Nil
  then show ?case by simp
next
  case (Cons p ps)
  then obtain s1 where s1: "feed_bytes push s (frame p) = (s1, [p])" "ready s1"
    using one_frame[of s p] by auto
  with Cons obtain s2 where "feed_bytes push s1 (concat (map frame ps)) = (s2, ps)" "ready s2"
    by auto
  with s1 show ?case by (simp add: feed_bytes_append)
qed

lemma frame_inject: "fits p \<Longrightarrow> fits q \<Longrightarrow> ready s \<Longrightarrow> frame p = frame q \<Longrightarrow> p = q"
  using one_frame by (metis list.inject prod.inject)

end

section \<open>Operations that keep an invariant\<close>

locale guarded_ops =
  fixes run :: "'s \<Rightarrow> 'op \<Rightarrow> 's" and inv :: "'s \<Rightarrow> bool"
  assumes step_inv: "inv s \<Longrightarrow> inv (run s op)"
begin

lemma run_inv: "inv s \<Longrightarrow> inv (foldl run s ops)"
  by (induction ops arbitrary: s) (simp_all add: step_inv)

end

end
