(* ===== verification/Packets.thy ===== *)
theory Packets
  imports Hashes Interfaces
begin

text \<open>
  The packet header and its codec, \<open>crates/retinue/src/packet.rs\<close>: the four header enums,
  the \<open>Packet\<close> struct, \<open>Packet::decode_with_limit\<close>, \<open>Packet::encode\<close> and the packet hash.
  \<open>valid_packet\<close> is what the encoder's callers maintain: a transport address exactly on a
  two-address header, fewer than \<open>MAX_HOPS\<close> hops and a payload.
\<close>

section \<open>Constants\<close>

definition HEADER_MIN_LEN :: nat where "HEADER_MIN_LEN = 2 + ADDRESS_HASH_LEN + 1"
definition HEADER_MAX_LEN :: nat where "HEADER_MAX_LEN = 2 + ADDRESS_HASH_LEN * 2 + 1"
definition MAX_HOPS :: u8 where "MAX_HOPS = 128"
definition MTU :: nat where "MTU = 500"
definition MDU :: nat where "MDU = 464"
definition ENCRYPTED_MDU :: nat where "ENCRYPTED_MDU = 383"

named_theorems packet_consts \<open>constants of the packet codec\<close>

lemmas [packet_consts] = HEADER_MIN_LEN_def HEADER_MAX_LEN_def MAX_HOPS_def MTU_def MDU_def
  ENCRYPTED_MDU_def

section \<open>Header fields\<close>

datatype packet_type = Data | Announce | LinkRequest | Proof

definition packet_type_from_bits :: "u8 \<Rightarrow> packet_type" where
  "packet_type_from_bits bits =
     (let b = bits AND 0b11 in
      if b = 0 then Data else if b = 1 then Announce else if b = 2 then LinkRequest else Proof)"

fun packet_type_to_bits :: "packet_type \<Rightarrow> u8" where
  "packet_type_to_bits Data = 0"
| "packet_type_to_bits Announce = 1"
| "packet_type_to_bits LinkRequest = 2"
| "packet_type_to_bits Proof = 3"

datatype destination_type = Single | Group | Plain | Link

definition destination_type_from_bits :: "u8 \<Rightarrow> destination_type" where
  "destination_type_from_bits bits =
     (let b = bits AND 0b11 in
      if b = 0 then Single else if b = 1 then Group else if b = 2 then Plain else Link)"

fun destination_type_to_bits :: "destination_type \<Rightarrow> u8" where
  "destination_type_to_bits Single = 0"
| "destination_type_to_bits Group = 1"
| "destination_type_to_bits Plain = 2"
| "destination_type_to_bits Link = 3"

datatype header_type = Type1 | Type2

datatype propagation = Broadcast | Transport

record packet =
  pk_ifac :: bool
  pk_header_type :: header_type
  pk_context_flag :: bool
  pk_propagation :: propagation
  pk_destination_type :: destination_type
  pk_packet_type :: packet_type
  pk_hops :: u8
  pk_transport :: "address_hash option"
  pk_destination :: address_hash
  pk_context :: u8
  pk_payload :: bytes

section \<open>Decoding\<close>

definition decode_with_limit :: "bytes \<Rightarrow> nat \<Rightarrow> error + packet" where
  "decode_with_limit bs mx =
    (if length bs < HEADER_MIN_LEN then Inl Truncated
     else if length bs > mx then Inl Oversize
     else
       let flags = bs ! 0;
           ifac = (flags AND 0b10000000 \<noteq> 0);
           header_type = (if flags AND 0b01000000 \<noteq> 0 then Type2 else Type1);
           context_flag = (flags AND 0b00100000 \<noteq> 0);
           prop = (if flags AND 0b00010000 \<noteq> 0 then Transport else Broadcast);
           destination_type = destination_type_from_bits (drop_bit 2 flags);
           packet_type = packet_type_from_bits flags;
           hops = bs ! 1
       in if MAX_HOPS \<le> hops then Inl HopLimit
       else
         and_then
           (case header_type of
              Type2 \<Rightarrow> and_then (ok_or (address_from_slice (drop 2 bs)) Truncated)
                         (\<lambda>h. Inr (Some h, 2 + ADDRESS_HASH_LEN))
            | Type1 \<Rightarrow> Inr (None, 2))
           (\<lambda>(transport, off).
             and_then (ok_or (address_from_slice (drop off bs)) Truncated) (\<lambda>destination.
               let off = off + ADDRESS_HASH_LEN in
               and_then (ok_or (get_at bs off) Truncated) (\<lambda>ctxt.
                 let off = off + 1 in
                 if off = length bs then Inl Truncated
                 else Inr \<lparr>pk_ifac = ifac, pk_header_type = header_type,
                   pk_context_flag = context_flag, pk_propagation = prop,
                   pk_destination_type = destination_type, pk_packet_type = packet_type,
                   pk_hops = hops, pk_transport = transport, pk_destination = destination,
                   pk_context = ctxt, pk_payload = drop off bs\<rparr>))))"

definition decode :: "bytes \<Rightarrow> error + packet" where
  "decode bs = decode_with_limit bs MTU"

section \<open>Addressing, hashing, encoding\<close>

definition address_via :: "packet \<Rightarrow> address_hash option \<Rightarrow> packet" where
  "address_via p transport =
     (case transport of
        Some t \<Rightarrow> p\<lparr>pk_header_type := Type2, pk_transport := Some t\<rparr>
      | None \<Rightarrow> p)"

definition packet_flags :: "packet \<Rightarrow> u8" where
  "packet_flags p =
    (let flags = push_bit 2 (destination_type_to_bits (pk_destination_type p))
                   OR packet_type_to_bits (pk_packet_type p);
         flags = (if pk_header_type p = Type2 then flags OR 0b01000000 else flags);
         flags = (if pk_context_flag p then flags OR 0b00100000 else flags)
     in if pk_propagation p = Transport then flags OR 0b00010000 else flags)"

definition packet_full_hash :: "sha256 \<Rightarrow> packet \<Rightarrow> bytes" where
  "packet_full_hash sha p =
     full_hash sha ([packet_flags p AND 0x0F] @ address_slice (pk_destination p)
       @ [pk_context p] @ pk_payload p)"

definition packet_hash :: "sha256 \<Rightarrow> packet \<Rightarrow> address_hash" where
  "packet_hash sha p = AddressHash (of_be (take ADDRESS_HASH_LEN (packet_full_hash sha p)))"

definition encoded_len :: "packet \<Rightarrow> nat" where
  "encoded_len p =
     (case pk_header_type p of Type1 \<Rightarrow> HEADER_MIN_LEN | Type2 \<Rightarrow> HEADER_MAX_LEN)
       + length (pk_payload p)"

definition within_mtu :: "packet \<Rightarrow> bool" where
  "within_mtu p \<longleftrightarrow> encoded_len p \<le> MTU"

definition encode :: "packet \<Rightarrow> bytes" where
  "encode p =
     [packet_flags p, pk_hops p]
     @ (case pk_transport p of Some t \<Rightarrow> address_slice t | None \<Rightarrow> [])
     @ address_slice (pk_destination p) @ [pk_context p] @ pk_payload p"

definition valid_packet :: "packet \<Rightarrow> bool" where
  "valid_packet p \<longleftrightarrow>
     (pk_header_type p = Type2 \<longleftrightarrow> pk_transport p \<noteq> None)
     \<and> pk_hops p < MAX_HOPS \<and> pk_payload p \<noteq> []"

section \<open>The flag byte\<close>

lemma packet_type_bits [simp]: "packet_type_from_bits (packet_type_to_bits t) = t"
  by (cases t) (simp_all add: packet_type_from_bits_def)

lemma destination_type_bits [simp]: "destination_type_from_bits (destination_type_to_bits t) = t"
  by (cases t) (simp_all add: destination_type_from_bits_def)

lemma packet_flags_fields:
  "packet_flags p AND 0b10000000 = 0"
  "packet_flags p AND 0b01000000 \<noteq> 0 \<longleftrightarrow> pk_header_type p = Type2"
  "packet_flags p AND 0b00100000 \<noteq> 0 \<longleftrightarrow> pk_context_flag p"
  "packet_flags p AND 0b00010000 \<noteq> 0 \<longleftrightarrow> pk_propagation p = Transport"
  "destination_type_from_bits (drop_bit 2 (packet_flags p)) = pk_destination_type p"
  "packet_type_from_bits (packet_flags p) = pk_packet_type p"
  by (cases "pk_destination_type p"; cases "pk_packet_type p"; cases "pk_header_type p";
      cases "pk_context_flag p"; cases "pk_propagation p";
      simp add: packet_flags_def packet_type_from_bits_def destination_type_from_bits_def)+

lemma flags_low_nibble:
  "packet_flags p AND 0x0F =
     push_bit 2 (destination_type_to_bits (pk_destination_type p))
       OR packet_type_to_bits (pk_packet_type p)"
  by (cases "pk_destination_type p"; cases "pk_packet_type p"; cases "pk_header_type p";
      cases "pk_context_flag p"; cases "pk_propagation p"; simp add: packet_flags_def)


lemma and_3_cases: "(b :: u8) AND 3 = 0 \<or> b AND 3 = 1 \<or> b AND 3 = 2 \<or> b AND 3 = 3"
proof -
  have "unat (b AND 3) = unat (take_bit 2 b)"
    by (simp add: take_bit_eq_mask mask_eq_exp_minus_1)
  also have "\<dots> = take_bit 2 (unat b)"
    by (rule unsigned_take_bit_eq)
  also have "\<dots> = unat b mod 4"
    by (simp add: take_bit_eq_mod)
  finally have "unat (b AND 3) \<in> {0, 1, 2, 3}" by auto
  then show ?thesis by (auto simp: word_unat_eq_iff)
qed

lemma packet_type_to_from_bits: "packet_type_to_bits (packet_type_from_bits b) = b AND 3"
  using and_3_cases[of b] by (auto simp: packet_type_from_bits_def)

lemma destination_type_to_from_bits:
  "destination_type_to_bits (destination_type_from_bits b) = b AND 3"
  using and_3_cases[of b] by (auto simp: destination_type_from_bits_def)

lemma flag_bits:
  "(b :: u8) AND 64 = (if bit b 6 then 64 else 0)"
  "b AND 32 = (if bit b 5 then 32 else 0)"
  "b AND 16 = (if bit b 4 then 16 else 0)"
  "b AND 128 = (if bit b 7 then 128 else 0)"
  using and_single_bit[of b 6] and_single_bit[of b 5] and_single_bit[of b 4]
    and_single_bit[of b 7] by simp_all

lemma flag_byte_split:
  "push_bit 2 (drop_bit 2 f AND 3) OR (f AND 3) OR (f AND 64) OR (f AND 32) OR (f AND 16)
     = (f :: u8) AND 127"
proof (rule bit_word_eqI)
  fix n assume "n < LENGTH(8)"
  then have "n \<in> {0, 1, 2, 3, 4, 5, 6, 7}" by auto
  then show "bit (push_bit 2 (drop_bit 2 f AND 3) OR (f AND 3) OR (f AND 64) OR (f AND 32)
      OR (f AND 16)) n = bit (f AND 127) n"
    by (auto simp: bit_simps simp flip: numeral_2_eq_2 numeral_3_eq_3)
qed


section \<open>Round trips\<close>

lemma not_Transport [simp]: "x \<noteq> Transport \<longleftrightarrow> x = Broadcast"
  by (cases x) auto

lemma not_Type2 [simp]: "x \<noteq> Type2 \<longleftrightarrow> x = Type1"
  by (cases x) auto

text \<open>What a successful decode read, field by field.\<close>

lemma decode_InrD:
  assumes "decode_with_limit bs mx = Inr p"
  shows "19 \<le> length bs" "length bs \<le> mx" "bs ! 1 < 128" "pk_hops p = bs ! 1"
    "pk_header_type p = (if bs ! 0 AND 64 \<noteq> 0 then Type2 else Type1)"
    "pk_context_flag p \<longleftrightarrow> bs ! 0 AND 32 \<noteq> 0"
    "pk_propagation p = (if bs ! 0 AND 16 \<noteq> 0 then Transport else Broadcast)"
    "pk_destination_type p = destination_type_from_bits (drop_bit 2 (bs ! 0))"
    "pk_packet_type p = packet_type_from_bits (bs ! 0)"
    "pk_ifac p \<longleftrightarrow> bs ! 0 AND 128 \<noteq> 0"
    "case pk_header_type p of
       Type1 \<Rightarrow> pk_transport p = None \<and> address_from_slice (drop 2 bs) = Some (pk_destination p)
         \<and> get_at bs 18 = Some (pk_context p) \<and> pk_payload p = drop 19 bs \<and> length bs \<noteq> 19
     | Type2 \<Rightarrow> (\<exists>t. address_from_slice (drop 2 bs) = Some t \<and> pk_transport p = Some t)
         \<and> address_from_slice (drop 18 bs) = Some (pk_destination p)
         \<and> get_at bs 34 = Some (pk_context p) \<and> pk_payload p = drop 35 bs \<and> length bs \<noteq> 35"
  using assms
  by (auto simp: decode_with_limit_def Let_def packet_consts not_le split: if_split_asm
      dest: sym [of "Some x" for x])

lemma rebuilt_flags:
  assumes "decode_with_limit bs mx = Inr p"
  shows "packet_flags p = bs ! 0 AND 127"
proof -
  have "packet_flags p =
      push_bit 2 (drop_bit 2 (bs ! 0) AND 3) OR (bs ! 0 AND 3) OR (bs ! 0 AND 64)
        OR (bs ! 0 AND 32) OR (bs ! 0 AND 16)"
    using decode_InrD(5-9)[OF assms]
    by (auto simp: packet_flags_def Let_def flag_bits or.assoc
        packet_type_to_from_bits destination_type_to_from_bits)
  then show ?thesis by (simp only: flag_byte_split)
qed

lemma encode_length: "valid_packet p \<Longrightarrow> length (encode p) = encoded_len p"
  by (cases "pk_header_type p")
     (auto simp: encode_def encoded_len_def valid_packet_def packet_consts)

lemma decode_encode:
  assumes "valid_packet p" and "encoded_len p \<le> mx"
  shows "decode_with_limit (encode p) mx = Inr (p\<lparr>pk_ifac := False\<rparr>)"
proof -
  have len: "length (encode p) = encoded_len p"
    using assms(1) by (rule encode_length)
  have fields: "encode p ! 0 = packet_flags p" "encode p ! 1 = pk_hops p"
    by (simp_all add: encode_def)
  show ?thesis
  proof (cases "pk_header_type p")
    case Type1
    then have "pk_transport p = None" using assms(1) by (simp add: valid_packet_def)
    with Type1 assms len fields show ?thesis
      by (auto simp: decode_with_limit_def packet_flags_fields encoded_len_def packet_consts
          valid_packet_def encode_def get_at_def nth_append Let_def intro: packet.equality)
  next
    case Type2
    then obtain t where "pk_transport p = Some t" using assms(1) by (auto simp: valid_packet_def)
    with Type2 assms len fields show ?thesis
      by (auto simp: decode_with_limit_def packet_flags_fields encoded_len_def packet_consts
          valid_packet_def encode_def get_at_def nth_append Let_def intro: packet.equality)
  qed
qed


lemma drop_split: "n + k \<le> length bs \<Longrightarrow> take k (drop n bs) @ drop (n + k) bs = drop n bs"
  by (metis add.commute append_take_drop_id drop_drop)

lemma get_at_drop: "get_at bs n = Some b \<Longrightarrow> drop n bs = b # drop (Suc n) bs"
  by (auto simp: get_at_def Cons_nth_drop_Suc split: if_splits)

lemma decode_tail:
  assumes "decode_with_limit bs mx = Inr p"
  shows "(case pk_transport p of Some t \<Rightarrow> address_slice t | None \<Rightarrow> [])
    @ address_slice (pk_destination p) @ [pk_context p] @ pk_payload p = drop 2 bs"
proof (cases "pk_header_type p")
  case Type1
  with decode_InrD(11)[OF assms] show ?thesis
    by (auto simp: address_from_slice_Some drop_split[of 2 16 bs, simplified]
        dest: get_at_drop[symmetric])
next
  case Type2
  with decode_InrD(11)[OF assms] show ?thesis
    by (auto simp: address_from_slice_Some drop_split[of 2 16 bs, simplified]
        drop_split[of 18 16 bs, simplified] dest: get_at_drop[symmetric])
qed

lemma decode_valid: "decode_with_limit bs mx = Inr p \<Longrightarrow> valid_packet p"
  using decode_InrD[of bs mx p]
  by (cases "pk_header_type p") (auto simp: valid_packet_def packet_consts get_at_def split: if_splits)

lemma encode_decode:
  assumes "decode_with_limit bs mx = Inr p"
  shows "encode p = bs[0 := bs ! 0 AND 127]"
proof -
  have "bs = bs ! 0 # bs ! 1 # drop 2 bs"
    using decode_InrD(1)[OF assms]
    by (cases bs; cases "tl bs") auto
  then have "bs[0 := bs ! 0 AND 127] = (bs ! 0 AND 127) # bs ! 1 # drop 2 bs"
    by (metis list_update_code(2))
  then show ?thesis
    using decode_tail[OF assms] decode_InrD(4)[OF assms] rebuilt_flags[OF assms]
    by (simp add: encode_def)
qed

text \<open>Exactly which inputs decode, and which error each of the others gets.\<close>

definition header_len :: "bytes \<Rightarrow> nat" where
  "header_len bs = (if bs ! 0 AND 64 \<noteq> 0 then HEADER_MAX_LEN else HEADER_MIN_LEN)"

lemma decode_outcome:
  "decode_with_limit bs mx = Inl e \<longleftrightarrow>
     (if length bs < HEADER_MIN_LEN then e = Truncated
      else if mx < length bs then e = Oversize
      else if MAX_HOPS \<le> bs ! 1 then e = HopLimit
      else length bs \<le> header_len bs \<and> e = Truncated)"
  by (simp add: decode_with_limit_def Let_def packet_consts header_len_def
      address_from_slice_def slice_get_def get_at_def) auto

section \<open>Hash stability\<close>

lemma packet_full_hash_masked:
  "packet_full_hash sha p = full_hash sha
     ((push_bit 2 (destination_type_to_bits (pk_destination_type p))
         OR packet_type_to_bits (pk_packet_type p))
      # address_slice (pk_destination p) @ [pk_context p] @ pk_payload p)"
  by (simp add: packet_full_hash_def flags_low_nibble)

lemma address_via_hash: "packet_hash sha (address_via p t) = packet_hash sha p"
  by (simp add: packet_hash_def packet_full_hash_masked address_via_def split: option.split)

section \<open>Properties\<close>

text \<open>The packet codec of an interface: what a node may send over it and what it reads back.\<close>

definition decode_opt :: "nat \<Rightarrow> bytes \<Rightarrow> packet option" where
  "decode_opt mx bs = (case decode_with_limit bs mx of Inl _ \<Rightarrow> None | Inr p \<Rightarrow> Some p)"

interpretation packet_codec: wire_codec encode "decode_opt mx"
    "\<lambda>p. valid_packet p \<and> \<not> pk_ifac p \<and> encoded_len p \<le> mx"
  by unfold_locales (auto simp: decode_opt_def decode_encode)

definition sample_packet :: packet where
  "sample_packet = \<lparr>pk_ifac = False, pk_header_type = Type2, pk_context_flag = True,
     pk_propagation = Transport, pk_destination_type = Single, pk_packet_type = Announce,
     pk_hops = 3, pk_transport = Some (AddressHash 5), pk_destination = AddressHash 9,
     pk_context = 1, pk_payload = [7]\<rparr>"

lemma sample_packet_valid: "valid_packet sample_packet" "encoded_len sample_packet = 36"
  by (simp_all add: sample_packet_def valid_packet_def encoded_len_def packet_consts)

text \<open>
  C19: every packet the decoder could have produced survives the wire: encoding it and decoding
  the bytes within the interface's limit gives the packet back, with the interface-access flag
  clear. In particular header type, hops, addresses, context and payload all come back.
\<close>

theorem packet_decode_encode:
  assumes "valid_packet p" "encoded_len p \<le> mx"
  shows "decode_with_limit (encode p) mx = Inr (p\<lparr>pk_ifac := False\<rparr>)"
  using assms by (rule decode_encode)

theorem packet_decode_encode_witness:
  "decode_with_limit (encode sample_packet) 500 = Inr (sample_packet\<lparr>pk_ifac := False\<rparr>)"
  by (rule packet_decode_encode) (simp_all add: sample_packet_valid)

text \<open>
  The decoder loses nothing: a packet decoded from any bytes is well formed and encodes to
  those very bytes, except that bit 7 of the flag byte (the interface-access flag) is cleared.
\<close>

theorem packet_encode_decode:
  assumes "decode_with_limit bs mx = Inr p"
  shows "valid_packet p \<and> encode p = bs[0 := bs ! 0 AND 127]"
  using decode_valid[OF assms] encode_decode[OF assms] by simp

theorem packet_encode_decode_witness:
  "encode (sample_packet\<lparr>pk_ifac := False\<rparr>) = (encode sample_packet)[0 := encode sample_packet ! 0 AND 127]"
  using packet_encode_decode[OF decode_encode[OF sample_packet_valid(1), of 36]]
  by (simp add: sample_packet_valid)

text \<open>
  The decoder is total, and its errors are exactly these: too short for the smallest header,
  longer than the interface allows, 128 hops or more, or nothing after the header the flag byte
  announces; everything else decodes.
\<close>

theorem packet_decode_errors:
  "decode_with_limit bs mx = Inl e \<longleftrightarrow>
     (if length bs < HEADER_MIN_LEN then e = Truncated
      else if mx < length bs then e = Oversize
      else if MAX_HOPS \<le> bs ! 1 then e = HopLimit
      else length bs \<le> header_len bs \<and> e = Truncated)"
  by (rule decode_outcome)

text \<open>
  The packet hash is the same at both ends of a route: it does not change when a relay
  rewrites the hop count, the header type, the transport address or the propagation flag, nor
  when the originator addresses the packet to its first relay.
\<close>

theorem packet_hash_stable:
  "packet_hash sha (p\<lparr>pk_hops := h, pk_header_type := ht, pk_transport := t,
       pk_propagation := pr, pk_context_flag := cf, pk_ifac := i\<rparr>) = packet_hash sha p
   \<and> packet_hash sha (address_via p t) = packet_hash sha p"
  by (simp add: address_via_hash) (simp add: packet_hash_def packet_full_hash_masked)

end
