(* ===== verification/ChannelWire.thy ===== *)
theory ChannelWire
  imports Interfaces
begin

text \<open>
  The wire layouts of the reliable channel, \<open>crates/retinue/src/channel/wire.rs\<close>: the
  \<open>Envelope\<close> (message type, sequence and length, 16 bits each, then the payload) and the
  \<open>StreamFrame\<close> a byte stream puts inside it (a 16-bit header of two flag bits and a 14-bit
  stream id, then the data).
\<close>

section \<open>Constants\<close>

definition SEQ_MODULUS :: nat where "SEQ_MODULUS = 65536"
definition STREAM_MSGTYPE :: u16 where "STREAM_MSGTYPE = 0xFF00"
definition STREAM_ID_MAX :: u16 where "STREAM_ID_MAX = 0x3FFF"
definition MAX_DATA_LEN :: nat where "MAX_DATA_LEN = 423"
definition MAX_CHUNK_LEN :: nat where "MAX_CHUNK_LEN = 16 * 1024"
definition EOF_BIT :: u16 where "EOF_BIT = 0x8000"
definition COMPRESSED_BIT :: u16 where "COMPRESSED_BIT = 0x4000"

named_theorems channel_consts \<open>constants of the channel\<close>

lemmas [channel_consts] = SEQ_MODULUS_def STREAM_MSGTYPE_def STREAM_ID_MAX_def MAX_DATA_LEN_def
  MAX_CHUNK_LEN_def EOF_BIT_def COMPRESSED_BIT_def

section \<open>Envelopes\<close>

record envelope =
  env_msgtype :: u16
  env_sequence :: u16
  env_payload :: bytes

definition envelope_encode :: "envelope \<Rightarrow> bytes" where
  "envelope_encode e =
     to_be 2 (env_msgtype e) @ to_be 2 (env_sequence e)
       @ to_be 2 (of_nat (length (env_payload e)) :: u16) @ env_payload e"

definition envelope_decode :: "bytes \<Rightarrow> envelope option" where
  "envelope_decode bs =
     (case slice_get bs 0 2 of None \<Rightarrow> None | Some m \<Rightarrow>
      case slice_get bs 2 4 of None \<Rightarrow> None | Some s \<Rightarrow>
      case slice_get bs 4 6 of None \<Rightarrow> None | Some l \<Rightarrow>
      let len = unat (of_be l :: u16) in
      case slice_get bs 6 (6 + len) of None \<Rightarrow> None | Some payload \<Rightarrow>
      Some \<lparr>env_msgtype = of_be m, env_sequence = of_be s, env_payload = payload\<rparr>)"

section \<open>Stream frames\<close>

record stream_frame =
  sf_stream_id :: u16
  sf_eof :: bool
  sf_compressed :: bool
  sf_data :: bytes

definition stream_header :: "stream_frame \<Rightarrow> u16" where
  "stream_header f =
    (let header = sf_stream_id f AND STREAM_ID_MAX;
         header = (if sf_eof f then header OR EOF_BIT else header)
     in if sf_compressed f then header OR COMPRESSED_BIT else header)"

definition stream_frame_encode :: "stream_frame \<Rightarrow> bytes" where
  "stream_frame_encode f = to_be 2 (stream_header f) @ sf_data f"

definition stream_frame_decode :: "bytes \<Rightarrow> stream_frame option" where
  "stream_frame_decode bs =
     (case slice_get bs 0 2 of None \<Rightarrow> None | Some h \<Rightarrow>
      let header = of_be h :: u16 in
      Some \<lparr>sf_stream_id = header AND STREAM_ID_MAX, sf_eof = (header AND EOF_BIT \<noteq> 0),
        sf_compressed = (header AND COMPRESSED_BIT \<noteq> 0), sf_data = drop 2 bs\<rparr>)"

section \<open>Round trips\<close>

lemma take_Suc_append2: "length xs = 2 \<Longrightarrow> take 2 (xs @ ys) = xs"
  by simp

lemma unat_of_nat_u16: "n < 65536 \<Longrightarrow> unat (of_nat n :: u16) = n"
  by (simp add: unat_of_nat)

text \<open>
  The decoder reads exactly the declared length and does not look further: bytes after the
  payload are ignored.
\<close>

lemma envelope_decode_encode_append:
  assumes "length (env_payload e) < SEQ_MODULUS"
  shows "envelope_decode (envelope_encode e @ rest) = Some e"
proof -
  have "unat (of_be (to_be 2 (of_nat (length (env_payload e)) :: u16)) :: u16)
      = length (env_payload e)"
    using assms by (simp add: channel_consts unat_of_nat_u16)
  then show ?thesis
    by (simp add: envelope_decode_def envelope_encode_def slice_get_def Let_def drop_append)
qed

lemma envelope_encode_decode:
  assumes "envelope_decode bs = Some e"
  shows "\<exists>rest. bs = envelope_encode e @ rest \<and> length (env_payload e) < SEQ_MODULUS"
proof -
  let ?l = "of_be (take 2 (drop 4 bs)) :: u16"
  have len: "6 + unat ?l \<le> length bs"
    and e: "e = \<lparr>env_msgtype = of_be (take 2 bs), env_sequence = of_be (take 2 (drop 2 bs)),
      env_payload = take (unat ?l) (drop 6 bs)\<rparr>"
    using assms
    by (auto simp: envelope_decode_def Let_def slice_get_Some split: option.splits)
  have lt: "unat ?l < 2 ^ LENGTH(16)" by (rule unsigned_less)
  have two: "to_be 2 (of_be (take 2 xs) :: u16) = take 2 xs" if "2 \<le> length xs" for xs
    using to_be_of_be[of "take 2 xs", where 'a = 16] that by simp
  have plen: "length (env_payload e) = unat ?l" using len by (simp add: e)
  have "envelope_encode e = take 2 bs @ take 2 (drop 2 bs) @ take 2 (drop 4 bs)
      @ take (unat ?l) (drop 6 bs)"
    using len two[of bs] two[of "drop 2 bs"] two[of "drop 4 bs"] plen
    by (simp add: envelope_encode_def) (simp add: e)
  also have "\<dots> = take (6 + unat ?l) bs"
    using take_add[of 2 2 bs] take_add[of 4 2 bs] take_add[of 6 "unat ?l" bs] by simp
  finally have "bs = envelope_encode e @ drop (6 + unat ?l) bs" by simp
  moreover have "length (env_payload e) < SEQ_MODULUS"
    using lt plen by (simp add: channel_consts)
  ultimately show ?thesis by blast
qed

lemma stream_header_fields:
  assumes "sf_stream_id f AND STREAM_ID_MAX = sf_stream_id f"
  shows "stream_header f AND STREAM_ID_MAX = sf_stream_id f"
    and "stream_header f AND EOF_BIT \<noteq> 0 \<longleftrightarrow> sf_eof f"
    and "stream_header f AND COMPRESSED_BIT \<noteq> 0 \<longleftrightarrow> sf_compressed f"
proof -
  have zero: "(x AND 0x3FFF) AND 0x8000 = 0" "(x AND 0x3FFF) AND 0x4000 = 0" for x :: u16
    by (simp_all add: and.assoc)
  show "stream_header f AND STREAM_ID_MAX = sf_stream_id f"
    using assms
    by (simp add: stream_header_def Let_def channel_consts bit.conj_disj_distrib2)
  show "stream_header f AND EOF_BIT \<noteq> 0 \<longleftrightarrow> sf_eof f"
    by (simp add: stream_header_def Let_def channel_consts bit.conj_disj_distrib2 zero)
  show "stream_header f AND COMPRESSED_BIT \<noteq> 0 \<longleftrightarrow> sf_compressed f"
    by (simp add: stream_header_def Let_def channel_consts bit.conj_disj_distrib2 zero)
qed

lemma stream_frame_decode_encode:
  assumes "sf_stream_id f AND STREAM_ID_MAX = sf_stream_id f"
  shows "stream_frame_decode (stream_frame_encode f) = Some f"
  using stream_header_fields[OF assms]
  by (simp add: stream_frame_decode_def stream_frame_encode_def slice_get_def)

lemma stream_frame_encode_decode:
  assumes "stream_frame_decode bs = Some f"
  shows "stream_frame_encode f = bs"
proof -
  let ?h = "of_be (take 2 bs) :: u16"
  have len: "2 \<le> length bs"
    and f: "f = \<lparr>sf_stream_id = ?h AND STREAM_ID_MAX, sf_eof = (?h AND EOF_BIT \<noteq> 0),
        sf_compressed = (?h AND COMPRESSED_BIT \<noteq> 0), sf_data = drop 2 bs\<rparr>"
    using assms by (auto simp: stream_frame_decode_def Let_def slice_get_Some split: option.splits)
  have bits: "?h AND EOF_BIT = (if bit ?h 15 then 2 ^ 15 else 0)"
    "?h AND COMPRESSED_BIT = (if bit ?h 14 then 2 ^ 14 else 0)"
    using and_single_bit[of ?h 15] and_single_bit[of ?h 14] by (simp_all add: channel_consts)
  have "stream_header f = take_bit 14 ?h OR (?h AND EOF_BIT) OR (?h AND COMPRESSED_BIT)"
    unfolding stream_header_def f Let_def bits
    by (simp add: take_bit_eq_mask mask_eq_exp_minus_1 channel_consts or.assoc and.assoc)
  also have "\<dots> = ?h"
  proof (rule bit_word_eqI)
    fix n assume "n < LENGTH(16)"
    then consider "n < 14" | "n = 14" | "n = 15" by fastforce
    then show "bit (take_bit 14 ?h OR (?h AND EOF_BIT) OR (?h AND COMPRESSED_BIT)) n = bit ?h n"
      using bit_and_single[of ?h 15 n] bit_and_single[of ?h 14 n]
      by cases (auto simp: bit_or_iff bit_take_bit_iff channel_consts)
  qed
  finally have "stream_header f = ?h" .
  moreover have "to_be 2 ?h = take 2 bs"
    using to_be_of_be[of "take 2 bs", where 'a = 16] len by simp
  ultimately show ?thesis by (simp add: stream_frame_encode_def) (simp add: f)
qed

section \<open>Codecs\<close>

interpretation envelope_codec: wire_codec envelope_encode envelope_decode
    "\<lambda>e. length (env_payload e) < SEQ_MODULUS"
  by unfold_locales (use envelope_decode_encode_append[where rest = "[]"] in simp)

lemma stream_frame_decode_id:
  "stream_frame_decode bs = Some f \<Longrightarrow> sf_stream_id f AND STREAM_ID_MAX = sf_stream_id f"
  by (auto simp: stream_frame_decode_def Let_def and.assoc split: option.splits)

interpretation stream_frame_codec: strict_codec stream_frame_encode stream_frame_decode
    "\<lambda>f. sf_stream_id f AND STREAM_ID_MAX = sf_stream_id f"
  by unfold_locales
    (simp_all add: stream_frame_decode_encode stream_frame_encode_decode stream_frame_decode_id)

text \<open>
  A channel envelope whose payload fits its 16-bit length survives the wire, whatever bytes
  follow it in the packet; and whatever decodes is the encoding of the result, possibly followed
  by bytes the decoder ignored.
\<close>

theorem envelope_roundtrip:
  "(length (env_payload e) < SEQ_MODULUS \<longrightarrow> envelope_decode (envelope_encode e @ rest) = Some e)
   \<and> (envelope_decode bs = Some e \<longrightarrow>
        (\<exists>rest. bs = envelope_encode e @ rest \<and> length (env_payload e) < SEQ_MODULUS))"
  using envelope_decode_encode_append envelope_encode_decode by blast

theorem envelope_roundtrip_witness:
  "envelope_decode (envelope_encode \<lparr>env_msgtype = 1, env_sequence = 2, env_payload = [3]\<rparr> @ [9])
     = Some \<lparr>env_msgtype = 1, env_sequence = 2, env_payload = [3]\<rparr>"
  using envelope_roundtrip[of "\<lparr>env_msgtype = 1, env_sequence = 2, env_payload = [3]\<rparr>"]
  by (simp add: channel_consts)

text \<open>
  Stream frames and their bytes determine each other: bytes decode to a frame exactly when
  they are that frame's encoding and its stream id has at most 14 bits.
\<close>

theorem stream_frame_decode_iff:
  "stream_frame_decode bs = Some f \<longleftrightarrow>
     sf_stream_id f AND STREAM_ID_MAX = sf_stream_id f \<and> bs = stream_frame_encode f"
  by (rule stream_frame_codec.dec_iff)

end
