(* ===== verification/Channel.thy ===== *)
theory Channel
  imports ChannelWire
begin

text \<open>
  The reliable, in-order message channel, \<open>crates/retinue/src/channel/\<close> (\<open>window.rs\<close>,
  \<open>state.rs\<close>, \<open>send.rs\<close>, \<open>recv.rs\<close>).

  The const generics \<open>WINDOW\<close>, \<open>QUEUE\<close> and \<open>REORDER\<close> are fields of the state that no
  operation writes. The containers are the \<open>heapless\<close> crate's: a \<open>Deque\<close> is a list with a
  bounded push, an \<open>FnvIndexMap\<close> the list of its entries in iteration order, with a bounded
  insert. The order a removal leaves the other entries in is the crate's business; it shows
  in the order of retransmissions, so removal from the table of unproved envelopes is the
  parameter \<open>rm\<close>, which \<open>removal_law\<close> only requires to drop that key and keep the rest in
  some order. The reorder table is never iterated, so its removal needs no parameter.
\<close>

section \<open>Window policy\<close>

definition WINDOW_INITIAL :: nat where "WINDOW_INITIAL = 2"
definition WINDOW_MIN :: nat where "WINDOW_MIN = 2"
definition WINDOW_MAX :: nat where "WINDOW_MAX = 48"
definition WINDOW_FLEXIBILITY :: nat where "WINDOW_FLEXIBILITY = 4"
definition WINDOW_MAX_SLOW :: nat where "WINDOW_MAX_SLOW = 5"
definition WINDOW_MAX_MEDIUM :: nat where "WINDOW_MAX_MEDIUM = 12"
definition WINDOW_MAX_FAST :: nat where "WINDOW_MAX_FAST = 48"
definition WINDOW_MIN_LIMIT_MEDIUM :: nat where "WINDOW_MIN_LIMIT_MEDIUM = 5"
definition WINDOW_MIN_LIMIT_FAST :: nat where "WINDOW_MIN_LIMIT_FAST = 16"
definition RTT_FAST :: nat where "RTT_FAST = 180"
definition RTT_MEDIUM :: nat where "RTT_MEDIUM = 750"
definition RTT_SLOW :: nat where "RTT_SLOW = 1450"
definition FAST_RATE_THRESHOLD :: nat where "FAST_RATE_THRESHOLD = 10"
definition DEFAULT_RETX_TIMEOUT :: nat where "DEFAULT_RETX_TIMEOUT = 4"
definition DEFAULT_MAX_TRIES :: nat where "DEFAULT_MAX_TRIES = 5"
definition RETX_RTT_FLOOR :: nat where "RETX_RTT_FLOOR = 25"
definition REORDER_MAX :: nat where "REORDER_MAX = 256"

named_theorems window_consts \<open>constants of the window policy\<close>

lemmas [window_consts] = WINDOW_INITIAL_def WINDOW_MIN_def WINDOW_MAX_def WINDOW_FLEXIBILITY_def
  WINDOW_MAX_SLOW_def WINDOW_MAX_MEDIUM_def WINDOW_MAX_FAST_def WINDOW_MIN_LIMIT_MEDIUM_def
  WINDOW_MIN_LIMIT_FAST_def RTT_FAST_def RTT_MEDIUM_def RTT_SLOW_def FAST_RATE_THRESHOLD_def
  DEFAULT_RETX_TIMEOUT_def DEFAULT_MAX_TRIES_def RETX_RTT_FLOOR_def REORDER_MAX_def

definition retx_timeout :: "nat \<Rightarrow> nat \<Rightarrow> nat \<Rightarrow> nat" where
  "retx_timeout rtt tries flight =
    (let backoff = max 1 (min tries DEFAULT_MAX_TRIES) - 1;
         base = max (sat_mul u64_max rtt 5 div 2) RETX_RTT_FLOOR
     in sat_mul u64_max (sat_mul u64_max base (2 * flight + 3)) (3 ^ backoff)
          div (2 * 2 ^ backoff))"

section \<open>State\<close>

datatype channel_error = RetriesExhausted u16

record outstanding =
  o_payload :: bytes
  o_last_tx :: nat
  o_deadline :: nat
  o_tries :: nat

record channel =
  ch_WINDOW :: nat
  ch_QUEUE :: nat
  ch_REORDER :: nat
  ch_msgtype :: u16
  ch_window :: nat
  ch_window_max :: nat
  ch_window_min :: nat
  ch_window_flexibility :: nat
  ch_max_window :: nat
  ch_retx_timeout :: nat
  ch_dynamic :: bool
  ch_fast_rate_rounds :: nat
  ch_medium_rate_rounds :: nat
  ch_rtt :: nat
  ch_rtt_measured :: bool
  ch_max_tries :: nat
  ch_error :: "channel_error option"
  ch_outgoing :: "bytes list"
  ch_outstanding :: "(u16 \<times> outstanding) list"
  ch_send_next :: u16
  ch_recv_next :: u16
  ch_reorder :: "(u16 \<times> u16 \<times> bytes) list"
  ch_inbox :: "(u16 \<times> bytes) list"

text \<open>A bounded index map: \<open>insert\<close> replaces a present key in place and is refused when full.\<close>

definition im_contains :: "'k \<Rightarrow> ('k \<times> 'v) list \<Rightarrow> bool" where
  "im_contains k m \<longleftrightarrow> k \<in> fst ` set m"

definition im_insert :: "nat \<Rightarrow> 'k \<Rightarrow> 'v \<Rightarrow> ('k \<times> 'v) list \<Rightarrow> ('k \<times> 'v) list option" where
  "im_insert cap k v m =
     (if im_contains k m then Some (map (\<lambda>(k', v'). if k' = k then (k', v) else (k', v')) m)
      else if length m < cap then Some (m @ [(k, v)])
      else None)"

definition im_delete :: "'k \<Rightarrow> ('k \<times> 'v) list \<Rightarrow> ('k \<times> 'v) list" where
  "im_delete k m = filter (\<lambda>(k', _). k' \<noteq> k) m"

type_synonym removal = "u16 \<Rightarrow> (u16 \<times> outstanding) list \<Rightarrow> (u16 \<times> outstanding) list"

definition removal_law :: "removal \<Rightarrow> bool" where
  "removal_law rm \<longleftrightarrow> (\<forall>k m. distinct (map fst m) \<longrightarrow>
     set (rm k m) = set (im_delete k m) \<and> distinct (map fst (rm k m)))"

section \<open>Construction and configuration\<close>

definition with_params :: "nat \<Rightarrow> nat \<Rightarrow> nat \<Rightarrow> u16 \<Rightarrow> nat \<Rightarrow> nat \<Rightarrow> channel" where
  "with_params WINDOW QUEUE REORDER msgtype window retx =
    (let window = max 1 (min window (max (min WINDOW_MAX WINDOW) 1)) in
     \<lparr>ch_WINDOW = WINDOW, ch_QUEUE = QUEUE, ch_REORDER = REORDER, ch_msgtype = msgtype,
      ch_window = window, ch_window_max = window, ch_window_min = window,
      ch_window_flexibility = WINDOW_FLEXIBILITY, ch_max_window = window,
      ch_retx_timeout = retx, ch_dynamic = False, ch_fast_rate_rounds = 0,
      ch_medium_rate_rounds = 0, ch_rtt = RTT_MEDIUM, ch_rtt_measured = False,
      ch_max_tries = DEFAULT_MAX_TRIES, ch_error = None, ch_outgoing = [],
      ch_outstanding = [], ch_send_next = 0, ch_recv_next = 0, ch_reorder = [],
      ch_inbox = []\<rparr>)"

definition start_window :: "channel \<Rightarrow> nat \<Rightarrow> channel" where
  "start_window c rtt =
    (let (window, window_max, window_min, flexibility) =
           (if rtt > RTT_SLOW then (1, 1, 1, 1)
            else (WINDOW_INITIAL, WINDOW_MAX_SLOW, WINDOW_MIN, WINDOW_FLEXIBILITY));
         ceiling = ch_max_window c
     in c\<lparr>ch_window := min window ceiling, ch_window_max := min window_max ceiling,
          ch_window_min := min window_min ceiling, ch_window_flexibility := flexibility\<rparr>)"

definition with_initial_rtt_and_max_window ::
    "nat \<Rightarrow> nat \<Rightarrow> nat \<Rightarrow> u16 \<Rightarrow> nat \<Rightarrow> nat \<Rightarrow> channel" where
  "with_initial_rtt_and_max_window WINDOW QUEUE REORDER msgtype initial_rtt max_window =
     (start_window (with_params WINDOW QUEUE REORDER msgtype max_window 0) initial_rtt)
       \<lparr>ch_dynamic := True, ch_rtt := initial_rtt\<rparr>"

definition with_initial_rtt :: "nat \<Rightarrow> nat \<Rightarrow> nat \<Rightarrow> u16 \<Rightarrow> nat \<Rightarrow> channel" where
  "with_initial_rtt WINDOW QUEUE REORDER msgtype initial_rtt =
     with_initial_rtt_and_max_window WINDOW QUEUE REORDER msgtype initial_rtt WINDOW_MAX"

definition new_channel :: "nat \<Rightarrow> nat \<Rightarrow> nat \<Rightarrow> u16 \<Rightarrow> channel" where
  "new_channel WINDOW QUEUE REORDER msgtype =
     with_initial_rtt WINDOW QUEUE REORDER msgtype RTT_MEDIUM"

definition set_max_tries :: "channel \<Rightarrow> nat \<Rightarrow> channel" where
  "set_max_tries c tries = c\<lparr>ch_max_tries := max tries 1\<rparr>"

definition set_initial_rtt :: "channel \<Rightarrow> nat \<Rightarrow> channel" where
  "set_initial_rtt c rtt =
    (if ch_dynamic c \<and> \<not> ch_rtt_measured c then
       let c = c\<lparr>ch_rtt := rtt\<rparr> in
       if ch_send_next c = 0 \<and> ch_outstanding c = [] then start_window c rtt else c
     else c)"

definition send :: "channel \<Rightarrow> bytes \<Rightarrow> channel \<times> (bytes + unit)" where
  "send c payload =
    (if ch_error c \<noteq> None then (c, Inl payload)
     else if length (ch_outgoing c) < ch_QUEUE c
     then (c\<lparr>ch_outgoing := ch_outgoing c @ [payload]\<rparr>, Inr ())
     else (c, Inl payload))"

definition send_room :: "channel \<Rightarrow> nat" where
  "send_room c = ch_QUEUE c - length (ch_outgoing c)"

definition send_idle :: "channel \<Rightarrow> bool" where
  "send_idle c \<longleftrightarrow> ch_error c = None \<and> ch_outgoing c = [] \<and> ch_outstanding c = []"

definition in_flight :: "channel \<Rightarrow> nat" where
  "in_flight c = length (ch_outstanding c)"

section \<open>Sending\<close>

definition fail :: "channel \<Rightarrow> channel_error \<Rightarrow> channel" where
  "fail c e = c\<lparr>ch_error := Some e, ch_outstanding := [], ch_outgoing := []\<rparr>"

definition oldest_outstanding :: "channel \<Rightarrow> u16" where
  "oldest_outstanding c =
     (case max_by_key (\<lambda>s. ch_send_next c - s) (map fst (ch_outstanding c)) of
        Some s \<Rightarrow> s | None \<Rightarrow> ch_send_next c)"

text \<open>
  The retransmission loop over the unproved entries in iteration order: the sequence that
  exhausted its tries (the loop stops there), the updated entries and the envelopes to resend.
\<close>

fun retransmit :: "nat \<Rightarrow> nat \<Rightarrow> u16 \<Rightarrow> (u16 \<times> outstanding) list \<Rightarrow>
    u16 option \<times> (u16 \<times> outstanding) list \<times> envelope list" where
  "retransmit max_tries now msgtype [] = (None, [], [])"
| "retransmit max_tries now msgtype ((seq, out) # rest) =
    (if now < o_deadline out then
       let (ex, rest', envs) = retransmit max_tries now msgtype rest in (ex, (seq, out) # rest', envs)
     else if max_tries \<le> o_tries out then (Some seq, (seq, out) # rest, [])
     else
       let (ex, rest', envs) = retransmit max_tries now msgtype rest in
       (ex,
        (seq, out\<lparr>o_tries := o_tries out + 1, o_last_tx := now, o_deadline := 0\<rparr>) # rest',
        \<lparr>env_msgtype = msgtype, env_sequence = seq, env_payload = o_payload out\<rparr> # envs))"

text \<open>One timeout steps the window down.\<close>

definition shrink_once :: "channel \<Rightarrow> channel" where
  "shrink_once c =
    (if ch_window_min c < ch_window c then
       c\<lparr>ch_window := ch_window c - 1,
         ch_window_max := (if ch_window_min c + ch_window_flexibility c < ch_window_max c
           then ch_window_max c - 1 else ch_window_max c)\<rparr>
     else c)"

text \<open>
  The loop that fills the window with fresh data; it pops one queued payload a round, so it
  recurses on the queue. A refused insert puts the payload and the sequence back.
\<close>

fun fill_window :: "nat \<Rightarrow> u16 \<Rightarrow> bytes list \<Rightarrow> channel \<Rightarrow> channel \<times> envelope list" where
  "fill_window now oldest [] c = (c\<lparr>ch_outgoing := []\<rparr>, [])"
| "fill_window now oldest (payload # rest) c =
    (if length (ch_outstanding c) < ch_window c \<and> length (ch_outstanding c) \<noteq> ch_WINDOW c
        \<and> unat (ch_send_next c - oldest) < WINDOW_MAX
     then
       let seq = ch_send_next c;
           env = \<lparr>env_msgtype = ch_msgtype c, env_sequence = seq, env_payload = payload\<rparr>;
           record = \<lparr>o_payload = payload, o_last_tx = now, o_deadline = 0, o_tries = 1\<rparr>
       in case im_insert (ch_WINDOW c) seq record (ch_outstanding c) of
            None \<Rightarrow> (c\<lparr>ch_outgoing := payload # rest\<rparr>, [])
          | Some m \<Rightarrow>
              let (c', envs) = fill_window now oldest rest
                    (c\<lparr>ch_send_next := seq + 1, ch_outstanding := m\<rparr>)
              in (c', env # envs)
     else (c\<lparr>ch_outgoing := payload # rest\<rparr>, []))"

definition set_deadline :: "bool \<Rightarrow> nat \<Rightarrow> nat \<Rightarrow> nat \<Rightarrow> outstanding \<Rightarrow> outstanding" where
  "set_deadline dyn rtt fixed flight out =
     (let timeout = (if dyn then retx_timeout rtt (o_tries out) flight else fixed)
      in out\<lparr>o_deadline := max (o_deadline out) (sat_add u64_max (o_last_tx out) timeout)\<rparr>)"

definition update_deadlines :: "channel \<Rightarrow> channel" where
  "update_deadlines c =
     c\<lparr>ch_outstanding := map (\<lambda>(s, out). (s, set_deadline (ch_dynamic c) (ch_rtt c)
         (ch_retx_timeout c) (length (ch_outstanding c)) out)) (ch_outstanding c)\<rparr>"

definition poll_transmit :: "channel \<Rightarrow> nat \<Rightarrow> channel \<times> envelope list" where
  "poll_transmit c now =
    (if ch_error c \<noteq> None then (c, [])
     else
       let (exhausted, entries, resent) =
             retransmit (ch_max_tries c) now (ch_msgtype c) (ch_outstanding c);
           c = c\<lparr>ch_outstanding := entries\<rparr>
       in case exhausted of
            Some seq \<Rightarrow> (fail c (RetriesExhausted seq), [])
          | None \<Rightarrow>
              let c = (if ch_dynamic c then (shrink_once ^^ length resent) c else c);
                  oldest = oldest_outstanding c;
                  (c, fresh) = fill_window now oldest (ch_outgoing c) c;
                  out = resent @ fresh
              in (if out = [] then c else update_deadlines c, out))"

text \<open>
  The release of a proved sequence. The smoothed RTT is computed in \<open>u64\<close> arithmetic without
  an overflow check, so the wrap-around of a release build is written out.
\<close>

definition smooth_rtt :: "nat \<Rightarrow> nat \<Rightarrow> nat" where
  "smooth_rtt rtt sample = ((rtt * 7 mod 2 ^ 64 + sample) mod 2 ^ 64) div 8"

definition sample_rtt :: "channel \<Rightarrow> outstanding \<Rightarrow> nat \<Rightarrow> channel" where
  "sample_rtt c out now =
    (if o_tries out = 1 then
       let sample = now - o_last_tx out in
       c\<lparr>ch_rtt := (if ch_rtt_measured c then smooth_rtt (ch_rtt c) sample else sample),
         ch_rtt_measured := True\<rparr>
     else c)"

definition promote :: "channel \<Rightarrow> channel" where
  "promote c =
    (let ceiling = ch_max_window c in
     if RTT_FAST < ch_rtt c then
       let c = c\<lparr>ch_fast_rate_rounds := 0\<rparr> in
       if RTT_MEDIUM < ch_rtt c then c\<lparr>ch_medium_rate_rounds := 0\<rparr>
       else
         let c = c\<lparr>ch_medium_rate_rounds := sat_add u32_max (ch_medium_rate_rounds c) 1\<rparr> in
         if ch_window_max c < WINDOW_MAX_MEDIUM
            \<and> ch_medium_rate_rounds c = FAST_RATE_THRESHOLD
         then c\<lparr>ch_window_max := min WINDOW_MAX_MEDIUM ceiling,
                ch_window_min := min WINDOW_MIN_LIMIT_MEDIUM ceiling\<rparr>
         else c
     else
       let c = c\<lparr>ch_fast_rate_rounds := sat_add u32_max (ch_fast_rate_rounds c) 1\<rparr> in
       if ch_window_max c < WINDOW_MAX_FAST \<and> ch_fast_rate_rounds c = FAST_RATE_THRESHOLD
       then c\<lparr>ch_window_max := min WINDOW_MAX_FAST ceiling,
              ch_window_min := min WINDOW_MIN_LIMIT_FAST ceiling\<rparr>
       else c)"

definition on_proof :: "removal \<Rightarrow> channel \<Rightarrow> u16 \<Rightarrow> nat \<Rightarrow> channel" where
  "on_proof rm c sequence now =
    (case map_of (ch_outstanding c) sequence of
       None \<Rightarrow> c
     | Some out \<Rightarrow>
         let c = c\<lparr>ch_outstanding := rm sequence (ch_outstanding c)\<rparr> in
         if \<not> ch_dynamic c then c
         else
           let c = sample_rtt c out now;
               c = (if ch_window c < ch_window_max c
                    then c\<lparr>ch_window := ch_window c + 1\<rparr> else c)
           in promote c)"

section \<open>Receiving\<close>

lemma im_delete_shorter: "map_of m k = Some v \<Longrightarrow> length (im_delete k m) < length m"
  unfolding im_delete_def
  by (rule length_filter_less[where x = "(k, v)"]) (auto dest: map_of_SomeD)

function pump :: "channel \<Rightarrow> channel" where
  "pump c =
    (if length (ch_inbox c) \<noteq> ch_QUEUE c then
       (case map_of (ch_reorder c) (ch_recv_next c) of
          None \<Rightarrow> c
        | Some next \<Rightarrow>
            pump (c\<lparr>ch_reorder := im_delete (ch_recv_next c) (ch_reorder c),
                    ch_inbox := ch_inbox c @ [next],
                    ch_recv_next := ch_recv_next c + 1\<rparr>))
     else c)"
  by pat_completeness auto

termination
  by (relation "measure (\<lambda>c. length (ch_reorder c))") (auto simp: im_delete_shorter)

declare pump.simps [simp del]

definition handle :: "channel \<Rightarrow> envelope \<Rightarrow> channel \<times> bool" where
  "handle c e =
    (let ahead = env_sequence e - ch_recv_next c in
     if ahead = 0 then
       (if length (ch_inbox c) = ch_QUEUE c then (c, False)
        else (pump (c\<lparr>ch_inbox := ch_inbox c @ [(env_msgtype e, env_payload e)],
                      ch_recv_next := ch_recv_next c + 1\<rparr>), True))
     else if unat ahead < SEQ_MODULUS div 2 then
       (if length (ch_reorder c) = ch_REORDER c \<and> \<not> im_contains (env_sequence e) (ch_reorder c)
        then (c, False)
        else if im_contains (env_sequence e) (ch_reorder c) then (c, True)
        else (c\<lparr>ch_reorder := ch_reorder c
                  @ [(env_sequence e, env_msgtype e, env_payload e)]\<rparr>, True))
     else (c, True))"

definition recv_message :: "channel \<Rightarrow> channel \<times> (u16 \<times> bytes) option" where
  "recv_message c =
    (let c = pump c in
     case ch_inbox c of
       [] \<Rightarrow> (c, None)
     | m # ms \<Rightarrow> (c\<lparr>ch_inbox := ms\<rparr>, Some m))"

definition recv :: "channel \<Rightarrow> channel \<times> bytes option" where
  "recv c = (let (c', m) = recv_message c in (c', map_option snd m))"

section \<open>Index maps\<close>

named_theorems im_simps \<open>facts of the index map\<close>

lemma im_contains_map_of [im_simps]: "im_contains k m \<longleftrightarrow> map_of m k \<noteq> None"
  by (simp add: im_contains_def map_of_eq_None_iff)

lemma im_insert_fresh:
  "\<not> im_contains k m \<Longrightarrow> length m < cap \<Longrightarrow> im_insert cap k v m = Some (m @ [(k, v)])"
  by (simp add: im_insert_def)

lemma map_of_im_delete [im_simps]: "map_of (im_delete k m) = (map_of m)(k := None)"
  by (induction m) (auto simp: im_delete_def)

lemma set_im_delete [im_simps]: "set (im_delete k m) = {x \<in> set m. fst x \<noteq> k}"
  by (auto simp: im_delete_def)

lemma distinct_im_delete [im_simps]:
  "distinct (map fst m) \<Longrightarrow> distinct (map fst (im_delete k m))"
  by (induction m) (auto simp: im_delete_def)

lemma removal_lawD:
  assumes "removal_law rm" and "distinct (map fst m)"
  shows "set (rm k m) = {x \<in> set m. fst x \<noteq> k}" "distinct (map fst (rm k m))"
  using assms by (auto simp: removal_law_def set_im_delete)

lemma removal_length:
  assumes "removal_law rm" and "distinct (map fst m)"
  shows "length (rm k m) \<le> length m"
proof -
  have "distinct (rm k m)" "distinct m"
    using assms by (auto simp: removal_law_def distinct_map)
  moreover have "set (rm k m) \<subseteq> set m" using removal_lawD(1)[OF assms] by auto
  ultimately show ?thesis by (metis card_mono distinct_card finite_set)
qed

text \<open>Two removals a map may use: keeping the order, and moving the last entry into the gap.\<close>

definition im_swap_remove :: "'k \<Rightarrow> ('k \<times> 'v) list \<Rightarrow> ('k \<times> 'v) list" where
  "im_swap_remove k m =
     (case position (\<lambda>(k', _). k' = k) m of None \<Rightarrow> m | Some i \<Rightarrow> swap_remove i m)"

lemma removal_law_im_delete: "removal_law im_delete"
  by (simp add: removal_law_def im_simps)

lemma removal_law_im_swap_remove: "removal_law im_swap_remove"
  unfolding removal_law_def
proof (intro allI impI)
  fix k and m :: "(u16 \<times> outstanding) list"
  assume dist: "distinct (map fst m)"
  show "set (im_swap_remove k m) = set (im_delete k m) \<and> distinct (map fst (im_swap_remove k m))"
  proof (cases "position (\<lambda>(k', _). k' = k) m")
    case None
    then have "\<forall>x \<in> set m. fst x \<noteq> k" by (auto simp: position_None)
    with None dist show ?thesis by (auto simp: im_swap_remove_def set_im_delete)
  next
    case (Some i)
    then have i: "i < length m" "fst (m ! i) = k" by (auto dest: position_Some split: prod.splits)
    have eq: "mset (swap_remove i m) = mset (remove_at i m)" using i(1) by (rule mset_swap_remove)
    have "distinct (map fst (remove_at i m))"
      using dist by (rule distinct_map_remove_at)
    then have "distinct (map fst (swap_remove i m))"
      using eq by (metis mset_eq_imp_distinct_iff mset_map)
    moreover have "set (remove_at i m) = {x \<in> set m. fst x \<noteq> k}"
      using set_remove_at_distinct[OF dist i(1)] i(2) by auto
    ultimately show ?thesis
      using Some eq by (auto simp: im_swap_remove_def set_im_delete dest: mset_eq_setD)
  qed
qed

section \<open>Loops of the sender\<close>

lemma retransmit_keys:
  "retransmit mx now mt m = (ex, m', envs) \<Longrightarrow>
     map fst m' = map fst m \<and> map (o_payload \<circ> snd) m' = map (o_payload \<circ> snd) m"
  by (induction mx now mt m arbitrary: ex m' envs rule: retransmit.induct)
     (auto split: if_splits prod.splits)

lemma retransmit_entries:
  "retransmit mx now mt m = (ex, m', envs) \<Longrightarrow> (s, out') \<in> set m' \<Longrightarrow>
     \<exists>out. (s, out) \<in> set m \<and> o_payload out' = o_payload out"
  by (induction mx now mt m arbitrary: ex m' envs rule: retransmit.induct)
     (auto split: if_splits prod.splits; blast)+

lemma retransmit_envs:
  "retransmit mx now mt m = (ex, m', envs) \<Longrightarrow> e \<in> set envs \<Longrightarrow>
     \<exists>out. (env_sequence e, out) \<in> set m \<and> o_deadline out \<le> now \<and> o_tries out < mx
       \<and> env_payload e = o_payload out \<and> env_msgtype e = mt"
  by (induction mx now mt m arbitrary: ex m' envs rule: retransmit.induct)
     (force split: if_splits prod.splits)+

lemma retransmit_exhausted:
  "retransmit mx now mt m = (Some seq, m', envs) \<Longrightarrow>
     \<exists>out. (seq, out) \<in> set m \<and> o_deadline out \<le> now \<and> mx \<le> o_tries out"
  by (induction mx now mt m arbitrary: m' envs rule: retransmit.induct)
     (force split: if_splits prod.splits)+

lemma retransmit_tries:
  "retransmit mx now mt m = (ex, m', envs) \<Longrightarrow> \<forall>(s, out) \<in> set m. o_tries out \<le> mx \<Longrightarrow>
     \<forall>(s, out) \<in> set m'. o_tries out \<le> mx"
  by (induction mx now mt m arbitrary: ex m' envs rule: retransmit.induct)
     (fastforce split: if_splits prod.splits)+

lemma retransmit_none:
  assumes "\<forall>(s, out) \<in> set m. now < o_deadline out"
  shows "retransmit mx now mt m = (None, m, [])"
  using assms by (induction mx now mt m rule: retransmit.induct) auto

end
