(* ===== verification/ChannelSender.thy ===== *)
theory ChannelSender
  imports Channel
begin

text \<open>
  The sender against the messages it was given. \<open>written\<close> is every payload \<open>send\<close> accepted, in
  order, and \<open>sent\<close> how many of them were given a sequence. A 16-bit sequence stands for a
  position in \<open>written\<close>; \<open>tx_rep\<close> says that the unproved entries are positions among the last
  \<open>WINDOW_MAX\<close>, each with its own payload, and that the queue is what was written and not yet
  sent.
\<close>

section \<open>Sequences as positions\<close>

definition entry_at :: "bytes list \<Rightarrow> nat \<Rightarrow> nat \<Rightarrow> u16 \<times> outstanding \<Rightarrow> bool" where
  "entry_at written sent lo e \<longleftrightarrow>
     (\<exists>n. lo \<le> n \<and> n < sent \<and> fst e = of_nat n \<and> o_payload (snd e) = written ! n)"

definition message_env :: "u16 \<Rightarrow> bytes list \<Rightarrow> nat \<Rightarrow> envelope" where
  "message_env mt written n =
     \<lparr>env_msgtype = mt, env_sequence = of_nat n, env_payload = written ! n\<rparr>"

lemma u16_diff:
  assumes "n \<le> m" "m - n < 65536"
  shows "unat (of_nat m - of_nat n :: u16) = m - n"
proof -
  have "(of_nat m - of_nat n :: u16) = of_nat (m - n)" using assms(1) by simp
  then show ?thesis using assms(2) by (simp only: unat_of_nat_u16)
qed

lemma u16_inj_window:
  assumes "of_nat m = (of_nat n :: u16)" "m < n + 65536" "n < m + 65536"
  shows "m = n"
proof -
  have "m mod 65536 = n mod 65536"
    using arg_cong[OF assms(1), of unat] by (simp add: unat_of_nat)
  with assms(2,3) show ?thesis
    by (metis (no_types, opaque_lifting) add.commute le_less_linear less_diff_conv2
        mod_eq_dvd_iff_nat nat_dvd_not_less nat_less_le zero_less_diff linorder_neqE_nat
        nat_le_linear)
qed

lemma entry_at_mono:
  "entry_at written sent lo e \<Longrightarrow> lo' \<le> lo \<Longrightarrow> sent \<le> sent' \<Longrightarrow> entry_at written sent' lo' e"
  unfolding entry_at_def by (meson le_trans less_le_trans)

lemma entry_at_append:
  "entry_at written sent lo e \<Longrightarrow> sent \<le> length written \<Longrightarrow> entry_at (written @ ys) sent lo e"
  unfolding entry_at_def by (metis less_le_trans nth_append)

lemma oldest_position:
  assumes nxt: "ch_send_next c = of_nat sent"
    and entries: "\<forall>e \<in> set (ch_outstanding c). entry_at written sent (sent - WINDOW_MAX) e"
  shows "\<exists>lo. oldest_outstanding c = of_nat lo \<and> lo \<le> sent \<and> sent \<le> lo + WINDOW_MAX
    \<and> (\<forall>e \<in> set (ch_outstanding c). entry_at written sent lo e)"
proof (cases "max_by_key (\<lambda>s. ch_send_next c - s) (map fst (ch_outstanding c))")
  case None
  then show ?thesis by (auto simp: oldest_outstanding_def nxt)
next
  case (Some s)
  let ?d = "\<lambda>s. unat (ch_send_next c - s)"
  from max_by_key_Some[OF Some] obtain e where e: "e \<in> set (ch_outstanding c)" "fst e = s"
    and max: "\<And>e'. e' \<in> set (ch_outstanding c) \<Longrightarrow> ?d (fst e') \<le> ?d s"
    by (auto simp: word_le_nat_alt)
  have dist: "?d (of_nat n) = sent - n" if "n \<le> sent" "sent - WINDOW_MAX \<le> n" for n
    using that by (simp add: nxt u16_diff window_consts del: of_nat_diff)
  from entries e obtain lo where lo: "sent - WINDOW_MAX \<le> lo" "lo < sent" "s = of_nat lo"
    by (fastforce simp: entry_at_def)
  have "entry_at written sent lo e'" if "e' \<in> set (ch_outstanding c)" for e'
  proof -
    from entries that obtain n where n: "sent - WINDOW_MAX \<le> n" "n < sent" "fst e' = of_nat n"
      "o_payload (snd e') = written ! n"
      by (auto simp: entry_at_def)
    have "sent - n \<le> sent - lo"
      using max[OF that] dist[of n] dist[of lo] n lo by simp
    then have "lo \<le> n" using n(2) lo(2) by linarith
    with n show ?thesis by (auto simp: entry_at_def)
  qed
  moreover have "sent \<le> lo + WINDOW_MAX" using lo by linarith
  ultimately show ?thesis
    using lo Some by (auto simp: oldest_outstanding_def)
qed

section \<open>The fill loop\<close>

lemma fill_window_rep:
  assumes "fill_window now oldest q c = (c', envs)"
    and "q = drop sent written" "sent \<le> length written" "ch_send_next c = of_nat sent"
    and "oldest = of_nat lo" "lo \<le> sent" "sent \<le> lo + WINDOW_MAX"
    and "distinct (map fst (ch_outstanding c))"
    and "\<forall>e \<in> set (ch_outstanding c). entry_at written sent lo e"
    and "length (ch_outstanding c) \<le> ch_WINDOW c"
  shows "\<exists>k.
    c' = c\<lparr>ch_send_next := of_nat (sent + k), ch_outgoing := drop (sent + k) written,
           ch_outstanding := ch_outstanding c'\<rparr>
    \<and> sent + k \<le> length written \<and> sent + k \<le> lo + WINDOW_MAX
    \<and> distinct (map fst (ch_outstanding c'))
    \<and> (\<forall>e \<in> set (ch_outstanding c'). entry_at written (sent + k) lo e)
    \<and> length (ch_outstanding c') \<le> ch_WINDOW c
    \<and> envs = map (message_env (ch_msgtype c) written) [sent..<sent + k]
    \<and> fst ` set (ch_outstanding c') = fst ` set (ch_outstanding c) \<union> of_nat ` {sent..<sent + k}"
  using assms
proof (induction now oldest q c arbitrary: sent c' envs rule: fill_window.induct)
  case (1 now oldest c)
  then have "sent = length written" by simp
  with 1 show ?case by (intro exI[of _ 0]) auto
next
  case (2 now oldest payload rest c)
  let ?go = "length (ch_outstanding c) < ch_window c \<and> length (ch_outstanding c) \<noteq> ch_WINDOW c
        \<and> unat (ch_send_next c - oldest) < WINDOW_MAX"
  let ?r = "\<lparr>o_payload = payload, o_last_tx = now, o_deadline = 0, o_tries = 1\<rparr>"
  show ?case
  proof (cases ?go)
    case False
    with 2(2) have "c' = c\<lparr>ch_outgoing := payload # rest\<rparr>" "envs = []"
      by (simp_all split: if_split_asm)
    with 2(3-11) show ?thesis by (intro exI[of _ 0]) simp
  next
    case True
    have lt: "sent < length written" and hd: "payload = written ! sent"
      and tl: "rest = drop (Suc sent) written"
      using 2(3) by (metis drop_all list.distinct(1) not_less,
          metis Cons_nth_drop_Suc drop_all list.distinct(1) list.inject not_less,
          metis drop_Suc list.sel(3) tl_drop)
    have span: "sent < lo + WINDOW_MAX"
    proof -
      have "unat (ch_send_next c - oldest) = sent - lo"
        using 2(5-8) by (simp add: u16_diff window_consts del: of_nat_diff)
      with True 2(7) show ?thesis by linarith
    qed
    have fresh: "\<not> im_contains (of_nat sent) (ch_outstanding c)"
    proof
      assume "im_contains (of_nat sent) (ch_outstanding c)"
      then obtain e where "e \<in> set (ch_outstanding c)" "fst e = of_nat sent"
        by (auto simp: im_contains_def)
      with 2(10) obtain n where "lo \<le> n" "n < sent" "of_nat sent = (of_nat n :: u16)"
        by (auto simp: entry_at_def)
      with span show False using u16_inj_window[of sent n] by (simp add: window_consts)
    qed
    let ?m = "ch_outstanding c @ [(of_nat sent, ?r)]"
    let ?c = "c\<lparr>ch_send_next := ch_send_next c + 1, ch_outstanding := ?m\<rparr>"
    have ins: "im_insert (ch_WINDOW c) (ch_send_next c) ?r (ch_outstanding c) = Some ?m"
      using fresh True 2(5) 2(11) by (simp add: im_insert_fresh)
    obtain c1 envs1 where rec: "fill_window now oldest rest ?c = (c1, envs1)" by fastforce
    have res: "c' = c1" "envs = message_env (ch_msgtype c) written sent # envs1"
      using 2(2) True ins rec 2(5) hd by (auto simp: message_env_def)
    have "\<exists>k.
      c1 = ?c\<lparr>ch_send_next := of_nat (Suc sent + k), ch_outgoing := drop (Suc sent + k) written,
           ch_outstanding := ch_outstanding c1\<rparr>
      \<and> Suc sent + k \<le> length written \<and> Suc sent + k \<le> lo + WINDOW_MAX
      \<and> distinct (map fst (ch_outstanding c1))
      \<and> (\<forall>e \<in> set (ch_outstanding c1). entry_at written (Suc sent + k) lo e)
      \<and> length (ch_outstanding c1) \<le> ch_WINDOW ?c
      \<and> envs1 = map (message_env (ch_msgtype ?c) written) [Suc sent..<Suc sent + k]
      \<and> fst ` set (ch_outstanding c1) = fst ` set (ch_outstanding ?c) \<union> of_nat ` {Suc sent..<Suc sent + k}"
    proof (rule 2(1)[OF True refl refl refl ins])
      show "fill_window now oldest rest ?c = (c1, envs1)" by (rule rec)
      show "rest = drop (Suc sent) written" by (rule tl)
      show "Suc sent \<le> length written" using lt by simp
      show "ch_send_next ?c = of_nat (Suc sent)" using 2(5) by simp
      show "oldest = of_nat lo" by (rule 2(6))
      show "lo \<le> Suc sent" using 2(7) by simp
      show "Suc sent \<le> lo + WINDOW_MAX" using span by simp
      show "distinct (map fst (ch_outstanding ?c))"
        using 2(9) fresh by (auto simp: im_contains_def)
      show "\<forall>e \<in> set (ch_outstanding ?c). entry_at written (Suc sent) lo e"
        using 2(7) 2(10) hd by (fastforce simp: entry_at_def)
      show "length (ch_outstanding ?c) \<le> ch_WINDOW ?c" using True 2(11) by simp
    qed
    then obtain k where k:
      "c1 = ?c\<lparr>ch_send_next := of_nat (Suc sent + k), ch_outgoing := drop (Suc sent + k) written,
           ch_outstanding := ch_outstanding c1\<rparr>"
      "Suc sent + k \<le> length written" "Suc sent + k \<le> lo + WINDOW_MAX"
      "distinct (map fst (ch_outstanding c1))"
      "\<forall>e \<in> set (ch_outstanding c1). entry_at written (Suc sent + k) lo e"
      "length (ch_outstanding c1) \<le> ch_WINDOW c"
      "envs1 = map (message_env (ch_msgtype c) written) [Suc sent..<Suc sent + k]"
      "fst ` set (ch_outstanding c1) = fst ` set (ch_outstanding ?c) \<union> of_nat ` {Suc sent..<Suc sent + k}"
      by auto
    have rng: "[sent..<sent + Suc k] = sent # [Suc sent..<Suc sent + k]"
      "{sent..<sent + Suc k} = insert sent {Suc sent..<Suc sent + k}"
      by (auto simp: upt_conv_Cons)
    show ?thesis
      unfolding res
    proof (intro exI[of _ "Suc k"] conjI)
      show "c1 = c\<lparr>ch_send_next := of_nat (sent + Suc k), ch_outgoing := drop (sent + Suc k) written,
           ch_outstanding := ch_outstanding c1\<rparr>"
        using k(1) by simp
      show "message_env (ch_msgtype c) written sent # envs1
          = map (message_env (ch_msgtype c) written) [sent..<sent + Suc k]"
        unfolding rng(1) using k(7) by simp
      show "fst ` set (ch_outstanding c1) = fst ` set (ch_outstanding c) \<union> of_nat ` {sent..<sent + Suc k}"
        unfolding rng(2) using k(8) by auto
    qed (use k(2-6) in simp_all)
  qed
qed

section \<open>The sender's invariant\<close>

definition tx_rep :: "bytes list \<Rightarrow> nat \<Rightarrow> channel \<Rightarrow> bool" where
  "tx_rep written sent c \<longleftrightarrow>
     ch_send_next c = of_nat sent \<and> sent \<le> length written
     \<and> distinct (map fst (ch_outstanding c))
     \<and> (\<forall>e \<in> set (ch_outstanding c). entry_at written sent (sent - WINDOW_MAX) e)
     \<and> length (ch_outstanding c) \<le> ch_WINDOW c
     \<and> (ch_error c = None \<longrightarrow> ch_outgoing c = drop sent written)
     \<and> (ch_error c \<noteq> None \<longrightarrow> ch_outgoing c = [] \<and> ch_outstanding c = [])"

text \<open>What the sender's part of a channel does not write of the rest.\<close>

lemma shrink_frame [simp]:
  "ch_outstanding ((shrink_once ^^ n) c) = ch_outstanding c"
  "ch_outgoing ((shrink_once ^^ n) c) = ch_outgoing c"
  "ch_send_next ((shrink_once ^^ n) c) = ch_send_next c"
  "ch_error ((shrink_once ^^ n) c) = ch_error c"
  "ch_WINDOW ((shrink_once ^^ n) c) = ch_WINDOW c"
  "ch_QUEUE ((shrink_once ^^ n) c) = ch_QUEUE c"
  "ch_REORDER ((shrink_once ^^ n) c) = ch_REORDER c"
  "ch_msgtype ((shrink_once ^^ n) c) = ch_msgtype c"
  "ch_max_tries ((shrink_once ^^ n) c) = ch_max_tries c"
  "ch_inbox ((shrink_once ^^ n) c) = ch_inbox c"
  "ch_reorder ((shrink_once ^^ n) c) = ch_reorder c"
  "ch_recv_next ((shrink_once ^^ n) c) = ch_recv_next c"
  "ch_rtt ((shrink_once ^^ n) c) = ch_rtt c"
  "ch_dynamic ((shrink_once ^^ n) c) = ch_dynamic c"
  "ch_retx_timeout ((shrink_once ^^ n) c) = ch_retx_timeout c"
  "ch_max_window ((shrink_once ^^ n) c) = ch_max_window c"
  "ch_window_min ((shrink_once ^^ n) c) = ch_window_min c"
  by (induction n) (simp_all add: shrink_once_def)

lemma deadline_frame [simp]: "o_payload (set_deadline d r f n out) = o_payload out"
  "o_tries (set_deadline d r f n out) = o_tries out"
  "o_last_tx (set_deadline d r f n out) = o_last_tx out"
  by (simp_all add: set_deadline_def Let_def)

lemma update_deadlines_frame [simp]:
  "map fst (ch_outstanding (update_deadlines c)) = map fst (ch_outstanding c)"
  "length (ch_outstanding (update_deadlines c)) = length (ch_outstanding c)"
  "ch_send_next (update_deadlines c) = ch_send_next c"
  "ch_outgoing (update_deadlines c) = ch_outgoing c"
  "ch_error (update_deadlines c) = ch_error c"
  "ch_WINDOW (update_deadlines c) = ch_WINDOW c"
  by (auto simp: update_deadlines_def comp_def split: prod.splits)

lemma entry_at_deadlines:
  "(\<forall>e \<in> set (ch_outstanding (update_deadlines c)). entry_at written sent lo e)
     \<longleftrightarrow> (\<forall>e \<in> set (ch_outstanding c). entry_at written sent lo e)"
  by (fastforce simp: update_deadlines_def entry_at_def)

lemma fst_deadlines:
  "fst ` set (ch_outstanding (update_deadlines c)) = fst ` set (ch_outstanding c)"
  by (metis list.set_map update_deadlines_frame(1))

lemma poll_transmit_rep:
  assumes rep: "tx_rep written sent c" and poll: "poll_transmit c now = (c', envs)"
  obtains sent' where "tx_rep written sent' c'" "sent \<le> sent'"
    "ch_error c' = None \<Longrightarrow> fst ` set (ch_outstanding c')
       = fst ` set (ch_outstanding c) \<union> of_nat ` {sent..<sent'}"
    "\<And>e. e \<in> set envs \<Longrightarrow> \<exists>n < sent'. sent' \<le> n + WINDOW_MAX
       \<and> e = message_env (ch_msgtype c) written n"
    "ch_error c \<noteq> None \<Longrightarrow> c' = c"
    "sent' \<le> sent + WINDOW_MAX" "ch_error c' \<noteq> None \<Longrightarrow> sent' = sent"
    "ch_error c' = None \<Longrightarrow> \<exists>lo \<le> sent. sent' \<le> lo + WINDOW_MAX
       \<and> (\<forall>n < sent. sent - WINDOW_MAX \<le> n \<longrightarrow> of_nat n \<in> fst ` set (ch_outstanding c) \<longrightarrow> lo \<le> n)"
proof (cases "ch_error c")
  case (Some err)
  then have "c' = c" "envs = []" using poll by (auto simp: poll_transmit_def)
  with rep Some show thesis by (intro that[of sent]) auto
next
  case None
  obtain ex entries resent where retx:
    "retransmit (ch_max_tries c) now (ch_msgtype c) (ch_outstanding c) = (ex, entries, resent)"
    using prod_cases3 by blast
  have old: "ch_send_next c = of_nat sent" "sent \<le> length written"
    "distinct (map fst (ch_outstanding c))" "ch_outgoing c = drop sent written"
    "length (ch_outstanding c) \<le> ch_WINDOW c"
    "\<And>e. e \<in> set (ch_outstanding c) \<Longrightarrow> entry_at written sent (sent - WINDOW_MAX) e"
    using rep None by (auto simp: tx_rep_def)
  have keys: "map fst entries = map fst (ch_outstanding c)"
    using retransmit_keys[OF retx] by simp
  have ent: "entry_at written sent (sent - WINDOW_MAX) e" if "e \<in> set entries" for e
    using retransmit_entries[OF retx, of "fst e" "snd e"] that old(6)
    by (fastforce simp: entry_at_def)
  show thesis
  proof (cases ex)
    case (Some seq)
    then have c': "c' = fail (c\<lparr>ch_outstanding := entries\<rparr>) (RetriesExhausted seq)" "envs = []"
      using poll by (simp_all add: poll_transmit_def None retx)
    have "tx_rep written sent c'" using old by (simp add: c' tx_rep_def fail_def)
    then show thesis by (rule that) (simp_all add: c' None fail_def)
  next
    case ex: None
    let ?c0 = "c\<lparr>ch_outstanding := entries\<rparr>"
    define c1 where "c1 = (if ch_dynamic c then (shrink_once ^^ length resent) ?c0 else ?c0)"
    have c1: "ch_outstanding c1 = entries" "ch_outgoing c1 = drop sent written"
      "ch_send_next c1 = of_nat sent" "ch_error c1 = None" "ch_WINDOW c1 = ch_WINDOW c"
      "ch_msgtype c1 = ch_msgtype c"
      using old None by (simp_all add: c1_def)
    obtain lo where lo: "oldest_outstanding c1 = of_nat lo" "lo \<le> sent" "sent \<le> lo + WINDOW_MAX"
      "\<forall>e \<in> set (ch_outstanding c1). entry_at written sent lo e"
      using oldest_position[of c1 sent written] c1 ent by auto
    obtain c2 fresh where fill: "fill_window now (of_nat lo) (drop sent written) c1 = (c2, fresh)"
      by fastforce
    have res: "envs = resent @ fresh" "c' = (if envs = [] then c2 else update_deadlines c2)"
      using poll fill lo(1) c1(2)
      by (auto simp: poll_transmit_def None retx ex Let_def split: if_splits simp flip: c1_def)
    have d1: "distinct (map fst (ch_outstanding c1))" using c1 keys old by simp
    have l1: "length (ch_outstanding c1) \<le> ch_WINDOW c1"
      using c1 keys old by (metis length_map)
    obtain k where k:
      "c2 = c1\<lparr>ch_send_next := of_nat (sent + k), ch_outgoing := drop (sent + k) written,
             ch_outstanding := ch_outstanding c2\<rparr>"
      "sent + k \<le> length written" "sent + k \<le> lo + WINDOW_MAX"
      "distinct (map fst (ch_outstanding c2))"
      "\<forall>e \<in> set (ch_outstanding c2). entry_at written (sent + k) lo e"
      "length (ch_outstanding c2) \<le> ch_WINDOW c1"
      "fresh = map (message_env (ch_msgtype c1) written) [sent..<sent + k]"
      "fst ` set (ch_outstanding c2) = fst ` set (ch_outstanding c1) \<union> of_nat ` {sent..<sent + k}"
      using fill_window_rep[OF fill refl old(2) c1(3) refl lo(2,3) d1 lo(4) l1] by blast
    have f2: "ch_send_next c2 = of_nat (sent + k)" "ch_outgoing c2 = drop (sent + k) written"
      "ch_error c2 = None" "ch_WINDOW c2 = ch_WINDOW c"
      using arg_cong[OF k(1), of ch_send_next] arg_cong[OF k(1), of ch_outgoing]
        arg_cong[OF k(1), of ch_error] arg_cong[OF k(1), of ch_WINDOW] c1
      by simp_all
    have "tx_rep written (sent + k) c2"
      using f2 k c1 by (auto simp: tx_rep_def intro: entry_at_mono)
    then have rep': "tx_rep written (sent + k) c'"
      unfolding res(2) using f2(3)
      by (auto simp: tx_rep_def entry_at_deadlines)
    have fk: "fst ` set entries = fst ` set (ch_outstanding c)"
      using keys by (metis list.set_map)
    show thesis
    proof (rule that[OF rep'])
      show "fst ` set (ch_outstanding c') = fst ` set (ch_outstanding c) \<union> of_nat ` {sent..<sent + k}"
        using k(8) c1(1) fk unfolding res(2) by (simp add: fst_deadlines)
    next
      fix e assume "e \<in> set envs"
      then consider "e \<in> set resent" | "e \<in> set fresh" using res(1) by auto
      then show "\<exists>n < sent + k. sent + k \<le> n + WINDOW_MAX \<and> e = message_env (ch_msgtype c) written n"
      proof cases
        case 1
        then obtain out where out: "(env_sequence e, out) \<in> set (ch_outstanding c)"
          "env_payload e = o_payload out" "env_msgtype e = ch_msgtype c"
          using retransmit_envs[OF retx] by blast
        have "env_sequence e \<in> fst ` set (ch_outstanding c1)"
          using out(1) keys c1(1) by (metis fst_conv image_eqI list.set_map)
        then obtain n where n: "lo \<le> n" "n < sent" "env_sequence e = of_nat n"
          using lo(4) by (auto simp: entry_at_def)
        obtain n' where n': "sent - WINDOW_MAX \<le> n'" "n' < sent" "env_sequence e = of_nat n'"
          "o_payload out = written ! n'"
          using old(6)[OF out(1)] by (auto simp: entry_at_def)
        have "n' = n"
          using u16_inj_window[of n' n] n n' lo(3) by (simp add: window_consts)
        with n n' out k(3) have "e = message_env (ch_msgtype c) written n"
          by (auto simp: message_env_def)
        with n k(3) show ?thesis by (intro exI[of _ n]) auto
      next
        case 2
        with k(3,7) lo(2) c1(6) show ?thesis by auto
      qed
    next
      show "sent + k \<le> sent + WINDOW_MAX" using k(3) lo(2) by simp
      show "sent + k = sent" if "ch_error c' \<noteq> None"
        using that f2(3) unfolding res(2) by (simp split: if_splits)
      have "lo \<le> n" if n: "n < sent" "sent - WINDOW_MAX \<le> n" "of_nat n \<in> fst ` set (ch_outstanding c)" for n
      proof -
        have "(of_nat n :: u16) \<in> fst ` set (ch_outstanding c1)" using n(3) fk c1(1) by simp
        then obtain n' where n': "lo \<le> n'" "n' < sent" "of_nat n = (of_nat n' :: u16)"
          using lo(4) by (auto simp: entry_at_def)
        then have "n = n'" using u16_inj_window[of n n'] n lo(3) by (simp add: window_consts)
        with n' show ?thesis by simp
      qed
      with lo(2) k(3) show "\<exists>lo \<le> sent. sent + k \<le> lo + WINDOW_MAX
        \<and> (\<forall>n < sent. sent - WINDOW_MAX \<le> n \<longrightarrow> of_nat n \<in> fst ` set (ch_outstanding c) \<longrightarrow> lo \<le> n)"
        by blast
    qed (use None in auto)
  qed
qed

text \<open>What \<open>poll_transmit\<close> leaves alone.\<close>

lemma fill_window_frame:
  "fill_window now oldest q c = (c', envs) \<Longrightarrow>
     c' = c\<lparr>ch_send_next := ch_send_next c', ch_outgoing := ch_outgoing c',
            ch_outstanding := ch_outstanding c'\<rparr>"
proof (induction now oldest q c arbitrary: c' envs rule: fill_window.induct)
  case (1 now oldest c)
  then show ?case by auto
next
  case (2 now oldest p q c)
  show ?case
  proof (cases "length (ch_outstanding c) < ch_window c \<and> length (ch_outstanding c) \<noteq> ch_WINDOW c
      \<and> unat (ch_send_next c - oldest) < WINDOW_MAX
      \<and> im_insert (ch_WINDOW c) (ch_send_next c) \<lparr>o_payload = p, o_last_tx = now, o_deadline = 0,
           o_tries = 1\<rparr> (ch_outstanding c) \<noteq> None")
    case False
    with 2(2) have "c' = c\<lparr>ch_outgoing := p # q\<rparr>"
      by (auto simp: Let_def split: if_splits option.splits)
    then show ?thesis by simp
  next
    case True
    then obtain m where m: "im_insert (ch_WINDOW c) (ch_send_next c) \<lparr>o_payload = p,
        o_last_tx = now, o_deadline = 0, o_tries = 1\<rparr> (ch_outstanding c) = Some m" by auto
    let ?c = "c\<lparr>ch_send_next := ch_send_next c + 1, ch_outstanding := m\<rparr>"
    obtain c1 envs1 where rec: "fill_window now oldest q ?c = (c1, envs1)" by fastforce
    have "c' = c1" using 2(2) True m rec by simp
    moreover have "c1 = ?c\<lparr>ch_send_next := ch_send_next c1, ch_outgoing := ch_outgoing c1,
        ch_outstanding := ch_outstanding c1\<rparr>"
      by (rule 2(1)[OF _ refl refl refl m rec]) (use True in simp)
    ultimately show ?thesis by simp
  qed
qed

lemma poll_transmit_frame:
  assumes "poll_transmit c now = (c', envs)"
  shows "ch_WINDOW c' = ch_WINDOW c" "ch_QUEUE c' = ch_QUEUE c" "ch_REORDER c' = ch_REORDER c"
    "ch_msgtype c' = ch_msgtype c" "ch_max_tries c' = ch_max_tries c"
    "ch_max_window c' = ch_max_window c" "ch_dynamic c' = ch_dynamic c"
proof -
  have "ch_WINDOW c' = ch_WINDOW c \<and> ch_QUEUE c' = ch_QUEUE c \<and> ch_REORDER c' = ch_REORDER c
    \<and> ch_msgtype c' = ch_msgtype c \<and> ch_max_tries c' = ch_max_tries c
    \<and> ch_max_window c' = ch_max_window c \<and> ch_dynamic c' = ch_dynamic c"
  proof (cases "ch_error c")
    case (Some err)
    with assms show ?thesis by (auto simp: poll_transmit_def)
  next
    case None
    obtain ex entries resent where retx:
      "retransmit (ch_max_tries c) now (ch_msgtype c) (ch_outstanding c) = (ex, entries, resent)"
      using prod_cases3 by blast
    show ?thesis
    proof (cases ex)
      case (Some seq)
      with assms show ?thesis by (auto simp: poll_transmit_def None retx fail_def)
    next
      case ex: None
      define c1 where "c1 = (if ch_dynamic c
        then (shrink_once ^^ length resent) (c\<lparr>ch_outstanding := entries\<rparr>) else c\<lparr>ch_outstanding := entries\<rparr>)"
      obtain c2 fresh where
        fill: "fill_window now (oldest_outstanding c1) (ch_outgoing c1) c1 = (c2, fresh)"
        by fastforce
      have "c' = (if resent @ fresh = [] then c2 else update_deadlines c2)"
        using assms fill
        by (auto simp: poll_transmit_def None retx ex Let_def split: if_splits simp flip: c1_def)
      then have "ch_WINDOW c' = ch_WINDOW c2 \<and> ch_QUEUE c' = ch_QUEUE c2
        \<and> ch_REORDER c' = ch_REORDER c2 \<and> ch_msgtype c' = ch_msgtype c2
        \<and> ch_max_tries c' = ch_max_tries c2 \<and> ch_max_window c' = ch_max_window c2
        \<and> ch_dynamic c' = ch_dynamic c2"
        by (simp add: update_deadlines_def)
      moreover note fr = fill_window_frame[OF fill]
      have "ch_WINDOW c2 = ch_WINDOW c1" "ch_QUEUE c2 = ch_QUEUE c1" "ch_REORDER c2 = ch_REORDER c1"
        "ch_msgtype c2 = ch_msgtype c1" "ch_max_tries c2 = ch_max_tries c1"
        "ch_max_window c2 = ch_max_window c1" "ch_dynamic c2 = ch_dynamic c1"
        using arg_cong[OF fr, of ch_WINDOW] arg_cong[OF fr, of ch_QUEUE]
          arg_cong[OF fr, of ch_REORDER] arg_cong[OF fr, of ch_msgtype]
          arg_cong[OF fr, of ch_max_tries] arg_cong[OF fr, of ch_max_window]
          arg_cong[OF fr, of ch_dynamic]
        by simp_all
      ultimately show ?thesis by (simp add: c1_def)
    qed
  qed
  then show "ch_WINDOW c' = ch_WINDOW c" "ch_QUEUE c' = ch_QUEUE c" "ch_REORDER c' = ch_REORDER c"
    "ch_msgtype c' = ch_msgtype c" "ch_max_tries c' = ch_max_tries c"
    "ch_max_window c' = ch_max_window c" "ch_dynamic c' = ch_dynamic c"
    by simp_all
qed

lemma send_rep:
  assumes "tx_rep written sent c" "send c p = (c', r)"
  shows "tx_rep (case r of Inr _ \<Rightarrow> written @ [p] | Inl _ \<Rightarrow> written) sent c'"
  using assms
  by (auto simp: send_def tx_rep_def entry_at_append split: if_splits)

lemma sample_rtt_frame [simp]:
  "ch_outstanding (sample_rtt c out now) = ch_outstanding c"
  "ch_outgoing (sample_rtt c out now) = ch_outgoing c"
  "ch_send_next (sample_rtt c out now) = ch_send_next c"
  "ch_error (sample_rtt c out now) = ch_error c"
  "ch_WINDOW (sample_rtt c out now) = ch_WINDOW c"
  "ch_QUEUE (sample_rtt c out now) = ch_QUEUE c"
  "ch_REORDER (sample_rtt c out now) = ch_REORDER c"
  "ch_msgtype (sample_rtt c out now) = ch_msgtype c"
  "ch_inbox (sample_rtt c out now) = ch_inbox c"
  "ch_reorder (sample_rtt c out now) = ch_reorder c"
  "ch_recv_next (sample_rtt c out now) = ch_recv_next c"
  "ch_window (sample_rtt c out now) = ch_window c"
  "ch_window_max (sample_rtt c out now) = ch_window_max c"
  "ch_window_min (sample_rtt c out now) = ch_window_min c"
  "ch_max_window (sample_rtt c out now) = ch_max_window c"
  by (simp_all add: sample_rtt_def Let_def)

lemma promote_frame [simp]:
  "ch_outstanding (promote c) = ch_outstanding c"
  "ch_outgoing (promote c) = ch_outgoing c"
  "ch_send_next (promote c) = ch_send_next c"
  "ch_error (promote c) = ch_error c"
  "ch_WINDOW (promote c) = ch_WINDOW c"
  "ch_QUEUE (promote c) = ch_QUEUE c"
  "ch_REORDER (promote c) = ch_REORDER c"
  "ch_msgtype (promote c) = ch_msgtype c"
  "ch_inbox (promote c) = ch_inbox c"
  "ch_reorder (promote c) = ch_reorder c"
  "ch_recv_next (promote c) = ch_recv_next c"
  "ch_window (promote c) = ch_window c"
  "ch_max_window (promote c) = ch_max_window c"
  by (simp_all add: promote_def Let_def)

lemma on_proof_fields:
  "ch_outstanding (on_proof rm c s now) = (if map_of (ch_outstanding c) s = None
      then ch_outstanding c else rm s (ch_outstanding c))"
  "ch_outgoing (on_proof rm c s now) = ch_outgoing c"
  "ch_send_next (on_proof rm c s now) = ch_send_next c"
  "ch_error (on_proof rm c s now) = ch_error c"
  "ch_WINDOW (on_proof rm c s now) = ch_WINDOW c"
  "ch_QUEUE (on_proof rm c s now) = ch_QUEUE c"
  "ch_REORDER (on_proof rm c s now) = ch_REORDER c"
  "ch_msgtype (on_proof rm c s now) = ch_msgtype c"
  "ch_inbox (on_proof rm c s now) = ch_inbox c"
  "ch_reorder (on_proof rm c s now) = ch_reorder c"
  "ch_recv_next (on_proof rm c s now) = ch_recv_next c"
  by (simp_all add: on_proof_def Let_def split: option.split)

lemma on_proof_rep:
  assumes "removal_law rm" "tx_rep written sent c"
  shows "tx_rep written sent (on_proof rm c s now)"
proof (cases "map_of (ch_outstanding c) s")
  case None
  then have "on_proof rm c s now = c" by (simp add: on_proof_def)
  with assms show ?thesis by simp
next
  case (Some out)
  then have ne: "ch_outstanding c \<noteq> []" by auto
  have dist: "distinct (map fst (ch_outstanding c))" using assms(2) by (simp add: tx_rep_def)
  note f = on_proof_fields[of rm c s now]
  from assms(2) ne Some show ?thesis
    using removal_lawD[OF assms(1) dist, of s] removal_length[OF assms(1) dist, of s]
    by (auto simp: tx_rep_def f)
qed

end
