(* ===== verification/ChannelReceiver.thy ===== *)
theory ChannelReceiver
  imports ChannelSender
begin

text \<open>
  The receiver against the peer's messages. \<open>msgs\<close> gives the message at every position and
  \<open>read\<close> what the application has taken; \<open>rx_rep\<close> says that read and queued messages are the
  first positions in order and that everything held back for reordering is at its own
  position within half the sequence space. Under it, the 16-bit receiver agrees with an
  unbounded one for every envelope within half the space of the next expected position. With
  \<open>lag\<close> the table may also hold messages that were delivered already (see \<open>clobbers\<close>), which
  is harmless as long as the sequences have not been used twice.
\<close>

definition HALF :: nat where "HALF = SEQ_MODULUS div 2"

definition rx_next :: "(u16 \<times> bytes) list \<Rightarrow> channel \<Rightarrow> nat" where
  "rx_next read c = length read + length (ch_inbox c)"

definition rx_rep :: "bool \<Rightarrow> (nat \<Rightarrow> u16 \<times> bytes) \<Rightarrow> nat \<Rightarrow> (u16 \<times> bytes) list \<Rightarrow> channel \<Rightarrow> bool" where
  "rx_rep lag msgs sent read c \<longleftrightarrow>
     rx_next read c \<le> sent \<and> ch_recv_next c = of_nat (rx_next read c)
     \<and> read @ ch_inbox c = map msgs [0..<rx_next read c]
     \<and> distinct (map fst (ch_reorder c))
     \<and> (\<forall>(s, m) \<in> set (ch_reorder c). \<exists>n. (lag \<or> rx_next read c \<le> n) \<and> n < rx_next read c + HALF
          \<and> n < sent \<and> s = of_nat n \<and> m = msgs n)"

text \<open>The positions the receiver has taken responsibility for.\<close>

definition accepted :: "(u16 \<times> bytes) list \<Rightarrow> channel \<Rightarrow> nat \<Rightarrow> bool" where
  "accepted read c n \<longleftrightarrow>
     n < rx_next read c
     \<or> (n < rx_next read c + HALF \<and> map_of (ch_reorder c) (of_nat n) \<noteq> None)"

lemma HALF_eq: "HALF = 32768"
  by (simp add: HALF_def channel_consts)

lemma u16_diff_behind:
  assumes "n < m" "m \<le> n + HALF"
  shows "unat (of_nat n - of_nat m :: u16) = 65536 - (m - n)"
proof -
  have "(of_nat (n + 65536) :: u16) = of_nat n"
    by (rule word_unat_eq_iff [THEN iffD2]) (simp only: unat_of_nat, simp)
  then have "unat (of_nat n - of_nat m :: u16) = unat (of_nat (n + 65536) - of_nat m :: u16)"
    by (simp only:)
  also have "\<dots> = n + 65536 - m"
    by (rule u16_diff) (use assms in \<open>auto simp: HALF_eq\<close>)
  finally show ?thesis using assms(1) by simp
qed

lemma u16_of_nat_inj: "n < 65536 \<Longrightarrow> m < 65536 \<Longrightarrow> (of_nat n :: u16) = of_nat m \<Longrightarrow> n = m"
  by (rule u16_inj_window) auto

lemma rx_rep_reorder:
  assumes "rx_rep lag msgs sent read c" "map_of (ch_reorder c) (of_nat n) = Some m"
    "rx_next read c \<le> n" "n < rx_next read c + HALF" "lag \<longrightarrow> n < SEQ_MODULUS \<and> sent \<le> SEQ_MODULUS"
  shows "m = msgs n \<and> n < sent"
proof -
  from map_of_SomeD[OF assms(2)] assms(1) obtain n' where
    n': "lag \<or> rx_next read c \<le> n'" "n' < rx_next read c + HALF" "n' < sent"
      "of_nat n = (of_nat n' :: u16)" "m = msgs n'"
    by (fastforce simp: rx_rep_def)
  have "n = n'"
  proof (cases "rx_next read c \<le> n'")
    case True
    show ?thesis by (rule u16_inj_window) (use n' True assms(3,4) in \<open>auto simp: HALF_eq\<close>)
  next
    case False
    with n' assms(5) have "n < 65536" "n' < 65536" by (auto simp: channel_consts)
    then show ?thesis using n'(4) by (metis u16_of_nat_inj)
  qed
  with n' show ?thesis by simp
qed

lemma rx_rep_lag: "rx_rep lag msgs sent read c \<Longrightarrow> rx_rep (lag \<or> more_lag) msgs sent read c"
  unfolding rx_rep_def by blast

text \<open>One step of delivery: the next position moves from the reorder table to the inbox.\<close>

lemma rx_rep_deliver:
  assumes rep: "rx_rep lag msgs sent read c" and m: "m = msgs (rx_next read c) \<and> rx_next read c < sent"
  defines "c' \<equiv> c\<lparr>ch_reorder := im_delete (ch_recv_next c) (ch_reorder c),
      ch_inbox := ch_inbox c @ [m], ch_recv_next := ch_recv_next c + 1\<rparr>"
  shows "rx_rep lag msgs sent read c'" "accepted read c n \<Longrightarrow> accepted read c' n"
proof -
  have nxt: "rx_next read c' = Suc (rx_next read c)" by (simp add: rx_next_def c'_def)
  have key: "ch_recv_next c = of_nat (rx_next read c)" using rep by (simp add: rx_rep_def)
  have "\<exists>n. (lag \<or> Suc (rx_next read c) \<le> n) \<and> n < Suc (rx_next read c) + HALF \<and> n < sent
      \<and> s = of_nat n \<and> v = msgs n"
    if "(s, v) \<in> set (ch_reorder c)" "s \<noteq> ch_recv_next c" for s v
  proof -
    from rep that(1) obtain n where n: "lag \<or> rx_next read c \<le> n" "n < rx_next read c + HALF" "n < sent"
      "s = of_nat n" "v = msgs n"
      by (fastforce simp: rx_rep_def)
    with that(2) key have "n \<noteq> rx_next read c" by auto
    with n show ?thesis by (intro exI[of _ n]) auto
  qed
  then show "rx_rep lag msgs sent read c'"
    using rep m unfolding rx_rep_def nxt
    by (auto simp: c'_def im_simps)
  show "accepted read c' n" if acc: "accepted read c n"
  proof (cases "n \<le> rx_next read c")
    case True
    then show ?thesis by (simp add: accepted_def nxt)
  next
    case False
    with acc have n: "n < rx_next read c + HALF" "map_of (ch_reorder c) (of_nat n) \<noteq> None"
      by (auto simp: accepted_def)
    have "(of_nat n :: u16) \<noteq> ch_recv_next c"
      using u16_inj_window[of n "rx_next read c"] n(1) False key by (auto simp: HALF_eq)
    with n show ?thesis unfolding accepted_def nxt by (simp add: c'_def im_simps)
  qed
qed

text \<open>A delivery that leaves the table's own copy of the message behind.\<close>

lemma rx_rep_overtake:
  assumes rep: "rx_rep lag msgs sent read c" and m: "m = msgs (rx_next read c) \<and> rx_next read c < sent"
  shows "rx_rep True msgs sent read (c\<lparr>ch_inbox := ch_inbox c @ [m], ch_recv_next := ch_recv_next c + 1\<rparr>)"
    (is "rx_rep _ _ _ _ ?c")
proof -
  have nxt: "rx_next read ?c = Suc (rx_next read c)" by (simp add: rx_next_def)
  have "\<exists>n. n < Suc (rx_next read c) + HALF \<and> n < sent \<and> s = of_nat n \<and> v = msgs n"
    if "(s, v) \<in> set (ch_reorder c)" for s v
  proof -
    from rep that obtain n where "n < rx_next read c + HALF" "n < sent" "s = of_nat n" "v = msgs n"
      unfolding rx_rep_def by blast
    then show ?thesis by (intro exI[of _ n]) simp
  qed
  then show ?thesis
    using rep m unfolding rx_rep_def nxt by auto
qed

lemma pump_rep:
  "rx_rep lag msgs sent read c \<Longrightarrow> lag \<longrightarrow> sent < SEQ_MODULUS \<Longrightarrow>
     rx_rep lag msgs sent read (pump c) \<and> (\<forall>n. accepted read c n \<longrightarrow> accepted read (pump c) n)"
proof (induction c rule: pump.induct)
  case (1 c)
  show ?case
  proof (cases "length (ch_inbox c) \<noteq> ch_QUEUE c \<and> map_of (ch_reorder c) (ch_recv_next c) \<noteq> None")
    case False
    then have "pump c = c" by (subst pump.simps) (auto split: option.splits)
    with 1 show ?thesis by simp
  next
    case True
    then obtain m where m: "map_of (ch_reorder c) (ch_recv_next c) = Some m" by auto
    let ?c = "c\<lparr>ch_reorder := im_delete (ch_recv_next c) (ch_reorder c),
                ch_inbox := ch_inbox c @ [m], ch_recv_next := ch_recv_next c + 1\<rparr>"
    have "ch_recv_next c = of_nat (rx_next read c)" using 1(2) by (simp add: rx_rep_def)
    then have "m = msgs (rx_next read c) \<and> rx_next read c < sent"
      using rx_rep_reorder[OF 1(2), of "rx_next read c" m] m 1(2,3) by (auto simp: HALF_eq rx_rep_def)
    note step = rx_rep_deliver[OF 1(2) this]
    have "pump c = pump ?c" using True m by (subst pump.simps) simp
    with 1(1)[OF _ m step(1) 1(3)] True step(2) show ?thesis by auto
  qed
qed

lemma pump_frame:
  "ch_QUEUE (pump c) = ch_QUEUE c \<and> ch_outstanding (pump c) = ch_outstanding c
   \<and> ch_outgoing (pump c) = ch_outgoing c \<and> ch_send_next (pump c) = ch_send_next c
   \<and> ch_error (pump c) = ch_error c \<and> ch_WINDOW (pump c) = ch_WINDOW c
   \<and> ch_REORDER (pump c) = ch_REORDER c \<and> ch_msgtype (pump c) = ch_msgtype c"
  by (induction c rule: pump.induct) (subst pump.simps, auto split: option.splits)+

lemma pump_stops:
  "length (ch_inbox (pump c)) = ch_QUEUE (pump c)
   \<or> map_of (ch_reorder (pump c)) (ch_recv_next (pump c)) = None"
proof (induction c rule: pump.induct)
  case (1 c)
  show ?case
  proof (cases "length (ch_inbox c) \<noteq> ch_QUEUE c \<and> map_of (ch_reorder c) (ch_recv_next c) \<noteq> None")
    case False
    then have "pump c = c" by (subst pump.simps) (auto split: option.splits)
    with False show ?thesis by auto
  next
    case True
    then obtain m where m: "map_of (ch_reorder c) (ch_recv_next c) = Some m" by auto
    then have "pump c = pump (c\<lparr>ch_reorder := im_delete (ch_recv_next c) (ch_reorder c),
        ch_inbox := ch_inbox c @ [m], ch_recv_next := ch_recv_next c + 1\<rparr>)"
      using True by (subst pump.simps) simp
    with 1[OF _ m] True show ?thesis by simp
  qed
qed

text \<open>
  A message waits at the next position while the inbox is full. If the application then reads
  one and another copy of the waiting envelope arrives before the next read, the copy goes
  straight to the inbox and the waiting one stays behind in the reorder table; \<open>clobbers\<close> is
  that arrival.
\<close>

definition clobbers :: "channel \<Rightarrow> envelope \<Rightarrow> bool" where
  "clobbers c e \<longleftrightarrow> env_sequence e = ch_recv_next c \<and> length (ch_inbox c) \<noteq> ch_QUEUE c
     \<and> im_contains (ch_recv_next c) (ch_reorder c)"

lemma im_delete_absent: "\<not> im_contains k m \<Longrightarrow> im_delete k m = m"
  by (force simp: im_contains_def im_delete_def intro!: filter_True)

lemma handle_rep:
  assumes rep: "rx_rep lag msgs sent read c" and h: "handle c e = (c', ok)"
    and e: "env_sequence e = of_nat n" "(env_msgtype e, env_payload e) = msgs n" "n < sent"
    and near: "rx_next read c \<le> n + HALF" "n < rx_next read c + HALF"
    and turn: "lag \<or> clobbers c e \<longrightarrow> sent < SEQ_MODULUS"
  shows "rx_rep (lag \<or> clobbers c e) msgs sent read c'" "\<And>n'. accepted read c n' \<Longrightarrow> accepted read c' n'"
    "ok \<Longrightarrow> accepted read c' n"
proof -
  let ?next = "rx_next read c" and ?ahead = "env_sequence e - ch_recv_next c"
  have key: "ch_recv_next c = of_nat ?next" using rep by (simp add: rx_rep_def)
  consider (now) "n = ?next" | (future) "?next < n" | (past) "n < ?next" by linarith
  then have "rx_rep (lag \<or> clobbers c e) msgs sent read c' \<and> (\<forall>n'. accepted read c n' \<longrightarrow> accepted read c' n')
    \<and> (ok \<longrightarrow> accepted read c' n)"
  proof cases
    case now
    let ?c = "c\<lparr>ch_inbox := ch_inbox c @ [msgs n], ch_recv_next := ch_recv_next c + 1\<rparr>"
    have "?ahead = 0" using now e key by simp
    then have res: "(c', ok) = (if length (ch_inbox c) = ch_QUEUE c then (c, False) else (pump ?c, True))"
      using h e by (auto simp: handle_def Let_def)
    show ?thesis
    proof (cases "length (ch_inbox c) = ch_QUEUE c")
      case True
      with res rep show ?thesis by (simp add: rx_rep_lag)
    next
      case False
      have m: "msgs n = msgs (rx_next read c) \<and> rx_next read c < sent" using now e(3) by simp
      have step: "rx_rep (lag \<or> clobbers c e) msgs sent read ?c"
      proof (cases "clobbers c e")
        case True
        then show ?thesis using rx_rep_overtake[OF rep m] by simp
      next
        case False
        then have "\<not> im_contains (ch_recv_next c) (ch_reorder c)"
          using \<open>length (ch_inbox c) \<noteq> ch_QUEUE c\<close> now e key by (simp add: clobbers_def)
        then have "im_delete (ch_recv_next c) (ch_reorder c) = ch_reorder c" by (rule im_delete_absent)
        then show ?thesis using rx_rep_deliver(1)[OF rep m] False by simp
      qed
      have kept: "accepted read ?c n'" if "accepted read c n'" for n'
        using that by (auto simp: accepted_def rx_next_def)
      have "accepted read ?c n" using now by (simp add: accepted_def rx_next_def)
      with False res pump_rep[OF step turn] kept show ?thesis by auto
    qed
  next
    case future
    then have "unat ?ahead = n - ?next"
      using near e key by (simp add: u16_diff HALF_eq del: of_nat_diff)
    with future near have "?ahead \<noteq> 0" "unat ?ahead < SEQ_MODULUS div 2"
      by (auto simp: HALF_def)
    then have res: "(c', ok) =
       (if length (ch_reorder c) = ch_REORDER c \<and> \<not> im_contains (env_sequence e) (ch_reorder c)
        then (c, False)
        else if im_contains (env_sequence e) (ch_reorder c) then (c, True)
        else (c\<lparr>ch_reorder := ch_reorder c
                  @ [(env_sequence e, env_msgtype e, env_payload e)]\<rparr>, True))"
      using h by (simp add: handle_def Let_def)
    let ?full = "length (ch_reorder c) = ch_REORDER c"
    let ?has = "im_contains (env_sequence e) (ch_reorder c)"
    consider "c' = c" "\<not> ok" | "c' = c" "?has"
      | "\<not> ?has" "c' = c\<lparr>ch_reorder := ch_reorder c @ [(env_sequence e, env_msgtype e, env_payload e)]\<rparr>"
      using res by (simp only: prod.inject split: if_split_asm) blast+
    then show ?thesis
    proof cases
      case 1
      with rep show ?thesis by (simp add: rx_rep_lag)
    next
      case 2
      with rx_rep_lag[OF rep] near e show ?thesis by (auto simp: accepted_def im_simps)
    next
      case 3
      have nxt: "rx_next read c' = ?next" by (simp add: 3(2) rx_next_def)
      have "distinct (map fst (ch_reorder c'))"
        using rep 3(1) unfolding 3(2) by (auto simp: rx_rep_def im_contains_def)
      moreover have "\<exists>n'. (lag \<or> ?next \<le> n') \<and> n' < ?next + HALF \<and> n' < sent \<and> s = of_nat n' \<and> m = msgs n'"
        if "(s, m) \<in> set (ch_reorder c')" for s m
      proof (cases "(s, m) \<in> set (ch_reorder c)")
        case True
        with rep show ?thesis unfolding rx_rep_def by blast
      next
        case False
        with that have "s = of_nat n" "m = msgs n" using e by (auto simp: 3(2))
        with future near(2) e(3) show ?thesis by (intro exI[of _ n]) simp
      qed
      moreover have "?next \<le> sent" "ch_recv_next c' = of_nat ?next" "read @ ch_inbox c' = map msgs [0..<?next]"
        using rep by (simp_all add: 3(2) rx_rep_def)
      ultimately have "rx_rep lag msgs sent read c'"
        unfolding rx_rep_def nxt by blast
      note rx_rep_lag[OF this, of "clobbers c e"]
      moreover have "accepted read c' n'" if "accepted read c n'" for n'
        using that unfolding accepted_def nxt by (auto simp: 3(2) map_add_def split: option.splits)
      moreover have "map_of (ch_reorder c') (of_nat n) \<noteq> None"
        using e(1) by (simp add: 3(2) map_add_def split: option.splits)
      then have "accepted read c' n"
        using near(2) unfolding accepted_def nxt by simp
      ultimately show ?thesis by blast
    qed
  next
    case past
    then have "unat ?ahead = 65536 - (?next - n)"
      using near e key by (simp add: u16_diff_behind)
    with past near have "?ahead \<noteq> 0" "\<not> unat ?ahead < SEQ_MODULUS div 2"
      by (auto simp: HALF_eq channel_consts)
    then have "c' = c" using h by (auto simp: handle_def Let_def)
    with rx_rep_lag[OF rep] past show ?thesis by (auto simp: accepted_def)
  qed
  then show "rx_rep (lag \<or> clobbers c e) msgs sent read c'" "\<And>n'. accepted read c n' \<Longrightarrow> accepted read c' n'"
    "ok \<Longrightarrow> accepted read c' n"
    by auto
qed

lemma recv_rep:
  assumes "rx_rep lag msgs sent read c" "recv_message c = (c', r)" "lag \<longrightarrow> sent < SEQ_MODULUS"
  shows "rx_rep lag msgs sent (read @ (case r of None \<Rightarrow> [] | Some m \<Rightarrow> [m])) c'"
    "accepted read c n \<Longrightarrow> accepted (read @ (case r of None \<Rightarrow> [] | Some m \<Rightarrow> [m])) c' n"
proof -
  have step: "rx_rep lag msgs sent read (pump c)" "\<And>n. accepted read c n \<Longrightarrow> accepted read (pump c) n"
    using pump_rep[OF assms(1,3)] by auto
  have eq: "rx_rep lag msgs sent (read @ (case r of None \<Rightarrow> [] | Some m \<Rightarrow> [m])) c'
      = rx_rep lag msgs sent read (pump c)"
    "accepted (read @ (case r of None \<Rightarrow> [] | Some m \<Rightarrow> [m])) c' n = accepted read (pump c) n"
    using assms(2)
    by (auto simp: recv_message_def Let_def rx_rep_def accepted_def rx_next_def split: list.splits)
  show "rx_rep lag msgs sent (read @ (case r of None \<Rightarrow> [] | Some m \<Rightarrow> [m])) c'"
    using eq(1) step(1) by simp
  show "accepted read c n \<Longrightarrow> accepted (read @ (case r of None \<Rightarrow> [] | Some m \<Rightarrow> [m])) c' n"
    using eq(2) step(2) by simp
qed

lemma rx_next_pump_mono: "rx_next read c \<le> rx_next read (pump c)"
proof (induction c rule: pump.induct)
  case (1 c)
  show ?case
    by (subst pump.simps) (use 1 in \<open>auto simp: rx_next_def split: option.splits intro: Suc_leD\<close>)
qed

lemma rx_next_handle_mono: "handle c e = (c', ok) \<Longrightarrow> rx_next read c \<le> rx_next read c'"
  using rx_next_pump_mono[of read "c\<lparr>ch_inbox := ch_inbox c @ [(env_msgtype e, env_payload e)],
    ch_recv_next := ch_recv_next c + 1\<rparr>"]
  by (auto simp: handle_def Let_def rx_next_def split: if_splits)

lemma rx_next_recv_mono:
  "recv_message c = (c', r) \<Longrightarrow>
     rx_next read c \<le> rx_next (read @ (case r of None \<Rightarrow> [] | Some m \<Rightarrow> [m])) c'"
  using rx_next_pump_mono[of read c]
  by (auto simp: recv_message_def Let_def rx_next_def split: list.splits)

text \<open>The reorder table never grows past its capacity.\<close>

lemma pump_reorder: "length (ch_reorder (pump c)) \<le> length (ch_reorder c)"
proof (induction c rule: pump.induct)
  case (1 c)
  have "length (im_delete k m) \<le> length m" for k and m :: "(u16 \<times> u16 \<times> bytes) list"
    by (simp add: im_delete_def)
  with 1 show ?case
    by (subst pump.simps) (fastforce split: option.splits intro: le_trans)
qed

lemma handle_reorder:
  "handle c e = (c', ok) \<Longrightarrow> length (ch_reorder c) \<le> ch_REORDER c \<Longrightarrow>
     length (ch_reorder c') \<le> ch_REORDER c'"
  using pump_reorder[of "c\<lparr>ch_inbox := ch_inbox c @ [(env_msgtype e, env_payload e)],
    ch_recv_next := ch_recv_next c + 1\<rparr>"]
  by (auto simp: handle_def Let_def pump_frame im_simps split: if_splits)

text \<open>Positions the receiver took up without delivering all sit in the reorder table.\<close>

lemma accepted_span:
  assumes "\<forall>n < m. accepted read c n" "m \<le> rx_next read c + HALF"
  shows "m \<le> rx_next read c + length (ch_reorder c)"
proof (cases "m \<le> rx_next read c")
  case False
  let ?I = "{rx_next read c..<m}"
  have "of_nat ` ?I \<subseteq> fst ` set (ch_reorder c)"
    using assms(1) by (force simp: accepted_def dest: map_of_SomeD)
  moreover have "inj_on (of_nat :: nat \<Rightarrow> u16) ?I"
  proof (rule inj_onI)
    fix x y assume "x \<in> ?I" "y \<in> ?I" "of_nat x = (of_nat y :: u16)"
    with assms(2) show "x = y" by (intro u16_inj_window) (auto simp: HALF_eq)
  qed
  ultimately have "card ?I \<le> card (fst ` set (ch_reorder c))"
    by (metis card_image card_mono finite_imageI finite_set)
  also have "\<dots> \<le> length (ch_reorder c)"
    by (metis card_image_le card_length finite_set le_trans)
  finally show ?thesis using False by simp
qed simp

end
