(* ===== verification/ChannelSession.thy ===== *)
theory ChannelSession
  imports ChannelReceiver
begin

text \<open>
  One direction of a channel over a packet network that may lose, duplicate, delay and
  reorder. The steps are the operations a driver calls: \<open>send\<close>, \<open>poll_transmit\<close>, \<open>handle\<close>
  (whose result decides whether the packet is proved), \<open>recv_message\<close> and \<open>on_proof\<close>. An
  envelope and a proof are stamped with the number of sequences given out when they were put
  on the network; sequences are 16 bits, so the steps ask that one is not delivered half a
  sequence space late. Everything else about delivery is free, duplicates included. \<open>s_clobbered\<close>
  records whether some arrival was one that \<open>clobbers\<close> describes: such a copy leaves a delivered
  message behind in the reorder table, which the sequence space comes back to after 65,536
  messages. \<open>within_a_turn\<close> says of a run that it met no such copy or sent fewer messages than
  that; \<open>stale_entry_redelivered\<close> at the end shows what the code does beyond it.
\<close>

record session =
  s_tx :: channel
  s_rx :: channel
  s_written :: "bytes list"
  s_read :: "(u16 \<times> bytes) list"
  s_sent :: nat
  s_net :: "(nat \<times> envelope) set"
  s_acks :: "(nat \<times> u16) set"
  s_clobbered :: bool

definition session_start :: "channel \<Rightarrow> channel \<Rightarrow> session" where
  "session_start tx rx = \<lparr>s_tx = tx, s_rx = rx, s_written = [], s_read = [], s_sent = 0,
     s_net = {}, s_acks = {}, s_clobbered = False\<rparr>"

definition within_a_turn :: "session \<Rightarrow> bool" where
  "within_a_turn s \<longleftrightarrow> (s_clobbered s \<longrightarrow> s_sent s < SEQ_MODULUS)"

definition delivered :: "session \<Rightarrow> nat" where
  "delivered s = rx_next (s_read s) (s_rx s)"

inductive session_step :: "removal \<Rightarrow> session \<Rightarrow> session \<Rightarrow> bool" for rm where
  offer: "send (s_tx s) p = (tx, r) \<Longrightarrow>
    session_step rm s (s\<lparr>s_tx := tx,
      s_written := (case r of Inr _ \<Rightarrow> s_written s @ [p] | Inl _ \<Rightarrow> s_written s)\<rparr>)"
| transmit: "poll_transmit (s_tx s) now = (tx, envs) \<Longrightarrow>
    sent = s_sent s + unat (ch_send_next tx - ch_send_next (s_tx s)) \<Longrightarrow>
    session_step rm s (s\<lparr>s_tx := tx, s_sent := sent, s_net := s_net s \<union> Pair sent ` set envs\<rparr>)"
| arrive: "(t, e) \<in> s_net s \<Longrightarrow> delivered s + WINDOW_MAX \<le> t + HALF \<Longrightarrow>
    handle (s_rx s) e = (rx, prove) \<Longrightarrow>
    session_step rm s (s\<lparr>s_rx := rx,
      s_acks := (if prove then insert (t, env_sequence e) (s_acks s) else s_acks s),
      s_clobbered := s_clobbered s \<or> clobbers (s_rx s) e\<rparr>)"
| read_one: "recv_message (s_rx s) = (rx, m) \<Longrightarrow>
    session_step rm s (s\<lparr>s_rx := rx,
      s_read := s_read s @ (case m of None \<Rightarrow> [] | Some m \<Rightarrow> [m])\<rparr>)"
| prove: "(t, q) \<in> s_acks s \<Longrightarrow> s_sent s + WINDOW_MAX \<le> t + SEQ_MODULUS \<Longrightarrow>
    session_step rm s (s\<lparr>s_tx := on_proof rm (s_tx s) q now\<rparr>)"

inductive session_reach :: "removal \<Rightarrow> session \<Rightarrow> session \<Rightarrow> bool" for rm s where
  reach_start: "session_reach rm s s"
| reach_step: "session_reach rm s s' \<Longrightarrow> session_step rm s' s'' \<Longrightarrow> session_reach rm s s''"

definition unused :: "channel \<Rightarrow> bool" where
  "unused c \<longleftrightarrow> ch_error c = None \<and> ch_outgoing c = [] \<and> ch_outstanding c = []
     \<and> ch_send_next c = 0 \<and> ch_recv_next c = 0 \<and> ch_reorder c = [] \<and> ch_inbox c = []"

lemma unused_start_window: "unused (start_window c rtt) = unused c"
  by (simp add: unused_def start_window_def Let_def)

lemma unused_with_params: "unused (with_params W Q R mt w retx)"
  by (simp add: unused_def with_params_def Let_def)

lemma unused_with_policy: "unused (with_initial_rtt_and_max_window W Q R mt rtt w)"
  using unused_start_window[of "with_params W Q R mt w 0" rtt] unused_with_params[of W Q R mt w 0]
  by (simp add: with_initial_rtt_and_max_window_def unused_def)

section \<open>The invariant\<close>

definition message_at :: "u16 \<Rightarrow> bytes list \<Rightarrow> nat \<Rightarrow> u16 \<times> bytes" where
  "message_at mt written n = (mt, written ! n)"

definition session_inv :: "session \<Rightarrow> bool" where
  "session_inv s \<longleftrightarrow>
     tx_rep (s_written s) (s_sent s) (s_tx s)
     \<and> rx_rep (s_clobbered s) (message_at (ch_msgtype (s_tx s)) (s_written s)) (s_sent s) (s_read s) (s_rx s)
     \<and> length (ch_reorder (s_rx s)) \<le> ch_REORDER (s_rx s)
     \<and> ch_REORDER (s_rx s) + WINDOW_MAX \<le> HALF
     \<and> s_sent s \<le> delivered s + ch_REORDER (s_rx s) + WINDOW_MAX
     \<and> (ch_error (s_tx s) = None \<longrightarrow> (\<forall>n < s_sent s. accepted (s_read s) (s_rx s) n
          \<or> s_sent s - WINDOW_MAX \<le> n \<and> of_nat n \<in> fst ` set (ch_outstanding (s_tx s))))
     \<and> (\<forall>(t, e) \<in> s_net s. \<exists>n < s_sent s. t \<le> n + WINDOW_MAX \<and> n < t
          \<and> e = message_env (ch_msgtype (s_tx s)) (s_written s) n)
     \<and> (\<forall>(t, q) \<in> s_acks s. \<exists>n < s_sent s. t \<le> n + WINDOW_MAX \<and> q = of_nat n
          \<and> accepted (s_read s) (s_rx s) n)"

text \<open>Messages appended by the sender leave the earlier ones where they were.\<close>

lemma rx_rep_cong:
  assumes "rx_rep lag f sent read c" "\<And>n. n < sent \<Longrightarrow> f n = g n" "sent \<le> sent'"
  shows "rx_rep lag g sent' read c"
proof -
  have "map f [0..<rx_next read c] = map g [0..<rx_next read c]"
    using assms(1,2) by (auto simp: rx_rep_def)
  with assms show ?thesis unfolding rx_rep_def by (fastforce split: prod.splits)
qed

lemma message_at_append: "n < length ws \<Longrightarrow> message_at mt (ws @ ys) n = message_at mt ws n"
  "n < length ws \<Longrightarrow> message_env mt (ws @ ys) n = message_env mt ws n"
  by (simp_all add: message_at_def message_env_def nth_append)

lemma session_inv_start:
  assumes "unused tx" "unused rx" "ch_REORDER rx + WINDOW_MAX \<le> HALF"
  shows "session_inv (session_start tx rx)"
  using assms
  by (simp add: session_inv_def session_start_def tx_rep_def rx_rep_def rx_next_def unused_def
      delivered_def)

lemma session_inv_offer:
  assumes inv: "session_inv s" and send: "send (s_tx s) p = (tx, r)"
  shows "session_inv (s\<lparr>s_tx := tx,
      s_written := (case r of Inr _ \<Rightarrow> s_written s @ [p] | Inl _ \<Rightarrow> s_written s)\<rparr>)"
proof -
  let ?w = "case r of Inr _ \<Rightarrow> s_written s @ [p] | Inl _ \<Rightarrow> s_written s"
  have frame: "ch_msgtype tx = ch_msgtype (s_tx s)" "ch_error tx = ch_error (s_tx s)"
    "ch_outstanding tx = ch_outstanding (s_tx s)"
    using send by (auto simp: send_def split: if_splits)
  have len: "s_sent s \<le> length (s_written s)" using inv by (simp add: session_inv_def tx_rep_def)
  have same: "message_at mt ?w n = message_at mt (s_written s) n"
    "message_env mt ?w n = message_env mt (s_written s) n" if "n < s_sent s" for n mt
    using that len by (simp_all add: message_at_append split: sum.splits)
  have "tx_rep ?w (s_sent s) tx"
    using send_rep[OF _ send] inv by (simp add: session_inv_def)
  moreover have "rx_rep (s_clobbered s) (message_at (ch_msgtype (s_tx s)) ?w) (s_sent s) (s_read s) (s_rx s)"
  proof (rule rx_rep_cong[OF _ _ order_refl])
    show "rx_rep (s_clobbered s) (message_at (ch_msgtype (s_tx s)) (s_written s)) (s_sent s) (s_read s) (s_rx s)"
      using inv by (simp add: session_inv_def)
  qed (simp only: same(1))
  moreover have "\<exists>n < s_sent s. t \<le> n + WINDOW_MAX \<and> n < t \<and> e = message_env (ch_msgtype (s_tx s)) ?w n"
    if net: "(t, e) \<in> s_net s" for t e
  proof -
    from inv net obtain n where n: "n < s_sent s" "t \<le> n + WINDOW_MAX" "n < t"
      "e = message_env (ch_msgtype (s_tx s)) (s_written s) n"
      unfolding session_inv_def by blast
    with same(2)[OF n(1)] show ?thesis by (intro exI[of _ n]) (simp only: simp_thms)
  qed
  then have "\<forall>(t, e) \<in> s_net s. \<exists>n < s_sent s. t \<le> n + WINDOW_MAX \<and> n < t
    \<and> e = message_env (ch_msgtype (s_tx s)) ?w n" by blast
  ultimately show ?thesis
    using inv unfolding session_inv_def delivered_def by (simp add: frame)
qed

lemma session_inv_transmit:
  assumes inv: "session_inv s" and poll: "poll_transmit (s_tx s) now = (tx, envs)"
  shows "session_inv (s\<lparr>s_tx := tx,
    s_sent := s_sent s + unat (ch_send_next tx - ch_send_next (s_tx s)),
    s_net := s_net s \<union> Pair (s_sent s + unat (ch_send_next tx - ch_send_next (s_tx s))) ` set envs\<rparr>)"
proof -
  have rep: "tx_rep (s_written s) (s_sent s) (s_tx s)" using inv by (simp add: session_inv_def)
  obtain sent' where s': "tx_rep (s_written s) sent' tx" "s_sent s \<le> sent'"
    "ch_error tx = None \<Longrightarrow> fst ` set (ch_outstanding tx)
       = fst ` set (ch_outstanding (s_tx s)) \<union> of_nat ` {s_sent s..<sent'}"
    "\<And>e. e \<in> set envs \<Longrightarrow> \<exists>n < sent'. sent' \<le> n + WINDOW_MAX
       \<and> e = message_env (ch_msgtype (s_tx s)) (s_written s) n"
    "ch_error (s_tx s) \<noteq> None \<Longrightarrow> tx = s_tx s"
    "sent' \<le> s_sent s + WINDOW_MAX" "ch_error tx \<noteq> None \<Longrightarrow> sent' = s_sent s"
    "ch_error tx = None \<Longrightarrow> \<exists>lo \<le> s_sent s. sent' \<le> lo + WINDOW_MAX
       \<and> (\<forall>n < s_sent s. s_sent s - WINDOW_MAX \<le> n
            \<longrightarrow> of_nat n \<in> fst ` set (ch_outstanding (s_tx s)) \<longrightarrow> lo \<le> n)"
    by (rule poll_transmit_rep[OF rep poll]) (rule that; assumption)
  have sent: "s_sent s + unat (ch_send_next tx - ch_send_next (s_tx s)) = sent'"
    using rep s'(1,2,6) by (simp add: tx_rep_def u16_diff window_consts del: of_nat_diff)
  have mt: "ch_msgtype tx = ch_msgtype (s_tx s)" by (rule poll_transmit_frame(4)[OF poll])
  have acc: "\<forall>n < sent'. accepted (s_read s) (s_rx s) n
      \<or> sent' - WINDOW_MAX \<le> n \<and> of_nat n \<in> fst ` set (ch_outstanding tx)"
    and bound: "sent' \<le> delivered s + ch_REORDER (s_rx s) + WINDOW_MAX"
    if ok: "ch_error tx = None"
  proof -
    have ok': "ch_error (s_tx s) = None" using s'(5) ok by (cases "ch_error (s_tx s)") auto
    obtain lo where lo: "lo \<le> s_sent s" "sent' \<le> lo + WINDOW_MAX"
      "\<And>n. n < s_sent s \<Longrightarrow> s_sent s - WINDOW_MAX \<le> n \<Longrightarrow>
         of_nat n \<in> fst ` set (ch_outstanding (s_tx s)) \<Longrightarrow> lo \<le> n"
      using s'(8)[OF ok] by blast
    have old: "accepted (s_read s) (s_rx s) n \<or> s_sent s - WINDOW_MAX \<le> n
        \<and> of_nat n \<in> fst ` set (ch_outstanding (s_tx s))" if "n < s_sent s" for n
      using inv ok' that unfolding session_inv_def by blast
    have below: "accepted (s_read s) (s_rx s) n" if "n < lo" for n
      using old[of n] lo(3)[of n] that lo(1) by force
    show "\<forall>n < sent'. accepted (s_read s) (s_rx s) n
      \<or> sent' - WINDOW_MAX \<le> n \<and> of_nat n \<in> fst ` set (ch_outstanding tx)"
    proof (intro allI impI)
      fix n assume n: "n < sent'"
      show "accepted (s_read s) (s_rx s) n
        \<or> sent' - WINDOW_MAX \<le> n \<and> of_nat n \<in> fst ` set (ch_outstanding tx)"
      proof (cases "n < s_sent s")
        case True
        show ?thesis
        proof (cases "accepted (s_read s) (s_rx s) n")
          case False
          then have key: "s_sent s - WINDOW_MAX \<le> n" "of_nat n \<in> fst ` set (ch_outstanding (s_tx s))"
            using old[OF True] by simp_all
          then have "sent' - WINDOW_MAX \<le> n" using lo(2) lo(3)[OF True] by linarith
          then show ?thesis using key(2) s'(3)[OF ok] by simp
        qed simp
      next
        case False
        then show ?thesis using n s'(3)[OF ok] s'(6) by auto
      qed
    qed
    have "lo \<le> delivered s + HALF"
      using inv lo(1) by (auto simp: session_inv_def)
    then have "lo \<le> delivered s + length (ch_reorder (s_rx s))"
      using accepted_span[of lo] below by (simp add: delivered_def)
    then show "sent' \<le> delivered s + ch_REORDER (s_rx s) + WINDOW_MAX"
      using lo(2) inv by (simp add: session_inv_def)
  qed
  have len: "sent' \<le> length (s_written s)" using s'(1) by (simp add: tx_rep_def)
  have rx: "rx_rep (s_clobbered s) (message_at (ch_msgtype (s_tx s)) (s_written s)) sent' (s_read s) (s_rx s)"
  proof (rule rx_rep_cong[OF _ HOL.refl s'(2)])
    show "rx_rep (s_clobbered s) (message_at (ch_msgtype (s_tx s)) (s_written s)) (s_sent s) (s_read s) (s_rx s)"
      using inv by (simp add: session_inv_def)
  qed
  have bound': "sent' \<le> delivered s + ch_REORDER (s_rx s) + WINDOW_MAX"
    using bound s'(7) inv by (cases "ch_error tx = None") (auto simp: session_inv_def)
  have net: "\<forall>(t, e) \<in> s_net s \<union> Pair sent' ` set envs. \<exists>n < sent'. t \<le> n + WINDOW_MAX \<and> n < t
          \<and> e = message_env (ch_msgtype (s_tx s)) (s_written s) n"
  proof -
    have "\<exists>n < sent'. t \<le> n + WINDOW_MAX \<and> n < t
          \<and> e = message_env (ch_msgtype (s_tx s)) (s_written s) n" if "(t, e) \<in> s_net s" for t e
    proof -
      from inv that obtain n where "n < s_sent s" "t \<le> n + WINDOW_MAX" "n < t"
        "e = message_env (ch_msgtype (s_tx s)) (s_written s) n"
        unfolding session_inv_def by blast
      then show ?thesis using s'(2) by (intro exI[of _ n]) simp
    qed
    moreover have "\<exists>n < sent'. sent' \<le> n + WINDOW_MAX \<and> n < sent'
          \<and> e = message_env (ch_msgtype (s_tx s)) (s_written s) n" if "e \<in> set envs" for e
      using s'(4)[OF that] by blast
    ultimately show ?thesis by blast
  qed
  have acks: "\<forall>(t, q) \<in> s_acks s. \<exists>n < sent'. t \<le> n + WINDOW_MAX \<and> q = of_nat n
          \<and> accepted (s_read s) (s_rx s) n"
  proof -
    have "\<exists>n < sent'. t \<le> n + WINDOW_MAX \<and> q = of_nat n \<and> accepted (s_read s) (s_rx s) n"
      if "(t, q) \<in> s_acks s" for t q
    proof -
      from inv that obtain n where "n < s_sent s" "t \<le> n + WINDOW_MAX" "q = of_nat n"
        "accepted (s_read s) (s_rx s) n"
        unfolding session_inv_def by blast
      then show ?thesis using s'(2) by (intro exI[of _ n]) simp
    qed
    then show ?thesis by blast
  qed
  show ?thesis
    using s'(1) rx inv bound' acc net acks
    unfolding session_inv_def sent by (simp add: mt delivered_def)
qed


text \<open>The receiver's side: whatever it does, what it accepted stays accepted.\<close>

lemma session_inv_rx:
  assumes inv: "session_inv s"
    and rep: "rx_rep lag (message_at (ch_msgtype (s_tx s)) (s_written s)) (s_sent s) rd rx"
    and acc: "\<And>n. accepted (s_read s) (s_rx s) n \<Longrightarrow> accepted rd rx n"
    and mono: "delivered s \<le> rx_next rd rx"
    and size: "length (ch_reorder rx) \<le> ch_REORDER rx" "ch_REORDER rx = ch_REORDER (s_rx s)"
    and acks: "\<And>t q. (t, q) \<in> A \<Longrightarrow> (t, q) \<in> s_acks s \<or>
      (\<exists>n < s_sent s. t \<le> n + WINDOW_MAX \<and> q = of_nat n \<and> accepted rd rx n)"
  shows "session_inv (s\<lparr>s_rx := rx, s_read := rd, s_acks := A, s_clobbered := lag\<rparr>)"
proof -
  have "\<exists>n < s_sent s. t \<le> n + WINDOW_MAX \<and> q = of_nat n \<and> accepted rd rx n" if "(t, q) \<in> A" for t q
    using acks[OF that] inv acc unfolding session_inv_def by blast
  then have A: "\<forall>(t, q) \<in> A. \<exists>n < s_sent s. t \<le> n + WINDOW_MAX \<and> q = of_nat n \<and> accepted rd rx n"
    by blast
  have "\<forall>n < s_sent s. accepted rd rx n
      \<or> s_sent s - WINDOW_MAX \<le> n \<and> of_nat n \<in> fst ` set (ch_outstanding (s_tx s))"
    if "ch_error (s_tx s) = None"
    using inv acc that unfolding session_inv_def by blast
  with inv rep mono size A show ?thesis
    unfolding session_inv_def delivered_def by simp
qed

lemma handle_frame:
  "handle c e = (c', ok) \<Longrightarrow> ch_REORDER c' = ch_REORDER c \<and> ch_QUEUE c' = ch_QUEUE c"
  by (auto simp: handle_def Let_def pump_frame split: if_splits)

lemma recv_frame:
  "recv_message c = (c', r) \<Longrightarrow> ch_REORDER c' = ch_REORDER c \<and> ch_QUEUE c' = ch_QUEUE c
     \<and> ch_reorder c' = ch_reorder (pump c)"
  by (auto simp: recv_message_def Let_def pump_frame split: list.splits)

lemma session_inv_arrive:
  assumes inv: "session_inv s" and net: "(t, e) \<in> s_net s" "delivered s + WINDOW_MAX \<le> t + HALF"
    and h: "handle (s_rx s) e = (rx, ok)"
    and turn: "s_clobbered s \<or> clobbers (s_rx s) e \<longrightarrow> s_sent s < SEQ_MODULUS"
  shows "session_inv (s\<lparr>s_rx := rx,
      s_acks := (if ok then insert (t, env_sequence e) (s_acks s) else s_acks s),
      s_clobbered := s_clobbered s \<or> clobbers (s_rx s) e\<rparr>)"
proof -
  let ?msgs = "message_at (ch_msgtype (s_tx s)) (s_written s)"
  from inv net(1) obtain n where n: "n < s_sent s" "t \<le> n + WINDOW_MAX"
    "e = message_env (ch_msgtype (s_tx s)) (s_written s) n"
    unfolding session_inv_def by blast
  have rep: "rx_rep (s_clobbered s) ?msgs (s_sent s) (s_read s) (s_rx s)" using inv by (simp add: session_inv_def)
  have e: "env_sequence e = of_nat n" "(env_msgtype e, env_payload e) = ?msgs n"
    by (simp_all add: n(3) message_env_def message_at_def)
  have near: "rx_next (s_read s) (s_rx s) \<le> n + HALF" "n < rx_next (s_read s) (s_rx s) + HALF"
    using net(2) n inv by (auto simp: session_inv_def delivered_def)
  note step = handle_rep[OF rep h e n(1) near turn]
  have "session_inv (s\<lparr>s_rx := rx, s_read := s_read s,
      s_acks := (if ok then insert (t, env_sequence e) (s_acks s) else s_acks s),
      s_clobbered := s_clobbered s \<or> clobbers (s_rx s) e\<rparr>)"
  proof (rule session_inv_rx[OF inv step(1,2)])
    show "delivered s \<le> rx_next (s_read s) rx"
      using rx_next_handle_mono[OF h] by (simp add: delivered_def)
    show "length (ch_reorder rx) \<le> ch_REORDER rx"
      by (rule handle_reorder[OF h]) (use inv in \<open>simp add: session_inv_def\<close>)
    show "ch_REORDER rx = ch_REORDER (s_rx s)" using handle_frame[OF h] by simp
    fix t' q
    assume "(t', q) \<in> (if ok then insert (t, env_sequence e) (s_acks s) else s_acks s)"
    then consider "(t', q) \<in> s_acks s" | "ok" "t' = t" "q = of_nat n" using e(1) by (auto split: if_splits)
    then show "(t', q) \<in> s_acks s \<or>
      (\<exists>n < s_sent s. t' \<le> n + WINDOW_MAX \<and> q = of_nat n \<and> accepted (s_read s) rx n)"
      using n(1,2) step(3) by cases auto
  qed
  then show ?thesis by simp
qed

lemma session_inv_read:
  assumes inv: "session_inv s" and r: "recv_message (s_rx s) = (rx, m)"
    and turn: "within_a_turn s"
  shows "session_inv (s\<lparr>s_rx := rx,
      s_read := s_read s @ (case m of None \<Rightarrow> [] | Some m \<Rightarrow> [m])\<rparr>)"
proof -
  have rep: "rx_rep (s_clobbered s) (message_at (ch_msgtype (s_tx s)) (s_written s)) (s_sent s) (s_read s) (s_rx s)"
    using inv by (simp add: session_inv_def)
  have "session_inv (s\<lparr>s_rx := rx,
      s_read := s_read s @ (case m of None \<Rightarrow> [] | Some m \<Rightarrow> [m]), s_acks := s_acks s,
      s_clobbered := s_clobbered s\<rparr>)"
    using recv_rep[OF rep r turn[unfolded within_a_turn_def]] rx_next_recv_mono[OF r] recv_frame[OF r] pump_reorder[of "s_rx s"] inv
    by (intro session_inv_rx[OF inv]) (auto simp: delivered_def session_inv_def pump_frame)
  then show ?thesis by simp
qed

lemma session_inv_prove:
  assumes rm: "removal_law rm" and inv: "session_inv s"
    and ack: "(t, q) \<in> s_acks s" "s_sent s + WINDOW_MAX \<le> t + SEQ_MODULUS"
  shows "session_inv (s\<lparr>s_tx := on_proof rm (s_tx s) q now\<rparr>)"
proof -
  let ?tx = "on_proof rm (s_tx s) q now"
  have rep: "tx_rep (s_written s) (s_sent s) (s_tx s)" using inv by (simp add: session_inv_def)
  from inv ack(1) obtain n where n: "n < s_sent s" "t \<le> n + WINDOW_MAX" "q = of_nat n"
    "accepted (s_read s) (s_rx s) n"
    unfolding session_inv_def by blast
  have dist: "distinct (map fst (ch_outstanding (s_tx s)))" using rep by (simp add: tx_rep_def)
  have "accepted (s_read s) (s_rx s) n' \<or> of_nat n' \<in> fst ` set (ch_outstanding ?tx)"
    if n': "n' < s_sent s" "s_sent s - WINDOW_MAX \<le> n'" "of_nat n' \<in> fst ` set (ch_outstanding (s_tx s))"
    for n'
  proof (cases "(of_nat n' :: u16) = q")
    case True
    then have "n' = n"
      using u16_inj_window[of n' n] n ack(2) n'(1,2) by (auto simp: channel_consts window_consts)
    with n(4) show ?thesis by simp
  next
    case False
    with n'(3) removal_lawD(1)[OF rm dist, of q] show ?thesis
      by (auto simp: on_proof_fields image_iff)
  qed
  then show ?thesis
    using inv on_proof_rep[OF rm rep, of q now] unfolding session_inv_def delivered_def
    by (simp add: on_proof_fields(4,8)) blast
qed

lemma within_a_turn_step:
  "session_step rm s s' \<Longrightarrow> within_a_turn s' \<Longrightarrow> within_a_turn s"
  by (erule session_step.cases) (auto simp: within_a_turn_def)

lemma session_inv_step:
  assumes "removal_law rm" "session_inv s" "session_step rm s s'" "within_a_turn s'"
  shows "session_inv s'"
  using assms(3)
proof cases
  case (arrive t e rx ok)
  with assms(4) have "s_clobbered s \<or> clobbers (s_rx s) e \<longrightarrow> s_sent s < SEQ_MODULUS"
    by (simp add: within_a_turn_def)
  with arrive assms(2) show ?thesis by (simp add: session_inv_arrive)
next
  case (read_one rx m)
  then show ?thesis
    using assms(2) within_a_turn_step[OF assms(3,4)] by (simp add: session_inv_read)
qed (use assms(1,2) in \<open>simp_all add: session_inv_offer session_inv_transmit session_inv_prove\<close>)

lemma session_inv_reach:
  "session_reach rm s s' \<Longrightarrow> removal_law rm \<Longrightarrow> session_inv s \<Longrightarrow> within_a_turn s' \<Longrightarrow> session_inv s'"
  by (induction rule: session_reach.induct) (blast intro: session_inv_step within_a_turn_step)+

section \<open>What the receiver hands on\<close>

lemma step_frame:
  "session_step rm s s' \<Longrightarrow> ch_msgtype (s_tx s') = ch_msgtype (s_tx s)
     \<and> ch_QUEUE (s_rx s') = ch_QUEUE (s_rx s)"
  by (erule session_step.cases)
    (auto simp: send_def poll_transmit_frame on_proof_fields dest: handle_frame recv_frame
      split: if_splits)

lemma reach_frame:
  "session_reach rm s s' \<Longrightarrow> ch_msgtype (s_tx s') = ch_msgtype (s_tx s)
     \<and> ch_QUEUE (s_rx s') = ch_QUEUE (s_rx s)"
  by (induction rule: session_reach.induct) (auto dest: step_frame)

lemma session_inv_prefix:
  assumes "session_inv s"
  shows "s_read s = map (Pair (ch_msgtype (s_tx s))) (take (length (s_read s)) (s_written s))"
proof -
  let ?n = "length (s_read s)"
  from assms have rd: "s_read s @ ch_inbox (s_rx s)
      = map (message_at (ch_msgtype (s_tx s)) (s_written s)) [0..<delivered s]"
    and len: "delivered s \<le> length (s_written s)"
    by (auto simp: session_inv_def rx_rep_def tx_rep_def delivered_def)
  have le: "?n \<le> delivered s" by (simp add: delivered_def rx_next_def)
  have "s_read s = take ?n (s_read s @ ch_inbox (s_rx s))" by simp
  also have "\<dots> = map (message_at (ch_msgtype (s_tx s)) (s_written s)) [0..<?n]"
    unfolding rd using le by (simp add: take_map)
  also have "\<dots> = map (Pair (ch_msgtype (s_tx s))) (take ?n (s_written s))"
    using le len by (intro nth_equalityI) (auto simp: message_at_def)
  finally show ?thesis .
qed

lemma session_inv_drained:
  assumes inv: "session_inv s" and idle: "send_idle (s_tx s)"
    and r: "recv_message (s_rx s) = (rx, None)" and queue: "0 < ch_QUEUE (s_rx s)"
    and turn: "within_a_turn s"
  shows "s_read s = map (Pair (ch_msgtype (s_tx s))) (s_written s)"
proof -
  have inv': "session_inv (s\<lparr>s_rx := rx\<rparr>)" using session_inv_read[OF inv r turn] by simp
  have rx: "rx = pump (s_rx s)" "ch_inbox rx = []"
    using r by (auto simp: recv_message_def Let_def split: list.splits)
  have all: "s_sent s = length (s_written s)" "ch_outstanding (s_tx s) = []" "ch_error (s_tx s) = None"
    using idle inv by (auto simp: send_idle_def session_inv_def tx_rep_def)
  have nxt: "rx_next (s_read s) rx = length (s_read s)" by (simp add: rx_next_def rx(2))
  have "map_of (ch_reorder rx) (ch_recv_next rx) = None"
    using pump_stops[of "s_rx s"] queue rx by (auto simp: pump_frame)
  moreover have "ch_recv_next rx = of_nat (length (s_read s))"
    using inv' nxt by (simp add: session_inv_def rx_rep_def)
  ultimately have "\<not> accepted (s_read s) rx (length (s_read s))"
    by (simp add: accepted_def nxt)
  moreover have "accepted (s_read s) rx n" if "n < s_sent s" for n
    using inv' all that by (simp add: session_inv_def)
  ultimately have "\<not> length (s_read s) < s_sent s" by blast
  then have "take (length (s_read s)) (s_written s) = s_written s" using all(1) by simp
  with session_inv_prefix[OF inv] show ?thesis by (simp only:)
qed

section \<open>A run and what the application reads\<close>

text \<open>
  Two messages over a network that swaps their packets: the second arrives first and waits in
  the reorder table, both are proved, read and released.
\<close>

definition demo_channel :: channel where
  "demo_channel = with_params 4 2 4 7 2 9"

definition demo_env :: "nat \<Rightarrow> envelope" where
  "demo_env n = message_env 7 [[1], [2]] n"

definition demo_queued :: channel where
  "demo_queued = fst (send (fst (send demo_channel [1])) [2])"

definition demo_tx :: channel where
  "demo_tx = fst (poll_transmit demo_queued 0)"

definition demo_rx :: channel where
  "demo_rx = fst (handle (fst (handle demo_channel (demo_env 1))) (demo_env 0))"

definition demo_end :: session where
  "demo_end = \<lparr>s_tx = on_proof im_delete (on_proof im_delete demo_tx 0 5) 1 5,
     s_rx = fst (recv_message (fst (recv_message demo_rx))), s_written = [[1], [2]],
     s_read = [(7, [1]), (7, [2])], s_sent = 2, s_net = Pair 2 ` {demo_env 0, demo_env 1},
     s_acks = {(2, 0), (2, 1)}, s_clobbered = False\<rparr>"

lemmas demo_defs = demo_queued_def demo_tx_def demo_rx_def demo_channel_def demo_env_def
  message_env_def with_params_def Let_def send_def poll_transmit_def oldest_outstanding_def
  im_insert_def im_contains_def update_deadlines_def set_deadline_def window_consts handle_def
  recv_message_def pump.simps channel_consts im_delete_def on_proof_def send_idle_def
  clobbers_def rx_next_def delivered_def HALF_def

lemma demo_values:
  "snd (send demo_channel [1]) = Inr ()" "snd (send (fst (send demo_channel [1])) [2]) = Inr ()"
  "snd (poll_transmit demo_queued 0) = [demo_env 0, demo_env 1]"
  "ch_send_next demo_tx = 2" "ch_send_next demo_queued = 0"
  "snd (handle demo_channel (demo_env 1))"
  "snd (handle (fst (handle demo_channel (demo_env 1))) (demo_env 0))"
  "snd (recv_message demo_rx) = Some (7, [1])"
  "snd (recv_message (fst (recv_message demo_rx))) = Some (7, [2])"
  "\<not> clobbers demo_channel (demo_env 1)"
  "\<not> clobbers (fst (handle demo_channel (demo_env 1))) (demo_env 0)"
  "rx_next [] demo_channel = 0" "rx_next [] (fst (handle demo_channel (demo_env 1))) = 0"
  by (simp_all add: demo_defs)

lemma demo_ready:
  "unused demo_channel" "ch_msgtype demo_channel = 7" "ch_REORDER demo_channel = 4"
  "ch_QUEUE demo_channel = 2" "send_idle (s_tx demo_end)"
  "recv_message (s_rx demo_end) = (s_rx demo_end, None)"
  by (simp_all add: unused_def demo_defs demo_end_def)

text \<open>The steps as functions of the operations' results.\<close>

lemma reach_offer:
  "session_reach rm s0 s \<Longrightarrow> snd (send (s_tx s) p) = Inr () \<Longrightarrow>
    s' = s\<lparr>s_tx := fst (send (s_tx s) p), s_written := s_written s @ [p]\<rparr> \<Longrightarrow> session_reach rm s0 s'"
  using session_step.offer[of s p "fst (send (s_tx s) p)" "Inr ()"]
  by (auto intro: reach_step simp: prod_eq_iff)

lemma reach_transmit:
  "session_reach rm s0 s \<Longrightarrow> snd (poll_transmit (s_tx s) now) = envs \<Longrightarrow>
    n = s_sent s + unat (ch_send_next (fst (poll_transmit (s_tx s) now)) - ch_send_next (s_tx s)) \<Longrightarrow>
    s' = s\<lparr>s_tx := fst (poll_transmit (s_tx s) now), s_sent := n,
           s_net := s_net s \<union> Pair n ` set envs\<rparr> \<Longrightarrow> session_reach rm s0 s'"
  using session_step.transmit[of s now "fst (poll_transmit (s_tx s) now)" envs n]
  by (auto intro: reach_step simp: prod_eq_iff)

lemma reach_arrive:
  "session_reach rm s0 s \<Longrightarrow> (t, e) \<in> s_net s \<Longrightarrow> delivered s + WINDOW_MAX \<le> t + HALF \<Longrightarrow>
    \<not> clobbers (s_rx s) e \<Longrightarrow> snd (handle (s_rx s) e) \<Longrightarrow>
    s' = s\<lparr>s_rx := fst (handle (s_rx s) e), s_acks := insert (t, env_sequence e) (s_acks s)\<rparr> \<Longrightarrow>
    session_reach rm s0 s'"
  using session_step.arrive[of t e s "fst (handle (s_rx s) e)" True]
  by (cases s, auto intro: reach_step simp: prod_eq_iff)

lemma reach_read:
  "session_reach rm s0 s \<Longrightarrow> snd (recv_message (s_rx s)) = Some m \<Longrightarrow>
    s' = s\<lparr>s_rx := fst (recv_message (s_rx s)), s_read := s_read s @ [m]\<rparr> \<Longrightarrow> session_reach rm s0 s'"
  using session_step.read_one[of s "fst (recv_message (s_rx s))" "Some m"]
  by (auto intro: reach_step simp: prod_eq_iff)

lemma reach_prove:
  "session_reach rm s0 s \<Longrightarrow> (t, q) \<in> s_acks s \<Longrightarrow> s_sent s + WINDOW_MAX \<le> t + SEQ_MODULUS \<Longrightarrow>
    s' = s\<lparr>s_tx := on_proof rm (s_tx s) q now\<rparr> \<Longrightarrow> session_reach rm s0 s'"
  using session_step.prove[of t q s rm now] by (auto intro: reach_step)

lemma demo_reach: "session_reach im_delete (session_start demo_channel demo_channel) demo_end"
proof -
  let ?R = "session_reach im_delete (session_start demo_channel demo_channel)"
  let ?net = "Pair 2 ` {demo_env 0, demo_env 1}"
  let ?tx = "fst (send demo_channel [1])"
  let ?rx = "fst (handle demo_channel (demo_env 1))" and ?rd = "fst (recv_message demo_rx)"
  note v = demo_values and eqs = demo_queued_def demo_tx_def demo_rx_def
  have "?R \<lparr>s_tx = ?tx, s_rx = demo_channel, s_written = [[1]], s_read = [], s_sent = 0,
      s_net = {}, s_acks = {}, s_clobbered = False\<rparr>"
    by (rule reach_offer[OF reach_start, of _ "[1]"]) (simp_all add: session_start_def v)
  then have "?R \<lparr>s_tx = demo_queued, s_rx = demo_channel, s_written = [[1], [2]], s_read = [],
      s_sent = 0, s_net = {}, s_acks = {}, s_clobbered = False\<rparr>"
    by (rule reach_offer[of _ _ _ "[2]"]) (simp_all del: One_nat_def add: v eqs(1))
  then have "?R \<lparr>s_tx = demo_tx, s_rx = demo_channel, s_written = [[1], [2]], s_read = [],
      s_sent = 2, s_net = ?net, s_acks = {}, s_clobbered = False\<rparr>"
    by (rule reach_transmit[where now = 0 and n = 2 and envs = "[demo_env 0, demo_env 1]"]) (simp_all del: One_nat_def add: v flip: eqs(2))
  then have "?R \<lparr>s_tx = demo_tx, s_rx = ?rx, s_written = [[1], [2]], s_read = [],
      s_sent = 2, s_net = ?net, s_acks = {(2, 1)}, s_clobbered = False\<rparr>"
    by (rule reach_arrive[where t = 2 and e = "demo_env 1"])
      (simp_all del: One_nat_def add: v delivered_def HALF_eq window_consts, simp del: One_nat_def add: demo_env_def message_env_def)
  then have "?R \<lparr>s_tx = demo_tx, s_rx = demo_rx, s_written = [[1], [2]], s_read = [],
      s_sent = 2, s_net = ?net, s_acks = {(2, 0), (2, 1)}, s_clobbered = False\<rparr>"
    by (rule reach_arrive[where t = 2 and e = "demo_env 0"])
      (simp_all del: One_nat_def add: v delivered_def HALF_eq window_consts eqs(3),
        simp del: One_nat_def add: demo_env_def message_env_def)
  then have "?R \<lparr>s_tx = demo_tx, s_rx = ?rd, s_written = [[1], [2]], s_read = [(7, [1])],
      s_sent = 2, s_net = ?net, s_acks = {(2, 0), (2, 1)}, s_clobbered = False\<rparr>"
    by (rule reach_read[where m = "(7, [1])"]) (simp_all del: One_nat_def add: v)
  then have "?R \<lparr>s_tx = demo_tx, s_rx = fst (recv_message ?rd), s_written = [[1], [2]],
      s_read = [(7, [1]), (7, [2])], s_sent = 2, s_net = ?net, s_acks = {(2, 0), (2, 1)}, s_clobbered = False\<rparr>"
    by (rule reach_read[where m = "(7, [2])"]) (simp_all del: One_nat_def add: v)
  then have "?R \<lparr>s_tx = on_proof im_delete demo_tx 0 5, s_rx = fst (recv_message ?rd),
      s_written = [[1], [2]], s_read = [(7, [1]), (7, [2])], s_sent = 2, s_net = ?net,
      s_acks = {(2, 0), (2, 1)}, s_clobbered = False\<rparr>"
    by (rule reach_prove[where t = 2 and q = 0 and now = 5])
      (simp_all add: channel_consts window_consts)
  then show ?thesis
    by (rule reach_prove[where t = 2 and q = 1 and now = 5])
      (simp_all add: channel_consts window_consts demo_end_def)
qed

lemma demo_turn: "within_a_turn demo_end"
  by (simp add: within_a_turn_def demo_end_def)

text \<open>
  The same messages to a receiver with an inbox of one, where a second copy of the waiting packet
  comes right after the first message was read: the copy is delivered, the waiting one stays behind.
\<close>

definition narrow :: channel where
  "narrow = with_params 4 1 4 7 2 9"

definition narrow_full :: channel where
  "narrow_full = fst (handle (fst (handle narrow (demo_env 1))) (demo_env 0))"

definition narrow_read :: channel where
  "narrow_read = fst (recv_message narrow_full)"

definition narrow_over :: channel where
  "narrow_over = fst (handle narrow_read (demo_env 1))"

definition overtaken_end :: session where
  "overtaken_end = \<lparr>s_tx = demo_tx, s_rx = fst (recv_message narrow_over), s_written = [[1], [2]],
     s_read = [(7, [1]), (7, [2])], s_sent = 2, s_net = Pair 2 ` {demo_env 0, demo_env 1},
     s_acks = {(2, 0), (2, 1)}, s_clobbered = True\<rparr>"

lemmas narrow_defs = narrow_def narrow_full_def narrow_read_def narrow_over_def demo_defs

lemma narrow_values:
  "snd (handle narrow (demo_env 1))" "snd (handle (fst (handle narrow (demo_env 1))) (demo_env 0))"
  "snd (recv_message narrow_full) = Some (7, [1])" "snd (handle narrow_read (demo_env 1))"
  "snd (recv_message narrow_over) = Some (7, [2])"
  "\<not> clobbers narrow (demo_env 1)" "\<not> clobbers (fst (handle narrow (demo_env 1))) (demo_env 0)"
  "clobbers narrow_read (demo_env 1)" "rx_next [] narrow = 0"
  "rx_next [] (fst (handle narrow (demo_env 1))) = 0" "rx_next [(7, [1])] narrow_read = 1"
  by (simp_all add: narrow_defs)

lemma narrow_ready: "unused narrow" "ch_REORDER narrow = 4" "within_a_turn overtaken_end"
  by (simp_all add: unused_def narrow_defs overtaken_end_def within_a_turn_def)

lemma reach_arrive_any:
  "session_reach rm s0 s \<Longrightarrow> (t, e) \<in> s_net s \<Longrightarrow> delivered s + WINDOW_MAX \<le> t + HALF \<Longrightarrow>
    snd (handle (s_rx s) e) \<Longrightarrow>
    s' = s\<lparr>s_rx := fst (handle (s_rx s) e), s_acks := insert (t, env_sequence e) (s_acks s),
           s_clobbered := s_clobbered s \<or> clobbers (s_rx s) e\<rparr> \<Longrightarrow> session_reach rm s0 s'"
  using session_step.arrive[of t e s "fst (handle (s_rx s) e)" True]
  by (auto intro: reach_step simp: prod_eq_iff)

lemma overtaken_reach: "session_reach im_delete (session_start demo_channel narrow) overtaken_end"
proof -
  let ?R = "session_reach im_delete (session_start demo_channel narrow)"
  let ?net = "Pair 2 ` {demo_env 0, demo_env 1}"
  let ?tx = "fst (send demo_channel [1])" and ?rx = "fst (handle narrow (demo_env 1))"
  note v = demo_values(1-5) narrow_values and eqs = demo_queued_def demo_tx_def
    and late = delivered_def HALF_eq window_consts and q = demo_env_def message_env_def
  have "?R \<lparr>s_tx = ?tx, s_rx = narrow, s_written = [[1]], s_read = [], s_sent = 0,
      s_net = {}, s_acks = {}, s_clobbered = False\<rparr>"
    by (rule reach_offer[OF reach_start, of _ "[1]"]) (simp_all add: session_start_def v)
  then have "?R \<lparr>s_tx = demo_queued, s_rx = narrow, s_written = [[1], [2]], s_read = [],
      s_sent = 0, s_net = {}, s_acks = {}, s_clobbered = False\<rparr>"
    by (rule reach_offer[of _ _ _ "[2]"]) (simp_all del: One_nat_def add: v eqs(1))
  then have "?R \<lparr>s_tx = demo_tx, s_rx = narrow, s_written = [[1], [2]], s_read = [],
      s_sent = 2, s_net = ?net, s_acks = {}, s_clobbered = False\<rparr>"
    by (rule reach_transmit[where now = 0 and n = 2 and envs = "[demo_env 0, demo_env 1]"])
      (simp_all del: One_nat_def add: v flip: eqs(2))
  then have "?R \<lparr>s_tx = demo_tx, s_rx = ?rx, s_written = [[1], [2]], s_read = [],
      s_sent = 2, s_net = ?net, s_acks = {(2, 1)}, s_clobbered = False\<rparr>"
    by (rule reach_arrive_any[where t = 2 and e = "demo_env 1"])
      (simp_all del: One_nat_def add: v late, simp del: One_nat_def add: q)
  then have "?R \<lparr>s_tx = demo_tx, s_rx = narrow_full, s_written = [[1], [2]], s_read = [],
      s_sent = 2, s_net = ?net, s_acks = {(2, 0), (2, 1)}, s_clobbered = False\<rparr>"
    by (rule reach_arrive_any[where t = 2 and e = "demo_env 0"])
      (simp_all del: One_nat_def add: v late narrow_full_def, simp del: One_nat_def add: q)
  then have "?R \<lparr>s_tx = demo_tx, s_rx = narrow_read, s_written = [[1], [2]], s_read = [(7, [1])],
      s_sent = 2, s_net = ?net, s_acks = {(2, 0), (2, 1)}, s_clobbered = False\<rparr>"
    by (rule reach_read[where m = "(7, [1])"]) (simp_all del: One_nat_def add: v narrow_read_def)
  then have "?R \<lparr>s_tx = demo_tx, s_rx = narrow_over, s_written = [[1], [2]], s_read = [(7, [1])],
      s_sent = 2, s_net = ?net, s_acks = {(2, 0), (2, 1)}, s_clobbered = True\<rparr>"
    by (rule reach_arrive_any[where t = 2 and e = "demo_env 1"])
      (simp_all del: One_nat_def add: v late narrow_over_def, simp del: One_nat_def add: q insert_commute)
  then show ?thesis
    by (rule reach_read[where m = "(7, [2])"]) (simp_all del: One_nat_def add: v overtaken_end_def)
qed

text \<open>
  C1: over a network that loses, duplicates, delays and reorders packets, what the
  application has read is always a prefix of what was written, in order and with its message
  type: nothing is invented, repeated, skipped or swapped. A packet arrives less than half the
  sequence space late, and either fewer than 65,536 messages were sent or no copy arrived in the
  gap that \<open>clobbers\<close> describes (C38 shows the message repeated beyond that).
\<close>

theorem channel_reads_prefix:
  assumes "session_reach rm (session_start tx rx) s" "removal_law rm"
    "unused tx" "unused rx" "ch_REORDER rx + WINDOW_MAX \<le> HALF" "within_a_turn s"
  shows "s_read s = map (Pair (ch_msgtype tx)) (take (length (s_read s)) (s_written s))"
proof -
  have "session_inv s" by (rule session_inv_reach[OF assms(1,2) session_inv_start[OF assms(3-5)] assms(6)])
  from session_inv_prefix[OF this] reach_frame[OF assms(1)] show ?thesis
    by (simp add: session_start_def)
qed

theorem channel_reads_prefix_witness:
  "s_clobbered overtaken_end \<and> length (s_read overtaken_end) = 2
   \<and> s_read overtaken_end = map (Pair 7) (take (length (s_read overtaken_end)) (s_written overtaken_end))"
  using channel_reads_prefix[OF overtaken_reach removal_law_im_delete demo_ready(1) narrow_ready(1) _ narrow_ready(3)]
  by (simp add: demo_ready(2) narrow_ready HALF_eq window_consts, simp add: overtaken_end_def)

text \<open>
  C25: nothing proved is lost. Once the sender is idle (everything sent and proved, no error)
  and the receiver has no message left to hand over, the application has read exactly what was
  written, on the same runs as C1.
\<close>

theorem channel_delivers_all:
  assumes "session_reach rm (session_start tx rx) s" "removal_law rm"
    "unused tx" "unused rx" "ch_REORDER rx + WINDOW_MAX \<le> HALF" "0 < ch_QUEUE rx"
    and "within_a_turn s"
    "send_idle (s_tx s)" "recv_message (s_rx s) = (rx', None)"
  shows "s_read s = map (Pair (ch_msgtype tx)) (s_written s)"
proof -
  have "session_inv s" by (rule session_inv_reach[OF assms(1,2) session_inv_start[OF assms(3-5)] assms(7)])
  from session_inv_drained[OF this assms(8,9) _ assms(7)] reach_frame[OF assms(1)] assms(6) show ?thesis
    by (simp add: session_start_def)
qed

theorem channel_delivers_all_witness: "s_read demo_end = map (Pair 7) [[1], [2]]"
  using channel_delivers_all[OF demo_reach removal_law_im_delete demo_ready(1,1) _ _ demo_turn demo_ready(5,6)]
  by (simp add: demo_ready HALF_eq window_consts, simp add: demo_end_def)

section \<open>The entry left behind\<close>

text \<open>
  What \<open>clobbers\<close> leads to, on a receiver with an inbox of one message. \<open>feed\<close> delivers the
  messages of a peer one by one in order, each read at once.
\<close>

definition left_behind :: "nat \<Rightarrow> nat \<Rightarrow> u16 \<Rightarrow> bytes \<Rightarrow> bytes \<Rightarrow> channel \<times> bool list \<times> (u16 \<times> bytes) option list" where
  "left_behind W R mt a b =
    (let e = (\<lambda>n p. \<lparr>env_msgtype = mt, env_sequence = n, env_payload = p\<rparr>);
         c = with_params W 1 R mt 2 9;
         (c, early) = handle c (e 1 b);
         (c, first) = handle c (e 0 a);
         (c, m0) = recv_message c;
         (c, copy) = handle c (e 1 b);
         (c, m1) = recv_message c
     in (c, [early, first, copy], [m0, m1]))"

fun feed :: "u16 \<Rightarrow> channel \<Rightarrow> bytes list \<Rightarrow> channel \<times> (u16 \<times> bytes) option list" where
  "feed mt c [] = (c, [])"
| "feed mt c (p # ps) =
    (let (c, _) = handle c \<lparr>env_msgtype = mt, env_sequence = ch_recv_next c, env_payload = p\<rparr>;
         (c, m) = recv_message c;
         (c, ms) = feed mt c ps
     in (c, m # ms))"

lemma left_behind_state:
  "0 < R \<Longrightarrow> left_behind W R mt a b =
     ((with_params W 1 R mt 2 9)\<lparr>ch_recv_next := 2, ch_reorder := [(1, mt, b)]\<rparr>,
      [True, True, True], [Some (mt, a), Some (mt, b)])"
  by (simp add: left_behind_def with_params_def handle_def recv_message_def pump.simps im_contains_def
      channel_consts im_delete_def Let_def)

lemma feed_one:
  "ch_QUEUE c = 1 \<Longrightarrow> ch_inbox c = [] \<Longrightarrow>
   handle c \<lparr>env_msgtype = mt, env_sequence = ch_recv_next c, env_payload = p\<rparr>
     = (c\<lparr>ch_inbox := [(mt, p)], ch_recv_next := ch_recv_next c + 1\<rparr>, True)"
  by (simp add: handle_def pump.simps)

lemma read_full:
  "ch_QUEUE c = 1 \<Longrightarrow> ch_inbox c = [m] \<Longrightarrow> recv_message c = (c\<lparr>ch_inbox := []\<rparr>, Some m)"
  by (simp add: recv_message_def pump.simps)

lemma feed_all:
  "ch_QUEUE c = 1 \<Longrightarrow> ch_inbox c = [] \<Longrightarrow>
     feed mt c ps = (c\<lparr>ch_recv_next := ch_recv_next c + of_nat (length ps)\<rparr>,
                     map (\<lambda>p. Some (mt, p)) ps)"
  by (induction ps arbitrary: c) (simp_all add: feed_one read_full)

text \<open>
  C38: a copy that arrives while its envelope waits behind a full inbox, right after the
  application made room, leaves the waiting entry in the reorder table; one turn of the sequence
  space later (65,535 messages delivered and read in order) the receiver hands that old message
  over once more, although the peer has not sent the message that belongs there.
\<close>

theorem stale_entry_redelivered:
  assumes "0 < R" "length ps = 65535"
  shows "\<exists>c c'. left_behind W R mt a b = (c, [True, True, True], [Some (mt, a), Some (mt, b)])
    \<and> feed mt c ps = (c', map (\<lambda>p. Some (mt, p)) ps)
    \<and> snd (recv_message c') = Some (mt, b)"
  unfolding left_behind_state[OF assms(1)]
  by (simp add: feed_all assms(2) with_params_def Let_def recv_message_def pump.simps im_delete_def)

theorem stale_entry_redelivered_witness:
  "\<exists>c c'. left_behind 4 2 7 [1] [2] = (c, [True, True, True], [Some (7, [1]), Some (7, [2])])
    \<and> feed 7 c (replicate 65535 [3]) = (c', map (\<lambda>p. Some (7, p)) (replicate 65535 [3]))
    \<and> snd (recv_message c') = Some (7, [2])"
  by (rule stale_entry_redelivered[OF _ length_replicate]) simp
end
