(* ===== verification/ChannelWindow.thy ===== *)
theory ChannelWindow
  imports ChannelSession
begin

text \<open>
  What holds of a channel whatever a driver does with it: the window policy stays inside its
  limits, and every container within its capacity. Then when a sender gives up.
\<close>

section \<open>The window\<close>

definition window_inv :: "channel \<Rightarrow> bool" where
  "window_inv c \<longleftrightarrow> 1 \<le> ch_window_min c \<and> ch_window_min c \<le> ch_window_max c
     \<and> 1 \<le> ch_window c \<and> ch_window c \<le> ch_window_max c
     \<and> ch_window_max c \<le> ch_max_window c \<and> ch_max_window c \<le> WINDOW_MAX
     \<and> 1 \<le> ch_window_flexibility c"

lemma window_inv_cong:
  "ch_window c' = ch_window c \<Longrightarrow> ch_window_min c' = ch_window_min c \<Longrightarrow>
   ch_window_max c' = ch_window_max c \<Longrightarrow> ch_max_window c' = ch_max_window c \<Longrightarrow>
   ch_window_flexibility c' = ch_window_flexibility c \<Longrightarrow> window_inv c' = window_inv c"
  by (simp add: window_inv_def)

lemma window_with_params: "window_inv (with_params W Q R mt w retx)"
  by (simp add: window_inv_def with_params_def Let_def window_consts)

lemma window_start: "1 \<le> ch_max_window c \<Longrightarrow> ch_max_window c \<le> WINDOW_MAX \<Longrightarrow> window_inv (start_window c rtt)"
  by (auto simp: window_inv_def start_window_def Let_def window_consts)

lemma window_with_policy: "window_inv (with_initial_rtt_and_max_window W Q R mt rtt w)"
proof -
  have "window_inv (start_window (with_params W Q R mt w 0) rtt)"
    using window_with_params[of W Q R mt w 0] by (intro window_start) (auto simp: window_inv_def)
  then show ?thesis by (simp add: window_inv_def with_initial_rtt_and_max_window_def)
qed

lemma window_shrink_once: "window_inv c \<Longrightarrow> window_inv (shrink_once c)"
  by (auto simp: window_inv_def shrink_once_def)

lemma window_shrink: "window_inv c \<Longrightarrow> window_inv ((shrink_once ^^ n) c)"
  by (induction n) (simp_all add: window_shrink_once)

lemma window_promote: "window_inv c \<Longrightarrow> window_inv (promote c)"
  by (auto simp: window_inv_def promote_def Let_def window_consts)

lemma sample_rtt_flexibility [simp]:
  "ch_window_flexibility (sample_rtt c out now) = ch_window_flexibility c"
  by (simp add: sample_rtt_def Let_def)

lemma window_on_proof: "window_inv c \<Longrightarrow> window_inv (on_proof rm c q now)"
  unfolding on_proof_def Let_def
  by (auto intro!: window_promote split: option.splits) (auto simp: window_inv_def)

section \<open>Capacities\<close>

definition capacity_inv :: "channel \<Rightarrow> bool" where
  "capacity_inv c \<longleftrightarrow> length (ch_outgoing c) \<le> ch_QUEUE c \<and> length (ch_inbox c) \<le> ch_QUEUE c
     \<and> length (ch_reorder c) \<le> ch_REORDER c \<and> length (ch_outstanding c) \<le> ch_WINDOW c
     \<and> distinct (map fst (ch_outstanding c))"

lemma im_insert_keys:
  "im_insert cap k v m = Some m' \<Longrightarrow>
     map fst m' = (if im_contains k m then map fst m else map fst m @ [k])"
  by (auto simp: im_insert_def split: if_splits)

lemma im_insert_capacity:
  assumes "im_insert cap k v m = Some m'" "length m \<le> cap" "distinct (map fst m)"
  shows "length m' \<le> cap" "distinct (map fst m')"
proof -
  show "distinct (map fst m')"
    using im_insert_keys[OF assms(1)] assms(3) by (auto simp: im_contains_def)
  show "length m' \<le> cap"
    using assms(1,2) by (auto simp: im_insert_def split: if_splits)
qed

lemma fill_window_capacity:
  "fill_window now oldest q c = (c', envs) \<Longrightarrow> length (ch_outstanding c) \<le> ch_WINDOW c \<Longrightarrow>
     distinct (map fst (ch_outstanding c)) \<Longrightarrow>
     length (ch_outstanding c') \<le> ch_WINDOW c \<and> distinct (map fst (ch_outstanding c'))
       \<and> length (ch_outgoing c') \<le> length q"
proof (induction now oldest q c arbitrary: c' envs rule: fill_window.induct)
  case (1 now oldest c)
  then show ?case by auto
next
  case (2 now oldest p q c)
  let ?r = "\<lparr>o_payload = p, o_last_tx = now, o_deadline = 0, o_tries = 1\<rparr>"
  let ?go = "length (ch_outstanding c) < ch_window c \<and> length (ch_outstanding c) \<noteq> ch_WINDOW c
      \<and> unat (ch_send_next c - oldest) < WINDOW_MAX"
  show ?case
  proof (cases "?go \<and> im_insert (ch_WINDOW c) (ch_send_next c) ?r (ch_outstanding c) \<noteq> None")
    case False
    with 2(2) have "c' = c\<lparr>ch_outgoing := p # q\<rparr>"
      by (auto simp: Let_def split: if_splits option.splits)
    with 2(3,4) show ?thesis by simp
  next
    case True
    then obtain m where m: "im_insert (ch_WINDOW c) (ch_send_next c) ?r (ch_outstanding c) = Some m"
      by auto
    obtain c1 e1 where rec: "fill_window now oldest q
        (c\<lparr>ch_send_next := ch_send_next c + 1, ch_outstanding := m\<rparr>) = (c1, e1)" by fastforce
    have c1: "c' = c1" using 2(2) True m rec by simp
    note cap = im_insert_capacity[OF m 2(3,4)]
    have "length (ch_outstanding c1) \<le> ch_WINDOW c \<and> distinct (map fst (ch_outstanding c1))
        \<and> length (ch_outgoing c1) \<le> length q"
      using 2(1)[OF _ HOL.refl HOL.refl HOL.refl m rec] True cap by simp
    then show ?thesis by (simp add: c1)
  qed
qed

lemma poll_transmit_cases:
  assumes "poll_transmit c now = (c', envs)"
  obtains (stopped) "ch_error c \<noteq> None" "c' = c" "envs = []"
  | (gave_up) entries resent seq where "ch_error c = None"
      "retransmit (ch_max_tries c) now (ch_msgtype c) (ch_outstanding c) = (Some seq, entries, resent)"
      "c' = fail (c\<lparr>ch_outstanding := entries\<rparr>) (RetriesExhausted seq)" "envs = []"
  | (sent) entries resent c1 c2 fresh where "ch_error c = None"
      "retransmit (ch_max_tries c) now (ch_msgtype c) (ch_outstanding c) = (None, entries, resent)"
      "c1 = (if ch_dynamic c then (shrink_once ^^ length resent) (c\<lparr>ch_outstanding := entries\<rparr>)
         else c\<lparr>ch_outstanding := entries\<rparr>)"
      "fill_window now (oldest_outstanding c1) (ch_outgoing c1) c1 = (c2, fresh)"
      "envs = resent @ fresh" "c' = (if envs = [] then c2 else update_deadlines c2)"
proof (cases "ch_error c")
  case (Some err)
  with assms show thesis by (intro stopped) (auto simp: poll_transmit_def)
next
  case None
  obtain ex entries resent where retx:
    "retransmit (ch_max_tries c) now (ch_msgtype c) (ch_outstanding c) = (ex, entries, resent)"
    using prod_cases3 by blast
  show thesis
  proof (cases ex)
    case (Some seq)
    with assms None retx show thesis by (intro gave_up) (auto simp: poll_transmit_def)
  next
    case ex: None
    define c1 where "c1 = (if ch_dynamic c
      then (shrink_once ^^ length resent) (c\<lparr>ch_outstanding := entries\<rparr>) else c\<lparr>ch_outstanding := entries\<rparr>)"
    obtain c2 fresh where
      fill: "fill_window now (oldest_outstanding c1) (ch_outgoing c1) c1 = (c2, fresh)"
      by fastforce
    have "envs = resent @ fresh" "c' = (if envs = [] then c2 else update_deadlines c2)"
      using assms fill
      by (auto simp: poll_transmit_def None retx ex Let_def split: if_splits simp flip: c1_def)
    then show thesis using sent None retx ex c1_def fill by blast
  qed
qed

definition channel_inv :: "channel \<Rightarrow> bool" where
  "channel_inv c \<longleftrightarrow> window_inv c \<and> capacity_inv c"

lemma channel_inv_poll:
  assumes inv: "channel_inv c" and poll: "poll_transmit c now = (c', envs)"
  shows "channel_inv c'"
  using poll
proof (cases rule: poll_transmit_cases)
  case stopped
  with inv show ?thesis by simp
next
  case (gave_up entries resent seq)
  with inv show ?thesis
    by (simp add: channel_inv_def capacity_inv_def fail_def window_inv_def)
next
  case (sent entries resent c1 c2 fresh)
  have keys: "map fst entries = map fst (ch_outstanding c)"
    using retransmit_keys[OF sent(2)] by simp
  then have len: "length entries = length (ch_outstanding c)" by (metis length_map)
  have "window_inv c1"
    using inv window_shrink[of "c\<lparr>ch_outstanding := entries\<rparr>" "length resent"]
    unfolding sent(3) by (simp add: channel_inv_def window_inv_def)
  moreover have "capacity_inv c1"
    using inv keys len unfolding sent(3) by (simp add: channel_inv_def capacity_inv_def)
  ultimately have "channel_inv c1" by (simp add: channel_inv_def)
  note fr = fill_window_frame[OF sent(4)]
  have f: "ch_window c2 = ch_window c1" "ch_window_min c2 = ch_window_min c1"
    "ch_window_max c2 = ch_window_max c1" "ch_max_window c2 = ch_max_window c1"
    "ch_window_flexibility c2 = ch_window_flexibility c1" "ch_WINDOW c2 = ch_WINDOW c1"
    "ch_QUEUE c2 = ch_QUEUE c1" "ch_REORDER c2 = ch_REORDER c1" "ch_inbox c2 = ch_inbox c1"
    "ch_reorder c2 = ch_reorder c1"
    using arg_cong[OF fr, of ch_window] arg_cong[OF fr, of ch_window_min]
      arg_cong[OF fr, of ch_window_max] arg_cong[OF fr, of ch_max_window]
      arg_cong[OF fr, of ch_window_flexibility] arg_cong[OF fr, of ch_WINDOW]
      arg_cong[OF fr, of ch_QUEUE] arg_cong[OF fr, of ch_REORDER] arg_cong[OF fr, of ch_inbox]
      arg_cong[OF fr, of ch_reorder]
    by simp_all
  have "window_inv c2" using \<open>channel_inv c1\<close> f by (simp add: channel_inv_def window_inv_def)
  moreover have "capacity_inv c2"
    using \<open>channel_inv c1\<close> f fill_window_capacity[OF sent(4)]
    by (auto simp: channel_inv_def capacity_inv_def intro: le_trans)
  ultimately have c2: "channel_inv c2" by (simp add: channel_inv_def)
  have "window_inv (update_deadlines c2) = window_inv c2"
    by (rule window_inv_cong) (simp_all add: update_deadlines_def)
  moreover have "capacity_inv (update_deadlines c2) = capacity_inv c2"
    by (simp add: capacity_inv_def) (simp add: update_deadlines_def)
  ultimately show ?thesis using c2 sent(6) by (simp add: channel_inv_def)
qed

lemma pump_window: "window_inv (pump c) = window_inv c"
  by (induction c rule: pump.induct)
    (subst pump.simps, auto simp: window_inv_def split: option.splits)

lemma pump_inbox: "length (ch_inbox c) \<le> ch_QUEUE c \<Longrightarrow> length (ch_inbox (pump c)) \<le> ch_QUEUE c"
proof (induction c rule: pump.induct)
  case (1 c)
  then show ?case by (subst pump.simps) (auto split: option.splits)
qed

lemma channel_inv_pump: "channel_inv c \<Longrightarrow> channel_inv (pump c)"
  using pump_reorder[of c] pump_inbox[of c]
  by (auto simp: channel_inv_def capacity_inv_def pump_window pump_frame)

lemma channel_inv_handle:
  assumes "channel_inv c" "handle c e = (c', ok)"
  shows "channel_inv c'"
proof -
  let ?c = "c\<lparr>ch_inbox := ch_inbox c @ [(env_msgtype e, env_payload e)], ch_recv_next := ch_recv_next c + 1\<rparr>"
  have "channel_inv (pump ?c)" if "length (ch_inbox c) \<noteq> ch_QUEUE c"
    using assms(1) that
    by (intro channel_inv_pump) (auto simp: channel_inv_def capacity_inv_def window_inv_def)
  then show ?thesis
    using assms
    by (auto simp: handle_def Let_def split: if_splits)
      (auto simp: channel_inv_def capacity_inv_def window_inv_def)
qed

lemma channel_inv_recv:
  "channel_inv c \<Longrightarrow> recv_message c = (c', m) \<Longrightarrow> channel_inv c'"
  using channel_inv_pump[of c]
  by (auto simp: recv_message_def Let_def channel_inv_def capacity_inv_def window_inv_def
      split: list.splits)

lemma channel_inv_send: "channel_inv c \<Longrightarrow> send c p = (c', r) \<Longrightarrow> channel_inv c'"
  by (auto simp: send_def channel_inv_def capacity_inv_def window_inv_def split: if_splits)

lemma channel_inv_proof:
  assumes "removal_law rm" "channel_inv c"
  shows "channel_inv (on_proof rm c q now)"
proof -
  have d: "distinct (map fst (ch_outstanding c))" using assms(2) by (simp add: channel_inv_def capacity_inv_def)
  have "length (rm q (ch_outstanding c)) \<le> ch_WINDOW c"
    using removal_length[OF assms(1) d, of q] assms(2) by (simp add: channel_inv_def capacity_inv_def)
  then show ?thesis
    using assms(2) removal_lawD(2)[OF assms(1) d, of q]
    by (simp add: channel_inv_def window_on_proof capacity_inv_def on_proof_fields)
qed

lemma channel_inv_rtt: "channel_inv c \<Longrightarrow> channel_inv (set_initial_rtt c rtt)"
  using window_start[of "c\<lparr>ch_rtt := rtt\<rparr>" rtt]
  by (auto simp: set_initial_rtt_def channel_inv_def Let_def)
    (auto simp: capacity_inv_def window_inv_def start_window_def Let_def)

section \<open>Any sequence of calls\<close>

datatype channel_op =
    Send bytes | Poll nat | Proved u16 nat | Handle envelope | Recv | InitialRtt nat | MaxTries nat

fun channel_run :: "removal \<Rightarrow> channel \<Rightarrow> channel_op \<Rightarrow> channel" where
  "channel_run rm c (Send p) = fst (send c p)"
| "channel_run rm c (Poll now) = fst (poll_transmit c now)"
| "channel_run rm c (Proved q now) = on_proof rm c q now"
| "channel_run rm c (Handle e) = fst (handle c e)"
| "channel_run rm c Recv = fst (recv_message c)"
| "channel_run rm c (InitialRtt rtt) = set_initial_rtt c rtt"
| "channel_run rm c (MaxTries n) = set_max_tries c n"

lemma channel_inv_run: "removal_law rm \<Longrightarrow> channel_inv c \<Longrightarrow> channel_inv (channel_run rm c op)"
proof (cases op)
  case (MaxTries n)
  then show "channel_inv c \<Longrightarrow> channel_inv (channel_run rm c op)"
    by (simp add: set_max_tries_def channel_inv_def window_inv_def capacity_inv_def)
qed (simp_all add: channel_inv_proof channel_inv_rtt
      channel_inv_send[OF _ prod.collapse[symmetric]] channel_inv_poll[OF _ prod.collapse[symmetric]]
      channel_inv_handle[OF _ prod.collapse[symmetric]]
      channel_inv_recv[OF _ prod.collapse[symmetric]])

text \<open>Removal as the crate's map does it, in either of the two orders, keeps the law.\<close>

interpretation channel_ops: guarded_ops "channel_run im_swap_remove" channel_inv
  by unfold_locales (rule channel_inv_run[OF removal_law_im_swap_remove])

interpretation channel_ops_ordered: guarded_ops "channel_run im_delete" channel_inv
  by unfold_locales (rule channel_inv_run[OF removal_law_im_delete])

lemma capacity_new: "capacity_inv (with_params W Q R mt w retx)"
  by (simp add: capacity_inv_def with_params_def Let_def)

lemma capacity_start: "capacity_inv (start_window c rtt) = capacity_inv c"
  by (simp add: capacity_inv_def start_window_def Let_def)

lemma channel_inv_new:
  "channel_inv (with_params W Q R mt w retx)"
  "channel_inv (with_initial_rtt_and_max_window W Q R mt rtt w)"
  using capacity_start[of "with_params W Q R mt w 0" rtt] capacity_new[of W Q R mt w 0]
  by (simp_all add: channel_inv_def window_with_params window_with_policy capacity_new)
    (simp add: with_initial_rtt_and_max_window_def capacity_inv_def)

text \<open>
  C33: whatever calls arrive in whatever order, the window stays between its floor and ceiling
  (1 up to 48, and never over the configured cap), at most \<open>WINDOW\<close> envelopes are unproved, each
  under its own sequence, and no queue exceeds its capacity.
\<close>

theorem channel_bounds:
  "channel_inv (foldl (channel_run im_swap_remove)
     (with_initial_rtt_and_max_window W Q R mt rtt w) ops)
   \<and> channel_inv (foldl (channel_run im_delete) (with_params W Q R mt w retx) ops)"
  using channel_ops.run_inv[OF channel_inv_new(2)] channel_ops_ordered.run_inv[OF channel_inv_new(1)]
  by blast

section \<open>Giving up\<close>

lemma retransmit_exhausts_iff:
  "fst (retransmit mx now mt m) \<noteq> None \<longleftrightarrow>
     (\<exists>e \<in> set m. o_deadline (snd e) \<le> now \<and> mx \<le> o_tries (snd e))"
  by (induction mx now mt m rule: retransmit.induct)
     (auto simp: Let_def not_less case_prod_unfold simp del: split_paired_Ex split_paired_All)

lemma fill_error: "fill_window now lo q c = (c2, fresh) \<Longrightarrow> ch_error c2 = ch_error c"
  by (drule fill_window_frame, drule arg_cong[of _ _ ch_error]) simp

text \<open>
  C37: a sender gives up exactly when some unproved envelope is past its deadline with all its
  tries spent; it then reports that sequence, drops everything unsent or unproved, transmits
  nothing, and no later poll transmits anything.
\<close>

theorem channel_gives_up:
  assumes "ch_error c = None" "poll_transmit c now = (c', envs)"
  shows "(ch_error c' \<noteq> None \<longleftrightarrow>
      (\<exists>e \<in> set (ch_outstanding c). o_deadline (snd e) \<le> now \<and> ch_max_tries c \<le> o_tries (snd e)))
    \<and> (\<forall>q. ch_error c' = Some (RetriesExhausted q) \<longrightarrow>
         envs = [] \<and> ch_outstanding c' = [] \<and> ch_outgoing c' = []
         \<and> q \<in> fst ` set (ch_outstanding c) \<and> (\<forall>later. poll_transmit c' later = (c', [])))"
  using assms(2)
proof (cases rule: poll_transmit_cases)
  case stopped
  with assms(1) show ?thesis by simp
next
  case (gave_up entries resent seq)
  have "fst (retransmit (ch_max_tries c) now (ch_msgtype c) (ch_outstanding c)) \<noteq> None"
    by (simp add: gave_up(2))
  moreover obtain out where "(seq, out) \<in> set (ch_outstanding c)"
    using retransmit_exhausted[OF gave_up(2)] by blast
  then have "seq \<in> fst ` set (ch_outstanding c)" by force
  ultimately show ?thesis
    unfolding retransmit_exhausts_iff by (simp add: gave_up(3,4) fail_def poll_transmit_def)
next
  case (sent entries resent c1 c2 fresh)
  have "ch_error c2 = None" using fill_error[OF sent(4)] sent(1,3) by simp
  then have "ch_error c' = None" using sent(6) by simp
  moreover have "fst (retransmit (ch_max_tries c) now (ch_msgtype c) (ch_outstanding c)) = None"
    by (simp add: sent(2))
  ultimately show ?thesis using retransmit_exhausts_iff[of "ch_max_tries c" now "ch_msgtype c"
      "ch_outstanding c"] by simp
qed

theorem channel_gives_up_witness:
  "ch_error (fst (poll_transmit (demo_tx\<lparr>ch_max_tries := 1\<rparr>) 9)) \<noteq> None"
proof -
  have "ch_error (demo_tx\<lparr>ch_max_tries := 1\<rparr>) = None"
    "\<exists>e \<in> set (ch_outstanding (demo_tx\<lparr>ch_max_tries := 1\<rparr>)).
       o_deadline (snd e) \<le> 9 \<and> ch_max_tries (demo_tx\<lparr>ch_max_tries := 1\<rparr>) \<le> o_tries (snd e)"
    by (simp_all add: demo_defs sat_add_def u64_max_def)
  with channel_gives_up[of "demo_tx\<lparr>ch_max_tries := 1\<rparr>" 9
      "fst (poll_transmit (demo_tx\<lparr>ch_max_tries := 1\<rparr>) 9)"
      "snd (poll_transmit (demo_tx\<lparr>ch_max_tries := 1\<rparr>) 9)"]
  show ?thesis by (simp add: surjective_pairing)
qed

end
