(* ===== verification/Buffer.thy ===== *)
theory Buffer
  imports ChannelWindow
begin

text \<open>
  \<open>Buffer\<close>, the byte stream over a channel, \<open>crates/retinue/src/channel/buffer.rs\<close>.

  The bz2 decoder comes from a crate behind a cargo feature: the parameter \<open>bz\<close> is \<open>None\<close> in a
  build without it, and otherwise gives what \<open>decompress_bounded\<close> returns for a limit and some
  bytes. \<open>fill\<close> returns \<open>None\<close> where the code would panic on \<open>data.len() - cursor\<close>; the
  invariant below shows it does not.
\<close>

section \<open>State\<close>

definition DEFAULT_CHUNK :: nat where "DEFAULT_CHUNK = MAX_DATA_LEN"
definition DEFAULT_DECODED_FRAME_LIMIT :: nat where "DEFAULT_DECODED_FRAME_LIMIT = 65536"
definition isize_max :: nat where "isize_max = 9223372036854775807"

datatype stream_decode_error =
    UnsupportedCompression | InvalidCompression | DecodedFrameLimitExceeded nat

datatype stream_decode_limit_error = InvalidLimit

datatype bounded_decompress_error = InvalidData | LimitExceeded

type_synonym bz2 = "(bytes \<Rightarrow> nat \<Rightarrow> bounded_decompress_error + bytes) option"

record buffer =
  b_READ_BYTES :: nat
  b_channel :: channel
  b_max_chunk :: nat
  b_send_stream_id :: u16
  b_recv_stream_id :: u16
  b_read_buf :: bytes
  b_pending_frame :: "(bytes \<times> nat) option"
  b_recv_eof :: bool
  b_decoded_frame_limit :: nat
  b_receive_error :: "stream_decode_error option"

section \<open>Construction\<close>

definition with_streams :: "nat \<Rightarrow> channel \<Rightarrow> nat \<Rightarrow> u16 \<Rightarrow> u16 \<Rightarrow> buffer" where
  "with_streams READ_BYTES c chunk send_id recv_id =
     \<lparr>b_READ_BYTES = READ_BYTES, b_channel = c, b_max_chunk = max 1 (min chunk MAX_CHUNK_LEN),
      b_send_stream_id = send_id AND STREAM_ID_MAX, b_recv_stream_id = recv_id AND STREAM_ID_MAX,
      b_read_buf = [], b_pending_frame = None, b_recv_eof = False,
      b_decoded_frame_limit = DEFAULT_DECODED_FRAME_LIMIT, b_receive_error = None\<rparr>"

definition with_channel :: "nat \<Rightarrow> channel \<Rightarrow> nat \<Rightarrow> buffer" where
  "with_channel READ_BYTES c chunk = with_streams READ_BYTES c chunk 0 0"

definition with_policy :: "nat \<Rightarrow> nat \<Rightarrow> nat \<Rightarrow> nat \<Rightarrow> nat \<Rightarrow> nat \<Rightarrow> nat \<Rightarrow> buffer" where
  "with_policy WINDOW QUEUE REORDER READ_BYTES initial_rtt max_window chunk =
     with_channel READ_BYTES
       (with_initial_rtt_and_max_window WINDOW QUEUE REORDER STREAM_MSGTYPE initial_rtt max_window)
       chunk"

definition buffer_with_initial_rtt_and_max_window ::
    "nat \<Rightarrow> nat \<Rightarrow> nat \<Rightarrow> nat \<Rightarrow> nat \<Rightarrow> nat \<Rightarrow> buffer" where
  "buffer_with_initial_rtt_and_max_window WINDOW QUEUE REORDER READ_BYTES initial_rtt max_window =
     with_policy WINDOW QUEUE REORDER READ_BYTES initial_rtt max_window DEFAULT_CHUNK"

definition buffer_with_initial_rtt :: "nat \<Rightarrow> nat \<Rightarrow> nat \<Rightarrow> nat \<Rightarrow> nat \<Rightarrow> buffer" where
  "buffer_with_initial_rtt WINDOW QUEUE REORDER READ_BYTES initial_rtt =
     with_channel READ_BYTES (with_initial_rtt WINDOW QUEUE REORDER STREAM_MSGTYPE initial_rtt)
       DEFAULT_CHUNK"

definition with_max_chunk :: "nat \<Rightarrow> nat \<Rightarrow> nat \<Rightarrow> nat \<Rightarrow> nat \<Rightarrow> buffer" where
  "with_max_chunk WINDOW QUEUE REORDER READ_BYTES chunk =
     with_channel READ_BYTES (new_channel WINDOW QUEUE REORDER STREAM_MSGTYPE) chunk"

definition new_buffer :: "nat \<Rightarrow> nat \<Rightarrow> nat \<Rightarrow> nat \<Rightarrow> buffer" where
  "new_buffer WINDOW QUEUE REORDER READ_BYTES =
     with_max_chunk WINDOW QUEUE REORDER READ_BYTES DEFAULT_CHUNK"

definition set_decoded_frame_limit :: "buffer \<Rightarrow> nat \<Rightarrow> buffer \<times> (stream_decode_limit_error + unit)" where
  "set_decoded_frame_limit b limit =
     (if limit = 0 \<or> isize_max \<le> limit then (b, Inl InvalidLimit)
      else (b\<lparr>b_decoded_frame_limit := limit\<rparr>, Inr ()))"

section \<open>Writing\<close>

text \<open>\<open>slice.chunks(n)\<close>; the chunk size of a buffer is at least one.\<close>

function chunks :: "nat \<Rightarrow> bytes \<Rightarrow> bytes list" where
  "chunks n bs = (if bs = [] \<or> n = 0 then [] else take n bs # chunks n (drop n bs))"
  by pat_completeness auto

termination
  by (relation "measure (length \<circ> snd)") auto

declare chunks.simps [simp del]

definition send_frame :: "buffer \<Rightarrow> bytes \<Rightarrow> bool \<Rightarrow> buffer \<times> (unit + unit)" where
  "send_frame b data eof =
    (let frame = \<lparr>sf_stream_id = b_send_stream_id b, sf_eof = eof, sf_compressed = False,
                  sf_data = data\<rparr>;
         (c, r) = send (b_channel b) (stream_frame_encode frame)
     in (b\<lparr>b_channel := c\<rparr>, case r of Inl _ \<Rightarrow> Inl () | Inr _ \<Rightarrow> Inr ()))"

fun write_chunks :: "buffer \<Rightarrow> bytes list \<Rightarrow> nat \<Rightarrow> buffer \<times> nat" where
  "write_chunks b [] acc = (b, acc)"
| "write_chunks b (chunk # rest) acc =
    (case send_frame b chunk False of
       (b', Inl _) \<Rightarrow> (b', acc)
     | (b', Inr _) \<Rightarrow> write_chunks b' rest (acc + length chunk))"

definition buffer_write :: "buffer \<Rightarrow> bytes \<Rightarrow> buffer \<times> nat" where
  "buffer_write b bs = write_chunks b (chunks (b_max_chunk b) bs) 0"

definition finish :: "buffer \<Rightarrow> buffer \<times> bool" where
  "finish b = (let (b', r) = send_frame b [] True in (b', is_ok r))"

section \<open>Reading\<close>

definition decompressed :: "bz2 \<Rightarrow> buffer \<Rightarrow> bytes \<Rightarrow> stream_decode_error + bytes" where
  "decompressed bz b data =
     (case bz of None \<Rightarrow> Inl UnsupportedCompression
      | Some decompress_bounded \<Rightarrow>
          (case decompress_bounded data (b_decoded_frame_limit b) of
             Inl InvalidData \<Rightarrow> Inl InvalidCompression
           | Inl LimitExceeded \<Rightarrow> Inl (DecodedFrameLimitExceeded (b_decoded_frame_limit b))
           | Inr out \<Rightarrow> Inr out))"

text \<open>One delivered message; the flag says that the loop breaks.\<close>

definition accept_message :: "bz2 \<Rightarrow> buffer \<Rightarrow> u16 \<times> bytes \<Rightarrow> buffer \<times> bool" where
  "accept_message bz b m =
    (let (msgtype, msg) = m in
     if msgtype \<noteq> STREAM_MSGTYPE then (b, False)
     else case stream_frame_decode msg of
       None \<Rightarrow> (b, False)
     | Some frame \<Rightarrow>
         if sf_stream_id frame \<noteq> b_recv_stream_id b then (b, False)
         else case (if sf_compressed frame then decompressed bz b (sf_data frame)
                    else Inr (sf_data frame)) of
             Inl e \<Rightarrow> (b\<lparr>b_receive_error := Some e\<rparr>, True)
           | Inr data \<Rightarrow>
               let b = (if data \<noteq> [] then b\<lparr>b_pending_frame := Some (data, 0)\<rparr> else b)
               in (if sf_eof frame then b\<lparr>b_recv_eof := True\<rparr> else b, False))"

definition backlog :: "channel \<Rightarrow> nat" where
  "backlog c = length (ch_inbox c) + length (ch_reorder c)"

lemma pump_backlog: "backlog (pump c) \<le> backlog c"
proof (induction c rule: pump.induct)
  case (1 c)
  show ?case
    by (subst pump.simps) (use 1 im_delete_shorter in \<open>fastforce simp: backlog_def split: option.splits\<close>)
qed

lemma recv_backlog: "recv_message c = (c', Some m) \<Longrightarrow> backlog c' < backlog c"
  using pump_backlog[of c]
  by (auto simp: recv_message_def Let_def backlog_def split: list.splits)

lemma accept_channel: "accept_message bz b m = (b', stop) \<Longrightarrow> b_channel b' = b_channel b"
  by (auto simp: accept_message_def Let_def split: if_splits option.splits sum.splits prod.splits)

function fill_loop :: "bz2 \<Rightarrow> buffer \<Rightarrow> buffer option" where
  "fill_loop bz b =
    (if length (b_read_buf b) < b_READ_BYTES b then
       case b_pending_frame b of
         Some (data, cursor) \<Rightarrow>
           if length data < cursor then None
           else
             let count = min (b_READ_BYTES b - length (b_read_buf b)) (length data - cursor) in
             fill_loop bz (b\<lparr>b_read_buf := b_read_buf b @ take count (drop cursor data),
               b_pending_frame := (if cursor + count = length data then None
                 else Some (data, cursor + count))\<rparr>)
       | None \<Rightarrow>
           (case recv_message (b_channel b) of
              (c, None) \<Rightarrow> Some (b\<lparr>b_channel := c\<rparr>)
            | (c, Some m) \<Rightarrow>
                (case accept_message bz (b\<lparr>b_channel := c\<rparr>) m of
                   (b', stop) \<Rightarrow> if stop then Some b' else fill_loop bz b'))
     else Some b)"
  by pat_completeness auto

termination
  by (relation "measures [\<lambda>(bz, b). backlog (b_channel b),
        \<lambda>(bz, b). if b_pending_frame b = None then 0 else 1,
        \<lambda>(bz, b). b_READ_BYTES b - length (b_read_buf b)]")
    (auto dest!: accept_channel[OF sym] recv_backlog[OF sym])

declare fill_loop.simps [simp del]

definition fill :: "bz2 \<Rightarrow> buffer \<Rightarrow> buffer option" where
  "fill bz b = (if b_receive_error b \<noteq> None then Some b else fill_loop bz b)"

definition buffer_read :: "bz2 \<Rightarrow> buffer \<Rightarrow> nat \<Rightarrow> (buffer \<times> bytes) option" where
  "buffer_read bz b room = map_option (\<lambda>b. let n = min room (length (b_read_buf b)) in
     (b\<lparr>b_read_buf := drop n (b_read_buf b)\<rparr>, take n (b_read_buf b))) (fill bz b)"

definition read_available :: "bz2 \<Rightarrow> buffer \<Rightarrow> (buffer \<times> bytes) option" where
  "read_available bz b =
     map_option (\<lambda>b. (b\<lparr>b_read_buf := []\<rparr>, b_read_buf b)) (fill bz b)"

definition recv_finished :: "bz2 \<Rightarrow> buffer \<Rightarrow> (buffer \<times> bool) option" where
  "recv_finished bz b =
     map_option (\<lambda>b. (b, b_receive_error b = None \<and> b_recv_eof b \<and> b_read_buf b = []
       \<and> b_pending_frame b = None)) (fill bz b)"

definition receive_error :: "bz2 \<Rightarrow> buffer \<Rightarrow> (buffer \<times> stream_decode_error option) option" where
  "receive_error bz b = map_option (\<lambda>b. (b, b_receive_error b)) (fill bz b)"

section \<open>Driving the channel\<close>

definition buffer_poll_transmit :: "buffer \<Rightarrow> nat \<Rightarrow> buffer \<times> envelope list" where
  "buffer_poll_transmit b now =
     (let (c, envs) = poll_transmit (b_channel b) now in (b\<lparr>b_channel := c\<rparr>, envs))"

definition buffer_handle :: "buffer \<Rightarrow> envelope \<Rightarrow> buffer \<times> bool" where
  "buffer_handle b e =
     (if b_receive_error b \<noteq> None then (b, False)
      else let (c, ok) = handle (b_channel b) e in (b\<lparr>b_channel := c\<rparr>, ok))"

definition buffer_on_proof :: "removal \<Rightarrow> buffer \<Rightarrow> u16 \<Rightarrow> nat \<Rightarrow> buffer" where
  "buffer_on_proof rm b q now = b\<lparr>b_channel := on_proof rm (b_channel b) q now\<rparr>"

definition buffer_set_initial_rtt :: "buffer \<Rightarrow> nat \<Rightarrow> buffer" where
  "buffer_set_initial_rtt b rtt = b\<lparr>b_channel := set_initial_rtt (b_channel b) rtt\<rparr>"

definition buffer_set_max_tries :: "buffer \<Rightarrow> nat \<Rightarrow> buffer" where
  "buffer_set_max_tries b tries = b\<lparr>b_channel := set_max_tries (b_channel b) tries\<rparr>"

definition buffer_send_idle :: "buffer \<Rightarrow> bool" where
  "buffer_send_idle b = send_idle (b_channel b)"


section \<open>What a reader gets\<close>

definition unread :: "buffer \<Rightarrow> bytes" where
  "unread b = b_read_buf b
     @ (case b_pending_frame b of None \<Rightarrow> [] | Some (data, cursor) \<Rightarrow> drop cursor data)"

definition buffer_inv :: "buffer \<Rightarrow> bool" where
  "buffer_inv b \<longleftrightarrow> length (b_read_buf b) \<le> b_READ_BYTES b
     \<and> (case b_pending_frame b of None \<Rightarrow> True | Some (data, cursor) \<Rightarrow> cursor < length data)"

text \<open>The stream bytes one delivered message carries, and whether it ends the stream.\<close>

definition message_data :: "bz2 \<Rightarrow> buffer \<Rightarrow> u16 \<times> bytes \<Rightarrow> stream_decode_error + bytes \<times> bool" where
  "message_data bz b m =
    (case (if fst m = STREAM_MSGTYPE then stream_frame_decode (snd m) else None) of
       None \<Rightarrow> Inr ([], False)
     | Some f \<Rightarrow>
         if sf_stream_id f \<noteq> b_recv_stream_id b then Inr ([], False)
         else and_then (if sf_compressed f then decompressed bz b (sf_data f) else Inr (sf_data f))
                (\<lambda>d. Inr (d, sf_eof f)))"

lemma decompressed_cong:
  "b_decoded_frame_limit b' = b_decoded_frame_limit b \<Longrightarrow> decompressed bz b' = decompressed bz b"
  by (rule ext) (simp add: decompressed_def split: option.split sum.split bounded_decompress_error.split)

lemma message_data_cong:
  "b_recv_stream_id b' = b_recv_stream_id b \<Longrightarrow> b_decoded_frame_limit b' = b_decoded_frame_limit b \<Longrightarrow>
     message_data bz b' m = message_data bz b m"
  by (drule decompressed_cong[of b' b bz]) (simp add: message_data_def split: option.split)

lemma accept_message_data:
  assumes "b_pending_frame b = None" "accept_message bz b m = (b', stop)"
  shows "case message_data bz b m of
      Inl e \<Rightarrow> stop \<and> b' = b\<lparr>b_receive_error := Some e\<rparr>
    | Inr (d, eof) \<Rightarrow> \<not> stop
        \<and> b' = b\<lparr>b_pending_frame := (if d = [] then None else Some (d, 0)),
                b_recv_eof := b_recv_eof b \<or> eof\<rparr>"
  using assms
  by (auto simp: accept_message_def message_data_def Let_def split: if_splits option.splits sum.splits
      prod.splits)

text \<open>The messages taken from the channel in one call.\<close>

inductive drains :: "channel \<Rightarrow> (u16 \<times> bytes) list \<Rightarrow> channel \<Rightarrow> bool" where
  drains_nothing: "drains c [] c"
| drains_end: "recv_message c = (c', None) \<Longrightarrow> drains c [] c'"
| drains_one: "recv_message c = (c', Some m) \<Longrightarrow> drains c' ms c'' \<Longrightarrow> drains c (m # ms) c''"

definition fill_result :: "bz2 \<Rightarrow> buffer \<Rightarrow> buffer \<Rightarrow> (u16 \<times> bytes) list \<Rightarrow> bool" where
  "fill_result bz b b' ms \<longleftrightarrow>
     buffer_inv b' \<and> drains (b_channel b) ms (b_channel b')
     \<and> b_READ_BYTES b' = b_READ_BYTES b \<and> b_max_chunk b' = b_max_chunk b
     \<and> b_send_stream_id b' = b_send_stream_id b \<and> b_recv_stream_id b' = b_recv_stream_id b
     \<and> b_decoded_frame_limit b' = b_decoded_frame_limit b
     \<and> (\<exists>ds err. map (message_data bz b) ms = map Inr ds @ err
          \<and> err = (case b_receive_error b' of None \<Rightarrow> [] | Some e \<Rightarrow> [Inl e])
          \<and> unread b' = unread b @ concat (map fst ds)
          \<and> (b_recv_eof b' \<longleftrightarrow> b_recv_eof b \<or> (\<exists>d \<in> set ds. snd d)))"


lemma fill_result_refl: "buffer_inv b \<Longrightarrow> b_receive_error b = None \<Longrightarrow> fill_result bz b b []"
  by (auto simp: fill_result_def intro: drains_nothing)

lemma fill_loop_result:
  "buffer_inv b \<Longrightarrow> b_receive_error b = None \<Longrightarrow>
     \<exists>b' ms. fill_loop bz b = Some b' \<and> fill_result bz b b' ms"
proof (induction bz b rule: fill_loop.induct)
  case (1 bz b)
  show ?case
  proof (cases "length (b_read_buf b) < b_READ_BYTES b")
    case False
    then have "fill_loop bz b = Some b" by (subst fill_loop.simps) simp
    with fill_result_refl[OF 1(3,4)] show ?thesis by blast
  next
    case room: True
    show ?thesis
    proof (cases "b_pending_frame b")
      case (Some p)
      then obtain data cursor where p: "b_pending_frame b = Some (data, cursor)" by (cases p) auto
      then have cur: "cursor < length data" using 1(3) by (simp add: buffer_inv_def)
      define count where "count = min (b_READ_BYTES b - length (b_read_buf b)) (length data - cursor)"
      let ?b = "b\<lparr>b_read_buf := b_read_buf b @ take count (drop cursor data),
        b_pending_frame := (if cursor + count = length data then None else Some (data, cursor + count))\<rparr>"
      have step: "fill_loop bz b = fill_loop bz ?b"
        by (subst fill_loop.simps) (use room p cur in \<open>simp add: count_def Let_def\<close>)
      have inv: "buffer_inv ?b"
        using 1(3) cur room by (auto simp: buffer_inv_def count_def)
      have "\<exists>b' ms. fill_loop bz ?b = Some b' \<and> fill_result bz ?b b' ms"
        by (rule 1(2)[OF room p HOL.refl _ count_def inv]) (use cur 1(4) in auto)
      then obtain b' ms where b': "fill_loop bz ?b = Some b'" "fill_result bz ?b b' ms" by blast
      have "unread ?b = unread b"
        using cur by (auto simp: unread_def p count_def drop_drop add.commute)
          (metis add.commute append_take_drop_id drop_drop min_def)+
      moreover have "message_data bz ?b = message_data bz b"
        by (rule ext, rule message_data_cong) simp_all
      ultimately have "fill_result bz b b' ms" using b'(2) by (simp add: fill_result_def)
      with b'(1) step show ?thesis by auto
    next
      case None
      obtain c r where recv: "recv_message (b_channel b) = (c, r)" by fastforce
      show ?thesis
      proof (cases r)
        case r: None
        then have "fill_loop bz b = Some (b\<lparr>b_channel := c\<rparr>)"
          by (subst fill_loop.simps) (simp add: room None recv)
        moreover have "fill_result bz b (b\<lparr>b_channel := c\<rparr>) []"
          using 1(3,4) recv r by (auto simp: fill_result_def buffer_inv_def unread_def intro: drains_end)
        ultimately show ?thesis by blast
      next
        case r: (Some m)
        let ?c = "b\<lparr>b_channel := c\<rparr>"
        obtain b1 stop where acc: "accept_message bz ?c m = (b1, stop)" by fastforce
        have md: "message_data bz ?c m = message_data bz b m" by (rule message_data_cong) simp_all
        have step: "fill_loop bz b = (if stop then Some b1 else fill_loop bz b1)"
          by (subst fill_loop.simps) (simp add: room None recv r acc)
        show ?thesis
        proof (cases "message_data bz b m")
          case (Inl e)
          then have b1: "stop" "b1 = ?c\<lparr>b_receive_error := Some e\<rparr>"
            using accept_message_data[OF _ acc] None md by auto
          have "drains (b_channel b) [m] c"
            by (rule drains_one[OF recv[unfolded r] drains_nothing])
          then have "fill_result bz b b1 [m]"
            using 1(3) Inl by (auto simp: fill_result_def b1(2) buffer_inv_def unread_def)
          with step b1(1) show ?thesis by auto
        next
          case (Inr de)
          then obtain d eof where de: "message_data bz b m = Inr (d, eof)" by (cases de) auto
          then have b1: "\<not> stop" "b1 = ?c\<lparr>b_pending_frame := (if d = [] then None else Some (d, 0)),
              b_recv_eof := b_recv_eof b \<or> eof\<rparr>"
            using accept_message_data[OF _ acc] None md by auto
          have inv: "buffer_inv b1" using 1(3) by (auto simp: b1(2) buffer_inv_def)
          have "\<exists>b' ms. fill_loop bz b1 = Some b' \<and> fill_result bz b1 b' ms"
            by (rule 1(1)[OF room None recv[symmetric] r acc[symmetric]])
              (use inv b1 1(4) in auto)
          then obtain b' ms where b': "fill_loop bz b1 = Some b'" "fill_result bz b1 b' ms" by blast
          have un: "unread b1 = unread b @ d" by (auto simp: b1(2) unread_def None)
          have same: "message_data bz b1 = message_data bz b"
            by (rule ext, rule message_data_cong) (simp_all add: b1(2))
          have ch: "b_channel b1 = c" by (simp add: b1(2))
          from b'(2) obtain ds where ds:
            "map (message_data bz b) ms = map Inr ds
               @ (case b_receive_error b' of None \<Rightarrow> [] | Some e \<Rightarrow> [Inl e])"
            "unread b' = unread b1 @ concat (map fst ds)"
            "b_recv_eof b' \<longleftrightarrow> b_recv_eof b1 \<or> (\<exists>d \<in> set ds. snd d)"
            by (auto simp: fill_result_def same)
          have "fill_result bz b b' (m # ms)"
            unfolding fill_result_def
          proof (intro conjI exI)
            show "drains (b_channel b) (m # ms) (b_channel b')"
              using drains_one[OF recv[unfolded r]] b'(2) ch by (simp add: fill_result_def)
            show "map (message_data bz b) (m # ms) = map Inr ((d, eof) # ds)
               @ (case b_receive_error b' of None \<Rightarrow> [] | Some e \<Rightarrow> [Inl e])"
              using ds(1) de by simp
            show "unread b' = unread b @ concat (map fst ((d, eof) # ds))"
              using ds(2) un by simp
            show "b_recv_eof b' \<longleftrightarrow> b_recv_eof b \<or> (\<exists>d \<in> set ((d, eof) # ds). snd d)"
              using ds(3) by (auto simp: b1(2))
          qed (use b'(2) in \<open>auto simp: fill_result_def b1(2)\<close>)
          with b'(1) b1(1) step show ?thesis by auto
        qed
      qed
    qed
  qed
qed

end
