(* ===== verification/BufferSession.thy ===== *)
theory BufferSession
  imports Buffer
begin

text \<open>
  A byte stream end to end: one \<open>Buffer\<close> writes, its peer reads, over the network of
  ChannelSession. Every step is a method of \<open>Buffer\<close>; the run of the two channels under it is a
  run of ChannelSession, so what the reader takes is a prefix of what the writer accepted.
  \<open>x_clobbered\<close> and \<open>stream_within_a_turn\<close> carry the session's condition on clobbering copies.
\<close>

record stream =
  x_out :: buffer
  x_in :: buffer
  x_accepted :: bytes
  x_taken :: bytes
  x_closed :: bool
  x_sent :: nat
  x_delivered :: nat
  x_net :: "(nat \<times> envelope) set"
  x_acks :: "(nat \<times> u16) set"
  x_clobbered :: bool

definition stream_start :: "buffer \<Rightarrow> buffer \<Rightarrow> stream" where
  "stream_start out inp = \<lparr>x_out = out, x_in = inp, x_accepted = [], x_taken = [], x_closed = False,
     x_sent = 0, x_delivered = 0, x_net = {}, x_acks = {},
     x_clobbered = False\<rparr>"

definition stream_within_a_turn :: "stream \<Rightarrow> bool" where
  "stream_within_a_turn x \<longleftrightarrow> (x_clobbered x \<longrightarrow> x_sent x < SEQ_MODULUS)"

definition sent_since :: "buffer \<Rightarrow> buffer \<Rightarrow> nat" where
  "sent_since b b' = unat (ch_send_next (b_channel b') - ch_send_next (b_channel b))"

definition delivered_since :: "buffer \<Rightarrow> buffer \<Rightarrow> nat" where
  "delivered_since b b' = unat (ch_recv_next (b_channel b') - ch_recv_next (b_channel b))"

inductive stream_step :: "bz2 \<Rightarrow> removal \<Rightarrow> stream \<Rightarrow> stream \<Rightarrow> bool" for bz rm where
  write_step: "\<not> x_closed x \<Longrightarrow> buffer_write (x_out x) bs = (out, n) \<Longrightarrow>
    stream_step bz rm x (x\<lparr>x_out := out, x_accepted := x_accepted x @ take n bs\<rparr>)"
| finish_step: "\<not> x_closed x \<Longrightarrow> finish (x_out x) = (out, ok) \<Longrightarrow>
    stream_step bz rm x (x\<lparr>x_out := out, x_closed := ok\<rparr>)"
| transmit_step: "buffer_poll_transmit (x_out x) now = (out, envs) \<Longrightarrow>
    sent = x_sent x + sent_since (x_out x) out \<Longrightarrow>
    stream_step bz rm x (x\<lparr>x_out := out, x_sent := sent, x_net := x_net x \<union> Pair sent ` set envs\<rparr>)"
| arrive_step: "(t, e) \<in> x_net x \<Longrightarrow> x_delivered x + WINDOW_MAX \<le> t + HALF \<Longrightarrow>
    buffer_handle (x_in x) e = (inp, prove) \<Longrightarrow>
    stream_step bz rm x (x\<lparr>x_in := inp, x_delivered := x_delivered x + delivered_since (x_in x) inp,
      x_acks := (if prove then insert (t, env_sequence e) (x_acks x) else x_acks x),
      x_clobbered := x_clobbered x \<or> clobbers (b_channel (x_in x)) e\<rparr>)"
| take_step: "buffer_read bz (x_in x) room = Some (inp, bs) \<Longrightarrow>
    stream_step bz rm x (x\<lparr>x_in := inp, x_taken := x_taken x @ bs,
      x_delivered := x_delivered x + delivered_since (x_in x) inp\<rparr>)"
| prove_step: "(t, q) \<in> x_acks x \<Longrightarrow> x_sent x + WINDOW_MAX \<le> t + SEQ_MODULUS \<Longrightarrow>
    stream_step bz rm x (x\<lparr>x_out := buffer_on_proof rm (x_out x) q now\<rparr>)"

inductive stream_reach :: "bz2 \<Rightarrow> removal \<Rightarrow> stream \<Rightarrow> stream \<Rightarrow> bool" for bz rm x where
  stream_reach_start: "stream_reach bz rm x x"
| stream_reach_step: "stream_reach bz rm x x' \<Longrightarrow> stream_step bz rm x' x'' \<Longrightarrow>
    stream_reach bz rm x x''"

section \<open>Frames\<close>

definition data_frame :: "u16 \<Rightarrow> bytes \<Rightarrow> stream_frame" where
  "data_frame i d = \<lparr>sf_stream_id = i, sf_eof = False, sf_compressed = False, sf_data = d\<rparr>"

definition eof_frame :: "u16 \<Rightarrow> stream_frame" where
  "eof_frame i = \<lparr>sf_stream_id = i, sf_eof = True, sf_compressed = False, sf_data = []\<rparr>"

definition stream_frames :: "u16 \<Rightarrow> bytes list \<Rightarrow> bool \<Rightarrow> stream_frame list" where
  "stream_frames i ds closed = map (data_frame i) ds @ (if closed then [eof_frame i] else [])"

lemma stream_frames_data: "concat (map sf_data (stream_frames i ds closed)) = concat ds"
  by (simp add: stream_frames_def data_frame_def eof_frame_def comp_def)

lemma stream_frames_shape:
  "f \<in> set (stream_frames i ds closed) \<Longrightarrow> sf_stream_id f = i \<and> \<not> sf_compressed f"
  by (auto simp: stream_frames_def data_frame_def eof_frame_def split: if_splits)

lemma message_data_frame:
  assumes "sf_stream_id f = b_recv_stream_id b" "\<not> sf_compressed f"
    "b_recv_stream_id b AND STREAM_ID_MAX = b_recv_stream_id b"
  shows "message_data bz b (STREAM_MSGTYPE, stream_frame_encode f) = Inr (sf_data f, sf_eof f)"
  using assms by (simp add: message_data_def stream_frame_decode_encode)

lemma concat_chunks: "0 < n \<Longrightarrow> concat (chunks n bs) = bs"
proof (induction n bs rule: chunks.induct)
  case (1 n bs)
  then show ?case by (subst chunks.simps) simp
qed

section \<open>Writing as session steps\<close>

lemma send_frame_channel:
  "send_frame b d eof = (b', r) \<Longrightarrow>
     b' = b\<lparr>b_channel := b_channel b'\<rparr>
     \<and> (\<exists>r'. send (b_channel b) (stream_frame_encode \<lparr>sf_stream_id = b_send_stream_id b,
          sf_eof = eof, sf_compressed = False, sf_data = d\<rparr>) = (b_channel b', r')
        \<and> (r = Inr () \<longleftrightarrow> r' = Inr ()) \<and> (r' \<noteq> Inr () \<longrightarrow> b' = b))"
  by (auto simp: send_frame_def send_def Let_def split: if_splits sum.splits)

lemma write_chunks_reach:
  assumes "write_chunks b cs acc = (b', n)" "session_reach rm s0 s" "s_tx s = b_channel b"
  shows "\<exists>k. n = acc + length (concat (take k cs)) \<and> b' = b\<lparr>b_channel := b_channel b'\<rparr>
    \<and> session_reach rm s0 (s\<lparr>s_tx := b_channel b', s_written := s_written s
        @ map (stream_frame_encode \<circ> data_frame (b_send_stream_id b)) (take k cs)\<rparr>)"
  using assms
proof (induction b cs acc arbitrary: s rule: write_chunks.induct)
  case (1 b acc)
  then have "s\<lparr>s_tx := b_channel b', s_written := s_written s @ []\<rparr> = s" "b' = b" "n = acc"
    by simp_all
  with 1(2) show ?case by (intro exI[of _ 0]) (simp only: take_0 list.map concat.simps list.size add_0_right, simp)
next
  case (2 b c cs acc)
  obtain b1 r where sf: "send_frame b c False = (b1, r)" by fastforce
  note sc = send_frame_channel[OF sf]
  show ?case
  proof (cases r)
    case (Inl x)
    with sc have "b1 = b" by auto
    with Inl 2(2) sf have "b' = b" "n = acc" by auto
    moreover have "s\<lparr>s_tx := b_channel b, s_written := s_written s @ []\<rparr> = s" using 2(4) by simp
    ultimately show ?thesis using 2(3) by (intro exI[of _ 0]) simp
  next
    case (Inr u)
    let ?p = "stream_frame_encode (data_frame (b_send_stream_id b) c)"
    from sc Inr have snd: "send (b_channel b) ?p = (b_channel b1, Inr ())"
      and b1: "b1 = b\<lparr>b_channel := b_channel b1\<rparr>" by (auto simp: data_frame_def)
    let ?s = "s\<lparr>s_tx := b_channel b1, s_written := s_written s @ [?p]\<rparr>"
    have reach: "session_reach rm s0 ?s"
      by (rule reach_offer[OF 2(3), of ?p]) (simp_all add: 2(4) snd)
    have rest: "write_chunks b1 cs (acc + length c) = (b', n)" using 2(2) sf Inr by simp
    have id: "b_send_stream_id b1 = b_send_stream_id b" by (subst b1) simp
    obtain k where k: "n = acc + length c + length (concat (take k cs))"
      "b' = b1\<lparr>b_channel := b_channel b'\<rparr>"
      "session_reach rm s0 (?s\<lparr>s_tx := b_channel b', s_written := s_written ?s
         @ map (stream_frame_encode \<circ> data_frame (b_send_stream_id b1)) (take k cs)\<rparr>)"
      using 2(1)[OF sf[symmetric] Inr rest reach] by (auto simp: comp_def)
    have "b' = b\<lparr>b_channel := b_channel b'\<rparr>" by (subst k(2), subst b1) simp
    with k id show ?thesis by (intro exI[of _ "Suc k"]) (simp add: comp_def)
  qed
qed

lemma write_reach:
  assumes w: "buffer_write b bs = (b', n)" and s: "session_reach rm s0 s" "s_tx s = b_channel b"
    and pos: "0 < b_max_chunk b"
  shows "\<exists>ds. concat ds = take n bs \<and> b' = b\<lparr>b_channel := b_channel b'\<rparr>
    \<and> session_reach rm s0 (s\<lparr>s_tx := b_channel b', s_written := s_written s
        @ map (stream_frame_encode \<circ> data_frame (b_send_stream_id b)) ds\<rparr>)"
proof -
  let ?cs = "chunks (b_max_chunk b) bs"
  from write_chunks_reach[OF w[unfolded buffer_write_def] s] obtain k where
    k: "n = length (concat (take k ?cs))" "b' = b\<lparr>b_channel := b_channel b'\<rparr>"
      "session_reach rm s0 (s\<lparr>s_tx := b_channel b', s_written := s_written s
        @ map (stream_frame_encode \<circ> data_frame (b_send_stream_id b)) (take k ?cs)\<rparr>)"
    by auto
  have "bs = concat (take k ?cs) @ concat (drop k ?cs)"
    using concat_chunks[OF pos, of bs] by (metis append_take_drop_id concat_append)
  then have "concat (take k ?cs) = take n bs" using k(1) by (metis append_eq_conv_conj)
  with k(2,3) show ?thesis by blast
qed

lemma finish_reach:
  assumes f: "finish b = (b', ok)" and s: "session_reach rm s0 s" "s_tx s = b_channel b"
  shows "b' = b\<lparr>b_channel := b_channel b'\<rparr> \<and> session_reach rm s0 (s\<lparr>s_tx := b_channel b',
    s_written := s_written s @ (if ok then [stream_frame_encode (eof_frame (b_send_stream_id b))] else [])\<rparr>)"
proof -
  obtain b1 r where sf: "send_frame b [] True = (b1, r)" by fastforce
  with f have b': "b' = b1" "ok = is_ok r" by (auto simp: finish_def)
  note sc = send_frame_channel[OF sf]
  show ?thesis
  proof (cases r)
    case (Inl x)
    with sc have "b1 = b" by auto
    moreover have "s\<lparr>s_tx := b_channel b, s_written := s_written s @ []\<rparr> = s" using s(2) by simp
    ultimately show ?thesis using s(1) Inl b' by simp
  next
    case (Inr u)
    then show ?thesis
      using sc b' s(2) reach_offer[OF s(1), of "stream_frame_encode (eof_frame (b_send_stream_id b))"]
      by (auto simp: eof_frame_def)
  qed
qed

section \<open>Reading as session steps\<close>

lemma drains_reach:
  "drains c ms c' \<Longrightarrow> session_reach rm s0 s \<Longrightarrow> s_rx s = c \<Longrightarrow>
     session_reach rm s0 (s\<lparr>s_rx := c', s_read := s_read s @ ms\<rparr>)"
proof (induction c ms c' arbitrary: s rule: drains.induct)
  case (drains_nothing c)
  then have "s\<lparr>s_rx := c, s_read := s_read s @ []\<rparr> = s" by simp
  with drains_nothing(1) show ?case by (simp only:)
next
  case (drains_end c c')
  then have "session_step rm s (s\<lparr>s_rx := c', s_read := s_read s @ (case None of None \<Rightarrow> [] | Some m \<Rightarrow> [m])\<rparr>)"
    by (intro session_step.read_one) simp
  with drains_end(2) show ?case by (auto intro: reach_step)
next
  case (drains_one c c1 m ms c')
  have "session_reach rm s0 (s\<lparr>s_rx := c1, s_read := s_read s @ [m]\<rparr>)"
    by (rule reach_read[OF drains_one(4), of m]) (simp_all add: drains_one(1,5))
  from drains_one(3)[OF this] show ?case by simp
qed

section \<open>The simulation\<close>

definition stream_sim :: "bz2 \<Rightarrow> removal \<Rightarrow> stream \<Rightarrow> stream \<Rightarrow> bool" where
  "stream_sim bz rm x0 x \<longleftrightarrow>
     (\<exists>s ds.
       session_reach rm (session_start (b_channel (x_out x0)) (b_channel (x_in x0))) s
       \<and> s_tx s = b_channel (x_out x) \<and> s_rx s = b_channel (x_in x) \<and> s_sent s = x_sent x
       \<and> delivered s = x_delivered x \<and> s_net s = x_net x \<and> s_acks s = x_acks x
       \<and> s_clobbered s = x_clobbered x
       \<and> s_written s = map stream_frame_encode
            (stream_frames (b_send_stream_id (x_out x)) ds (x_closed x))
       \<and> concat ds = x_accepted x
       \<and> x_taken x @ unread (x_in x) = concat (map sf_data (take (length (s_read s))
            (stream_frames (b_send_stream_id (x_out x)) ds (x_closed x))))
       \<and> (b_recv_eof (x_in x) \<longleftrightarrow> x_closed x \<and> length ds < length (s_read s)))
     \<and> buffer_inv (x_in x) \<and> b_receive_error (x_in x) = None
     \<and> 0 < b_max_chunk (x_out x)
     \<and> b_recv_stream_id (x_in x) = b_send_stream_id (x_out x)
     \<and> b_send_stream_id (x_out x) AND STREAM_ID_MAX = b_send_stream_id (x_out x)"

definition stream_ready :: "buffer \<Rightarrow> buffer \<Rightarrow> bool" where
  "stream_ready out inp \<longleftrightarrow> unused (b_channel out) \<and> unused (b_channel inp)
     \<and> ch_msgtype (b_channel out) = STREAM_MSGTYPE
     \<and> ch_REORDER (b_channel inp) + WINDOW_MAX \<le> HALF
     \<and> b_read_buf inp = [] \<and> b_pending_frame inp = None \<and> \<not> b_recv_eof inp
     \<and> b_receive_error inp = None \<and> 0 < b_max_chunk out
     \<and> b_recv_stream_id inp = b_send_stream_id out
     \<and> b_send_stream_id out AND STREAM_ID_MAX = b_send_stream_id out"

lemma stream_sim_start: "stream_ready out inp \<Longrightarrow> stream_sim bz rm (stream_start out inp) (stream_start out inp)"
  unfolding stream_sim_def
  by (intro conjI exI[of _ "session_start (b_channel out) (b_channel inp)"] exI[of _ "[]"])
    (auto simp: stream_ready_def stream_start_def session_start_def delivered_def rx_next_def
      unused_def unread_def buffer_inv_def stream_frames_def intro: reach_start)


lemma delivered_advance:
  assumes "session_inv s" "session_inv s'" "s_sent s' = s_sent s" "delivered s \<le> delivered s'"
  shows "unat (ch_recv_next (s_rx s') - ch_recv_next (s_rx s)) = delivered s' - delivered s"
proof -
  have "delivered s' \<le> s_sent s'" "s_sent s \<le> delivered s + HALF"
    using assms(1,2) by (auto simp: session_inv_def rx_rep_def delivered_def)
  then have "delivered s' - delivered s < 65536" using assms(3) by (simp add: HALF_eq)
  moreover have "ch_recv_next (s_rx s) = of_nat (delivered s)" "ch_recv_next (s_rx s') = of_nat (delivered s')"
    using assms(1,2) by (simp_all add: session_inv_def rx_rep_def delivered_def)
  ultimately show ?thesis using assms(4) by (simp add: u16_diff del: of_nat_diff)
qed

lemma drains_delivered: "drains c ms c' \<Longrightarrow> rx_next rd c \<le> rx_next (rd @ ms) c'"
proof (induction c ms c' arbitrary: rd rule: drains.induct)
  case (drains_end c c')
  then show ?case using rx_next_recv_mono[of c c' None rd] by simp
next
  case (drains_one c c1 m ms c')
  then show ?case
    using rx_next_recv_mono[of c c1 "Some m" rd] drains_one(3)[of "rd @ [m]"] by simp
qed simp

text \<open>The frames a reader meets, in order.\<close>

lemma frames_data_Inr:
  assumes "\<forall>f \<in> set fs. sf_stream_id f = b_recv_stream_id b \<and> \<not> sf_compressed f"
    "b_recv_stream_id b AND STREAM_ID_MAX = b_recv_stream_id b"
  shows "map (message_data bz b) (map (Pair STREAM_MSGTYPE) (map stream_frame_encode fs))
    = map Inr (map (\<lambda>f. (sf_data f, sf_eof f)) fs)"
  using assms by (simp add: message_data_frame)

lemma map_Inr_only:
  "map Inr xs = map Inr ys @ (case e of None \<Rightarrow> [] | Some v \<Rightarrow> [Inl v]) \<Longrightarrow> ys = xs \<and> e = None"
proof (cases e)
  case (Some v)
  assume "map Inr xs = map Inr ys @ (case e of None \<Rightarrow> [] | Some v \<Rightarrow> [Inl v])"
  then have "Inl v \<in> Inr ` set xs" using Some by (metis (no_types, lifting) Un_iff
      in_set_conv_decomp list.set_map option.simps(5) set_append)
  then show ?thesis by auto
qed (simp add: inj_map_eq_map inj_def)

lemma eof_in_take:
  "(\<exists>f \<in> set (take n (stream_frames i ds closed)). sf_eof f) \<longleftrightarrow> closed \<and> length ds < n"
proof -
  have "\<not> sf_eof f" if "f \<in> set (take n (map (data_frame i) ds))" for f
    using that by (auto simp: data_frame_def dest!: in_set_takeD)
  then show ?thesis
    by (auto simp: stream_frames_def eof_frame_def take_Cons' split: if_splits)
qed

lemma fill_frames:
  assumes inv: "buffer_inv b" "b_receive_error b = None"
    and id: "b_recv_stream_id b AND STREAM_ID_MAX = b_recv_stream_id b"
    and frames: "\<forall>f \<in> set fs. sf_stream_id f = b_recv_stream_id b \<and> \<not> sf_compressed f"
    and ready: "\<forall>c ms. drains (b_channel b) ms c \<longrightarrow>
      (\<exists>j. ms = map (Pair STREAM_MSGTYPE) (map stream_frame_encode (take j fs)))"
  shows "\<exists>b' ms j. fill bz b = Some b' \<and> drains (b_channel b) ms (b_channel b') \<and> buffer_inv b'
    \<and> b_receive_error b' = None \<and> b_recv_stream_id b' = b_recv_stream_id b
    \<and> ms = map (Pair STREAM_MSGTYPE) (map stream_frame_encode (take j fs))
    \<and> unread b' = unread b @ concat (map sf_data (take j fs))
    \<and> (b_recv_eof b' \<longleftrightarrow> b_recv_eof b \<or> (\<exists>f \<in> set (take j fs). sf_eof f))"
proof -
  obtain b' ms where fl: "fill_loop bz b = Some b'" "fill_result bz b b' ms"
    using fill_loop_result[OF inv] by blast
  then obtain j where j: "ms = map (Pair STREAM_MSGTYPE) (map stream_frame_encode (take j fs))"
    using ready by (auto simp: fill_result_def)
  obtain ds where ds: "map (message_data bz b) ms
      = map Inr ds @ (case b_receive_error b' of None \<Rightarrow> [] | Some e \<Rightarrow> [Inl e])"
    "unread b' = unread b @ concat (map fst ds)"
    "b_recv_eof b' \<longleftrightarrow> b_recv_eof b \<or> (\<exists>d \<in> set ds. snd d)"
    using fl(2) by (auto simp: fill_result_def)
  have "\<forall>f \<in> set (take j fs). sf_stream_id f = b_recv_stream_id b \<and> \<not> sf_compressed f"
    using frames by (auto dest: in_set_takeD)
  from map_Inr_only[OF ds(1)[unfolded j frames_data_Inr[OF this id]]]
  have "ds = map (\<lambda>f. (sf_data f, sf_eof f)) (take j fs)" "b_receive_error b' = None" by auto
  with fl j ds inv(2) show ?thesis
    by (intro exI[of _ b'] exI[of _ ms] exI[of _ j])
      (auto simp: fill_def fill_result_def comp_def)
qed


lemma sim_inv:
  assumes "stream_ready (x_out x0) (x_in x0)" "removal_law rm"
    "session_reach rm (session_start (b_channel (x_out x0)) (b_channel (x_in x0))) s" "within_a_turn s"
  shows "session_inv s" "ch_msgtype (s_tx s) = STREAM_MSGTYPE"
proof -
  show "session_inv s"
    by (rule session_inv_reach[OF assms(3,2) session_inv_start]) (use assms(1,4) in \<open>auto simp: stream_ready_def\<close>)
  show "ch_msgtype (s_tx s) = STREAM_MSGTYPE"
    using reach_frame[OF assms(3)] assms(1) by (simp add: session_start_def stream_ready_def)
qed

lemma sim_take:
  assumes ok: "stream_ready (x_out x0) (x_in x0)" "removal_law rm" and sim: "stream_sim bz rm x0 x"
    and turn: "stream_within_a_turn x"
    and rd: "buffer_read bz (x_in x) room = Some (inp, bs)"
  shows "stream_sim bz rm x0 (x\<lparr>x_in := inp, x_taken := x_taken x @ bs,
      x_delivered := x_delivered x + delivered_since (x_in x) inp\<rparr>)"
proof -
  let ?id = "b_send_stream_id (x_out x)"
  obtain s ds where s: "session_reach rm (session_start (b_channel (x_out x0)) (b_channel (x_in x0))) s"
    "s_tx s = b_channel (x_out x)" "s_rx s = b_channel (x_in x)" "s_sent s = x_sent x"
    "delivered s = x_delivered x" "s_net s = x_net x" "s_acks s = x_acks x"
    "s_written s = map stream_frame_encode (stream_frames ?id ds (x_closed x))"
    "concat ds = x_accepted x"
    "x_taken x @ unread (x_in x) = concat (map sf_data (take (length (s_read s))
       (stream_frames ?id ds (x_closed x))))"
    "b_recv_eof (x_in x) \<longleftrightarrow> x_closed x \<and> length ds < length (s_read s)"
    "s_clobbered s = x_clobbered x"
    using sim unfolding stream_sim_def by blast
  have side: "buffer_inv (x_in x)" "b_receive_error (x_in x) = None" "0 < b_max_chunk (x_out x)"
    "b_recv_stream_id (x_in x) = ?id" "?id AND STREAM_ID_MAX = ?id"
    using sim by (simp_all add: stream_sim_def)
  define fs where "fs = stream_frames ?id ds (x_closed x)"
  define r where "r = length (s_read s)"
  have fresh: "within_a_turn s" using turn s(4,12) by (simp add: within_a_turn_def stream_within_a_turn_def)
  then have fresh': "within_a_turn (s\<lparr>s_rx := c, s_read := s_read s @ ms\<rparr>)" for c ms
    by (simp add: within_a_turn_def)
  note inv = sim_inv[OF ok s(1) fresh]
  have reach': "session_reach rm (session_start (b_channel (x_out x0)) (b_channel (x_in x0)))
      (s\<lparr>s_rx := c, s_read := s_read s @ ms\<rparr>)" if "drains (b_channel (x_in x)) ms c" for c ms
    using drains_reach[OF that s(1) s(3)] .
  have pre: "s_read s @ ms = map (Pair STREAM_MSGTYPE) (map stream_frame_encode (take (r + length ms) fs))"
    if "drains (b_channel (x_in x)) ms c" for c ms
    using session_inv_prefix[OF sim_inv(1)[OF ok reach'[OF that] fresh']] inv(2) s(8)
    by (simp add: fs_def r_def take_map)
  have "\<exists>j. ms = map (Pair STREAM_MSGTYPE) (map stream_frame_encode (take j (drop r fs)))"
    if d: "drains (b_channel (x_in x)) ms c" for c ms
  proof -
    have "ms = drop r (s_read s @ ms)" by (simp add: r_def)
    also have "\<dots> = map (Pair STREAM_MSGTYPE) (map stream_frame_encode (take (length ms) (drop r fs)))"
      unfolding pre[OF d] by (simp add: drop_map take_drop add.commute)
    finally show ?thesis by blast
  qed
  then have ready: "\<forall>c ms. drains (b_channel (x_in x)) ms c \<longrightarrow>
    (\<exists>j. ms = map (Pair STREAM_MSGTYPE) (map stream_frame_encode (take j (drop r fs))))" by blast
  have idr: "b_recv_stream_id (x_in x) AND STREAM_ID_MAX = b_recv_stream_id (x_in x)"
    using side(4,5) by simp
  have shape: "\<forall>f \<in> set (drop r fs). sf_stream_id f = b_recv_stream_id (x_in x) \<and> \<not> sf_compressed f"
    using side(4) by (auto simp: fs_def dest!: in_set_dropD stream_frames_shape)
  obtain b' ms j where b': "fill bz (x_in x) = Some b'" "drains (b_channel (x_in x)) ms (b_channel b')"
    "buffer_inv b'" "b_receive_error b' = None" "b_recv_stream_id b' = b_recv_stream_id (x_in x)"
    "ms = map (Pair STREAM_MSGTYPE) (map stream_frame_encode (take j (drop r fs)))"
    "unread b' = unread (x_in x) @ concat (map sf_data (take j (drop r fs)))"
    "b_recv_eof b' \<longleftrightarrow> b_recv_eof (x_in x) \<or> (\<exists>f \<in> set (take j (drop r fs)). sf_eof f)"
    using fill_frames[OF side(1,2) idr shape ready, of bz] by blast
  define s' where "s' = s\<lparr>s_rx := b_channel b', s_read := s_read s @ ms\<rparr>"
  have inp: "inp = b'\<lparr>b_read_buf := drop (min room (length (b_read_buf b'))) (b_read_buf b')\<rparr>"
    "bs = take (min room (length (b_read_buf b'))) (b_read_buf b')"
    using rd b'(1) by (auto simp: buffer_read_def Let_def)
  have len: "take (length (s_read s')) fs = take r fs @ take j (drop r fs)"
    by (simp add: s'_def b'(6) take_add min_def flip: r_def)
  have s': "session_inv s'" using sim_inv(1)[OF ok reach'[OF b'(2)] fresh'] by (simp add: s'_def)
  have adv: "delivered s' = x_delivered x + delivered_since (x_in x) inp"
    using delivered_advance[OF inv(1) s'] drains_delivered[OF b'(2), of "s_read s"] s(3,5)
    by (simp add: s'_def delivered_def delivered_since_def inp(1))
  have un: "bs @ unread inp = unread b'" by (simp add: inp unread_def)
  have inp_inv: "buffer_inv inp" using b'(3) by (auto simp: inp(1) buffer_inv_def)
  have eof: "b_recv_eof inp \<longleftrightarrow> x_closed x \<and> length ds < length (s_read s')"
  proof -
    have "b_recv_eof inp \<longleftrightarrow> (\<exists>f \<in> set (take r fs). sf_eof f) \<or> (\<exists>f \<in> set (take j (drop r fs)). sf_eof f)"
      using b'(8) s(11) eof_in_take[of r ?id ds "x_closed x"] by (simp add: inp(1) fs_def r_def)
    also have "\<dots> \<longleftrightarrow> (\<exists>f \<in> set (take (length (s_read s')) fs). sf_eof f)"
      unfolding len by auto
    finally show ?thesis unfolding fs_def eof_in_take .
  qed
  have taken: "(x_taken x @ bs) @ unread inp = concat (map sf_data (take (length (s_read s')) fs))"
    using s(10) b'(7) un unfolding len by (simp add: fs_def r_def)
  show ?thesis
    unfolding stream_sim_def
  proof (intro conjI exI)
    show "session_reach rm (session_start (b_channel (x_out x0)) (b_channel (x_in x0))) s'"
      using reach'[OF b'(2)] by (simp add: s'_def)
  qed (use s side b' adv inp_inv eof taken in
      \<open>simp_all add: s'_def inp(1) delivered_def fs_def\<close>)
qed


text \<open>A step of the writer: how it moves the session under it and the chunks written.\<close>

definition under :: "removal \<Rightarrow> stream \<Rightarrow> stream \<Rightarrow> session \<Rightarrow> bytes list \<Rightarrow> bool" where
  "under rm x0 x s ds \<longleftrightarrow>
     session_reach rm (session_start (b_channel (x_out x0)) (b_channel (x_in x0))) s
     \<and> s_tx s = b_channel (x_out x) \<and> s_rx s = b_channel (x_in x) \<and> s_sent s = x_sent x
     \<and> s_net s = x_net x \<and> s_acks s = x_acks x
       \<and> s_clobbered s = x_clobbered x
     \<and> s_written s = map stream_frame_encode
          (stream_frames (b_send_stream_id (x_out x)) ds (x_closed x))
     \<and> concat ds = x_accepted x"

lemma stream_sim_iff:
  "stream_sim bz rm x0 x \<longleftrightarrow>
     (\<exists>s ds. under rm x0 x s ds \<and> delivered s = x_delivered x
       \<and> x_taken x @ unread (x_in x) = concat (map sf_data (take (length (s_read s))
            (stream_frames (b_send_stream_id (x_out x)) ds (x_closed x))))
       \<and> (b_recv_eof (x_in x) \<longleftrightarrow> x_closed x \<and> length ds < length (s_read s)))
     \<and> buffer_inv (x_in x) \<and> b_receive_error (x_in x) = None
     \<and> 0 < b_max_chunk (x_out x)
     \<and> b_recv_stream_id (x_in x) = b_send_stream_id (x_out x)
     \<and> b_send_stream_id (x_out x) AND STREAM_ID_MAX = b_send_stream_id (x_out x)"
  unfolding stream_sim_def under_def by blast

lemma sim_sender:
  assumes sim: "stream_sim bz rm x0 x" and turn: "stream_within_a_turn x"
    and step: "\<And>s ds. under rm x0 x s ds \<Longrightarrow>
      \<exists>s' ds'. under rm x0 x' s' (ds @ ds') \<and> s_read s' = s_read s
        \<and> (x_closed x \<longrightarrow> ds' = [] \<and> x_closed x')"
    and out: "b_send_stream_id (x_out x') = b_send_stream_id (x_out x)"
      "b_max_chunk (x_out x') = b_max_chunk (x_out x)"
    and same: "x_in x' = x_in x" "x_taken x' = x_taken x" "x_delivered x' = x_delivered x"
    and ok: "stream_ready (x_out x0) (x_in x0)" "removal_law rm"
  shows "stream_sim bz rm x0 x'"
proof -
  let ?id = "b_send_stream_id (x_out x)"
  obtain s ds where s: "under rm x0 x s ds" "delivered s = x_delivered x"
    "x_taken x @ unread (x_in x) = concat (map sf_data (take (length (s_read s))
       (stream_frames ?id ds (x_closed x))))"
    "b_recv_eof (x_in x) \<longleftrightarrow> x_closed x \<and> length ds < length (s_read s)"
    using sim unfolding stream_sim_iff by blast
  have "session_inv s"
    by (rule sim_inv(1)[OF ok]) (use s(1) turn in \<open>simp_all add: under_def within_a_turn_def stream_within_a_turn_def\<close>)
  then have "length (s_read s) \<le> length (s_written s)"
    by (simp add: session_inv_def rx_rep_def rx_next_def tx_rep_def)
  then have len: "length (s_read s) \<le> length (stream_frames ?id ds (x_closed x))"
    using s(1) by (simp add: under_def)
  obtain s' ds' where s': "under rm x0 x' s' (ds @ ds')" "s_read s' = s_read s"
    "x_closed x \<Longrightarrow> ds' = [] \<and> x_closed x'"
    using step[OF s(1)] by blast
  have "take (length (s_read s)) (stream_frames ?id (ds @ ds') (x_closed x'))
      = take (length (s_read s)) (stream_frames ?id ds (x_closed x))"
  proof (cases "x_closed x")
    case True
    with s'(3) show ?thesis by simp
  next
    case False
    with len have "length (s_read s) \<le> length ds" by (simp add: stream_frames_def)
    with False show ?thesis by (simp add: stream_frames_def)
  qed
  moreover have "x_closed x \<and> length ds < length (s_read s)
      \<longleftrightarrow> x_closed x' \<and> length (ds @ ds') < length (s_read s)"
    using s'(3) len by (cases "x_closed x") (auto simp: stream_frames_def)
  moreover have "delivered s' = x_delivered x"
    using s' s(1,2) same(1) by (simp add: delivered_def under_def)
  ultimately have "under rm x0 x' s' (ds @ ds') \<and> delivered s' = x_delivered x'
       \<and> x_taken x' @ unread (x_in x') = concat (map sf_data (take (length (s_read s'))
            (stream_frames (b_send_stream_id (x_out x')) (ds @ ds') (x_closed x'))))
       \<and> (b_recv_eof (x_in x') \<longleftrightarrow> x_closed x' \<and> length (ds @ ds') < length (s_read s'))"
    using s s' same out by (simp del: length_append)
  moreover have "buffer_inv (x_in x') \<and> b_receive_error (x_in x') = None
     \<and> 0 < b_max_chunk (x_out x')
     \<and> b_recv_stream_id (x_in x') = b_send_stream_id (x_out x')
     \<and> b_send_stream_id (x_out x') AND STREAM_ID_MAX = b_send_stream_id (x_out x')"
    using sim same out by (simp add: stream_sim_def)
  ultimately show ?thesis unfolding stream_sim_iff by blast
qed

lemma sim_write:
  assumes ok: "stream_ready (x_out x0) (x_in x0)" "removal_law rm" and sim: "stream_sim bz rm x0 x"
    and turn: "stream_within_a_turn x"
    and open_out: "\<not> x_closed x" and w: "buffer_write (x_out x) bs = (out, n)"
  shows "stream_sim bz rm x0 (x\<lparr>x_out := out, x_accepted := x_accepted x @ take n bs\<rparr>)"
proof -
  have pos: "0 < b_max_chunk (x_out x)" using sim by (simp add: stream_sim_def)
  have out: "out = (x_out x)\<lparr>b_channel := b_channel out\<rparr>"
    using write_reach[OF w reach_start _ pos, of "undefined\<lparr>s_tx := b_channel (x_out x)\<rparr>"] by auto
  have id: "b_send_stream_id out = b_send_stream_id (x_out x)" "b_max_chunk out = b_max_chunk (x_out x)"
    by (subst out, simp)+
  let ?x = "x\<lparr>x_out := out, x_accepted := x_accepted x @ take n bs\<rparr>"
  have step: "\<exists>s' ds'. under rm x0 ?x s' (ds @ ds') \<and> s_read s' = s_read s
      \<and> (x_closed x \<longrightarrow> ds' = [] \<and> x_closed ?x)" if s: "under rm x0 x s ds" for s ds
  proof -
    from s have "session_reach rm (session_start (b_channel (x_out x0)) (b_channel (x_in x0))) s"
      "s_tx s = b_channel (x_out x)" by (simp_all add: under_def)
    from write_reach[OF w this pos] obtain ds' where ds': "concat ds' = take n bs"
      "session_reach rm (session_start (b_channel (x_out x0)) (b_channel (x_in x0)))
        (s\<lparr>s_tx := b_channel out, s_written := s_written s
        @ map (stream_frame_encode \<circ> data_frame (b_send_stream_id (x_out x))) ds'\<rparr>)" by blast
    with s open_out id show ?thesis
      by (intro exI[of _ "s\<lparr>s_tx := b_channel out, s_written := s_written s
        @ map (stream_frame_encode \<circ> data_frame (b_send_stream_id (x_out x))) ds'\<rparr>"] exI[of _ ds'])
        (simp add: under_def stream_frames_def)
  qed
  show ?thesis by (rule sim_sender[OF sim turn step _ _ _ _ _ ok]) (simp_all add: id)
qed

lemma sim_finish:
  assumes ok: "stream_ready (x_out x0) (x_in x0)" "removal_law rm" and sim: "stream_sim bz rm x0 x"
    and turn: "stream_within_a_turn x"
    and open_out: "\<not> x_closed x" and f: "finish (x_out x) = (out, done)"
  shows "stream_sim bz rm x0 (x\<lparr>x_out := out, x_closed := done\<rparr>)"
proof -
  have out: "out = (x_out x)\<lparr>b_channel := b_channel out\<rparr>"
    using finish_reach[OF f reach_start, of "undefined\<lparr>s_tx := b_channel (x_out x)\<rparr>"] by auto
  have id: "b_send_stream_id out = b_send_stream_id (x_out x)" "b_max_chunk out = b_max_chunk (x_out x)"
    by (subst out, simp)+
  let ?x = "x\<lparr>x_out := out, x_closed := done\<rparr>"
  have step: "\<exists>s' ds'. under rm x0 ?x s' (ds @ ds') \<and> s_read s' = s_read s
      \<and> (x_closed x \<longrightarrow> ds' = [] \<and> x_closed ?x)" if s: "under rm x0 x s ds" for s ds
  proof -
    from s have "session_reach rm (session_start (b_channel (x_out x0)) (b_channel (x_in x0))) s"
      "s_tx s = b_channel (x_out x)" by (simp_all add: under_def)
    from finish_reach[OF f this] s open_out id show ?thesis
      by (intro exI[of _ "s\<lparr>s_tx := b_channel out, s_written := s_written s
          @ (if done then [stream_frame_encode (eof_frame (b_send_stream_id (x_out x)))] else [])\<rparr>"]
          exI[of _ "[]"])
        (simp add: under_def stream_frames_def)
  qed
  show ?thesis by (rule sim_sender[OF sim turn step _ _ _ _ _ ok]) (simp_all add: id)
qed

lemma sim_transmit:
  assumes ok: "stream_ready (x_out x0) (x_in x0)" "removal_law rm" and sim: "stream_sim bz rm x0 x"
    and turn: "stream_within_a_turn x"
    and poll: "buffer_poll_transmit (x_out x) now = (out, envs)"
    and sent: "sent = x_sent x + sent_since (x_out x) out"
  shows "stream_sim bz rm x0 (x\<lparr>x_out := out, x_sent := sent, x_net := x_net x \<union> Pair sent ` set envs\<rparr>)"
proof -
  from poll have p: "poll_transmit (b_channel (x_out x)) now = (b_channel out, envs)"
    and out: "out = (x_out x)\<lparr>b_channel := b_channel out\<rparr>"
    by (auto simp: buffer_poll_transmit_def split: prod.splits)
  have id: "b_send_stream_id out = b_send_stream_id (x_out x)" "b_max_chunk out = b_max_chunk (x_out x)"
    by (subst out, simp)+
  let ?x = "x\<lparr>x_out := out, x_sent := sent, x_net := x_net x \<union> Pair sent ` set envs\<rparr>"
  have step: "\<exists>s' ds'. under rm x0 ?x s' (ds @ ds') \<and> s_read s' = s_read s
      \<and> (x_closed x \<longrightarrow> ds' = [] \<and> x_closed ?x)" if s: "under rm x0 x s ds" for s ds
  proof -
    have "session_reach rm (session_start (b_channel (x_out x0)) (b_channel (x_in x0)))
        (s\<lparr>s_tx := b_channel out, s_sent := sent, s_net := s_net s \<union> Pair sent ` set envs\<rparr>)"
      by (rule reach_transmit[where now = now and envs = envs and n = sent])
        (use s p sent in \<open>auto simp: under_def sent_since_def\<close>)
    with s id show ?thesis
      by (intro exI[of _ "s\<lparr>s_tx := b_channel out, s_sent := sent,
        s_net := s_net s \<union> Pair sent ` set envs\<rparr>"] exI[of _ "[]"]) (simp add: under_def)
  qed
  show ?thesis by (rule sim_sender[OF sim turn step _ _ _ _ _ ok]) (simp_all add: id)
qed

lemma sim_prove:
  assumes ok: "stream_ready (x_out x0) (x_in x0)" "removal_law rm" and sim: "stream_sim bz rm x0 x"
    and turn: "stream_within_a_turn x"
    and ack: "(t, q) \<in> x_acks x" "x_sent x + WINDOW_MAX \<le> t + SEQ_MODULUS"
  shows "stream_sim bz rm x0 (x\<lparr>x_out := buffer_on_proof rm (x_out x) q now\<rparr>)"
proof -
  let ?x = "x\<lparr>x_out := buffer_on_proof rm (x_out x) q now\<rparr>"
  have step: "\<exists>s' ds'. under rm x0 ?x s' (ds @ ds') \<and> s_read s' = s_read s
      \<and> (x_closed x \<longrightarrow> ds' = [] \<and> x_closed ?x)" if s: "under rm x0 x s ds" for s ds
  proof -
    have "session_reach rm (session_start (b_channel (x_out x0)) (b_channel (x_in x0)))
        (s\<lparr>s_tx := on_proof rm (s_tx s) q now\<rparr>)"
      by (rule reach_prove[where t = t and q = q and now = now]) (use s ack in \<open>auto simp: under_def\<close>)
    with s show ?thesis
      by (intro exI[of _ "s\<lparr>s_tx := on_proof rm (s_tx s) q now\<rparr>"] exI[of _ "[]"])
        (simp add: under_def buffer_on_proof_def)
  qed
  show ?thesis by (rule sim_sender[OF sim turn step _ _ _ _ _ ok]) (simp_all add: buffer_on_proof_def)
qed

lemma sim_arrive:
  assumes ok: "stream_ready (x_out x0) (x_in x0)" "removal_law rm" and sim: "stream_sim bz rm x0 x"
    and turn: "stream_within_a_turn x"
    and net: "(t, e) \<in> x_net x" "x_delivered x + WINDOW_MAX \<le> t + HALF"
      and turn': "x_clobbered x \<or> clobbers (b_channel (x_in x)) e \<longrightarrow> x_sent x < SEQ_MODULUS"
    and h: "buffer_handle (x_in x) e = (inp, prove)"
  shows "stream_sim bz rm x0 (x\<lparr>x_in := inp, x_delivered := x_delivered x + delivered_since (x_in x) inp,
      x_acks := (if prove then insert (t, env_sequence e) (x_acks x) else x_acks x),
      x_clobbered := x_clobbered x \<or> clobbers (b_channel (x_in x)) e\<rparr>)"
proof -
  let ?x = "x\<lparr>x_in := inp, x_delivered := x_delivered x + delivered_since (x_in x) inp,
      x_acks := (if prove then insert (t, env_sequence e) (x_acks x) else x_acks x),
      x_clobbered := x_clobbered x \<or> clobbers (b_channel (x_in x)) e\<rparr>"
  obtain s ds where s: "under rm x0 x s ds" "delivered s = x_delivered x"
    "x_taken x @ unread (x_in x) = concat (map sf_data (take (length (s_read s))
       (stream_frames (b_send_stream_id (x_out x)) ds (x_closed x))))"
    "b_recv_eof (x_in x) \<longleftrightarrow> x_closed x \<and> length ds < length (s_read s)"
    using sim unfolding stream_sim_iff by blast
  have side: "buffer_inv (x_in x)" "b_receive_error (x_in x) = None" using sim by (simp_all add: stream_sim_def)
  from h side(2) have hd: "handle (b_channel (x_in x)) e = (b_channel inp, prove)"
    and inp: "inp = (x_in x)\<lparr>b_channel := b_channel inp\<rparr>"
    by (auto simp: buffer_handle_def split: prod.splits)
  have f: "unread inp = unread (x_in x)" "b_recv_eof inp = b_recv_eof (x_in x)"
    "buffer_inv inp = buffer_inv (x_in x)" "b_receive_error inp = b_receive_error (x_in x)"
    "b_recv_stream_id inp = b_recv_stream_id (x_in x)"
    by (subst inp, simp add: unread_def buffer_inv_def)+
  define s' where "s' = s\<lparr>s_rx := b_channel inp,
    s_acks := (if prove then insert (t, env_sequence e) (s_acks s) else s_acks s),
    s_clobbered := s_clobbered s \<or> clobbers (s_rx s) e\<rparr>"
  have "session_step rm s s'"
    unfolding s'_def
    by (rule session_step.arrive) (use s(1,2) net hd in \<open>auto simp: under_def\<close>)
  then have reach: "session_reach rm (session_start (b_channel (x_out x0)) (b_channel (x_in x0))) s'"
    using s(1) by (auto simp: under_def intro: reach_step)
  then have un: "under rm x0 ?x s' ds" using s(1) by (simp add: under_def s'_def)
  have fresh: "within_a_turn s" "within_a_turn s'"
    using s(1) turn turn' by (auto simp: under_def s'_def within_a_turn_def stream_within_a_turn_def)
  have inv: "session_inv s" "session_inv s'"
    using sim_inv(1)[OF ok _ fresh(1)] sim_inv(1)[OF ok reach fresh(2)] s(1) by (auto simp: under_def)
  have "delivered s' = x_delivered x + delivered_since (x_in x) inp"
    using delivered_advance[OF inv] rx_next_handle_mono[OF hd, of "s_read s"] s(1,2)
    by (simp add: s'_def delivered_def delivered_since_def under_def)
  with un s f show ?thesis
    unfolding stream_sim_iff using sim
    by (intro conjI exI[of _ s'] exI[of _ ds]) (auto simp: s'_def stream_sim_def)
qed

lemma stream_within_a_turn_step:
  "stream_step bz rm x x' \<Longrightarrow> stream_within_a_turn x' \<Longrightarrow> stream_within_a_turn x"
  by (erule stream_step.cases) (auto simp: stream_within_a_turn_def)

lemma stream_sim_step:
  assumes "stream_ready (x_out x0) (x_in x0)" "removal_law rm" "stream_sim bz rm x0 x"
    "stream_step bz rm x x'" "stream_within_a_turn x'"
  shows "stream_sim bz rm x0 x'"
proof -
  note turn = stream_within_a_turn_step[OF assms(4,5)]
  from assms(4) show ?thesis
  proof cases
    case (write_step bs out n)
    then show ?thesis using sim_write[OF assms(1-3) turn] by simp
  next
    case (finish_step out ok)
    then show ?thesis using sim_finish[OF assms(1-3) turn] by simp
  next
    case (transmit_step now out envs sent)
    then show ?thesis using sim_transmit[OF assms(1-3) turn] by simp
  next
    case (arrive_step t e inp prove)
    then have "x_clobbered x \<or> clobbers (b_channel (x_in x)) e \<longrightarrow> x_sent x < SEQ_MODULUS"
      using assms(5) by (simp add: stream_within_a_turn_def)
    with arrive_step show ?thesis using sim_arrive[OF assms(1-3) turn] by simp
  next
    case (take_step room inp bs)
    then show ?thesis using sim_take[OF assms(1-3) turn] by simp
  next
    case (prove_step t q now)
    then show ?thesis using sim_prove[OF assms(1-3) turn] by simp
  qed
qed

lemma stream_sim_reach:
  "stream_reach bz rm x0 x \<Longrightarrow> stream_ready (x_out x0) (x_in x0) \<Longrightarrow> removal_law rm \<Longrightarrow>
     stream_sim bz rm x0 x0 \<Longrightarrow> stream_within_a_turn x \<Longrightarrow> stream_sim bz rm x0 x"
  by (induction rule: stream_reach.induct) (blast intro: stream_sim_step stream_within_a_turn_step)+

lemma stream_run_sim:
  assumes "stream_reach bz rm (stream_start out inp) x" "stream_ready out inp" "removal_law rm"
    "stream_within_a_turn x"
  shows "stream_sim bz rm (stream_start out inp) x"
  by (rule stream_sim_reach[OF assms(1) _ assms(3) stream_sim_start[OF assms(2)] assms(4)])
    (simp add: stream_start_def assms(2))

section \<open>A run\<close>

definition demo_buffer :: buffer where
  "demo_buffer = with_streams 8 (with_params 4 4 4 STREAM_MSGTYPE 2 9) 16 0 0"

definition demo_written :: buffer where
  "demo_written = fst (finish (fst (buffer_write demo_buffer [5, 6])))"

definition demo_frame :: "nat \<Rightarrow> envelope" where
  "demo_frame n = message_env STREAM_MSGTYPE [[0, 0, 5, 6], [0x80, 0]] n"

definition demo_out :: buffer where
  "demo_out = fst (buffer_poll_transmit demo_written 0)"

definition demo_in :: buffer where
  "demo_in = fst (buffer_handle (fst (buffer_handle demo_buffer (demo_frame 0))) (demo_frame 1))"

definition demo_taken :: buffer where
  "demo_taken = fst (the (buffer_read None demo_in 8))"

lemmas demo_buffer_defs = demo_buffer_def with_streams_def with_params_def Let_def
  send_def im_insert_def im_contains_def window_consts channel_consts

lemma nat_be_numeral:
  "nat_be (numeral k) v = of_nat (v div 256 ^ pred_numeral k) # nat_be (pred_numeral k) v"
  by (simp add: numeral_eq_Suc)

lemma demo_stream_header:
  "stream_frame_encode (data_frame 0 [5, 6]) = [0, 0, 5, 6]"
  "stream_frame_encode (eof_frame 0) = [128, 0]"
  by (simp_all add: stream_frame_encode_def stream_header_def data_frame_def eof_frame_def
      channel_consts to_be_def nat_be_numeral)


lemma demo_queue: "fst (finish (fst (buffer_write demo_buffer [5, 6])))
   = demo_buffer\<lparr>b_channel := (b_channel demo_buffer)\<lparr>ch_outgoing := [[0, 0, 5, 6], [0x80, 0]]\<rparr>\<rparr>"
  "snd (buffer_write demo_buffer [5, 6]) = 2"
  "snd (finish (fst (buffer_write demo_buffer [5, 6])))"
  by (simp_all add: buffer_write_def demo_buffer_defs chunks.simps send_frame_def finish_def
      demo_stream_header[unfolded data_frame_def eof_frame_def])

lemmas demo_written_eq = demo_queue(1)[folded demo_written_def]

lemma demo_sent: "snd (buffer_poll_transmit demo_written 0) = [demo_frame 0, demo_frame 1]"
  "sent_since demo_written demo_out = 2"
  unfolding demo_out_def demo_written_eq
  by (simp_all add: sent_since_def demo_frame_def message_env_def
   buffer_poll_transmit_def poll_transmit_def oldest_outstanding_def update_deadlines_def set_deadline_def demo_buffer_defs)

lemma demo_arrives: "snd (buffer_handle demo_buffer (demo_frame 0))"
  "snd (buffer_handle (fst (buffer_handle demo_buffer (demo_frame 0))) (demo_frame 1))"
  "\<not> clobbers (b_channel demo_buffer) (demo_frame 0)"
  "\<not> clobbers (b_channel (fst (buffer_handle demo_buffer (demo_frame 0)))) (demo_frame 1)"
  "delivered_since demo_buffer (fst (buffer_handle demo_buffer (demo_frame 0))) = 1"
  "delivered_since (fst (buffer_handle demo_buffer (demo_frame 0))) demo_in = 1"
  "b_channel demo_in = (b_channel demo_buffer)\<lparr>ch_recv_next := 2, 
     ch_inbox := [(STREAM_MSGTYPE, [0, 0, 5, 6]), (STREAM_MSGTYPE, [0x80, 0])]\<rparr>"
  by (simp_all add: demo_frame_def message_env_def buffer_handle_def handle_def demo_buffer_defs pump.simps clobbers_def
    delivered_since_def demo_in_def)

lemma demo_takes: "buffer_read None demo_in 8 = Some (demo_taken, [5, 6])"
  "recv_finished None demo_taken = Some (demo_taken, True)"
  "delivered_since demo_in demo_taken = 0"
  by (simp_all add: demo_taken_def demo_in_def buffer_handle_def demo_frame_def message_env_def handle_def
      demo_buffer_defs pump.simps buffer_read_def fill_def fill_loop.simps recv_message_def
      accept_message_def stream_frame_decode_def slice_get_def of_be_def recv_finished_def
      delivered_since_def)

lemma demo_stream_ready: "stream_ready demo_buffer demo_buffer"
  by (simp add: stream_ready_def unused_def HALF_eq demo_buffer_defs)

definition demo_stream :: stream where
  "demo_stream = \<lparr>x_out = demo_out, x_in = demo_taken, x_accepted = [5, 6], x_taken = [5, 6],
     x_closed = True, x_sent = 2, x_delivered = 2, x_net = Pair 2 ` {demo_frame 0, demo_frame 1},
     x_acks = {(2, env_sequence (demo_frame 0)), (2, env_sequence (demo_frame 1))},
     x_clobbered = False\<rparr>"

lemma demo_stream_reach: "stream_reach None im_delete (stream_start demo_buffer demo_buffer) demo_stream"
proof -
  let ?R = "stream_reach None im_delete (stream_start demo_buffer demo_buffer)"
  let ?w = "fst (buffer_write demo_buffer [5, 6])" and ?net = "Pair 2 ` {demo_frame 0, demo_frame 1}"
  let ?in1 = "fst (buffer_handle demo_buffer (demo_frame 0))"
  let ?q0 = "env_sequence (demo_frame 0)" and ?q1 = "env_sequence (demo_frame 1)"
  have "?R (stream_start demo_buffer demo_buffer)" by (rule stream_reach_start)
  then have "?R \<lparr>x_out = ?w, x_in = demo_buffer, x_accepted = [5, 6], x_taken = [], x_closed = False,
      x_sent = 0, x_delivered = 0, x_net = {}, x_acks = {}, x_clobbered = False\<rparr>"
    by (rule stream_reach_step)
      (use stream_step.write_step[of "stream_start demo_buffer demo_buffer" "[5, 6]" ?w 2] in
        \<open>simp add: stream_start_def prod_eq_iff demo_queue(2)\<close>)
  then have "?R \<lparr>x_out = demo_written, x_in = demo_buffer, x_accepted = [5, 6], x_taken = [],
      x_closed = True, x_sent = 0, x_delivered = 0, x_net = {}, x_acks = {}, x_clobbered = False\<rparr>" (is "stream_reach _ _ _ ?xb")
    by (rule stream_reach_step)
      (use stream_step.finish_step[of "?xb\<lparr>x_out := ?w, x_closed := False\<rparr>" demo_written True] in
        \<open>simp add: prod_eq_iff demo_queue(3) demo_written_def\<close>)
  then have "?R \<lparr>x_out = demo_out, x_in = demo_buffer, x_accepted = [5, 6], x_taken = [],
      x_closed = True, x_sent = 2, x_delivered = 0, x_net = ?net, x_acks = {}, x_clobbered = False\<rparr>" (is "stream_reach _ _ _ ?xc")
    by (rule stream_reach_step)
      (use stream_step.transmit_step[of ?xb 0 demo_out "[demo_frame 0, demo_frame 1]" 2] in
        \<open>simp add: prod_eq_iff demo_sent flip: demo_out_def\<close>)
  then have "?R (?xc\<lparr>x_in := ?in1, x_delivered := 1, x_acks := {(2, ?q0)}\<rparr>)" (is "stream_reach _ _ _ ?xd")
    by (rule stream_reach_step)
      (use stream_step.arrive_step[of 2 "demo_frame 0" ?xc ?in1 True] demo_arrives(5) in
        \<open>simp add: prod_eq_iff demo_arrives(1,3) HALF_eq window_consts\<close>)
  then have "?R (?xd\<lparr>x_in := demo_in, x_delivered := 2, x_acks := {(2, ?q0), (2, ?q1)}\<rparr>)" (is "stream_reach _ _ _ ?xe")
    by (rule stream_reach_step)
      (use stream_step.arrive_step[of 2 "demo_frame 1" ?xd demo_in True] demo_arrives(6) in
        \<open>simp del: One_nat_def add: prod_eq_iff demo_arrives(2,4) HALF_eq window_consts insert_commute
          flip: demo_in_def\<close>)
  then show ?thesis
    by (rule stream_reach_step)
      (use stream_step.take_step[of None ?xe 8 demo_taken "[5, 6]"] in
        \<open>simp add: demo_takes demo_stream_def\<close>)
qed

lemma demo_stream_turn: "stream_within_a_turn demo_stream"
  by (simp add: stream_within_a_turn_def demo_stream_def)

section \<open>The stream\<close>

text \<open>
  C2: the stream is reliable. Over a network that loses, duplicates, delays and reorders
  packets, the bytes the reader has taken are always a prefix of the bytes the writer accepted,
  and taking bytes never fails. As in C1, a packet arrives less than half the sequence space
  late, and either fewer than 65,536 frames were sent or no copy arrived in the gap that
  \<open>clobbers\<close> describes.
\<close>

theorem stream_takes_prefix:
  assumes "stream_reach bz rm (stream_start out inp) x" "stream_ready out inp" "removal_law rm"
    "stream_within_a_turn x"
  shows "x_taken x = take (length (x_taken x)) (x_accepted x)
    \<and> (\<exists>inp' bs. buffer_read bz (x_in x) room = Some (inp', bs))"
proof -
  note sim = stream_run_sim[OF assms]
  obtain s ds where s: "under rm (stream_start out inp) x s ds"
    "x_taken x @ unread (x_in x) = concat (map sf_data (take (length (s_read s))
       (stream_frames (b_send_stream_id (x_out x)) ds (x_closed x))))"
    using sim unfolding stream_sim_iff by blast
  let ?fs = "stream_frames (b_send_stream_id (x_out x)) ds (x_closed x)"
  have "x_accepted x = concat (map sf_data (take (length (s_read s)) ?fs))
      @ concat (map sf_data (drop (length (s_read s)) ?fs))"
    using s(1) stream_frames_data[of "b_send_stream_id (x_out x)" ds "x_closed x"]
    by (metis append_take_drop_id concat_append map_append under_def)
  then have "x_accepted x = x_taken x @ unread (x_in x)
      @ concat (map sf_data (drop (length (s_read s)) ?fs))"
    using s(2) by simp
  moreover have "buffer_inv (x_in x)" "b_receive_error (x_in x) = None"
    using sim by (simp_all add: stream_sim_def)
  then have "\<exists>b. fill bz (x_in x) = Some b" using fill_loop_result[of "x_in x" bz] by (auto simp: fill_def)
  ultimately show ?thesis by (auto simp: buffer_read_def Let_def)
qed

theorem stream_takes_prefix_witness:
  "x_taken demo_stream = take (length (x_taken demo_stream)) (x_accepted demo_stream)"
  using stream_takes_prefix[OF demo_stream_reach demo_stream_ready removal_law_im_delete demo_stream_turn] by blast

text \<open>
  C26: when the reader reports the end of the stream, it has taken every byte the writer ever
  accepted: the end is never reported early and nothing in between is missing, on the same runs
  as C2.
\<close>

theorem stream_end_complete:
  assumes "stream_reach bz rm (stream_start out inp) x" "stream_ready out inp" "removal_law rm"
    "stream_within_a_turn x"
    and fin': "recv_finished bz (x_in x) = Some (inp', True)"
  shows "x_closed x \<and> x_taken x = x_accepted x"
proof -
  let ?x0 = "stream_start out inp"
  have ok: "stream_ready (x_out ?x0) (x_in ?x0)" using assms(2) by (simp add: stream_start_def)
  from fin' have fin: "fill bz (x_in x) = Some inp'" "b_recv_eof inp'" "b_read_buf inp' = []"
    "b_pending_frame inp' = None"
    by (auto simp: recv_finished_def)
  then have "buffer_read bz (x_in x) 0 = Some (inp', [])"
    by (auto simp: buffer_read_def Let_def)
  from sim_take[OF ok assms(3) stream_run_sim[OF assms(1-4)] assms(4) this] obtain s ds where
    s: "under rm ?x0 (x\<lparr>x_in := inp', x_taken := x_taken x @ [],
        x_delivered := x_delivered x + delivered_since (x_in x) inp'\<rparr>) s ds"
    "x_taken x @ unread inp' = concat (map sf_data (take (length (s_read s))
       (stream_frames (b_send_stream_id (x_out x)) ds (x_closed x))))"
    "b_recv_eof inp' \<longleftrightarrow> x_closed x \<and> length ds < length (s_read s)"
    unfolding stream_sim_iff by auto
  have "length (stream_frames (b_send_stream_id (x_out x)) ds (x_closed x)) \<le> length (s_read s)"
    using s(3) fin(2) by (simp add: stream_frames_def)
  then have "x_taken x @ unread inp' = concat ds" using s(2) stream_frames_data by simp
  then show ?thesis using s fin by (simp add: unread_def under_def)
qed

theorem stream_end_complete_witness:
  "x_closed demo_stream \<and> x_taken demo_stream = x_accepted demo_stream"
  using stream_end_complete[OF demo_stream_reach demo_stream_ready removal_law_im_delete demo_stream_turn, of demo_taken]
  by (simp add: demo_stream_def demo_takes(2))
end
