(* ===== verification/LinkLiveness.thy ===== *)
theory LinkLiveness
  imports Interfaces
begin

text \<open>
  Link liveness, \<open>crates/retinue/src/link_liveness.rs\<close>: the keepalive, staleness and handshake
  timers of one link. Times are milliseconds in \<open>u64\<close>, so the sums that the code saturates
  saturate here. \<open>read_rtt\<close> and \<open>rtt_seconds\<close> convert floating-point numbers and are not
  modelled.
\<close>

section \<open>Constants\<close>

definition KEEPALIVE_MIN :: nat where "KEEPALIVE_MIN = 5000"
definition KEEPALIVE_MAX :: nat where "KEEPALIVE_MAX = 360000"
definition KEEPALIVE_MAX_RTT :: nat where "KEEPALIVE_MAX_RTT = 1750"
definition STALE_FACTOR :: nat where "STALE_FACTOR = 2"
definition KEEPALIVE_TIMEOUT_FACTOR :: nat where "KEEPALIVE_TIMEOUT_FACTOR = 4"
definition STALE_GRACE :: nat where "STALE_GRACE = 5000"
definition LINK_ESTABLISHMENT_TIMEOUT_PER_HOP :: nat where
  "LINK_ESTABLISHMENT_TIMEOUT_PER_HOP = 6000"
definition KEEPALIVE_REQUEST :: u8 where "KEEPALIVE_REQUEST = 0xFF"
definition KEEPALIVE_RESPONSE :: u8 where "KEEPALIVE_RESPONSE = 0xFE"

named_theorems liveness_consts \<open>constants of link liveness\<close>

lemmas [liveness_consts] = KEEPALIVE_MIN_def KEEPALIVE_MAX_def KEEPALIVE_MAX_RTT_def
  STALE_FACTOR_def KEEPALIVE_TIMEOUT_FACTOR_def STALE_GRACE_def
  LINK_ESTABLISHMENT_TIMEOUT_PER_HOP_def KEEPALIVE_REQUEST_def KEEPALIVE_RESPONSE_def

definition keepalive_interval :: "nat \<Rightarrow> nat" where
  "keepalive_interval rtt =
    (let interval = sat_mul u64_max rtt KEEPALIVE_MAX div KEEPALIVE_MAX_RTT in
     if interval < KEEPALIVE_MIN then KEEPALIVE_MIN
     else if KEEPALIVE_MAX < interval then KEEPALIVE_MAX
     else interval)"

definition handshake_timeout :: "u8 \<Rightarrow> nat" where
  "handshake_timeout hops = LINK_ESTABLISHMENT_TIMEOUT_PER_HOP * (unat hops + 1) + KEEPALIVE_MAX"

section \<open>State\<close>

datatype due = Keepalive | Teardown | HandshakeTimeout

datatype link_state = Handshake nat nat | Active | Stale nat

record liveness =
  l_initiator :: bool
  l_state :: link_state
  l_rtt :: "nat option"
  l_keepalive :: nat
  l_last_inbound :: nat
  l_last_outbound :: nat
  l_last_keepalive :: nat

definition initiator :: "nat \<Rightarrow> nat \<Rightarrow> liveness" where
  "initiator rtt now = \<lparr>l_initiator = True, l_state = Active, l_rtt = Some rtt,
     l_keepalive = keepalive_interval rtt, l_last_inbound = now, l_last_outbound = now,
     l_last_keepalive = now\<rparr>"

definition responder :: "nat \<Rightarrow> u8 \<Rightarrow> liveness" where
  "responder now hops = \<lparr>l_initiator = False,
     l_state = Handshake now (sat_add u64_max now (handshake_timeout hops)), l_rtt = None,
     l_keepalive = KEEPALIVE_MAX, l_last_inbound = now, l_last_outbound = now,
     l_last_keepalive = now\<rparr>"

definition is_stale :: "liveness \<Rightarrow> bool" where
  "is_stale l \<longleftrightarrow> (case l_state l of Stale _ \<Rightarrow> True | _ \<Rightarrow> False)"

definition teardown_at :: "liveness \<Rightarrow> nat option" where
  "teardown_at l = (case l_state l of Handshake _ d \<Rightarrow> Some d | Stale c \<Rightarrow> Some c | Active \<Rightarrow> None)"

section \<open>Events\<close>

definition on_inbound :: "liveness \<Rightarrow> nat \<Rightarrow> liveness" where
  "on_inbound l now =
    (let l = l\<lparr>l_last_inbound := max (l_last_inbound l) now\<rparr>
     in if is_stale l then l\<lparr>l_state := Active\<rparr> else l)"

definition on_outbound :: "liveness \<Rightarrow> nat \<Rightarrow> liveness" where
  "on_outbound l now = l\<lparr>l_last_outbound := max (l_last_outbound l) now\<rparr>"

definition on_rtt :: "liveness \<Rightarrow> nat \<Rightarrow> nat \<Rightarrow> liveness" where
  "on_rtt l reported now =
    (if l_initiator l then l
     else
       let measured = (case l_state l of Handshake since _ \<Rightarrow> now - since | _ \<Rightarrow> 0);
           rtt = max measured reported
       in l\<lparr>l_rtt := Some rtt, l_keepalive := keepalive_interval rtt, l_state := Active,
            l_last_inbound := max (l_last_inbound l) now\<rparr>)"

definition on_keepalive :: "liveness \<Rightarrow> bytes \<Rightarrow> nat \<Rightarrow> liveness \<times> bool" where
  "on_keepalive l payload now =
    (if l_initiator l \<and> payload = [KEEPALIVE_RESPONSE] then (on_inbound l now, False)
     else if \<not> l_initiator l \<and> payload = [KEEPALIVE_REQUEST] then
       let l = on_inbound l now in
       if sat_add u64_max (l_last_outbound l) (l_keepalive l) \<le> now
       then (l\<lparr>l_last_outbound := now, l_last_keepalive := now\<rparr>, True)
       else (l, False)
     else (l, False))"

section \<open>Timers\<close>

definition next_due :: "liveness \<Rightarrow> nat" where
  "next_due l =
    (case l_state l of
       Handshake _ d \<Rightarrow> d
     | Stale c \<Rightarrow> c
     | Active \<Rightarrow>
         let interval = l_keepalive l;
             stale = sat_add u64_max (l_last_inbound l) (sat_mul u64_max interval STALE_FACTOR)
         in if \<not> l_initiator l then stale
            else
              let quiet = sat_add u64_max (min (l_last_inbound l) (l_last_outbound l)) interval;
                  keepalive = max (sat_add u64_max (l_last_keepalive l) interval) quiet
              in min keepalive stale)"

definition poll :: "liveness \<Rightarrow> nat \<Rightarrow> liveness \<times> due option" where
  "poll l now =
    (case l_state l of
       Handshake _ d \<Rightarrow> (l, if d \<le> now then Some HandshakeTimeout else None)
     | Stale c \<Rightarrow> (l, if c \<le> now then Some Teardown else None)
     | Active \<Rightarrow>
         let interval = l_keepalive l;
             quiet_in = (sat_add u64_max (l_last_inbound l) interval \<le> now);
             quiet_out = (sat_add u64_max (l_last_outbound l) interval \<le> now)
         in if \<not> quiet_in \<and> \<not> quiet_out then (l, None)
            else
              let (l, due) =
                    (if l_initiator l \<and> sat_add u64_max (l_last_keepalive l) interval \<le> now
                     then (l\<lparr>l_last_keepalive := now, l_last_outbound := now\<rparr>, Some Keepalive)
                     else (l, None));
                  l = (if sat_add u64_max (l_last_inbound l) (interval * STALE_FACTOR) \<le> now
                       then l\<lparr>l_state := Stale (sat_add u64_max now
                         (sat_add u64_max (sat_mul u64_max
                            (case l_rtt l of None \<Rightarrow> 0 | Some rtt \<Rightarrow> rtt) KEEPALIVE_TIMEOUT_FACTOR)
                            STALE_GRACE))\<rparr>
                       else l)
              in (l, due))"

section \<open>Invariant\<close>

definition stale_grace :: "liveness \<Rightarrow> nat" where
  "stale_grace l = sat_add u64_max (sat_mul u64_max
     (case l_rtt l of None \<Rightarrow> 0 | Some rtt \<Rightarrow> rtt) KEEPALIVE_TIMEOUT_FACTOR) STALE_GRACE"

definition liveness_inv :: "liveness \<Rightarrow> bool" where
  "liveness_inv l \<longleftrightarrow> KEEPALIVE_MIN \<le> l_keepalive l \<and> l_keepalive l \<le> KEEPALIVE_MAX
     \<and> (\<forall>c. l_state l = Stale c \<longrightarrow>
          sat_add u64_max (l_last_inbound l) (l_keepalive l * STALE_FACTOR + stale_grace l) \<le> c)"

lemma keepalive_interval_bounds:
  "KEEPALIVE_MIN \<le> keepalive_interval rtt" "keepalive_interval rtt \<le> KEEPALIVE_MAX"
  by (simp_all add: keepalive_interval_def Let_def liveness_consts)

lemma liveness_inv_new: "liveness_inv (initiator rtt now)" "liveness_inv (responder now hops)"
  by (auto simp: liveness_inv_def initiator_def responder_def keepalive_interval_bounds)
    (simp_all add: liveness_consts)

lemma inv_on_inbound: "liveness_inv l \<Longrightarrow> liveness_inv (on_inbound l now)"
  by (auto simp: liveness_inv_def on_inbound_def Let_def is_stale_def split: link_state.splits)

lemma inv_on_outbound: "liveness_inv l \<Longrightarrow> liveness_inv (on_outbound l now)"
  by (simp add: liveness_inv_def on_outbound_def stale_grace_def)

lemma inv_on_rtt: "liveness_inv l \<Longrightarrow> liveness_inv (on_rtt l reported now)"
  by (simp add: liveness_inv_def on_rtt_def Let_def keepalive_interval_bounds)

lemma inv_on_keepalive: "liveness_inv l \<Longrightarrow> liveness_inv (fst (on_keepalive l payload now))"
  using inv_on_inbound[of l now]
  by (auto simp: on_keepalive_def Let_def liveness_inv_def stale_grace_def)

lemma poll_frame [simp]:
  "l_keepalive (fst (poll l now)) = l_keepalive l" "l_rtt (fst (poll l now)) = l_rtt l"
  "l_last_inbound (fst (poll l now)) = l_last_inbound l"
  "l_initiator (fst (poll l now)) = l_initiator l"
  by (simp_all add: poll_def Let_def split: link_state.split)

lemma poll_state:
  "l_state (fst (poll l now)) =
     (if l_state l = Active \<and> (sat_add u64_max (l_last_inbound l) (l_keepalive l) \<le> now
           \<or> sat_add u64_max (l_last_outbound l) (l_keepalive l) \<le> now)
         \<and> sat_add u64_max (l_last_inbound l) (l_keepalive l * STALE_FACTOR) \<le> now
      then Stale (sat_add u64_max now (stale_grace l)) else l_state l)"
  by (simp add: poll_def Let_def stale_grace_def split: link_state.split)

lemma sat_add_chain:
  "sat_add m a b \<le> now \<Longrightarrow> sat_add m a (b + g) \<le> sat_add m now g"
  by (simp add: sat_add_def min_def split: if_splits)

lemma inv_poll: "liveness_inv l \<Longrightarrow> liveness_inv (fst (poll l now))"
  using sat_add_chain[of u64_max "l_last_inbound l" "l_keepalive l * STALE_FACTOR" now "stale_grace l"]
  unfolding liveness_inv_def poll_frame poll_state
  by (auto simp: stale_grace_def)

datatype liveness_op =
    Inbound nat | Outbound nat | Rtt nat nat | KeepaliveIn bytes nat | PollAt nat

fun liveness_run :: "liveness \<Rightarrow> liveness_op \<Rightarrow> liveness" where
  "liveness_run l (Inbound now) = on_inbound l now"
| "liveness_run l (Outbound now) = on_outbound l now"
| "liveness_run l (Rtt reported now) = on_rtt l reported now"
| "liveness_run l (KeepaliveIn payload now) = fst (on_keepalive l payload now)"
| "liveness_run l (PollAt now) = fst (poll l now)"

interpretation liveness_ops: guarded_ops liveness_run liveness_inv
proof unfold_locales
  show "liveness_inv l \<Longrightarrow> liveness_inv (liveness_run l op)" for l op
    by (cases op) (simp_all add: inv_on_inbound inv_on_outbound inv_on_rtt inv_on_keepalive inv_poll)
qed

section \<open>When a poll acts\<close>

lemma interval_twice:
  "liveness_inv l \<Longrightarrow> sat_mul u64_max (l_keepalive l) STALE_FACTOR = l_keepalive l * STALE_FACTOR"
  by (simp add: liveness_inv_def sat_mul_def liveness_consts u64_max_def)

lemma sat_add_min: "sat_add m (min a b) c \<le> now \<longleftrightarrow> sat_add m a c \<le> now \<or> sat_add m b c \<le> now"
  by (auto simp: sat_add_def min_def)

lemma sat_add_weaken: "sat_add m a b \<le> now \<Longrightarrow> c \<le> b \<Longrightarrow> sat_add m a c \<le> now"
  using sat_add_mono[of a a c b m] by simp

lemma poll_acts_iff:
  assumes "liveness_inv l"
  shows "poll l now \<noteq> (l, None) \<longleftrightarrow> next_due l \<le> now"
proof (cases "l_state l")
  case Active
  let ?I = "l_keepalive l"
  have quiet: "sat_add u64_max (l_last_inbound l) (?I * STALE_FACTOR) \<le> now \<Longrightarrow>
      sat_add u64_max (l_last_inbound l) ?I \<le> now"
    by (erule sat_add_weaken) (simp add: liveness_consts)
  have "next_due l \<le> now \<longleftrightarrow> sat_add u64_max (l_last_inbound l) (?I * STALE_FACTOR) \<le> now
      \<or> l_initiator l \<and> sat_add u64_max (l_last_keepalive l) ?I \<le> now
        \<and> (sat_add u64_max (l_last_inbound l) ?I \<le> now \<or> sat_add u64_max (l_last_outbound l) ?I \<le> now)"
    using Active interval_twice[OF assms] by (auto simp: next_due_def Let_def sat_add_min min_le_iff_disj)
  moreover have "poll l now \<noteq> (l, None) \<longleftrightarrow> (sat_add u64_max (l_last_inbound l) ?I \<le> now
        \<or> sat_add u64_max (l_last_outbound l) ?I \<le> now)
      \<and> (l_initiator l \<and> sat_add u64_max (l_last_keepalive l) ?I \<le> now
        \<or> sat_add u64_max (l_last_inbound l) (?I * STALE_FACTOR) \<le> now)"
  proof -
    have "poll l now \<noteq> (l, None)" if "l_state (fst (poll l now)) \<noteq> l_state l" using that by auto
    then show ?thesis
      using Active quiet
      by (auto simp: poll_def Let_def split: if_splits dest!: arg_cong[of _ _ l_state])
  qed
  ultimately show ?thesis using quiet by blast
qed (simp_all add: poll_def next_due_def)

lemma grace_positive: "STALE_GRACE \<le> stale_grace l"
  by (simp add: stale_grace_def sat_add_def liveness_consts u64_max_def)

lemma poll_settles:
  assumes inv: "liveness_inv l" and poll: "poll l now = (l', due)" and now: "now < u64_max"
    and keep: "due \<noteq> Some Teardown" "due \<noteq> Some HandshakeTimeout"
  shows "now < next_due l'"
proof (cases "l_state l")
  case Active
  let ?I = "l_keepalive l"
  have I: "0 < ?I" using inv by (simp add: liveness_inv_def liveness_consts)
  have l': "l' = fst (poll l now)" using poll by simp
  show ?thesis
  proof (cases "poll l now = (l, None)")
    case True
    then show ?thesis using poll_acts_iff[OF inv, of now] poll by simp
  next
    case acted: False
    show ?thesis
    proof (cases "l_state l' = Active")
      case False
      then have "l_state l' = Stale (sat_add u64_max now (stale_grace l))"
        using Active poll_state[of l now] by (simp add: l' split: if_splits)
      then show ?thesis
        using now grace_positive[of l] by (simp add: next_due_def sat_add_def liveness_consts)
    next
      case True
      have live: "now < sat_add u64_max (l_last_inbound l) (?I * STALE_FACTOR)"
        using acted True Active unfolding l'
        by (auto simp: poll_def Let_def not_le split: if_splits)
      have "l_last_keepalive l' = now" "l_initiator l'"
        using acted True Active live unfolding l' by (auto simp: poll_def Let_def split: if_splits)
      then show ?thesis
        using True live now I interval_twice[OF inv]
        by (simp add: next_due_def Let_def l') (simp add: sat_add_def max_def min_def)
    qed
  qed
qed (use poll keep in \<open>auto simp: poll_def next_due_def split: if_splits\<close>)


section \<open>When keepalives are sent\<close>

fun keepalives :: "liveness \<Rightarrow> liveness_op list \<Rightarrow> nat list" where
  "keepalives l [] = []"
| "keepalives l (op # ops) =
     (case op of PollAt now \<Rightarrow> if snd (poll l now) = Some Keepalive then [now] else [] | _ \<Rightarrow> [])
       @ keepalives (liveness_run l op) ops"

fun spaced :: "nat \<Rightarrow> nat \<Rightarrow> nat list \<Rightarrow> bool" where
  "spaced gap prev [] = True"
| "spaced gap prev (t # ts) \<longleftrightarrow> sat_add u64_max prev gap \<le> t \<and> spaced gap t ts"

lemma initiator_run:
  assumes "l_initiator l"
  shows "l_initiator (liveness_run l op)" "l_keepalive (liveness_run l op) = l_keepalive l"
    "l_last_keepalive (liveness_run l op) = (case op of PollAt now \<Rightarrow>
       if snd (poll l now) = Some Keepalive then now else l_last_keepalive l | _ \<Rightarrow> l_last_keepalive l)"
  using assms
  by (cases op; simp add: on_inbound_def on_outbound_def on_rtt_def on_keepalive_def Let_def;
      simp add: poll_def Let_def split: link_state.split)+

lemma keepalive_due:
  "snd (poll l now) = Some Keepalive \<Longrightarrow>
     l_initiator l \<and> sat_add u64_max (l_last_keepalive l) (l_keepalive l) \<le> now"
  by (auto simp: poll_def Let_def split: link_state.splits if_splits)

lemma keepalives_spaced:
  "l_initiator l \<Longrightarrow> spaced (l_keepalive l) (l_last_keepalive l) (keepalives l ops)"
proof (induction ops arbitrary: l)
  case (Cons op ops)
  from Cons(1)[OF initiator_run(1)[OF Cons(2), of op]] show ?case
    using initiator_run(2,3)[OF Cons(2), of op] keepalive_due[of l]
    by (auto split: liveness_op.splits if_splits)
qed simp

lemma responder_run: "\<not> l_initiator l \<Longrightarrow> \<not> l_initiator (liveness_run l op)"
  by (cases op) (auto simp: on_inbound_def on_outbound_def on_rtt_def on_keepalive_def Let_def)

lemma keepalives_responder: "\<not> l_initiator l \<Longrightarrow> keepalives l ops = []"
proof (induction ops arbitrary: l)
  case (Cons op ops)
  then show ?case
    using responder_run[of l op] keepalive_due[of l] by (auto split: liveness_op.splits)
qed simp

section \<open>Properties\<close>

text \<open>
  C20: \<open>next_due\<close> is exact: after any calls on a link, a poll does nothing before that time and
  does something (a keepalive, going stale, or a teardown) at it or later.
\<close>

theorem liveness_due_exact:
  "(poll (foldl liveness_run (initiator rtt t) ops) now \<noteq> (foldl liveness_run (initiator rtt t) ops, None)
     \<longleftrightarrow> next_due (foldl liveness_run (initiator rtt t) ops) \<le> now)
   \<and> (poll (foldl liveness_run (responder t hops) ops) now \<noteq> (foldl liveness_run (responder t hops) ops, None)
     \<longleftrightarrow> next_due (foldl liveness_run (responder t hops) ops) \<le> now)"
  by (intro conjI poll_acts_iff liveness_ops.run_inv liveness_inv_new)

text \<open>
  C36: a shell that sleeps until \<open>next_due\<close> does not spin: after a poll that keeps the link, the
  next due time is in the future.
\<close>

theorem liveness_poll_settles:
  assumes "liveness_inv l" "poll l now = (l', due)" "now < u64_max"
    "due \<noteq> Some Teardown" "due \<noteq> Some HandshakeTimeout"
  shows "now < next_due l'"
  using assms by (rule poll_settles)

theorem liveness_poll_settles_witness:
  "5000 < next_due (fst (poll (initiator 20 0) 5000))
   \<and> snd (poll (initiator 20 0) 5000) = Some Keepalive"
proof -
  have k: "snd (poll (initiator 20 0) 5000) = Some Keepalive"
    by (simp add: poll_def initiator_def keepalive_interval_def int_defs liveness_consts)
  with liveness_poll_settles[OF liveness_inv_new(1)[of 20 0],
      of 5000 "fst (poll (initiator 20 0) 5000)" "Some Keepalive"]
  show ?thesis by (simp add: prod_eq_iff u64_max_def)
qed

text \<open>
  A link is torn down as dead only after two keepalive intervals, four round trips and five
  seconds without anything heard from the peer, whatever was sent and however often it was
  polled in between.
\<close>

theorem liveness_teardown_after_silence:
  assumes "l = foldl liveness_run l0 ops" "l0 = initiator rtt t \<or> l0 = responder t hops"
    "snd (poll l now) = Some Teardown"
  shows "sat_add u64_max (l_last_inbound l) (2 * l_keepalive l + sat_add u64_max
    (sat_mul u64_max (case l_rtt l of None \<Rightarrow> 0 | Some r \<Rightarrow> r) 4) 5000) \<le> now"
proof -
  have "liveness_inv l"
    using assms(2) unfolding assms(1) by (auto intro: liveness_ops.run_inv liveness_inv_new)
  moreover obtain c where "l_state l = Stale c" "c \<le> now"
    using assms(3) by (auto simp: poll_def Let_def split: link_state.splits if_splits)
  ultimately show ?thesis
    by (fastforce simp: liveness_inv_def stale_grace_def liveness_consts mult.commute)
qed

theorem liveness_teardown_after_silence_witness:
  "sat_add u64_max (l_last_inbound (foldl liveness_run (initiator 20 0) [PollAt 10000]))
     (2 * l_keepalive (foldl liveness_run (initiator 20 0) [PollAt 10000])
      + sat_add u64_max (sat_mul u64_max (case l_rtt (foldl liveness_run (initiator 20 0) [PollAt 10000])
          of None \<Rightarrow> 0 | Some r \<Rightarrow> r) 4) 5000) \<le> 15080"
  by (rule liveness_teardown_after_silence[OF HOL.refl disjI1[OF HOL.refl]])
    (simp add: poll_def initiator_def keepalive_interval_def int_defs liveness_consts)

text \<open>
  An initiator sends keepalive requests at least one keepalive interval apart, through any
  sequence of events, and a responder never sends one.
\<close>

theorem keepalive_spacing:
  "spaced (keepalive_interval rtt) t (keepalives (initiator rtt t) ops)
   \<and> keepalives (responder t hops) ops = []"
  using keepalives_spaced[of "initiator rtt t" ops] keepalives_responder[of "responder t hops" ops]
  by (simp add: initiator_def responder_def)

end
