(* ===== verification/Hdlc.thy ===== *)
theory Hdlc
  imports Packets
begin

text \<open>
  HDLC framing, \<open>crates/retinue/src/iface/hdlc.rs\<close>. The loop of \<open>Deframer::push\<close> over a chunk
  is \<open>feed_bytes\<close> of its body \<open>hdlc_byte\<close>, so how a stream is cut into chunks does not matter by
  \<open>feed_bytes_append\<close>.
\<close>

definition FLAG :: u8 where "FLAG = 0x7E"
definition ESC :: u8 where "ESC = 0x7D"
definition ESC_MASK :: u8 where "ESC_MASK = 0x20"
definition IFAC_MAX_SIZE :: nat where "IFAC_MAX_SIZE = 64"
definition MAX_FRAME :: nat where "MAX_FRAME = MTU + IFAC_MAX_SIZE"

lemmas hdlc_consts = FLAG_def ESC_def ESC_MASK_def IFAC_MAX_SIZE_def MAX_FRAME_def

fun hdlc_escape :: "bytes \<Rightarrow> bytes" where
  "hdlc_escape [] = []"
| "hdlc_escape (b # bs) =
     (if b = FLAG \<or> b = ESC then ESC # (b XOR ESC_MASK) # hdlc_escape bs else b # hdlc_escape bs)"

definition hdlc_frame :: "bytes \<Rightarrow> bytes" where
  "hdlc_frame packet = FLAG # hdlc_escape packet @ [FLAG]"

record deframer =
  d_buf :: bytes
  d_limit :: nat
  d_in_frame :: bool
  d_escaped :: bool

definition hdlc_with_limit :: "nat \<Rightarrow> deframer" where
  "hdlc_with_limit limit = \<lparr>d_buf = [], d_limit = limit, d_in_frame = False, d_escaped = False\<rparr>"

definition hdlc_new :: deframer where
  "hdlc_new = hdlc_with_limit MAX_FRAME"

definition hdlc_byte :: "deframer \<Rightarrow> u8 \<Rightarrow> deframer \<times> bytes option" where
  "hdlc_byte d b =
    (if b = FLAG then
       (d\<lparr>d_buf := [], d_in_frame := True, d_escaped := False\<rparr>,
        if d_in_frame d \<and> d_buf d \<noteq> [] then Some (d_buf d) else None)
     else if \<not> d_in_frame d then (d, None)
     else
       let d = (if d_escaped d then d\<lparr>d_buf := d_buf d @ [b XOR ESC_MASK], d_escaped := False\<rparr>
                else if b = ESC then d\<lparr>d_escaped := True\<rparr>
                else d\<lparr>d_buf := d_buf d @ [b]\<rparr>)
       in (if d_limit d < length (d_buf d) then d\<lparr>d_buf := [], d_in_frame := False\<rparr> else d, None))"

definition hdlc_push :: "deframer \<Rightarrow> bytes \<Rightarrow> deframer \<times> bytes list" where
  "hdlc_push d chunk = feed_bytes hdlc_byte d chunk"

section \<open>Framing\<close>

lemma xor_mask: "(b XOR ESC_MASK) XOR ESC_MASK = b"
  by (simp add: xor.assoc)

lemma FLAG_ESC [simp]: "FLAG \<noteq> ESC" "ESC \<noteq> FLAG"
  by (simp_all add: hdlc_consts)

lemma escaped_not_special:
  "b = FLAG \<or> b = ESC \<Longrightarrow> b XOR ESC_MASK \<noteq> FLAG \<and> b XOR ESC_MASK \<noteq> ESC"
  by (auto simp: hdlc_consts)

lemma escaped_False: "\<not> d_escaped d \<Longrightarrow> d\<lparr>d_buf := x, d_escaped := False\<rparr> = d\<lparr>d_buf := x\<rparr>"
  by (cases d) simp

lemma hdlc_byte_plain:
  "d_in_frame d \<Longrightarrow> \<not> d_escaped d \<Longrightarrow> length (d_buf d) < d_limit d \<Longrightarrow> b \<noteq> FLAG \<Longrightarrow> b \<noteq> ESC \<Longrightarrow>
     hdlc_byte d b = (d\<lparr>d_buf := d_buf d @ [b]\<rparr>, None)"
  by (simp add: hdlc_byte_def Let_def)

lemma hdlc_bytes_escaped:
  assumes "d_in_frame d" "\<not> d_escaped d" "length (d_buf d) < d_limit d" "b = FLAG \<or> b = ESC"
  shows "feed_bytes hdlc_byte d (ESC # (b XOR ESC_MASK) # bs)
    = feed_bytes hdlc_byte (d\<lparr>d_buf := d_buf d @ [b]\<rparr>) bs"
proof -
  have "hdlc_byte d ESC = (d\<lparr>d_escaped := True\<rparr>, None)"
    using assms by (simp add: hdlc_byte_def Let_def)
  moreover have "hdlc_byte (d\<lparr>d_escaped := True\<rparr>) (b XOR ESC_MASK) = (d\<lparr>d_buf := d_buf d @ [b]\<rparr>, None)"
    using assms escaped_not_special[OF assms(4)]
    by (simp add: hdlc_byte_def Let_def xor_mask escaped_False[OF assms(2)])
  ultimately show ?thesis by (simp add: Let_def split: prod.split)
qed

lemma hdlc_body:
  "d_in_frame d \<Longrightarrow> \<not> d_escaped d \<Longrightarrow> length (d_buf d) + length p \<le> d_limit d \<Longrightarrow>
     feed_bytes hdlc_byte d (hdlc_escape p) = (d\<lparr>d_buf := d_buf d @ p\<rparr>, [])"
proof (induction p arbitrary: d)
  case (Cons b p)
  show ?case
  proof (cases "b = FLAG \<or> b = ESC")
    case True
    then show ?thesis
      using Cons.prems Cons.IH[of "d\<lparr>d_buf := d_buf d @ [b]\<rparr>"]
      by (simp add: hdlc_bytes_escaped del: feed_bytes.simps)
  next
    case False
    then show ?thesis
      using Cons.prems Cons.IH[of "d\<lparr>d_buf := d_buf d @ [b]\<rparr>"] by (simp add: hdlc_byte_plain)
  qed
qed simp

lemma hdlc_frame_any:
  assumes "p \<noteq> []" "length p \<le> d_limit d"
  shows "feed_bytes hdlc_byte d (hdlc_frame p) =
    (d\<lparr>d_buf := [], d_in_frame := True, d_escaped := False\<rparr>,
     (if d_in_frame d \<and> d_buf d \<noteq> [] then [d_buf d] else []) @ [p])"
proof -
  let ?d = "d\<lparr>d_buf := [], d_in_frame := True, d_escaped := False\<rparr>"
  have "feed_bytes hdlc_byte ?d (hdlc_escape p) = (?d\<lparr>d_buf := p\<rparr>, [])"
    using hdlc_body[of ?d p] assms by simp
  then show ?thesis
    using assms by (auto simp: hdlc_frame_def feed_bytes_append hdlc_byte_def)
qed

definition hdlc_ready :: "nat \<Rightarrow> deframer \<Rightarrow> bool" where
  "hdlc_ready limit d \<longleftrightarrow> d_limit d = limit \<and> (d_in_frame d \<longrightarrow> d_buf d = [])"

interpretation hdlc: framing hdlc_byte hdlc_frame "hdlc_ready limit"
    "\<lambda>p. p \<noteq> [] \<and> length p \<le> limit"
  by unfold_locales (auto simp: hdlc_ready_def hdlc_frame_any)

lemma hdlc_escape_clean: "FLAG \<notin> set (hdlc_escape p)"
  by (induction p) (auto simp: hdlc_consts)

section \<open>Bounds\<close>

definition hdlc_inv :: "deframer \<Rightarrow> bool" where
  "hdlc_inv d \<longleftrightarrow> length (d_buf d) \<le> d_limit d"

lemma hdlc_byte_inv: "hdlc_inv d \<Longrightarrow> hdlc_inv (fst (hdlc_byte d b))"
  by (auto simp: hdlc_inv_def hdlc_byte_def Let_def)

interpretation hdlc_ops: guarded_ops "\<lambda>d b. fst (hdlc_byte d b)" hdlc_inv
  by unfold_locales (rule hdlc_byte_inv)

lemma hdlc_push_inv:
  "hdlc_inv d \<Longrightarrow> hdlc_push d bs = (d', fs) \<Longrightarrow>
     hdlc_inv d' \<and> d_limit d' = d_limit d \<and> (\<forall>f \<in> set fs. f \<noteq> [] \<and> length f \<le> d_limit d)"
proof (induction bs arbitrary: d d' fs)
  case Nil
  then show ?case by (simp add: hdlc_push_def)
next
  case (Cons b bs)
  obtain d1 o1 where s: "hdlc_byte d b = (d1, o1)" by fastforce
  obtain d2 fs2 where r: "hdlc_push d1 bs = (d2, fs2)" by fastforce
  have "d' = d2" "fs = (case o1 of None \<Rightarrow> fs2 | Some x \<Rightarrow> x # fs2)"
    using Cons.prems(2) s r by (auto simp: hdlc_push_def)
  moreover have "hdlc_inv d1" "d_limit d1 = d_limit d" "\<forall>f. o1 = Some f \<longrightarrow> f \<noteq> [] \<and> length f \<le> d_limit d"
    using hdlc_byte_inv[OF Cons.prems(1), of b] s Cons.prems(1)
    by (auto simp: hdlc_byte_def hdlc_inv_def Let_def split: if_splits)
  ultimately show ?case using Cons.IH[OF _ r] by (auto split: option.splits)
qed

section \<open>Properties\<close>

text \<open>
  C39: any packets sent back to back as HDLC frames come out of the deframer, each once and in
  order, when each is nonempty and within the limit and the deframer holds no partial frame.
\<close>

theorem hdlc_stream:
  assumes "hdlc_ready limit d" "\<forall>p \<in> set ps. p \<noteq> [] \<and> length p \<le> limit"
  shows "snd (hdlc_push d (concat (map hdlc_frame ps))) = ps
    \<and> hdlc_ready limit (fst (hdlc_push d (concat (map hdlc_frame ps))))"
  using hdlc.frames_back_to_back[OF assms] by (auto simp: hdlc_push_def)

theorem hdlc_stream_witness:
  "snd (hdlc_push hdlc_new (concat (map hdlc_frame [[0x7E, 1], [0x7D]]))) = [[0x7E, 1], [0x7D]]"
  using hdlc_stream[of MAX_FRAME hdlc_new "[[0x7E, 1], [0x7D]]"]
  by (simp add: hdlc_ready_def hdlc_new_def hdlc_with_limit_def hdlc_consts packet_consts)

text \<open>
  The deframer resynchronises: whatever bytes it was fed before, the next whole frame is
  delivered, preceded at most by one frame that the noise had left open.
\<close>

theorem hdlc_resync:
  assumes "p \<noteq> []" "length p \<le> limit"
  shows "\<exists>noise_frames junk. length junk \<le> 1
    \<and> snd (hdlc_push (hdlc_with_limit limit) (noise @ hdlc_frame p)) = noise_frames @ junk @ [p]
    \<and> noise_frames = snd (hdlc_push (hdlc_with_limit limit) noise)"
proof -
  obtain d fs where d: "hdlc_push (hdlc_with_limit limit) noise = (d, fs)" by fastforce
  have "d_limit d = limit"
    using hdlc_push_inv[OF _ d] by (simp add: hdlc_inv_def hdlc_with_limit_def)
  then have "feed_bytes hdlc_byte d (hdlc_frame p) =
    (d\<lparr>d_buf := [], d_in_frame := True, d_escaped := False\<rparr>,
     (if d_in_frame d \<and> d_buf d \<noteq> [] then [d_buf d] else []) @ [p])"
    using hdlc_frame_any[of p d] assms by simp
  then show ?thesis
    using d by (intro exI[of _ fs] exI[of _ "if d_in_frame d \<and> d_buf d \<noteq> [] then [d_buf d] else []"])
      (simp add: hdlc_push_def feed_bytes_append)
qed

theorem hdlc_resync_witness:
  "\<exists>noise_frames junk. length junk \<le> 1
    \<and> snd (hdlc_push (hdlc_with_limit 9) ([0x7E, 3, 0x7D] @ hdlc_frame [1])) = noise_frames @ junk @ [[1]]
    \<and> noise_frames = snd (hdlc_push (hdlc_with_limit 9) [0x7E, 3, 0x7D])"
  by (rule hdlc_resync) simp_all

text \<open>
  A peer cannot make the deframer hold or deliver more than its limit: whatever the bytes,
  the partial frame stays within the limit and every delivered frame is nonempty and within it.
\<close>

theorem hdlc_bounded:
  "length (d_buf (fst (hdlc_push (hdlc_with_limit limit) bs))) \<le> limit
   \<and> list_all (\<lambda>f. f \<noteq> [] \<and> length f \<le> limit) (snd (hdlc_push (hdlc_with_limit limit) bs))"
  using hdlc_push_inv[of "hdlc_with_limit limit" bs "fst (hdlc_push (hdlc_with_limit limit) bs)"
      "snd (hdlc_push (hdlc_with_limit limit) bs)"]
  by (auto simp: hdlc_inv_def hdlc_with_limit_def list_all_iff)

end
