(* ===== verification/Kiss.thy ===== *)
theory Kiss
  imports Interfaces
begin

text \<open>
  KISS framing and the host of a KISS TNC, \<open>crates/retinue/src/iface/kiss.rs\<close>, with the station
  beacon it shares with the RNode carrier, \<open>iface/beacon.rs\<close>. Times are milliseconds in
  \<open>u64\<close>; the two sums that do not saturate in the code wrap here.
\<close>

section \<open>The beacon\<close>

definition KISS_MIN_LEN :: nat where "KISS_MIN_LEN = 15"
definition CALLSIGN_MAX_LEN :: nat where "CALLSIGN_MAX_LEN = 32"

record beacon =
  be_payload :: bytes
  be_interval_ms :: nat
  be_due_ms :: "nat option"

text \<open>The interval is \<open>Duration::as_millis\<close>, which may exceed \<open>u64\<close> and is clamped.\<close>

definition beacon_with_payload :: "bytes \<Rightarrow> nat \<Rightarrow> beacon" where
  "beacon_with_payload payload interval =
     \<lparr>be_payload = payload, be_interval_ms = min interval u64_max, be_due_ms = None\<rparr>"

definition kiss_beacon :: "bytes \<Rightarrow> nat \<Rightarrow> beacon" where
  "kiss_beacon callsign interval =
     beacon_with_payload
       (callsign @ replicate (max (length callsign) KISS_MIN_LEN - length callsign) 0) interval"

definition rnode_beacon :: "bytes \<Rightarrow> nat \<Rightarrow> beacon option" where
  "rnode_beacon callsign interval =
     (if length callsign \<le> CALLSIGN_MAX_LEN then Some (beacon_with_payload callsign interval)
      else None)"

definition beacon_on_tx :: "beacon \<Rightarrow> bytes \<Rightarrow> nat \<Rightarrow> beacon" where
  "beacon_on_tx b frame now =
    (if frame = be_payload b then b\<lparr>be_due_ms := None\<rparr>
     else b\<lparr>be_due_ms := (case be_due_ms b of
              None \<Rightarrow> Some (sat_add u64_max now (be_interval_ms b)) | Some d \<Rightarrow> Some d)\<rparr>)"

definition take_due :: "beacon \<Rightarrow> nat \<Rightarrow> beacon \<times> bytes option" where
  "take_due b now =
    (case be_due_ms b of
       None \<Rightarrow> (b, None)
     | Some due \<Rightarrow>
         if due < now then (b\<lparr>be_due_ms := None\<rparr>, Some (be_payload b)) else (b, None))"

definition beacon_retry_at :: "beacon \<Rightarrow> nat \<Rightarrow> beacon" where
  "beacon_retry_at b at =
     b\<lparr>be_due_ms := (case be_due_ms b of None \<Rightarrow> Some at | Some d \<Rightarrow> Some d)\<rparr>"

section \<open>Framing\<close>

definition FEND :: u8 where "FEND = 0xC0"
definition FESC :: u8 where "FESC = 0xDB"
definition TFEND :: u8 where "TFEND = 0xDC"
definition TFESC :: u8 where "TFESC = 0xDD"
definition CMD_DATA :: u8 where "CMD_DATA = 0x00"
definition CMD_TXDELAY :: u8 where "CMD_TXDELAY = 0x01"
definition CMD_P :: u8 where "CMD_P = 0x02"
definition CMD_SLOTTIME :: u8 where "CMD_SLOTTIME = 0x03"
definition CMD_TXTAIL :: u8 where "CMD_TXTAIL = 0x04"
definition CMD_READY :: u8 where "CMD_READY = 0x0F"
definition HW_MTU :: nat where "HW_MTU = 564"
definition FLOW_UNLOCK_MS :: nat where "FLOW_UNLOCK_MS = 5000"

named_theorems kiss_consts \<open>constants of KISS\<close>

lemmas [kiss_consts] = FEND_def FESC_def TFEND_def TFESC_def CMD_DATA_def CMD_TXDELAY_def CMD_P_def
  CMD_SLOTTIME_def CMD_TXTAIL_def CMD_READY_def HW_MTU_def FLOW_UNLOCK_MS_def

fun kiss_escape :: "bytes \<Rightarrow> bytes" where
  "kiss_escape [] = []"
| "kiss_escape (b # bs) =
     (if b = FEND then FESC # TFEND # kiss_escape bs
      else if b = FESC then FESC # TFESC # kiss_escape bs
      else b # kiss_escape bs)"

definition kiss_encode :: "u8 \<Rightarrow> bytes \<Rightarrow> bytes" where
  "kiss_encode command payload = FEND # command # kiss_escape payload @ [FEND]"

record tnc_config =
  tc_preamble_ms :: u32
  tc_txtail_ms :: u32
  tc_persistence :: u8
  tc_slottime_ms :: u32
  tc_flow_control :: bool

definition tnc_config_default :: tnc_config where
  "tnc_config_default = \<lparr>tc_preamble_ms = 350, tc_txtail_ms = 20, tc_persistence = 64,
     tc_slottime_ms = 20, tc_flow_control = False\<rparr>"

record kiss_deframer =
  kd_limit :: nat
  kd_command :: "u8 option"
  kd_buf :: bytes
  kd_escaped :: bool
  kd_poisoned :: bool
  kd_in_frame :: bool

definition kiss_deframer_new :: "nat \<Rightarrow> kiss_deframer" where
  "kiss_deframer_new limit = \<lparr>kd_limit = limit, kd_command = None, kd_buf = [],
     kd_escaped = False, kd_poisoned = False, kd_in_frame = False\<rparr>"

definition kiss_byte :: "kiss_deframer \<Rightarrow> u8 \<Rightarrow> kiss_deframer \<times> (u8 \<times> bytes) option" where
  "kiss_byte d b =
    (if b = FEND then
       let complete = (kd_in_frame d \<and> \<not> kd_poisoned d);
           command = (if complete then kd_command d else None)
       in ((kiss_deframer_new (kd_limit d))\<lparr>kd_in_frame := True\<rparr>,
           map_option (\<lambda>c. (c, kd_buf d)) command)
     else if \<not> kd_in_frame d \<or> kd_poisoned d then (d, None)
     else if kd_command d = None then (d\<lparr>kd_command := Some (b AND 0x0F)\<rparr>, None)
     else
       let escaped = kd_escaped d;
           d = d\<lparr>kd_escaped := False\<rparr>;
           store = (\<lambda>byte. if length (kd_buf d) = kd_limit d then d\<lparr>kd_poisoned := True\<rparr>
                           else d\<lparr>kd_buf := kd_buf d @ [byte]\<rparr>)
       in if \<not> escaped \<and> b = FESC then (d\<lparr>kd_escaped := True\<rparr>, None)
          else if \<not> escaped then (store b, None)
          else if b = TFEND then (store FEND, None)
          else if b = TFESC then (store FESC, None)
          else (d\<lparr>kd_poisoned := True\<rparr>, None))"

section \<open>The TNC host\<close>

record kiss_tnc =
  kt_config :: tnc_config
  kt_beacon :: "beacon option"
  kt_deframer :: kiss_deframer
  kt_ready :: bool
  kt_locked_at_ms :: nat

definition kiss_tnc_new :: "tnc_config \<Rightarrow> beacon option \<Rightarrow> kiss_tnc" where
  "kiss_tnc_new config b = \<lparr>kt_config = config, kt_beacon = b,
     kt_deframer = kiss_deframer_new HW_MTU, kt_ready = False, kt_locked_at_ms = 0\<rparr>"

definition reset_partial :: "kiss_tnc \<Rightarrow> kiss_tnc" where
  "reset_partial t = t\<lparr>kt_deframer := kiss_deframer_new (kd_limit (kt_deframer t))\<rparr>"

text \<open>\<open>u8::try_from(ms / 10).unwrap_or(u8::MAX)\<close>.\<close>

definition tenths :: "u32 \<Rightarrow> u8" where
  "tenths ms = (if unat ms div 10 \<le> u8_max then of_nat (unat ms div 10) else of_nat u8_max)"

definition startup :: "kiss_tnc \<Rightarrow> kiss_tnc \<times> bytes" where
  "startup t =
    (let c = kt_config t;
         t = reset_partial (t\<lparr>kt_ready := True\<rparr>)
     in (t, concat (map (\<lambda>(command, value). kiss_encode command [value])
          [(CMD_TXDELAY, tenths (tc_preamble_ms c)), (CMD_TXTAIL, tenths (tc_txtail_ms c)),
           (CMD_P, tc_persistence c), (CMD_SLOTTIME, tenths (tc_slottime_ms c)),
           (CMD_READY, 0x01)])))"

definition with_frame_limit :: "kiss_tnc \<Rightarrow> nat \<Rightarrow> kiss_tnc" where
  "with_frame_limit t limit = t\<lparr>kt_deframer := kiss_deframer_new limit\<rparr>"

definition kiss_send :: "kiss_tnc \<Rightarrow> bytes \<Rightarrow> nat \<Rightarrow> kiss_tnc \<times> bytes" where
  "kiss_send t packet now =
    (let t = (if tc_flow_control (kt_config t)
              then t\<lparr>kt_ready := False, kt_locked_at_ms := now\<rparr> else t);
         t = t\<lparr>kt_beacon := map_option (\<lambda>b. beacon_on_tx b packet now) (kt_beacon t)\<rparr>
     in (t, kiss_encode CMD_DATA packet))"

fun kiss_receive :: "kiss_tnc \<Rightarrow> bytes \<Rightarrow> kiss_tnc \<times> bytes list" where
  "kiss_receive t [] = (t, [])"
| "kiss_receive t (b # bs) =
    (let (d, frame) = kiss_byte (kt_deframer t) b;
         t = t\<lparr>kt_deframer := d\<rparr>;
         (t, got) = (case frame of
             Some (command, payload) \<Rightarrow>
               if command = CMD_DATA \<and> payload \<noteq> [] then (t, [payload])
               else if command = CMD_READY then (t\<lparr>kt_ready := True\<rparr>, [])
               else (t, [])
           | None \<Rightarrow> (t, []));
         (t, packets) = kiss_receive t bs
     in (t, got @ packets))"

definition kiss_poll :: "kiss_tnc \<Rightarrow> nat \<Rightarrow> kiss_tnc \<times> bytes option" where
  "kiss_poll t now =
    (let t = (if \<not> kt_ready t \<and> sat_add u64_max (kt_locked_at_ms t) FLOW_UNLOCK_MS < now
              then t\<lparr>kt_ready := True\<rparr> else t)
     in if \<not> kt_ready t then (t, None)
        else case kt_beacon t of
          None \<Rightarrow> (t, None)
        | Some b \<Rightarrow>
            (case take_due b now of
               (b, None) \<Rightarrow> (t\<lparr>kt_beacon := Some b\<rparr>, None)
             | (b, Some payload) \<Rightarrow>
                 let (t, frame) = kiss_send (t\<lparr>kt_beacon := Some b\<rparr>) payload now
                 in (t, Some frame)))"

definition wake_at_ms :: "kiss_tnc \<Rightarrow> nat option" where
  "wake_at_ms t =
    (if \<not> kt_ready t then Some (sat_add u64_max (kt_locked_at_ms t) (FLOW_UNLOCK_MS + 1))
     else case kt_beacon t of
       None \<Rightarrow> None
     | Some b \<Rightarrow> map_option (\<lambda>due. (due + 1) mod 2 ^ 64) (be_due_ms b))"

section \<open>Framing\<close>

text \<open>A deframer that holds no partial frame, and one inside a frame.\<close>

definition kiss_idle :: "nat \<Rightarrow> kiss_deframer \<Rightarrow> bool" where
  "kiss_idle limit d \<longleftrightarrow> kd_limit d = limit \<and> (kd_in_frame d \<longrightarrow> kd_command d = None)"

lemma kiss_distinct [simp]: "FESC \<noteq> FEND" "FEND \<noteq> FESC" "TFEND \<noteq> FEND" "TFESC \<noteq> FEND"
  "TFEND \<noteq> TFESC" "TFESC \<noteq> TFEND"
  by (simp_all add: kiss_consts)

lemma kiss_byte_fend:
  "kiss_byte d FEND = ((kiss_deframer_new (kd_limit d))\<lparr>kd_in_frame := True\<rparr>,
     if kd_in_frame d \<and> \<not> kd_poisoned d then map_option (\<lambda>c. (c, kd_buf d)) (kd_command d) else None)"
  by (simp add: kiss_byte_def Let_def)

lemma kd_escaped_id: "\<not> kd_escaped d \<Longrightarrow> d\<lparr>kd_escaped := False\<rparr> = d"
  "\<not> kd_escaped d \<Longrightarrow> d\<lparr>kd_buf := x, kd_escaped := False\<rparr> = d\<lparr>kd_buf := x\<rparr>"
  by (cases d; simp)+

lemma kiss_body:
  "kd_in_frame d \<Longrightarrow> \<not> kd_poisoned d \<Longrightarrow> \<not> kd_escaped d \<Longrightarrow> kd_command d = Some c \<Longrightarrow>
   length (kd_buf d) + length p \<le> kd_limit d \<Longrightarrow>
     feed_bytes kiss_byte d (kiss_escape p) = (d\<lparr>kd_buf := kd_buf d @ p\<rparr>, [])"
proof (induction p arbitrary: d)
  case (Cons b p)
  let ?d = "d\<lparr>kd_buf := kd_buf d @ [b]\<rparr>"
  have rest: "feed_bytes kiss_byte ?d (kiss_escape p) = (d\<lparr>kd_buf := kd_buf d @ b # p\<rparr>, [])"
    using Cons.prems Cons.IH[of ?d] by simp
  have esc: "kiss_byte d FESC = (d\<lparr>kd_escaped := True\<rparr>, None)"
    using Cons.prems by (simp add: kiss_byte_def Let_def)
  consider (fend) "b = FEND" | (fesc) "b = FESC" | (plain) "b \<noteq> FEND" "b \<noteq> FESC" by blast
  then show ?case
  proof cases
    case fend
    have "kiss_byte (d\<lparr>kd_escaped := True\<rparr>) TFEND = (?d, None)"
      using Cons.prems fend by (simp add: kiss_byte_def Let_def kd_escaped_id)
    with rest esc fend show ?thesis by simp
  next
    case fesc
    have "kiss_byte (d\<lparr>kd_escaped := True\<rparr>) TFESC = (?d, None)"
      using Cons.prems fesc by (simp add: kiss_byte_def Let_def kd_escaped_id)
    with rest esc fesc show ?thesis by simp
  next
    case plain
    then have "kiss_byte d b = (?d, None)"
      using Cons.prems by (simp add: kiss_byte_def Let_def kd_escaped_id)
    with rest plain show ?thesis by simp
  qed
qed (cases d, simp)

definition kiss_fits :: "nat \<Rightarrow> u8 \<times> bytes \<Rightarrow> bool" where
  "kiss_fits limit f \<longleftrightarrow> fst f AND 0x0F = fst f \<and> length (snd f) \<le> limit"

lemma command_not_fend: "c AND 0x0F = c \<Longrightarrow> c \<noteq> FEND"
  by (auto simp: kiss_consts)

lemma kiss_frame_any:
  assumes "kiss_fits (kd_limit d) f"
  shows "feed_bytes kiss_byte d (kiss_encode (fst f) (snd f)) =
    ((kiss_deframer_new (kd_limit d))\<lparr>kd_in_frame := True\<rparr>,
     (if kd_in_frame d \<and> \<not> kd_poisoned d then
        case kd_command d of None \<Rightarrow> [] | Some c \<Rightarrow> [(c, kd_buf d)] else []) @ [f])"
proof -
  let ?d0 = "(kiss_deframer_new (kd_limit d))\<lparr>kd_in_frame := True\<rparr>"
  let ?d1 = "?d0\<lparr>kd_command := Some (fst f)\<rparr>"
  have c: "fst f AND 15 = fst f" "fst f \<noteq> FEND"
    using assms command_not_fend[of "fst f"] by (simp_all add: kiss_fits_def)
  have cmd: "kiss_byte ?d0 (fst f) = (?d1, None)"
    using c by (simp add: kiss_byte_def kiss_deframer_new_def)
  have "feed_bytes kiss_byte ?d1 (kiss_escape (snd f)) = (?d1\<lparr>kd_buf := snd f\<rparr>, [])"
    using kiss_body[of ?d1 "fst f" "snd f"] assms by (simp add: kiss_deframer_new_def kiss_fits_def)
  moreover have "kiss_byte (?d1\<lparr>kd_buf := snd f\<rparr>) FEND = (?d0, Some f)"
    by (simp add: kiss_byte_fend kiss_deframer_new_def)
  ultimately show ?thesis
    using cmd by (auto simp: kiss_encode_def feed_bytes_append kiss_byte_fend Let_def split: option.splits)
qed

interpretation kiss: framing kiss_byte "\<lambda>f. kiss_encode (fst f) (snd f)" "kiss_idle limit" "kiss_fits limit"
proof unfold_locales
  show "\<exists>s'. feed_bytes kiss_byte s (kiss_encode (fst p) (snd p)) = (s', [p]) \<and> kiss_idle limit s'"
    if "kiss_idle limit s" "kiss_fits limit p" for s p
    using kiss_frame_any[of s p] that
    by (auto simp: kiss_idle_def kiss_deframer_new_def)
qed

text \<open>What the host does with the frames its deframer finishes.\<close>

lemma kiss_receive_frames:
  "feed_bytes kiss_byte (kt_deframer t) bs = (d, fs) \<Longrightarrow>
     kiss_receive t bs = (t\<lparr>kt_deframer := d, kt_ready := kt_ready t \<or> (\<exists>f \<in> set fs. fst f = CMD_READY)\<rparr>,
       map snd (filter (\<lambda>f. fst f = CMD_DATA \<and> snd f \<noteq> []) fs))"
proof (induction bs arbitrary: t fs)
  case Nil
  then show ?case by (cases t) simp
next
  case (Cons b bs)
  obtain d1 o1 where s: "kiss_byte (kt_deframer t) b = (d1, o1)" by fastforce
  obtain d2 fs2 where r: "feed_bytes kiss_byte d1 bs = (d2, fs2)" by fastforce
  have eq: "d = d2" "fs = (case o1 of None \<Rightarrow> fs2 | Some x \<Rightarrow> x # fs2)"
    using Cons.prems s r by (auto split: option.splits)
  have ne: "CMD_READY \<noteq> CMD_DATA" by (simp add: kiss_consts)
  show ?case
    using s r eq ne Cons.IH[of "t\<lparr>kt_deframer := d1\<rparr>" fs2]
      Cons.IH[of "t\<lparr>kt_deframer := d1, kt_ready := True\<rparr>" fs2]
    by (cases o1) (auto simp: Let_def split: prod.splits if_splits)
qed

section \<open>Properties\<close>

text \<open>
  Packets sent as KISS data frames, back to back, are received exactly, in order, by a host
  whose deframer holds no partial frame, each nonempty packet once; other frames in between
  change nothing but the flow-control state.
\<close>

theorem kiss_packets_received:
  assumes "kiss_idle limit (kt_deframer t)" "\<forall>f \<in> set fs. kiss_fits limit f"
  shows "snd (kiss_receive t (concat (map (\<lambda>f. kiss_encode (fst f) (snd f)) fs)))
      = map snd (filter (\<lambda>f. fst f = CMD_DATA \<and> snd f \<noteq> []) fs)
    \<and> (kt_ready (fst (kiss_receive t (concat (map (\<lambda>f. kiss_encode (fst f) (snd f)) fs))))
        \<longleftrightarrow> kt_ready t \<or> (\<exists>f \<in> set fs. fst f = CMD_READY))"
proof -
  obtain d where "feed_bytes kiss_byte (kt_deframer t)
      (concat (map (\<lambda>f. kiss_encode (fst f) (snd f)) fs)) = (d, fs)"
    using kiss.frames_back_to_back[OF assms] by blast
  from kiss_receive_frames[OF this] show ?thesis by simp
qed

theorem kiss_packets_received_witness:
  "snd (kiss_receive (kiss_tnc_new tnc_config_default None)
      (concat (map (\<lambda>f. kiss_encode (fst f) (snd f)) [(CMD_DATA, [0xC0, 1]), (CMD_READY, [1]), (CMD_DATA, [0xDB])])))
    = [[0xC0, 1], [0xDB]]"
  using kiss_packets_received[of 564 "kiss_tnc_new tnc_config_default None"
      "[(CMD_DATA, [0xC0, 1]), (CMD_READY, [1]), (CMD_DATA, [0xDB])]"]
  by (simp add: kiss_idle_def kiss_fits_def kiss_tnc_new_def kiss_deframer_new_def kiss_consts)

lemma kt_beacon_id: "kt_beacon t = Some b \<Longrightarrow> t\<lparr>kt_beacon := Some b\<rparr> = t"
  by (cases t) simp

lemma kiss_poll_ready:
  assumes "kt_ready t" "snd (kiss_poll t now) = None"
  shows "kt_ready (fst (kiss_poll t now))"
  using assms
  by (cases "kt_beacon t"; cases "take_due (the (kt_beacon t)) now";
      cases "snd (take_due (the (kt_beacon t)) now)")
    (simp_all add: kiss_poll_def Let_def kiss_send_def split: prod.splits)

text \<open>
  A shell can rely on the wake-up time: \<open>wake_at_ms\<close> is exact while its sums fit in 64 bits: a poll before it (or when it gives
  none) changes nothing and sends nothing, and a poll at it or later unlocks the TNC or sends the
  beacon.
\<close>

theorem kiss_wake_exact:
  assumes "kt_locked_at_ms t + FLOW_UNLOCK_MS < u64_max"
    "\<forall>b due. kt_beacon t = Some b \<longrightarrow> be_due_ms b = Some due \<longrightarrow> due < u64_max"
  shows "kiss_poll t now \<noteq> (t, None) \<longleftrightarrow> (\<exists>w. wake_at_ms t = Some w \<and> w \<le> now)"
proof (cases "kt_ready t")
  case False
  have wait: "kiss_poll t now = (t, None)" if "\<not> kt_locked_at_ms t + FLOW_UNLOCK_MS < now"
    using that False assms(1) by (simp add: kiss_poll_def sat_add_def)
  have unlock: "kiss_poll t now \<noteq> (t, None)" if "kt_locked_at_ms t + FLOW_UNLOCK_MS < now"
  proof
    assume same: "kiss_poll t now = (t, None)"
    have "kiss_poll t now = kiss_poll (t\<lparr>kt_ready := True\<rparr>) now"
      using that False assms(1) by (simp add: kiss_poll_def sat_add_def)
    with same have eq: "kiss_poll (t\<lparr>kt_ready := True\<rparr>) now = (t, None)" by (simp only:)
    then have "kt_ready t" using kiss_poll_ready[of "t\<lparr>kt_ready := True\<rparr>" now] by (simp only: eq, simp)
    then show False using False by simp
  qed
  show ?thesis
    using wait unlock False assms(1) by (auto simp: wake_at_ms_def sat_add_def Suc_le_eq)
next
  case True
  have wrap: "(due + 1) mod 2 ^ 64 = due + 1" if "due < u64_max" for due
    using that by (simp add: u64_max_def)
  show ?thesis
  proof (cases "kt_beacon t")
    case None
    with True show ?thesis by (simp add: kiss_poll_def wake_at_ms_def)
  next
    case (Some b)
    show ?thesis
    proof (cases "be_due_ms b")
      case None
      with True Some show ?thesis
        by (simp add: kiss_poll_def wake_at_ms_def take_due_def kt_beacon_id)
    next
      case due: (Some due)
      then have "due < u64_max" using assms(2) Some by blast
      with True Some due wrap[of due] show ?thesis
        by (auto simp: kiss_poll_def wake_at_ms_def take_due_def kt_beacon_id Let_def kiss_send_def)
    qed
  qed
qed

theorem kiss_wake_exact_witness:
  "kiss_poll (kiss_tnc_new tnc_config_default None) 5001 \<noteq> (kiss_tnc_new tnc_config_default None, None)"
  using kiss_wake_exact[of "kiss_tnc_new tnc_config_default None" 5001]
  by (simp add: kiss_tnc_new_def wake_at_ms_def int_defs kiss_consts)

end
