(* ===== verification/Dedup.thy ===== *)
theory Dedup
  imports Packets
begin

text \<open>
  The bounded hash memories of the endpoint, \<open>crates/retinue/src/endpoint/dedup.rs\<close>, and the
  contexts they exempt, \<open>node/tables.rs\<close>. A \<open>HashSet\<close> is a set and a \<open>VecDeque\<close> a list; the
  locked state of \<open>Shared\<close> is passed explicitly.
\<close>

section \<open>Link contexts\<close>

definition CTX_RESOURCE :: u8 where "CTX_RESOURCE = 0x01"
definition CTX_RESOURCE_ADV :: u8 where "CTX_RESOURCE_ADV = 0x02"
definition CTX_RESOURCE_REQ :: u8 where "CTX_RESOURCE_REQ = 0x03"
definition CTX_RESOURCE_HMU :: u8 where "CTX_RESOURCE_HMU = 0x04"
definition CTX_RESOURCE_PRF :: u8 where "CTX_RESOURCE_PRF = 0x05"
definition CTX_RESOURCE_ICL :: u8 where "CTX_RESOURCE_ICL = 0x06"
definition CTX_RESOURCE_RCL :: u8 where "CTX_RESOURCE_RCL = 0x07"
definition CTX_CACHE_REQUEST :: u8 where "CTX_CACHE_REQUEST = 0x08"
definition CTX_KEEPALIVE :: u8 where "CTX_KEEPALIVE = 0xFA"

lemmas ctx_consts = CTX_RESOURCE_def CTX_RESOURCE_ADV_def CTX_RESOURCE_REQ_def
  CTX_RESOURCE_HMU_def CTX_RESOURCE_PRF_def CTX_RESOURCE_ICL_def CTX_RESOURCE_RCL_def
  CTX_CACHE_REQUEST_def CTX_KEEPALIVE_def

definition is_resource_context :: "u8 \<Rightarrow> bool" where
  "is_resource_context c \<longleftrightarrow> c = CTX_RESOURCE \<or> c = CTX_RESOURCE_ADV \<or> c = CTX_RESOURCE_REQ
     \<or> c = CTX_RESOURCE_HMU \<or> c = CTX_RESOURCE_PRF \<or> c = CTX_RESOURCE_ICL \<or> c = CTX_RESOURCE_RCL"

definition is_deduplicated_link_context :: "u8 \<Rightarrow> bool" where
  "is_deduplicated_link_context c \<longleftrightarrow>
     \<not> is_resource_context c \<and> c \<noteq> CTX_KEEPALIVE \<and> c \<noteq> CTX_CACHE_REQUEST"

definition remember_hash :: "nat \<Rightarrow> address_hash list \<Rightarrow> address_hash \<Rightarrow> address_hash list" where
  "remember_hash N window hash =
    (let window = (if length window = N then remove_at 0 window else window)
     in if length window < N then window @ [hash] else window)"

section \<open>A window of hashes\<close>

definition SEEN_ANNOUNCES :: nat where "SEEN_ANNOUNCES = 4096"
definition PACKET_HASHES :: nat where "PACKET_HASHES = 32768"
definition PATH_REQUEST_TAGS :: nat where "PATH_REQUEST_TAGS = 16000"
definition OWN_ECHO_HASHES :: nat where "OWN_ECHO_HASHES = 1024"
definition DUPLICATE_HASHES :: nat where "DUPLICATE_HASHES = 1024"

record hash_window =
  hw_set :: "address_hash set"
  hw_order :: "address_hash list"
  hw_capacity :: nat

definition hash_window_new :: "nat \<Rightarrow> hash_window" where
  "hash_window_new capacity = \<lparr>hw_set = {}, hw_order = [], hw_capacity = capacity\<rparr>"

definition hash_window_contains :: "hash_window \<Rightarrow> address_hash \<Rightarrow> bool" where
  "hash_window_contains w hash \<longleftrightarrow> hash \<in> hw_set w"

definition hash_window_insert :: "hash_window \<Rightarrow> address_hash \<Rightarrow> hash_window \<times> bool" where
  "hash_window_insert w hash =
    (if hash \<in> hw_set w then (w, False)
     else
       let w = w\<lparr>hw_set := insert hash (hw_set w), hw_order := hw_order w @ [hash]\<rparr>;
           w = (if hw_capacity w < length (hw_order w) then
                  case hw_order w of
                    oldest # rest \<Rightarrow> w\<lparr>hw_order := rest, hw_set := hw_set w - {oldest}\<rparr>
                  | [] \<Rightarrow> w
                else w)
       in (w, True))"

section \<open>Two generations of hashes\<close>

record hash_list =
  hl_current :: "address_hash set"
  hl_previous :: "address_hash set"
  hl_capacity :: nat

definition hash_list_new :: "nat \<Rightarrow> hash_list" where
  "hash_list_new capacity = \<lparr>hl_current = {}, hl_previous = {}, hl_capacity = capacity\<rparr>"

definition hash_list_insert :: "hash_list \<Rightarrow> address_hash \<Rightarrow> hash_list \<times> bool" where
  "hash_list_insert l hash =
    (if hash \<in> hl_previous l \<or> hash \<in> hl_current l then (l, False)
     else
       let l = l\<lparr>hl_current := insert hash (hl_current l)\<rparr>;
           l = (if hl_capacity l \<le> card (hl_current l)
                then l\<lparr>hl_previous := hl_current l, hl_current := {}\<rparr> else l)
       in (l, True))"

section \<open>Link packets\<close>

record link_packet_memory =
  lm_sent :: hash_window
  lm_received :: hash_window

datatype link_packet_admission = New | OwnEcho | Duplicate

definition link_packet_memory_new :: link_packet_memory where
  "link_packet_memory_new = \<lparr>lm_sent = hash_window_new OWN_ECHO_HASHES,
     lm_received = hash_window_new DUPLICATE_HASHES\<rparr>"

definition is_remembered_link_packet :: "packet \<Rightarrow> bool" where
  "is_remembered_link_packet p \<longleftrightarrow> pk_packet_type p = Data \<and> pk_destination_type p = Link
     \<and> is_deduplicated_link_context (pk_context p)"

definition note_sent :: "sha256 \<Rightarrow> link_packet_memory \<Rightarrow> packet \<Rightarrow> link_packet_memory" where
  "note_sent sha m p =
    (if is_remembered_link_packet p
     then m\<lparr>lm_sent := fst (hash_window_insert (lm_sent m) (packet_hash sha p))\<rparr> else m)"

definition admit :: "sha256 \<Rightarrow> link_packet_memory \<Rightarrow> packet \<Rightarrow> link_packet_memory \<times> link_packet_admission" where
  "admit sha m p =
    (if \<not> is_remembered_link_packet p then (m, New)
     else
       let hash = packet_hash sha p in
       if hash_window_contains (lm_sent m) hash then (m, OwnEcho)
       else
         let (w, new) = hash_window_insert (lm_received m) hash in
         (m\<lparr>lm_received := w\<rparr>, if new then New else Duplicate))"

section \<open>The endpoint's filters\<close>

definition packet_is_new :: "hash_list \<Rightarrow> u64 \<Rightarrow> u8 \<Rightarrow> address_hash \<Rightarrow> hash_list \<times> u64 \<times> bool" where
  "packet_is_new packet_filter filtered_packets ctxt hash =
    (if \<not> is_deduplicated_link_context ctxt then (packet_filter, filtered_packets, True)
     else let (packet_filter, new) = hash_list_insert packet_filter hash
          in if new then (packet_filter, filtered_packets, True)
             else (packet_filter, filtered_packets + 1, False))"

definition announce_is_new ::
    "address_hash set \<times> address_hash list \<Rightarrow> address_hash \<Rightarrow> (address_hash set \<times> address_hash list) \<times> bool" where
  "announce_is_new g hash =
    (let (seen, order) = g in
     if hash \<in> seen then ((seen, order), False)
     else
       let seen = insert hash seen; order = order @ [hash] in
       if SEEN_ANNOUNCES < length order then
         (case order of
            old # rest \<Rightarrow> ((seen - {old}, rest), True)
          | [] \<Rightarrow> ((seen, order), True))
       else ((seen, order), True))"

section \<open>What a window remembers\<close>

text \<open>The reference: the last \<open>n\<close> hashes that were new when they came, newest last.\<close>

definition recent :: "nat \<Rightarrow> 'a list \<Rightarrow> 'a list" where
  "recent n xs = drop (length xs - n) xs"

fun window_spec :: "nat \<Rightarrow> 'a list \<Rightarrow> 'a list \<Rightarrow> bool list" where
  "window_spec n seen [] = []"
| "window_spec n seen (h # hs) =
     (if h \<in> set (recent n seen) then False # window_spec n seen hs
      else True # window_spec n (seen @ [h]) hs)"

fun window_run :: "hash_window \<Rightarrow> address_hash list \<Rightarrow> bool list" where
  "window_run w [] = []"
| "window_run w (h # hs) = (let (w', new) = hash_window_insert w h in new # window_run w' hs)"

definition window_rep :: "nat \<Rightarrow> address_hash list \<Rightarrow> hash_window \<Rightarrow> bool" where
  "window_rep n seen w \<longleftrightarrow> hw_capacity w = n \<and> hw_order w = recent n seen
     \<and> hw_set w = set (recent n seen) \<and> distinct (recent n seen)"

lemma recent_snoc:
  "recent n (xs @ [x]) = (if n < length (recent n xs @ [x]) then tl (recent n xs @ [x]) else recent n xs @ [x])"
proof (cases "n \<le> length xs")
  case True
  then have "recent n (xs @ [x]) = drop (Suc (length xs - n)) (xs @ [x])"
    by (simp add: recent_def Suc_diff_le)
  also have "\<dots> = tl (drop (length xs - n) (xs @ [x]))" by (simp only: drop_Suc tl_drop)
  also have "\<dots> = tl (recent n xs @ [x])" by (simp add: recent_def)
  finally show ?thesis using True by (simp add: recent_def)
qed (simp add: recent_def)

lemma window_insert_rep:
  assumes "window_rep n seen w" "hash_window_insert w h = (w', new)"
  shows "new \<longleftrightarrow> h \<notin> set (recent n seen)" "window_rep n (if new then seen @ [h] else seen) w'"
proof -
  have set: "hw_set w = set (recent n seen)" "hw_order w = recent n seen" "hw_capacity w = n"
    "distinct (recent n seen)"
    using assms(1) by (simp_all add: window_rep_def)
  show "new \<longleftrightarrow> h \<notin> set (recent n seen)"
    using assms(2) set by (auto simp: hash_window_insert_def Let_def split: if_splits)
  show "window_rep n (if new then seen @ [h] else seen) w'"
  proof (cases "h \<in> set (recent n seen)")
    case True
    with assms set show ?thesis by (auto simp: hash_window_insert_def)
  next
    case False
    obtain o1 os where o: "recent n seen @ [h] = o1 # os" by (cases "recent n seen @ [h]") auto
    have d: "distinct (o1 # os)" using set(4) False by (simp flip: o)
    have ins: "insert h (set (recent n seen)) = set (o1 # os)" using arg_cong[OF o, of set] by simp
    have "w' = (if n < length (o1 # os) then w\<lparr>hw_set := set (o1 # os) - {o1}, hw_order := os\<rparr>
        else w\<lparr>hw_set := set (o1 # os), hw_order := o1 # os\<rparr>)" "new"
      using assms(2) False set(1-3) by (auto simp: hash_window_insert_def Let_def o ins split: if_splits)
    then show ?thesis
      using d set(3) by (auto simp: window_rep_def recent_snoc o)
  qed
qed

lemma window_run_spec: "window_rep n seen w \<Longrightarrow> window_run w hs = window_spec n seen hs"
proof (induction hs arbitrary: w seen)
  case (Cons h hs)
  obtain w' new where i: "hash_window_insert w h = (w', new)" by fastforce
  from window_insert_rep[OF Cons.prems i] Cons.IH show ?case by (auto simp: i)
qed simp

text \<open>The announce filter is such a window, written out in place.\<close>

lemma announce_is_new_window:
  "hw_capacity w = SEEN_ANNOUNCES \<Longrightarrow> announce_is_new (hw_set w, hw_order w) h =
     ((hw_set (fst (hash_window_insert w h)), hw_order (fst (hash_window_insert w h))),
      snd (hash_window_insert w h))"
  by (auto simp: announce_is_new_def hash_window_insert_def Let_def split: list.splits)

section \<open>What two generations remember\<close>

definition list_rep :: "nat \<Rightarrow> address_hash list \<Rightarrow> hash_list \<Rightarrow> bool" where
  "list_rep n seen l \<longleftrightarrow> hl_capacity l = n \<and> (\<exists>old prev cur. seen = old @ prev @ cur
     \<and> hl_previous l = set prev \<and> hl_current l = set cur \<and> distinct cur \<and> length cur < n
     \<and> (length prev = n \<or> old = [] \<and> prev = []))"

fun list_run :: "hash_list \<Rightarrow> address_hash list \<Rightarrow> address_hash list \<Rightarrow> hash_list \<times> address_hash list" where
  "list_run l seen [] = (l, seen)"
| "list_run l seen (h # hs) =
     (let (l', new) = hash_list_insert l h in list_run l' (if new then seen @ [h] else seen) hs)"

lemma list_rep_new: "0 < n \<Longrightarrow> list_rep n [] (hash_list_new n)"
  by (auto simp: list_rep_def hash_list_new_def)

lemma list_insert_rep:
  assumes "list_rep n seen l" "hash_list_insert l h = (l', new)"
  shows "list_rep n (if new then seen @ [h] else seen) l'"
proof -
  from assms(1) obtain old prev cur where r: "hl_capacity l = n" "seen = old @ prev @ cur"
    "hl_previous l = set prev" "hl_current l = set cur" "distinct cur" "length cur < n"
    "length prev = n \<or> old = [] \<and> prev = []"
    unfolding list_rep_def by blast
  show ?thesis
  proof (cases "h \<in> set prev \<or> h \<in> set cur")
    case True
    with assms r show ?thesis by (auto simp: hash_list_insert_def)
  next
    case False
    then have card: "card (insert h (set cur)) = Suc (length cur)"
      using r(5) by (simp add: distinct_card)
    have new: "new" and l': "l' = (if n \<le> Suc (length cur)
        then l\<lparr>hl_previous := insert h (set cur), hl_current := {}\<rparr>
        else l\<lparr>hl_current := insert h (set cur)\<rparr>)"
      using assms(2) False r(1,3,4) card by (auto simp: hash_list_insert_def Let_def)
    show ?thesis
    proof (cases "n \<le> Suc (length cur)")
      case True
      with r(6) have "length (cur @ [h]) = n" by simp
      with True new l' r show ?thesis
        unfolding list_rep_def
        by (intro conjI exI[of _ "old @ prev"] exI[of _ "cur @ [h]"] exI[of _ "[]"]) auto
    next
      case notfull: False
      with new l' r False show ?thesis
        unfolding list_rep_def
        by (intro conjI exI[of _ old] exI[of _ prev] exI[of _ "cur @ [h]"]) auto
    qed
  qed
qed

lemma list_run_rep: "list_rep n seen l \<Longrightarrow> list_run l seen hs = (l', seen') \<Longrightarrow> list_rep n seen' l'"
proof (induction hs arbitrary: l seen)
  case (Cons h hs)
  obtain l1 new where i: "hash_list_insert l h = (l1, new)" by fastforce
  from list_insert_rep[OF Cons.prems(1) i] Cons.IH Cons.prems(2) show ?case by (simp add: i)
qed simp

lemma recent_mono: "m \<le> n \<Longrightarrow> set (recent m xs) \<subseteq> set (recent n xs)"
  by (simp add: recent_def set_drop_subset_set_drop)

lemma list_remembers:
  assumes "list_rep n seen l"
  shows "set (recent n seen) \<subseteq> hl_previous l \<union> hl_current l"
    "hl_previous l \<union> hl_current l \<subseteq> set (recent (2 * n - 1) seen)"
proof -
  from assms obtain old prev cur where r: "seen = old @ prev @ cur"
    "hl_previous l = set prev" "hl_current l = set cur" "length cur < n"
    "length prev = n \<or> old = [] \<and> prev = []"
    unfolding list_rep_def by blast
  have "set (recent n seen) \<subseteq> set (recent (length (prev @ cur)) seen)"
  proof (cases "length prev = n")
    case True
    then show ?thesis by (intro recent_mono) simp
  next
    case False
    with r show ?thesis by (auto simp: recent_def dest: in_set_dropD)
  qed
  also have "recent (length (prev @ cur)) seen = prev @ cur" by (simp add: recent_def r(1))
  finally show "set (recent n seen) \<subseteq> hl_previous l \<union> hl_current l" using r(2,3) by simp
  have "set (prev @ cur) = set (recent (length (prev @ cur)) seen)" by (simp add: recent_def r(1))
  also have "\<dots> \<subseteq> set (recent (2 * n - 1) seen)" using r(4,5) by (intro recent_mono) auto
  finally show "hl_previous l \<union> hl_current l \<subseteq> set (recent (2 * n - 1) seen)" using r(2,3) by simp
qed

section \<open>Properties\<close>

text \<open>
  C39: a hash window answers exactly like a memory of its last \<open>capacity\<close> new hashes: a hash is
  refused if and only if it is one of them, so nothing never seen is ever refused.
\<close>

theorem hash_window_exact:
  "window_run (hash_window_new n) hs = window_spec n [] hs"
  by (rule window_run_spec) (simp add: window_rep_def hash_window_new_def recent_def)

text \<open>
  C39: the two-generation filter remembers at least the last \<open>capacity\<close> new hashes and at most
  the last \<open>2 * capacity - 1\<close>: a copy within the first bound is always dropped, and a hash
  outside the second always passes.
\<close>

theorem hash_list_memory:
  assumes "0 < n" "list_run (hash_list_new n) [] hs = (l, seen)"
  shows "(h \<in> set (recent n seen) \<longrightarrow> \<not> snd (hash_list_insert l h))
    \<and> (h \<notin> set (recent (2 * n - 1) seen) \<longrightarrow> snd (hash_list_insert l h))"
  using list_remembers[OF list_run_rep[OF list_rep_new[OF assms(1)] assms(2)]]
  by (auto simp: hash_list_insert_def Let_def)

theorem hash_list_memory_witness:
  "\<not> snd (hash_list_insert (fst (list_run (hash_list_new 2) [] [AddressHash 1, AddressHash 2, AddressHash 3]))
     (AddressHash 2))"
  using hash_list_memory[of 2 "[AddressHash 1, AddressHash 2, AddressHash 3]"
      "fst (list_run (hash_list_new 2) [] [AddressHash 1, AddressHash 2, AddressHash 3])"
      "[AddressHash 1, AddressHash 2, AddressHash 3]" "AddressHash 2"]
  by (simp add: prod_eq_iff hash_list_insert_def hash_list_new_def recent_def Let_def)

end
