(* ===== verification/PathRequest.thy ===== *)
theory PathRequest
  imports Packets
begin

text \<open>
  Destination names, \<open>crates/retinue/src/destination.rs\<close>, and path requests, \<open>path.rs\<close>. A
  \<open>str\<close> is the list of its UTF-8 bytes, and \<open>contains('.')\<close> is membership of that byte, which
  occurs in UTF-8 only as the character itself.
\<close>

section \<open>Destination names\<close>

definition DOT :: u8 where "DOT = 0x2E"

definition ascii :: "string \<Rightarrow> bytes" where
  "ascii s = map of_char s"

record destination_name =
  dn_expanded :: bytes
  dn_name_hash :: name_hash

fun join_aspects :: "bytes \<Rightarrow> bytes list \<Rightarrow> bytes option" where
  "join_aspects expanded [] = Some expanded"
| "join_aspects expanded (aspect # rest) =
     (if DOT \<in> set aspect then None else join_aspects (expanded @ [DOT] @ aspect) rest)"

definition try_new :: "sha256 \<Rightarrow> bytes \<Rightarrow> bytes list \<Rightarrow> destination_name option" where
  "try_new sha app_name aspects =
     (if DOT \<in> set app_name then None
      else map_option (\<lambda>expanded. \<lparr>dn_expanded = expanded, dn_name_hash = name_of sha expanded\<rparr>)
             (join_aspects app_name aspects))"

definition destination_hash :: "sha256 \<Rightarrow> name_hash \<Rightarrow> address_hash \<Rightarrow> address_hash" where
  "destination_hash sha name_hash identity_hash =
     address_of sha (name_slice name_hash @ address_slice identity_hash)"

definition plain_hash :: "sha256 \<Rightarrow> destination_name \<Rightarrow> address_hash" where
  "plain_hash sha d = address_of sha (name_slice (dn_name_hash d))"

section \<open>Requests\<close>

definition TAG_LEN :: nat where "TAG_LEN = 16"
definition CTX_PATH_RESPONSE :: u8 where "CTX_PATH_RESPONSE = 0x0B"

text \<open>\<open>DestinationName::new\<close> expects names without dots, which these are.\<close>

definition path_request_destination :: "sha256 \<Rightarrow> address_hash" where
  "path_request_destination sha =
     plain_hash sha (the (try_new sha (ascii ''rnstransport'') [ascii ''path'', ascii ''request'']))"

definition path_request_via ::
    "sha256 \<Rightarrow> address_hash \<Rightarrow> address_hash option \<Rightarrow> bytes \<Rightarrow> packet" where
  "path_request_via sha target requestor tag =
     \<lparr>pk_ifac = False, pk_header_type = Type1, pk_context_flag = False,
      pk_propagation = Broadcast, pk_destination_type = Plain, pk_packet_type = Data,
      pk_hops = 0, pk_transport = None, pk_destination = path_request_destination sha,
      pk_context = 0,
      pk_payload = address_slice target
        @ (case requestor of None \<Rightarrow> [] | Some r \<Rightarrow> address_slice r)
        @ take (min (length tag) TAG_LEN) tag\<rparr>"

definition path_request :: "sha256 \<Rightarrow> address_hash \<Rightarrow> bytes \<Rightarrow> packet" where
  "path_request sha target tag = path_request_via sha target None tag"

record path_req =
  pr_target :: address_hash
  pr_requestor :: "address_hash option"
  pr_tag :: bytes
  pr_tag_len :: nat

definition parse_path_request :: "sha256 \<Rightarrow> packet \<Rightarrow> path_req option" where
  "parse_path_request sha p =
    (if pk_packet_type p \<noteq> Data \<or> pk_destination_type p \<noteq> Plain
        \<or> pk_destination p \<noteq> path_request_destination sha then None
     else
       let payload = pk_payload p in
       case address_from_slice payload of
         None \<Rightarrow> None
       | Some target \<Rightarrow>
           let hash_len = ADDRESS_HASH_LEN;
               (requestor, tag) =
                 (if 2 * hash_len < length payload
                  then (address_from_slice (drop hash_len payload), drop (2 * hash_len) payload)
                  else (None, drop hash_len payload));
               tag = take (min (length tag) TAG_LEN) tag
           in Some \<lparr>pr_target = target, pr_requestor = requestor,
                pr_tag = tag @ replicate (TAG_LEN - length tag) 0, pr_tag_len = length tag\<rparr>)"

definition parse_request :: "sha256 \<Rightarrow> packet \<Rightarrow> address_hash option" where
  "parse_request sha p = map_option pr_target (parse_path_request sha p)"

definition request_tag :: "path_req \<Rightarrow> bytes option" where
  "request_tag r = (if 0 < pr_tag_len r then Some (take (pr_tag_len r) (pr_tag r)) else None)"

definition unique_tag :: "sha256 \<Rightarrow> path_req \<Rightarrow> address_hash option" where
  "unique_tag sha r =
     map_option (\<lambda>tag. address_of sha (address_slice (pr_target r) @ tag)) (request_tag r)"

section \<open>Lemmas\<close>

lemma path_names: "try_new sha (ascii ''rnstransport'') [ascii ''path'', ascii ''request'']
    = Some \<lparr>dn_expanded = ascii ''rnstransport.path.request'',
        dn_name_hash = name_of sha (ascii ''rnstransport.path.request'')\<rparr>"
  by (simp add: try_new_def ascii_def DOT_def)

lemma join_aspects_Some:
  "join_aspects e as = Some x \<longleftrightarrow> (\<forall>a \<in> set as. DOT \<notin> set a) \<and> x = e @ concat (map ((#) DOT) as)"
  by (induction as arbitrary: e) auto

text \<open>The dots of an expanded name are exactly the separators, so it determines its parts.\<close>

lemma dotted_head: "concat (map ((#) DOT) as) = x # xs \<Longrightarrow> x = DOT"
  by (cases as) auto

lemma split_at_dot:
  "DOT \<notin> set a \<Longrightarrow> DOT \<notin> set b \<Longrightarrow> a @ concat (map ((#) DOT) as) = b @ concat (map ((#) DOT) bs) \<Longrightarrow>
     a = b \<and> concat (map ((#) DOT) as) = concat (map ((#) DOT) bs)"
proof (induction a arbitrary: b)
  case Nil
  show ?case
  proof (cases b)
    case (Cons y ys)
    with Nil dotted_head[of as y "ys @ concat (map ((#) DOT) bs)"] show ?thesis by simp
  qed (use Nil in simp)
next
  case (Cons x a)
  show ?case
  proof (cases b)
    case b: Nil
    with Cons.prems dotted_head[of bs x "a @ concat (map ((#) DOT) as)"] show ?thesis by simp
  next
    case b: (Cons y ys)
    with Cons.prems Cons.IH[of ys] show ?thesis by simp
  qed
qed

lemma aspects_inject:
  "\<forall>a \<in> set as. DOT \<notin> set a \<Longrightarrow> \<forall>b \<in> set bs. DOT \<notin> set b \<Longrightarrow>
     concat (map ((#) DOT) as) = concat (map ((#) DOT) bs) \<Longrightarrow> as = bs"
proof (induction as arbitrary: bs)
  case Nil
  then show ?case by (cases bs) simp_all
next
  case (Cons a as)
  then obtain b bs' where bs: "bs = b # bs'" by (cases bs) auto
  with Cons.prems have "a = b \<and> concat (map ((#) DOT) as) = concat (map ((#) DOT) bs')"
    by (intro split_at_dot) simp_all
  with Cons.prems Cons.IH[of bs'] bs show ?case by simp
qed

section \<open>Properties\<close>

text \<open>
  A destination name is determined by its dotted form: two names that both exist and expand
  to the same string have the same app name and the same aspects, so distinct names are never
  confused by the join.
\<close>

theorem expanded_name_unique:
  assumes "try_new sha app as = Some d" "try_new sha app' as' = Some d'"
    "dn_expanded d = dn_expanded d'"
  shows "app = app' \<and> as = as'"
proof -
  have a: "DOT \<notin> set app" "\<forall>a \<in> set as. DOT \<notin> set a" "dn_expanded d = app @ concat (map ((#) DOT) as)"
    using assms(1) by (auto simp: try_new_def join_aspects_Some split: if_splits)
  have b: "DOT \<notin> set app'" "\<forall>a \<in> set as'. DOT \<notin> set a" "dn_expanded d' = app' @ concat (map ((#) DOT) as')"
    using assms(2) by (auto simp: try_new_def join_aspects_Some split: if_splits)
  from split_at_dot[OF a(1) b(1)] assms(3) a(3) b(3)
  have "app = app'" "concat (map ((#) DOT) as) = concat (map ((#) DOT) as')" by auto
  with aspects_inject[OF a(2) b(2)] show ?thesis by simp
qed

theorem expanded_name_unique_witness:
  "ascii ''rnstransport'' = ascii ''rnstransport''
    \<and> [ascii ''path'', ascii ''request''] = [ascii ''path'', ascii ''request'']"
  by (rule expanded_name_unique[OF path_names[of "\<lambda>_. 0"] path_names[of "\<lambda>_. 0"]]) simp

text \<open>
  A path request is read back as it was built: target, requesting transport and tag (cut to
  16 bytes), provided it carries a tag when it names a transport, as every request does.
\<close>

theorem path_request_roundtrip:
  assumes "requestor = None \<or> tag \<noteq> []"
  shows "\<exists>r. parse_path_request sha (path_request_via sha target requestor tag) = Some r
    \<and> pr_target r = target \<and> pr_requestor r = requestor
    \<and> request_tag r = (if tag = [] then None else Some (take 16 tag))"
proof (cases requestor)
  case None
  then show ?thesis
    by (simp add: parse_path_request_def path_request_via_def Let_def TAG_LEN_def request_tag_def
        min_def)
next
  case (Some q)
  with assms have "0 < length tag" by simp
  with Some show ?thesis
    by (simp add: parse_path_request_def path_request_via_def Let_def TAG_LEN_def request_tag_def
        min_def)
qed

theorem path_request_roundtrip_witness:
  "\<exists>r. parse_path_request (\<lambda>_. 0) (path_request_via (\<lambda>_. 0) (AddressHash 3) (Some (AddressHash 4)) [9]) = Some r
    \<and> pr_target r = AddressHash 3 \<and> pr_requestor r = Some (AddressHash 4)
    \<and> request_tag r = Some [9]"
  using path_request_roundtrip[of "Some (AddressHash 4)" "[9]" "\<lambda>_. 0" "AddressHash 3"] by simp

end
