(* ===== verification/Timebase.thy ===== *)
theory Timebase
  imports Hashes
begin

text \<open>
  The nonce-and-timebase blob of an announce and the generator of its timebases,
  \<open>crates/retinue/src/announce.rs\<close>. The ten bytes of a blob are the 80-bit word they spell, the
  five of a nonce a 40-bit word; timebases are \<open>u64\<close> values as naturals, with the range checks and
  the checked addition of the code.
\<close>

section \<open>Blobs\<close>

definition RAND_HASH_LEN :: nat where "RAND_HASH_LEN = 10"
definition ANNOUNCE_NONCE_LEN :: nat where "ANNOUNCE_NONCE_LEN = 5"
definition ANNOUNCE_TIMEBASE_MAX :: nat where "ANNOUNCE_TIMEBASE_MAX = 2 ^ 40 - 1"

datatype timebase_error = OutOfRange | InvalidBounds | Exhausted

datatype announce_blob = AnnounceBlob (blob_word: "80 word")

definition into_bytes :: "announce_blob \<Rightarrow> bytes" where
  "into_bytes b = to_be RAND_HASH_LEN (blob_word b)"

definition mint :: "40 word \<Rightarrow> nat \<Rightarrow> timebase_error + announce_blob" where
  "mint nonce timebase =
    (if ANNOUNCE_TIMEBASE_MAX < timebase then Inl OutOfRange
     else Inr (AnnounceBlob (of_be (to_be ANNOUNCE_NONCE_LEN nonce @ drop 3 (nat_be 8 timebase)))))"

definition nonce :: "announce_blob \<Rightarrow> 40 word" where
  "nonce b = of_be (take ANNOUNCE_NONCE_LEN (into_bytes b))"

definition timebase :: "announce_blob \<Rightarrow> nat" where
  "timebase b =
    (let byte = (\<lambda>i. ucast (into_bytes b ! (ANNOUNCE_NONCE_LEN + i)) :: u64) in
     unat (push_bit 32 (byte 0) OR push_bit 24 (byte 1) OR push_bit 16 (byte 2)
       OR push_bit 8 (byte 3) OR byte 4))"

lemma length_into_bytes [simp]: "length (into_bytes b) = 10"
  by (simp add: into_bytes_def RAND_HASH_LEN_def)

lemma list10:
  assumes "length xs = 10"
  obtains x0 x1 x2 x3 x4 x5 x6 x7 x8 x9 where "xs = [x0, x1, x2, x3, x4, x5, x6, x7, x8, x9]"
proof -
  have "length xs = Suc (Suc (Suc (Suc (Suc (Suc (Suc (Suc (Suc (Suc 0)))))))))" using assms by simp
  then show ?thesis using that by (auto simp: length_Suc_conv)
qed

lemma push_or_add:
  fixes a b :: u64
  assumes "unat b < 2 ^ k"
  shows "push_bit k a OR b = push_bit k a + b"
proof -
  have bits: "\<not> bit b n" if "k \<le> n" for n
  proof
    assume "bit b n"
    then have "bit (unat b) n" by (simp add: bit_unsigned_iff)
    moreover have "take_bit k (unat b) = unat b" using assms by (simp add: take_bit_nat_eq_self)
    ultimately show False using that by (metis bit_take_bit_iff leD)
  qed
  have "push_bit k a AND b = 0" by (rule bit_eqI) (auto simp: bit_simps bits)
  then show ?thesis by (simp add: disjunctive_add_eq_or)
qed

lemma unat_shift_byte:
  assumes "k \<le> 32"
  shows "unat (push_bit k (ucast (x :: u8) :: u64)) = unat x * 2 ^ k"
proof -
  have "unat x * 2 ^ k \<le> 255 * 2 ^ 32"
    using u8_less[of x] assms by (intro mult_le_mono power_increasing) auto
  also have "\<dots> < 2 ^ 64" by simp
  finally have "(unat x * 2 ^ k) mod 2 ^ 64 = unat x * 2 ^ k" by simp
  moreover have "unat (ucast x :: u64) = unat x"
    by (simp add: unat_ucast_byte)
  ultimately show ?thesis
    unfolding unsigned_push_bit_eq by (simp add: push_bit_eq_mult take_bit_eq_mod)
qed

lemma unat_shift_or:
  fixes b :: u64
  assumes "unat b < 2 ^ k" "k \<le> 32"
  shows "unat (push_bit k (ucast (x :: u8)) OR b) = unat x * 2 ^ k + unat b"
proof -
  have "unat x * 2 ^ k + unat b < (unat x + 1) * 2 ^ k" using assms(1) by simp
  also have "\<dots> \<le> 256 * 2 ^ 32"
    using u8_less[of x] assms(2) by (intro mult_le_mono power_increasing) auto
  finally have "unat x * 2 ^ k + unat b < 2 ^ 64" by simp
  then show ?thesis
    using assms by (simp add: push_or_add unat_word_ariths unat_shift_byte)
qed

lemma timebase_be_nat: "timebase b = be_nat (drop ANNOUNCE_NONCE_LEN (into_bytes b))"
proof -
  obtain x0 x1 x2 x3 x4 x5 x6 x7 x8 x9 where
    bytes: "into_bytes b = [x0, x1, x2, x3, x4, x5, x6, x7, x8, x9]"
    by (rule list10[OF length_into_bytes])
  have u9: "unat (ucast x9 :: u64) = unat x9" by (rule unat_ucast_byte)
  note lt = u8_less[of x5] u8_less[of x6] u8_less[of x7] u8_less[of x8] u8_less[of x9]
  have "unat (push_bit 8 (ucast x8 :: u64) OR ucast x9) = unat x8 * 2 ^ 8 + unat x9"
    by (subst unat_shift_or) (use lt u9 in auto)
  note s8 = this
  have "unat (push_bit 16 (ucast x7 :: u64) OR push_bit 8 (ucast x8) OR ucast x9)
      = unat x7 * 2 ^ 16 + (unat x8 * 2 ^ 8 + unat x9)"
    by (subst unat_shift_or) (use lt s8 in auto)
  note s7 = this
  have "unat (push_bit 24 (ucast x6 :: u64) OR push_bit 16 (ucast x7) OR push_bit 8 (ucast x8)
        OR ucast x9)
      = unat x6 * 2 ^ 24 + (unat x7 * 2 ^ 16 + (unat x8 * 2 ^ 8 + unat x9))"
    by (subst unat_shift_or) (use lt s7 in auto)
  note s6 = this
  have "unat (push_bit 32 (ucast x5 :: u64) OR push_bit 24 (ucast x6) OR push_bit 16 (ucast x7)
        OR push_bit 8 (ucast x8) OR ucast x9)
      = unat x5 * 2 ^ 32 + (unat x6 * 2 ^ 24 + (unat x7 * 2 ^ 16 + (unat x8 * 2 ^ 8 + unat x9)))"
    by (subst unat_shift_or) (use lt s6 in auto)
  then show ?thesis
    by (simp add: timebase_def bytes ANNOUNCE_NONCE_LEN_def Let_def)
qed

lemma timebase_le: "timebase b \<le> ANNOUNCE_TIMEBASE_MAX"
  using be_nat_less[of "drop 5 (into_bytes b)"]
  by (simp add: timebase_be_nat ANNOUNCE_NONCE_LEN_def ANNOUNCE_TIMEBASE_MAX_def)

section \<open>The generator\<close>

record timebase_generator =
  tg_last_emitted :: nat
  tg_reserved_through :: nat

definition timebase_new :: "nat \<Rightarrow> nat \<Rightarrow> timebase_error + timebase_generator" where
  "timebase_new last_emitted reserved_through =
    (if ANNOUNCE_TIMEBASE_MAX < last_emitted \<or> ANNOUNCE_TIMEBASE_MAX < reserved_through
     then Inl OutOfRange
     else if reserved_through < last_emitted then Inl InvalidBounds
     else Inr \<lparr>tg_last_emitted = last_emitted, tg_reserved_through = reserved_through\<rparr>)"

definition timebase_host :: "nat \<Rightarrow> timebase_error + timebase_generator" where
  "timebase_host last_emitted = timebase_new last_emitted ANNOUNCE_TIMEBASE_MAX"

definition firmware_lease :: "nat \<Rightarrow> nat \<Rightarrow> timebase_error + timebase_generator" where
  "firmware_lease last_emitted reserved_through = timebase_new last_emitted reserved_through"

definition timebase_next ::
    "timebase_generator \<Rightarrow> nat \<Rightarrow> timebase_generator \<times> (timebase_error + nat)" where
  "timebase_next g source_seconds =
    (if ANNOUNCE_TIMEBASE_MAX < source_seconds then (g, Inl OutOfRange)
     else
       case checked_add u64_max (tg_last_emitted g) 1 of
         None \<Rightarrow> (g, Inl Exhausted)
       | Some after_last \<Rightarrow>
           let nxt = max source_seconds after_last in
           if tg_reserved_through g < nxt then (g, Inl Exhausted)
           else (g\<lparr>tg_last_emitted := nxt\<rparr>, Inr nxt))"

section \<open>Properties\<close>

text \<open>A generator asked again and again: the timebases it handed out, in order.\<close>

fun timebase_run :: "timebase_generator \<Rightarrow> nat list \<Rightarrow> timebase_generator \<times> nat list" where
  "timebase_run g [] = (g, [])"
| "timebase_run g (s # ss) =
     (let (g, r) = timebase_next g s; (g', ts) = timebase_run g ss
      in (g', (case r of Inl _ \<Rightarrow> ts | Inr t \<Rightarrow> t # ts)))"

lemma mint_cases:
  "mint n t = (if t \<le> ANNOUNCE_TIMEBASE_MAX then
     Inr (AnnounceBlob (of_be (to_be 5 n @ nat_be 5 t))) else Inl OutOfRange)"
proof -
  have eight: "(8 :: nat) = Suc (Suc (Suc 5))" and three: "(3 :: nat) = Suc (Suc (Suc 0))"
    by simp_all
  have "drop 3 (nat_be 8 t) = nat_be 5 t"
    unfolding eight three by (simp only: nat_be.simps drop_Suc_Cons drop_0)
  then show ?thesis by (auto simp: mint_def ANNOUNCE_NONCE_LEN_def)
qed

lemma mint_bytes: "mint n t = Inr b \<Longrightarrow> into_bytes b = to_be 5 n @ nat_be 5 t"
  using to_be_of_be[of "to_be 5 n @ nat_be 5 t", where 'a = 80]
  by (auto simp: mint_cases into_bytes_def RAND_HASH_LEN_def split: if_splits)

lemma blob_value:
  "(case mint n t of
      Inr b \<Rightarrow> t < 2 ^ 40 \<and> nonce b = n \<and> timebase b = t \<and> length (into_bytes b) = 10
    | Inl e \<Rightarrow> 2 ^ 40 \<le> t \<and> e = OutOfRange)"
proof (cases "mint n t")
  case (Inl e)
  then show ?thesis by (auto simp: mint_cases ANNOUNCE_TIMEBASE_MAX_def split: if_splits)
next
  case (Inr b)
  then have t: "t < 256 ^ 5" by (auto simp: mint_cases ANNOUNCE_TIMEBASE_MAX_def split: if_splits)
  with mint_bytes[OF Inr] have "timebase b = t" "nonce b = n"
    by (simp_all add: timebase_be_nat nonce_def ANNOUNCE_NONCE_LEN_def be_nat_nat_be of_be_to_be)
  with Inr t show ?thesis by simp
qed

text \<open>
  A blob minted from a nonce and a timebase reads back as exactly that nonce and that
  timebase, every timebase that fits forty bits can be minted and a larger one is refused.
\<close>
theorem blob_roundtrip:
  "(case mint n t of
      Inr b \<Rightarrow> t < 2 ^ 40 \<and> nonce b = n \<and> timebase b = t \<and> length (into_bytes b) = 10
    | Inl e \<Rightarrow> 2 ^ 40 \<le> t \<and> e = OutOfRange)"
  by (rule blob_value)

lemma timebase_next_cases:
  assumes "timebase_next g s = (g', r)"
  obtains e where "g' = g" "r = Inl e"
  | t where "t = max s (tg_last_emitted g + 1)" "t \<le> tg_reserved_through g"
      "g' = g\<lparr>tg_last_emitted := t\<rparr>" "r = Inr t"
proof (cases r)
  case (Inl e)
  then have "g' = g" using assms
    by (simp add: timebase_next_def checked_add_def Let_def split: if_splits)
  then show ?thesis using Inl by (rule that(1))
next
  case (Inr t)
  then have "t = max s (tg_last_emitted g + 1) \<and> t \<le> tg_reserved_through g
      \<and> g' = g\<lparr>tg_last_emitted := t\<rparr>"
    using assms
    by (simp add: timebase_next_def checked_add_def Let_def split: if_splits) (elim conjE, hypsubst, simp)
  with Inr show ?thesis by (elim conjE) (rule that(2))
qed

lemma timebase_run_bounds:
  assumes "timebase_run g ss = (g', ts)"
  shows "tg_reserved_through g' = tg_reserved_through g" "sorted_wrt (<) ts"
    "\<forall>t \<in> set ts. tg_last_emitted g < t \<and> t \<le> tg_reserved_through g"
    "tg_last_emitted g' = (if ts = [] then tg_last_emitted g else last ts)"
proof -
  have "tg_reserved_through g' = tg_reserved_through g \<and> sorted_wrt (<) ts
     \<and> (\<forall>t \<in> set ts. tg_last_emitted g < t \<and> t \<le> tg_reserved_through g)
     \<and> tg_last_emitted g' = (if ts = [] then tg_last_emitted g else last ts)"
    using assms
  proof (induction ss arbitrary: g ts)
    case Nil
    then show ?case by simp
  next
    case (Cons s ss)
    obtain g1 r where nxt: "timebase_next g s = (g1, r)" by fastforce
    obtain ts1 where run: "timebase_run g1 ss = (g', ts1)"
      and ts: "ts = (case r of Inl _ \<Rightarrow> ts1 | Inr t \<Rightarrow> t # ts1)"
      using Cons.prems nxt by (auto simp: Let_def split: prod.splits)
    note IH = Cons.IH[OF run]
    from nxt show ?case
    proof (rule timebase_next_cases)
      fix t assume t: "t = max s (tg_last_emitted g + 1)" "t \<le> tg_reserved_through g"
        "g1 = g\<lparr>tg_last_emitted := t\<rparr>" "r = Inr t"
      have IH1: "tg_reserved_through g' = tg_reserved_through g" "sorted_wrt (<) ts1"
        "\<forall>x \<in> set ts1. t < x \<and> x \<le> tg_reserved_through g"
        "tg_last_emitted g' = (if ts1 = [] then t else last ts1)"
        using IH t(3) by simp_all
      have "tg_last_emitted g < t" using t(1) by simp
      with IH1 t(2) show ?case by (auto simp: ts t(4) intro: less_trans)
    qed (use IH ts in simp)
  qed
  then show "tg_reserved_through g' = tg_reserved_through g" "sorted_wrt (<) ts"
    "\<forall>t \<in> set ts. tg_last_emitted g < t \<and> t \<le> tg_reserved_through g"
    "tg_last_emitted g' = (if ts = [] then tg_last_emitted g else last ts)" by blast+
qed

text \<open>
  C40: A generator asked any number of times, over any clock readings (repeated, going backwards
  or out of range), hands out strictly increasing timebases, all newer than the value it started
  from and none above its reservation; a later generator leased from the earlier reservation
  only hands out timebases newer than all of them; and every one of them can be minted.
\<close>
theorem timebases_strictly_increase:
  assumes "timebase_new last_emitted reserved = Inr g"
    and "timebase_run g clock = (g', ts)"
    and "firmware_lease reserved reserved' = Inr h"
    and "timebase_run h clock' = (h', ts')"
  shows "sorted_wrt (<) (last_emitted # ts @ ts')
    \<and> list_all (\<lambda>t. \<exists>b. mint n t = Inr b \<and> timebase b = t) (ts @ ts')"
proof -
  have g: "tg_last_emitted g = last_emitted" "tg_reserved_through g = reserved"
      "reserved \<le> ANNOUNCE_TIMEBASE_MAX"
    and h: "tg_last_emitted h = reserved" "tg_reserved_through h = reserved'"
      "reserved' \<le> ANNOUNCE_TIMEBASE_MAX" "last_emitted \<le> reserved"
    using assms(1,3) by (auto simp: timebase_new_def firmware_lease_def split: if_splits)
  note ts = timebase_run_bounds[OF assms(2), unfolded g]
    and ts' = timebase_run_bounds[OF assms(4), unfolded h]
  have "\<exists>b. mint n t = Inr b \<and> timebase b = t" if "t \<le> ANNOUNCE_TIMEBASE_MAX" for t
    using blob_value[where n = n and t = t] that
    by (cases "mint n t") (simp_all add: ANNOUNCE_TIMEBASE_MAX_def)
  moreover have "sorted_wrt (<) (last_emitted # ts @ ts')"
  proof -
    have "\<forall>t \<in> set ts. last_emitted < t \<and> t \<le> reserved" using ts(3) .
    moreover have "\<forall>t \<in> set ts'. reserved < t" using ts'(3) by blast
    ultimately have "\<forall>t \<in> set ts. \<forall>t' \<in> set ts'. t < t'" "\<forall>t \<in> set (ts @ ts'). last_emitted < t"
      using h(4) by (auto dest: le_less_trans)
    then show ?thesis using ts(2) ts'(2) by (simp add: sorted_wrt_append)
  qed
  ultimately show ?thesis
    using ts(3) ts'(3) g(3) h(3) by (simp only: list_all_iff set_append Un_iff) (blast intro: le_trans)
qed

lemma timebases_strictly_increase_witness:
  "sorted_wrt (<) (100 # [101, 102, 200, 201] @ [301, 5000 :: nat])
    \<and> list_all (\<lambda>t. \<exists>b. mint 7 t = Inr b \<and> timebase b = t) ([101, 102, 200, 201] @ [301, 5000])"
proof (rule timebases_strictly_increase)
  show "timebase_new 100 300 = Inr \<lparr>tg_last_emitted = 100, tg_reserved_through = 300\<rparr>"
    "firmware_lease 300 6000 = Inr \<lparr>tg_last_emitted = 300, tg_reserved_through = 6000\<rparr>"
    by (simp_all add: timebase_new_def firmware_lease_def ANNOUNCE_TIMEBASE_MAX_def)
  show "timebase_run \<lparr>tg_last_emitted = 100, tg_reserved_through = 300\<rparr> [50, 102, 200, 200, 999]
      = (\<lparr>tg_last_emitted = 201, tg_reserved_through = 300\<rparr>, [101, 102, 200, 201])"
    "timebase_run \<lparr>tg_last_emitted = 300, tg_reserved_through = 6000\<rparr> [10, 5000]
      = (\<lparr>tg_last_emitted = 5000, tg_reserved_through = 6000\<rparr>, [301, 5000])"
    by (simp_all add: timebase_next_def ANNOUNCE_TIMEBASE_MAX_def checked_add_def u64_max_def)
qed

end
