(* ===== verification/SortedMap.thy ===== *)
theory SortedMap
  imports Interfaces
begin

text \<open>
  \<open>BTreeMap\<close> as the list of its entries in ascending key order: lookup, insertion, removal and
  \<open>pop_first\<close>, with the laws a table built on it uses. The laws are an interface of their own,
  interpreted here on the list.
\<close>

fun bm_insert :: "'k::linorder \<Rightarrow> 'v \<Rightarrow> ('k \<times> 'v) list \<Rightarrow> ('k \<times> 'v) list" where
  "bm_insert k v [] = [(k, v)]"
| "bm_insert k v ((k', v') # m) =
     (if k < k' then (k, v) # (k', v') # m
      else if k = k' then (k, v) # m
      else (k', v') # bm_insert k v m)"

definition bm_remove :: "'k \<Rightarrow> ('k \<times> 'v) list \<Rightarrow> ('k \<times> 'v) list" where
  "bm_remove k m = filter (\<lambda>e. fst e \<noteq> k) m"

definition bm_ok :: "('k::linorder \<times> 'v) list \<Rightarrow> bool" where
  "bm_ok m \<longleftrightarrow> sorted_wrt (<) (map fst m)"

named_theorems bm_simps \<open>laws of the ordered map\<close>

lemma bm_ok_Nil [bm_simps]: "bm_ok []"
  by (simp add: bm_ok_def)

lemma bm_ok_Cons: "bm_ok (e # m) \<longleftrightarrow> (\<forall>k \<in> fst ` set m. fst e < k) \<and> bm_ok m"
  by (auto simp: bm_ok_def)

lemma fst_bm_insert [bm_simps]: "fst ` set (bm_insert k v m) = insert k (fst ` set m)"
  by (induction k v m rule: bm_insert.induct) (simp_all, blast)

lemma bm_ok_insert [bm_simps]: "bm_ok m \<Longrightarrow> bm_ok (bm_insert k v m)"
proof (induction m)
  case (Cons e m)
  obtain k' v' where e: "e = (k', v')" by fastforce
  consider "k < k'" | "k = k'" | "k' < k" by fastforce
  then show ?case
  proof cases
    case 3
    then have "bm_insert k v (e # m) = (k', v') # bm_insert k v m" by (auto simp: e)
    moreover have "\<forall>x \<in> fst ` set (bm_insert k v m). k' < x"
      using Cons.prems 3 by (auto simp: fst_bm_insert bm_ok_Cons e)
    ultimately show ?thesis using Cons by (simp add: bm_ok_Cons e)
  next
    case 1
    then have "\<forall>x \<in> fst ` set m. k < x" using Cons.prems by (auto simp: bm_ok_Cons e)
    with 1 Cons.prems show ?thesis by (simp add: e bm_ok_Cons)
  qed (use Cons in \<open>simp add: e bm_ok_Cons\<close>)
qed (simp add: bm_ok_def)

lemma bm_ok_remove [bm_simps]: "bm_ok m \<Longrightarrow> bm_ok (bm_remove k m)"
  by (induction m) (auto simp: bm_remove_def bm_ok_def)

lemma map_of_bm_insert [bm_simps]: "bm_ok m \<Longrightarrow> map_of (bm_insert k v m) = (map_of m)(k \<mapsto> v)"
proof (induction m)
  case (Cons e m)
  obtain k' v' where e: "e = (k', v')" by fastforce
  have "k \<notin> fst ` set m" if "k < k'" using Cons.prems that by (auto simp: bm_ok_Cons e)
  with Cons show ?case by (auto simp: e bm_ok_Cons fun_eq_iff)
qed simp

lemma map_of_bm_remove [bm_simps]: "map_of (bm_remove k m) = (map_of m)(k := None)"
  by (induction m) (auto simp: bm_remove_def)

lemma bm_ok_distinct: "bm_ok m \<Longrightarrow> distinct (map fst m)"
  by (simp add: bm_ok_def strict_sorted_iff)

lemma length_bm_insert [bm_simps]:
  "bm_ok m \<Longrightarrow> length (bm_insert k v m) = (if map_of m k = None then Suc (length m) else length m)"
proof (induction m)
  case (Cons e m)
  obtain k' v' where e: "e = (k', v')" by fastforce
  have "map_of m k = None" if "k < k'"
    using Cons.prems that by (auto simp: bm_ok_Cons e map_of_eq_None_iff)
  with Cons show ?case by (auto simp: e bm_ok_Cons)
qed simp

lemma length_bm_remove [bm_simps]:
  "bm_ok m \<Longrightarrow> length (bm_remove k m) = (if map_of m k = None then length m else length m - 1)"
proof (induction m)
  case (Cons e m)
  obtain k' v' where e: "e = (k', v')" by fastforce
  have none: "bm_remove k' m = m" if "bm_ok (e # m)"
    using that by (auto simp: bm_remove_def bm_ok_Cons e filter_id_conv)
  have pos: "0 < length m" if "map_of m k \<noteq> None" using that by (cases m) auto
  show ?case
  proof (cases "k' = k")
    case True
    then show ?thesis using none Cons.prems by (simp add: bm_remove_def e)
  next
    case False
    then show ?thesis using Cons pos by (auto simp: bm_remove_def e bm_ok_Cons)
  qed
qed (simp add: bm_remove_def)

lemma bm_length_card: "bm_ok m \<Longrightarrow> length m = card (dom (map_of m))"
  by (metis bm_ok_distinct card_image distinct_card distinct_map dom_map_of_conv_image_fst length_map list.set_map)

lemma bm_ok_map_values [bm_simps]: "bm_ok (map (\<lambda>(k, v). (k, f k v)) m) = bm_ok m"
proof -
  have "map fst (map (\<lambda>(k, v). (k, f k v)) m) = map fst m" by (induction m) auto
  then show ?thesis by (simp only: bm_ok_def)
qed

lemma map_of_map_values [bm_simps]:
  "map_of (map (\<lambda>(k, v). (k, f k v)) m) k = map_option (f k) (map_of m k)"
  by (induction m) auto

text \<open>The interface a table sees, and the list as its provider.\<close>

locale keyed_map =
  fixes get :: "'m \<Rightarrow> 'k \<Rightarrow> 'v option" and put :: "'k \<Rightarrow> 'v \<Rightarrow> 'm \<Rightarrow> 'm"
    and del :: "'k \<Rightarrow> 'm \<Rightarrow> 'm" and ok :: "'m \<Rightarrow> bool"
  assumes get_put: "ok m \<Longrightarrow> get (put k v m) = (get m)(k \<mapsto> v)"
    and get_del: "ok m \<Longrightarrow> get (del k m) = (get m)(k := None)"
    and ok_put: "ok m \<Longrightarrow> ok (put k v m)" and ok_del: "ok m \<Longrightarrow> ok (del k m)"
begin

text \<open>A move of an entry to another key, as a table does when it renumbers.\<close>

lemma get_move: "ok m \<Longrightarrow> get (put k' v (del k m)) x =
    (if x = k' then Some v else if x = k then None else get m x)"
  by (simp add: get_put get_del ok_del)

lemma put_put: "ok m \<Longrightarrow> get (put k v (put k w m)) = get (put k v m)"
  by (simp add: get_put ok_put)

end

interpretation bm: keyed_map map_of bm_insert bm_remove bm_ok
  by unfold_locales (simp_all add: bm_simps)

end
