(* ===== verification/Freshness.thy ===== *)
theory Freshness
  imports Timebase SortedMap "HOL-Library.While_Combinator"
begin

text \<open>
  Announce freshness, \<open>crates/retinue/src/announce_freshness.rs\<close>: a bounded table of the blobs that
  each live route has admitted. Both \<open>BTreeMap\<close>s are ordered maps of \<open>SortedMap\<close>, a \<open>VecDeque\<close>
  is a list with its oldest element first, and \<open>next_order\<close> is a \<open>u64\<close> as a natural, renumbered at
  the type's largest value as the code does.
\<close>

section \<open>Configuration, candidates and decisions\<close>

record freshness_config =
  fc_destination_capacity :: nat
  fc_blob_capacity :: nat

datatype freshness_config_error = ZeroDestinationCapacity | ZeroBlobCapacity

definition freshness_validate :: "freshness_config \<Rightarrow> freshness_config_error + freshness_config" where
  "freshness_validate c =
    (if fc_destination_capacity c = 0 then Inl ZeroDestinationCapacity
     else if fc_blob_capacity c = 0 then Inl ZeroBlobCapacity
     else Inr c)"

record freshness_candidate =
  cand_destination :: address_hash
  cand_blob :: announce_blob

definition candidate_timebase :: "freshness_candidate \<Rightarrow> nat" where
  "candidate_timebase c = timebase (cand_blob c)"

datatype freshness_accept = FirstSighting | NewerTimebase
datatype freshness_reject = Replay | StaleTimebase
datatype freshness_decision = Accept freshness_accept | Reject freshness_reject

definition is_accepted :: "freshness_decision \<Rightarrow> bool" where
  "is_accepted d \<longleftrightarrow> (case d of Accept _ \<Rightarrow> True | Reject _ \<Rightarrow> False)"

record freshness_record =
  fcr_evicted_blob :: "announce_blob option"
  fcr_evicted_destination :: "address_hash option"

record freshness_reconfigure =
  frc_evicted_blobs :: nat
  frc_evicted_destinations :: "address_hash list"

section \<open>The table\<close>

record row =
  row_timebase :: nat
  row_blobs :: "announce_blob list"
  row_order :: nat

record freshness =
  fr_config :: freshness_config
  fr_rows :: "(address_hash \<times> row) list"
  fr_by_age :: "(nat \<times> address_hash) list"
  fr_next_order :: nat

definition freshness_new :: "freshness_config \<Rightarrow> freshness_config_error + freshness" where
  "freshness_new c = map_sum id
     (\<lambda>c. \<lparr>fr_config = c, fr_rows = [], fr_by_age = [], fr_next_order = 0\<rparr>) (freshness_validate c)"

definition evict_oldest :: "freshness \<Rightarrow> freshness \<times> address_hash option" where
  "evict_oldest f =
    (case fr_by_age f of
       [] \<Rightarrow> (f, None)
     | (_, destination) # rest \<Rightarrow>
         (f\<lparr>fr_by_age := rest, fr_rows := bm_remove destination (fr_rows f)\<rparr>, Some destination))"

text \<open>The loop over the destinations in age order, with the rank it has reached.\<close>

fun renumber :: "nat \<Rightarrow> address_hash list \<Rightarrow> freshness \<Rightarrow> freshness" where
  "renumber rank [] f = f"
| "renumber rank (destination # ordered) f =
     (let rows = (case map_of (fr_rows f) destination of
                    Some row \<Rightarrow> bm_insert destination (row\<lparr>row_order := rank\<rparr>) (fr_rows f)
                  | None \<Rightarrow> fr_rows f)
      in renumber (rank + 1) ordered
           (f\<lparr>fr_rows := rows, fr_by_age := bm_insert rank destination (fr_by_age f)\<rparr>))"

definition take_order :: "freshness \<Rightarrow> freshness \<times> nat" where
  "take_order f =
    (let f = (if fr_next_order f = u64_max then
                let ordered = map snd (fr_by_age f);
                    f = renumber 0 ordered (f\<lparr>fr_by_age := []\<rparr>)
                in f\<lparr>fr_next_order := length (fr_by_age f)\<rparr>
              else f);
         order = fr_next_order f
     in (f\<lparr>fr_next_order := order + 1\<rparr>, order))"

section \<open>Operations\<close>

text \<open>The eviction loop of \<open>reconfigure\<close>: it runs while the table holds more rows than the bound.\<close>

definition evict_rows :: "nat \<Rightarrow> freshness \<Rightarrow> freshness \<times> address_hash list" where
  "evict_rows capacity f =
    while (\<lambda>(f, evicted). capacity < length (fr_rows f))
      (\<lambda>(f, evicted). let (f, d) = evict_oldest f
                     in (f, evicted @ (case d of None \<Rightarrow> [] | Some d \<Rightarrow> [d]))) (f, [])"

definition reconfigure ::
    "freshness \<Rightarrow> freshness_config \<Rightarrow> freshness \<times> (freshness_config_error + freshness_reconfigure)" where
  "reconfigure f c =
    (case freshness_validate c of
       Inl e \<Rightarrow> (f, Inl e)
     | Inr c \<Rightarrow>
         let excess = (\<lambda>row. length (row_blobs row) - fc_blob_capacity c);
             evicted_blobs = sum_list (map (excess \<circ> snd) (fr_rows f));
             f = f\<lparr>fr_config := c,
                   fr_rows := map (\<lambda>(d, row). (d, row\<lparr>row_blobs := drop (excess row) (row_blobs row)\<rparr>))
                     (fr_rows f)\<rparr>;
             (f, evicted_destinations) = evict_rows (fc_destination_capacity c) f
         in (f, Inr \<lparr>frc_evicted_blobs = evicted_blobs,
                    frc_evicted_destinations = evicted_destinations\<rparr>))"

definition evaluate :: "freshness \<Rightarrow> freshness_candidate \<Rightarrow> bool \<Rightarrow> freshness_decision" where
  "evaluate f c route_live =
    (case (case map_of (fr_rows f) (cand_destination c) of
             Some row \<Rightarrow> if route_live then Some row else None | None \<Rightarrow> None) of
       None \<Rightarrow> Accept FirstSighting
     | Some row \<Rightarrow>
         if row_timebase row < candidate_timebase c then Accept NewerTimebase
         else if cand_blob c \<in> set (row_blobs row) then Reject Replay
         else Reject StaleTimebase)"

definition record_accepted ::
    "freshness \<Rightarrow> freshness_candidate \<Rightarrow> freshness_accept \<Rightarrow> freshness \<times> freshness_record" where
  "record_accepted f c accepted_as =
    (let (f, order) = take_order f;
         (f, record) =
           (case map_of (fr_rows f) (cand_destination c) of
              Some row \<Rightarrow>
                let ages = bm_remove (row_order row) (fr_by_age f);
                    blobs = (if accepted_as = FirstSighting then [] else row_blobs row);
                    full = (fc_blob_capacity (fr_config f) \<le> length blobs);
                    evicted_blob = (if full then get_at blobs 0 else None);
                    blobs = (if full then drop 1 blobs else blobs);
                    row = row\<lparr>row_blobs := blobs @ [cand_blob c],
                              row_timebase := candidate_timebase c, row_order := order\<rparr>
                in (f\<lparr>fr_by_age := ages,
                      fr_rows := bm_insert (cand_destination c) row (fr_rows f)\<rparr>,
                    \<lparr>fcr_evicted_blob = evicted_blob, fcr_evicted_destination = None\<rparr>)
            | None \<Rightarrow>
                let (f, evicted) =
                      (if fc_destination_capacity (fr_config f) \<le> length (fr_rows f)
                       then evict_oldest f else (f, None))
                in (f\<lparr>fr_rows := bm_insert (cand_destination c)
                       \<lparr>row_timebase = candidate_timebase c, row_blobs = [cand_blob c],
                        row_order = order\<rparr> (fr_rows f)\<rparr>,
                    \<lparr>fcr_evicted_blob = None, fcr_evicted_destination = evicted\<rparr>))
     in (f\<lparr>fr_by_age := bm_insert order (cand_destination c) (fr_by_age f)\<rparr>, record))"

section \<open>Invariant\<close>

definition row_ok :: "nat \<Rightarrow> row \<Rightarrow> bool" where
  "row_ok capacity row \<longleftrightarrow> row_blobs row \<noteq> [] \<and> length (row_blobs row) \<le> capacity
     \<and> row_timebase row = timebase (last (row_blobs row))"

text \<open>Every row is in the age index under its own order, and the index holds nothing else.\<close>

definition linked :: "(address_hash \<rightharpoonup> row) \<Rightarrow> (nat \<rightharpoonup> address_hash) \<Rightarrow> bool" where
  "linked rows ages \<longleftrightarrow>
     (\<forall>k d. ages k = Some d \<longleftrightarrow> map_option row_order (rows d) = Some k)"

definition fresh_shape :: "freshness \<Rightarrow> bool" where
  "fresh_shape f \<longleftrightarrow> bm_ok (fr_rows f) \<and> bm_ok (fr_by_age f)
     \<and> linked (map_of (fr_rows f)) (map_of (fr_by_age f))
     \<and> (\<forall>k \<in> dom (map_of (fr_by_age f)). k < fr_next_order f)
     \<and> 0 < fc_blob_capacity (fr_config f)
     \<and> (\<forall>row \<in> ran (map_of (fr_rows f)). row_ok (fc_blob_capacity (fr_config f)) row)"

definition fresh_inv :: "freshness \<Rightarrow> bool" where
  "fresh_inv f \<longleftrightarrow> fresh_shape f \<and> fr_next_order f \<le> u64_max
     \<and> 0 < fc_destination_capacity (fr_config f) \<and> fc_destination_capacity (fr_config f) < u64_max
     \<and> length (fr_rows f) \<le> fc_destination_capacity (fr_config f)"

lemma linkedD: "linked rows ages \<Longrightarrow> ages k = Some d \<Longrightarrow> \<exists>row. rows d = Some row \<and> row_order row = k"
  and linkedI: "linked rows ages \<Longrightarrow> rows d = Some row \<Longrightarrow> ages (row_order row) = Some d"
  by (auto simp: linked_def)

lemma linked_remove:
  assumes "linked rows ages" "ages k = Some d"
  shows "linked (rows(d := None)) (ages(k := None))"
proof (unfold linked_def, intro allI)
  fix k' d'
  have A: "ages k = Some d \<longleftrightarrow> map_option row_order (rows d) = Some k" for k d
    using assms(1) by (simp add: linked_def)
  show "(ages(k := None)) k' = Some d' \<longleftrightarrow> map_option row_order ((rows(d := None)) d') = Some k'"
    using A[of k' d'] A[of k d] A[of k d'] A[of k' d] assms(2)
    by (cases "k' = k"; cases "d' = d") auto
qed

lemma linked_insert:
  assumes "linked rows ages" "rows d = None" "ages (row_order row) = None"
  shows "linked (rows(d \<mapsto> row)) (ages(row_order row \<mapsto> d))"
proof (unfold linked_def, intro allI)
  fix k' d'
  have A: "ages k = Some d \<longleftrightarrow> map_option row_order (rows d) = Some k" for k d
    using assms(1) by (simp add: linked_def)
  show "(ages(row_order row \<mapsto> d)) k' = Some d'
      \<longleftrightarrow> map_option row_order ((rows(d \<mapsto> row)) d') = Some k'"
    using A[of k' d'] A[of "row_order row" d'] A[of k' d] assms(2,3)
    by (cases "k' = row_order row"; cases "d' = d") auto
qed

lemma linked_move:
  assumes "linked rows ages" "rows d = Some old" "ages (row_order row) = None"
  shows "linked (rows(d \<mapsto> row)) (ages(row_order old := None, row_order row \<mapsto> d))"
proof -
  have "linked (rows(d := None)) (ages(row_order old := None))"
    by (rule linked_remove) (use assms linkedI in auto)
  from linked_insert[OF this, of d row] assms show ?thesis by auto
qed

section \<open>The index is a queue\<close>

text \<open>
  What the table amounts to: the destinations it knows, least recently accepted first. The age
  index is that queue, whatever orders its keys carry.
\<close>

definition fresh_queue :: "freshness \<Rightarrow> address_hash list" where
  "fresh_queue f = map snd (fr_by_age f)"

lemma bm_insert_max: "\<forall>k' \<in> fst ` set m. k' < k \<Longrightarrow> bm_insert k v m = m @ [(k, v)]"
  by (induction k v m rule: bm_insert.induct) auto

lemma bm_tail:
  assumes "bm_ok ((k, v) # m)"
  shows "bm_ok m" "map_of m = (map_of ((k, v) # m))(k := None)"
proof -
  show "bm_ok m" using assms by (simp add: bm_ok_Cons)
  have "map_of m k = None" using assms by (auto simp: bm_ok_Cons map_of_eq_None_iff)
  then show "map_of m = (map_of ((k, v) # m))(k := None)" by auto
qed

lemma fresh_shapeD:
  assumes "fresh_shape f"
  shows "bm_ok (fr_rows f)" "bm_ok (fr_by_age f)" "linked (map_of (fr_rows f)) (map_of (fr_by_age f))"
    "\<And>k. k \<in> fst ` set (fr_by_age f) \<Longrightarrow> k < fr_next_order f" "0 < fc_blob_capacity (fr_config f)"
    "\<And>d row. map_of (fr_rows f) d = Some row \<Longrightarrow> row_ok (fc_blob_capacity (fr_config f)) row"
  using assms by (auto simp: fresh_shape_def dom_map_of_conv_image_fst ran_def)

lemma queue_distinct:
  assumes "fresh_shape f" shows "distinct (fresh_queue f)"
proof -
  note D = fresh_shapeD[OF assms]
  have "inj_on snd (set (fr_by_age f))"
  proof (rule inj_onI)
    fix x y assume xy: "x \<in> set (fr_by_age f)" "y \<in> set (fr_by_age f)" "snd x = snd y"
    have "map_of (fr_by_age f) (fst x) = Some (snd x)" "map_of (fr_by_age f) (fst y) = Some (snd y)"
      by (rule map_of_is_SomeI[OF bm_ok_distinct[OF D(2)]]; simp add: xy(1,2))+
    from this[THEN linkedD[OF D(3)]] have "fst x = fst y" by (auto simp: xy(3))
    with xy(3) show "x = y" by (rule prod_eqI[rotated 1])
  qed
  with bm_ok_distinct[OF D(2)] show ?thesis
    by (simp add: fresh_queue_def distinct_map)
qed

lemma queue_set: "fresh_shape f \<Longrightarrow> set (fresh_queue f) = dom (map_of (fr_rows f))"
proof -
  assume f: "fresh_shape f"
  note D = fresh_shapeD[OF f]
  have key: "d \<in> snd ` set (fr_by_age f) \<longleftrightarrow> (\<exists>k. map_of (fr_by_age f) k = Some d)" for d
  proof
    assume "d \<in> snd ` set (fr_by_age f)"
    then obtain k where "(k, d) \<in> set (fr_by_age f)" by force
    then show "\<exists>k. map_of (fr_by_age f) k = Some d"
      using map_of_is_SomeI[OF bm_ok_distinct[OF D(2)]] by blast
  qed (force dest: map_of_SomeD)
  have "(\<exists>k. map_of (fr_by_age f) k = Some d) \<longleftrightarrow> d \<in> dom (map_of (fr_rows f))" for d
    using linkedD[OF D(3)] linkedI[OF D(3)] by blast
  with key show ?thesis by (simp only: fresh_queue_def set_map set_eq_iff) simp
qed

lemma queue_length: "fresh_shape f \<Longrightarrow> length (fresh_queue f) = length (fr_rows f)"
  using queue_set[of f] queue_distinct[of f] bm_length_card[of "fr_rows f"] fresh_shapeD(1)[of f]
  by (metis distinct_card)

lemma evict_oldest_spec:
  assumes f: "fresh_shape f" and e: "evict_oldest f = (f', d)"
  shows "fresh_shape f'" "fr_config f' = fr_config f" "fr_next_order f' = fr_next_order f"
    "fresh_queue f' = tl (fresh_queue f)"
    "d = (if fresh_queue f = [] then None else Some (hd (fresh_queue f)))"
    "\<And>x. map_of (fr_rows f') x = (if d = Some x then None else map_of (fr_rows f) x)"
proof -
  note D = fresh_shapeD[OF f]
  have "fresh_shape f' \<and> fr_config f' = fr_config f \<and> fr_next_order f' = fr_next_order f
    \<and> fresh_queue f' = tl (fresh_queue f)
    \<and> d = (if fresh_queue f = [] then None else Some (hd (fresh_queue f)))
    \<and> (\<forall>x. map_of (fr_rows f') x = (if d = Some x then None else map_of (fr_rows f) x))"
  proof (cases "fr_by_age f")
    case Nil
    with f e show ?thesis by (simp add: evict_oldest_def fresh_queue_def)
  next
    case (Cons kd rest)
    obtain k d0 where kd: "kd = (k, d0)" by fastforce
    have f': "f' = f\<lparr>fr_by_age := rest, fr_rows := bm_remove d0 (fr_rows f)\<rparr>" "d = Some d0"
      using e by (simp_all add: evict_oldest_def Cons kd)
    have rest: "bm_ok rest" "map_of rest = (map_of (fr_by_age f))(k := None)"
      using bm_tail[of k d0 rest] D(2) by (simp_all add: Cons kd)
    have rows: "map_of (bm_remove d0 (fr_rows f)) = (map_of (fr_rows f))(d0 := None)"
      by (simp add: bm_simps)
    have "linked (map_of (bm_remove d0 (fr_rows f))) (map_of rest)"
      unfolding rows rest(2) by (rule linked_remove[OF D(3)]) (simp add: Cons kd)
    then have "fresh_shape f'"
      using f rest by (auto simp: fresh_shape_def f' rows bm_simps ran_def split: if_splits)
    then show ?thesis by (simp add: f' fresh_queue_def Cons kd rows)
  qed
  then show "fresh_shape f'" "fr_config f' = fr_config f" "fr_next_order f' = fr_next_order f"
    "fresh_queue f' = tl (fresh_queue f)"
    "d = (if fresh_queue f = [] then None else Some (hd (fresh_queue f)))"
    "\<And>x. map_of (fr_rows f') x = (if d = Some x then None else map_of (fr_rows f) x)" by blast+
qed

text \<open>What a row says, without the key it has in the index.\<close>

definition fresh_content :: "freshness \<Rightarrow> address_hash \<Rightarrow> (nat \<times> announce_blob list) option" where
  "fresh_content f d = map_option (\<lambda>row. (row_timebase row, row_blobs row)) (map_of (fr_rows f) d)"

lemma renumber_spec:
  assumes "bm_ok (fr_rows f)" "distinct ds" "\<forall>k \<in> fst ` set (fr_by_age f). k < n"
    "set ds \<subseteq> dom (map_of (fr_rows f))"
  shows "fr_by_age (renumber n ds f) = fr_by_age f @ enumerate n ds"
    "bm_ok (fr_rows (renumber n ds f))"
    "fr_config (renumber n ds f) = fr_config f"
    "fresh_content (renumber n ds f) = fresh_content f"
    "map_of (fr_rows (renumber n ds f)) x = map_option
       (\<lambda>row. case map_of (map prod.swap (enumerate n ds)) x of None \<Rightarrow> row | Some k \<Rightarrow> row\<lparr>row_order := k\<rparr>)
       (map_of (fr_rows f) x)"
proof -
  have "fr_by_age (renumber n ds f) = fr_by_age f @ enumerate n ds
    \<and> bm_ok (fr_rows (renumber n ds f)) \<and> fr_config (renumber n ds f) = fr_config f
    \<and> fresh_content (renumber n ds f) = fresh_content f
    \<and> (\<forall>x. map_of (fr_rows (renumber n ds f)) x = map_option
       (\<lambda>row. case map_of (map prod.swap (enumerate n ds)) x of None \<Rightarrow> row | Some k \<Rightarrow> row\<lparr>row_order := k\<rparr>)
       (map_of (fr_rows f) x))"
    using assms
  proof (induction ds arbitrary: n f)
    case Nil
    then show ?case by (simp add: option.map_ident)
  next
    case (Cons d ds)
    obtain row where row: "map_of (fr_rows f) d = Some row" using Cons.prems(4) by auto
    define g where "g = f\<lparr>fr_rows := bm_insert d (row\<lparr>row_order := n\<rparr>) (fr_rows f),
      fr_by_age := fr_by_age f @ [(n, d)]\<rparr>"
    have step: "renumber n (d # ds) f = renumber (Suc n) ds g"
      using Cons.prems(3) by (simp add: row g_def bm_insert_max)
    have rows: "map_of (fr_rows g) = (map_of (fr_rows f))(d \<mapsto> row\<lparr>row_order := n\<rparr>)"
      using Cons.prems(1) by (simp add: g_def bm_simps)
    have content: "fresh_content g = fresh_content f"
      by (auto simp: fresh_content_def rows row)
    have "bm_ok (fr_rows g)" "distinct ds" "\<forall>k \<in> fst ` set (fr_by_age g). k < Suc n"
      "set ds \<subseteq> dom (map_of (fr_rows g))"
      using Cons.prems by (auto simp: g_def bm_simps less_Suc_eq)
    note IH = Cons.IH[OF this]
    have notin: "map_of (map prod.swap (enumerate (Suc n) ds)) d = None"
      using Cons.prems(2) by (auto simp: map_of_eq_None_iff in_set_enumerate_eq)
    show ?case unfolding step
      using IH notin by (auto simp: rows content row) (simp_all add: g_def)
  qed
  then show "fr_by_age (renumber n ds f) = fr_by_age f @ enumerate n ds"
    "bm_ok (fr_rows (renumber n ds f))"
    "fr_config (renumber n ds f) = fr_config f"
    "fresh_content (renumber n ds f) = fresh_content f"
    "map_of (fr_rows (renumber n ds f)) x = map_option
       (\<lambda>row. case map_of (map prod.swap (enumerate n ds)) x of None \<Rightarrow> row | Some k \<Rightarrow> row\<lparr>row_order := k\<rparr>)
       (map_of (fr_rows f) x)" by blast+
qed

lemma row_ok_content:
  "(\<forall>row \<in> ran (map_of (fr_rows f)). row_ok c row) \<longleftrightarrow>
     (\<forall>d t bs. fresh_content f d = Some (t, bs) \<longrightarrow> bs \<noteq> [] \<and> length bs \<le> c \<and> t = timebase (last bs))"
  by (auto simp: fresh_content_def ran_def row_ok_def)

lemma content_dom: "dom (fresh_content f) = dom (map_of (fr_rows f))"
  by (auto simp: fresh_content_def)

lemma rows_length: "bm_ok (fr_rows f) \<Longrightarrow> length (fr_rows f) = card (dom (fresh_content f))"
  by (simp add: content_dom bm_length_card)

lemma linked_renumber:
  assumes "distinct ds" "dom rows = set ds"
  shows "linked (\<lambda>x. map_option (\<lambda>row. case map_of (map prod.swap (enumerate 0 ds)) x of
            None \<Rightarrow> row | Some k \<Rightarrow> row\<lparr>row_order := k\<rparr>) (rows x)) (map_of (enumerate 0 ds))"
proof (unfold linked_def, intro allI)
  fix k d
  have "map fst (map prod.swap (enumerate 0 ds)) = ds" by (simp add: comp_def)
  with assms(1) have "map_of (map prod.swap (enumerate 0 ds)) d = Some k
      \<longleftrightarrow> (d, k) \<in> prod.swap ` set (enumerate 0 ds)" for k d
    by (metis list.set_map map_of_eq_Some_iff)
  then have swap: "map_of (map prod.swap (enumerate 0 ds)) d = Some k \<longleftrightarrow> k < length ds \<and> ds ! k = d"
    for k d by (force simp: in_set_enumerate_eq)
  have ages: "map_of (enumerate 0 ds) k = Some d \<longleftrightarrow> k < length ds \<and> ds ! k = d"
    by (subst map_of_eq_Some_iff) (auto simp: in_set_enumerate_eq)
  show "map_of (enumerate 0 ds) k = Some d \<longleftrightarrow> map_option row_order (map_option
      (\<lambda>row. case map_of (map prod.swap (enumerate 0 ds)) d of None \<Rightarrow> row
        | Some k \<Rightarrow> row\<lparr>row_order := k\<rparr>) (rows d)) = Some k"
  proof (cases "rows d")
    case None
    then have "d \<notin> set ds" using assms(2) by auto
    then show ?thesis by (auto simp: ages None)
  next
    case (Some row)
    then have "d \<in> set ds" using assms(2) by auto
    then obtain i where "i < length ds" "ds ! i = d" by (auto simp: in_set_conv_nth)
    then have i: "map_of (map prod.swap (enumerate 0 ds)) d = Some i" by (simp add: swap)
    then show ?thesis using swap[of d k] by (simp add: Some ages)
  qed
qed

lemma content_updates [simp]:
  "fresh_content (f\<lparr>fr_next_order := n\<rparr>) = fresh_content f"
  "fresh_content (f\<lparr>fr_by_age := ages\<rparr>) = fresh_content f"
  by (simp_all add: fresh_content_def fun_eq_iff)

lemma take_order_spec:
  assumes f: "fresh_shape f" and len: "length (fr_rows f) < u64_max"
    and le: "fr_next_order f \<le> u64_max" and t: "take_order f = (f', k)"
  shows "fresh_shape f'" "fr_next_order f' \<le> u64_max" "fr_next_order f' = k + 1"
    "\<forall>k' \<in> fst ` set (fr_by_age f'). k' < k" "fr_config f' = fr_config f"
    "fresh_queue f' = fresh_queue f" "fresh_content f' = fresh_content f"
proof -
  note D = fresh_shapeD[OF f]
  have "fresh_shape f' \<and> fr_next_order f' \<le> u64_max \<and> fr_next_order f' = k + 1
    \<and> (\<forall>k' \<in> fst ` set (fr_by_age f'). k' < k) \<and> fr_config f' = fr_config f
    \<and> fresh_queue f' = fresh_queue f \<and> fresh_content f' = fresh_content f"
  proof (cases "fr_next_order f = u64_max")
    case False
    then have "f' = f\<lparr>fr_next_order := k + 1\<rparr>" "k = fr_next_order f"
      using t by (auto simp: take_order_def Let_def)
    then show ?thesis
      using f D(4) False le
      by (auto simp: fresh_shape_def fresh_queue_def dom_map_of_conv_image_fst less_SucI)
  next
    case True
    let ?q = "fresh_queue f"
    define g where "g = renumber 0 ?q (f\<lparr>fr_by_age := []\<rparr>)"
    have "bm_ok (fr_rows (f\<lparr>fr_by_age := []\<rparr>))"
      "distinct ?q" "\<forall>k \<in> fst ` set (fr_by_age (f\<lparr>fr_by_age := []\<rparr>)). k < 0"
      "set ?q \<subseteq> dom (map_of (fr_rows (f\<lparr>fr_by_age := []\<rparr>)))"
      using D(1) queue_distinct[OF f] queue_set[OF f] by simp_all
    note R = renumber_spec[OF this, folded g_def, simplified]
    have f': "f' = g\<lparr>fr_next_order := k + 1\<rparr>" "k = length (fr_by_age g)"
      using t True by (auto simp: take_order_def Let_def g_def fresh_queue_def)
    have k: "k = length (fr_rows f)" using queue_length[OF f] by (simp add: f'(2) R(1))
    have ages: "bm_ok (enumerate 0 ?q)" by (simp add: bm_ok_def)
    have "map_of (fr_rows g) = (\<lambda>x. map_option (\<lambda>row. case map_of (map prod.swap (enumerate 0 ?q)) x of
        None \<Rightarrow> row | Some k \<Rightarrow> row\<lparr>row_order := k\<rparr>) (map_of (fr_rows f) x))"
      by (rule ext) (rule R(5))
    then have "linked (map_of (fr_rows g)) (map_of (enumerate 0 ?q))"
      using linked_renumber[OF queue_distinct[OF f] queue_set[OF f, symmetric]] by (simp only:)
    moreover have "\<forall>k' \<in> fst ` set (enumerate 0 ?q). k' < k"
      by (simp add: f'(2) R(1) in_set_enumerate_eq)
    moreover have "\<forall>row \<in> ran (map_of (fr_rows g)). row_ok (fc_blob_capacity (fr_config f)) row"
      using f unfolding fresh_shape_def row_ok_content R(4) by simp
    ultimately have "fresh_shape f'"
      using D(5) ages R(1,2,3)
      by (simp add: fresh_shape_def f'(1) dom_map_of_conv_image_fst less_SucI)
    then show ?thesis
      using k len R \<open>\<forall>k' \<in> fst ` set (enumerate 0 ?q). k' < k\<close> by (simp add: f'(1) fresh_queue_def)
  qed
  then show "fresh_shape f'" "fr_next_order f' \<le> u64_max" "fr_next_order f' = k + 1"
    "\<forall>k' \<in> fst ` set (fr_by_age f'). k' < k" "fr_config f' = fr_config f"
    "fresh_queue f' = fresh_queue f" "fresh_content f' = fresh_content f" by blast+
qed

section \<open>What an operation does to the queue and to the rows\<close>

definition accepted_blobs :: "nat \<Rightarrow> announce_blob list \<Rightarrow> freshness_accept \<Rightarrow> announce_blob \<Rightarrow> announce_blob list"
where
  "accepted_blobs n bs a b = (let bs = (if a = FirstSighting then [] else bs) @ [b] in drop (length bs - n) bs)"

lemma accepted_blobs_ok:
  "0 < n \<Longrightarrow> accepted_blobs n bs a b \<noteq> [] \<and> length (accepted_blobs n bs a b) \<le> n
     \<and> last (accepted_blobs n bs a b) = b"
  by (auto simp: accepted_blobs_def Let_def)

lemma fresh_shape_put:
  assumes f: "fresh_shape f" and fresh: "\<forall>k' \<in> fst ` set (fr_by_age f). k' < k"
    and rows: "rows = bm_insert d row (fr_rows f)" and row: "row_order row = k" "row_ok (fc_blob_capacity (fr_config f)) row"
    and ages: "ages = (case map_of (fr_rows f) d of Some old \<Rightarrow> bm_remove (row_order old) (fr_by_age f)
                | None \<Rightarrow> fr_by_age f)"
    and n: "fr_next_order f = k + 1"
  shows "fresh_shape (f\<lparr>fr_rows := rows, fr_by_age := bm_insert k d ages\<rparr>)"
    "fresh_queue (f\<lparr>fr_rows := rows, fr_by_age := bm_insert k d ages\<rparr>) = filter (\<lambda>x. x \<noteq> d) (fresh_queue f) @ [d]"
proof -
  note D = fresh_shapeD[OF f]
  have ages_ok: "bm_ok ages" using D(2) by (simp add: ages bm_simps split: option.split)
  have sub: "set ages \<subseteq> set (fr_by_age f)" by (auto simp: ages bm_remove_def split: option.splits)
  then have max: "\<forall>k' \<in> fst ` set ages. k' < k" using fresh by blast
  have m: "map_of rows = (map_of (fr_rows f))(d \<mapsto> row)"
    "map_of (bm_insert k d ages) = (map_of ages)(k \<mapsto> d)"
    using D(1) ages_ok by (simp_all add: rows bm_simps)
  have knone: "map_of (fr_by_age f) (row_order row) = None"
    using fresh by (auto simp: row(1) map_of_eq_None_iff)
  have "linked (map_of rows) (map_of (bm_insert k d ages))"
  proof (cases "map_of (fr_rows f) d")
    case None
    then show ?thesis
      unfolding m using linked_insert[OF D(3) None knone] by (simp add: ages row(1))
  next
    case (Some old)
    then show ?thesis
      unfolding m using linked_move[OF D(3) Some knone] by (simp add: ages row(1) bm_simps)
  qed
  moreover have "\<forall>x \<in> fst ` set (bm_insert k d ages). x < k + 1"
    using max by (auto simp: fst_bm_insert less_SucI)
  moreover have "\<forall>row \<in> ran (map_of rows). row_ok (fc_blob_capacity (fr_config f)) row"
    using D(6) row(2) by (auto simp: m ran_def)
  ultimately show "fresh_shape (f\<lparr>fr_rows := rows, fr_by_age := bm_insert k d ages\<rparr>)"
    using D(1,5) ages_ok n by (simp add: fresh_shape_def rows bm_simps dom_map_of_conv_image_fst)
  have "map snd ages = filter (\<lambda>x. x \<noteq> d) (map snd (fr_by_age f))"
  proof (cases "map_of (fr_rows f) d")
    case None
    then have "d \<notin> set (fresh_queue f)" using queue_set[OF f] by auto
    then show ?thesis by (auto simp: ages None fresh_queue_def filter_id_conv intro!: HOL.sym[OF filter_id_conv[THEN iffD2]])
  next
    case (Some old)
    have "fst e \<noteq> row_order old \<longleftrightarrow> snd e \<noteq> d" if "e \<in> set (fr_by_age f)" for e
    proof -
      have "map_of (fr_by_age f) (fst e) = Some (snd e)"
        by (rule map_of_is_SomeI[OF bm_ok_distinct[OF D(2)]]) (simp add: that)
      from linkedD[OF D(3) this] linkedI[OF D(3) Some] this Some show ?thesis by auto
    qed
    then have "filter (\<lambda>e. fst e \<noteq> row_order old) (fr_by_age f) = filter (\<lambda>e. snd e \<noteq> d) (fr_by_age f)"
      by (rule filter_cong[OF HOL.refl])
    then show ?thesis by (simp add: ages Some bm_remove_def filter_map comp_def)
  qed
  then show "fresh_queue (f\<lparr>fr_rows := rows, fr_by_age := bm_insert k d ages\<rparr>) = filter (\<lambda>x. x \<noteq> d) (fresh_queue f) @ [d]"
    using bm_insert_max[OF max] by (simp add: fresh_queue_def)
qed

definition old_blobs :: "freshness \<Rightarrow> address_hash \<Rightarrow> announce_blob list" where
  "old_blobs f d = (case fresh_content f d of None \<Rightarrow> [] | Some (_, bs) \<Rightarrow> bs)"

definition evicted_by :: "freshness \<Rightarrow> address_hash \<Rightarrow> address_hash option" where
  "evicted_by f d =
    (if d \<notin> set (fresh_queue f) \<and> fc_destination_capacity (fr_config f) \<le> length (fresh_queue f)
     then Some (hd (fresh_queue f)) else None)"

lemma trim_one:
  assumes "0 < n" "length bs \<le> n"
  shows "(if n \<le> length bs then drop 1 bs else bs) @ [b] = drop (length (bs @ [b]) - n) (bs @ [b])"
proof (cases "length bs = n")
  case True
  then show ?thesis using assms by (cases bs) auto
qed (use assms in simp)

definition record_effect ::
    "freshness \<Rightarrow> freshness_candidate \<Rightarrow> freshness_accept \<Rightarrow> freshness \<Rightarrow> freshness_record \<Rightarrow> bool" where
  "record_effect f c a f' r \<longleftrightarrow>
    (let d = cand_destination c; q = fresh_queue f in
     fr_config f' = fr_config f \<and> fcr_evicted_destination r = evicted_by f d
     \<and> fresh_queue f' = filter (\<lambda>x. x \<noteq> d) (if evicted_by f d = None then q else tl q) @ [d]
     \<and> (\<forall>x. fresh_content f' x =
          (if x = d then Some (candidate_timebase c,
             accepted_blobs (fc_blob_capacity (fr_config f)) (old_blobs f d) a (cand_blob c))
           else if evicted_by f d = Some x then None else fresh_content f x)))"

lemma fresh_inv_take:
  assumes "fresh_inv f" "take_order f = (g, k)"
  shows "fresh_shape f" "fresh_shape g" "fr_next_order g \<le> u64_max" "fr_next_order g = k + 1"
    "\<forall>k' \<in> fst ` set (fr_by_age g). k' < k" "fr_config g = fr_config f"
    "fresh_queue g = fresh_queue f" "fresh_content g = fresh_content f"
    "length (fr_rows g) = length (fresh_queue f)" "0 < fc_blob_capacity (fr_config f)"
    "map_of (fr_rows g) d = None \<longleftrightarrow> d \<notin> set (fresh_queue f)"
proof -
  show shape: "fresh_shape f" using assms(1) by (simp add: fresh_inv_def)
  have "length (fr_rows f) < u64_max" "fr_next_order f \<le> u64_max"
    using assms(1) by (simp_all add: fresh_inv_def)
  note T = take_order_spec[OF shape this assms(2)]
  show "fresh_shape g" "fr_next_order g \<le> u64_max" "fr_next_order g = k + 1"
    "\<forall>k' \<in> fst ` set (fr_by_age g). k' < k" "fr_config g = fr_config f"
    "fresh_queue g = fresh_queue f" "fresh_content g = fresh_content f" by (rule T)+
  show "length (fr_rows g) = length (fresh_queue f)" using queue_length[OF T(1)] T(6) by simp
  show "0 < fc_blob_capacity (fr_config f)" using fresh_shapeD(5)[OF shape] .
  show "map_of (fr_rows g) d = None \<longleftrightarrow> d \<notin> set (fresh_queue f)"
    using queue_set[OF T(1)] T(6) by auto
qed

lemma record_known:
  assumes f: "fresh_inv f" and t: "take_order f = (g, k)" and old: "map_of (fr_rows g) (cand_destination c) = Some old"
    and r: "record_accepted f c a = (f', r)"
  shows "fresh_shape f' \<and> fr_next_order f' \<le> u64_max \<and> record_effect f c a f' r"
proof -
  let ?d = "cand_destination c" and ?n = "fc_blob_capacity (fr_config f)"
  note T = fresh_inv_take[OF f t] and G = fresh_shapeD[OF fresh_inv_take(2)[OF f t]]
  have olds: "old_blobs f ?d = row_blobs old"
    using old by (simp add: old_blobs_def T(8)[symmetric] fresh_content_def)
  define bs where "bs = (if a = FirstSighting then [] else row_blobs old)"
  define row where "row = old\<lparr>row_blobs := (if ?n \<le> length bs then drop 1 bs else bs) @ [cand_blob c],
      row_timebase := candidate_timebase c, row_order := k\<rparr>"
  have "length bs \<le> ?n" using G(6)[OF old] by (simp add: row_ok_def T(6) bs_def)
  from trim_one[OF T(10) this, of "cand_blob c"]
  have blobs: "row_blobs row = accepted_blobs ?n (old_blobs f ?d) a (cand_blob c)"
    by (simp add: row_def accepted_blobs_def bs_def olds Let_def)
  have row: "row_order row = k" "row_ok (fc_blob_capacity (fr_config g)) row"
    using accepted_blobs_ok[OF T(10), of "old_blobs f ?d" a "cand_blob c"] blobs
    by (simp_all add: row_ok_def T(6)) (simp_all add: row_def candidate_timebase_def)
  have f': "f' = g\<lparr>fr_rows := bm_insert ?d row (fr_rows g),
      fr_by_age := bm_insert k ?d (bm_remove (row_order old) (fr_by_age g))\<rparr>"
    and r': "fcr_evicted_destination r = None"
    using r by (auto simp: record_accepted_def t old Let_def row_def bs_def T(6))
  have ages: "bm_remove (row_order old) (fr_by_age g)
      = (case map_of (fr_rows g) ?d of Some old \<Rightarrow> bm_remove (row_order old) (fr_by_age g) | None \<Rightarrow> fr_by_age g)"
    by (simp add: old)
  note P = fresh_shape_put[OF T(2,5) HOL.refl row ages T(4), folded f']
  have ev: "evicted_by f ?d = None" using T(11)[of ?d] old by (simp add: evicted_by_def)
  have "map_of (fr_rows f') = (map_of (fr_rows g))(?d \<mapsto> row)" using G(1) by (simp add: f' bm_simps)
  then have "fresh_content f' = (fresh_content g)(?d \<mapsto> (candidate_timebase c, row_blobs row))"
    by (auto simp: fresh_content_def row_def)
  with P ev r' T show ?thesis by (auto simp: f' blobs record_effect_def)
qed

lemma make_room:
  assumes f: "fresh_inv f" and t: "take_order f = (g, k)" and d: "d \<notin> set (fresh_queue f)"
    and h: "(if fc_destination_capacity (fr_config g) \<le> length (fr_rows g)
             then evict_oldest g else (g, None)) = (h, e)"
  shows "fresh_shape h" "fr_config h = fr_config f" "fr_next_order h = k + 1" "e = evicted_by f d"
    "fresh_queue h = (if evicted_by f d = None then fresh_queue f else tl (fresh_queue f))"
    "\<And>x. map_of (fr_rows h) x = (if evicted_by f d = Some x then None else map_of (fr_rows g) x)"
    "\<forall>k' \<in> fst ` set (fr_by_age h). k' < k"
proof -
  note T = fresh_inv_take[OF f t]
  have "fresh_shape h \<and> fr_config h = fr_config f \<and> fr_next_order h = k + 1 \<and> e = evicted_by f d
    \<and> fresh_queue h = (if evicted_by f d = None then fresh_queue f else tl (fresh_queue f))
    \<and> (\<forall>x. map_of (fr_rows h) x = (if evicted_by f d = Some x then None else map_of (fr_rows g) x))
    \<and> set (fr_by_age h) \<subseteq> set (fr_by_age g)"
  proof (cases "fc_destination_capacity (fr_config g) \<le> length (fr_rows g)")
    case True
    then have ne: "fresh_queue f \<noteq> []" using f T(6,9) by (auto simp: fresh_inv_def)
    have e: "evict_oldest g = (h, e)" using h True by simp
    have "evicted_by f d = Some (hd (fresh_queue f))" using True d T(6,9) by (simp add: evicted_by_def)
    moreover have "set (fr_by_age h) \<subseteq> set (fr_by_age g)"
      using e by (auto simp: evict_oldest_def split: list.splits)
    ultimately show ?thesis using evict_oldest_spec[OF T(2) e] ne T by simp
  next
    case False
    then have "h = g" "e = None" using h by auto
    moreover have "evicted_by f d = None" using False T(6,9) by (simp add: evicted_by_def)
    ultimately show ?thesis using T by simp
  qed
  with T(5) show "fresh_shape h" "fr_config h = fr_config f" "fr_next_order h = k + 1" "e = evicted_by f d"
    "fresh_queue h = (if evicted_by f d = None then fresh_queue f else tl (fresh_queue f))"
    "\<And>x. map_of (fr_rows h) x = (if evicted_by f d = Some x then None else map_of (fr_rows g) x)"
    "\<forall>k' \<in> fst ` set (fr_by_age h). k' < k" by blast+
qed

lemma record_new:
  assumes f: "fresh_inv f" and t: "take_order f = (g, k)" and new: "map_of (fr_rows g) (cand_destination c) = None"
    and r: "record_accepted f c a = (f', r)"
  shows "fresh_shape f' \<and> fr_next_order f' \<le> u64_max \<and> record_effect f c a f' r"
proof -
  let ?d = "cand_destination c" and ?n = "fc_blob_capacity (fr_config f)"
  note T = fresh_inv_take[OF f t]
  obtain h e where h: "(if fc_destination_capacity (fr_config g) \<le> length (fr_rows g)
      then evict_oldest g else (g, None)) = (h, e)" by fastforce
  have "?d \<notin> set (fresh_queue f)" using T(11) new by blast
  note H = make_room[OF f t this h]
  define row where "row = \<lparr>row_timebase = candidate_timebase c, row_blobs = [cand_blob c], row_order = k\<rparr>"
  have f': "f' = h\<lparr>fr_rows := bm_insert ?d row (fr_rows h), fr_by_age := bm_insert k ?d (fr_by_age h)\<rparr>"
    and r': "fcr_evicted_destination r = e"
    using r by (auto simp: record_accepted_def t new h row_def)
  have row: "row_order row = k" "row_ok (fc_blob_capacity (fr_config h)) row"
    using T(10) H(2) by (simp_all add: row_def row_ok_def candidate_timebase_def)
  have hd: "map_of (fr_rows h) ?d = None" using H(6)[of ?d] new by simp
  then have ages: "fr_by_age h
      = (case map_of (fr_rows h) ?d of Some old \<Rightarrow> bm_remove (row_order old) (fr_by_age h) | None \<Rightarrow> fr_by_age h)"
    by simp
  note P = fresh_shape_put[OF H(1,7) HOL.refl row ages H(3), folded f']
  have "map_of (fr_rows f') = (map_of (fr_rows h))(?d \<mapsto> row)"
    using fresh_shapeD(1)[OF H(1)] by (simp add: f' bm_simps)
  then have "fresh_content f' x = (if x = ?d then Some (candidate_timebase c, [cand_blob c])
      else if evicted_by f ?d = Some x then None else fresh_content g x)" for x
    using H(6) by (auto simp: fresh_content_def row_def)
  moreover have "old_blobs f ?d = []"
    using new by (simp add: old_blobs_def T(8)[symmetric] fresh_content_def)
  moreover have "accepted_blobs ?n [] a (cand_blob c) = [cand_blob c]"
    using T(10) by (simp add: accepted_blobs_def)
  ultimately show ?thesis using P H(2-5) T(3,4,8) r' by (simp add: f' record_effect_def Let_def)
qed

lemma queue_room:
  assumes "length q \<le> n" "0 < n"
  shows "length (filter (\<lambda>x. x \<noteq> d) (if d \<notin> set q \<and> n \<le> length q then tl q else q)) < n"
proof (cases "d \<in> set q")
  case True
  then have "length (filter (\<lambda>x. x \<noteq> d) q) < length q" by (intro length_filter_less[of d]) simp_all
  with True assms show ?thesis by simp
next
  case False
  with assms have "length (if d \<notin> set q \<and> n \<le> length q then tl q else q) < n"
    by (cases q) auto
  from le_less_trans[OF length_filter_le this] show ?thesis .
qed

lemma record_accepted_spec:
  assumes f: "fresh_inv f" and r: "record_accepted f c a = (f', r)"
  shows "fresh_inv f'" "record_effect f c a f' r"
proof -
  obtain g k where t: "take_order f = (g, k)" by fastforce
  have "fresh_shape f' \<and> fr_next_order f' \<le> u64_max \<and> record_effect f c a f' r"
    using record_known[OF f t _ r] record_new[OF f t _ r] by (cases "map_of (fr_rows g) (cand_destination c)") auto
  note spec = this
  then show "record_effect f c a f' r" by simp
  have cap: "length (fresh_queue f) \<le> fc_destination_capacity (fr_config f)"
    "0 < fc_destination_capacity (fr_config f)"
    using f queue_length[of f] by (simp_all add: fresh_inv_def)
  have "length (fresh_queue f') \<le> fc_destination_capacity (fr_config f)"
    using spec queue_room[OF cap, of "cand_destination c"]
    by (auto simp: record_effect_def Let_def evicted_by_def split: if_splits)
  with spec f show "fresh_inv f'" using queue_length[of f'] by (simp add: fresh_inv_def record_effect_def Let_def)
qed

section \<open>Reconfiguration\<close>

lemma evict_rows_spec:
  assumes f: "fresh_shape f" and e: "evict_rows n f = (f', ds)"
  shows "fresh_shape f'" "fr_config f' = fr_config f" "fr_next_order f' = fr_next_order f"
    "ds @ fresh_queue f' = fresh_queue f" "length (fr_rows f') = min n (length (fr_rows f))"
    "fresh_content f' = (\<lambda>x. if x \<in> set ds then None else fresh_content f x)"
proof -
  define P where "P = (\<lambda>(f', ds). fresh_shape f' \<and> fr_config f' = fr_config f
    \<and> fr_next_order f' = fr_next_order f \<and> ds @ fresh_queue f' = fresh_queue f
    \<and> min n (length (fr_rows f)) \<le> length (fr_rows f') \<and> length (fr_rows f') \<le> length (fr_rows f)
    \<and> fresh_content f' = (\<lambda>x. if x \<in> set ds then None else fresh_content f x))"
  let ?body = "\<lambda>(f, evicted). let (f, d) = evict_oldest f
                     in (f, evicted @ (case d of None \<Rightarrow> [] | Some d \<Rightarrow> [d]))"
  have step: "P (?body (g, xs)) \<and> length (fr_rows (fst (?body (g, xs)))) < length (fr_rows g)"
    if P: "P (g, xs)" and b: "n < length (fr_rows g)" for g xs
  proof -
    obtain h d where h: "evict_oldest g = (h, d)" by fastforce
    have g: "fresh_shape g" using P by (simp add: P_def)
    note E = evict_oldest_spec[OF g h]
    have len: "length (fr_rows h) = length (fr_rows g) - 1"
      using queue_length[OF g] queue_length[OF E(1)] E(4) by simp
    have ne: "fresh_queue g \<noteq> []" using b queue_length[OF g] by auto
    then have d: "d = Some (hd (fresh_queue g))" using E(5) by simp
    have "fresh_content h x = (if x = hd (fresh_queue g) then None else fresh_content g x)" for x
      using E(6)[of x] d by (auto simp: fresh_content_def)
    with P E ne d len b show ?thesis by (auto simp: P_def h fun_eq_iff)
  qed
  have init: "P (f, [])" using f by (simp add: P_def)
  have "(\<lambda>s. P s \<and> length (fr_rows (fst s)) \<le> n) (evict_rows n f)"
    unfolding evict_rows_def
    by (rule while_rule[where P = P and r = "measure (\<lambda>s. length (fr_rows (fst s)))"])
       (use init step in \<open>auto simp: not_less\<close>)
  then show "fresh_shape f'" "fr_config f' = fr_config f" "fr_next_order f' = fr_next_order f"
    "ds @ fresh_queue f' = fresh_queue f" "length (fr_rows f') = min n (length (fr_rows f))"
    "fresh_content f' = (\<lambda>x. if x \<in> set ds then None else fresh_content f x)"
    by (auto simp: e P_def)
qed

lemma row_ok_trim:
  assumes "row_ok n row" "0 < m"
  shows "row_ok m (row\<lparr>row_blobs := drop (length (row_blobs row) - m) (row_blobs row)\<rparr>)"
proof -
  have "0 < length (row_blobs row)" using assms(1) by (simp add: row_ok_def)
  then have "\<not> length (row_blobs row) \<le> length (row_blobs row) - m" using assms(2) by linarith
  then show ?thesis using assms(1) by (auto simp: row_ok_def)
qed

lemma reconfigure_spec:
  assumes f: "fresh_inv f" and r: "reconfigure f c = (f', Inr r)" and c: "fc_destination_capacity c < u64_max"
  shows "fresh_inv f'" "fr_config f' = c" "0 < fc_destination_capacity c \<and> 0 < fc_blob_capacity c"
    "frc_evicted_destinations r @ fresh_queue f' = fresh_queue f"
    "length (fresh_queue f') = min (fc_destination_capacity c) (length (fresh_queue f))"
    "fresh_content f' x = (if x \<in> set (frc_evicted_destinations r) then None
       else map_option (map_prod id (\<lambda>bs. drop (length bs - fc_blob_capacity c) bs)) (fresh_content f x))"
proof -
  have shape: "fresh_shape f" using f by (simp add: fresh_inv_def)
  note D = fresh_shapeD[OF shape]
  let ?trim = "\<lambda>bs. drop (length bs - fc_blob_capacity c) (bs :: announce_blob list)"
  define g where "g = f\<lparr>fr_config := c, fr_rows := map (\<lambda>(d, row). (d, row\<lparr>row_blobs := ?trim (row_blobs row)\<rparr>)) (fr_rows f)\<rparr>"
  obtain h ds where e: "evict_rows (fc_destination_capacity c) g = (h, ds)" by fastforce
  from r have pos: "0 < fc_destination_capacity c \<and> 0 < fc_blob_capacity c"
    and f': "f' = h" "frc_evicted_destinations r = ds"
    by (auto simp: reconfigure_def freshness_validate_def g_def[symmetric] Let_def e split: if_splits)
  have rows: "map_of (fr_rows g) x = map_option (\<lambda>row. row\<lparr>row_blobs := ?trim (row_blobs row)\<rparr>) (map_of (fr_rows f) x)"
    for x by (simp add: g_def map_of_map_values)
  have "linked (map_of (fr_rows g)) (map_of (fr_by_age g))"
    using D(3) by (simp add: linked_def rows option.map_comp comp_def) (simp add: g_def)
  moreover have "\<forall>row \<in> ran (map_of (fr_rows g)). row_ok (fc_blob_capacity c) row"
    using row_ok_trim[OF D(6)] pos by (auto simp: rows ran_def)
  ultimately have g: "fresh_shape g"
    using D(1,2,4) pos by (simp add: fresh_shape_def g_def bm_simps dom_map_of_conv_image_fst)
  have gsame: "fr_config g = c" "fresh_queue g = fresh_queue f" "fr_next_order g = fr_next_order f"
    "length (fr_rows g) = length (fr_rows f)"
    by (simp_all add: g_def fresh_queue_def)
  note E = evict_rows_spec[OF g e]
  show "fr_config f' = c" "0 < fc_destination_capacity c \<and> 0 < fc_blob_capacity c"
    "frc_evicted_destinations r @ fresh_queue f' = fresh_queue f"
    using E(2,4) pos by (simp_all add: f' gsame)
  show "length (fresh_queue f') = min (fc_destination_capacity c) (length (fresh_queue f))"
    using E(5) queue_length[OF E(1)] queue_length[OF shape] by (simp add: f' gsame)
  show "fresh_inv f'"
    using f c pos E by (simp add: fresh_inv_def f' gsame)
  show "fresh_content f' x = (if x \<in> set (frc_evicted_destinations r) then None
       else map_option (map_prod id (\<lambda>bs. drop (length bs - fc_blob_capacity c) bs)) (fresh_content f x))"
    using E(6) by (simp add: f' fresh_content_def rows option.map_comp comp_def)
qed

section \<open>The table implements a least-recently-accepted queue\<close>

datatype fresh_op = Record freshness_candidate freshness_accept | Reconfigure freshness_config

text \<open>No table has room for \<open>u64::MAX\<close> rows; a configuration that asks for as many is left out.\<close>

definition fresh_run :: "freshness \<Rightarrow> fresh_op \<Rightarrow> freshness" where
  "fresh_run f op =
    (case op of
       Record c a \<Rightarrow> fst (record_accepted f c a)
     | Reconfigure c \<Rightarrow> if fc_destination_capacity c < u64_max then fst (reconfigure f c) else f)"

text \<open>The abstract table: its destination bound and the destinations, least recently accepted first.\<close>

definition lru_accept :: "nat \<Rightarrow> address_hash list \<Rightarrow> address_hash \<Rightarrow> address_hash list" where
  "lru_accept n q d =
    filter (\<lambda>x. x \<noteq> d) (if d \<notin> set q \<and> n \<le> length q then tl q else q) @ [d]"

definition lru_run :: "nat \<times> address_hash list \<Rightarrow> fresh_op \<Rightarrow> nat \<times> address_hash list" where
  "lru_run s op =
    (let (n, q) = s in
     case op of
       Record c a \<Rightarrow> (n, lru_accept n q (cand_destination c))
     | Reconfigure c \<Rightarrow>
         let n' = fc_destination_capacity c in
         if n' < u64_max \<and> 0 < n' \<and> 0 < fc_blob_capacity c then (n', drop (length q - n') q) else (n, q))"

definition fresh_abs :: "freshness \<Rightarrow> nat \<times> address_hash list" where
  "fresh_abs f = (fc_destination_capacity (fr_config f), fresh_queue f)"

lemma reconfigure_cases:
  assumes "reconfigure f c = (f', res)"
  obtains e where "res = Inl e" "f' = f" "fc_destination_capacity c = 0 \<or> fc_blob_capacity c = 0"
  | r where "res = Inr r"
  using assms
  by (cases res) (auto simp: reconfigure_def freshness_validate_def Let_def split: if_splits prod.splits)

lemma fresh_run_simulates:
  assumes f: "fresh_inv f"
  shows "fresh_inv (fresh_run f op)" "fresh_abs (fresh_run f op) = lru_run (fresh_abs f) op"
proof -
  have "fresh_inv (fresh_run f op) \<and> fresh_abs (fresh_run f op) = lru_run (fresh_abs f) op"
  proof (cases op)
    case (Record c a)
    obtain f' r where r: "record_accepted f c a = (f', r)" by fastforce
    from record_accepted_spec[OF f r] show ?thesis
      by (simp add: Record fresh_run_def r lru_run_def fresh_abs_def record_effect_def Let_def
          lru_accept_def evicted_by_def)
  next
    case (Reconfigure c)
    obtain f' res where r: "reconfigure f c = (f', res)" by fastforce
    show ?thesis
    proof (cases "fc_destination_capacity c < u64_max")
      case True
      from r show ?thesis
      proof (cases rule: reconfigure_cases)
        case (1 e)
        then show ?thesis using f by (auto simp: Reconfigure fresh_run_def r lru_run_def fresh_abs_def)
      next
        case (2 rr)
        note R = reconfigure_spec[OF f r[unfolded 2] True]
        have "fresh_queue f' = drop (length (fresh_queue f) - fc_destination_capacity c) (fresh_queue f)"
        proof -
          have "length (frc_evicted_destinations rr) = length (fresh_queue f) - fc_destination_capacity c"
            using arg_cong[OF R(4), of length] R(5) by simp
          with R(4) show ?thesis by (metis append_eq_conv_conj)
        qed
        with R True show ?thesis by (simp add: Reconfigure fresh_run_def r lru_run_def fresh_abs_def Let_def)
      qed
    qed (use f in \<open>simp add: Reconfigure fresh_run_def lru_run_def fresh_abs_def Let_def\<close>)
  qed
  then show "fresh_inv (fresh_run f op)" "fresh_abs (fresh_run f op) = lru_run (fresh_abs f) op" by simp_all
qed

interpretation fresh_ops: guarded_ops fresh_run fresh_inv
  by unfold_locales (rule fresh_run_simulates)

lemma fresh_inv_new:
  "freshness_new c = Inr f \<Longrightarrow> fc_destination_capacity c < u64_max \<Longrightarrow>
     fresh_inv f \<and> fresh_abs f = (fc_destination_capacity c, [])"
  by (auto simp: freshness_new_def freshness_validate_def fresh_inv_def fresh_shape_def fresh_abs_def
      fresh_queue_def linked_def bm_simps u64_max_def split: if_splits)

lemma fresh_runs:
  "fresh_inv f \<Longrightarrow> fresh_abs (foldl fresh_run f ops) = foldl lru_run (fresh_abs f) ops"
  by (induction ops arbitrary: f) (simp_all add: fresh_run_simulates)

text \<open>
  C27: whatever is recorded and however often the bounds change, the freshness table behaves as a
  plain queue of destinations, least recently accepted first: a recorded destination moves to the
  back, a new one takes the place of the front when the table is full, and a smaller bound drops
  from the front. Renumbering the age keys at the end of the 64-bit space is invisible. The
  table's invariant (rows and index in step, bounds respected) holds throughout.
\<close>

theorem freshness_is_lru:
  assumes "freshness_new c = Inr f" "fc_destination_capacity c < u64_max"
  shows "fresh_abs (foldl fresh_run f ops) = foldl lru_run (fc_destination_capacity c, []) ops
    \<and> fresh_inv (foldl fresh_run f ops)"
  using fresh_inv_new[OF assms] fresh_runs[of f ops] fresh_ops.run_inv[of f ops] by simp

theorem freshness_is_lru_witness:
  "snd (fresh_abs (foldl fresh_run
      \<lparr>fr_config = \<lparr>fc_destination_capacity = 2, fc_blob_capacity = 1\<rparr>, fr_rows = [], fr_by_age = [], fr_next_order = 0\<rparr>
      (map (\<lambda>d. Record \<lparr>cand_destination = AddressHash d, cand_blob = AnnounceBlob 7\<rparr> FirstSighting) [1, 2, 1, 3])))
    = [AddressHash 1, AddressHash 3]"
  using freshness_is_lru[of "\<lparr>fc_destination_capacity = 2, fc_blob_capacity = 1\<rparr>"
    "\<lparr>fr_config = \<lparr>fc_destination_capacity = 2, fc_blob_capacity = 1\<rparr>, fr_rows = [], fr_by_age = [], fr_next_order = 0\<rparr>"
    "map (\<lambda>d. Record \<lparr>cand_destination = AddressHash d, cand_blob = AnnounceBlob 7\<rparr> FirstSighting) [1, 2, 1, 3]"]
  by (simp add: freshness_new_def freshness_validate_def u64_max_def lru_run_def lru_accept_def)

section \<open>The caller's protocol\<close>

text \<open>
  The owner of the route table, \<open>crates/retinue/src/node/ingest.rs\<close> and \<open>setup.rs\<close>, reduced to
  what the table sees: which destinations have a live route. An announce is evaluated against its
  route, refused or verified (the flag), recorded, and gives its destination a route; an evicted
  destination loses its own. Routes may also go at any time, by age or with their interface. The
  log is a ghost: the blobs admitted for a destination since its route last began. The handlers
  themselves, with all else they do, are \<open>ingest_announce\<close> and \<open>learn_announce\<close> in NodeRelay.
\<close>

record caller =
  ca_table :: freshness
  ca_routes :: "address_hash set"
  ca_log :: "address_hash \<Rightarrow> announce_blob list"

datatype route_event =
    HearAnnounce freshness_candidate bool
  | LoseRoute address_hash
  | SetPolicy freshness_config

definition route_step :: "caller \<Rightarrow> route_event \<Rightarrow> caller" where
  "route_step s ev =
    (case ev of
       HearAnnounce c verified \<Rightarrow>
         let d = cand_destination c in
         (case evaluate (ca_table s) c (d \<in> ca_routes s) of
            Reject _ \<Rightarrow> s
          | Accept a \<Rightarrow>
              if \<not> verified then s
              else
                let (table, r) = record_accepted (ca_table s) c a in
                \<lparr>ca_table = table,
                 ca_routes = insert d (ca_routes s - set_option (fcr_evicted_destination r)),
                 ca_log = (ca_log s)(d := (if a = FirstSighting then [] else ca_log s d) @ [cand_blob c])\<rparr>)
     | LoseRoute d \<Rightarrow> s\<lparr>ca_routes := ca_routes s - {d}\<rparr>
     | SetPolicy c \<Rightarrow>
         if fc_destination_capacity c < u64_max then
           (case reconfigure (ca_table s) c of
              (table, Inl _) \<Rightarrow> s
            | (table, Inr r) \<Rightarrow>
                s\<lparr>ca_table := table, ca_routes := ca_routes s - set (frc_evicted_destinations r)\<rparr>)
         else s)"

definition caller_new :: "freshness \<Rightarrow> caller" where
  "caller_new f = \<lparr>ca_table = f, ca_routes = {}, ca_log = (\<lambda>_. [])\<rparr>"

text \<open>A live route has its row, and the row knows the newest of the route's announces.\<close>

definition route_inv :: "caller \<Rightarrow> bool" where
  "route_inv s \<longleftrightarrow> fresh_inv (ca_table s) \<and> (\<forall>d \<in> ca_routes s. \<exists>t bs older.
     fresh_content (ca_table s) d = Some (t, bs) \<and> ca_log s d = older @ bs
     \<and> sorted_wrt (<) (map timebase (ca_log s d)) \<and> bs \<noteq> [] \<and> t = timebase (last bs))"

lemma evaluate_content:
  "evaluate f c live =
    (case fresh_content f (cand_destination c) of
       Some (t, bs) \<Rightarrow>
         if \<not> live then Accept FirstSighting
         else if t < candidate_timebase c then Accept NewerTimebase
         else if cand_blob c \<in> set bs then Reject Replay else Reject StaleTimebase
     | None \<Rightarrow> Accept FirstSighting)"
  by (auto simp: evaluate_def fresh_content_def split: option.split)

lemma sorted_last:
  fixes ts :: "nat list"
  shows "sorted_wrt (<) ts \<Longrightarrow> ts \<noteq> [] \<Longrightarrow> (\<forall>x \<in> set ts. x < v) \<longleftrightarrow> last ts < v"
  by (induction ts) (auto intro: less_trans)

definition row_of_route :: "announce_blob list \<Rightarrow> (nat \<times> announce_blob list) option \<Rightarrow> bool" where
  "row_of_route log content \<longleftrightarrow> (\<exists>t bs older. content = Some (t, bs) \<and> log = older @ bs
     \<and> sorted_wrt (<) (map timebase log) \<and> bs \<noteq> [] \<and> t = timebase (last bs))"

lemma route_inv_alt:
  "route_inv s \<longleftrightarrow> fresh_inv (ca_table s)
     \<and> (\<forall>d \<in> ca_routes s. row_of_route (ca_log s d) (fresh_content (ca_table s) d))"
  by (simp add: route_inv_def row_of_route_def)

lemma row_of_route_trim:
  assumes "row_of_route log content" "0 < n"
  shows "row_of_route log (map_option (map_prod id (\<lambda>bs. drop (length bs - n) bs)) content)"
proof -
  obtain t bs older where b: "content = Some (t, bs)" "log = older @ bs"
    "sorted_wrt (<) (map timebase log)" "bs \<noteq> []" "t = timebase (last bs)"
    using assms(1) by (auto simp: row_of_route_def)
  let ?k = "length bs - n"
  have "0 < length bs" using b(4) by simp
  then have "?k < length bs" using assms(2) by linarith
  moreover have "log = (older @ take ?k bs) @ drop ?k bs" using b(2) by simp
  ultimately show ?thesis using b(1,3,4,5) unfolding row_of_route_def
    by (intro exI[of _ t] exI[of _ "drop ?k bs"] exI[of _ "older @ take ?k bs"]) auto
qed

lemma row_of_route_accept:
  assumes "0 < n" "a = NewerTimebase \<Longrightarrow> content = Some (t, bs) \<and> t < timebase b \<and> row_of_route log content"
  shows "row_of_route ((if a = FirstSighting then [] else log) @ [b])
     (Some (timebase b, accepted_blobs n bs a b))"
proof (cases a)
  case FirstSighting
  then have "accepted_blobs n bs a b = [b]" using assms(1) by (simp add: accepted_blobs_def)
  with FirstSighting show ?thesis by (simp add: row_of_route_def)
next
  case NewerTimebase
  with assms(2) obtain older where b: "content = Some (t, bs)" "log = older @ bs" "t < timebase b"
    "sorted_wrt (<) (map timebase log)" "bs \<noteq> []" "t = timebase (last bs)"
    by (auto simp: row_of_route_def)
  have "\<forall>x \<in> set (map timebase log). x < timebase b"
    using b sorted_last[of "map timebase log" "timebase b"] by (simp add: last_map)
  then have "sorted_wrt (<) (map timebase (log @ [b]))" using b(4) by (simp add: sorted_wrt_append)
  then have "row_of_route (log @ [b]) (Some (timebase b, bs @ [b]))"
    using b(2) by (auto simp: row_of_route_def)
  from row_of_route_trim[OF this assms(1)] NewerTimebase show ?thesis
    by (simp add: accepted_blobs_def Let_def)
qed

lemma route_step_inv:
  assumes s: "route_inv s"
  shows "route_inv (route_step s ev)"
proof -
  have f: "fresh_inv (ca_table s)" and
    R: "\<And>d. d \<in> ca_routes s \<Longrightarrow> row_of_route (ca_log s d) (fresh_content (ca_table s) d)"
    using s by (auto simp: route_inv_alt)
  show ?thesis
  proof (cases ev)
    case (LoseRoute d)
    then show ?thesis using s by (simp add: route_step_def route_inv_alt)
  next
    case (SetPolicy c)
    obtain f' res where r: "reconfigure (ca_table s) c = (f', res)" by fastforce
    show ?thesis
    proof (cases "fc_destination_capacity c < u64_max \<and> (\<exists>r. res = Inr r)")
      case True
      then obtain rr where rr: "res = Inr rr" and c: "fc_destination_capacity c < u64_max" by auto
      note S = reconfigure_spec[OF f r[unfolded rr] c]
      have "row_of_route (ca_log s d) (fresh_content f' d)"
        if "d \<in> ca_routes s" "d \<notin> set (frc_evicted_destinations rr)" for d
        using row_of_route_trim[OF R[OF that(1)], of "fc_blob_capacity c"] that(2) S(3,6) by simp
      then show ?thesis using S(1) c by (simp add: SetPolicy route_step_def r rr route_inv_alt)
    qed (use s r in \<open>auto simp: SetPolicy route_step_def split: sum.splits\<close>)
  next
    case (HearAnnounce c verified)
    let ?d = "cand_destination c" and ?n = "fc_blob_capacity (fr_config (ca_table s))"
    show ?thesis
    proof (cases "evaluate (ca_table s) c (?d \<in> ca_routes s)")
      case (Reject e)
      then show ?thesis using s by (simp add: HearAnnounce route_step_def)
    next
      case (Accept a)
      obtain f' r where r: "record_accepted (ca_table s) c a = (f', r)" by fastforce
      note E = record_accepted_spec[OF f r, unfolded record_effect_def Let_def]
      have n: "0 < ?n" using f fresh_shapeD(5) by (simp add: fresh_inv_def)
      have new: "a = NewerTimebase \<Longrightarrow> \<exists>t bs. fresh_content (ca_table s) ?d = Some (t, bs)
          \<and> t < timebase (cand_blob c) \<and> ?d \<in> ca_routes s"
        using Accept by (auto simp: evaluate_content candidate_timebase_def split: option.splits if_splits prod.splits)
      have "row_of_route ((if a = FirstSighting then [] else ca_log s ?d) @ [cand_blob c])
          (Some (timebase (cand_blob c), accepted_blobs ?n (old_blobs (ca_table s) ?d) a (cand_blob c)))"
        by (rule row_of_route_accept[OF n, where content = "fresh_content (ca_table s) ?d"
              and t = "fst (the (fresh_content (ca_table s) ?d))"])
          (use new R[of ?d] in \<open>auto simp: old_blobs_def\<close>)
      moreover have "row_of_route (ca_log s x) (fresh_content f' x)"
        if "x \<in> ca_routes s" "x \<noteq> ?d" "evicted_by (ca_table s) ?d \<noteq> Some x" for x
        using R[OF that(1)] that(2,3) E by simp
      ultimately show ?thesis
        using s E by (cases verified) (auto simp: HearAnnounce route_step_def Accept r route_inv_alt candidate_timebase_def Let_def)
    qed
  qed
qed

interpretation routes: guarded_ops route_step route_inv
  by unfold_locales (rule route_step_inv)

text \<open>
  C18: through any announces, route losses and policy changes, a live route always has its
  freshness row, the timebases it has admitted since it began increase strictly, and the next
  announce is admitted exactly when it was emitted strictly after every one of them, however many
  of their blobs the table has already trimmed.
\<close>

theorem live_route_admits_only_newer:
  assumes "freshness_new cfg = Inr f" "fc_destination_capacity cfg < u64_max"
    and "s = foldl route_step (caller_new f) evs" "cand_destination c \<in> ca_routes s"
  shows "map_of (fr_rows (ca_table s)) (cand_destination c) \<noteq> None
    \<and> sorted_wrt (<) (map timebase (ca_log s (cand_destination c)))
    \<and> (is_accepted (evaluate (ca_table s) c True)
        \<longleftrightarrow> (\<forall>b \<in> set (ca_log s (cand_destination c)). timebase b < candidate_timebase c))"
proof -
  let ?d = "cand_destination c"
  have "route_inv (caller_new f)"
    using fresh_inv_new[OF assms(1,2)] by (simp add: route_inv_def caller_new_def)
  then have "route_inv s" unfolding assms(3) by (rule routes.run_inv)
  with assms(4) obtain t bs older where b: "fresh_content (ca_table s) ?d = Some (t, bs)"
    "ca_log s ?d = older @ bs" "sorted_wrt (<) (map timebase (ca_log s ?d))" "bs \<noteq> []" "t = timebase (last bs)"
    by (auto simp: route_inv_def)
  have "(\<forall>x \<in> set (map timebase (ca_log s ?d)). x < candidate_timebase c) \<longleftrightarrow> t < candidate_timebase c"
    using sorted_last[OF b(3), of "candidate_timebase c"] b(2,4,5) by (simp add: last_map)
  moreover have "is_accepted (evaluate (ca_table s) c True) \<longleftrightarrow> t < candidate_timebase c"
    by (simp add: evaluate_content b(1) is_accepted_def)
  ultimately show ?thesis using b(1,3) by (auto simp: fresh_content_def)
qed

definition demo_fresh :: freshness where
  "demo_fresh = \<lparr>fr_config = \<lparr>fc_destination_capacity = 2, fc_blob_capacity = 1\<rparr>, fr_rows = [],
     fr_by_age = [], fr_next_order = 0\<rparr>"

definition demo_blob :: "nat \<Rightarrow> announce_blob" where
  "demo_blob t = AnnounceBlob (of_be (to_be 5 (0 :: 40 word) @ nat_be 5 t))"

lemma timebase_demo: "t < 2 ^ 40 \<Longrightarrow> timebase (demo_blob t) = t"
  using blob_value[where n = 0 and t = t]
  by (simp add: mint_cases demo_blob_def ANNOUNCE_TIMEBASE_MAX_def split: if_splits)

lemma live_route_admits_only_newer_witness:
  "\<not> is_accepted (evaluate (ca_table (foldl route_step (caller_new demo_fresh)
      [HearAnnounce \<lparr>cand_destination = AddressHash 1, cand_blob = demo_blob 5\<rparr> True,
       HearAnnounce \<lparr>cand_destination = AddressHash 1, cand_blob = demo_blob 9\<rparr> True]))
     \<lparr>cand_destination = AddressHash 1, cand_blob = demo_blob 6\<rparr> True)"
proof -
  let ?cfg = "\<lparr>fc_destination_capacity = 2, fc_blob_capacity = 1\<rparr>"
  let ?s = "foldl route_step (caller_new demo_fresh)
      [HearAnnounce \<lparr>cand_destination = AddressHash 1, cand_blob = demo_blob 5\<rparr> True,
       HearAnnounce \<lparr>cand_destination = AddressHash 1, cand_blob = demo_blob 9\<rparr> True]"
  have "freshness_new ?cfg = Inr demo_fresh" "fc_destination_capacity ?cfg < u64_max"
    by (simp_all add: freshness_new_def freshness_validate_def demo_fresh_def u64_max_def)
  moreover have run: "AddressHash 1 \<in> ca_routes ?s \<and> demo_blob 9 \<in> set (ca_log ?s (AddressHash 1))"
    by (simp add: caller_new_def demo_fresh_def route_step_def evaluate_def record_accepted_def
        take_order_def evict_oldest_def u64_max_def candidate_timebase_def timebase_demo bm_remove_def
        get_at_def Let_def)
  ultimately show ?thesis
    using live_route_admits_only_newer[of ?cfg demo_fresh ?s _
        "\<lparr>cand_destination = AddressHash 1, cand_blob = demo_blob 6\<rparr>", OF _ _ HOL.refl]
    by (auto simp: candidate_timebase_def timebase_demo)
qed

end
