(* ===== verification/Msgpack.thy ===== *)
theory Msgpack
  imports Interfaces
begin

text \<open>
  The MessagePack subset of \<open>crates/retinue/src/msgpack.rs\<close>. An \<open>i64\<close> is a 64-bit word read by
  \<open>sint\<close>; a \<open>String\<close> is the list of its UTF-8 bytes, which \<open>utf8_ok\<close> accepts exactly as
  \<open>core::str::from_utf8\<close> does; a \<open>usize\<close> is a natural with the checked additions of the code.
  The writer appends to its output, so it is modelled by what it appends; the reader's cursor is
  threaded through. The readers of arrays and maps take the element reader as an argument.
\<close>

section \<open>Values\<close>

definition MAX_DEPTH :: nat where "MAX_DEPTH = 16"

datatype mp_value =
    MpNil
  | MpBool bool
  | MpUint u64
  | MpInt "64 word"
  | MpStr bytes
  | MpBin bytes
  | MpArray "mp_value list"
  | MpMap "(mp_value \<times> mp_value) list"

datatype mp_error = MpTruncated | MpUnsupported | MpBadUtf8 | MpTooDeep | MpTrailing

definition as_str :: "mp_value \<Rightarrow> bytes option" where
  "as_str v = (case v of MpStr s \<Rightarrow> Some s | _ \<Rightarrow> None)"

definition as_bin :: "mp_value \<Rightarrow> bytes option" where
  "as_bin v = (case v of MpBin b \<Rightarrow> Some b | _ \<Rightarrow> None)"

definition as_map :: "mp_value \<Rightarrow> (mp_value \<times> mp_value) list option" where
  "as_map v = (case v of MpMap m \<Rightarrow> Some m | _ \<Rightarrow> None)"

definition mp_get :: "mp_value \<Rightarrow> bytes \<Rightarrow> mp_value option" where
  "mp_get v key =
    (case as_map v of
       None \<Rightarrow> None
     | Some entries \<Rightarrow> map_option snd (List.find (\<lambda>(name, _). as_str name = Some key) entries))"

text \<open>The well-formed byte sequences of the Unicode standard.\<close>

definition utf8_tail :: "u8 \<Rightarrow> bool" where
  "utf8_tail b \<longleftrightarrow> 0x80 \<le> b \<and> b \<le> 0xBF"

fun utf8_ok :: "bytes \<Rightarrow> bool" where
  "utf8_ok [] \<longleftrightarrow> True"
| "utf8_ok (a # r) \<longleftrightarrow>
    (if a \<le> 0x7F then utf8_ok r
     else case r of
       [] \<Rightarrow> False
     | b # r \<Rightarrow>
         if 0xC2 \<le> a \<and> a \<le> 0xDF then utf8_tail b \<and> utf8_ok r
         else case r of
           [] \<Rightarrow> False
         | c # r \<Rightarrow>
             if 0xE0 \<le> a \<and> a \<le> 0xEF then
               utf8_tail b \<and> (a = 0xE0 \<longrightarrow> 0xA0 \<le> b) \<and> (a = 0xED \<longrightarrow> b \<le> 0x9F)
               \<and> utf8_tail c \<and> utf8_ok r
             else case r of
               [] \<Rightarrow> False
             | d # r \<Rightarrow>
                 0xF0 \<le> a \<and> a \<le> 0xF4 \<and> utf8_tail b \<and> (a = 0xF0 \<longrightarrow> 0x90 \<le> b)
                 \<and> (a = 0xF4 \<longrightarrow> b \<le> 0x8F) \<and> utf8_tail c \<and> utf8_tail d \<and> utf8_ok r)"

section \<open>Encoding\<close>

definition write_uint :: "u64 \<Rightarrow> bytes" where
  "write_uint n =
    (if n \<le> 0x7F then [ucast n]
     else if n \<le> 0xFF then [0xCC, ucast n]
     else if n \<le> 0xFFFF then 0xCD # to_be 2 (ucast n :: u16)
     else if n \<le> 0xFFFFFFFF then 0xCE # to_be 4 (ucast n :: u32)
     else 0xCF # to_be 8 n)"

definition write_int :: "64 word \<Rightarrow> bytes" where
  "write_int n =
    (if 0 \<le> sint n then write_uint n
     else if - 32 \<le> sint n then [ucast n]
     else if - 128 \<le> sint n then [0xD0, ucast n]
     else if - 32768 \<le> sint n then 0xD1 # to_be 2 (ucast n :: u16)
     else if - 2147483648 \<le> sint n then 0xD2 # to_be 4 (ucast n :: u32)
     else 0xD3 # to_be 8 n)"

definition write_len :: "nat \<Rightarrow> u8 \<Rightarrow> u8 \<Rightarrow> u8 \<Rightarrow> u8 \<Rightarrow> bool \<Rightarrow> bytes" where
  "write_len len fixed u8_tag u16_tag u32_tag has_fixed =
    (if has_fixed \<and> len < 32 then [fixed OR of_nat len]
     else if len < 0x100 then [u8_tag, of_nat len]
     else if len < 0x10000 then u16_tag # to_be 2 (of_nat len :: u16)
     else u32_tag # to_be 4 (of_nat len :: u32))"

definition write_count :: "nat \<Rightarrow> u8 \<Rightarrow> u8 \<Rightarrow> u8 \<Rightarrow> bytes" where
  "write_count n fixed u16_tag u32_tag =
    (if n < 16 then [fixed OR of_nat n]
     else if n < 0x10000 then u16_tag # to_be 2 (of_nat n :: u16)
     else u32_tag # to_be 4 (of_nat n :: u32))"

function mp_write :: "mp_value \<Rightarrow> bytes" where
  "mp_write MpNil = [0xC0]"
| "mp_write (MpBool b) = (if b then [0xC3] else [0xC2])"
| "mp_write (MpUint n) = write_uint n"
| "mp_write (MpInt n) = write_int n"
| "mp_write (MpStr s) = write_len (length s) 0xA0 0xD9 0xDA 0xDB True @ s"
| "mp_write (MpBin b) = write_len (length b) 0 0xC4 0xC5 0xC6 False @ b"
| "mp_write (MpArray items) = write_count (length items) 0x90 0xDC 0xDD @ concat (map mp_write items)"
| "mp_write (MpMap entries) = write_count (length entries) 0x80 0xDE 0xDF
     @ concat (map (\<lambda>e. mp_write (fst e) @ mp_write (snd e)) entries)"
  by pat_completeness auto

termination
proof (relation "measure size", goal_cases)
  case (2 items x)
  then show ?case by (induction items) auto
next
  case (3 entries e)
  then show ?case by (induction entries) auto
next
  case (4 entries e)
  then show ?case by (induction entries) auto
qed simp

definition mp_encode :: "mp_value \<Rightarrow> bytes" where
  "mp_encode v = mp_write v"

section \<open>Decoding\<close>

definition take_bytes :: "bytes \<Rightarrow> nat \<Rightarrow> nat \<Rightarrow> mp_error + bytes \<times> nat" where
  "take_bytes bs at len =
    (case checked_add u64_max at len of
       None \<Rightarrow> Inl MpTruncated
     | Some stop \<Rightarrow> (case slice_get bs at stop of None \<Rightarrow> Inl MpTruncated | Some s \<Rightarrow> Inr (s, stop)))"

fun fold_len :: "nat \<Rightarrow> bytes \<Rightarrow> nat option" where
  "fold_len len [] = Some len"
| "fold_len len (b # bs) =
    (case checked_mul u64_max len 256 of
       None \<Rightarrow> None
     | Some len \<Rightarrow> (case checked_add u64_max len (unat b) of None \<Rightarrow> None | Some len \<Rightarrow> fold_len len bs))"

definition read_len :: "bytes \<Rightarrow> nat \<Rightarrow> nat \<Rightarrow> mp_error + nat \<times> nat" where
  "read_len bs at width =
    and_then (take_bytes bs at width)
      (\<lambda>(raw, at). and_then (ok_or (fold_len 0 raw) MpTruncated) (\<lambda>len. Inr (len, at)))"

definition read_str :: "bytes \<Rightarrow> nat \<Rightarrow> nat \<Rightarrow> mp_error + mp_value \<times> nat" where
  "read_str bs at len =
    and_then (take_bytes bs at len) (\<lambda>(raw, at). if utf8_ok raw then Inr (MpStr raw, at) else Inl MpBadUtf8)"

definition read_bin :: "bytes \<Rightarrow> nat \<Rightarrow> nat \<Rightarrow> mp_error + mp_value \<times> nat" where
  "read_bin bs at len = and_then (take_bytes bs at len) (\<lambda>(raw, at). Inr (MpBin raw, at))"

fun read_times :: "nat \<Rightarrow> (nat \<Rightarrow> mp_error + 'a \<times> nat) \<Rightarrow> nat \<Rightarrow> mp_error + 'a list \<times> nat" where
  "read_times 0 f at = Inr ([], at)"
| "read_times (Suc n) f at =
     and_then (f at) (\<lambda>(x, at). and_then (read_times n f at) (\<lambda>(xs, at). Inr (x # xs, at)))"

definition read_array ::
    "(nat \<Rightarrow> mp_error + mp_value \<times> nat) \<Rightarrow> bytes \<Rightarrow> nat \<Rightarrow> nat \<Rightarrow> mp_error + mp_value \<times> nat" where
  "read_array elem bs at n =
    (if length bs - at < n then Inl MpTruncated
     else and_then (read_times n elem at) (\<lambda>(items, at). Inr (MpArray items, at)))"

definition read_pair ::
    "(nat \<Rightarrow> mp_error + mp_value \<times> nat) \<Rightarrow> nat \<Rightarrow> mp_error + (mp_value \<times> mp_value) \<times> nat" where
  "read_pair elem at =
    and_then (elem at) (\<lambda>(key, at). and_then (elem at) (\<lambda>(val, at). Inr ((key, val), at)))"

definition read_map ::
    "(nat \<Rightarrow> mp_error + mp_value \<times> nat) \<Rightarrow> bytes \<Rightarrow> nat \<Rightarrow> nat \<Rightarrow> mp_error + mp_value \<times> nat" where
  "read_map elem bs at n =
    (case checked_mul u64_max n 2 of
       None \<Rightarrow> Inl MpTruncated
     | Some pairs \<Rightarrow>
         if length bs - at < pairs then Inl MpTruncated
         else and_then (read_times n (read_pair elem) at) (\<lambda>(entries, at). Inr (MpMap entries, at)))"

function mp_read :: "bytes \<Rightarrow> nat \<Rightarrow> nat \<Rightarrow> mp_error + mp_value \<times> nat" where
  "mp_read bs at depth =
    (if MAX_DEPTH < depth then Inl MpTooDeep
     else case get_at bs at of
       None \<Rightarrow> Inl MpTruncated
     | Some tag \<Rightarrow>
         if tag \<le> 0x7F then Inr (MpUint (ucast tag), at + 1)
         else if 0xE0 \<le> tag then Inr (MpInt (scast tag), at + 1)
         else if tag \<le> 0x8F then
           read_map (\<lambda>at. mp_read bs at (depth + 1)) bs (at + 1) (unat (tag AND 0x0F))
         else if tag \<le> 0x9F then
           read_array (\<lambda>at. mp_read bs at (depth + 1)) bs (at + 1) (unat (tag AND 0x0F))
         else if tag \<le> 0xBF then read_str bs (at + 1) (unat (tag AND 0x1F))
         else if tag = 0xC0 then Inr (MpNil, at + 1)
         else if tag = 0xC2 then Inr (MpBool False, at + 1)
         else if tag = 0xC3 then Inr (MpBool True, at + 1)
         else if tag = 0xC4 then and_then (read_len bs (at + 1) 1) (\<lambda>(len, at). read_bin bs at len)
         else if tag = 0xC5 then and_then (read_len bs (at + 1) 2) (\<lambda>(len, at). read_bin bs at len)
         else if tag = 0xC6 then and_then (read_len bs (at + 1) 4) (\<lambda>(len, at). read_bin bs at len)
         else if tag = 0xCC then and_then (read_len bs (at + 1) 1) (\<lambda>(n, at). Inr (MpUint (of_nat n), at))
         else if tag = 0xCD then and_then (read_len bs (at + 1) 2) (\<lambda>(n, at). Inr (MpUint (of_nat n), at))
         else if tag = 0xCE then and_then (read_len bs (at + 1) 4) (\<lambda>(n, at). Inr (MpUint (of_nat n), at))
         else if tag = 0xCF then and_then (take_bytes bs (at + 1) 8) (\<lambda>(raw, at). Inr (MpUint (of_be raw), at))
         else if tag = 0xD0 then
           and_then (take_bytes bs (at + 1) 1) (\<lambda>(raw, at). Inr (MpInt (scast (raw ! 0)), at))
         else if tag = 0xD1 then
           and_then (take_bytes bs (at + 1) 2) (\<lambda>(raw, at). Inr (MpInt (scast (of_be raw :: u16)), at))
         else if tag = 0xD2 then
           and_then (take_bytes bs (at + 1) 4) (\<lambda>(raw, at). Inr (MpInt (scast (of_be raw :: u32)), at))
         else if tag = 0xD3 then and_then (take_bytes bs (at + 1) 8) (\<lambda>(raw, at). Inr (MpInt (of_be raw), at))
         else if tag = 0xD9 then and_then (read_len bs (at + 1) 1) (\<lambda>(len, at). read_str bs at len)
         else if tag = 0xDA then and_then (read_len bs (at + 1) 2) (\<lambda>(len, at). read_str bs at len)
         else if tag = 0xDB then and_then (read_len bs (at + 1) 4) (\<lambda>(len, at). read_str bs at len)
         else if tag = 0xDC then and_then (read_len bs (at + 1) 2)
           (\<lambda>(n, at). read_array (\<lambda>at. mp_read bs at (depth + 1)) bs at n)
         else if tag = 0xDD then and_then (read_len bs (at + 1) 4)
           (\<lambda>(n, at). read_array (\<lambda>at. mp_read bs at (depth + 1)) bs at n)
         else if tag = 0xDE then and_then (read_len bs (at + 1) 2)
           (\<lambda>(n, at). read_map (\<lambda>at. mp_read bs at (depth + 1)) bs at n)
         else if tag = 0xDF then and_then (read_len bs (at + 1) 4)
           (\<lambda>(n, at). read_map (\<lambda>at. mp_read bs at (depth + 1)) bs at n)
         else Inl MpUnsupported)"
  by pat_completeness auto

termination
  by (relation "measure (\<lambda>(bs, at, depth). MAX_DEPTH + 1 - depth)") auto

declare mp_read.simps [simp del]

definition mp_decode :: "bytes \<Rightarrow> mp_error + mp_value" where
  "mp_decode bs =
    and_then (mp_read bs 0 0) (\<lambda>(v, at). if at \<noteq> length bs then Inl MpTrailing else Inr v)"

section \<open>Words\<close>

lemma unat_down:
  fixes n :: u64
  assumes "unat n < 2 ^ LENGTH('a::len)"
  shows "unat (ucast n :: 'a word) = unat n"
  using assms by (simp add: unsigned_ucast_eq take_bit_nat_eq_self)

lemma be_nat_to_be:
  fixes w :: "'a::len word"
  assumes "LENGTH('a) = 8 * n"
  shows "be_nat (to_be n w) = unat w"
proof -
  have "(256 :: nat) ^ n = 2 ^ LENGTH('a)" using assms by (simp add: power_mult)
  then show ?thesis using unsigned_less[of w] by (simp add: to_be_def be_nat_nat_be)
qed

lemma be_nat_to_be_16 [simp]: "be_nat (to_be 2 (w :: u16)) = unat w"
  and be_nat_to_be_32 [simp]: "be_nat (to_be 4 (w' :: u32)) = unat w'"
  by (simp_all add: be_nat_to_be)

lemma sint_narrow:
  fixes n :: u64
  assumes "LENGTH('a::len) \<le> 64" "- (2 ^ (LENGTH('a) - 1)) \<le> sint n" "sint n < 2 ^ (LENGTH('a) - 1)"
  shows "scast (ucast n :: 'a word) = n"
proof -
  have "sint (ucast n :: 'a word) = signed_take_bit (LENGTH('a) - 1) (uint n)"
    by (simp add: signed_ucast_eq)
  also have "uint n = take_bit 64 (sint n)" by (simp add: uint_sint)
  also have "signed_take_bit (LENGTH('a) - 1) (take_bit 64 (sint n)) = signed_take_bit (LENGTH('a) - 1) (sint n)"
    using assms(1) by (simp add: signed_take_bit_take_bit)
  also have "\<dots> = sint n" using assms(2,3) by (simp add: signed_take_bit_int_eq_self)
  finally have "sint (ucast n :: 'a word) = sint n" .
  then show ?thesis by (simp add: scast_eq)
qed

lemma fix_tags:
  "n < 32 \<Longrightarrow> (0xA0 OR of_nat n :: u8) \<le> 0xBF \<and> \<not> (0xA0 OR of_nat n :: u8) \<le> 0x9F
     \<and> \<not> (0xA0 OR of_nat n :: u8) \<le> 0x8F \<and> \<not> (0xA0 OR of_nat n :: u8) \<le> 0x7F
     \<and> \<not> 0xE0 \<le> (0xA0 OR of_nat n :: u8) \<and> unat ((0xA0 OR of_nat n :: u8) AND 0x1F) = n"
  "n < 16 \<Longrightarrow> (0x90 OR of_nat n :: u8) \<le> 0x9F \<and> \<not> (0x90 OR of_nat n :: u8) \<le> 0x8F
     \<and> \<not> (0x90 OR of_nat n :: u8) \<le> 0x7F
     \<and> \<not> 0xE0 \<le> (0x90 OR of_nat n :: u8) \<and> unat ((0x90 OR of_nat n :: u8) AND 0x0F) = n"
  "n < 16 \<Longrightarrow> (0x80 OR of_nat n :: u8) \<le> 0x8F \<and> \<not> (0x80 OR of_nat n :: u8) \<le> 0x7F
     \<and> \<not> 0xE0 \<le> (0x80 OR of_nat n :: u8) \<and> unat ((0x80 OR of_nat n :: u8) AND 0x0F) = n"
proof -
  have below: "P n" if "list_all P [0..<m]" "n < m" for P :: "nat \<Rightarrow> bool" and m n
    using that by (simp add: list_all_iff)
  show "n < 32 \<Longrightarrow> (0xA0 OR of_nat n :: u8) \<le> 0xBF \<and> \<not> (0xA0 OR of_nat n :: u8) \<le> 0x9F
     \<and> \<not> (0xA0 OR of_nat n :: u8) \<le> 0x8F \<and> \<not> (0xA0 OR of_nat n :: u8) \<le> 0x7F
     \<and> \<not> 0xE0 \<le> (0xA0 OR of_nat n :: u8) \<and> unat ((0xA0 OR of_nat n :: u8) AND 0x1F) = n"
    by (rule below[where m = 32]) (simp_all add: upt_rec)
  show "n < 16 \<Longrightarrow> (0x90 OR of_nat n :: u8) \<le> 0x9F \<and> \<not> (0x90 OR of_nat n :: u8) \<le> 0x8F
     \<and> \<not> (0x90 OR of_nat n :: u8) \<le> 0x7F
     \<and> \<not> 0xE0 \<le> (0x90 OR of_nat n :: u8) \<and> unat ((0x90 OR of_nat n :: u8) AND 0x0F) = n"
    by (rule below[where m = 16]) (simp_all add: upt_rec)
  show "n < 16 \<Longrightarrow> (0x80 OR of_nat n :: u8) \<le> 0x8F \<and> \<not> (0x80 OR of_nat n :: u8) \<le> 0x7F
     \<and> \<not> 0xE0 \<le> (0x80 OR of_nat n :: u8) \<and> unat ((0x80 OR of_nat n :: u8) AND 0x0F) = n"
    by (rule below[where m = 16]) (simp_all add: upt_rec)
qed

section \<open>Reading what was written\<close>

text \<open>The bytes at a position of the input.\<close>

definition reads :: "bytes \<Rightarrow> nat \<Rightarrow> bytes \<Rightarrow> bool" where
  "reads bs at w \<longleftrightarrow> (\<exists>pre post. bs = pre @ w @ post \<and> length pre = at)"

lemma reads_Cons: "reads bs at (x # w) \<Longrightarrow> get_at bs at = Some x \<and> reads bs (Suc at) w"
proof -
  assume "reads bs at (x # w)"
  then obtain pre post where bs: "bs = pre @ (x # w) @ post" "length pre = at" by (auto simp: reads_def)
  then have "bs = (pre @ [x]) @ w @ post" "length (pre @ [x]) = Suc at" by simp_all
  then have "reads bs (Suc at) w" unfolding reads_def by blast
  then show ?thesis using bs by (auto simp: get_at_def nth_append)
qed

lemma reads_append: "reads bs at (u @ w) \<Longrightarrow> reads bs at u \<and> reads bs (at + length u) w"
proof -
  assume "reads bs at (u @ w)"
  then obtain pre post where bs: "bs = pre @ (u @ w) @ post" "length pre = at" by (auto simp: reads_def)
  then have "bs = (pre @ u) @ w @ post" "length (pre @ u) = at + length u" "bs = pre @ u @ (w @ post)" by simp_all
  then show ?thesis using bs(2) unfolding reads_def by blast
qed

lemma reads_length: "reads bs at w \<Longrightarrow> at + length w \<le> length bs"
  by (auto simp: reads_def)

lemma take_bytes_reads:
  "reads bs at w \<Longrightarrow> length bs \<le> u64_max \<Longrightarrow> n = length w \<Longrightarrow> take_bytes bs at n = Inr (w, at + n)"
  by (auto simp: reads_def take_bytes_def checked_add_def slice_get_def)

lemma fold_len_be:
  "len * 256 ^ length bs + be_nat bs \<le> u64_max \<Longrightarrow> fold_len len bs = Some (len * 256 ^ length bs + be_nat bs)"
proof (induction len bs rule: fold_len.induct)
  case (2 len b bs)
  have eq: "len * 256 ^ length (b # bs) + be_nat (b # bs)
      = (len * 256 + unat b) * 256 ^ length bs + be_nat bs"
    by (simp add: algebra_simps)
  have "1 \<le> (256 :: nat) ^ length bs" by simp
  then have "(len * 256 + unat b) * 1 \<le> (len * 256 + unat b) * 256 ^ length bs"
    by (rule mult_le_mono2)
  from order.trans[OF this add_leD1[OF 2(2)[unfolded eq]]] have le: "len * 256 + unat b \<le> u64_max" by simp
  have "fold_len len (b # bs) = fold_len (len * 256 + unat b) bs"
    using le by (simp add: checked_mul_def checked_add_def)
  also have "\<dots> = Some ((len * 256 + unat b) * 256 ^ length bs + be_nat bs)"
    using 2(1)[of "len * 256" "len * 256 + unat b"] le 2(2) unfolding eq
    by (simp add: checked_mul_def checked_add_def)
  finally show ?case by (simp only: eq)
qed simp

lemma read_len_reads:
  assumes "reads bs at w" "length bs \<le> u64_max" "n = length w" "n \<le> 4"
  shows "read_len bs at n = Inr (be_nat w, at + n)"
proof -
  have "be_nat w < 256 ^ length w" by (rule be_nat_less)
  also have "\<dots> \<le> (256 :: nat) ^ 4" by (rule power_increasing) (use assms in simp_all)
  finally have "be_nat w \<le> u64_max" by (simp add: u64_max_def)
  then have "fold_len 0 w = Some (be_nat w)" using fold_len_be[of 0 w] by simp
  then show ?thesis by (simp add: read_len_def take_bytes_reads[OF assms(1-3)])
qed

lemma mp_read_tag:
  assumes "get_at bs at = Some tag" "depth \<le> MAX_DEPTH"
  shows "mp_read bs at depth = (
         if tag \<le> 0x7F then Inr (MpUint (ucast tag), at + 1)
         else if 0xE0 \<le> tag then Inr (MpInt (scast tag), at + 1)
         else if tag \<le> 0x8F then
           read_map (\<lambda>at. mp_read bs at (depth + 1)) bs (at + 1) (unat (tag AND 0x0F))
         else if tag \<le> 0x9F then
           read_array (\<lambda>at. mp_read bs at (depth + 1)) bs (at + 1) (unat (tag AND 0x0F))
         else if tag \<le> 0xBF then read_str bs (at + 1) (unat (tag AND 0x1F))
         else mp_read bs at depth)"
  using assms by (subst (1 2) mp_read.simps) simp

lemma read_uint:
  assumes r: "reads bs at (write_uint n)" and b: "length bs \<le> u64_max" "depth \<le> MAX_DEPTH"
  shows "mp_read bs at depth = Inr (MpUint n, at + length (write_uint n))"
proof -
  note le = word_le_nat_alt[of n]
  consider "n \<le> 0x7F" | "\<not> n \<le> 0x7F" "n \<le> 0xFF" | "\<not> n \<le> 0xFF" "n \<le> 0xFFFF"
    | "\<not> n \<le> 0xFFFF" "n \<le> 0xFFFFFFFF" | "\<not> n \<le> 0xFFFFFFFF" by blast
  then show ?thesis
  proof cases
    case 1
    then have u: "unat (ucast n :: u8) = unat n" "unat n \<le> 127" by (simp_all add: unat_down le)
    have "(ucast n :: u8) \<le> 0x7F" using u by (simp add: word_le_nat_alt)
    moreover have "ucast (ucast n :: u8) = n"
      by (rule word_unat_eq_iff[THEN iffD2]) (simp only: unat_ucast_byte u)
    ultimately show ?thesis using r 1 b by (simp add: write_uint_def mp_read_tag[OF reads_Cons[THEN conjunct1]])
  next
    case 2
    then have u: "unat (ucast n :: u8) = unat n" by (simp add: unat_down le)
    have w: "write_uint n = 0xCC # [ucast n]" using 2 by (auto simp: write_uint_def)
    note R = reads_Cons[OF r[unfolded w]]
    have "read_len bs (at + 1) 1 = Inr (unat n, at + 2)"
      using read_len_reads[of bs "at + 1" "[ucast n]" 1] R b(1) u by simp
    then show ?thesis using R b by (subst mp_read.simps) (simp add: w)
  next
    case 3
    then have u: "unat (ucast n :: u16) = unat n" by (simp add: unat_down le)
    have w: "write_uint n = 0xCD # to_be 2 (ucast n :: u16)" using 3 by (simp add: write_uint_def le)
    note R = reads_Cons[OF r[unfolded w]]
    have "read_len bs (at + 1) 2 = Inr (unat n, at + 3)"
      using read_len_reads[of bs "at + 1" "to_be 2 (ucast n :: u16)" 2] R b(1) u by simp
    then show ?thesis using R b by (subst mp_read.simps) (simp add: w)
  next
    case 4
    then have u: "unat (ucast n :: u32) = unat n" by (simp add: unat_down le)
    have w: "write_uint n = 0xCE # to_be 4 (ucast n :: u32)" using 4 by (simp add: write_uint_def le)
    note R = reads_Cons[OF r[unfolded w]]
    have "read_len bs (at + 1) 4 = Inr (unat n, at + 5)"
      using read_len_reads[of bs "at + 1" "to_be 4 (ucast n :: u32)" 4] R b(1) u by simp
    then show ?thesis using R b by (subst mp_read.simps) (simp add: w)
  next
    case 5
    then have w: "write_uint n = 0xCF # to_be 8 n" by (simp add: write_uint_def le)
    note R = reads_Cons[OF r[unfolded w]]
    have "take_bytes bs (at + 1) 8 = Inr (to_be 8 n, at + 9)"
      using take_bytes_reads[of bs "at + 1" "to_be 8 n" 8] R b(1) by simp
    then show ?thesis using R b by (subst mp_read.simps) (simp add: w)
  qed
qed

definition canon_int :: "64 word \<Rightarrow> mp_value" where
  "canon_int n = (if 0 \<le> sint n then MpUint n else MpInt n)"

lemma negative_fixint:
  fixes w :: u8
  assumes "- 32 \<le> sint w" "sint w < 0"
  shows "0xE0 \<le> w" "\<not> w \<le> 0x7F"
proof -
  have "uint w = take_bit 8 (sint w)" by (simp add: uint_sint)
  also have "\<dots> = sint w mod 256" by (simp add: take_bit_eq_mod)
  also have "\<dots> = sint w + 256" using assms by presburger
  finally have "uint w = sint w + 256" .
  with assms show "0xE0 \<le> w" "\<not> w \<le> 0x7F" by (simp_all add: word_le_def)
qed

lemma read_int:
  assumes r: "reads bs at (write_int n)" and b: "length bs \<le> u64_max" "depth \<le> MAX_DEPTH"
  shows "mp_read bs at depth = Inr (canon_int n, at + length (write_int n))"
proof -
  consider "0 \<le> sint n" | "sint n < 0" "- 32 \<le> sint n" | "sint n < - 32" "- 128 \<le> sint n"
    | "sint n < - 128" "- 32768 \<le> sint n" | "sint n < - 32768" "- 2147483648 \<le> sint n"
    | "sint n < - 2147483648" by linarith
  then show ?thesis
  proof cases
    case 1
    then have "write_int n = write_uint n" by (simp add: write_int_def)
    with 1 read_uint[of bs at n depth] r b show ?thesis by (simp add: canon_int_def)
  next
    case 2
    then have s: "scast (ucast n :: u8) = n" using sint_narrow[of n, where 'a = 8] by simp
    have "sint (scast (ucast n :: u8) :: u64) = sint (ucast n :: u8)" by (simp add: sint_up_scast is_up)
    then have "sint (ucast n :: u8) = sint n" by (simp add: s)
    with 2 negative_fixint[of "ucast n"] have t: "0xE0 \<le> (ucast n :: u8)" "\<not> (ucast n :: u8) \<le> 0x7F" by simp_all
    have w: "write_int n = [ucast n]" using 2 by (simp add: write_int_def)
    show ?thesis using reads_Cons[OF r[unfolded w]] 2 t s b by (simp add: mp_read_tag w canon_int_def)
  next
    case 3
    then have w: "write_int n = 0xD0 # [ucast n]" by (simp add: write_int_def)
    have s: "scast (ucast n :: u8) = n" using 3 sint_narrow[of n, where 'a = 8] by simp
    note R = reads_Cons[OF r[unfolded w]]
    have "take_bytes bs (at + 1) 1 = Inr ([ucast n], at + 2)"
      using take_bytes_reads[of bs "at + 1" "[ucast n]" 1] R b(1) by simp
    then show ?thesis using R b 3 by (subst mp_read.simps) (simp add: w s canon_int_def)
  next
    case 4
    then have w: "write_int n = 0xD1 # to_be 2 (ucast n :: u16)" by (simp add: write_int_def)
    have s: "scast (ucast n :: u16) = n" using 4 sint_narrow[of n, where 'a = 16] by simp
    note R = reads_Cons[OF r[unfolded w]]
    have "take_bytes bs (at + 1) 2 = Inr (to_be 2 (ucast n :: u16), at + 3)"
      using take_bytes_reads[of bs "at + 1" "to_be 2 (ucast n :: u16)" 2] R b(1) by simp
    then show ?thesis using R b 4 by (subst mp_read.simps) (simp add: w s canon_int_def)
  next
    case 5
    then have w: "write_int n = 0xD2 # to_be 4 (ucast n :: u32)" by (simp add: write_int_def)
    have s: "scast (ucast n :: u32) = n" using 5 sint_narrow[of n, where 'a = 32] by simp
    note R = reads_Cons[OF r[unfolded w]]
    have "take_bytes bs (at + 1) 4 = Inr (to_be 4 (ucast n :: u32), at + 5)"
      using take_bytes_reads[of bs "at + 1" "to_be 4 (ucast n :: u32)" 4] R b(1) by simp
    then show ?thesis using R b 5 by (subst mp_read.simps) (simp add: w s canon_int_def)
  next
    case 6
    then have w: "write_int n = 0xD3 # to_be 8 n" by (simp add: write_int_def)
    note R = reads_Cons[OF r[unfolded w]]
    have "take_bytes bs (at + 1) 8 = Inr (to_be 8 n, at + 9)"
      using take_bytes_reads[of bs "at + 1" "to_be 8 n" 8] R b(1) by simp
    then show ?thesis using R b 6 by (subst mp_read.simps) (simp add: w canon_int_def)
  qed
qed

text \<open>A header of a string, a blob, an array or a map, and the reader it leads to.\<close>

lemma unat_of_nat_16: "n < 65536 \<Longrightarrow> unat (of_nat n :: u16) = n"
  and unat_of_nat_32: "n < 4294967296 \<Longrightarrow> unat (of_nat n :: u32) = n"
  and unat_of_nat_8: "n < 256 \<Longrightarrow> unat (of_nat n :: u8) = n"
  by (simp_all add: unat_of_nat)

lemma header_len:
  assumes "reads bs at (tag # w @ rest)" "length bs \<le> u64_max" "length w \<le> 4"
  shows "get_at bs at = Some tag" "read_len bs (at + 1) (length w) = Inr (be_nat w, at + 1 + length w)"
    "reads bs (at + 1 + length w) rest"
proof -
  note R = reads_Cons[OF assms(1)]
  note A = reads_append[OF R[THEN conjunct2]]
  show "get_at bs at = Some tag" using R by blast
  show "read_len bs (at + 1) (length w) = Inr (be_nat w, at + 1 + length w)"
    using read_len_reads[of bs "at + 1" w] A assms(2,3) by simp
  show "reads bs (at + 1 + length w) rest" using A by simp
qed

lemma read_str_written:
  assumes r: "reads bs at (write_len (length s) 0xA0 0xD9 0xDA 0xDB True @ s)"
    and b: "length bs \<le> u64_max" "depth \<le> MAX_DEPTH" and s: "utf8_ok s" "length s < 2 ^ 32"
  shows "mp_read bs at depth = Inr (MpStr s, at + length (write_len (length s) 0xA0 0xD9 0xDA 0xDB True) + length s)"
proof -
  have body: "read_str bs p (length s) = Inr (MpStr s, p + length s)" if "reads bs p s" for p
    using take_bytes_reads[OF that b(1) HOL.refl] s(1) by (simp add: read_str_def)
  consider "length s < 32" | "\<not> length s < 32" "length s < 0x100" | "\<not> length s < 0x100" "length s < 0x10000"
    | "\<not> length s < 0x10000" by blast
  then show ?thesis
  proof cases
    case 1
    then have w: "write_len (length s) 0xA0 0xD9 0xDA 0xDB True = [0xA0 OR of_nat (length s)]" by (simp add: write_len_def)
    note R = reads_Cons[OF r[unfolded w append.simps]]
    show ?thesis using fix_tags(1)[OF 1] R body[of "at + 1"] b(2)
      by (simp add: mp_read_tag[of _ _ "0xA0 OR of_nat (length s)"] w)
  next
    case 2
    then have w: "write_len (length s) 0xA0 0xD9 0xDA 0xDB True = 0xD9 # [of_nat (length s)]" by (simp add: write_len_def)
    from header_len[of bs at "0xD9" "[of_nat (length s)]" s] r[unfolded w] b(1) 2 body[of "Suc at + 1"] b(2) show ?thesis
      by (subst mp_read.simps) (simp add: w unat_of_nat_8)
  next
    case 3
    then have w: "write_len (length s) 0xA0 0xD9 0xDA 0xDB True = 0xDA # to_be 2 (of_nat (length s) :: u16)" by (simp add: write_len_def)
    from header_len[OF r[unfolded w append_Cons append_assoc] b(1)] 3 body[of "Suc at + 2"] b(2) show ?thesis
      by (subst mp_read.simps) (simp add: w unat_of_nat_16)
  next
    case 4
    then have w: "write_len (length s) 0xA0 0xD9 0xDA 0xDB True = 0xDB # to_be 4 (of_nat (length s) :: u32)" by (simp add: write_len_def)
    from header_len[OF r[unfolded w append_Cons append_assoc] b(1)] s(2) body[of "Suc at + 4"] b(2) show ?thesis
      by (subst mp_read.simps) (simp add: w unat_of_nat_32)
  qed
qed

lemma read_bin_written:
  assumes r: "reads bs at (write_len (length s) 0 0xC4 0xC5 0xC6 False @ s)"
    and b: "length bs \<le> u64_max" "depth \<le> MAX_DEPTH" and s: "length s < 2 ^ 32"
  shows "mp_read bs at depth = Inr (MpBin s, at + length (write_len (length s) 0 0xC4 0xC5 0xC6 False) + length s)"
proof -
  have body: "read_bin bs p (length s) = Inr (MpBin s, p + length s)" if "reads bs p s" for p
    using take_bytes_reads[OF that b(1) HOL.refl] by (simp add: read_bin_def)
  consider "length s < 0x100" | "\<not> length s < 0x100" "length s < 0x10000" | "\<not> length s < 0x10000" by blast
  then show ?thesis
  proof cases
    case 1
    then have w: "write_len (length s) 0 0xC4 0xC5 0xC6 False = 0xC4 # [of_nat (length s)]" by (simp add: write_len_def)
    from header_len[of bs at "0xC4" "[of_nat (length s)]" s] r[unfolded w] b(1) 1 body[of "Suc at + 1"] b(2) show ?thesis
      by (subst mp_read.simps) (simp add: w unat_of_nat_8)
  next
    case 2
    then have w: "write_len (length s) 0 0xC4 0xC5 0xC6 False = 0xC5 # to_be 2 (of_nat (length s) :: u16)" by (simp add: write_len_def)
    from header_len[OF r[unfolded w append_Cons append_assoc] b(1)] 2 body[of "Suc at + 2"] b(2) show ?thesis
      by (subst mp_read.simps) (simp add: w unat_of_nat_16)
  next
    case 3
    then have w: "write_len (length s) 0 0xC4 0xC5 0xC6 False = 0xC6 # to_be 4 (of_nat (length s) :: u32)" by (simp add: write_len_def)
    from header_len[OF r[unfolded w append_Cons append_assoc] b(1)] s body[of "Suc at + 4"] b(2) show ?thesis
      by (subst mp_read.simps) (simp add: w unat_of_nat_32)
  qed
qed

lemma read_array_written:
  assumes r: "reads bs at (write_count n 0x90 0xDC 0xDD @ rest)"
    and b: "length bs \<le> u64_max" "depth \<le> MAX_DEPTH" "n < 2 ^ 32"
    and body: "\<And>p. reads bs p rest \<Longrightarrow> read_array (\<lambda>at. mp_read bs at (depth + 1)) bs p n = Inr (v, p + length rest)"
  shows "mp_read bs at depth = Inr (v, at + length (write_count n 0x90 0xDC 0xDD) + length rest)"
proof -
  consider "n < 16" | "\<not> n < 16" "n < 0x10000" | "\<not> n < 0x10000" by blast
  then show ?thesis
  proof cases
    case 1
    then have w: "write_count n 0x90 0xDC 0xDD = [0x90 OR of_nat n]" by (simp add: write_count_def)
    note R = reads_Cons[OF r[unfolded w append.simps]]
    show ?thesis using fix_tags(2)[OF 1] R body[of "at + 1"] b(2)
      by (simp add: mp_read_tag[of _ _ "0x90 OR of_nat n"] w)
  next
    case 2
    then have w: "write_count n 0x90 0xDC 0xDD = 0xDC # to_be 2 (of_nat n :: u16)" by (simp add: write_count_def)
    from header_len[OF r[unfolded w append_Cons append_assoc] b(1)] 2 body[of "Suc at + 2"] b(2) show ?thesis
      by (subst mp_read.simps) (simp add: w unat_of_nat_16)
  next
    case 3
    then have w: "write_count n 0x90 0xDC 0xDD = 0xDD # to_be 4 (of_nat n :: u32)" by (simp add: write_count_def)
    from header_len[OF r[unfolded w append_Cons append_assoc] b(1)] b(3) body[of "Suc at + 4"] b(2) show ?thesis
      by (subst mp_read.simps) (simp add: w unat_of_nat_32)
  qed
qed

lemma read_map_written:
  assumes r: "reads bs at (write_count n 0x80 0xDE 0xDF @ rest)"
    and b: "length bs \<le> u64_max" "depth \<le> MAX_DEPTH" "n < 2 ^ 32"
    and body: "\<And>p. reads bs p rest \<Longrightarrow> read_map (\<lambda>at. mp_read bs at (depth + 1)) bs p n = Inr (v, p + length rest)"
  shows "mp_read bs at depth = Inr (v, at + length (write_count n 0x80 0xDE 0xDF) + length rest)"
proof -
  consider "n < 16" | "\<not> n < 16" "n < 0x10000" | "\<not> n < 0x10000" by blast
  then show ?thesis
  proof cases
    case 1
    then have w: "write_count n 0x80 0xDE 0xDF = [0x80 OR of_nat n]" by (simp add: write_count_def)
    note R = reads_Cons[OF r[unfolded w append.simps]]
    show ?thesis using fix_tags(3)[OF 1] R body[of "at + 1"] b(2)
      by (simp add: mp_read_tag[of _ _ "0x80 OR of_nat n"] w)
  next
    case 2
    then have w: "write_count n 0x80 0xDE 0xDF = 0xDE # to_be 2 (of_nat n :: u16)" by (simp add: write_count_def)
    from header_len[OF r[unfolded w append_Cons append_assoc] b(1)] 2 body[of "Suc at + 2"] b(2) show ?thesis
      by (subst mp_read.simps) (simp add: w unat_of_nat_16)
  next
    case 3
    then have w: "write_count n 0x80 0xDE 0xDF = 0xDF # to_be 4 (of_nat n :: u32)" by (simp add: write_count_def)
    from header_len[OF r[unfolded w append_Cons append_assoc] b(1)] b(3) body[of "Suc at + 4"] b(2) show ?thesis
      by (subst mp_read.simps) (simp add: w unat_of_nat_32)
  qed
qed

section \<open>Round trip\<close>

text \<open>
  The value a decoder gives back: a nonnegative \<open>Int\<close> is written, and read, as a \<open>Uint\<close>.
  \<open>mp_fits k v\<close>: strings are text, lengths fit their 32-bit headers, and containers nest at most
  \<open>k\<close> deep below \<open>v\<close>.
\<close>

function canon :: "mp_value \<Rightarrow> mp_value" where
  "canon MpNil = MpNil"
| "canon (MpBool b) = MpBool b"
| "canon (MpUint n) = MpUint n"
| "canon (MpInt n) = canon_int n"
| "canon (MpStr s) = MpStr s"
| "canon (MpBin b) = MpBin b"
| "canon (MpArray items) = MpArray (map canon items)"
| "canon (MpMap entries) = MpMap (map (\<lambda>e. (canon (fst e), canon (snd e))) entries)"
  by pat_completeness auto

termination
proof (relation "measure size", goal_cases)
  case (2 items x)
  then show ?case by (induction items) auto
next
  case (3 entries e)
  then show ?case by (induction entries) auto
next
  case (4 entries e)
  then show ?case by (induction entries) auto
qed simp

function mp_fits :: "nat \<Rightarrow> mp_value \<Rightarrow> bool" where
  "mp_fits k MpNil \<longleftrightarrow> True"
| "mp_fits k (MpBool b) \<longleftrightarrow> True"
| "mp_fits k (MpUint n) \<longleftrightarrow> True"
| "mp_fits k (MpInt n) \<longleftrightarrow> True"
| "mp_fits k (MpStr s) \<longleftrightarrow> utf8_ok s \<and> length s < 2 ^ 32"
| "mp_fits k (MpBin b) \<longleftrightarrow> length b < 2 ^ 32"
| "mp_fits k (MpArray items) \<longleftrightarrow> length items < 2 ^ 32 \<and> (\<forall>x \<in> set items. 0 < k \<and> mp_fits (k - 1) x)"
| "mp_fits k (MpMap entries) \<longleftrightarrow> length entries < 2 ^ 32
     \<and> (\<forall>e \<in> set entries. 0 < k \<and> mp_fits (k - 1) (fst e) \<and> mp_fits (k - 1) (snd e))"
  by pat_completeness auto

termination
proof (relation "measure (\<lambda>(k, v). size v)", goal_cases)
  case (2 k items x)
  then show ?case by (induction items) auto
next
  case (3 k entries e)
  then show ?case by (induction entries) auto
next
  case (4 k entries e)
  then show ?case by (induction entries) auto
qed simp

lemma mp_write_nonempty: "0 < length (mp_write v)"
  by (cases v) (simp_all add: write_uint_def write_int_def write_len_def write_count_def)

lemma read_times_written:
  assumes "\<And>x p. x \<in> set xs \<Longrightarrow> reads bs p (w x) \<Longrightarrow> f p = Inr (g x, p + length (w x))"
    and "reads bs p (concat (map w xs))"
  shows "read_times (length xs) f p = Inr (map g xs, p + length (concat (map w xs)))"
  using assms
proof (induction xs arbitrary: p)
  case (Cons x xs)
  have r: "reads bs p (w x)" "reads bs (p + length (w x)) (concat (map w xs))"
    using reads_append[of bs p "w x" "concat (map w xs)"] Cons.prems(2) by simp_all
  have "f p = Inr (g x, p + length (w x))" by (rule Cons.prems(1)) (simp_all add: r)
  moreover have "read_times (length xs) f (p + length (w x))
      = Inr (map g xs, p + length (w x) + length (concat (map w xs)))"
    by (rule Cons.IH) (use Cons.prems r in auto)
  ultimately show ?case by simp
qed simp

lemma length_concat_ge:
  "\<forall>x \<in> set xs. m \<le> length (w x) \<Longrightarrow> m * length xs \<le> length (concat (map w xs))"
  by (induction xs) auto

lemma mp_read_write:
  assumes "mp_fits k v" "reads bs at (mp_write v)" "length bs \<le> u64_max" "depth + k \<le> MAX_DEPTH"
  shows "mp_read bs at depth = Inr (canon v, at + length (mp_write v))"
  using assms
proof (induction k v arbitrary: at depth rule: mp_fits.induct)
  case (1 k)
  then show ?case using reads_Cons[of bs at "0xC0" "[]"] by (subst mp_read.simps) simp
next
  case (2 k b)
  then show ?case using reads_Cons[of bs at "if b then 0xC3 else 0xC2" "[]"]
    by (subst mp_read.simps) (auto split: if_splits)
next
  case (3 k n)
  then show ?case using read_uint[of bs at n depth] by simp
next
  case (4 k n)
  then show ?case using read_int[of bs at n depth] by simp
next
  case (5 k s)
  then show ?case using read_str_written[of bs at s depth] by simp
next
  case (6 k s)
  then show ?case using read_bin_written[of bs at s depth] by simp
next
  case (7 k items)
  let ?rest = "concat (map mp_write items)"
  have elem: "mp_read bs p (depth + 1) = Inr (canon x, p + length (mp_write x))"
    if "x \<in> set items" "reads bs p (mp_write x)" for x p
    using 7(1)[OF that(1), of p "depth + 1"] 7(2-5) that by auto
  have body: "read_array (\<lambda>at. mp_read bs at (depth + 1)) bs p (length items)
      = Inr (MpArray (map canon items), p + length ?rest)" if r: "reads bs p ?rest" for p
  proof -
    have "length items \<le> length ?rest"
      using length_concat_ge[of items 1 mp_write] mp_write_nonempty by (simp add: Suc_leI)
    then have "\<not> length bs - p < length items" using reads_length[OF r] by linarith
    then show ?thesis
      using read_times_written[of items bs mp_write "\<lambda>at. mp_read bs at (depth + 1)" canon p, OF elem r]
      by (simp add: read_array_def)
  qed
  have "reads bs at (write_count (length items) 0x90 0xDC 0xDD @ ?rest)" using 7(3) by simp
  from read_array_written[OF this 7(4) _ _ body] 7(2,5) show ?case by simp
next
  case (8 k entries)
  let ?w = "\<lambda>e. mp_write (fst e) @ mp_write (snd e)"
  let ?rest = "concat (map ?w entries)" and ?elem = "\<lambda>at. mp_read bs at (depth + 1)"
  have pair: "read_pair ?elem p = Inr ((canon (fst e), canon (snd e)), p + length (?w e))"
    if "e \<in> set entries" "reads bs p (?w e)" for e p
  proof -
    note R = reads_append[OF that(2)]
    have k: "mp_fits (k - 1) (fst e)" "mp_fits (k - 1) (snd e)" "depth + 1 + (k - 1) \<le> MAX_DEPTH"
      using 8(3,6) that(1) by auto
    from 8(1)[OF that(1) k(1) R[THEN conjunct1] 8(5) k(3)] 8(2)[OF that(1) k(2) R[THEN conjunct2] 8(5) k(3)]
    show ?thesis by (simp add: read_pair_def)
  qed
  have body: "read_map ?elem bs p (length entries)
      = Inr (MpMap (map (\<lambda>e. (canon (fst e), canon (snd e))) entries), p + length ?rest)"
    if r: "reads bs p ?rest" for p
  proof -
    have "2 \<le> length (?w e)" for e
      using mp_write_nonempty[of "fst e"] mp_write_nonempty[of "snd e"] unfolding length_append by linarith
    then have "2 * length entries \<le> length ?rest" using length_concat_ge[of entries 2 ?w] by simp
    moreover have "2 * length entries \<le> u64_max" using 8(3) by (simp add: u64_max_def)
    ultimately have "\<not> length bs - p < length entries * 2" "checked_mul u64_max (length entries) 2 = Some (length entries * 2)"
      using reads_length[OF r] by (simp_all add: checked_mul_def)
    then show ?thesis
      using read_times_written[of entries bs ?w "read_pair ?elem" "\<lambda>e. (canon (fst e), canon (snd e))" p, OF pair r]
      by (simp add: read_map_def)
  qed
  have "reads bs at (write_count (length entries) 0x80 0xDE 0xDF @ ?rest)" using 8(4) by simp
  from read_map_written[OF this 8(5) _ _ body] 8(3,6) show ?case by simp
qed

section \<open>What a decoded value is\<close>

text \<open>
  A reader that leaves its cursor within the input, gives back a value whose canonical encoding is
  no longer than what it read, and only values that fit \<open>k\<close> levels of nesting.
\<close>

definition reader_ok :: "nat \<Rightarrow> bytes \<Rightarrow> nat \<Rightarrow> mp_error + mp_value \<times> nat \<Rightarrow> bool" where
  "reader_ok k bs at res \<longleftrightarrow> (\<forall>v at'. res = Inr (v, at') \<longrightarrow>
     at' \<le> length bs \<and> at + length (mp_write v) \<le> at' \<and> mp_fits k v)"

lemma take_bytes_Inr:
  "take_bytes bs at n = Inr (w, at') \<longleftrightarrow> at + n \<le> u64_max \<and> at' = at + n \<and> at' \<le> length bs \<and> w = take n (drop at bs)"
  by (auto simp: take_bytes_def checked_add_def slice_get_def split: option.splits if_splits)

lemma fold_len_Some: "fold_len len bs = Some n \<Longrightarrow> n = len * 256 ^ length bs + be_nat bs"
proof (induction bs arbitrary: len n)
  case (Cons b bs)
  then have "fold_len (len * 256 + unat b) bs = Some n"
    by (simp add: checked_mul_def checked_add_def split: if_splits)
  from Cons.IH[OF this] show ?case by (simp add: algebra_simps)
qed simp

lemma read_len_Inr:
  assumes "read_len bs at k = Inr (n, at')"
  shows "at' = at + k" "at' \<le> length bs" "n < 256 ^ k"
proof -
  from assms have a: "take_bytes bs at k = Inr (take k (drop at bs), at')" "fold_len 0 (take k (drop at bs)) = Some n"
    by (auto simp: read_len_def take_bytes_Inr)
  from a(1) show le: "at' = at + k" "at' \<le> length bs" by (simp_all add: take_bytes_Inr)
  then have "length (take k (drop at bs)) = k" by simp
  with fold_len_Some[OF a(2)] be_nat_less[of "take k (drop at bs)"] show "n < 256 ^ k" by simp
qed

lemma length_write_uint: "length (write_uint n) =
    (if unat n \<le> 127 then 1 else if unat n \<le> 255 then 2 else if unat n \<le> 65535 then 3
     else if unat n \<le> 4294967295 then 5 else 9)"
  by (simp add: write_uint_def word_le_nat_alt)

lemma length_write_int_le: "length (write_int n) \<le> 9"
  by (simp add: write_int_def length_write_uint)

lemma length_write_len: "length (write_len n f a b c h) =
    (if h \<and> n < 32 then 1 else if n < 256 then 2 else if n < 65536 then 3 else 5)"
  by (simp add: write_len_def)

lemma length_write_count: "length (write_count n f a b) = (if n < 16 then 1 else if n < 65536 then 3 else 5)"
  by (simp add: write_count_def)

lemma nonneg_unat: "0 \<le> sint (w :: u64) \<Longrightarrow> unat w = nat (sint w)"
proof -
  assume s: "0 \<le> sint w"
  have "sint w < 2 ^ 63" using sint_range_size[of w] by (simp add: word_size)
  with s have "take_bit 64 (sint w) = sint w" by (simp add: take_bit_int_eq_self)
  then have "uint w = sint w" by (simp add: uint_sint)
  then show ?thesis by (metis nat_int uint_nat)
qed

lemma length_write_int_small:
  assumes "sint n < 32768"
  shows "- 32 \<le> sint n \<Longrightarrow> sint n < 128 \<Longrightarrow> length (write_int n) \<le> 1"
    "- 128 \<le> sint n \<Longrightarrow> sint n < 128 \<Longrightarrow> length (write_int n) \<le> 2"
    "- 32768 \<le> sint n \<Longrightarrow> length (write_int n) \<le> 3"
  using assms nonneg_unat[of n] by (auto simp: write_int_def length_write_uint)

lemma length_write_int_32:
  "- 2147483648 \<le> sint n \<Longrightarrow> sint n < 2147483648 \<Longrightarrow> length (write_int n) \<le> 5"
  using nonneg_unat[of n] by (auto simp: write_int_def length_write_uint)

lemma sint_scast:
  fixes b :: u8 and h :: u16 and w :: u32
  shows "sint (scast b :: u64) = sint b" "- 128 \<le> sint b" "sint b < 128"
    "sint (scast h :: u64) = sint h" "- 32768 \<le> sint h" "sint h < 32768"
    "sint (scast w :: u64) = sint w" "- 2147483648 \<le> sint w" "sint w < 2147483648"
  using sint_range_size[of b] sint_range_size[of h] sint_range_size[of w]
  by (simp_all add: sint_up_scast is_up word_size)

lemma fixint_sint: "0xE0 \<le> (b :: u8) \<Longrightarrow> - 32 \<le> sint b"
proof -
  assume "0xE0 \<le> b"
  then have "224 \<le> uint b" by (simp add: word_le_def)
  moreover have "uint b = sint b mod 256" by (simp add: uint_sint take_bit_eq_mod)
  ultimately show ?thesis using sint_scast(2,3)[of b] by presburger
qed

definition elem_ok :: "nat \<Rightarrow> bytes \<Rightarrow> (nat \<Rightarrow> mp_error + mp_value \<times> nat) \<Rightarrow> bool" where
  "elem_ok k bs f \<longleftrightarrow> (\<forall>at. reader_ok (k - 1) bs at (f at) \<and> (k = 0 \<longrightarrow> (\<exists>e. f at = Inl e)))"

lemma elem_okD:
  "elem_ok k bs f \<Longrightarrow> f at = Inr (v, at') \<Longrightarrow>
     0 < k \<and> at' \<le> length bs \<and> at + length (mp_write v) \<le> at' \<and> mp_fits (k - 1) v"
  unfolding elem_ok_def reader_ok_def by (metis Inl_Inr_False gr0I)

lemma read_times_ok:
  assumes "\<And>p x p'. f p = Inr (x, p') \<Longrightarrow> p' \<le> length bs \<and> p + length (w x) \<le> p' \<and> Q x"
    and "read_times n f p = Inr (xs, p')" "p \<le> length bs"
  shows "length xs = n \<and> p' \<le> length bs \<and> p + length (concat (map w xs)) \<le> p' \<and> (\<forall>x \<in> set xs. Q x)"
  using assms(2,3)
proof (induction n arbitrary: p xs)
  case (Suc n)
  then obtain x q ys where x: "f p = Inr (x, q)" and ys: "read_times n f q = Inr (ys, p')" "xs = x # ys"
    by auto
  from Suc.IH[OF ys(1)] assms(1)[OF x] ys(2) show ?case by auto
qed simp

lemma array_ok:
  assumes f: "elem_ok k bs f" and p: "p \<le> length bs" "at + length (write_count n 0x90 0xDC 0xDD) \<le> p" "n < 2 ^ 32"
  shows "reader_ok k bs at (read_array f bs p n)"
proof -
  have "p' \<le> length bs \<and> at + length (mp_write (MpArray xs)) \<le> p' \<and> mp_fits k (MpArray xs)"
    if r: "read_times n f p = Inr (xs, p')" for xs p'
  proof -
    have "length xs = n \<and> p' \<le> length bs \<and> p + length (concat (map mp_write xs)) \<le> p'
        \<and> (\<forall>x \<in> set xs. 0 < k \<and> mp_fits (k - 1) x)"
      by (rule read_times_ok[OF _ r p(1)]) (use elem_okD[OF f] in blast)
    with p show ?thesis by simp
  qed
  then show ?thesis by (auto simp: reader_ok_def read_array_def split: if_splits)
qed

lemma map_ok:
  assumes f: "elem_ok k bs f" and p: "p \<le> length bs" "at + length (write_count n 0x80 0xDE 0xDF) \<le> p" "n < 2 ^ 32"
  shows "reader_ok k bs at (read_map f bs p n)"
proof -
  have "p' \<le> length bs \<and> at + length (mp_write (MpMap xs)) \<le> p' \<and> mp_fits k (MpMap xs)"
    if r: "read_times n (read_pair f) p = Inr (xs, p')" for xs p'
  proof -
    have "length xs = n \<and> p' \<le> length bs \<and> p + length (concat (map (\<lambda>e. mp_write (fst e) @ mp_write (snd e)) xs)) \<le> p'
        \<and> (\<forall>e \<in> set xs. 0 < k \<and> mp_fits (k - 1) (fst e) \<and> mp_fits (k - 1) (snd e))"
    proof (rule read_times_ok[OF _ r p(1)])
      fix q :: nat and e q' assume "read_pair f q = Inr (e, q')"
      then obtain a v q1 where e: "e = (a, v)" "f q = Inr (a, q1)" "f q1 = Inr (v, q')"
        by (auto simp: read_pair_def)
      from elem_okD[OF f e(2)] elem_okD[OF f e(3)]
      show "q' \<le> length bs \<and> q + length (mp_write (fst e) @ mp_write (snd e)) \<le> q'
          \<and> 0 < k \<and> mp_fits (k - 1) (fst e) \<and> mp_fits (k - 1) (snd e)" by (auto simp: e(1))
    qed
    with p show ?thesis by simp
  qed
  then show ?thesis by (auto simp: reader_ok_def read_map_def split: if_splits option.splits)
qed

lemma str_ok: "at + length (write_len n 0xA0 0xD9 0xDA 0xDB True) \<le> p \<Longrightarrow> n < 2 ^ 32 \<Longrightarrow>
    reader_ok k bs at (read_str bs p n)"
  by (auto simp: reader_ok_def read_str_def take_bytes_Inr split: if_splits)

lemma bin_ok: "at + length (write_len n 0 0xC4 0xC5 0xC6 False) \<le> p \<Longrightarrow> n < 2 ^ 32 \<Longrightarrow>
    reader_ok k bs at (read_bin bs p n)"
  by (auto simp: reader_ok_def read_bin_def take_bytes_Inr)

lemma uint_ok: "at + length (write_uint n) \<le> p \<Longrightarrow> p \<le> length bs \<Longrightarrow> reader_ok k bs at (Inr (MpUint n, p))"
  and int_ok: "at + length (write_int m) \<le> p \<Longrightarrow> p \<le> length bs \<Longrightarrow> reader_ok k bs at (Inr (MpInt m, p))"
  and const_ok: "at + 1 \<le> p \<Longrightarrow> p \<le> length bs \<Longrightarrow> v \<in> {MpNil, MpBool True, MpBool False} \<Longrightarrow> reader_ok k bs at (Inr (v, p))"
  and err_ok: "reader_ok k bs at (Inl e)"
  by (auto simp: reader_ok_def)

lemma if_ok: "(b \<Longrightarrow> reader_ok k bs at x) \<Longrightarrow> (\<not> b \<Longrightarrow> reader_ok k bs at y) \<Longrightarrow> reader_ok k bs at (if b then x else y)"
  by simp

lemma low_bits: "unat ((t :: u8) AND 0x0F) < 16" "unat ((t :: u8) AND 0x1F) < 32"
proof -
  have "t AND 0x0F \<le> 0x0F" "t AND 0x1F \<le> 0x1F" by (rule word_and_le1)+
  then show "unat (t AND 0x0F) < 16" "unat (t AND 0x1F) < 32" by (simp_all add: word_le_nat_alt)
qed

lemma len_ok:
  assumes "\<And>n. n < 256 ^ k \<Longrightarrow> p + k \<le> length bs \<Longrightarrow> reader_ok j bs at (g n (p + k))"
  shows "reader_ok j bs at (and_then (read_len bs p k) (\<lambda>(n, q). g n q))"
proof (cases "read_len bs p k")
  case (Inr nq)
  with read_len_Inr[of bs p k "fst nq" "snd nq"] assms[of "fst nq"] show ?thesis by (cases nq) simp
qed (simp add: reader_ok_def)

lemma take_ok:
  assumes "\<And>w. p + k \<le> length bs \<Longrightarrow> reader_ok j bs at (g w (p + k))"
  shows "reader_ok j bs at (and_then (take_bytes bs p k) (\<lambda>(w, q). g w q))"
proof (cases "take_bytes bs p k")
  case (Inr wq)
  with take_bytes_Inr[of bs p k "fst wq" "snd wq"] assms[of "fst wq"] show ?thesis by (cases wq) simp
qed (simp add: reader_ok_def)

lemma elem_ok_step:
  assumes "\<And>at. reader_ok (MAX_DEPTH - (depth + 1)) bs at (mp_read bs at (depth + 1))"
  shows "elem_ok (MAX_DEPTH - depth) bs (\<lambda>at. mp_read bs at (depth + 1))"
  unfolding elem_ok_def
proof (intro allI conjI impI)
  fix at
  show "reader_ok (MAX_DEPTH - depth - 1) bs at (mp_read bs at (depth + 1))" using assms[of at] by simp
  assume "MAX_DEPTH - depth = 0"
  then show "\<exists>e. mp_read bs at (depth + 1) = Inl e" by (subst mp_read.simps) simp
qed

lemma unat_of_nat_64: "n < 18446744073709551616 \<Longrightarrow> unat (of_nat n :: u64) = n"
  by (simp add: unat_of_nat)

lemma mp_read_ok: "reader_ok (MAX_DEPTH - depth) bs at (mp_read bs at depth)"
proof (induction "MAX_DEPTH + 1 - depth" arbitrary: depth at rule: less_induct)
  case less
  show ?case
  proof (cases "MAX_DEPTH < depth \<or> get_at bs at = None")
    case True
    then show ?thesis by (subst mp_read.simps) (auto simp: err_ok)
  next
    case False
    then obtain tag where tag: "get_at bs at = Some tag" and d: "\<not> MAX_DEPTH < depth" by auto
    have at: "at + 1 \<le> length bs" using tag by (simp add: get_at_def split: if_splits)
    have e: "elem_ok (MAX_DEPTH - depth) bs (\<lambda>at. mp_read bs at (depth + 1))"
      by (rule elem_ok_step, rule less) (use d in simp)
    have small: "length (write_uint (ucast tag)) = 1" if "tag \<le> 0x7F"
      using that by (simp add: length_write_uint unat_ucast_byte word_le_nat_alt)
    have neg: "length (write_int (scast tag)) \<le> 1" if "0xE0 \<le> tag"
      using length_write_int_small(1)[of "scast tag"] fixint_sint[OF that] sint_scast(1-3)[of tag] by simp
    have ints: "length (write_int (scast (b :: u8))) \<le> 2" "length (write_int (scast (h :: u16))) \<le> 3"
      "length (write_int (scast (w :: u32))) \<le> 5" for b h w
      using length_write_int_small(2)[of "scast b"] length_write_int_small(3)[of "scast h"]
        length_write_int_32[of "scast w"] sint_scast(1-3)[of b] sint_scast(4-6)[of h] sint_scast(7-9)[of w] by simp_all
    show ?thesis
      unfolding mp_read.simps[of bs at depth] if_not_P[OF d] tag option.case
      by (intro if_ok len_ok take_ok err_ok uint_ok int_ok const_ok map_ok[OF e] array_ok[OF e] str_ok bin_ok)
        (use at small neg low_bits[of tag] ints in \<open>simp_all add: length_write_uint length_write_count
           length_write_len unat_of_nat_64 le_trans[OF length_write_int_le]\<close>)
  qed
qed

section \<open>Properties\<close>

definition mp_decode_opt :: "bytes \<Rightarrow> mp_value option" where
  "mp_decode_opt bs = (case mp_decode bs of Inr v \<Rightarrow> Some v | Inl _ \<Rightarrow> None)"

definition mp_canonical :: "mp_value \<Rightarrow> bool" where
  "mp_canonical v \<longleftrightarrow> mp_fits MAX_DEPTH v \<and> length (mp_encode v) \<le> u64_max \<and> canon v = v"

lemma mp_decode_encode:
  "mp_fits MAX_DEPTH v \<Longrightarrow> length (mp_encode v) \<le> u64_max \<Longrightarrow> mp_decode (mp_encode v) = Inr (canon v)"
  using mp_read_write[of MAX_DEPTH v "mp_write v" 0 0]
  by (simp add: reads_def mp_decode_def mp_encode_def)

interpretation msgpack: wire_codec mp_encode mp_decode_opt mp_canonical
  by unfold_locales (simp add: mp_canonical_def mp_decode_opt_def mp_decode_encode)

lemma canon_same_bytes: "mp_write (canon v) = mp_write v"
proof (induction v rule: canon.induct)
  case (4 n)
  then show ?case by (simp add: canon_int_def write_int_def)
next
  case (7 items)
  then have "map (mp_write \<circ> canon) items = map mp_write items" by simp
  then show ?case by (simp only: canon.simps mp_write.simps map_map length_map)
next
  case (8 entries)
  then have "map (\<lambda>e. mp_write (canon (fst e)) @ mp_write (canon (snd e))) entries
      = map (\<lambda>e. mp_write (fst e) @ mp_write (snd e)) entries" by simp
  then show ?case by (simp only: canon.simps mp_write.simps map_map comp_def fst_conv snd_conv length_map)
qed simp_all

text \<open>
  C35: a MessagePack value whose strings are text, whose lengths fit their headers and whose
  containers nest at most sixteen deep decodes back from its encoding; a nonnegative \<open>Int\<close> comes
  back as the \<open>Uint\<close> of the same number, and every other value as itself.
\<close>

theorem msgpack_roundtrip:
  assumes "mp_fits MAX_DEPTH v" "length (mp_encode v) \<le> u64_max"
  shows "mp_decode (mp_encode v) = Inr (canon v)"
  using assms by (rule mp_decode_encode)

lemma msgpack_roundtrip_witness:
  "mp_decode (mp_encode (MpMap [(MpStr [0x61, 0xC3, 0xA9], MpArray [MpInt 5, MpInt (- 200), MpNil])]))
     = Inr (MpMap [(MpStr [0x61, 0xC3, 0xA9], MpArray [MpUint 5, MpInt (- 200), MpNil])])"
  using msgpack_roundtrip[of "MpMap [(MpStr [0x61, 0xC3, 0xA9], MpArray [MpInt 5, MpInt (- 200), MpNil])]"]
  by (simp add: MAX_DEPTH_def utf8_tail_def mp_encode_def write_int_def write_uint_def write_len_def
      write_count_def u64_max_def canon_int_def)

text \<open>
  A decoded value came from within the bytes: it satisfies every bound of the codec (text,
  lengths, at most sixteen levels), and its canonical encoding is no longer than the bytes it was
  read from, so a short input cannot claim a large value, and the encoding is the shortest of all
  that decode to it. The canonical bytes decode to the same value.
\<close>

theorem msgpack_decode_bounded:
  assumes "mp_decode bs = Inr v" "length bs \<le> u64_max"
  shows "mp_fits MAX_DEPTH v \<and> length (mp_encode v) \<le> length bs
    \<and> mp_decode (mp_encode v) = Inr (canon v) \<and> mp_encode (canon v) = mp_encode v"
proof -
  have "mp_read bs 0 0 = Inr (v, length bs)" using assms(1) by (auto simp: mp_decode_def split: if_splits)
  with mp_read_ok[of 0 bs 0] have v: "mp_fits MAX_DEPTH v" "length (mp_encode v) \<le> length bs"
    by (auto simp: reader_ok_def mp_encode_def)
  with assms(2) mp_decode_encode[of v] canon_same_bytes[of v] show ?thesis by (simp add: mp_encode_def)
qed

lemma msgpack_decode_bounded_witness:
  "length (mp_encode (MpArray [MpUint 1])) \<le> length ([0xDC, 0, 1, 0xCC, 1] :: bytes)"
proof -
  have r: "mp_read [0xDC, 0, 1, 0xCC, 1] (Suc (Suc (Suc 0))) (Suc 0)
      = Inr (MpUint 1, Suc (Suc (Suc (Suc (Suc 0)))))"
    by (subst mp_read.simps) (simp add: get_at_def MAX_DEPTH_def read_len_def take_bytes_def checked_add_def
        checked_mul_def slice_get_def u64_max_def)
  have "mp_decode [0xDC, 0, 1, 0xCC, 1] = Inr (MpArray [MpUint 1])"
    unfolding mp_decode_def
    by (subst mp_read.simps) (simp add: r get_at_def MAX_DEPTH_def read_len_def take_bytes_def checked_add_def
        checked_mul_def slice_get_def u64_max_def read_array_def)
  from msgpack_decode_bounded[OF this] show ?thesis by (simp add: u64_max_def)
qed

text \<open>
  Encoding is canonical: two values the codec can carry have the same bytes only when they are
  the same value (up to the spelling of a nonnegative integer).
\<close>

theorem msgpack_canonical:
  assumes "mp_fits MAX_DEPTH v" "mp_fits MAX_DEPTH w" "length (mp_encode v) \<le> u64_max"
  shows "mp_encode v = mp_encode w \<longleftrightarrow> canon v = canon w"
proof
  assume "mp_encode v = mp_encode w"
  with mp_decode_encode[OF assms(1)] mp_decode_encode[OF assms(2)] assms(3) show "canon v = canon w" by simp
next
  assume "canon v = canon w"
  with canon_same_bytes[of v] canon_same_bytes[of w] show "mp_encode v = mp_encode w" by (simp add: mp_encode_def)
qed

lemma msgpack_canonical_witness:
  "mp_encode (MpInt 7) = mp_encode (MpUint 7) \<longleftrightarrow> canon (MpInt 7) = canon (MpUint 7)"
  by (rule msgpack_canonical) (simp_all add: mp_encode_def write_int_def write_uint_def u64_max_def)

end
