(* ===== verification/Rebroadcast.thy ===== *)
theory Rebroadcast
  imports Packets
begin

text \<open>
  The announce table of \<open>crates/retinue/src/rebroadcast.rs\<close>: relayed announces waiting for their
  two transmissions, path responses sent once, and the entries held behind a response. Times are
  millisecond ticks (\<open>u64\<close> with saturating sums) and the small counters \<open>sent\<close> and \<open>heard\<close> are
  naturals; \<open>swap_remove\<close>, \<open>remove\<close>, \<open>position\<close> and \<open>rposition\<close> are those of the prelude.
\<close>

section \<open>Constants and entries\<close>

definition TRANSMISSIONS :: nat where "TRANSMISSIONS = 2"
definition REBROADCAST_WINDOW :: nat where "REBROADCAST_WINDOW = 500"
definition REBROADCAST_GRACE :: nat where "REBROADCAST_GRACE = 5000"
definition LOCAL_REBROADCASTS_MAX :: nat where "LOCAL_REBROADCASTS_MAX = 2"

lemmas rebro_consts = TRANSMISSIONS_def REBROADCAST_WINDOW_def REBROADCAST_GRACE_def
  LOCAL_REBROADCASTS_MAX_def

type_synonym interface_id = u32

record rebroadcast =
  rb_destination :: address_hash
  rb_packet :: packet
  rb_interface :: interface_id
  rb_emitted :: nat
  rb_answer :: "interface_id option"

record entry =
  en_rebroadcast :: rebroadcast
  en_due :: nat
  en_sent :: nat
  en_heard :: nat

record rebroadcasts =
  rs_entries :: "entry list"
  rs_held :: "entry list"
  rs_capacity :: nat

definition rebroadcasts_new :: "nat \<Rightarrow> rebroadcasts" where
  "rebroadcasts_new capacity = \<lparr>rs_entries = [], rs_held = [], rs_capacity = capacity\<rparr>"

abbreviation en_dest :: "entry \<Rightarrow> address_hash" where
  "en_dest e \<equiv> rb_destination (en_rebroadcast e)"

abbreviation en_answer :: "entry \<Rightarrow> interface_id option" where
  "en_answer e \<equiv> rb_answer (en_rebroadcast e)"

section \<open>Operations\<close>

text \<open>\<open>iter().enumerate().filter(p).min_by_key(key).map(index)\<close>.\<close>

definition min_index :: "('a \<Rightarrow> bool) \<Rightarrow> ('a \<Rightarrow> 'k::linorder) \<Rightarrow> 'a list \<Rightarrow> nat option" where
  "min_index p key xs = map_option fst
     (min_by_key (\<lambda>(_, x). key x) (filter (\<lambda>(_, x). p x) (enumerate 0 xs)))"

definition rs_find :: "rebroadcasts \<Rightarrow> address_hash \<Rightarrow> nat option" where
  "rs_find t destination = position (\<lambda>e. en_dest e = destination) (rs_entries t)"

definition rs_insert :: "rebroadcasts \<Rightarrow> entry \<Rightarrow> rebroadcasts \<times> bool" where
  "rs_insert t e =
    (if rs_capacity t \<le> length (rs_entries t) then
       (case min_index (\<lambda>e. 0 < en_sent e) en_due (rs_entries t) of
          None \<Rightarrow> (t, False)
        | Some index \<Rightarrow>
            let evicted = en_dest (rs_entries t ! index) in
            (t\<lparr>rs_entries := swap_remove index (rs_entries t) @ [e],
               rs_held := filter (\<lambda>h. en_dest h \<noteq> evicted) (rs_held t)\<rparr>, True))
     else (t\<lparr>rs_entries := rs_entries t @ [e]\<rparr>, True))"

definition rs_remove :: "rebroadcasts \<Rightarrow> nat \<Rightarrow> rebroadcasts \<times> entry" where
  "rs_remove t index =
    (let e = rs_entries t ! index;
         entries = swap_remove index (rs_entries t)
     in case rposition (\<lambda>h. en_dest h = en_dest e) (rs_held t) of
          None \<Rightarrow> (t\<lparr>rs_entries := entries\<rparr>, e)
        | Some i \<Rightarrow> (t\<lparr>rs_entries := entries @ [rs_held t ! i], rs_held := remove_at i (rs_held t)\<rparr>, e))"

definition schedule :: "rebroadcasts \<Rightarrow> rebroadcast \<Rightarrow> nat \<Rightarrow> nat \<Rightarrow> rebroadcasts \<times> bool" where
  "schedule t r now delay =
    (let e = \<lparr>en_rebroadcast = r, en_due = sat_add u64_max now delay, en_sent = 0, en_heard = 0\<rparr>;
         destination = rb_destination r
     in case rs_find t destination of
          None \<Rightarrow> rs_insert t e
        | Some existing \<Rightarrow>
            if en_answer (rs_entries t ! existing) = None then
              (t\<lparr>rs_entries := (rs_entries t)[existing :=
                   e\<lparr>en_sent := en_sent (rs_entries t ! existing)\<rparr>]\<rparr>, True)
            else
              (case position (\<lambda>h. en_dest h = destination \<and> en_answer h = None) (rs_held t) of
                 Some relay \<Rightarrow>
                   (t\<lparr>rs_held := (rs_held t)[relay := e\<lparr>en_sent := en_sent (rs_held t ! relay)\<rparr>]\<rparr>, True)
               | None \<Rightarrow>
                   if rs_capacity t \<le> length (rs_held t) then (t, False)
                   else (t\<lparr>rs_held := e # rs_held t\<rparr>, True)))"

definition answer :: "rebroadcasts \<Rightarrow> rebroadcast \<Rightarrow> nat \<Rightarrow> nat \<Rightarrow> rebroadcasts \<times> bool" where
  "answer t r now delay =
    (let e = \<lparr>en_rebroadcast = r, en_due = sat_add u64_max now delay, en_sent = TRANSMISSIONS - 1, en_heard = 0\<rparr>
     in case rs_find t (rb_destination r) of
          None \<Rightarrow> rs_insert t e
        | Some existing \<Rightarrow>
            let superseded = (en_answer (rs_entries t ! existing) = rb_answer r) in
            if \<not> superseded \<and> rs_capacity t \<le> length (rs_held t) then (t, False)
            else
              (t\<lparr>rs_entries := (rs_entries t)[existing := e],
                 rs_held := (if superseded then rs_held t else rs_held t @ [rs_entries t ! existing])\<rparr>, True))"

definition heard :: "rebroadcasts \<Rightarrow> address_hash \<Rightarrow> u8 \<Rightarrow> nat \<Rightarrow> rebroadcasts \<times> bool" where
  "heard t destination hops now =
    (case rs_find t destination of
       None \<Rightarrow> (t, False)
     | Some index \<Rightarrow>
         let e = rs_entries t ! index;
             ours = pk_hops (rb_packet (en_rebroadcast e));
             e' = (if hops = ours then e\<lparr>en_heard := sat_add u8_max (en_heard e) 1\<rparr> else e);
             done = (hops = ours \<and> 0 < en_sent e' \<and> LOCAL_REBROADCASTS_MAX \<le> en_heard e');
             done = (done \<or> unat hops = unat ours + 1 \<and> 0 < en_sent e' \<and> now < en_due e');
             t = t\<lparr>rs_entries := (rs_entries t)[index := e']\<rparr>
         in if done then (fst (rs_remove t index), True) else (t, False))"

definition heard_copy :: "rebroadcasts \<Rightarrow> packet \<Rightarrow> nat \<Rightarrow> rebroadcasts \<times> bool" where
  "heard_copy t p now =
    (case rs_find t (pk_destination p) of
       None \<Rightarrow> (t, False)
     | Some index \<Rightarrow>
         let held = rb_packet (en_rebroadcast (rs_entries t ! index)) in
         if pk_destination_type held \<noteq> pk_destination_type p \<or> pk_context_flag held \<noteq> pk_context_flag p
            \<or> pk_payload held \<noteq> pk_payload p
         then (t, False)
         else heard t (pk_destination p) (pk_hops p) now)"

definition pop_due :: "rebroadcasts \<Rightarrow> nat \<Rightarrow> rebroadcasts \<times> rebroadcast option" where
  "pop_due t now =
    (case min_index (\<lambda>e. en_due e \<le> now) en_due (rs_entries t) of
       None \<Rightarrow> (t, None)
     | Some index \<Rightarrow>
         let e = rs_entries t ! index;
             e = e\<lparr>en_sent := en_sent e + 1,
                   en_due := sat_add u64_max (sat_add u64_max now REBROADCAST_GRACE) REBROADCAST_WINDOW\<rparr>;
             t = t\<lparr>rs_entries := (rs_entries t)[index := e]\<rparr>
         in if TRANSMISSIONS \<le> en_sent e
            then (let (t, e) = rs_remove t index in (t, Some (en_rebroadcast e)))
            else (t, Some (en_rebroadcast e)))"

definition rs_next_due :: "rebroadcasts \<Rightarrow> nat option" where
  "rs_next_due t = (if rs_entries t = [] then None else Some (Min (set (map en_due (rs_entries t)))))"

definition keeps :: "interface_id \<Rightarrow> entry \<Rightarrow> bool" where
  "keeps iface e \<longleftrightarrow> rb_interface (en_rebroadcast e) \<noteq> iface \<and> en_answer e \<noteq> Some iface"

lemma rs_remove_size:
  "index < length (rs_entries t) \<Longrightarrow>
     length (rs_entries (fst (rs_remove t index))) + length (rs_held (fst (rs_remove t index)))
       < length (rs_entries t) + length (rs_held t)"
  by (auto simp: rs_remove_def Let_def length_remove_at dest: rposition_Some split: option.splits)

function forget_entries :: "interface_id \<Rightarrow> nat \<Rightarrow> rebroadcasts \<Rightarrow> rebroadcasts" where
  "forget_entries iface index t =
    (if index < length (rs_entries t) then
       if keeps iface (rs_entries t ! index) then forget_entries iface (index + 1) t
       else forget_entries iface index (fst (rs_remove t index))
     else t)"
  by pat_completeness auto

termination
  by (relation "measures [\<lambda>(i, n, t). length (rs_entries t) + length (rs_held t),
        \<lambda>(i, n, t). length (rs_entries t) - n]") (auto simp: rs_remove_size)

declare forget_entries.simps [simp del]

definition forget_interface :: "rebroadcasts \<Rightarrow> interface_id \<Rightarrow> rebroadcasts" where
  "forget_interface t iface =
     forget_entries iface 0 (t\<lparr>rs_held := filter (keeps iface) (rs_held t)\<rparr>)"

section \<open>Invariant\<close>

text \<open>
  One entry per destination, both lists within the capacity, nothing sent its last time, held
  entries only behind a path response for their destination, and of one destination's held entries
  only the oldest may be a relay.
\<close>

definition rebro_inv :: "rebroadcasts \<Rightarrow> bool" where
  "rebro_inv t \<longleftrightarrow> distinct (map en_dest (rs_entries t))
     \<and> length (rs_entries t) \<le> rs_capacity t \<and> length (rs_held t) \<le> rs_capacity t
     \<and> (\<forall>e \<in> set (rs_entries t) \<union> set (rs_held t). en_sent e < TRANSMISSIONS)
     \<and> (\<forall>h \<in> set (rs_held t). \<exists>e \<in> set (rs_entries t). en_dest e = en_dest h \<and> en_answer e \<noteq> None)
     \<and> sorted_wrt (\<lambda>a b. en_dest a = en_dest b \<longrightarrow> en_answer b \<noteq> None) (rs_held t)"

text \<open>Transmissions an entry still has, for one destination or (\<open>None\<close>) for all.\<close>

definition remaining :: "address_hash option \<Rightarrow> entry \<Rightarrow> nat" where
  "remaining d e = (if d = None \<or> d = Some (en_dest e) then TRANSMISSIONS - en_sent e else 0)"

definition budget :: "address_hash option \<Rightarrow> rebroadcasts \<Rightarrow> nat" where
  "budget d t = sum_list (map (remaining d) (rs_entries t)) + sum_list (map (remaining d) (rs_held t))"

lemma min_index_Some:
  assumes "min_index p key xs = Some i"
  shows "i < length xs" "p (xs ! i)" "\<And>x. x \<in> set xs \<Longrightarrow> p x \<Longrightarrow> key (xs ! i) \<le> key x"
proof -
  let ?ys = "filter (\<lambda>(_, x). p x) (enumerate 0 xs)"
  from assms obtain x where m: "min_by_key (\<lambda>(_, x). key x) ?ys = Some (i, x)"
    by (auto simp: min_index_def)
  note M = min_by_key_Some[OF m]
  then have x: "i < length xs" "xs ! i = x" "p x" by (auto simp: in_set_enumerate_eq)
  then show "i < length xs" "p (xs ! i)" by simp_all
  fix y assume "y \<in> set xs" "p y"
  then obtain j where "j < length xs" "xs ! j = y" by (auto simp: in_set_conv_nth)
  then have "(j, y) \<in> set ?ys" using \<open>p y\<close> by (simp add: in_set_enumerate_eq)
  with M x show "key (xs ! i) \<le> key y" by fastforce
qed

lemma min_index_None: "min_index p key xs = None \<longleftrightarrow> (\<forall>x \<in> set xs. \<not> p x)"
proof -
  have "min_index p key xs = None \<longleftrightarrow> (\<forall>q \<in> set (enumerate 0 xs). \<not> p (snd q))"
    by (simp add: min_index_def filter_empty_conv case_prod_unfold)
  also have "\<dots> \<longleftrightarrow> (\<forall>x \<in> snd ` set (enumerate 0 xs). \<not> p x)" by blast
  also have "snd ` set (enumerate 0 xs) = set xs" by (metis list.set_map map_snd_enumerate)
  finally show ?thesis .
qed

lemma find_Some:
  "rs_find t d = Some i \<Longrightarrow> i < length (rs_entries t) \<and> en_dest (rs_entries t ! i) = d"
  unfolding rs_find_def by (drule position_Some) simp

lemma find_None: "rs_find t d = None \<longleftrightarrow> d \<notin> en_dest ` set (rs_entries t)"
  unfolding rs_find_def position_None by auto

lemma mset_remove:
  assumes "index < length (rs_entries t)" "rs_remove t index = (t', e)"
  shows "mset (rs_entries t) + mset (rs_held t) = add_mset e (mset (rs_entries t') + mset (rs_held t'))"
    "e = rs_entries t ! index" "rs_capacity t' = rs_capacity t"
proof -
  show "e = rs_entries t ! index" "rs_capacity t' = rs_capacity t"
    using assms(2) by (auto simp: rs_remove_def Let_def split: option.splits)
  let ?e = "rs_entries t ! index"
  note me = mset_remove_at[OF assms(1), folded mset_swap_remove[OF assms(1)]]
  show "mset (rs_entries t) + mset (rs_held t) = add_mset e (mset (rs_entries t') + mset (rs_held t'))"
  proof (cases "rposition (\<lambda>h. en_dest h = en_dest ?e) (rs_held t)")
    case None
    with assms(2) me show ?thesis by (auto simp: rs_remove_def)
  next
    case (Some i)
    note mh = mset_remove_at[OF rposition_Some[OF Some, THEN conjunct1]]
    from Some assms(2) me show ?thesis by (auto simp: rs_remove_def mh)
  qed
qed

lemma budget_mset: "budget d t = (\<Sum>e \<in># mset (rs_entries t) + mset (rs_held t). remaining d e)"
  by (simp add: budget_def flip: sum_mset_sum_list)

lemma budget_remove:
  assumes "index < length (rs_entries t)" "rs_remove t index = (t', e)"
  shows "budget d t = remaining d (rs_entries t ! index) + budget d t'"
  using mset_remove[OF assms] by (simp add: budget_mset)

lemma sum_update:
  fixes g :: "'a \<Rightarrow> nat"
  shows "i < length xs \<Longrightarrow> sum_list (map g (xs[i := x])) + g (xs ! i) = sum_list (map g xs) + g x"
  by (induction xs arbitrary: i) (auto simp: nth_Cons split: nat.split)

lemma budget_replace:
  "i < length (rs_entries t) \<Longrightarrow>
     budget d (t\<lparr>rs_entries := (rs_entries t)[i := e]\<rparr>) + remaining d (rs_entries t ! i) = budget d t + remaining d e"
  using sum_update[of i "rs_entries t" "remaining d" e] by (simp add: budget_def)

lemma dest_update:
  "i < length xs \<Longrightarrow> en_dest e = en_dest (xs ! i) \<Longrightarrow> map en_dest (xs[i := e]) = map en_dest xs"
  by (metis list_update_id map_update)

lemma rebro_inv_replace:
  assumes "rebro_inv t" "i < length (rs_entries t)" "en_dest e = en_dest (rs_entries t ! i)"
    "en_sent e < TRANSMISSIONS" "en_answer (rs_entries t ! i) \<noteq> None \<longrightarrow> en_answer e \<noteq> None"
  shows "rebro_inv (t\<lparr>rs_entries := (rs_entries t)[i := e]\<rparr>)"
proof -
  have d: "distinct (map en_dest (rs_entries t))" using assms(1) by (simp add: rebro_inv_def)
  have behind: "\<exists>x \<in> set ((rs_entries t)[i := e]). en_dest x = en_dest h \<and> en_answer x \<noteq> None"
    if h: "h \<in> set (rs_held t)" for h
  proof -
    obtain x where x: "x \<in> set (rs_entries t)" "en_dest x = en_dest h" "en_answer x \<noteq> None"
      using assms(1) h by (auto simp: rebro_inv_def)
    then obtain j where j: "j < length (rs_entries t)" "rs_entries t ! j = x" by (auto simp: in_set_conv_nth)
    show ?thesis
    proof (cases "j = i")
      case True
      with x j assms(2,3,5) show ?thesis by (intro bexI[of _ e]) (auto simp: set_update_memI)
    next
      case False
      then have "x \<in> set ((rs_entries t)[i := e])" using j by (metis length_list_update nth_list_update_neq nth_mem)
      with x show ?thesis by blast
    qed
  qed
  have "set ((rs_entries t)[i := e]) \<subseteq> insert e (set (rs_entries t))" by (rule set_update_subset_insert)
  with assms(1,4) behind show ?thesis
    by (auto simp: rebro_inv_def dest_update[OF assms(2,3)])
qed

lemma image_except: "f y \<notin> f ` {x \<in> A. f x \<noteq> f y}"
  by auto

lemma swap_remove_distinct:
  "i < length xs \<Longrightarrow> distinct (map f xs) \<Longrightarrow>
     distinct (map f (swap_remove i xs)) \<and> set (swap_remove i xs) = {x \<in> set xs. f x \<noteq> f (xs ! i)}"
proof -
  assume i: "i < length xs" and d: "distinct (map f xs)"
  have m: "mset (swap_remove i xs) = mset (remove_at i xs)" by (rule mset_swap_remove[OF i])
  have "mset (map f (swap_remove i xs)) = mset (map f (remove_at i xs))" using m by simp
  then have "distinct (map f (swap_remove i xs))"
    using distinct_map_remove_at[OF d, of i] by (metis mset_eq_imp_distinct_iff)
  with set_remove_at_distinct[OF d i] mset_eq_setD[OF m] show ?thesis by simp
qed

lemma swap_remove_update: "swap_remove i (xs[i := x]) = swap_remove i xs"
proof (cases "Suc i < length xs")
  case True
  then have "last (xs[i := x]) = last xs" by (metis last_list_update less_irrefl diff_Suc_1 list_update_nonempty length_0_conv
      not_less_zero nat_neq_iff less_diff_conv Suc_eq_plus1)
  then show ?thesis by (simp add: swap_remove_def)
next
  case False
  then show ?thesis
    by (cases xs rule: rev_cases) (auto simp: swap_remove_def list_update_append less_Suc_eq split: nat.split)
qed

lemma remove_update:
  "index < length (rs_entries t) \<Longrightarrow> en_dest e = en_dest (rs_entries t ! index) \<Longrightarrow>
     fst (rs_remove (t\<lparr>rs_entries := (rs_entries t)[index := e]\<rparr>) index) = fst (rs_remove t index)"
  by (simp add: rs_remove_def Let_def swap_remove_update split: option.split)

lemma sorted_wrt_remove_at: "sorted_wrt P xs \<Longrightarrow> sorted_wrt P (remove_at i xs)"
proof (cases "i < length xs")
  case True
  assume s: "sorted_wrt P xs"
  have "sorted_wrt P (take i xs @ xs ! i # drop (Suc i) xs)" using s True by (simp flip: id_take_nth_drop)
  then show ?thesis by (simp add: remove_at_def sorted_wrt_append)
qed (simp add: remove_at_def)

lemma rposition_last:
  "rposition p xs = Some i \<Longrightarrow> j < length xs \<Longrightarrow> p (xs ! j) \<Longrightarrow> j \<le> i"
proof (induction xs arbitrary: i j)
  case (Cons x xs)
  show ?case
  proof (cases j)
    case (Suc k)
    then have "rposition p xs \<noteq> None" using Cons.prems rposition_None[of p xs] by auto
    then obtain m where m: "rposition p xs = Some m" by auto
    with Cons Suc show ?thesis by auto
  qed simp
qed simp

lemma rebro_inv_remove:
  assumes t: "rebro_inv t" and i: "index < length (rs_entries t)"
  shows "rebro_inv (fst (rs_remove t index))"
proof -
  let ?e = "rs_entries t ! index" and ?es = "swap_remove index (rs_entries t)"
  have T: "distinct (map en_dest (rs_entries t))" "length (rs_entries t) \<le> rs_capacity t"
    "length (rs_held t) \<le> rs_capacity t" "\<forall>e \<in> set (rs_entries t) \<union> set (rs_held t). en_sent e < TRANSMISSIONS"
    "\<forall>h \<in> set (rs_held t). \<exists>e \<in> set (rs_entries t). en_dest e = en_dest h \<and> en_answer e \<noteq> None"
    "sorted_wrt (\<lambda>a b. en_dest a = en_dest b \<longrightarrow> en_answer b \<noteq> None) (rs_held t)"
    using t by (auto simp: rebro_inv_def)
  have S: "distinct (map en_dest ?es)" "set ?es = {x \<in> set (rs_entries t). en_dest x \<noteq> en_dest ?e}"
    using swap_remove_distinct[OF i T(1)] by blast+
  show ?thesis
  proof (cases "rposition (\<lambda>h. en_dest h = en_dest ?e) (rs_held t)")
    case None
    then have none: "\<forall>h \<in> set (rs_held t). en_dest h \<noteq> en_dest ?e" by (simp add: rposition_None)
    have "\<exists>e \<in> set ?es. en_dest e = en_dest h \<and> en_answer e \<noteq> None" if "h \<in> set (rs_held t)" for h
    proof -
      obtain e where "e \<in> set (rs_entries t)" "en_dest e = en_dest h" "en_answer e \<noteq> None"
        using T(5) \<open>h \<in> set (rs_held t)\<close> by blast
      with none \<open>h \<in> set (rs_held t)\<close> S show ?thesis by auto
    qed
    with T S i None show ?thesis by (auto simp: rs_remove_def rebro_inv_def)
  next
    case (Some k)
    let ?h = "rs_held t ! k" and ?hs = "remove_at k (rs_held t)"
    have k: "k < length (rs_held t)" "en_dest ?h = en_dest ?e" using rposition_Some[OF Some] by simp_all
    have sub: "set ?hs \<subseteq> set (rs_held t)" by (rule set_remove_at)
    have behind: "\<exists>e \<in> set (?es @ [?h]). en_dest e = en_dest h \<and> en_answer e \<noteq> None" if h: "h \<in> set ?hs" for h
    proof (cases "en_dest h = en_dest ?e")
      case False
      obtain e where "e \<in> set (rs_entries t)" "en_dest e = en_dest h" "en_answer e \<noteq> None"
        using T(5) h sub by blast
      with False S show ?thesis by auto
    next
      case True
      from h have "h \<in> set (take k (rs_held t)) \<or> h \<in> set (drop (Suc k) (rs_held t))" by (auto simp: remove_at_def)
      then have "h \<in> set (take k (rs_held t))"
      proof
        assume "h \<in> set (drop (Suc k) (rs_held t))"
        then obtain j where "j < length (drop (Suc k) (rs_held t))" "drop (Suc k) (rs_held t) ! j = h"
          by (auto simp only: in_set_conv_nth)
        then have "Suc k + j < length (rs_held t)" "rs_held t ! (Suc k + j) = h" by (auto simp: nth_drop)
        with rposition_last[OF Some, of "Suc k + j"] True show ?thesis by simp
      qed
      then have "en_answer ?h \<noteq> None"
      proof -
        have "sorted_wrt (\<lambda>a b. en_dest a = en_dest b \<longrightarrow> en_answer b \<noteq> None)
            (take k (rs_held t) @ ?h # drop (Suc k) (rs_held t))"
          using T(6) k(1) by (simp flip: id_take_nth_drop)
        with \<open>h \<in> set (take k (rs_held t))\<close> True k(2) show ?thesis by (simp add: sorted_wrt_append)
      qed
      with True k(2) show ?thesis by auto
    qed
    have "en_dest ?h \<notin> en_dest ` set ?es" unfolding k(2) S(2) by (rule image_except)
    then have "distinct (map en_dest (?es @ [?h]))" using S(1) by simp
    moreover have "length (?es @ [?h]) \<le> rs_capacity t" using i T(2) by simp
    moreover have "length ?hs \<le> rs_capacity t" using length_remove_at[OF k(1)] T(3) by simp
    moreover have "\<forall>e \<in> set (?es @ [?h]) \<union> set ?hs. en_sent e < TRANSMISSIONS" using S T(4) sub k(1) by auto
    moreover note sorted_wrt_remove_at[OF T(6), of k]
    ultimately show ?thesis using behind Some by (simp add: rs_remove_def rebro_inv_def)
  qed
qed

lemma insert_spec:
  assumes t: "rebro_inv t" and e: "en_dest e \<notin> en_dest ` set (rs_entries t)" "en_sent e < TRANSMISSIONS"
    and r: "rs_insert t e = (t', ok)"
  shows "rebro_inv t'" "budget d t' \<le> budget d t + (if ok then remaining d e else 0)"
proof -
  have T: "distinct (map en_dest (rs_entries t))" "length (rs_entries t) \<le> rs_capacity t"
    "length (rs_held t) \<le> rs_capacity t" "\<forall>e \<in> set (rs_entries t) \<union> set (rs_held t). en_sent e < TRANSMISSIONS"
    "\<forall>h \<in> set (rs_held t). \<exists>e \<in> set (rs_entries t). en_dest e = en_dest h \<and> en_answer e \<noteq> None"
    "sorted_wrt (\<lambda>a b. en_dest a = en_dest b \<longrightarrow> en_answer b \<noteq> None) (rs_held t)"
    using t by (auto simp: rebro_inv_def)
  have "rebro_inv t' \<and> budget d t' \<le> budget d t + (if ok then remaining d e else 0)"
  proof (cases "rs_capacity t \<le> length (rs_entries t)")
    case False
    then have "t' = t\<lparr>rs_entries := rs_entries t @ [e]\<rparr>" "ok" using r by (auto simp: rs_insert_def)
    with T e False show ?thesis by (auto simp: rebro_inv_def budget_def)
  next
    case True
    show ?thesis
    proof (cases "min_index (\<lambda>e. 0 < en_sent e) en_due (rs_entries t)")
      case None
      with r True t show ?thesis by (auto simp: rs_insert_def)
    next
      case (Some i)
      note i = min_index_Some(1)[OF Some]
      let ?es = "swap_remove i (rs_entries t)" and ?hs = "filter (\<lambda>h. en_dest h \<noteq> en_dest (rs_entries t ! i)) (rs_held t)"
      have t': "t' = t\<lparr>rs_entries := ?es @ [e], rs_held := ?hs\<rparr>" "ok" using r True Some by (auto simp: rs_insert_def)
      note S = swap_remove_distinct[OF i T(1)]
      have behind: "\<exists>x \<in> set (?es @ [e]). en_dest x = en_dest h \<and> en_answer x \<noteq> None" if "h \<in> set ?hs" for h
      proof -
        obtain x where "x \<in> set (rs_entries t)" "en_dest x = en_dest h" "en_answer x \<noteq> None"
          using T(5) \<open>h \<in> set ?hs\<close> by auto
        with S \<open>h \<in> set ?hs\<close> show ?thesis by auto
      qed
      have "length (?es @ [e]) \<le> rs_capacity t" using i T(2) by simp
      moreover have "length ?hs \<le> rs_capacity t" using T(3) by (rule order.trans[OF length_filter_le])
      ultimately have inv: "rebro_inv t'"
        using S T e behind by (auto simp: t' rebro_inv_def sorted_wrt_filter)
      have "sum_list (map (remaining d) ?hs) \<le> sum_list (map (remaining d) (rs_held t))"
        by (induction "rs_held t") (simp_all add: sum_list_filter_le_nat)
      moreover have "sum_list (map (remaining d) ?es) \<le> sum_list (map (remaining d) (rs_entries t))"
        using mset_remove_at[OF i, folded mset_swap_remove[OF i]]
        by (simp flip: sum_mset_sum_list)
      ultimately show ?thesis using inv by (simp add: t' budget_def)
    qed
  qed
  then show "rebro_inv t'" "budget d t' \<le> budget d t + (if ok then remaining d e else 0)" by blast+
qed

text \<open>Whether a relay for a destination waits in the table.\<close>

definition relay_pending :: "rebroadcasts \<Rightarrow> address_hash \<Rightarrow> bool" where
  "relay_pending t d \<longleftrightarrow> (\<exists>e \<in> set (rs_entries t) \<union> set (rs_held t). en_dest e = d \<and> en_answer e = None)"

lemma held_replace:
  assumes t: "rebro_inv t" and j: "j < length (rs_held t)" "en_answer (rs_held t ! j) = None"
    and e: "en_dest e = en_dest (rs_held t ! j)" "en_answer e = None" "en_sent e = en_sent (rs_held t ! j)"
  shows "rebro_inv (t\<lparr>rs_held := (rs_held t)[j := e]\<rparr>)" "budget d (t\<lparr>rs_held := (rs_held t)[j := e]\<rparr>) = budget d t"
proof -
  let ?hs = "(rs_held t)[j := e]"
  have "remaining d e = remaining d (rs_held t ! j)" using e by (simp add: remaining_def)
  with sum_update[OF j(1), of "remaining d" e]
  show "budget d (t\<lparr>rs_held := ?hs\<rparr>) = budget d t" by (simp add: budget_def)
  have sub: "set ?hs \<subseteq> insert e (set (rs_held t))" by (rule set_update_subset_insert)
  have "sorted_wrt (\<lambda>a b. en_dest a = en_dest b \<longrightarrow> en_answer b \<noteq> None) ?hs"
    unfolding sorted_wrt_iff_nth_less
  proof (intro allI impI)
    fix a b assume ab: "a < b" "b < length ?hs" "en_dest (?hs ! a) = en_dest (?hs ! b)"
    have old: "en_dest (rs_held t ! a) = en_dest (rs_held t ! b) \<longrightarrow> en_answer (rs_held t ! b) \<noteq> None"
      using t ab by (auto simp: rebro_inv_def sorted_wrt_iff_nth_less)
    with ab e j show "en_answer (?hs ! b) \<noteq> None" by (auto simp: nth_list_update split: if_splits)
  qed
  moreover have "\<exists>x \<in> set (rs_entries t). en_dest x = en_dest e \<and> en_answer x \<noteq> None" "en_sent e < TRANSMISSIONS"
    using t j e by (auto simp: rebro_inv_def)
  ultimately show "rebro_inv (t\<lparr>rs_held := ?hs\<rparr>)"
    using t sub by (auto simp: rebro_inv_def)
qed

lemma held_first:
  assumes t: "rebro_inv t" and x: "x \<in> set (rs_entries t)" "en_dest x = en_dest e" "en_answer x \<noteq> None"
    and none: "position (\<lambda>h. en_dest h = en_dest e \<and> en_answer h = None) (rs_held t) = None"
    and e: "en_sent e < TRANSMISSIONS" "length (rs_held t) < rs_capacity t"
  shows "rebro_inv (t\<lparr>rs_held := e # rs_held t\<rparr>)"
proof -
  have "\<forall>h \<in> set (rs_held t). en_dest e = en_dest h \<longrightarrow> en_answer h \<noteq> None"
    using none unfolding position_None by auto
  with t x e show ?thesis by (auto simp: rebro_inv_def)
qed

definition grant :: "bool \<Rightarrow> address_hash option \<Rightarrow> address_hash \<Rightarrow> nat \<Rightarrow> nat" where
  "grant ok d dest n = (if ok \<and> (d = None \<or> d = Some dest) then n else 0)"

lemma entry_unique:
  assumes t: "rebro_inv t" and x: "x \<in> set (rs_entries t)"
    and i: "i < length (rs_entries t)" "en_dest x = en_dest (rs_entries t ! i)"
  shows "x = rs_entries t ! i"
proof -
  obtain j where j: "j < length (rs_entries t)" "rs_entries t ! j = x" using x by (auto simp only: in_set_conv_nth)
  have "map en_dest (rs_entries t) ! i = map en_dest (rs_entries t) ! j" using i j by simp
  moreover have "distinct (map en_dest (rs_entries t))" using t by (simp add: rebro_inv_def)
  ultimately have "i = j" using i(1) j(1) by (simp add: nth_eq_iff_index_eq del: nth_map)
  with j show ?thesis by simp
qed

lemma held_behind:
  assumes t: "rebro_inv t" and h: "h \<in> set (rs_held t)"
    and i: "i < length (rs_entries t)" "en_dest h = en_dest (rs_entries t ! i)"
  shows "en_answer (rs_entries t ! i) \<noteq> None"
proof -
  obtain x where "x \<in> set (rs_entries t)" "en_dest x = en_dest h" "en_answer x \<noteq> None"
    using t h by (auto simp: rebro_inv_def)
  with entry_unique[OF t, of x i] i show ?thesis by simp
qed

lemma schedule_spec:
  assumes t: "rebro_inv t" and r: "rb_answer r = None" "schedule t r now delay = (t', ok)"
  shows "rebro_inv t' \<and> budget d t' \<le> budget d t
    + grant (ok \<and> \<not> relay_pending t (rb_destination r)) d (rb_destination r) TRANSMISSIONS"
proof -
  define e where "e = \<lparr>en_rebroadcast = r, en_due = sat_add u64_max now delay, en_sent = 0, en_heard = 0\<rparr>"
  let ?d = "rb_destination r"
  have rem: "remaining d e = grant True d ?d TRANSMISSIONS" by (simp add: e_def remaining_def grant_def)
  show ?thesis
  proof (cases "rs_find t ?d")
    case None
    then have ins: "rs_insert t e = (t', ok)" using r(2) by (simp add: schedule_def e_def)
    have new: "en_dest e \<notin> en_dest ` set (rs_entries t)" "en_sent e < TRANSMISSIONS"
      using None find_None[of t ?d] by (simp_all add: e_def TRANSMISSIONS_def)
    have "\<not> relay_pending t ?d"
      using None find_None[of t ?d] t by (force simp: relay_pending_def rebro_inv_def)
    with insert_spec(1)[OF t new ins] insert_spec(2)[OF t new ins, of d] rem show ?thesis
      by (auto simp: grant_def split: if_splits)
  next
    case (Some i)
    note i = find_Some[OF Some]
    let ?x = "rs_entries t ! i" and ?p = "\<lambda>h. en_dest h = ?d \<and> en_answer h = None"
    consider "en_answer ?x = None" | j where "en_answer ?x \<noteq> None" "position ?p (rs_held t) = Some j"
      | "en_answer ?x \<noteq> None" "position ?p (rs_held t) = None" by (cases "position ?p (rs_held t)") blast+
    then show ?thesis
    proof cases
      case 1
      then have t': "t' = t\<lparr>rs_entries := (rs_entries t)[i := e\<lparr>en_sent := en_sent ?x\<rparr>]\<rparr>"
        using r(2) Some by (simp add: schedule_def e_def Let_def)
      have sent: "en_sent ?x < TRANSMISSIONS" using t i by (auto simp: rebro_inv_def)
      have "rebro_inv t'" unfolding t'
        by (rule rebro_inv_replace[OF t]) (use i sent 1 in \<open>simp_all add: e_def\<close>)
      moreover have "remaining d (e\<lparr>en_sent := en_sent ?x\<rparr>) = remaining d ?x"
        using i by (simp add: remaining_def e_def)
      then have "budget d t' = budget d t"
        using budget_replace[of i t d "e\<lparr>en_sent := en_sent ?x\<rparr>"] i by (simp add: t')
      ultimately show ?thesis by simp
    next
      case (2 j)
      note j = position_Some[OF 2(2)]
      have t': "t' = t\<lparr>rs_held := (rs_held t)[j := e\<lparr>en_sent := en_sent (rs_held t ! j)\<rparr>]\<rparr>"
        using r(2) Some 2 by (simp add: schedule_def e_def Let_def)
      let ?e = "e\<lparr>en_sent := en_sent (rs_held t ! j)\<rparr>"
      have "en_dest ?e = en_dest (rs_held t ! j)" "en_answer ?e = None" using j r(1) by (simp_all add: e_def)
      then have "rebro_inv t' \<and> budget d t' = budget d t"
        unfolding t' using held_replace[OF t, of j ?e] j by simp
      then show ?thesis by simp
    next
      case 3
      show ?thesis
      proof (cases "rs_capacity t \<le> length (rs_held t)")
        case True
        then have "schedule t r now delay = (t, False)"
          using 3 Some by (simp add: schedule_def Let_def del: not_None_eq)
        with r(2) t show ?thesis by simp
      next
        case False
        then have t': "t' = t\<lparr>rs_held := e # rs_held t\<rparr>" "ok"
          using 3 r(2) Some by (simp_all add: schedule_def e_def Let_def del: not_None_eq)
        have "rebro_inv t'" unfolding t'(1)
          by (rule held_first[OF t, of ?x]) (use i 3 False in \<open>simp_all add: e_def TRANSMISSIONS_def\<close>)
        moreover have "\<not> relay_pending t ?d"
          using 3 i entry_unique[OF t, of _ i] unfolding relay_pending_def position_None by auto
        ultimately show ?thesis using rem t'(2) by (simp add: t'(1) budget_def grant_def)
      qed
    qed
  qed
qed


lemma held_last:
  assumes t: "rebro_inv t" and x: "x \<in> set (rs_entries t)" "en_dest x = en_dest e" "en_answer x \<noteq> None"
    and relay: "en_answer e = None \<longrightarrow> (\<forall>h \<in> set (rs_held t). en_dest h \<noteq> en_dest e)"
    and e: "en_sent e < TRANSMISSIONS" "length (rs_held t) < rs_capacity t"
  shows "rebro_inv (t\<lparr>rs_held := rs_held t @ [e]\<rparr>)"
proof -
  have "sorted_wrt (\<lambda>a b. en_dest a = en_dest b \<longrightarrow> en_answer b \<noteq> None) (rs_held t @ [e])"
    using t relay by (auto simp: rebro_inv_def sorted_wrt_append)
  with t x e show ?thesis unfolding rebro_inv_def by auto
qed

lemma answer_spec:
  assumes t: "rebro_inv t" and r: "rb_answer r \<noteq> None" "answer t r now delay = (t', ok)"
  shows "rebro_inv t' \<and> budget d t' \<le> budget d t + grant ok d (rb_destination r) 1"
proof -
  define e where "e = \<lparr>en_rebroadcast = r, en_due = sat_add u64_max now delay, en_sent = TRANSMISSIONS - 1, en_heard = 0\<rparr>"
  let ?d = "rb_destination r"
  have rem: "remaining d e = grant True d ?d 1" and e: "en_dest e = ?d" "en_answer e = rb_answer r" "en_sent e < TRANSMISSIONS"
    by (simp_all add: e_def remaining_def grant_def TRANSMISSIONS_def)
  show ?thesis
  proof (cases "rs_find t ?d")
    case None
    then have ins: "rs_insert t e = (t', ok)" using r(2) by (simp add: answer_def e_def)
    have new: "en_dest e \<notin> en_dest ` set (rs_entries t)" using None find_None[of t ?d] e by simp
    from insert_spec(1)[OF t new e(3) ins] insert_spec(2)[OF t new e(3) ins, of d] rem show ?thesis
      by (auto simp: grant_def split: if_splits)
  next
    case (Some i)
    note i = find_Some[OF Some]
    let ?x = "rs_entries t ! i" and ?t = "t\<lparr>rs_entries := (rs_entries t)[i := e]\<rparr>"
    have inv: "rebro_inv ?t" using i e r(1) by (intro rebro_inv_replace[OF t]) auto
    have bud: "budget d ?t + remaining d ?x = budget d t + remaining d e" using i by (simp add: budget_replace)
    have x: "en_sent ?x < TRANSMISSIONS" using t i by (auto simp: rebro_inv_def)
    then have le: "remaining d e \<le> remaining d ?x" using i e by (auto simp: remaining_def e_def)
    consider "en_answer ?x = rb_answer r"
      | "en_answer ?x \<noteq> rb_answer r" "rs_capacity t \<le> length (rs_held t)"
      | "en_answer ?x \<noteq> rb_answer r" "length (rs_held t) < rs_capacity t" by linarith
    then show ?thesis
    proof cases
      case 1
      then have "t' = ?t" using r(2) Some by (simp add: answer_def e_def Let_def)
      with inv bud le show ?thesis by simp
    next
      case 2
      then have "t' = t" using r(2) Some by (simp add: answer_def Let_def)
      with t show ?thesis by simp
    next
      case 3
      then have t': "t' = ?t\<lparr>rs_held := rs_held ?t @ [?x]\<rparr>" "ok"
        using r(2) Some by (simp_all add: answer_def e_def Let_def)
      have "rebro_inv t'" unfolding t'(1)
      proof (rule held_last[OF inv, of e])
        show "en_answer ?x = None \<longrightarrow> (\<forall>h \<in> set (rs_held ?t). en_dest h \<noteq> en_dest ?x)"
          using held_behind[OF t, of _ i] i by auto
        show "e \<in> set (rs_entries ?t)" using i by (simp add: set_update_memI)
      qed (use 3 i e r(1) x in simp_all)
      moreover have "budget d t' = budget d ?t + remaining d ?x" by (simp add: t'(1) budget_def)
      ultimately show ?thesis using bud rem t'(2) by simp
    qed
  qed
qed

text \<open>An update of one entry that leaves its announce alone.\<close>

lemma touch_spec:
  assumes t: "rebro_inv t" and i: "i < length (rs_entries t)"
    and e: "en_rebroadcast e = en_rebroadcast (rs_entries t ! i)" "en_sent e < TRANSMISSIONS"
  shows "rebro_inv (t\<lparr>rs_entries := (rs_entries t)[i := e]\<rparr>)"
    "budget d (t\<lparr>rs_entries := (rs_entries t)[i := e]\<rparr>) + remaining d (rs_entries t ! i) = budget d t + remaining d e"
  using e i by (auto intro: rebro_inv_replace[OF t] simp: budget_replace)

lemma drop_spec:
  assumes t: "rebro_inv t" and i: "index < length (rs_entries t)"
  shows "rebro_inv (fst (rs_remove t index))"
    "budget d t = remaining d (rs_entries t ! index) + budget d (fst (rs_remove t index))"
  using rebro_inv_remove[OF t i] budget_remove[OF i, of "fst (rs_remove t index)" "snd (rs_remove t index)" d] by simp_all

lemma heard_spec:
  assumes t: "rebro_inv t" and r: "heard t destination hops now = (t', ok)"
  shows "rebro_inv t' \<and> budget d t' \<le> budget d t"
proof (cases "rs_find t destination")
  case None
  with r t show ?thesis by (simp add: heard_def)
next
  case (Some i)
  note i = find_Some[OF Some, THEN conjunct1]
  let ?x = "rs_entries t ! i"
  define e where "e = (if hops = pk_hops (rb_packet (en_rebroadcast ?x)) then ?x\<lparr>en_heard := sat_add u8_max (en_heard ?x) 1\<rparr> else ?x)"
  let ?t = "t\<lparr>rs_entries := (rs_entries t)[i := e]\<rparr>"
  have e: "en_rebroadcast e = en_rebroadcast ?x" "en_sent e = en_sent ?x" by (simp_all add: e_def)
  then have rem: "remaining d e = remaining d ?x" by (simp add: remaining_def)
  have "en_sent ?x < TRANSMISSIONS" using t i by (auto simp: rebro_inv_def)
  with touch_spec(1)[OF t i, of e] touch_spec(2)[OF t i, of e d] e rem have T: "rebro_inv ?t" "budget d ?t = budget d t"
    by simp_all
  have "t' = ?t \<or> t' = fst (rs_remove ?t i)"
    using r Some by (auto simp: heard_def Let_def e_def split: if_splits)
  then show ?thesis
  proof
    assume "t' = fst (rs_remove ?t i)"
    with drop_spec(1)[OF T(1), of i] drop_spec(2)[OF T(1), of i d] T(2) i show ?thesis by simp
  qed (use T in simp)
qed

lemma heard_copy_spec:
  assumes t: "rebro_inv t" and r: "heard_copy t p now = (t', ok)"
  shows "rebro_inv t' \<and> budget d t' \<le> budget d t"
proof -
  have "t' = t \<or> heard t (pk_destination p) (pk_hops p) now = (t', ok)"
    using r by (auto simp: heard_copy_def Let_def split: option.splits if_splits)
  with heard_spec[OF t, of "pk_destination p" "pk_hops p" now t' ok d] t show ?thesis by blast
qed

lemma pop_due_spec:
  assumes t: "rebro_inv t" and r: "pop_due t now = (t', out)"
  shows "rebro_inv t' \<and> (case out of
      None \<Rightarrow> t' = t \<and> (\<forall>e \<in> set (rs_entries t). now < en_due e)
    | Some x \<Rightarrow> budget d t' + grant True d (rb_destination x) 1 = budget d t
        \<and> (\<exists>e \<in> set (rs_entries t). en_rebroadcast e = x \<and> en_due e \<le> now
             \<and> (\<forall>e' \<in> set (rs_entries t). en_due e \<le> en_due e')))"
proof (cases "min_index (\<lambda>e. en_due e \<le> now) en_due (rs_entries t)")
  case None
  then have "out = None" "t' = t" using r by (simp_all add: pop_due_def)
  moreover have "\<forall>e \<in> set (rs_entries t). now < en_due e" using None unfolding min_index_None by auto
  ultimately show ?thesis using t by simp
next
  case (Some i)
  note M = min_index_Some[OF Some]
  let ?x = "rs_entries t ! i"
  define e where "e = ?x\<lparr>en_sent := en_sent ?x + 1,
    en_due := sat_add u64_max (sat_add u64_max now REBROADCAST_GRACE) REBROADCAST_WINDOW\<rparr>"
  let ?t = "t\<lparr>rs_entries := (rs_entries t)[i := e]\<rparr>"
  have e: "en_rebroadcast e = en_rebroadcast ?x" "en_sent e = en_sent ?x + 1" by (simp_all add: e_def)
  have least: "en_due ?x \<le> en_due x" if "x \<in> set (rs_entries t)" for x
    using M(2) M(3)[OF that] by fastforce
  have x: "?x \<in> set (rs_entries t)" "en_sent ?x < TRANSMISSIONS" using t M(1) by (auto simp: rebro_inv_def)
  have "rebro_inv t' \<and> out = Some (en_rebroadcast ?x) \<and> budget d t' + grant True d (en_dest ?x) 1 = budget d t"
  proof (cases "TRANSMISSIONS \<le> en_sent e")
    case True
    then have "t' = fst (rs_remove ?t i)" "out = Some (en_rebroadcast (snd (rs_remove ?t i)))"
      using r Some by (auto simp: pop_due_def Let_def e_def split: prod.splits)
    moreover have "snd (rs_remove ?t i) = e"
      using M(1) by (simp add: rs_remove_def Let_def split: option.split)
    moreover have "fst (rs_remove ?t i) = fst (rs_remove t i)" using M(1) e by (simp add: remove_update)
    moreover have "remaining d ?x = grant True d (en_dest ?x) 1"
      using True x(2) e(2) by (auto simp: remaining_def grant_def)
    ultimately show ?thesis using drop_spec(1)[OF t M(1)] drop_spec(2)[OF t M(1), of d] e by simp
  next
    case False
    then have "t' = ?t" "out = Some (en_rebroadcast ?x)"
      using r Some by (auto simp: pop_due_def Let_def e_def)
    moreover have "remaining d ?x = remaining d e + grant True d (en_dest ?x) 1"
      using False e by (auto simp: remaining_def grant_def)
    ultimately show ?thesis
      using False e touch_spec(1)[OF t M(1), of e] touch_spec(2)[OF t M(1), of e d] by simp
  qed
  with x M(2) least show ?thesis by auto
qed

lemma forget_spec: "rebro_inv t \<Longrightarrow> rebro_inv (forget_entries iface i t) \<and> budget d (forget_entries iface i t) \<le> budget d t"
proof (induction iface i t rule: forget_entries.induct)
  case (1 iface i t)
  show ?case
  proof (cases "i < length (rs_entries t) \<and> \<not> keeps iface (rs_entries t ! i)")
    case True
    with drop_spec(1)[OF "1.prems", of i] drop_spec(2)[OF "1.prems", of i d] "1.IH"(2) show ?thesis
      by (simp add: forget_entries.simps[of iface i t])
  next
    case False
    with 1 show ?thesis by (simp add: forget_entries.simps[of iface i t])
  qed
qed

lemma forget_interface_spec:
  assumes t: "rebro_inv t"
  shows "rebro_inv (forget_interface t iface) \<and> budget d (forget_interface t iface) \<le> budget d t"
proof -
  let ?t = "t\<lparr>rs_held := filter (keeps iface) (rs_held t)\<rparr>"
  have "length (rs_held t) \<le> rs_capacity t" using t by (simp add: rebro_inv_def)
  then have "length (filter (keeps iface) (rs_held t)) \<le> rs_capacity t" by (rule order.trans[OF length_filter_le])
  then have "rebro_inv ?t" using t by (auto simp: rebro_inv_def sorted_wrt_filter)
  moreover have "budget d ?t \<le> budget d t" by (simp add: budget_def sum_list_filter_le_nat)
  ultimately show ?thesis using forget_spec[of ?t iface 0 d] by (auto simp: forget_interface_def)
qed

section \<open>Runs of the table\<close>

text \<open>
  What the node and the endpoint do with the table. A relay is scheduled without an answer
  interface, a path response with the interface it leaves on.
\<close>

definition relay_of :: "interface_id \<Rightarrow> packet \<Rightarrow> nat \<Rightarrow> rebroadcast" where
  "relay_of iface p emitted = \<lparr>rb_destination = pk_destination p, rb_packet = p, rb_interface = iface,
     rb_emitted = emitted, rb_answer = None\<rparr>"

definition response_of :: "interface_id \<Rightarrow> packet \<Rightarrow> rebroadcast" where
  "response_of iface p = \<lparr>rb_destination = pk_destination p, rb_packet = p, rb_interface = iface,
     rb_emitted = 0, rb_answer = Some iface\<rparr>"

datatype rebro_op =
    Relay interface_id packet nat nat nat
  | Respond interface_id packet nat nat
  | Heard address_hash u8 nat
  | Heard_copy packet nat
  | Pop nat
  | Forget interface_id

fun rebro_step :: "rebroadcasts \<Rightarrow> rebro_op \<Rightarrow> rebroadcasts \<times> rebroadcast option" where
  "rebro_step t (Relay iface p emitted now delay) = (fst (schedule t (relay_of iface p emitted) now delay), None)"
| "rebro_step t (Respond iface p now delay) = (fst (answer t (response_of iface p) now delay), None)"
| "rebro_step t (Heard d hops now) = (fst (heard t d hops now), None)"
| "rebro_step t (Heard_copy p now) = (fst (heard_copy t p now), None)"
| "rebro_step t (Pop now) = pop_due t now"
| "rebro_step t (Forget iface) = (forget_interface t iface, None)"

text \<open>
  The transmissions an operation may add for a destination: two for an announce scheduled when no
  relay for it waits, one for a path response, none for anything else or anything refused.
\<close>

fun admitted :: "address_hash option \<Rightarrow> rebroadcasts \<Rightarrow> rebro_op \<Rightarrow> nat" where
  "admitted d t (Relay iface p emitted now delay) =
     grant (snd (schedule t (relay_of iface p emitted) now delay) \<and> \<not> relay_pending t (pk_destination p))
       d (pk_destination p) TRANSMISSIONS"
| "admitted d t (Respond iface p now delay) =
     grant (snd (answer t (response_of iface p) now delay)) d (pk_destination p) 1"
| "admitted d t _ = 0"

fun rebro_run :: "rebroadcasts \<Rightarrow> rebro_op list \<Rightarrow> rebroadcasts \<times> rebroadcast list" where
  "rebro_run t [] = (t, [])"
| "rebro_run t (a # as) =
     (let (t', out) = rebro_step t a; (t'', outs) = rebro_run t' as
      in (t'', (case out of None \<Rightarrow> outs | Some r \<Rightarrow> r # outs)))"

fun admitted_run :: "address_hash option \<Rightarrow> rebroadcasts \<Rightarrow> rebro_op list \<Rightarrow> nat" where
  "admitted_run d t [] = 0"
| "admitted_run d t (a # as) = admitted d t a + admitted_run d (fst (rebro_step t a)) as"

definition sent_to :: "address_hash option \<Rightarrow> rebroadcast option \<Rightarrow> nat" where
  "sent_to d out = (case out of None \<Rightarrow> 0 | Some r \<Rightarrow> grant True d (rb_destination r) 1)"

lemma rebro_step_spec:
  assumes t: "rebro_inv t"
  shows "rebro_inv (fst (rebro_step t a))
    \<and> sent_to d (snd (rebro_step t a)) + budget d (fst (rebro_step t a)) \<le> budget d t + admitted d t a"
proof (cases a)
  case (Relay iface p emitted now delay)
  with schedule_spec[OF t, of "relay_of iface p emitted" now delay
      "fst (schedule t (relay_of iface p emitted) now delay)" "snd (schedule t (relay_of iface p emitted) now delay)" d]
  show ?thesis by (simp add: relay_of_def sent_to_def)
next
  case (Respond iface p now delay)
  with answer_spec[OF t, of "response_of iface p" now delay
      "fst (answer t (response_of iface p) now delay)" "snd (answer t (response_of iface p) now delay)" d]
  show ?thesis by (simp add: response_of_def sent_to_def)
next
  case (Heard dest hops now)
  with heard_spec[OF t, of dest hops now "fst (heard t dest hops now)" "snd (heard t dest hops now)" d]
  show ?thesis by (simp add: sent_to_def)
next
  case (Heard_copy p now)
  with heard_copy_spec[OF t, of p now "fst (heard_copy t p now)" "snd (heard_copy t p now)" d]
  show ?thesis by (simp add: sent_to_def)
next
  case (Pop now)
  with pop_due_spec[OF t, of now "fst (pop_due t now)" "snd (pop_due t now)" d]
  show ?thesis by (auto simp: sent_to_def split: option.splits)
next
  case (Forget iface)
  with forget_interface_spec[OF t, of iface d] show ?thesis by (simp add: sent_to_def)
qed

interpretation rebro: guarded_ops "\<lambda>t a. fst (rebro_step t a)" rebro_inv
  by unfold_locales (simp add: rebro_step_spec)

lemma rebro_inv_new: "rebro_inv (rebroadcasts_new c)" "budget d (rebroadcasts_new c) = 0"
  by (simp_all add: rebro_inv_def rebroadcasts_new_def budget_def)

lemma rebro_run_state: "fst (rebro_run t as) = foldl (\<lambda>t a. fst (rebro_step t a)) t as"
  by (induction as arbitrary: t) (simp_all add: Let_def case_prod_unfold)

lemma rebro_run_budget:
  "rebro_inv t \<Longrightarrow> (\<Sum>r \<leftarrow> snd (rebro_run t as). sent_to d (Some r)) + budget d (fst (rebro_run t as))
     \<le> budget d t + admitted_run d t as"
proof (induction as arbitrary: t)
  case (Cons a as)
  obtain t' out where s: "rebro_step t a = (t', out)" by (cases "rebro_step t a")
  obtain t'' outs where r: "rebro_run t' as = (t'', outs)" by (cases "rebro_run t' as")
  note S = rebro_step_spec[OF Cons.prems, of a d]
  then have "rebro_inv t'" using s by simp
  from Cons.IH[OF this] S s r show ?case by (cases out) (simp_all add: sent_to_def)
qed simp

text \<open>\<open>core::iter::from_fn(|| table.pop_due(now)).collect()\<close>: everything due at one instant.\<close>

definition rebro_size :: "rebroadcasts \<Rightarrow> nat" where
  "rebro_size t = (\<Sum>e \<in># mset (rs_entries t) + mset (rs_held t). TRANSMISSIONS - en_sent e)
     + length (rs_entries t) + length (rs_held t)"

lemma rebro_size_remove:
  "index < length (rs_entries t) \<Longrightarrow> rebro_size (fst (rs_remove t index)) < rebro_size t"
proof -
  assume i: "index < length (rs_entries t)"
  obtain t' e where r: "rs_remove t index = (t', e)" by (cases "rs_remove t index")
  note m = mset_remove(1)[OF i r]
  from arg_cong[OF m, of size] have "length (rs_entries t) + length (rs_held t) = Suc (length (rs_entries t') + length (rs_held t'))"
    by simp
  with m r show ?thesis by (simp add: rebro_size_def)
qed

lemma rebro_size_pop: "pop_due t now = (t', Some r) \<Longrightarrow> rebro_size t' < rebro_size t"
proof -
  assume p: "pop_due t now = (t', Some r)"
  then obtain i where i: "min_index (\<lambda>e. en_due e \<le> now) en_due (rs_entries t) = Some i"
    by (auto simp: pop_due_def split: option.splits)
  note M = min_index_Some(1)[OF i]
  let ?x = "rs_entries t ! i"
  define e where "e = ?x\<lparr>en_sent := en_sent ?x + 1,
    en_due := sat_add u64_max (sat_add u64_max now REBROADCAST_GRACE) REBROADCAST_WINDOW\<rparr>"
  let ?t = "t\<lparr>rs_entries := (rs_entries t)[i := e]\<rparr>"
  have e: "en_dest e = en_dest ?x" "en_sent e = en_sent ?x + 1" by (simp_all add: e_def)
  show ?thesis
  proof (cases "TRANSMISSIONS \<le> en_sent e")
    case True
    then have "t' = fst (rs_remove ?t i)" using p i by (auto simp: pop_due_def Let_def e_def split: prod.splits)
    with remove_update[OF M e(1)] rebro_size_remove[OF M] show ?thesis by simp
  next
    case False
    then have "t' = ?t" using p i by (auto simp: pop_due_def Let_def e_def)
    moreover have "rebro_size ?t < rebro_size t"
      using sum_update[OF M, of "\<lambda>e. TRANSMISSIONS - en_sent e" e] False e
      by (simp add: rebro_size_def flip: sum_mset_sum_list)
    ultimately show ?thesis by simp
  qed
qed

function drain :: "nat \<Rightarrow> rebroadcasts \<Rightarrow> rebroadcasts \<times> rebroadcast list" where
  "drain now t =
    (case pop_due t now of
       (t', None) \<Rightarrow> (t', [])
     | (t', Some r) \<Rightarrow> (let (t'', rs) = drain now t' in (t'', r # rs)))"
  by pat_completeness auto

termination
  by (relation "measure (\<lambda>(now, t). rebro_size t)") (auto dest: rebro_size_pop[OF sym])

declare drain.simps [simp del]

lemma min_due: "rs_next_due t = Some d \<longleftrightarrow> (\<exists>e \<in> set (rs_entries t). en_due e = d \<and> (\<forall>e' \<in> set (rs_entries t). d \<le> en_due e'))"
proof (cases "rs_entries t = []")
  case False
  then have "Min (set (map en_due (rs_entries t))) = d
      \<longleftrightarrow> d \<in> set (map en_due (rs_entries t)) \<and> (\<forall>x \<in> set (map en_due (rs_entries t)). d \<le> x)"
    by (intro Min_eq_iff) simp_all
  with False show ?thesis by (auto simp: rs_next_due_def)
qed (simp add: rs_next_due_def)

lemma next_due_None: "rs_next_due t = None \<longleftrightarrow> rs_entries t = []"
  by (simp add: rs_next_due_def)

definition due_by :: "nat \<Rightarrow> nat option \<Rightarrow> bool" where
  "due_by now due = (case due of None \<Rightarrow> False | Some d \<Rightarrow> d \<le> now)"

lemma due_by_next: "due_by now (rs_next_due t) \<longleftrightarrow> (\<exists>e \<in> set (rs_entries t). en_due e \<le> now)"
proof (cases "rs_next_due t")
  case None
  then show ?thesis by (simp add: due_by_def rs_next_due_def split: if_splits)
next
  case (Some d)
  with min_due[of t d] show ?thesis by (auto simp: due_by_def)
qed

lemma drain_spec:
  "rebro_inv t \<Longrightarrow> drain now t = (t', rs) \<Longrightarrow>
     rebro_inv t' \<and> \<not> due_by now (rs_next_due t') \<and> budget d t = (\<Sum>r \<leftarrow> rs. sent_to d (Some r)) + budget d t'"
proof (induction now t arbitrary: t' rs rule: drain.induct)
  case (1 now t)
  obtain u out where p: "pop_due t now = (u, out)" by (cases "pop_due t now")
  note P = pop_due_spec[OF "1.prems"(1) p, of d]
  show ?case
  proof (cases out)
    case None
    then have "drain now t = (u, [])" unfolding drain.simps[of now t] p by simp
    with "1.prems"(2) have "t' = u" "rs = []" by simp_all
    moreover have "u = t" "\<forall>e \<in> set (rs_entries t). now < en_due e" using P None by simp_all
    then have "\<not> due_by now (rs_next_due u)" unfolding due_by_next by auto
    ultimately show ?thesis using "1.prems"(1) \<open>u = t\<close> by simp
  next
    case (Some r)
    obtain u' rs' where D: "drain now u = (u', rs')" by (cases "drain now u")
    then have "drain now t = (u', r # rs')" unfolding drain.simps[of now t] p Some by simp
    with "1.prems"(2) have "t' = u'" "rs = r # rs'" by simp_all
    with "1.IH"[OF p[symmetric] Some _ D] P Some show ?thesis by (simp add: sent_to_def)
  qed
qed

text \<open>
  C33: through any sequence of scheduled announces, path responses, overheard copies, releases and
  lost interfaces, the table holds one entry per destination within its capacity, and what it
  transmits for a destination never exceeds two per announce accepted while none waited plus one
  per accepted path response: a newer announce inherits the sends of the one it replaces.
\<close>

theorem rebroadcast_budget:
  "rebro_inv (fst (rebro_run (rebroadcasts_new c) as))
    \<and> length (filter (\<lambda>r. rb_destination r = d) (snd (rebro_run (rebroadcasts_new c) as)))
        \<le> admitted_run (Some d) (rebroadcasts_new c) as"
proof
  show "rebro_inv (fst (rebro_run (rebroadcasts_new c) as))"
    unfolding rebro_run_state by (rule rebro.run_inv) (rule rebro_inv_new)
  have "length (filter (\<lambda>r. rb_destination r = d) rs) = (\<Sum>r \<leftarrow> rs. sent_to (Some d) (Some r))" for rs
    by (induction rs) (auto simp: sent_to_def grant_def)
  with rebro_run_budget[OF rebro_inv_new(1)[of c], of "Some d" as]
  show "length (filter (\<lambda>r. rb_destination r = d) (snd (rebro_run (rebroadcasts_new c) as)))
      \<le> admitted_run (Some d) (rebroadcasts_new c) as" by (simp add: rebro_inv_new)
qed

text \<open>
  C36: releasing what is due at one instant ends, even at the end of the clock where a retry is due
  at once, leaves nothing due, and spends the table's remaining transmissions exactly.
\<close>

theorem rebroadcast_drain:
  assumes "rebro_inv t"
  shows "rebro_inv (fst (drain now t)) \<and> \<not> due_by now (rs_next_due (fst (drain now t)))
    \<and> budget None t = length (snd (drain now t)) + budget None (fst (drain now t))"
proof -
  have "(\<Sum>r \<leftarrow> rs. sent_to None (Some r)) = length rs" for rs
    by (induction rs) (auto simp: sent_to_def grant_def)
  with drain_spec[OF assms, of now "fst (drain now t)" "snd (drain now t)" None] show ?thesis by simp
qed

lemmas rebro_eval = rebroadcasts_new_def relay_of_def response_of_def schedule_def answer_def pop_due_def
  rs_insert_def rs_remove_def rs_find_def min_index_def rebro_consts sat_add_def u64_max_def

definition two_relays :: rebroadcasts where
  "two_relays = fst (rebro_run (rebroadcasts_new 4)
     [Relay 1 sample_packet 5 0 10, Relay 2 (sample_packet\<lparr>pk_destination := AddressHash 8\<rparr>) 6 0 20])"

theorem rebroadcast_drain_witness:
  "\<not> due_by 15 (rs_next_due (fst (drain 15 two_relays))) \<and> due_by 15 (rs_next_due two_relays)
    \<and> 4 = length (snd (drain 15 two_relays)) + budget None (fst (drain 15 two_relays))"
proof -
  have "rebro_inv two_relays" unfolding two_relays_def rebro_run_state by (rule rebro.run_inv) (rule rebro_inv_new)
  moreover have "budget None two_relays = 4" "due_by 15 (rs_next_due two_relays)"
    by (simp_all add: two_relays_def rebro_eval sample_packet_def Let_def budget_def remaining_def due_by_def rs_next_due_def)
  ultimately show ?thesis using rebroadcast_drain[of two_relays 15] by simp
qed

text \<open>
  An earlier answer to the same interface is superseded only while it is the pending entry.
  With an answer to another interface between them, it is held, and the stale announce is sent to
  its requester after the newer one.
\<close>

theorem stale_answer_is_sent_last:
  assumes "pk_destination p2 = pk_destination p1" "pk_destination p3 = pk_destination p1" "i \<noteq> j"
  shows "map (\<lambda>r. (rb_packet r, rb_interface r)) (snd (rebro_run (rebroadcasts_new (Suc (Suc n)))
     [Respond i p1 0 400, Respond j p2 1 400, Respond i p3 2 400, Pop 500, Pop 500, Pop 500]))
   = [(p3, i), (p2, j), (p1, i)]"
  using assms by (auto simp: rebro_eval swap_remove_def remove_at_def Let_def)

theorem stale_answer_is_sent_last_witness:
  "map rb_interface (snd (rebro_run (rebroadcasts_new 2)
     [Respond 1 sample_packet 0 400, Respond 2 sample_packet 1 400,
      Respond 1 (sample_packet\<lparr>pk_hops := 2\<rparr>) 2 400, Pop 500, Pop 500, Pop 500])) = [1, 2, 1]"
  using arg_cong[OF stale_answer_is_sent_last[of sample_packet sample_packet "sample_packet\<lparr>pk_hops := 2\<rparr>" 1 2 0], of "map snd"]
  by (simp add: numeral_2_eq_2 comp_def)

text \<open>
  A path response that was never sent counts as sent once, so a full table evicts it for a
  relay of another destination, and its requester is never answered.
\<close>

theorem unsent_answer_is_evicted:
  assumes "pk_destination p2 \<noteq> pk_destination p1"
  shows "snd (schedule (fst (rebro_step (rebroadcasts_new 1) (Respond i p1 0 400))) (relay_of j p2 emitted) 1 100)
   \<and> map rb_packet (snd (rebro_run (rebroadcasts_new 1)
        [Respond i p1 0 400, Relay j p2 emitted 1 100, Pop 1000, Pop 10000, Pop 20000])) = [p2, p2]"
  using assms by (auto simp: rebro_eval swap_remove_def remove_at_def Let_def)

theorem unsent_answer_is_evicted_witness:
  "map rb_packet (snd (rebro_run (rebroadcasts_new 1)
     [Respond 1 sample_packet 0 400, Relay 2 (sample_packet\<lparr>pk_destination := AddressHash 8\<rparr>) 7 1 100,
      Pop 1000, Pop 10000, Pop 20000]))
   = [sample_packet\<lparr>pk_destination := AddressHash 8\<rparr>, sample_packet\<lparr>pk_destination := AddressHash 8\<rparr>]"
  using unsent_answer_is_evicted[of "sample_packet\<lparr>pk_destination := AddressHash 8\<rparr>" sample_packet 1 2 7]
  by (simp add: sample_packet_def)

end
