(* ===== verification/AnnounceCap.thy ===== *)
theory AnnounceCap
  imports Rebroadcast "HOL-Library.Product_Lexorder"
begin

text \<open>
  One interface's announce budget, the second half of \<open>crates/retinue/src/rebroadcast.rs\<close>: the
  wait a transmission costs (\<open>u128\<close> arithmetic that cannot overflow, clamped to \<open>u64\<close>), the queue
  of announces the budget has no room for, and the recursive path requests charged to it.
\<close>

section \<open>The rate\<close>

definition FIRST_HOP_ALLOWANCE_BITS :: nat where "FIRST_HOP_ALLOWANCE_BITS = 500 * 8"
definition ANNOUNCE_CAP_PERCENT :: nat where "ANNOUNCE_CAP_PERCENT = 2"
definition QUEUED_ANNOUNCE_LIFE :: nat where "QUEUED_ANNOUNCE_LIFE = 3 * 60 * 60 * 1000"

record cap_rate =
  cr_mtu_ms :: nat
  cr_per :: nat
  cr_percent :: nat

definition from_airtime :: "nat \<Rightarrow> nat \<Rightarrow> cap_rate" where
  "from_airtime mtu_ms percent = \<lparr>cr_mtu_ms = mtu_ms, cr_per = 1, cr_percent = percent\<rparr>"

definition from_bitrate :: "nat \<Rightarrow> nat \<Rightarrow> cap_rate" where
  "from_bitrate bps percent =
     \<lparr>cr_mtu_ms = FIRST_HOP_ALLOWANCE_BITS * 1000, cr_per = bps, cr_percent = percent\<rparr>"

definition cap_rate_new :: "nat \<Rightarrow> cap_rate" where
  "cap_rate_new mtu_ms = from_airtime mtu_ms ANNOUNCE_CAP_PERCENT"

definition cap_num :: "nat \<Rightarrow> cap_rate \<Rightarrow> nat" where
  "cap_num len rate = len * 100 * cr_mtu_ms rate"

definition cap_den :: "cap_rate \<Rightarrow> nat" where
  "cap_den rate = 500 * max (cr_percent rate) 1 * max (cr_per rate) 1"

definition cap_wait :: "nat \<Rightarrow> cap_rate \<Rightarrow> nat" where
  "cap_wait len rate = min u64_max ((cap_num len rate + (cap_den rate - 1)) div cap_den rate)"

section \<open>The cap\<close>

datatype offer = Offer_send packet | Offer_queued | Offer_dropped

record queued =
  qd_rebroadcast :: rebroadcast
  qd_at :: nat

record announce_cap =
  ac_allowed_at :: nat
  ac_queue :: "queued list"
  ac_capacity :: nat

abbreviation qd_dest :: "queued \<Rightarrow> address_hash" where
  "qd_dest q \<equiv> rb_destination (qd_rebroadcast q)"

abbreviation qd_packet :: "queued \<Rightarrow> packet" where
  "qd_packet q \<equiv> rb_packet (qd_rebroadcast q)"

definition announce_cap_new :: "nat \<Rightarrow> announce_cap" where
  "announce_cap_new capacity = \<lparr>ac_allowed_at = 0, ac_queue = [], ac_capacity = capacity\<rparr>"

definition cap_offer :: "announce_cap \<Rightarrow> rebroadcast \<Rightarrow> nat \<Rightarrow> cap_rate \<Rightarrow> announce_cap \<times> offer" where
  "cap_offer c r now rate =
    (if ac_queue c = [] \<and> ac_allowed_at c \<le> now then
       (c\<lparr>ac_allowed_at := sat_add u64_max now (cap_wait (encoded_len (rb_packet r)) rate)\<rparr>,
        Offer_send (rb_packet r))
     else
       (case position (\<lambda>q. qd_dest q = rb_destination r) (ac_queue c) of
          Some i \<Rightarrow>
            (if rb_emitted (qd_rebroadcast (ac_queue c ! i)) < rb_emitted r
             then c\<lparr>ac_queue := (ac_queue c)[i := \<lparr>qd_rebroadcast = r, qd_at = now\<rparr>]\<rparr> else c,
             Offer_queued)
        | None \<Rightarrow>
            if ac_capacity c \<le> length (ac_queue c) then (c, Offer_dropped)
            else (c\<lparr>ac_queue := ac_queue c @ [\<lparr>qd_rebroadcast = r, qd_at = now\<rparr>]\<rparr>, Offer_queued)))"

definition cap_alive :: "nat \<Rightarrow> queued \<Rightarrow> bool" where
  "cap_alive now q \<longleftrightarrow> now \<le> sat_add u64_max (qd_at q) QUEUED_ANNOUNCE_LIFE"

definition cap_pop_due :: "announce_cap \<Rightarrow> nat \<Rightarrow> cap_rate \<Rightarrow> announce_cap \<times> packet option" where
  "cap_pop_due c now rate =
    (if now < ac_allowed_at c then (c, None)
     else
       let c = c\<lparr>ac_queue := filter (cap_alive now) (ac_queue c)\<rparr>
       in case min_index (\<lambda>_. True) (\<lambda>q. (pk_hops (qd_packet q), qd_at q)) (ac_queue c) of
            None \<Rightarrow> (c, None)
          | Some i \<Rightarrow>
              let p = qd_packet (ac_queue c ! i)
              in (c\<lparr>ac_queue := remove_at i (ac_queue c),
                    ac_allowed_at := sat_add u64_max now (cap_wait (encoded_len p) rate)\<rparr>, Some p))"

definition cap_next_due :: "announce_cap \<Rightarrow> nat option" where
  "cap_next_due c = (if ac_queue c \<noteq> [] then Some (ac_allowed_at c) else None)"

definition admit_path_request :: "announce_cap \<Rightarrow> nat \<Rightarrow> nat \<Rightarrow> cap_rate \<Rightarrow> announce_cap \<times> bool" where
  "admit_path_request c len now rate =
    (if ac_queue c \<noteq> [] \<or> now < ac_allowed_at c then (c, False)
     else (c\<lparr>ac_allowed_at := sat_add u64_max now (cap_wait len rate)\<rparr>, True))"

definition cap_idle :: "announce_cap \<Rightarrow> nat \<Rightarrow> bool" where
  "cap_idle c now \<longleftrightarrow> ac_queue c = [] \<and> ac_allowed_at c \<le> now"

section \<open>Runs\<close>

datatype cap_op = Offered rebroadcast nat | Released nat | Requested nat nat

text \<open>One call at a rate: the next state and what it put on the air, with its time and length.\<close>

fun cap_step :: "cap_rate \<Rightarrow> announce_cap \<Rightarrow> cap_op \<Rightarrow> announce_cap \<times> (nat \<times> nat) option" where
  "cap_step rate c (Offered r now) =
     (case cap_offer c r now rate of
        (c', Offer_send p) \<Rightarrow> (c', Some (now, encoded_len p))
      | (c', _) \<Rightarrow> (c', None))"
| "cap_step rate c (Released now) =
     (case cap_pop_due c now rate of (c', out) \<Rightarrow> (c', map_option (\<lambda>p. (now, encoded_len p)) out))"
| "cap_step rate c (Requested len now) =
     (case admit_path_request c len now rate of (c', ok) \<Rightarrow> (c', if ok then Some (now, len) else None))"

fun cap_run :: "cap_rate \<Rightarrow> announce_cap \<Rightarrow> cap_op list \<Rightarrow> announce_cap \<times> (nat \<times> nat) list" where
  "cap_run rate c [] = (c, [])"
| "cap_run rate c (a # as) =
     (let (c', out) = cap_step rate c a; (c'', outs) = cap_run rate c' as
      in (c'', (case out of None \<Rightarrow> outs | Some x \<Rightarrow> x # outs)))"

fun cap_time :: "cap_op \<Rightarrow> nat" where
  "cap_time (Offered r now) = now"
| "cap_time (Released now) = now"
| "cap_time (Requested len now) = now"

definition cap_inv :: "announce_cap \<Rightarrow> bool" where
  "cap_inv c \<longleftrightarrow> distinct (map qd_dest (ac_queue c)) \<and> length (ac_queue c) \<le> ac_capacity c"

lemma cap_offer_inv: "cap_inv c \<Longrightarrow> cap_inv (fst (cap_offer c r now rate))"
proof (cases "ac_queue c = [] \<and> ac_allowed_at c \<le> now")
  case True
  then show "cap_inv c \<Longrightarrow> ?thesis" by (simp add: cap_offer_def cap_inv_def)
next
  case shut: False
  assume c: "cap_inv c"
  show ?thesis
  proof (cases "position (\<lambda>q. qd_dest q = rb_destination r) (ac_queue c)")
    case None
    then have "rb_destination r \<notin> qd_dest ` set (ac_queue c)" unfolding position_None by auto
    with shut None c show ?thesis by (auto simp: cap_offer_def cap_inv_def)
  next
    case (Some i)
    note P = position_Some[OF Some]
    then have "map qd_dest ((ac_queue c)[i := \<lparr>qd_rebroadcast = r, qd_at = now\<rparr>]) = map qd_dest (ac_queue c)"
      by (simp add: map_update list_update_same_conv)
    with shut Some c show ?thesis by (simp add: cap_offer_def cap_inv_def)
  qed
qed

lemma min_index_key_Some:
  "min_index (\<lambda>_. True) key xs = Some i \<Longrightarrow> i < length xs \<and> (\<forall>x \<in> set xs. key (xs ! i) \<le> key x)"
  using min_index_Some[of "\<lambda>_. True" key xs i] by auto

lemma cap_pop_inv: "cap_inv c \<Longrightarrow> cap_inv (fst (cap_pop_due c now rate))"
proof -
  assume c: "cap_inv c"
  let ?q = "filter (cap_alive now) (ac_queue c)"
  have q: "distinct (map qd_dest ?q)" "length ?q \<le> ac_capacity c"
    using c order.trans[OF length_filter_le] by (auto simp: cap_inv_def distinct_map_filter)
  show ?thesis
  proof (cases "min_index (\<lambda>_. True) (\<lambda>q. (pk_hops (qd_packet q), qd_at q)) ?q")
    case None
    with c q show ?thesis by (simp add: cap_pop_due_def cap_inv_def)
  next
    case (Some i)
    then have "i < length ?q" using min_index_key_Some by blast
    then have "length (remove_at i ?q) \<le> ac_capacity c"
      using q(2) length_remove_at[of i ?q] by linarith
    with Some c distinct_map_remove_at[OF q(1), of i] show ?thesis
      by (simp add: cap_pop_due_def cap_inv_def Let_def)
  qed
qed

lemma cap_step_state:
  "fst (cap_step rate c (Offered r now)) = fst (cap_offer c r now rate)"
  "fst (cap_step rate c (Released now)) = fst (cap_pop_due c now rate)"
  "fst (cap_step rate c (Requested len now)) = fst (admit_path_request c len now rate)"
  by (auto split: prod.splits offer.splits)

lemma cap_step_inv: "cap_inv c \<Longrightarrow> cap_inv (fst (cap_step rate c a))"
  by (cases a) (auto simp: cap_step_state cap_offer_inv cap_pop_inv admit_path_request_def cap_inv_def[of "_\<lparr>ac_allowed_at := _\<rparr>"]
      cap_inv_def[of c] simp del: cap_step.simps)

interpretation cap: guarded_ops "\<lambda>c a. fst (cap_step rate c a)" cap_inv for rate
  by unfold_locales (rule cap_step_inv)

lemma cap_run_state: "fst (cap_run rate c as) = foldl (\<lambda>c a. fst (cap_step rate c a)) c as"
  by (induction as arbitrary: c) (simp_all add: Let_def case_prod_unfold)

lemma cap_step_capacity: "ac_capacity (fst (cap_step rate c a)) = ac_capacity c"
  by (cases a) (auto simp: cap_step_state cap_offer_def cap_pop_due_def admit_path_request_def Let_def
      simp del: cap_step.simps split: option.split)

lemma cap_run_capacity: "ac_capacity (foldl (\<lambda>c a. fst (cap_step rate c a)) c as) = ac_capacity c"
  by (induction as arbitrary: c) (simp_all add: cap_step_capacity)

section \<open>Spacing\<close>

text \<open>Transmissions from a time on, each waiting out the one before.\<close>

fun spaced :: "cap_rate \<Rightarrow> nat \<Rightarrow> (nat \<times> nat) list \<Rightarrow> bool" where
  "spaced rate at [] = True"
| "spaced rate at ((now, len) # xs) = (at \<le> now \<and> spaced rate (sat_add u64_max now (cap_wait len rate)) xs)"

lemma cap_step_allowed:
  "cap_step rate c a = (c', out) \<Longrightarrow>
     (case out of None \<Rightarrow> ac_allowed_at c' = ac_allowed_at c
      | Some (now, len) \<Rightarrow> now = cap_time a \<and> ac_allowed_at c \<le> now
          \<and> ac_allowed_at c' = sat_add u64_max now (cap_wait len rate))"
  by (cases a) (auto simp: cap_offer_def cap_pop_due_def admit_path_request_def Let_def
      split: if_splits option.splits offer.splits prod.splits)

lemma cap_run_spaced: "spaced rate (ac_allowed_at c) (snd (cap_run rate c as))"
proof (induction as arbitrary: c)
  case (Cons a as)
  obtain c' out where s: "cap_step rate c a = (c', out)" by (cases "cap_step rate c a")
  obtain c'' outs where r: "cap_run rate c' as = (c'', outs)" by (cases "cap_run rate c' as")
  from cap_step_allowed[OF s] Cons[of c'] s r show ?case by (auto split: option.splits)
qed simp

lemma cap_run_times: "\<forall>x \<in> set (snd (cap_run rate c as)). \<exists>a \<in> set as. fst x = cap_time a"
proof (induction as arbitrary: c)
  case (Cons a as)
  obtain c' out where s: "cap_step rate c a = (c', out)" by (cases "cap_step rate c a")
  obtain c'' outs where r: "cap_run rate c' as = (c'', outs)" by (cases "cap_run rate c' as")
  from cap_step_allowed[OF s] Cons[of c'] s r show ?case by (auto split: option.splits)
qed simp

lemma cap_wait_covers:
  assumes "cap_wait len rate < u64_max"
  shows "cap_num len rate \<le> cap_wait len rate * cap_den rate"
proof -
  have d: "0 < cap_den rate" by (auto simp: cap_den_def max_def)
  let ?n = "cap_num len rate + (cap_den rate - 1)"
  have "cap_wait len rate = ?n div cap_den rate" using assms by (simp add: cap_wait_def min_def split: if_splits)
  moreover define q m where "q = ?n div cap_den rate * cap_den rate" and "m = ?n mod cap_den rate"
  then have "q + m = ?n" "m < cap_den rate" using d by simp_all
  then have "cap_num len rate \<le> q" using d by linarith
  ultimately show ?thesis by (simp add: q_def)
qed

lemma spaced_window:
  "spaced rate at (xs @ [(t2, l2)]) \<Longrightarrow> \<forall>x \<in> set (xs @ [(t2, l2)]). fst x < u64_max \<Longrightarrow>
     at \<le> t2 \<and> (xs \<noteq> [] \<longrightarrow> cap_num (sum_list (map snd xs)) rate \<le> (t2 - fst (hd xs)) * cap_den rate)"
proof (induction xs arbitrary: at)
  case (Cons x xs)
  obtain t l where x: "x = (t, l)" by (cases x)
  let ?a = "sat_add u64_max t (cap_wait l rate)"
  from Cons.prems x have s: "at \<le> t" "spaced rate ?a (xs @ [(t2, l2)])" "\<forall>x \<in> set (xs @ [(t2, l2)]). fst x < u64_max"
    by auto
  note IH = Cons.IH
  note I = IH[OF s(2,3)]
  have t2: "?a \<le> t2" "t2 < u64_max" using I s(3) by auto
  then have a: "?a = t + cap_wait l rate" "cap_wait l rate < u64_max" by (auto simp: sat_add_def min_def split: if_splits)
  note w = cap_wait_covers[OF a(2)]
  show ?case
  proof (cases xs)
    case Nil
    have "cap_wait l rate * cap_den rate \<le> (t2 - t) * cap_den rate" using t2 a by (intro mult_le_mono1) simp
    with w have "cap_num l rate \<le> (t2 - t) * cap_den rate" by (rule order.trans)
    with Nil t2 a s(1) x show ?thesis by simp
  next
    case (Cons y ys)
    obtain u m where y: "y = (u, m)" by (cases y)
    have u: "?a \<le> u" using s(2) Cons y by simp
    have "u \<le> t2"
    proof -
      have "spaced rate u (y # ys @ [(t2, l2)])" using s(2) Cons y by simp
      with IH[of u] Cons s(3) show ?thesis by simp
    qed
    have "cap_num (sum_list (map snd (x # xs))) rate = cap_num l rate + cap_num (sum_list (map snd xs)) rate"
      by (simp add: x cap_num_def algebra_simps)
    also have "\<dots> \<le> cap_wait l rate * cap_den rate + (t2 - u) * cap_den rate"
      using w I Cons y by simp
    also have "\<dots> = (cap_wait l rate + (t2 - u)) * cap_den rate" by (simp add: algebra_simps)
    also have "\<dots> \<le> (t2 - t) * cap_den rate" using u a \<open>u \<le> t2\<close> by (intro mult_le_mono1) simp
    finally show ?thesis using s(1) t2 a x by simp
  qed
qed simp

lemma spaced_drop: "spaced rate at (xs @ ys) \<Longrightarrow> \<exists>at'. spaced rate at' ys"
  by (induction xs arbitrary: at) auto

lemma spaced_prefix: "spaced rate at (xs @ ys) \<Longrightarrow> spaced rate at xs"
  by (induction xs arbitrary: at) auto

section \<open>Forgetting an idle cap\<close>

text \<open>
  Caps that differ only in a budget both have regained by a time: what the node and the endpoint
  confuse when they drop an idle cap and start another with the same capacity later.
\<close>

definition cap_alike :: "nat \<Rightarrow> announce_cap \<Rightarrow> announce_cap \<Rightarrow> bool" where
  "cap_alike now c c' \<longleftrightarrow> c' = c \<or> (cap_idle c now \<and> cap_idle c' now \<and> ac_capacity c' = ac_capacity c)"

lemma cap_alike_step:
  assumes "cap_alike now c c'" "now \<le> cap_time a"
  shows "cap_alike (cap_time a) (fst (cap_step rate c a)) (fst (cap_step rate c' a))
    \<and> snd (cap_step rate c a) = snd (cap_step rate c' a)"
proof (cases "c' = c")
  case False
  then have i: "ac_queue c = []" "ac_queue c' = []" "ac_allowed_at c \<le> cap_time a" "ac_allowed_at c' \<le> cap_time a"
    "ac_capacity c' = ac_capacity c"
    using assms by (auto simp: cap_alike_def cap_idle_def)
  show ?thesis
  proof (cases a)
    case (Offered r t)
    with i show ?thesis by (simp add: cap_offer_def cap_alike_def)
  next
    case (Released t)
    with i have "min_index (\<lambda>_. True) (\<lambda>q. (pk_hops (qd_packet q), qd_at q)) [] = None"
      by (simp add: min_index_None)
    with i Released show ?thesis by (simp add: cap_pop_due_def cap_alike_def cap_idle_def)
  next
    case (Requested len t)
    with i show ?thesis by (simp add: admit_path_request_def cap_alike_def)
  qed
qed (simp add: cap_alike_def)

text \<open>Operations at times that do not go back.\<close>

fun timely :: "nat \<Rightarrow> cap_op list \<Rightarrow> bool" where
  "timely now [] = True"
| "timely now (a # as) = (now \<le> cap_time a \<and> timely (cap_time a) as)"

lemma cap_alike_run:
  "cap_alike now c c' \<Longrightarrow> timely now as \<Longrightarrow> snd (cap_run rate c as) = snd (cap_run rate c' as)"
proof (induction as arbitrary: now c c')
  case (Cons a as)
  have n: "now \<le> cap_time a" "timely (cap_time a) as" using Cons.prems(2) by simp_all
  note A = cap_alike_step[OF Cons.prems(1) n(1), of rate]
  then have "snd (cap_run rate (fst (cap_step rate c a)) as) = snd (cap_run rate (fst (cap_step rate c' a)) as)"
    by (intro Cons.IH[OF _ n(2)]) simp
  with A show ?case by (auto simp: case_prod_unfold Let_def split: option.split)
qed simp

section \<open>Properties\<close>

text \<open>
  C34: an interface's announces and recursive path requests keep to their share of its airtime:
  between any two transmissions of any run of the cap, whatever was queued, replaced or refused,
  the bytes sent from the first up to the second fit in the time between them at \<open>percent\<close> of
  the rate at which 500 bytes take \<open>mtu_ms / per\<close> milliseconds.
\<close>

theorem announce_share_respected:
  assumes "snd (cap_run rate c as) = before @ (t1, l1) # between @ (t2, l2) # after"
    and "list_all (\<lambda>a. cap_time a < u64_max) as"
  shows "(l1 + sum_list (map snd between)) * 100 * cr_mtu_ms rate
    \<le> (t2 - t1) * (500 * max (cr_percent rate) 1 * max (cr_per rate) 1)"
proof -
  let ?xs = "(t1, l1) # between"
  have "spaced rate (ac_allowed_at c) (before @ (?xs @ [(t2, l2)]) @ after)"
    using cap_run_spaced[of rate c as] assms(1) by simp
  then obtain at where "spaced rate at ((?xs @ [(t2, l2)]) @ after)" by (blast dest: spaced_drop)
  then have s: "spaced rate at (?xs @ [(t2, l2)])" by (rule spaced_prefix)
  have "\<forall>x \<in> set (snd (cap_run rate c as)). fst x < u64_max"
    using cap_run_times[of rate c as] assms(2) unfolding list_all_iff by metis
  then have "\<forall>x \<in> set (?xs @ [(t2, l2)]). fst x < u64_max" unfolding assms(1) by simp
  from spaced_window[OF s this] show ?thesis by (simp add: cap_num_def cap_den_def mult.assoc)
qed

definition sample_relay :: "u8 \<Rightarrow> 128 word \<Rightarrow> nat \<Rightarrow> rebroadcast" where
  "sample_relay hops d emitted =
     relay_of 1 (sample_packet\<lparr>pk_hops := hops, pk_destination := AddressHash d\<rparr>) emitted"

definition sample_cap_ops :: "cap_op list" where
  "sample_cap_ops = [Offered (sample_relay 3 1 5) 1000, Offered (sample_relay 2 2 6) 1001,
     Offered (sample_relay 1 3 7) 1002, Released 1500, Released 1600, Released 5000, Requested 40 10000]"

lemmas cap_eval = sample_cap_ops_def sample_relay_def relay_of_def sample_packet_def announce_cap_new_def
  cap_rate_new_def from_airtime_def ANNOUNCE_CAP_PERCENT_def cap_offer_def cap_pop_due_def min_index_def
  admit_path_request_def cap_wait_def cap_num_def cap_den_def cap_alive_def QUEUED_ANNOUNCE_LIFE_def
  encoded_len_def packet_consts sat_add_def u64_max_def remove_at_def

lemma sample_cap_log:
  "snd (cap_run (cap_rate_new 64) (announce_cap_new 8) sample_cap_ops)
     = [] @ (1000, 36) # [(1500, 36)] @ (5000, 36) # [(10000, 40)]"
  by (simp add: cap_eval Let_def)

theorem announce_share_respected_witness:
  "(36 + sum_list (map snd [(1500::nat, 36::nat)])) * 100 * 64 \<le> (5000 - 1000) * (500 * max 2 1 * max 1 (1::nat))"
proof -
  have "list_all (\<lambda>a. cap_time a < u64_max) sample_cap_ops" by (simp add: sample_cap_ops_def u64_max_def)
  from announce_share_respected[OF sample_cap_log this] show ?thesis
    by (simp add: cap_rate_new_def from_airtime_def ANNOUNCE_CAP_PERCENT_def)
qed

text \<open>
  The queue of a cap never exceeds its capacity nor holds two announces of one destination; a
  release drops exactly the announces past their life and sends the one with the fewest hops,
  the oldest of those, and only a spent budget or an empty queue releases nothing.
\<close>

theorem cap_releases_best:
  "cap_inv (fst (cap_run rate (announce_cap_new n) as))
    \<and> ac_capacity (fst (cap_run rate (announce_cap_new n) as)) = n
    \<and> (case cap_pop_due c now rate of
         (c', None) \<Rightarrow> now < ac_allowed_at c \<or> list_all (\<lambda>q. \<not> cap_alive now q) (ac_queue c)
       | (c', Some p) \<Rightarrow> list_ex (\<lambda>q. qd_packet q = p
            \<and> list_all (\<lambda>q'. (pk_hops p, qd_at q) \<le> (pk_hops (qd_packet q'), qd_at q')) (filter (cap_alive now) (ac_queue c))
            \<and> mset (filter (cap_alive now) (ac_queue c)) = add_mset q (mset (ac_queue c'))) (ac_queue c))"
proof (intro conjI)
  show "cap_inv (fst (cap_run rate (announce_cap_new n) as))"
    unfolding cap_run_state by (rule cap.run_inv) (simp add: cap_inv_def announce_cap_new_def)
  show "ac_capacity (fst (cap_run rate (announce_cap_new n) as)) = n"
    unfolding cap_run_state cap_run_capacity by (simp add: announce_cap_new_def)
  let ?q = "filter (cap_alive now) (ac_queue c)" and ?key = "\<lambda>q. (pk_hops (qd_packet q), qd_at q)"
  let ?best = "\<lambda>c' p. list_ex (\<lambda>q. qd_packet q = p \<and> list_all (\<lambda>q'. (pk_hops p, qd_at q) \<le> ?key q') ?q
     \<and> mset ?q = add_mset q (mset (ac_queue c'))) (ac_queue c)"
  show "case cap_pop_due c now rate of
      (c', None) \<Rightarrow> now < ac_allowed_at c \<or> list_all (\<lambda>q. \<not> cap_alive now q) (ac_queue c)
    | (c', Some p) \<Rightarrow> ?best c' p"
  proof (cases "now < ac_allowed_at c")
    case False
    show ?thesis
    proof (cases "min_index (\<lambda>_. True) ?key ?q")
      case None
      then have "list_all (\<lambda>q. \<not> cap_alive now q) (ac_queue c)" unfolding min_index_None list_all_iff by auto
      with None False show ?thesis by (simp add: cap_pop_due_def)
    next
      case (Some i)
      note M = min_index_key_Some[OF Some]
      let ?c = "c\<lparr>ac_queue := remove_at i ?q,
        ac_allowed_at := sat_add u64_max now (cap_wait (encoded_len (qd_packet (?q ! i))) rate)\<rparr>"
      have "?q ! i \<in> set ?q" using M by (intro nth_mem) simp
      then have "?q ! i \<in> set (ac_queue c)" by simp
      moreover have "list_all (\<lambda>q'. ?key (?q ! i) \<le> ?key q') ?q" using M unfolding list_all_iff by blast
      moreover have "mset ?q = add_mset (?q ! i) (mset (ac_queue ?c))" using M mset_remove_at[of i ?q] by simp
      ultimately have "?best ?c (qd_packet (?q ! i))" unfolding list_ex_iff by blast
      moreover have "cap_pop_due c now rate = (?c, Some (qd_packet (?q ! i)))"
        using Some False by (simp add: cap_pop_due_def Let_def)
      ultimately show ?thesis by (simp only: prod.case option.case)
    qed
  qed (simp add: cap_pop_due_def)
qed

text \<open>
  Dropping a cap that holds nothing and constrains nothing is unobservable: from then on it
  and a new cap put the same transmissions on the air at the same times.
\<close>

theorem idle_cap_forgotten:
  assumes "cap_idle c now" "timely now as"
  shows "snd (cap_run rate (announce_cap_new (ac_capacity c)) as) = snd (cap_run rate c as)"
  using assms cap_alike_run[of now c "announce_cap_new (ac_capacity c)" as rate]
  by (simp add: cap_alike_def cap_idle_def announce_cap_new_def)

theorem idle_cap_forgotten_witness:
  "snd (cap_run (cap_rate_new 64) (announce_cap_new 8) sample_cap_ops)
     = snd (cap_run (cap_rate_new 64) ((announce_cap_new 8)\<lparr>ac_allowed_at := 900\<rparr>) sample_cap_ops)"
  using idle_cap_forgotten[of "(announce_cap_new 8)\<lparr>ac_allowed_at := 900\<rparr>" 950 sample_cap_ops "cap_rate_new 64"]
  by (simp add: cap_idle_def announce_cap_new_def sample_cap_ops_def)

end
