(* ===== verification/NodeTables.thy ===== *)
theory NodeTables
  imports Rebroadcast
begin

text \<open>
  The node's bounded tables: interface modes (\<open>iface_mode.rs\<close>, and the route lifetimes of
  \<open>node/params.rs\<close>), routes, carried-link bridges, reverse entries and the two-generation hash
  filter of \<open>node/tables.rs\<close>. Ticks are naturals: a saturating difference is the natural one.
\<close>

section \<open>Interface modes\<close>

datatype interface_mode = Full | PointToPoint | AccessPoint | Roaming | Boundary | Gateway | Internal

definition ALL_MODES :: "interface_mode list" where
  "ALL_MODES = [Full, PointToPoint, AccessPoint, Roaming, Boundary, Gateway, Internal]"

record mode_flags =
  mf_from_internal :: bool
  mf_to_internal :: bool

definition mode_flags_default :: mode_flags where
  "mode_flags_default = \<lparr>mf_from_internal = True, mf_to_internal = False\<rparr>"

definition announce_permitted :: "interface_mode \<Rightarrow> interface_mode option \<Rightarrow> bool \<Rightarrow> mode_flags \<Rightarrow> bool" where
  "announce_permitted out from local flags =
    (if local then out \<noteq> AccessPoint
     else case from of
       None \<Rightarrow> False
     | Some from \<Rightarrow>
         if \<not> mf_from_internal flags \<and> from = Internal then False
         else case out of
             AccessPoint \<Rightarrow> False
           | Internal \<Rightarrow> mf_to_internal flags \<or> from \<noteq> Boundary
           | Roaming \<Rightarrow> \<not> (from = Roaming \<or> from = Boundary)
           | Boundary \<Rightarrow> from \<noteq> Roaming
           | _ \<Rightarrow> True)"

definition discovers_paths :: "interface_mode \<Rightarrow> interface_mode list option" where
  "discovers_paths mode =
    (if mode \<in> {AccessPoint, Gateway, Roaming, Internal} then Some ALL_MODES
     else if mode = Boundary then Some [Boundary, Gateway] else None)"

definition ACCESS_POINT_ROUTE_TTL :: nat where "ACCESS_POINT_ROUTE_TTL = 86400000"
definition ROAMING_ROUTE_TTL :: nat where "ROAMING_ROUTE_TTL = 21600000"

definition mode_route_ttl :: "interface_mode \<Rightarrow> nat \<Rightarrow> nat" where
  "mode_route_ttl mode full =
    (case mode of
       AccessPoint \<Rightarrow> if full < ACCESS_POINT_ROUTE_TTL then full else ACCESS_POINT_ROUTE_TTL
     | Roaming \<Rightarrow> if full < ROAMING_ROUTE_TTL then full else ROAMING_ROUTE_TTL
     | _ \<Rightarrow> full)"

section \<open>Rows\<close>

record route =
  rt_destination :: address_hash
  rt_interface :: interface_id
  rt_transport :: "address_hash option"
  rt_hops :: u8
  rt_learned :: nat
  rt_mode :: interface_mode

definition route_live :: "route \<Rightarrow> nat \<Rightarrow> nat \<Rightarrow> bool" where
  "route_live r now ttl \<longleftrightarrow> now - rt_learned r < mode_route_ttl (rt_mode r) ttl"

record link_bridge =
  br_link_id :: address_hash
  br_destination :: address_hash
  br_from :: interface_id
  br_out :: interface_id
  br_seen :: nat
  br_proof_deadline :: "nat option"

definition bridge_lapsed :: "link_bridge \<Rightarrow> nat \<Rightarrow> nat \<Rightarrow> bool" where
  "bridge_lapsed b now ttl =
    (case br_proof_deadline b of None \<Rightarrow> ttl \<le> now - br_seen b | Some deadline \<Rightarrow> deadline \<le> now)"

record reverse_entry =
  rv_packet :: address_hash
  rv_received :: interface_id
  rv_outbound :: interface_id
  rv_seen :: nat

section \<open>Hash generations\<close>

record hash_generations =
  hg_N :: nat
  hg_current :: "address_hash list"
  hg_previous :: "address_hash list"
  hg_started :: nat

definition generations_new :: "nat \<Rightarrow> hash_generations" where
  "generations_new n = \<lparr>hg_N = n, hg_current = [], hg_previous = [], hg_started = 0\<rparr>"

definition turn_over :: "hash_generations \<Rightarrow> nat \<Rightarrow> nat \<Rightarrow> hash_generations" where
  "turn_over g now max_age =
    (let age = now - hg_started g in
     if sat_mul u64_max max_age 2 \<le> age then
       g\<lparr>hg_previous := [], hg_current := [], hg_started := now\<rparr>
     else if max_age \<le> age \<or> length (hg_current g) = hg_N g then
       g\<lparr>hg_previous := hg_current g, hg_current := [], hg_started := now\<rparr>
     else g)"

definition generations_insert :: "hash_generations \<Rightarrow> address_hash \<Rightarrow> nat \<Rightarrow> nat \<Rightarrow> hash_generations \<times> bool" where
  "generations_insert g hash now max_age =
    (let g = turn_over g now max_age in
     if hash \<in> set (hg_current g) \<or> hash \<in> set (hg_previous g) then (g, False)
     else (if length (hg_current g) < hg_N g then g\<lparr>hg_current := hg_current g @ [hash]\<rparr> else g, True))"

text \<open>A run of insertions, and what each answered.\<close>

fun generations_run :: "nat \<Rightarrow> hash_generations \<Rightarrow> (address_hash \<times> nat) list \<Rightarrow> hash_generations \<times> bool list" where
  "generations_run max_age g [] = (g, [])"
| "generations_run max_age g ((h, now) # xs) =
     (let (g', fresh) = generations_insert g h now max_age; (g'', rs) = generations_run max_age g' xs
      in (g'', fresh # rs))"

lemma generations_run_append:
  "generations_run m g (xs @ ys) =
     (let (g', rs) = generations_run m g xs; (g'', ss) = generations_run m g' ys in (g'', rs @ ss))"
  by (induction m g xs rule: generations_run.induct) (auto simp: Let_def split: prod.splits)

lemma generations_run_length: "length (snd (generations_run m g xs)) = length xs"
  by (induction m g xs rule: generations_run.induct) (auto simp: Let_def split: prod.splits)

lemma sat_mul_less: "x < sat_mul m a b \<Longrightarrow> x < a * b"
  by (simp add: sat_mul_def)

text \<open>
  A filter whose every remembered hash was recorded at the time \<open>f\<close> gives: in this generation, or
  less than twice its age before this one began.
\<close>

definition recorded_since :: "nat \<Rightarrow> hash_generations \<Rightarrow> (address_hash \<Rightarrow> nat option) \<Rightarrow> bool" where
  "recorded_since m g f \<longleftrightarrow>
     (\<forall>h \<in> set (hg_current g). \<exists>t. f h = Some t \<and> hg_started g \<le> t)
     \<and> (\<forall>h \<in> set (hg_previous g). \<exists>t. f h = Some t \<and> hg_started g < t + 2 * m)"

lemma recorded_turn_over:
  assumes "recorded_since m g f" "hg_started g \<le> now"
  shows "recorded_since m (turn_over g now m) f" "hg_started (turn_over g now m) \<le> now"
    "\<forall>h \<in> set (hg_current (turn_over g now m)) \<union> set (hg_previous (turn_over g now m)).
       \<exists>t. f h = Some t \<and> now < t + 3 * m"
proof -
  let ?age = "now - hg_started g"
  consider "sat_mul u64_max m 2 \<le> ?age" | "?age < sat_mul u64_max m 2" "m \<le> ?age \<or> length (hg_current g) = hg_N g"
    | "?age < sat_mul u64_max m 2" "?age < m" "length (hg_current g) \<noteq> hg_N g" by linarith
  then have "recorded_since m (turn_over g now m) f \<and> hg_started (turn_over g now m) \<le> now
    \<and> (\<forall>h \<in> set (hg_current (turn_over g now m)) \<union> set (hg_previous (turn_over g now m)). \<exists>t. f h = Some t \<and> now < t + 3 * m)"
  proof cases
    case 1
    then show ?thesis by (simp add: turn_over_def recorded_since_def)
  next
    case 2
    then have t: "turn_over g now m = g\<lparr>hg_previous := hg_current g, hg_current := [], hg_started := now\<rparr>"
      by (simp add: turn_over_def)
    have "now < hg_started g + m * 2" using sat_mul_less[OF 2(1)] assms(2) by linarith
    then have "\<forall>h \<in> set (hg_current g). \<exists>t. f h = Some t \<and> now < t + 2 * m"
      using assms(1) unfolding recorded_since_def by fastforce
    then show ?thesis by (fastforce simp: t recorded_since_def)
  next
    case 3
    then have t: "turn_over g now m = g" by (simp add: turn_over_def)
    have "now < hg_started g + m" using 3(2) assms(2) by linarith
    then have "\<forall>h \<in> set (hg_current g) \<union> set (hg_previous g). \<exists>t. f h = Some t \<and> now < t + 3 * m"
      using assms(1) unfolding recorded_since_def by fastforce
    with t assms show ?thesis by simp
  qed
  then show "recorded_since m (turn_over g now m) f" "hg_started (turn_over g now m) \<le> now"
    "\<forall>h \<in> set (hg_current (turn_over g now m)) \<union> set (hg_previous (turn_over g now m)).
       \<exists>t. f h = Some t \<and> now < t + 3 * m" by blast+
qed

lemma recorded_insert:
  assumes "recorded_since m g f" "hg_started g \<le> now" "generations_insert g h now m = (g', fresh)"
  shows "recorded_since m g' (if fresh then f(h \<mapsto> now) else f)" "hg_started g' \<le> now"
    "\<not> fresh \<Longrightarrow> \<exists>t. f h = Some t \<and> now < t + 3 * m"
proof -
  note T = recorded_turn_over[OF assms(1,2)]
  let ?g = "turn_over g now m"
  have c: "(\<not> fresh \<and> g' = ?g \<and> h \<in> set (hg_current ?g) \<union> set (hg_previous ?g))
    \<or> (fresh \<and> h \<notin> set (hg_current ?g) \<union> set (hg_previous ?g) \<and> (g' = ?g \<or> g' = ?g\<lparr>hg_current := hg_current ?g @ [h]\<rparr>))"
    using assms(3) by (auto simp: generations_insert_def Let_def split: if_splits)
  then show "hg_started g' \<le> now" "\<not> fresh \<Longrightarrow> \<exists>t. f h = Some t \<and> now < t + 3 * m"
    using T(2,3) by auto
  from c show "recorded_since m g' (if fresh then f(h \<mapsto> now) else f)"
  proof
    assume r: "fresh \<and> h \<notin> set (hg_current ?g) \<union> set (hg_previous ?g) \<and> (g' = ?g \<or> g' = ?g\<lparr>hg_current := hg_current ?g @ [h]\<rparr>)"
    then have "recorded_since m ?g (f(h \<mapsto> now))" using T(1) by (auto simp: recorded_since_def)
    with r T(2) show ?thesis by (elim conjE disjE) (simp_all add: recorded_since_def)
  qed (use T(1) in simp)
qed

lemma generations_forget_from:
  "recorded_since m g f \<Longrightarrow> sorted (hg_started g # map snd (xs @ [(h, t)])) \<Longrightarrow>
     generations_run m g (xs @ [(h, t)]) = (g', rs @ [False]) \<Longrightarrow>
     (\<exists>u. f h = Some u \<and> t < u + 3 * m) \<or> (\<exists>i < length xs. fst (xs ! i) = h \<and> rs ! i \<and> t < snd (xs ! i) + 3 * m)"
proof (induction xs arbitrary: g f rs)
  case Nil
  then show ?case using recorded_insert(3)[of m g f t h] by (auto simp: Let_def split: prod.splits)
next
  case (Cons x xs)
  obtain k u where x: "x = (k, u)" by (cases x)
  obtain g1 fresh where i: "generations_insert g k u m = (g1, fresh)" by (cases "generations_insert g k u m")
  obtain g2 rs2 where r: "generations_run m g1 (xs @ [(h, t)]) = (g2, rs2)" by (cases "generations_run m g1 (xs @ [(h, t)])")
  have eq: "fresh # rs2 = rs @ [False]" "g2 = g'" using Cons.prems(3) x i r by (simp_all add: Let_def)
  have "length rs2 = Suc (length xs)" using generations_run_length[of m g1 "xs @ [(h, t)]"] r by simp
  with eq obtain rs1 where rs: "rs = fresh # rs1" "rs2 = rs1 @ [False]" by (cases rs) auto
  have u: "hg_started g \<le> u" "sorted (u # map snd (xs @ [(h, t)]))" using Cons.prems(2) x by auto
  note R = recorded_insert[OF Cons.prems(1) u(1) i]
  have "sorted (hg_started g1 # map snd (xs @ [(h, t)]))" using R(2) u(2) by auto
  from Cons.IH[OF R(1) this] r rs eq
  have "(\<exists>v. (if fresh then f(k \<mapsto> u) else f) h = Some v \<and> t < v + 3 * m)
    \<or> (\<exists>i < length xs. fst (xs ! i) = h \<and> rs1 ! i \<and> t < snd (xs ! i) + 3 * m)" by simp
  then show ?case
  proof
    assume "\<exists>v. (if fresh then f(k \<mapsto> u) else f) h = Some v \<and> t < v + 3 * m"
    then consider "\<exists>v. f h = Some v \<and> t < v + 3 * m" | "fresh" "h = k" "t < u + 3 * m"
      by (auto split: if_splits)
    then show ?case using x rs by cases force+
  next
    assume "\<exists>i < length xs. fst (xs ! i) = h \<and> rs1 ! i \<and> t < snd (xs ! i) + 3 * m"
    then obtain i where "i < length xs" "fst (xs ! i) = h" "rs1 ! i" "t < snd (xs ! i) + 3 * m" by blast
    then show ?case using rs by (intro disjI2 exI[of _ "Suc i"]) simp
  qed
qed

text \<open>A hash still remembered that was recorded at \<open>t\<close>, with \<open>k\<close> others recorded since.\<close>

definition kept_since :: "nat \<Rightarrow> hash_generations \<Rightarrow> address_hash \<Rightarrow> nat \<Rightarrow> nat \<Rightarrow> bool" where
  "kept_since m g h t k \<longleftrightarrow>
     (h \<in> set (hg_current g) \<and> hg_started g \<le> t \<and> t < hg_started g + m)
     \<or> (h \<in> set (hg_previous g) \<and> t \<le> hg_started g \<and> length (hg_current g) \<le> k)"

lemma kept_turn_over:
  assumes "kept_since m g h t k" "hg_started g \<le> now" "t \<le> now" "now < t + m" "now < u64_max" "k < hg_N g"
  shows "kept_since m (turn_over g now m) h t k" "h \<in> set (hg_current (turn_over g now m)) \<union> set (hg_previous (turn_over g now m))"
proof -
  have nc: "\<not> sat_mul u64_max m 2 \<le> now - hg_started g"
    using assms unfolding kept_since_def sat_mul_def by auto
  have "kept_since m (turn_over g now m) h t k"
  proof (cases "m \<le> now - hg_started g \<or> length (hg_current g) = hg_N g")
    case True
    then have "h \<in> set (hg_current g)" using assms unfolding kept_since_def by auto
    with True nc assms(3) show ?thesis by (simp add: turn_over_def kept_since_def)
  next
    case False
    with nc assms(1) show ?thesis by (simp add: turn_over_def)
  qed
  then show "kept_since m (turn_over g now m) h t k" "h \<in> set (hg_current (turn_over g now m)) \<union> set (hg_previous (turn_over g now m))"
    by (auto simp: kept_since_def)
qed

lemma turn_over_N [simp]: "hg_N (turn_over g now m) = hg_N g"
  by (simp add: turn_over_def Let_def)

lemma turn_over_started: "hg_started g \<le> now \<Longrightarrow> hg_started (turn_over g now m) \<le> now"
  by (simp add: turn_over_def Let_def)

lemma insert_N:
  assumes "generations_insert g x now m = (g', fresh)"
  shows "hg_N g' = hg_N g" "hg_started g \<le> now \<Longrightarrow> hg_started g' \<le> now"
  using assms by (auto simp: generations_insert_def Let_def turn_over_started split: if_splits)

lemma kept_insert:
  assumes k: "kept_since m g h t k" "hg_started g \<le> now" "t \<le> now" "now < t + m" "now < u64_max" "k < hg_N g"
    and i: "generations_insert g x now m = (g', fresh)"
  shows "kept_since m g' h t (if fresh then Suc k else k)" "x = h \<Longrightarrow> \<not> fresh"
proof -
  note K = kept_turn_over[OF k]
  from i K show "x = h \<Longrightarrow> \<not> fresh" by (auto simp: generations_insert_def Let_def split: if_splits)
  from i K show "kept_since m g' h t (if fresh then Suc k else k)"
    by (auto simp: generations_insert_def Let_def kept_since_def split: if_splits)
qed

lemma generations_kept:
  "kept_since m g h t k \<Longrightarrow> sorted (hg_started g # map snd (xs @ [(h, u)])) \<Longrightarrow> t \<le> snd (hd (xs @ [(h, u)])) \<Longrightarrow>
     u < t + m \<Longrightarrow> u < u64_max \<Longrightarrow> generations_run m g (xs @ [(h, u)]) = (g', rs @ [r]) \<Longrightarrow>
     k + length (filter id rs) < hg_N g \<Longrightarrow> \<not> r"
proof (induction xs arbitrary: g k rs)
  case Nil
  then show ?case using kept_insert(2)[of m g h t k u h] by (auto simp: Let_def split: prod.splits)
next
  case (Cons x xs)
  obtain y v where x: "x = (y, v)" by (cases x)
  obtain g1 fresh where i: "generations_insert g y v m = (g1, fresh)" by (cases "generations_insert g y v m")
  obtain g2 rs2 where r: "generations_run m g1 (xs @ [(h, u)]) = (g2, rs2)" by (cases "generations_run m g1 (xs @ [(h, u)])")
  have eq: "fresh # rs2 = rs @ [r]" "g2 = g'" using Cons.prems(6) x i r by (simp_all add: Let_def)
  have "length rs2 = Suc (length xs)" using generations_run_length[of m g1 "xs @ [(h, u)]"] r by simp
  with eq obtain rs1 where rs: "rs = fresh # rs1" "rs2 = rs1 @ [r]" by (cases rs) auto
  have v: "hg_started g \<le> v" "t \<le> v" "v \<le> u" "sorted (v # map snd (xs @ [(h, u)]))"
    using Cons.prems(2,3) x by auto
  note K = kept_insert(1)[OF Cons.prems(1) v(1,2) _ _ _ i] 
  have "kept_since m g1 h t (if fresh then Suc k else k)" using K Cons.prems v by linarith
  moreover have "sorted (hg_started g1 # map snd (xs @ [(h, u)]))" using insert_N(2)[OF i v(1)] v(4) by auto
  moreover have "t \<le> snd (hd (xs @ [(h, u)]))" using v by (cases xs) auto
  ultimately show ?case
    using Cons.IH[of g1 "if fresh then Suc k else k" rs1] Cons.prems(4,5,7) r rs eq insert_N(1)[OF i]
    by (cases fresh) simp_all
qed

section \<open>Properties\<close>

lemma generations_run_N: "hg_N (fst (generations_run m g xs)) = hg_N g"
  by (induction m g xs rule: generations_run.induct) (auto simp: Let_def insert_N(1) split: prod.splits)

lemma generations_run_started:
  "sorted (hg_started g # map snd xs @ [t]) \<Longrightarrow> hg_started (fst (generations_run m g xs)) \<le> t"
proof (induction m g xs rule: generations_run.induct)
  case (2 m g h u xs)
  obtain g1 fresh where i: "generations_insert g h u m = (g1, fresh)" by (cases "generations_insert g h u m")
  have "hg_started g1 \<le> u" using insert_N(2)[OF i] "2.prems" by simp
  then have "sorted (hg_started g1 # map snd xs @ [t])" using "2.prems" by auto
  with "2.IH"[OF i[symmetric] HOL.refl] i show ?case by (simp add: Let_def case_prod_unfold)
qed simp

lemma insert_bounded:
  "length (hg_current g) \<le> hg_N g \<Longrightarrow> length (hg_current (fst (generations_insert g h t m))) \<le> hg_N g"
  by (auto simp: generations_insert_def turn_over_def Let_def)

lemma generations_run_bounded:
  "length (hg_current g) \<le> hg_N g \<Longrightarrow> length (hg_current (fst (generations_run m g xs))) \<le> hg_N g"
proof (induction m g xs rule: generations_run.induct)
  case (2 m g h u xs)
  obtain g1 fresh where i: "generations_insert g h u m = (g1, fresh)" by (cases "generations_insert g h u m")
  have "length (hg_current g1) \<le> hg_N g1" using insert_bounded[OF "2.prems", of h u m] i insert_N(1)[OF i] by simp
  with "2.IH"[OF i[symmetric] HOL.refl] i insert_N(1)[OF i] show ?case by (simp add: Let_def case_prod_unfold)
qed simp

lemma generations_recorded:
  assumes "generations_insert g h t m = (g', True)" "hg_started g \<le> t" "0 < hg_N g" "0 < m"
    "length (hg_current g) \<le> hg_N g"
  shows "kept_since m g' h t 0"
proof -
  let ?g = "turn_over g t m"
  have "hg_started ?g \<le> t" "t < hg_started ?g + m" "length (hg_current ?g) < hg_N ?g"
    using assms by (auto simp: turn_over_def Let_def)
  with assms show ?thesis
    by (auto simp: generations_insert_def Let_def kept_since_def split: if_splits)
qed

text \<open>
  C27: a hash the filter recorded is turned away again at any later time within \<open>max_age\<close>, as long
  as fewer other hashes than a generation holds were recorded in between, in whichever generation
  it started and whenever the filter turned over.
\<close>

theorem generations_remember:
  assumes "sorted (map snd (pre @ (h, t) # mid @ [(h, u)]))" "u < t + max_age" "u < u64_max"
    and "generations_run max_age (generations_new n) (pre @ (h, t) # mid @ [(h, u)]) = (g, rs @ True # ms @ [r])"
    and "length rs = length pre" "length ms = length mid" "length (filter id ms) < n"
  shows "\<not> r"
proof -
  define g0 where "g0 = fst (generations_run max_age (generations_new n) pre)"
  obtain g1 fresh where i: "generations_insert g0 h t max_age = (g1, fresh)" by (cases "generations_insert g0 h t max_age")
  obtain g2 ss where r: "generations_run max_age g1 (mid @ [(h, u)]) = (g2, ss)" by (cases "generations_run max_age g1 (mid @ [(h, u)])")
  have "snd (generations_run max_age (generations_new n) pre) @ fresh # ss = rs @ True # ms @ [r]"
    using assms(4) i r unfolding generations_run_append[of max_age "generations_new n" pre]
    by (simp add: Let_def case_prod_unfold flip: g0_def)
  then have eq: "fresh" "ss = ms @ [r]"
    using assms(5) generations_run_length[of max_age "generations_new n" pre] by auto
  have N: "hg_N g0 = n" by (simp add: g0_def generations_run_N generations_new_def)
  have st: "hg_started g0 \<le> t"
    unfolding g0_def using assms(1) by (intro generations_run_started) (auto simp: sorted_append generations_new_def)
  have "length (hg_current g0) \<le> hg_N g0"
    unfolding g0_def generations_run_N by (rule generations_run_bounded) (simp add: generations_new_def)
  moreover have t: "t \<le> u" "t \<le> snd (hd (mid @ [(h, u)]))" using assms(1) by (cases mid; auto simp: sorted_append)+
  ultimately have k: "kept_since max_age g1 h t 0"
    using generations_recorded[of g0 h t max_age g1] i eq(1) st N assms(2,7) by simp
  have "sorted (hg_started g1 # map snd (mid @ [(h, u)]))"
    using insert_N(2)[OF i st] assms(1) by (auto simp: sorted_append)
  from generations_kept[OF k this t(2) assms(2,3), of g2 ms r] r eq(2) insert_N(1)[OF i] N assms(7)
  show ?thesis by simp
qed

definition sample_calls :: "(address_hash \<times> nat) list" where
  "sample_calls = [(AddressHash 1, 5), (AddressHash 2, 70), (AddressHash 3, 120)] @ [(AddressHash 2, 160)]"

theorem generations_remember_witness:
  "snd (generations_run 100 (generations_new 2) sample_calls) = [True, True, True, False]"
proof -
  obtain g where "generations_run 100 (generations_new 2) sample_calls = (g, [True] @ True # [True] @ [False])"
    by (simp add: sample_calls_def generations_new_def generations_insert_def turn_over_def sat_mul_def u64_max_def Let_def)
  moreover from this have "\<not> False"
    using generations_remember[of "[(AddressHash 1, 5)]" "AddressHash 2" 70 "[(AddressHash 3, 120)]" 160 100 2 g "[True]" "[True]" False]
    by (simp add: sample_calls_def u64_max_def)
  ultimately show ?thesis by simp
qed

text \<open>
  C23: the filter forgets: a hash it turns away was recorded less than three times \<open>max_age\<close>
  before, so no hash is remembered indefinitely however seldom the filter is used.
\<close>

theorem generations_forget:
  assumes "sorted (map snd (xs @ [(h, t)]))"
    and "generations_run max_age (generations_new n) (xs @ [(h, t)]) = (g, rs @ [False])"
  shows "\<exists>i < length xs. fst (xs ! i) = h \<and> rs ! i \<and> t < snd (xs ! i) + 3 * max_age"
  using assms generations_forget_from[of max_age "generations_new n" "\<lambda>_. None" xs h t g rs]
  by (simp add: recorded_since_def generations_new_def)

theorem generations_forget_witness:
  "\<exists>i < 3. fst (butlast sample_calls ! i) = AddressHash 2 \<and> [True, True, True] ! i \<and> 160 < snd (butlast sample_calls ! i) + 300"
proof -
  obtain g where "generations_run 100 (generations_new 2) sample_calls = (g, [True, True, True] @ [False])"
    by (simp add: sample_calls_def generations_new_def generations_insert_def turn_over_def sat_mul_def u64_max_def Let_def)
  moreover have "butlast sample_calls @ [(AddressHash 2, 160)] = sample_calls" "length (butlast sample_calls) = 3"
    "sorted (map snd sample_calls)" by (simp_all add: sample_calls_def)
  ultimately show ?thesis
    using generations_forget[of "butlast sample_calls" "AddressHash 2" 160 100 2 g "[True, True, True]"] by simp
qed

text \<open>
  C28: three times is no slack: a quiet filter turns over late, and a hash recorded at \<open>0\<close> is still
  turned away just before \<open>3 * max_age\<close>, later than the two generations it is meant to last.
\<close>

theorem generations_outlast:
  assumes "a \<noteq> b" "0 < max_age" "2 * max_age \<le> u64_max"
  shows "snd (generations_run max_age (generations_new (Suc (Suc n))) [(a, 0), (b, 2 * max_age - 1), (a, 3 * max_age - 2)])
    = [True, True, False]"
proof -
  have m: "sat_mul u64_max max_age 2 = 2 * max_age" using assms(3) by (simp add: sat_mul_def)
  let ?g = "\<lambda>c p t. \<lparr>hg_N = Suc (Suc n), hg_current = c, hg_previous = p, hg_started = t\<rparr>"
  have "generations_insert (?g [] [] 0) a 0 max_age = (?g [a] [] 0, True)"
    using assms(2) by (simp add: generations_insert_def turn_over_def m Let_def)
  moreover have "generations_insert (?g [a] [] 0) b (2 * max_age - 1) max_age = (?g [b] [a] (2 * max_age - 1), True)"
    using assms(1,2) by (auto simp: generations_insert_def turn_over_def m Let_def)
  moreover have "generations_insert (?g [b] [a] (2 * max_age - 1)) a (3 * max_age - 2) max_age = (?g [b] [a] (2 * max_age - 1), False)"
    using assms(2) by (auto simp: generations_insert_def turn_over_def m Let_def)
  ultimately show ?thesis by (simp add: generations_new_def)
qed

theorem generations_outlast_witness:
  "snd (generations_run 60000 (generations_new 32) [(AddressHash 1, 0), (AddressHash 2, 119999), (AddressHash 1, 179998)])
    = [True, True, False]"
  using generations_outlast[of "AddressHash 1" "AddressHash 2" 60000 30] by (simp add: u64_max_def)

end
