(* ===== verification/Identity.thy ===== *)
theory Identity
  imports Hashes
begin

text \<open>
  Identities, \<open>identity.rs\<close>. The two curves come from the \<open>x25519-dalek\<close> and \<open>ed25519-dalek\<close>
  crates and are a parameter, \<open>curves\<close>; what the code relies on them for is \<open>curve_laws\<close>. Keys,
  seeds and signatures are byte strings.
\<close>

definition KEY_LEN :: nat where "KEY_LEN = 32"
definition IDENTITY_LEN :: nat where "IDENTITY_LEN = KEY_LEN * 2"
definition SIGNATURE_LEN :: nat where "SIGNATURE_LEN = 64"

lemmas key_lens = KEY_LEN_def IDENTITY_LEN_def SIGNATURE_LEN_def

text \<open>The operations of the two curves.\<close>

record curves =
  x25519_public :: "bytes \<Rightarrow> bytes"
  x25519_dh :: "bytes \<Rightarrow> bytes \<Rightarrow> bytes"
  ed25519_public :: "bytes \<Rightarrow> bytes"
  ed25519_sign :: "bytes \<Rightarrow> bytes \<Rightarrow> bytes"
  ed25519_point :: "bytes \<Rightarrow> bool"
  ed25519_verify :: "bytes \<Rightarrow> bytes \<Rightarrow> bytes \<Rightarrow> bool"

definition curve_laws :: "curves \<Rightarrow> bool" where
  "curve_laws c \<longleftrightarrow> (\<forall>seed msg. length seed = KEY_LEN \<longrightarrow>
     length (x25519_public c seed) = KEY_LEN \<and> length (ed25519_public c seed) = KEY_LEN
     \<and> ed25519_point c (ed25519_public c seed) \<and> length (ed25519_sign c seed msg) = SIGNATURE_LEN
     \<and> ed25519_verify c (ed25519_public c seed) msg (ed25519_sign c seed msg))"

record identity =
  id_x25519 :: bytes
  id_ed25519 :: bytes
  id_hash :: address_hash

definition identity_new :: "sha256 \<Rightarrow> bytes \<Rightarrow> bytes \<Rightarrow> identity" where
  "identity_new sha x e = \<lparr>id_x25519 = x, id_ed25519 = e, id_hash = address_of sha (x @ e)\<rparr>"

definition identity_from_public_bytes :: "curves \<Rightarrow> sha256 \<Rightarrow> bytes \<Rightarrow> error + identity" where
  "identity_from_public_bytes c sha bs =
    (let x = take KEY_LEN bs; e = drop KEY_LEN bs in
     if ed25519_point c e then Inr (identity_new sha x e) else Inl BadKey)"

definition to_public_bytes :: "identity \<Rightarrow> bytes" where
  "to_public_bytes i = id_x25519 i @ id_ed25519 i"

definition identity_verify :: "curves \<Rightarrow> identity \<Rightarrow> bytes \<Rightarrow> bytes \<Rightarrow> bool" where
  "identity_verify c i message signature = ed25519_verify c (id_ed25519 i) message signature"

record private_identity =
  pi_x25519 :: bytes
  pi_ed25519 :: bytes
  pi_public :: identity

definition from_secret_bytes :: "curves \<Rightarrow> sha256 \<Rightarrow> bytes \<Rightarrow> private_identity" where
  "from_secret_bytes c sha bs =
    (let x = take KEY_LEN bs; e = drop KEY_LEN bs in
     \<lparr>pi_x25519 = x, pi_ed25519 = e,
      pi_public = identity_new sha (x25519_public c x) (ed25519_public c e)\<rparr>)"

definition to_secret_bytes :: "private_identity \<Rightarrow> bytes" where
  "to_secret_bytes p = pi_x25519 p @ pi_ed25519 p"

definition sign :: "curves \<Rightarrow> private_identity \<Rightarrow> bytes \<Rightarrow> bytes" where
  "sign c p message = ed25519_sign c (pi_ed25519 p) message"

definition diffie_hellman :: "curves \<Rightarrow> private_identity \<Rightarrow> bytes \<Rightarrow> bytes" where
  "diffie_hellman c p peer = x25519_dh c (pi_x25519 p) peer"

text \<open>An identity the constructors can build.\<close>

definition identity_ok :: "curves \<Rightarrow> sha256 \<Rightarrow> identity \<Rightarrow> bool" where
  "identity_ok c sha i \<longleftrightarrow> length (id_x25519 i) = KEY_LEN \<and> length (id_ed25519 i) = KEY_LEN
     \<and> ed25519_point c (id_ed25519 i) \<and> id_hash i = address_of sha (to_public_bytes i)"

lemma length_public: "identity_ok c sha i \<Longrightarrow> length (to_public_bytes i) = IDENTITY_LEN"
  by (simp add: identity_ok_def to_public_bytes_def key_lens)

lemma public_bytes_iff:
  assumes "length bs = IDENTITY_LEN"
  shows "identity_from_public_bytes c sha bs = Inr i \<longleftrightarrow> identity_ok c sha i \<and> to_public_bytes i = bs"
proof -
  have "take KEY_LEN bs @ drop KEY_LEN bs = bs" by simp
  with assms show ?thesis
    by (auto simp: identity_from_public_bytes_def identity_ok_def identity_new_def to_public_bytes_def key_lens
        Let_def intro: identity.equality)
qed

lemma private_ok:
  "curve_laws c \<Longrightarrow> length bs = IDENTITY_LEN \<Longrightarrow> identity_ok c sha (pi_public (from_secret_bytes c sha bs))"
  by (simp add: curve_laws_def from_secret_bytes_def identity_ok_def identity_new_def to_public_bytes_def
      key_lens Let_def)

lemma own_signature:
  "curve_laws c \<Longrightarrow> length bs = IDENTITY_LEN \<Longrightarrow> p = from_secret_bytes c sha bs \<Longrightarrow>
     identity_verify c (pi_public p) m (sign c p m) \<and> length (sign c p m) = SIGNATURE_LEN"
  by (simp add: curve_laws_def from_secret_bytes_def identity_new_def identity_verify_def sign_def key_lens Let_def)

text \<open>A curve pair that satisfies the laws, for the examples.\<close>

definition sample_curves :: curves where
  "sample_curves = \<lparr>x25519_public = (\<lambda>s. s), x25519_dh = (\<lambda>s p. take KEY_LEN (s @ p)), ed25519_public = (\<lambda>s. s),
     ed25519_sign = (\<lambda>s m. s @ s), ed25519_point = (\<lambda>e. True), ed25519_verify = (\<lambda>e m s. s = e @ e)\<rparr>"

lemma sample_curves_laws: "curve_laws sample_curves"
  by (simp add: curve_laws_def sample_curves_def key_lens)

end
