(* ===== verification/Announce.thy ===== *)
theory Announce
  imports Identity PathRequest Freshness Packets
begin

text \<open>
  Announces, \<open>announce.rs\<close> and \<open>announce/verified.rs\<close>: the signed layout, building and validating
  it, the unverified candidate freshness judges, and the cache of announces that verified.
\<close>

section \<open>Layout\<close>

definition RATCHET_LEN :: nat where "RATCHET_LEN = 32"

definition MIN_PAYLOAD_LEN :: nat where
  "MIN_PAYLOAD_LEN = IDENTITY_LEN + NAME_HASH_LEN + RAND_HASH_LEN + SIGNATURE_LEN"

lemmas announce_lens = RATCHET_LEN_def MIN_PAYLOAD_LEN_def RAND_HASH_LEN_def key_lens

record announce =
  an_identity :: identity
  an_destination :: address_hash
  an_name_hash :: name_hash
  an_rand_hash :: announce_blob
  an_ratchet :: "bytes option"
  an_app_data :: bytes

definition from_wire :: "bytes \<Rightarrow> announce_blob" where
  "from_wire bs = AnnounceBlob (of_be bs)"

definition signed_message ::
  "address_hash \<Rightarrow> bytes \<Rightarrow> name_hash \<Rightarrow> announce_blob \<Rightarrow> bytes option \<Rightarrow> bytes \<Rightarrow> bytes" where
  "signed_message destination identity_public name_hash rand_hash ratchet app_data =
     address_slice destination @ identity_public @ name_slice name_hash @ into_bytes rand_hash
       @ (case ratchet of Some r \<Rightarrow> r | None \<Rightarrow> []) @ app_data"

definition announce_decode_checked :: "curves \<Rightarrow> sha256 \<Rightarrow> packet \<Rightarrow> bool \<Rightarrow> error + announce" where
  "announce_decode_checked c sha packet verify =
    (if pk_packet_type packet \<noteq> Announce
        \<or> pk_destination_type packet = Plain \<or> pk_destination_type packet = Group
     then Inl NotAnAnnounce
     else
       let ratcheted = pk_context_flag packet;
           want = MIN_PAYLOAD_LEN + (if ratcheted then RATCHET_LEN else 0);
           p = pk_payload packet
       in if length p < want then Inl Truncated
       else
         let public = take IDENTITY_LEN p; off = IDENTITY_LEN
         in case name_from_slice (drop off p) of None \<Rightarrow> Inl Truncated | Some name_hash \<Rightarrow>
         let off = off + NAME_HASH_LEN; destination = pk_destination packet
         in if destination_hash sha name_hash (address_of sha public) \<noteq> destination then Inl DestinationMismatch
         else case identity_from_public_bytes c sha public of Inl e \<Rightarrow> Inl e | Inr identity \<Rightarrow>
         let rand_hash = from_wire (take RAND_HASH_LEN (drop off p)); off = off + RAND_HASH_LEN;
             ratchet = (if ratcheted then Some (take RATCHET_LEN (drop off p)) else None);
             off = (if ratcheted then off + RATCHET_LEN else off);
             signature = take SIGNATURE_LEN (drop off p); off = off + SIGNATURE_LEN;
             app_data = drop off p;
             message = signed_message destination public name_hash rand_hash ratchet app_data
         in if verify \<and> \<not> identity_verify c identity message signature then Inl BadSignature
         else Inr \<lparr>an_identity = identity, an_destination = destination, an_name_hash = name_hash,
           an_rand_hash = rand_hash, an_ratchet = ratchet, an_app_data = app_data\<rparr>)"

definition announce_decode :: "curves \<Rightarrow> sha256 \<Rightarrow> packet \<Rightarrow> error + announce" where
  "announce_decode c sha packet = announce_decode_checked c sha packet True"

definition ratchet_id :: "sha256 \<Rightarrow> announce \<Rightarrow> name_hash option" where
  "ratchet_id sha a = map_option (name_of sha) (an_ratchet a)"

definition announce_build ::
  "curves \<Rightarrow> sha256 \<Rightarrow> private_identity \<Rightarrow> name_hash \<Rightarrow> announce_blob \<Rightarrow> bytes option \<Rightarrow> bytes \<Rightarrow> packet" where
  "announce_build c sha identity name_hash blob ratchet app_data =
    (let public = to_public_bytes (pi_public identity);
         destination = destination_hash sha name_hash (id_hash (pi_public identity));
         message = signed_message destination public name_hash blob ratchet app_data;
         signature = sign c identity message
     in \<lparr>pk_ifac = False, pk_header_type = Type1, pk_context_flag = (ratchet \<noteq> None),
         pk_propagation = Broadcast, pk_destination_type = Single, pk_packet_type = Announce,
         pk_hops = 0, pk_transport = None, pk_destination = destination, pk_context = 0,
         pk_payload = public @ name_slice name_hash @ into_bytes blob
           @ (case ratchet of Some r \<Rightarrow> r | None \<Rightarrow> []) @ signature @ app_data\<rparr>)"

definition unverified_candidate :: "packet \<Rightarrow> freshness_candidate option" where
  "unverified_candidate packet =
    (let want = MIN_PAYLOAD_LEN + (if pk_context_flag packet then RATCHET_LEN else 0) in
     if pk_packet_type packet \<noteq> Announce \<or> length (pk_payload packet) < want then None
     else
       let at = IDENTITY_LEN + NAME_HASH_LEN;
           blob = take RAND_HASH_LEN (drop at (pk_payload packet))
       in Some \<lparr>cand_destination = pk_destination packet, cand_blob = from_wire blob\<rparr>)"

section \<open>The cache of verified announces\<close>

record verified_announces =
  va_N :: nat
  va_keys :: "(bytes \<times> bool) list"

definition verified_new :: "nat \<Rightarrow> verified_announces" where
  "verified_new n = \<lparr>va_N = n, va_keys = []\<rparr>"

definition verified_decode ::
  "curves \<Rightarrow> sha256 \<Rightarrow> verified_announces \<Rightarrow> packet \<Rightarrow> verified_announces \<times> (error + announce)" where
  "verified_decode c sha v packet =
    (let key = (packet_full_hash sha packet, pk_context_flag packet) in
     case position (\<lambda>k. k = key) (va_keys v) of
       Some index \<Rightarrow>
         (v\<lparr>va_keys := va_keys v ! index # remove_at index (va_keys v)\<rparr>, announce_decode_checked c sha packet False)
     | None \<Rightarrow>
         (case announce_decode c sha packet of
            Inl e \<Rightarrow> (v, Inl e)
          | Inr announce \<Rightarrow>
              let keys = (if length (va_keys v) = va_N v then butlast (va_keys v) else va_keys v)
              in (v\<lparr>va_keys := (if length keys < va_N v then key # keys else keys)\<rparr>, Inr announce)))"

section \<open>What decodes\<close>

definition announce_message :: "announce \<Rightarrow> bytes" where
  "announce_message a = signed_message (an_destination a) (to_public_bytes (an_identity a)) (an_name_hash a)
     (an_rand_hash a) (an_ratchet a) (an_app_data a)"

definition announce_layout :: "announce \<Rightarrow> bytes \<Rightarrow> bytes" where
  "announce_layout a signature = to_public_bytes (an_identity a) @ name_slice (an_name_hash a)
     @ into_bytes (an_rand_hash a) @ (case an_ratchet a of Some r \<Rightarrow> r | None \<Rightarrow> []) @ signature @ an_app_data a"

definition announce_ok :: "curves \<Rightarrow> sha256 \<Rightarrow> announce \<Rightarrow> bool" where
  "announce_ok c sha a \<longleftrightarrow> identity_ok c sha (an_identity a)
     \<and> (case an_ratchet a of Some r \<Rightarrow> length r = RATCHET_LEN | None \<Rightarrow> True)
     \<and> an_destination a = destination_hash sha (an_name_hash a) (id_hash (an_identity a))"

definition announces :: "packet \<Rightarrow> bool" where
  "announces p \<longleftrightarrow> pk_packet_type p = Announce \<and> pk_destination_type p \<noteq> Plain \<and> pk_destination_type p \<noteq> Group"

lemma length_name_slice [simp]: "length (name_slice n) = 10"
  by (simp add: name_slice_def)

lemma name_from_slice_Some:
  "name_from_slice s = Some h \<Longrightarrow> 10 \<le> length s \<and> name_slice h = take 10 s"
  using to_be_of_be[of "take 10 s", where 'a = 80]
  by (auto simp: name_from_slice_def slice_get_def name_slice_def split: if_splits)

lemma from_wire_bytes [simp]: "from_wire (into_bytes b) = b"
  by (cases b) (simp add: from_wire_def into_bytes_def of_be_to_be RAND_HASH_LEN_def)

lemma bytes_from_wire: "length bs = 10 \<Longrightarrow> into_bytes (from_wire bs) = bs"
  using to_be_of_be[of bs, where 'a = 80] by (simp add: from_wire_def into_bytes_def RAND_HASH_LEN_def)

lemma id_hash_ok: "identity_ok c sha i \<Longrightarrow> address_of sha (to_public_bytes i) = id_hash i"
  by (simp add: identity_ok_def)

lemma decode_layout:
  assumes "announces p" "announce_ok c sha a" "pk_destination p = an_destination a"
    "pk_context_flag p = (an_ratchet a \<noteq> None)" "length sg = SIGNATURE_LEN" "pk_payload p = announce_layout a sg"
    "v \<Longrightarrow> identity_verify c (an_identity a) (announce_message a) sg"
  shows "announce_decode_checked c sha p v = Inr a"
proof -
  have i: "identity_ok c sha (an_identity a)" and pub: "length (to_public_bytes (an_identity a)) = 64"
    using assms(2) length_public[of c sha "an_identity a"] by (simp_all add: announce_ok_def key_lens)
  have from_pub: "identity_from_public_bytes c sha (to_public_bytes (an_identity a)) = Inr (an_identity a)"
    using public_bytes_iff[of "to_public_bytes (an_identity a)" c sha "an_identity a"] i pub by (simp add: key_lens)
  have dest: "destination_hash sha (an_name_hash a) (address_of sha (to_public_bytes (an_identity a))) = pk_destination p"
    using assms(2,3) by (simp add: announce_ok_def id_hash_ok[OF i])
  have type: "\<not> (pk_packet_type p \<noteq> Announce \<or> pk_destination_type p = Plain \<or> pk_destination_type p = Group)"
    using assms(1) by (simp add: announces_def)
  show ?thesis
  proof (cases "an_ratchet a")
    case None
    with assms type dest from_pub pub show ?thesis
      by (simp add: announce_decode_checked_def announce_lens announce_layout_def announce_message_def Let_def)
  next
    case (Some r)
    with assms(2) have "length r = 32" by (simp add: announce_ok_def RATCHET_LEN_def)
    with Some assms type dest from_pub pub show ?thesis
      by (simp add: announce_decode_checked_def announce_lens announce_layout_def announce_message_def Let_def)
  qed
qed

lemma glue: "take n (drop k xs) @ drop (k + n) xs = drop k xs"
  by (metis append_take_drop_id drop_drop add.commute)

text \<open>The pieces of a payload, in wire order.\<close>

definition ratchet_span :: "packet \<Rightarrow> nat" where
  "ratchet_span p = (if pk_context_flag p then RATCHET_LEN else 0)"

lemma decode_pieces:
  assumes "announce_decode_checked c sha p v = Inr a"
  defines "pl \<equiv> pk_payload p" and "k \<equiv> ratchet_span p"
  shows "announces p" "148 + k \<le> length pl" "pk_destination p = an_destination a"
    "pk_context_flag p = (an_ratchet a \<noteq> None)"
    "identity_from_public_bytes c sha (take 64 pl) = Inr (an_identity a)"
    "name_from_slice (drop 64 pl) = Some (an_name_hash a)"
    "destination_hash sha (an_name_hash a) (address_of sha (take 64 pl)) = an_destination a"
    "an_rand_hash a = from_wire (take 10 (drop 74 pl))"
    "an_ratchet a = (if pk_context_flag p then Some (take 32 (drop 84 pl)) else None)"
    "an_app_data a = drop (148 + k) pl"
    "v \<Longrightarrow> identity_verify c (an_identity a) (signed_message (an_destination a) (take 64 pl) (an_name_hash a)
       (an_rand_hash a) (an_ratchet a) (an_app_data a)) (take 64 (drop (84 + k) pl))"
proof -
  note D = assms(1)[unfolded announce_decode_checked_def Let_def]
  from D show an: "announces p" by (auto simp: announces_def split: if_splits)
  from D have len: "MIN_PAYLOAD_LEN + (if pk_context_flag p then RATCHET_LEN else 0) \<le> length pl"
    by (auto simp: pl_def not_less split: if_splits)
  then show "148 + k \<le> length pl" by (simp add: announce_lens k_def ratchet_span_def split: if_splits)
  obtain n i where n: "name_from_slice (drop IDENTITY_LEN pl) = Some n"
    "destination_hash sha n (address_of sha (take IDENTITY_LEN pl)) = pk_destination p"
    "identity_from_public_bytes c sha (take IDENTITY_LEN pl) = Inr i"
    using D by (auto simp: pl_def split: if_splits option.splits sum.splits)
  have a: "a = \<lparr>an_identity = i, an_destination = pk_destination p, an_name_hash = n,
      an_rand_hash = from_wire (take 10 (drop 74 pl)),
      an_ratchet = (if pk_context_flag p then Some (take 32 (drop 84 pl)) else None),
      an_app_data = drop (148 + k) pl\<rparr>"
    and ver: "v \<Longrightarrow> identity_verify c i (signed_message (pk_destination p) (take 64 pl) n
      (from_wire (take 10 (drop 74 pl))) (if pk_context_flag p then Some (take 32 (drop 84 pl)) else None)
      (drop (148 + k) pl)) (take 64 (drop (84 + k) pl))"
    using D an n len
    by (auto simp: announces_def pl_def k_def ratchet_span_def announce_lens split: if_splits)
  from a show "pk_destination p = an_destination a" "pk_context_flag p = (an_ratchet a \<noteq> None)"
    "an_rand_hash a = from_wire (take 10 (drop 74 pl))"
    "an_ratchet a = (if pk_context_flag p then Some (take 32 (drop 84 pl)) else None)"
    "an_app_data a = drop (148 + k) pl" by simp_all
  from a n show "identity_from_public_bytes c sha (take 64 pl) = Inr (an_identity a)"
    "name_from_slice (drop 64 pl) = Some (an_name_hash a)"
    "destination_hash sha (an_name_hash a) (address_of sha (take 64 pl)) = an_destination a"
    by (simp_all add: key_lens)
  from a ver show "v \<Longrightarrow> identity_verify c (an_identity a) (signed_message (an_destination a) (take 64 pl) (an_name_hash a)
       (an_rand_hash a) (an_ratchet a) (an_app_data a)) (take 64 (drop (84 + k) pl))" by simp
qed

lemma decode_sound:
  assumes "announce_decode_checked c sha p v = Inr a"
  obtains sg where "announces p" "announce_ok c sha a" "pk_destination p = an_destination a"
    "pk_context_flag p = (an_ratchet a \<noteq> None)" "length sg = SIGNATURE_LEN" "pk_payload p = announce_layout a sg"
    "v \<Longrightarrow> identity_verify c (an_identity a) (announce_message a) sg"
proof -
  note P = decode_pieces[OF assms]
  let ?pl = "pk_payload p" and ?k = "ratchet_span p"
  have k: "?k = (if pk_context_flag p then 32 else 0)" by (simp add: ratchet_span_def RATCHET_LEN_def)
  have pub: "identity_ok c sha (an_identity a) \<and> to_public_bytes (an_identity a) = take 64 ?pl"
    using P(2,5) public_bytes_iff[of "take 64 ?pl" c sha "an_identity a"] by (simp add: key_lens)
  have name: "name_slice (an_name_hash a) = take 10 (drop 64 ?pl)" using name_from_slice_Some[OF P(6)] by simp
  have rand: "into_bytes (an_rand_hash a) = take 10 (drop 74 ?pl)" using P(2,8) by (simp add: bytes_from_wire)
  have rat: "(case an_ratchet a of Some r \<Rightarrow> r | None \<Rightarrow> []) = take ?k (drop 84 ?pl)" using P(9) k by simp
  have "announce_layout a (take 64 (drop (84 + ?k) ?pl)) = ?pl"
    using glue[of 64 0 ?pl] glue[of 10 64 ?pl] glue[of 10 74 ?pl] glue[of ?k 84 ?pl] glue[of 64 "84 + ?k" ?pl]
    by (simp add: announce_layout_def pub name rand rat P(10))
  moreover have "announce_ok c sha a"
    using pub P(2,7,9) k id_hash_ok[of c sha "an_identity a"] by (auto simp: announce_ok_def RATCHET_LEN_def)
  moreover have "length (take 64 (drop (84 + ?k) ?pl)) = SIGNATURE_LEN" using P(2) by (simp add: SIGNATURE_LEN_def)
  moreover have "v \<Longrightarrow> identity_verify c (an_identity a) (announce_message a) (take 64 (drop (84 + ?k) ?pl))"
    using P(11) by (simp add: announce_message_def pub)
  ultimately show thesis using that[of "take 64 (drop (84 + ?k) ?pl)"] P(1,3,4) by simp
qed

lemma decode_unverified:
  "announce_decode_checked c sha p True = Inr a \<Longrightarrow> announce_decode_checked c sha p False = Inr a"
  by (erule decode_sound, rule decode_layout) simp_all

section \<open>The cache\<close>

text \<open>What the packet hash covers.\<close>

definition hashed_content :: "packet \<Rightarrow> bytes" where
  "hashed_content p = (push_bit 2 (destination_type_to_bits (pk_destination_type p))
       OR packet_type_to_bits (pk_packet_type p))
     # address_slice (pk_destination p) @ [pk_context p] @ pk_payload p"

lemma full_hash_content: "packet_full_hash sha p = full_hash sha (hashed_content p)"
  by (simp add: packet_full_hash_masked hashed_content_def)

lemma content_fields:
  assumes "hashed_content p = hashed_content q"
  shows "pk_packet_type p = pk_packet_type q" "pk_destination_type p = pk_destination_type q"
    "pk_destination p = pk_destination q" "pk_payload p = pk_payload q"
proof -
  have b: "push_bit 2 (destination_type_to_bits (pk_destination_type p)) OR packet_type_to_bits (pk_packet_type p)
      = push_bit 2 (destination_type_to_bits (pk_destination_type q)) OR packet_type_to_bits (pk_packet_type q)"
    and r: "address_slice (pk_destination p) @ [pk_context p] @ pk_payload p
      = address_slice (pk_destination q) @ [pk_context q] @ pk_payload q"
    using assms unfolding hashed_content_def by blast+
  from b show "pk_packet_type p = pk_packet_type q" "pk_destination_type p = pk_destination_type q"
    by (cases "pk_packet_type p"; cases "pk_packet_type q"; cases "pk_destination_type p"; cases "pk_destination_type q";
        simp)+
  from r show "pk_destination p = pk_destination q" "pk_payload p = pk_payload q" by simp_all
qed

lemma full_hash_inject: "full_hash sha a = full_hash sha b \<longleftrightarrow> sha a = sha b"
proof
  assume "full_hash sha a = full_hash sha b"
  then have "(of_be (full_hash sha a) :: 256 word) = of_be (full_hash sha b)" by simp
  then show "sha a = sha b" by (simp add: full_hash_def of_be_to_be)
qed (simp add: full_hash_def)

lemma decode_content:
  "hashed_content p = hashed_content q \<Longrightarrow> pk_context_flag p = pk_context_flag q \<Longrightarrow>
     announce_decode_checked c sha p v = announce_decode_checked c sha q v"
proof -
  assume "hashed_content p = hashed_content q" and f: "pk_context_flag p = pk_context_flag q"
  note F = content_fields[OF this(1)]
  show ?thesis unfolding announce_decode_checked_def F f by (rule HOL.refl)
qed

fun verified_run ::
  "curves \<Rightarrow> sha256 \<Rightarrow> verified_announces \<Rightarrow> packet list \<Rightarrow> verified_announces \<times> (error + announce) list" where
  "verified_run c sha v [] = (v, [])"
| "verified_run c sha v (p # ps) =
     (let (v', r) = verified_decode c sha v p; (v'', rs) = verified_run c sha v' ps in (v'', r # rs))"

text \<open>Every key of the cache is that of a packet seen before that verified.\<close>

definition keys_verified :: "curves \<Rightarrow> sha256 \<Rightarrow> packet set \<Rightarrow> verified_announces \<Rightarrow> bool" where
  "keys_verified c sha seen v \<longleftrightarrow> (\<forall>k \<in> set (va_keys v). \<exists>q \<in> seen.
     k = (packet_full_hash sha q, pk_context_flag q) \<and> (\<exists>a. announce_decode c sha q = Inr a))"

lemma verified_decode_spec:
  assumes k: "keys_verified c sha S v" and inj: "inj_on sha (hashed_content ` insert p S)"
    and r: "verified_decode c sha v p = (v', out)"
  shows "out = announce_decode c sha p" "keys_verified c sha (insert p S) v'"
proof -
  let ?key = "(packet_full_hash sha p, pk_context_flag p)"
  have "out = announce_decode c sha p \<and> keys_verified c sha (insert p S) v'"
  proof (cases "position (\<lambda>k. k = ?key) (va_keys v)")
    case (Some i)
    note P = position_Some[OF Some]
    then have mem: "?key \<in> set (va_keys v)" by (metis nth_mem)
    then obtain q a where q: "q \<in> S" "?key = (packet_full_hash sha q, pk_context_flag q)" "announce_decode c sha q = Inr a"
      using k by (auto simp: keys_verified_def)
    then have "sha (hashed_content p) = sha (hashed_content q)" by (simp add: full_hash_content full_hash_inject)
    with inj q(1) have same: "hashed_content p = hashed_content q" by (auto dest: inj_onD)
    have "announce_decode_checked c sha q False = Inr a"
      using q(3) unfolding announce_decode_def by (rule decode_unverified)
    with same q have "announce_decode_checked c sha p False = announce_decode c sha p"
      by (simp add: announce_decode_def decode_content[of p q])
    moreover have "set (va_keys v') \<subseteq> set (va_keys v)"
      using r Some P mem set_remove_at[of i "va_keys v"] by (auto simp: verified_decode_def Let_def)
    ultimately show ?thesis using r Some k by (auto simp: verified_decode_def Let_def keys_verified_def)
  next
    case None
    have "set (va_keys v') \<subseteq> insert ?key (set (va_keys v)) \<and> (\<forall>e. out = Inl e \<longrightarrow> set (va_keys v') \<subseteq> set (va_keys v))"
      using r None by (auto simp: verified_decode_def Let_def dest: in_set_butlastD split: sum.splits if_splits)
    moreover have "out = announce_decode c sha p"
      using r None by (auto simp: verified_decode_def Let_def split: sum.splits)
    ultimately show ?thesis using k by (cases "announce_decode c sha p") (auto simp: keys_verified_def)
  qed
  then show "out = announce_decode c sha p" "keys_verified c sha (insert p S) v'" by simp_all
qed

lemma verified_run_spec:
  "keys_verified c sha S v \<Longrightarrow> inj_on sha (hashed_content ` (S \<union> set ps)) \<Longrightarrow>
     snd (verified_run c sha v ps) = map (announce_decode c sha) ps"
proof (induction ps arbitrary: v S)
  case (Cons p ps)
  obtain v' r where d: "verified_decode c sha v p = (v', r)" by (cases "verified_decode c sha v p")
  have "inj_on sha (hashed_content ` insert p S)" using Cons.prems(2) by (rule inj_on_subset) auto
  note V = verified_decode_spec[OF Cons.prems(1) this d]
  have "insert p S \<union> set ps = S \<union> set (p # ps)" by auto
  then have "snd (verified_run c sha v' ps) = map (announce_decode c sha) ps"
    using Cons.IH[OF V(2)] Cons.prems(2) by simp
  with d V(1) show ?case by (simp add: Let_def case_prod_unfold)
qed simp

lemma build_decodes:
  assumes "curve_laws c" "length secret = IDENTITY_LEN" "i = from_secret_bytes c sha secret"
    "\<And>r. ratchet = Some r \<Longrightarrow> length r = RATCHET_LEN"
  shows "announce_decode c sha ((announce_build c sha i n blob ratchet app)\<lparr>pk_hops := h, pk_header_type := ht,
      pk_transport := t, pk_propagation := pr, pk_context := cx, pk_ifac := fl\<rparr>)
    = Inr \<lparr>an_identity = pi_public i, an_destination = destination_hash sha n (id_hash (pi_public i)),
        an_name_hash = n, an_rand_hash = blob, an_ratchet = ratchet, an_app_data = app\<rparr>"
  unfolding announce_decode_def
proof (rule decode_layout)
  let ?a = "\<lparr>an_identity = pi_public i, an_destination = destination_hash sha n (id_hash (pi_public i)),
        an_name_hash = n, an_rand_hash = blob, an_ratchet = ratchet, an_app_data = app\<rparr>"
  note S = own_signature[OF assms(1-3)]
  show "announce_ok c sha ?a"
    using private_ok[OF assms(1,2), of sha] assms(3,4) by (auto simp: announce_ok_def split: option.split)
  show "length (sign c i (announce_message ?a)) = SIGNATURE_LEN"
    "identity_verify c (an_identity ?a) (announce_message ?a) (sign c i (announce_message ?a))" using S by simp_all
qed (simp_all add: announces_def announce_build_def announce_layout_def announce_message_def Let_def)

section \<open>Properties\<close>

text \<open>
  C32: validation accepts exactly the signed announces: a packet decodes to an announce when, and
  only when, its payload is that announce's layout around a signature its identity verifies over
  the announce's own message, its destination is the hash of that identity and name, and its flag
  says whether a ratchet is there.
\<close>

theorem announce_decode_iff:
  "announce_decode c sha p = Inr a \<longleftrightarrow> announces p \<and> announce_ok c sha a
     \<and> pk_destination p = an_destination a \<and> pk_context_flag p = (an_ratchet a \<noteq> None)
     \<and> (\<exists>sg. length sg = SIGNATURE_LEN \<and> pk_payload p = announce_layout a sg
          \<and> identity_verify c (an_identity a) (announce_message a) sg)"
proof
  assume "announce_decode c sha p = Inr a"
  then show "announces p \<and> announce_ok c sha a \<and> pk_destination p = an_destination a
     \<and> pk_context_flag p = (an_ratchet a \<noteq> None)
     \<and> (\<exists>sg. length sg = SIGNATURE_LEN \<and> pk_payload p = announce_layout a sg
          \<and> identity_verify c (an_identity a) (announce_message a) sg)"
    unfolding announce_decode_def by (rule decode_sound) blast
qed (auto simp: announce_decode_def intro: decode_layout)

text \<open>
  An announce built with a local identity validates everywhere: at any hop, however relays
  rewrote its hop count, header, transport, propagation or context, it decodes to the identity,
  name, blob, ratchet and application data it was built from.
\<close>

theorem announce_build_decode:
  assumes "curve_laws c" "length secret = IDENTITY_LEN" "i = from_secret_bytes c sha secret"
    "\<And>r. ratchet = Some r \<Longrightarrow> length r = RATCHET_LEN"
  shows "announce_decode c sha ((announce_build c sha i n blob ratchet app)\<lparr>pk_hops := h, pk_header_type := ht,
      pk_transport := t, pk_propagation := pr, pk_context := cx, pk_ifac := fl\<rparr>)
    = Inr \<lparr>an_identity = pi_public i, an_destination = destination_hash sha n (id_hash (pi_public i)),
        an_name_hash = n, an_rand_hash = blob, an_ratchet = ratchet, an_app_data = app\<rparr>"
  by (rule build_decodes[OF assms])

text \<open>
  The cache of verified announces changes nothing but the cost: as long as the packet hash
  does not collide on the packets seen, decoding through it gives each packet, fresh, copied or
  forged, what decoding it with its signature check gives.
\<close>

theorem verified_cache_transparent:
  assumes "inj_on sha (hashed_content ` set ps)"
  shows "snd (verified_run c sha (verified_new n) ps) = map (announce_decode c sha) ps"
  using verified_run_spec[of c sha "{}" "verified_new n" ps] assms by (simp add: keys_verified_def verified_new_def)

text \<open>
  The candidate freshness judges before the signature check carries the destination and the
  blob of the announce that check admits.
\<close>

theorem candidate_is_announced:
  assumes "announce_decode c sha p = Inr a"
  shows "unverified_candidate p = Some \<lparr>cand_destination = an_destination a, cand_blob = an_rand_hash a\<rparr>"
proof -
  note P = decode_pieces[OF assms[unfolded announce_decode_def]]
  have "\<not> length (pk_payload p) < MIN_PAYLOAD_LEN + ratchet_span p" using P(2) by (simp add: announce_lens)
  moreover have "unverified_candidate p = (if pk_packet_type p \<noteq> Announce \<or> length (pk_payload p) < MIN_PAYLOAD_LEN + ratchet_span p
      then None else Some \<lparr>cand_destination = pk_destination p, cand_blob = from_wire (take 10 (drop 74 (pk_payload p)))\<rparr>)"
    by (simp add: unverified_candidate_def ratchet_span_def Let_def RAND_HASH_LEN_def key_lens)
  moreover have "pk_packet_type p = Announce" using P(1) by (simp add: announces_def)
  ultimately show ?thesis using P(3,8) by simp
qed

section \<open>Examples\<close>

definition sample_sha :: sha256 where
  "sample_sha bs = of_nat (length bs)"

definition sample_secret :: bytes where
  "sample_secret = replicate 64 7"

definition sample_identity :: private_identity where
  "sample_identity = from_secret_bytes sample_curves sample_sha sample_secret"

definition sample_announce :: packet where
  "sample_announce = announce_build sample_curves sample_sha sample_identity (NameHash 3) (AnnounceBlob 9) None [1, 2]"

lemma sample_relayed: "sample_announce\<lparr>pk_hops := h\<rparr> =
  (announce_build sample_curves sample_sha sample_identity (NameHash 3) (AnnounceBlob 9) None [1, 2])\<lparr>pk_hops := h,
     pk_header_type := Type1, pk_transport := None, pk_propagation := Broadcast, pk_context := 0, pk_ifac := False\<rparr>"
  by (simp add: sample_announce_def announce_build_def Let_def)

lemma sample_announce_decodes:
  "announce_decode sample_curves sample_sha (sample_announce\<lparr>pk_hops := h\<rparr>)
     = Inr \<lparr>an_identity = pi_public sample_identity,
         an_destination = destination_hash sample_sha (NameHash 3) (id_hash (pi_public sample_identity)),
         an_name_hash = NameHash 3, an_rand_hash = AnnounceBlob 9, an_ratchet = None, an_app_data = [1, 2]\<rparr>"
  unfolding sample_relayed
  by (rule build_decodes[OF sample_curves_laws, where secret = sample_secret])
     (simp_all add: sample_secret_def sample_identity_def key_lens)

theorem announce_build_decode_witness:
  "announce_decode sample_curves sample_sha (sample_announce\<lparr>pk_hops := 3\<rparr>)
     = Inr \<lparr>an_identity = pi_public sample_identity,
         an_destination = destination_hash sample_sha (NameHash 3) (id_hash (pi_public sample_identity)),
         an_name_hash = NameHash 3, an_rand_hash = AnnounceBlob 9, an_ratchet = None, an_app_data = [1, 2]\<rparr>"
  unfolding sample_relayed
  by (rule announce_build_decode[OF sample_curves_laws, where secret = sample_secret])
     (simp_all add: sample_secret_def sample_identity_def key_lens)

theorem verified_cache_transparent_witness:
  "snd (verified_run sample_curves sample_sha (verified_new 2) [sample_announce, sample_announce\<lparr>pk_hops := 3\<rparr>])
     = map (announce_decode sample_curves sample_sha) [sample_announce, sample_announce\<lparr>pk_hops := 3\<rparr>]"
  by (rule verified_cache_transparent) (simp add: hashed_content_def)

theorem candidate_is_announced_witness:
  "unverified_candidate (sample_announce\<lparr>pk_hops := 3\<rparr>) = Some \<lparr>cand_destination =
     destination_hash sample_sha (NameHash 3) (id_hash (pi_public sample_identity)), cand_blob = AnnounceBlob 9\<rparr>"
proof -
  have "announce_decode sample_curves sample_sha (sample_announce\<lparr>pk_hops := 3\<rparr>)
     = Inr \<lparr>an_identity = pi_public sample_identity,
         an_destination = destination_hash sample_sha (NameHash 3) (id_hash (pi_public sample_identity)),
         an_name_hash = NameHash 3, an_rand_hash = AnnounceBlob 9, an_ratchet = None, an_app_data = [1, 2]\<rparr>"
    using sample_announce_decodes by simp
  from candidate_is_announced[OF this] show ?thesis by simp
qed

end
