(* ===== verification/AddressBook.thy ===== *)
theory AddressBook
  imports Announce SortedMap
begin

text \<open>
  The address book, \<open>address_book.rs\<close> and \<open>address_book/retention.rs\<close>: peers learned from validated
  announces in a \<open>BTreeMap\<close>, bounded, with eviction of the stalest unprotected peer and
  usage-based cleaning. Ticks and counters are naturals.
\<close>

section \<open>Peers\<close>

record peer =
  pe_identity :: identity
  pe_name_hash :: name_hash
  pe_app_data :: bytes
  pe_ratchet :: "bytes option"
  pe_ratchet_received :: nat
  pe_announces_seen :: nat
  pe_last_heard :: nat
  pe_last_used :: nat
  pe_retained :: bool

datatype ingested = Learned | Refreshed | Refused | KeyMismatch

record address_book =
  ab_peers :: "(address_hash \<times> peer) list"
  ab_max_peers :: nat
  ab_refused :: nat
  ab_evicted :: nat

definition DEFAULT_MAX_PEERS :: nat where "DEFAULT_MAX_PEERS = 4096"

definition with_max_peers :: "nat \<Rightarrow> address_book" where
  "with_max_peers n = \<lparr>ab_peers = [], ab_max_peers = n, ab_refused = 0, ab_evicted = 0\<rparr>"

definition book_full :: "address_book \<Rightarrow> bool" where
  "book_full b \<longleftrightarrow> ab_max_peers b \<le> length (ab_peers b)"

definition book_resolve :: "address_book \<Rightarrow> address_hash \<Rightarrow> peer option" where
  "book_resolve b d = map_of (ab_peers b) d"

definition key_conflicts :: "address_book \<Rightarrow> announce \<Rightarrow> bool" where
  "key_conflicts b a =
     (case map_of (ab_peers b) (an_destination a) of None \<Rightarrow> False | Some p \<Rightarrow> pe_identity p \<noteq> an_identity a)"

definition refreshed :: "announce \<Rightarrow> nat option \<Rightarrow> peer \<Rightarrow> peer" where
  "refreshed a now p =
    (let p = p\<lparr>pe_name_hash := an_name_hash a, pe_app_data := an_app_data a\<rparr>;
         p = (if an_ratchet a \<noteq> None \<and> an_ratchet a \<noteq> pe_ratchet p
              then p\<lparr>pe_ratchet := an_ratchet a, pe_ratchet_received := (case now of None \<Rightarrow> 0 | Some t \<Rightarrow> t)\<rparr> else p);
         p = p\<lparr>pe_announces_seen := pe_announces_seen p + 1\<rparr>
     in case now of None \<Rightarrow> p | Some t \<Rightarrow> p\<lparr>pe_last_heard := max (pe_last_heard p) t\<rparr>)"

definition new_peer :: "announce \<Rightarrow> nat option \<Rightarrow> peer" where
  "new_peer a now =
     \<lparr>pe_identity = an_identity a, pe_name_hash = an_name_hash a, pe_app_data = an_app_data a,
      pe_ratchet = an_ratchet a,
      pe_ratchet_received = (case (an_ratchet a, now) of (Some _, Some t) \<Rightarrow> t | _ \<Rightarrow> 0),
      pe_announces_seen = 1, pe_last_heard = (case now of None \<Rightarrow> 0 | Some t \<Rightarrow> t),
      pe_last_used = 0, pe_retained = False\<rparr>"

definition stalest :: "address_book \<Rightarrow> (address_hash \<Rightarrow> bool) \<Rightarrow> address_hash option" where
  "stalest b protected =
     map_option fst (min_by_key (\<lambda>(_, p). pe_last_heard p) (filter (\<lambda>(d, _). \<not> protected d) (ab_peers b)))"

definition admit_peer ::
  "address_book \<Rightarrow> announce \<Rightarrow> nat option \<Rightarrow> (address_hash \<Rightarrow> bool) \<Rightarrow> address_book \<times> ingested" where
  "admit_peer b a now protected =
    (if key_conflicts b a then (b, KeyMismatch)
     else case map_of (ab_peers b) (an_destination a) of
       Some p \<Rightarrow> (b\<lparr>ab_peers := bm_insert (an_destination a) (refreshed a now p) (ab_peers b)\<rparr>, Refreshed)
     | None \<Rightarrow>
         let insert = (\<lambda>b. (b\<lparr>ab_peers := bm_insert (an_destination a) (new_peer a now) (ab_peers b)\<rparr>, Learned))
         in if book_full b then
              (case stalest b protected of
                 Some d \<Rightarrow>
                   if 0 < ab_max_peers b
                   then insert (b\<lparr>ab_peers := bm_remove d (ab_peers b), ab_evicted := sat_add u64_max (ab_evicted b) 1\<rparr>)
                   else (b\<lparr>ab_refused := sat_add u64_max (ab_refused b) 1\<rparr>, Refused)
               | None \<Rightarrow> (b\<lparr>ab_refused := sat_add u64_max (ab_refused b) 1\<rparr>, Refused))
            else insert b)"

definition ingest :: "address_book \<Rightarrow> announce \<Rightarrow> address_book \<times> ingested" where
  "ingest b a = admit_peer b a None (\<lambda>_. True)"

definition ingest_at ::
  "address_book \<Rightarrow> announce \<Rightarrow> nat \<Rightarrow> (address_hash \<Rightarrow> bool) \<Rightarrow> address_book \<times> ingested" where
  "ingest_at b a now protected = admit_peer b a (Some now) protected"

definition forget :: "address_book \<Rightarrow> address_hash \<Rightarrow> address_book \<times> peer option" where
  "forget b d = (b\<lparr>ab_peers := bm_remove d (ab_peers b)\<rparr>, map_of (ab_peers b) d)"

definition mark_used :: "address_book \<Rightarrow> address_hash \<Rightarrow> nat \<Rightarrow> address_book \<times> bool" where
  "mark_used b d now =
    (case map_of (ab_peers b) d of
       None \<Rightarrow> (b, False)
     | Some p \<Rightarrow>
         let p' = (if pe_retained p then p else p\<lparr>pe_last_used := max (pe_last_used p) now\<rparr>)
         in (b\<lparr>ab_peers := bm_insert d p' (ab_peers b)\<rparr>, True))"

definition set_retained :: "address_book \<Rightarrow> address_hash \<Rightarrow> bool \<Rightarrow> nat \<Rightarrow> address_book \<times> bool" where
  "set_retained b d retained now =
    (case map_of (ab_peers b) d of
       None \<Rightarrow> (b, False)
     | Some p \<Rightarrow>
         let p' = (if pe_retained p \<and> \<not> retained then p\<lparr>pe_last_used := now\<rparr> else p)
         in (b\<lparr>ab_peers := bm_insert d (p'\<lparr>pe_retained := retained\<rparr>) (ab_peers b)\<rparr>, True))"

section \<open>Cleaning\<close>

definition DESTINATION_TIMEOUT_SECS :: nat where "DESTINATION_TIMEOUT_SECS = 7 * 24 * 60 * 60"
definition UNUSED_DESTINATION_LINGER_SECS :: nat where "UNUSED_DESTINATION_LINGER_SECS = 6 * 60"
definition RATCHET_EXPIRY_SECS :: nat where "RATCHET_EXPIRY_SECS = 30 * 24 * 60 * 60"

record retention =
  re_unused_linger :: nat
  re_unused_timeout :: nat
  re_ratchet_expiry :: nat

definition retention_rns :: "nat \<Rightarrow> retention" where
  "retention_rns ticks_per_second =
     \<lparr>re_unused_linger = sat_mul u64_max UNUSED_DESTINATION_LINGER_SECS ticks_per_second,
      re_unused_timeout = sat_mul u64_max (DESTINATION_TIMEOUT_SECS * 5 div 4) ticks_per_second,
      re_ratchet_expiry = sat_mul u64_max RATCHET_EXPIRY_SECS ticks_per_second\<rparr>"

definition peer_kept :: "nat \<Rightarrow> retention \<Rightarrow> (address_hash \<Rightarrow> bool) \<Rightarrow> address_hash \<Rightarrow> peer \<Rightarrow> bool" where
  "peer_kept now r in_use d p =
    (let idle = (if pe_last_used p = 0 then re_unused_linger r < now - pe_last_heard p
                 else re_unused_timeout r < now - pe_last_used p)
     in pe_retained p \<or> \<not> idle \<or> in_use d)"

definition ratchet_expired :: "nat \<Rightarrow> retention \<Rightarrow> peer \<Rightarrow> bool" where
  "ratchet_expired now r p \<longleftrightarrow> pe_ratchet p \<noteq> None \<and> re_ratchet_expiry r < now - pe_ratchet_received p"

definition clean :: "address_book \<Rightarrow> nat \<Rightarrow> retention \<Rightarrow> (address_hash \<Rightarrow> bool) \<Rightarrow> address_book \<times> (nat \<times> nat)" where
  "clean b now r in_use =
    (let kept = filter (\<lambda>(d, p). peer_kept now r in_use d p) (ab_peers b);
         peers = map (\<lambda>(d, p). (d, if ratchet_expired now r p then p\<lparr>pe_ratchet := None\<rparr> else p)) kept;
         expired = length (filter (\<lambda>(d, p). ratchet_expired now r p) kept)
     in (b\<lparr>ab_peers := peers\<rparr>, (length (ab_peers b) - length kept, expired)))"

section \<open>Invariant\<close>

definition book_inv :: "address_book \<Rightarrow> bool" where
  "book_inv b \<longleftrightarrow> bm_ok (ab_peers b) \<and> length (ab_peers b) \<le> ab_max_peers b"

text \<open>The peer to evict: unprotected, least recently heard, and of those the lowest destination.\<close>

definition is_stalest :: "address_book \<Rightarrow> (address_hash \<Rightarrow> bool) \<Rightarrow> address_hash \<Rightarrow> bool" where
  "is_stalest b protected d \<longleftrightarrow> \<not> protected d \<and> (\<exists>p. book_resolve b d = Some p
     \<and> (\<forall>d' p'. book_resolve b d' = Some p' \<longrightarrow> \<not> protected d' \<longrightarrow>
          pe_last_heard p < pe_last_heard p' \<or> (pe_last_heard p = pe_last_heard p' \<and> d \<le> d')))"

lemma min_by_key_sorted:
  fixes xs :: "('k::linorder \<times> 'v) list" and f :: "'v \<Rightarrow> 'a::linorder"
  shows "sorted_wrt (<) (map fst xs) \<Longrightarrow> min_by_key (\<lambda>(_, v). f v) xs = Some (k, v) \<Longrightarrow>
     (k, v) \<in> set xs \<and> (\<forall>(k', v') \<in> set xs. f v < f v' \<or> (f v = f v' \<and> k \<le> k'))"
proof (induction xs arbitrary: k v)
  case (Cons x xs)
  obtain k0 v0 where x: "x = (k0, v0)" by (cases x)
  show ?case
  proof (cases "min_by_key (\<lambda>(_, v). f v) xs")
    case None
    with Cons.prems x show ?thesis by auto
  next
    case (Some y)
    obtain k1 v1 where y: "y = (k1, v1)" by (cases y)
    have I: "(k1, v1) \<in> set xs" "\<forall>(k', v') \<in> set xs. f v1 < f v' \<or> (f v1 = f v' \<and> k1 \<le> k')"
      using Cons.IH[of k1 v1] Cons.prems(1) Some y by auto
    have "k0 < k1" using Cons.prems(1) I(1) x by force
    with Cons.prems(2) Some x y I show ?thesis by (fastforce split: if_splits)
  qed
qed simp

lemma resolve_mem: "bm_ok (ab_peers b) \<Longrightarrow> book_resolve b d = Some p \<longleftrightarrow> (d, p) \<in> set (ab_peers b)"
  unfolding book_resolve_def by (simp add: bm_ok_distinct)

lemma stalest_Some:
  assumes "bm_ok (ab_peers b)" "stalest b protected = Some d"
  shows "is_stalest b protected d"
proof -
  let ?xs = "filter (\<lambda>(d, _). \<not> protected d) (ab_peers b)"
  obtain p where m: "min_by_key (\<lambda>(_, p). pe_last_heard p) ?xs = Some (d, p)"
    using assms(2) by (auto simp: stalest_def)
  have "sorted_wrt (<) (map fst ?xs)"
    using assms(1) unfolding bm_ok_def sorted_wrt_map by (rule sorted_wrt_filter)
  from min_by_key_sorted[OF this m] show ?thesis
    unfolding is_stalest_def resolve_mem[OF assms(1)] by fastforce
qed

lemma stalest_None:
  assumes "bm_ok (ab_peers b)" "stalest b protected = None"
  shows "\<forall>d. book_resolve b d \<noteq> None \<longrightarrow> protected d"
proof -
  have "\<forall>(d, p) \<in> set (ab_peers b). protected d" using assms(2) by (auto simp: stalest_def filter_empty_conv)
  then show ?thesis using resolve_mem[OF assms(1)] by fastforce
qed

section \<open>What ingesting does\<close>

text \<open>The book as a map: the effect of admitting an announce on it, and the answer.\<close>

definition admit_effect ::
  "address_book \<Rightarrow> announce \<Rightarrow> nat option \<Rightarrow> (address_hash \<Rightarrow> bool) \<Rightarrow> address_book \<Rightarrow> ingested \<Rightarrow> bool" where
  "admit_effect b a now protected b' answer \<longleftrightarrow>
    (case answer of
       KeyMismatch \<Rightarrow> b' = b \<and> key_conflicts b a
     | Refreshed \<Rightarrow> (\<exists>p. book_resolve b (an_destination a) = Some p \<and> pe_identity p = an_identity a
         \<and> book_resolve b' = (book_resolve b)(an_destination a \<mapsto> refreshed a now p))
     | Learned \<Rightarrow> book_resolve b (an_destination a) = None \<and>
         (if book_full b then (\<exists>d. is_stalest b protected d
            \<and> book_resolve b' = ((book_resolve b)(d := None))(an_destination a \<mapsto> new_peer a now))
          else book_resolve b' = (book_resolve b)(an_destination a \<mapsto> new_peer a now))
     | Refused \<Rightarrow> book_resolve b' = book_resolve b \<and> book_resolve b (an_destination a) = None \<and> book_full b
         \<and> (ab_max_peers b = 0 \<or> (\<forall>d. book_resolve b d \<noteq> None \<longrightarrow> protected d)))"

lemma admit_spec:
  assumes b: "book_inv b" and r: "admit_peer b a now protected = (b', answer)"
  shows "book_inv b' \<and> ab_max_peers b' = ab_max_peers b \<and> admit_effect b a now protected b' answer"
proof (cases "key_conflicts b a")
  case True
  with b r show ?thesis by (auto simp: admit_peer_def admit_effect_def)
next
  case nc: False
  have ok: "bm_ok (ab_peers b)" "length (ab_peers b) \<le> ab_max_peers b" using b by (simp_all add: book_inv_def)
  show ?thesis
  proof (cases "map_of (ab_peers b) (an_destination a)")
    case (Some p)
    then have "b' = b\<lparr>ab_peers := bm_insert (an_destination a) (refreshed a now p) (ab_peers b)\<rparr>" "answer = Refreshed"
      using r nc by (auto simp: admit_peer_def)
    moreover have "pe_identity p = an_identity a" using nc Some by (simp add: key_conflicts_def)
    ultimately show ?thesis using ok Some
      by (auto simp: book_inv_def admit_effect_def book_resolve_def bm_simps fun_eq_iff)
  next
    case None
    show ?thesis
    proof (cases "book_full b")
      case False
      then have "b' = b\<lparr>ab_peers := bm_insert (an_destination a) (new_peer a now) (ab_peers b)\<rparr>" "answer = Learned"
        using r nc None by (auto simp: admit_peer_def Let_def)
      then show ?thesis using ok None False
        by (auto simp: book_inv_def admit_effect_def book_resolve_def bm_simps fun_eq_iff book_full_def)
    next
      case full: True
      show ?thesis
      proof (cases "\<exists>d. stalest b protected = Some d \<and> 0 < ab_max_peers b")
        case True
        then obtain d where d: "stalest b protected = Some d" "0 < ab_max_peers b" by blast
        then have b': "b' = b\<lparr>ab_peers := bm_insert (an_destination a) (new_peer a now) (bm_remove d (ab_peers b)),
            ab_evicted := sat_add u64_max (ab_evicted b) 1\<rparr>" "answer = Learned"
          using r nc None full by (auto simp: admit_peer_def Let_def)
        note st = stalest_Some[OF ok(1) d(1)]
        then have "map_of (ab_peers b) d \<noteq> None" by (auto simp: is_stalest_def book_resolve_def)
        with b' st ok d(2) None full show ?thesis
          by (auto simp: book_inv_def admit_effect_def book_resolve_def bm_simps fun_eq_iff)
      next
        case False
        then have "b' = b\<lparr>ab_refused := sat_add u64_max (ab_refused b) 1\<rparr>" "answer = Refused"
          using r nc None full by (auto simp: admit_peer_def Let_def split: option.splits)
        moreover have "ab_max_peers b = 0 \<or> (\<forall>d. book_resolve b d \<noteq> None \<longrightarrow> protected d)"
          using False stalest_None[OF ok(1), of protected] by (cases "stalest b protected") auto
        ultimately show ?thesis using ok None full
          by (auto simp: book_inv_def admit_effect_def book_resolve_def)
      qed
    qed
  qed
qed

section \<open>Runs of the book\<close>

datatype book_op =
    Ingest announce
  | Ingest_at announce nat "address_hash \<Rightarrow> bool"
  | Forget_peer address_hash
  | Mark_used address_hash nat
  | Set_retained address_hash bool nat
  | Clean nat retention "address_hash \<Rightarrow> bool"

fun book_step :: "address_book \<Rightarrow> book_op \<Rightarrow> address_book" where
  "book_step b (Ingest a) = fst (ingest b a)"
| "book_step b (Ingest_at a now protected) = fst (ingest_at b a now protected)"
| "book_step b (Forget_peer d) = fst (forget b d)"
| "book_step b (Mark_used d now) = fst (mark_used b d now)"
| "book_step b (Set_retained d retained now) = fst (set_retained b d retained now)"
| "book_step b (Clean now r in_use) = fst (clean b now r in_use)"

definition same_key :: "peer option \<Rightarrow> peer option \<Rightarrow> bool" where
  "same_key p p' \<longleftrightarrow> (case (p, p') of (Some p, Some p') \<Rightarrow> pe_identity p' = pe_identity p | _ \<Rightarrow> True)"

lemma refreshed_identity [simp]: "pe_identity (refreshed a now p) = pe_identity p"
  by (simp add: refreshed_def Let_def split: option.split)

lemma effect_same_key: "admit_effect b a now protected b' answer \<Longrightarrow> same_key (book_resolve b d) (book_resolve b' d)"
  by (auto simp: admit_effect_def same_key_def split: ingested.splits if_splits option.split)

lemma map_of_retain:
  "distinct (map fst xs) \<Longrightarrow> map_of (filter P xs) d
     = (case map_of xs d of Some p \<Rightarrow> if P (d, p) then Some p else None | None \<Rightarrow> None)"
proof (induction xs)
  case (Cons x xs)
  obtain k v where x: "x = (k, v)" by (cases x)
  have "map_of xs k = None" "map_of (filter P xs) k = None"
    using Cons.prems x by (auto simp: map_of_eq_None_iff)
  with Cons x show ?case by simp
qed simp

lemma retain_resolve:
  assumes ok: "bm_ok (ab_peers b)"
  shows "bm_ok (filter P (ab_peers b))"
    "map_of (filter P (ab_peers b)) d = (case map_of (ab_peers b) d of
       Some p \<Rightarrow> if P (d, p) then Some p else None | None \<Rightarrow> None)"
  using ok bm_ok_distinct[OF ok] by (simp_all add: map_of_retain bm_ok_def sorted_wrt_map sorted_wrt_filter)

lemma clean_resolve:
  assumes "bm_ok (ab_peers b)"
  shows "bm_ok (ab_peers (fst (clean b now r in_use)))"
    "book_resolve (fst (clean b now r in_use)) d = (case book_resolve b d of None \<Rightarrow> None
       | Some p \<Rightarrow> if peer_kept now r in_use d p
           then Some (if ratchet_expired now r p then p\<lparr>pe_ratchet := None\<rparr> else p) else None)"
proof -
  let ?P = "\<lambda>(d, p). peer_kept now r in_use d p"
  note F = retain_resolve[OF assms, of ?P]
  have m: "ab_peers (fst (clean b now r in_use))
      = map (\<lambda>(k, v). (k, (\<lambda>k p. if ratchet_expired now r p then p\<lparr>pe_ratchet := None\<rparr> else p) k v)) (filter ?P (ab_peers b))"
    by (simp add: clean_def Let_def)
  show "bm_ok (ab_peers (fst (clean b now r in_use)))" using F(1) unfolding m bm_ok_map_values .
  show "book_resolve (fst (clean b now r in_use)) d = (case book_resolve b d of None \<Rightarrow> None
       | Some p \<Rightarrow> if peer_kept now r in_use d p
           then Some (if ratchet_expired now r p then p\<lparr>pe_ratchet := None\<rparr> else p) else None)"
    using F unfolding book_resolve_def m map_of_map_values by (simp split: option.split)
qed

lemma clean_bounds: "length (ab_peers (fst (clean b now r in_use))) \<le> length (ab_peers b)"
  "ab_max_peers (fst (clean b now r in_use)) = ab_max_peers b"
  by (simp_all add: clean_def Let_def)

lemma book_step_spec:
  assumes b: "book_inv b"
  shows "book_inv (book_step b s) \<and> ab_max_peers (book_step b s) = ab_max_peers b
    \<and> same_key (book_resolve b d) (book_resolve (book_step b s) d)"
proof (cases s)
  case (Ingest a)
  obtain b' r where "admit_peer b a None (\<lambda>_. True) = (b', r)" by fastforce
  with admit_spec[OF b this] effect_same_key Ingest show ?thesis by (auto simp: ingest_def)
next
  case (Ingest_at a now protected)
  obtain b' r where "admit_peer b a (Some now) protected = (b', r)" by fastforce
  with admit_spec[OF b this] effect_same_key Ingest_at show ?thesis by (auto simp: ingest_at_def)
next
  case (Forget_peer k)
  with b show ?thesis by (auto simp: forget_def book_inv_def same_key_def book_resolve_def bm_simps split: option.split)
next
  case (Mark_used k now)
  with b show ?thesis
    by (auto simp: mark_used_def book_inv_def same_key_def book_resolve_def bm_simps Let_def split: option.split)
next
  case (Set_retained k x now)
  with b show ?thesis
    by (auto simp: set_retained_def book_inv_def same_key_def book_resolve_def bm_simps Let_def split: option.split)
next
  case (Clean now r in_use)
  have ok: "bm_ok (ab_peers b)" using b by (simp add: book_inv_def)
  from clean_resolve(1)[OF ok] clean_resolve(2)[OF ok, of now r in_use d] clean_bounds[of b now r in_use] b Clean
  show ?thesis by (auto simp: book_inv_def same_key_def split: option.split)
qed

interpretation book: guarded_ops book_step book_inv
  by unfold_locales (simp add: book_step_spec)

text \<open>A destination the book holds at every state of a run.\<close>

fun held_throughout :: "address_hash \<Rightarrow> address_book \<Rightarrow> book_op list \<Rightarrow> bool" where
  "held_throughout d b [] = (book_resolve b d \<noteq> None)"
| "held_throughout d b (s # ss) = (book_resolve b d \<noteq> None \<and> held_throughout d (book_step b s) ss)"

lemma key_pinned:
  "book_inv b \<Longrightarrow> held_throughout d b ss \<Longrightarrow>
     map_option pe_identity (book_resolve (foldl book_step b ss) d) = map_option pe_identity (book_resolve b d)"
proof (induction ss arbitrary: b)
  case (Cons s ss)
  note S = book_step_spec[OF Cons.prems(1), of s d]
  have h: "held_throughout d (book_step b s) ss" using Cons.prems(2) by simp
  then have "book_resolve (book_step b s) d \<noteq> None" by (cases ss) simp_all
  with S Cons.prems(2) have "map_option pe_identity (book_resolve (book_step b s) d) = map_option pe_identity (book_resolve b d)"
    by (auto simp: same_key_def)
  with Cons.IH[OF _ h] S show ?case by simp
qed simp

section \<open>Properties\<close>

text \<open>
  Admitting an announce does to the book exactly what its answer says: a conflicting key
  changes nothing, a known destination is refreshed under its own key, an unknown one is added,
  in a full book in place of the unprotected peer heard least recently (the lowest destination of
  several), and it is refused only when every peer is protected or the book holds none.
\<close>

theorem ingest_at_spec:
  assumes "book_inv b"
  shows "admit_effect b a (Some now) protected (fst (ingest_at b a now protected)) (snd (ingest_at b a now protected))"
  using admit_spec[OF assms, of a "Some now" protected "fst (ingest_at b a now protected)" "snd (ingest_at b a now protected)"]
  by (simp add: ingest_at_def)

text \<open>
  C31: the book never holds more than its bound, and pins keys: as long as a destination stays in
  the book, through any ingests, uses, retentions and cleanings, it keeps the identity it was
  first learned with.
\<close>

theorem book_keys_pinned:
  assumes "held_throughout d (foldl book_step (with_max_peers n) before) after"
  shows "length (ab_peers (foldl book_step (with_max_peers n) (before @ after))) \<le> n
    \<and> map_option pe_identity (book_resolve (foldl book_step (with_max_peers n) (before @ after)) d)
      = map_option pe_identity (book_resolve (foldl book_step (with_max_peers n) before) d)"
proof -
  have "book_inv (with_max_peers n)" by (simp add: book_inv_def with_max_peers_def bm_simps)
  then have i: "book_inv (foldl book_step (with_max_peers n) ss)" for ss by (rule book.run_inv)
  have "ab_max_peers (foldl book_step b ss) = ab_max_peers b" if "book_inv b" for b ss
    using that by (induction ss arbitrary: b) (simp_all add: book_step_spec)
  with \<open>book_inv (with_max_peers n)\<close> have "ab_max_peers (foldl book_step (with_max_peers n) ss) = n" for ss
    by (simp add: with_max_peers_def)
  from this[of "before @ after"] i[of "before @ after"] key_pinned[OF i assms] show ?thesis by (simp add: book_inv_def)
qed

definition sample_heard :: "8 word \<Rightarrow> announce" where
  "sample_heard n = \<lparr>an_identity = identity_new sample_sha (replicate 32 n) (replicate 32 n), an_destination = AddressHash (ucast n),
     an_name_hash = NameHash 3, an_rand_hash = AnnounceBlob 9, an_ratchet = None, an_app_data = [1, 2]\<rparr>"

lemmas book_eval = with_max_peers_def ingest_at_def admit_peer_def key_conflicts_def book_resolve_def new_peer_def
  sample_heard_def identity_new_def refreshed_def mark_used_def stalest_def book_full_def bm_remove_def

theorem ingest_at_spec_witness:
  "snd (ingest_at (fst (ingest_at (with_max_peers 1) (sample_heard 1) 5 (\<lambda>_. False))) (sample_heard 2) 9 (\<lambda>_. False)) = Learned
    \<and> admit_effect (fst (ingest_at (with_max_peers 1) (sample_heard 1) 5 (\<lambda>_. False))) (sample_heard 2) (Some 9) (\<lambda>_. False)
        (fst (ingest_at (fst (ingest_at (with_max_peers 1) (sample_heard 1) 5 (\<lambda>_. False))) (sample_heard 2) 9 (\<lambda>_. False))) Learned"
proof -
  let ?b = "fst (ingest_at (with_max_peers 1) (sample_heard 1) 5 (\<lambda>_. False))"
  have "book_inv ?b" by (simp add: book_eval book_inv_def bm_simps bm_ok_def Let_def)
  moreover have "snd (ingest_at ?b (sample_heard 2) 9 (\<lambda>_. False)) = Learned"
    by (simp add: book_eval Let_def)
  ultimately show ?thesis using ingest_at_spec[of ?b "sample_heard 2" 9 "\<lambda>_. False"] by simp
qed

theorem book_keys_pinned_witness:
  "map_option pe_identity (book_resolve (foldl book_step (with_max_peers 4)
     ([Ingest_at (sample_heard 1) 5 (\<lambda>_. True)] @ [Mark_used (AddressHash 1) 6, Ingest_at (sample_heard 2) 7 (\<lambda>_. True)])) (AddressHash 1))
   = Some (an_identity (sample_heard 1))"
proof -
  have "held_throughout (AddressHash 1) (foldl book_step (with_max_peers 4) [Ingest_at (sample_heard 1) 5 (\<lambda>_. True)])
      [Mark_used (AddressHash 1) 6, Ingest_at (sample_heard 2) 7 (\<lambda>_. True)]"
    by (simp add: book_eval Let_def)
  from book_keys_pinned[OF this] show ?thesis by (simp add: book_eval Let_def)
qed

end
