(* ===== verification/NodeRoutes.thy ===== *)
theory NodeRoutes
  imports NodeTables AnnounceCap AddressBook Dedup
begin

text \<open>
  The transport state of the executor-neutral node (\<open>node.rs\<close>, \<open>node/report.rs\<close>, \<open>node/action.rs\<close>,
  \<open>node/params.rs\<close>) and its route and interface tables, \<open>node/routes.rs\<close>. A bounded vector is a list
  its owner checks the length of; the const parameters \<open>ROUTES\<close> and \<open>ACTIONS\<close> are fields.
\<close>

section \<open>Configuration and counters\<close>

definition FIRST_HOP_AIRTIME_INTERFACES :: nat where "FIRST_HOP_AIRTIME_INTERFACES = 4"
definition INTERFACE_MODE_INTERFACES :: nat where "INTERFACE_MODE_INTERFACES = 4"
definition DEFAULT_ROUTE_TTL :: nat where "DEFAULT_ROUTE_TTL = 604800000"
definition LINK_TRANSPORT_TIMEOUT :: nat where "LINK_TRANSPORT_TIMEOUT = 3600000"
definition REVERSE_TIMEOUT :: nat where "REVERSE_TIMEOUT = 480000"
definition TRANSPORT_DEDUP_HASHES :: nat where "TRANSPORT_DEDUP_HASHES = 32"
definition REBROADCAST_SLOTS :: nat where "REBROADCAST_SLOTS = 8"
definition DEFAULT_TRANSPORT_MAX_HOPS :: u8 where "DEFAULT_TRANSPORT_MAX_HOPS = MAX_HOPS"

record transport_config =
  tc_relay_announces :: bool
  tc_relay_packets :: bool
  tc_max_hops :: u8
  tc_route_ttl :: nat
  tc_bridge_ttl :: nat

definition config_none :: transport_config where
  "config_none = \<lparr>tc_relay_announces = False, tc_relay_packets = False, tc_max_hops = 0,
     tc_route_ttl = DEFAULT_ROUTE_TTL, tc_bridge_ttl = LINK_TRANSPORT_TIMEOUT\<rparr>"

definition config_transit :: transport_config where
  "config_transit = \<lparr>tc_relay_announces = True, tc_relay_packets = True,
     tc_max_hops = DEFAULT_TRANSPORT_MAX_HOPS, tc_route_ttl = DEFAULT_ROUTE_TTL,
     tc_bridge_ttl = LINK_TRANSPORT_TIMEOUT\<rparr>"

record transport_counters =
  n_forwarded_announces :: nat
  n_suppressed_rebroadcasts :: nat
  n_refused_rebroadcasts :: nat
  n_capped_announces :: nat
  n_dropped_announces :: nat
  n_forwarded_packets :: nat
  n_expired_routes :: nat
  n_evicted_routes :: nat
  n_expired_bridges :: nat
  n_evicted_bridges :: nat
  n_refused_bridges :: nat
  n_undecodable_link_requests :: nat
  n_unvalidated_link_packets :: nat
  n_hop_limit_dropped :: nat
  n_unroutable_packets :: nat
  n_filtered_packets :: nat
  n_replayed_announces :: nat
  n_stale_announces :: nat
  n_evicted_freshness_rows :: nat
  n_evicted_freshness_blobs :: nat
  n_own_echo_dropped :: nat
  n_duplicate_dropped :: nat
  n_key_mismatch_announces :: nat

definition counters_default :: transport_counters where
  "counters_default = \<lparr>n_forwarded_announces = 0, n_suppressed_rebroadcasts = 0, n_refused_rebroadcasts = 0,
     n_capped_announces = 0, n_dropped_announces = 0, n_forwarded_packets = 0, n_expired_routes = 0,
     n_evicted_routes = 0, n_expired_bridges = 0, n_evicted_bridges = 0, n_refused_bridges = 0,
     n_undecodable_link_requests = 0, n_unvalidated_link_packets = 0, n_hop_limit_dropped = 0,
     n_unroutable_packets = 0, n_filtered_packets = 0, n_replayed_announces = 0, n_stale_announces = 0,
     n_evicted_freshness_rows = 0, n_evicted_freshness_blobs = 0, n_own_echo_dropped = 0,
     n_duplicate_dropped = 0, n_key_mismatch_announces = 0\<rparr>"

text \<open>\<open>saturating_add(1)\<close> on a \<open>u16\<close> counter.\<close>

abbreviation inc :: "nat \<Rightarrow> nat" where
  "inc n \<equiv> sat_add u16_max n 1"

section \<open>Actions\<close>

datatype action =
    ActSend interface_id packet
  | ActLearned address_hash
  | ActLinkUp address_hash
  | ActLinkDown address_hash
  | ActLinkRequestTimedOut address_hash
  | ActData address_hash bytes
  | ActResource address_hash bytes "bytes option"

record actions =
  as_N :: nat
  as_items :: "action list"
  as_overflowed :: nat

definition actions_new :: "nat \<Rightarrow> actions" where
  "actions_new n = \<lparr>as_N = n, as_items = [], as_overflowed = 0\<rparr>"

definition push_action :: "actions \<Rightarrow> action \<Rightarrow> actions \<times> bool" where
  "push_action acts a =
    (if length (as_items acts) < as_N acts then (acts\<lparr>as_items := as_items acts @ [a]\<rparr>, True)
     else (acts\<lparr>as_overflowed := inc (as_overflowed acts)\<rparr>, False))"

section \<open>The node\<close>

record payload_limits =
  pl_max_ingress_bytes :: nat
  pl_max_app_data :: nat
  pl_max_link_payload :: nat
  pl_max_outbound_resource :: nat
  pl_max_resource_parts :: nat

record freshness_policy =
  fp_max_destinations :: nat
  fp_max_blobs_per_destination :: nat

text \<open>
  The fields of \<open>Node\<close> but for its own sessions (links, pending links, resource transfers and their
  counters). \<open>nd_destination\<close> is the value of \<open>destination()\<close>, which hashes two fields that never
  change; the const parameter \<open>ROUTES\<close> is \<open>nd_ROUTES\<close>.
\<close>

record node =
  nd_private :: private_identity
  nd_name_hash :: name_hash
  nd_destination :: address_hash
  nd_book :: address_book
  nd_app_data :: bytes
  nd_limits :: payload_limits
  nd_freshness_policy :: freshness_policy
  nd_path_request_tags :: hash_generations
  nd_last_announce :: "nat option"
  nd_announce_interval :: nat
  nd_announced_blob :: "announce_blob option"
  nd_logical_mtu :: u32
  nd_refused_payloads :: nat
  nd_refused_peers :: nat
  nd_transport :: transport_config
  nd_ROUTES :: nat
  nd_routes :: "route list"
  nd_freshness :: freshness
  nd_bridges :: "link_bridge list"
  nd_reverse :: "reverse_entry list"
  nd_rebroadcasts :: rebroadcasts
  nd_announce_caps :: "(interface_id \<times> announce_cap) list"
  nd_transit_filter :: hash_generations
  nd_first_hop_airtime :: "(interface_id \<times> nat) list"
  nd_interface_modes :: "(interface_id \<times> interface_mode) list"
  nd_counters :: transport_counters

text \<open>\<open>self.identity.hash()\<close>.\<close>

abbreviation nd_identity :: "node \<Rightarrow> address_hash" where
  "nd_identity n \<equiv> id_hash (pi_public (nd_private n))"

text \<open>Saturating counters of the node's own.\<close>

definition refuse_payload :: "node \<Rightarrow> node" where
  "refuse_payload n = n\<lparr>nd_refused_payloads := sat_add u64_max (nd_refused_payloads n) 1\<rparr>"

abbreviation counted :: "(transport_counters \<Rightarrow> transport_counters) \<Rightarrow> node \<Rightarrow> node" where
  "counted f n \<equiv> n\<lparr>nd_counters := f (nd_counters n)\<rparr>"

record next_hop_info =
  nh_interface :: interface_id
  nh_via :: "address_hash option"
  nh_hops :: u8

section \<open>Per-interface settings\<close>

text \<open>
  The shape \<open>set_first_hop_airtime\<close> and \<open>set_interface_mode\<close> share: a bounded table without the
  default value, \<open>None\<close> when it is full.
\<close>

definition put_setting :: "nat \<Rightarrow> 'v \<Rightarrow> (interface_id \<times> 'v) list \<Rightarrow> interface_id \<Rightarrow> 'v \<Rightarrow> (interface_id \<times> 'v) list option" where
  "put_setting capacity base xs i v =
    (case position (\<lambda>(k, _). k = i) xs of
       Some index \<Rightarrow> Some (if v = base then swap_remove index xs else xs[index := (fst (xs ! index), v)])
     | None \<Rightarrow>
         if v = base then Some xs
         else if length xs < capacity then Some (xs @ [(i, v)]) else None)"

definition get_setting :: "'v \<Rightarrow> (interface_id \<times> 'v) list \<Rightarrow> interface_id \<Rightarrow> 'v" where
  "get_setting base xs i = (case map_of xs i of None \<Rightarrow> base | Some v \<Rightarrow> v)"

datatype table_full = AirtimeTableFull | InterfaceModeTableFull

definition first_hop_airtime :: "node \<Rightarrow> interface_id \<Rightarrow> nat" where
  "first_hop_airtime n i = get_setting 0 (nd_first_hop_airtime n) i"

definition set_first_hop_airtime :: "node \<Rightarrow> interface_id \<Rightarrow> nat \<Rightarrow> table_full + node" where
  "set_first_hop_airtime n i allowance =
    (case put_setting FIRST_HOP_AIRTIME_INTERFACES 0 (nd_first_hop_airtime n) i allowance of
       None \<Rightarrow> Inl AirtimeTableFull | Some xs \<Rightarrow> Inr (n\<lparr>nd_first_hop_airtime := xs\<rparr>))"

definition node_interface_mode :: "node \<Rightarrow> interface_id \<Rightarrow> interface_mode" where
  "node_interface_mode n i = get_setting Full (nd_interface_modes n) i"

definition set_interface_mode :: "node \<Rightarrow> interface_id \<Rightarrow> interface_mode \<Rightarrow> table_full + node" where
  "set_interface_mode n i mode =
    (case put_setting INTERFACE_MODE_INTERFACES Full (nd_interface_modes n) i mode of
       None \<Rightarrow> Inl InterfaceModeTableFull | Some xs \<Rightarrow> Inr (n\<lparr>nd_interface_modes := xs\<rparr>))"

definition node_first_hop_airtime :: "nat \<Rightarrow> nat" where
  "node_first_hop_airtime bitrate =
    (if bitrate = 0 then 0 else (FIRST_HOP_ALLOWANCE_BITS * 1000 + (bitrate - 1)) div bitrate)"

section \<open>Routes\<close>

definition route_alive :: "node \<Rightarrow> nat \<Rightarrow> route \<Rightarrow> bool" where
  "route_alive n now r = route_live r now (tc_route_ttl (nd_transport n))"

text \<open>\<open>while let Some(index) = rows.iter().position(p) { rows.swap_remove(index); counter += 1 }\<close>\<close>

function sweep :: "('a \<Rightarrow> bool) \<Rightarrow> 'a list \<Rightarrow> nat \<Rightarrow> 'a list \<times> nat" where
  "sweep p xs counter =
    (case position p xs of
       Some index \<Rightarrow> sweep p (swap_remove index xs) (inc counter)
     | None \<Rightarrow> (xs, counter))"
  by pat_completeness auto

termination
  by (relation "measure (\<lambda>(p, xs, c). length xs)") (auto dest: position_Some)

declare sweep.simps [simp del]

definition expire_routes :: "node \<Rightarrow> nat \<Rightarrow> node" where
  "expire_routes n now =
    (let (routes, expired) = sweep (\<lambda>r. \<not> route_alive n now r) (nd_routes n) (n_expired_routes (nd_counters n))
     in counted (n_expired_routes_update (\<lambda>_. expired)) (n\<lparr>nd_routes := routes\<rparr>))"

definition expire_transport_state :: "node \<Rightarrow> nat \<Rightarrow> node" where
  "expire_transport_state n now =
    (let n = expire_routes n now;
         (bridges, expired) = sweep (\<lambda>b. bridge_lapsed b now (tc_bridge_ttl (nd_transport n))) (nd_bridges n)
           (n_expired_bridges (nd_counters n));
         n = counted (n_expired_bridges_update (\<lambda>_. expired)) (n\<lparr>nd_bridges := bridges\<rparr>)
     in n\<lparr>nd_reverse := filter (\<lambda>e. now - rv_seen e < REVERSE_TIMEOUT) (nd_reverse n)\<rparr>)"

definition route_to :: "node \<Rightarrow> address_hash \<Rightarrow> nat \<Rightarrow> node \<times> (interface_id \<times> u8) option" where
  "route_to n d now =
    (let n = expire_routes n now
     in (n, map_option (\<lambda>r. (rt_interface r, rt_hops r)) (find (\<lambda>r. rt_destination r = d) (nd_routes n))))"

definition next_hop :: "node \<Rightarrow> address_hash \<Rightarrow> nat \<Rightarrow> next_hop_info option" where
  "next_hop n d now =
     map_option (\<lambda>r. \<lparr>nh_interface = rt_interface r, nh_via = rt_transport r, nh_hops = rt_hops r\<rparr>)
       (find (\<lambda>r. rt_destination r = d \<and> route_alive n now r) (nd_routes n))"

definition node_forget_interface :: "node \<Rightarrow> interface_id \<Rightarrow> node" where
  "node_forget_interface n i =
     n\<lparr>nd_routes := filter (\<lambda>r. rt_interface r \<noteq> i) (nd_routes n),
       nd_bridges := filter (\<lambda>b. br_from b \<noteq> i \<and> br_out b \<noteq> i) (nd_bridges n),
       nd_first_hop_airtime := filter (\<lambda>(k, _). k \<noteq> i) (nd_first_hop_airtime n),
       nd_interface_modes := filter (\<lambda>(k, _). k \<noteq> i) (nd_interface_modes n)\<rparr>"

definition learn_route ::
  "node \<Rightarrow> address_hash \<Rightarrow> interface_id \<Rightarrow> u8 \<Rightarrow> address_hash option \<Rightarrow> nat \<Rightarrow> node" where
  "learn_route n d i hops transport now =
    (if d = nd_destination n then n
     else
       let n = expire_routes n now;
           row = \<lparr>rt_destination = d, rt_interface = i, rt_transport = transport, rt_hops = hops,
                  rt_learned = now, rt_mode = node_interface_mode n i\<rparr>
       in case position (\<lambda>r. rt_destination r = d) (nd_routes n) of
            Some k \<Rightarrow> n\<lparr>nd_routes := (nd_routes n)[k := row]\<rparr>
          | None \<Rightarrow>
              let n = (if length (nd_routes n) = nd_ROUTES n then
                    (case min_index (\<lambda>_. True) rt_learned (nd_routes n) of
                       Some k \<Rightarrow> counted (n_evicted_routes_update inc) (n\<lparr>nd_routes := swap_remove k (nd_routes n)\<rparr>)
                     | None \<Rightarrow> n) else n)
              in if length (nd_routes n) < nd_ROUTES n then n\<lparr>nd_routes := nd_routes n @ [row]\<rparr> else n)"

definition touch_route :: "node \<Rightarrow> address_hash \<Rightarrow> nat \<Rightarrow> node" where
  "touch_route n d now =
    (case position (\<lambda>r. rt_destination r = d) (nd_routes n) of
       Some k \<Rightarrow> n\<lparr>nd_routes := (nd_routes n)[k := (nd_routes n ! k)\<lparr>rt_learned := now\<rparr>]\<rparr>
     | None \<Rightarrow> n)"

section \<open>Settings\<close>

definition settings_ok :: "nat \<Rightarrow> 'v \<Rightarrow> (interface_id \<times> 'v) list \<Rightarrow> bool" where
  "settings_ok capacity base xs \<longleftrightarrow> distinct (map fst xs) \<and> length xs \<le> capacity \<and> base \<notin> snd ` set xs"

lemma map_of_swap_remove:
  assumes "k < length xs" "distinct (map fst xs)"
  shows "map_of (swap_remove k xs) = (map_of xs)(fst (xs ! k) := None)"
proof -
  have d: "distinct (map fst (swap_remove k xs))" "set (swap_remove k xs) = {x \<in> set xs. fst x \<noteq> fst (xs ! k)}"
    using swap_remove_distinct[OF assms] by blast+
  have "map_of (swap_remove k xs) i = Some v \<longleftrightarrow> ((map_of xs)(fst (xs ! k) := None)) i = Some v" for i v
    using map_of_eq_Some_iff[OF d(1)] map_of_eq_Some_iff[OF assms(2)] d(2) by auto
  then show ?thesis by (metis ext option.exhaust)
qed

lemma map_add_new: "m i = None \<Longrightarrow> [i \<mapsto> v] ++ m = m(i \<mapsto> v)"
  by (auto simp: fun_eq_iff map_add_def split: option.split)

lemma map_of_update:
  "k < length xs \<Longrightarrow> distinct (map fst xs) \<Longrightarrow> map_of (xs[k := (fst (xs ! k), v)]) = (map_of xs)(fst (xs ! k) \<mapsto> v)"
proof (induction xs arbitrary: k)
  case (Cons x xs)
  obtain i w where x: "x = (i, w)" by (cases x)
  show ?case
  proof (cases k)
    case (Suc m)
    with Cons x have "fst (xs ! m) \<noteq> i" by (metis fst_conv image_eqI list.set_map nth_mem distinct.simps(2) list.map(2) Suc_less_eq length_Cons)
    with Suc Cons x show ?thesis by (auto simp: fun_eq_iff)
  qed (use x in \<open>simp add: fun_eq_iff\<close>)
qed simp

lemma put_setting_spec:
  assumes ok: "settings_ok capacity base xs"
  shows "case put_setting capacity base xs i v of
      Some ys \<Rightarrow> settings_ok capacity base ys \<and> get_setting base ys = (get_setting base xs)(i := v)
    | None \<Rightarrow> v \<noteq> base \<and> i \<notin> fst ` set xs \<and> length xs = capacity"
proof (cases "position (\<lambda>(k, _). k = i) xs")
  case None
  then have i: "i \<notin> fst ` set xs" unfolding position_None by auto
  then have "map_of xs i = None" by (simp add: map_of_eq_None_iff)
  with None i ok show ?thesis
    by (auto simp: put_setting_def settings_ok_def get_setting_def map_add_new fun_eq_iff)
next
  case (Some k)
  have k: "k < length xs" "fst (xs ! k) = i" using position_Some[OF Some] by (auto simp: case_prod_unfold)
  have d: "distinct (map fst xs)" using ok by (simp add: settings_ok_def)
  show ?thesis
  proof (cases "v = base")
    case True
    have "distinct (map fst (swap_remove k xs))" "set (swap_remove k xs) \<subseteq> set xs"
      using swap_remove_distinct[OF k(1) d] by auto
    with True Some k d ok map_of_swap_remove[OF k(1) d] show ?thesis
      by (auto simp: put_setting_def settings_ok_def get_setting_def fun_eq_iff)
  next
    case False
    let ?ys = "xs[k := (fst (xs ! k), v)]"
    have "map fst ?ys = map fst xs" using k(1) by (simp add: map_update list_update_same_conv)
    moreover have "snd ` set ?ys \<subseteq> insert v (snd ` set xs)" using set_update_subset_insert[of xs k "(fst (xs ! k), v)"] by fastforce
    ultimately have "settings_ok capacity base ?ys" using ok False by (auto simp: settings_ok_def)
    with False Some map_of_update[OF k(1) d, of v] k(2) show ?thesis
      by (auto simp: put_setting_def get_setting_def fun_eq_iff)
  qed
qed

lemma settings_ok_filter: "settings_ok capacity base xs \<Longrightarrow> settings_ok capacity base (filter P xs)"
  by (auto simp: settings_ok_def distinct_map_filter intro: order.trans[OF length_filter_le])

section \<open>The route table\<close>

definition settings_inv :: "node \<Rightarrow> bool" where
  "settings_inv n \<longleftrightarrow> settings_ok FIRST_HOP_AIRTIME_INTERFACES 0 (nd_first_hop_airtime n)
     \<and> settings_ok INTERFACE_MODE_INTERFACES Full (nd_interface_modes n)"

definition routes_ok :: "nat \<Rightarrow> address_hash \<Rightarrow> route list \<Rightarrow> bool" where
  "routes_ok capacity own rs \<longleftrightarrow> distinct (map rt_destination rs) \<and> length rs \<le> capacity
     \<and> own \<notin> rt_destination ` set rs"

abbreviation routes_inv :: "node \<Rightarrow> bool" where
  "routes_inv n \<equiv> routes_ok (nd_ROUTES n) (nd_destination n) (nd_routes n)"

lemma sweep_mset: "mset (fst (sweep p xs c)) = filter_mset (\<lambda>x. \<not> p x) (mset xs)"
proof (induction p xs c rule: sweep.induct)
  case (1 p xs c)
  show ?case
  proof (cases "position p xs")
    case None
    then have "filter_mset (\<lambda>x. \<not> p x) (mset xs) = mset xs" unfolding position_None by (auto simp: filter_mset_eq_conv)
    with None show ?thesis by (simp add: sweep.simps)
  next
    case (Some i)
    note i = position_Some[OF Some]
    have "mset xs = add_mset (xs ! i) (mset (swap_remove i xs))" 
      using i by (simp add: mset_swap_remove mset_remove_at)
    with 1[OF Some] i Some show ?thesis by (simp add: sweep.simps[of p xs c])
  qed
qed

lemma sweep_set: "set (fst (sweep p xs c)) = {x \<in> set xs. \<not> p x}"
  using arg_cong[OF sweep_mset[of p xs c], of set_mset] by simp

lemma sweep_length: "length (fst (sweep p xs c)) = length (filter (\<lambda>x. \<not> p x) xs)"
  using arg_cong[OF sweep_mset[of p xs c], of size] by (metis mset_filter size_mset)

lemma sweep_distinct: "distinct (map f xs) \<Longrightarrow> distinct (map f (fst (sweep p xs c)))"
proof -
  assume "distinct (map f xs)"
  then have "distinct (map f (filter (\<lambda>x. \<not> p x) xs))" by (rule distinct_map_filter)
  moreover have "mset (map f (fst (sweep p xs c))) = mset (map f (filter (\<lambda>x. \<not> p x) xs))"
    by (simp add: sweep_mset mset_filter)
  ultimately show ?thesis by (metis mset_eq_imp_distinct_iff)
qed

lemma expire_routes_fields:
  "nd_routes (expire_routes n now) = fst (sweep (\<lambda>r. \<not> route_alive n now r) (nd_routes n) (n_expired_routes (nd_counters n)))"
  "nd_ROUTES (expire_routes n now) = nd_ROUTES n" "nd_destination (expire_routes n now) = nd_destination n"
  "nd_transport (expire_routes n now) = nd_transport n" "nd_interface_modes (expire_routes n now) = nd_interface_modes n"
  "nd_first_hop_airtime (expire_routes n now) = nd_first_hop_airtime n"
  by (simp_all add: expire_routes_def Let_def case_prod_unfold)

lemma set_expired: "set (nd_routes (expire_routes n now)) = {r \<in> set (nd_routes n). route_alive n now r}"
  unfolding expire_routes_fields sweep_set by simp

lemma routes_ok_mono:
  "routes_ok c own rs \<Longrightarrow> distinct (map rt_destination rs') \<Longrightarrow> length rs' \<le> length rs \<Longrightarrow> set rs' \<subseteq> set rs \<Longrightarrow> routes_ok c own rs'"
  by (auto simp: routes_ok_def)

lemma routes_inv_expire: "routes_inv n \<Longrightarrow> routes_inv (expire_routes n now)"
proof -
  assume r: "routes_inv n"
  then have "distinct (map rt_destination (nd_routes (expire_routes n now)))"
    unfolding expire_routes_fields routes_ok_def by (intro sweep_distinct) simp
  moreover have "length (nd_routes (expire_routes n now)) \<le> length (nd_routes n)"
    unfolding expire_routes_fields sweep_length by (rule length_filter_le)
  ultimately show ?thesis
    using routes_ok_mono[OF r, of "nd_routes (expire_routes n now)"] set_expired[of n now]
    by (auto simp: expire_routes_fields(2,3))
qed

lemma find_key:
  assumes "distinct (map f xs)"
  shows "find (\<lambda>x. f x = d \<and> P x) xs = Some x \<longleftrightarrow> x \<in> set xs \<and> f x = d \<and> P x"
  using assms
proof (induction xs)
  case (Cons y xs)
  have "y \<notin> set xs \<and> (\<forall>z \<in> set xs. f z \<noteq> f y)" using Cons.prems by (auto simp: image_iff)
  with Cons show ?case by auto
qed simp

lemma routes_ok_replace:
  assumes "routes_ok c own rs" "k < length rs" "rt_destination r = rt_destination (rs ! k)"
  shows "routes_ok c own (rs[k := r])" "set (rs[k := r]) = insert r {x \<in> set rs. rt_destination x \<noteq> rt_destination r}"
proof -
  have m: "map rt_destination (rs[k := r]) = map rt_destination rs"
    using assms(2,3) by (simp add: map_update list_update_same_conv)
  have d: "distinct (map rt_destination rs)" using assms(1) by (simp add: routes_ok_def)
  have "rt_destination ` set (rs[k := r]) = rt_destination ` set rs" using arg_cong[OF m, of set] by simp
  with assms(1) m show "routes_ok c own (rs[k := r])" by (simp add: routes_ok_def)
  have "mset rs = add_mset (rs ! k) (mset (remove_at k rs))" by (rule mset_remove_at[OF assms(2)])
  moreover have "mset (rs[k := r]) = add_mset r (mset (remove_at k rs))"
    using mset_remove_at[of k "rs[k := r]"] assms(2) by (simp add: remove_at_def drop_update_cancel)
  ultimately have "set (rs[k := r]) = insert r (set (remove_at k rs))"
    by (metis set_mset_add_mset_insert set_mset_mset)
  with set_remove_at_distinct[OF d assms(2)] assms(3) show
    "set (rs[k := r]) = insert r {x \<in> set rs. rt_destination x \<noteq> rt_destination r}" by simp
qed

text \<open>The row \<open>learn_route\<close> writes.\<close>

definition learned_row :: "node \<Rightarrow> address_hash \<Rightarrow> interface_id \<Rightarrow> u8 \<Rightarrow> address_hash option \<Rightarrow> nat \<Rightarrow> route" where
  "learned_row n d i hops transport now =
     \<lparr>rt_destination = d, rt_interface = i, rt_transport = transport, rt_hops = hops,
      rt_learned = now, rt_mode = node_interface_mode n i\<rparr>"

definition live_routes :: "node \<Rightarrow> nat \<Rightarrow> route set" where
  "live_routes n now = {r \<in> set (nd_routes n). route_alive n now r}"

definition admits_row :: "nat \<Rightarrow> route set \<Rightarrow> route \<Rightarrow> route set \<Rightarrow> bool" where
  "admits_row capacity live row rows \<longleftrightarrow>
    (if rt_destination row \<in> rt_destination ` live \<or> card live < capacity
     then rows = insert row {r \<in> live. rt_destination r \<noteq> rt_destination row}
     else (\<exists>v \<in> live. (\<forall>r \<in> live. rt_learned v \<le> rt_learned r) \<and> rows = insert row (live - {v})))"

lemma card_routes: "distinct (map rt_destination rs) \<Longrightarrow> card (set rs) = length rs"
  by (simp add: distinct_card distinct_map)

lemma learn_route_spec:
  fixes now :: nat
  assumes r: "routes_inv n" and d: "d \<noteq> nd_destination n" and cap: "0 < nd_ROUTES n"
    and n'_def: "n' = learn_route n d i hops transport now"
  shows "routes_inv n' \<and> admits_row (nd_ROUTES n) (live_routes n now) (learned_row n d i hops transport now) (set (nd_routes n'))"
proof -
  let ?e = "expire_routes n now" and ?row = "learned_row n d i hops transport now"
  let ?rs = "nd_routes ?e"
  note F = expire_routes_fields[of n now]
  have row: "\<lparr>rt_destination = d, rt_interface = i, rt_transport = transport, rt_hops = hops, rt_learned = now,
      rt_mode = node_interface_mode ?e i\<rparr> = ?row"
    by (simp add: learned_row_def node_interface_mode_def F(5))
  have e: "routes_ok (nd_ROUTES n) (nd_destination n) ?rs" using routes_inv_expire[OF r, of now] F by simp
  then have D: "distinct (map rt_destination ?rs)" "length ?rs \<le> nd_ROUTES n" "nd_destination n \<notin> rt_destination ` set ?rs"
    by (simp_all add: routes_ok_def)
  have live: "set ?rs = live_routes n now" by (simp add: set_expired live_routes_def)
  have rd: "rt_destination ?row = d" by (simp add: learned_row_def)
  show ?thesis
  proof (cases "position (\<lambda>r. rt_destination r = d) ?rs")
    case (Some k)
    note k = position_Some[OF Some]
    then have kd: "rt_destination ?row = rt_destination (?rs ! k)" by (simp add: rd)
    have n': "n' = ?e\<lparr>nd_routes := ?rs[k := ?row]\<rparr>" using d Some row by (simp add: n'_def learn_route_def Let_def)
    have "d \<in> rt_destination ` set ?rs" using k by force
    with n' routes_ok_replace[OF e _ kd] k rd live F show ?thesis by (simp add: admits_row_def)
  next
    case None
    then have new: "d \<notin> rt_destination ` set ?rs" unfolding position_None by auto
    then have sub: "{r \<in> set ?rs. rt_destination r \<noteq> d} = set ?rs" by auto
    show ?thesis
    proof (cases "length ?rs < nd_ROUTES n")
      case True
      then have n': "n' = ?e\<lparr>nd_routes := ?rs @ [?row]\<rparr>" using d None row F by (simp add: n'_def learn_route_def Let_def)
      then have "routes_inv n'" using D True d new rd F by (auto simp: routes_ok_def)
      moreover have "card (live_routes n now) < nd_ROUTES n" using card_routes[OF D(1)] True live by simp
      ultimately show ?thesis using n' sub rd live by (simp add: admits_row_def)
    next
      case False
      then have full: "length ?rs = nd_ROUTES n" using D(2) by simp
      obtain k where k: "min_index (\<lambda>_. True) rt_learned ?rs = Some k"
        using full cap min_index_None[of "\<lambda>_. True" rt_learned ?rs] by (cases "min_index (\<lambda>_. True) rt_learned ?rs") auto
      note K = min_index_key_Some[OF k, THEN conjunct1] min_index_key_Some[OF k, THEN conjunct2]
      have S: "distinct (map rt_destination (swap_remove k ?rs))"
        "set (swap_remove k ?rs) = {x \<in> set ?rs. rt_destination x \<noteq> rt_destination (?rs ! k)}"
        using swap_remove_distinct[OF K(1) D(1)] by blast+
      have "{x \<in> set ?rs. rt_destination x \<noteq> rt_destination (?rs ! k)} = set ?rs - {?rs ! k}"
        using D(1) K(1) by (auto simp: distinct_map dest: inj_onD)
      with S(2) have set': "set (swap_remove k ?rs) = live_routes n now - {?rs ! k}" using live by simp
      have len: "length (swap_remove k ?rs) < nd_ROUTES n" using K(1) full by simp
      have n': "nd_routes n' = swap_remove k ?rs @ [?row]" "nd_ROUTES n' = nd_ROUTES n" "nd_destination n' = nd_destination n"
        using d None row F full k K(1) cap by (simp_all add: n'_def learn_route_def Let_def)
      have "routes_inv n'" using D len d new rd S unfolding n' by (auto simp: routes_ok_def)
      moreover have "?rs ! k \<in> live_routes n now" "\<forall>r \<in> live_routes n now. rt_learned (?rs ! k) \<le> rt_learned r"
        using K live by auto
      moreover have "\<not> (d \<in> rt_destination ` live_routes n now \<or> card (live_routes n now) < nd_ROUTES n)"
        using new live card_routes[OF D(1)] full by simp
      ultimately show ?thesis using set' rd by (auto simp: admits_row_def n')
    qed
  qed
qed

lemma next_hop_iff:
  "routes_inv n \<Longrightarrow> r \<in> set (nd_routes n) \<Longrightarrow> next_hop n (rt_destination r) t =
     (if route_alive n t r then Some \<lparr>nh_interface = rt_interface r, nh_via = rt_transport r, nh_hops = rt_hops r\<rparr> else None)"
proof -
  assume i: "routes_inv n" and r: "r \<in> set (nd_routes n)"
  have d: "distinct (map rt_destination (nd_routes n))" using i by (simp add: routes_ok_def)
  note K = find_key[OF d, of "rt_destination r" "\<lambda>x. route_alive n t x"]
  show ?thesis
  proof (cases "route_alive n t r")
    case True
    with K[of r] r show ?thesis by (simp add: next_hop_def)
  next
    case False
    have "find (\<lambda>x. rt_destination x = rt_destination r \<and> route_alive n t x) (nd_routes n) = None"
    proof (rule ccontr)
      assume "find (\<lambda>x. rt_destination x = rt_destination r \<and> route_alive n t x) (nd_routes n) \<noteq> None"
      then obtain x where "x \<in> set (nd_routes n)" "rt_destination x = rt_destination r" "route_alive n t x"
        using K by auto
      with d r False show False by (metis distinct_map inj_onD)
    qed
    with False show ?thesis by (simp add: next_hop_def)
  qed
qed

section \<open>Properties\<close>

text \<open>
  A verified announce's route replaces the destination's own and no other: expired routes go, a
  new destination displaces at most one live route, the one quietest longest, and only when every
  slot is live; and the destination's next hop is then the announce's, exactly until the mode of
  the interface it came by and the configured lifetime run out.
\<close>

theorem learned_route_used:
  assumes "routes_inv n" "d \<noteq> nd_destination n" "0 < nd_ROUTES n" "n' = learn_route n d i hops transport now"
  shows "admits_row (nd_ROUTES n) (live_routes n now) (learned_row n d i hops transport now) (set (nd_routes n'))
    \<and> next_hop n' d t =
        (if t - now < mode_route_ttl (node_interface_mode n i) (tc_route_ttl (nd_transport n))
         then Some \<lparr>nh_interface = i, nh_via = transport, nh_hops = hops\<rparr> else None)"
proof -
  note S = learn_route_spec[OF assms]
  let ?row = "learned_row n d i hops transport now"
  have "?row \<in> set (nd_routes n')" using S by (auto simp: admits_row_def split: if_splits)
  moreover have "rt_destination ?row = d" by (simp add: learned_row_def)
  moreover have "nd_transport n' = nd_transport n"
    by (simp add: assms(4) learn_route_def Let_def expire_routes_fields split: option.split)
  ultimately show ?thesis
    using S next_hop_iff[of n' ?row t] by (simp add: route_alive_def route_live_def) (simp add: learned_row_def)
qed

text \<open>
  An interface's airtime and mode read back as last set and no other interface's change; the
  default value takes no slot, and a setting is refused only when every slot holds another
  interface's.
\<close>

theorem interface_settings_exact:
  assumes "settings_inv n"
  shows "(case set_first_hop_airtime n i a of
      Inr n' \<Rightarrow> settings_inv n' \<and> first_hop_airtime n' = (first_hop_airtime n)(i := a)
    | Inl e \<Rightarrow> a \<noteq> 0 \<and> i \<notin> fst ` set (nd_first_hop_airtime n)
        \<and> length (nd_first_hop_airtime n) = FIRST_HOP_AIRTIME_INTERFACES)
    \<and> (case set_interface_mode n i m of
      Inr n' \<Rightarrow> settings_inv n' \<and> node_interface_mode n' = (node_interface_mode n)(i := m)
    | Inl e \<Rightarrow> m \<noteq> Full \<and> i \<notin> fst ` set (nd_interface_modes n)
        \<and> length (nd_interface_modes n) = INTERFACE_MODE_INTERFACES)"
proof -
  have ok: "settings_ok FIRST_HOP_AIRTIME_INTERFACES 0 (nd_first_hop_airtime n)"
    "settings_ok INTERFACE_MODE_INTERFACES Full (nd_interface_modes n)" using assms by (simp_all add: settings_inv_def)
  from put_setting_spec[OF ok(1), where i = i and v = a] put_setting_spec[OF ok(2), where i = i and v = m] ok show ?thesis
    by (auto simp: set_first_hop_airtime_def set_interface_mode_def settings_inv_def first_hop_airtime_def
        node_interface_mode_def fun_eq_iff split: option.splits)
qed

section \<open>A new node\<close>

definition LINK_MTU :: u32 where "LINK_MTU = 255"
definition DEFAULT_ANNOUNCE_INTERVAL :: nat where "DEFAULT_ANNOUNCE_INTERVAL = 600000"
definition MAX_RESOURCE_PARTS :: nat where "MAX_RESOURCE_PARTS = 32"
definition NODE_PATH_REQUEST_TAGS :: nat where "NODE_PATH_REQUEST_TAGS = 8"

text \<open>\<open>usize::MAX\<close> is that of the platform, an argument here.\<close>

definition payload_limits_default :: "nat \<Rightarrow> payload_limits" where
  "payload_limits_default usize_max =
     \<lparr>pl_max_ingress_bytes = usize_max, pl_max_app_data = usize_max, pl_max_link_payload = usize_max,
      pl_max_outbound_resource = usize_max, pl_max_resource_parts = MAX_RESOURCE_PARTS\<rparr>"

definition policy_for_peers :: "nat \<Rightarrow> freshness_policy" where
  "policy_for_peers peers =
     \<lparr>fp_max_destinations = (if peers = 0 then 1 else peers), fp_max_blobs_per_destination = 8\<rparr>"

definition policy_for_node :: "nat \<Rightarrow> nat \<Rightarrow> freshness_policy" where
  "policy_for_node peers routes = policy_for_peers (if routes < peers then peers else routes)"

text \<open>\<open>Node::new\<close> with the const parameters \<open>PEERS\<close> and \<open>ROUTES\<close>; \<open>expect\<close> is the case of a valid table.\<close>

definition node_new :: "sha256 \<Rightarrow> nat \<Rightarrow> nat \<Rightarrow> nat \<Rightarrow> private_identity \<Rightarrow> name_hash \<Rightarrow> node" where
  "node_new sha usize_max peers routes identity name_hash =
     \<lparr>nd_private = identity, nd_name_hash = name_hash,
      nd_destination = destination_hash sha name_hash (id_hash (pi_public identity)),
      nd_book = with_max_peers peers, nd_app_data = [], nd_limits = payload_limits_default usize_max,
      nd_freshness_policy = policy_for_node peers routes,
      nd_path_request_tags = generations_new NODE_PATH_REQUEST_TAGS, nd_last_announce = None,
      nd_announce_interval = DEFAULT_ANNOUNCE_INTERVAL, nd_announced_blob = None,
      nd_logical_mtu = LINK_MTU, nd_refused_payloads = 0, nd_refused_peers = 0, nd_transport = config_none,
      nd_ROUTES = routes, nd_routes = [],
      nd_freshness = (case freshness_new \<lparr>fc_destination_capacity = fp_max_destinations (policy_for_node peers routes),
          fc_blob_capacity = 8\<rparr> of Inr f \<Rightarrow> f),
      nd_bridges = [], nd_reverse = [], nd_rebroadcasts = rebroadcasts_new REBROADCAST_SLOTS,
      nd_announce_caps = [], nd_transit_filter = generations_new TRANSPORT_DEDUP_HASHES,
      nd_first_hop_airtime = [], nd_interface_modes = [], nd_counters = counters_default\<rparr>"

definition sample_private :: private_identity where
  "sample_private = \<lparr>pi_x25519 = [], pi_ed25519 = [],
     pi_public = \<lparr>id_x25519 = [], id_ed25519 = [], id_hash = AddressHash 77\<rparr>\<rparr>"

definition sample_node :: node where
  "sample_node = (node_new sample_sha u64_max 4 2 sample_private (NameHash 3))
     \<lparr>nd_destination := AddressHash 78, nd_transport := config_transit\<rparr>"

theorem learned_route_used_witness:
  "next_hop (learn_route sample_node (AddressHash 5) 3 2 None 100) (AddressHash 5) 200
     = Some \<lparr>nh_interface = 3, nh_via = None, nh_hops = 2\<rparr>"
  using learned_route_used[of sample_node "AddressHash 5" _ 3 2 None 100 200, OF _ _ _ HOL.refl]
  by (simp add: sample_node_def node_new_def routes_ok_def config_transit_def DEFAULT_ROUTE_TTL_def
      node_interface_mode_def get_setting_def mode_route_ttl_def)

theorem interface_settings_exact_witness:
  "case set_interface_mode sample_node 3 Roaming of
     Inr n' \<Rightarrow> node_interface_mode n' = (node_interface_mode sample_node)(3 := Roaming) | Inl e \<Rightarrow> False"
proof -
  have n: "settings_inv sample_node" "nd_interface_modes sample_node = []"
    by (simp_all add: sample_node_def node_new_def settings_inv_def settings_ok_def)
  from interface_settings_exact[OF n(1), where i = 3 and a = 0 and m = Roaming] n(2) show ?thesis
    by (auto simp: INTERFACE_MODE_INTERFACES_def split: sum.splits)
qed

end
