(* ===== verification/LinkWire.thy ===== *)
theory LinkWire
  imports Dedup Interfaces Identity
begin

unbundle bit_operations_syntax

text \<open>
  The link wire format a transport hop touches, \<open>link/wire.rs\<close>: the mode and MTU trailer of a link
  request, the link id, the clamp a hop applies to a request it carries and the signature check
  on the proof it carries back.
\<close>

section \<open>The trailer\<close>

definition TRAILER_LEN :: nat where "TRAILER_LEN = 3"
definition LINK_KEYS_LEN :: nat where "LINK_KEYS_LEN = 64"
definition LINK_REQUEST_LEN :: nat where "LINK_REQUEST_LEN = LINK_KEYS_LEN + TRAILER_LEN"
definition LINK_PROOF_LEN :: nat where "LINK_PROOF_LEN = SIGNATURE_LEN + KEY_LEN + TRAILER_LEN"
definition CTX_LRPROOF :: u8 where "CTX_LRPROOF = 0xff"
definition MAX_MTU :: u32 where "MAX_MTU = push_bit 21 1 - 1"

lemmas link_lens = TRAILER_LEN_def LINK_KEYS_LEN_def LINK_REQUEST_LEN_def LINK_PROOF_LEN_def key_lens

datatype link_mode = Aes128Cbc | Aes256Cbc

definition DEFAULT_MODE :: link_mode where "DEFAULT_MODE = Aes256Cbc"

definition is_enabled :: "link_mode \<Rightarrow> bool" where
  "is_enabled mode \<longleftrightarrow> mode = Aes256Cbc"

definition mode_from_bits :: "u8 \<Rightarrow> error + link_mode" where
  "mode_from_bits bits = (if bits = 0 then Inr Aes128Cbc else if bits = 1 then Inr Aes256Cbc else Inl BadLinkMode)"

definition mode_to_bits :: "link_mode \<Rightarrow> u32" where
  "mode_to_bits mode = (case mode of Aes128Cbc \<Rightarrow> 0 | Aes256Cbc \<Rightarrow> 1)"

record link_trailer =
  tr_mode :: link_mode
  tr_mtu :: u32

definition trailer_raw :: "bytes \<Rightarrow> u32" where
  "trailer_raw bs = push_bit 16 (ucast (bs ! 0)) OR push_bit 8 (ucast (bs ! 1)) OR ucast (bs ! 2)"

definition trailer_decode :: "bytes \<Rightarrow> error + link_trailer" where
  "trailer_decode bs =
    (let raw = trailer_raw bs in
     case mode_from_bits (ucast (drop_bit 21 raw)) of
       Inl e \<Rightarrow> Inl e
     | Inr mode \<Rightarrow> Inr \<lparr>tr_mode = mode, tr_mtu = raw AND MAX_MTU\<rparr>)"

definition trailer_encode :: "link_trailer \<Rightarrow> bytes" where
  "trailer_encode t =
    (let raw = push_bit 21 (mode_to_bits (tr_mode t)) OR (tr_mtu t AND MAX_MTU)
     in [ucast (drop_bit 16 raw), ucast (drop_bit 8 raw), ucast raw])"

section \<open>Requests\<close>

definition link_id :: "sha256 \<Rightarrow> packet \<Rightarrow> error + address_hash" where
  "link_id sha request =
    (if length (pk_payload request) < LINK_KEYS_LEN then Inl Truncated
     else Inr (address_of sha ([encode request ! 0 AND 0x0F] @ address_slice (pk_destination request)
       @ [pk_context request] @ take LINK_KEYS_LEN (pk_payload request))))"

definition request_trailer :: "packet \<Rightarrow> error + link_trailer option" where
  "request_trailer request =
    (if LINK_KEYS_LEN \<le> length (pk_payload request)
        \<and> length (drop LINK_KEYS_LEN (pk_payload request)) = TRAILER_LEN
     then (case trailer_decode (drop LINK_KEYS_LEN (pk_payload request)) of
             Inl e \<Rightarrow> Inl e | Inr t \<Rightarrow> Inr (Some t))
     else Inr None)"

definition strip_request_mtu :: "packet \<Rightarrow> packet" where
  "strip_request_mtu request =
    (if length (pk_payload request) = LINK_KEYS_LEN + TRAILER_LEN
     then request\<lparr>pk_payload := take LINK_KEYS_LEN (pk_payload request)\<rparr> else request)"

definition clamp_request_mtu :: "packet \<Rightarrow> u32 \<Rightarrow> error + packet" where
  "clamp_request_mtu request limit =
    (let bytes = drop LINK_KEYS_LEN (pk_payload request) in
     if \<not> (LINK_KEYS_LEN \<le> length (pk_payload request) \<and> length bytes = TRAILER_LEN) then Inr request
     else
       let signalled = trailer_raw bytes AND MAX_MTU in
       if limit < signalled then
         (case trailer_decode bytes of
            Inl e \<Rightarrow> Inl e
          | Inr trailer \<Rightarrow>
              Inr (request\<lparr>pk_payload := take LINK_KEYS_LEN (pk_payload request)
                @ trailer_encode (trailer\<lparr>tr_mtu := limit\<rparr>)\<rparr>))
       else Inr request)"

definition proof_is_signed_by :: "curves \<Rightarrow> packet \<Rightarrow> identity \<Rightarrow> bool" where
  "proof_is_signed_by c prf destination =
    (let payload = pk_payload prf in
     if pk_packet_type prf \<noteq> Proof \<or> pk_context prf \<noteq> CTX_LRPROOF
        \<or> \<not> (length payload = LINK_PROOF_LEN \<or> length payload = LINK_PROOF_LEN - TRAILER_LEN)
     then False
     else
       let signature = take SIGNATURE_LEN payload; rest = drop SIGNATURE_LEN payload;
           peer_eph = take KEY_LEN rest; trailer = drop KEY_LEN rest;
           signed = address_slice (pk_destination prf) @ peer_eph @ id_ed25519 destination @ trailer
       in identity_verify c destination signed signature)"

section \<open>The trailer's codec\<close>

lemma MAX_MTU_mask: "MAX_MTU = mask 21"
  by (simp add: MAX_MTU_def mask_eq_exp_minus_1)

lemma length_trailer_encode [simp]: "length (trailer_encode t) = TRAILER_LEN"
  by (simp add: trailer_encode_def Let_def TRAILER_LEN_def)

lemma trailer_raw_bytes:
  fixes raw :: u32
  assumes "drop_bit 24 raw = 0"
  shows "trailer_raw [ucast (drop_bit 16 raw), ucast (drop_bit 8 raw), ucast raw] = raw"
proof (rule bit_word_eqI)
  fix n assume "n < LENGTH(32)"
  have "\<not> bit raw n" if "24 \<le> n"
    using arg_cong[OF assms, of "\<lambda>w. bit w (n - 24)"] that by (simp add: bit_drop_bit_eq)
  then show "bit (trailer_raw [ucast (drop_bit 16 raw), ucast (drop_bit 8 raw), ucast raw]) n \<longleftrightarrow> bit raw n"
    using \<open>n < LENGTH(32)\<close>
    by (cases "n < 8"; cases "n < 16"; cases "n < 24") (auto simp: trailer_raw_def bit_simps)
qed

lemma mode_of_bool: "mode_to_bits m = of_bool (m = Aes256Cbc)"
  by (cases m) (simp_all add: mode_to_bits_def)

definition trailer_word :: "link_trailer \<Rightarrow> u32" where
  "trailer_word t = push_bit 21 (mode_to_bits (tr_mode t)) OR (tr_mtu t AND MAX_MTU)"

lemma trailer_word_parts:
  "drop_bit 24 (trailer_word t) = 0" "drop_bit 21 (trailer_word t) = mode_to_bits (tr_mode t)"
  "trailer_word t AND MAX_MTU = tr_mtu t AND MAX_MTU"
  by (rule bit_word_eqI; auto simp: trailer_word_def mode_of_bool MAX_MTU_mask bit_simps)+

lemma trailer_raw_encode: "trailer_raw (trailer_encode t) = trailer_word t"
  unfolding trailer_encode_def Let_def trailer_word_def[symmetric]
  by (rule trailer_raw_bytes) (rule trailer_word_parts)

lemma trailer_decode_encode: "trailer_decode (trailer_encode t) = Inr (t\<lparr>tr_mtu := tr_mtu t AND MAX_MTU\<rparr>)"
  by (cases "tr_mode t")
     (simp_all add: trailer_decode_def trailer_raw_encode trailer_word_parts mode_from_bits_def mode_to_bits_def)

lemma mtu_fits: "m \<le> MAX_MTU \<Longrightarrow> m AND MAX_MTU = m"
proof -
  assume "m \<le> MAX_MTU"
  then have "m < 2 ^ 21" by (simp add: MAX_MTU_def word_le_nat_alt word_less_nat_alt)
  then have "unat m mod 2 ^ 21 = unat m" by (simp add: word_less_nat_alt)
  moreover have "unat (take_bit 21 m) = take_bit 21 (unat m)" by (rule unsigned_take_bit_eq)
  ultimately have "unat (take_bit 21 m) = unat m" by (simp only: take_bit_eq_mod)
  then have "take_bit 21 m = m" by (simp only: word_unat_eq_iff)
  then show ?thesis by (simp add: MAX_MTU_mask take_bit_eq_mask)
qed

lemma trailer_raw_inverse:
  assumes "length bs = TRAILER_LEN"
  shows "[ucast (drop_bit 16 (trailer_raw bs)), ucast (drop_bit 8 (trailer_raw bs)), ucast (trailer_raw bs)] = bs"
proof -
  obtain a b c where bs: "bs = [a, b, c]"
    using assms by (auto simp: TRAILER_LEN_def length_Suc_conv numeral_eq_Suc)
  have "ucast (drop_bit 16 (trailer_raw bs)) = a" "ucast (drop_bit 8 (trailer_raw bs)) = b" "ucast (trailer_raw bs) = c"
    by (rule bit_word_eqI; auto simp: bs trailer_raw_def bit_simps dest: bit_imp_le_length)+
  with bs show ?thesis by simp
qed

lemma trailer_decode_sound:
  assumes "length bs = TRAILER_LEN" "trailer_decode bs = Inr t"
  shows "trailer_encode t = bs" "tr_mtu t \<le> MAX_MTU"
proof -
  let ?raw = "trailer_raw bs"
  have m: "tr_mtu t = ?raw AND MAX_MTU" and d: "mode_from_bits (ucast (drop_bit 21 ?raw)) = Inr (tr_mode t)"
    using assms(2) by (auto simp: trailer_decode_def Let_def split: sum.splits)
  have high: "\<not> bit ?raw n" if "24 \<le> n" for n
    using that by (auto simp: trailer_raw_def bit_simps dest: bit_imp_le_length)
  have "drop_bit 21 ?raw = ucast (ucast (drop_bit 21 ?raw) :: u8)"
  proof (rule bit_word_eqI)
    fix n assume "n < LENGTH(32)"
    with high[of "21 + n"] show "bit (drop_bit 21 ?raw) n \<longleftrightarrow> bit (ucast (ucast (drop_bit 21 ?raw) :: u8) :: u32) n"
      by (cases "n < 8") (auto simp: bit_simps)
  qed
  moreover have "ucast (drop_bit 21 ?raw) = (ucast (mode_to_bits (tr_mode t)) :: u8)"
    using d by (auto simp: mode_from_bits_def mode_to_bits_def split: if_splits)
  ultimately have "drop_bit 21 ?raw = mode_to_bits (tr_mode t)"
    by (cases "tr_mode t") (simp_all add: mode_to_bits_def)
  then have "trailer_word t = push_bit 21 (drop_bit 21 ?raw) OR (?raw AND mask 21)"
    by (simp add: trailer_word_def m MAX_MTU_mask and.assoc)
  also have "\<dots> = ?raw" by (rule bit_word_eqI) (auto simp: bit_simps)
  finally have "trailer_word t = ?raw" .
  with trailer_raw_inverse[OF assms(1)] show "trailer_encode t = bs"
    by (simp add: trailer_encode_def Let_def flip: trailer_word_def)
  show "tr_mtu t \<le> MAX_MTU" unfolding m by (rule word_and_le1)
qed

definition trailer_opt :: "bytes \<Rightarrow> link_trailer option" where
  "trailer_opt bs = (if length bs = TRAILER_LEN then (case trailer_decode bs of Inl _ \<Rightarrow> None | Inr t \<Rightarrow> Some t) else None)"

interpretation trailer: strict_codec trailer_encode trailer_opt "\<lambda>t. tr_mtu t \<le> MAX_MTU"
proof unfold_locales
  fix t :: link_trailer assume "tr_mtu t \<le> MAX_MTU"
  then show "trailer_opt (trailer_encode t) = Some t"
    by (simp add: trailer_opt_def trailer_decode_encode mtu_fits)
next
  fix bs t assume "trailer_opt bs = Some t"
  then show "tr_mtu t \<le> MAX_MTU \<and> trailer_encode t = bs"
    using trailer_decode_sound[of bs t] by (auto simp: trailer_opt_def split: if_splits sum.splits)
qed

section \<open>The clamp\<close>

text \<open>The MTU a request signals, if it has a trailer.\<close>

definition signalled_mtu :: "packet \<Rightarrow> u32 option" where
  "signalled_mtu p =
    (if LINK_KEYS_LEN + TRAILER_LEN = length (pk_payload p)
     then Some (trailer_raw (drop LINK_KEYS_LEN (pk_payload p)) AND MAX_MTU) else None)"

lemma has_trailer:
  "LINK_KEYS_LEN \<le> n \<and> n - LINK_KEYS_LEN = TRAILER_LEN \<longleftrightarrow> LINK_KEYS_LEN + TRAILER_LEN = n"
  by (auto simp: link_lens)

lemma clamp_cases:
  assumes "clamp_request_mtu p limit = Inr p'"
  obtains "p' = p" "\<And>m. signalled_mtu p = Some m \<Longrightarrow> m \<le> limit"
  | m t where "signalled_mtu p = Some m" "limit < m" "trailer_decode (drop LINK_KEYS_LEN (pk_payload p)) = Inr t"
      "p' = p\<lparr>pk_payload := take LINK_KEYS_LEN (pk_payload p) @ trailer_encode (t\<lparr>tr_mtu := limit\<rparr>)\<rparr>"
proof (cases "signalled_mtu p")
  case None
  then have "p' = p" using assms
    by (simp add: clamp_request_mtu_def signalled_mtu_def Let_def has_trailer split: if_splits)
  with that(1) None show thesis by simp
next
  case (Some m)
  then have m: "LINK_KEYS_LEN \<le> length (pk_payload p)" "length (pk_payload p) - LINK_KEYS_LEN = TRAILER_LEN"
    "trailer_raw (drop LINK_KEYS_LEN (pk_payload p)) AND MAX_MTU = m"
    by (auto simp: signalled_mtu_def split: if_splits)
  show thesis
  proof (cases "limit < m")
    case True
    with m assms obtain t where "trailer_decode (drop LINK_KEYS_LEN (pk_payload p)) = Inr t"
      "p' = p\<lparr>pk_payload := take LINK_KEYS_LEN (pk_payload p) @ trailer_encode (t\<lparr>tr_mtu := limit\<rparr>)\<rparr>"
      by (auto simp: clamp_request_mtu_def Let_def split: sum.splits)
    with that(2) Some True show thesis by blast
  next
    case False
    with m assms have "p' = p" by (simp add: clamp_request_mtu_def Let_def)
    with that(1) Some False show thesis by simp
  qed
qed

lemma flags_nibble_rewritten:
  "encode (p\<lparr>pk_hops := h, pk_header_type := ht, pk_transport := t, pk_payload := pl\<rparr>) ! 0 AND 0x0F = encode p ! 0 AND 0x0F"
  by (simp add: encode_def flags_low_nibble)

lemma link_id_payload:
  "length pl = length (pk_payload p) \<Longrightarrow> take LINK_KEYS_LEN pl = take LINK_KEYS_LEN (pk_payload p) \<Longrightarrow>
     link_id sha (p\<lparr>pk_hops := h, pk_header_type := ht, pk_transport := t, pk_payload := pl\<rparr>) = link_id sha p"
  unfolding link_id_def flags_nibble_rewritten by simp

lemma link_id_rewritten:
  "link_id sha (p\<lparr>pk_hops := h, pk_header_type := ht, pk_transport := t\<rparr>) = link_id sha p"
  using link_id_payload[where pl = "pk_payload p" and p = p and h = h and ht = ht and t = t] by simp

lemma request_trailer_alt:
  "request_trailer p = (case signalled_mtu p of None \<Rightarrow> Inr None
     | Some _ \<Rightarrow> (case trailer_decode (drop LINK_KEYS_LEN (pk_payload p)) of Inl e \<Rightarrow> Inl e | Inr t \<Rightarrow> Inr (Some t)))"
  by (simp add: request_trailer_def signalled_mtu_def has_trailer)

lemma signalled_decoded:
  "signalled_mtu p = Some m \<Longrightarrow> trailer_decode (drop LINK_KEYS_LEN (pk_payload p)) = Inr t \<Longrightarrow> tr_mtu t = m"
  by (auto simp: signalled_mtu_def trailer_decode_def Let_def split: if_splits sum.splits)

lemma signalled_le: "signalled_mtu p = Some m \<Longrightarrow> m \<le> MAX_MTU"
  by (auto simp: signalled_mtu_def intro: word_and_le1 split: if_splits)

lemma clamp_Inl:
  assumes "clamp_request_mtu p limit = Inl e"
  shows "request_trailer p = Inl e" "\<exists>m. signalled_mtu p = Some m \<and> limit < m"
proof -
  have "LINK_KEYS_LEN \<le> length (pk_payload p)" "length (pk_payload p) - LINK_KEYS_LEN = TRAILER_LEN"
    "limit < trailer_raw (drop LINK_KEYS_LEN (pk_payload p)) AND MAX_MTU"
    "trailer_decode (drop LINK_KEYS_LEN (pk_payload p)) = Inl e"
    using assms by (auto simp: clamp_request_mtu_def Let_def split: if_splits sum.splits)
  then show "request_trailer p = Inl e" "\<exists>m. signalled_mtu p = Some m \<and> limit < m"
    by (auto simp: request_trailer_def signalled_mtu_def)
qed

lemma clamp_rewritten:
  assumes s: "signalled_mtu p = Some m" "limit < m" and t: "trailer_decode (drop LINK_KEYS_LEN (pk_payload p)) = Inr t"
    and p': "p' = p\<lparr>pk_payload := take LINK_KEYS_LEN (pk_payload p) @ trailer_encode (t\<lparr>tr_mtu := limit\<rparr>)\<rparr>"
  shows "link_id sha p' = link_id sha p" "signalled_mtu p' = Some limit"
    "request_trailer p' = Inr (Some (t\<lparr>tr_mtu := limit\<rparr>))"
proof -
  have l: "length (pk_payload p) = LINK_KEYS_LEN + TRAILER_LEN" using s by (auto simp: signalled_mtu_def split: if_splits)
  then have "length (take LINK_KEYS_LEN (pk_payload p)) = LINK_KEYS_LEN" by simp
  with l have pl: "length (pk_payload p') = length (pk_payload p)" "take LINK_KEYS_LEN (pk_payload p') = take LINK_KEYS_LEN (pk_payload p)"
    "drop LINK_KEYS_LEN (pk_payload p') = trailer_encode (t\<lparr>tr_mtu := limit\<rparr>)"
    by (simp_all add: p')
  have p2: "p' = p\<lparr>pk_hops := pk_hops p, pk_header_type := pk_header_type p, pk_transport := pk_transport p, pk_payload := pk_payload p'\<rparr>"
    by (simp add: p')
  show "link_id sha p' = link_id sha p" by (subst p2) (rule link_id_payload[OF pl(1,2)])
  have "limit \<le> MAX_MTU" using s(2) signalled_le[OF s(1)] by (simp add: word_le_nat_alt word_less_nat_alt)
  then have fit: "limit AND MAX_MTU = limit" by (rule mtu_fits)
  then show sig: "signalled_mtu p' = Some limit"
    using pl l by (simp add: signalled_mtu_def trailer_raw_encode trailer_word_parts)
  show "request_trailer p' = Inr (Some (t\<lparr>tr_mtu := limit\<rparr>))"
    by (simp add: request_trailer_alt sig pl(3) trailer_decode_encode fit)
qed

section \<open>Properties\<close>

text \<open>
  The MTU clamp a transport hop applies to a link request it carries leaves the link id as it
  was, lowers the signalled MTU to the hop's limit and never raises it, keeps the mode, leaves a
  request without a trailer alone, and fails only on a request that must be lowered under a mode
  the hop cannot decode.
\<close>

theorem clamp_request_spec:
  "case clamp_request_mtu p limit of
     Inl e \<Rightarrow> request_trailer p = Inl e \<and> (case signalled_mtu p of None \<Rightarrow> False | Some m \<Rightarrow> limit < m)
   | Inr p' \<Rightarrow> link_id sha p' = link_id sha p
       \<and> signalled_mtu p' = map_option (min limit) (signalled_mtu p)
       \<and> request_trailer p' = (case request_trailer p of
           Inr (Some t) \<Rightarrow> Inr (Some (t\<lparr>tr_mtu := min limit (tr_mtu t)\<rparr>)) | r \<Rightarrow> r)"
proof (cases "clamp_request_mtu p limit")
  case (Inl e)
  from clamp_Inl[OF Inl] Inl show ?thesis by auto
next
  case (Inr p')
  from Inr show ?thesis
  proof (cases rule: clamp_cases)
    case 1
    have sig: "map_option (min limit) (signalled_mtu p) = signalled_mtu p"
      using 1(2) by (cases "signalled_mtu p") (auto simp: min_def dest: order.antisym)
    have "tr_mtu t \<le> limit" if "request_trailer p = Inr (Some t)" for t
      using that 1(2) signalled_decoded[of p _ t] by (auto simp: request_trailer_alt split: option.splits sum.splits)
    then have "request_trailer p = (case request_trailer p of
        Inr (Some t) \<Rightarrow> Inr (Some (t\<lparr>tr_mtu := min limit (tr_mtu t)\<rparr>)) | r \<Rightarrow> r)"
      by (auto simp: min_absorb2 split: sum.split option.split)
    with Inr 1(1) sig show ?thesis by simp
  next
    case (2 m t)
    have "request_trailer p = Inr (Some t)" "tr_mtu t = m"
      using 2 signalled_decoded[of p m t] by (simp_all add: request_trailer_alt)
    moreover have "min limit m = limit" using 2(2) by (simp add: min_absorb1 less_imp_le)
    ultimately show ?thesis using 2 clamp_rewritten[OF 2] Inr by simp
  qed
qed

text \<open>
  Trailers and their three bytes determine each other: a trailer whose MTU fits its field
  decodes from its encoding, and bytes that decode are the encoding of what they decode to.
\<close>

theorem trailer_decode_iff:
  "trailer_opt bs = Some t \<longleftrightarrow> tr_mtu t \<le> MAX_MTU \<and> bs = trailer_encode t"
  by (rule trailer.dec_iff)

end
