(* ===== verification/NodeTransit.thy ===== *)
theory NodeTransit
  imports NodeRoutes LinkWire LinkLiveness
begin

text \<open>
  Carrying traffic for other destinations, \<open>node/transit.rs\<close>: the carried-link bridges, the reverse
  table, the transit filter and the three ways a packet is forwarded. Every operation takes the
  action list it may push to and answers whether the packet was for it.
\<close>

section \<open>Bridges and reverse entries\<close>

definition LINK_TRANSPORT_IDLE :: nat where "LINK_TRANSPORT_IDLE = 900000"
definition TRANSPORT_DEDUP_TIMEOUT :: nat where "TRANSPORT_DEDUP_TIMEOUT = 60000"

definition transit_proof_timeout :: "u8 \<Rightarrow> nat" where
  "transit_proof_timeout relays = LINK_ESTABLISHMENT_TIMEOUT_PER_HOP * (unat relays + 1)"

definition transit_hash_is_new :: "node \<Rightarrow> u8 \<Rightarrow> address_hash \<Rightarrow> nat \<Rightarrow> node \<times> bool" where
  "transit_hash_is_new n ctx hash now =
    (if \<not> is_deduplicated_link_context ctx then (n, True)
     else (let (g, fresh) = generations_insert (nd_transit_filter n) hash now TRANSPORT_DEDUP_TIMEOUT
           in (n\<lparr>nd_transit_filter := g\<rparr>, fresh)))"

definition transit_is_new :: "sha256 \<Rightarrow> node \<Rightarrow> packet \<Rightarrow> nat \<Rightarrow> node \<times> bool" where
  "transit_is_new sha n p now = transit_hash_is_new n (pk_context p) (packet_hash sha p) now"

text \<open>The bridge that makes room: the stalest unvalidated one, or the stalest idle one.\<close>

definition bridge_to_evict :: "link_bridge list \<Rightarrow> nat \<Rightarrow> nat option" where
  "bridge_to_evict bridges now =
    (case min_index (\<lambda>b. br_proof_deadline b \<noteq> None) br_seen bridges of
       Some index \<Rightarrow> Some index
     | None \<Rightarrow> min_index (\<lambda>b. LINK_TRANSPORT_IDLE \<le> now - br_seen b) br_seen bridges)"

definition remember_bridge ::
  "node \<Rightarrow> address_hash \<Rightarrow> address_hash \<Rightarrow> interface_id \<Rightarrow> interface_id \<Rightarrow> nat \<Rightarrow> nat \<Rightarrow> node \<times> bool" where
  "remember_bridge n lid destination from out proof_deadline now =
    (let bridge = \<lparr>br_link_id = lid, br_destination = destination, br_from = from, br_out = out,
           br_seen = now, br_proof_deadline = Some proof_deadline\<rparr>
     in case position (\<lambda>b. br_link_id b = lid) (nd_bridges n) of
          Some index \<Rightarrow>
            (if br_proof_deadline (nd_bridges n ! index) \<noteq> None
             then n\<lparr>nd_bridges := (nd_bridges n)[index := bridge]\<rparr> else n, True)
        | None \<Rightarrow>
            if length (nd_bridges n) = nd_ROUTES n then
              (case bridge_to_evict (nd_bridges n) now of
                 None \<Rightarrow> (counted (n_refused_bridges_update inc) n, False)
               | Some index \<Rightarrow>
                   let n = counted (n_evicted_bridges_update inc) (n\<lparr>nd_bridges := swap_remove index (nd_bridges n)\<rparr>)
                   in if length (nd_bridges n) < nd_ROUTES n
                      then (n\<lparr>nd_bridges := nd_bridges n @ [bridge]\<rparr>, True) else (n, False))
            else if length (nd_bridges n) < nd_ROUTES n
            then (n\<lparr>nd_bridges := nd_bridges n @ [bridge]\<rparr>, True) else (n, False))"

definition remember_reverse :: "node \<Rightarrow> address_hash \<Rightarrow> interface_id \<Rightarrow> interface_id \<Rightarrow> nat \<Rightarrow> node" where
  "remember_reverse n hash received outbound now =
    (let rows = filter (\<lambda>e. rv_packet e \<noteq> hash) (nd_reverse n);
         rows = (if length rows = nd_ROUTES n then
             (case min_index (\<lambda>_. True) rv_seen rows of Some index \<Rightarrow> swap_remove index rows | None \<Rightarrow> rows)
           else rows);
         row = \<lparr>rv_packet = hash, rv_received = received, rv_outbound = outbound, rv_seen = now\<rparr>
     in n\<lparr>nd_reverse := (if length rows < nd_ROUTES n then rows @ [row] else rows)\<rparr>)"

section \<open>Forwarding\<close>

definition next_hops :: "packet \<Rightarrow> u8" where
  "next_hops p = of_nat (sat_add u8_max (unat (pk_hops p)) 1)"

definition too_long :: "node \<Rightarrow> packet \<Rightarrow> bool" where
  "too_long n p \<longleftrightarrow> unat (nd_logical_mtu n) < encoded_len p"

definition link_proof :: "packet \<Rightarrow> bool" where
  "link_proof p \<longleftrightarrow> pk_packet_type p = Proof \<and> pk_context p = CTX_LRPROOF"

definition proof_signed :: "curves \<Rightarrow> node \<Rightarrow> link_bridge \<Rightarrow> interface_id \<Rightarrow> packet \<Rightarrow> bool" where
  "proof_signed c n bridge interface p \<longleftrightarrow> interface = br_out bridge
     \<and> (case book_resolve (nd_book n) (br_destination bridge) of
          None \<Rightarrow> True | Some peer \<Rightarrow> proof_is_signed_by c p (pe_identity peer))"

definition forward_bridged_packet ::
  "curves \<Rightarrow> sha256 \<Rightarrow> node \<Rightarrow> interface_id \<Rightarrow> packet \<Rightarrow> nat \<Rightarrow> actions \<Rightarrow> node \<times> actions \<times> bool" where
  "forward_bridged_packet c sha n interface p now acts =
    (if \<not> tc_relay_packets (nd_transport n) then (n, acts, False)
     else case position (\<lambda>b. br_link_id b = pk_destination p) (nd_bridges n) of
       None \<Rightarrow> (n, acts, False)
     | Some index \<Rightarrow>
         let bridge = nd_bridges n ! index in
         if interface \<noteq> br_from bridge \<and> interface \<noteq> br_out bridge then (n, acts, True)
         else
           let out = (if interface = br_from bridge then br_out bridge else br_from bridge);
               proves = link_proof p
           in if (if proves then \<not> proof_signed c n bridge interface p else br_proof_deadline bridge \<noteq> None)
              then (counted (n_unvalidated_link_packets_update inc) n, acts, True)
           else if tc_max_hops (nd_transport n) \<le> next_hops p
              then (counted (n_hop_limit_dropped_update inc) n, acts, True)
           else
             let (n, fresh) = transit_is_new sha n p now in
             if \<not> fresh then (n, acts, True)
             else
               let forwarded = p\<lparr>pk_hops := next_hops p, pk_header_type := Type1, pk_transport := None\<rparr> in
               if too_long n forwarded then (refuse_payload n, acts, True)
               else
                 let (acts, pushed) = push_action acts (ActSend out forwarded) in
                 if pushed then
                   let bridge = (if proves then bridge\<lparr>br_proof_deadline := None\<rparr> else bridge)\<lparr>br_seen := now\<rparr>
                   in (counted (n_forwarded_packets_update inc) (n\<lparr>nd_bridges := (nd_bridges n)[index := bridge]\<rparr>), acts, True)
                 else (n, acts, True))"

text \<open>Of \<open>forward_transport_packet\<close>: a link request that will be sent takes its bridge slot first.\<close>

definition bridge_request :: "sha256 \<Rightarrow> node \<Rightarrow> interface_id \<Rightarrow> packet \<Rightarrow> route \<Rightarrow> nat \<Rightarrow> actions \<Rightarrow> node \<times> bool" where
  "bridge_request sha n i p r now acts =
    (if pk_packet_type p = LinkRequest \<and> length (as_items acts) < as_N acts then
       (case link_id sha p of
          Inl e \<Rightarrow> (n, True)
        | Inr lid \<Rightarrow>
            remember_bridge n lid (pk_destination p) i (rt_interface r)
              (sat_add u64_max (sat_add u64_max now (transit_proof_timeout (rt_hops r)))
                 (first_hop_airtime n (rt_interface r))) now)
     else (n, True))"

definition forward_transport_packet ::
  "sha256 \<Rightarrow> node \<Rightarrow> interface_id \<Rightarrow> packet \<Rightarrow> nat \<Rightarrow> actions \<Rightarrow> node \<times> actions \<times> bool" where
  "forward_transport_packet sha n interface p now acts =
    (if \<not> tc_relay_packets (nd_transport n) \<or> pk_header_type p \<noteq> Type2
        \<or> pk_transport p \<noteq> Some (nd_identity n) \<or> pk_destination p = nd_destination n
     then (n, acts, False)
     else if tc_max_hops (nd_transport n) \<le> next_hops p
     then (counted (n_hop_limit_dropped_update inc) n, acts, True)
     else case find (\<lambda>r. rt_destination r = pk_destination p) (nd_routes n) of
       None \<Rightarrow> (counted (n_unroutable_packets_update inc) n, acts, True)
     | Some route \<Rightarrow>
         let hash = packet_hash sha p;
             (n, fresh) = transit_hash_is_new n (pk_context p) hash now
         in if \<not> fresh then (n, acts, True)
         else
           let forwarded = p\<lparr>pk_hops := next_hops p, pk_header_type := Type1, pk_transport := None\<rparr>;
               forwarded = (case rt_transport route of None \<Rightarrow> forwarded
                 | Some t \<Rightarrow> forwarded\<lparr>pk_header_type := Type2, pk_transport := Some t\<rparr>);
               clamped = (if pk_packet_type p = LinkRequest then clamp_request_mtu forwarded (nd_logical_mtu n)
                 else Inr forwarded)
           in case clamped of
             Inl e \<Rightarrow> (counted (n_undecodable_link_requests_update inc) n, acts, True)
           | Inr forwarded \<Rightarrow>
               if too_long n forwarded then (refuse_payload n, acts, True)
               else
                 let (n, taken) = bridge_request sha n interface p route now acts
                 in if \<not> taken then (n, acts, True)
                 else
                   let (acts, pushed) = push_action acts (ActSend (rt_interface route) forwarded) in
                   if pushed then
                     let n = touch_route n (pk_destination p) now;
                         n = (if pk_packet_type p \<noteq> LinkRequest
                              then remember_reverse n hash interface (rt_interface route) now else n)
                     in (counted (n_forwarded_packets_update inc) n, acts, True)
                   else (n, acts, True))"

definition forward_reverse_proof :: "node \<Rightarrow> interface_id \<Rightarrow> packet \<Rightarrow> actions \<Rightarrow> node \<times> actions \<times> bool" where
  "forward_reverse_proof n interface p acts =
    (if \<not> tc_relay_packets (nd_transport n) \<or> pk_context p = CTX_LRPROOF \<or> pk_context p = CTX_RESOURCE_PRF
     then (n, acts, False)
     else case position (\<lambda>e. rv_packet e = pk_destination p) (nd_reverse n) of
       None \<Rightarrow> (n, acts, False)
     | Some index \<Rightarrow>
         let entry = nd_reverse n ! index;
             n = n\<lparr>nd_reverse := swap_remove index (nd_reverse n)\<rparr>
         in if interface \<noteq> rv_outbound entry then (n, acts, False)
         else
           let forwarded = p\<lparr>pk_hops := next_hops p\<rparr> in
           if too_long n forwarded then (refuse_payload n, acts, True)
           else
             let (acts, pushed) = push_action acts (ActSend (rv_received entry) forwarded)
             in (if pushed then counted (n_forwarded_packets_update inc) n else n, acts, True))"

section \<open>The bridge table\<close>

definition bridges_ok :: "nat \<Rightarrow> link_bridge list \<Rightarrow> bool" where
  "bridges_ok capacity bs \<longleftrightarrow> distinct (map br_link_id bs) \<and> length bs \<le> capacity"

abbreviation bridges_inv :: "node \<Rightarrow> bool" where
  "bridges_inv n \<equiv> bridges_ok (nd_ROUTES n) (nd_bridges n)"

text \<open>A link the node carries: proved, and heard within the idle time.\<close>

definition carried_link :: "nat \<Rightarrow> link_bridge \<Rightarrow> bool" where
  "carried_link now b \<longleftrightarrow> br_proof_deadline b = None \<and> now - br_seen b < LINK_TRANSPORT_IDLE"

lemma bridge_to_evict_Some:
  assumes "bridge_to_evict bs now = Some k"
  shows "k < length bs" "\<not> carried_link now (bs ! k)"
proof -
  have "k < length bs \<and> \<not> carried_link now (bs ! k)"
  proof (cases "min_index (\<lambda>b. br_proof_deadline b \<noteq> None) br_seen bs")
    case None
    then have "min_index (\<lambda>b. LINK_TRANSPORT_IDLE \<le> now - br_seen b) br_seen bs = Some k"
      using assms by (simp add: bridge_to_evict_def)
    from min_index_Some(1,2)[OF this] show ?thesis by (simp add: carried_link_def)
  next
    case (Some j)
    then have "min_index (\<lambda>b. br_proof_deadline b \<noteq> None) br_seen bs = Some k"
      using assms by (simp add: bridge_to_evict_def)
    from min_index_Some(1,2)[OF this] show ?thesis by (simp add: carried_link_def)
  qed
  then show "k < length bs" "\<not> carried_link now (bs ! k)" by simp_all
qed

lemma bridges_ok_update:
  assumes "bridges_ok c bs" "k < length bs" "br_link_id b = br_link_id (bs ! k)"
  shows "bridges_ok c (bs[k := b])" "set (bs[k := b]) = insert b (set bs - {bs ! k})"
proof -
  have "map br_link_id (bs[k := b]) = map br_link_id bs"
    using assms(2,3) by (simp add: map_update list_update_same_conv)
  with assms(1) show "bridges_ok c (bs[k := b])" unfolding bridges_ok_def by simp
  have "distinct bs" using assms(1) by (simp add: bridges_ok_def distinct_map)
  with assms(2) show "set (bs[k := b]) = insert b (set bs - {bs ! k})" by (rule set_update_distinct[rotated])
qed

lemma bridges_ok_swap_remove:
  assumes "bridges_ok c bs" "k < length bs"
  shows "distinct (map br_link_id (swap_remove k bs))" "set (swap_remove k bs) = set bs - {bs ! k}"
proof -
  have d: "distinct (map br_link_id bs)" using assms(1) by (simp add: bridges_ok_def)
  note S = swap_remove_distinct[OF assms(2) d]
  show "distinct (map br_link_id (swap_remove k bs))" using S by blast
  have "{x \<in> set bs. br_link_id x \<noteq> br_link_id (bs ! k)} = set bs - {bs ! k}"
    using d assms(2) by (auto simp: distinct_map dest: inj_onD)
  with S show "set (swap_remove k bs) = set bs - {bs ! k}" by blast
qed

text \<open>
  What \<open>remember_bridge\<close> does to the bridges: it keeps every carried link, and when it admits the
  request a bridge of that link id is there.
\<close>

definition new_bridge :: "address_hash \<Rightarrow> address_hash \<Rightarrow> interface_id \<Rightarrow> interface_id \<Rightarrow> nat \<Rightarrow> nat \<Rightarrow> link_bridge" where
  "new_bridge lid d from out deadline now = \<lparr>br_link_id = lid, br_destination = d, br_from = from, br_out = out,
     br_seen = now, br_proof_deadline = Some deadline\<rparr>"

definition bridge_admitted :: "nat \<Rightarrow> link_bridge list \<Rightarrow> link_bridge \<Rightarrow> nat \<Rightarrow> link_bridge list \<Rightarrow> bool \<Rightarrow> bool" where
  "bridge_admitted c bs b now bs' taken \<longleftrightarrow> bridges_ok c bs' \<and> (\<forall>x \<in> set bs. carried_link now x \<longrightarrow> x \<in> set bs')
     \<and> set bs' \<subseteq> insert b (set bs)
     \<and> (if taken then (\<exists>x \<in> set bs'. br_link_id x = br_link_id b \<and> (x = b \<or> br_proof_deadline x = None)) else bs' = bs)"

lemma remember_bridge_spec:
  assumes ok: "bridges_inv n" and n': "remember_bridge n lid d from out deadline now = (n', taken)"
  shows "\<exists>bs cs. n' = n\<lparr>nd_bridges := bs, nd_counters := cs\<rparr>
    \<and> bridge_admitted (nd_ROUTES n) (nd_bridges n) (new_bridge lid d from out deadline now) now bs taken"
proof -
  let ?bs = "nd_bridges n" and ?b = "new_bridge lid d from out deadline now" and ?c = "nd_ROUTES n"
  have wit: "n' = n\<lparr>nd_bridges := bs, nd_counters := cs\<rparr> \<Longrightarrow> taken = t \<Longrightarrow> bridge_admitted ?c ?bs ?b now bs t \<Longrightarrow>
    \<exists>bs cs. n' = n\<lparr>nd_bridges := bs, nd_counters := cs\<rparr> \<and> bridge_admitted ?c ?bs ?b now bs taken" for bs cs t
    by blast
  have lid: "br_link_id ?b = lid" by (simp add: new_bridge_def)
  show ?thesis
  proof (cases "position (\<lambda>b. br_link_id b = lid) ?bs")
    case (Some k)
    note k = position_Some[OF Some]
    then have kl: "br_link_id ?b = br_link_id (?bs ! k)" by (simp add: lid)
    show ?thesis
    proof (cases "br_proof_deadline (?bs ! k) = None")
      case True
      then have "n' = n\<lparr>nd_bridges := ?bs, nd_counters := nd_counters n\<rparr>" "taken = True"
        using n' Some by (auto simp: remember_bridge_def Let_def)
      moreover have "bridge_admitted ?c ?bs ?b now ?bs True"
        using ok True k lid by (auto simp: bridge_admitted_def intro!: bexI[of _ "?bs ! k"])
      ultimately show ?thesis by (blast intro: wit)
    next
      case False
      then have "n' = n\<lparr>nd_bridges := ?bs[k := ?b], nd_counters := nd_counters n\<rparr>" "taken = True"
        using n' Some by (auto simp: remember_bridge_def Let_def new_bridge_def)
      moreover have "bridge_admitted ?c ?bs ?b now (?bs[k := ?b]) True"
        using bridges_ok_update[OF ok _ kl] k False by (auto simp: bridge_admitted_def carried_link_def)
      ultimately show ?thesis by (blast intro: wit)
    qed
  next
    case None
    then have new: "lid \<notin> br_link_id ` set ?bs" unfolding position_None by auto
    have D: "distinct (map br_link_id ?bs)" "length ?bs \<le> ?c" using ok by (simp_all add: bridges_ok_def)
    consider "length ?bs < ?c" | "length ?bs = ?c" "bridge_to_evict ?bs now = None"
      | k where "length ?bs = ?c" "bridge_to_evict ?bs now = Some k" using D(2) by fastforce
    then show ?thesis
    proof cases
      case 1
      then have "n' = n\<lparr>nd_bridges := ?bs @ [?b], nd_counters := nd_counters n\<rparr>" "taken = True"
        using n' None by (auto simp: remember_bridge_def Let_def new_bridge_def)
      moreover have "bridge_admitted ?c ?bs ?b now (?bs @ [?b]) True"
        using 1 D new lid by (auto simp: bridge_admitted_def bridges_ok_def)
      ultimately show ?thesis by (blast intro: wit)
    next
      case 2
      then have "n' = n\<lparr>nd_bridges := ?bs, nd_counters := n_refused_bridges_update inc (nd_counters n)\<rparr>" "taken = False"
        using n' None by (auto simp: remember_bridge_def Let_def)
      moreover have "bridge_admitted ?c ?bs ?b now ?bs False" using ok by (auto simp: bridge_admitted_def)
      ultimately show ?thesis by (blast intro: wit)
    next
      case 3
      note E = bridge_to_evict_Some[OF 3(2)]
      note S = bridges_ok_swap_remove[OF ok E(1)]
      have room: "length (swap_remove k ?bs) < ?c" using E(1) 3(1) by simp
      then have "n' = n\<lparr>nd_bridges := swap_remove k ?bs @ [?b], nd_counters := n_evicted_bridges_update inc (nd_counters n)\<rparr>"
        "taken = True"
        using n' None 3 by (auto simp: remember_bridge_def Let_def new_bridge_def)
      moreover have "bridge_admitted ?c ?bs ?b now (swap_remove k ?bs @ [?b]) True"
        using room S E new lid by (auto simp: bridge_admitted_def bridges_ok_def)
      ultimately show ?thesis by (blast intro: wit)
    qed
  qed
qed

section \<open>What crosses a bridge\<close>

text \<open>The packet as a hop sends it on, and the side of a bridge it leaves by.\<close>

definition hop_on :: "address_hash option \<Rightarrow> packet \<Rightarrow> packet" where
  "hop_on transport p = address_via (p\<lparr>pk_hops := next_hops p, pk_header_type := Type1, pk_transport := None\<rparr>) transport"

definition other_side :: "link_bridge \<Rightarrow> interface_id \<Rightarrow> interface_id" where
  "other_side b i = (if i = br_from b then br_out b else br_from b)"

definition heard_bridge :: "nat \<Rightarrow> link_bridge \<Rightarrow> link_bridge" where
  "heard_bridge now b = b\<lparr>br_proof_deadline := None, br_seen := now\<rparr>"

text \<open>The conditions under which a packet of the bridge's link is carried.\<close>

definition crosses :: "curves \<Rightarrow> sha256 \<Rightarrow> node \<Rightarrow> interface_id \<Rightarrow> packet \<Rightarrow> nat \<Rightarrow> link_bridge \<Rightarrow> bool" where
  "crosses c sha n i p now b \<longleftrightarrow> (i = br_from b \<or> i = br_out b)
     \<and> (if link_proof p then proof_signed c n b i p else br_proof_deadline b = None)
     \<and> next_hops p < tc_max_hops (nd_transport n) \<and> snd (transit_is_new sha n p now)
     \<and> encoded_len (hop_on None p) \<le> unat (nd_logical_mtu n)"

lemma transit_hash_frame: "\<exists>g. fst (transit_hash_is_new n c h now) = n\<lparr>nd_transit_filter := g\<rparr>"
  by (cases n) (auto simp: transit_hash_is_new_def Let_def split: prod.split)

lemma transit_frame: "\<exists>g. fst (transit_is_new sha n p now) = n\<lparr>nd_transit_filter := g\<rparr>"
  unfolding transit_is_new_def by (rule transit_hash_frame)

lemma find_bridge:
  assumes "bridges_ok c bs" "b \<in> set bs"
  obtains k where "position (\<lambda>x. br_link_id x = br_link_id b) bs = Some k" "k < length bs" "bs ! k = b"
proof -
  obtain k where P: "position (\<lambda>x. br_link_id x = br_link_id b) bs = Some k"
    using assms(2) position_None[of "\<lambda>x. br_link_id x = br_link_id b" bs] by (cases "position (\<lambda>x. br_link_id x = br_link_id b) bs") auto
  note k = position_Some[OF P]
  moreover have "bs ! k = b" using k assms by (auto simp: bridges_ok_def distinct_map dest: inj_onD)
  ultimately show thesis using that P by blast
qed

text \<open>A list the code appends an action to, if there is room.\<close>

definition pushed :: "actions \<Rightarrow> action \<Rightarrow> actions" where
  "pushed acts a = acts\<lparr>as_items := as_items acts @ [a]\<rparr>"

definition room :: "actions \<Rightarrow> bool" where
  "room acts \<longleftrightarrow> length (as_items acts) < as_N acts"

lemma push_action_alt:
  "push_action acts a = (if room acts then (pushed acts a, True) else (acts\<lparr>as_overflowed := inc (as_overflowed acts)\<rparr>, False))"
  by (simp add: push_action_def room_def pushed_def)

definition kept_bridges :: "node \<Rightarrow> actions \<Rightarrow> node \<Rightarrow> actions \<Rightarrow> bool" where
  "kept_bridges n acts n' acts' \<longleftrightarrow> nd_bridges n' = nd_bridges n \<and> as_items acts' = as_items acts"

lemma forward_bridged_spec:
  assumes ok: "bridges_inv n" and relay: "tc_relay_packets (nd_transport n)"
    and b: "b \<in> set (nd_bridges n)" "br_link_id b = pk_destination p"
    and f: "forward_bridged_packet c sha n i p now acts = (n', acts', handled)"
  shows "handled"
    "if crosses c sha n i p now b \<and> room acts
     then acts' = pushed acts (ActSend (other_side b i) (hop_on None p))
       \<and> set (nd_bridges n') = insert (heard_bridge now b) (set (nd_bridges n) - {b}) \<and> bridges_inv n'
     else kept_bridges n acts n' acts'" (is ?thesis2)
proof -
  obtain k where k: "position (\<lambda>x. br_link_id x = pk_destination p) (nd_bridges n) = Some k"
    "k < length (nd_bridges n)" "nd_bridges n ! k = b"
    using find_bridge[OF ok b(1)] b(2) by metis
  obtain g fresh where g: "transit_is_new sha n p now = (n\<lparr>nd_transit_filter := g\<rparr>, fresh)"
    using transit_frame[of sha n p now] by (metis prod.collapse)
  have h: "hop_on None p = p\<lparr>pk_hops := next_hops p, pk_header_type := Type1, pk_transport := None\<rparr>"
    by (simp add: hop_on_def address_via_def)
  have U: "bridges_ok (nd_ROUTES n) ((nd_bridges n)[k := heard_bridge now b])"
    "set ((nd_bridges n)[k := heard_bridge now b]) = insert (heard_bridge now b) (set (nd_bridges n) - {b})"
    using bridges_ok_update[OF ok k(2), of "heard_bridge now b"] k(3) by (simp_all add: heard_bridge_def)
  note D = f[unfolded forward_bridged_packet_def, simplified relay k option.case Let_def g prod.case, simplified]
  show handled using D by (auto simp: push_action_alt split: if_splits)
  consider (side) "i \<noteq> br_from b \<and> i \<noteq> br_out b" 
    | (unproved) "i = br_from b \<or> i = br_out b" "if link_proof p then \<not> proof_signed c n b i p else br_proof_deadline b \<noteq> None"
    | (far) "i = br_from b \<or> i = br_out b" "\<not> (if link_proof p then \<not> proof_signed c n b i p else br_proof_deadline b \<noteq> None)"
        "tc_max_hops (nd_transport n) \<le> next_hops p"
    | (near) "i = br_from b \<or> i = br_out b" "\<not> (if link_proof p then \<not> proof_signed c n b i p else br_proof_deadline b \<noteq> None)"
        "\<not> tc_max_hops (nd_transport n) \<le> next_hops p" by blast
  then show ?thesis2
  proof cases
    case near
    have hb: "(if link_proof p then b\<lparr>br_proof_deadline := None\<rparr> else b)\<lparr>br_seen := now\<rparr> = heard_bridge now b"
      using near(2) by (cases b) (auto simp: heard_bridge_def split: if_splits)
    let ?n = "n\<lparr>nd_transit_filter := g\<rparr>" and ?p = "hop_on None p"
    have P: "(if \<not> fresh then (?n, acts, True) else if too_long ?n ?p then (refuse_payload ?n, acts, True)
      else let (acts, sent) = push_action acts (ActSend (other_side b i) ?p)
           in if sent then (counted (n_forwarded_packets_update inc) (?n\<lparr>nd_bridges := (nd_bridges n)[k := heard_bridge now b]\<rparr>), acts, True)
              else (?n, acts, True)) = (n', acts', handled)"
      using D near unfolding hb[symmetric] h other_side_def Let_def
      by (cases "link_proof p"; cases "i = br_from b") (simp_all split del: if_split cong: if_cong del: not_None_eq)
    have C: "crosses c sha n i p now b \<longleftrightarrow> fresh \<and> \<not> too_long ?n ?p"
      using near by (auto simp: crosses_def g too_long_def split: if_splits)
    show ?thesis
    proof (cases "fresh \<and> \<not> too_long ?n ?p")
      case True
      show ?thesis
      proof (cases "room acts")
        case room: True
        have "n' = counted (n_forwarded_packets_update inc) (?n\<lparr>nd_bridges := (nd_bridges n)[k := heard_bridge now b]\<rparr>)"
          "acts' = pushed acts (ActSend (other_side b i) ?p)"
          using P True room by (simp_all add: push_action_alt)
        with U C True room show ?thesis by simp
      next
        case False
        then have "n' = ?n" "acts' = acts\<lparr>as_overflowed := inc (as_overflowed acts)\<rparr>"
          using P True by (simp_all add: push_action_alt)
        with False show ?thesis by (simp add: kept_bridges_def)
      qed
    next
      case False
      with P C show ?thesis by (auto simp: kept_bridges_def refuse_payload_def split: if_splits)
    qed
  qed (use D in \<open>auto simp: crosses_def kept_bridges_def split: if_splits\<close>)
qed

text \<open>What a node is set up with, which forwarding never changes.\<close>

definition setup_of :: "node \<Rightarrow> address_hash \<times> address_hash \<times> transport_config \<times> u32 \<times> nat \<times> address_book" where
  "setup_of n = (nd_identity n, nd_destination n, nd_transport n, nd_logical_mtu n, nd_ROUTES n, nd_book n)"

lemma forward_bridged_setup: "setup_of (fst (forward_bridged_packet c sha n i p now acts)) = setup_of n"
proof -
  obtain g fresh where g: "transit_is_new sha n p now = (n\<lparr>nd_transit_filter := g\<rparr>, fresh)"
    using transit_frame[of sha n p now] by (metis prod.collapse)
  show ?thesis
    by (simp add: forward_bridged_packet_def g Let_def push_action_alt setup_of_def refuse_payload_def split: option.split)
qed

lemma forward_bridged_unknown:
  "pk_destination p \<notin> br_link_id ` set (nd_bridges n) \<or> \<not> tc_relay_packets (nd_transport n) \<Longrightarrow>
     forward_bridged_packet c sha n i p now acts = (n, acts, False)"
proof -
  assume a: "pk_destination p \<notin> br_link_id ` set (nd_bridges n) \<or> \<not> tc_relay_packets (nd_transport n)"
  have "position (\<lambda>b. br_link_id b = pk_destination p) (nd_bridges n) = None"
    if "pk_destination p \<notin> br_link_id ` set (nd_bridges n)" unfolding position_None using that by force
  with a show ?thesis by (cases "tc_relay_packets (nd_transport n)") (simp_all add: forward_bridged_packet_def)
qed

section \<open>What a transport hop carries\<close>

definition addressed_to :: "node \<Rightarrow> packet \<Rightarrow> bool" where
  "addressed_to n p \<longleftrightarrow> tc_relay_packets (nd_transport n) \<and> pk_header_type p = Type2
     \<and> pk_transport p = Some (nd_identity n) \<and> pk_destination p \<noteq> nd_destination n"

definition carried_as :: "node \<Rightarrow> packet \<Rightarrow> route \<Rightarrow> packet \<Rightarrow> bool" where
  "carried_as n p r q \<longleftrightarrow> r \<in> set (nd_routes n) \<and> rt_destination r = pk_destination p
     \<and> next_hops p < tc_max_hops (nd_transport n) \<and> encoded_len q \<le> unat (nd_logical_mtu n)
     \<and> (if pk_packet_type p = LinkRequest then clamp_request_mtu (hop_on (rt_transport r) p) (nd_logical_mtu n) = Inr q
        else q = hop_on (rt_transport r) p)"

definition request_bridge :: "node \<Rightarrow> interface_id \<Rightarrow> packet \<Rightarrow> route \<Rightarrow> nat \<Rightarrow> address_hash \<Rightarrow> link_bridge" where
  "request_bridge n i p r now lid = new_bridge lid (pk_destination p) i (rt_interface r)
     (sat_add u64_max (sat_add u64_max now (transit_proof_timeout (rt_hops r))) (first_hop_airtime n (rt_interface r))) now"

lemma bridge_request_spec:
  assumes ok: "bridges_inv n" and m: "bridge_request sha n i p r now acts = (m, taken)"
  shows "\<exists>bs cs. m = n\<lparr>nd_bridges := bs, nd_counters := cs\<rparr> \<and> bridges_ok (nd_ROUTES n) bs
    \<and> (\<forall>x \<in> set (nd_bridges n). carried_link now x \<longrightarrow> x \<in> set bs)
    \<and> (\<forall>x \<in> set bs. x \<in> set (nd_bridges n) \<or> (\<exists>lid. link_id sha p = Inr lid \<and> x = request_bridge n i p r now lid))
    \<and> (taken \<longrightarrow> pk_packet_type p = LinkRequest \<longrightarrow> room acts \<longrightarrow>
        (\<forall>lid. link_id sha p = Inr lid \<longrightarrow>
          (\<exists>x \<in> set bs. br_link_id x = lid \<and> (x = request_bridge n i p r now lid \<or> br_proof_deadline x = None))))
    \<and> (\<not> taken \<longrightarrow> bs = nd_bridges n)
    \<and> (\<not> (room acts \<and> pk_packet_type p = LinkRequest) \<longrightarrow> taken \<and> bs = nd_bridges n)"
proof (cases "pk_packet_type p = LinkRequest \<and> room acts")
  case False
  then have "m = n\<lparr>nd_bridges := nd_bridges n, nd_counters := nd_counters n\<rparr>" "taken"
    using m by (auto simp: bridge_request_def room_def)
  with ok False show ?thesis by blast
next
  case R: True
  show ?thesis
  proof (cases "link_id sha p")
    case (Inl e)
    then have "m = n\<lparr>nd_bridges := nd_bridges n, nd_counters := nd_counters n\<rparr>" "taken"
      using m R by (auto simp: bridge_request_def room_def)
    with ok Inl show ?thesis by (intro exI[of _ "nd_bridges n"] exI[of _ "nd_counters n"]) simp
  next
    case (Inr lid)
    let ?b = "request_bridge n i p r now lid"
    have "remember_bridge n lid (pk_destination p) i (rt_interface r)
      (sat_add u64_max (sat_add u64_max now (transit_proof_timeout (rt_hops r))) (first_hop_airtime n (rt_interface r))) now = (m, taken)"
      using m R Inr by (simp add: bridge_request_def room_def)
    from remember_bridge_spec[OF ok this] obtain bs cs where
      B: "m = n\<lparr>nd_bridges := bs, nd_counters := cs\<rparr>" "bridge_admitted (nd_ROUTES n) (nd_bridges n) ?b now bs taken"
      unfolding request_bridge_def by blast
    have "br_link_id ?b = lid" by (simp add: request_bridge_def new_bridge_def)
    with B R Inr show ?thesis
      unfolding bridge_admitted_def by (intro exI[of _ bs] exI[of _ cs]) (auto split: if_splits)
  qed
qed

lemma request_bridge_filter: "request_bridge (n\<lparr>nd_transit_filter := g\<rparr>) i p r now lid = request_bridge n i p r now lid"
  by (simp add: request_bridge_def first_hop_airtime_def)

definition request_step :: "sha256 \<Rightarrow> node \<Rightarrow> interface_id \<Rightarrow> packet \<Rightarrow> route \<Rightarrow> nat \<Rightarrow> actions \<Rightarrow> bool \<Rightarrow> link_bridge list \<Rightarrow> bool" where
  "request_step sha n i p r now acts taken bs \<longleftrightarrow> bridges_ok (nd_ROUTES n) bs
     \<and> (\<forall>x \<in> set (nd_bridges n). carried_link now x \<longrightarrow> x \<in> set bs)
     \<and> (\<forall>x \<in> set bs. x \<in> set (nd_bridges n) \<or> (\<exists>lid. x = request_bridge n i p r now lid))
     \<and> (\<forall>lid. taken \<longrightarrow> pk_packet_type p = LinkRequest \<longrightarrow> room acts \<longrightarrow> link_id sha p = Inr lid \<longrightarrow>
         (\<exists>x \<in> set bs. br_link_id x = lid \<and> (x = request_bridge n i p r now lid \<or> br_proof_deadline x = None)))"

lemma bridge_requestE:
  assumes "bridges_inv n" "bridge_request sha (n\<lparr>nd_transit_filter := g\<rparr>) i p r now acts = (m, taken)"
  obtains bs cs where "m = n\<lparr>nd_transit_filter := g, nd_bridges := bs, nd_counters := cs\<rparr>"
    "request_step sha n i p r now acts taken bs"
proof -
  have ok: "bridges_inv (n\<lparr>nd_transit_filter := g\<rparr>)" using assms(1) by simp
  from bridge_request_spec[OF ok assms(2)] show thesis
    unfolding request_bridge_filter by (elim exE conjE) (rule that, assumption, force simp: request_step_def)
qed

definition carried_on :: "node \<Rightarrow> interface_id \<Rightarrow> packet \<Rightarrow> address_hash \<Rightarrow> route \<Rightarrow> nat \<Rightarrow> node" where
  "carried_on m i p hash r now =
    (let n = touch_route m (pk_destination p) now;
         n = (if pk_packet_type p \<noteq> LinkRequest then remember_reverse n hash i (rt_interface r) now else n)
     in counted (n_forwarded_packets_update inc) n)"

lemma carried_on_filter: "nd_transit_filter (carried_on m i p h r now) = nd_transit_filter m"
  by (simp add: carried_on_def touch_route_def remember_reverse_def Let_def split: option.split)

lemma forward_transport_eq:
  assumes a: "addressed_to n p" and hops: "next_hops p < tc_max_hops (nd_transport n)"
    and r: "find (\<lambda>r. rt_destination r = pk_destination p) (nd_routes n) = Some r"
    and g: "transit_hash_is_new n (pk_context p) (packet_hash sha p) now = (n', True)"
    and q: "(if pk_packet_type p = LinkRequest then clamp_request_mtu (hop_on (rt_transport r) p) (nd_logical_mtu n')
             else Inr (hop_on (rt_transport r) p)) = Inr q"
    and m: "bridge_request sha n' i p r now acts = (m, taken)"
  shows "forward_transport_packet sha n i p now acts =
    (if too_long n' q then (refuse_payload n', acts, True) else if \<not> taken then (m, acts, True) else
     let (acts, sent) = push_action acts (ActSend (rt_interface r) q) in
     if sent then (carried_on m i p (packet_hash sha p) r now, acts, True) else (m, acts, True))"
proof -
  have A: "tc_relay_packets (nd_transport n)" "pk_header_type p = Type2" "pk_transport p = Some (nd_identity n)"
    "pk_destination p \<noteq> nd_destination n" "\<not> tc_max_hops (nd_transport n) \<le> next_hops p"
    using a hops by (auto simp: addressed_to_def)
  show ?thesis using q by (cases "rt_transport r"; cases "pk_packet_type p = LinkRequest")
    (simp_all add: forward_transport_packet_def A r g m hop_on_def address_via_def carried_on_def Let_def
      push_action_alt cong: if_cong)
qed

lemma forward_transport_cases:
  assumes ok: "bridges_inv n" and f: "forward_transport_packet sha n i p now acts = (n', acts', handled)"
  obtains
    (kept) "as_items acts' = as_items acts" "nd_bridges n' = nd_bridges n" "nd_routes n' = nd_routes n"
      "nd_reverse n' = nd_reverse n" "setup_of n' = setup_of n" "handled \<longleftrightarrow> addressed_to n p"
  | (sent) r q g m where "addressed_to n p" "handled" "carried_as n p r q" "room acts" "acts' = pushed acts (ActSend (rt_interface r) q)"
      "bridge_request sha (n\<lparr>nd_transit_filter := g\<rparr>) i p r now acts = (m, True)" "n' = carried_on m i p (packet_hash sha p) r now"
proof (cases "addressed_to n p \<and> next_hops p < tc_max_hops (nd_transport n)")
  case False
  then have "as_items acts' = as_items acts \<and> nd_bridges n' = nd_bridges n \<and> nd_routes n' = nd_routes n
    \<and> nd_reverse n' = nd_reverse n \<and> setup_of n' = setup_of n \<and> (handled \<longleftrightarrow> addressed_to n p)"
    using f by (cases "pk_header_type p") (auto simp: forward_transport_packet_def addressed_to_def setup_of_def split: if_splits)
  then show thesis using kept by blast
next
  case A: True
  then have A': "tc_relay_packets (nd_transport n)" "pk_header_type p = Type2" "pk_transport p = Some (nd_identity n)"
    "pk_destination p \<noteq> nd_destination n" "\<not> tc_max_hops (nd_transport n) \<le> next_hops p" "addressed_to n p"
    by (auto simp: addressed_to_def)
  show thesis
  proof (cases "find (\<lambda>r. rt_destination r = pk_destination p) (nd_routes n)")
    case None
    then have "n' = counted (n_unroutable_packets_update inc) n" "acts' = acts" "handled"
      using f A' by (simp_all add: forward_transport_packet_def)
    then show thesis using kept A' by (simp add: setup_of_def)
  next
    case (Some r)
    have r: "r \<in> set (nd_routes n)" "rt_destination r = pk_destination p"
      using Some by (auto simp: find_Some_iff)
    obtain g fresh where g: "transit_hash_is_new n (pk_context p) (packet_hash sha p) now = (n\<lparr>nd_transit_filter := g\<rparr>, fresh)"
      using transit_hash_frame[of n "pk_context p" "packet_hash sha p" now] by (metis prod.collapse)
    let ?n = "n\<lparr>nd_transit_filter := g\<rparr>"
    let ?q = "hop_on (rt_transport r) p"
    let ?cl = "if pk_packet_type p = LinkRequest then clamp_request_mtu ?q (nd_logical_mtu n) else Inr ?q"
    have K: thesis if "n' = ?n\<lparr>nd_counters := cs, nd_refused_payloads := u\<rparr>" "as_items acts' = as_items acts" "handled" for cs u
      using that kept A' by (simp add: setup_of_def)
    show thesis
    proof (cases "fresh")
      case False
      then have "n' = ?n" "acts' = acts" "handled" using f by (simp_all add: forward_transport_packet_def A' Some g)
      then show thesis using K[where cs = "nd_counters n" and u = "nd_refused_payloads n"] by simp
    next
      case fresh: True
      show thesis
      proof (cases ?cl)
        case (Inl e)
        then have "n' = counted (n_undecodable_link_requests_update inc) ?n" "acts' = acts" "handled"
          using f fresh by (cases "rt_transport r"; simp add: forward_transport_packet_def A' Some g hop_on_def address_via_def split: if_splits)+
        then show thesis using K[where cs = "n_undecodable_link_requests_update inc (nd_counters n)" and u = "nd_refused_payloads n"] by simp
      next
        case (Inr q)
        have fresh_eq: "fresh = True" using fresh by simp
        obtain m taken where m: "bridge_request sha ?n i p r now acts = (m, taken)" by fastforce
        have mtu: "nd_logical_mtu ?n = nd_logical_mtu n" by simp
        have q: "(if pk_packet_type p = LinkRequest then clamp_request_mtu ?q (nd_logical_mtu ?n) else Inr ?q) = Inr q"
          unfolding mtu by (rule Inr)
        note F = forward_transport_eq[OF A'(6) conjunct2[OF A] Some g[unfolded fresh_eq] q m]
        have "\<exists>bs cs. m = ?n\<lparr>nd_bridges := bs, nd_counters := cs\<rparr> \<and> (\<not> taken \<longrightarrow> bs = nd_bridges n)
            \<and> (\<not> room acts \<longrightarrow> taken \<and> bs = nd_bridges n)"
          using bridge_request_spec[OF _ m] ok by auto
        then obtain bs cs where B: "m = ?n\<lparr>nd_bridges := bs, nd_counters := cs\<rparr>" "\<not> taken \<longrightarrow> bs = nd_bridges n"
          "\<not> room acts \<longrightarrow> taken \<and> bs = nd_bridges n" by blast
        consider "too_long ?n q" | "\<not> too_long ?n q" "\<not> taken" | "\<not> too_long ?n q" "taken" "\<not> room acts"
          | "\<not> too_long ?n q" "taken" "room acts" by blast
        then show thesis
        proof cases
          case 1
          then have "n' = refuse_payload ?n" "acts' = acts" "handled" using F f by simp_all
          then show thesis
            by (intro K[where cs = "nd_counters n" and u = "sat_add u64_max (nd_refused_payloads n) 1"]) (simp_all add: refuse_payload_def)
        next
          case 2
          then have "n' = m" "acts' = acts" "handled" using F f by simp_all
          with 2 B show thesis by (intro K[where cs = cs and u = "nd_refused_payloads n"]) simp_all
        next
          case 3
          then have "n' = m" "as_items acts' = as_items acts" "handled" using F f by (auto simp: push_action_alt)
          with 3 B show thesis by (intro K[where cs = cs and u = "nd_refused_payloads n"]) simp_all
        next
          case 4
          have "carried_as n p r q" using r A Inr 4(1) by (simp add: carried_as_def too_long_def split: if_splits)
          moreover have "n' = carried_on m i p (packet_hash sha p) r now" "acts' = pushed acts (ActSend (rt_interface r) q)" "handled"
            using F f 4 by (simp_all add: push_action_alt)
          moreover have "bridge_request sha ?n i p r now acts = (m, True)" using m 4(2) by simp
          ultimately show thesis using sent A'(6) 4(3) by blast
        qed
      qed
    qed
  qed
qed

section \<open>The reverse table\<close>

definition reverse_ok :: "nat \<Rightarrow> reverse_entry list \<Rightarrow> bool" where
  "reverse_ok capacity es \<longleftrightarrow> distinct (map rv_packet es) \<and> length es \<le> capacity"

abbreviation reverse_inv :: "node \<Rightarrow> bool" where
  "reverse_inv n \<equiv> reverse_ok (nd_ROUTES n) (nd_reverse n)"

lemma append_row:
  assumes "distinct (map f xs) \<and> length xs \<le> c \<and> f x \<notin> f ` set xs \<and> (0 < c \<longrightarrow> length xs < c)"
  shows "(distinct (map f (if length xs < c then xs @ [x] else xs)) \<and> length (if length xs < c then xs @ [x] else xs) \<le> c)
    \<and> (0 < c \<longrightarrow> x \<in> set (if length xs < c then xs @ [x] else xs))"
  using assms by (auto simp: Suc_le_eq)

lemma remember_reverse_spec:
  assumes ok: "reverse_inv n"
  shows "\<exists>es. remember_reverse n h received outbound now = n\<lparr>nd_reverse := es\<rparr> \<and> reverse_ok (nd_ROUTES n) es
    \<and> (0 < nd_ROUTES n \<longrightarrow> \<lparr>rv_packet = h, rv_received = received, rv_outbound = outbound, rv_seen = now\<rparr> \<in> set es)"
proof -
  let ?rows = "filter (\<lambda>e. rv_packet e \<noteq> h) (nd_reverse n)" and ?c = "nd_ROUTES n"
  let ?row = "\<lparr>rv_packet = h, rv_received = received, rv_outbound = outbound, rv_seen = now\<rparr>"
  let ?rows' = "if length ?rows = ?c then (case min_index (\<lambda>_. True) rv_seen ?rows of Some index \<Rightarrow> swap_remove index ?rows | None \<Rightarrow> ?rows) else ?rows"
  have D: "distinct (map rv_packet ?rows)" "length ?rows \<le> ?c" "h \<notin> rv_packet ` set ?rows"
    using ok by (auto simp: reverse_ok_def distinct_map_filter intro: order.trans[OF length_filter_le])
  have R: "distinct (map rv_packet ?rows') \<and> length ?rows' \<le> ?c \<and> h \<notin> rv_packet ` set ?rows' \<and> (0 < ?c \<longrightarrow> length ?rows' < ?c)"
  proof (cases "length ?rows = ?c \<and> 0 < ?c")
    case False
    then have "?rows' = ?rows \<or> ?c = 0" by auto
    moreover have "?rows' = []" if "?c = 0"
      using D(2) that by (simp add: min_index_def split: option.split)
    ultimately show ?thesis using D False by (cases "?c = 0") (auto simp del: distinct_map)
  next
    case True
    then obtain k where k: "min_index (\<lambda>_. True) rv_seen ?rows = Some k"
      using min_index_None[of "\<lambda>_. True" rv_seen ?rows] by (cases "min_index (\<lambda>_. True) rv_seen ?rows") auto
    note S = swap_remove_distinct[OF min_index_Some(1)[OF k] D(1)]
    have r: "?rows' = swap_remove k ?rows" using True k by simp
    have "set (swap_remove k ?rows) \<subseteq> set ?rows" using S by blast
    with D(3) S True show ?thesis unfolding r by (auto simp del: distinct_map)
  qed
  have e: "remember_reverse n h received outbound now = n\<lparr>nd_reverse := if length ?rows' < ?c then ?rows' @ [?row] else ?rows'\<rparr>"
    by (simp add: remember_reverse_def Let_def)
  show ?thesis
    unfolding reverse_ok_def e
    by (rule exI[of _ "if length ?rows' < ?c then ?rows' @ [?row] else ?rows'"], rule conjI[OF HOL.refl])
      (rule append_row, unfold reverse_entry.select_convs, rule R)
qed

lemma forward_reverse_spec:
  assumes ok: "reverse_inv n" and relay: "tc_relay_packets (nd_transport n)"
    and ctx: "pk_context p \<noteq> CTX_LRPROOF" "pk_context p \<noteq> CTX_RESOURCE_PRF"
    and e: "e \<in> set (nd_reverse n)" "rv_packet e = pk_destination p" "rv_outbound e = i"
    and fits: "encoded_len p \<le> unat (nd_logical_mtu n)" and room: "room acts"
    and f: "forward_reverse_proof n i p acts = (n', acts', handled)"
  shows "handled \<and> acts' = pushed acts (ActSend (rv_received e) (p\<lparr>pk_hops := next_hops p\<rparr>))
    \<and> set (nd_reverse n') = set (nd_reverse n) - {e}"
proof -
  have D: "distinct (map rv_packet (nd_reverse n))" using ok by (simp add: reverse_ok_def)
  obtain k where P: "position (\<lambda>e. rv_packet e = pk_destination p) (nd_reverse n) = Some k"
    using e position_None[of "\<lambda>e. rv_packet e = pk_destination p" "nd_reverse n"]
    by (cases "position (\<lambda>e. rv_packet e = pk_destination p) (nd_reverse n)") auto
  note k = position_Some[OF P]
  have ke: "nd_reverse n ! k = e"
    using k e D inj_onD[of rv_packet "set (nd_reverse n)" "nd_reverse n ! k" e] by (simp add: distinct_map)
  have "set (swap_remove k (nd_reverse n)) = {x \<in> set (nd_reverse n). rv_packet x \<noteq> rv_packet e}"
    using swap_remove_distinct[OF _ D, of k] k ke by blast
  also have "\<dots> = set (nd_reverse n) - {e}" using D e(1) by (auto simp: distinct_map dest: inj_onD)
  finally have S: "set (swap_remove k (nd_reverse n)) = set (nd_reverse n) - {e}" .
  have "encoded_len (p\<lparr>pk_hops := next_hops p\<rparr>) = encoded_len p" by (simp add: encoded_len_def)
  then have l: "\<not> unat (nd_logical_mtu n) < encoded_len (p\<lparr>pk_hops := next_hops p\<rparr>)" using fits by simp
  have "forward_reverse_proof n i p acts = (counted (n_forwarded_packets_update inc) (n\<lparr>nd_reverse := swap_remove k (nd_reverse n)\<rparr>),
      pushed acts (ActSend (rv_received e) (p\<lparr>pk_hops := next_hops p\<rparr>)), True)"
    by (simp add: forward_reverse_proof_def relay ctx P ke e(3) too_long_def l push_action_alt room)
  with f have "n' = counted (n_forwarded_packets_update inc) (n\<lparr>nd_reverse := swap_remove k (nd_reverse n)\<rparr>)"
    "acts' = pushed acts (ActSend (rv_received e) (p\<lparr>pk_hops := next_hops p\<rparr>))" "handled" by auto
  with S show ?thesis by simp
qed

lemma touch_route_spec:
  assumes "routes_inv n"
  shows "\<exists>rs. touch_route n d now = n\<lparr>nd_routes := rs\<rparr> \<and> routes_ok (nd_ROUTES n) (nd_destination n) rs"
proof (cases "position (\<lambda>r. rt_destination r = d) (nd_routes n)")
  case None
  with assms show ?thesis by (intro exI[of _ "nd_routes n"]) (simp add: touch_route_def)
next
  case (Some k)
  note k = position_Some[OF Some]
  have "routes_ok (nd_ROUTES n) (nd_destination n) ((nd_routes n)[k := (nd_routes n ! k)\<lparr>rt_learned := now\<rparr>])"
    using k by (intro routes_ok_replace(1)[OF assms]) simp_all
  with Some show ?thesis by (auto simp: touch_route_def)
qed

lemma carried_on_spec:
  assumes r: "routes_inv m" and v: "reverse_inv m"
  shows "\<exists>rs es cs. carried_on m i p h r now = m\<lparr>nd_routes := rs, nd_reverse := es, nd_counters := cs\<rparr>
    \<and> routes_ok (nd_ROUTES m) (nd_destination m) rs \<and> reverse_ok (nd_ROUTES m) es
    \<and> (pk_packet_type p \<noteq> LinkRequest \<longrightarrow> 0 < nd_ROUTES m \<longrightarrow>
        \<lparr>rv_packet = h, rv_received = i, rv_outbound = rt_interface r, rv_seen = now\<rparr> \<in> set es)"
proof -
  obtain rs where T: "touch_route m (pk_destination p) now = m\<lparr>nd_routes := rs\<rparr>" "routes_ok (nd_ROUTES m) (nd_destination m) rs"
    using touch_route_spec[OF r] by blast
  obtain es where E: "remember_reverse (m\<lparr>nd_routes := rs\<rparr>) h i (rt_interface r) now = m\<lparr>nd_routes := rs, nd_reverse := es\<rparr>"
    "reverse_ok (nd_ROUTES m) es"
    "0 < nd_ROUTES m \<longrightarrow> \<lparr>rv_packet = h, rv_received = i, rv_outbound = rt_interface r, rv_seen = now\<rparr> \<in> set es"
  proof -
    have v': "reverse_inv (m\<lparr>nd_routes := rs\<rparr>)" using v by simp
    obtain es where "remember_reverse (m\<lparr>nd_routes := rs\<rparr>) h i (rt_interface r) now = m\<lparr>nd_routes := rs\<rparr>\<lparr>nd_reverse := es\<rparr>"
      "reverse_ok (nd_ROUTES m) es"
      "0 < nd_ROUTES m \<longrightarrow> \<lparr>rv_packet = h, rv_received = i, rv_outbound = rt_interface r, rv_seen = now\<rparr> \<in> set es"
      using remember_reverse_spec[OF v', of h i "rt_interface r" now] by force
    with that show thesis by simp
  qed
  show ?thesis
  proof (cases "pk_packet_type p = LinkRequest")
    case True
    then have "carried_on m i p h r now =
        m\<lparr>nd_routes := rs, nd_reverse := nd_reverse m, nd_counters := n_forwarded_packets_update inc (nd_counters m)\<rparr>"
      by (simp add: carried_on_def T)
    with T(2) v True show ?thesis
      by (intro exI[of _ rs] exI[of _ "nd_reverse m"] exI[of _ "n_forwarded_packets_update inc (nd_counters m)"]) simp
  next
    case False
    then have "carried_on m i p h r now =
        m\<lparr>nd_routes := rs, nd_reverse := es, nd_counters := n_forwarded_packets_update inc (nd_counters m)\<rparr>"
      by (simp add: carried_on_def T E)
    with T(2) E(2,3) show ?thesis
      by (intro exI[of _ rs] exI[of _ es] exI[of _ "n_forwarded_packets_update inc (nd_counters m)"]) simp
  qed
qed

section \<open>The packet a hop sends on\<close>

lemma next_hops_less: "next_hops p < m \<Longrightarrow> unat (next_hops p) = unat (pk_hops p) + 1"
proof -
  assume l: "next_hops p < m"
  have small: "k < 256 \<Longrightarrow> unat (of_nat k :: u8) = k" for k by (simp add: unat_of_nat)
  have u: "unat (next_hops p) = min 255 (unat (pk_hops p) + 1)"
    unfolding next_hops_def sat_add_def u8_max_def by (rule small) simp
  have "unat (next_hops p) < 255" using l u8_less[of m] by (simp add: word_less_nat_alt)
  with u show ?thesis by simp
qed

lemma hop_on_same: "packet_hash sha (hop_on t p) = packet_hash sha p" "link_id sha (hop_on t p) = link_id sha p"
  "pk_hops (hop_on t p) = next_hops p" "pk_destination (hop_on t p) = pk_destination p"
  "pk_payload (hop_on t p) = pk_payload p"
  by (cases t; simp add: hop_on_def address_via_def packet_hash_def packet_full_hash_masked link_id_rewritten)+

lemma carried_link_id:
  assumes "carried_as n p r q"
  shows "link_id sha q = link_id sha p" "pk_hops q = next_hops p" "pk_destination q = pk_destination p"
    "pk_packet_type p \<noteq> LinkRequest \<Longrightarrow> packet_hash sha q = packet_hash sha p"
proof -
  have "link_id sha q = link_id sha p \<and> pk_hops q = next_hops p \<and> pk_destination q = pk_destination p"
  proof (cases "pk_packet_type p = LinkRequest")
    case True
    then have c: "clamp_request_mtu (hop_on (rt_transport r) p) (nd_logical_mtu n) = Inr q" using assms by (simp add: carried_as_def)
    from c show ?thesis
    proof (cases rule: clamp_cases)
      case 1
      then show ?thesis by (simp add: hop_on_same)
    next
      case (2 m t)
      from clamp_rewritten(1)[OF 2] 2(4) show ?thesis by (simp add: hop_on_same)
    qed
  qed (use assms in \<open>simp add: carried_as_def hop_on_same\<close>)
  then show "link_id sha q = link_id sha p" "pk_hops q = next_hops p" "pk_destination q = pk_destination p" by simp_all
qed (use assms in \<open>simp add: carried_as_def hop_on_same\<close>)

section \<open>Properties\<close>

definition transit_inv :: "node \<Rightarrow> bool" where
  "transit_inv n \<longleftrightarrow> routes_inv n \<and> bridges_inv n \<and> reverse_inv n"

lemma transport_inv:
  assumes inv: "transit_inv n" and f: "forward_transport_packet sha n i p now acts = (n', acts', handled)"
  shows "transit_inv n'" "setup_of n' = setup_of n" "\<forall>b \<in> set (nd_bridges n). carried_link now b \<longrightarrow> b \<in> set (nd_bridges n')"
    "\<forall>b \<in> set (nd_bridges n'). b \<in> set (nd_bridges n) \<or> br_proof_deadline b \<noteq> None"
proof -
  have ok: "bridges_inv n" using inv by (simp add: transit_inv_def)
  have "transit_inv n' \<and> setup_of n' = setup_of n \<and> (\<forall>b \<in> set (nd_bridges n). carried_link now b \<longrightarrow> b \<in> set (nd_bridges n'))
    \<and> (\<forall>b \<in> set (nd_bridges n'). b \<in> set (nd_bridges n) \<or> br_proof_deadline b \<noteq> None)"
    using ok f
  proof (cases rule: forward_transport_cases)
    case kept
    then show ?thesis using inv by (simp add: transit_inv_def setup_of_def)
  next
    case (sent r q g m)
    from ok sent(6) obtain bs cs where
      m: "m = n\<lparr>nd_transit_filter := g, nd_bridges := bs, nd_counters := cs\<rparr>" "request_step sha n i p r now acts True bs"
      using bridge_requestE by blast
    have "routes_inv m" "reverse_inv m" using inv m(1) by (simp_all add: transit_inv_def)
    from carried_on_spec[OF this] obtain rs es ks where
      "n' = m\<lparr>nd_routes := rs, nd_reverse := es, nd_counters := ks\<rparr>" "routes_ok (nd_ROUTES m) (nd_destination m) rs"
      "reverse_ok (nd_ROUTES m) es" unfolding sent(7) by blast
    moreover have "br_proof_deadline (request_bridge n i p r now lid) \<noteq> None" for n lid
      by (simp add: request_bridge_def new_bridge_def)
    ultimately show ?thesis using m unfolding request_step_def by (auto simp: transit_inv_def setup_of_def)
  qed
  then show "transit_inv n'" "setup_of n' = setup_of n" "\<forall>b \<in> set (nd_bridges n). carried_link now b \<longrightarrow> b \<in> set (nd_bridges n')"
    "\<forall>b \<in> set (nd_bridges n'). b \<in> set (nd_bridges n) \<or> br_proof_deadline b \<noteq> None" by blast+
qed

lemma request_carried:
  assumes inv: "transit_inv n" and f: "forward_transport_packet sha n i p now acts = (n', acts', handled)"
    and sent: "as_items acts' \<noteq> as_items acts" and lr: "pk_packet_type p = LinkRequest" and lid: "link_id sha p = Inr lid"
  shows "\<exists>r q b. carried_as n p r q \<and> acts' = pushed acts (ActSend (rt_interface r) q) \<and> b \<in> set (nd_bridges n')
    \<and> br_link_id b = lid \<and> (br_proof_deadline b = None \<or> b = request_bridge n i p r now lid)"
proof -
  have ok: "bridges_inv n" using inv by (simp add: transit_inv_def)
  from ok f show ?thesis
  proof (cases rule: forward_transport_cases)
    case kept
    with \<open>as_items acts' \<noteq> as_items acts\<close> show ?thesis by simp
  next
    case (sent r q g m)
    from ok sent(6) obtain bs cs where
      m: "m = n\<lparr>nd_transit_filter := g, nd_bridges := bs, nd_counters := cs\<rparr>" "request_step sha n i p r now acts True bs"
      using bridge_requestE by blast
    obtain x where x: "x \<in> set bs" "br_link_id x = lid" "x = request_bridge n i p r now lid \<or> br_proof_deadline x = None"
      using m(2) lr sent(4) lid unfolding request_step_def by blast
    have "nd_bridges n' = bs" using sent(7) lr m(1) by (simp add: carried_on_def touch_route_def split: option.split)
    then show ?thesis using x sent(3,5) by auto
  qed
qed

text \<open>
  C30: a proved link that was heard within the idle time is never displaced: no packet addressed to
  the node, forged link requests included, costs it its bridge, and a packet of any link leaves
  the bridge as it was or, when it crosses it, heard again.
\<close>

theorem carried_link_stands:
  assumes "transit_inv n" "b \<in> set (nd_bridges n)" "carried_link now b"
  shows "b \<in> set (nd_bridges (fst (forward_transport_packet sha n i p now acts)))
    \<and> (b \<in> set (nd_bridges (fst (forward_bridged_packet c sha n i p now acts)))
       \<or> heard_bridge now b \<in> set (nd_bridges (fst (forward_bridged_packet c sha n i p now acts))))"
proof (intro conjI)
  obtain n1 a1 h1 where t: "forward_transport_packet sha n i p now acts = (n1, a1, h1)" by (rule prod_cases3)
  from transport_inv(3)[OF assms(1) t] assms(2,3) show "b \<in> set (nd_bridges (fst (forward_transport_packet sha n i p now acts)))"
    by (simp add: t)
  obtain n2 a2 h2 where f: "forward_bridged_packet c sha n i p now acts = (n2, a2, h2)" by (rule prod_cases3)
  have ok: "bridges_inv n" using assms(1) by (simp add: transit_inv_def)
  show "b \<in> set (nd_bridges (fst (forward_bridged_packet c sha n i p now acts)))
    \<or> heard_bridge now b \<in> set (nd_bridges (fst (forward_bridged_packet c sha n i p now acts)))"
  proof (cases "tc_relay_packets (nd_transport n) \<and> pk_destination p \<in> br_link_id ` set (nd_bridges n)")
    case True
    then obtain x where x: "x \<in> set (nd_bridges n)" "br_link_id x = pk_destination p" by auto
    from forward_bridged_spec(2)[OF ok _ x f] True assms(2) show ?thesis
      by (cases "x = b") (auto simp: f kept_bridges_def split: if_splits)
  next
    case False
    then have "forward_bridged_packet c sha n i p now acts = (n, acts, False)" by (intro forward_bridged_unknown) blast
    with assms(2) show ?thesis by simp
  qed
qed

text \<open>
  C29: a packet leaves over a bridge only for that bridge's link, to the other side it came from, with
  one more hop below the limit, its hash unchanged and within the carrier's size, and only over a
  proved link: otherwise it is the link's proof itself, from the destination's side and under the
  signature of the destination when its identity is known.
\<close>

theorem bridge_crossing:
  assumes "transit_inv n" "forward_bridged_packet c sha n i p now acts = (n', acts', handled)"
    and "as_items acts' \<noteq> as_items acts"
  shows "\<exists>b q. b \<in> set (nd_bridges n) \<and> br_link_id b = pk_destination p
    \<and> ((i = br_from b \<and> as_items acts' = as_items acts @ [ActSend (br_out b) q])
       \<or> (i = br_out b \<and> as_items acts' = as_items acts @ [ActSend (br_from b) q]))
    \<and> (br_proof_deadline b = None \<or> (link_proof p \<and> i = br_out b
        \<and> (case book_resolve (nd_book n) (br_destination b) of
             None \<Rightarrow> True | Some peer \<Rightarrow> proof_is_signed_by c p (pe_identity peer))))
    \<and> packet_hash sha q = packet_hash sha p \<and> unat (pk_hops q) = unat (pk_hops p) + 1
    \<and> pk_hops q < tc_max_hops (nd_transport n) \<and> encoded_len q \<le> unat (nd_logical_mtu n)"
proof -
  have ok: "bridges_inv n" using assms(1) by (simp add: transit_inv_def)
  have "tc_relay_packets (nd_transport n) \<and> pk_destination p \<in> br_link_id ` set (nd_bridges n)"
    using forward_bridged_unknown[of p n c sha i now acts] assms(2,3) by auto
  then obtain b where b: "tc_relay_packets (nd_transport n)" "b \<in> set (nd_bridges n)" "br_link_id b = pk_destination p" by auto
  from forward_bridged_spec(2)[OF ok b assms(2)] assms(3)
  have C: "crosses c sha n i p now b" "acts' = pushed acts (ActSend (other_side b i) (hop_on None p))"
    by (auto simp: kept_bridges_def split: if_splits)
  note N = next_hops_less[of p "tc_max_hops (nd_transport n)"]
  have "(i = br_from b \<and> as_items acts' = as_items acts @ [ActSend (br_out b) (hop_on None p)])
       \<or> (i = br_out b \<and> as_items acts' = as_items acts @ [ActSend (br_from b) (hop_on None p)])"
    using C by (auto simp: crosses_def other_side_def pushed_def)
  moreover have "br_proof_deadline b = None \<or> (link_proof p \<and> i = br_out b
        \<and> (case book_resolve (nd_book n) (br_destination b) of
             None \<Rightarrow> True | Some peer \<Rightarrow> proof_is_signed_by c p (pe_identity peer)))"
    using C(1) by (auto simp: crosses_def proof_signed_def split: if_splits)
  ultimately show ?thesis using b C(1) N hop_on_same[where t = None and p = p]
    by (intro exI[of _ b] exI[of _ "hop_on None p"]) (simp add: crosses_def)
qed

text \<open>
  C28: a link request the node carried can be answered: both ends compute the same link id for what it
  sent, and a link proof for that id coming back by the interface the request left by, signed by
  the destination when the node knows it, is sent out of the interface the request came in by and
  opens the bridge.
\<close>

theorem carried_request_answered:
  assumes inv: "transit_inv n" and f: "forward_transport_packet sha n i p now acts = (n', acts', handled)"
    and sent: "as_items acts' = as_items acts @ [ActSend out q]"
    and req: "pk_packet_type p = LinkRequest" "link_id sha p = Inr lid"
    and new: "list_all (\<lambda>x. br_link_id x \<noteq> lid \<or> br_proof_deadline x \<noteq> None) (nd_bridges n)"
    and ans: "link_proof prf" "pk_destination prf = lid"
      "case book_resolve (nd_book n) (pk_destination p) of None \<Rightarrow> True | Some peer \<Rightarrow> proof_is_signed_by c prf (pe_identity peer)"
    and way: "next_hops prf < tc_max_hops (nd_transport n)" "encoded_len (hop_on None prf) \<le> unat (nd_logical_mtu n)"
      "snd (transit_is_new sha n' prf later)" "room acts2"
    and g: "forward_bridged_packet c sha n' out prf later acts2 = (n2, acts3, handled2)"
  shows "link_id sha q = Inr lid \<and> as_items acts3 = as_items acts2 @ [ActSend i (hop_on None prf)]
    \<and> (\<exists>b \<in> set (nd_bridges n2). br_link_id b = lid \<and> br_from b = i \<and> br_out b = out \<and> carried_link later b)"
proof -
  from request_carried[OF inv f _ req] sent obtain r q' b where
    R: "carried_as n p r q'" "acts' = pushed acts (ActSend (rt_interface r) q')" "b \<in> set (nd_bridges n')" "br_link_id b = lid"
      "br_proof_deadline b = None \<or> b = request_bridge n i p r now lid" by auto
  have q: "q' = q" "rt_interface r = out" using R(2) sent by (auto simp: pushed_def)
  note T = transport_inv[OF inv f]
  have nb: "br_proof_deadline b \<noteq> None" using T(4) new R(3,4) by (auto simp: list_all_iff)
  with R(5) q have b: "br_from b = i" "br_out b = out" "br_destination b = pk_destination p"
    by (auto simp: request_bridge_def new_bridge_def)
  have S: "nd_transport n' = nd_transport n" "nd_logical_mtu n' = nd_logical_mtu n" "nd_book n' = nd_book n"
    using T(2) by (simp_all add: setup_of_def)
  have relay: "tc_relay_packets (nd_transport n')"
  proof (rule ccontr)
    assume "\<not> tc_relay_packets (nd_transport n')"
    then have "forward_transport_packet sha n i p now acts = (n, acts, False)" by (simp add: S forward_transport_packet_def)
    with f sent show False by simp
  qed
  have "crosses c sha n' out prf later b"
    using ans way b by (simp add: crosses_def S proof_signed_def)
  moreover have "bridges_inv n'" using T(1) by (simp add: transit_inv_def)
  ultimately have X: "acts3 = pushed acts2 (ActSend (other_side b out) (hop_on None prf))"
    "set (nd_bridges n2) = insert (heard_bridge later b) (set (nd_bridges n') - {b})"
    using forward_bridged_spec(2)[OF _ relay R(3) _ g] R(4) ans(2) way(4) by simp_all
  have "link_id sha q = Inr lid" using carried_link_id(1)[OF R(1), of sha] q req(2) by simp
  moreover have "other_side b out = i" using b by (simp add: other_side_def)
  ultimately show ?thesis using X b R(4)
    by (auto simp: pushed_def heard_bridge_def carried_link_def LINK_TRANSPORT_IDLE_def)
qed

text \<open>
  The delivery proof of a packet the node carried, named by the hash its destination computes and
  coming back by the interface the packet left by, is sent out of the interface the packet came in
  by, once: the entry is spent.
\<close>

theorem delivery_proof_returns:
  assumes inv: "transit_inv n" and f: "forward_transport_packet sha n i p now acts = (n', acts', handled)"
    and sent: "as_items acts' = as_items acts @ [ActSend out q]" and data: "pk_packet_type p \<noteq> LinkRequest"
    and ans: "pk_destination prf = packet_hash sha q" "pk_context prf \<noteq> CTX_LRPROOF" "pk_context prf \<noteq> CTX_RESOURCE_PRF"
    and way: "encoded_len prf \<le> unat (nd_logical_mtu n)" "room acts2"
    and g: "forward_reverse_proof n' out prf acts2 = (n2, acts3, handled2)"
  shows "handled2 \<and> as_items acts3 = as_items acts2 @ [ActSend i (prf\<lparr>pk_hops := next_hops prf\<rparr>)]
    \<and> forward_reverse_proof n2 out prf acts2 = (n2, acts2, False)"
proof -
  have ok: "bridges_inv n" using inv by (simp add: transit_inv_def)
  note T = transport_inv[OF inv f]
  have S: "nd_transport n' = nd_transport n" "nd_logical_mtu n' = nd_logical_mtu n" using T(2) by (simp_all add: setup_of_def)
  have rv: "reverse_inv n'" using T(1) by (simp add: transit_inv_def)
  from ok f have "\<exists>e \<in> set (nd_reverse n'). rv_packet e = pk_destination prf \<and> rv_outbound e = out \<and> rv_received e = i
    \<and> tc_relay_packets (nd_transport n)"
  proof (cases rule: forward_transport_cases)
    case kept
    with sent show ?thesis by simp
  next
    case (sent r q' h m)
    have q: "q' = q" "rt_interface r = out" using sent(5) \<open>as_items acts' = _\<close> by (auto simp: pushed_def)
    have relay: "tc_relay_packets (nd_transport n)" using sent(1) by (simp add: addressed_to_def)
    from ok sent(6) obtain bs cs where m: "m = n\<lparr>nd_transit_filter := h, nd_bridges := bs, nd_counters := cs\<rparr>"
      using bridge_requestE by blast
    have M: "routes_inv m" "reverse_inv m" using inv m by (simp_all add: transit_inv_def)
    have "nd_routes n \<noteq> []" using sent(3) by (auto simp: carried_as_def)
    then have "0 < nd_ROUTES n" using inv by (auto simp: transit_inv_def routes_ok_def)
    then have pos: "0 < nd_ROUTES m" using m by simp
    let ?e = "\<lparr>rv_packet = packet_hash sha p, rv_received = i, rv_outbound = rt_interface r, rv_seen = now\<rparr>"
    from carried_on_spec[OF M, of i p "packet_hash sha p" r now] obtain rs es cs where
      "n' = m\<lparr>nd_routes := rs, nd_reverse := es, nd_counters := cs\<rparr>" "?e \<in> set es"
      using sent(7) data pos by blast
    then have "?e \<in> set (nd_reverse n')" by simp
    with carried_link_id(4)[OF sent(3) data, of sha] ans(1) q relay show ?thesis by (intro bexI[of _ ?e]) simp_all
  qed
  then obtain e where e: "e \<in> set (nd_reverse n')" "rv_packet e = pk_destination prf" "rv_outbound e = out" "rv_received e = i"
    and relay: "tc_relay_packets (nd_transport n')" using S by auto
  from forward_reverse_spec[OF rv relay ans(2,3) e(1-3) _ way(2) g] way(1)
  have R: "handled2" "acts3 = pushed acts2 (ActSend i (prf\<lparr>pk_hops := next_hops prf\<rparr>))"
    "set (nd_reverse n2) = set (nd_reverse n') - {e}" by (simp_all add: S e(4))
  have "pk_destination prf \<notin> rv_packet ` set (nd_reverse n2)"
    using rv e(1,2) R(3) unfolding reverse_ok_def distinct_map inj_on_def by auto
  then have "position (\<lambda>e. rv_packet e = pk_destination prf) (nd_reverse n2) = None" unfolding position_None by force
  then have "forward_reverse_proof n2 out prf acts2 = (n2, acts2, False)"
    by (cases "\<not> tc_relay_packets (nd_transport n2)") (simp_all add: forward_reverse_proof_def ans)
  with R show ?thesis by (simp add: pushed_def)
qed

section \<open>Examples\<close>

definition transit_sha :: sha256 where
  "transit_sha bs = push_bit 128 (of_nat (length bs))"

definition transit_packet :: "packet_type \<Rightarrow> packet" where
  "transit_packet ty = \<lparr>pk_ifac = False, pk_header_type = Type2, pk_context_flag = False, pk_propagation = Transport,
     pk_destination_type = Single, pk_packet_type = ty, pk_hops = 1, pk_transport = Some (AddressHash 77),
     pk_destination = AddressHash 5, pk_context = 0, pk_payload = replicate 64 0\<rparr>"

definition transit_route :: route where
  "transit_route = \<lparr>rt_destination = AddressHash 5, rt_interface = 3, rt_transport = None, rt_hops = 2, rt_learned = 100,
     rt_mode = Full\<rparr>"

definition transit_node :: node where
  "transit_node = sample_node\<lparr>nd_routes := [transit_route]\<rparr>"

lemma take_nat_be: "take k (nat_be (k + n) v) = nat_be k (v div 256 ^ n)"
proof (induction k arbitrary: v)
  case (Suc k)
  have "v div 256 ^ (k + n) = v div 256 ^ n div 256 ^ k"
    by (metis div_mult2_eq power_add add.commute)
  with Suc show ?case by simp
qed simp

lemma transit_digest:
  assumes "length bs < 1000"
  shows "AddressHash (of_be (take ADDRESS_HASH_LEN (full_hash transit_sha bs))) = AddressHash (of_nat (length bs))"
proof -
  have "unat (push_bit 128 (of_nat (length bs)) :: 256 word) = length bs * 2 ^ 128"
    using assms by (simp add: push_bit_eq_mult unat_word_ariths unat_of_nat)
  then have "take 16 (to_be 32 (transit_sha bs)) = nat_be 16 (length bs)"
    using take_nat_be[of 16 16 "length bs * 2 ^ 128"] by (simp add: to_be_def transit_sha_def)
  moreover have "of_be (nat_be 16 (length bs)) = (of_nat (length bs) :: 128 word)"
    using assms by (simp add: of_be_def be_nat_nat_be)
  ultimately show ?thesis by (simp add: full_hash_def HASH_LEN_def ADDRESS_HASH_LEN_def)
qed

lemma transit_hash: "length (pk_payload p) < 900 \<Longrightarrow> packet_hash transit_sha p = AddressHash (of_nat (18 + length (pk_payload p)))"
  unfolding packet_hash_def packet_full_hash_def by (subst transit_digest) simp_all

lemma transit_route_fields: "rt_destination transit_route = AddressHash 5" "rt_interface transit_route = 3" "rt_transport transit_route = None"
  by (simp_all add: transit_route_def)

lemma transit_fields: "nd_bridges transit_node = []" "nd_reverse transit_node = []" "nd_transit_filter transit_node = generations_new 32"
  "nd_transport transit_node = config_transit" "nd_identity transit_node = AddressHash 77" "nd_destination transit_node = AddressHash 78"
  "nd_ROUTES transit_node = 2" "nd_logical_mtu transit_node = 255" "first_hop_airtime transit_node i = 0"
  "nd_routes transit_node = [transit_route]"
  by (simp_all add: transit_node_def sample_node_def node_new_def sample_private_def LINK_MTU_def first_hop_airtime_def get_setting_def TRANSPORT_DEDUP_HASHES_def)

lemma transit_ok: "transit_inv transit_node"
  by (simp add: transit_inv_def transit_fields transit_route_fields routes_ok_def bridges_ok_def reverse_ok_def)

lemma not_dedup: "is_deduplicated_link_context 0" "is_deduplicated_link_context 0xff"
  by (simp_all add: is_deduplicated_link_context_def is_resource_context_def ctx_consts)

lemma first_hash: "transit_hash_is_new transit_node 0 h 200 =
   (transit_node\<lparr>nd_transit_filter := \<lparr>hg_N = 32, hg_current = [h], hg_previous = [], hg_started = 0\<rparr>\<rparr>, True)"
  by (simp add: transit_hash_is_new_def not_dedup transit_fields generations_insert_def generations_new_def turn_over_def
      TRANSPORT_DEDUP_TIMEOUT_def sat_mul_def u64_max_def)

lemma transit_packet_fields: "pk_header_type (transit_packet ty) = Type2" "pk_packet_type (transit_packet ty) = ty"
  "pk_transport (transit_packet ty) = Some (AddressHash 77)" "pk_destination (transit_packet ty) = AddressHash 5"
  "pk_context (transit_packet ty) = 0" "length (pk_payload (transit_packet ty)) = 64" "next_hops (transit_packet ty) = 2"
  by (simp_all add: transit_packet_def next_hops_def sat_add_def u8_max_def)

lemma transit_unclamped: "clamp_request_mtu (transit_packet ty\<lparr>pk_hops := h, pk_header_type := Type1, pk_transport := None\<rparr>) m
  = Inr (transit_packet ty\<lparr>pk_hops := h, pk_header_type := Type1, pk_transport := None\<rparr>)"
  by (simp add: clamp_request_mtu_def transit_packet_fields LINK_KEYS_LEN_def TRAILER_LEN_def)

lemma transit_request_id: "link_id transit_sha (transit_packet LinkRequest) = Inr (AddressHash 82)"
  using transit_digest[of "[encode (transit_packet LinkRequest) ! 0 AND 0x0F] @ address_slice (AddressHash 5) @ [0] @ replicate 64 0"]
  by (simp add: link_id_def transit_packet_def LINK_KEYS_LEN_def address_of_def)

definition transit_fwd :: "packet_type \<Rightarrow> node \<times> actions \<times> bool" where
  "transit_fwd ty = forward_transport_packet transit_sha transit_node 1 (transit_packet ty) 200 (actions_new 4)"

lemma transit_sent:
  assumes "ty = LinkRequest \<or> ty = Data"
  shows "as_items (fst (snd (transit_fwd ty))) = [ActSend 3 (hop_on None (transit_packet ty))]"
    "hg_current (nd_transit_filter (fst (transit_fwd ty))) = [AddressHash 82]"
    "hg_previous (nd_transit_filter (fst (transit_fwd ty))) = []" "hg_started (nd_transit_filter (fst (transit_fwd ty))) = 0"
    "hg_N (nd_transit_filter (fst (transit_fwd ty))) = 32"
proof -
  have l: "unat (255 :: u32) = 255" by simp
  have h: "packet_hash transit_sha (transit_packet ty) = AddressHash 82"
    using transit_hash[of "transit_packet ty"] by (simp add: transit_packet_fields)
  let ?g = "\<lparr>hg_N = 32, hg_current = [AddressHash 82], hg_previous = [], hg_started = 0\<rparr>"
  obtain m taken where m: "bridge_request transit_sha (transit_node\<lparr>nd_transit_filter := ?g\<rparr>) 1 (transit_packet ty)
      transit_route 200 (actions_new 4)
    = (m, taken)" by fastforce
  have ok: "bridges_inv transit_node" using transit_ok by (simp add: transit_inv_def)
  have M: "nd_transit_filter m = ?g" using bridge_requestE[OF ok m] by fastforce
  have "taken"
    using m assms by (elim disjE) (simp_all add: bridge_request_def transit_packet_fields transit_request_id remember_bridge_def
        transit_fields actions_new_def)
  note M = this M
  have "addressed_to transit_node (transit_packet ty)"
    by (simp add: addressed_to_def transit_packet_fields transit_fields config_transit_def)
  moreover have "next_hops (transit_packet ty) < tc_max_hops (nd_transport transit_node)"
    by (simp add: transit_packet_fields transit_fields config_transit_def DEFAULT_TRANSPORT_MAX_HOPS_def MAX_HOPS_def)
  moreover have "find (\<lambda>r. rt_destination r = pk_destination (transit_packet ty)) (nd_routes transit_node) = Some transit_route"
    by (simp add: transit_packet_fields transit_fields transit_route_fields)
  moreover have "transit_hash_is_new transit_node (pk_context (transit_packet ty)) (packet_hash transit_sha (transit_packet ty)) 200
      = (transit_node\<lparr>nd_transit_filter := ?g\<rparr>, True)"
    by (simp add: transit_packet_fields h first_hash)
  moreover have "(if pk_packet_type (transit_packet ty) = LinkRequest
      then clamp_request_mtu (hop_on (rt_transport transit_route) (transit_packet ty)) (nd_logical_mtu (transit_node\<lparr>nd_transit_filter := ?g\<rparr>))
      else Inr (hop_on (rt_transport transit_route) (transit_packet ty))) = Inr (hop_on None (transit_packet ty))"
    by (simp add: transit_route_fields transit_unclamped hop_on_def address_via_def)
  moreover have "\<not> too_long (transit_node\<lparr>nd_transit_filter := ?g\<rparr>) (hop_on None (transit_packet ty))"
    using l by (simp add: too_long_def transit_fields encoded_len_def hop_on_def address_via_def transit_packet_fields HEADER_MIN_LEN_def)
  ultimately have "transit_fwd ty = (carried_on m 1 (transit_packet ty) (AddressHash 82) transit_route 200,
     pushed (actions_new 4) (ActSend 3 (hop_on None (transit_packet ty))), True)"
    unfolding transit_fwd_def using m M(1)
    by (subst forward_transport_eq) (assumption | simp add: push_action_alt room_def actions_new_def h transit_route_fields)+
  with M(2) show "as_items (fst (snd (transit_fwd ty))) = [ActSend 3 (hop_on None (transit_packet ty))]"
    "hg_current (nd_transit_filter (fst (transit_fwd ty))) = [AddressHash 82]"
    "hg_previous (nd_transit_filter (fst (transit_fwd ty))) = []" "hg_started (nd_transit_filter (fst (transit_fwd ty))) = 0"
    "hg_N (nd_transit_filter (fst (transit_fwd ty))) = 32"
    by (simp_all add: pushed_def actions_new_def carried_on_filter)
qed

lemma transit_call: "forward_transport_packet transit_sha transit_node 1 (transit_packet ty) 200 (actions_new 4)
    = (fst (transit_fwd ty), fst (snd (transit_fwd ty)), snd (snd (transit_fwd ty)))"
  by (simp add: transit_fwd_def)

definition transit_proof :: packet where
  "transit_proof = \<lparr>pk_ifac = False, pk_header_type = Type1, pk_context_flag = False, pk_propagation = Broadcast,
     pk_destination_type = Link, pk_packet_type = Proof, pk_hops = 3, pk_transport = None,
     pk_destination = AddressHash 82, pk_context = CTX_LRPROOF, pk_payload = replicate 96 0\<rparr>"

lemma transit_proof_fields: "link_proof transit_proof" "pk_destination transit_proof = AddressHash 82" "next_hops transit_proof = 4"
  "encoded_len (hop_on None transit_proof) = 115" "packet_hash transit_sha transit_proof = AddressHash 114"
  "pk_context transit_proof = 0xff"
  using transit_hash[of transit_proof]
  by (simp_all add: transit_proof_def link_proof_def next_hops_def sat_add_def u8_max_def encoded_len_def hop_on_def address_via_def
      HEADER_MIN_LEN_def CTX_LRPROOF_def)

lemma transit_proof_fresh: "snd (transit_is_new transit_sha (fst (transit_fwd LinkRequest)) transit_proof 300)"
  using transit_sent[of LinkRequest]
  by (simp add: transit_is_new_def transit_hash_is_new_def transit_proof_fields not_dedup generations_insert_def turn_over_def
      TRANSPORT_DEDUP_TIMEOUT_def sat_mul_def u64_max_def Let_def)

theorem carried_request_answered_witness:
  "as_items (fst (snd (forward_bridged_packet sample_curves transit_sha (fst (transit_fwd LinkRequest)) 3 transit_proof 300 (actions_new 4))))
     = [ActSend 1 (hop_on None transit_proof)]"
proof -
  have l: "unat (255 :: u32) = 255" by simp
  obtain n2 acts3 h where g: "forward_bridged_packet sample_curves transit_sha (fst (transit_fwd LinkRequest)) 3 transit_proof 300 (actions_new 4)
      = (n2, acts3, h)" by (rule prod_cases3)
  have "book_resolve (nd_book transit_node) (pk_destination (transit_packet LinkRequest)) = None"
    by (simp add: transit_node_def sample_node_def node_new_def with_max_peers_def book_resolve_def)
  then have "as_items acts3 = as_items (actions_new 4) @ [ActSend 1 (hop_on None transit_proof)]"
    using carried_request_answered[where q = "hop_on None (transit_packet LinkRequest)" and lid = "AddressHash 82",
        OF transit_ok transit_call _ _ _ _ transit_proof_fields(1) _ _ _ _ transit_proof_fresh _ g]
    by (simp add: transit_sent transit_packet_fields transit_request_id transit_fields transit_proof_fields l room_def actions_new_def
        config_transit_def DEFAULT_TRANSPORT_MAX_HOPS_def MAX_HOPS_def)
  then show ?thesis unfolding g by (simp add: actions_new_def)
qed

definition transit_delivery :: packet where
  "transit_delivery = transit_proof\<lparr>pk_context := 0\<rparr>"

lemma transit_delivery_fields: "pk_destination transit_delivery = AddressHash 82" "pk_context transit_delivery = 0"
  "next_hops transit_delivery = 4" "encoded_len transit_delivery = 115"
  by (simp_all add: transit_delivery_def transit_proof_def next_hops_def sat_add_def u8_max_def encoded_len_def HEADER_MIN_LEN_def)

theorem delivery_proof_returns_witness:
  "as_items (fst (snd (forward_reverse_proof (fst (transit_fwd Data)) 3 transit_delivery (actions_new 4))))
     = [ActSend 1 (transit_delivery\<lparr>pk_hops := 4\<rparr>)]"
proof -
  have l: "unat (255 :: u32) = 255" by simp
  have h: "packet_hash transit_sha (hop_on None (transit_packet Data)) = AddressHash 82"
    using transit_hash[of "transit_packet Data"] by (simp add: hop_on_same transit_packet_fields)
  obtain n2 acts3 b where g: "forward_reverse_proof (fst (transit_fwd Data)) 3 transit_delivery (actions_new 4) = (n2, acts3, b)"
    by (rule prod_cases3)
  have "as_items acts3 = as_items (actions_new 4) @ [ActSend 1 (transit_delivery\<lparr>pk_hops := next_hops transit_delivery\<rparr>)]"
    using delivery_proof_returns[where q = "hop_on None (transit_packet Data)", OF transit_ok transit_call _ _ _ _ _ _ _ g]
    by (simp add: transit_sent h transit_packet_fields transit_fields transit_delivery_fields l room_def actions_new_def
        CTX_LRPROOF_def ctx_consts)
  then show ?thesis unfolding g by (simp add: actions_new_def transit_delivery_fields)
qed

definition transit_link :: link_bridge where
  "transit_link = \<lparr>br_link_id = AddressHash 9, br_destination = AddressHash 5, br_from = 1, br_out = 3, br_seen = 100,
     br_proof_deadline = None\<rparr>"

theorem carried_link_stands_witness:
  "transit_link \<in> set (nd_bridges (fst (forward_transport_packet transit_sha (transit_node\<lparr>nd_ROUTES := 1, nd_bridges := [transit_link]\<rparr>)
      1 (transit_packet LinkRequest) 200 (actions_new 4))))"
proof -
  have "transit_inv (transit_node\<lparr>nd_ROUTES := 1, nd_bridges := [transit_link]\<rparr>)"
    by (simp add: transit_inv_def transit_fields transit_route_fields routes_ok_def bridges_ok_def reverse_ok_def)
  from carried_link_stands[OF this, where b = transit_link and now = 200] show ?thesis
    by (simp add: transit_link_def carried_link_def LINK_TRANSPORT_IDLE_def)
qed

definition transit_data :: packet where
  "transit_data = transit_delivery\<lparr>pk_packet_type := Data, pk_destination := AddressHash 9\<rparr>"

theorem bridge_crossing_witness:
  "\<exists>q. packet_hash transit_sha q = packet_hash transit_sha transit_data \<and> pk_hops q = 4
    \<and> as_items (fst (snd (forward_bridged_packet sample_curves transit_sha (transit_node\<lparr>nd_bridges := [transit_link]\<rparr>) 1 transit_data 200
        (actions_new 4)))) = [ActSend 3 q]"
proof -
  let ?n = "transit_node\<lparr>nd_bridges := [transit_link]\<rparr>"
  obtain n' acts' b where g: "forward_bridged_packet sample_curves transit_sha ?n 1 transit_data 200 (actions_new 4) = (n', acts', b)"
    by (rule prod_cases3)
  have inv: "transit_inv ?n"
    by (simp add: transit_inv_def transit_fields transit_route_fields routes_ok_def bridges_ok_def reverse_ok_def)
  have d: "pk_destination transit_data = AddressHash 9" "next_hops transit_data = 4" "pk_context transit_data = 0"
    "encoded_len (hop_on None transit_data) = 115" "\<not> link_proof transit_data"
    by (simp_all add: transit_data_def transit_delivery_def transit_proof_def next_hops_def sat_add_def u8_max_def encoded_len_def
        hop_on_def address_via_def HEADER_MIN_LEN_def link_proof_def)
  have l: "unat (255 :: u32) = 255" by simp
  have "snd (transit_is_new transit_sha ?n transit_data 200)"
    by (simp add: transit_is_new_def transit_hash_is_new_def d not_dedup transit_fields generations_insert_def generations_new_def
        turn_over_def TRANSPORT_DEDUP_TIMEOUT_def sat_mul_def u64_max_def)
  then have "crosses sample_curves transit_sha ?n 1 transit_data 200 transit_link"
    by (simp add: crosses_def d transit_fields config_transit_def DEFAULT_TRANSPORT_MAX_HOPS_def MAX_HOPS_def l transit_link_def)
  then have "as_items acts' \<noteq> as_items (actions_new 4)"
    using forward_bridged_spec(2)[OF _ _ _ _ g, of transit_link] inv
    by (simp add: transit_inv_def transit_fields config_transit_def transit_link_def d room_def actions_new_def pushed_def)
  from bridge_crossing[OF inv g this] obtain q where
    "as_items acts' = [ActSend 3 q]" "packet_hash transit_sha q = packet_hash transit_sha transit_data" "unat (pk_hops q) = 4"
    by (auto simp: transit_link_def actions_new_def transit_data_def transit_delivery_def transit_proof_def)
  moreover from this(3) have "pk_hops q = 4" by (simp add: word_unat_eq_iff)
  ultimately show ?thesis by (auto simp: g)
qed

end
