(* ===== verification/NodeRelay.thy ===== *)
theory NodeRelay
  imports NodeTransit Announce PathRequest
begin

text \<open>
  Announces through a node: relaying them with jitter under the caps (\<open>node/rebroadcast.rs\<close> and
  \<open>relay_announce\<close> of \<open>node/transit.rs\<close>), learning from them and answering path requests
  (\<open>node/ingest.rs\<close>), and the node's own announce (\<open>node/poll.rs\<close>). \<open>ingest_transport\<close> is \<open>Node::ingest\<close>
  up to the handlers of the node's own links, \<open>poll_transport\<close> is \<open>Node::poll\<close> without the sessions.
\<close>

section \<open>Rebroadcasts\<close>

definition QUEUED_ANNOUNCES :: nat where "QUEUED_ANNOUNCES = 8"

definition next_rebroadcast :: "node \<Rightarrow> nat option" where
  "next_rebroadcast n =
    (let dues = List.map_filter (\<lambda>(_, cap). cap_next_due cap) (nd_announce_caps n)
         @ (case rs_next_due (nd_rebroadcasts n) of None \<Rightarrow> [] | Some t \<Rightarrow> [t])
     in if dues = [] then None else Some (Min (set dues)))"

text \<open>The jitter: two bytes of the packet's hash against two of this node's, little endian.\<close>

definition jitter :: "address_hash \<Rightarrow> address_hash \<Rightarrow> nat" where
  "jitter hash ours =
    (let draw = unat (address_slice hash ! 0 XOR address_slice ours ! 0)
         + 256 * unat (address_slice hash ! 1 XOR address_slice ours ! 1)
     in draw mod (REBROADCAST_WINDOW + 1))"

definition schedule_rebroadcast :: "sha256 \<Rightarrow> node \<Rightarrow> interface_id \<Rightarrow> packet \<Rightarrow> nat \<Rightarrow> nat \<Rightarrow> node" where
  "schedule_rebroadcast sha n interface p emitted now =
    (let delay = jitter (packet_hash sha p) (nd_identity n);
         r = \<lparr>rb_destination = pk_destination p, rb_packet = p, rb_interface = interface, rb_emitted = emitted,
              rb_answer = None\<rparr>;
         (t, scheduled) = schedule (nd_rebroadcasts n) r now delay;
         n = n\<lparr>nd_rebroadcasts := t\<rparr>
     in if scheduled then n else counted (n_refused_rebroadcasts_update inc) n)"

definition hear_rebroadcast :: "node \<Rightarrow> address_hash \<Rightarrow> u8 \<Rightarrow> nat \<Rightarrow> node" where
  "hear_rebroadcast n d hops now =
    (let (t, ended) = heard (nd_rebroadcasts n) d hops now; n = n\<lparr>nd_rebroadcasts := t\<rparr>
     in if ended then counted (n_suppressed_rebroadcasts_update inc) n else n)"

definition hear_rebroadcast_copy :: "node \<Rightarrow> packet \<Rightarrow> nat \<Rightarrow> node" where
  "hear_rebroadcast_copy n p now =
    (let (t, ended) = heard_copy (nd_rebroadcasts n) p now; n = n\<lparr>nd_rebroadcasts := t\<rparr>
     in if ended then counted (n_suppressed_rebroadcasts_update inc) n else n)"

definition send_rebroadcast :: "node \<Rightarrow> interface_id \<Rightarrow> packet \<Rightarrow> actions \<Rightarrow> node \<times> actions" where
  "send_rebroadcast n interface p acts =
    (let (acts, sent) = push_action acts (ActSend interface p)
     in (if sent then counted (n_forwarded_announces_update inc) n else n, acts))"

text \<open>The slot of an interface's cap, a new one at the end if there is room.\<close>

definition cap_slot :: "(interface_id \<times> announce_cap) list \<Rightarrow> interface_id \<Rightarrow> ((interface_id \<times> announce_cap) list \<times> nat) option" where
  "cap_slot caps interface =
    (case position (\<lambda>(k, _). k = interface) caps of
       Some index \<Rightarrow> Some (caps, index)
     | None \<Rightarrow>
         if length caps < FIRST_HOP_AIRTIME_INTERFACES
         then Some (caps @ [(interface, announce_cap_new QUEUED_ANNOUNCES)], length caps) else None)"

definition offer_rebroadcast :: "node \<Rightarrow> rebroadcast \<Rightarrow> nat \<Rightarrow> actions \<Rightarrow> node \<times> actions" where
  "offer_rebroadcast n r now acts =
    (let interface = rb_interface r;
         from = (case next_hop n (rb_destination r) now of None \<Rightarrow> interface | Some hop \<Rightarrow> nh_interface hop)
     in if \<not> announce_permitted (node_interface_mode n interface) (Some (node_interface_mode n from)) False mode_flags_default
        then (n, acts)
        else
          let airtime = first_hop_airtime n interface
          in if airtime = 0 then send_rebroadcast n interface (rb_packet r) acts
             else case cap_slot (nd_announce_caps n) interface of
               None \<Rightarrow> send_rebroadcast n interface (rb_packet r) acts
             | Some (caps, index) \<Rightarrow>
                 let (cap, result) = cap_offer (snd (caps ! index)) r now (cap_rate_new airtime);
                     n = n\<lparr>nd_announce_caps := caps[index := (fst (caps ! index), cap)]\<rparr>
                 in case result of
                      Offer_send p \<Rightarrow> send_rebroadcast n interface p acts
                    | Offer_queued \<Rightarrow> (counted (n_capped_announces_update inc) n, acts)
                    | Offer_dropped \<Rightarrow> (counted (n_dropped_announces_update inc) n, acts))"

text \<open>The loops of \<open>poll_rebroadcasts\<close>: what one cap releases, and what the table has due.\<close>

function release_cap :: "nat \<Rightarrow> nat \<Rightarrow> node \<Rightarrow> actions \<Rightarrow> node \<times> actions" where
  "release_cap now index n acts =
    (if length (as_items acts) < as_N acts then
       (let interface = fst (nd_announce_caps n ! index);
            (cap, out) = cap_pop_due (snd (nd_announce_caps n ! index)) now (cap_rate_new (first_hop_airtime n interface));
            n = n\<lparr>nd_announce_caps := (nd_announce_caps n)[index := (interface, cap)]\<rparr>
        in case out of
             None \<Rightarrow> (n, acts)
           | Some p \<Rightarrow> release_cap now index (fst (send_rebroadcast n interface p acts)) (snd (send_rebroadcast n interface p acts)))
     else (n, acts))"
  by pat_completeness auto

termination
  by (relation "measure (\<lambda>(now, index, n, acts). as_N acts - length (as_items acts))")
    (auto simp: send_rebroadcast_def push_action_def)

declare release_cap.simps [simp del]

lemma offer_keeps_table: "nd_rebroadcasts (fst (offer_rebroadcast n r now acts)) = nd_rebroadcasts n"
  by (simp add: offer_rebroadcast_def send_rebroadcast_def Let_def split: option.split offer.split prod.split)

function drain_rebroadcasts :: "nat \<Rightarrow> node \<Rightarrow> actions \<Rightarrow> node \<times> actions" where
  "drain_rebroadcasts now n acts =
    (if length (as_items acts) < as_N acts then
       (case pop_due (nd_rebroadcasts n) now of
          (t, None) \<Rightarrow> (n, acts)
        | (t, Some r) \<Rightarrow>
            let m = n\<lparr>nd_rebroadcasts := t\<rparr>
            in drain_rebroadcasts now (fst (offer_rebroadcast m r now acts)) (snd (offer_rebroadcast m r now acts)))
     else (n, acts))"
  by pat_completeness auto

termination
  by (relation "measure (\<lambda>(now, n, acts). rebro_size (nd_rebroadcasts n))")
    (auto simp: case_prod_unfold offer_keeps_table intro: rebro_size_pop[OF sym])

declare drain_rebroadcasts.simps [simp del]

definition poll_rebroadcasts :: "node \<Rightarrow> nat \<Rightarrow> actions \<Rightarrow> node \<times> actions" where
  "poll_rebroadcasts n now acts =
    (let (n, acts) = fold (\<lambda>index (n, acts). release_cap now index n acts) [0..<length (nd_announce_caps n)] (n, acts);
         (n, acts) = drain_rebroadcasts now n acts
     in (n\<lparr>nd_announce_caps := filter (\<lambda>(interface, cap). \<not> cap_idle cap now
            \<and> interface \<in> fst ` set (nd_first_hop_airtime n)) (nd_announce_caps n)\<rparr>, acts))"

definition relay_announce :: "sha256 \<Rightarrow> node \<Rightarrow> interface_id \<Rightarrow> packet \<Rightarrow> nat \<Rightarrow> nat \<Rightarrow> node" where
  "relay_announce sha n interface p emitted now =
    (if \<not> tc_relay_announces (nd_transport n) \<or> pk_destination p = nd_destination n \<or> pk_context p = CTX_PATH_RESPONSE
     then n
     else if tc_max_hops (nd_transport n) \<le> next_hops p
     then counted (n_hop_limit_dropped_update inc) n
     else
       let (n, fresh) = transit_is_new sha n p now in
       if \<not> fresh then n
       else
         let forwarded = p\<lparr>pk_hops := next_hops p, pk_header_type := Type2, pk_transport := Some (nd_identity n)\<rparr>
         in if too_long n forwarded then refuse_payload n
            else schedule_rebroadcast sha n interface forwarded emitted now)"

section \<open>The node's own announce\<close>

definition MIN_LOGICAL_MTU :: nat where
  "MIN_LOGICAL_MTU = HEADER_MIN_LEN + IDENTITY_LEN + NAME_HASH_LEN + RAND_HASH_LEN + SIGNATURE_LEN"

datatype app_data_error = AppDataTooLarge

definition own_announce :: "curves \<Rightarrow> sha256 \<Rightarrow> node \<Rightarrow> announce_blob \<Rightarrow> bytes option \<Rightarrow> packet" where
  "own_announce c sha n blob ratchet = announce_build c sha (nd_private n) (nd_name_hash n) blob ratchet (nd_app_data n)"

definition try_announce :: "curves \<Rightarrow> sha256 \<Rightarrow> node \<Rightarrow> announce_blob \<Rightarrow> bytes option \<Rightarrow> app_data_error + packet" where
  "try_announce c sha n blob ratchet =
    (let base = MIN_LOGICAL_MTU + (if ratchet \<noteq> None then RATCHET_LEN else 0) in
     if unat (nd_logical_mtu n) < base + length (nd_app_data n) then Inl AppDataTooLarge
     else Inr (own_announce c sha n blob ratchet))"

definition announce_due :: "node \<Rightarrow> nat \<Rightarrow> bool" where
  "announce_due n now = (case nd_last_announce n of None \<Rightarrow> True | Some t \<Rightarrow> nd_announce_interval n \<le> now - t)"

definition retry_announce :: "node \<Rightarrow> node" where
  "retry_announce n = n\<lparr>nd_last_announce := None\<rparr>"

definition poll_announce :: "curves \<Rightarrow> sha256 \<Rightarrow> node \<Rightarrow> nat \<Rightarrow> interface_id \<Rightarrow> announce_blob option \<Rightarrow> actions \<Rightarrow> node \<times> actions" where
  "poll_announce c sha n now interface blob acts =
    (case blob of
       None \<Rightarrow> (n, acts)
     | Some b \<Rightarrow>
         if \<not> announce_due n now then (n, acts)
         else
           let n = n\<lparr>nd_last_announce := Some now\<rparr>
           in case try_announce c sha n b None of
                Inr p \<Rightarrow> (n\<lparr>nd_announced_blob := Some b\<rparr>, fst (push_action acts (ActSend interface p)))
              | Inl e \<Rightarrow> (refuse_payload n, acts))"

text \<open>\<open>poll\<close> of a node without links, pending links and transfers of its own.\<close>

definition poll_transport ::
  "curves \<Rightarrow> sha256 \<Rightarrow> nat \<Rightarrow> node \<Rightarrow> nat \<Rightarrow> interface_id \<Rightarrow> announce_blob option \<Rightarrow> node \<times> actions" where
  "poll_transport c sha ACTIONS n now interface blob =
    (let acts = actions_new ACTIONS;
         n = expire_transport_state n now;
         (n, acts) = poll_announce c sha n now interface blob acts
     in poll_rebroadcasts n now acts)"

section \<open>Incoming packets\<close>

definition count_filtered :: "node \<Rightarrow> node" where
  "count_filtered n = counted (n_filtered_packets_update inc) n"

definition on_path_request ::
  "curves \<Rightarrow> sha256 \<Rightarrow> node \<Rightarrow> interface_id \<Rightarrow> path_req \<Rightarrow> nat \<Rightarrow> actions \<Rightarrow> node \<times> actions" where
  "on_path_request c sha n interface request now acts =
    (let (n, fresh) =
       (case unique_tag sha request of
          None \<Rightarrow> (n, False)
        | Some tag \<Rightarrow>
            let (g, fresh) = generations_insert (nd_path_request_tags n) tag now u64_max
            in (n\<lparr>nd_path_request_tags := g\<rparr>, fresh))
     in if \<not> fresh then (count_filtered n, acts)
        else if pr_target request \<noteq> nd_destination n then (n, acts)
        else case nd_announced_blob n of
          None \<Rightarrow> (n, acts)
        | Some blob \<Rightarrow>
            (case try_announce c sha n blob None of
               Inr p \<Rightarrow> (n, fst (push_action acts (ActSend interface (p\<lparr>pk_context := CTX_PATH_RESPONSE\<rparr>))))
             | Inl e \<Rightarrow> (refuse_payload n, acts)))"

definition live_route_to :: "node \<Rightarrow> nat \<Rightarrow> address_hash \<Rightarrow> bool" where
  "live_route_to n now d \<longleftrightarrow> (\<exists>r \<in> set (nd_routes n). rt_destination r = d \<and> route_alive n now r)"

text \<open>Learning from a verified announce, once freshness accepted its candidate.\<close>

definition learn_announce ::
  "sha256 \<Rightarrow> node \<Rightarrow> interface_id \<Rightarrow> packet \<Rightarrow> announce \<Rightarrow> freshness_candidate \<Rightarrow> freshness_accept \<Rightarrow> nat \<Rightarrow> actions \<Rightarrow> node \<times> actions" where
  "learn_announce sha n interface p a candidate accepted_as now acts =
    (if key_conflicts (nd_book n) a then (counted (n_key_mismatch_announces_update inc) n, acts)
     else
       let n = (if pk_transport p \<noteq> None then hear_rebroadcast n (an_destination a) (pk_hops p) now else n);
           (book, result) = ingest_at (nd_book n) a now (live_route_to n now);
           taken = (result \<noteq> Refused);
           n = n\<lparr>nd_book := book\<rparr>;
           n = (if taken then n else n\<lparr>nd_refused_peers := inc (nd_refused_peers n)\<rparr>);
           (table, report) = record_accepted (nd_freshness n) candidate accepted_as;
           n = n\<lparr>nd_freshness := table\<rparr>;
           n = (case fcr_evicted_destination report of
                  None \<Rightarrow> n
                | Some evicted \<Rightarrow> counted (n_evicted_freshness_rows_update inc)
                    (n\<lparr>nd_routes := filter (\<lambda>r. rt_destination r \<noteq> evicted) (nd_routes n)\<rparr>));
           n = counted (n_evicted_freshness_blobs_update
                 (\<lambda>k. sat_add u16_max k (if fcr_evicted_blob report \<noteq> None then 1 else 0))) n;
           n = learn_route n (an_destination a) interface (pk_hops p) (pk_transport p) now;
           acts = (if taken then fst (push_action acts (ActLearned (an_destination a))) else acts)
       in (relay_announce sha n interface p (timebase (cand_blob candidate)) now, acts))"

definition ingest_announce ::
  "curves \<Rightarrow> sha256 \<Rightarrow> node \<Rightarrow> interface_id \<Rightarrow> packet \<Rightarrow> nat \<Rightarrow> actions \<Rightarrow> node \<times> actions" where
  "ingest_announce c sha n interface p now acts =
    (if pk_destination p = nd_destination n then (n, acts)
     else case unverified_candidate p of
       None \<Rightarrow> (n, acts)
     | Some candidate \<Rightarrow>
         (case evaluate (nd_freshness n) candidate (live_route_to n now (cand_destination candidate)) of
            Reject reject \<Rightarrow>
              let n = (if pk_transport p \<noteq> None then hear_rebroadcast_copy n p now else n)
              in (case reject of
                    Replay \<Rightarrow> counted (n_replayed_announces_update inc) n
                  | StaleTimebase \<Rightarrow> counted (n_stale_announces_update inc) n, acts)
          | Accept accepted_as \<Rightarrow>
              (case announce_decode c sha p of
                 Inl e \<Rightarrow> (n, acts)
               | Inr a \<Rightarrow> learn_announce sha n interface p a candidate accepted_as now acts)))"

text \<open>The packet filter ahead of any dispatch.\<close>

definition filtered_out :: "node \<Rightarrow> packet \<Rightarrow> bool" where
  "filtered_out n p \<longleftrightarrow> pk_packet_type p \<noteq> Announce
     \<and> ((pk_header_type p = Type2 \<and> pk_transport p \<noteq> Some (nd_identity n))
        \<or> ((pk_destination_type p = Plain \<or> pk_destination_type p = Group) \<and> 1 < pk_hops p))"

text \<open>\<open>ingest\<close>; the last component says that the packet is left to the handlers of the node's own links.\<close>

definition ingest_transport ::
  "curves \<Rightarrow> sha256 \<Rightarrow> nat \<Rightarrow> node \<Rightarrow> interface_id \<Rightarrow> packet \<Rightarrow> nat \<Rightarrow> node \<times> actions \<times> bool" where
  "ingest_transport c sha ACTIONS n interface p now =
    (let acts = actions_new ACTIONS in
     if pk_ifac p then (refuse_payload n, acts, False)
     else if pl_max_ingress_bytes (nd_limits n) < encoded_len p then (refuse_payload n, acts, False)
     else if filtered_out n p then (count_filtered n, acts, False)
     else case parse_path_request sha p of
       Some request \<Rightarrow> (let (n, acts) = on_path_request c sha n interface request now acts in (n, acts, False))
     | None \<Rightarrow>
         let n = expire_transport_state n now;
             (n, acts, handled) = (if pk_packet_type p = Proof then forward_reverse_proof n interface p acts else (n, acts, False))
         in if handled then (n, acts, False)
         else
           let (n, acts, handled) =
                 (if pk_packet_type p \<noteq> Announce then
                    (let (n, acts, handled) = forward_bridged_packet c sha n interface p now acts
                     in if handled then (n, acts, True) else forward_transport_packet sha n interface p now acts)
                  else (n, acts, False))
           in if handled then (n, acts, False)
              else if pk_packet_type p = Announce
              then (let (n, acts) = ingest_announce c sha n interface p now acts in (n, acts, False))
              else (n, acts, True))"

end
