(* ===== verification/NodeSetup.thy ===== *)
theory NodeSetup
  imports NodeRelay
begin

text \<open>
  Configuring a node (\<open>node/setup.rs\<close>), and its runs: any sequence of received packets, polls and
  configuration calls. The answer of each call is left with its caller, the state goes on.
\<close>

section \<open>Configuration\<close>

text \<open>\<open>AppDataTooLong\<close> is the source's \<open>AppDataTooLarge\<close>, a name the announce error already has.\<close>

datatype logical_mtu_error = OutOfRange | SessionsActive | AppDataTooLong

text \<open>Whether the node has links, link requests or transfers of its own is an argument.\<close>

definition has_active_sessions :: "node \<Rightarrow> bool \<Rightarrow> bool" where
  "has_active_sessions n own_sessions \<longleftrightarrow> own_sessions \<or> nd_bridges n \<noteq> []"

definition set_logical_mtu :: "node \<Rightarrow> bool \<Rightarrow> u32 \<Rightarrow> logical_mtu_error + node" where
  "set_logical_mtu n own_sessions mtu =
    (if unat mtu < MIN_LOGICAL_MTU \<or> LINK_MTU < mtu then Inl OutOfRange
     else if mtu = nd_logical_mtu n then Inr n
     else if has_active_sessions n own_sessions then Inl SessionsActive
     else if unat mtu - MIN_LOGICAL_MTU < length (nd_app_data n) then Inl AppDataTooLong
     else Inr (n\<lparr>nd_logical_mtu := mtu\<rparr>))"

definition new_with_payload_limits ::
  "sha256 \<Rightarrow> nat \<Rightarrow> nat \<Rightarrow> nat \<Rightarrow> private_identity \<Rightarrow> name_hash \<Rightarrow> payload_limits \<Rightarrow> node" where
  "new_with_payload_limits sha usize_max peers routes identity name limits =
     (node_new sha usize_max peers routes identity name)\<lparr>nd_limits := limits\<rparr>"

definition try_set_app_data :: "node \<Rightarrow> bytes \<Rightarrow> app_data_error + node" where
  "try_set_app_data n app_data =
    (if pl_max_app_data (nd_limits n) < length app_data
        \<or> unat (nd_logical_mtu n) - MIN_LOGICAL_MTU < length app_data
     then Inl AppDataTooLarge else Inr (n\<lparr>nd_app_data := app_data\<rparr>))"

text \<open>The panic of \<open>expect\<close> is \<open>None\<close>.\<close>

definition with_app_data :: "node \<Rightarrow> bytes \<Rightarrow> node option" where
  "with_app_data n app_data = (case try_set_app_data n app_data of Inl e \<Rightarrow> None | Inr m \<Rightarrow> Some m)"

definition with_announce_interval :: "node \<Rightarrow> nat \<Rightarrow> node" where
  "with_announce_interval n interval = n\<lparr>nd_announce_interval := interval\<rparr>"

definition set_transport_config :: "node \<Rightarrow> transport_config \<Rightarrow> node" where
  "set_transport_config n config = n\<lparr>nd_transport := config\<rparr>"

definition set_freshness_policy ::
  "node \<Rightarrow> freshness_policy \<Rightarrow> node \<times> (freshness_config_error + freshness_reconfigure)" where
  "set_freshness_policy n policy =
    (case reconfigure (nd_freshness n) \<lparr>fc_destination_capacity = fp_max_destinations policy,
         fc_blob_capacity = fp_max_blobs_per_destination policy\<rparr> of
       (table, Inl e) \<Rightarrow> (n\<lparr>nd_freshness := table\<rparr>, Inl e)
     | (table, Inr report) \<Rightarrow>
         let n = n\<lparr>nd_freshness := table,
                   nd_routes := filter (\<lambda>r. rt_destination r \<notin> set (frc_evicted_destinations report)) (nd_routes n)\<rparr>;
             n = counted (n_evicted_freshness_rows_update
                   (\<lambda>k. sat_add u16_max k (min u16_max (length (frc_evicted_destinations report))))) n;
             n = counted (n_evicted_freshness_blobs_update
                   (\<lambda>k. sat_add u16_max k (min u16_max (frc_evicted_blobs report)))) n
         in (n\<lparr>nd_freshness_policy := policy\<rparr>, Inr report))"

definition with_transport_config :: "node \<Rightarrow> transport_config \<Rightarrow> node" where
  "with_transport_config n config = n\<lparr>nd_transport := config\<rparr>"

definition with_freshness_policy :: "node \<Rightarrow> freshness_policy \<Rightarrow> freshness_config_error + node" where
  "with_freshness_policy n policy =
    (case set_freshness_policy n policy of (m, Inl e) \<Rightarrow> Inl e | (m, Inr report) \<Rightarrow> Inr m)"

section \<open>Runs\<close>

datatype node_event =
    Hear interface_id packet nat
  | Beat nat interface_id "announce_blob option"
  | SetAirtime interface_id nat
  | SetMode interface_id interface_mode
  | DropInterface interface_id
  | SetTransport transport_config
  | SetFreshness freshness_policy
  | SetMtu bool u32
  | SetAppData bytes
  | SetInterval nat
  | Reannounce
  | FindRoute address_hash nat

definition kept_or :: "node \<Rightarrow> 'e + node \<Rightarrow> node" where
  "kept_or n r = (case r of Inl e \<Rightarrow> n | Inr m \<Rightarrow> m)"

text \<open>One call: the next state, and the actions the shell is handed.\<close>

fun node_step :: "curves \<Rightarrow> sha256 \<Rightarrow> nat \<Rightarrow> node \<Rightarrow> node_event \<Rightarrow> node \<times> action list" where
  "node_step c sha N n (Hear i p now) =
     (let (n, acts, left) = ingest_transport c sha N n i p now in (n, as_items acts))"
| "node_step c sha N n (Beat now i blob) =
     (let (n, acts) = poll_transport c sha N n now i blob in (n, as_items acts))"
| "node_step c sha N n (SetAirtime i a) = (kept_or n (set_first_hop_airtime n i a), [])"
| "node_step c sha N n (SetMode i m) = (kept_or n (set_interface_mode n i m), [])"
| "node_step c sha N n (DropInterface i) = (node_forget_interface n i, [])"
| "node_step c sha N n (SetTransport cfg) = (set_transport_config n cfg, [])"
| "node_step c sha N n (SetFreshness policy) = (fst (set_freshness_policy n policy), [])"
| "node_step c sha N n (SetMtu own mtu) = (kept_or n (set_logical_mtu n own mtu), [])"
| "node_step c sha N n (SetAppData bs) = (kept_or n (try_set_app_data n bs), [])"
| "node_step c sha N n (SetInterval t) = (with_announce_interval n t, [])"
| "node_step c sha N n Reannounce = (retry_announce n, [])"
| "node_step c sha N n (FindRoute d now) = (fst (route_to n d now), [])"

text \<open>
  What a shell may call: it hands over packets its decoder gave it, keeps the hop ceiling within the
  protocol's and asks for no freshness table of \<open>u64::MAX\<close> rows.
\<close>

fun event_ok :: "node_event \<Rightarrow> bool" where
  "event_ok (Hear i p now) = valid_packet p"
| "event_ok (SetTransport cfg) = (tc_max_hops cfg \<le> MAX_HOPS)"
| "event_ok (SetFreshness policy) = (fp_max_destinations policy < u64_max)"
| "event_ok _ = True"

text \<open>Reactive components: one step per event, with outputs.\<close>

fun react :: "('s \<Rightarrow> 'e \<Rightarrow> 's \<times> 'o list) \<Rightarrow> 's \<Rightarrow> 'e list \<Rightarrow> 's \<times> 'o list" where
  "react step s [] = (s, [])"
| "react step s (e # es) = (let (s', out) = step s e; (s'', outs) = react step s' es in (s'', out @ outs))"

locale reactive =
  fixes step :: "'s \<Rightarrow> 'e \<Rightarrow> 's \<times> 'o list" and valid :: "'e \<Rightarrow> bool" and inv :: "'s \<Rightarrow> bool" and fine :: "'o \<Rightarrow> bool"
  assumes step_keeps: "inv s \<Longrightarrow> valid e \<Longrightarrow> inv (fst (step s e))"
    and step_output: "inv s \<Longrightarrow> valid e \<Longrightarrow> list_all fine (snd (step s e))"
begin

lemma react_keeps: "inv s \<Longrightarrow> list_all valid es \<Longrightarrow> inv (fst (react step s es)) \<and> list_all fine (snd (react step s es))"
proof (induction es arbitrary: s)
  case (Cons e es)
  then have "inv (fst (step s e))" "list_all fine (snd (step s e))" using step_keeps step_output by auto
  with Cons show ?case by (auto simp: Let_def case_prod_unfold)
qed simp

end

abbreviation node_run :: "curves \<Rightarrow> sha256 \<Rightarrow> nat \<Rightarrow> node \<Rightarrow> node_event list \<Rightarrow> node \<times> action list" where
  "node_run c sha N \<equiv> react (node_step c sha N)"

end
