(* ===== verification/NodeSafety.thy ===== *)
theory NodeSafety
  imports NodeSetup
begin

text \<open>
  What holds of a node through any run: its tables stay within their bounds and in step, whatever it
  sends fits the carrier and, below the hop ceiling, is decoded by its neighbours, and a carried
  link is open only after its destination proved it.
\<close>

section \<open>What the announce queues hold\<close>

definition table_all :: "(packet \<Rightarrow> bool) \<Rightarrow> rebroadcasts \<Rightarrow> bool" where
  "table_all P t \<longleftrightarrow> (\<forall>e \<in> set (rs_entries t) \<union> set (rs_held t). P (rb_packet (en_rebroadcast e)))"

lemma set_swap_remove: "set (swap_remove i xs) \<subseteq> set xs"
proof (cases xs rule: rev_cases)
  case (snoc ys y)
  have "set (butlast (xs[i := last xs])) \<subseteq> set (xs[i := last xs])" by (auto dest: in_set_butlastD)
  also have "\<dots> \<subseteq> insert (last xs) (set xs)" by (rule set_update_subset_insert)
  finally show ?thesis using snoc by (auto simp: swap_remove_def)
qed (simp add: swap_remove_def)

lemma table_all_update:
  "table_all P t \<Longrightarrow> P (rb_packet (en_rebroadcast e)) \<Longrightarrow> table_all P (t\<lparr>rs_entries := (rs_entries t)[i := e]\<rparr>)"
  using set_update_subset_insert[of "rs_entries t" i e] by (auto simp: table_all_def)

lemma table_all_remove: "table_all P t \<Longrightarrow> i < length (rs_entries t) \<Longrightarrow> table_all P (fst (rs_remove t i))"
  using set_swap_remove[of i "rs_entries t"] set_remove_at[of _ "rs_held t"]
  by (fastforce simp: table_all_def rs_remove_def Let_def dest: rposition_Some split: option.split)

lemma table_all_insert: "table_all P t \<Longrightarrow> P (rb_packet (en_rebroadcast e)) \<Longrightarrow> table_all P (fst (rs_insert t e))"
  using set_swap_remove[of _ "rs_entries t"]
  by (fastforce simp: table_all_def rs_insert_def Let_def split: option.split)

lemma table_all_schedule:
  "table_all P t \<Longrightarrow> P (rb_packet r) \<Longrightarrow> table_all P (fst (schedule t r now delay))"
  using table_all_insert[of P t] table_all_update[of P t] set_update_subset_insert[of "rs_held t"]
  by (fastforce simp: schedule_def Let_def table_all_def[of P "_\<lparr>rs_held := _\<rparr>"] table_all_def[of P t] split: option.split)

lemma heard_table:
  assumes "table_all P t"
  shows "table_all P (fst (heard t d hops now))" "rs_capacity (fst (heard t d hops now)) = rs_capacity t"
proof -
  have "table_all P (fst (heard t d hops now)) \<and> rs_capacity (fst (heard t d hops now)) = rs_capacity t"
  proof (cases "rs_find t d")
    case (Some i)
    note i = find_Some[OF Some, THEN conjunct1]
    define e where "e = (if hops = pk_hops (rb_packet (en_rebroadcast (rs_entries t ! i)))
      then (rs_entries t ! i)\<lparr>en_heard := sat_add u8_max (en_heard (rs_entries t ! i)) 1\<rparr> else rs_entries t ! i)"
    let ?t = "t\<lparr>rs_entries := (rs_entries t)[i := e]\<rparr>"
    have "table_all P ?t" using assms i by (intro table_all_update) (auto simp: e_def table_all_def)
    moreover have "fst (heard t d hops now) = ?t \<or> fst (heard t d hops now) = fst (rs_remove ?t i)"
      using Some by (auto simp: heard_def Let_def e_def)
    ultimately show ?thesis using table_all_remove[of P ?t i] i
      by (auto simp: rs_remove_def Let_def split: option.split)
  qed (use assms in \<open>simp add: heard_def\<close>)
  then show "table_all P (fst (heard t d hops now))" "rs_capacity (fst (heard t d hops now)) = rs_capacity t" by simp_all
qed

lemma heard_copy_table:
  assumes "table_all P t"
  shows "table_all P (fst (heard_copy t p now))" "rs_capacity (fst (heard_copy t p now)) = rs_capacity t"
proof -
  have "fst (heard_copy t p now) = t \<or> fst (heard_copy t p now) = fst (heard t (pk_destination p) (pk_hops p) now)"
    by (auto simp: heard_copy_def Let_def split: option.split)
  with heard_table[OF assms] assms show "table_all P (fst (heard_copy t p now))"
    "rs_capacity (fst (heard_copy t p now)) = rs_capacity t" by metis+
qed

lemma pop_due_table:
  assumes "table_all P t" "pop_due t now = (t', out)"
  shows "table_all P t'" "rs_capacity t' = rs_capacity t" "\<And>r. out = Some r \<Longrightarrow> P (rb_packet r)"
proof -
  have "table_all P t' \<and> rs_capacity t' = rs_capacity t \<and> (\<forall>r. out = Some r \<longrightarrow> P (rb_packet r))"
  proof (cases "min_index (\<lambda>e. en_due e \<le> now) en_due (rs_entries t)")
    case (Some i)
    note M = min_index_Some(1)[OF Some]
    define e where "e = (rs_entries t ! i)\<lparr>en_sent := en_sent (rs_entries t ! i) + 1,
      en_due := sat_add u64_max (sat_add u64_max now REBROADCAST_GRACE) REBROADCAST_WINDOW\<rparr>"
    let ?t = "t\<lparr>rs_entries := (rs_entries t)[i := e]\<rparr>"
    have P: "P (rb_packet (en_rebroadcast e))" using assms(1) M by (auto simp: e_def table_all_def)
    then have "table_all P ?t" using assms(1) by (intro table_all_update)
    moreover have "snd (rs_remove ?t i) = e" using M by (simp add: rs_remove_def Let_def split: option.split)
    moreover have "(t' = fst (rs_remove ?t i) \<and> out = Some (en_rebroadcast (snd (rs_remove ?t i))))
        \<or> (t' = ?t \<and> out = Some (en_rebroadcast e))"
      using assms(2) Some by (cases "TRANSMISSIONS \<le> en_sent e") (auto simp: pop_due_def Let_def e_def split: prod.splits)
    moreover have "rs_capacity (fst (rs_remove ?t i)) = rs_capacity t" by (simp add: rs_remove_def Let_def split: option.split)
    ultimately show ?thesis using P table_all_remove[of P ?t i] M by auto
  qed (use assms in \<open>auto simp: pop_due_def\<close>)
  then show "table_all P t'" "rs_capacity t' = rs_capacity t" "\<And>r. out = Some r \<Longrightarrow> P (rb_packet r)" by simp_all
qed

lemma schedule_capacity: "rs_capacity (fst (schedule t r now delay)) = rs_capacity t"
  by (simp add: schedule_def rs_insert_def Let_def split: option.split)

text \<open>One interface's cap, and the list of them.\<close>

definition cap_all :: "(packet \<Rightarrow> bool) \<Rightarrow> announce_cap \<Rightarrow> bool" where
  "cap_all P cap \<longleftrightarrow> cap_inv cap \<and> ac_capacity cap = QUEUED_ANNOUNCES \<and> (\<forall>q \<in> set (ac_queue cap). P (qd_packet q))"

lemma cap_all_new: "cap_all P (announce_cap_new QUEUED_ANNOUNCES)"
  by (simp add: cap_all_def announce_cap_new_def cap_inv_def)

lemma cap_all_offer:
  assumes c: "cap_all P cap" and r: "P (rb_packet r)" and o: "cap_offer cap r now rate = (cap', result)"
  shows "cap_all P cap'" "\<And>p. result = Offer_send p \<Longrightarrow> P p"
proof -
  have inv: "cap_inv cap'" using cap_offer_inv[of cap r now rate] c o by (simp add: cap_all_def)
  have "ac_capacity cap' = ac_capacity cap \<and> set (ac_queue cap') \<subseteq> insert \<lparr>qd_rebroadcast = r, qd_at = now\<rparr> (set (ac_queue cap))
    \<and> (\<forall>p. result = Offer_send p \<longrightarrow> p = rb_packet r)"
    using o set_update_subset_insert[of "ac_queue cap"]
    by (fastforce simp: cap_offer_def split: if_splits option.splits)
  with inv c r show "cap_all P cap'" "\<And>p. result = Offer_send p \<Longrightarrow> P p" by (auto simp: cap_all_def)
qed

lemma cap_all_pop:
  assumes c: "cap_all P cap" and o: "cap_pop_due cap now rate = (cap', out)"
  shows "cap_all P cap'" "\<And>p. out = Some p \<Longrightarrow> P p"
proof -
  have inv: "cap_inv cap'" using cap_pop_inv[of cap now rate] c o by (simp add: cap_all_def)
  let ?q = "filter (cap_alive now) (ac_queue cap)"
  have "ac_capacity cap' = ac_capacity cap \<and> set (ac_queue cap') \<subseteq> set (ac_queue cap)
    \<and> (\<forall>p. out = Some p \<longrightarrow> p \<in> qd_packet ` set (ac_queue cap))"
  proof (cases "min_index (\<lambda>_. True) (\<lambda>q. (pk_hops (qd_packet q), qd_at q)) ?q")
    case (Some i)
    have "?q ! i \<in> set ?q" using min_index_key_Some[OF Some, THEN conjunct1] by (rule nth_mem)
    then have "?q ! i \<in> set (ac_queue cap)" by simp
    with Some o set_remove_at[of i ?q] show ?thesis by (auto simp: cap_pop_due_def Let_def split: if_splits)
  qed (use o in \<open>auto simp: cap_pop_due_def Let_def split: if_splits\<close>)
  with inv c show "cap_all P cap'" "\<And>p. out = Some p \<Longrightarrow> P p" by (auto simp: cap_all_def)
qed

definition caps_all :: "(packet \<Rightarrow> bool) \<Rightarrow> (interface_id \<times> announce_cap) list \<Rightarrow> bool" where
  "caps_all P caps \<longleftrightarrow> distinct (map fst caps) \<and> length caps \<le> FIRST_HOP_AIRTIME_INTERFACES
     \<and> (\<forall>x \<in> set caps. cap_all P (snd x))"

lemma caps_all_update:
  assumes "caps_all P caps" "k < length caps" "cap_all P cap" "i = fst (caps ! k)"
  shows "caps_all P (caps[k := (i, cap)])"
proof -
  have "map fst (caps[k := (i, cap)]) = map fst caps" using assms(2,4) by (simp add: map_update list_update_same_conv)
  with assms set_update_subset_insert[of caps k "(i, cap)"] show ?thesis by (auto simp: caps_all_def)
qed

lemma caps_all_filter: "caps_all P caps \<Longrightarrow> caps_all P (filter f caps)"
  by (auto simp: caps_all_def distinct_map_filter intro: order.trans[OF length_filter_le])

lemma cap_slot_spec:
  assumes "caps_all P caps" "cap_slot caps i = Some (caps', k)"
  shows "caps_all P caps'" "k < length caps'" "fst (caps' ! k) = i"
proof -
  have "caps_all P caps' \<and> k < length caps' \<and> fst (caps' ! k) = i"
  proof (cases "position (\<lambda>(k, _). k = i) caps")
    case None
    then have "i \<notin> fst ` set caps" unfolding position_None by auto
    with None assms show ?thesis by (auto simp: cap_slot_def caps_all_def cap_all_new split: if_splits)
  next
    case (Some j)
    with assms position_Some[OF Some] show ?thesis by (auto simp: cap_slot_def case_prod_unfold)
  qed
  then show "caps_all P caps'" "k < length caps'" "fst (caps' ! k) = i" by simp_all
qed

section \<open>The invariant of a node\<close>

text \<open>
  What a node puts on the air: a well-formed packet of the carrier's size. Only a returning delivery
  proof can carry the hop ceiling itself, which the next decoder refuses.
\<close>

definition sendable :: "packet \<Rightarrow> bool" where
  "sendable p \<longleftrightarrow> \<not> pk_ifac p \<and> (pk_header_type p = Type2 \<longleftrightarrow> pk_transport p \<noteq> None) \<and> pk_payload p \<noteq> []
     \<and> encoded_len p \<le> unat LINK_MTU \<and> (pk_hops p < MAX_HOPS \<or> pk_packet_type p = Proof \<and> pk_hops p = MAX_HOPS)"

definition action_fine :: "action \<Rightarrow> bool" where
  "action_fine a \<longleftrightarrow> (case a of ActSend i p \<Rightarrow> sendable p | _ \<Rightarrow> True)"

abbreviation acts_fine :: "actions \<Rightarrow> bool" where
  "acts_fine acts \<equiv> list_all action_fine (as_items acts)"

lemma action_fine_simps [simp]: "action_fine (ActSend i p) = sendable p" "action_fine (ActLearned d)"
  by (simp_all add: action_fine_def)

lemma acts_fine_new: "acts_fine (actions_new N)"
  by (simp add: actions_new_def)

lemma acts_fine_pushed: "acts_fine (pushed acts a) \<longleftrightarrow> acts_fine acts \<and> action_fine a"
  by (simp add: pushed_def)

lemma acts_fine_push: "acts_fine acts \<Longrightarrow> action_fine a \<Longrightarrow> acts_fine (fst (push_action acts a))"
  by (simp add: push_action_alt acts_fine_pushed)

definition carrier_ok :: "curves \<Rightarrow> sha256 \<Rightarrow> node \<Rightarrow> bool" where
  "carrier_ok c sha n \<longleftrightarrow> nd_logical_mtu n \<le> LINK_MTU \<and> MIN_LOGICAL_MTU + length (nd_app_data n) \<le> unat (nd_logical_mtu n)
     \<and> tc_max_hops (nd_transport n) \<le> MAX_HOPS
     \<and> (\<exists>secret. length secret = IDENTITY_LEN \<and> nd_private n = from_secret_bytes c sha secret)
     \<and> nd_destination n = destination_hash sha (nd_name_hash n) (nd_identity n)"

definition queues_ok :: "rebroadcasts \<Rightarrow> (interface_id \<times> announce_cap) list \<Rightarrow> bool" where
  "queues_ok t caps \<longleftrightarrow> rebro_inv t \<and> rs_capacity t = REBROADCAST_SLOTS \<and> table_all sendable t \<and> caps_all sendable caps"

abbreviation node_queues_ok :: "node \<Rightarrow> bool" where
  "node_queues_ok n \<equiv> queues_ok (nd_rebroadcasts n) (nd_announce_caps n)"

text \<open>A route never outlives its freshness row.\<close>

definition rows_ok :: "freshness \<Rightarrow> address_hash set \<Rightarrow> bool" where
  "rows_ok f ds \<longleftrightarrow> fresh_inv f \<and> (\<forall>d \<in> ds. fresh_content f d \<noteq> None)"

abbreviation routed :: "node \<Rightarrow> address_hash set" where
  "routed n \<equiv> rt_destination ` set (nd_routes n)"

text \<open>The two memories of hashes hold each hash once and never more than two full generations.\<close>

definition generations_ok :: "nat \<Rightarrow> hash_generations \<Rightarrow> bool" where
  "generations_ok N g \<longleftrightarrow> hg_N g = N \<and> distinct (hg_current g @ hg_previous g)
     \<and> length (hg_current g) \<le> N \<and> length (hg_previous g) \<le> N"

lemma generations_ok_insert: "generations_ok N g \<Longrightarrow> generations_ok N (fst (generations_insert g h now age))"
  by (auto simp: generations_ok_def generations_insert_def turn_over_def Let_def)

definition filters_ok :: "hash_generations \<Rightarrow> hash_generations \<Rightarrow> bool" where
  "filters_ok seen tags \<longleftrightarrow> generations_ok TRANSPORT_DEDUP_HASHES seen \<and> generations_ok NODE_PATH_REQUEST_TAGS tags"

abbreviation node_filters_ok :: "node \<Rightarrow> bool" where
  "node_filters_ok n \<equiv> filters_ok (nd_transit_filter n) (nd_path_request_tags n)"

text \<open>The transit filter a handler leaves: as it was, or with a hash more.\<close>

definition filter_after :: "node \<Rightarrow> node \<Rightarrow> bool" where
  "filter_after n m \<longleftrightarrow> nd_transit_filter m = nd_transit_filter n
     \<or> (\<exists>h now age. nd_transit_filter m = fst (generations_insert (nd_transit_filter n) h now age))"

lemma filter_after_ok:
  "filter_after n m \<Longrightarrow> filters_ok (nd_transit_filter n) tags \<Longrightarrow> filters_ok (nd_transit_filter m) tags"
  using generations_ok_insert by (auto simp: filter_after_def filters_ok_def)

lemma transit_hash_filter:
  "transit_hash_is_new n cx h now = (m, fresh) \<Longrightarrow> \<exists>g. m = n\<lparr>nd_transit_filter := g\<rparr> \<and> filter_after n m"
  by (cases n) (auto simp: transit_hash_is_new_def filter_after_def split: if_splits prod.splits, metis fst_conv)

lemmas transit_filter = transit_hash_filter[of _ "pk_context p" "packet_hash sha p" for p sha, folded transit_is_new_def]

definition node_ok :: "curves \<Rightarrow> sha256 \<Rightarrow> node \<Rightarrow> bool" where
  "node_ok c sha n \<longleftrightarrow> transit_inv n \<and> settings_inv n \<and> book_inv (nd_book n) \<and> carrier_ok c sha n
     \<and> node_queues_ok n \<and> rows_ok (nd_freshness n) (routed n) \<and> node_filters_ok n"

text \<open>Fields a part of the invariant does not look at.\<close>

lemma carrier_frame [simp]:
  "carrier_ok c sha (n\<lparr>nd_routes := x0\<rparr>) = carrier_ok c sha n" "carrier_ok c sha (n\<lparr>nd_bridges := x1\<rparr>) = carrier_ok c sha n"
  "carrier_ok c sha (n\<lparr>nd_reverse := x2\<rparr>) = carrier_ok c sha n" "carrier_ok c sha (n\<lparr>nd_freshness := x3\<rparr>) = carrier_ok c sha n"
  "carrier_ok c sha (n\<lparr>nd_book := x4\<rparr>) = carrier_ok c sha n" "carrier_ok c sha (n\<lparr>nd_rebroadcasts := x5\<rparr>) = carrier_ok c sha n"
  "carrier_ok c sha (n\<lparr>nd_announce_caps := x6\<rparr>) = carrier_ok c sha n" "carrier_ok c sha (n\<lparr>nd_counters := x7\<rparr>) = carrier_ok c sha n"
  "carrier_ok c sha (n\<lparr>nd_first_hop_airtime := x8\<rparr>) = carrier_ok c sha n" "carrier_ok c sha (n\<lparr>nd_interface_modes := x9\<rparr>) = carrier_ok c sha n"
  "carrier_ok c sha (n\<lparr>nd_refused_payloads := x10\<rparr>) = carrier_ok c sha n" "carrier_ok c sha (n\<lparr>nd_refused_peers := x11\<rparr>) = carrier_ok c sha n"
  "carrier_ok c sha (n\<lparr>nd_transit_filter := x12\<rparr>) = carrier_ok c sha n" "carrier_ok c sha (n\<lparr>nd_path_request_tags := x13\<rparr>) = carrier_ok c sha n"
  "carrier_ok c sha (n\<lparr>nd_last_announce := x14\<rparr>) = carrier_ok c sha n" "carrier_ok c sha (n\<lparr>nd_announce_interval := x15\<rparr>) = carrier_ok c sha n"
  "carrier_ok c sha (n\<lparr>nd_announced_blob := x16\<rparr>) = carrier_ok c sha n" "carrier_ok c sha (n\<lparr>nd_freshness_policy := x17\<rparr>) = carrier_ok c sha n"
  "carrier_ok c sha (n\<lparr>nd_limits := x18\<rparr>) = carrier_ok c sha n"
  by (simp_all add: carrier_ok_def)

lemma transit_inv_frame [simp]:
  "transit_inv (n\<lparr>nd_app_data := x0\<rparr>) = transit_inv n" "transit_inv (n\<lparr>nd_freshness := x1\<rparr>) = transit_inv n"
  "transit_inv (n\<lparr>nd_book := x2\<rparr>) = transit_inv n" "transit_inv (n\<lparr>nd_rebroadcasts := x3\<rparr>) = transit_inv n"
  "transit_inv (n\<lparr>nd_announce_caps := x4\<rparr>) = transit_inv n" "transit_inv (n\<lparr>nd_counters := x5\<rparr>) = transit_inv n"
  "transit_inv (n\<lparr>nd_first_hop_airtime := x6\<rparr>) = transit_inv n" "transit_inv (n\<lparr>nd_interface_modes := x7\<rparr>) = transit_inv n"
  "transit_inv (n\<lparr>nd_refused_payloads := x8\<rparr>) = transit_inv n" "transit_inv (n\<lparr>nd_refused_peers := x9\<rparr>) = transit_inv n"
  "transit_inv (n\<lparr>nd_transit_filter := x10\<rparr>) = transit_inv n" "transit_inv (n\<lparr>nd_path_request_tags := x11\<rparr>) = transit_inv n"
  "transit_inv (n\<lparr>nd_last_announce := x12\<rparr>) = transit_inv n" "transit_inv (n\<lparr>nd_announce_interval := x13\<rparr>) = transit_inv n"
  "transit_inv (n\<lparr>nd_announced_blob := x14\<rparr>) = transit_inv n" "transit_inv (n\<lparr>nd_freshness_policy := x15\<rparr>) = transit_inv n"
  "transit_inv (n\<lparr>nd_limits := x16\<rparr>) = transit_inv n" "transit_inv (n\<lparr>nd_logical_mtu := x17\<rparr>) = transit_inv n"
  "transit_inv (n\<lparr>nd_transport := x18\<rparr>) = transit_inv n"
  by (simp_all add: transit_inv_def)

lemma settings_frame [simp]:
  "settings_inv (n\<lparr>nd_app_data := x0\<rparr>) = settings_inv n" "settings_inv (n\<lparr>nd_routes := x1\<rparr>) = settings_inv n"
  "settings_inv (n\<lparr>nd_bridges := x2\<rparr>) = settings_inv n" "settings_inv (n\<lparr>nd_reverse := x3\<rparr>) = settings_inv n"
  "settings_inv (n\<lparr>nd_freshness := x4\<rparr>) = settings_inv n" "settings_inv (n\<lparr>nd_book := x5\<rparr>) = settings_inv n"
  "settings_inv (n\<lparr>nd_rebroadcasts := x6\<rparr>) = settings_inv n" "settings_inv (n\<lparr>nd_announce_caps := x7\<rparr>) = settings_inv n"
  "settings_inv (n\<lparr>nd_counters := x8\<rparr>) = settings_inv n" "settings_inv (n\<lparr>nd_refused_payloads := x9\<rparr>) = settings_inv n"
  "settings_inv (n\<lparr>nd_refused_peers := x10\<rparr>) = settings_inv n" "settings_inv (n\<lparr>nd_transit_filter := x11\<rparr>) = settings_inv n"
  "settings_inv (n\<lparr>nd_path_request_tags := x12\<rparr>) = settings_inv n" "settings_inv (n\<lparr>nd_last_announce := x13\<rparr>) = settings_inv n"
  "settings_inv (n\<lparr>nd_announce_interval := x14\<rparr>) = settings_inv n" "settings_inv (n\<lparr>nd_announced_blob := x15\<rparr>) = settings_inv n"
  "settings_inv (n\<lparr>nd_freshness_policy := x16\<rparr>) = settings_inv n" "settings_inv (n\<lparr>nd_limits := x17\<rparr>) = settings_inv n"
  "settings_inv (n\<lparr>nd_logical_mtu := x18\<rparr>) = settings_inv n" "settings_inv (n\<lparr>nd_transport := x19\<rparr>) = settings_inv n"
  by (simp_all add: settings_inv_def)

text \<open>What carrying traffic leaves alone.\<close>

definition core_of :: "node \<Rightarrow> node" where
  "core_of n = n\<lparr>nd_refused_payloads := 0, nd_routes := [], nd_bridges := [], nd_reverse := [],
     nd_transit_filter := generations_new 0, nd_counters := counters_default\<rparr>"

lemma core_fields:
  assumes "core_of m = core_of n"
  shows "nd_private m = nd_private n" "nd_name_hash m = nd_name_hash n" "nd_destination m = nd_destination n"
    "nd_book m = nd_book n" "nd_app_data m = nd_app_data n" "nd_logical_mtu m = nd_logical_mtu n"
    "nd_transport m = nd_transport n" "nd_ROUTES m = nd_ROUTES n" "nd_freshness m = nd_freshness n"
    "nd_rebroadcasts m = nd_rebroadcasts n" "nd_announce_caps m = nd_announce_caps n"
    "nd_first_hop_airtime m = nd_first_hop_airtime n" "nd_interface_modes m = nd_interface_modes n"
    "nd_announced_blob m = nd_announced_blob n" "nd_limits m = nd_limits n"
    "nd_path_request_tags m = nd_path_request_tags n"
  using arg_cong[OF assms, of nd_private] arg_cong[OF assms, of nd_name_hash] arg_cong[OF assms, of nd_destination]
    arg_cong[OF assms, of nd_book] arg_cong[OF assms, of nd_app_data] arg_cong[OF assms, of nd_logical_mtu]
    arg_cong[OF assms, of nd_transport] arg_cong[OF assms, of nd_ROUTES] arg_cong[OF assms, of nd_freshness]
    arg_cong[OF assms, of nd_rebroadcasts] arg_cong[OF assms, of nd_announce_caps]
    arg_cong[OF assms, of nd_first_hop_airtime] arg_cong[OF assms, of nd_interface_modes]
    arg_cong[OF assms, of nd_announced_blob] arg_cong[OF assms, of nd_limits]
    arg_cong[OF assms, of nd_path_request_tags]
  by (simp_all add: core_of_def)

lemma node_ok_core:
  assumes "node_ok c sha n" "transit_inv m" "core_of m = core_of n" "routed m \<subseteq> routed n" "filter_after n m"
  shows "node_ok c sha m"
  using assms(1,2,4) filter_after_ok[OF assms(5)] unfolding node_ok_def carrier_ok_def settings_inv_def rows_ok_def core_fields[OF assms(3)] by blast

lemma core_remember_bridge: "core_of (fst (remember_bridge n lid d i out deadline now)) = core_of n
    \<and> nd_routes (fst (remember_bridge n lid d i out deadline now)) = nd_routes n"
  by (simp add: remember_bridge_def Let_def core_of_def split: option.split)

lemma core_bridge_request: "core_of (fst (bridge_request sha n i p r now acts)) = core_of n
    \<and> nd_routes (fst (bridge_request sha n i p r now acts)) = nd_routes n"
  by (simp add: bridge_request_def core_remember_bridge split: sum.split)

lemma routed_touch: "core_of (touch_route n d now) = core_of n \<and> map rt_destination (nd_routes (touch_route n d now)) = map rt_destination (nd_routes n)"
  by (auto simp: touch_route_def core_of_def map_update list_update_same_conv dest: position_Some split: option.split)

lemma core_reverse: "core_of (remember_reverse n h i out now) = core_of n \<and> nd_routes (remember_reverse n h i out now) = nd_routes n"
  by (simp add: remember_reverse_def core_of_def Let_def split: option.split)

lemma core_carried_on: "core_of (carried_on m i p h r now) = core_of m
    \<and> map rt_destination (nd_routes (carried_on m i p h r now)) = map rt_destination (nd_routes m)"
proof -
  have "core_of (counted f n) = core_of n" for f n by (simp add: core_of_def)
  then show ?thesis using routed_touch[of m] core_reverse by (simp add: carried_on_def Let_def)
qed

lemma core_transit_hash: "core_of (fst (transit_hash_is_new n cx h now)) = core_of n
    \<and> nd_routes (fst (transit_hash_is_new n cx h now)) = nd_routes n"
  using transit_hash_frame[of n cx h now] by (auto simp: core_of_def)

lemma core_counted [simp]: "core_of (counted f n) = core_of n" "core_of (refuse_payload n) = core_of n"
  "nd_routes (refuse_payload n) = nd_routes n"
  by (simp_all add: core_of_def refuse_payload_def)

definition same_core :: "node \<Rightarrow> node \<Rightarrow> bool" where
  "same_core n m \<longleftrightarrow> core_of m = core_of n \<and> map rt_destination (nd_routes m) = map rt_destination (nd_routes n)"

lemma same_core_routed: "same_core n m \<Longrightarrow> routed m = routed n"
  unfolding same_core_def by (metis list.set_map)

lemma same_core_trans: "same_core n m \<Longrightarrow> same_core m k \<Longrightarrow> same_core n k"
  by (simp add: same_core_def)

lemma same_core_simps [simp]: "same_core n n" "same_core n (refuse_payload m) \<longleftrightarrow> same_core n m"
  "same_core n (m\<lparr>nd_counters := cs\<rparr>) \<longleftrightarrow> same_core n m" "same_core n (m\<lparr>nd_bridges := bs\<rparr>) \<longleftrightarrow> same_core n m"
  "same_core n (m\<lparr>nd_reverse := es\<rparr>) \<longleftrightarrow> same_core n m"
  by (simp_all add: same_core_def) (simp_all add: core_of_def)

lemma forward_transport_core: "same_core n (fst (forward_transport_packet sha n i p now acts))"
proof -
  obtain n1 fresh where g: "transit_hash_is_new n (pk_context p) (packet_hash sha p) now = (n1, fresh)" by fastforce
  have n1: "same_core n n1" using core_transit_hash[of n "pk_context p" "packet_hash sha p" now] by (simp add: g same_core_def)
  have br: "same_core n (fst (bridge_request sha n1 i p r now acts))" for r
    using core_bridge_request[of sha n1 i p r now acts] n1 by (simp add: same_core_def)
  have on: "same_core n (touch_route (fst (bridge_request sha n1 i p r now acts)) d now)"
    "same_core n (remember_reverse (touch_route (fst (bridge_request sha n1 i p r now acts)) d now) h x y now)" for r d h x y
    using br[of r] routed_touch[of "fst (bridge_request sha n1 i p r now acts)" d now]
      core_reverse[of "touch_route (fst (bridge_request sha n1 i p r now acts)) d now"] by (simp_all add: same_core_def)
  show ?thesis
    by (simp add: forward_transport_packet_def Let_def g n1 br on case_prod_unfold split: option.split sum.split)
qed

lemma forward_bridged_core: "same_core n (fst (forward_bridged_packet c sha n i p now acts))"
proof -
  obtain n1 fresh where g: "transit_is_new sha n p now = (n1, fresh)" by fastforce
  have n1: "same_core n n1"
    using core_transit_hash[of n "pk_context p" "packet_hash sha p" now] g by (simp add: transit_is_new_def same_core_def)
  show ?thesis
    by (simp add: forward_bridged_packet_def Let_def g n1 push_action_alt split: option.split)
qed

lemma forward_reverse_core: "same_core n (fst (forward_reverse_proof n i p acts))"
proof -
  show ?thesis by (simp add: forward_reverse_proof_def Let_def case_prod_unfold split: option.split)
qed

lemma forward_reverse_inv: "transit_inv n \<Longrightarrow> transit_inv (fst (forward_reverse_proof n i p acts))"
proof -
  assume inv: "transit_inv n"
  have "\<exists>es. set es \<subseteq> set (nd_reverse n) \<and> reverse_ok (nd_ROUTES n) es \<and> nd_reverse (fst (forward_reverse_proof n i p acts)) = es"
  proof (cases "position (\<lambda>e. rv_packet e = pk_destination p) (nd_reverse n)")
    case None
    then show ?thesis using inv by (auto simp: forward_reverse_proof_def transit_inv_def)
  next
    case (Some k)
    note k = position_Some[OF Some, THEN conjunct1]
    have "distinct (map rv_packet (nd_reverse n))" "length (nd_reverse n) \<le> nd_ROUTES n"
      using inv by (simp_all add: transit_inv_def reverse_ok_def)
    then have "reverse_ok (nd_ROUTES n) (swap_remove k (nd_reverse n))" "reverse_ok (nd_ROUTES n) (nd_reverse n)"
      using swap_remove_distinct[OF k] by (auto simp: reverse_ok_def)
    with Some set_swap_remove[of k "nd_reverse n"] show ?thesis
      by (auto simp: forward_reverse_proof_def Let_def refuse_payload_def push_action_alt)
  qed
  moreover have "nd_bridges (fst (forward_reverse_proof n i p acts)) = nd_bridges n"
    "nd_routes (fst (forward_reverse_proof n i p acts)) = nd_routes n"
    "nd_ROUTES (fst (forward_reverse_proof n i p acts)) = nd_ROUTES n"
    "nd_destination (fst (forward_reverse_proof n i p acts)) = nd_destination n"
    by (simp_all add: forward_reverse_proof_def Let_def refuse_payload_def push_action_alt split: option.split)
  ultimately show ?thesis using inv by (auto simp: transit_inv_def)
qed

lemma forward_bridged_inv: "transit_inv n \<Longrightarrow> transit_inv (fst (forward_bridged_packet c sha n i p now acts))"
proof -
  assume inv: "transit_inv n"
  obtain n' acts' h where f: "forward_bridged_packet c sha n i p now acts = (n', acts', h)" by (rule prod_cases3)
  have "core_of n' = core_of n" using forward_bridged_core[of n c sha i p now acts] by (simp add: f same_core_def)
  note S = core_fields(3,8)[OF this]
  obtain g fresh where g: "transit_is_new sha n p now = (n\<lparr>nd_transit_filter := g\<rparr>, fresh)"
    using transit_frame[of sha n p now] by (metis prod.collapse)
  have "nd_routes (fst (forward_bridged_packet c sha n i p now acts)) = nd_routes n"
    "nd_reverse (fst (forward_bridged_packet c sha n i p now acts)) = nd_reverse n"
    by (simp_all add: forward_bridged_packet_def Let_def g push_action_alt refuse_payload_def split: option.split)
  then have R: "nd_routes n' = nd_routes n" "nd_reverse n' = nd_reverse n" by (simp_all add: f)
  have "bridges_inv n'"
  proof (cases "tc_relay_packets (nd_transport n) \<and> pk_destination p \<in> br_link_id ` set (nd_bridges n)")
    case True
    then obtain b where b: "tc_relay_packets (nd_transport n)" "b \<in> set (nd_bridges n)" "br_link_id b = pk_destination p" by auto
    have ok: "bridges_inv n" using inv by (simp add: transit_inv_def)
    from forward_bridged_spec(2)[OF ok b f] ok show ?thesis by (auto simp: S kept_bridges_def split: if_splits)
  next
    case False
    then have "n' = n" using forward_bridged_unknown[of p n c sha i now acts] f by auto
    then show ?thesis using inv by (simp add: transit_inv_def)
  qed
  with inv R S show ?thesis by (simp add: f transit_inv_def)
qed

section \<open>Carried packets\<close>

text \<open>A received packet the node may carry.\<close>

abbreviation received :: "packet \<Rightarrow> bool" where
  "received p \<equiv> valid_packet p \<and> \<not> pk_ifac p"

lemma hop_on_shape: "pk_ifac (hop_on t p) = pk_ifac p" "pk_header_type (hop_on t p) = Type2 \<longleftrightarrow> pk_transport (hop_on t p) \<noteq> None"
  "pk_packet_type (hop_on t p) = pk_packet_type p"
  by (cases t; simp add: hop_on_def address_via_def)+

lemma hop_on_sendable:
  assumes "received p" "next_hops p < m" "m \<le> MAX_HOPS" "encoded_len (hop_on t p) \<le> unat LINK_MTU"
  shows "sendable (hop_on t p)"
  using assms unfolding sendable_def hop_on_shape hop_on_same by (auto simp: valid_packet_def)

lemma mtu_le: "carrier_ok c sha n \<Longrightarrow> unat (nd_logical_mtu n) \<le> unat LINK_MTU"
  by (simp add: carrier_ok_def word_le_nat_alt)

lemma carried_sendable:
  assumes c: "carrier_ok c sha n" and p: "received p" and q: "carried_as n p r q"
  shows "sendable q"
proof -
  have Q: "next_hops p < tc_max_hops (nd_transport n)" "tc_max_hops (nd_transport n) \<le> MAX_HOPS" "encoded_len q \<le> unat LINK_MTU"
    using q c mtu_le[OF c] by (auto simp: carried_as_def carrier_ok_def)
  show ?thesis
  proof (cases "pk_packet_type p = LinkRequest")
    case False
    then have "q = hop_on (rt_transport r) p" using q by (simp add: carried_as_def)
    with hop_on_sendable[OF p Q(1,2)] Q(3) show ?thesis by simp
  next
    case True
    then have "clamp_request_mtu (hop_on (rt_transport r) p) (nd_logical_mtu n) = Inr q" using q by (simp add: carried_as_def)
    then show ?thesis
    proof (cases rule: clamp_cases)
      case 1
      with hop_on_sendable[OF p Q(1,2)] Q(3) show ?thesis by simp
    next
      case (2 m t)
      have "pk_hops (hop_on (rt_transport r) p) < MAX_HOPS" using Q(1,2) by (simp add: hop_on_same)
      moreover have "trailer_encode t' \<noteq> []" for t' by (simp add: trailer_encode_def to_be_def)
      ultimately show ?thesis using Q(3) p hop_on_shape[of "rt_transport r" p] unfolding 2(4) sendable_def by simp
    qed
  qed
qed

lemma forward_transport_fine:
  assumes n: "transit_inv n" "carrier_ok c sha' n" and p: "received p" and a: "acts_fine acts"
  shows "acts_fine (fst (snd (forward_transport_packet sha n i p now acts)))"
proof -
  obtain n' acts' h where f: "forward_transport_packet sha n i p now acts = (n', acts', h)" by (rule prod_cases3)
  have ok: "bridges_inv n" using n(1) by (simp add: transit_inv_def)
  from ok f have "acts_fine acts'"
  proof (cases rule: forward_transport_cases)
    case (sent r q g m)
    with carried_sendable[OF n(2) p] a show ?thesis by (simp add: acts_fine_pushed)
  qed (use a in simp)
  then show ?thesis by (simp add: f)
qed

lemma forward_bridged_fine:
  assumes n: "transit_inv n" "carrier_ok c' sha' n" and p: "received p" and a: "acts_fine acts"
  shows "acts_fine (fst (snd (forward_bridged_packet c sha n i p now acts)))"
proof -
  obtain n' acts' h where f: "forward_bridged_packet c sha n i p now acts = (n', acts', h)" by (rule prod_cases3)
  have "acts_fine acts'"
  proof (cases "tc_relay_packets (nd_transport n) \<and> pk_destination p \<in> br_link_id ` set (nd_bridges n)")
    case True
    then obtain b where b: "tc_relay_packets (nd_transport n)" "b \<in> set (nd_bridges n)" "br_link_id b = pk_destination p" by auto
    have ok: "bridges_inv n" using n(1) by (simp add: transit_inv_def)
    have "crosses c sha n i p now b \<Longrightarrow> sendable (hop_on None p)"
      using hop_on_sendable[OF p, of "tc_max_hops (nd_transport n)" None] n(2) mtu_le[OF n(2)]
      by (auto simp: crosses_def carrier_ok_def)
    with forward_bridged_spec(2)[OF ok b f] a show ?thesis by (auto simp: kept_bridges_def acts_fine_pushed split: if_splits)
  next
    case False
    then have "acts' = acts" using forward_bridged_unknown[of p n c sha i now acts] f by auto
    with a show ?thesis by simp
  qed
  then show ?thesis by (simp add: f)
qed

lemma next_hops_bound: "pk_hops p < MAX_HOPS \<Longrightarrow> next_hops p \<le> MAX_HOPS"
proof -
  assume "pk_hops p < MAX_HOPS"
  then have h: "unat (pk_hops p) < 128" by (simp add: word_less_nat_alt MAX_HOPS_def)
  then have "next_hops p = of_nat (unat (pk_hops p) + 1)" by (simp add: next_hops_def sat_add_def u8_max_def)
  then have "unat (next_hops p) = unat (pk_hops p) + 1" using h by (simp add: unat_of_nat del: of_nat_add of_nat_Suc)
  with h show ?thesis by (simp add: word_le_nat_alt MAX_HOPS_def)
qed

lemma forward_reverse_fine:
  assumes n: "carrier_ok c sha n" and p: "received p" "pk_packet_type p = Proof" and a: "acts_fine acts"
  shows "acts_fine (fst (snd (forward_reverse_proof n i p acts)))"
proof -
  let ?q = "p\<lparr>pk_hops := next_hops p\<rparr>"
  have "\<not> too_long n ?q \<Longrightarrow> sendable ?q"
    using p mtu_le[OF n] next_hops_bound[of p]
    by (auto simp: sendable_def too_long_def valid_packet_def encoded_len_def order.order_iff_strict)
  with a show ?thesis
    by (auto simp: forward_reverse_proof_def Let_def push_action_alt acts_fine_pushed too_long_def split: option.split)
qed

section \<open>Expiry and settings\<close>

lemma expire_routes_core: "core_of (expire_routes n now) = core_of n"
  "nd_bridges (expire_routes n now) = nd_bridges n" "nd_reverse (expire_routes n now) = nd_reverse n"
  by (simp_all add: expire_routes_def Let_def case_prod_unfold core_of_def)

lemma expire_filter: "filter_after n (expire_routes n now)" "filter_after n (expire_transport_state n now)"
  by (simp_all add: filter_after_def expire_routes_def expire_transport_state_def Let_def case_prod_unfold)

lemma expire_routes_ok: "node_ok c sha n \<Longrightarrow> node_ok c sha (expire_routes n now)"
proof (rule node_ok_core)
  assume n: "node_ok c sha n"
  then show "transit_inv (expire_routes n now)"
    using routes_inv_expire[of n now] by (simp add: node_ok_def transit_inv_def expire_routes_core expire_routes_fields(2))
qed (auto simp: expire_routes_core set_expired expire_filter)

lemma sweep_bridges: "bridges_ok k bs \<Longrightarrow> bridges_ok k (fst (sweep p bs x))"
  using sweep_length[of p bs x] length_filter_le[of "\<lambda>b. \<not> p b" bs] sweep_distinct[of br_link_id bs p x]
    order.trans[of "length (filter (\<lambda>b. \<not> p b) bs)" "length bs" k]
  by (simp add: bridges_ok_def)

lemma expire_state_fields:
  "nd_bridges (expire_transport_state n now) = fst (sweep (\<lambda>b. bridge_lapsed b now (tc_bridge_ttl (nd_transport n)))
     (nd_bridges n) (n_expired_bridges (nd_counters (expire_routes n now))))"
  "nd_routes (expire_transport_state n now) = nd_routes (expire_routes n now)"
  "nd_reverse (expire_transport_state n now) = filter (\<lambda>e. now - rv_seen e < REVERSE_TIMEOUT) (nd_reverse n)"
  "core_of (expire_transport_state n now) = core_of n"
proof -
  let ?e = "expire_routes n now"
  have t: "nd_transport ?e = nd_transport n" by (rule expire_routes_fields)
  show "nd_bridges (expire_transport_state n now) = fst (sweep (\<lambda>b. bridge_lapsed b now (tc_bridge_ttl (nd_transport n)))
     (nd_bridges n) (n_expired_bridges (nd_counters ?e)))"
    "nd_routes (expire_transport_state n now) = nd_routes ?e"
    "nd_reverse (expire_transport_state n now) = filter (\<lambda>e. now - rv_seen e < REVERSE_TIMEOUT) (nd_reverse n)"
    by (simp_all add: expire_transport_state_def Let_def case_prod_unfold t expire_routes_core)
  have "core_of (expire_transport_state n now) = core_of ?e"
    by (simp add: expire_transport_state_def Let_def case_prod_unfold core_of_def)
  then show "core_of (expire_transport_state n now) = core_of n" by (simp add: expire_routes_core)
qed

lemma expire_state_ok:
  assumes n: "node_ok c sha n"
  shows "node_ok c sha (expire_transport_state n now)"
proof (rule node_ok_core[OF expire_routes_ok[OF n, of now]])
  let ?m = "expire_transport_state n now" and ?e = "expire_routes n now"
  show "core_of ?m = core_of ?e" by (simp add: expire_state_fields expire_routes_core)
  note C = core_fields(3,8)[OF this]
  have "transit_inv ?e" using expire_routes_ok[OF n, of now] by (simp add: node_ok_def)
  moreover have "reverse_ok k es \<Longrightarrow> reverse_ok k (filter f es)" for k es and f :: "reverse_entry \<Rightarrow> bool"
    by (auto simp: reverse_ok_def distinct_map_filter intro: order.trans[OF length_filter_le])
  ultimately show "transit_inv ?m"
    unfolding transit_inv_def C expire_state_fields expire_routes_core using sweep_bridges by blast
qed (simp_all add: expire_state_fields filter_after_def expire_transport_state_def Let_def case_prod_unfold)

lemma set_airtime_ok: "node_ok c sha n \<Longrightarrow> node_ok c sha (kept_or n (set_first_hop_airtime n i a))"
proof -
  assume n: "node_ok c sha n"
  then have "settings_ok FIRST_HOP_AIRTIME_INTERFACES 0 (nd_first_hop_airtime n)" by (simp add: node_ok_def settings_inv_def)
  from put_setting_spec[OF this, where i = i and v = a] n show ?thesis
    by (cases "put_setting FIRST_HOP_AIRTIME_INTERFACES 0 (nd_first_hop_airtime n) i a")
      (simp_all add: set_first_hop_airtime_def kept_or_def node_ok_def settings_inv_def)
qed

lemma set_mode_ok: "node_ok c sha n \<Longrightarrow> node_ok c sha (kept_or n (set_interface_mode n i m))"
proof -
  assume n: "node_ok c sha n"
  then have "settings_ok INTERFACE_MODE_INTERFACES Full (nd_interface_modes n)" by (simp add: node_ok_def settings_inv_def)
  from put_setting_spec[OF this, where i = i and v = m] n show ?thesis
    by (cases "put_setting INTERFACE_MODE_INTERFACES Full (nd_interface_modes n) i m")
      (simp_all add: set_interface_mode_def kept_or_def node_ok_def settings_inv_def)
qed

lemma routes_ok_filter: "routes_ok k d rs \<Longrightarrow> routes_ok k d (filter f rs)"
  by (auto simp: routes_ok_def distinct_map_filter intro: order.trans[OF length_filter_le])

lemma rows_ok_mono: "rows_ok f ds \<Longrightarrow> ds' \<subseteq> ds \<Longrightarrow> rows_ok f ds'"
  by (auto simp: rows_ok_def)

lemma drop_interface_ok: "node_ok c sha n \<Longrightarrow> node_ok c sha (node_forget_interface n i)"
proof -
  assume n: "node_ok c sha n"
  have "bridges_ok k bs \<Longrightarrow> bridges_ok k (filter f bs)" for k bs and f :: "link_bridge \<Rightarrow> bool"
    by (auto simp: bridges_ok_def distinct_map_filter intro: order.trans[OF length_filter_le])
  moreover have "rows_ok (nd_freshness n) (rt_destination ` set (filter f (nd_routes n)))" for f
    using n by (auto simp: node_ok_def intro: rows_ok_mono)
  ultimately show ?thesis
    using n by (simp add: node_ok_def transit_inv_def routes_ok_filter settings_inv_def settings_ok_filter
        node_forget_interface_def del: set_filter)
qed

lemma set_mtu_ok: "node_ok c sha n \<Longrightarrow> node_ok c sha (kept_or n (set_logical_mtu n own mtu))"
proof -
  assume n: "node_ok c sha n"
  have "kept_or n (set_logical_mtu n own mtu) = n \<or> (kept_or n (set_logical_mtu n own mtu) = n\<lparr>nd_logical_mtu := mtu\<rparr>
      \<and> mtu \<le> LINK_MTU \<and> MIN_LOGICAL_MTU + length (nd_app_data n) \<le> unat mtu)"
    by (auto simp: set_logical_mtu_def kept_or_def not_less)
  with n show ?thesis by (elim disjE conjE) (simp_all add: node_ok_def, simp add: carrier_ok_def)
qed

lemma set_app_data_ok: "node_ok c sha n \<Longrightarrow> node_ok c sha (kept_or n (try_set_app_data n bs))"
proof -
  assume n: "node_ok c sha n"
  then have "MIN_LOGICAL_MTU \<le> unat (nd_logical_mtu n)" by (simp add: node_ok_def carrier_ok_def)
  then have "kept_or n (try_set_app_data n bs) = n \<or> (kept_or n (try_set_app_data n bs) = n\<lparr>nd_app_data := bs\<rparr>
      \<and> MIN_LOGICAL_MTU + length bs \<le> unat (nd_logical_mtu n))"
    by (auto simp: try_set_app_data_def kept_or_def not_less)
  with n show ?thesis by (elim disjE conjE) (simp_all add: node_ok_def, simp add: carrier_ok_def)
qed

lemma set_transport_ok: "node_ok c sha n \<Longrightarrow> tc_max_hops cfg \<le> MAX_HOPS \<Longrightarrow> node_ok c sha (set_transport_config n cfg)"
  by (simp add: node_ok_def set_transport_config_def) (simp add: carrier_ok_def)

lemma set_freshness_ok:
  assumes n: "node_ok c sha n" and cap: "fp_max_destinations policy < u64_max"
  shows "node_ok c sha (fst (set_freshness_policy n policy))"
proof -
  let ?cfg = "\<lparr>fc_destination_capacity = fp_max_destinations policy, fc_blob_capacity = fp_max_blobs_per_destination policy\<rparr>"
  obtain f r where r: "reconfigure (nd_freshness n) ?cfg = (f, r)" by fastforce
  have f: "fresh_inv (nd_freshness n)" using n by (simp add: node_ok_def rows_ok_def)
  from r show ?thesis
  proof (cases rule: reconfigure_cases)
    case (1 e)
    with n r show ?thesis by (simp add: set_freshness_policy_def)
  next
    case (2 report)
    have cap': "fc_destination_capacity ?cfg < u64_max" using cap by simp
    note S = reconfigure_spec[OF f r[unfolded 2] cap']
    let ?rs = "filter (\<lambda>r. rt_destination r \<notin> set (frc_evicted_destinations report)) (nd_routes n)"
    have "rows_ok f (rt_destination ` set ?rs)" using S(1,6) n by (auto simp: rows_ok_def node_ok_def)
    with n routes_ok_filter show ?thesis
      by (simp add: set_freshness_policy_def r 2 Let_def node_ok_def transit_inv_def del: set_filter)
  qed
qed

section \<open>Announces on their way out\<close>

lemma node_ok_frame [simp]:
  "node_ok c sha (n\<lparr>nd_counters := x1\<rparr>) = node_ok c sha n" "node_ok c sha (n\<lparr>nd_refused_payloads := x2\<rparr>) = node_ok c sha n"
  "node_ok c sha (n\<lparr>nd_refused_peers := x3\<rparr>) = node_ok c sha n"
  "node_ok c sha (n\<lparr>nd_last_announce := x6\<rparr>) = node_ok c sha n"
  "node_ok c sha (n\<lparr>nd_announce_interval := x7\<rparr>) = node_ok c sha n" "node_ok c sha (n\<lparr>nd_announced_blob := x8\<rparr>) = node_ok c sha n"
  "node_ok c sha (n\<lparr>nd_limits := x9\<rparr>) = node_ok c sha n" "node_ok c sha (refuse_payload n) = node_ok c sha n"
  by (simp_all add: node_ok_def refuse_payload_def)

lemma node_ok_filter: "node_ok c sha n \<Longrightarrow> filter_after n (n\<lparr>nd_transit_filter := g\<rparr>) \<Longrightarrow> node_ok c sha (n\<lparr>nd_transit_filter := g\<rparr>)"
  using filter_after_ok[of n "n\<lparr>nd_transit_filter := g\<rparr>"] by (simp add: node_ok_def)

lemma node_ok_tags:
  "node_ok c sha n \<Longrightarrow> generations_insert (nd_path_request_tags n) tag now age = (g, fresh) \<Longrightarrow>
     node_ok c sha (n\<lparr>nd_path_request_tags := g\<rparr>)"
  using generations_ok_insert[of NODE_PATH_REQUEST_TAGS "nd_path_request_tags n" tag now age]
  by (simp add: node_ok_def filters_ok_def)

lemma node_ok_caps: "node_ok c sha n \<Longrightarrow> caps_all sendable caps \<Longrightarrow> node_ok c sha (n\<lparr>nd_announce_caps := caps\<rparr>)"
  by (simp add: node_ok_def queues_ok_def)

lemma node_ok_table:
  "node_ok c sha n \<Longrightarrow> rebro_inv t \<Longrightarrow> rs_capacity t = rs_capacity (nd_rebroadcasts n) \<Longrightarrow> table_all sendable t \<Longrightarrow>
     node_ok c sha (n\<lparr>nd_rebroadcasts := t\<rparr>)"
  by (simp add: node_ok_def queues_ok_def)

definition polled :: "curves \<Rightarrow> sha256 \<Rightarrow> node \<times> actions \<Rightarrow> bool" where
  "polled c sha r \<longleftrightarrow> node_ok c sha (fst r) \<and> acts_fine (snd r)"

lemma send_rebroadcast_ok:
  "node_ok c sha n \<Longrightarrow> acts_fine acts \<Longrightarrow> sendable p \<Longrightarrow> polled c sha (send_rebroadcast n i p acts)"
  by (simp add: polled_def send_rebroadcast_def Let_def push_action_alt acts_fine_pushed)

lemma send_rebroadcast_caps: "nd_announce_caps (fst (send_rebroadcast n i p acts)) = nd_announce_caps n"
  by (simp add: send_rebroadcast_def Let_def case_prod_unfold)

lemma release_cap_ok:
  "node_ok c sha n \<Longrightarrow> acts_fine acts \<Longrightarrow> index < length (nd_announce_caps n) \<Longrightarrow>
     polled c sha (release_cap now index n acts)
     \<and> length (nd_announce_caps (fst (release_cap now index n acts))) = length (nd_announce_caps n)"
proof (induction now index n acts rule: release_cap.induct)
  case (1 now index n acts)
  show ?case
  proof (cases "length (as_items acts) < as_N acts")
    case False
    with "1.prems" show ?thesis by (simp add: release_cap.simps[of now index n acts] polled_def)
  next
    case True
    let ?i = "fst (nd_announce_caps n ! index)" and ?cap = "snd (nd_announce_caps n ! index)"
    obtain cap out where o: "cap_pop_due ?cap now (cap_rate_new (first_hop_airtime n ?i)) = (cap, out)" by fastforce
    let ?m = "n\<lparr>nd_announce_caps := (nd_announce_caps n)[index := (?i, cap)]\<rparr>"
    have caps: "caps_all sendable (nd_announce_caps n)" using "1.prems"(1) by (simp add: node_ok_def queues_ok_def)
    then have "cap_all sendable ?cap" using "1.prems"(3) by (auto simp: caps_all_def)
    note P = cap_all_pop[OF this o]
    have m: "node_ok c sha ?m"
      using caps_all_update[OF caps "1.prems"(3) P(1) HOL.refl] "1.prems"(1) by (rule node_ok_caps[rotated])
    show ?thesis
    proof (cases out)
      case None
      with True o m "1.prems"(2) show ?thesis by (simp add: release_cap.simps[of now index n acts] Let_def polled_def)
    next
      case (Some p)
      note S = send_rebroadcast_ok[OF m "1.prems"(2) P(2)[OF Some], of ?i]
      have "index < length (nd_announce_caps (fst (send_rebroadcast ?m ?i p acts)))"
        using "1.prems"(3) by (simp add: send_rebroadcast_caps)
      from "1.IH"[OF True HOL.refl o[symmetric] HOL.refl HOL.refl Some _ _ this] S True o Some show ?thesis
        by (simp add: release_cap.simps[of now index n acts] Let_def polled_def send_rebroadcast_caps)
    qed
  qed
qed

lemma offer_rebroadcast_ok:
  assumes n: "node_ok c sha n" and a: "acts_fine acts" and p: "sendable (rb_packet r)"
  shows "polled c sha (offer_rebroadcast n r now acts)"
proof -
  let ?i = "rb_interface r"
  have caps: "caps_all sendable (nd_announce_caps n)" using n by (simp add: node_ok_def queues_ok_def)
  note direct = send_rebroadcast_ok[OF n a p, of ?i]
  have slot: "polled c sha (case cap_offer (snd (caps ! k)) r now rate of (cap, result) \<Rightarrow>
      let m = n\<lparr>nd_announce_caps := caps[k := (fst (caps ! k), cap)]\<rparr>
      in case result of Offer_send p \<Rightarrow> send_rebroadcast m ?i p acts
         | Offer_queued \<Rightarrow> (counted (n_capped_announces_update inc) m, acts)
         | Offer_dropped \<Rightarrow> (counted (n_dropped_announces_update inc) m, acts))"
    if "cap_slot (nd_announce_caps n) ?i = Some (caps, k)" for caps k rate
  proof -
    note C = cap_slot_spec[OF caps that]
    obtain cap result where o: "cap_offer (snd (caps ! k)) r now rate = (cap, result)" by fastforce
    have "cap_all sendable (snd (caps ! k))" using C(1,2) by (auto simp: caps_all_def)
    note O = cap_all_offer[OF this p o]
    have "node_ok c sha (n\<lparr>nd_announce_caps := caps[k := (fst (caps ! k), cap)]\<rparr>)"
      using caps_all_update[OF C(1,2) O(1) HOL.refl] n by (rule node_ok_caps[rotated])
    with O(2) a send_rebroadcast_ok show ?thesis by (simp add: o Let_def polled_def split: offer.split)
  qed
  show ?thesis
    using n a direct slot unfolding offer_rebroadcast_def Let_def
    by (auto simp: polled_def split: option.split)
qed

lemma drain_rebroadcasts_ok:
  "node_ok c sha n \<Longrightarrow> acts_fine acts \<Longrightarrow> polled c sha (drain_rebroadcasts now n acts)"
proof (induction now n acts rule: drain_rebroadcasts.induct)
  case (1 now n acts)
  obtain t out where t: "pop_due (nd_rebroadcasts n) now = (t, out)" by fastforce
  have q: "rebro_inv (nd_rebroadcasts n)" "table_all sendable (nd_rebroadcasts n)"
    using "1.prems"(1) by (simp_all add: node_ok_def queues_ok_def)
  note T = pop_due_table[OF q(2) t]
  have "rebro_inv t" using pop_due_spec[OF q(1) t] by blast
  then have m: "node_ok c sha (n\<lparr>nd_rebroadcasts := t\<rparr>)" using T by (intro node_ok_table[OF "1.prems"(1)])
  show ?case
  proof (cases "length (as_items acts) < as_N acts \<and> out \<noteq> None")
    case True
    then obtain r where r: "out = Some r" by blast
    have "polled c sha (offer_rebroadcast (n\<lparr>nd_rebroadcasts := t\<rparr>) r now acts)"
      using offer_rebroadcast_ok[OF m "1.prems"(2) T(3)[OF r]] .
    with "1.IH"[OF _ t[symmetric] r HOL.refl] True t r show ?thesis
      by (simp add: drain_rebroadcasts.simps[of now n acts] Let_def polled_def)
  next
    case False
    with "1.prems" t show ?thesis by (auto simp: drain_rebroadcasts.simps[of now n acts] polled_def)
  qed
qed

lemma poll_rebroadcasts_ok:
  assumes "node_ok c sha n" "acts_fine acts"
  shows "polled c sha (poll_rebroadcasts n now acts)"
proof -
  let ?f = "\<lambda>index (n, acts). release_cap now index n acts"
  have "polled c sha (fold ?f ks r) \<and> length (nd_announce_caps (fst (fold ?f ks r))) = length (nd_announce_caps (fst r))"
    if "polled c sha r" "\<forall>k \<in> set ks. k < length (nd_announce_caps (fst r))" for ks r
    using that
  proof (induction ks arbitrary: r)
    case (Cons k ks)
    obtain m b where r: "r = (m, b)" by fastforce
    have "polled c sha (release_cap now k m b) \<and> length (nd_announce_caps (fst (release_cap now k m b))) = length (nd_announce_caps m)"
      using Cons.prems release_cap_ok[of c sha m b k now] by (simp add: r polled_def)
    with Cons.IH[of "release_cap now k m b"] Cons.prems show ?case by (simp add: r)
  qed simp
  from this[of "(n, acts)" "[0..<length (nd_announce_caps n)]"] assms
  have "polled c sha (fold ?f [0..<length (nd_announce_caps n)] (n, acts))" by (simp add: polled_def)
  then obtain m b where m: "fold ?f [0..<length (nd_announce_caps n)] (n, acts) = (m, b)" "node_ok c sha m" "acts_fine b"
    by (auto simp: polled_def intro: prod.exhaust[of "fold ?f [0..<length (nd_announce_caps n)] (n, acts)"])
  obtain k d where k: "drain_rebroadcasts now m b = (k, d)" by fastforce
  have "node_ok c sha k" "acts_fine d" using drain_rebroadcasts_ok[OF m(2,3), of now] by (simp_all add: k polled_def)
  moreover from this(1) have "caps_all sendable (nd_announce_caps k)" by (simp add: node_ok_def queues_ok_def)
  ultimately show ?thesis
    by (simp add: poll_rebroadcasts_def m k polled_def node_ok_caps caps_all_filter)
qed

section \<open>Own announces\<close>

lemma try_announce_sendable:
  assumes n: "carrier_ok c sha n" and c: "curve_laws c" and p: "try_announce c sha n blob None = Inr p"
  shows "sendable p" "sendable (p\<lparr>pk_context := x\<rparr>)"
proof -
  obtain secret where s: "length secret = IDENTITY_LEN" "nd_private n = from_secret_bytes c sha secret"
    using n by (auto simp: carrier_ok_def)
  note S = own_signature[OF c s] and P = length_public[OF private_ok[OF c s(1)], of sha]
  have len: "length (pk_payload p) = 148 + length (nd_app_data n)" and mtu: "167 + length (nd_app_data n) \<le> unat (nd_logical_mtu n)"
    using p S P s(2)
    by (auto simp: try_announce_def own_announce_def announce_build_def Let_def into_bytes_def announce_lens MIN_LOGICAL_MTU_def
        packet_consts NAME_HASH_LEN_def ADDRESS_HASH_LEN_def split: if_splits)
  have F: "\<not> pk_ifac p" "pk_header_type p = Type1" "pk_transport p = None" "pk_hops p = 0"
    using p by (auto simp: try_announce_def own_announce_def announce_build_def Let_def split: if_splits)
  have "encoded_len p \<le> unat LINK_MTU"
    using len mtu mtu_le[OF n] F by (simp add: encoded_len_def packet_consts ADDRESS_HASH_LEN_def)
  then show "sendable p" "sendable (p\<lparr>pk_context := x\<rparr>)"
    using F len by (auto simp: sendable_def encoded_len_def packet_consts)
qed

text \<open>An announce of the configured data is never refused.\<close>

lemma try_announce_own: "carrier_ok c sha n \<Longrightarrow> try_announce c sha n blob None = Inr (own_announce c sha n blob None)"
  by (simp add: try_announce_def carrier_ok_def)

lemma poll_announce_ok:
  assumes n: "node_ok c sha n" and c: "curve_laws c" and a: "acts_fine acts"
  shows "polled c sha (poll_announce c sha n now i blob acts)"
proof -
  have "carrier_ok c sha (n\<lparr>nd_last_announce := Some now\<rparr>)" using n by (simp add: node_ok_def)
  note S = try_announce_sendable(1)[OF this c]
  show ?thesis
    using n a S by (simp add: poll_announce_def polled_def Let_def acts_fine_push split: option.split sum.split)
qed

lemma poll_transport_ok:
  assumes "node_ok c sha n" "curve_laws c"
  shows "polled c sha (poll_transport c sha N n now i blob)"
proof -
  obtain m acts where m: "poll_announce c sha (expire_transport_state n now) now i blob (actions_new N) = (m, acts)" by fastforce
  have "polled c sha (m, acts)"
    unfolding m[symmetric] by (rule poll_announce_ok[OF expire_state_ok[OF assms(1)] assms(2) acts_fine_new])
  then show ?thesis using poll_rebroadcasts_ok[of c sha m acts now] by (simp add: poll_transport_def m polled_def)
qed

section \<open>Announces heard\<close>

lemma learn_route_core: "core_of (learn_route n d i hops t now) = core_of n"
  using expire_routes_core(1)[of n now]
  by (simp add: learn_route_def Let_def core_of_def split: option.split)

lemma learn_route_kept:
  "nd_bridges (learn_route n d i hops t now) = nd_bridges n" "nd_reverse (learn_route n d i hops t now) = nd_reverse n"
  by (simp_all add: learn_route_def Let_def expire_routes_core split: option.split)

lemma learn_route_ok:
  assumes n: "node_ok c sha n" and d: "fresh_content (nd_freshness n) d \<noteq> None"
  shows "node_ok c sha (learn_route n d i hops t now)"
proof (cases "d = nd_destination n")
  case True
  with n show ?thesis by (simp add: learn_route_def)
next
  case other: False
  let ?m = "learn_route n d i hops t now"
  have r: "routes_inv n" using n by (simp add: node_ok_def transit_inv_def)
  show ?thesis
  proof (cases "nd_ROUTES n = 0")
    case True
    then have "nd_routes n = []" using r by (simp add: routes_ok_def)
    then have "nd_routes (expire_routes n now) = []" using set_expired[of n now] by simp
    then have "?m = expire_routes n now"
      using other True by (simp add: learn_route_def Let_def expire_routes_fields(2) position_None[THEN iffD2] min_index_None[THEN iffD2])
    with expire_routes_ok[OF n] show ?thesis by simp
  next
    case False
    then have S: "routes_inv ?m \<and> admits_row (nd_ROUTES n) (live_routes n now) (learned_row n d i hops t now) (set (nd_routes ?m))"
      using learn_route_spec[OF r other _ HOL.refl] by simp
    note C = core_fields[OF learn_route_core[of n d i hops t now]]
    have "set (nd_routes ?m) \<subseteq> insert (learned_row n d i hops t now) (set (nd_routes n))"
      using S by (auto simp: admits_row_def live_routes_def split: if_splits)
    then have "routed ?m \<subseteq> insert d (routed n)" by (fastforce simp: learned_row_def)
    then have "rows_ok (nd_freshness n) (routed ?m)" using n d by (auto simp: node_ok_def rows_ok_def)
    moreover have "transit_inv ?m" using S n by (simp add: transit_inv_def node_ok_def learn_route_kept C(8))
    moreover have "nd_transit_filter ?m = nd_transit_filter n"
      using expire_filter(1)[of n now] by (simp add: learn_route_def Let_def expire_routes_def case_prod_unfold split: option.split)
    then have "node_filters_ok ?m" using n by (simp add: node_ok_def C)
    ultimately show ?thesis using n unfolding node_ok_def carrier_ok_def settings_inv_def C by blast
  qed
qed

lemma hear_rebroadcast_ok: "node_ok c sha n \<Longrightarrow> node_ok c sha (hear_rebroadcast n d hops now)"
proof -
  assume n: "node_ok c sha n"
  then have q: "rebro_inv (nd_rebroadcasts n)" "table_all sendable (nd_rebroadcasts n)" by (simp_all add: node_ok_def queues_ok_def)
  obtain t e where h: "heard (nd_rebroadcasts n) d hops now = (t, e)" by fastforce
  have "node_ok c sha (n\<lparr>nd_rebroadcasts := t\<rparr>)"
    using heard_spec[OF q(1) h] heard_table[OF q(2), of d hops now] by (intro node_ok_table[OF n]) (simp_all add: h)
  then show ?thesis by (simp add: hear_rebroadcast_def h Let_def)
qed

lemma hear_rebroadcast_copy_ok: "node_ok c sha n \<Longrightarrow> node_ok c sha (hear_rebroadcast_copy n p now)"
proof -
  assume n: "node_ok c sha n"
  then have q: "rebro_inv (nd_rebroadcasts n)" "table_all sendable (nd_rebroadcasts n)" by (simp_all add: node_ok_def queues_ok_def)
  obtain t e where h: "heard_copy (nd_rebroadcasts n) p now = (t, e)" by fastforce
  have "node_ok c sha (n\<lparr>nd_rebroadcasts := t\<rparr>)"
    using heard_copy_spec[OF q(1) h] heard_copy_table[OF q(2), of p now] by (intro node_ok_table[OF n]) (simp_all add: h)
  then show ?thesis by (simp add: hear_rebroadcast_copy_def h Let_def)
qed

lemma schedule_rebroadcast_ok:
  assumes n: "node_ok c sha n" and p: "sendable p"
  shows "node_ok c sha (schedule_rebroadcast sha n i p emitted now)"
proof -
  have q: "rebro_inv (nd_rebroadcasts n)" "table_all sendable (nd_rebroadcasts n)" using n by (simp_all add: node_ok_def queues_ok_def)
  let ?r = "\<lparr>rb_destination = pk_destination p, rb_packet = p, rb_interface = i, rb_emitted = emitted, rb_answer = None\<rparr>"
  let ?delay = "jitter (packet_hash sha p) (nd_identity n)"
  obtain t e where h: "schedule (nd_rebroadcasts n) ?r now ?delay = (t, e)" by fastforce
  have P: "sendable (rb_packet ?r)" using p by simp
  have "node_ok c sha (n\<lparr>nd_rebroadcasts := t\<rparr>)"
    using schedule_spec[OF q(1) _ h] table_all_schedule[OF q(2) P, of now ?delay] schedule_capacity[of "nd_rebroadcasts n" ?r now ?delay]
    by (intro node_ok_table[OF n]) (simp_all add: h)
  then show ?thesis by (simp add: schedule_rebroadcast_def h Let_def)
qed

lemma relay_announce_ok:
  assumes n: "node_ok c sha n" and p: "received p"
  shows "node_ok c sha (relay_announce sha n i p emitted now)"
proof -
  obtain m fresh where m: "transit_is_new sha n p now = (m, fresh)" by fastforce
  from transit_filter[OF m] obtain g where g: "transit_is_new sha n p now = (n\<lparr>nd_transit_filter := g\<rparr>, fresh)"
    "filter_after n (n\<lparr>nd_transit_filter := g\<rparr>)" using m by blast
  let ?m = "n\<lparr>nd_transit_filter := g\<rparr>" and ?q = "p\<lparr>pk_hops := next_hops p, pk_header_type := Type2, pk_transport := Some (nd_identity n)\<rparr>"
  have C: "carrier_ok c sha n" "tc_max_hops (nd_transport n) \<le> MAX_HOPS" using n by (simp_all add: node_ok_def carrier_ok_def)
  have h: "?q = hop_on (Some (nd_identity n)) p" by (simp add: hop_on_def address_via_def)
  have "node_ok c sha (schedule_rebroadcast sha ?m i ?q emitted now)" if "next_hops p < tc_max_hops (nd_transport n)" "\<not> too_long ?m ?q"
    unfolding h using node_ok_filter[OF n g(2)] that C mtu_le[OF C(1)]
    by (intro schedule_rebroadcast_ok hop_on_sendable[OF p]) (simp_all add: too_long_def h)
  with n node_ok_filter[OF n g(2)] show ?thesis by (simp add: relay_announce_def g(1) Let_def)
qed

text \<open>Learning, step by step: the overheard copy, the book, the freshness row, the route, the relay.\<close>

definition overheard :: "node \<Rightarrow> packet \<Rightarrow> announce \<Rightarrow> nat \<Rightarrow> node" where
  "overheard n p a now = (if pk_transport p \<noteq> None then hear_rebroadcast n (an_destination a) (pk_hops p) now else n)"

definition booked :: "node \<Rightarrow> address_book \<Rightarrow> ingested \<Rightarrow> node" where
  "booked n book result = (if result \<noteq> Refused then n\<lparr>nd_book := book\<rparr>
     else n\<lparr>nd_book := book, nd_refused_peers := inc (nd_refused_peers n)\<rparr>)"

definition recorded :: "node \<Rightarrow> freshness \<Rightarrow> freshness_record \<Rightarrow> node" where
  "recorded n table report = counted (n_evicted_freshness_blobs_update
       (\<lambda>k. sat_add u16_max k (if fcr_evicted_blob report \<noteq> None then 1 else 0)))
     (case fcr_evicted_destination report of
        None \<Rightarrow> n\<lparr>nd_freshness := table\<rparr>
      | Some evicted \<Rightarrow> counted (n_evicted_freshness_rows_update inc)
          (n\<lparr>nd_freshness := table, nd_routes := filter (\<lambda>r. rt_destination r \<noteq> evicted) (nd_routes n)\<rparr>))"

lemma learn_announce_steps:
  assumes nc: "\<not> key_conflicts (nd_book n) a"
    and b: "ingest_at (nd_book n) a now (live_route_to n now) = (book, result)"
    and r: "record_accepted (nd_freshness n) candidate how = (table, report)"
  shows "learn_announce sha n i p a candidate how now acts =
    (relay_announce sha (learn_route (recorded (booked (overheard n p a now) book result) table report)
        (an_destination a) i (pk_hops p) (pk_transport p) now) i p (timebase (cand_blob candidate)) now,
     if result \<noteq> Refused then fst (push_action acts (ActLearned (an_destination a))) else acts)"
proof -
  have "\<exists>t cs. overheard n p a now = n\<lparr>nd_rebroadcasts := t, nd_counters := cs\<rparr>"
  proof (cases "pk_transport p")
    case None
    then show ?thesis by (intro exI[of _ "nd_rebroadcasts n"] exI[of _ "nd_counters n"]) (simp add: overheard_def)
  next
    case (Some h)
    obtain t e where h: "heard (nd_rebroadcasts n) (an_destination a) (pk_hops p) now = (t, e)" by fastforce
    let ?cs = "if e then n_suppressed_rebroadcasts_update inc (nd_counters n) else nd_counters n"
    have "overheard n p a now = n\<lparr>nd_rebroadcasts := t, nd_counters := ?cs\<rparr>"
      using Some h by (cases e) (simp_all add: overheard_def hear_rebroadcast_def Let_def)
    then show ?thesis by blast
  qed
  then obtain t cs where o: "overheard n p a now = n\<lparr>nd_rebroadcasts := t, nd_counters := cs\<rparr>" by blast
  have "live_route_to (n\<lparr>nd_rebroadcasts := t, nd_counters := cs\<rparr>) now = live_route_to n now"
    by (simp add: fun_eq_iff live_route_to_def route_alive_def)
  then show ?thesis using b r
    unfolding learn_announce_def overheard_def[symmetric] o
    by (cases "result = Refused"; cases "fcr_evicted_destination report")
      (simp_all add: nc Let_def booked_def recorded_def)
qed

lemma recorded_ok:
  assumes n: "node_ok c sha n" and r: "record_accepted (nd_freshness n) candidate how = (table, report)"
  shows "node_ok c sha (recorded n table report)"
    "fresh_content (nd_freshness (recorded n table report)) (cand_destination candidate) \<noteq> None"
proof -
  have f: "fresh_inv (nd_freshness n)" using n by (simp add: node_ok_def rows_ok_def)
  note S = record_accepted_spec[OF f r]
  have E: "fcr_evicted_destination report = evicted_by (nd_freshness n) (cand_destination candidate)"
    and C: "fresh_content table x = (if x = cand_destination candidate then Some (candidate_timebase candidate,
             accepted_blobs (fc_blob_capacity (fr_config (nd_freshness n)))
               (old_blobs (nd_freshness n) (cand_destination candidate)) how (cand_blob candidate))
           else if evicted_by (nd_freshness n) (cand_destination candidate) = Some x then None
           else fresh_content (nd_freshness n) x)" for x
    using S(2) by (simp_all add: record_effect_def Let_def)
  show "fresh_content (nd_freshness (recorded n table report)) (cand_destination candidate) \<noteq> None"
    by (simp add: recorded_def C split: option.split)
  have K: "rows_ok table ds" if "ds \<subseteq> routed n" "fcr_evicted_destination report = None \<or> the (fcr_evicted_destination report) \<notin> ds" for ds
    using that n S(1) by (auto simp: rows_ok_def node_ok_def C E[symmetric])
  show "node_ok c sha (recorded n table report)"
  proof (cases "fcr_evicted_destination report")
    case None
    then show ?thesis using K[of "routed n"] n by (simp add: recorded_def node_ok_def)
  next
    case (Some e)
    let ?rs = "filter (\<lambda>r. rt_destination r \<noteq> e) (nd_routes n)"
    have "rows_ok table (rt_destination ` set ?rs)" using Some by (intro K) auto
    then show ?thesis using Some n by (simp add: recorded_def node_ok_def transit_inv_def routes_ok_filter del: set_filter)
  qed
qed

lemma booked_ok:
  assumes n: "node_ok c sha n" and b: "ingest_at (nd_book n) a now protected = (book, result)"
  shows "node_ok c sha (booked n book result)"
proof -
  have "book_inv (nd_book n)" using n by (simp add: node_ok_def)
  from admit_spec[OF this b[unfolded ingest_at_def]] n show ?thesis
    by (simp add: booked_def node_ok_def)
qed

lemma learn_announce_ok:
  assumes n: "node_ok c sha n" and p: "received p" and a: "acts_fine acts" and d: "cand_destination candidate = an_destination a"
  shows "polled c sha (learn_announce sha n i p a candidate how now acts)"
proof (cases "key_conflicts (nd_book n) a")
  case True
  with n a show ?thesis by (simp add: learn_announce_def polled_def)
next
  case False
  obtain book result where b: "ingest_at (nd_book n) a now (live_route_to n now) = (book, result)" by fastforce
  obtain table report where r: "record_accepted (nd_freshness n) candidate how = (table, report)" by fastforce
  let ?o = "overheard n p a now"
  have o: "node_ok c sha ?o" using n hear_rebroadcast_ok by (simp add: overheard_def)
  have O: "nd_book ?o = nd_book n" "nd_freshness ?o = nd_freshness n"
    by (simp_all add: overheard_def hear_rebroadcast_def Let_def case_prod_unfold)
  have B: "node_ok c sha (booked ?o book result)" "nd_freshness (booked ?o book result) = nd_freshness n"
    using booked_ok[OF o, of a now "live_route_to n now"] b O by (simp_all add: booked_def)
  have "record_accepted (nd_freshness (booked ?o book result)) candidate how = (table, report)" using r B(2) by simp
  note R = recorded_ok[OF B(1) this, unfolded d]
  have "node_ok c sha (learn_route (recorded (booked ?o book result) table report) (an_destination a) i (pk_hops p) (pk_transport p) now)"
    by (rule learn_route_ok[OF R])
  from relay_announce_ok[OF this p] acts_fine_push[OF a] a show ?thesis
    unfolding learn_announce_steps[OF False b r] polled_def by simp
qed

lemma candidate_destination: "unverified_candidate p = Some candidate \<Longrightarrow> cand_destination candidate = pk_destination p"
  by (auto simp: unverified_candidate_def Let_def split: if_splits)

lemma ingest_announce_ok:
  assumes n: "node_ok c sha n" and p: "received p" and a: "acts_fine acts"
  shows "polled c sha (ingest_announce c' sha n i p now acts)"
proof (cases "unverified_candidate p")
  case None
  with n a show ?thesis by (simp add: ingest_announce_def polled_def)
next
  case (Some candidate)
  have "cand_destination candidate = an_destination an" if "announce_decode c' sha p = Inr an" for an
    using that candidate_destination[OF Some] unfolding announce_decode_def by (auto elim: decode_sound)
  with learn_announce_ok[OF n p a] n a hear_rebroadcast_copy_ok[OF n, of p now] Some show ?thesis
    by (cases "evaluate (nd_freshness n) candidate (live_route_to n now (cand_destination candidate))")
      (auto simp: ingest_announce_def polled_def Let_def split: sum.split freshness_reject.split)
qed

lemma path_request_ok:
  assumes n: "node_ok c sha n" and c: "curve_laws c" and a: "acts_fine acts"
  shows "polled c sha (on_path_request c sha n i request now acts)"
proof -
  have S: "node_ok c sha m \<Longrightarrow> try_announce c sha m blob None = Inr q \<Longrightarrow> sendable (q\<lparr>pk_context := x\<rparr>)" for m blob q x
    using try_announce_sendable(2)[OF _ c] unfolding node_ok_def by blast
  show ?thesis
  proof (cases "unique_tag sha request")
    case None
    with n a show ?thesis by (simp add: on_path_request_def polled_def count_filtered_def)
  next
    case (Some tag)
    obtain g fresh where g: "generations_insert (nd_path_request_tags n) tag now u64_max = (g, fresh)" by fastforce
    let ?m = "n\<lparr>nd_path_request_tags := g\<rparr>"
    have m: "node_ok c sha ?m" by (rule node_ok_tags[OF n g])
    note S = S[OF m]
    show ?thesis using m a Some S
      by (simp add: on_path_request_def g polled_def count_filtered_def acts_fine_push split: option.split sum.split)
  qed
qed

text \<open>What carrying leaves of the transit filter.\<close>

lemma carrying_filters [simp]:
  "nd_transit_filter (fst (bridge_request sha n i p r now acts)) = nd_transit_filter n"
  "nd_transit_filter (touch_route n d now) = nd_transit_filter n"
  "nd_transit_filter (remember_reverse n h i out now) = nd_transit_filter n"
  "nd_transit_filter (refuse_payload n) = nd_transit_filter n"
  by (simp_all add: bridge_request_def remember_bridge_def touch_route_def remember_reverse_def refuse_payload_def Let_def
      split: sum.split option.split)

lemma forwarded_filter:
  "filter_after n (fst (forward_transport_packet sha n i p now acts))"
  "filter_after n (fst (forward_bridged_packet c sha n i p now acts))"
  "filter_after n (fst (forward_reverse_proof n i p acts))"
proof -
  obtain n1 fresh where g: "transit_hash_is_new n (pk_context p) (packet_hash sha p) now = (n1, fresh)" by fastforce
  from transit_hash_filter[OF g] have n1: "filter_after n n1" by blast
  have same: "nd_transit_filter m = nd_transit_filter n \<Longrightarrow> filter_after n m" for m by (simp add: filter_after_def)
  have eq: "nd_transit_filter m = nd_transit_filter n1 \<Longrightarrow> filter_after n m" for m using n1 by (simp add: filter_after_def)
  show "filter_after n (fst (forward_transport_packet sha n i p now acts))"
    by (simp add: forward_transport_packet_def Let_def g case_prod_unfold n1 same eq split: option.split sum.split)
  show "filter_after n (fst (forward_bridged_packet c sha n i p now acts))"
    by (simp add: forward_bridged_packet_def Let_def transit_is_new_def g case_prod_unfold n1 same eq push_action_alt
        split: option.split)
  show "filter_after n (fst (forward_reverse_proof n i p acts))"
    by (simp add: filter_after_def forward_reverse_proof_def Let_def push_action_alt split: option.split)
qed

lemma same_core_ok: "node_ok c sha n \<Longrightarrow> same_core n m \<Longrightarrow> transit_inv m \<Longrightarrow> filter_after n m \<Longrightarrow> node_ok c sha m"
  using node_ok_core[of c sha n m] same_core_routed[of n m] by (simp add: same_core_def)

lemma forward_transport_ok:
  assumes n: "node_ok c sha n" and p: "received p" and a: "acts_fine acts"
    and f: "forward_transport_packet sha n i p now acts = (n', acts', h)"
  shows "node_ok c sha n' \<and> acts_fine acts'"
proof -
  have N: "transit_inv n" "carrier_ok c sha n" using n by (simp_all add: node_ok_def)
  note T = transport_inv(1)[OF N(1) f]
  with same_core_ok[OF n] forward_transport_core[of n sha i p now acts] forward_transport_fine[OF N p a, of sha i now]
    forwarded_filter(1)[of n sha i p now acts]
  show ?thesis by (simp add: f)
qed

lemma forward_bridged_ok:
  assumes n: "node_ok c sha n" and p: "received p" and a: "acts_fine acts"
    and f: "forward_bridged_packet c sha n i p now acts = (n', acts', h)"
  shows "node_ok c sha n' \<and> acts_fine acts'"
proof -
  have N: "transit_inv n" "carrier_ok c sha n" using n by (simp_all add: node_ok_def)
  with forward_bridged_inv[OF N(1), of c sha i p now acts] same_core_ok[OF n] forward_bridged_core[of n c sha i p now acts]
    forward_bridged_fine[OF N p a, of c sha i now]
    forwarded_filter(2)[of n c sha i p now acts]
  show ?thesis by (simp add: f)
qed

lemma forward_reverse_ok:
  assumes n: "node_ok c sha n" and p: "received p" "pk_packet_type p = Proof" and a: "acts_fine acts"
    and f: "forward_reverse_proof n i p acts = (n', acts', h)"
  shows "node_ok c sha n' \<and> acts_fine acts'"
proof -
  have N: "transit_inv n" "carrier_ok c sha n" using n by (simp_all add: node_ok_def)
  with forward_reverse_inv[OF N(1), of i p acts] same_core_ok[OF n] forward_reverse_core[of n i p acts]
    forward_reverse_fine[OF N(2) p a, of i]
    forwarded_filter(3)[of n i p acts]
  show ?thesis by (simp add: f)
qed

section \<open>Dispatch\<close>

text \<open>What \<open>ingest\<close> does with a packet that passed its filters and is no path request.\<close>

definition after_reverse :: "node \<Rightarrow> interface_id \<Rightarrow> packet \<Rightarrow> actions \<Rightarrow> node \<times> actions \<times> bool" where
  "after_reverse n i p acts = (if pk_packet_type p = Proof then forward_reverse_proof n i p acts else (n, acts, False))"

definition after_carrying :: "curves \<Rightarrow> sha256 \<Rightarrow> node \<Rightarrow> interface_id \<Rightarrow> packet \<Rightarrow> nat \<Rightarrow> actions \<Rightarrow> node \<times> actions \<times> bool" where
  "after_carrying c sha n i p now acts =
    (if pk_packet_type p \<noteq> Announce then
       (let (n, acts, handled) = forward_bridged_packet c sha n i p now acts
        in if handled then (n, acts, True) else forward_transport_packet sha n i p now acts)
     else (n, acts, False))"

definition dispatch :: "curves \<Rightarrow> sha256 \<Rightarrow> node \<Rightarrow> interface_id \<Rightarrow> packet \<Rightarrow> nat \<Rightarrow> actions \<Rightarrow> node \<times> actions \<times> bool" where
  "dispatch c sha n i p now acts =
    (let (n, acts, handled) = after_reverse n i p acts in
     if handled then (n, acts, False)
     else
       let (n, acts, handled) = after_carrying c sha n i p now acts
       in if handled then (n, acts, False)
          else if pk_packet_type p = Announce
          then (let (n, acts) = ingest_announce c sha n i p now acts in (n, acts, False))
          else (n, acts, True))"

lemma ingest_transport_alt:
  "ingest_transport c sha N n i p now =
    (if pk_ifac p \<or> pl_max_ingress_bytes (nd_limits n) < encoded_len p then (refuse_payload n, actions_new N, False)
     else if filtered_out n p then (count_filtered n, actions_new N, False)
     else case parse_path_request sha p of
       Some request \<Rightarrow> (fst (on_path_request c sha n i request now (actions_new N)),
                        snd (on_path_request c sha n i request now (actions_new N)), False)
     | None \<Rightarrow> dispatch c sha (expire_transport_state n now) i p now (actions_new N))"
  by (cases "parse_path_request sha p")
    (simp_all add: ingest_transport_def dispatch_def after_reverse_def after_carrying_def Let_def case_prod_unfold)

lemma dispatch_ok:
  assumes n: "node_ok c sha n" and p: "received p" and a: "acts_fine acts"
  shows "node_ok c sha (fst (dispatch c sha n i p now acts)) \<and> acts_fine (fst (snd (dispatch c sha n i p now acts)))"
proof -
  obtain n1 a1 h1 where r: "after_reverse n i p acts = (n1, a1, h1)" by (rule prod_cases3)
  have R: "node_ok c sha n1 \<and> acts_fine a1"
    using r forward_reverse_ok[OF n p _ a, of i n1 a1 h1] n a by (auto simp: after_reverse_def split: if_splits)
  obtain n2 a2 h2 where f: "after_carrying c sha n1 i p now a1 = (n2, a2, h2)" by (rule prod_cases3)
  have F: "node_ok c sha n2 \<and> acts_fine a2"
  proof (cases "pk_packet_type p = Announce")
    case True
    with f R show ?thesis by (simp add: after_carrying_def)
  next
    case False
    obtain n3 a3 h3 where b: "forward_bridged_packet c sha n1 i p now a1 = (n3, a3, h3)" by (rule prod_cases3)
    have "h3 \<and> n2 = n3 \<and> a2 = a3 \<or> forward_transport_packet sha n3 i p now a3 = (n2, a2, h2)"
      using f False by (auto simp: after_carrying_def b split: if_splits)
    with forward_bridged_ok[OF _ p _ b] R forward_transport_ok[OF _ p, of c sha n3 a3 i now n2 a2 h2] show ?thesis by blast
  qed
  with R ingest_announce_ok[OF _ p, of c sha n2 a2 c i now] show ?thesis
    by (simp add: dispatch_def r f polled_def case_prod_unfold Let_def)
qed

lemma ingest_transport_ok:
  assumes n: "node_ok c sha n" and c: "curve_laws c" and p: "valid_packet p"
  shows "node_ok c sha (fst (ingest_transport c sha N n i p now)) \<and> acts_fine (fst (snd (ingest_transport c sha N n i p now)))"
  using n p path_request_ok[OF n c acts_fine_new, of i _ now N] dispatch_ok[OF expire_state_ok[OF n] _ acts_fine_new, of p now i now N]
  by (auto simp: ingest_transport_alt count_filtered_def polled_def acts_fine_new split: option.split)

lemma node_step_ok:
  assumes n: "node_ok c sha n" and c: "curve_laws c" and e: "event_ok e"
  shows "node_ok c sha (fst (node_step c sha N n e)) \<and> list_all action_fine (snd (node_step c sha N n e))"
proof (cases e)
  case (Hear i p now)
  with ingest_transport_ok[OF n c, of p N i now] e show ?thesis by (simp add: case_prod_unfold Let_def)
next
  case (Beat now i blob)
  with poll_transport_ok[OF n c, of N now i blob] show ?thesis by (simp add: case_prod_unfold polled_def Let_def)
qed (use n e in \<open>simp_all add: set_airtime_ok set_mode_ok drop_interface_ok set_mtu_ok set_app_data_ok set_transport_ok
    set_freshness_ok with_announce_interval_def retry_announce_def route_to_def Let_def expire_routes_ok\<close>)

interpretation node_runs: reactive "node_step c sha N" event_ok "\<lambda>n. node_ok c sha n \<and> curve_laws c" action_fine for c sha N
  using node_step_ok by unfold_locales blast+

lemma node_new_ok:
  assumes "length secret = IDENTITY_LEN" "peers < u64_max" "routes < u64_max"
  shows "node_ok c sha (node_new sha usize_max peers routes (from_secret_bytes c sha secret) name)"
proof -
  let ?n = "node_new sha usize_max peers routes (from_secret_bytes c sha secret) name"
  let ?p = "policy_for_node peers routes"
  let ?cfg = "\<lparr>fc_destination_capacity = fp_max_destinations ?p, fc_blob_capacity = 8\<rparr>"
  have cap: "0 < fp_max_destinations ?p" "fp_max_destinations ?p < u64_max"
    using assms(2,3) by (auto simp: policy_for_node_def policy_for_peers_def u64_max_def)
  then obtain f where f: "freshness_new ?cfg = Inr f" by (simp add: freshness_new_def freshness_validate_def)
  have "fresh_inv f" using fresh_inv_new[OF f] cap(2) by simp
  then have "rows_ok (nd_freshness ?n) (routed ?n)" using f by (simp add: node_new_def rows_ok_def)
  moreover have "carrier_ok c sha ?n"
    using assms(1) by (auto simp: carrier_ok_def node_new_def config_none_def MIN_LOGICAL_MTU_def LINK_MTU_def MAX_HOPS_def
        announce_lens packet_consts NAME_HASH_LEN_def ADDRESS_HASH_LEN_def)
  moreover have "queues_ok (nd_rebroadcasts ?n) (nd_announce_caps ?n)"
    using rebro_inv_new(1)[of REBROADCAST_SLOTS]
    by (simp add: queues_ok_def node_new_def rebroadcasts_new_def table_all_def caps_all_def)
  moreover have "node_filters_ok ?n"
    by (simp add: filters_ok_def generations_ok_def node_new_def generations_new_def)
  ultimately show ?thesis
    by (simp add: node_ok_def transit_inv_def routes_ok_def bridges_ok_def reverse_ok_def settings_inv_def settings_ok_def
        book_inv_def with_max_peers_def bm_simps)
      (simp add: node_new_def with_max_peers_def bm_simps)
qed

lemma node_run_ok:
  assumes "curve_laws c" "length secret = IDENTITY_LEN" "peers < u64_max" "routes < u64_max" "list_all event_ok evs"
    and "node_run c sha N (node_new sha usize_max peers routes (from_secret_bytes c sha secret) name) evs = (n, out)"
  shows "node_ok c sha n" "list_all action_fine out"
  using node_runs.react_keeps[where es = evs and c = c and sha = sha and N = N, OF _ assms(5)]
    node_new_ok[OF assms(2-4), of c sha usize_max name] assms(1,6) by fastforce+

end
