(* ===== verification/NodeTheorems.thy ===== *)
theory NodeTheorems
  imports NodeSafety
begin

text \<open>
  The properties of a whole node's runs: bounds, what it sends, which links it opens, what announces
  and path requests do to it, and that its timers settle.
\<close>

section \<open>What the announce queues leave alone\<close>

definition unqueued :: "node \<Rightarrow> node" where
  "unqueued n = n\<lparr>nd_rebroadcasts := rebroadcasts_new 0, nd_announce_caps := [], nd_counters := counters_default\<rparr>"

lemma unqueued_fields:
  assumes "unqueued m = unqueued n"
  shows "nd_bridges m = nd_bridges n" "nd_routes m = nd_routes n" "nd_ROUTES m = nd_ROUTES n" "nd_book m = nd_book n"
    "nd_freshness m = nd_freshness n" "nd_transport m = nd_transport n" "nd_destination m = nd_destination n"
    "nd_interface_modes m = nd_interface_modes n"
  using arg_cong[OF assms, of nd_bridges] arg_cong[OF assms, of nd_routes] arg_cong[OF assms, of nd_ROUTES]
    arg_cong[OF assms, of nd_book] arg_cong[OF assms, of nd_freshness] arg_cong[OF assms, of nd_transport]
    arg_cong[OF assms, of nd_destination] arg_cong[OF assms, of nd_interface_modes]
  by (simp_all add: unqueued_def)

lemma unqueued_simps [simp]: "unqueued (n\<lparr>nd_rebroadcasts := t\<rparr>) = unqueued n" "unqueued (n\<lparr>nd_announce_caps := caps\<rparr>) = unqueued n"
  "unqueued (n\<lparr>nd_counters := cs\<rparr>) = unqueued n"
  by (simp_all add: unqueued_def)

lemma send_unqueued [simp]: "unqueued (fst (send_rebroadcast n i p acts)) = unqueued n"
  by (simp add: send_rebroadcast_def Let_def case_prod_unfold)

lemma release_unqueued: "unqueued (fst (release_cap now index n acts)) = unqueued n"
proof (induction now index n acts rule: release_cap.induct)
  case (1 now index n acts)
  let ?i = "fst (nd_announce_caps n ! index)"
  obtain cap out where o: "cap_pop_due (snd (nd_announce_caps n ! index)) now (cap_rate_new (first_hop_airtime n ?i)) = (cap, out)"
    by fastforce
  show ?case
  proof (cases "length (as_items acts) < as_N acts \<and> out \<noteq> None")
    case True
    then obtain p where p: "out = Some p" by blast
    from "1.IH"[OF _ HOL.refl o[symmetric] HOL.refl HOL.refl p] True o p show ?thesis
      by (simp add: release_cap.simps[of now index n acts] Let_def)
  next
    case False
    with o show ?thesis by (auto simp: release_cap.simps[of now index n acts] Let_def)
  qed
qed

lemma offer_unqueued: "unqueued (fst (offer_rebroadcast n r now acts)) = unqueued n"
  by (simp add: offer_rebroadcast_def Let_def case_prod_unfold split: option.split offer.split)

lemma drain_unqueued: "unqueued (fst (drain_rebroadcasts now n acts)) = unqueued n"
proof (induction now n acts rule: drain_rebroadcasts.induct)
  case (1 now n acts)
  obtain t out where t: "pop_due (nd_rebroadcasts n) now = (t, out)" by fastforce
  show ?case
  proof (cases "length (as_items acts) < as_N acts \<and> out \<noteq> None")
    case True
    then obtain r where r: "out = Some r" by blast
    from "1.IH"[OF _ t[symmetric] r HOL.refl] True t r show ?thesis
      by (simp add: drain_rebroadcasts.simps[of now n acts] Let_def offer_unqueued)
  next
    case False
    with t show ?thesis by (auto simp: drain_rebroadcasts.simps[of now n acts])
  qed
qed

lemma poll_rebroadcasts_unqueued: "unqueued (fst (poll_rebroadcasts n now acts)) = unqueued n"
proof -
  let ?f = "\<lambda>index (n, acts). release_cap now index n acts"
  have F: "unqueued (fst (fold ?f ks r)) = unqueued (fst r)" for ks r
    by (induction ks arbitrary: r) (simp_all add: release_unqueued case_prod_unfold)
  show ?thesis
    using F[of "[0..<length (nd_announce_caps n)]" "(n, acts)"]
    by (simp add: poll_rebroadcasts_def case_prod_unfold Let_def drain_unqueued)
qed

lemma poll_announce_fields:
  "nd_bridges (fst (poll_announce c sha n now i blob acts)) = nd_bridges n"
  "nd_ROUTES (fst (poll_announce c sha n now i blob acts)) = nd_ROUTES n"
  "nd_book (fst (poll_announce c sha n now i blob acts)) = nd_book n"
  by (simp_all add: poll_announce_def refuse_payload_def Let_def split: option.split sum.split)

lemma poll_transport_fields:
  "nd_bridges (fst (poll_transport c sha N n now i blob)) = nd_bridges (expire_transport_state n now)"
  "nd_ROUTES (fst (poll_transport c sha N n now i blob)) = nd_ROUTES n"
  "nd_book (fst (poll_transport c sha N n now i blob)) = nd_book n"
proof -
  let ?e = "expire_transport_state n now"
  let ?a = "poll_announce c sha ?e now i blob (actions_new N)"
  have p: "fst (poll_transport c sha N n now i blob) = fst (poll_rebroadcasts (fst ?a) now (snd ?a))"
    by (simp add: poll_transport_def case_prod_unfold Let_def)
  note U = unqueued_fields[OF poll_rebroadcasts_unqueued[of "fst ?a" now "snd ?a"]]
  show "nd_bridges (fst (poll_transport c sha N n now i blob)) = nd_bridges ?e"
    "nd_ROUTES (fst (poll_transport c sha N n now i blob)) = nd_ROUTES n"
    "nd_book (fst (poll_transport c sha N n now i blob)) = nd_book n"
    using core_fields(4,8)[OF expire_state_fields(4)[of n now]] by (simp_all add: p U poll_announce_fields)
qed

section \<open>What an announce leaves alone\<close>

lemma relay_announce_fields:
  "nd_bridges (relay_announce sha n i p emitted now) = nd_bridges n" "nd_ROUTES (relay_announce sha n i p emitted now) = nd_ROUTES n"
  "nd_book (relay_announce sha n i p emitted now) = nd_book n" "nd_routes (relay_announce sha n i p emitted now) = nd_routes n"
  "nd_freshness (relay_announce sha n i p emitted now) = nd_freshness n" "nd_transport (relay_announce sha n i p emitted now) = nd_transport n"
proof -
  obtain g fresh where g: "transit_is_new sha n p now = (n\<lparr>nd_transit_filter := g\<rparr>, fresh)"
    using transit_frame[of sha n p now] by (metis prod.collapse)
  note D = relay_announce_def g Let_def schedule_rebroadcast_def case_prod_unfold refuse_payload_def
  show "nd_bridges (relay_announce sha n i p emitted now) = nd_bridges n" by (simp add: D)
  show "nd_ROUTES (relay_announce sha n i p emitted now) = nd_ROUTES n" by (simp add: D)
  show "nd_book (relay_announce sha n i p emitted now) = nd_book n" by (simp add: D)
  show "nd_routes (relay_announce sha n i p emitted now) = nd_routes n" by (simp add: D)
  show "nd_freshness (relay_announce sha n i p emitted now) = nd_freshness n" by (simp add: D)
  show "nd_transport (relay_announce sha n i p emitted now) = nd_transport n" by (simp add: D)
qed

lemma overheard_unqueued: "unqueued (overheard n p a now) = unqueued n"
  by (simp add: overheard_def hear_rebroadcast_def Let_def case_prod_unfold)

lemma recorded_fields: "nd_bridges (recorded n t r) = nd_bridges n" "nd_ROUTES (recorded n t r) = nd_ROUTES n"
  "nd_book (recorded n t r) = nd_book n" "nd_freshness (recorded n t r) = t" "nd_transport (recorded n t r) = nd_transport n"
  "nd_interface_modes (recorded n t r) = nd_interface_modes n" "nd_destination (recorded n t r) = nd_destination n"
  by (simp_all add: recorded_def split: option.split)

lemma booked_fields: "nd_bridges (booked n b r) = nd_bridges n" "nd_ROUTES (booked n b r) = nd_ROUTES n" "nd_book (booked n b r) = b"
  "nd_freshness (booked n b r) = nd_freshness n" "nd_transport (booked n b r) = nd_transport n"
  "nd_interface_modes (booked n b r) = nd_interface_modes n" "nd_destination (booked n b r) = nd_destination n"
  by (simp_all add: booked_def)

lemma learn_announce_fields:
  assumes "book_inv (nd_book n)"
  shows "nd_bridges (fst (learn_announce sha n i p a candidate how now acts)) = nd_bridges n"
    "nd_ROUTES (fst (learn_announce sha n i p a candidate how now acts)) = nd_ROUTES n"
    "ab_max_peers (nd_book (fst (learn_announce sha n i p a candidate how now acts))) = ab_max_peers (nd_book n)"
proof -
  obtain book result where b: "ingest_at (nd_book n) a now (live_route_to n now) = (book, result)" by fastforce
  obtain table report where r: "record_accepted (nd_freshness n) candidate how = (table, report)" by fastforce
  have B: "ab_max_peers book = ab_max_peers (nd_book n)" using admit_spec[OF assms b[unfolded ingest_at_def]] by simp
  note U = unqueued_fields[OF overheard_unqueued[of n p a now]]
  note L = core_fields(4,8)[OF learn_route_core]
  show "nd_bridges (fst (learn_announce sha n i p a candidate how now acts)) = nd_bridges n"
    by (cases "key_conflicts (nd_book n) a")
      (simp add: learn_announce_def, simp add: learn_announce_steps[OF _ b r] relay_announce_fields learn_route_kept recorded_fields booked_fields U)
  show "nd_ROUTES (fst (learn_announce sha n i p a candidate how now acts)) = nd_ROUTES n"
    by (cases "key_conflicts (nd_book n) a")
      (simp add: learn_announce_def, simp add: learn_announce_steps[OF _ b r] relay_announce_fields L recorded_fields booked_fields U)
  show "ab_max_peers (nd_book (fst (learn_announce sha n i p a candidate how now acts))) = ab_max_peers (nd_book n)"
    by (cases "key_conflicts (nd_book n) a")
      (simp add: learn_announce_def, simp add: learn_announce_steps[OF _ b r] relay_announce_fields L recorded_fields booked_fields B)
qed

lemma ingest_announce_fields:
  assumes "book_inv (nd_book n)"
  shows "nd_bridges (fst (ingest_announce c sha n i p now acts)) = nd_bridges n"
    "nd_ROUTES (fst (ingest_announce c sha n i p now acts)) = nd_ROUTES n"
    "ab_max_peers (nd_book (fst (ingest_announce c sha n i p now acts))) = ab_max_peers (nd_book n)"
proof -
  have "unqueued (hear_rebroadcast_copy n p now) = unqueued n"
    by (simp add: hear_rebroadcast_copy_def Let_def case_prod_unfold)
  note H = unqueued_fields[OF this]
  show "nd_bridges (fst (ingest_announce c sha n i p now acts)) = nd_bridges n"
    "nd_ROUTES (fst (ingest_announce c sha n i p now acts)) = nd_ROUTES n"
    "ab_max_peers (nd_book (fst (ingest_announce c sha n i p now acts))) = ab_max_peers (nd_book n)"
    using learn_announce_fields[OF assms]
    by (simp_all add: ingest_announce_def Let_def H split: option.split freshness_decision.split freshness_reject.split sum.split)
qed

section \<open>How a bridge opens\<close>

definition same_link :: "link_bridge \<Rightarrow> link_bridge \<Rightarrow> bool" where
  "same_link b x \<longleftrightarrow> br_link_id x = br_link_id b \<and> br_destination x = br_destination b \<and> br_from x = br_from b \<and> br_out x = br_out b"

text \<open>The event that opens a bridge: its link proof, from the destination's side and under its signature.\<close>

definition opens :: "curves \<Rightarrow> address_book \<Rightarrow> node_event \<Rightarrow> link_bridge \<Rightarrow> bool" where
  "opens c book ev b \<longleftrightarrow> (\<exists>p now. ev = Hear (br_out b) p now \<and> link_proof p \<and> pk_destination p = br_link_id b
     \<and> (case book_resolve book (br_destination b) of None \<Rightarrow> True | Some peer \<Rightarrow> proof_is_signed_by c p (pe_identity peer)))"

text \<open>Every open bridge of the second list was open in the first or opened by the event.\<close>

definition opened_by :: "curves \<Rightarrow> address_book \<Rightarrow> node_event \<Rightarrow> link_bridge list \<Rightarrow> link_bridge list \<Rightarrow> bool" where
  "opened_by c book ev bs bs' \<longleftrightarrow> (\<forall>b \<in> set bs'. br_proof_deadline b = None \<longrightarrow>
     (\<exists>x \<in> set bs. same_link b x \<and> br_proof_deadline x = None) \<or> opens c book ev b)"

lemma opened_subset: "set bs' \<subseteq> set bs \<Longrightarrow> opened_by c book ev bs bs'"
  by (auto simp: opened_by_def same_link_def)

lemma opened_trans:
  assumes "opened_by c book ev bs bs1" "opened_by c book ev bs1 bs2"
  shows "opened_by c book ev bs bs2"
proof (unfold opened_by_def, intro ballI impI)
  fix b assume b: "b \<in> set bs2" "br_proof_deadline b = None"
  show "(\<exists>x \<in> set bs. same_link b x \<and> br_proof_deadline x = None) \<or> opens c book ev b"
  proof (cases "opens c book ev b")
    case False
    then obtain x where x: "x \<in> set bs1" "same_link b x" "br_proof_deadline x = None" using assms(2) b by (auto simp: opened_by_def)
    have "opens c book ev x \<longleftrightarrow> opens c book ev b" using x(2) by (simp add: opens_def same_link_def)
    with x False assms(1) obtain y where "y \<in> set bs" "same_link x y" "br_proof_deadline y = None" by (auto simp: opened_by_def)
    with x(2) show ?thesis by (auto simp: same_link_def)
  qed simp
qed

lemma forward_bridged_opens:
  assumes ok: "bridges_inv n" and f: "forward_bridged_packet c sha n i p now acts = (n', acts', h)"
  shows "opened_by c (nd_book n) (Hear i p t) (nd_bridges n) (nd_bridges n')"
proof (cases "tc_relay_packets (nd_transport n) \<and> pk_destination p \<in> br_link_id ` set (nd_bridges n)")
  case True
  then obtain b where b: "tc_relay_packets (nd_transport n)" "b \<in> set (nd_bridges n)" "br_link_id b = pk_destination p" by auto
  from forward_bridged_spec(2)[OF ok b f] consider "nd_bridges n' = nd_bridges n"
    | "crosses c sha n i p now b" "set (nd_bridges n') = insert (heard_bridge now b) (set (nd_bridges n) - {b})"
    by (auto simp: kept_bridges_def split: if_splits)
  then show ?thesis
  proof cases
    case 2
    let ?x = "heard_bridge now b"
    have x: "same_link ?x b" by (simp add: same_link_def heard_bridge_def)
    have "br_proof_deadline b = None \<or> opens c (nd_book n) (Hear i p t) ?x"
      using 2(1) b(3) by (auto simp: crosses_def proof_signed_def opens_def heard_bridge_def split: if_splits)
    then have "(\<exists>y \<in> set (nd_bridges n). same_link ?x y \<and> br_proof_deadline y = None) \<or> opens c (nd_book n) (Hear i p t) ?x"
      using x b(2) by blast
    moreover have "\<exists>y \<in> set (nd_bridges n). same_link z y \<and> br_proof_deadline y = None"
      if "z \<in> set (nd_bridges n) - {b}" "br_proof_deadline z = None" for z
      using that by (auto simp: same_link_def)
    ultimately show ?thesis unfolding opened_by_def 2(2) by blast
  qed (simp add: opened_subset)
next
  case False
  then have "n' = n" using forward_bridged_unknown[of p n c sha i now acts] f by auto
  then show ?thesis by (simp add: opened_subset)
qed

lemma forward_transport_opens:
  assumes n: "transit_inv n" and f: "forward_transport_packet sha n i p now acts = (n', acts', h)"
  shows "opened_by c book ev (nd_bridges n) (nd_bridges n')"
  using transport_inv(4)[OF n f] by (auto simp: opened_by_def same_link_def)

lemma dispatch_opens:
  assumes n: "node_ok c sha n" and p: "received p"
  shows "opened_by c (nd_book n) (Hear i p t) (nd_bridges n) (nd_bridges (fst (dispatch c sha n i p now acts)))"
proof -
  obtain n1 a1 h1 where r: "after_reverse n i p acts = (n1, a1, h1)" by (rule prod_cases3)
  have "same_core n (fst (after_reverse n i p acts))" "nd_bridges (fst (after_reverse n i p acts)) = nd_bridges n"
    "transit_inv (fst (after_reverse n i p acts))"
    using forward_reverse_core[of n i p acts] forward_reverse_inv[of n i p acts] n
    by (simp_all add: after_reverse_def node_ok_def)
      (simp add: forward_reverse_proof_def Let_def refuse_payload_def push_action_alt split: option.split)
  then have R: "same_core n n1" "nd_bridges n1 = nd_bridges n" "transit_inv n1" by (simp_all add: r)
  have "core_of n1 = core_of n" using R(1) by (simp add: same_core_def)
  note B1 = core_fields(4)[OF this]
  obtain n2 a2 h2 where f: "after_carrying c sha n1 i p now a1 = (n2, a2, h2)" by (rule prod_cases3)
  have F: "opened_by c (nd_book n) (Hear i p t) (nd_bridges n1) (nd_bridges n2) \<and> same_core n1 n2"
  proof (cases "pk_packet_type p = Announce")
    case True
    with f show ?thesis by (simp add: after_carrying_def opened_subset)
  next
    case False
    obtain n3 a3 h3 where b: "forward_bridged_packet c sha n1 i p now a1 = (n3, a3, h3)" by (rule prod_cases3)
    have ok: "bridges_inv n1" using R(3) by (simp add: transit_inv_def)
    have T: "transit_inv n3" "same_core n1 n3"
      using forward_bridged_inv[OF R(3), of c sha i p now a1] forward_bridged_core[of n1 c sha i p now a1] by (simp_all add: b)
    have O: "opened_by c (nd_book n) (Hear i p t) (nd_bridges n1) (nd_bridges n3)"
      using forward_bridged_opens[OF ok b, of t] by (simp add: B1)
    have "h3 \<and> n2 = n3 \<or> forward_transport_packet sha n3 i p now a3 = (n2, a2, h2)"
      using f False by (auto simp: after_carrying_def b split: if_splits)
    then show ?thesis
    proof
      assume g: "forward_transport_packet sha n3 i p now a3 = (n2, a2, h2)"
      have "same_core n3 n2" using forward_transport_core[of n3 sha i p now a3] by (simp add: g)
      with opened_trans[OF O forward_transport_opens[OF T(1) g]] T(2) same_core_trans show ?thesis by blast
    qed (use O T in simp)
  qed
  have "book_inv (nd_book n2)" using F n B1 core_fields(4)[of n2 n1] by (simp add: same_core_def node_ok_def)
  then have "nd_bridges (fst (dispatch c sha n i p now acts)) \<in> {nd_bridges n1, nd_bridges n2}"
    using ingest_announce_fields(1) by (simp add: dispatch_def r f Let_def case_prod_unfold)
  with F R(2) show ?thesis by (auto intro: opened_subset)
qed

lemma expire_bridges: "set (nd_bridges (expire_transport_state n now)) \<subseteq> set (nd_bridges n)"
  by (auto simp: expire_state_fields sweep_set)

lemma path_request_fields:
  "nd_bridges (fst (on_path_request c sha n i request now acts)) = nd_bridges n"
  "nd_ROUTES (fst (on_path_request c sha n i request now acts)) = nd_ROUTES n"
  "nd_book (fst (on_path_request c sha n i request now acts)) = nd_book n"
  by (simp_all add: on_path_request_def count_filtered_def refuse_payload_def Let_def case_prod_unfold split: option.split sum.split)

lemma hear_opens:
  assumes n: "node_ok c sha n" and p: "valid_packet p"
  shows "opened_by c (nd_book n) (Hear i p now) (nd_bridges n) (nd_bridges (fst (ingest_transport c sha N n i p now)))"
proof (cases "pk_ifac p")
  case True
  then show ?thesis by (simp add: ingest_transport_alt refuse_payload_def opened_subset)
next
  case False
  let ?e = "expire_transport_state n now"
  have B: "nd_book ?e = nd_book n" using core_fields(4)[OF expire_state_fields(4)[of n now]] .
  have "opened_by c (nd_book ?e) (Hear i p now) (nd_bridges ?e) (nd_bridges (fst (dispatch c sha ?e i p now (actions_new N))))"
    by (rule dispatch_opens[OF expire_state_ok[OF n]]) (use p False in simp)
  from this[unfolded B] have "opened_by c (nd_book n) (Hear i p now) (nd_bridges ?e)
    (nd_bridges (fst (dispatch c sha ?e i p now (actions_new N))))" .
  from opened_trans[OF opened_subset[OF expire_bridges] this]
  show ?thesis by (simp add: ingest_transport_alt refuse_payload_def count_filtered_def path_request_fields opened_subset split: option.split)
qed

lemma node_step_opens:
  assumes n: "node_ok c sha n" and e: "event_ok e"
  shows "opened_by c (nd_book n) e (nd_bridges n) (nd_bridges (fst (node_step c sha N n e)))"
proof (cases e)
  case (Hear i p now)
  with hear_opens[OF n, of p i now N] e show ?thesis by (simp add: case_prod_unfold Let_def)
next
  case (Beat now i blob)
  with opened_subset[OF expire_bridges] show ?thesis by (simp add: case_prod_unfold Let_def poll_transport_fields)
qed (auto intro!: opened_subset simp: kept_or_def set_first_hop_airtime_def set_interface_mode_def node_forget_interface_def
    set_transport_config_def set_freshness_policy_def set_logical_mtu_def try_set_app_data_def with_announce_interval_def
    retry_announce_def route_to_def expire_routes_core Let_def case_prod_unfold split: option.splits sum.splits if_splits)

lemma node_step_capacities:
  assumes n: "node_ok c sha n" and e: "event_ok e"
  shows "nd_ROUTES (fst (node_step c sha N n e)) = nd_ROUTES n
    \<and> ab_max_peers (nd_book (fst (node_step c sha N n e))) = ab_max_peers (nd_book n)"
proof (cases e)
  case (Hear i p now)
  let ?e = "expire_transport_state n now"
  have E: "nd_book ?e = nd_book n" "nd_ROUTES ?e = nd_ROUTES n"
    using core_fields(4,8)[OF expire_state_fields(4)[of n now]] by simp_all
  have D: "nd_ROUTES (fst (dispatch c sha m i p now acts)) = nd_ROUTES m
    \<and> ab_max_peers (nd_book (fst (dispatch c sha m i p now acts))) = ab_max_peers (nd_book m)" if m: "book_inv (nd_book m)" for m acts
  proof -
    obtain n1 a1 h1 where r: "after_reverse m i p acts = (n1, a1, h1)" by (rule prod_cases3)
    obtain n2 a2 h2 where f: "after_carrying c sha n1 i p now a1 = (n2, a2, h2)" by (rule prod_cases3)
    have "same_core m n1" using r forward_reverse_core[of m i p acts] by (auto simp: after_reverse_def split: if_splits)
    moreover have "same_core n1 n2"
    proof -
      obtain n3 a3 h3 where b: "forward_bridged_packet c sha n1 i p now a1 = (n3, a3, h3)" by (rule prod_cases3)
      have "same_core n1 n3" using forward_bridged_core[of n1 c sha i p now a1] by (simp add: b)
      moreover have "same_core n3 (fst (forward_transport_packet sha n3 i p now a3))" by (rule forward_transport_core)
      ultimately show ?thesis using f same_core_trans by (auto simp: after_carrying_def b split: if_splits)
    qed
    ultimately have S: "core_of n1 = core_of m" "core_of n2 = core_of m" by (simp_all add: same_core_def)
    note C = core_fields(4,8)[OF S(1)] core_fields(4,8)[OF S(2)]
    have "book_inv (nd_book n2)" using m C by simp
    from ingest_announce_fields(2,3)[OF this] show ?thesis
      by (simp add: dispatch_def r f Let_def case_prod_unfold C)
  qed
  have "book_inv (nd_book ?e)" using n E by (simp add: node_ok_def)
  note D = D[OF this]
  show ?thesis unfolding Hear
    by (simp add: Let_def case_prod_unfold ingest_transport_alt refuse_payload_def count_filtered_def path_request_fields D E split: option.split)
next
  case (Beat now i blob)
  then show ?thesis by (simp add: case_prod_unfold Let_def poll_transport_fields)
next
  case (FindRoute d t)
  have "core_of (expire_routes n t) = core_of n" by (rule expire_routes_core)
  note C = core_fields(4,8)[OF this]
  from FindRoute C show ?thesis by (simp add: route_to_def Let_def)
qed (simp_all add: kept_or_def set_first_hop_airtime_def set_interface_mode_def node_forget_interface_def
    set_transport_config_def set_freshness_policy_def set_logical_mtu_def try_set_app_data_def with_announce_interval_def
    retry_announce_def Let_def case_prod_unfold split: option.split sum.split)

lemma react_append: "react step s (xs @ ys) =
    (let (s1, o1) = react step s xs; (s2, o2) = react step s1 ys in (s2, o1 @ o2))"
  by (induction xs arbitrary: s) (simp_all add: Let_def case_prod_unfold)

lemma react_snoc: "fst (react step s (es @ [e])) = fst (step (fst (react step s es)) e)"
  by (simp add: react_append Let_def case_prod_unfold)

lemma run_opened:
  assumes "node_ok c sha n" "curve_laws c" "list_all event_ok evs" "list_all (\<lambda>b. br_proof_deadline b \<noteq> None) (nd_bridges n)"
    and "b \<in> set (nd_bridges (fst (node_run c sha N n evs)))" "br_proof_deadline b = None"
  shows "\<exists>k < length evs. opens c (nd_book (fst (node_run c sha N n (take k evs)))) (evs ! k) b"
  using assms(3,5,6)
proof (induction evs arbitrary: b rule: rev_induct)
  case Nil
  with assms(4) show ?case by (auto simp: list_all_iff)
next
  case (snoc e es)
  let ?m = "fst (node_run c sha N n es)"
  have "node_ok c sha ?m" using node_runs.react_keeps[where es = es and c = c and sha = sha and N = N and s = n] assms(1,2) snoc.prems(1) by simp
  then have "opened_by c (nd_book ?m) e (nd_bridges ?m) (nd_bridges (fst (node_step c sha N ?m e)))"
    using node_step_opens[of c sha ?m e N] snoc.prems(1) by simp
  with snoc.prems(2,3) consider x where "x \<in> set (nd_bridges ?m)" "same_link b x" "br_proof_deadline x = None" | "opens c (nd_book ?m) e b"
    unfolding react_snoc opened_by_def by blast
  then show ?case
  proof cases
    case 1
    from snoc.IH[OF _ 1(1,3)] snoc.prems(1) obtain k where
      k: "k < length es" "opens c (nd_book (fst (node_run c sha N n (take k es)))) (es ! k) x" by auto
    have "opens c book ev x \<longleftrightarrow> opens c book ev b" for book ev using 1(2) by (simp add: opens_def same_link_def)
    with k have "k < length (es @ [e])" "opens c (nd_book (fst (node_run c sha N n (take k (es @ [e]))))) ((es @ [e]) ! k) b"
      by (simp_all add: nth_append)
    then show ?thesis by blast
  next
    case 2
    then have "length es < length (es @ [e])"
      "opens c (nd_book (fst (node_run c sha N n (take (length es) (es @ [e]))))) ((es @ [e]) ! length es) b"
      by (simp_all add: nth_append)
    then show ?thesis by blast
  qed
qed

lemma run_capacities:
  assumes "node_ok c sha n" "curve_laws c" "list_all event_ok evs"
  shows "nd_ROUTES (fst (node_run c sha N n evs)) = nd_ROUTES n
    \<and> ab_max_peers (nd_book (fst (node_run c sha N n evs))) = ab_max_peers (nd_book n)"
  using assms(3)
proof (induction evs rule: rev_induct)
  case (snoc e es)
  have "node_ok c sha (fst (node_run c sha N n es))"
    using node_runs.react_keeps[where es = es and c = c and sha = sha and N = N and s = n] assms(1,2) snoc.prems by simp
  from node_step_capacities[OF this, of e N] snoc show ?case by (simp add: react_snoc)
qed simp

section \<open>When a poll has nothing left to send\<close>

definition cap_settled :: "nat \<Rightarrow> announce_cap \<Rightarrow> bool" where
  "cap_settled now cap \<longleftrightarrow> ac_queue cap = [] \<or> now < ac_allowed_at cap"

abbreviation caps_settled :: "nat \<Rightarrow> node \<Rightarrow> bool" where
  "caps_settled now n \<equiv> list_all (\<lambda>x. cap_settled now (snd x)) (nd_announce_caps n)"

text \<open>Action lists only grow.\<close>

definition grows :: "actions \<Rightarrow> actions \<Rightarrow> bool" where
  "grows a b \<longleftrightarrow> as_N b = as_N a \<and> length (as_items a) \<le> length (as_items b)"

lemma grows_trans: "grows a b \<Longrightarrow> grows b d \<Longrightarrow> grows a d"
  by (simp add: grows_def)

lemma grows_refl [simp]: "grows a a"
  by (simp add: grows_def)

lemma grows_room: "grows a b \<Longrightarrow> room b \<Longrightarrow> room a"
  by (simp add: grows_def room_def)

lemma grows_push: "grows a (fst (push_action a x))"
  by (simp add: grows_def push_action_def)

lemma grows_send: "grows acts (snd (send_rebroadcast n i p acts))"
  using grows_push[of acts "ActSend i p"] by (simp add: send_rebroadcast_def Let_def case_prod_unfold)

lemma pop_settles: "cap_pop_due cap now rate = (cap', None) \<Longrightarrow> cap_settled now cap'"
  by (auto simp: cap_pop_due_def Let_def cap_settled_def min_index_None filter_empty_conv split: if_splits option.splits)

lemma release_cap_settles:
  "index < length (nd_announce_caps n) \<Longrightarrow> release_cap now index n acts = (n', acts') \<Longrightarrow>
     grows acts acts' \<and> length (nd_announce_caps n') = length (nd_announce_caps n)
     \<and> (\<forall>j. j \<noteq> index \<longrightarrow> nd_announce_caps n' ! j = nd_announce_caps n ! j)
     \<and> (room acts' \<longrightarrow> cap_settled now (snd (nd_announce_caps n' ! index)))"
proof (induction now index n acts arbitrary: n' acts' rule: release_cap.induct)
  case (1 now index n acts)
  let ?i = "fst (nd_announce_caps n ! index)"
  obtain cap out where o: "cap_pop_due (snd (nd_announce_caps n ! index)) now (cap_rate_new (first_hop_airtime n ?i)) = (cap, out)"
    by fastforce
  let ?m = "n\<lparr>nd_announce_caps := (nd_announce_caps n)[index := (?i, cap)]\<rparr>"
  show ?case
  proof (cases "length (as_items acts) < as_N acts")
    case False
    with "1.prems" show ?thesis by (auto simp: release_cap.simps[of now index n acts] room_def)
  next
    case True
    show ?thesis
    proof (cases out)
      case None
      with True o "1.prems" have "n' = ?m" "acts' = acts" by (simp_all add: release_cap.simps[of now index n acts] Let_def)
      with pop_settles[OF o[unfolded None]] "1.prems"(1) show ?thesis by simp
    next
      case (Some p)
      let ?s = "send_rebroadcast ?m ?i p acts"
      have c: "nd_announce_caps (fst ?s) = (nd_announce_caps n)[index := (?i, cap)]" by (simp add: send_rebroadcast_caps)
      have r: "release_cap now index (fst ?s) (snd ?s) = (n', acts')"
        using "1.prems"(2) True o Some by (simp add: release_cap.simps[of now index n acts] Let_def)
      from "1.IH"[OF True HOL.refl o[symmetric] HOL.refl HOL.refl Some _ r] "1.prems"(1) grows_send[of acts ?m ?i p]
      show ?thesis unfolding c by (auto intro: grows_trans)
    qed
  qed
qed

abbreviation release_caps :: "nat \<Rightarrow> nat list \<Rightarrow> node \<times> actions \<Rightarrow> node \<times> actions" where
  "release_caps now ks r \<equiv> fold (\<lambda>index (n, acts). release_cap now index n acts) ks r"

lemma release_caps_settle:
  "distinct ks \<Longrightarrow> \<forall>k \<in> set ks. k < length (nd_announce_caps n) \<Longrightarrow> release_caps now ks (n, acts) = (n', acts') \<Longrightarrow>
     grows acts acts' \<and> length (nd_announce_caps n') = length (nd_announce_caps n)
     \<and> (\<forall>j. j \<notin> set ks \<longrightarrow> nd_announce_caps n' ! j = nd_announce_caps n ! j)
     \<and> (room acts' \<longrightarrow> (\<forall>k \<in> set ks. cap_settled now (snd (nd_announce_caps n' ! k))))"
proof (induction ks arbitrary: n acts)
  case (Cons k ks)
  obtain n1 a1 where r: "release_cap now k n acts = (n1, a1)" by fastforce
  have "k < length (nd_announce_caps n)" using Cons.prems(2) by simp
  note R = release_cap_settles[OF this r]
  have "release_caps now ks (n1, a1) = (n', acts')" using Cons.prems(3) r by simp
  from Cons.IH[OF _ _ this] Cons.prems R have I: "grows a1 acts'" "length (nd_announce_caps n') = length (nd_announce_caps n1)"
    "\<forall>j. j \<notin> set ks \<longrightarrow> nd_announce_caps n' ! j = nd_announce_caps n1 ! j"
    "room acts' \<longrightarrow> (\<forall>k \<in> set ks. cap_settled now (snd (nd_announce_caps n' ! k)))" by auto
  have "nd_announce_caps n' ! k = nd_announce_caps n1 ! k" using I(3) Cons.prems(1) by simp
  with R I grows_trans[of acts a1 acts'] grows_room[OF I(1)] show ?case by auto
qed simp

lemma cap_offer_settled: "cap_settled now cap \<Longrightarrow> cap_settled now (fst (cap_offer cap r now rate))"
  by (auto simp: cap_offer_def cap_settled_def split: option.split)

lemma offer_settled:
  assumes "caps_settled now n"
  shows "caps_settled now (fst (offer_rebroadcast n r now acts))" "grows acts (snd (offer_rebroadcast n r now acts))"
proof -
  let ?i = "rb_interface r"
  have slot: "list_all (\<lambda>x. cap_settled now (snd x)) (caps[k := (i, fst (cap_offer (snd (caps ! k)) r now rate))])"
    if "cap_slot (nd_announce_caps n) ?i = Some (caps, k)" for caps k rate i
  proof -
    have c: "list_all (\<lambda>x. cap_settled now (snd x)) caps" "k < length caps"
      using that assms position_Some[of "\<lambda>(k, _). k = ?i" "nd_announce_caps n"]
      by (auto simp: cap_slot_def announce_cap_new_def cap_settled_def split: option.splits if_splits)
    then have "cap_settled now (fst (cap_offer (snd (caps ! k)) r now rate))" by (intro cap_offer_settled) (simp add: list_all_length)
    with c show ?thesis by (simp add: list_all_length nth_list_update)
  qed
  show "caps_settled now (fst (offer_rebroadcast n r now acts))"
    using assms slot by (auto simp: offer_rebroadcast_def Let_def case_prod_unfold send_rebroadcast_caps split: option.split offer.split)
  show "grows acts (snd (offer_rebroadcast n r now acts))"
    by (simp add: offer_rebroadcast_def Let_def case_prod_unfold grows_send split: option.split offer.split)
qed

lemma drain_settles:
  "caps_settled now n \<Longrightarrow> drain_rebroadcasts now n acts = (n', acts') \<Longrightarrow>
     grows acts acts' \<and> caps_settled now n' \<and> (room acts' \<longrightarrow> \<not> due_by now (rs_next_due (nd_rebroadcasts n')))"
proof (induction now n acts arbitrary: n' acts' rule: drain_rebroadcasts.induct)
  case (1 now n acts)
  obtain t out where t: "pop_due (nd_rebroadcasts n) now = (t, out)" by fastforce
  show ?case
  proof (cases "length (as_items acts) < as_N acts")
    case False
    with "1.prems" show ?thesis by (auto simp: drain_rebroadcasts.simps[of now n acts] room_def)
  next
    case True
    show ?thesis
    proof (cases out)
      case None
      have "\<forall>e \<in> set (rs_entries (nd_rebroadcasts n)). now < en_due e"
        using t None by (auto simp: pop_due_def min_index_None Let_def split: option.splits if_splits prod.splits)
      moreover have "n' = n" "acts' = acts" using "1.prems"(2) True t None by (simp_all add: drain_rebroadcasts.simps[of now n acts])
      ultimately show ?thesis using "1.prems"(1) unfolding due_by_next by auto
    next
      case (Some r)
      let ?m = "n\<lparr>nd_rebroadcasts := t\<rparr>"
      have m: "caps_settled now ?m" using "1.prems"(1) by simp
      have d: "drain_rebroadcasts now (fst (offer_rebroadcast ?m r now acts)) (snd (offer_rebroadcast ?m r now acts)) = (n', acts')"
        using "1.prems"(2) True t Some by (simp add: drain_rebroadcasts.simps[of now n acts] Let_def)
      from "1.IH"[OF True t[symmetric] Some HOL.refl offer_settled(1)[OF m] d] offer_settled(2)[OF m]
      show ?thesis by (auto intro: grows_trans)
    qed
  qed
qed

lemma poll_rebroadcasts_settle:
  assumes p: "poll_rebroadcasts n now acts = (n', acts')"
  shows "grows acts acts' \<and> (room acts' \<longrightarrow> (case next_rebroadcast n' of None \<Rightarrow> True | Some t \<Rightarrow> now < t))"
proof -
  obtain n1 a1 where r: "release_caps now [0..<length (nd_announce_caps n)] (n, acts) = (n1, a1)" by fastforce
  obtain n2 a2 where d: "drain_rebroadcasts now n1 a1 = (n2, a2)" by fastforce
  have n': "n' = n2\<lparr>nd_announce_caps := filter (\<lambda>(interface, cap). \<not> cap_idle cap now
            \<and> interface \<in> fst ` set (nd_first_hop_airtime n2)) (nd_announce_caps n2)\<rparr>" "acts' = a2"
    using p by (simp_all add: poll_rebroadcasts_def r d)
  have R: "grows acts a1" "length (nd_announce_caps n1) = length (nd_announce_caps n)"
    "room a1 \<Longrightarrow> k < length (nd_announce_caps n) \<Longrightarrow> cap_settled now (snd (nd_announce_caps n1 ! k))" for k
    using release_caps_settle[OF _ _ r] by auto
  have step: "drain_rebroadcasts now n1 a1 = (n1, a1)" if "\<not> room a1"
    using that by (simp add: drain_rebroadcasts.simps[of now n1 a1] room_def)
  have D: "room a1 \<Longrightarrow> grows a1 a2 \<and> caps_settled now n2 \<and> (room a2 \<longrightarrow> \<not> due_by now (rs_next_due (nd_rebroadcasts n2)))"
    using drain_settles[OF _ d] R by (simp add: list_all_length)
  have g: "grows a1 a2" using D step d by (cases "room a1") auto
  have "case next_rebroadcast n' of None \<Rightarrow> True | Some t \<Rightarrow> now < t" if "room a2"
  proof -
    from grows_room[OF g that] D that have S: "caps_settled now n2" "\<not> due_by now (rs_next_due (nd_rebroadcasts n2))" by auto
    define dues where "dues = List.map_filter (\<lambda>(_, cap). cap_next_due cap) (nd_announce_caps n')
         @ (case rs_next_due (nd_rebroadcasts n') of None \<Rightarrow> [] | Some t \<Rightarrow> [t])"
    have "now < t" if "t \<in> set dues" for t
      using that S unfolding n'(1) dues_def
      by (auto simp: List.map_filter_def cap_next_due_def cap_settled_def list_all_iff due_by_def split: option.splits if_splits)
    then have "dues \<noteq> [] \<Longrightarrow> now < Min (set dues)" by simp
    then show ?thesis by (simp add: next_rebroadcast_def Let_def flip: dues_def)
  qed
  with R(1) g grows_trans n'(2) show ?thesis by blast
qed

section \<open>Properties\<close>

text \<open>A transmission a neighbour on the carrier reads back as it was sent.\<close>

definition fits_carrier :: "action \<Rightarrow> bool" where
  "fits_carrier a \<longleftrightarrow> (case a of
     ActSend i p \<Rightarrow> length (encode p) \<le> unat LINK_MTU
       \<and> (decode_with_limit (encode p) (unat LINK_MTU) = Inr p \<or> (pk_packet_type p = Proof \<and> pk_hops p = MAX_HOPS))
   | _ \<Rightarrow> True)"

lemma encode_length_shape:
  "(pk_header_type p = Type2 \<longleftrightarrow> pk_transport p \<noteq> None) \<Longrightarrow> length (encode p) = encoded_len p"
  by (cases "pk_header_type p") (auto simp: encode_def encoded_len_def packet_consts)

lemma fine_fits: "action_fine a \<Longrightarrow> fits_carrier a"
proof (cases a)
  case (ActSend i p)
  assume "action_fine a"
  then have p: "sendable p" using ActSend by simp
  then have len: "length (encode p) \<le> unat LINK_MTU" using encode_length_shape[of p] by (auto simp: sendable_def)
  show ?thesis
  proof (cases "pk_hops p < MAX_HOPS")
    case True
    with p have "valid_packet p" "\<not> pk_ifac p" "encoded_len p \<le> unat LINK_MTU" by (auto simp: sendable_def valid_packet_def)
    from decode_encode[OF this(1,3)] this(2) have "decode_with_limit (encode p) (unat LINK_MTU) = Inr p" by simp
    with len ActSend show ?thesis by (simp add: fits_carrier_def)
  next
    case False
    with p len ActSend show ?thesis by (simp add: fits_carrier_def sendable_def)
  qed
qed (simp_all add: fits_carrier_def)

text \<open>
  C17: Through any packets, polls and configuration calls, everything the node relays, announces
  or answers on its interfaces fits the carrier's frame and, with one exception, is read back by the
  neighbour's decoder as it was sent, whether received, relayed, queued or built here. The
  exception is a delivery proof passed back with 128 hops, which the neighbour refuses:
  \<open>forward_reverse_proof\<close> checks no hop ceiling on the way back. What the node's own sessions send is
  not part of these runs.
\<close>

theorem node_sends_fit:
  assumes "curve_laws c" "length secret = IDENTITY_LEN" "peers < u64_max" "routes < u64_max" "list_all event_ok evs"
    and "node_run c sha N (node_new sha usize_max peers routes (from_secret_bytes c sha secret) name) evs = (n, out)"
  shows "list_all fits_carrier out"
  using node_run_ok(2)[OF assms] by (rule list.pred_mono_strong) (rule fine_fits)

text \<open>
  C16: Through any packets, polls and configuration calls the node's transport tables keep to
  their capacities: routes, bridges and reverse entries to the route capacity, the address book to
  its peers, the freshness rows to their policy, the rebroadcast table and its held entries to
  their slots, the announce caps, airtimes and modes to their interfaces, the transit filter and
  the path request tags to two generations. Each has one row per key, the held entries apart; the
  node never routes to itself, and every route has the freshness row that guards it. The tables of
  the node's own sessions (links, channels, resources) are not part of this node record.
\<close>

theorem node_keeps_bounds:
  assumes "curve_laws c" "length secret = IDENTITY_LEN" "peers < u64_max" "routes < u64_max" "list_all event_ok evs"
    and "node_run c sha N (node_new sha usize_max peers routes (from_secret_bytes c sha secret) name) evs = (n, out)"
  shows "(distinct (map rt_destination (nd_routes n)) \<and> length (nd_routes n) \<le> routes \<and> nd_destination n \<notin> rt_destination ` set (nd_routes n))
    \<and> (distinct (map br_link_id (nd_bridges n)) \<and> length (nd_bridges n) \<le> routes)
    \<and> (distinct (map rv_packet (nd_reverse n)) \<and> length (nd_reverse n) \<le> routes)
    \<and> (distinct (map fst (ab_peers (nd_book n))) \<and> length (ab_peers (nd_book n)) \<le> peers)
    \<and> (distinct (map en_dest (rs_entries (nd_rebroadcasts n))) \<and> length (rs_entries (nd_rebroadcasts n)) \<le> REBROADCAST_SLOTS
       \<and> length (rs_held (nd_rebroadcasts n)) \<le> REBROADCAST_SLOTS)
    \<and> (distinct (map fst (nd_announce_caps n)) \<and> length (nd_announce_caps n) \<le> FIRST_HOP_AIRTIME_INTERFACES
       \<and> list_all (\<lambda>(i, cap). length (ac_queue cap) \<le> QUEUED_ANNOUNCES) (nd_announce_caps n))
    \<and> (distinct (map fst (nd_first_hop_airtime n)) \<and> length (nd_first_hop_airtime n) \<le> FIRST_HOP_AIRTIME_INTERFACES)
    \<and> (distinct (map fst (nd_interface_modes n)) \<and> length (nd_interface_modes n) \<le> INTERFACE_MODE_INTERFACES)
    \<and> generations_ok TRANSPORT_DEDUP_HASHES (nd_transit_filter n)
    \<and> generations_ok NODE_PATH_REQUEST_TAGS (nd_path_request_tags n)
    \<and> (distinct (map fst (fr_rows (nd_freshness n)))
       \<and> length (fr_rows (nd_freshness n)) \<le> fc_destination_capacity (fr_config (nd_freshness n)))
    \<and> list_all (\<lambda>r. map_of (fr_rows (nd_freshness n)) (rt_destination r) \<noteq> None) (nd_routes n)"
proof -
  let ?n = "node_new sha usize_max peers routes (from_secret_bytes c sha secret) name"
  have new: "node_ok c sha ?n" by (rule node_new_ok[OF assms(2-4)])
  have cap: "nd_ROUTES n = routes" "ab_max_peers (nd_book n) = peers"
    using run_capacities[OF new assms(1,5), of N] by (simp_all add: assms(6)) (simp_all add: node_new_def with_max_peers_def)
  have ok: "transit_inv n" "book_inv (nd_book n)" "node_queues_ok n" "rows_ok (nd_freshness n) (routed n)"
    "settings_inv n" "node_filters_ok n"
    using node_run_ok(1)[OF assms] by (simp_all add: node_ok_def)
  have sorted: "sorted_wrt (<) ks \<Longrightarrow> distinct ks" for ks :: "address_hash list" by (simp add: strict_sorted_iff)
  then have book: "distinct (map fst (ab_peers (nd_book n))) \<and> length (ab_peers (nd_book n)) \<le> peers"
    using ok(2) cap by (simp add: book_inv_def bm_ok_def del: distinct_map)
  have caps: "distinct (map fst (nd_announce_caps n)) \<and> length (nd_announce_caps n) \<le> FIRST_HOP_AIRTIME_INTERFACES"
    "list_all (\<lambda>(i, cap). length (ac_queue cap) \<le> QUEUED_ANNOUNCES) (nd_announce_caps n)"
    using ok(3) by (auto simp: queues_ok_def caps_all_def cap_all_def cap_inv_def list_all_iff)
  have "map_of (fr_rows f) d \<noteq> None" if "fresh_content f d \<noteq> None" for f d using that by (auto simp: fresh_content_def)
  then have rows: "length (fr_rows (nd_freshness n)) \<le> fc_destination_capacity (fr_config (nd_freshness n))"
    "list_all (\<lambda>r. map_of (fr_rows (nd_freshness n)) (rt_destination r) \<noteq> None) (nd_routes n)"
    using ok(4) by (auto simp: rows_ok_def fresh_inv_def list_all_iff)
  have keys: "distinct (map fst (fr_rows (nd_freshness n)))"
    using ok(4) sorted by (simp add: rows_ok_def fresh_inv_def fresh_shape_def bm_ok_def del: distinct_map)
  have set: "distinct (map fst (nd_first_hop_airtime n)) \<and> length (nd_first_hop_airtime n) \<le> FIRST_HOP_AIRTIME_INTERFACES"
    "distinct (map fst (nd_interface_modes n)) \<and> length (nd_interface_modes n) \<le> INTERFACE_MODE_INTERFACES"
    using ok(5) by (simp_all add: settings_inv_def settings_ok_def)
  have table: "distinct (map en_dest (rs_entries (nd_rebroadcasts n))) \<and> length (rs_entries (nd_rebroadcasts n)) \<le> REBROADCAST_SLOTS
       \<and> length (rs_held (nd_rebroadcasts n)) \<le> REBROADCAST_SLOTS"
    using ok(3) unfolding queues_ok_def rebro_inv_def by metis
  show ?thesis
    using ok(1) book caps rows table keys set ok(6)[unfolded filters_ok_def] unfolding transit_inv_def routes_ok_def bridges_ok_def reverse_ok_def cap by blast
qed

text \<open>
  C15: A carried link is open only because its destination answered: for every open bridge
  at the end of a run that began with none, the run heard a link proof of that link id on the side of
  the destination, and if the node knew the destination's identity at that moment, the proof was
  signed by it.
\<close>

theorem open_link_was_proved:
  assumes "node_ok c sha n0" "curve_laws c" "list_all event_ok evs" "list_all (\<lambda>b. br_proof_deadline b \<noteq> None) (nd_bridges n0)"
    and "b \<in> set (nd_bridges (fst (node_run c sha N n0 evs)))" "br_proof_deadline b = None"
  shows "\<exists>k p now. k < length evs \<and> evs ! k = Hear (br_out b) p now
    \<and> pk_packet_type p = Proof \<and> pk_context p = CTX_LRPROOF \<and> pk_destination p = br_link_id b
    \<and> (case book_resolve (nd_book (fst (node_run c sha N n0 (take k evs)))) (br_destination b) of
         None \<Rightarrow> True | Some peer \<Rightarrow> proof_is_signed_by c p (pe_identity peer))"
  using run_opened[OF assms] by (auto simp: opens_def link_proof_def)

text \<open>
  C24: A poll that still has room for an action has nothing left to send at that time: the
  next relayed announce the node asks to be woken for, from the table or from an announce cap, lies
  strictly ahead, so a shell that sleeps until then does not spin.
\<close>

theorem node_poll_settles:
  assumes "poll_transport c sha N n now i blob = (n', acts)" "length (as_items acts) < N"
  shows "case next_rebroadcast n' of None \<Rightarrow> True | Some t \<Rightarrow> now < t"
proof -
  obtain m b where m: "poll_announce c sha (expire_transport_state n now) now i blob (actions_new N) = (m, b)" by fastforce
  have "as_N (snd (poll_announce c sha (expire_transport_state n now) now i blob (actions_new N))) = N"
    by (simp add: poll_announce_def actions_new_def push_action_def Let_def split: option.split sum.split)
  moreover have "poll_rebroadcasts m now b = (n', acts)" using assms(1) by (simp add: poll_transport_def m)
  note P = poll_rebroadcasts_settle[OF this]
  ultimately show ?thesis using assms(2) by (simp add: m grows_def room_def)
qed

section \<open>Announces\<close>

lemma hear_copy_state: "\<exists>t cs. hear_rebroadcast_copy n p now = n\<lparr>nd_rebroadcasts := t, nd_counters := cs\<rparr>
    \<and> (rebro_inv (nd_rebroadcasts n) \<longrightarrow> budget d t \<le> budget d (nd_rebroadcasts n))"
proof -
  obtain t e where h: "heard_copy (nd_rebroadcasts n) p now = (t, e)" by fastforce
  have "hear_rebroadcast_copy n p now = n\<lparr>nd_rebroadcasts := t,
      nd_counters := if e then n_suppressed_rebroadcasts_update inc (nd_counters n) else nd_counters n\<rparr>"
    using h by (cases e) (simp_all add: hear_rebroadcast_copy_def Let_def)
  with heard_copy_spec[OF _ h, of d] show ?thesis by blast
qed

text \<open>A state that an announce left as it was, but for counters and the sends it may have ended.\<close>

definition unmoved :: "node \<Rightarrow> node \<Rightarrow> bool" where
  "unmoved n n' \<longleftrightarrow> (\<exists>t cs. n' = n\<lparr>nd_rebroadcasts := t, nd_counters := cs\<rparr> \<and> budget None t \<le> budget None (nd_rebroadcasts n))"

lemma unmoved_counted: "unmoved n n' \<Longrightarrow> unmoved n (counted f n')"
proof -
  assume "unmoved n n'"
  then obtain t cs where "n' = n\<lparr>nd_rebroadcasts := t, nd_counters := cs\<rparr>" "budget None t \<le> budget None (nd_rebroadcasts n)"
    by (auto simp: unmoved_def)
  moreover from this(1) have "counted f n' = n\<lparr>nd_rebroadcasts := t, nd_counters := f cs\<rparr>" by simp
  ultimately show ?thesis unfolding unmoved_def by blast
qed

lemma unmoved_same: "unmoved n n"
  by (auto simp: unmoved_def intro!: exI[of _ "nd_rebroadcasts n"] exI[of _ "nd_counters n"])

lemma unmoved_copy: "rebro_inv (nd_rebroadcasts n) \<Longrightarrow> unmoved n (hear_rebroadcast_copy n p now)"
  using hear_copy_state[of n p now None] by (auto simp: unmoved_def)

lemma rejected_unmoved:
  assumes t: "rebro_inv (nd_rebroadcasts n)" and u: "unverified_candidate p = Some candidate"
    and e: "evaluate (nd_freshness n) candidate (live_route_to n now (cand_destination candidate)) = Reject reject"
  shows "unmoved n (fst (ingest_announce c sha n i p now acts)) \<and> snd (ingest_announce c sha n i p now acts) = acts"
  using unmoved_copy[OF t, of p now] u e
  by (auto simp: ingest_announce_def unmoved_same unmoved_counted Let_def split: freshness_reject.split)

text \<open>
  C22: An announce that does not verify, or that names a known destination under another
  key, teaches the node nothing: no route, peer, freshness row or action comes of it, and at most it
  ends sends of a relay whose payload it repeats.
\<close>

theorem forged_announce_harmless:
  assumes "rebro_inv (nd_rebroadcasts n)" "ingest_announce c sha n i p now acts = (n', acts')"
    and "case announce_decode c sha p of Inl e \<Rightarrow> True | Inr a \<Rightarrow> key_conflicts (nd_book n) a"
  shows "acts' = acts \<and> nd_routes n' = nd_routes n \<and> nd_book n' = nd_book n \<and> nd_freshness n' = nd_freshness n
    \<and> nd_bridges n' = nd_bridges n \<and> nd_announce_caps n' = nd_announce_caps n
    \<and> budget None (nd_rebroadcasts n') \<le> budget None (nd_rebroadcasts n)"
proof -
  have "unmoved n n' \<and> acts' = acts"
  proof (cases "\<exists>candidate reject. unverified_candidate p = Some candidate
      \<and> evaluate (nd_freshness n) candidate (live_route_to n now (cand_destination candidate)) = Reject reject")
    case True
    then show ?thesis using rejected_unmoved[OF assms(1)] assms(2) by (metis fst_conv snd_conv)
  next
    case False
    have "ingest_announce c sha n i p now acts = (n, acts)
        \<or> ingest_announce c sha n i p now acts = (counted (n_key_mismatch_announces_update inc) n, acts)"
    proof (cases "unverified_candidate p")
      case None
      then show ?thesis by (simp add: ingest_announce_def)
    next
      case (Some candidate)
      with False obtain how where how: "evaluate (nd_freshness n) candidate (live_route_to n now (cand_destination candidate)) = Accept how"
        by (cases "evaluate (nd_freshness n) candidate (live_route_to n now (cand_destination candidate))") auto
      show ?thesis
      proof (cases "announce_decode c sha p")
        case (Inl e)
        then show ?thesis by (simp add: ingest_announce_def Some how)
      next
        case (Inr a)
        then have "key_conflicts (nd_book n) a" using assms(3) by simp
        then show ?thesis by (simp add: ingest_announce_def Some how Inr learn_announce_def)
      qed
    qed
    then have "acts' = acts" "n' = n \<or> n' = counted (n_key_mismatch_announces_update inc) n" using assms(2) by auto
    with unmoved_same unmoved_counted[OF unmoved_same] show ?thesis by blast
  qed
  then show ?thesis by (auto simp: unmoved_def)
qed

lemma learned_alive:
  assumes r: "routes_inv m" and d: "d \<noteq> nd_destination m" and c: "0 < nd_ROUTES m" and m': "m' = learn_route m d i hops via now"
  shows "learned_row m d i hops via now \<in> set (nd_routes m')" "routes_inv m'" "nd_transport m' = nd_transport m"
    "nd_freshness m' = nd_freshness m" "nd_book m' = nd_book m"
proof -
  note S = learn_route_spec[OF r d c m']
  then show "learned_row m d i hops via now \<in> set (nd_routes m')" "routes_inv m'" by (auto simp: admits_row_def split: if_splits)
  have "core_of m' = core_of m" unfolding m' by (rule learn_route_core)
  from core_fields[OF this] show "nd_transport m' = nd_transport m" "nd_freshness m' = nd_freshness m" "nd_book m' = nd_book m" by simp_all
qed

definition candidate_of :: "announce \<Rightarrow> freshness_candidate" where
  "candidate_of a = \<lparr>cand_destination = an_destination a, cand_blob = an_rand_hash a\<rparr>"

text \<open>
  C21: A fresh announce that verifies is learned: the destination's next hop is the neighbour
  it came from, its identity is in the book unless the book was full, and a copy that is the next
  announce heard, by whatever way it came and while the route lives, is a replay that moves nothing.
\<close>

theorem announce_learned_once:
  assumes n: "node_ok c sha n" "0 < nd_ROUTES n"
    and v: "valid_packet p" "\<not> pk_ifac p"
    and p: "announce_decode c' sha p = Inr a" "an_destination a \<noteq> nd_destination n" "\<not> key_conflicts (nd_book n) a"
    and e: "is_accepted (evaluate (nd_freshness n) (candidate_of a) (live_route_to n now (an_destination a)))"
    and f: "ingest_announce c' sha n i p now acts = (n', acts')"
    and t: "t - now < mode_route_ttl (node_interface_mode n i) (tc_route_ttl (nd_transport n))"
    and copy: "announce_decode c' sha q = Inr a"
  shows "next_hop n' (an_destination a) t = Some \<lparr>nh_interface = i, nh_via = pk_transport p, nh_hops = pk_hops p\<rparr>
    \<and> (map_option pe_identity (book_resolve (nd_book n') (an_destination a)) = Some (an_identity a)
       \<or> book_full (nd_book n))
    \<and> unmoved n' (fst (ingest_announce c' sha n' j q t acts2)) \<and> snd (ingest_announce c' sha n' j q t acts2) = acts2"
proof -
  let ?d = "an_destination a"
  have cand: "unverified_candidate p = Some (candidate_of a)" "unverified_candidate q = Some (candidate_of a)"
    using candidate_is_announced[OF p(1)] candidate_is_announced[OF copy] by (simp_all add: candidate_of_def)
  have pd: "pk_destination p = ?d" "pk_destination q = ?d"
    using p(1) copy unfolding announce_decode_def by (auto elim: decode_sound)
  obtain how where how: "evaluate (nd_freshness n) (candidate_of a) (live_route_to n now ?d) = Accept how"
    using e by (cases "evaluate (nd_freshness n) (candidate_of a) (live_route_to n now ?d)") (auto simp: is_accepted_def)
  obtain book result where b: "ingest_at (nd_book n) a now (live_route_to n now) = (book, result)" by fastforce
  obtain table report where r: "record_accepted (nd_freshness n) (candidate_of a) how = (table, report)" by fastforce
  let ?o = "overheard n p a now"
  let ?m = "recorded (booked ?o book result) table report"
  let ?l = "learn_route ?m ?d i (pk_hops p) (pk_transport p) now"
  have n': "n' = relay_announce sha ?l i p (timebase (an_rand_hash a)) now"
    using f cand(1) how p(1,2) learn_announce_steps[OF p(3) b r, of sha i p acts]
    by (simp add: ingest_announce_def pd candidate_of_def)
  have o: "node_ok c sha ?o" using n(1) hear_rebroadcast_ok by (simp add: overheard_def)
  note U = unqueued_fields[OF overheard_unqueued[of n p a now]]
  have bo: "ingest_at (nd_book ?o) a now (live_route_to n now) = (book, result)"
    and ro: "record_accepted (nd_freshness (booked ?o book result)) (candidate_of a) how = (table, report)"
    using b r U by (simp_all add: booked_fields)
  have M: "node_ok c sha ?m" by (rule recorded_ok(1)[OF booked_ok[OF o bo] ro])
  have routes: "routes_inv ?m" "?d \<noteq> nd_destination ?m" "0 < nd_ROUTES ?m"
    using M p(2) n(2) by (simp_all add: node_ok_def transit_inv_def recorded_fields booked_fields U)
  note L = learned_alive[OF routes HOL.refl, of i "pk_hops p" "pk_transport p" now]
  have "fresh_content (nd_freshness ?m) ?d \<noteq> None"
    using recorded_ok(2)[OF booked_ok[OF o bo] ro] by (simp add: candidate_of_def)
  from relay_announce_ok[OF learn_route_ok[OF M this]] v have "node_ok c sha n'" unfolding n' by blast
  then have rb: "rebro_inv (nd_rebroadcasts n')" by (simp add: node_ok_def queues_ok_def)
  let ?row = "learned_row ?m ?d i (pk_hops p) (pk_transport p) now"
  have modes: "node_interface_mode ?m i = node_interface_mode n i" "nd_transport ?l = nd_transport n"
    by (simp_all add: node_interface_mode_def recorded_fields booked_fields U L(3))
  have row: "?row \<in> set (nd_routes n')" "routes_inv n'" "nd_transport n' = nd_transport n"
    using L modes relay_announce_fields[of sha ?l i p _ now] 
    by (simp_all add: n') (simp add: relay_announce_def transit_is_new_def transit_hash_is_new_def schedule_rebroadcast_def
        refuse_payload_def Let_def case_prod_unfold)
  have alive: "route_alive n' t ?row" using t row(3) modes(1) by (simp add: route_alive_def route_live_def learned_row_def)
  have "rt_destination ?row = ?d" by (simp add: learned_row_def)
  with next_hop_iff[OF row(2,1), of t] alive
  have hop: "next_hop n' ?d t = Some \<lparr>nh_interface = i, nh_via = pk_transport p, nh_hops = pk_hops p\<rparr>" by (simp add: learned_row_def)
  have live: "live_route_to n' t ?d"
    unfolding live_route_to_def using row(1) alive \<open>rt_destination ?row = ?d\<close> by blast
  have fr: "nd_freshness n' = table" "nd_book n' = book"
    by (simp_all add: n' relay_announce_fields L recorded_fields booked_fields)
  have fi: "fresh_inv (nd_freshness n)" "book_inv (nd_book n)" using n(1) by (simp_all add: node_ok_def rows_ok_def)
  note R = record_accepted_spec(2)[OF fi(1) r]
  have "0 < fc_blob_capacity (fr_config (nd_freshness n))" using fi(1) fresh_shapeD(5) by (simp add: fresh_inv_def)
  note A = accepted_blobs_ok[OF this, of "old_blobs (nd_freshness n) ?d" how "an_rand_hash a"]
  let ?bs = "accepted_blobs (fc_blob_capacity (fr_config (nd_freshness n))) (old_blobs (nd_freshness n) ?d) how (an_rand_hash a)"
  have "fresh_content table ?d = Some (timebase (an_rand_hash a), ?bs)"
    using R by (simp add: record_effect_def Let_def candidate_of_def candidate_timebase_def)
  moreover have "an_rand_hash a \<in> set ?bs" using A last_in_set[of ?bs] by simp
  ultimately have "evaluate (nd_freshness n') (candidate_of a) (live_route_to n' t (cand_destination (candidate_of a))) = Reject Replay"
    using live by (simp add: evaluate_content fr candidate_of_def candidate_timebase_def)
  then have "unmoved n' (fst (ingest_announce c' sha n' j q t acts2)) \<and> snd (ingest_announce c' sha n' j q t acts2) = acts2"
    by (rule rejected_unmoved[OF rb cand(2)])
  moreover have "map_option pe_identity (book_resolve book ?d) = Some (an_identity a) \<or> book_full (nd_book n)"
    using admit_spec[OF fi(2) b[unfolded ingest_at_def]] p(3)
    by (auto simp: admit_effect_def new_peer_def split: ingested.splits if_splits)
  ultimately show ?thesis using hop fr by simp
qed

text \<open>
  C23: A path request for the node is answered on the requesting interface alone, with an
  announce that decodes to the node's own identity, name and last announced blob, marked as a path
  response; and the same request, from anywhere, is then ignored.
\<close>

theorem path_request_answered:
  assumes n: "carrier_ok c sha n" "curve_laws c" "nd_announced_blob n = Some blob"
    and r: "pr_target request = nd_destination n" "unique_tag sha request = Some tag"
    and g: "snd (generations_insert (nd_path_request_tags n) tag now u64_max)"
      "0 < hg_N (nd_path_request_tags n)" "length (hg_current (nd_path_request_tags n)) \<le> hg_N (nd_path_request_tags n)"
    and t: "hg_started (nd_path_request_tags n) \<le> now" "now \<le> later" "later < u64_max"
    and room: "length (as_items acts) < as_N acts"
    and f: "on_path_request c sha n i request now acts = (n', acts')"
  shows "(\<exists>q. as_items acts' = as_items acts @ [ActSend i q] \<and> pk_context q = CTX_PATH_RESPONSE
      \<and> announce_decode c sha q = Inr \<lparr>an_identity = pi_public (nd_private n), an_destination = nd_destination n,
           an_name_hash = nd_name_hash n, an_rand_hash = blob, an_ratchet = None, an_app_data = nd_app_data n\<rparr>)
    \<and> snd (on_path_request c sha n' j request later acts2) = acts2"
proof -
  let ?g = "nd_path_request_tags n"
  obtain g' where g': "generations_insert ?g tag now u64_max = (g', True)"
    using g(1) by (cases "generations_insert ?g tag now u64_max") auto
  let ?n = "n\<lparr>nd_path_request_tags := g'\<rparr>"
  have "carrier_ok c sha ?n" using n(1) by simp
  note own = try_announce_own[OF this, of blob]
  have a: "own_announce c sha ?n blob None = own_announce c sha n blob None" by (simp add: own_announce_def)
  let ?q = "(own_announce c sha n blob None)\<lparr>pk_context := CTX_PATH_RESPONSE\<rparr>"
  have f': "n' = ?n" "as_items acts' = as_items acts @ [ActSend i ?q]"
    using f r n(3) own room by (auto simp: on_path_request_def g' a push_action_def Let_def)
  obtain secret where s: "length secret = IDENTITY_LEN" "nd_private n = from_secret_bytes c sha secret"
    "nd_destination n = destination_hash sha (nd_name_hash n) (nd_identity n)"
    using n(1) by (auto simp: carrier_ok_def)
  let ?b = "announce_build c sha (nd_private n) (nd_name_hash n) blob None (nd_app_data n)"
  have q: "?q = ?b\<lparr>pk_hops := pk_hops ?b, pk_header_type := pk_header_type ?b, pk_transport := pk_transport ?b,
      pk_propagation := pk_propagation ?b, pk_context := CTX_PATH_RESPONSE, pk_ifac := pk_ifac ?b\<rparr>"
    by (simp add: own_announce_def)
  have "announce_decode c sha ?q = Inr \<lparr>an_identity = pi_public (nd_private n), an_destination = nd_destination n,
           an_name_hash = nd_name_hash n, an_rand_hash = blob, an_ratchet = None, an_app_data = nd_app_data n\<rparr>"
    unfolding q s(3) by (rule build_decodes[OF n(2) s(1,2)]) simp
  with f' have ans: "\<exists>q. as_items acts' = as_items acts @ [ActSend i q] \<and> pk_context q = CTX_PATH_RESPONSE
      \<and> announce_decode c sha q = Inr \<lparr>an_identity = pi_public (nd_private n), an_destination = nd_destination n,
           an_name_hash = nd_name_hash n, an_rand_hash = blob, an_ratchet = None, an_app_data = nd_app_data n\<rparr>"
    by (intro exI[of _ ?q]) simp
  have kept: "kept_since u64_max g' tag now 0"
    using generations_recorded[OF g' t(1) g(2) _ g(3)] by (simp add: u64_max_def)
  obtain g2 fresh where g2: "generations_insert g' tag later u64_max = (g2, fresh)" by fastforce
  have "hg_started g' \<le> later" "0 < hg_N g'" using insert_N[OF g'] t g(2) by auto
  with kept_insert(2)[OF kept _ t(2) _ t(3) _ g2] t have "\<not> fresh" by simp
  then have "snd (on_path_request c sha n' j request later acts2) = acts2"
    using r(2) g2 by (simp add: f'(1) on_path_request_def Let_def)
  with ans show ?thesis by blast
qed

section \<open>Examples\<close>

definition node_sha :: sha256 where
  "node_sha bs = push_bit 128 (of_nat (unat (bs ! 9)))"

lemma node_digest: "address_of node_sha bs = AddressHash (of_nat (unat (bs ! 9)))"
proof -
  have "unat (push_bit 128 (of_nat k) :: 256 word) = k * 2 ^ 128" if "k < 256" for k
    using that by (simp add: push_bit_eq_mult unat_word_ariths unat_of_nat)
  from this[OF u8_less[of "bs ! 9"]] have "unat (push_bit 128 (of_nat (unat (bs ! 9))) :: 256 word) = unat (bs ! 9) * 2 ^ 128" .
  then have "take 16 (to_be 32 (node_sha bs)) = nat_be 16 (unat (bs ! 9))"
    using take_nat_be[of 16 16 "unat (bs ! 9) * 2 ^ 128"] by (simp add: to_be_def node_sha_def)
  moreover have "of_be (nat_be 16 (unat (bs ! 9))) = (of_nat (unat (bs ! 9)) :: 128 word)"
    using u8_less[of "bs ! 9"] by (simp add: of_be_def be_nat_nat_be)
  ultimately show ?thesis by (simp add: address_of_def full_hash_def HASH_LEN_def ADDRESS_HASH_LEN_def)
qed

definition relay_node :: node where
  "relay_node = (node_new node_sha u64_max 4 2 (from_secret_bytes sample_curves node_sha (replicate 64 1)) (NameHash 3))
     \<lparr>nd_transport := config_transit\<rparr>"

lemma relay_node_ok: "node_ok sample_curves node_sha relay_node"
proof -
  have "node_ok sample_curves node_sha (node_new node_sha u64_max 4 2 (from_secret_bytes sample_curves node_sha (replicate 64 1)) (NameHash 3))"
    by (rule node_new_ok) (simp_all add: key_lens u64_max_def)
  from set_transport_ok[OF this, of config_transit] show ?thesis
    by (simp add: relay_node_def set_transport_config_def config_transit_def DEFAULT_TRANSPORT_MAX_HOPS_def)
qed

lemma relay_node_fields: "nd_bridges relay_node = []" "nd_reverse relay_node = []" "nd_routes relay_node = []"
  "nd_transit_filter relay_node = generations_new 32" "nd_transport relay_node = config_transit" "nd_ROUTES relay_node = 2"
  "nd_logical_mtu relay_node = 255" "nd_announce_caps relay_node = []" "nd_rebroadcasts relay_node = rebroadcasts_new 8"
  "nd_book relay_node = with_max_peers 4" "nd_last_announce relay_node = None" "nd_limits relay_node = payload_limits_default u64_max"
  "nd_first_hop_airtime relay_node = []" "nd_interface_modes relay_node = []" "nd_name_hash relay_node = NameHash 3"
  "nd_private relay_node = from_secret_bytes sample_curves node_sha (replicate 64 1)" "nd_path_request_tags relay_node = generations_new 8"
  by (simp_all add: relay_node_def node_new_def LINK_MTU_def TRANSPORT_DEDUP_HASHES_def NODE_PATH_REQUEST_TAGS_def REBROADCAST_SLOTS_def)

definition waking_events :: "node_event list" where
  "waking_events = [SetTransport config_transit, Beat 5 1 (Some (AnnounceBlob 7))]"

lemma empty_sweep: "sweep P [] k = ([], k)"
  by (simp add: sweep.simps position_None[THEN iffD2])

lemma empty_drain: "nd_announce_caps n = [] \<Longrightarrow> rs_entries (nd_rebroadcasts n) = [] \<Longrightarrow> poll_rebroadcasts n now acts = (n, acts)"
  by (cases n) (simp add: poll_rebroadcasts_def drain_rebroadcasts.simps pop_due_def min_index_None[THEN iffD2] Let_def)

lemma waking_run: "snd (node_run sample_curves node_sha 4
    (node_new node_sha u64_max 4 2 (from_secret_bytes sample_curves node_sha (replicate 64 1)) (NameHash 3)) waking_events)
  = [ActSend 1 (own_announce sample_curves node_sha relay_node (AnnounceBlob 7) None)]"
proof -
  let ?n = "node_new node_sha u64_max 4 2 (from_secret_bytes sample_curves node_sha (replicate 64 1)) (NameHash 3)"
  have s: "set_transport_config ?n config_transit = relay_node" by (simp add: set_transport_config_def relay_node_def)
  let ?e = "expire_transport_state relay_node 5"
  have E: "nd_last_announce ?e = None" "own_announce sample_curves node_sha ?e (AnnounceBlob 7) None
      = own_announce sample_curves node_sha relay_node (AnnounceBlob 7) None" "nd_announce_caps ?e = []" "rs_entries (nd_rebroadcasts ?e) = []"
    by (simp_all add: expire_transport_state_def expire_routes_def Let_def relay_node_fields empty_sweep own_announce_def rebroadcasts_new_def)
  have "node_ok sample_curves node_sha ?e" by (rule expire_state_ok[OF relay_node_ok])
  then have "carrier_ok sample_curves node_sha (?e\<lparr>nd_last_announce := Some 5\<rparr>)" by (simp add: node_ok_def)
  note own = try_announce_own[OF this, of "AnnounceBlob 7"]
  have a: "own_announce sample_curves node_sha (?e\<lparr>nd_last_announce := Some 5\<rparr>) (AnnounceBlob 7) None
      = own_announce sample_curves node_sha relay_node (AnnounceBlob 7) None"
    using E(2) by (simp add: own_announce_def)
  show ?thesis
    by (simp add: waking_events_def s poll_transport_def poll_announce_def announce_due_def E(1) own a empty_drain E(3,4)
        push_action_def actions_new_def Let_def)
qed

theorem node_sends_fit_witness:
  "length (encode (own_announce sample_curves node_sha relay_node (AnnounceBlob 7) None)) \<le> 255"
proof -
  let ?n = "node_new node_sha u64_max 4 2 (from_secret_bytes sample_curves node_sha (replicate 64 1)) (NameHash 3)"
  obtain n out where r: "node_run sample_curves node_sha 4 ?n waking_events = (n, out)" by fastforce
  have "list_all fits_carrier out"
    by (rule node_sends_fit[OF sample_curves_laws _ _ _ _ r]) (simp_all add: key_lens u64_max_def waking_events_def config_transit_def DEFAULT_TRANSPORT_MAX_HOPS_def)
  moreover have "out = [ActSend 1 (own_announce sample_curves node_sha relay_node (AnnounceBlob 7) None)]"
    using waking_run by (simp add: r)
  ultimately show ?thesis by (simp add: fits_carrier_def LINK_MTU_def)
qed

theorem node_keeps_bounds_witness:
  "length (nd_bridges (fst (node_run sample_curves node_sha 4
    (node_new node_sha u64_max 4 2 (from_secret_bytes sample_curves node_sha (replicate 64 1)) (NameHash 3)) waking_events))) \<le> 2"
proof -
  let ?n = "node_new node_sha u64_max 4 2 (from_secret_bytes sample_curves node_sha (replicate 64 1)) (NameHash 3)"
  obtain n out where r: "node_run sample_curves node_sha 4 ?n waking_events = (n, out)" by fastforce
  have "length (replicate 64 (1 :: u8)) = IDENTITY_LEN" "4 < u64_max" "2 < u64_max" "list_all event_ok waking_events"
    by (simp_all add: key_lens u64_max_def waking_events_def config_transit_def DEFAULT_TRANSPORT_MAX_HOPS_def)
  from node_keeps_bounds[OF sample_curves_laws this r] show ?thesis by (simp add: r)
qed

text \<open>A relay with a request waiting for its proof, and the proof.\<close>

definition waiting_bridge :: link_bridge where
  "waiting_bridge = \<lparr>br_link_id = AddressHash 82, br_destination = AddressHash 5, br_from = 1, br_out = 3, br_seen = 200,
     br_proof_deadline = Some 6000\<rparr>"

definition waiting_node :: node where
  "waiting_node = relay_node\<lparr>nd_bridges := [waiting_bridge]\<rparr>"

lemma waiting_node_ok: "node_ok sample_curves node_sha waiting_node"
  using relay_node_ok by (simp add: waiting_node_def node_ok_def transit_inv_def bridges_ok_def relay_node_fields)

lemma waiting_opens: "heard_bridge 300 waiting_bridge \<in> set (nd_bridges (fst (node_run sample_curves node_sha 4 waiting_node [Hear 3 transit_proof 300])))"
proof -
  let ?e = "expire_transport_state waiting_node 300"
  have b: "nd_bridges ?e = [waiting_bridge]"
    by (simp add: expire_state_fields waiting_node_def sweep.simps position_None[THEN iffD2] bridge_lapsed_def waiting_bridge_def)
  have c: "core_of ?e = core_of waiting_node" by (rule expire_state_fields)
  note C = core_fields(4,6,7)[OF c]
  have f: "nd_transit_filter ?e = generations_new 32"
    by (simp add: expire_transport_state_def expire_routes_def Let_def case_prod_unfold waiting_node_def relay_node_fields)
  have "nd_reverse ?e = []" by (simp add: expire_state_fields waiting_node_def relay_node_fields)
  then have r: "forward_reverse_proof ?e 3 transit_proof (actions_new 4) = (?e, actions_new 4, False)"
    by (cases "\<not> tc_relay_packets (nd_transport ?e)") (simp_all add: forward_reverse_proof_def position_None[THEN iffD2])
  have fresh: "snd (transit_is_new node_sha ?e transit_proof 300)"
    by (simp add: transit_is_new_def transit_hash_is_new_def transit_proof_fields not_dedup f generations_insert_def generations_new_def
        turn_over_def TRANSPORT_DEDUP_TIMEOUT_def sat_mul_def u64_max_def)
  have l: "unat (255 :: u32) = 255" by simp
  have T: "nd_transport ?e = config_transit" "nd_logical_mtu ?e = 255" "book_resolve (nd_book ?e) (AddressHash 5) = None"
    unfolding C by (simp_all add: waiting_node_def relay_node_fields book_resolve_def with_max_peers_def)
  have "crosses sample_curves node_sha ?e 3 transit_proof 300 waiting_bridge"
    using fresh l by (simp add: crosses_def transit_proof_fields proof_signed_def T waiting_bridge_def config_transit_def
        DEFAULT_TRANSPORT_MAX_HOPS_def MAX_HOPS_def)
  moreover obtain n' acts' h where g: "forward_bridged_packet sample_curves node_sha ?e 3 transit_proof 300 (actions_new 4) = (n', acts', h)"
    by (rule prod_cases3)
  have ok: "bridges_inv ?e" using expire_state_ok[OF waiting_node_ok, of 300] by (simp add: node_ok_def transit_inv_def)
  have w: "waiting_bridge \<in> set (nd_bridges ?e)" "br_link_id waiting_bridge = pk_destination transit_proof"
    by (simp_all add: b waiting_bridge_def transit_proof_fields)
  have relay: "tc_relay_packets (nd_transport ?e)" by (simp add: T config_transit_def)
  note S = forward_bridged_spec[OF ok relay w g]
  ultimately have "heard_bridge 300 waiting_bridge \<in> set (nd_bridges n')" "h" by (simp_all add: room_def actions_new_def)
  moreover have "\<not> filtered_out waiting_node transit_proof" "parse_path_request node_sha transit_proof = None"
    "\<not> pk_ifac transit_proof" "encoded_len transit_proof \<le> u64_max" "pk_packet_type transit_proof = Proof"
    by (simp_all add: filtered_out_def transit_proof_def parse_path_request_def encoded_len_def HEADER_MIN_LEN_def u64_max_def)
  moreover have "nd_limits waiting_node = payload_limits_default u64_max" by (simp add: waiting_node_def relay_node_fields)
  ultimately show ?thesis
    by (simp add: ingest_transport_alt payload_limits_default_def dispatch_def after_reverse_def r after_carrying_def g Let_def)
qed

theorem open_link_was_proved_witness:
  "\<exists>k p now. k < length [Hear 3 transit_proof 300] \<and> [Hear 3 transit_proof 300] ! k = Hear 3 p now \<and> pk_destination p = AddressHash 82"
proof -
  have v: "list_all event_ok [Hear 3 transit_proof 300]"
    by (simp add: valid_packet_def transit_proof_def MAX_HOPS_def)
  have w: "list_all (\<lambda>b. br_proof_deadline b \<noteq> None) (nd_bridges waiting_node)" by (simp add: waiting_node_def waiting_bridge_def)
  have d: "br_proof_deadline (heard_bridge 300 waiting_bridge) = None" by (simp add: heard_bridge_def)
  have f: "br_out (heard_bridge 300 waiting_bridge) = 3" "br_link_id (heard_bridge 300 waiting_bridge) = AddressHash 82"
    by (simp_all add: heard_bridge_def waiting_bridge_def)
  from open_link_was_proved[OF waiting_node_ok sample_curves_laws v w waiting_opens d] f show ?thesis by metis
qed

text \<open>A relay with an announce due for its first sending.\<close>

definition due_packet :: packet where
  "due_packet = sample_packet\<lparr>pk_transport := Some (AddressHash 77)\<rparr>"

definition due_node :: node where
  "due_node = relay_node\<lparr>nd_rebroadcasts := fst (schedule (rebroadcasts_new 8)
     \<lparr>rb_destination = pk_destination due_packet, rb_packet = due_packet, rb_interface = 1, rb_emitted = 5, rb_answer = None\<rparr> 0 10)\<rparr>"

lemma due_poll: "as_items (snd (poll_transport sample_curves node_sha 4 due_node 20 1 None)) = [ActSend 1 due_packet]"
proof -
  let ?e = "expire_transport_state due_node 20"
  let ?r = "\<lparr>rb_destination = pk_destination due_packet, rb_packet = due_packet, rb_interface = 1, rb_emitted = 5, rb_answer = None\<rparr>"
  let ?t = "\<lambda>due sent. \<lparr>rs_entries = [\<lparr>en_rebroadcast = ?r, en_due = due, en_sent = sent, en_heard = 0\<rparr>], rs_held = [], rs_capacity = 8\<rparr>"
  have E: "nd_rebroadcasts ?e = ?t 10 0" "nd_announce_caps ?e = []" "nd_routes ?e = []" "nd_interface_modes ?e = []"
    "nd_first_hop_airtime ?e = []"
    by (simp_all add: expire_transport_state_def expire_routes_def Let_def due_node_def relay_node_fields empty_sweep rebro_eval
        schedule_def)
  have p1: "pop_due (?t 10 0) 20 = (?t 5520 1, Some ?r)" by (simp add: rebro_eval Let_def)
  have p2: "pop_due (?t 5520 1) 20 = (?t 5520 1, None)" by (simp add: rebro_eval Let_def)
  have "offer_rebroadcast (?e\<lparr>nd_rebroadcasts := ?t 5520 1\<rparr>) ?r 20 (actions_new 4) = send_rebroadcast (?e\<lparr>nd_rebroadcasts := ?t 5520 1\<rparr>) 1 due_packet (actions_new 4)"
    by (simp add: offer_rebroadcast_def next_hop_def E node_interface_mode_def get_setting_def first_hop_airtime_def announce_permitted_def Let_def)
  then have o: "fst (offer_rebroadcast (?e\<lparr>nd_rebroadcasts := ?t 5520 1\<rparr>) ?r 20 (actions_new 4))
      = counted (n_forwarded_announces_update inc) (?e\<lparr>nd_rebroadcasts := ?t 5520 1\<rparr>)"
    "as_items (snd (offer_rebroadcast (?e\<lparr>nd_rebroadcasts := ?t 5520 1\<rparr>) ?r 20 (actions_new 4))) = [ActSend 1 due_packet]"
    "as_N (snd (offer_rebroadcast (?e\<lparr>nd_rebroadcasts := ?t 5520 1\<rparr>) ?r 20 (actions_new 4))) = 4"
    by (simp_all add: send_rebroadcast_def push_action_def actions_new_def)
  have a: "as_items (actions_new 4) = []" "as_N (actions_new 4) = 4" by (simp_all add: actions_new_def)
  have "as_items (snd (drain_rebroadcasts 20 ?e (actions_new 4))) = [ActSend 1 due_packet]"
    by (subst drain_rebroadcasts.simps, subst drain_rebroadcasts.simps) (simp add: E p1 p2[simplified] o[simplified] a Let_def)
  then show ?thesis
    by (simp add: poll_transport_def poll_announce_def poll_rebroadcasts_def E case_prod_unfold Let_def)
qed

theorem node_poll_settles_witness:
  "case next_rebroadcast (fst (poll_transport sample_curves node_sha 4 due_node 20 1 None)) of None \<Rightarrow> True | Some t \<Rightarrow> 20 < t"
  by (rule node_poll_settles[where N = 4 and acts = "snd (poll_transport sample_curves node_sha 4 due_node 20 1 None)"
        and c = sample_curves and sha = node_sha and n = due_node and i = 1 and blob = None]) (simp_all add: due_poll)

section \<open>Announces heard, by example\<close>

definition far_identity :: private_identity where
  "far_identity = from_secret_bytes sample_curves node_sha (replicate 64 7)"

definition far_announce :: packet where
  "far_announce = announce_build sample_curves node_sha far_identity (NameHash 4) (AnnounceBlob 9) None [1, 2]"

definition far_heard :: announce where
  "far_heard = \<lparr>an_identity = pi_public far_identity, an_destination = destination_hash node_sha (NameHash 4) (id_hash (pi_public far_identity)),
     an_name_hash = NameHash 4, an_rand_hash = AnnounceBlob 9, an_ratchet = None, an_app_data = [1, 2]\<rparr>"

lemma far_decodes: "announce_decode sample_curves node_sha far_announce = Inr far_heard"
proof -
  have eq: "far_announce = (announce_build sample_curves node_sha far_identity (NameHash 4) (AnnounceBlob 9) None [1, 2])\<lparr>pk_hops := 0,
     pk_header_type := Type1, pk_transport := None, pk_propagation := Broadcast, pk_context := 0, pk_ifac := False\<rparr>"
    by (simp add: far_announce_def announce_build_def Let_def)
  show ?thesis unfolding eq far_heard_def
    by (rule build_decodes[OF sample_curves_laws, where secret = "replicate 64 7"]) (simp_all add: far_identity_def key_lens)
qed

lemma nat_be_last: "nat_be (Suc n) v ! n = of_nat v"
proof (induction n)
  case (Suc n)
  have "nat_be (Suc (Suc n)) v ! Suc n = nat_be (Suc n) v ! n" by (subst nat_be.simps(2)) simp
  with Suc show ?case by simp
qed simp

lemma name_last: "name_slice (NameHash w) ! 9 = of_nat (unat w)"
  using nat_be_last[of 9 "unat w"] by (simp add: name_slice_def to_be_def NAME_HASH_LEN_def)

lemma name_byte: "destination_hash node_sha (NameHash w) h = AddressHash (of_nat (unat (of_nat (unat w) :: u8)))"
  by (simp add: destination_hash_def node_digest nth_append name_last)

lemma far_destination: "an_destination far_heard = AddressHash 4" "nd_destination relay_node = AddressHash 3"
  by (simp_all add: far_heard_def relay_node_def node_new_def name_byte)

definition impostor :: peer where
  "impostor = new_peer (far_heard\<lparr>an_identity := \<lparr>id_x25519 = [1], id_ed25519 = [2], id_hash = AddressHash 1\<rparr>\<rparr>) None"

theorem forged_announce_harmless_witness:
  "nd_routes (fst (ingest_announce sample_curves node_sha (relay_node\<lparr>nd_book := (with_max_peers 4)\<lparr>ab_peers := [(AddressHash 4, impostor)]\<rparr>\<rparr>)
     1 far_announce 50 (actions_new 4))) = []"
proof -
  let ?n = "relay_node\<lparr>nd_book := (with_max_peers 4)\<lparr>ab_peers := [(AddressHash 4, impostor)]\<rparr>\<rparr>"
  obtain n' acts' where f: "ingest_announce sample_curves node_sha ?n 1 far_announce 50 (actions_new 4) = (n', acts')" by fastforce
  have "[1] \<noteq> replicate 32 (7 :: u8)" by (rule notI, drule arg_cong[where f = length]) simp
  then have k: "key_conflicts (nd_book ?n) far_heard"
    by (simp add: key_conflicts_def far_destination impostor_def new_peer_def)
      (simp add: far_heard_def far_identity_def from_secret_bytes_def identity_new_def sample_curves_def key_lens Let_def)
  have "rebro_inv (nd_rebroadcasts ?n)" by (simp add: relay_node_fields rebro_inv_new)
  from forged_announce_harmless[OF this f] k show ?thesis by (simp add: far_decodes f relay_node_fields)
qed

theorem announce_learned_once_witness:
  "next_hop (fst (ingest_announce sample_curves node_sha relay_node 1 far_announce 50 (actions_new 4))) (AddressHash 4) 60
     = Some \<lparr>nh_interface = 1, nh_via = None, nh_hops = 0\<rparr>"
proof -
  obtain n' acts' where f: "ingest_announce sample_curves node_sha relay_node 1 far_announce 50 (actions_new 4) = (n', acts')" by fastforce
  have "length (pk_payload far_announce) \<noteq> 0" by (simp add: far_announce_def announce_build_def Let_def)
  then have P: "valid_packet far_announce" "\<not> pk_ifac far_announce" "pk_transport far_announce = None" "pk_hops far_announce = 0"
    by (simp_all add: far_announce_def announce_build_def Let_def valid_packet_def MAX_HOPS_def)
  have "fr_rows (nd_freshness relay_node) = []"
    by (simp add: relay_node_def node_new_def freshness_new_def freshness_validate_def policy_for_node_def policy_for_peers_def)
  then have e: "is_accepted (evaluate (nd_freshness relay_node) (candidate_of far_heard) (live_route_to relay_node 50 (an_destination far_heard)))"
    by (simp add: evaluate_def is_accepted_def)
  have k: "\<not> key_conflicts (nd_book relay_node) far_heard" by (simp add: key_conflicts_def relay_node_fields with_max_peers_def)
  have d: "an_destination far_heard \<noteq> nd_destination relay_node" by (simp add: far_destination)
  have t: "60 - 50 < mode_route_ttl (node_interface_mode relay_node 1) (tc_route_ttl (nd_transport relay_node))"
    by (simp add: relay_node_fields node_interface_mode_def get_setting_def mode_route_ttl_def config_transit_def DEFAULT_ROUTE_TTL_def)
  have r: "0 < nd_ROUTES relay_node" by (simp add: relay_node_fields)
  from announce_learned_once[OF relay_node_ok r P(1,2) far_decodes d k e f t far_decodes] P(3,4) far_destination show ?thesis
    by (simp add: f)
qed

definition asking :: path_req where
  "asking = \<lparr>pr_target = AddressHash 3, pr_requestor = None, pr_tag = replicate 16 1, pr_tag_len = 16\<rparr>"

theorem path_request_answered_witness:
  "\<exists>q. as_items (snd (on_path_request sample_curves node_sha (relay_node\<lparr>nd_announced_blob := Some (AnnounceBlob 9)\<rparr>) 2 asking 50 (actions_new 4)))
     = [ActSend 2 q] \<and> pk_context q = CTX_PATH_RESPONSE"
proof -
  let ?n = "relay_node\<lparr>nd_announced_blob := Some (AnnounceBlob 9)\<rparr>"
  obtain n' acts' where f: "on_path_request sample_curves node_sha ?n 2 asking 50 (actions_new 4) = (n', acts')" by fastforce
  have "carrier_ok sample_curves node_sha relay_node" using relay_node_ok by (simp add: node_ok_def)
  then have n: "carrier_ok sample_curves node_sha ?n" "nd_announced_blob ?n = Some (AnnounceBlob 9)" by simp_all
  obtain tag where tag: "unique_tag node_sha asking = Some tag" by (simp add: unique_tag_def request_tag_def asking_def)
  have g: "snd (generations_insert (nd_path_request_tags ?n) tag 50 u64_max)" "0 < hg_N (nd_path_request_tags ?n)"
    "length (hg_current (nd_path_request_tags ?n)) \<le> hg_N (nd_path_request_tags ?n)" "hg_started (nd_path_request_tags ?n) \<le> 50"
    by (simp_all add: relay_node_fields generations_new_def generations_insert_def turn_over_def Let_def)
  have t: "pr_target asking = nd_destination ?n" by (simp add: asking_def far_destination)
  have l: "(50 :: nat) \<le> 60" "60 < u64_max" "length (as_items (actions_new 4)) < as_N (actions_new 4)"
    by (simp_all add: u64_max_def actions_new_def)
  have "as_items (actions_new 4) = []" by (simp add: actions_new_def)
  with path_request_answered[OF n(1) sample_curves_laws n(2) t tag g l f] show ?thesis unfolding f by auto
qed

end
