(* ===== verification/Token.thy ===== *)
theory Token
  imports Identity
begin

text \<open>
  The encrypted token (\<open>token.rs\<close>). HKDF, HMAC and AES-256-CBC with PKCS7 padding come from the
  RustCrypto crates and are the parameter \<open>ciphers\<close>; \<open>cipher_laws\<close> and \<open>dh_laws\<close> say what is relied on.
  The keys are kept as bytes where the code keeps them pre-keyed.
\<close>

definition IV_LEN :: nat where "IV_LEN = 16"
definition MAC_LEN :: nat where "MAC_LEN = 32"
definition TOKEN_OVERHEAD :: nat where "TOKEN_OVERHEAD = IV_LEN + MAC_LEN"
definition DERIVED_KEY_LEN :: nat where "DERIVED_KEY_LEN = 64"

lemmas token_lens = IV_LEN_def MAC_LEN_def TOKEN_OVERHEAD_def DERIVED_KEY_LEN_def

text \<open>Salt and secret to key material; key and message to tag; key, IV and text either way.\<close>

record ciphers =
  cp_hkdf :: "bytes \<Rightarrow> bytes \<Rightarrow> bytes"
  cp_hmac :: "bytes \<Rightarrow> bytes \<Rightarrow> bytes"
  cp_encrypt :: "bytes \<Rightarrow> bytes \<Rightarrow> bytes \<Rightarrow> bytes"
  cp_decrypt :: "bytes \<Rightarrow> bytes \<Rightarrow> bytes \<Rightarrow> bytes option"

definition cipher_laws :: "ciphers \<Rightarrow> bool" where
  "cipher_laws k \<longleftrightarrow>
     (\<forall>key iv text. length iv = IV_LEN \<longrightarrow> cp_decrypt k key iv (cp_encrypt k key iv text) = Some text
        \<and> length (cp_encrypt k key iv text) = (length text div 16 + 1) * 16)
     \<and> (\<forall>key msg. length (cp_hmac k key msg) = MAC_LEN)"

definition dh_laws :: "curves \<Rightarrow> bool" where
  "dh_laws c \<longleftrightarrow> (\<forall>a b. length a = KEY_LEN \<longrightarrow> length b = KEY_LEN \<longrightarrow>
     length (x25519_public c a) = KEY_LEN \<and> x25519_dh c a (x25519_public c b) = x25519_dh c b (x25519_public c a))"

record derived_keys =
  dk_mac :: bytes
  dk_aes :: bytes

definition derive_keys :: "ciphers \<Rightarrow> bytes \<Rightarrow> address_hash \<Rightarrow> derived_keys" where
  "derive_keys k shared salt =
    (let okm = cp_hkdf k (address_slice salt) shared in \<lparr>dk_mac = take 32 okm, dk_aes = drop 32 okm\<rparr>)"

section \<open>Tokens under a key pair\<close>

text \<open>The buffer holds the IV and the plaintext.\<close>

definition seal_in_place :: "ciphers \<Rightarrow> derived_keys \<Rightarrow> bytes \<Rightarrow> bytes \<Rightarrow> bytes" where
  "seal_in_place k keys buf iv =
    (let body = take IV_LEN buf @ cp_encrypt k (dk_aes keys) iv (drop IV_LEN buf)
     in body @ cp_hmac k (dk_mac keys) body)"

definition token_encrypt :: "ciphers \<Rightarrow> derived_keys \<Rightarrow> bytes \<Rightarrow> bytes \<Rightarrow> bytes" where
  "token_encrypt k keys plaintext iv = seal_in_place k keys (iv @ plaintext) iv"

definition encrypt_owned :: "ciphers \<Rightarrow> derived_keys \<Rightarrow> bytes \<Rightarrow> bytes \<Rightarrow> bytes" where
  "encrypt_owned k keys plaintext iv = seal_in_place k keys (iv @ plaintext) iv"

definition authenticate :: "ciphers \<Rightarrow> derived_keys \<Rightarrow> bytes \<Rightarrow> error + bytes" where
  "authenticate k keys token =
    (if length token \<le> TOKEN_OVERHEAD then Inl Truncated
     else
       let body = take (length token - MAC_LEN) token; tag = drop (length token - MAC_LEN) token
       in if cp_hmac k (dk_mac keys) body \<noteq> tag then Inl BadMac
          else
            let ciphertext = drop IV_LEN body
            in if ciphertext = [] \<or> length ciphertext mod 16 \<noteq> 0 then Inl BadPadding else Inr ciphertext)"

definition decrypt_block :: "ciphers \<Rightarrow> derived_keys \<Rightarrow> bytes \<Rightarrow> bytes \<Rightarrow> error + bytes" where
  "decrypt_block k keys iv buf = ok_or (cp_decrypt k (dk_aes keys) iv buf) BadPadding"

definition token_decrypt :: "ciphers \<Rightarrow> derived_keys \<Rightarrow> bytes \<Rightarrow> error + bytes" where
  "token_decrypt k keys token =
    and_then (authenticate k keys token) (\<lambda>ciphertext. decrypt_block k keys (take IV_LEN token) ciphertext)"

definition decrypt_owned :: "ciphers \<Rightarrow> derived_keys \<Rightarrow> bytes \<Rightarrow> error + bytes" where
  "decrypt_owned k keys token =
    and_then (authenticate k keys token) (\<lambda>ciphertext.
      let stop = IV_LEN + length ciphertext; iv = take IV_LEN (take stop token); body = drop IV_LEN (take stop token)
      in decrypt_block k keys iv body)"

section \<open>Tokens to an identity\<close>

definition decrypt_to_identity :: "ciphers \<Rightarrow> curves \<Rightarrow> private_identity \<Rightarrow> bytes \<Rightarrow> error + bytes" where
  "decrypt_to_identity k c recipient token =
    (if length token < KEY_LEN + TOKEN_OVERHEAD then Inl Truncated
     else
       let shared = diffie_hellman c recipient (take KEY_LEN token);
           keys = derive_keys k shared (id_hash (pi_public recipient))
       in token_decrypt k keys (drop KEY_LEN token))"

text \<open>The loop over the retained secrets; a failed tag tries the next.\<close>

fun trial_loop ::
  "ciphers \<Rightarrow> curves \<Rightarrow> address_hash \<Rightarrow> nat \<Rightarrow> bytes list \<Rightarrow> bytes \<Rightarrow> error + bytes \<times> nat \<times> bytes" where
  "trial_loop k c salt index [] token = Inl BadMac"
| "trial_loop k c salt index (retained # rest) token =
     (case token_decrypt k (derive_keys k (x25519_dh c retained (take KEY_LEN token)) salt) (drop KEY_LEN token) of
        Inr plaintext \<Rightarrow> Inr (plaintext, index, retained)
      | Inl e \<Rightarrow> if e = BadMac then trial_loop k c salt (index + 1) rest token else Inl e)"

definition trial_decrypt ::
  "ciphers \<Rightarrow> curves \<Rightarrow> private_identity \<Rightarrow> bytes list \<Rightarrow> bytes \<Rightarrow> error + bytes \<times> nat \<times> bytes" where
  "trial_decrypt k c recipient retained_secrets token =
    (if length token < KEY_LEN + TOKEN_OVERHEAD then Inl Truncated
     else trial_loop k c (id_hash (pi_public recipient)) 0 retained_secrets token)"

definition decrypt_with_ratchets ::
  "ciphers \<Rightarrow> curves \<Rightarrow> sha256 \<Rightarrow> private_identity \<Rightarrow> bytes list \<Rightarrow> bytes \<Rightarrow> error + bytes \<times> name_hash" where
  "decrypt_with_ratchets k c sha recipient retained_secrets token =
    and_then (trial_decrypt k c recipient retained_secrets token) (\<lambda>(plaintext, _, secret).
      Inr (plaintext, name_of sha (x25519_public c secret)))"

definition encrypt_to_identity ::
  "ciphers \<Rightarrow> curves \<Rightarrow> identity \<Rightarrow> bytes \<Rightarrow> bytes \<Rightarrow> bytes \<Rightarrow> bytes" where
  "encrypt_to_identity k c recipient ephemeral_secret iv plaintext =
    (let keys = derive_keys k (x25519_dh c ephemeral_secret (id_x25519 recipient)) (id_hash recipient)
     in x25519_public c ephemeral_secret @ token_encrypt k keys plaintext iv)"

definition encrypt_to_ratchet ::
  "ciphers \<Rightarrow> curves \<Rightarrow> identity \<Rightarrow> bytes \<Rightarrow> bytes \<Rightarrow> bytes \<Rightarrow> bytes \<Rightarrow> bytes" where
  "encrypt_to_ratchet k c recipient ratchet_public ephemeral_secret iv plaintext =
    (let keys = derive_keys k (x25519_dh c ephemeral_secret ratchet_public) (id_hash recipient)
     in x25519_public c ephemeral_secret @ token_encrypt k keys plaintext iv)"

section \<open>Opening what was sealed\<close>

lemma token_shape:
  assumes "cipher_laws k" "length iv = IV_LEN"
  shows "token_encrypt k keys p iv
    = iv @ cp_encrypt k (dk_aes keys) iv p @ cp_hmac k (dk_mac keys) (iv @ cp_encrypt k (dk_aes keys) iv p)"
    "length (token_encrypt k keys p iv) = TOKEN_OVERHEAD + (length p div 16 + 1) * 16"
  using assms by (simp_all add: token_encrypt_def seal_in_place_def cipher_laws_def token_lens Let_def)

lemma authenticate_sealed:
  assumes "cipher_laws k" "length iv = IV_LEN"
  shows "authenticate k keys (token_encrypt k keys p iv) = Inr (cp_encrypt k (dk_aes keys) iv p)"
proof -
  let ?ct = "cp_encrypt k (dk_aes keys) iv p"
  have l: "length ?ct = (length p div 16 + 1) * 16" "length (cp_hmac k (dk_mac keys) (iv @ ?ct)) = MAC_LEN"
    using assms by (simp_all add: cipher_laws_def)
  have n: "length (token_encrypt k keys p iv) - MAC_LEN = length (iv @ ?ct)" "?ct \<noteq> []"
    using l assms(2) by (auto simp: token_shape[OF assms] token_lens)
  show ?thesis
    using l n assms(2) by (simp add: authenticate_def Let_def token_shape(1)[OF assms]) (simp add: token_lens)
qed

lemma token_opens:
  assumes "cipher_laws k" "length iv = IV_LEN"
  shows "token_decrypt k keys (token_encrypt k keys p iv) = Inr p" "decrypt_owned k keys (encrypt_owned k keys p iv) = Inr p"
proof -
  have d: "cp_decrypt k (dk_aes keys) iv (cp_encrypt k (dk_aes keys) iv p) = Some p" using assms by (simp add: cipher_laws_def)
  note A = authenticate_sealed[OF assms, of keys p]
  show t: "token_decrypt k keys (token_encrypt k keys p iv) = Inr p"
    using d A by (simp add: token_decrypt_def decrypt_block_def) (simp add: token_shape(1)[OF assms] assms(2))
  show "decrypt_owned k keys (encrypt_owned k keys p iv) = Inr p"
    using d A unfolding encrypt_owned_def token_encrypt_def[symmetric]
    by (simp add: decrypt_owned_def decrypt_block_def Let_def) (simp add: token_shape(1)[OF assms] assms(2))
qed

lemma other_keys:
  assumes "cipher_laws k" "length iv = IV_LEN"
    and "cp_hmac k (dk_mac keys') (iv @ cp_encrypt k (dk_aes keys) iv p) \<noteq> cp_hmac k (dk_mac keys) (iv @ cp_encrypt k (dk_aes keys) iv p)"
  shows "token_decrypt k keys' (token_encrypt k keys p iv) = Inl BadMac"
proof -
  let ?ct = "cp_encrypt k (dk_aes keys) iv p"
  have l: "length ?ct = (length p div 16 + 1) * 16" "length (cp_hmac k (dk_mac keys) (iv @ ?ct)) = MAC_LEN"
    using assms(1,2) by (simp_all add: cipher_laws_def)
  have n: "length (token_encrypt k keys p iv) - MAC_LEN = length (iv @ ?ct)" "?ct \<noteq> []"
    using l assms(2) by (auto simp: token_shape[OF assms(1,2)] token_lens)
  show ?thesis
    using l n assms(2,3) by (simp add: token_decrypt_def authenticate_def Let_def token_shape(1)[OF assms(1,2)]) (simp add: token_lens)
qed

text \<open>
  C14: A token to an identity opens to its plaintext with the identity's secret, and one to a ratchet
  with the first retained secret that authenticates it, which names the ratchet it was sent to as
  long as no other retained secret's tag matches.
\<close>

theorem identity_token_opens:
  assumes k: "cipher_laws k" "dh_laws c" and l: "length iv = IV_LEN" "length eph = KEY_LEN" "length secret = IDENTITY_LEN"
    and me: "me = from_secret_bytes c sha secret"
    and r: "length ratchet = KEY_LEN" "retained = older @ ratchet # newer"
    and t: "token = encrypt_to_ratchet k c (pi_public me) (x25519_public c ratchet) eph iv plaintext"
    and others: "list_all (\<lambda>s. token_decrypt k (derive_keys k (x25519_dh c s (x25519_public c eph)) (id_hash (pi_public me)))
        (drop KEY_LEN token) = Inl BadMac) older"
  shows "decrypt_to_identity k c me (encrypt_to_identity k c (pi_public me) eph iv plaintext) = Inr plaintext
    \<and> decrypt_with_ratchets k c sha me retained token = Inr (plaintext, name_of sha (x25519_public c ratchet))"
proof -
  have pub: "length (x25519_public c eph) = KEY_LEN" using k(2) l(2) by (auto simp: dh_laws_def)
  have x: "length (pi_x25519 me) = KEY_LEN" "id_x25519 (pi_public me) = x25519_public c (pi_x25519 me)"
    using l(3) by (simp_all add: me from_secret_bytes_def identity_new_def Let_def key_lens)
  have sym: "x25519_dh c a (x25519_public c eph) = x25519_dh c eph (x25519_public c a)" if "length a = KEY_LEN" for a
    using k(2) l(2) that by (auto simp: dh_laws_def)
  have long: "KEY_LEN + TOKEN_OVERHEAD \<le> length (x25519_public c eph @ token_encrypt k keys plaintext iv)" for keys
    using pub token_shape(2)[OF k(1) l(1)] by simp
  have own: "decrypt_to_identity k c me (encrypt_to_identity k c (pi_public me) eph iv plaintext) = Inr plaintext"
    using long pub token_opens(1)[OF k(1) l(1)] sym[OF x(1)] token_shape(2)[OF k(1) l(1)]
    by (simp add: decrypt_to_identity_def encrypt_to_identity_def x(2) diffie_hellman_def Let_def not_less)
  have head: "take KEY_LEN token = x25519_public c eph" using pub by (simp add: t encrypt_to_ratchet_def Let_def)
  have hit: "token_decrypt k (derive_keys k (x25519_dh c ratchet (x25519_public c eph)) (id_hash (pi_public me))) (drop KEY_LEN token)
      = Inr plaintext"
    using pub token_opens(1)[OF k(1) l(1)] sym[OF r(1)] by (simp add: t encrypt_to_ratchet_def Let_def)
  have "trial_loop k c (id_hash (pi_public me)) i (older @ ratchet # newer) token = Inr (plaintext, i + length older, ratchet)" for i
    using others hit by (induction older arbitrary: i) (simp_all add: head)
  moreover have "\<not> length token < KEY_LEN + TOKEN_OVERHEAD" using long by (simp add: t encrypt_to_ratchet_def Let_def not_less)
  ultimately show ?thesis using own by (simp add: decrypt_with_ratchets_def trial_decrypt_def r(2))
qed

text \<open>Ciphers that satisfy the laws, for the examples: the text padded with its length, tagged by its first bytes.\<close>

definition sample_ciphers :: ciphers where
  "sample_ciphers = \<lparr>cp_hkdf = (\<lambda>salt shared. take 64 (shared @ salt @ replicate 64 0)),
     cp_hmac = (\<lambda>key msg. take MAC_LEN (map2 (+) (key @ replicate 32 0) (msg @ replicate 32 0) @ replicate MAC_LEN 0)),
     cp_encrypt = (\<lambda>key iv text. text @ replicate (16 - length text mod 16) (of_nat (16 - length text mod 16))),
     cp_decrypt = (\<lambda>key iv ct. if ct = [] then None else Some (take (length ct - unat (last ct)) ct))\<rparr>"

definition sample_dh_curves :: curves where
  "sample_dh_curves = sample_curves\<lparr>x25519_dh := (\<lambda>s p. map2 (+) s p)\<rparr>"

lemma sample_ciphers_laws: "cipher_laws sample_ciphers"
proof -
  have pad: "unat (of_nat (16 - n mod 16) :: u8) = 16 - n mod 16" for n :: nat
    by (simp add: unat_of_nat del: of_nat_diff)
  have pos: "0 < 16 - n mod 16" "\<not> 16 \<le> n mod 16" for n :: nat by (simp_all add: not_le)
  have len: "n + (16 - n mod 16) = (n div 16 + 1) * 16" for n :: nat
    by presburger
  show ?thesis by (simp add: cipher_laws_def sample_ciphers_def pad token_lens last_append len pos del: of_nat_diff)
qed

lemma sample_dh_laws: "dh_laws sample_dh_curves" "curve_laws sample_dh_curves"
proof -
  have "map2 (+) a b = map2 (+) b (a :: bytes)" if "length a = length b" for a b
    using that by (induction a b rule: list_induct2) (simp_all add: add.commute)
  then show "dh_laws sample_dh_curves" by (simp add: dh_laws_def sample_dh_curves_def sample_curves_def)
  show "curve_laws sample_dh_curves" by (simp add: curve_laws_def sample_dh_curves_def sample_curves_def key_lens)
qed

lemma sample_tags:
  assumes "length a = 32" "length b = 32" "hd a \<noteq> hd b" "msg \<noteq> []"
  shows "cp_hmac sample_ciphers (dk_mac (derive_keys sample_ciphers a salt)) msg
    \<noteq> cp_hmac sample_ciphers (dk_mac (derive_keys sample_ciphers b salt')) msg"
  using assms by (cases a; cases b; cases msg) (simp_all add: sample_ciphers_def derive_keys_def Let_def token_lens)

theorem identity_token_opens_witness:
  "decrypt_with_ratchets sample_ciphers sample_dh_curves (\<lambda>bs. of_nat (length bs))
      (from_secret_bytes sample_dh_curves (\<lambda>bs. of_nat (length bs)) (replicate 64 7))
      [replicate 32 1, replicate 32 3]
      (encrypt_to_ratchet sample_ciphers sample_dh_curves
        (pi_public (from_secret_bytes sample_dh_curves (\<lambda>bs. of_nat (length bs)) (replicate 64 7)))
        (x25519_public sample_dh_curves (replicate 32 3)) (replicate 32 5) (replicate 16 9) [1, 2])
    = Inr ([1, 2], name_of (\<lambda>bs. of_nat (length bs)) (x25519_public sample_dh_curves (replicate 32 3)))"
proof (rule conjunct2, rule identity_token_opens[OF sample_ciphers_laws sample_dh_laws(1), where older = "[replicate 32 1]" and newer = "[]"])
  let ?me = "from_secret_bytes sample_dh_curves (\<lambda>bs. of_nat (length bs)) (replicate 64 7)"
  let ?keys = "\<lambda>s. derive_keys sample_ciphers (x25519_dh sample_dh_curves s (x25519_public sample_dh_curves (replicate 32 5))) (id_hash (pi_public ?me))"
  have pub: "x25519_public sample_dh_curves a = a" "x25519_dh sample_dh_curves a b = map2 (+) a b" for a b
    by (simp_all add: sample_dh_curves_def sample_curves_def)
  have "token_decrypt sample_ciphers (?keys (replicate 32 1)) (token_encrypt sample_ciphers (?keys (replicate 32 3)) [1, 2] (replicate 16 9))
      = Inl BadMac"
    by (intro other_keys[OF sample_ciphers_laws] sample_tags) (simp_all add: token_lens pub zip_replicate)
  then show "list_all (\<lambda>s. token_decrypt sample_ciphers (?keys s) (drop KEY_LEN (encrypt_to_ratchet sample_ciphers sample_dh_curves
      (pi_public ?me) (x25519_public sample_dh_curves (replicate 32 3)) (replicate 32 5) (replicate 16 9) [1, 2])) = Inl BadMac) [replicate 32 1]"
    by (simp add: encrypt_to_ratchet_def Let_def pub key_lens zip_replicate)
qed (simp_all add: token_lens key_lens)

end
