(* ===== verification/TransferWindow.thy ===== *)
theory TransferWindow
  imports Interfaces
begin

text \<open>
  The receiver's adaptive request window and rate estimate (\<open>resource_transfer/window.rs\<close>), and the
  retransmission timing of both halves (\<open>resource_transfer/timing.rs\<close>). Ticks, byte counts and rates are
  naturals; the multiplications and additions the code saturates saturate at \<open>u64_max\<close>.
\<close>

section \<open>The window\<close>

definition RW_INITIAL :: nat where "RW_INITIAL = 4"
definition RW_MIN :: nat where "RW_MIN = 2"
definition RW_MAX :: nat where "RW_MAX = 75"
definition RW_MAX_SLOW :: nat where "RW_MAX_SLOW = 10"
definition RW_MAX_VERY_SLOW :: nat where "RW_MAX_VERY_SLOW = 4"
definition RW_FLEXIBILITY :: nat where "RW_FLEXIBILITY = 4"
definition RW_FAST_RATE_THRESHOLD :: nat where "RW_FAST_RATE_THRESHOLD = RW_MAX_SLOW - RW_INITIAL - 2"
definition VERY_SLOW_RATE_THRESHOLD :: nat where "VERY_SLOW_RATE_THRESHOLD = 2"
definition RATE_FAST :: nat where "RATE_FAST = 50000 div 8"
definition RATE_VERY_SLOW :: nat where "RATE_VERY_SLOW = 2000 div 8"
definition HANDSHAKE_BYTES :: nat where "HANDSHAKE_BYTES = 287"

lemmas rw_consts = RW_INITIAL_def RW_MIN_def RW_MAX_def RW_MAX_SLOW_def RW_MAX_VERY_SLOW_def RW_FLEXIBILITY_def
  RW_FAST_RATE_THRESHOLD_def VERY_SLOW_RATE_THRESHOLD_def

record window_carry =
  wc_window :: nat
  wc_rate :: "nat option"

definition per_second :: "nat \<Rightarrow> nat \<Rightarrow> nat" where
  "per_second len ms = sat_mul u64_max len 1000 div max ms 1"

record request_window =
  rw_size :: nat
  rw_min :: nat
  rw_max :: nat
  rw_ceiling :: nat
  rw_fast_rounds :: nat
  rw_very_slow_rounds :: nat
  rw_requested_at :: "nat option"
  rw_request_bytes :: nat
  rw_answered :: bool
  rw_responded :: bool
  rw_received :: nat
  rw_received_at_request :: nat
  rw_rtt :: "nat option"
  rw_rate :: "nat option"
  rw_carried_rate :: "nat option"

definition window_new :: "nat \<Rightarrow> window_carry option \<Rightarrow> request_window" where
  "window_new ceiling carry =
    (let ceiling = min (max ceiling 1) RW_MAX;
         carry = (case carry of None \<Rightarrow> \<lparr>wc_window = 0, wc_rate = None\<rparr> | Some w \<Rightarrow> w)
     in \<lparr>rw_size = (if 0 < wc_window carry then wc_window carry else RW_INITIAL), rw_min = RW_MIN, rw_max = RW_MAX_SLOW,
         rw_ceiling = ceiling, rw_fast_rounds = 0, rw_very_slow_rounds = 0, rw_requested_at = None, rw_request_bytes = 0,
         rw_answered = False, rw_responded = False, rw_received = 0, rw_received_at_request = 0, rw_rtt = None,
         rw_rate = None, rw_carried_rate = wc_rate carry\<rparr>)"

definition window_size :: "request_window \<Rightarrow> nat" where
  "window_size w = min (rw_size w) (rw_ceiling w)"

definition window_max :: "request_window \<Rightarrow> nat" where
  "window_max w = min (rw_max w) (rw_ceiling w)"

definition window_on_request :: "request_window \<Rightarrow> nat \<Rightarrow> nat \<Rightarrow> request_window" where
  "window_on_request w now len =
     w\<lparr>rw_requested_at := Some now, rw_request_bytes := len, rw_answered := False, rw_received_at_request := rw_received w\<rparr>"

definition count_fast :: "request_window \<Rightarrow> nat \<Rightarrow> request_window" where
  "count_fast w rate =
    (if RATE_FAST < rate \<and> rw_fast_rounds w < RW_FAST_RATE_THRESHOLD then
       let w = w\<lparr>rw_fast_rounds := rw_fast_rounds w + 1\<rparr>
       in if rw_fast_rounds w = RW_FAST_RATE_THRESHOLD then w\<lparr>rw_max := RW_MAX\<rparr> else w
     else w)"

definition window_on_part :: "request_window \<Rightarrow> nat \<Rightarrow> nat \<Rightarrow> nat \<Rightarrow> nat \<Rightarrow> request_window" where
  "window_on_part w now link_rtt packet_len payload_len =
    (let w = w\<lparr>rw_received := rw_received w + payload_len\<rparr>
     in case rw_requested_at w of
          None \<Rightarrow> w
        | Some sent \<Rightarrow>
            if rw_answered w then w
            else
              let measured = now - sent;
                  w = w\<lparr>rw_answered := True, rw_responded := True,
                        rw_rtt := Some (case rw_rtt w of
                            None \<Rightarrow> link_rtt
                          | Some rtt \<Rightarrow> if measured < rtt then max measured (rtt - rtt div 20) else min measured (rtt + rtt div 20))\<rparr>
              in count_fast w (per_second (packet_len + rw_request_bytes w) measured))"

text \<open>The window opens a step; its least size follows.\<close>

definition window_open :: "request_window \<Rightarrow> request_window" where
  "window_open w =
    (if rw_size w < rw_max w then
       let w = w\<lparr>rw_size := rw_size w + 1\<rparr>
       in if RW_FLEXIBILITY - 1 < rw_size w - rw_min w then w\<lparr>rw_min := rw_min w + 1\<rparr> else w
     else w)"

definition window_on_round :: "request_window \<Rightarrow> nat \<Rightarrow> request_window" where
  "window_on_round w now =
    (let w = window_open w
     in case rw_requested_at w of
          None \<Rightarrow> w
        | Some sent \<Rightarrow>
            let rate = per_second (rw_received w - rw_received_at_request w) (now - sent);
                w = count_fast (w\<lparr>rw_rate := Some rate, rw_received_at_request := rw_received w\<rparr>) rate
            in if rw_fast_rounds w = 0 \<and> rate < RATE_VERY_SLOW \<and> rw_very_slow_rounds w < VERY_SLOW_RATE_THRESHOLD
               then let w = w\<lparr>rw_very_slow_rounds := rw_very_slow_rounds w + 1\<rparr>
                    in if rw_very_slow_rounds w = VERY_SLOW_RATE_THRESHOLD then w\<lparr>rw_max := RW_MAX_VERY_SLOW\<rparr> else w
               else w)"

definition window_on_timeout :: "request_window \<Rightarrow> request_window" where
  "window_on_timeout w =
    (if rw_min w < rw_size w then
       let w = w\<lparr>rw_size := rw_size w - 1\<rparr>
       in if rw_min w < rw_max w
          then let w = w\<lparr>rw_max := rw_max w - 1\<rparr>
               in if RW_FLEXIBILITY - 1 < rw_max w - rw_size w then w\<lparr>rw_max := rw_max w - 1\<rparr> else w
          else w
     else w)"

definition expected_rate :: "request_window \<Rightarrow> nat \<Rightarrow> nat" where
  "expected_rate w link_rtt =
    max 1 (case rw_rate w of
        Some r \<Rightarrow> r
      | None \<Rightarrow> (case rw_carried_rate w of
          Some r \<Rightarrow> r
        | None \<Rightarrow> per_second HANDSHAKE_BYTES (case rw_rtt w of Some rtt \<Rightarrow> rtt | None \<Rightarrow> link_rtt)))"

definition carry_of :: "request_window \<Rightarrow> nat \<Rightarrow> window_carry" where
  "carry_of w link_rtt = \<lparr>wc_window = window_size w, wc_rate = Some (expected_rate w link_rtt)\<rparr>"

section \<open>Timing\<close>

definition MAX_RETRIES :: nat where "MAX_RETRIES = 16"
definition MAX_ADV_RETRIES :: nat where "MAX_ADV_RETRIES = 4"
definition PART_TIMEOUT_FACTOR :: nat where "PART_TIMEOUT_FACTOR = 4"
definition PART_TIMEOUT_FACTOR_AFTER_RTT :: nat where "PART_TIMEOUT_FACTOR_AFTER_RTT = 2"
definition PROOF_TIMEOUT_FACTOR :: nat where "PROOF_TIMEOUT_FACTOR = 3"
definition TRAFFIC_TIMEOUT_FACTOR :: nat where "TRAFFIC_TIMEOUT_FACTOR = 6"
definition SENDER_GRACE :: nat where "SENDER_GRACE = 10000"
definition PROCESSING_GRACE :: nat where "PROCESSING_GRACE = 1000"
definition RETRY_GRACE :: nat where "RETRY_GRACE = 250"
definition PER_RETRY_DELAY :: nat where "PER_RETRY_DELAY = 500"

record timing =
  tm_rtt :: nat
  tm_floor :: nat

definition timing_default :: timing where
  "timing_default = \<lparr>tm_rtt = 1000, tm_floor = 0\<rparr>"

definition floored :: "timing \<Rightarrow> nat \<Rightarrow> nat" where
  "floored t wait = max wait (tm_floor t)"

definition part_wait :: "timing \<Rightarrow> request_window \<Rightarrow> nat \<Rightarrow> nat \<Rightarrow> bool \<Rightarrow> nat \<Rightarrow> nat" where
  "part_wait t window part_size outstanding waiting_for_hmu retries_used =
    (let rate = expected_rate window (tm_rtt t);
         at_rate = (\<lambda>len. sat_mul u64_max len 1000 div rate);
         wait = (if rw_responded window then
                   let in_flight = at_rate (outstanding * part_size);
                       hmu = (if waiting_for_hmu \<or> outstanding = 0 then at_rate (part_size * 7 div 2) else 0)
                   in PART_TIMEOUT_FACTOR_AFTER_RTT * in_flight + hmu
                 else PART_TIMEOUT_FACTOR * at_rate (3 * part_size) div 8)
     in floored t (sat_add u64_max wait (RETRY_GRACE + retries_used * PER_RETRY_DELAY)))"

definition advertisement_wait :: "timing \<Rightarrow> nat" where
  "advertisement_wait t = floored t (sat_add u64_max (sat_mul u64_max (tm_rtt t) TRAFFIC_TIMEOUT_FACTOR) PROCESSING_GRACE)"

definition request_wait :: "timing \<Rightarrow> nat \<Rightarrow> nat" where
  "request_wait t rtt =
    (let retries = MAX_RETRIES; retry_delays = PER_RETRY_DELAY * retries * (retries + 1) div 2
     in floored t (sat_add u64_max (sat_mul u64_max rtt (TRAFFIC_TIMEOUT_FACTOR * retries)) (SENDER_GRACE + retry_delays)))"

definition proof_wait :: "timing \<Rightarrow> nat \<Rightarrow> nat" where
  "proof_wait t rtt = floored t (sat_add u64_max (sat_mul u64_max rtt PROOF_TIMEOUT_FACTOR) SENDER_GRACE)"

section \<open>Bounds\<close>

datatype window_op = WRequest nat nat | WPart nat nat nat nat | WRound nat | WTimeout

fun window_apply :: "request_window \<Rightarrow> window_op \<Rightarrow> request_window" where
  "window_apply w (WRequest now len) = window_on_request w now len"
| "window_apply w (WPart now rtt len payload) = window_on_part w now rtt len payload"
| "window_apply w (WRound now) = window_on_round w now"
| "window_apply w WTimeout = window_on_timeout w"

definition request_window_inv :: "request_window \<Rightarrow> bool" where
  "request_window_inv w \<longleftrightarrow> 1 \<le> rw_ceiling w \<and> rw_ceiling w \<le> RW_MAX \<and> 1 \<le> rw_size w \<and> rw_size w \<le> RW_MAX
     \<and> RW_MIN \<le> rw_min w \<and> (rw_min w \<le> rw_size w \<or> rw_min w = RW_MIN) \<and> 2 \<le> rw_max w \<and> rw_max w \<le> RW_MAX
     \<and> rw_fast_rounds w \<le> RW_FAST_RATE_THRESHOLD \<and> rw_very_slow_rounds w \<le> VERY_SLOW_RATE_THRESHOLD"

lemma count_fast_inv: "request_window_inv w \<Longrightarrow> request_window_inv (count_fast w rate)"
  by (auto simp: count_fast_def request_window_inv_def rw_consts Let_def)

lemma request_window_inv_cong:
  "request_window_inv w \<Longrightarrow> rw_ceiling w' = rw_ceiling w \<Longrightarrow> rw_size w' = rw_size w \<Longrightarrow> rw_min w' = rw_min w \<Longrightarrow> rw_max w' = rw_max w
    \<Longrightarrow> rw_fast_rounds w' = rw_fast_rounds w \<Longrightarrow> rw_very_slow_rounds w' = rw_very_slow_rounds w \<Longrightarrow> request_window_inv w'"
  by (simp add: request_window_inv_def)

lemma window_open_inv: "request_window_inv w \<Longrightarrow> request_window_inv (window_open w)"
  by (auto simp: window_open_def request_window_inv_def rw_consts Let_def)

lemma on_part_inv: "request_window_inv w \<Longrightarrow> request_window_inv (window_on_part w now rtt len payload)"
  unfolding window_on_part_def Let_def
  by (auto split: option.split intro!: count_fast_inv elim!: request_window_inv_cong)

lemma on_timeout_inv: "request_window_inv w \<Longrightarrow> request_window_inv (window_on_timeout w)"
  by (auto simp: window_on_timeout_def request_window_inv_def rw_consts Let_def)

lemma very_slow_inv:
  "request_window_inv w \<Longrightarrow> rw_very_slow_rounds w < VERY_SLOW_RATE_THRESHOLD \<Longrightarrow>
     request_window_inv (w\<lparr>rw_very_slow_rounds := rw_very_slow_rounds w + 1\<rparr>)
     \<and> request_window_inv (w\<lparr>rw_very_slow_rounds := VERY_SLOW_RATE_THRESHOLD, rw_max := RW_MAX_VERY_SLOW\<rparr>)"
  by (simp add: request_window_inv_def rw_consts)

lemma on_round_inv:
  assumes "request_window_inv w"
  shows "request_window_inv (window_on_round w now)"
proof (cases "rw_requested_at (window_open w)")
  case None
  then show ?thesis using window_open_inv[OF assms] by (simp add: window_on_round_def)
next
  case (Some sent)
  let ?w = "window_open w"
  let ?rate = "per_second (rw_received ?w - rw_received_at_request ?w) (now - sent)"
  let ?c = "count_fast (?w\<lparr>rw_rate := Some ?rate, rw_received_at_request := rw_received ?w\<rparr>) ?rate"
  have "request_window_inv (?w\<lparr>rw_rate := Some ?rate, rw_received_at_request := rw_received ?w\<rparr>)"
    by (rule request_window_inv_cong[OF window_open_inv[OF assms]]) simp_all
  then have c: "request_window_inv ?c" by (rule count_fast_inv)
  show ?thesis using c very_slow_inv[OF c] Some by (simp add: window_on_round_def Let_def)
qed

interpretation windows: guarded_ops window_apply request_window_inv
proof
  fix s op assume "request_window_inv s"
  then show "request_window_inv (window_apply s op)"
    using on_part_inv on_round_inv on_timeout_inv by (cases op) (auto simp: window_on_request_def elim: request_window_inv_cong)
qed

text \<open>
  Whatever the traffic, a receiver asks for at least one part and for at most its configured
  window, never more than 75; a transfer that follows another starts from such a window too.
\<close>

theorem request_window_bounded:
  assumes "case carry of None \<Rightarrow> True | Some c \<Rightarrow> wc_window c \<le> RW_MAX" "w = foldl window_apply (window_new ceiling carry) ops"
  shows "1 \<le> window_size w \<and> window_size w \<le> max 1 ceiling \<and> window_size w \<le> RW_MAX \<and> window_max w \<le> RW_MAX
    \<and> wc_window (carry_of w rtt) \<le> RW_MAX \<and> 1 \<le> expected_rate w rtt"
proof -
  have "request_window_inv (window_new ceiling carry)"
    using assms(1) by (auto simp: window_new_def request_window_inv_def rw_consts Let_def split: option.splits)
  then have i: "request_window_inv w" unfolding assms(2) by (rule windows.run_inv)
  have "rw_ceiling (window_apply v op) = rw_ceiling v" for v op
    by (cases op) (auto simp: window_on_request_def window_on_part_def window_on_round_def window_on_timeout_def window_open_def
        count_fast_def Let_def split: option.split)
  then have "rw_ceiling (foldl window_apply v ops) = rw_ceiling v" for v by (induction ops arbitrary: v) simp_all
  then have "rw_ceiling w = min (max ceiling 1) RW_MAX" by (simp add: assms(2) window_new_def Let_def)
  then show ?thesis using i by (auto simp: request_window_inv_def window_size_def window_max_def carry_of_def expected_rate_def)
qed

theorem request_window_bounded_witness:
  "1 \<le> window_size (foldl window_apply (window_new 8 None) [WRequest 10 60, WPart 30 1000 500 464, WRound 40, WTimeout])"
  using request_window_bounded[of None _ 8 "[WRequest 10 60, WPart 30 1000 500 464, WRound 40, WTimeout]" 1000] by simp

end
