(* ===== verification/Link.thy ===== *)
theory Link
  imports Token LinkWire LinkLiveness TransferWindow
begin

text \<open>
  Links: the two ends of the handshake (\<open>link/handshake.rs\<close>), the established link and what it makes of
  inbound packets (\<open>link/established.rs\<close>), and link-data proofs (\<open>link/proof.rs\<close>). Randomness is an argument,
  as it is in the code. The round-trip time of an RTT packet is given as the bits of its float64.
\<close>

section \<open>Proofs\<close>

definition CTX_CHANNEL :: u8 where "CTX_CHANNEL = 0x0e"
definition CTX_LINKIDENTIFY :: u8 where "CTX_LINKIDENTIFY = 0xfb"
definition CTX_LRRTT :: u8 where "CTX_LRRTT = 0xfe"
definition CTX_LINKCLOSE :: u8 where "CTX_LINKCLOSE = 0xfc"
definition CTX_REQUEST :: u8 where "CTX_REQUEST = 0x09"
definition CTX_RESPONSE :: u8 where "CTX_RESPONSE = 0x0a"

lemmas link_contexts = CTX_CHANNEL_def CTX_LINKIDENTIFY_def CTX_LRRTT_def CTX_LINKCLOSE_def CTX_REQUEST_def
  CTX_RESPONSE_def CTX_KEEPALIVE_def CTX_LRPROOF_def

definition DATA_PROOF_LEN :: nat where "DATA_PROOF_LEN = 32 + SIGNATURE_LEN"
definition LINK_IDENTIFY_LEN :: nat where "LINK_IDENTIFY_LEN = IDENTITY_LEN + SIGNATURE_LEN"

definition identify_signed_message :: "address_hash \<Rightarrow> bytes \<Rightarrow> bytes" where
  "identify_signed_message lid public = address_slice lid @ public"

definition explicit_proof_packet :: "address_hash \<Rightarrow> bytes \<Rightarrow> bytes \<Rightarrow> packet" where
  "explicit_proof_packet lid proven_full_hash signature =
     \<lparr>pk_ifac = False, pk_header_type = Type1, pk_context_flag = False, pk_propagation = Broadcast,
      pk_destination_type = Link, pk_packet_type = Proof, pk_hops = 0, pk_transport = None, pk_destination = lid,
      pk_context = 0x00, pk_payload = proven_full_hash @ signature\<rparr>"

definition data_proof_packet :: "curves \<Rightarrow> address_hash \<Rightarrow> bytes \<Rightarrow> private_identity \<Rightarrow> packet" where
  "data_proof_packet c lid proven_full_hash prover =
     explicit_proof_packet lid proven_full_hash (sign c prover proven_full_hash)"

definition split_data_proof :: "address_hash \<Rightarrow> packet \<Rightarrow> (bytes \<times> bytes) option" where
  "split_data_proof lid prf =
    (if pk_packet_type prf \<noteq> Proof \<or> pk_destination prf \<noteq> lid \<or> length (pk_payload prf) \<noteq> DATA_PROOF_LEN then None
     else Some (take 32 (pk_payload prf), drop 32 (pk_payload prf)))"

definition read_data_proof :: "curves \<Rightarrow> address_hash \<Rightarrow> packet \<Rightarrow> identity \<Rightarrow> bytes option" where
  "read_data_proof c lid prf peer =
    (case split_data_proof lid prf of
       None \<Rightarrow> None
     | Some (h, signature) \<Rightarrow> if identity_verify c peer h signature then Some h else None)"

section \<open>The established link\<close>

definition link_packet :: "u8 \<Rightarrow> address_hash \<Rightarrow> bytes \<Rightarrow> packet" where
  "link_packet ctxt lid payload =
     \<lparr>pk_ifac = False, pk_header_type = Type1, pk_context_flag = False, pk_propagation = Broadcast,
      pk_destination_type = Link, pk_packet_type = Data, pk_hops = 0, pk_transport = None, pk_destination = lid,
      pk_context = ctxt, pk_payload = payload\<rparr>"

datatype inbound =
    InboundData bytes | InboundRtt | KeepAliveRequest | KeepAliveResponse | InboundClose | InboundRequest bytes
  | InboundResponse bytes | InboundUnknown

record link =
  ln_id :: address_hash
  ln_keys :: derived_keys
  ln_mode :: link_mode
  ln_mtu :: u32
  ln_signer :: bytes
  ln_peer_signer :: bytes
  ln_resource_carry :: "window_carry option"

definition set_resource_carry :: "link \<Rightarrow> window_carry \<Rightarrow> link" where
  "set_resource_carry l carry = l\<lparr>ln_resource_carry := Some carry\<rparr>"

definition data_packet :: "ciphers \<Rightarrow> link \<Rightarrow> bytes \<Rightarrow> bytes \<Rightarrow> packet" where
  "data_packet k l plaintext iv = link_packet 0x00 (ln_id l) (token_encrypt k (ln_keys l) plaintext iv)"

definition link_decrypt :: "ciphers \<Rightarrow> link \<Rightarrow> packet \<Rightarrow> error + bytes" where
  "link_decrypt k l p = token_decrypt k (ln_keys l) (pk_payload p)"

definition link_seal :: "ciphers \<Rightarrow> link \<Rightarrow> bytes \<Rightarrow> bytes \<Rightarrow> bytes" where
  "link_seal k l plaintext iv = token_encrypt k (ln_keys l) plaintext iv"

definition link_seal_owned :: "ciphers \<Rightarrow> link \<Rightarrow> bytes \<Rightarrow> bytes \<Rightarrow> bytes" where
  "link_seal_owned k l plaintext iv = encrypt_owned k (ln_keys l) plaintext iv"

definition link_open :: "ciphers \<Rightarrow> link \<Rightarrow> bytes \<Rightarrow> error + bytes" where
  "link_open k l token = token_decrypt k (ln_keys l) token"

definition link_open_owned :: "ciphers \<Rightarrow> link \<Rightarrow> bytes \<Rightarrow> error + bytes" where
  "link_open_owned k l token = decrypt_owned k (ln_keys l) token"

definition framed_packet :: "link \<Rightarrow> u8 \<Rightarrow> bytes \<Rightarrow> packet" where
  "framed_packet l ctxt payload = link_packet ctxt (ln_id l) payload"

definition sealed_packet :: "ciphers \<Rightarrow> link \<Rightarrow> u8 \<Rightarrow> bytes \<Rightarrow> bytes \<Rightarrow> packet" where
  "sealed_packet k l ctxt plaintext iv = link_packet ctxt (ln_id l) (token_encrypt k (ln_keys l) plaintext iv)"

definition resource_proof_packet :: "link \<Rightarrow> bytes \<Rightarrow> bytes \<Rightarrow> packet" where
  "resource_proof_packet l resource_hash prf =
     \<lparr>pk_ifac = False, pk_header_type = Type1, pk_context_flag = False, pk_propagation = Broadcast,
      pk_destination_type = Link, pk_packet_type = Proof, pk_hops = 0, pk_transport = None, pk_destination = ln_id l,
      pk_context = CTX_RESOURCE_PRF, pk_payload = resource_hash @ prf\<rparr>"

definition prove_packet :: "curves \<Rightarrow> sha256 \<Rightarrow> link \<Rightarrow> packet \<Rightarrow> packet" where
  "prove_packet c sha l proven =
    (let h = packet_full_hash sha proven in explicit_proof_packet (ln_id l) h (ed25519_sign c (ln_signer l) h))"

definition validate_proof :: "curves \<Rightarrow> link \<Rightarrow> packet \<Rightarrow> bytes option" where
  "validate_proof c l prf =
    (case split_data_proof (ln_id l) prf of
       None \<Rightarrow> None
     | Some (h, signature) \<Rightarrow>
         if \<not> ed25519_point c (ln_peer_signer l) then None
         else if ed25519_verify c (ln_peer_signer l) h signature then Some h else None)"

definition data_proof :: "curves \<Rightarrow> sha256 \<Rightarrow> link \<Rightarrow> packet \<Rightarrow> private_identity \<Rightarrow> packet" where
  "data_proof c sha l proven prover = data_proof_packet c (ln_id l) (packet_full_hash sha proven) prover"

definition verify_data_proof :: "curves \<Rightarrow> link \<Rightarrow> packet \<Rightarrow> identity \<Rightarrow> bytes option" where
  "verify_data_proof c l prf peer = read_data_proof c (ln_id l) prf peer"

definition identify_packet :: "ciphers \<Rightarrow> curves \<Rightarrow> link \<Rightarrow> private_identity \<Rightarrow> bytes \<Rightarrow> packet" where
  "identify_packet k c l me iv =
    (let public = to_public_bytes (pi_public me);
         signature = sign c me (identify_signed_message (ln_id l) public)
     in sealed_packet k l CTX_LINKIDENTIFY (public @ signature) iv)"

definition read_identify :: "ciphers \<Rightarrow> curves \<Rightarrow> sha256 \<Rightarrow> link \<Rightarrow> packet \<Rightarrow> identity option" where
  "read_identify k c sha l p =
    (if pk_context p \<noteq> CTX_LINKIDENTIFY then None
     else case link_decrypt k l p of
       Inl _ \<Rightarrow> None
     | Inr plaintext \<Rightarrow>
         if length plaintext \<noteq> LINK_IDENTIFY_LEN then None
         else
           let public = take IDENTITY_LEN plaintext; signature = drop IDENTITY_LEN plaintext
           in case identity_from_public_bytes c sha public of
                Inl _ \<Rightarrow> None
              | Inr peer \<Rightarrow>
                  if identity_verify c peer (identify_signed_message (ln_id l) public) signature then Some peer else None)"

definition link_receive :: "ciphers \<Rightarrow> link \<Rightarrow> packet \<Rightarrow> inbound option" where
  "link_receive k l p =
    (if pk_destination p \<noteq> ln_id l then None
     else Some (
       if pk_context p = 0x00 then (case link_decrypt k l p of Inr bs \<Rightarrow> InboundData bs | Inl _ \<Rightarrow> InboundUnknown)
       else if pk_context p = CTX_LRRTT then InboundRtt
       else if pk_context p = CTX_REQUEST then
         (case link_decrypt k l p of Inr bs \<Rightarrow> InboundRequest bs | Inl _ \<Rightarrow> InboundUnknown)
       else if pk_context p = CTX_RESPONSE then
         (case link_decrypt k l p of Inr bs \<Rightarrow> InboundResponse bs | Inl _ \<Rightarrow> InboundUnknown)
       else if pk_context p = CTX_KEEPALIVE then
         (case pk_payload p of
            [] \<Rightarrow> InboundUnknown
          | b # _ \<Rightarrow> if b = KEEPALIVE_REQUEST then KeepAliveRequest
                     else if b = KEEPALIVE_RESPONSE then KeepAliveResponse else InboundUnknown)
       else if pk_context p = CTX_LINKCLOSE then
         (case link_decrypt k l p of
            Inr bs \<Rightarrow> if bs = address_slice (ln_id l) then InboundClose else InboundUnknown
          | Inl _ \<Rightarrow> InboundUnknown)
       else InboundUnknown))"

definition rtt_packet :: "ciphers \<Rightarrow> link \<Rightarrow> u64 \<Rightarrow> bytes \<Rightarrow> packet" where
  "rtt_packet k l rtt_bits iv =
     link_packet CTX_LRRTT (ln_id l) (token_encrypt k (ln_keys l) (0xcb # to_be 8 rtt_bits) iv)"

definition request_packet :: "ciphers \<Rightarrow> link \<Rightarrow> bytes \<Rightarrow> bytes \<Rightarrow> packet" where
  "request_packet k l packed iv = link_packet CTX_REQUEST (ln_id l) (token_encrypt k (ln_keys l) packed iv)"

definition response_packet :: "ciphers \<Rightarrow> link \<Rightarrow> bytes \<Rightarrow> bytes \<Rightarrow> packet" where
  "response_packet k l packed iv = link_packet CTX_RESPONSE (ln_id l) (token_encrypt k (ln_keys l) packed iv)"

definition keepalive_packet :: "link \<Rightarrow> u8 \<Rightarrow> packet" where
  "keepalive_packet l sentinel = link_packet CTX_KEEPALIVE (ln_id l) [sentinel]"

definition close_packet :: "ciphers \<Rightarrow> link \<Rightarrow> bytes \<Rightarrow> packet" where
  "close_packet k l iv =
     link_packet CTX_LINKCLOSE (ln_id l) (token_encrypt k (ln_keys l) (address_slice (ln_id l)) iv)"

section \<open>The handshake\<close>

definition signing_seed :: "private_identity \<Rightarrow> bytes" where
  "signing_seed i = drop KEY_LEN (to_secret_bytes i)"

record pending_link =
  pd_ephemeral :: private_identity
  pd_peer :: identity
  pd_link_id :: address_hash
  pd_requested :: link_trailer

text \<open>\<open>PendingLink::open\<close>; \<open>None\<close> would be its panic.\<close>

definition open_link ::
  "curves \<Rightarrow> sha256 \<Rightarrow> address_hash \<Rightarrow> identity \<Rightarrow> bytes \<Rightarrow> link_trailer \<Rightarrow> (pending_link \<times> packet) option" where
  "open_link c sha destination peer ephemeral_seed requested =
    (let ephemeral = from_secret_bytes c sha ephemeral_seed;
         payload = to_public_bytes (pi_public ephemeral) @ trailer_encode requested;
         request = \<lparr>pk_ifac = False, pk_header_type = Type1, pk_context_flag = False, pk_propagation = Broadcast,
           pk_destination_type = Single, pk_packet_type = LinkRequest, pk_hops = 0, pk_transport = None,
           pk_destination = destination, pk_context = 0, pk_payload = payload\<rparr>
     in case link_id sha request of
          Inl _ \<Rightarrow> None
        | Inr lid \<Rightarrow>
            Some (\<lparr>pd_ephemeral = ephemeral, pd_peer = peer, pd_link_id = lid, pd_requested = requested\<rparr>, request))"

definition LINK_PROOF_KEYS_LEN :: nat where "LINK_PROOF_KEYS_LEN = LINK_PROOF_LEN - TRAILER_LEN"

definition proof_mode :: "bytes \<Rightarrow> error + link_mode" where
  "proof_mode payload =
    (if length payload = LINK_PROOF_KEYS_LEN then Inr DEFAULT_MODE
     else if length payload = LINK_PROOF_LEN then
       and_then (trailer_decode (drop LINK_PROOF_KEYS_LEN payload)) (\<lambda>t. Inr (tr_mode t))
     else if length payload < LINK_PROOF_KEYS_LEN then Inl Truncated else Inl NotAProof)"

definition prove :: "ciphers \<Rightarrow> curves \<Rightarrow> pending_link \<Rightarrow> packet \<Rightarrow> error + link" where
  "prove k c pending prf =
    (if pk_packet_type prf \<noteq> Proof then Inl NotAProof
     else if pk_destination prf \<noteq> pd_link_id pending then Inl LinkMismatch
     else and_then (proof_mode (pk_payload prf)) (\<lambda>mode.
       if mode \<noteq> tr_mode (pd_requested pending) then Inl BadLinkMode
       else
         let payload = pk_payload prf;
             signature = take SIGNATURE_LEN payload;
             peer_eph = take KEY_LEN (drop SIGNATURE_LEN payload);
             trailer_bytes = drop LINK_PROOF_KEYS_LEN payload;
             signed = address_slice (pd_link_id pending) @ peer_eph @ id_ed25519 (pd_peer pending) @ trailer_bytes
         in if \<not> identity_verify c (pd_peer pending) signed signature then Inl BadSignature
            else and_then (if length trailer_bytes = TRAILER_LEN then trailer_decode trailer_bytes
                           else Inr ((pd_requested pending)\<lparr>tr_mtu := of_nat MTU\<rparr>)) (\<lambda>agreed.
              let agreed = agreed\<lparr>tr_mtu := min (tr_mtu agreed) (tr_mtu (pd_requested pending))\<rparr>;
                  shared = diffie_hellman c (pd_ephemeral pending) peer_eph;
                  keys = derive_keys k shared (pd_link_id pending)
              in Inr \<lparr>ln_id = pd_link_id pending, ln_keys = keys, ln_mode = tr_mode agreed, ln_mtu = tr_mtu agreed,
                   ln_signer = signing_seed (pd_ephemeral pending), ln_peer_signer = id_ed25519 (pd_peer pending),
                   ln_resource_carry = None\<rparr>)))"

text \<open>
  The mode a request asks for, as \<open>accept\<close> reads it. The branch without a trailer would be the code's
  panic; \<open>requested_mode_trailer\<close> shows that it is never taken.
\<close>

definition requested_mode :: "packet \<Rightarrow> error + link_mode" where
  "requested_mode request =
    (let n = length (pk_payload request) in
     if n = LINK_KEYS_LEN then Inr DEFAULT_MODE
     else if n = LINK_REQUEST_LEN then
       and_then (request_trailer request) (\<lambda>t. case t of None \<Rightarrow> Inl BadLinkMode | Some t \<Rightarrow> Inr (tr_mode t))
     else if n < LINK_KEYS_LEN then Inl Truncated else Inl NotALinkRequest)"

definition accept ::
  "ciphers \<Rightarrow> curves \<Rightarrow> sha256 \<Rightarrow> packet \<Rightarrow> private_identity \<Rightarrow> bytes \<Rightarrow> link_trailer \<Rightarrow> error + link \<times> packet" where
  "accept k c sha request destination ephemeral_seed offered =
    (if pk_packet_type request \<noteq> LinkRequest then Inl NotALinkRequest
     else and_then (requested_mode request) (\<lambda>requested.
       if \<not> is_enabled requested \<or> tr_mode offered \<noteq> requested then Inl BadLinkMode
       else and_then (link_id sha request) (\<lambda>lid.
         let peer_eph_x = take KEY_LEN (pk_payload request);
             peer_signer = drop KEY_LEN (take LINK_KEYS_LEN (pk_payload request));
             ephemeral = from_secret_bytes c sha ephemeral_seed;
             our_eph_x = id_x25519 (pi_public ephemeral);
             trailer = trailer_encode offered;
             signed = address_slice lid @ our_eph_x @ id_ed25519 (pi_public destination) @ trailer;
             signature = sign c destination signed;
             prf = \<lparr>pk_ifac = False, pk_header_type = Type1, pk_context_flag = False, pk_propagation = Broadcast,
               pk_destination_type = Link, pk_packet_type = Proof, pk_hops = 0, pk_transport = None, pk_destination = lid,
               pk_context = CTX_LRPROOF, pk_payload = signature @ our_eph_x @ trailer\<rparr>;
             shared = diffie_hellman c ephemeral peer_eph_x;
             keys = derive_keys k shared lid
         in Inr (\<lparr>ln_id = lid, ln_keys = keys, ln_mode = tr_mode offered, ln_mtu = tr_mtu offered,
                  ln_signer = signing_seed destination, ln_peer_signer = peer_signer, ln_resource_carry = None\<rparr>, prf))))"

lemma requested_mode_trailer: "length (pk_payload request) = LINK_REQUEST_LEN \<Longrightarrow> request_trailer request \<noteq> Inr None"
  by (simp add: request_trailer_def link_lens split: sum.split)

section \<open>The way of a request\<close>

text \<open>Transport hops rewrite the header, lower the MTU or drop the trailer.\<close>

inductive carried :: "packet \<Rightarrow> packet \<Rightarrow> bool" where
  sent: "carried p p"
| rewritten: "carried p q \<Longrightarrow> carried p (q\<lparr>pk_hops := h, pk_header_type := ht, pk_transport := t\<rparr>)"
| clamped: "carried p q \<Longrightarrow> clamp_request_mtu q limit = Inr r \<Longrightarrow> carried p r"
| stripped: "carried p q \<Longrightarrow> carried p (strip_request_mtu q)"

text \<open>What a carried request still says.\<close>

definition same_request :: "sha256 \<Rightarrow> packet \<Rightarrow> packet \<Rightarrow> bool" where
  "same_request sha p q \<longleftrightarrow> link_id sha q = link_id sha p \<and> pk_packet_type q = pk_packet_type p
     \<and> take LINK_KEYS_LEN (pk_payload q) = take LINK_KEYS_LEN (pk_payload p)
     \<and> (length (pk_payload q) = LINK_KEYS_LEN
        \<or> length (pk_payload q) = LINK_REQUEST_LEN
          \<and> (\<exists>t. request_trailer q = Inr (Some t) \<and> (\<forall>t'. request_trailer p = Inr (Some t') \<longrightarrow> tr_mode t = tr_mode t')))"

lemma strip_link_id: "link_id sha (strip_request_mtu p) = link_id sha p"
proof (cases "length (pk_payload p) = LINK_KEYS_LEN + TRAILER_LEN")
  case True
  have f: "encode (p\<lparr>pk_payload := pl\<rparr>) ! 0 AND 0x0F = encode p ! 0 AND 0x0F" for pl
    
    using flags_nibble_rewritten[where p = p and h = "pk_hops p" and ht = "pk_header_type p" and t = "pk_transport p" and pl = pl] by simp
  show ?thesis using True by (simp add: strip_request_mtu_def link_id_def f)
qed (simp add: strip_request_mtu_def)

lemma carried_same:
  assumes "carried p q" "length (pk_payload p) = LINK_REQUEST_LEN" "request_trailer p = Inr (Some t0)"
  shows "same_request sha p q"
  using assms
proof (induction rule: carried.induct)
  case (sent p)
  then show ?case by (simp add: same_request_def)
next
  case (rewritten p q t ht h)
  have "request_trailer (q\<lparr>pk_hops := h, pk_header_type := ht, pk_transport := t\<rparr>) = request_trailer q"
    by (simp add: request_trailer_def)
  with rewritten show ?case by (simp add: same_request_def link_id_rewritten)
next
  case (clamped p q limit r)
  then have q: "same_request sha p q" by blast
  from clamped(2) show ?case
  proof (cases rule: clamp_cases)
    case 1
    then show ?thesis using q by simp
  next
    case (2 m t)
    note C = clamp_rewritten[OF 2]
    have l: "length (pk_payload q) = LINK_REQUEST_LEN"
      using 2(1) by (auto simp: signalled_mtu_def LINK_REQUEST_LEN_def split: if_splits)
    have tq: "request_trailer q = Inr (Some t)" using 2(1,3) by (simp add: request_trailer_alt)
    have "length (pk_payload r) = LINK_REQUEST_LEN" "pk_packet_type r = pk_packet_type q"
      "take LINK_KEYS_LEN (pk_payload r) = take LINK_KEYS_LEN (pk_payload q)"
      using l by (simp_all add: 2(4) LINK_REQUEST_LEN_def)
    then show ?thesis using q tq C(1,3) l by (simp add: same_request_def)
  qed
next
  case (stripped p q)
  then have q: "same_request sha p q" by blast
  show ?case
  proof (cases "length (pk_payload q) = LINK_KEYS_LEN + TRAILER_LEN")
    case True
    then have pl: "length (take LINK_KEYS_LEN (pk_payload q)) = LINK_KEYS_LEN" by simp
    have eq: "strip_request_mtu q = q\<lparr>pk_payload := take LINK_KEYS_LEN (pk_payload q)\<rparr>"
      using True by (simp add: strip_request_mtu_def)
    show ?thesis
      using q pl strip_link_id[of sha q] unfolding eq same_request_def by simp
  qed (use q in \<open>simp add: strip_request_mtu_def\<close>)
qed

section \<open>Paired links\<close>

definition paired :: "curves \<Rightarrow> link \<Rightarrow> link \<Rightarrow> bool" where
  "paired c a b \<longleftrightarrow> ln_id a = ln_id b \<and> ln_keys a = ln_keys b \<and> length (ln_signer a) = KEY_LEN
     \<and> length (ln_signer b) = KEY_LEN \<and> ln_peer_signer b = ed25519_public c (ln_signer a)
     \<and> ln_peer_signer a = ed25519_public c (ln_signer b)"

text \<open>
  C10: A link is set up between the two identities whatever the transport hops did to the request and
  the proof on the way: both ends hold the same id and keys, each checks the other's link proofs
  under the key the other signs with, and the mode is the requested one. The responder takes the MTU
  it offered and the initiator the lower of the offered one and its own request, so the two agree
  when the responder offers no more than was asked. A hop that checks the proof carries it.
\<close>

theorem link_handshake:
  assumes laws: "curve_laws c" "dh_laws c"
    and l: "length seed = IDENTITY_LEN" "length eseed = IDENTITY_LEN" "length secret = IDENTITY_LEN"
    and me: "me = from_secret_bytes c sha secret"
    and opened: "open_link c sha destination (pi_public me) seed requested = Some (pending, request)"
    and mode: "tr_mode requested = Aes256Cbc" "tr_mode offered = Aes256Cbc"
    and path: "carried request request'"
  shows "case accept k c sha request' me eseed offered of
      Inl _ \<Rightarrow> False
    | Inr (answerer, prf) \<Rightarrow>
        proof_is_signed_by c prf (pi_public me)
        \<and> (case prove k c pending (prf\<lparr>pk_hops := h, pk_header_type := ht, pk_transport := t\<rparr>) of
            Inl _ \<Rightarrow> False
          | Inr opener \<Rightarrow> paired c opener answerer \<and> ln_mode opener = Aes256Cbc \<and> ln_mode answerer = Aes256Cbc
              \<and> ln_id opener = pd_link_id pending \<and> ln_mtu answerer = tr_mtu offered
              \<and> ln_mtu opener = min (tr_mtu offered AND MAX_MTU) (tr_mtu requested))"
proof -
  let ?eph = "from_secret_bytes c sha seed" and ?eph' = "from_secret_bytes c sha eseed"
  have pub: "length (x25519_public c (take KEY_LEN s)) = KEY_LEN" "length (ed25519_public c (drop KEY_LEN s)) = KEY_LEN"
    if "length s = IDENTITY_LEN" for s using laws(1) that by (simp_all add: curve_laws_def key_lens)
  have req: "link_id sha request = Inr (pd_link_id pending)" "pd_ephemeral pending = ?eph" "pd_peer pending = pi_public me"
    "pd_requested pending = requested" "pk_packet_type request = LinkRequest"
    "pk_payload request = to_public_bytes (pi_public ?eph) @ trailer_encode requested"
    using opened by (auto simp: open_link_def Let_def split: sum.splits)
  have pl: "length (to_public_bytes (pi_public ?eph)) = LINK_KEYS_LEN"
    using length_public[OF private_ok[OF laws(1) l(1)]] by (simp add: link_lens)
  have len: "length (pk_payload request) = LINK_REQUEST_LEN" by (simp add: req(6) pl LINK_REQUEST_LEN_def)
  have tr: "request_trailer request = Inr (Some (requested\<lparr>tr_mtu := tr_mtu requested AND MAX_MTU\<rparr>))"
    by (simp add: request_trailer_def req(6) pl trailer_decode_encode TRAILER_LEN_def)
  from carried_same[OF path len tr, of sha] have same: "same_request sha request request'" .
  have keys: "take LINK_KEYS_LEN (pk_payload request') = to_public_bytes (pi_public ?eph)"
    using same pl by (simp add: same_request_def req(6))
  have rm: "requested_mode request' = Inr Aes256Cbc"
    using same tr mode(1) by (auto simp: same_request_def requested_mode_def Let_def DEFAULT_MODE_def link_lens)
  have id': "link_id sha request' = Inr (pd_link_id pending)" "pk_packet_type request' = LinkRequest"
    using same req by (simp_all add: same_request_def)
  have peer: "take KEY_LEN (pk_payload request') = x25519_public c (take KEY_LEN seed)"
    "drop KEY_LEN (take LINK_KEYS_LEN (pk_payload request')) = ed25519_public c (drop KEY_LEN seed)"
  proof -
    have "take KEY_LEN (pk_payload request') = take KEY_LEN (take LINK_KEYS_LEN (pk_payload request'))" by (simp add: link_lens)
    then show "take KEY_LEN (pk_payload request') = x25519_public c (take KEY_LEN seed)"
      using pub(1)[OF l(1)] by (simp add: keys to_public_bytes_def from_secret_bytes_def identity_new_def Let_def)
    show "drop KEY_LEN (take LINK_KEYS_LEN (pk_payload request')) = ed25519_public c (drop KEY_LEN seed)"
      using pub(1)[OF l(1)] by (simp add: keys to_public_bytes_def from_secret_bytes_def identity_new_def Let_def)
  qed
  let ?x = "x25519_public c (take KEY_LEN eseed)" and ?tr = "trailer_encode offered" and ?lid = "pd_link_id pending"
  let ?signed = "address_slice ?lid @ ?x @ id_ed25519 (pi_public me) @ ?tr"
  let ?sig = "sign c me ?signed"
  have x: "length ?x = KEY_LEN" "id_x25519 (pi_public ?eph') = ?x"
    using pub(1)[OF l(2)] by (simp_all add: from_secret_bytes_def identity_new_def Let_def)
  have sg: "identity_verify c (pi_public me) ?signed ?sig" "length ?sig = SIGNATURE_LEN"
    using own_signature[OF laws(1) l(3) me] by blast+
  define link_proof where "link_proof = \<lparr>pk_ifac = False, pk_header_type = Type1, pk_context_flag = False, pk_propagation = Broadcast,
     pk_destination_type = Link, pk_packet_type = Proof, pk_hops = 0, pk_transport = None, pk_destination = ?lid,
     pk_context = CTX_LRPROOF, pk_payload = ?sig @ ?x @ ?tr\<rparr>"
  define answerer where "answerer = \<lparr>ln_id = ?lid,
     ln_keys = derive_keys k (x25519_dh c (take KEY_LEN eseed) (x25519_public c (take KEY_LEN seed))) ?lid,
     ln_mode = tr_mode offered, ln_mtu = tr_mtu offered, ln_signer = signing_seed me,
     ln_peer_signer = ed25519_public c (drop KEY_LEN seed), ln_resource_carry = None\<rparr>"
  have acc: "accept k c sha request' me eseed offered = Inr (answerer, link_proof)"
    using mode(2) by (simp add: accept_def id' rm is_enabled_def peer x(2) answerer_def link_proof_def Let_def diffie_hellman_def
        from_secret_bytes_def[of c sha eseed] identity_new_def)
  have sb: "proof_is_signed_by c link_proof (pi_public me)"
  proof -
    have "take SIGNATURE_LEN (pk_payload link_proof) = ?sig" "drop SIGNATURE_LEN (pk_payload link_proof) = ?x @ ?tr"
      "take KEY_LEN (?x @ ?tr) = ?x" "drop KEY_LEN (?x @ ?tr) = ?tr" "length (pk_payload link_proof) = LINK_PROOF_LEN"
      using sg(2) x(1) by (simp_all add: link_proof_def LINK_PROOF_LEN_def)
    then show ?thesis using sg(1) by (simp add: proof_is_signed_by_def Let_def) (simp add: link_proof_def)
  qed
  let ?pf = "link_proof\<lparr>pk_hops := h, pk_header_type := ht, pk_transport := t\<rparr>"
  have parts: "take SIGNATURE_LEN (pk_payload ?pf) = ?sig" "take KEY_LEN (drop SIGNATURE_LEN (pk_payload ?pf)) = ?x"
    "drop LINK_PROOF_KEYS_LEN (pk_payload ?pf) = ?tr" "length (pk_payload ?pf) = LINK_PROOF_LEN"
    using sg(2) x(1) by (simp_all add: link_proof_def LINK_PROOF_KEYS_LEN_def LINK_PROOF_LEN_def)
  have pm: "proof_mode (pk_payload ?pf) = Inr Aes256Cbc"
    using parts(3,4) mode(2) by (simp add: proof_mode_def LINK_PROOF_KEYS_LEN_def trailer_decode_encode link_lens)
  have head: "pk_packet_type ?pf = Proof" "pk_destination ?pf = ?lid" by (simp_all add: link_proof_def)
  define opener where "opener = \<lparr>ln_id = ?lid, ln_keys = derive_keys k (x25519_dh c (take KEY_LEN seed) ?x) ?lid,
     ln_mode = Aes256Cbc, ln_mtu = min (tr_mtu offered AND MAX_MTU) (tr_mtu requested), ln_signer = signing_seed ?eph,
     ln_peer_signer = id_ed25519 (pi_public me), ln_resource_carry = None\<rparr>"
  have pr: "prove k c pending ?pf = Inr opener"
    unfolding prove_def head pm parts Let_def req
    using mode sg(1) by (simp add: trailer_decode_encode opener_def diffie_hellman_def from_secret_bytes_def[of c sha seed] Let_def)
  have dh: "x25519_dh c (take KEY_LEN seed) ?x = x25519_dh c (take KEY_LEN eseed) (x25519_public c (take KEY_LEN seed))"
    using laws(2) l(1,2) by (simp add: dh_laws_def key_lens)
  have "paired c opener answerer"
    using l(1,3) dh by (simp add: paired_def opener_def answerer_def signing_seed_def to_secret_bytes_def me from_secret_bytes_def
        identity_new_def Let_def key_lens)
  then show ?thesis
    using sb mode(2) by (simp only: acc pr sum.case prod.case) (simp add: opener_def answerer_def)
qed

theorem link_handshake_witness:
  "\<exists>pending request answerer pf opener.
     open_link sample_dh_curves (\<lambda>bs. of_nat (length bs)) (AddressHash 5)
       (pi_public (from_secret_bytes sample_dh_curves (\<lambda>bs. of_nat (length bs)) (replicate 64 7))) (replicate 64 1)
       \<lparr>tr_mode = Aes256Cbc, tr_mtu = 8192\<rparr> = Some (pending, request)
     \<and> accept sample_ciphers sample_dh_curves (\<lambda>bs. of_nat (length bs)) (strip_request_mtu request)
       (from_secret_bytes sample_dh_curves (\<lambda>bs. of_nat (length bs)) (replicate 64 7)) (replicate 64 2)
       \<lparr>tr_mode = Aes256Cbc, tr_mtu = 500\<rparr> = Inr (answerer, pf)
     \<and> prove sample_ciphers sample_dh_curves pending (pf\<lparr>pk_hops := 3, pk_header_type := Type1, pk_transport := None\<rparr>)
       = Inr opener
     \<and> paired sample_dh_curves opener answerer \<and> ln_mtu opener = 500"
proof -
  let ?sha = "\<lambda>bs :: bytes. of_nat (length bs) :: 256 word" and ?requested = "\<lparr>tr_mode = Aes256Cbc, tr_mtu = 8192\<rparr>"
  let ?me = "from_secret_bytes sample_dh_curves ?sha (replicate 64 7)"
  obtain pending request where opened:
    "open_link sample_dh_curves ?sha (AddressHash 5) (pi_public ?me) (replicate 64 1) ?requested = Some (pending, request)"
    by (simp add: open_link_def Let_def link_id_def to_public_bytes_def from_secret_bytes_def identity_new_def sample_dh_curves_def
        sample_curves_def link_lens)
  have path: "carried request (strip_request_mtu request)" by (rule stripped[OF sent])
  note H = link_handshake[OF sample_dh_laws(2,1) _ _ _ HOL.refl opened _ _ path, where k = sample_ciphers and h = 3
      and eseed = "replicate 64 2" and offered = "\<lparr>tr_mode = Aes256Cbc, tr_mtu = 500\<rparr>" and ht = Type1 and t = None]
  let ?accepted = "accept sample_ciphers sample_dh_curves ?sha (strip_request_mtu request) ?me (replicate 64 2)
      \<lparr>tr_mode = Aes256Cbc, tr_mtu = 500\<rparr>"
  obtain answerer pf where a: "?accepted = Inr (answerer, pf)" using H by (auto simp: key_lens split: sum.splits)
  obtain opener where "prove sample_ciphers sample_dh_curves pending (pf\<lparr>pk_hops := 3, pk_header_type := Type1, pk_transport := None\<rparr>)
      = Inr opener" "paired sample_dh_curves opener answerer" "ln_mtu opener = 500"
    using H a by (auto simp: key_lens min_def MAX_MTU_def split: sum.splits)
  with opened a show ?thesis by blast
qed

text \<open>
  C11: A pending link is established exactly by a proof addressed to it, of one of the two lengths, in the
  mode it asked for, that carries the peer's signature over the link id and the ephemeral key.
\<close>

theorem link_needs_proof:
  "(case prove k c pending pf of
      Inl _ \<Rightarrow> False
    | Inr l \<Rightarrow> ln_id l = pd_link_id pending \<and> ln_mode l = tr_mode (pd_requested pending)
        \<and> ln_mtu l \<le> tr_mtu (pd_requested pending) \<and> ln_peer_signer l = id_ed25519 (pd_peer pending)
        \<and> ln_keys l = derive_keys k (diffie_hellman c (pd_ephemeral pending) (take KEY_LEN (drop SIGNATURE_LEN (pk_payload pf))))
            (pd_link_id pending))
   \<longleftrightarrow> pk_destination pf = pd_link_id pending \<and> proof_mode (pk_payload pf) = Inr (tr_mode (pd_requested pending))
     \<and> proof_is_signed_by c (pf\<lparr>pk_context := CTX_LRPROOF\<rparr>) (pd_peer pending)"
proof -
  let ?pl = "pk_payload pf"
  have cut: "drop KEY_LEN (drop SIGNATURE_LEN ?pl) = drop LINK_PROOF_KEYS_LEN ?pl"
    by (simp add: link_lens LINK_PROOF_KEYS_LEN_def)
  have keys: "LINK_PROOF_LEN - TRAILER_LEN = LINK_PROOF_KEYS_LEN" by (simp add: LINK_PROOF_KEYS_LEN_def)
  have ok: "(proof_mode ?pl = Inr m) \<longrightarrow> (length ?pl = LINK_PROOF_LEN \<or> length ?pl = LINK_PROOF_KEYS_LEN)
      \<and> (length (drop LINK_PROOF_KEYS_LEN ?pl) = TRAILER_LEN \<longrightarrow> (\<exists>t. trailer_decode (drop LINK_PROOF_KEYS_LEN ?pl) = Inr t \<and> tr_mode t = m))
      \<and> (length (drop LINK_PROOF_KEYS_LEN ?pl) \<noteq> TRAILER_LEN \<longrightarrow> m = DEFAULT_MODE)" for m
    by (cases "trailer_decode (drop LINK_PROOF_KEYS_LEN ?pl)") (auto simp: proof_mode_def LINK_PROOF_KEYS_LEN_def link_lens)
  show ?thesis
  proof (cases "pk_packet_type pf = Proof \<and> pk_destination pf = pd_link_id pending
      \<and> proof_mode ?pl = Inr (tr_mode (pd_requested pending))")
    case True
    with ok[of "tr_mode (pd_requested pending)"]
    have t: "length ?pl = LINK_PROOF_LEN \<or> length ?pl = LINK_PROOF_KEYS_LEN"
      "length (drop LINK_PROOF_KEYS_LEN ?pl) = TRAILER_LEN \<Longrightarrow>
         \<exists>t. trailer_decode (drop LINK_PROOF_KEYS_LEN ?pl) = Inr t \<and> tr_mode t = tr_mode (pd_requested pending)"
      by blast+
    have signed: "proof_is_signed_by c (pf\<lparr>pk_context := CTX_LRPROOF\<rparr>) (pd_peer pending)
        \<longleftrightarrow> identity_verify c (pd_peer pending) (address_slice (pd_link_id pending) @ take KEY_LEN (drop SIGNATURE_LEN ?pl)
          @ id_ed25519 (pd_peer pending) @ drop LINK_PROOF_KEYS_LEN ?pl) (take SIGNATURE_LEN ?pl)"
      using True t(1) by (elim disjE) (simp_all add: proof_is_signed_by_def Let_def cut keys del: drop_drop)
    show ?thesis
      using True t(2) unfolding signed prove_def Let_def
      by (cases "length (drop LINK_PROOF_KEYS_LEN ?pl) = TRAILER_LEN") auto
  next
    case False
    then show ?thesis
      by (auto simp: prove_def proof_is_signed_by_def Let_def split: sum.splits)
  qed
qed

text \<open>
  C12: Between paired links every packet one end builds is what the other makes of it, whatever
  the header fields a hop rewrites: data, requests, responses, keepalives and closes by their class and text, an
  IDENTIFY and a link proof by the identity and the packet hash they vouch for.
\<close>

theorem link_traffic:
  assumes laws: "cipher_laws k" "curve_laws c" and pair: "paired c a b \<or> paired c b a" and iv: "length iv = IV_LEN"
    and me: "length secret = IDENTITY_LEN" "me = from_secret_bytes c sha secret"
  shows "link_receive k b ((data_packet k a text iv)\<lparr>pk_hops := h\<rparr>) = Some (InboundData text)
    \<and> link_receive k b ((request_packet k a text iv)\<lparr>pk_hops := h\<rparr>) = Some (InboundRequest text)
    \<and> link_receive k b ((response_packet k a text iv)\<lparr>pk_hops := h\<rparr>) = Some (InboundResponse text)
    \<and> link_receive k b ((rtt_packet k a rtt iv)\<lparr>pk_hops := h\<rparr>) = Some InboundRtt
    \<and> link_receive k b ((keepalive_packet a KEEPALIVE_REQUEST)\<lparr>pk_hops := h\<rparr>) = Some KeepAliveRequest
    \<and> link_receive k b ((keepalive_packet a KEEPALIVE_RESPONSE)\<lparr>pk_hops := h\<rparr>) = Some KeepAliveResponse
    \<and> link_receive k b ((close_packet k a iv)\<lparr>pk_hops := h\<rparr>) = Some InboundClose
    \<and> link_open_owned k b (link_seal_owned k a text iv) = Inr text
    \<and> read_identify k c sha b ((identify_packet k c a me iv)\<lparr>pk_hops := h\<rparr>) = Some (pi_public me)
    \<and> validate_proof c b ((prove_packet c sha a proven)\<lparr>pk_hops := h\<rparr>) = Some (packet_full_hash sha proven)
    \<and> verify_data_proof c b ((data_proof c sha a proven me)\<lparr>pk_hops := h\<rparr>) (pi_public me) = Some (packet_full_hash sha proven)"
proof -
  have P: "ln_id a = ln_id b" "ln_keys a = ln_keys b" "length (ln_signer a) = KEY_LEN"
    "ln_peer_signer b = ed25519_public c (ln_signer a)" using pair by (auto simp: paired_def)
  note T = token_opens[OF laws(1) iv, of "ln_keys b"]
  note S = own_signature[OF laws(2) me(1) me(2)]
  have id: "length (to_public_bytes (pi_public me)) = IDENTITY_LEN"
    "identity_from_public_bytes c sha (to_public_bytes (pi_public me)) = Inr (pi_public me)"
    using private_ok[OF laws(2) me(1), of sha] length_public[of c sha "pi_public me"]
      public_bytes_iff[of "to_public_bytes (pi_public me)" c sha "pi_public me"] by (simp_all add: me(2))
  have len: "length (packet_full_hash sha proven) = 32" by (simp add: packet_full_hash_def)
  have own: "ed25519_point c (ln_peer_signer b)" "length (ed25519_sign c (ln_signer a) m) = SIGNATURE_LEN"
    "ed25519_verify c (ln_peer_signer b) m (ed25519_sign c (ln_signer a) m)" for m
    using laws(2) P(3,4) by (simp_all add: curve_laws_def)
  have plain: "link_receive k b ((data_packet k a text iv)\<lparr>pk_hops := h\<rparr>) = Some (InboundData text)"
    "link_receive k b ((request_packet k a text iv)\<lparr>pk_hops := h\<rparr>) = Some (InboundRequest text)"
    "link_receive k b ((response_packet k a text iv)\<lparr>pk_hops := h\<rparr>) = Some (InboundResponse text)"
    "link_receive k b ((rtt_packet k a rtt iv)\<lparr>pk_hops := h\<rparr>) = Some InboundRtt"
    "link_receive k b ((close_packet k a iv)\<lparr>pk_hops := h\<rparr>) = Some InboundClose"
    "link_receive k b ((keepalive_packet a KEEPALIVE_REQUEST)\<lparr>pk_hops := h\<rparr>) = Some KeepAliveRequest"
    "link_receive k b ((keepalive_packet a KEEPALIVE_RESPONSE)\<lparr>pk_hops := h\<rparr>) = Some KeepAliveResponse"
    by (simp_all add: link_receive_def data_packet_def request_packet_def response_packet_def rtt_packet_def close_packet_def
        keepalive_packet_def link_packet_def link_decrypt_def P(1,2) T(1) link_contexts KEEPALIVE_REQUEST_def KEEPALIVE_RESPONSE_def)
  have "read_identify k c sha b ((identify_packet k c a me iv)\<lparr>pk_hops := h\<rparr>) = Some (pi_public me)"
    using S by (simp add: read_identify_def identify_packet_def sealed_packet_def link_packet_def link_decrypt_def P(1,2) T(1)
        LINK_IDENTIFY_LEN_def id Let_def)
  moreover have "validate_proof c b ((prove_packet c sha a proven)\<lparr>pk_hops := h\<rparr>) = Some (packet_full_hash sha proven)"
    using own by (simp add: validate_proof_def prove_packet_def split_data_proof_def explicit_proof_packet_def P(1) len Let_def
        DATA_PROOF_LEN_def)
  moreover have "verify_data_proof c b ((data_proof c sha a proven me)\<lparr>pk_hops := h\<rparr>) (pi_public me) = Some (packet_full_hash sha proven)"
    using S by (simp add: verify_data_proof_def data_proof_def data_proof_packet_def read_data_proof_def split_data_proof_def
        explicit_proof_packet_def P(1) len DATA_PROOF_LEN_def)
  moreover have "link_open_owned k b (link_seal_owned k a text iv) = Inr text"
    by (simp add: link_open_owned_def link_seal_owned_def P(2) T(2))
  ultimately show ?thesis using plain by blast
qed

text \<open>A pair of links, for the examples.\<close>

definition sample_link :: "bytes \<Rightarrow> bytes \<Rightarrow> link" where
  "sample_link mine theirs = \<lparr>ln_id = AddressHash 5, ln_keys = \<lparr>dk_mac = [1], dk_aes = [2]\<rparr>, ln_mode = Aes256Cbc, ln_mtu = 500,
     ln_signer = mine, ln_peer_signer = theirs, ln_resource_carry = None\<rparr>"

theorem link_traffic_witness:
  "link_receive sample_ciphers (sample_link (replicate 32 1) (replicate 32 2))
     ((close_packet sample_ciphers (sample_link (replicate 32 2) (replicate 32 1)) (replicate 16 9))\<lparr>pk_hops := 4\<rparr>) = Some InboundClose"
proof -
  have "paired sample_dh_curves (sample_link (replicate 32 2) (replicate 32 1)) (sample_link (replicate 32 1) (replicate 32 2))"
    by (simp add: paired_def sample_link_def key_lens sample_dh_curves_def sample_curves_def)
  from link_traffic[OF sample_ciphers_laws sample_dh_laws(2) disjI1[OF this], of "replicate 16 9" "replicate 64 1"] show ?thesis
    by (simp add: token_lens key_lens)
qed

text \<open>
  C13: An IDENTIFY convinces exactly by a sealed key pair with a signature over this link's id and the keys; a link
  proof exactly by the peer's signature under the link's signing key over the hash it names; a close
  exactly by the link's own id sealed under its keys.
\<close>

theorem link_acceptance:
  "(read_identify k c sha l p = Some i \<longleftrightarrow> pk_context p = CTX_LINKIDENTIFY \<and> identity_ok c sha i
      \<and> (\<exists>sg. length sg = SIGNATURE_LEN \<and> link_decrypt k l p = Inr (to_public_bytes i @ sg)
           \<and> identity_verify c i (address_slice (ln_id l) @ to_public_bytes i) sg))
   \<and> (validate_proof c l p = Some h \<longleftrightarrow> pk_packet_type p = Proof \<and> pk_destination p = ln_id l \<and> ed25519_point c (ln_peer_signer l)
      \<and> (\<exists>sg. length h = 32 \<and> length sg = SIGNATURE_LEN \<and> pk_payload p = h @ sg \<and> ed25519_verify c (ln_peer_signer l) h sg))
   \<and> (link_receive k l p = Some InboundClose \<longleftrightarrow> pk_destination p = ln_id l \<and> pk_context p = CTX_LINKCLOSE
      \<and> link_decrypt k l p = Inr (address_slice (ln_id l)))"
proof (intro conjI)
  show "read_identify k c sha l p = Some i \<longleftrightarrow> pk_context p = CTX_LINKIDENTIFY \<and> identity_ok c sha i
      \<and> (\<exists>sg. length sg = SIGNATURE_LEN \<and> link_decrypt k l p = Inr (to_public_bytes i @ sg)
           \<and> identity_verify c i (address_slice (ln_id l) @ to_public_bytes i) sg)" (is "?l \<longleftrightarrow> ?r")
  proof
    assume ?l
    then obtain bs where bs: "pk_context p = CTX_LINKIDENTIFY" "link_decrypt k l p = Inr bs" "length bs = LINK_IDENTIFY_LEN"
      "identity_from_public_bytes c sha (take IDENTITY_LEN bs) = Inr i"
      "identity_verify c i (identify_signed_message (ln_id l) (take IDENTITY_LEN bs)) (drop IDENTITY_LEN bs)"
      by (auto simp: read_identify_def Let_def split: if_splits sum.splits)
    have "length (take IDENTITY_LEN bs) = IDENTITY_LEN" using bs(3) by (simp add: LINK_IDENTIFY_LEN_def)
    from public_bytes_iff[OF this, of c sha i] bs(4) have i: "identity_ok c sha i" "to_public_bytes i = take IDENTITY_LEN bs" by blast+
    have "length (drop IDENTITY_LEN bs) = SIGNATURE_LEN" using bs(3) by (simp add: LINK_IDENTIFY_LEN_def)
    then show ?r using bs i by (auto simp: identify_signed_message_def intro!: exI[of _ "drop IDENTITY_LEN bs"])
  next
    assume ?r
    then obtain sg where r: "pk_context p = CTX_LINKIDENTIFY" "identity_ok c sha i" "length sg = SIGNATURE_LEN"
      "link_decrypt k l p = Inr (to_public_bytes i @ sg)" "identity_verify c i (address_slice (ln_id l) @ to_public_bytes i) sg" by blast
    have len: "length (to_public_bytes i) = IDENTITY_LEN" by (rule length_public[OF r(2)])
    from public_bytes_iff[OF this, of c sha i] r(2) have "identity_from_public_bytes c sha (to_public_bytes i) = Inr i" by simp
    then show ?l using r len by (simp add: read_identify_def Let_def LINK_IDENTIFY_LEN_def identify_signed_message_def)
  qed
  let ?pl = "pk_payload p"
  have "validate_proof c l p = Some h \<longleftrightarrow> pk_packet_type p = Proof \<and> pk_destination p = ln_id l \<and> length ?pl = DATA_PROOF_LEN
      \<and> ed25519_point c (ln_peer_signer l) \<and> ed25519_verify c (ln_peer_signer l) (take 32 ?pl) (drop 32 ?pl) \<and> h = take 32 ?pl"
    by (auto simp: validate_proof_def split_data_proof_def)
  moreover have "length ?pl = DATA_PROOF_LEN \<and> ed25519_verify c (ln_peer_signer l) (take 32 ?pl) (drop 32 ?pl) \<and> h = take 32 ?pl
      \<longleftrightarrow> (\<exists>sg. length h = 32 \<and> length sg = SIGNATURE_LEN \<and> ?pl = h @ sg \<and> ed25519_verify c (ln_peer_signer l) h sg)" (is "?x \<longleftrightarrow> ?y")
  proof
    assume x: ?x
    then have "length h = 32 \<and> length (drop 32 ?pl) = SIGNATURE_LEN \<and> ?pl = h @ drop 32 ?pl" by (simp add: DATA_PROOF_LEN_def)
    with x show ?y by blast
  next
    assume ?y
    then obtain sg where "length h = 32" "length sg = SIGNATURE_LEN" "?pl = h @ sg" "ed25519_verify c (ln_peer_signer l) h sg" by blast
    then show ?x by (simp add: DATA_PROOF_LEN_def)
  qed
  ultimately
  show "validate_proof c l p = Some h \<longleftrightarrow> pk_packet_type p = Proof \<and> pk_destination p = ln_id l \<and> ed25519_point c (ln_peer_signer l)
      \<and> (\<exists>sg. length h = 32 \<and> length sg = SIGNATURE_LEN \<and> pk_payload p = h @ sg \<and> ed25519_verify c (ln_peer_signer l) h sg)"
    by blast
  show "link_receive k l p = Some InboundClose \<longleftrightarrow> pk_destination p = ln_id l \<and> pk_context p = CTX_LINKCLOSE
      \<and> link_decrypt k l p = Inr (address_slice (ln_id l))"
    by (auto simp: link_receive_def link_contexts split: sum.splits list.splits)
qed

end
