(* ===== verification/ResourceWire.thy ===== *)
theory ResourceWire
  imports Hashes Msgpack Buffer
begin

text \<open>
  The wire formats of a resource transfer (\<open>resource.rs\<close>, \<open>resource/hashes.rs\<close>, \<open>framing.rs\<close>,
  \<open>map_codec.rs\<close>, \<open>control.rs\<close>, \<open>advertisement.rs\<close>). A 32-byte hash is the 256-bit word its bytes spell, a
  4-byte map hash the 32-bit word, so that the order of the arrays is the order of the words. An
  \<open>i64\<close> is a 64-bit word read by \<open>sint\<close>. A reader takes the bytes after its cursor and returns those left.
\<close>

section \<open>Constants and hashes\<close>

type_synonym hash256 = "256 word"
type_synonym part_hash = u32
type_synonym i64 = "64 word"

definition MAPHASH_LEN :: nat where "MAPHASH_LEN = 4"
definition RANDOM_HASH_LEN :: nat where "RANDOM_HASH_LEN = 4"
definition SDU :: nat where "SDU = 464"
definition FLAG_ENCRYPTED :: u64 where "FLAG_ENCRYPTED = 0x01"
definition FLAG_COMPRESSED :: u64 where "FLAG_COMPRESSED = 0x02"
definition FLAG_SPLIT :: u64 where "FLAG_SPLIT = 0x04"
definition FLAG_REQUEST :: u64 where "FLAG_REQUEST = 0x08"
definition FLAG_RESPONSE :: u64 where "FLAG_RESPONSE = 0x10"
definition FLAG_METADATA :: u64 where "FLAG_METADATA = 0x20"
definition METADATA_MAX_SIZE :: nat where "METADATA_MAX_SIZE = 16777215"
definition DEFAULT_MAX_DECOMPRESSED_SIZE :: nat where "DEFAULT_MAX_DECOMPRESSED_SIZE = 64 * 1024 * 1024"
definition HASHMAP_MAX_PARTS :: nat where "HASHMAP_MAX_PARTS = 74"
definition DEFAULT_MAX_PARTS :: nat where "DEFAULT_MAX_PARTS = 4096"
definition RESOURCE_WINDOW_MAX :: nat where "RESOURCE_WINDOW_MAX = 75"

lemmas resource_consts = MAPHASH_LEN_def RANDOM_HASH_LEN_def SDU_def METADATA_MAX_SIZE_def
  HASHMAP_MAX_PARTS_def RESOURCE_WINDOW_MAX_def

lemmas resource_flags = FLAG_ENCRYPTED_def FLAG_COMPRESSED_def FLAG_SPLIT_def FLAG_REQUEST_def FLAG_RESPONSE_def FLAG_METADATA_def

definition resource_hash :: "sha256 \<Rightarrow> bytes \<Rightarrow> bytes \<Rightarrow> hash256" where
  "resource_hash sha data random = sha (data @ random)"

definition map_hash :: "sha256 \<Rightarrow> bytes \<Rightarrow> bytes \<Rightarrow> part_hash" where
  "map_hash sha part random = of_be (take MAPHASH_LEN (full_hash sha (part @ random)))"

definition resource_proof :: "sha256 \<Rightarrow> bytes \<Rightarrow> hash256 \<Rightarrow> hash256" where
  "resource_proof sha data hash = sha (data @ to_be 32 hash)"

definition parse_proof :: "bytes \<Rightarrow> (hash256 \<times> hash256) option" where
  "parse_proof payload =
    (if length payload \<noteq> 64 then None else Some (of_be (take 32 payload), of_be (drop 32 payload)))"

section \<open>Content and parts\<close>

definition METADATA_LEN_BYTES :: nat where "METADATA_LEN_BYTES = 3"

definition pack_metadata :: "bytes \<Rightarrow> error + bytes" where
  "pack_metadata metadata =
    (if METADATA_MAX_SIZE < length metadata then Inl CapacityExceeded
     else Inr (drop 1 (to_be 4 (of_nat (length metadata) :: u32)) @ metadata))"

text \<open>The metadata, and the data left.\<close>

definition split_metadata :: "bytes \<Rightarrow> error + bytes \<times> bytes" where
  "split_metadata data =
    and_then (ok_or (slice_get data 0 METADATA_LEN_BYTES) Truncated) (\<lambda>prefix.
      let len = foldl (\<lambda>len b. push_bit 8 len OR unat b) 0 prefix;
          stop = METADATA_LEN_BYTES + len
      in and_then (ok_or (slice_get data METADATA_LEN_BYTES stop) Truncated) (\<lambda>metadata. Inr (metadata, drop stop data)))"

definition resource_content :: "bytes \<Rightarrow> bytes \<Rightarrow> bytes" where
  "resource_content data random = random @ data"

definition data_from_content :: "bytes \<Rightarrow> error + bytes" where
  "data_from_content blob = ok_or (slice_get blob RANDOM_HASH_LEN (length blob)) Truncated"

text \<open>\<open>as_chunks::<4>().0\<close>, as the words the chunks spell, and back.\<close>

fun quads :: "bytes \<Rightarrow> u32 list" where
  "quads (a # b # c # d # rest) = of_be [a, b, c, d] # quads rest"
| "quads _ = []"

definition quad_bytes :: "u32 list \<Rightarrow> bytes" where
  "quad_bytes ws = concat (map (to_be 4) ws)"

definition split_parts_with_size :: "sha256 \<Rightarrow> bytes \<Rightarrow> bytes \<Rightarrow> nat \<Rightarrow> bytes list \<times> bytes" where
  "split_parts_with_size sha token random part_size =
    (let parts = chunks (min (max part_size 1) SDU) token
     in (parts, concat (map (\<lambda>part. to_be 4 (map_hash sha part random)) parts)))"

definition split_parts :: "sha256 \<Rightarrow> bytes \<Rightarrow> bytes \<Rightarrow> bytes list \<times> bytes" where
  "split_parts sha token random = split_parts_with_size sha token random SDU"

section \<open>The map codec\<close>

definition mw_new :: "nat \<Rightarrow> bytes" where "mw_new entries = [0x80 OR of_nat entries]"

definition mw_array :: "nat \<Rightarrow> bytes" where "mw_array entries = [0x90 OR of_nat entries]"

definition mw_str_key :: "u8 \<Rightarrow> bytes" where "mw_str_key k = [0xA1, k]"

definition mw_uint :: "u64 \<Rightarrow> bytes" where
  "mw_uint v =
    (if v < 0x80 then [ucast v]
     else if unat v \<le> u8_max then [0xCC, ucast v]
     else if unat v \<le> u16_max then 0xCD # to_be 2 (ucast v :: u16)
     else if unat v \<le> u32_max then 0xCE # to_be 4 (ucast v :: u32)
     else 0xCF # to_be 8 v)"

definition mw_int :: "i64 \<Rightarrow> bytes" where
  "mw_int v =
    (if 0 \<le> sint v then mw_uint v
     else if - 32 \<le> sint v then [ucast v]
     else if - 128 \<le> sint v then [0xD0, ucast v]
     else if - 32768 \<le> sint v then 0xD1 # to_be 2 (ucast v :: u16)
     else if - 2147483648 \<le> sint v then 0xD2 # to_be 4 (ucast v :: u32)
     else 0xD3 # to_be 8 v)"

definition mw_nil :: bytes where "mw_nil = [0xC0]"

definition mw_bin :: "bytes \<Rightarrow> bytes" where
  "mw_bin b =
    (if length b \<le> u8_max then 0xC4 # [of_nat (length b)]
     else if length b \<le> u16_max then 0xC5 # to_be 2 (of_nat (length b) :: u16)
     else 0xC6 # to_be 4 (of_nat (length b) :: u32)) @ b"

type_synonym 'a reader = "bytes \<Rightarrow> error + 'a \<times> bytes"

fun mr_byte :: "u8 reader" where
  "mr_byte [] = Inl BadRequest"
| "mr_byte (b # bs) = Inr (b, bs)"

definition mr_take :: "nat \<Rightarrow> bytes reader" where
  "mr_take n bs = (if n \<le> length bs then Inr (take n bs, drop n bs) else Inl BadRequest)"

definition map_header :: "nat reader" where
  "map_header bs =
    and_then (mr_byte bs) (\<lambda>(t, bs).
      if 0x80 \<le> t \<and> t \<le> 0x8F then Inr (unat (t AND 0x0F), bs)
      else if t = 0xDE then and_then (mr_take 2 bs) (\<lambda>(n, bs). Inr (unat (of_be n :: u16), bs))
      else Inl BadRequest)"

definition mr_str_key :: "u8 reader" where
  "mr_str_key bs =
    and_then (mr_byte bs) (\<lambda>(t, bs).
      if 0xA1 \<le> t \<and> t \<le> 0xBF then and_then (mr_take (unat (t AND 0x1F)) bs) (\<lambda>(s, bs). Inr (s ! 0, bs))
      else Inl BadRequest)"

definition mr_uint :: "u64 reader" where
  "mr_uint bs =
    and_then (mr_byte bs) (\<lambda>(t, bs).
      if t \<le> 0x7F then Inr (ucast t, bs)
      else if t = 0xCC then and_then (mr_byte bs) (\<lambda>(b, bs). Inr (ucast b, bs))
      else if t = 0xCD then and_then (mr_take 2 bs) (\<lambda>(n, bs). Inr (ucast (of_be n :: u16), bs))
      else if t = 0xCE then and_then (mr_take 4 bs) (\<lambda>(n, bs). Inr (ucast (of_be n :: u32), bs))
      else if t = 0xCF then and_then (mr_take 8 bs) (\<lambda>(n, bs). Inr (of_be n, bs))
      else Inl BadRequest)"

definition mr_int :: "i64 reader" where
  "mr_int bs =
    and_then (ok_or (get_at bs 0) BadRequest) (\<lambda>t.
      if (0xCC \<le> t \<and> t \<le> 0xCF) \<or> t < 0x80
      then and_then (mr_uint bs) (\<lambda>(v, bs). if unat v < 2 ^ 63 then Inr (v, bs) else Inl BadRequest)
      else
        let bs = drop 1 bs in
        if 0xE0 \<le> t then Inr (scast t, bs)
        else if t = 0xD0 then and_then (mr_byte bs) (\<lambda>(b, bs). Inr (scast b, bs))
        else if t = 0xD1 then and_then (mr_take 2 bs) (\<lambda>(n, bs). Inr (scast (of_be n :: u16), bs))
        else if t = 0xD2 then and_then (mr_take 4 bs) (\<lambda>(n, bs). Inr (scast (of_be n :: u32), bs))
        else if t = 0xD3 then and_then (mr_take 8 bs) (\<lambda>(n, bs). Inr (of_be n, bs))
        else Inl BadRequest)"

definition mr_bin :: "bytes reader" where
  "mr_bin bs =
    and_then (mr_byte bs) (\<lambda>(t, bs).
      and_then
        (if t = 0xC4 then and_then (mr_byte bs) (\<lambda>(b, bs). Inr (unat b, bs))
         else if t = 0xC5 then and_then (mr_take 2 bs) (\<lambda>(n, bs). Inr (unat (of_be n :: u16), bs))
         else if t = 0xC6 then and_then (mr_take 4 bs) (\<lambda>(n, bs). Inr (unat (of_be n :: u32), bs))
         else Inl BadRequest)
        (\<lambda>(len, bs). mr_take len bs))"

definition bin_or_nil :: "bytes option reader" where
  "bin_or_nil bs =
    (if get_at bs 0 = Some 0xC0 then Inr (None, drop 1 bs)
     else and_then (mr_bin bs) (\<lambda>(b, bs). Inr (Some b, bs)))"

definition skip_value :: "unit reader" where
  "skip_value bs =
    and_then (mr_byte bs) (\<lambda>(t, bs).
      if t \<le> 0x7F \<or> 0xE0 \<le> t \<or> t = 0xC0 then Inr ((), bs)
      else if t = 0xCC \<or> t = 0xD0 then and_then (mr_byte bs) (\<lambda>(_, bs). Inr ((), bs))
      else if t = 0xCD \<or> t = 0xD1 then and_then (mr_take 2 bs) (\<lambda>(_, bs). Inr ((), bs))
      else if t = 0xCE \<or> t = 0xD2 then and_then (mr_take 4 bs) (\<lambda>(_, bs). Inr ((), bs))
      else if t = 0xCF \<or> t = 0xD3 then and_then (mr_take 8 bs) (\<lambda>(_, bs). Inr ((), bs))
      else if t = 0xC4 then and_then (mr_byte bs) (\<lambda>(n, bs). and_then (mr_take (unat n) bs) (\<lambda>(_, bs). Inr ((), bs)))
      else Inl BadRequest)"

section \<open>Part requests and hashmap updates\<close>

record part_request =
  rq_exhausted :: bool
  rq_last_map_hash :: "part_hash option"
  rq_resource_hash :: hash256
  rq_wanted :: "part_hash list"

definition build_request :: "hash256 \<Rightarrow> part_hash list \<Rightarrow> bytes" where
  "build_request hash wanted = 0x00 # to_be 32 hash @ quad_bytes wanted"

definition build_exhausted_request :: "part_hash \<Rightarrow> hash256 \<Rightarrow> part_hash list \<Rightarrow> bytes" where
  "build_exhausted_request last_map hash wanted = 0xFF # to_be 4 last_map @ to_be 32 hash @ quad_bytes wanted"

definition parse_request :: "bytes \<Rightarrow> error + part_request" where
  "parse_request payload =
    (let parse = (\<lambda>exhausted last_map off.
       and_then (ok_or (slice_get payload off (off + 32)) BadRequest) (\<lambda>hash.
         Inr \<lparr>rq_exhausted = exhausted, rq_last_map_hash = last_map, rq_resource_hash = of_be hash,
              rq_wanted = quads (drop (off + 32) payload)\<rparr>))
     in if get_at payload 0 = Some 0x00 then parse False None 1
        else if get_at payload 0 = Some 0xFF
        then and_then (ok_or (slice_get payload 1 (1 + MAPHASH_LEN)) BadRequest)
               (\<lambda>m. parse True (Some (of_be m)) (1 + MAPHASH_LEN))
        else Inl BadRequest)"

record hashmap_update =
  hu_resource_hash :: hash256
  hu_segment :: i64
  hu_hashes :: "part_hash list"

definition build_hmu :: "hash256 \<Rightarrow> i64 \<Rightarrow> part_hash list \<Rightarrow> bytes" where
  "build_hmu hash segment hashes = to_be 32 hash @ mw_array 2 @ mw_int segment @ mw_bin (quad_bytes hashes)"

definition parse_hmu :: "bytes \<Rightarrow> error + hashmap_update" where
  "parse_hmu payload =
    and_then (ok_or (slice_get payload 0 32) BadRequest) (\<lambda>hash.
    and_then (mr_byte (drop 32 payload)) (\<lambda>(t, bs).
      if t \<noteq> 0x92 then Inl BadRequest
      else and_then (mr_int bs) (\<lambda>(segment, bs).
      and_then (mr_bin bs) (\<lambda>(bin, bs).
        if length bin mod MAPHASH_LEN \<noteq> 0 then Inl BadRequest
        else Inr \<lparr>hu_resource_hash = of_be hash, hu_segment = segment, hu_hashes = quads bin\<rparr>))))"

section \<open>Advertisements\<close>

record advertisement =
  adv_transfer_size :: u64
  adv_data_size :: u64
  adv_parts :: u64
  adv_resource_hash :: bytes
  adv_original_hash :: bytes
  adv_random_hash :: bytes
  adv_flags :: u64
  adv_hashmap :: bytes
  adv_i :: i64
  adv_l :: i64
  adv_q :: "bytes option"

text \<open>The locals of \<open>Advertisement::parse\<close>.\<close>

record adv_fields =
  af_t :: "u64 option"
  af_d :: "u64 option"
  af_n :: "u64 option"
  af_h :: "bytes option"
  af_o :: "bytes option"
  af_r :: "bytes option"
  af_f :: "u64 option"
  af_m :: "bytes option"
  af_i :: "i64 option"
  af_l :: "i64 option"
  af_q :: "bytes option"

definition adv_field :: "u8 \<Rightarrow> adv_fields \<Rightarrow> adv_fields reader" where
  "adv_field key f bs =
    (if key = 0x74 then and_then (mr_uint bs) (\<lambda>(v, bs). Inr (f\<lparr>af_t := Some v\<rparr>, bs))
     else if key = 0x64 then and_then (mr_uint bs) (\<lambda>(v, bs). Inr (f\<lparr>af_d := Some v\<rparr>, bs))
     else if key = 0x6E then and_then (mr_uint bs) (\<lambda>(v, bs). Inr (f\<lparr>af_n := Some v\<rparr>, bs))
     else if key = 0x68 then and_then (mr_bin bs) (\<lambda>(v, bs). Inr (f\<lparr>af_h := Some v\<rparr>, bs))
     else if key = 0x6F then and_then (mr_bin bs) (\<lambda>(v, bs). Inr (f\<lparr>af_o := Some v\<rparr>, bs))
     else if key = 0x72 then and_then (mr_bin bs) (\<lambda>(v, bs). Inr (f\<lparr>af_r := Some v\<rparr>, bs))
     else if key = 0x66 then and_then (mr_uint bs) (\<lambda>(v, bs). Inr (f\<lparr>af_f := Some v\<rparr>, bs))
     else if key = 0x6D then and_then (mr_bin bs) (\<lambda>(v, bs). Inr (f\<lparr>af_m := Some v\<rparr>, bs))
     else if key = 0x69 then and_then (mr_int bs) (\<lambda>(v, bs). Inr (f\<lparr>af_i := Some v\<rparr>, bs))
     else if key = 0x6C then and_then (mr_int bs) (\<lambda>(v, bs). Inr (f\<lparr>af_l := Some v\<rparr>, bs))
     else if key = 0x71 then and_then (bin_or_nil bs) (\<lambda>(v, bs). Inr (f\<lparr>af_q := v\<rparr>, bs))
     else and_then (skip_value bs) (\<lambda>(_, bs). Inr (f, bs)))"

fun adv_loop :: "nat \<Rightarrow> adv_fields \<Rightarrow> bytes \<Rightarrow> error + adv_fields" where
  "adv_loop 0 f bs = Inr f"
| "adv_loop (Suc n) f bs =
     and_then (mr_str_key bs) (\<lambda>(key, bs). and_then (adv_field key f bs) (\<lambda>(f, bs). adv_loop n f bs))"

definition parse_advertisement :: "bytes \<Rightarrow> error + advertisement" where
  "parse_advertisement bs =
    and_then (map_header bs) (\<lambda>(n, bs).
    and_then (adv_loop n \<lparr>af_t = None, af_d = None, af_n = None, af_h = None, af_o = None, af_r = None,
        af_f = None, af_m = None, af_i = None, af_l = None, af_q = None\<rparr> bs) (\<lambda>f.
    and_then (ok_or (af_t f) BadRequest) (\<lambda>t. and_then (ok_or (af_d f) BadRequest) (\<lambda>d.
    and_then (ok_or (af_n f) BadRequest) (\<lambda>n. and_then (ok_or (af_h f) BadRequest) (\<lambda>h.
    and_then (ok_or (af_o f) BadRequest) (\<lambda>original. and_then (ok_or (af_r f) BadRequest) (\<lambda>r.
    and_then (ok_or (af_f f) BadRequest) (\<lambda>flags. and_then (ok_or (af_m f) BadRequest) (\<lambda>m.
    and_then (ok_or (af_i f) BadRequest) (\<lambda>i. and_then (ok_or (af_l f) BadRequest) (\<lambda>l.
      Inr \<lparr>adv_transfer_size = t, adv_data_size = d, adv_parts = n, adv_resource_hash = h, adv_original_hash = original,
           adv_random_hash = r, adv_flags = flags, adv_hashmap = m, adv_i = i, adv_l = l, adv_q = af_q f\<rparr>))))))))))))"

definition pack_advertisement :: "advertisement \<Rightarrow> bytes" where
  "pack_advertisement a =
     mw_new 11
     @ mw_str_key 0x74 @ mw_uint (adv_transfer_size a)
     @ mw_str_key 0x64 @ mw_uint (adv_data_size a)
     @ mw_str_key 0x6E @ mw_uint (adv_parts a)
     @ mw_str_key 0x68 @ mw_bin (adv_resource_hash a)
     @ mw_str_key 0x72 @ mw_bin (adv_random_hash a)
     @ mw_str_key 0x6F @ mw_bin (adv_original_hash a)
     @ mw_str_key 0x69 @ mw_int (adv_i a)
     @ mw_str_key 0x6C @ mw_int (adv_l a)
     @ mw_str_key 0x71 @ (case adv_q a of Some v \<Rightarrow> mw_bin v | None \<Rightarrow> mw_nil)
     @ mw_str_key 0x66 @ mw_uint (adv_flags a)
     @ mw_str_key 0x6D @ mw_bin (adv_hashmap a)"

definition hashmap_parts :: "advertisement \<Rightarrow> nat" where
  "hashmap_parts a = length (adv_hashmap a) div MAPHASH_LEN"

definition adv_has_metadata :: "advertisement \<Rightarrow> bool" where
  "adv_has_metadata a \<longleftrightarrow> adv_flags a AND FLAG_METADATA \<noteq> 0"

definition advertise :: "sha256 \<Rightarrow> bytes \<Rightarrow> bytes \<Rightarrow> u32 \<Rightarrow> bool \<Rightarrow> advertisement \<times> bytes list" where
  "advertise sha data token random compressed =
    (let hash = resource_hash sha data (to_be 4 random);
         (parts, hashmap) = split_parts sha token (to_be 4 random)
     in (\<lparr>adv_transfer_size = of_nat (length token), adv_data_size = of_nat (length data), adv_parts = of_nat (length parts),
          adv_resource_hash = to_be 32 hash, adv_original_hash = to_be 32 hash, adv_random_hash = to_be 4 random,
          adv_flags = (if compressed then FLAG_ENCRYPTED OR FLAG_COMPRESSED else FLAG_ENCRYPTED),
          adv_hashmap = hashmap, adv_i = 1, adv_l = 1, adv_q = None\<rparr>, parts))"

section \<open>Reading what was written\<close>

lemma mr_take_append: "length u = n \<Longrightarrow> mr_take n (u @ rest) = Inr (u, rest)"
  by (simp add: mr_take_def)

lemma mr_take_be [simp]: "mr_take 2 (to_be 2 w @ rest) = Inr (to_be 2 w, rest)"
  "mr_take 4 (to_be 4 w @ rest) = Inr (to_be 4 w, rest)" "mr_take 8 (to_be 8 w @ rest) = Inr (to_be 8 w, rest)"
  by (simp_all add: mr_take_append)

lemma ucast_down_up:
  fixes v :: u64
  assumes "unat v < 2 ^ LENGTH('a::len)" "LENGTH('a) \<le> 64"
  shows "ucast (ucast v :: 'a word) = v"
proof (rule word_unat_eq_iff[THEN iffD2])
  have u: "unat (ucast v :: 'a word) = unat v" using assms(1) by (rule unat_down)
  show "unat (ucast (ucast v :: 'a word) :: u64) = unat v"
    using unsigned_less[of v, where 'a = nat] by (subst unsigned_ucast_eq) (simp add: u take_bit_nat_eq_self)
qed

lemma mr_uint_written: "mr_uint (mw_uint v @ rest) = Inr (v, rest)"
proof -
  have lt: "v < 0x80 \<longleftrightarrow> unat v < 128" by (simp add: word_less_nat_alt)
  consider "unat v < 128" | "\<not> unat v < 128" "unat v < 256" | "\<not> unat v < 256" "unat v < 65536"
    | "\<not> unat v < 65536" "unat v < 4294967296" | "\<not> unat v < 4294967296" by blast
  then show ?thesis
  proof cases
    case 1
    then have "unat (ucast v :: u8) = unat v" by (simp add: unat_down)
    with 1 have "(ucast v :: u8) \<le> 0x7F" by (simp add: word_le_nat_alt)
    with 1 show ?thesis by (simp add: mr_uint_def mw_uint_def lt ucast_down_up)
  qed (simp_all add: mr_uint_def mw_uint_def lt u8_max_def u16_max_def u32_max_def ucast_down_up)
qed

lemma mw_uint_head: "\<exists>t w. mw_uint v = t # w \<and> ((0xCC \<le> t \<and> t \<le> 0xCF) \<or> t < 0x80)"
proof (cases "v < 0x80")
  case True
  then have v: "unat v < 128" by (simp add: word_less_nat_alt)
  then have "unat (ucast v :: u8) = unat v" by (simp add: unat_down)
  with v have "(ucast v :: u8) < 0x80" by (simp add: word_less_nat_alt)
  with True show ?thesis by (simp add: mw_uint_def)
qed (simp add: mw_uint_def)

lemma mr_int_written: "mr_int (mw_int v @ rest) = Inr (v, rest)"
proof (cases "0 \<le> sint v")
  case True
  obtain t w where tw: "mw_uint v = t # w" "(0xCC \<le> t \<and> t \<le> 0xCF) \<or> t < 0x80" using mw_uint_head by blast
  have "sint v < 2 ^ 63" using sint_range_size[of v] by (simp add: word_size)
  moreover have "uint v = take_bit 64 (sint v)" by (simp add: uint_sint)
  ultimately have "uint v < 2 ^ 63" using True by (simp add: take_bit_eq_mod)
  moreover have "uint v = int (unat v)" by simp
  ultimately have "unat v < 2 ^ 63" by (metis of_nat_less_iff of_nat_numeral of_nat_power)
  moreover have "get_at (t # w @ rest) 0 = Some t" by (simp add: get_at_def)
  ultimately show ?thesis using True tw mr_uint_written[of v rest] by (simp add: mr_int_def mw_int_def)
next
  case False
  have n: "scast (ucast v :: u8) = v" if "- 128 \<le> sint v" using False that by (intro sint_narrow) simp_all
  have n16: "scast (ucast v :: u16) = v" if "- 32768 \<le> sint v" using False that by (intro sint_narrow) simp_all
  have n32: "scast (ucast v :: u32) = v" if "- 2147483648 \<le> sint v" using False that by (intro sint_narrow) simp_all
  have head: "0xE0 \<le> (ucast v :: u8)" "\<not> (ucast v :: u8) < 0x80" "\<not> (ucast v :: u8) \<le> 0xCF" if "- 32 \<le> sint v"
  proof -
    have "sint (scast (ucast v :: u8) :: u64) = sint (ucast v :: u8)" by (simp add: sint_up_scast is_up)
    then have "sint (ucast v :: u8) = sint v" using n that by simp
    then have "0xE0 \<le> (ucast v :: u8)" using that False by (intro negative_fixint) simp_all
    then show "0xE0 \<le> (ucast v :: u8)" "\<not> (ucast v :: u8) < 0x80" "\<not> (ucast v :: u8) \<le> 0xCF"
      by (simp_all add: word_le_def word_less_def)
  qed
  show ?thesis using False n n16 n32 head by (simp add: mr_int_def mw_int_def get_at_def)
qed

lemma mr_bin_written:
  assumes "length b \<le> u32_max"
  shows "mr_bin (mw_bin b @ rest) = Inr (b, rest)"
proof -
  have t: "mr_take (length b) (b @ rest) = Inr (b, rest)" by (simp add: mr_take_append)
  consider "length b \<le> 255" | "255 < length b" "length b \<le> 65535" | "65535 < length b" by linarith
  then show ?thesis
  proof cases
    case 1
    then have "unat (of_nat (length b) :: u8) = length b" by (simp add: unat_of_nat)
    with 1 t show ?thesis by (simp add: mr_bin_def mw_bin_def u8_max_def)
  next
    case 2
    then have "unat (of_nat (length b) :: u16) = length b" by (simp add: unat_of_nat)
    with 2 t show ?thesis by (simp add: mr_bin_def mw_bin_def u8_max_def u16_max_def)
  next
    case 3
    then have "unat (of_nat (length b) :: u32) = length b" using assms by (simp add: unat_of_nat u32_max_def)
    with 3 t show ?thesis by (simp add: mr_bin_def mw_bin_def u8_max_def u16_max_def)
  qed
qed

lemma bin_or_nil_written:
  assumes "\<forall>b. v = Some b \<longrightarrow> length b \<le> u32_max"
  shows "bin_or_nil ((case v of Some b \<Rightarrow> mw_bin b | None \<Rightarrow> mw_nil) @ rest) = Inr (v, rest)"
proof (cases v)
  case (Some b)
  have "get_at (mw_bin b @ rest) 0 \<noteq> Some 0xC0" by (simp add: mw_bin_def get_at_def)
  with Some assms mr_bin_written[of b rest] show ?thesis by (simp add: bin_or_nil_def)
qed (simp add: bin_or_nil_def mw_nil_def get_at_def)

lemma mr_str_key_written: "mr_str_key (mw_str_key k @ rest) = Inr (k, rest)"
  by (simp add: mr_str_key_def mw_str_key_def mr_take_def)

lemmas mr_written = mr_uint_written mr_int_written mr_bin_written bin_or_nil_written mr_str_key_written

section \<open>Words of four bytes\<close>

lemma be_quad: "\<exists>a b c d. to_be 4 (w :: u32) = [a, b, c, d]"
proof -
  have l: "length xs = 4 \<Longrightarrow> \<exists>a b c d. xs = [a, b, c, d]" for xs :: bytes by (auto simp: numeral_eq_Suc length_Suc_conv)
  show ?thesis by (rule l) simp
qed

lemma quads_written: "quads (quad_bytes ws) = ws"
proof (induction ws)
  case (Cons w ws)
  obtain a b c d where q: "to_be 4 w = [a, b, c, d]" using be_quad by blast
  have "of_be [a, b, c, d] = w" by (simp flip: q)
  with Cons q show ?case by (simp add: quad_bytes_def)
qed (simp add: quad_bytes_def)

lemma length_quad_bytes [simp]: "length (quad_bytes ws) = 4 * length ws"
  by (induction ws) (simp_all add: quad_bytes_def)

lemma of_be_256 [simp]: "of_be (to_be 32 (h :: hash256)) = h"
  by (simp add: of_be_to_be)

section \<open>Round trips\<close>

lemma request_written:
  "parse_request (build_request h ws) = Inr \<lparr>rq_exhausted = False, rq_last_map_hash = None, rq_resource_hash = h, rq_wanted = ws\<rparr>"
  by (simp add: parse_request_def build_request_def Let_def get_at_def slice_get_def quads_written)

lemma exhausted_request_written:
  "parse_request (build_exhausted_request m h ws)
     = Inr \<lparr>rq_exhausted = True, rq_last_map_hash = Some m, rq_resource_hash = h, rq_wanted = ws\<rparr>"
  by (simp add: parse_request_def build_exhausted_request_def Let_def get_at_def slice_get_def quads_written MAPHASH_LEN_def)

lemma hmu_written:
  "4 * length hs \<le> u32_max \<Longrightarrow> parse_hmu (build_hmu h s hs) = Inr \<lparr>hu_resource_hash = h, hu_segment = s, hu_hashes = hs\<rparr>"
proof -
  assume l: "4 * length hs \<le> u32_max"
  have "mr_bin (mw_bin (quad_bytes hs)) = Inr (quad_bytes hs, [])" using mr_bin_written[of "quad_bytes hs" "[]"] l by simp
  then show ?thesis
    by (simp add: parse_hmu_def build_hmu_def slice_get_def mw_array_def mr_int_written quads_written MAPHASH_LEN_def)
qed

text \<open>The advertisements whose byte fields the format can carry.\<close>

definition adv_sized :: "advertisement \<Rightarrow> bool" where
  "adv_sized a \<longleftrightarrow> length (adv_resource_hash a) \<le> u32_max \<and> length (adv_original_hash a) \<le> u32_max
     \<and> length (adv_random_hash a) \<le> u32_max \<and> length (adv_hashmap a) \<le> u32_max
     \<and> (case adv_q a of None \<Rightarrow> True | Some q \<Rightarrow> length q \<le> u32_max)"

text \<open>
  A packed advertisement is read back exactly, whatever bytes follow it.
\<close>

theorem advertisement_roundtrip:
  assumes "adv_sized a"
  shows "parse_advertisement (pack_advertisement a @ rest) = Inr a"
proof -
  have h: "map_header (mw_new 11 @ w) = Inr (11, w)" for w by (simp add: map_header_def mw_new_def)
  have q: "\<forall>b. adv_q a = Some b \<longrightarrow> length b \<le> u32_max" using assms by (auto simp: adv_sized_def)
  have loop: "adv_loop (Suc n) f (mw_str_key k @ w) = and_then (adv_field k f w) (\<lambda>(f, bs). adv_loop n f bs)" for n f k w
    by (simp add: mr_str_key_written)
  have n: "(11 :: nat) = Suc (Suc (Suc (Suc (Suc (Suc (Suc (Suc (Suc (Suc (Suc 0))))))))))" by simp
  show ?thesis
    unfolding parse_advertisement_def pack_advertisement_def append_assoc h and_then.simps prod.case
    by (subst n) (use assms in \<open>simp add: loop adv_field_def mr_written q adv_sized_def del: adv_loop.simps(2)\<close>)
qed

theorem advertisement_roundtrip_witness:
  "parse_advertisement (pack_advertisement \<lparr>adv_transfer_size = 300, adv_data_size = 70000, adv_parts = 2,
       adv_resource_hash = replicate 32 1, adv_original_hash = replicate 32 2, adv_random_hash = [1, 2, 3, 4], adv_flags = 3,
       adv_hashmap = [9, 9, 9, 9], adv_i = - 1, adv_l = 2, adv_q = Some [5]\<rparr> @ [0, 0])
     = Inr \<lparr>adv_transfer_size = 300, adv_data_size = 70000, adv_parts = 2, adv_resource_hash = replicate 32 1,
       adv_original_hash = replicate 32 2, adv_random_hash = [1, 2, 3, 4], adv_flags = 3, adv_hashmap = [9, 9, 9, 9],
       adv_i = - 1, adv_l = 2, adv_q = Some [5]\<rparr>"
  by (rule advertisement_roundtrip) (simp add: adv_sized_def u32_max_def)

end
