(* ===== verification/Resource.thy ===== *)
theory Resource
  imports ResourceWire "HOL-Library.Product_Lexorder"
begin

text \<open>
  The two halves of one resource segment (\<open>resource/outgoing.rs\<close>, \<open>resource/incoming.rs\<close>). SHA-256 and the
  bounded bz2 decoder are arguments; the decoder is \<open>None\<close> when its feature is off. A \<open>usize\<close> is that of a 64-bit target, so the conversion of a
  wire \<open>u64\<close> into one does not fail.
\<close>

section \<open>Sending\<close>

definition MAX_REROLLS :: nat where "MAX_REROLLS = 8"

record outgoing =
  og_hash :: hash256
  og_original_hash :: hash256
  og_random_hash :: u32
  og_compressed :: bool
  og_has_metadata :: bool
  og_segment_index :: i64
  og_total_segments :: i64
  og_total_data_size :: u64
  og_request_id :: "128 word option"
  og_is_request :: bool
  og_token :: bytes
  og_part_size :: nat
  og_map_hashes :: "part_hash list"
  og_by_hash :: "(part_hash \<times> nat) list"
  og_expected_proof :: hash256

text \<open>The closure \<open>part\<close> of \<open>from_token\<close>, and its collision test over neighbours of the sorted map.\<close>

definition token_slice :: "bytes \<Rightarrow> nat \<Rightarrow> nat \<Rightarrow> bytes" where
  "token_slice token part_size i = take (min ((i + 1) * part_size) (length token) - i * part_size) (drop (i * part_size) token)"

definition collides :: "bytes \<Rightarrow> nat \<Rightarrow> (part_hash \<times> nat) list \<Rightarrow> bool" where
  "collides token part_size by_hash =
    list_ex (\<lambda>((h, i), (h', j)). h = h' \<and> token_slice token part_size i \<noteq> token_slice token part_size j)
      (zip by_hash (tl by_hash))"

definition hash_parts :: "sha256 \<Rightarrow> bytes \<Rightarrow> nat \<Rightarrow> u32 \<Rightarrow> part_hash list" where
  "hash_parts sha token part_size random = map (\<lambda>part. map_hash sha part (to_be 4 random)) (chunks part_size token)"

definition redraw :: "sha256 \<Rightarrow> u32 \<Rightarrow> u32" where
  "redraw sha random = of_be (take RANDOM_HASH_LEN (full_hash sha (to_be 4 random)))"

definition sort_map :: "part_hash list \<Rightarrow> (part_hash \<times> nat) list" where
  "sort_map map_hashes = sort (zip map_hashes [0..<length map_hashes])"

text \<open>The loop of \<open>from_token\<close>; \<open>rerolls\<close> never passes its bound.\<close>

function draw_map :: "sha256 \<Rightarrow> bytes \<Rightarrow> nat \<Rightarrow> u32 \<Rightarrow> nat \<Rightarrow> u32 \<times> part_hash list \<times> (part_hash \<times> nat) list" where
  "draw_map sha token part_size random rerolls =
    (let map_hashes = hash_parts sha token part_size random;
         by_hash = sort_map map_hashes
     in if \<not> collides token part_size by_hash \<or> MAX_REROLLS \<le> rerolls then (random, map_hashes, by_hash)
        else draw_map sha token part_size (redraw sha random) (rerolls + 1))"
  by pat_completeness auto

termination
  by (relation "measure (\<lambda>(sha, token, part_size, random, rerolls). MAX_REROLLS - rerolls)") auto

declare draw_map.simps [simp del]

definition from_token :: "sha256 \<Rightarrow> bytes \<Rightarrow> bytes \<Rightarrow> u32 \<Rightarrow> bool \<Rightarrow> nat \<Rightarrow> outgoing" where
  "from_token sha data token random compressed part_size =
    (let part_size = max part_size 1;
         (random, map_hashes, by_hash) = draw_map sha token part_size random 0;
         hash = resource_hash sha data (to_be 4 random)
     in \<lparr>og_hash = hash, og_original_hash = hash, og_random_hash = random, og_compressed = compressed,
         og_has_metadata = False, og_segment_index = 1, og_total_segments = 1,
         og_total_data_size = of_nat (length data), og_request_id = None, og_is_request = False, og_token = token,
         og_part_size = part_size, og_map_hashes = map_hashes, og_by_hash = by_hash,
         og_expected_proof = resource_proof sha data hash\<rparr>)"

definition new_with_part_size :: "sha256 \<Rightarrow> bytes \<Rightarrow> bytes \<Rightarrow> u32 \<Rightarrow> bool \<Rightarrow> nat \<Rightarrow> outgoing" where
  "new_with_part_size sha data token random compressed part_size = from_token sha data token random compressed part_size"

definition new_outgoing :: "sha256 \<Rightarrow> bytes \<Rightarrow> bytes \<Rightarrow> u32 \<Rightarrow> bool \<Rightarrow> outgoing" where
  "new_outgoing sha data token random compressed = new_with_part_size sha data token random compressed SDU"

definition with_segment :: "outgoing \<Rightarrow> i64 \<Rightarrow> i64 \<Rightarrow> u64 \<Rightarrow> hash256 \<Rightarrow> outgoing" where
  "with_segment g index segments total_data_size original =
     g\<lparr>og_segment_index := index, og_total_segments := segments, og_total_data_size := total_data_size,
       og_original_hash := (if index = 1 then og_hash g else original)\<rparr>"

definition with_request_id :: "outgoing \<Rightarrow> 128 word \<Rightarrow> outgoing" where
  "with_request_id g request_id = g\<lparr>og_request_id := Some request_id\<rparr>"

definition with_request :: "outgoing \<Rightarrow> 128 word \<Rightarrow> outgoing" where
  "with_request g request_id = g\<lparr>og_request_id := Some request_id, og_is_request := True\<rparr>"

definition with_metadata :: "outgoing \<Rightarrow> outgoing" where
  "with_metadata g = g\<lparr>og_has_metadata := True\<rparr>"

definition clamp :: "nat \<Rightarrow> nat \<Rightarrow> nat \<Rightarrow> nat" where
  "clamp lo hi x = min (max x lo) hi"

definition advertisement_with_hash_limit :: "outgoing \<Rightarrow> nat \<Rightarrow> advertisement" where
  "advertisement_with_hash_limit g hash_limit =
    (let n = min (length (og_map_hashes g)) (clamp 1 HASHMAP_MAX_PARTS hash_limit);
         flags = FLAG_ENCRYPTED;
         flags = (if og_compressed g then flags OR FLAG_COMPRESSED else flags);
         flags = (if og_request_id g \<noteq> None then flags OR (if og_is_request g then FLAG_REQUEST else FLAG_RESPONSE) else flags);
         flags = (if og_has_metadata g then flags OR FLAG_METADATA else flags);
         flags = (if 1 < sint (og_total_segments g) then flags OR FLAG_SPLIT else flags)
     in \<lparr>adv_transfer_size = of_nat (length (og_token g)), adv_data_size = og_total_data_size g,
         adv_parts = of_nat (length (og_map_hashes g)), adv_resource_hash = to_be 32 (og_hash g),
         adv_original_hash = to_be 32 (og_original_hash g), adv_random_hash = to_be 4 (og_random_hash g),
         adv_flags = flags, adv_hashmap = quad_bytes (take n (og_map_hashes g)), adv_i = og_segment_index g,
         adv_l = og_total_segments g, adv_q = map_option (to_be 16) (og_request_id g)\<rparr>)"

definition og_advertisement :: "outgoing \<Rightarrow> advertisement" where
  "og_advertisement g = advertisement_with_hash_limit g HASHMAP_MAX_PARTS"

definition og_part :: "outgoing \<Rightarrow> nat \<Rightarrow> bytes option" where
  "og_part g index =
    (case checked_mul u64_max index (og_part_size g) of
       None \<Rightarrow> None
     | Some start \<Rightarrow>
         (case slice_get (og_token g) start (min (start + og_part_size g) (length (og_token g))) of
            None \<Rightarrow> None | Some part \<Rightarrow> if part = [] then None else Some part))"

definition indices_of :: "outgoing \<Rightarrow> part_hash \<Rightarrow> nat list" where
  "indices_of g m = map snd (takeWhile (\<lambda>(h, _). h = m) (dropWhile (\<lambda>(h, _). h < m) (og_by_hash g)))"

definition copies_of :: "outgoing \<Rightarrow> nat \<Rightarrow> nat list" where
  "copies_of g index = (case get_at (og_map_hashes g) index of None \<Rightarrow> [] | Some m \<Rightarrow> indices_of g m)"

definition first_of :: "'a list \<Rightarrow> 'a option" where
  "first_of xs = (case xs of [] \<Rightarrow> None | x # _ \<Rightarrow> Some x)"

definition requested_indices :: "outgoing \<Rightarrow> part_request \<Rightarrow> nat list" where
  "requested_indices g q = List.map_filter (\<lambda>m. first_of (indices_of g m)) (rq_wanted q)"

definition serve :: "outgoing \<Rightarrow> part_request \<Rightarrow> bytes list" where
  "serve g q = List.map_filter (og_part g) (requested_indices g q)"

text \<open>The position after \<open>last_map_hash\<close>: the first one at the end of a hashmap segment, else the last.\<close>

definition resume_at :: "outgoing \<Rightarrow> part_hash \<Rightarrow> nat \<Rightarrow> nat" where
  "resume_at g last_map_hash hash_limit =
    (case map (\<lambda>i. i + 1) (indices_of g last_map_hash) of
       [] \<Rightarrow> length (og_map_hashes g)
     | i # rest \<Rightarrow> foldl (\<lambda>found nxt. if found mod hash_limit = 0 then found else nxt) i rest)"

definition hmu_after_with_hash_limit :: "outgoing \<Rightarrow> part_hash \<Rightarrow> nat \<Rightarrow> bytes" where
  "hmu_after_with_hash_limit g last_map_hash hash_limit =
    (let hash_limit = clamp 1 HASHMAP_MAX_PARTS hash_limit;
         start = resume_at g last_map_hash hash_limit;
         stop = min (start + hash_limit) (length (og_map_hashes g))
     in build_hmu (og_hash g) (of_nat (start div hash_limit)) (take (stop - start) (drop start (og_map_hashes g))))"

definition hmu_after :: "outgoing \<Rightarrow> part_hash \<Rightarrow> bytes" where
  "hmu_after g last_map_hash = hmu_after_with_hash_limit g last_map_hash HASHMAP_MAX_PARTS"

section \<open>Receiving\<close>

record incoming =
  ic_hash :: hash256
  ic_random_hash :: bytes
  ic_compressed :: bool
  ic_has_metadata :: bool
  ic_total_parts :: nat
  ic_hashmap :: "part_hash option list"
  ic_hashmap_height :: nat
  ic_segment_len :: nat
  ic_transfer_size :: nat
  ic_have :: "bool list"
  ic_received :: nat
  ic_token :: bytes
  ic_part_size :: "nat option"
  ic_tail :: "bytes option"
  ic_consecutive :: nat
  ic_window :: nat
  ic_max_parts :: nat

text \<open>Filling empty slots from an iterator: the slots, and how many were filled.\<close>

fun fill_slots :: "'a option list \<Rightarrow> 'a list \<Rightarrow> 'a option list \<times> nat" where
  "fill_slots (None # slots) (m # ms) = (let (slots, added) = fill_slots slots ms in (Some m # slots, added + 1))"
| "fill_slots (Some h # slots) (m # ms) = (let (slots, added) = fill_slots slots ms in (Some h # slots, added))"
| "fill_slots slots _ = (slots, 0)"

definition incoming_with_max_parts :: "advertisement \<Rightarrow> nat \<Rightarrow> error + incoming" where
  "incoming_with_max_parts adv max_parts =
    (if length (adv_resource_hash adv) \<noteq> 32 then Inl BadRequest
     else if max_parts < unat (adv_parts adv) then Inl CapacityExceeded
     else
       let total_parts = unat (adv_parts adv);
           advertised = length (adv_hashmap adv) div MAPHASH_LEN;
           transfer_size = unat (adv_transfer_size adv)
       in if length (adv_hashmap adv) mod MAPHASH_LEN \<noteq> 0 \<or> total_parts < advertised \<or> (advertised = 0 \<and> 0 < total_parts)
             \<or> length (adv_random_hash adv) \<noteq> RANDOM_HASH_LEN \<or> transfer_size < total_parts
          then Inl BadRequest
          else Inr \<lparr>ic_hash = of_be (adv_resource_hash adv), ic_random_hash = adv_random_hash adv,
               ic_compressed = (adv_flags adv AND FLAG_COMPRESSED \<noteq> 0),
               ic_has_metadata = (adv_has_metadata adv \<and> sint (adv_i adv) \<le> 1), ic_total_parts = total_parts,
               ic_hashmap = fst (fill_slots (replicate total_parts None) (quads (adv_hashmap adv))),
               ic_hashmap_height = advertised,
               ic_segment_len = (if advertised < total_parts then advertised else HASHMAP_MAX_PARTS),
               ic_transfer_size = transfer_size, ic_have = replicate total_parts False, ic_received = 0,
               ic_token = [], ic_part_size = None, ic_tail = None, ic_consecutive = 0,
               ic_window = HASHMAP_MAX_PARTS, ic_max_parts = max_parts\<rparr>)"

definition new_incoming :: "advertisement \<Rightarrow> error + incoming" where
  "new_incoming adv = incoming_with_max_parts adv DEFAULT_MAX_PARTS"

definition set_window :: "incoming \<Rightarrow> nat \<Rightarrow> incoming" where
  "set_window s window = s\<lparr>ic_window := clamp 1 RESOURCE_WINDOW_MAX window\<rparr>"

definition with_window :: "incoming \<Rightarrow> nat \<Rightarrow> incoming" where
  "with_window s window = set_window s window"

definition window_range :: "incoming \<Rightarrow> nat list" where
  "window_range s = [ic_consecutive s..<min (ic_consecutive s + ic_window s) (ic_total_parts s)]"

text \<open>\<open>map_while\<close>, and the scans of the window.\<close>

fun map_while :: "('a \<Rightarrow> 'b option) \<Rightarrow> 'a list \<Rightarrow> 'b list" where
  "map_while f [] = []"
| "map_while f (x # xs) = (case f x of None \<Rightarrow> [] | Some y \<Rightarrow> y # map_while f xs)"

definition missing_known :: "incoming \<Rightarrow> part_hash list" where
  "missing_known s =
     map snd (filter (\<lambda>(i, _). \<not> ic_have s ! i) (map_while (\<lambda>i. map_option (Pair i) (ic_hashmap s ! i)) (window_range s)))"

fun wanted_until :: "(nat \<Rightarrow> 'a option) \<Rightarrow> nat list \<Rightarrow> 'a list \<times> bool" where
  "wanted_until known [] = ([], False)"
| "wanted_until known (i # is) =
     (case known i of None \<Rightarrow> ([], True) | Some m \<Rightarrow> let (ms, exhausted) = wanted_until known is in (m # ms, exhausted))"

definition next_request :: "incoming \<Rightarrow> part_hash list \<times> bool" where
  "next_request s = wanted_until (\<lambda>i. ic_hashmap s ! i) (filter (\<lambda>i. \<not> ic_have s ! i) (window_range s))"

definition last_known_hash :: "incoming \<Rightarrow> part_hash" where
  "last_known_hash s =
    (if ic_hashmap_height s = 0 then 0
     else case ic_hashmap s ! (ic_hashmap_height s - 1) of None \<Rightarrow> 0 | Some m \<Rightarrow> m)"

definition request_with :: "incoming \<Rightarrow> part_hash list \<Rightarrow> bool \<Rightarrow> bytes" where
  "request_with s wanted exhausted =
    (if exhausted then build_exhausted_request (last_known_hash s) (ic_hash s) wanted
     else build_request (ic_hash s) wanted)"

definition all_known_collected :: "incoming \<Rightarrow> bool" where
  "all_known_collected s \<longleftrightarrow> ic_received s = ic_hashmap_height s"

definition have_all_hashes :: "incoming \<Rightarrow> bool" where
  "have_all_hashes s \<longleftrightarrow> ic_total_parts s \<le> ic_hashmap_height s"

definition needs_hmu :: "incoming \<Rightarrow> bool" where
  "needs_hmu s \<longleftrightarrow> get_at (ic_hashmap s) (ic_consecutive s) = Some None"

definition request_parts :: "incoming \<Rightarrow> part_hash list \<Rightarrow> bytes" where
  "request_parts s wanted = build_request (ic_hash s) wanted"

definition solicit_hmu :: "incoming \<Rightarrow> bytes" where
  "solicit_hmu s = request_with s [] True"

definition ingest_hmu :: "incoming \<Rightarrow> hashmap_update \<Rightarrow> incoming \<times> nat" where
  "ingest_hmu s hmu =
    (if sint (hu_segment hmu) < 0 then (s, 0)
     else case checked_mul u64_max (nat (sint (hu_segment hmu))) (ic_segment_len s) of
       None \<Rightarrow> (s, 0)
     | Some start \<Rightarrow>
         let (slots, added) = fill_slots (drop start (ic_hashmap s)) (hu_hashes hmu)
         in (s\<lparr>ic_hashmap := take start (ic_hashmap s) @ slots, ic_hashmap_height := ic_hashmap_height s + added\<rparr>, added))"

definition write_part :: "incoming \<Rightarrow> nat \<Rightarrow> nat \<Rightarrow> bytes \<Rightarrow> incoming \<times> bool" where
  "write_part s i part_size part =
    (let start = i * part_size; stop = min (start + part_size) (ic_transfer_size s)
     in if length part \<noteq> stop - start then (s, False)
        else (s\<lparr>ic_token := take start (ic_token s) @ part @ drop stop (ic_token s)\<rparr>, True))"

definition size_fits :: "incoming \<Rightarrow> nat \<Rightarrow> nat \<Rightarrow> bool" where
  "size_fits s i len =
    (let last_part = ic_total_parts s - 1
     in if i = last_part then len = ic_transfer_size s
        else 0 < len \<and> len * last_part < ic_transfer_size s \<and> ic_transfer_size s \<le> len * ic_total_parts s)"

text \<open>The held last part, once the others fix the part len.\<close>

definition place_tail :: "incoming \<Rightarrow> nat \<Rightarrow> incoming" where
  "place_tail s len =
    (let last_part = ic_total_parts s - 1
     in case ic_tail s of
          None \<Rightarrow> s
        | Some tail \<Rightarrow>
            (case write_part (s\<lparr>ic_tail := None\<rparr>) last_part len tail of
               (s, True) \<Rightarrow> s
             | (s, False) \<Rightarrow> s\<lparr>ic_have := (ic_have s)[last_part := False], ic_received := ic_received s - 1\<rparr>))"

definition place :: "incoming \<Rightarrow> nat \<Rightarrow> bytes \<Rightarrow> incoming \<times> bool" where
  "place s i part =
    (let last_part = ic_total_parts s - 1
     in case ic_part_size s of
          Some len \<Rightarrow> write_part s i len part
        | None \<Rightarrow>
            if i = last_part \<and> 0 < last_part then (s\<lparr>ic_tail := Some part\<rparr>, True)
            else
              let len = length part
              in if \<not> size_fits s i len then (s, False)
                 else write_part (place_tail (s\<lparr>ic_part_size := Some len, ic_token := replicate (ic_transfer_size s) 0\<rparr>) len)
                        i len part)"

definition accept_part :: "sha256 \<Rightarrow> incoming \<Rightarrow> bytes \<Rightarrow> incoming \<times> bool" where
  "accept_part sha s part =
    (let m = map_hash sha part (ic_random_hash s)
     in case List.find (\<lambda>i. \<not> ic_have s ! i \<and> ic_hashmap s ! i = Some m) (window_range s) of
          None \<Rightarrow> (s, False)
        | Some i \<Rightarrow>
            (case place s i part of
               (s, False) \<Rightarrow> (s, False)
             | (s, True) \<Rightarrow>
                 let s = s\<lparr>ic_have := (ic_have s)[i := True], ic_received := ic_received s + 1\<rparr>
                 in (s\<lparr>ic_consecutive := ic_consecutive s + length (takeWhile (\<lambda>have. have) (drop (ic_consecutive s) (ic_have s)))\<rparr>, True)))"

definition is_complete :: "incoming \<Rightarrow> bool" where
  "is_complete s \<longleftrightarrow> ic_received s = ic_total_parts s \<and> ic_tail s = None"

definition complete_token :: "incoming \<Rightarrow> error + bytes" where
  "complete_token s =
    (if is_complete s \<and> length (ic_token s) = ic_transfer_size s then Inr (ic_token s) else Inl Truncated)"

definition assemble_token :: "incoming \<Rightarrow> error + bytes" where
  "assemble_token s = complete_token s"

definition take_token :: "incoming \<Rightarrow> incoming \<times> (error + bytes)" where
  "take_token s = (case complete_token s of Inl e \<Rightarrow> (s, Inl e) | Inr token \<Rightarrow> (s\<lparr>ic_token := []\<rparr>, Inr token))"

definition inflate :: "bz2 \<Rightarrow> bytes \<Rightarrow> nat \<Rightarrow> error + bytes" where
  "inflate bz2 body max_decompressed =
    (case bz2 of
       None \<Rightarrow> Inl Unsupported
     | Some bunzip \<Rightarrow>
         (case bunzip body max_decompressed of
            Inl InvalidData \<Rightarrow> Inl BadPadding | Inl LimitExceeded \<Rightarrow> Inl DecompressionLimit | Inr data \<Rightarrow> Inr data))"

definition verify_data :: "sha256 \<Rightarrow> incoming \<Rightarrow> bytes \<Rightarrow> bool" where
  "verify_data sha s data \<longleftrightarrow> resource_hash sha data (ic_random_hash s) = ic_hash s"

definition verified_data :: "sha256 \<Rightarrow> incoming \<Rightarrow> bytes \<Rightarrow> error + bytes" where
  "verified_data sha s data = (if verify_data sha s data then Inr data else Inl ResourceCorrupt)"

definition recover_with_limit :: "sha256 \<Rightarrow> bz2 \<Rightarrow> incoming \<Rightarrow> bytes \<Rightarrow> nat \<Rightarrow> error + bytes" where
  "recover_with_limit sha bz2 s decrypted max_decompressed =
    and_then (data_from_content decrypted) (\<lambda>body.
    and_then (if ic_compressed s then inflate bz2 body max_decompressed else Inr body) (\<lambda>data.
      verified_data sha s data))"

definition recover :: "sha256 \<Rightarrow> bz2 \<Rightarrow> incoming \<Rightarrow> bytes \<Rightarrow> error + bytes" where
  "recover sha bz2 s decrypted = recover_with_limit sha bz2 s decrypted DEFAULT_MAX_DECOMPRESSED_SIZE"

definition recover_owned :: "sha256 \<Rightarrow> bz2 \<Rightarrow> incoming \<Rightarrow> bytes \<Rightarrow> nat \<Rightarrow> error + bytes" where
  "recover_owned sha bz2 s decrypted max_decompressed =
    and_then
      (if ic_compressed s then and_then (data_from_content decrypted) (\<lambda>body. inflate bz2 body max_decompressed)
       else and_then (data_from_content decrypted) (\<lambda>_. Inr (drop RANDOM_HASH_LEN decrypted)))
      (\<lambda>data. verified_data sha s data)"

definition ic_proof :: "sha256 \<Rightarrow> incoming \<Rightarrow> bytes \<Rightarrow> hash256" where
  "ic_proof sha s data = resource_proof sha data (ic_hash s)"

end
