(* ===== verification/ResourceTransfer.thy ===== *)
theory ResourceTransfer
  imports Link Resource
begin

text \<open>
  The two halves that drive a resource over a link: \<open>resource_transfer/sender.rs\<close>, \<open>receiver.rs\<close> and
  \<open>cancel.rs\<close>. The code draws IVs from a closure that each call uses at most once; the IV is an argument here.
  The bz2 encoder and decoder are parameters, \<open>None\<close> when the feature is not compiled in.
\<close>

definition SERVED_REQUESTS :: nat where "SERVED_REQUESTS = 8"
definition PROOF_CACHE_REQUESTS :: nat where "PROOF_CACHE_REQUESTS = 3"

type_synonym encoder = "(bytes \<Rightarrow> bytes) option"

section \<open>Cancels\<close>

definition cancel_packet :: "ciphers \<Rightarrow> link \<Rightarrow> u8 \<Rightarrow> bytes \<Rightarrow> bytes \<Rightarrow> packet" where
  "cancel_packet k l ctxt hash iv = sealed_packet k l ctxt hash iv"

definition names_resource :: "ciphers \<Rightarrow> link \<Rightarrow> packet \<Rightarrow> bytes \<Rightarrow> bool" where
  "names_resource k l p hash =
    (case link_decrypt k l p of Inl _ \<Rightarrow> False | Inr plain \<Rightarrow> slice_get plain 0 32 = Some hash)"

definition reject :: "ciphers \<Rightarrow> link \<Rightarrow> packet \<Rightarrow> bytes \<Rightarrow> packet option" where
  "reject k l p iv =
    (case link_decrypt k l p of
       Inl _ \<Rightarrow> None
     | Inr plain \<Rightarrow>
         (case parse_advertisement plain of
            Inl _ \<Rightarrow> None
          | Inr adv \<Rightarrow>
              if length (adv_resource_hash adv) = 32
              then Some (cancel_packet k l CTX_RESOURCE_RCL (adv_resource_hash adv) iv) else None))"

section \<open>The sender\<close>

record sender =
  sn_link :: link
  sn_out :: outgoing
  sn_hash_window :: nat
  sn_started :: bool
  sn_served_parts :: nat
  sn_sent :: "bool list"
  sn_unsent :: nat
  sn_cache_requests_left :: nat
  sn_served_requests :: "address_hash list"
  sn_done :: bool
  sn_canceled :: bool
  sn_timed_out :: bool
  sn_timing :: timing
  sn_advertised_at :: "nat option"
  sn_adv_retries_left :: nat
  sn_rtt :: "nat option"
  sn_last_request :: nat
  sn_last_part_sent :: nat

text \<open>The free function \<open>outgoing\<close>: the sealed token and the offer built of it.\<close>

definition sealed_outgoing :: "ciphers \<Rightarrow> sha256 \<Rightarrow> encoder \<Rightarrow> link \<Rightarrow> bytes \<Rightarrow> u32 \<Rightarrow> bytes \<Rightarrow> bool \<Rightarrow> outgoing" where
  "sealed_outgoing k sha enc l data random iv try_compress =
    (let plain = (to_be 4 random @ data, False);
         (transfer, compressed) =
           (case enc of
              None \<Rightarrow> plain
            | Some compress \<Rightarrow>
                if try_compress then
                  let encoded = to_be 4 random @ compress data
                  in if length encoded - RANDOM_HASH_LEN < length data then (encoded, True) else plain
                else plain);
         token = link_seal_owned k l transfer iv;
         part_size = max (unat (ln_mtu l) - (HEADER_MAX_LEN + 1)) 1
     in from_token sha data token random compressed part_size)"

text \<open>The loop of \<open>from_outgoing\<close> that fits the advertised hashmap to the link's MTU.\<close>

fun fit_hash_window :: "ciphers \<Rightarrow> link \<Rightarrow> outgoing \<Rightarrow> nat \<Rightarrow> nat" where
  "fit_hash_window k l out w =
    (if \<not> 1 < w then w
     else
       let packed = pack_advertisement (advertisement_with_hash_limit out w);
           probe = sealed_packet k l CTX_RESOURCE_ADV packed (replicate IV_LEN 0)
       in if encoded_len probe \<le> unat (ln_mtu l) then w else fit_hash_window k l out (w - 1))"

declare fit_hash_window.simps [simp del]

definition from_outgoing :: "ciphers \<Rightarrow> link \<Rightarrow> outgoing \<Rightarrow> sender" where
  "from_outgoing k l out =
    (let hash_window = fit_hash_window k l out (clamp 1 HASHMAP_MAX_PARTS (length (og_map_hashes out)));
         parts = length (og_map_hashes out)
     in \<lparr>sn_link = l, sn_out = out, sn_hash_window = hash_window, sn_started = False, sn_served_parts = 0,
         sn_sent = replicate parts False, sn_unsent = parts, sn_cache_requests_left = PROOF_CACHE_REQUESTS,
         sn_served_requests = [], sn_done = False, sn_canceled = False, sn_timed_out = False,
         sn_timing = timing_default, sn_advertised_at = None, sn_adv_retries_left = MAX_ADV_RETRIES,
         sn_rtt = None, sn_last_request = 0, sn_last_part_sent = 0\<rparr>)"

definition prepare :: "ciphers \<Rightarrow> sha256 \<Rightarrow> encoder \<Rightarrow> link \<Rightarrow> bytes \<Rightarrow> u32 \<Rightarrow> bytes \<Rightarrow> 128 word option \<Rightarrow> bool \<Rightarrow> sender" where
  "prepare k sha enc l data random iv request_id has_metadata =
    (let out = sealed_outgoing k sha enc l data random iv True;
         out = (case request_id of Some i \<Rightarrow> with_request_id out i | None \<Rightarrow> out);
         out = (if has_metadata then with_metadata out else out)
     in from_outgoing k l out)"

definition publish :: "ciphers \<Rightarrow> sha256 \<Rightarrow> encoder \<Rightarrow> link \<Rightarrow> bytes \<Rightarrow> u32 \<Rightarrow> bytes \<Rightarrow> sender" where
  "publish k sha enc l data random iv = prepare k sha enc l data random iv None False"

definition publish_with_metadata ::
  "ciphers \<Rightarrow> sha256 \<Rightarrow> encoder \<Rightarrow> link \<Rightarrow> bytes \<Rightarrow> bytes \<Rightarrow> u32 \<Rightarrow> bytes \<Rightarrow> error + sender" where
  "publish_with_metadata k sha enc l data metadata random iv =
    and_then (pack_metadata metadata) (\<lambda>framed. Inr (prepare k sha enc l (framed @ data) random iv None True))"

definition respond :: "ciphers \<Rightarrow> sha256 \<Rightarrow> encoder \<Rightarrow> link \<Rightarrow> bytes \<Rightarrow> 128 word \<Rightarrow> u32 \<Rightarrow> bytes \<Rightarrow> sender" where
  "respond k sha enc l data request_id random iv = prepare k sha enc l data random iv (Some request_id) False"

definition sender_with_timing :: "sender \<Rightarrow> timing \<Rightarrow> sender" where
  "sender_with_timing s t = s\<lparr>sn_timing := t\<rparr>"

definition sender_advertisement :: "ciphers \<Rightarrow> sender \<Rightarrow> bytes \<Rightarrow> packet" where
  "sender_advertisement k s iv =
     sealed_packet k (sn_link s) CTX_RESOURCE_ADV
       (pack_advertisement (advertisement_with_hash_limit (sn_out s) (sn_hash_window s))) iv"

definition sender_advertise :: "ciphers \<Rightarrow> sender \<Rightarrow> nat \<Rightarrow> bytes \<Rightarrow> sender \<times> packet" where
  "sender_advertise k s now iv = (s\<lparr>sn_advertised_at := Some now\<rparr>, sender_advertisement k s iv)"

definition awaiting_proof :: "sender \<Rightarrow> bool" where
  "awaiting_proof s \<longleftrightarrow> sn_unsent s = 0 \<and> \<not> sn_done s \<and> \<not> sn_canceled s"

text \<open>The loop over the copies of a part that was sent.\<close>

fun mark_sent :: "nat list \<Rightarrow> sender \<Rightarrow> sender" where
  "mark_sent [] s = s"
| "mark_sent (copy # rest) s =
     mark_sent rest (if sn_sent s ! copy then s
       else s\<lparr>sn_sent := (sn_sent s)[copy := True], sn_unsent := sn_unsent s - 1\<rparr>)"

text \<open>The loop over the requested parts.\<close>

fun serve_parts :: "nat list \<Rightarrow> sender \<Rightarrow> packet list \<Rightarrow> sender \<times> packet list" where
  "serve_parts [] s out = (s, out)"
| "serve_parts (index # rest) s out =
     (case og_part (sn_out s) index of
        None \<Rightarrow> serve_parts rest s out
      | Some part \<Rightarrow>
          let out = out @ [framed_packet (sn_link s) CTX_RESOURCE part];
              s = s\<lparr>sn_served_parts := sn_served_parts s + 1\<rparr>
          in serve_parts rest (mark_sent (copies_of (sn_out s) index) s) out)"

text \<open>Remembering a served request.\<close>

definition remember_request :: "sender \<Rightarrow> address_hash \<Rightarrow> sender" where
  "remember_request s hash =
    (let served = (if length (sn_served_requests s) = SERVED_REQUESTS then tl (sn_served_requests s) else sn_served_requests s)
     in s\<lparr>sn_served_requests := served @ [hash]\<rparr>)"

text \<open>Taking note of a request, and of what was sent for it.\<close>

definition note_request :: "sender \<Rightarrow> address_hash \<Rightarrow> nat \<Rightarrow> sender" where
  "note_request s hash now =
    (let s = remember_request s hash;
         s = (if sn_started s then s
              else s\<lparr>sn_started := True,
                     sn_rtt := Some (now - (case sn_advertised_at s of None \<Rightarrow> now | Some t \<Rightarrow> t))\<rparr>)
     in s\<lparr>sn_last_request := now\<rparr>)"

definition note_answered :: "sender \<Rightarrow> packet list \<Rightarrow> nat \<Rightarrow> sender" where
  "note_answered s out now =
    (let s = (if out = [] then s else s\<lparr>sn_last_part_sent := now\<rparr>)
     in if awaiting_proof s then s\<lparr>sn_cache_requests_left := PROOF_CACHE_REQUESTS\<rparr> else s)"

text \<open>The branch of a part request that is answered.\<close>

definition answer_request :: "ciphers \<Rightarrow> sender \<Rightarrow> part_request \<Rightarrow> address_hash \<Rightarrow> nat \<Rightarrow> bytes \<Rightarrow> sender \<times> packet list" where
  "answer_request k s req hash now iv =
    (let (s, out) = serve_parts (requested_indices (sn_out s) req) (note_request s hash now) [];
         out = (if rq_exhausted req then
                  (case rq_last_map_hash req of
                     None \<Rightarrow> out
                   | Some last_hash \<Rightarrow>
                       out @ [sealed_packet k (sn_link s) CTX_RESOURCE_HMU
                                (hmu_after_with_hash_limit (sn_out s) last_hash (sn_hash_window s)) iv])
                else out)
     in (note_answered s out now, out))"

definition sender_on_packet :: "ciphers \<Rightarrow> sha256 \<Rightarrow> sender \<Rightarrow> packet \<Rightarrow> nat \<Rightarrow> bytes \<Rightarrow> sender \<times> packet list" where
  "sender_on_packet k sha s p now iv =
    (if sn_done s \<or> sn_canceled s then (s, [])
     else if pk_context p = CTX_RESOURCE_REQ then
       (case link_decrypt k (sn_link s) p of
          Inl _ \<Rightarrow> (s, [])
        | Inr plain \<Rightarrow>
            (case ResourceWire.parse_request plain of
               Inl _ \<Rightarrow> (s, [])
             | Inr req \<Rightarrow>
                 let hash = packet_hash sha p
                 in if rq_resource_hash req \<noteq> og_hash (sn_out s) \<or> hash \<in> set (sn_served_requests s) then (s, [])
                    else answer_request k s req hash now iv))
     else if pk_context p = CTX_RESOURCE_PRF then
       (if parse_proof (pk_payload p) = Some (og_hash (sn_out s), og_expected_proof (sn_out s))
        then (s\<lparr>sn_done := True\<rparr>, []) else (s, []))
     else if pk_context p = CTX_RESOURCE_RCL then
       (if names_resource k (sn_link s) p (to_be 32 (og_hash (sn_out s)))
        then (s\<lparr>sn_canceled := True\<rparr>, []) else (s, []))
     else (s, []))"

definition cache_request :: "sha256 \<Rightarrow> sender \<Rightarrow> sender \<times> packet option" where
  "cache_request sha s =
    (if \<not> awaiting_proof s \<or> sn_cache_requests_left s = 0 then (s, None)
     else
       let s = s\<lparr>sn_cache_requests_left := sn_cache_requests_left s - 1\<rparr>;
           expected = resource_proof_packet (sn_link s) (to_be 32 (og_hash (sn_out s))) (to_be 32 (og_expected_proof (sn_out s)))
       in (s, Some (framed_packet (sn_link s) CTX_CACHE_REQUEST (packet_full_hash sha expected))))"

definition sender_deadline :: "sender \<Rightarrow> nat option" where
  "sender_deadline s =
    (if sn_done s \<or> sn_canceled s then None
     else
       let rtt = (case sn_rtt s of None \<Rightarrow> tm_rtt (sn_timing s) | Some r \<Rightarrow> r)
       in if \<not> sn_started s then
            (case sn_advertised_at s of
               None \<Rightarrow> None
             | Some t \<Rightarrow> Some (sat_add u64_max t (advertisement_wait (sn_timing s))))
          else if awaiting_proof s then Some (sat_add u64_max (sn_last_part_sent s) (proof_wait (sn_timing s) rtt))
          else Some (sat_add u64_max (sn_last_request s) (request_wait (sn_timing s) rtt)))"

definition sender_cancel :: "ciphers \<Rightarrow> sender \<Rightarrow> bytes \<Rightarrow> sender \<times> packet option" where
  "sender_cancel k s iv =
    (if sn_done s \<or> sn_canceled s then (s, None)
     else (s\<lparr>sn_canceled := True\<rparr>,
           Some (cancel_packet k (sn_link s) CTX_RESOURCE_ICL (to_be 32 (og_hash (sn_out s))) iv)))"

definition sender_poll :: "ciphers \<Rightarrow> sha256 \<Rightarrow> sender \<Rightarrow> nat \<Rightarrow> bytes \<Rightarrow> sender \<times> packet option" where
  "sender_poll k sha s now iv =
    (case sender_deadline s of
       None \<Rightarrow> (s, None)
     | Some deadline \<Rightarrow>
         if now < deadline then (s, None)
         else if \<not> sn_started s \<and> 0 < sn_adv_retries_left s then
           let (s, p) = sender_advertise k (s\<lparr>sn_adv_retries_left := sn_adv_retries_left s - 1\<rparr>) now iv in (s, Some p)
         else
           (case (if sn_started s \<and> awaiting_proof s then cache_request sha s else (s, None)) of
              (s, Some request) \<Rightarrow> (s\<lparr>sn_last_part_sent := now\<rparr>, Some request)
            | (s, None) \<Rightarrow> sender_cancel k (s\<lparr>sn_timed_out := True\<rparr>) iv))"

section \<open>The receiver\<close>

record receiver =
  rv_link :: link
  rv_inc :: "incoming option"
  rv_data :: "bytes option"
  rv_metadata :: "bytes option"
  rv_proved :: "(hash256 \<times> hash256) option"
  rv_canceled :: bool
  rv_request_window :: nat
  rv_max_parts :: nat
  rv_max_decompressed :: nat
  rv_max_data_size :: "nat option"
  rv_accept :: "(advertisement \<Rightarrow> bool) option"
  rv_failure :: "error option"
  rv_outstanding :: nat
  rv_response_request_id :: "bytes option"
  rv_window :: request_window
  rv_timing :: timing
  rv_last_activity :: nat
  rv_retries_left :: nat
  rv_waiting_for_hmu :: bool
  rv_segmented :: bool

definition with_limits :: "link \<Rightarrow> nat \<Rightarrow> nat \<Rightarrow> receiver" where
  "with_limits l window max_parts =
     \<lparr>rv_link = l, rv_inc = None, rv_data = None, rv_metadata = None, rv_proved = None, rv_canceled = False,
      rv_request_window = clamp 1 RESOURCE_WINDOW_MAX window, rv_max_parts = max max_parts 1,
      rv_max_decompressed = DEFAULT_MAX_DECOMPRESSED_SIZE, rv_max_data_size = None, rv_accept = None,
      rv_failure = None, rv_outstanding = 0, rv_response_request_id = None,
      rv_window = window_new window (ln_resource_carry l), rv_timing = timing_default, rv_last_activity = 0,
      rv_retries_left = MAX_RETRIES, rv_waiting_for_hmu = False, rv_segmented = False\<rparr>"

definition with_request_window :: "link \<Rightarrow> nat \<Rightarrow> receiver" where
  "with_request_window l window = with_limits l window DEFAULT_MAX_PARTS"

definition new_receiver :: "link \<Rightarrow> receiver" where
  "new_receiver l = with_request_window l RESOURCE_WINDOW_MAX"

definition receiver_with_timing :: "receiver \<Rightarrow> timing \<Rightarrow> receiver" where
  "receiver_with_timing r t = r\<lparr>rv_timing := t\<rparr>"

definition with_max_decompressed_size :: "receiver \<Rightarrow> nat \<Rightarrow> receiver" where
  "with_max_decompressed_size r n = r\<lparr>rv_max_decompressed := n\<rparr>"

definition with_max_data_size :: "receiver \<Rightarrow> nat \<Rightarrow> receiver" where
  "with_max_data_size r n = r\<lparr>rv_max_data_size := Some n, rv_max_decompressed := min (rv_max_decompressed r) n\<rparr>"

definition with_accept :: "receiver \<Rightarrow> (advertisement \<Rightarrow> bool) \<Rightarrow> receiver" where
  "with_accept r f = r\<lparr>rv_accept := Some f\<rparr>"

definition allow_segments :: "receiver \<Rightarrow> receiver" where
  "allow_segments r = r\<lparr>rv_segmented := True\<rparr>"

definition with_carry :: "receiver \<Rightarrow> window_carry \<Rightarrow> receiver" where
  "with_carry r carry = r\<lparr>rv_window := window_new (rv_request_window r) (Some carry)\<rparr>"

definition cap_decompressed :: "receiver \<Rightarrow> nat \<Rightarrow> receiver" where
  "cap_decompressed r n = r\<lparr>rv_max_decompressed := min (rv_max_decompressed r) n\<rparr>"

definition received_all :: "receiver \<Rightarrow> bool" where
  "received_all r \<longleftrightarrow> rv_proved r \<noteq> None"

definition receiver_carry :: "receiver \<Rightarrow> window_carry" where
  "receiver_carry r = carry_of (rv_window r) (tm_rtt (rv_timing r))"

definition proof_packet :: "receiver \<Rightarrow> packet option" where
  "proof_packet r =
    (case rv_proved r of
       None \<Rightarrow> None
     | Some (hash, prf) \<Rightarrow> Some (resource_proof_packet (rv_link r) (to_be 32 hash) (to_be 32 prf)))"

definition refuse_resource :: "ciphers \<Rightarrow> receiver \<Rightarrow> bytes \<Rightarrow> bytes \<Rightarrow> packet" where
  "refuse_resource k r hash iv = cancel_packet k (rv_link r) CTX_RESOURCE_RCL hash iv"

definition request_more :: "ciphers \<Rightarrow> receiver \<Rightarrow> nat \<Rightarrow> bytes \<Rightarrow> receiver \<times> packet list" where
  "request_more k r now iv =
    (if rv_waiting_for_hmu r \<or> rv_proved r \<noteq> None then (r, [])
     else case rv_inc r of
       None \<Rightarrow> (r, [])
     | Some inc \<Rightarrow>
         let inc = set_window inc (window_size (rv_window r));
             r = r\<lparr>rv_inc := Some inc\<rparr>;
             (wanted, exhausted) = next_request inc
         in if wanted = [] \<and> \<not> exhausted then (r, [])
            else
              let p = sealed_packet k (rv_link r) CTX_RESOURCE_REQ (request_with inc wanted exhausted) iv
              in (r\<lparr>rv_outstanding := length wanted, rv_waiting_for_hmu := exhausted, rv_last_activity := now,
                    rv_window := window_on_request (rv_window r) now (encoded_len p)\<rparr>, [p]))"

text \<open>What \<open>finish\<close> recovers of a complete token: the data, its metadata and its proof.\<close>

definition recover_all :: "ciphers \<Rightarrow> sha256 \<Rightarrow> bz2 \<Rightarrow> receiver \<Rightarrow> incoming \<Rightarrow> bytes \<Rightarrow> error + bytes \<times> bytes option \<times> hash256" where
  "recover_all k sha bz2 r inc token =
    and_then (link_open_owned k (rv_link r) token) (\<lambda>decrypted.
    and_then (recover_owned sha bz2 inc decrypted (rv_max_decompressed r)) (\<lambda>data.
      let prf = ic_proof sha inc data
      in if ic_has_metadata inc
         then and_then (split_metadata data) (\<lambda>(metadata, rest). Inr (rest, Some metadata, prf))
         else Inr (data, None, prf)))"

text \<open>
  \<open>finish\<close> is called only with a resource at hand, and a receiver with a deadline has one, so the
  \<open>expect\<close>s of \<open>finish\<close> and \<open>poll\<close> are unreachable; their branches do nothing here.
\<close>

definition receiver_finish :: "ciphers \<Rightarrow> sha256 \<Rightarrow> bz2 \<Rightarrow> receiver \<Rightarrow> bytes \<Rightarrow> receiver \<times> packet list" where
  "receiver_finish k sha bz2 r iv =
    (case rv_inc r of
       None \<Rightarrow> (r, [])
     | Some inc \<Rightarrow>
         let hash = ic_hash inc;
             (inc, token) = take_token inc;
             r = r\<lparr>rv_inc := Some inc\<rparr>
         in case and_then token (recover_all k sha bz2 r inc) of
              Inr (data, metadata, prf) \<Rightarrow>
                (r\<lparr>rv_data := Some data, rv_metadata := metadata, rv_proved := Some (hash, prf)\<rparr>,
                 [resource_proof_packet (rv_link r) (to_be 32 hash) (to_be 32 prf)])
            | Inl e \<Rightarrow>
                (r\<lparr>rv_failure := Some (if e = DecompressionLimit \<or> e = Unsupported then e else ResourceCorrupt),
                   rv_inc := None\<rparr>,
                 [refuse_resource k r (to_be 32 hash) iv]))"

definition admit_offer :: "bz2 \<Rightarrow> receiver \<Rightarrow> advertisement \<Rightarrow> error + incoming" where
  "admit_offer bz2 r adv =
    (if 1 < sint (adv_l adv) \<and> \<not> rv_segmented r then Inl MultiSegmentResource
     else if bz2 = None \<and> adv_flags adv AND FLAG_COMPRESSED \<noteq> 0 then Inl Unsupported
     else if (case rv_max_data_size r of None \<Rightarrow> False | Some mx \<Rightarrow> mx < unat (adv_data_size adv)) then Inl CapacityExceeded
     else and_then (incoming_with_max_parts adv (rv_max_parts r)) (\<lambda>inc.
       if (case rv_accept r of None \<Rightarrow> False | Some f \<Rightarrow> \<not> f adv) then Inl ResourceRejected
       else Inr (with_window inc (rv_request_window r))))"

text \<open>The request id of a response offer; the offer is dropped when it lacks a proper one.\<close>

definition offered_request_id :: "advertisement \<Rightarrow> bytes option option" where
  "offered_request_id adv =
    (if adv_flags adv AND FLAG_RESPONSE \<noteq> 0 then
       (case adv_q adv of None \<Rightarrow> None | Some q \<Rightarrow> if length q = 16 then Some (Some q) else None)
     else Some None)"

definition on_advertisement :: "ciphers \<Rightarrow> bz2 \<Rightarrow> receiver \<Rightarrow> packet \<Rightarrow> nat \<Rightarrow> bytes \<Rightarrow> receiver \<times> packet list" where
  "on_advertisement k bz2 r p now iv =
    (case and_then (link_decrypt k (rv_link r) p) parse_advertisement of
       Inl _ \<Rightarrow> (r, [])
     | Inr adv \<Rightarrow>
         if length (adv_resource_hash adv) \<noteq> 32 then (r, [])
         else if rv_failure r \<noteq> None \<or> rv_canceled r then (r, [refuse_resource k r (adv_resource_hash adv) iv])
         else if (case rv_inc r of None \<Rightarrow> False | Some current \<Rightarrow> to_be 32 (ic_hash current) = adv_resource_hash adv)
           then (r, case proof_packet r of None \<Rightarrow> [] | Some q \<Rightarrow> [q])
         else case offered_request_id adv of
           None \<Rightarrow> (r, [])
         | Some request_id \<Rightarrow>
             (case admit_offer bz2 r adv of
                Inl e \<Rightarrow>
                  if e = BadRequest then (r, [])
                  else ((if rv_inc r = None then r\<lparr>rv_failure := Some e\<rparr> else r),
                        [refuse_resource k r (adv_resource_hash adv) iv])
              | Inr inc \<Rightarrow>
                  let r = (if rv_inc r \<noteq> None
                           then r\<lparr>rv_window := window_new (rv_request_window r) (Some (receiver_carry r))\<rparr> else r);
                      r = r\<lparr>rv_inc := Some inc, rv_outstanding := 0, rv_retries_left := MAX_RETRIES,
                            rv_waiting_for_hmu := False, rv_response_request_id := request_id\<rparr>
                  in request_more k r now iv))"

definition on_part :: "ciphers \<Rightarrow> sha256 \<Rightarrow> bz2 \<Rightarrow> receiver \<Rightarrow> packet \<Rightarrow> nat \<Rightarrow> bytes \<Rightarrow> receiver \<times> packet list" where
  "on_part k sha bz2 r p now iv =
    (if received_all r then (r, [])
     else case rv_inc r of
       None \<Rightarrow> (r, [])
     | Some inc \<Rightarrow>
         let r = r\<lparr>rv_last_activity := now, rv_retries_left := MAX_RETRIES,
                   rv_window := window_on_part (rv_window r) now (tm_rtt (rv_timing r)) (encoded_len p) (length (pk_payload p))\<rparr>;
             (inc, taken) = accept_part sha inc (pk_payload p);
             r = r\<lparr>rv_inc := Some inc\<rparr>
         in if \<not> taken then (r, [])
            else
              let r = r\<lparr>rv_outstanding := rv_outstanding r - 1\<rparr>
              in if is_complete inc then receiver_finish k sha bz2 r iv
                 else if rv_outstanding r = 0 then
                   request_more k (r\<lparr>rv_window := window_on_round (rv_window r) now\<rparr>) now iv
                 else (r, []))"

definition on_update :: "ciphers \<Rightarrow> receiver \<Rightarrow> packet \<Rightarrow> nat \<Rightarrow> bytes \<Rightarrow> receiver \<times> packet list" where
  "on_update k r p now iv =
    (if \<not> rv_waiting_for_hmu r then (r, [])
     else case and_then (link_decrypt k (rv_link r) p) parse_hmu of
       Inl _ \<Rightarrow> (r, [])
     | Inr hmu \<Rightarrow>
         (case rv_inc r of
            None \<Rightarrow> (r, [])
          | Some inc \<Rightarrow>
              if ic_hash inc \<noteq> hu_resource_hash hmu then (r, [])
              else request_more k (r\<lparr>rv_inc := Some (fst (ingest_hmu inc hmu)), rv_last_activity := now,
                                     rv_retries_left := MAX_RETRIES, rv_waiting_for_hmu := False\<rparr>) now iv))"

definition on_cancel :: "ciphers \<Rightarrow> receiver \<Rightarrow> packet \<Rightarrow> receiver" where
  "on_cancel k r p =
    (case rv_inc r of
       None \<Rightarrow> r
     | Some inc \<Rightarrow>
         if \<not> received_all r \<and> names_resource k (rv_link r) p (to_be 32 (ic_hash inc))
         then r\<lparr>rv_canceled := True, rv_inc := None\<rparr> else r)"

definition receiver_on_packet ::
  "ciphers \<Rightarrow> sha256 \<Rightarrow> bz2 \<Rightarrow> receiver \<Rightarrow> packet \<Rightarrow> nat \<Rightarrow> bytes \<Rightarrow> receiver \<times> packet list" where
  "receiver_on_packet k sha bz2 r p now iv =
    (if (rv_failure r \<noteq> None \<or> rv_canceled r) \<and> pk_context p \<noteq> CTX_RESOURCE_ADV then (r, [])
     else if pk_context p = CTX_RESOURCE_ADV then on_advertisement k bz2 r p now iv
     else if pk_context p = CTX_RESOURCE then on_part k sha bz2 r p now iv
     else if pk_context p = CTX_RESOURCE_HMU then on_update k r p now iv
     else if pk_context p = CTX_RESOURCE_ICL then (on_cancel k r p, [])
     else (r, []))"

definition receiver_deadline :: "receiver \<Rightarrow> nat option" where
  "receiver_deadline r =
    (if rv_failure r \<noteq> None \<or> rv_canceled r \<or> rv_proved r \<noteq> None \<or> rv_inc r = None then None
     else
       let part_size = max (unat (ln_mtu (rv_link r)) - HEADER_MIN_LEN) 1;
           wait = part_wait (rv_timing r) (rv_window r) part_size (rv_outstanding r) (rv_waiting_for_hmu r)
                    (MAX_RETRIES - rv_retries_left r)
       in Some (sat_add u64_max (rv_last_activity r) wait))"

definition receiver_poll :: "ciphers \<Rightarrow> receiver \<Rightarrow> nat \<Rightarrow> bytes \<Rightarrow> receiver \<times> packet list" where
  "receiver_poll k r now iv =
    (case receiver_deadline r of
       None \<Rightarrow> (r, [])
     | Some deadline \<Rightarrow>
         if now < deadline then (r, [])
         else if rv_retries_left r = 0 then
           (case rv_inc r of
              None \<Rightarrow> (r, [])
            | Some inc \<Rightarrow>
                (r\<lparr>rv_inc := None, rv_failure := Some ResourceTimedOut\<rparr>,
                 [refuse_resource k r (to_be 32 (ic_hash inc)) iv]))
         else
           request_more k (r\<lparr>rv_retries_left := rv_retries_left r - 1, rv_window := window_on_timeout (rv_window r),
                             rv_waiting_for_hmu := False\<rparr>) now iv)"

definition receiver_cancel :: "ciphers \<Rightarrow> receiver \<Rightarrow> bytes \<Rightarrow> receiver \<times> packet option" where
  "receiver_cancel k r iv =
    (if received_all r \<or> rv_failure r \<noteq> None \<or> rv_canceled r then (r, None)
     else case rv_inc r of
       None \<Rightarrow> (r, None)
     | Some inc \<Rightarrow>
         (r\<lparr>rv_inc := None, rv_canceled := True\<rparr>,
          Some (cancel_packet k (rv_link r) CTX_RESOURCE_RCL (to_be 32 (ic_hash inc)) iv)))"

definition take_payload :: "receiver \<Rightarrow> receiver \<times> (bytes \<times> bytes option) option" where
  "take_payload r =
    (case rv_data r of
       None \<Rightarrow> (r, None)
     | Some data \<Rightarrow> (r\<lparr>rv_data := None, rv_metadata := None\<rparr>, Some (data, rv_metadata r)))"

end
