(* ===== verification/ResourceSession.thy ===== *)
theory ResourceSession
  imports Resource
begin

text \<open>
  A resource segment between its sender and its receiver. The network may lose, repeat and reorder
  every request, part and hashmap update; the receiver ends with the sender's token, and a network
  that stops losing messages lets it finish.
\<close>

section \<open>Parts of a token\<close>

lemma token_slice_alt: "token_slice t z i = take z (drop (i * z) t)"
proof -
  have "take (min (length t) ((i + 1) * z) - i * z) (drop (i * z) t) = take z (drop (i * z) t)"
    by (cases "length t \<le> (i + 1) * z") (auto simp: min_def)
  then show ?thesis by (simp add: token_slice_def min.commute)
qed

lemma chunks_Nil [simp]: "chunks z [] = []"
  by (simp add: chunks.simps)

lemma chunks_nth: "0 < z \<Longrightarrow> i < length (chunks z t) \<Longrightarrow> chunks z t ! i = token_slice t z i"
proof (induction z t arbitrary: i rule: chunks.induct)
  case (1 z t)
  show ?case
  proof (cases "t = []")
    case False
    with 1 have c: "chunks z t = take z t # chunks z (drop z t)" by (simp add: chunks.simps[of z t])
    show ?thesis
    proof (cases i)
      case (Suc j)
      then have "chunks z (drop z t) ! j = token_slice (drop z t) z j" using 1 c False by simp
      then show ?thesis using Suc by (simp add: c token_slice_alt add.commute)
    qed (simp add: c token_slice_alt)
  qed (use 1 in \<open>simp add: chunks.simps[of z t]\<close>)
qed

lemma chunks_index: "0 < z \<Longrightarrow> i < length (chunks z t) \<longleftrightarrow> i * z < length t"
proof (induction z t arbitrary: i rule: chunks.induct)
  case (1 z t)
  show ?case
  proof (cases "t = []")
    case False
    with 1 have c: "chunks z t = take z t # chunks z (drop z t)" by (simp add: chunks.simps[of z t])
    show ?thesis
    proof (cases i)
      case (Suc j)
      then have "j < length (chunks z (drop z t)) \<longleftrightarrow> j * z < length (drop z t)" using 1 False by simp
      then show ?thesis using Suc by (auto simp: c)
    qed (use False c in simp)
  qed (simp add: chunks.simps[of z t])
qed

lemma length_token_slice: "length (token_slice t z i) = min (i * z + z) (length t) - i * z"
  by (auto simp: token_slice_alt min_def)

lemma token_slice_nth: "k < z \<Longrightarrow> i * z + k < length t \<Longrightarrow> token_slice t z i ! k = t ! (i * z + k)"
  by (simp add: token_slice_alt)

lemma slices_eq:
  assumes "0 < z" "length a = length b" "\<And>i. i * z < length a \<Longrightarrow> token_slice a z i = token_slice b z i"
  shows "a = b"
proof (rule nth_equalityI)
  fix k assume k: "k < length a"
  let ?i = "k div z"
  have d: "?i * z + k mod z = k" "k mod z < z" using assms(1) by simp_all
  then have "?i * z < length a" using k by (metis le_add1 le_less_trans)
  from arg_cong[OF assms(3)[OF this], of "\<lambda>s. s ! (k mod z)"] show "a ! k = b ! k"
    using token_slice_nth[of "k mod z" z ?i a] token_slice_nth[of "k mod z" z ?i b] d k assms(2) by simp
qed (rule assms(2))

text \<open>Overwriting one slice leaves the others.\<close>

lemma slice_written:
  assumes "i * z \<le> length t" "length p = min (i * z + z) (length t) - i * z"
  defines "t' \<equiv> take (i * z) t @ p @ drop (min (i * z + z) (length t)) t"
  shows "length t' = length t" "token_slice t' z i = p" "j \<noteq> i \<Longrightarrow> token_slice t' z j = token_slice t z j"
proof -
  show l: "length t' = length t" using assms by (simp add: min_def)
  have p: "i * z + length p = min (i * z + z) (length t)" using assms by (simp add: min_def)
  have "length p \<le> z" using assms by simp
  moreover have "drop (i * z) t' = p @ drop (min (i * z + z) (length t)) t" using assms by simp
  moreover have "drop (min (i * z + z) (length t)) t = [] \<or> length p = z" using p by (auto simp: min_def)
  ultimately show "token_slice t' z i = p" by (auto simp: token_slice_alt)
  assume "j \<noteq> i"
  then consider "j * z + z \<le> i * z" | "i * z + z \<le> j * z" 
    by (metis Suc_leI add.commute linorder_neqE_nat mult_Suc mult_le_mono1)
  then show "token_slice t' z j = token_slice t z j"
  proof cases
    case 1
    then have "take z (drop (j * z) t') = take z (drop (j * z) (take (i * z) t))" using assms by simp
    also have "\<dots> = take z (drop (j * z) t)" using 1 by (simp add: drop_take min_def)
    finally show ?thesis by (simp add: token_slice_alt)
  next
    case 2
    show ?thesis
    proof (cases "i * z + z \<le> length t")
      case True
      obtain d where d: "j * z = i * z + z + d" using 2 by (metis le_Suc_ex)
      have "length p = z" "i * z \<le> length t" using True p by simp_all
      then have "drop (j * z) t' = drop (j * z) t" unfolding d using True assms by (simp add: add.commute)
      then show ?thesis by (simp add: token_slice_alt)
    next
      case False
      then show ?thesis using 2 l by (simp add: token_slice_alt)
    qed
  qed
qed

section \<open>The sender's map\<close>

definition part_at :: "outgoing \<Rightarrow> nat \<Rightarrow> bytes" where
  "part_at g i = token_slice (og_token g) (og_part_size g) i"

abbreviation og_parts :: "outgoing \<Rightarrow> nat" where
  "og_parts g \<equiv> length (og_map_hashes g)"

definition sender_ok :: "sha256 \<Rightarrow> outgoing \<Rightarrow> bool" where
  "sender_ok sha g \<longleftrightarrow> 0 < og_part_size g \<and> og_token g \<noteq> [] \<and> length (og_token g) < 2 ^ 63
     \<and> og_map_hashes g = hash_parts sha (og_token g) (og_part_size g) (og_random_hash g)
     \<and> og_by_hash g = sort_map (og_map_hashes g)
     \<and> (\<forall>i < og_parts g. \<forall>j < og_parts g. og_map_hashes g ! i = og_map_hashes g ! j \<longrightarrow> part_at g i = part_at g j)"

lemma sorted_run:
  assumes "sorted (map fst xs)"
  shows "takeWhile (\<lambda>x. fst x = m) (dropWhile (\<lambda>x. fst x < m) xs) = filter (\<lambda>x. fst x = m) xs"
  using assms
proof (induction xs)
  case (Cons x xs)
  show ?case
  proof (cases "fst x < m")
    case False
    then have none: "dropWhile (\<lambda>x. fst x < m) (x # xs) = x # xs" by simp
    show ?thesis
    proof (cases "fst x = m")
      case True
      have "dropWhile (\<lambda>x. fst x < m) xs = xs" using Cons.prems True by (cases xs) (auto dest: leD)
      with Cons True show ?thesis by simp
    next
      case ne: False
      with False have "m < fst x" by simp
      with Cons.prems have "filter (\<lambda>x. fst x = m) xs = []" by (auto simp: filter_empty_conv)
      with ne none show ?thesis by simp
    qed
  qed (use Cons in simp)
qed simp

lemma sorted_map_fst: "sorted (xs :: ('a::linorder \<times> 'b::linorder) list) \<Longrightarrow> sorted (map fst xs)"
  by (induction xs) (auto simp: less_eq_prod_def)

lemma indices_of_spec:
  assumes "og_by_hash g = sort_map (og_map_hashes g)"
  shows "indices_of g m = filter (\<lambda>i. og_map_hashes g ! i = m) [0..<og_parts g]"
proof -
  let ?mh = "og_map_hashes g" and ?z = "zip (og_map_hashes g) [0..<og_parts g]"
  have split: "(\<lambda>(h, _ :: nat). h = m) = (\<lambda>x. fst x = m)" "(\<lambda>(h, _ :: nat). h < m) = (\<lambda>x. fst x < m)" by auto
  have z: "?z = map (\<lambda>i. (?mh ! i, i)) [0..<og_parts g]" by (auto intro: nth_equalityI)
  have "filter (\<lambda>x. fst x = m) ?z = map (\<lambda>i. (?mh ! i, i)) (filter (\<lambda>i. ?mh ! i = m) [0..<og_parts g])"
    unfolding z filter_map by (simp add: comp_def)
  also have "\<dots> = map (Pair m) (filter (\<lambda>i. ?mh ! i = m) [0..<og_parts g])" by (auto intro: map_cong)
  finally have f: "filter (\<lambda>x. fst x = m) ?z = map (Pair m) (filter (\<lambda>i. ?mh ! i = m) [0..<og_parts g])" .
  have s: "sorted (map (Pair m) (filter (\<lambda>i. ?mh ! i = m) [0..<og_parts g]))"
    by (simp add: sorted_map sorted_wrt_filter) 
  have "takeWhile (\<lambda>x. fst x = m) (dropWhile (\<lambda>x. fst x < m) (sort ?z)) = filter (\<lambda>x. fst x = m) (sort ?z)"
    by (rule sorted_run) (simp add: sorted_map_fst)
  also have "\<dots> = sort (filter (\<lambda>x. fst x = m) ?z)" by (rule filter_sort)
  also have "\<dots> = map (Pair m) (filter (\<lambda>i. ?mh ! i = m) [0..<og_parts g])" unfolding f by (rule sorted_sort_id[OF s])
  finally show ?thesis by (simp add: indices_of_def assms sort_map_def split comp_def)
qed

text \<open>No collision between neighbours of the sorted map means none at all.\<close>

lemma neighbours_agree:
  assumes "sorted (map fst xs)" "list_ex (\<lambda>((h, i), (h', j)). h = h' \<and> f i \<noteq> f j) (zip xs (tl xs)) = False"
  shows "x \<in> set xs \<Longrightarrow> y \<in> set xs \<Longrightarrow> fst x = fst y \<Longrightarrow> f (snd x) = f (snd y)"
  using assms
proof (induction xs arbitrary: x y)
  case (Cons a xs)
  show ?case
  proof (cases xs)
    case (Cons b ys)
    note IH = Cons.IH[unfolded Cons]
    have rest: "sorted (map fst (b # ys))" "list_ex (\<lambda>((h, i), (h', j)). h = h' \<and> f i \<noteq> f j) (zip (b # ys) (tl (b # ys))) = False"
      using Cons.prems(4,5) unfolding Cons by simp_all
    have ab: "fst a = fst b \<longrightarrow> f (snd a) = f (snd b)" using Cons.prems(5) unfolding Cons by (simp add: case_prod_unfold)
    have first: "f (snd a) = f (snd z)" if "z \<in> set (b # ys)" "fst a = fst z" for z
    proof -
      have "fst a \<le> fst b" "fst b \<le> fst z" using Cons.prems(4) that unfolding Cons by auto
      with that have "fst a = fst b" "fst b = fst z" by simp_all
      with ab IH[of b z] that rest show ?thesis by simp
    qed
    have both: "f (snd x) = f (snd y)" if "x \<in> set (b # ys)" "y \<in> set (b # ys)"
      using IH[OF that Cons.prems(3) rest] .
    have "x = a \<or> x \<in> set (b # ys)" "y = a \<or> y \<in> set (b # ys)" using Cons.prems(1,2) unfolding Cons by simp_all
    then show ?thesis using first[of x] first[of y] both Cons.prems(3) by metis
  qed (use Cons.prems in simp)
qed simp

lemma draw_map_result: "draw_map sha t z r k = (r', mh, by_hash) \<Longrightarrow> mh = hash_parts sha t z r' \<and> by_hash = sort_map mh"
proof (induction sha t z r k rule: draw_map.induct)
  case (1 sha t z r k)
  let ?mh = "hash_parts sha t z r"
  show ?case
  proof (cases "\<not> collides t z (sort_map ?mh) \<or> MAX_REROLLS \<le> k")
    case True
    then have "(r, ?mh, sort_map ?mh) = (r', mh, by_hash)"
      using 1(2) unfolding draw_map.simps[of sha t z r k] Let_def by (simp only: if_True)
    then show ?thesis by blast
  next
    case False
    then have "draw_map sha t z (redraw sha r) (k + 1) = (r', mh, by_hash)"
      using 1(2) unfolding draw_map.simps[of sha t z r k] Let_def by simp
    with 1(1)[OF HOL.refl HOL.refl False] show ?thesis by simp
  qed
qed

lemma length_hash_parts [simp]: "length (hash_parts sha t z r) = length (chunks z t)"
  by (simp add: hash_parts_def)

lemma from_token_fields:
  assumes "g = from_token sha data token random compressed part_size"
  shows "og_token g = token" "0 < og_part_size g" "og_map_hashes g = hash_parts sha token (og_part_size g) (og_random_hash g)"
    "og_by_hash g = sort_map (og_map_hashes g)" "og_hash g = resource_hash sha data (to_be 4 (og_random_hash g))"
    "og_expected_proof g = resource_proof sha data (og_hash g)" "og_compressed g = compressed" "og_total_segments g = 1"
    "og_request_id g = None" "og_has_metadata g = False"
proof -
  obtain r mh b where d: "draw_map sha token (max part_size 1) random 0 = (r, mh, b)" by (rule prod_cases3)
  from draw_map_result[OF this] show "og_token g = token" "0 < og_part_size g"
    "og_map_hashes g = hash_parts sha token (og_part_size g) (og_random_hash g)"
    "og_by_hash g = sort_map (og_map_hashes g)" "og_hash g = resource_hash sha data (to_be 4 (og_random_hash g))"
    "og_expected_proof g = resource_proof sha data (og_hash g)" "og_compressed g = compressed" "og_total_segments g = 1"
    "og_request_id g = None" "og_has_metadata g = False"
    by (simp_all add: assms from_token_def d[unfolded One_nat_def] Let_def)
qed

lemma from_token_ok:
  assumes g: "g = from_token sha data token random compressed part_size"
    and t: "token \<noteq> []" "length token < 2 ^ 63" "\<not> collides token (og_part_size g) (og_by_hash g)"
  shows "sender_ok sha g"
proof -
  note F = from_token_fields[OF g]
  have "part_at g i = part_at g j" if "i < og_parts g" "j < og_parts g" "og_map_hashes g ! i = og_map_hashes g ! j" for i j
  proof -
    have "set (og_by_hash g) = set (zip (og_map_hashes g) [0..<og_parts g])" by (simp add: F(4) sort_map_def)
    then have mem: "(og_map_hashes g ! i, i) \<in> set (og_by_hash g)" "(og_map_hashes g ! j, j) \<in> set (og_by_hash g)"
      using that(1,2) by (force simp: set_zip)+
    have so: "sorted (map fst (og_by_hash g))" by (simp add: F(4) sort_map_def sorted_map_fst)
    have lx: "list_ex (\<lambda>((h, i), (h', j)). h = h' \<and> token_slice token (og_part_size g) i \<noteq> token_slice token (og_part_size g) j)
        (zip (og_by_hash g) (tl (og_by_hash g))) = False" using t(3) unfolding collides_def by blast
    have "fst (og_map_hashes g ! i, i) = fst (og_map_hashes g ! j, j)" using that(3) by simp
    from neighbours_agree[OF so lx mem this] have "token_slice token (og_part_size g) (snd (og_map_hashes g ! i, i))
        = token_slice token (og_part_size g) (snd (og_map_hashes g ! j, j))" .
    then show ?thesis unfolding part_at_def F(1) by simp
  qed
  then show ?thesis unfolding sender_ok_def F(1) using F(2-4) t(1,2) by blast
qed

lemma part_at_nth:
  assumes "sender_ok sha g" "i < og_parts g"
  shows "chunks (og_part_size g) (og_token g) ! i = part_at g i" "i * og_part_size g < length (og_token g)"
    "map_hash sha (part_at g i) (to_be 4 (og_random_hash g)) = og_map_hashes g ! i" "part_at g i \<noteq> []"
    "length (part_at g i) = min (i * og_part_size g + og_part_size g) (length (og_token g)) - i * og_part_size g"
proof -
  have p: "0 < og_part_size g" "og_map_hashes g = hash_parts sha (og_token g) (og_part_size g) (og_random_hash g)"
    using assms(1) by (simp_all add: sender_ok_def)
  then have i: "i < length (chunks (og_part_size g) (og_token g))" using assms(2) by simp
  show c: "chunks (og_part_size g) (og_token g) ! i = part_at g i" using chunks_nth[OF p(1) i] by (simp add: part_at_def)
  show less: "i * og_part_size g < length (og_token g)" using chunks_index[OF p(1)] i by simp
  show "map_hash sha (part_at g i) (to_be 4 (og_random_hash g)) = og_map_hashes g ! i"
    using i c unfolding p(2) hash_parts_def by simp
  show l: "length (part_at g i) = min (i * og_part_size g + og_part_size g) (length (og_token g)) - i * og_part_size g"
    by (simp add: part_at_def length_token_slice)
  show "part_at g i \<noteq> []" using less p(1) l by (auto simp: min_def split: if_splits)
qed

lemma parts_positive: "sender_ok sha g \<Longrightarrow> 0 < og_parts g"
proof -
  assume "sender_ok sha g"
  then have "0 < og_part_size g" "0 < length (og_token g)"
    "og_parts g = length (chunks (og_part_size g) (og_token g))" by (auto simp: sender_ok_def)
  then show ?thesis using chunks_index[of "og_part_size g" 0 "og_token g"] by simp
qed

lemma parts_bounds: "sender_ok sha g \<Longrightarrow> og_parts g \<le> length (og_token g)"
proof -
  assume a: "sender_ok sha g"
  show ?thesis
  proof (cases "og_parts g")
    case (Suc k)
    then have "k * og_part_size g < length (og_token g)" using part_at_nth(2)[OF a, of k] by simp
    moreover have "k * 1 \<le> k * og_part_size g" using a unfolding sender_ok_def by (intro mult_le_mono2) linarith
    ultimately show ?thesis using Suc by linarith
  qed simp
qed

lemma og_part_served: "sender_ok sha g \<Longrightarrow> i < og_parts g \<Longrightarrow> og_part g i = Some (part_at g i)"
proof -
  assume a: "sender_ok sha g" "i < og_parts g"
  note P = part_at_nth[OF a]
  have "i * og_part_size g \<le> u64_max" using P(2) a(1) by (simp add: sender_ok_def u64_max_def)
  then show ?thesis using P
    by (simp add: og_part_def checked_mul_def slice_get_def part_at_def token_slice_def add.commute Let_def)
qed


section \<open>What the receiver holds\<close>

definition eff_size :: "outgoing \<Rightarrow> nat" where
  "eff_size g = (if og_parts g = 1 then length (og_token g) else og_part_size g)"

definition placed :: "outgoing \<Rightarrow> bool list \<Rightarrow> incoming \<Rightarrow> bool" where
  "placed g have s \<longleftrightarrow> (case ic_part_size s of
     None \<Rightarrow> ic_token s = [] \<and> (\<forall>i < og_parts g. have ! i \<longrightarrow> i + 1 = og_parts g \<and> 0 < i)
       \<and> ic_tail s = (if have ! (og_parts g - 1) then Some (part_at g (og_parts g - 1)) else None)
   | Some z \<Rightarrow> z = eff_size g \<and> ic_tail s = None \<and> length (ic_token s) = length (og_token g)
       \<and> (\<forall>i < og_parts g. have ! i \<longrightarrow> token_slice (ic_token s) z i = part_at g i))"

definition offered :: "outgoing \<Rightarrow> incoming \<Rightarrow> bool" where
  "offered g s \<longleftrightarrow> ic_hash s = og_hash g \<and> ic_random_hash s = to_be 4 (og_random_hash g)
     \<and> ic_total_parts s = og_parts g \<and> ic_transfer_size s = length (og_token g) \<and> 1 \<le> ic_window s"

definition mapped :: "outgoing \<Rightarrow> nat \<Rightarrow> incoming \<Rightarrow> bool" where
  "mapped g L s \<longleftrightarrow> 0 < ic_hashmap_height s \<and> ic_hashmap_height s \<le> og_parts g
     \<and> ic_hashmap s = map Some (take (ic_hashmap_height s) (og_map_hashes g)) @ replicate (og_parts g - ic_hashmap_height s) None
     \<and> (ic_hashmap_height s = og_parts g \<or> (ic_segment_len s = L \<and> L dvd ic_hashmap_height s))"

definition counted_parts :: "outgoing \<Rightarrow> incoming \<Rightarrow> bool" where
  "counted_parts g s \<longleftrightarrow> length (ic_have s) = og_parts g
     \<and> (\<forall>i < og_parts g. ic_have s ! i \<longrightarrow> i < ic_hashmap_height s)
     \<and> ic_received s = length (filter (\<lambda>b. b) (ic_have s)) \<and> ic_consecutive s = length (takeWhile (\<lambda>b. b) (ic_have s))"

definition receives :: "outgoing \<Rightarrow> nat \<Rightarrow> incoming \<Rightarrow> bool" where
  "receives g L s \<longleftrightarrow> offered g s \<and> mapped g L s \<and> counted_parts g s \<and> placed g (ic_have s) s"

lemma eff_size_facts:
  assumes "sender_ok sha g" "i < og_parts g"
  shows "0 < eff_size g" "token_slice (og_token g) (eff_size g) i = part_at g i" "i * eff_size g \<le> length (og_token g)"
    "length (part_at g i) = min (i * eff_size g + eff_size g) (length (og_token g)) - i * eff_size g"
proof -
  have t: "og_token g \<noteq> []" "0 < og_part_size g" using assms(1) by (simp_all add: sender_ok_def)
  show "0 < eff_size g" using t by (simp add: eff_size_def)
  have one: "length (og_token g) \<le> og_part_size g" if "og_parts g = 1"
  proof -
    have "og_parts g = length (chunks (og_part_size g) (og_token g))" using assms(1) by (simp add: sender_ok_def)
    then have "\<not> 1 < length (chunks (og_part_size g) (og_token g))" using that by linarith
    then show ?thesis using chunks_index[OF t(2), of 1 "og_token g"] by simp
  qed
  show "token_slice (og_token g) (eff_size g) i = part_at g i" "i * eff_size g \<le> length (og_token g)"
    "length (part_at g i) = min (i * eff_size g + eff_size g) (length (og_token g)) - i * eff_size g"
    using assms one part_at_nth(2,5)[OF assms] by (auto simp: eff_size_def part_at_def token_slice_alt)
qed

lemma write_part_honest:
  assumes g: "sender_ok sha g" "i < og_parts g"
    and s: "ic_transfer_size s = length (og_token g)" "length (ic_token s) = length (og_token g)"
  shows "\<exists>t. write_part s i (eff_size g) (part_at g i) = (s\<lparr>ic_token := t\<rparr>, True) \<and> length t = length (og_token g)
     \<and> token_slice t (eff_size g) i = part_at g i
     \<and> (\<forall>j. j \<noteq> i \<longrightarrow> token_slice t (eff_size g) j = token_slice (ic_token s) (eff_size g) j)"
proof -
  note E = eff_size_facts[OF g]
  let ?t = "take (i * eff_size g) (ic_token s) @ part_at g i
    @ drop (min (i * eff_size g + eff_size g) (length (og_token g))) (ic_token s)"
  have "write_part s i (eff_size g) (part_at g i) = (s\<lparr>ic_token := ?t\<rparr>, True)"
    using E(4) by (simp add: write_part_def s Let_def)
  moreover have "length ?t = length (ic_token s)" "token_slice ?t (eff_size g) i = part_at g i"
    "\<forall>j. j \<noteq> i \<longrightarrow> token_slice ?t (eff_size g) j = token_slice (ic_token s) (eff_size g) j"
    using slice_written[of i "eff_size g" "ic_token s" "part_at g i"] E s(2) by simp_all
  ultimately show ?thesis using s(2) by metis
qed

lemma size_fits_honest:
  assumes g: "sender_ok sha g" "i < og_parts g" and s: "offered g s" and first: "i + 1 < og_parts g \<or> og_parts g = 1"
  shows "size_fits s i (length (part_at g i))" "length (part_at g i) = eff_size g"
proof -
  have s': "ic_total_parts s = og_parts g" "ic_transfer_size s = length (og_token g)" using s by (simp_all add: offered_def)
  have p: "0 < og_part_size g" "og_parts g = length (chunks (og_part_size g) (og_token g))" using g(1) by (simp_all add: sender_ok_def)
  have "size_fits s i (length (part_at g i)) \<and> length (part_at g i) = eff_size g"
  proof (cases "og_parts g = 1")
    case True
    then show ?thesis using g eff_size_facts(4)[OF g] by (simp add: size_fits_def s' eff_size_def)
  next
    case False
    with first have i: "i + 1 < og_parts g" by simp
    have "(i + 1) * og_part_size g < length (og_token g)" using part_at_nth(2)[OF g(1) i] .
    then have l: "length (part_at g i) = og_part_size g" using part_at_nth(5)[OF g] by simp
    have "(og_parts g - 1) * og_part_size g < length (og_token g)" using part_at_nth(2)[OF g(1), of "og_parts g - 1"] i by simp
    moreover have "length (og_token g) \<le> og_parts g * og_part_size g"
      using chunks_index[OF p(1), of "og_parts g" "og_token g"] p(2) by simp
    moreover have "i \<noteq> og_parts g - 1" using i by linarith
    ultimately show ?thesis using l i p(1) by (simp add: size_fits_def s' eff_size_def mult.commute)
  qed
  then show "size_fits s i (length (part_at g i))" "length (part_at g i) = eff_size g" by blast+
qed

lemma placed_Some:
  "ic_part_size s = Some z \<Longrightarrow> placed g have s \<longleftrightarrow> z = eff_size g \<and> ic_tail s = None
     \<and> length (ic_token s) = length (og_token g) \<and> (\<forall>i < og_parts g. have ! i \<longrightarrow> token_slice (ic_token s) z i = part_at g i)"
  by (simp add: placed_def)

lemma placed_cong:
  "ic_part_size s = ic_part_size s' \<Longrightarrow> ic_token s = ic_token s' \<Longrightarrow> ic_tail s = ic_tail s' \<Longrightarrow> placed g have s = placed g have s'"
  by (simp only: placed_def)

lemma place_tail_honest:
  assumes g: "sender_ok sha g" and s: "offered g s" "length (ic_have s) = og_parts g"
    and z: "ic_part_size s = Some (eff_size g)" "length (ic_token s) = length (og_token g)"
    and t: "ic_tail s = (if ic_have s ! (og_parts g - 1) then Some (part_at g (og_parts g - 1)) else None)"
  shows "\<exists>t. place_tail s (eff_size g) = s\<lparr>ic_token := t, ic_tail := None\<rparr> \<and> length t = length (og_token g)
     \<and> (ic_have s ! (og_parts g - 1) \<longrightarrow> token_slice t (eff_size g) (og_parts g - 1) = part_at g (og_parts g - 1))"
proof -
  let ?k = "og_parts g - 1"
  have k: "?k < og_parts g" "ic_total_parts s = og_parts g" "ic_transfer_size s = length (og_token g)"
    using parts_positive[OF g] s(1) by (simp_all add: offered_def)
  show ?thesis
  proof (cases "ic_have s ! ?k")
    case False
    then have "place_tail s (eff_size g) = s" "ic_tail s = None" using t by (simp_all add: place_tail_def k)
    then show ?thesis using z False by (intro exI[of _ "ic_token s"]) simp
  next
    case True
    obtain u where "write_part (s\<lparr>ic_tail := None\<rparr>) ?k (eff_size g) (part_at g ?k) = (s\<lparr>ic_tail := None, ic_token := u\<rparr>, True)"
      "length u = length (og_token g)" "token_slice u (eff_size g) ?k = part_at g ?k"
      using write_part_honest[OF g k(1), of "s\<lparr>ic_tail := None\<rparr>"] k(3) z by auto
    then show ?thesis using True t k by (intro exI[of _ u]) (simp add: place_tail_def)
  qed
qed

lemma place_honest:
  assumes g: "sender_ok sha g" "i < og_parts g" and s: "offered g s" "length (ic_have s) = og_parts g" "placed g (ic_have s) s"
    and new: "\<not> ic_have s ! i"
  shows "\<exists>t z u. place s i (part_at g i) = (s\<lparr>ic_token := t, ic_part_size := z, ic_tail := u\<rparr>, True)
     \<and> placed g ((ic_have s)[i := True]) (s\<lparr>ic_token := t, ic_part_size := z, ic_tail := u\<rparr>)"
proof -
  let ?n = "og_parts g" and ?e = "eff_size g"
  have s': "ic_total_parts s = ?n" "ic_transfer_size s = length (og_token g)" using s by (simp_all add: offered_def)
  have n: "0 < ?n" by (rule parts_positive[OF g(1)])
  show ?thesis
  proof (cases "ic_part_size s")
    case (Some z)
    then have z: "z = ?e" "ic_tail s = None" "length (ic_token s) = length (og_token g)"
      "\<forall>j < ?n. ic_have s ! j \<longrightarrow> token_slice (ic_token s) ?e j = part_at g j" using s(3) unfolding placed_Some[OF Some] by blast+
    from write_part_honest[OF g s'(2) z(3)] obtain t where t: "write_part s i ?e (part_at g i) = (s\<lparr>ic_token := t\<rparr>, True)"
      "length t = length (og_token g)" "token_slice t ?e i = part_at g i"
      "\<forall>j. j \<noteq> i \<longrightarrow> token_slice t ?e j = token_slice (ic_token s) ?e j" by blast
    have e: "s\<lparr>ic_token := t, ic_part_size := Some z, ic_tail := None\<rparr> = s\<lparr>ic_token := t\<rparr>" using Some z by simp
    have "place s i (part_at g i) = (s\<lparr>ic_token := t\<rparr>, True)" using Some t(1) z(1) by (simp add: place_def)
    moreover have "token_slice t ?e j = part_at g j" if "j < ?n" "(ic_have s)[i := True] ! j" for j
      using that t(3,4) z(4) by (cases "j = i") simp_all
    then have "placed g ((ic_have s)[i := True]) (s\<lparr>ic_token := t\<rparr>)" using Some z(1,2) t(2) by (simp add: placed_Some)
    ultimately show ?thesis using e by metis
  next
    case None
    then have z: "ic_token s = []" "\<forall>j < ?n. ic_have s ! j \<longrightarrow> j + 1 = ?n \<and> 0 < j"
      "ic_tail s = (if ic_have s ! (?n - 1) then Some (part_at g (?n - 1)) else None)" using s(3) by (simp_all add: placed_def)
    show ?thesis
    proof (cases "i + 1 = ?n \<and> 0 < i")
      case True
      then have i: "i = ?n - 1" "0 < ?n - 1" by linarith+
      let ?s = "s\<lparr>ic_tail := Some (part_at g i)\<rparr>"
      have "place s i (part_at g i) = (?s, True)" using None i s' by (simp add: place_def)
      moreover have "placed g ((ic_have s)[i := True]) ?s"
        using None z True s(2) i by (auto simp: placed_def nth_list_update)
      moreover have "s\<lparr>ic_token := ic_token s, ic_part_size := None, ic_tail := Some (part_at g i)\<rparr> = ?s" using None by simp
      ultimately show ?thesis by metis
    next
      case False
      then have first: "i + 1 < ?n \<or> ?n = 1" using g(2) by linarith
      note fits = size_fits_honest[OF g s(1) first]
      let ?s0 = "s\<lparr>ic_part_size := Some ?e, ic_token := replicate (ic_transfer_size s) 0\<rparr>"
      have "offered g ?s0" using s(1) by (simp add: offered_def)
      from place_tail_honest[OF g(1) this] obtain t0 where t0: "place_tail ?s0 ?e = ?s0\<lparr>ic_token := t0, ic_tail := None\<rparr>"
        "length t0 = length (og_token g)" "ic_have s ! (?n - 1) \<longrightarrow> token_slice t0 ?e (?n - 1) = part_at g (?n - 1)"
        using s(2) s'(2) z(3) by auto
      let ?s1 = "?s0\<lparr>ic_token := t0, ic_tail := None\<rparr>"
      obtain t where t: "write_part ?s1 i ?e (part_at g i) = (?s1\<lparr>ic_token := t\<rparr>, True)"
        "length t = length (og_token g)" "token_slice t ?e i = part_at g i"
        "\<forall>j. j \<noteq> i \<longrightarrow> token_slice t ?e j = token_slice t0 ?e j"
        using write_part_honest[OF g, of ?s1] s'(2) t0(2) by auto
      have "\<not> (i = ?n - 1 \<and> 0 < ?n - 1)" using first by auto
      then have "place s i (part_at g i) = write_part ?s1 i ?e (part_at g i)"
        using None fits s'(1) t0(1) by (auto simp: place_def Let_def)
      also have "\<dots> = (s\<lparr>ic_token := t, ic_part_size := Some ?e, ic_tail := None\<rparr>, True)" using t(1) by simp
      finally have p: "place s i (part_at g i) = (s\<lparr>ic_token := t, ic_part_size := Some ?e, ic_tail := None\<rparr>, True)" .
      have "token_slice t ?e j = part_at g j" if "j < ?n" "(ic_have s)[i := True] ! j" for j
      proof (cases "j = i")
        case False
        with that have j: "ic_have s ! j" by simp
        then have "j = ?n - 1" using z(2) that(1) by auto
        then show ?thesis using t(4) t0(3) j False by simp
      qed (use t in simp)
      then have "placed g ((ic_have s)[i := True]) (s\<lparr>ic_token := t, ic_part_size := Some ?e, ic_tail := None\<rparr>)"
        using t(2) by (simp add: placed_def)
      with p show ?thesis by blast
    qed
  qed
qed

section \<open>Accepting parts\<close>

lemma filter_set_bit: "i < length bs \<Longrightarrow> \<not> bs ! i \<Longrightarrow> length (filter (\<lambda>b. b) (bs[i := True])) = length (filter (\<lambda>b. b) bs) + 1"
  by (induction bs arbitrary: i) (auto simp: nth_Cons split: nat.splits)

lemma takeWhile_known: "i < length (takeWhile P xs) \<Longrightarrow> P (xs ! i)"
  by (metis nth_mem set_takeWhileD takeWhile_nth)

lemma first_missing:
  assumes "i < length bs" "\<not> bs ! i"
  shows "length (takeWhile (\<lambda>b. b) bs) \<le> i" "\<not> bs ! length (takeWhile (\<lambda>b. b) bs)"
proof -
  show l: "length (takeWhile (\<lambda>b. b) bs) \<le> i" using takeWhile_known[of i "\<lambda>b. b" bs] assms by force
  show "\<not> bs ! length (takeWhile (\<lambda>b. b) bs)" using nth_length_takeWhile[of "\<lambda>b. b" bs] l assms(1) by simp
qed

lemma advanced:
  assumes "i < length bs" "\<not> bs ! i"
  shows "length (takeWhile (\<lambda>b. b) bs) + length (takeWhile (\<lambda>b. b) (drop (length (takeWhile (\<lambda>b. b) bs)) (bs[i := True])))
    = length (takeWhile (\<lambda>b. b) (bs[i := True]))"
proof -
  let ?c = "length (takeWhile (\<lambda>b. b) bs)" and ?bs = "bs[i := True]"
  have c: "?c \<le> i" by (rule first_missing[OF assms])
  have "take ?c ?bs = take ?c bs" using c by simp
  also have "\<dots> = takeWhile (\<lambda>b. b) bs" by (metis takeWhile_eq_take)
  finally have t: "take ?c ?bs = takeWhile (\<lambda>b. b) bs" .
  have "takeWhile (\<lambda>b. b) (take ?c ?bs @ drop ?c ?bs) = take ?c ?bs @ takeWhile (\<lambda>b. b) (drop ?c ?bs)"
    by (rule takeWhile_append2) (auto simp: t dest: set_takeWhileD)
  then show ?thesis by (metis append_take_drop_id length_append t)
qed

text \<open>The hash of a part the receiver knows.\<close>

lemma known_hash:
  assumes "mapped g L s" "i < og_parts g"
  shows "ic_hashmap s ! i = (if i < ic_hashmap_height s then Some (og_map_hashes g ! i) else None)"
  using assms by (auto simp: mapped_def nth_append)

lemma find_window:
  "List.find P xs = Some i \<Longrightarrow> P i \<and> i \<in> set xs"
  by (auto simp: find_Some_iff)

lemma accept_part_honest:
  assumes g: "sender_ok sha g" and r: "receives g L s" and j: "j < og_parts g" and a: "accept_part sha s (part_at g j) = (s', b)"
  shows "receives g L s'" "ic_hashmap_height s' = ic_hashmap_height s" "ic_segment_len s' = ic_segment_len s"
    "ic_received s \<le> ic_received s'" "b \<longrightarrow> ic_received s' = ic_received s + 1" "ic_hashmap s' = ic_hashmap s"
    "ic_compressed s' = ic_compressed s"
    "b \<longleftrightarrow> (\<exists>i \<in> set (window_range s). \<not> ic_have s ! i \<and> ic_hashmap s ! i = Some (og_map_hashes g ! j))"
proof -
  have I: "offered g s" "mapped g L s" "counted_parts g s" "placed g (ic_have s) s" using r by (simp_all add: receives_def)
  have m: "map_hash sha (part_at g j) (ic_random_hash s) = og_map_hashes g ! j"
    using part_at_nth(3)[OF g j] I(1) by (simp add: offered_def)
  let ?P = "\<lambda>i. \<not> ic_have s ! i \<and> ic_hashmap s ! i = Some (og_map_hashes g ! j)"
  have "receives g L s' \<and> ic_hashmap_height s' = ic_hashmap_height s \<and> ic_segment_len s' = ic_segment_len s
    \<and> ic_received s \<le> ic_received s' \<and> (b \<longrightarrow> ic_received s' = ic_received s + 1) \<and> ic_hashmap s' = ic_hashmap s
    \<and> ic_compressed s' = ic_compressed s \<and> (b \<longleftrightarrow> (\<exists>i \<in> set (window_range s). ?P i))"
  proof (cases "List.find ?P (window_range s)")
    case None
    then have "s' = s \<and> \<not> b" using a by (simp add: accept_part_def m)
    with None r show ?thesis by (auto simp: find_None_iff)
  next
    case (Some i)
    from find_window[OF this] have P: "?P i" and win: "i \<in> set (window_range s)" by blast+
    have i: "i < og_parts g" using win I(1) by (auto simp: window_range_def offered_def)
    have h: "i < ic_hashmap_height s" "og_map_hashes g ! i = og_map_hashes g ! j"
      using P known_hash[OF I(2) i] by (auto split: if_splits)
    with g i j have same: "part_at g j = part_at g i" unfolding sender_ok_def by metis
    have len: "length (ic_have s) = og_parts g" using I(3) by (simp add: counted_parts_def)
    obtain t z u where p: "place s i (part_at g i) = (s\<lparr>ic_token := t, ic_part_size := z, ic_tail := u\<rparr>, True)"
      "placed g ((ic_have s)[i := True]) (s\<lparr>ic_token := t, ic_part_size := z, ic_tail := u\<rparr>)"
      using place_honest[OF g i I(1) len I(4)] P by blast
    let ?h = "(ic_have s)[i := True]"
    let ?s = "s\<lparr>ic_token := t, ic_part_size := z, ic_tail := u, ic_have := ?h, ic_received := ic_received s + 1,
        ic_consecutive := length (takeWhile (\<lambda>b. b) ?h)\<rparr>"
    have "i < length (ic_have s)" "\<not> ic_have s ! i" using i len P by simp_all
    note adv = advanced[OF this] and bit = filter_set_bit[OF this]
    have "s' = ?s \<and> b" using a p(1)[folded same] I(3) adv by (simp add: accept_part_def m Some counted_parts_def)
    moreover have "offered g ?s" "mapped g L ?s" using I(1,2) by (simp_all add: offered_def mapped_def)
    moreover have "k < ic_hashmap_height s" if "k < og_parts g" "?h ! k" for k
      using that h(1) I(3) by (cases "k = i") (simp_all add: counted_parts_def)
    then have "counted_parts g ?s" using I(3) bit len by (simp add: counted_parts_def)
    moreover have "placed g ?h ?s" by (rule placed_cong[THEN iffD1, OF _ _ _ p(2)]) simp_all
    ultimately have R: "receives g L ?s" "s' = ?s" b by (simp_all add: receives_def)
    show ?thesis using P win R unfolding R(2) by auto
  qed
  then show "receives g L s'" "ic_hashmap_height s' = ic_hashmap_height s" "ic_segment_len s' = ic_segment_len s"
    "ic_received s \<le> ic_received s'" "b \<longrightarrow> ic_received s' = ic_received s + 1" "ic_hashmap s' = ic_hashmap s"
    "ic_compressed s' = ic_compressed s"
    "b \<longleftrightarrow> (\<exists>i \<in> set (window_range s). \<not> ic_have s ! i \<and> ic_hashmap s ! i = Some (og_map_hashes g ! j))"
    by blast+
qed

section \<open>Learning the map\<close>

lemma fill_slots_empty:
  "fill_slots (replicate m None) ys = (map Some (take m ys) @ replicate (m - length ys) None, min m (length ys))"
proof (induction m arbitrary: ys)
  case (Suc m)
  then show ?case by (cases ys) simp_all
qed simp

lemma fill_slots_known:
  "fill_slots (map Some xs @ replicate m None) ys
     = (map Some (xs @ take m (drop (length xs) ys)) @ replicate (m - (length ys - length xs)) None, min m (length ys - length xs))"
proof (induction xs arbitrary: ys)
  case (Cons x xs)
  then show ?case by (cases ys) simp_all
qed (simp add: fill_slots_empty)

text \<open>An update of the sender: a stretch of the map from the start of a hashmap segment.\<close>

definition update_ok :: "outgoing \<Rightarrow> nat \<Rightarrow> nat \<Rightarrow> hashmap_update \<Rightarrow> bool" where
  "update_ok g L height u \<longleftrightarrow> (\<exists>start. L dvd start \<and> start \<le> height \<and> start \<le> og_parts g
     \<and> u = \<lparr>hu_resource_hash = og_hash g, hu_segment = of_nat (start div L),
           hu_hashes = take L (drop start (og_map_hashes g))\<rparr>)"

lemma sint_of_nat: "k < 2 ^ 63 \<Longrightarrow> sint (of_nat k :: i64) = int k"
  by (simp add: signed_of_nat signed_take_bit_int_eq_self)

lemma ingest_hmu_honest:
  assumes g: "sender_ok sha g" and r: "receives g L s" and L: "0 < L" and u: "update_ok g L (ic_hashmap_height s) u"
    and a: "ingest_hmu s u = (s', added)" and seg: "ic_segment_len s = L"
  shows "receives g L s'" "ic_hashmap_height s \<le> ic_hashmap_height s'" "ic_received s' = ic_received s"
    "ic_have s' = ic_have s" "ic_segment_len s' = ic_segment_len s" "ic_compressed s' = ic_compressed s"
    "hu_segment u = of_nat (ic_hashmap_height s div L) \<Longrightarrow> ic_hashmap_height s < og_parts g \<Longrightarrow> L dvd ic_hashmap_height s
      \<Longrightarrow> ic_hashmap_height s < ic_hashmap_height s'"
    "hu_segment u = of_nat (b div L) \<Longrightarrow> L dvd b \<Longrightarrow> b \<le> og_parts g
      \<Longrightarrow> ic_hashmap_height s' \<le> max (ic_hashmap_height s) (b + L)"
proof -
  let ?h = "ic_hashmap_height s" and ?n = "og_parts g" and ?mh = "og_map_hashes g"
  obtain start where st: "L dvd start" "start \<le> ?h" "start \<le> ?n"
    and eq: "u = \<lparr>hu_resource_hash = og_hash g, hu_segment = of_nat (start div L), hu_hashes = take L (drop start ?mh)\<rparr>"
    using u unfolding update_ok_def by blast
  have u': "hu_segment u = of_nat (start div L)" "hu_hashes u = take L (drop start ?mh)" unfolding eq by simp_all
  have I: "0 < ?h" "?h \<le> ?n" "ic_hashmap s = map Some (take ?h ?mh) @ replicate (?n - ?h) None"
    "?h = ?n \<or> L dvd ?h" using r by (auto simp: receives_def mapped_def)
  have n: "?n < 2 ^ 63" using parts_bounds[OF g] g by (simp add: sender_ok_def)
  have "start div L \<le> start" by simp
  then have seg_num: "sint (hu_segment u) = int (start div L)" unfolding u'(1) using st(3) n by (intro sint_of_nat) linarith
  have mult: "start div L * L = start" using st(1) by simp
  have "start \<le> u64_max" using st(3) n by (simp add: u64_max_def)
  then have cm: "checked_mul u64_max (start div L) L = Some start" by (simp add: checked_mul_def mult)
  let ?xs = "drop start (take ?h ?mh)"
  have lx: "length ?xs = ?h - start" using I(2) by simp
  have dh: "drop start (ic_hashmap s) = map Some ?xs @ replicate (?n - ?h) None"
    unfolding I(3) using st(2) I(2) by (simp add: drop_map)
  let ?new = "take (?n - ?h) (drop (?h - start) (take L (drop start ?mh)))"
  have new: "?new = take (min (?n - ?h) (start + L - ?h)) (drop ?h ?mh)"
    using st(2) by (simp add: drop_take min.commute add.commute) 
  let ?h' = "min ?n (max ?h (start + L))"
  have take': "take ?h' ?mh = take ?h ?mh @ ?new"
  proof -
    have "?h' = ?h + min (?n - ?h) (start + L - ?h)" using I(2) by (auto simp: min_def max_def)
    then show ?thesis unfolding new by (simp add: take_add)
  qed
  have fs: "fill_slots (drop start (ic_hashmap s)) (hu_hashes u)
      = (map Some (?xs @ ?new) @ replicate (?n - ?h') None, ?h' - ?h)"
    unfolding dh u'(2) fill_slots_known lx using st I(2) by (auto simp: min_def max_def)
  have start_map: "take start (ic_hashmap s) = map Some (take start (take ?h ?mh))"
    unfolding I(3) using st(2) I(2) by (simp add: take_map)
  have all: "take start (ic_hashmap s) @ map Some (?xs @ ?new) = map Some (take ?h' ?mh)"
    unfolding start_map take' by (metis append_assoc append_take_drop_id map_append)
  have s': "s' = s\<lparr>ic_hashmap := map Some (take ?h' ?mh) @ replicate (?n - ?h') None, ic_hashmap_height := ?h'\<rparr>"
    using a all I(2) by (simp add: ingest_hmu_def seg_num seg cm fs flip: append_assoc)
  have "?h' = ?n \<or> L dvd ?h'"
    using I(4) st(1) by (auto simp: min_def max_def)
  then have "mapped g L s'" using I(1,2) seg by (auto simp: mapped_def s')
  moreover have "offered g s'" "counted_parts g s'" "placed g (ic_have s') s'" "ic_received s' = ic_received s" "ic_have s' = ic_have s"
    using r placed_cong[of s s'] by (auto simp: receives_def offered_def counted_parts_def s')
  ultimately show "receives g L s'" by (simp add: receives_def)
  show "ic_hashmap_height s \<le> ic_hashmap_height s'" using I(2) by (simp add: s')
  show "ic_received s' = ic_received s" "ic_have s' = ic_have s" "ic_segment_len s' = ic_segment_len s"
    "ic_compressed s' = ic_compressed s" by (simp_all add: s')
  have only: "start = k" if k: "hu_segment u = of_nat (k div L)" "L dvd k" "k \<le> ?n" for k
  proof -
    have "k div L \<le> k" by simp
    then have "sint (hu_segment u) = int (k div L)" unfolding k(1) using k(3) n by (intro sint_of_nat) linarith
    then have "start div L = k div L" using seg_num by simp
    then show ?thesis using k(2) mult by simp
  qed
  show "?h < ic_hashmap_height s'" if "hu_segment u = of_nat (?h div L)" "?h < ?n" "L dvd ?h"
    using only[OF that(1,3)] that(2) L by (simp add: s')
  show "ic_hashmap_height s' \<le> max ?h (b + L)" if "hu_segment u = of_nat (b div L)" "L dvd b" "b \<le> ?n"
    using only[OF that] by (simp add: s')
qed

section \<open>Answering requests\<close>

definition resume_from :: "nat \<Rightarrow> nat list \<Rightarrow> nat \<Rightarrow> nat" where
  "resume_from L is i = foldl (\<lambda>found nxt. if found mod L = 0 then found else nxt) i is"

lemma resume_from_spec:
  assumes "sorted (i # is)" "h \<in> set (i # is)" "L dvd h"
  shows "L dvd resume_from L is i \<and> resume_from L is i \<le> h \<and> resume_from L is i \<in> set (i # is)"
  using assms
proof (induction "is" arbitrary: i)
  case (Cons j js)
  have stop: "L dvd i \<Longrightarrow> resume_from L ks i = i" for ks by (induction ks) (simp_all add: resume_from_def)
  show ?case
  proof (cases "L dvd i")
    case True
    then show ?thesis using stop[of "j # js"] Cons.prems(1,2) by auto
  next
    case False
    with Cons.prems(2,3) have "h \<in> set (j # js)" by auto
    moreover have "resume_from L (j # js) i = resume_from L js j" using False by (simp add: resume_from_def dvd_eq_mod_eq_0)
    ultimately show ?thesis using Cons.IH[of j] Cons.prems by auto
  qed
qed (simp add: resume_from_def)

text \<open>
  The sender resumes at the first segment end that carries the asked hash, so it resumes where
  the receiver stands if no two segment ends carry the same one.
\<close>

definition segment_ends_apart :: "outgoing \<Rightarrow> nat \<Rightarrow> bool" where
  "segment_ends_apart g L \<longleftrightarrow> (\<forall>h < og_parts g. \<forall>h' < h. 0 < h' \<longrightarrow> L dvd h \<longrightarrow> L dvd h'
     \<longrightarrow> og_map_hashes g ! (h - 1) \<noteq> og_map_hashes g ! (h' - 1))"

lemma resume_at_spec:
  assumes g: "sender_ok sha g" and h: "0 < h" "h \<le> og_parts g" "L dvd h" and m: "og_map_hashes g ! (h - 1) = m"
  shows "L dvd resume_at g m L" "resume_at g m L \<le> h"
    "segment_ends_apart g L \<Longrightarrow> h < og_parts g \<Longrightarrow> resume_at g m L = h"
proof -
  let ?is = "filter (\<lambda>i. og_map_hashes g ! i = m) [0..<og_parts g]"
  have ix: "indices_of g m = ?is" using g by (intro indices_of_spec) (simp add: sender_ok_def)
  have "h - 1 \<in> set ?is" using h(1,2) m by auto
  moreover have "h = (h - 1) + 1" using h(1) by simp
  ultimately have mem: "h \<in> set (map (\<lambda>i. i + 1) ?is)" unfolding set_map by (rule rev_image_eqI)
  then have "map (\<lambda>i. i + 1) ?is \<noteq> []" by (metis empty_iff list.set(1))
  then obtain i rest where c: "map (\<lambda>i. i + 1) ?is = i # rest" using list.exhaust by blast
  have "sorted ?is" by (simp add: sorted_wrt_filter)
  then have so: "sorted (map (\<lambda>i. i + 1) ?is)" by (simp add: sorted_map)
  have "resume_at g m L = resume_from L rest i" unfolding resume_at_def ix c by (simp add: resume_from_def)
  with resume_from_spec[OF so[unfolded c] mem[unfolded c] h(3)]
  have R: "L dvd resume_at g m L" "resume_at g m L \<le> h" "resume_at g m L \<in> set (map (\<lambda>i. i + 1) ?is)"
    unfolding c by simp_all
  then show "L dvd resume_at g m L" "resume_at g m L \<le> h" by blast+
  assume d: "segment_ends_apart g L" "h < og_parts g"
  obtain k where k: "og_map_hashes g ! k = m" "resume_at g m L = Suc k" using R(3) by auto
  show "resume_at g m L = h"
  proof (rule ccontr)
    assume "resume_at g m L \<noteq> h"
    with R(2) k(2) have "Suc k < h" by simp
    then have "og_map_hashes g ! (h - 1) \<noteq> og_map_hashes g ! (Suc k - 1)"
      using d h(3) R(1)[unfolded k(2)] unfolding segment_ends_apart_def by blast
    then show False using k(1) m by simp
  qed
qed

lemma hmu_answer:
  assumes g: "sender_ok sha g" and h: "0 < h" "h \<le> og_parts g" "clamp 1 HASHMAP_MAX_PARTS limit dvd h"
    and m: "og_map_hashes g ! (h - 1) = m"
  shows "\<exists>u. parse_hmu (hmu_after_with_hash_limit g m limit) = Inr u \<and> hu_resource_hash u = og_hash g
     \<and> update_ok g (clamp 1 HASHMAP_MAX_PARTS limit) h u
     \<and> hu_segment u = of_nat (resume_at g m (clamp 1 HASHMAP_MAX_PARTS limit) div clamp 1 HASHMAP_MAX_PARTS limit)"
proof -
  let ?L = "clamp 1 HASHMAP_MAX_PARTS limit" and ?start = "resume_at g m (clamp 1 HASHMAP_MAX_PARTS limit)"
  note R = resume_at_spec[OF g h m]
  let ?hs = "take (min (?start + ?L) (og_parts g) - ?start) (drop ?start (og_map_hashes g))"
  have hs: "?hs = take ?L (drop ?start (og_map_hashes g))" using R(2) h(2) by (auto simp: min_def)
  have "length ?hs \<le> 74" unfolding hs by (simp add: clamp_def resource_consts)
  then have "parse_hmu (hmu_after_with_hash_limit g m limit)
    = Inr \<lparr>hu_resource_hash = og_hash g, hu_segment = of_nat (?start div ?L), hu_hashes = ?hs\<rparr>"
    unfolding hmu_after_with_hash_limit_def Let_def by (intro hmu_written) (simp add: u32_max_def)
  moreover have "update_ok g ?L h \<lparr>hu_resource_hash = og_hash g, hu_segment = of_nat (?start div ?L), hu_hashes = ?hs\<rparr>"
    unfolding update_ok_def hs using R(1,2) h(2) by (intro exI[of _ ?start]) simp
  ultimately show ?thesis by auto
qed

section \<open>The session\<close>

record exchange =
  ex_in :: incoming
  ex_requests :: "bytes list"
  ex_parts :: "bytes list"
  ex_updates :: "bytes list"

datatype transfer_event = Ask | Answer nat | TakePart nat | TakeUpdate nat | Resize nat

text \<open>
  Messages stay in the network once sent, so a run may drop, repeat and reorder them; the sender
  answers requests of its own resource, the receiver takes updates of its own.
\<close>

fun transfer_step :: "sha256 \<Rightarrow> outgoing \<Rightarrow> nat \<Rightarrow> exchange \<Rightarrow> transfer_event \<Rightarrow> exchange" where
  "transfer_step sha g limit e Ask =
     e\<lparr>ex_requests := ex_requests e @ [case_prod (request_with (ex_in e)) (next_request (ex_in e))]\<rparr>"
| "transfer_step sha g limit e (Answer k) =
     (case get_at (ex_requests e) k of
        None \<Rightarrow> e
      | Some payload \<Rightarrow>
          (case parse_request payload of
             Inl _ \<Rightarrow> e
           | Inr q \<Rightarrow>
               if rq_resource_hash q \<noteq> og_hash g then e
               else e\<lparr>ex_parts := ex_parts e @ serve g q,
                      ex_updates := ex_updates e @
                        (case rq_last_map_hash q of
                           Some m \<Rightarrow> if rq_exhausted q then [hmu_after_with_hash_limit g m limit] else []
                         | None \<Rightarrow> [])\<rparr>))"
| "transfer_step sha g limit e (TakePart k) =
     (case get_at (ex_parts e) k of None \<Rightarrow> e | Some part \<Rightarrow> e\<lparr>ex_in := fst (accept_part sha (ex_in e) part)\<rparr>)"
| "transfer_step sha g limit e (TakeUpdate k) =
     (case get_at (ex_updates e) k of
        None \<Rightarrow> e
      | Some payload \<Rightarrow>
          (case parse_hmu payload of
             Inl _ \<Rightarrow> e
           | Inr u \<Rightarrow> if hu_resource_hash u \<noteq> ic_hash (ex_in e) then e else e\<lparr>ex_in := fst (ingest_hmu (ex_in e) u)\<rparr>))"
| "transfer_step sha g limit e (Resize w) = e\<lparr>ex_in := set_window (ex_in e) w\<rparr>"

definition transfer_start :: "incoming \<Rightarrow> exchange" where
  "transfer_start s = \<lparr>ex_in = s, ex_requests = [], ex_parts = [], ex_updates = []\<rparr>"

definition transfer_run :: "sha256 \<Rightarrow> outgoing \<Rightarrow> nat \<Rightarrow> exchange \<Rightarrow> transfer_event list \<Rightarrow> exchange" where
  "transfer_run sha g limit e evs = foldl (transfer_step sha g limit) e evs"

text \<open>One round without loss: a request, its answer, and all of the answer taken in.\<close>

definition transfer_round :: "sha256 \<Rightarrow> outgoing \<Rightarrow> nat \<Rightarrow> exchange \<Rightarrow> exchange" where
  "transfer_round sha g limit e =
    (let k = length (ex_requests e); p = length (ex_parts e); u = length (ex_updates e);
         e = transfer_run sha g limit e [Ask, Answer k]
     in transfer_run sha g limit e (map TakePart [p..<length (ex_parts e)] @ map TakeUpdate [u..<length (ex_updates e)]))"

definition asks_well :: "outgoing \<Rightarrow> nat \<Rightarrow> incoming \<Rightarrow> bytes \<Rightarrow> bool" where
  "asks_well g L s payload \<longleftrightarrow> (\<exists>q. parse_request payload = Inr q \<and> rq_resource_hash q = og_hash g
     \<and> (rq_exhausted q \<longrightarrow> ic_segment_len s = L
         \<and> (\<exists>h. 0 < h \<and> h \<le> ic_hashmap_height s \<and> L dvd h \<and> rq_last_map_hash q = Some (og_map_hashes g ! (h - 1))))
     \<and> (\<not> rq_exhausted q \<longrightarrow> rq_last_map_hash q = None))"

definition updates_well :: "outgoing \<Rightarrow> nat \<Rightarrow> incoming \<Rightarrow> bytes \<Rightarrow> bool" where
  "updates_well g L s payload \<longleftrightarrow> (\<exists>u. parse_hmu payload = Inr u \<and> hu_resource_hash u = og_hash g
     \<and> update_ok g L (ic_hashmap_height s) u \<and> ic_segment_len s = L)"

definition exchange_ok :: "outgoing \<Rightarrow> nat \<Rightarrow> exchange \<Rightarrow> bool" where
  "exchange_ok g L e \<longleftrightarrow> receives g L (ex_in e) \<and> list_all (asks_well g L (ex_in e)) (ex_requests e)
     \<and> list_all (\<lambda>part. \<exists>i < og_parts g. part = part_at g i) (ex_parts e) \<and> list_all (updates_well g L (ex_in e)) (ex_updates e)"

lemma wanted_until_exhausted: "snd (wanted_until known is) \<Longrightarrow> \<exists>i \<in> set is. known i = None"
  by (induction "is") (auto split: option.splits prod.splits)

lemma ask_well:
  assumes g: "sender_ok sha g" and r: "receives g L s"
  shows "asks_well g L s (case_prod (request_with s) (next_request s))"
proof -
  have I: "offered g s" "mapped g L s" using r by (simp_all add: receives_def)
  obtain ws x where n: "next_request s = (ws, x)" by fastforce
  have hash: "ic_hash s = og_hash g" using I(1) by (simp add: offered_def)
  show ?thesis
  proof (cases x)
    case True
    then obtain i where i: "i \<in> set (window_range s)" "ic_hashmap s ! i = None"
      using wanted_until_exhausted[of "\<lambda>i. ic_hashmap s ! i" "filter (\<lambda>i. \<not> ic_have s ! i) (window_range s)"] n
      by (auto simp: next_request_def)
    then have "i < og_parts g" using I(1) by (auto simp: window_range_def offered_def)
    with known_hash[OF I(2) this] i(2) have h: "ic_hashmap_height s < og_parts g" by (auto split: if_splits)
    then have m: "ic_segment_len s = L" "L dvd ic_hashmap_height s" "0 < ic_hashmap_height s" using I(2) by (auto simp: mapped_def)
    have "last_known_hash s = og_map_hashes g ! (ic_hashmap_height s - 1)"
      using known_hash[OF I(2), of "ic_hashmap_height s - 1"] m(3) h by (simp add: last_known_hash_def)
    then show ?thesis using m True
      by (auto simp: asks_well_def n request_with_def exhausted_request_written hash intro!: exI[of _ "ic_hashmap_height s"])
  qed (simp add: asks_well_def n request_with_def request_written hash)
qed

text \<open>Progress of the receiver, which keeps the promises in flight.\<close>

definition grown :: "incoming \<Rightarrow> incoming \<Rightarrow> bool" where
  "grown s s' \<longleftrightarrow> ic_hashmap_height s \<le> ic_hashmap_height s' \<and> ic_received s \<le> ic_received s'
     \<and> ic_segment_len s' = ic_segment_len s \<and> ic_compressed s' = ic_compressed s"

lemma grown_same [simp]: "grown s s"
  by (simp add: grown_def)

lemma grown_trans: "grown s s' \<Longrightarrow> grown s' s'' \<Longrightarrow> grown s s''"
  by (simp add: grown_def)

lemma promises_kept:
  assumes "grown s s'"
  shows "list_all (asks_well g L s) rs \<Longrightarrow> list_all (asks_well g L s') rs"
    and "list_all (updates_well g L s) us \<Longrightarrow> list_all (updates_well g L s') us"
proof -
  have h: "ic_hashmap_height s \<le> ic_hashmap_height s'" "ic_segment_len s' = ic_segment_len s" using assms by (simp_all add: grown_def)
  have a: "asks_well g L s' r" if "asks_well g L s r" for r
    using that order.trans[OF _ h(1)] unfolding asks_well_def h(2) by blast
  have u: "updates_well g L s' r" if "updates_well g L s r" for r
    using that order.trans[OF _ h(1)] unfolding updates_well_def update_ok_def h(2) by blast
  show "list_all (asks_well g L s) rs \<Longrightarrow> list_all (asks_well g L s') rs" by (rule list.pred_mono_strong) (use a in blast)+
  show "list_all (updates_well g L s) us \<Longrightarrow> list_all (updates_well g L s') us" by (rule list.pred_mono_strong) (use u in blast)+
qed

lemma in_map_filter: "y \<in> set (List.map_filter f xs) \<longleftrightarrow> (\<exists>x \<in> set xs. f x = Some y)"
  by (induction xs) (auto simp: map_filter_simps split: option.splits)

lemma served_parts:
  assumes g: "sender_ok sha g"
  shows "list_all (\<lambda>part. \<exists>i < og_parts g. part = part_at g i) (serve g q)"
proof -
  have "i < og_parts g" if "i \<in> set (requested_indices g q)" for i
  proof -
    obtain m where "first_of (indices_of g m) = Some i" using \<open>i \<in> set (requested_indices g q)\<close>
      by (auto simp: requested_indices_def in_map_filter)
    then have "i \<in> set (indices_of g m)" by (cases "indices_of g m") (auto simp: first_of_def)
    then show ?thesis using g by (simp add: sender_ok_def indices_of_spec)
  qed
  then show ?thesis using og_part_served[OF g] by (fastforce simp: serve_def list_all_iff in_map_filter)
qed

lemma taking_in:
  assumes "exchange_ok g L e" "grown (ex_in e) s" "receives g L s"
  shows "exchange_ok g L (e\<lparr>ex_in := s\<rparr>)"
  using assms promises_kept[OF assms(2)] by (simp add: exchange_ok_def)

lemma step_keeps:
  assumes g: "sender_ok sha g" and e: "exchange_ok g (clamp 1 HASHMAP_MAX_PARTS limit) e"
    and e': "e' = transfer_step sha g limit e ev"
  shows "exchange_ok g (clamp 1 HASHMAP_MAX_PARTS limit) e' \<and> grown (ex_in e) (ex_in e')"
proof -
  let ?L = "clamp 1 HASHMAP_MAX_PARTS limit"
  have L: "0 < ?L" by (simp add: clamp_def resource_consts)
  have r: "receives g ?L (ex_in e)" using e by (simp add: exchange_ok_def)
  show ?thesis
  proof (cases ev)
    case Ask
    then show ?thesis using e ask_well[OF g r] by (simp add: e' exchange_ok_def)
  next
    case (Answer k)
    show ?thesis
    proof (cases "k < length (ex_requests e)")
      case True
      then have "asks_well g ?L (ex_in e) (ex_requests e ! k)" using e by (simp add: exchange_ok_def list_all_length)
      then obtain q where q: "parse_request (ex_requests e ! k) = Inr q" "rq_resource_hash q = og_hash g"
        "rq_exhausted q \<longrightarrow> ic_segment_len (ex_in e) = ?L \<and> (\<exists>h. 0 < h \<and> h \<le> ic_hashmap_height (ex_in e) \<and> ?L dvd h
            \<and> rq_last_map_hash q = Some (og_map_hashes g ! (h - 1)))"
        "\<not> rq_exhausted q \<longrightarrow> rq_last_map_hash q = None" by (auto simp: asks_well_def)
      have e'': "e' = e\<lparr>ex_parts := ex_parts e @ serve g q, ex_updates := ex_updates e @
          (case rq_last_map_hash q of Some m \<Rightarrow> if rq_exhausted q then [hmu_after_with_hash_limit g m limit] else [] | None \<Rightarrow> [])\<rparr>"
        using Answer True q(1,2) by (simp add: e' get_at_def)
      have "list_all (updates_well g ?L (ex_in e))
          (case rq_last_map_hash q of Some m \<Rightarrow> if rq_exhausted q then [hmu_after_with_hash_limit g m limit] else [] | None \<Rightarrow> [])"
      proof (cases "rq_exhausted q")
        case True
        with q(3) obtain h where h: "0 < h" "h \<le> ic_hashmap_height (ex_in e)" "?L dvd h"
          "rq_last_map_hash q = Some (og_map_hashes g ! (h - 1))" "ic_segment_len (ex_in e) = ?L" by blast
        have "h \<le> og_parts g" using h(2) r by (simp add: receives_def mapped_def)
        from hmu_answer[OF g h(1) this h(3) HOL.refl] obtain u where u: "parse_hmu (hmu_after_with_hash_limit g (og_map_hashes g ! (h - 1)) limit) = Inr u"
          "hu_resource_hash u = og_hash g" "update_ok g ?L h u" by blast
        have "update_ok g ?L (ic_hashmap_height (ex_in e)) u" using u(3) order.trans[OF _ h(2)] unfolding update_ok_def by auto
        then show ?thesis using u h True by (simp add: updates_well_def)
      qed (use q(4) in simp)
      then show ?thesis using e served_parts[OF g, of q] by (simp add: e'' exchange_ok_def)
    qed (use Answer e in \<open>simp add: e' get_at_def\<close>)
  next
    case (TakePart k)
    show ?thesis
    proof (cases "k < length (ex_parts e)")
      case True
      then obtain i where i: "i < og_parts g" "ex_parts e ! k = part_at g i" using e by (auto simp: exchange_ok_def list_all_length)
      obtain s b where a: "accept_part sha (ex_in e) (part_at g i) = (s, b)" by fastforce
      note A = accept_part_honest[OF g r i(1) a]
      have "grown (ex_in e) s" using A by (simp add: grown_def)
      with taking_in[OF e this A(1)] show ?thesis using TakePart True i(2) a by (simp add: e' get_at_def)
    qed (use TakePart e in \<open>simp add: e' get_at_def\<close>)
  next
    case (TakeUpdate k)
    show ?thesis
    proof (cases "k < length (ex_updates e)")
      case True
      then have "updates_well g ?L (ex_in e) (ex_updates e ! k)" using e by (simp add: exchange_ok_def list_all_length)
      then obtain u where u: "parse_hmu (ex_updates e ! k) = Inr u" "hu_resource_hash u = og_hash g"
        "update_ok g ?L (ic_hashmap_height (ex_in e)) u" "ic_segment_len (ex_in e) = ?L" by (auto simp: updates_well_def)
      obtain s n where a: "ingest_hmu (ex_in e) u = (s, n)" by fastforce
      note A = ingest_hmu_honest[OF g r L u(3) a u(4)]
      have "grown (ex_in e) s" using A by (simp add: grown_def)
      with taking_in[OF e this A(1)] show ?thesis
        using TakeUpdate True u(1,2) a r by (simp add: e' get_at_def receives_def offered_def)
    qed (use TakeUpdate e in \<open>simp add: e' get_at_def\<close>)
  next
    case (Resize w)
    let ?s = "set_window (ex_in e) w"
    have "grown (ex_in e) ?s" by (simp add: grown_def set_window_def)
    moreover have "receives g ?L ?s" using r placed_cong[of "ex_in e" ?s]
      by (simp add: receives_def offered_def mapped_def counted_parts_def set_window_def clamp_def resource_consts)
    ultimately show ?thesis using taking_in[OF e] Resize by (simp add: e')
  qed
qed

interpretation transfers: guarded_ops "transfer_step sha g limit"
  "\<lambda>e. sender_ok sha g \<and> exchange_ok g (clamp 1 HASHMAP_MAX_PARTS limit) e \<and> grown start (ex_in e)" for sha g limit start
  by unfold_locales (use step_keeps[OF _ _ HOL.refl] grown_trans in blast)

lemma transfer_run_ok:
  assumes "sender_ok sha g" "exchange_ok g (clamp 1 HASHMAP_MAX_PARTS limit) e"
  shows "exchange_ok g (clamp 1 HASHMAP_MAX_PARTS limit) (transfer_run sha g limit e evs)"
    "grown (ex_in e) (ex_in (transfer_run sha g limit e evs))"
  using transfers.run_inv[where sha = sha and g = g and limit = limit and start = "ex_in e" and s = e and ops = evs] assms by (simp_all add: transfer_run_def)

end
