(* ===== verification/ResourceTheorems.thy ===== *)
theory ResourceTheorems
  imports ResourceSession
begin

text \<open>
  What a resource transfer achieves: the receiver's token, data and proof are the sender's, and a
  transfer finishes once the network delivers.
\<close>

section \<open>The offer\<close>

lemma adv_flags_compressed:
  "adv_flags (advertisement_with_hash_limit g limit) AND FLAG_COMPRESSED \<noteq> 0 \<longleftrightarrow> og_compressed g"
  by (simp add: advertisement_with_hash_limit_def Let_def resource_flags)

lemma incoming_fields:
  assumes "incoming_with_max_parts adv max_parts = Inr s"
  shows "ic_hash s = of_be (adv_resource_hash adv) \<and> ic_random_hash s = adv_random_hash adv
    \<and> ic_compressed s = (adv_flags adv AND FLAG_COMPRESSED \<noteq> 0) \<and> ic_total_parts s = unat (adv_parts adv)
    \<and> ic_hashmap s = fst (fill_slots (replicate (unat (adv_parts adv)) None) (quads (adv_hashmap adv)))
    \<and> ic_hashmap_height s = length (adv_hashmap adv) div MAPHASH_LEN
    \<and> ic_segment_len s = (if ic_hashmap_height s < ic_total_parts s then ic_hashmap_height s else HASHMAP_MAX_PARTS)
    \<and> ic_transfer_size s = unat (adv_transfer_size adv) \<and> ic_have s = replicate (unat (adv_parts adv)) False
    \<and> ic_received s = 0 \<and> ic_consecutive s = 0 \<and> ic_window s = HASHMAP_MAX_PARTS
    \<and> ic_part_size s = None \<and> ic_token s = [] \<and> ic_tail s = None"
proof -
  note d = assms[unfolded incoming_with_max_parts_def Let_def]
  show ?thesis
    using d by (simp only: split: if_split_asm) (simp_all only: sum.inject sum.distinct, auto)
qed

lemma start_ok:
  assumes g: "sender_ok sha g"
    and s: "incoming_with_max_parts (advertisement_with_hash_limit g limit) max_parts = Inr s"
  shows "receives g (clamp 1 HASHMAP_MAX_PARTS limit) s" "ic_compressed s = og_compressed g"
proof -
  let ?L = "clamp 1 HASHMAP_MAX_PARTS limit" and ?a = "advertisement_with_hash_limit g limit"
  let ?k = "min (og_parts g) ?L"
  have L: "0 < ?L" by (simp add: clamp_def resource_consts)
  have n: "0 < og_parts g" "og_parts g \<le> length (og_token g)" "length (og_token g) < 2 ^ 63"
    using parts_positive[OF g] parts_bounds[OF g] g unfolding sender_ok_def by blast+
  have a: "unat (adv_parts ?a) = og_parts g" "unat (adv_transfer_size ?a) = length (og_token g)"
    "adv_hashmap ?a = quad_bytes (take ?k (og_map_hashes g))" "adv_random_hash ?a = to_be 4 (og_random_hash g)"
    "adv_resource_hash ?a = to_be 32 (og_hash g)"
    using n by (simp_all add: advertisement_with_hash_limit_def Let_def unat_of_nat)
  have q: "quads (adv_hashmap ?a) = take ?k (og_map_hashes g)" "length (adv_hashmap ?a) div MAPHASH_LEN = ?k"
    by (simp_all add: a quads_written MAPHASH_LEN_def)
  have fs: "fst (fill_slots (replicate (og_parts g) None) (take ?k (og_map_hashes g)))
      = map Some (take ?k (og_map_hashes g)) @ replicate (og_parts g - ?k) None"
    by (simp add: fill_slots_empty)
  have s': "ic_hash s = og_hash g" "ic_random_hash s = to_be 4 (og_random_hash g)" "ic_total_parts s = og_parts g"
    "ic_transfer_size s = length (og_token g)" "ic_window s = HASHMAP_MAX_PARTS" "ic_hashmap_height s = ?k"
    "ic_hashmap s = map Some (take ?k (og_map_hashes g)) @ replicate (og_parts g - ?k) None"
    "ic_segment_len s = (if ?k < og_parts g then ?k else HASHMAP_MAX_PARTS)"
    "ic_have s = replicate (og_parts g) False" "ic_received s = 0" "ic_consecutive s = 0"
    "ic_part_size s = None" "ic_token s = []" "ic_tail s = None"
    "ic_compressed s = (adv_flags ?a AND FLAG_COMPRESSED \<noteq> 0)"
    using incoming_fields[OF s, unfolded a(1,2,4,5) q(2)] q(1) fs by (simp_all del: One_nat_def)
  show "ic_compressed s = og_compressed g" by (simp only: s' adv_flags_compressed)
  have "takeWhile (\<lambda>b. b) (replicate (og_parts g) False) = []" "filter (\<lambda>b. b) (replicate (og_parts g) False) = []"
    using n(1) by (cases "og_parts g") simp_all
  then have "counted_parts g s" by (simp add: counted_parts_def s')
  moreover have "offered g s" by (simp add: offered_def s' resource_consts)
  moreover have "mapped g ?L s" using n(1) L by (auto simp: mapped_def s' min_def)
  moreover have "placed g (ic_have s) s" using n(1) by (simp add: placed_def s')
  ultimately show "receives g ?L s" by (simp add: receives_def)
qed

section \<open>Completion\<close>

lemma all_bits: "length (filter (\<lambda>b. b) bs) = length bs \<Longrightarrow> i < length bs \<Longrightarrow> bs ! i"
  by (metis (full_types) filter_id_conv length_filter_less nat_neq_iff nth_mem)

lemma complete_iff:
  assumes g: "sender_ok sha g" and r: "receives g L s"
  shows "is_complete s \<longleftrightarrow> ic_received s = og_parts g" "ic_received s \<le> og_parts g"
    "is_complete s \<Longrightarrow> complete_token s = Inr (og_token g)"
proof -
  have I: "ic_total_parts s = og_parts g" "ic_transfer_size s = length (og_token g)" "length (ic_have s) = og_parts g"
    "ic_received s = length (filter (\<lambda>b. b) (ic_have s))" "placed g (ic_have s) s"
    using r by (simp_all add: receives_def offered_def counted_parts_def)
  have n: "0 < og_parts g" by (rule parts_positive[OF g])
  have all: "ic_tail s = None \<and> (\<exists>z. ic_part_size s = Some z) \<and> (\<forall>i < og_parts g. ic_have s ! i)" if "ic_received s = og_parts g"
  proof -
    have h: "\<forall>i < og_parts g. ic_have s ! i" using all_bits[of "ic_have s"] that I(3,4) by simp
    then show ?thesis using I(5) n by (cases "ic_part_size s") (auto simp: placed_def)
  qed
  show "is_complete s \<longleftrightarrow> ic_received s = og_parts g" using all by (auto simp: is_complete_def I(1))
  show "ic_received s \<le> og_parts g" using length_filter_le[of "\<lambda>b. b" "ic_have s"] I(3,4) by simp
  assume c: "is_complete s"
  then have "ic_received s = og_parts g" by (simp add: is_complete_def I(1))
  from all[OF this] obtain z where z: "ic_part_size s = Some z" "\<forall>i < og_parts g. ic_have s ! i" by blast
  then have p: "z = eff_size g" "length (ic_token s) = length (og_token g)"
    "\<forall>i < og_parts g. token_slice (ic_token s) z i = part_at g i" using I(5) unfolding placed_Some[OF z(1)] by blast+
  have "ic_token s = og_token g"
  proof (rule slices_eq)
    show "0 < z" using eff_size_facts(1)[OF g n] p(1) by simp
    fix i assume i: "i * z < length (ic_token s)"
    have "i < og_parts g"
    proof (cases "og_parts g = 1")
      case True
      with i p(1,2) show ?thesis by (cases i) (simp_all add: eff_size_def)
    next
      case False
      have "og_parts g = length (chunks (og_part_size g) (og_token g))" "0 < og_part_size g"
        using g by (simp_all add: sender_ok_def)
      with False i p(1,2) chunks_index[of "og_part_size g" i "og_token g"] show ?thesis by (simp add: eff_size_def)
    qed
    then show "token_slice (ic_token s) z i = token_slice (og_token g) z i"
      using p(1,3) eff_size_facts(2)[OF g] by simp
  qed (rule p(2))
  with c show "complete_token s = Inr (og_token g)" by (simp add: complete_token_def I(2))
qed

section \<open>Progress\<close>




lemma start_exchange:
  assumes "sender_ok sha g" "incoming_with_max_parts (advertisement_with_hash_limit g limit) max_parts = Inr s"
  shows "exchange_ok g (clamp 1 HASHMAP_MAX_PARTS limit) (transfer_start s)"
  using start_ok(1)[OF assms] by (simp add: exchange_ok_def transfer_start_def)



section \<open>Two segment ends alike\<close>






section \<open>The transfer\<close>

text \<open>
  C5: A transfer whose receiver completes, whatever was lost, repeated, reordered or asked again on the
  way, has rebuilt exactly the sender's token; what it recovers from it is the sender's data, and its proof is
  the one the sender waits for.
\<close>

theorem resource_transfer_exact:
  assumes "g = from_token sha data token random compressed part_size"
    and "token \<noteq> []" "length token < 2 ^ 63" "\<not> collides token (og_part_size g) (og_by_hash g)"
    and "incoming_with_max_parts (advertisement_with_hash_limit g limit) max_parts = Inr s0"
    and "s = ex_in (transfer_run sha g limit (transfer_start s0) evs)" "is_complete s"
    and "length prefix = RANDOM_HASH_LEN" "if compressed then inflate bz2 body cap = Inr data else body = data"
  shows "complete_token s = Inr token \<and> recover_owned sha bz2 s (prefix @ body) cap = Inr data
    \<and> ic_proof sha s data = og_expected_proof g"
proof -
  note F = from_token_fields[OF assms(1)]
  have g: "sender_ok sha g" by (rule from_token_ok[OF assms(1-4)])
  note R = transfer_run_ok[OF g start_exchange[OF g assms(5)], of evs, folded assms(6)]
  have r: "receives g (clamp 1 HASHMAP_MAX_PARTS limit) s" using R(1) assms(6) by (simp add: exchange_ok_def)
  have c: "ic_compressed s = compressed"
    using R(2) start_ok(2)[OF g assms(5)] F(7) by (simp add: grown_def transfer_start_def)
  have h: "ic_hash s = og_hash g" "ic_random_hash s = to_be 4 (og_random_hash g)" using r by (simp_all add: receives_def offered_def)
  have "verified_data sha s data = Inr data" by (simp add: verified_data_def verify_data_def h F(5))
  moreover have "data_from_content (prefix @ body) = Inr body" using assms(8) by (simp add: data_from_content_def slice_get_def)
  ultimately have "recover_owned sha bz2 s (prefix @ body) cap = Inr data"
    using assms(8,9) by (cases compressed) (simp_all add: recover_owned_def c)
  moreover have "ic_proof sha s data = og_expected_proof g" by (simp add: ic_proof_def h F(6))
  ultimately show ?thesis using complete_iff(3)[OF g r assms(7)] F(1) by simp
qed


section \<open>A transfer of two parts\<close>

text \<open>A checksum in place of SHA-256, and an offer whose second part arrives first and twice.\<close>

definition checksum :: sha256 where
  "checksum bs = of_be (take 32 (bs @ replicate 32 0))"

definition sample_offer :: outgoing where
  "sample_offer = from_token checksum [7, 8] [1, 2, 3] 9 False 2"

definition sample_incoming :: incoming where
  "sample_incoming = projr (incoming_with_max_parts (advertisement_with_hash_limit sample_offer 8) 8)"

lemma sample_hash: "full_hash checksum bs = take 32 (bs @ replicate 32 0)"
proof -
  have "length (take 32 (bs @ replicate 32 0)) = 32" by simp
  with to_be_of_be[where 'a = 256, of "take 32 (bs @ replicate 32 0)"] show ?thesis
    unfolding full_hash_def checksum_def by simp
qed

lemma sample_map_hashes:
  "map_hash checksum [1, 2] [0, 0, 0, 9] = 0x01020000" "map_hash checksum [3] [0, 0, 0, 9] = 0x03000000"
  by (simp_all add: map_hash_def sample_hash MAPHASH_LEN_def of_be_def)

lemma nine: "to_be 4 (9 :: u32) = [0, 0, 0, 9]"
proof -
  have l: "length [0, 0, 0, 9 :: u8] = 4" "of_be [0, 0, 0, 9] = (9 :: u32)" by (simp_all add: of_be_def)
  show ?thesis using to_be_of_be[where 'a = 32, of "[0, 0, 0, 9]", unfolded l] by simp
qed

lemma sample_draw: "draw_map checksum [1, 2, 3] 2 9 0 = (9, [0x01020000, 0x03000000], [(0x01020000, 0), (0x03000000, 1)])"
  by (simp add: draw_map.simps hash_parts_def chunks.simps nine sample_map_hashes sort_map_def collides_def less_eq_prod_def)

lemma sample_fields:
  "og_token sample_offer = [1, 2, 3]" "og_part_size sample_offer = 2" "og_random_hash sample_offer = 9"
  "og_map_hashes sample_offer = [0x01020000, 0x03000000]"
  "og_by_hash sample_offer = [(0x01020000, 0), (0x03000000, 1)]" "og_compressed sample_offer = False"
  "og_total_segments sample_offer = 1" "og_request_id sample_offer = None"
  by (simp_all add: sample_offer_def from_token_def sample_draw[unfolded numeral_2_eq_2] Let_def)

lemma sample_incoming_is: "incoming_with_max_parts (advertisement_with_hash_limit sample_offer 8) 8 = Inr sample_incoming"
  by (simp add: sample_incoming_def incoming_with_max_parts_def advertisement_with_hash_limit_def Let_def sample_fields
      clamp_def resource_consts nine)

lemma twice: "replicate 2 x = [x, x]"
  by (simp add: numeral_2_eq_2)

lemma sample_state:
  "ic_hash sample_incoming = og_hash sample_offer" "ic_random_hash sample_incoming = [0, 0, 0, 9]"
  "ic_total_parts sample_incoming = 2" "ic_transfer_size sample_incoming = 3" "ic_window sample_incoming = HASHMAP_MAX_PARTS"
  "ic_hashmap sample_incoming = [Some 0x01020000, Some 0x03000000]" "ic_have sample_incoming = [False, False]"
  "ic_received sample_incoming = 0" "ic_consecutive sample_incoming = 0" "ic_part_size sample_incoming = None"
  "ic_tail sample_incoming = None" "ic_token sample_incoming = []"
  using incoming_fields[OF sample_incoming_is]
  by (simp_all add: advertisement_with_hash_limit_def Let_def sample_fields clamp_def resource_consts nine quads_written
      twice)

lemma sample_window: "window_range sample_incoming = [0, 1]"
  by (simp add: window_range_def sample_state resource_consts upt_rec)

lemma sample_request: "next_request sample_incoming = ([0x01020000, 0x03000000], False)"
  by (simp add: next_request_def sample_window sample_state)

lemma sample_serve:
  "serve sample_offer \<lparr>rq_exhausted = False, rq_last_map_hash = None, rq_resource_hash = h, rq_wanted = [0x01020000, 0x03000000]\<rparr>
    = [[1, 2], [3]]"
  by (simp add: serve_def requested_indices_def indices_of_def sample_fields first_of_def og_part_def checked_mul_def slice_get_def
      map_filter_simps u64_max_def)

lemma sample_parts:
  "fst (accept_part checksum sample_incoming [3]) = sample_incoming\<lparr>ic_have := [False, True], ic_received := 1, ic_tail := Some [3]\<rparr>"
  "fst (accept_part checksum (sample_incoming\<lparr>ic_have := [False, True], ic_received := 1, ic_tail := Some [3]\<rparr>) [3])
    = sample_incoming\<lparr>ic_have := [False, True], ic_received := 1, ic_tail := Some [3]\<rparr>"
  "fst (accept_part checksum (sample_incoming\<lparr>ic_have := [False, True], ic_received := 1, ic_tail := Some [3]\<rparr>) [1, 2])
    = sample_incoming\<lparr>ic_have := [True, True], ic_received := 2, ic_tail := None, ic_part_size := Some 2, ic_token := [1, 2, 3],
        ic_consecutive := 2\<rparr>"
proof -
  have w: "window_range (sample_incoming\<lparr>ic_have := hv, ic_received := n, ic_tail := t\<rparr>) = [0, 1]" for hv n t
    using sample_window by (simp add: window_range_def)
  note d = accept_part_def Let_def w sample_window sample_state sample_map_hashes place_def place_tail_def write_part_def size_fits_def
  show "fst (accept_part checksum sample_incoming [3]) = sample_incoming\<lparr>ic_have := [False, True], ic_received := 1, ic_tail := Some [3]\<rparr>"
    by (simp add: d)
  show "fst (accept_part checksum (sample_incoming\<lparr>ic_have := [False, True], ic_received := 1, ic_tail := Some [3]\<rparr>) [3])
    = sample_incoming\<lparr>ic_have := [False, True], ic_received := 1, ic_tail := Some [3]\<rparr>"
    by (simp add: d)
  show "fst (accept_part checksum (sample_incoming\<lparr>ic_have := [False, True], ic_received := 1, ic_tail := Some [3]\<rparr>) [1, 2])
    = sample_incoming\<lparr>ic_have := [True, True], ic_received := 2, ic_tail := None, ic_part_size := Some 2, ic_token := [1, 2, 3],
        ic_consecutive := 2\<rparr>"
    by (simp add: d)
qed

lemma sample_complete:
  "is_complete (ex_in (transfer_run checksum sample_offer 8 (transfer_start sample_incoming)
     [Ask, Answer 0, TakePart 1, TakePart 1, TakePart 0]))"
  by (simp add: transfer_run_def transfer_start_def sample_request request_with_def request_written get_at_def sample_state
      sample_serve sample_parts sample_parts[unfolded One_nat_def] is_complete_def)

theorem resource_transfer_exact_witness:
  "recover_owned checksum None (ex_in (transfer_run checksum sample_offer 8 (transfer_start sample_incoming)
     [Ask, Answer 0, TakePart 1, TakePart 1, TakePart 0])) [0, 0, 0, 0, 7, 8] 100 = Inr [7, 8]"
  using resource_transfer_exact[where prefix = "[0, 0, 0, 0]" and body = "[7, 8]" and ?bz2.0 = None and cap = 100,
      OF sample_offer_def _ _ _ sample_incoming_is HOL.refl sample_complete]
  by (simp add: sample_fields collides_def resource_consts)









end
