(* ===== verification/ResourceDelivery.thy ===== *)
theory ResourceDelivery
  imports ResourceTransfer ResourceTheorems
begin

text \<open>
  Sender and receiver of a resource at the two ends of a link, over a network that loses, repeats, reorders
  and delays their packets: what the receiver hands over is what the sender was given, and the sender ends
  only when the receiver has it. The invariant extends \<open>receives\<close> of \<open>ResourceSession\<close> to the two state machines.
\<close>

section \<open>Metadata\<close>

lemma push_or: "push_bit 8 n OR unat b = n * 256 + unat (b :: u8)"
proof -
  have "push_bit 8 n + unat b = push_bit 8 n OR unat b"
  proof (rule disjunctive_add)
    fix i show "\<not> bit (push_bit 8 n) i \<or> \<not> bit (unat b) i"
      by (cases "i < 8") (auto simp: bit_simps dest: bit_imp_le_length)
  qed
  then show ?thesis by (simp add: push_bit_eq_mult)
qed

lemma fold_be_nat: "foldl (\<lambda>len b. push_bit 8 len OR unat b) n bs = n * 256 ^ length bs + be_nat (bs :: bytes)"
  by (induction bs arbitrary: n) (simp_all add: push_or algebra_simps)

lemma metadata_roundtrip:
  assumes "pack_metadata m = Inr framed"
  shows "split_metadata (framed @ data) = Inr (m, data)"
proof -
  let ?w = "of_nat (length m) :: u32"
  have len: "length m < 2 ^ 24" and framed: "framed = drop 1 (to_be 4 ?w) @ m"
    using assms by (auto simp: pack_metadata_def METADATA_MAX_SIZE_def split: if_splits)
  obtain b bs where w: "to_be 4 ?w = b # bs" "length bs = 3"
    using length_to_be[of 4 ?w] by (cases "to_be 4 ?w") auto
  have u: "unat ?w = length m" using len by (simp add: unat_of_nat)
  have "be_nat (to_be 4 ?w) = length m" using u len by (simp add: to_be_def be_nat_nat_be)
  then have "unat b * 256 ^ 3 + be_nat bs = length m" by (simp add: w)
  moreover have "be_nat bs < 256 ^ 3" using be_nat_less[of bs] w(2) by simp
  ultimately have "be_nat bs = length m" using len by (cases "unat b") auto
  then show ?thesis
    by (simp add: split_metadata_def slice_get_def METADATA_LEN_BYTES_def framed w fold_be_nat Let_def)
qed

section \<open>The offer\<close>

lemma prepared:
  assumes k: "cipher_laws k" "length iv = IV_LEN" and len: "length body < 2 ^ 62"
    and s: "s = prepare k sha enc a body random iv request_id hm"
    and c: "\<not> collides (og_token (sn_out s)) (og_part_size (sn_out s)) (og_by_hash (sn_out s))"
  obtains transfer where "sender_ok sha (sn_out s)" "sn_link s = a" "\<not> sn_done s"
    "og_hash (sn_out s) = resource_hash sha body (to_be 4 (og_random_hash (sn_out s)))"
    "og_expected_proof (sn_out s) = resource_proof sha body (og_hash (sn_out s))"
    "og_has_metadata (sn_out s) = hm" "sint (og_total_segments (sn_out s)) = 1" "sint (og_segment_index (sn_out s)) = 1"
    "og_token (sn_out s) = link_seal_owned k a transfer iv" "4 \<le> length transfer"
    "if og_compressed (sn_out s) then \<exists>compress. enc = Some compress \<and> drop 4 transfer = compress body else drop 4 transfer = body"
proof -
  let ?plain = "(to_be 4 random @ body, False)"
  define tc where "tc = (case enc of None \<Rightarrow> ?plain | Some compress \<Rightarrow>
      let encoded = to_be 4 random @ compress body in if length encoded - RANDOM_HASH_LEN < length body then (encoded, True) else ?plain)"
  obtain transfer compressed where tc': "tc = (transfer, compressed)" by fastforce
  let ?token = "link_seal_owned k a transfer iv" and ?ps = "max (unat (ln_mtu a) - (HEADER_MAX_LEN + 1)) 1"
  let ?o = "from_token sha body ?token random compressed ?ps"
  have o: "sealed_outgoing k sha enc a body random iv True = ?o"
  proof -
    have "sealed_outgoing k sha enc a body random iv True
        = (case tc of (transfer, compressed) \<Rightarrow> from_token sha body (link_seal_owned k a transfer iv) random compressed ?ps)"
      by (simp only: sealed_outgoing_def tc_def Let_def if_True)
    then show ?thesis by (simp only: tc' prod.case)
  qed
  note F = from_token_fields[OF HOL.refl, of sha body ?token random compressed ?ps]
  have t: "4 \<le> length transfer" "length transfer \<le> length body + 4"
    "if compressed then \<exists>compress. enc = Some compress \<and> drop 4 transfer = compress body else drop 4 transfer = body"
    using tc' by (auto simp: tc_def Let_def RANDOM_HASH_LEN_def split: option.splits if_splits)
  have out: "sn_out s = (let out = ?o; out = (case request_id of Some i \<Rightarrow> with_request_id out i | None \<Rightarrow> out)
      in if hm then with_metadata out else out)"
    by (simp add: s prepare_def o from_outgoing_def Let_def)
  then have same: "og_token (sn_out s) = og_token ?o" "og_part_size (sn_out s) = og_part_size ?o"
    "og_map_hashes (sn_out s) = og_map_hashes ?o" "og_by_hash (sn_out s) = og_by_hash ?o"
    "og_random_hash (sn_out s) = og_random_hash ?o" "og_hash (sn_out s) = og_hash ?o"
    "og_expected_proof (sn_out s) = og_expected_proof ?o" "og_compressed (sn_out s) = og_compressed ?o"
    "og_total_segments (sn_out s) = og_total_segments ?o" "og_segment_index (sn_out s) = og_segment_index ?o"
    "og_has_metadata (sn_out s) = (hm \<or> og_has_metadata ?o)"
    by (auto simp: with_request_id_def with_metadata_def Let_def split: option.splits)
  have seg: "og_segment_index ?o = 1" by (simp add: from_token_def Let_def split: prod.splits)
  have "?token = token_encrypt k (ln_keys a) transfer iv"
    by (simp add: link_seal_owned_def encrypt_owned_def token_encrypt_def)
  then have tl: "length ?token = TOKEN_OVERHEAD + (length transfer div 16 + 1) * 16" using token_shape(2)[OF k] by simp
  have "(length transfer div 16) * 16 \<le> length transfer" by simp
  then have bound: "length ?token < 2 ^ 63" using t(2) len by (simp add: tl token_lens)
  have ne: "?token \<noteq> []" using tl by (auto simp: token_lens)
  have "sender_ok sha ?o"
    using c unfolding same F(1) by (rule from_token_ok[OF HOL.refl ne bound])
  then have "sender_ok sha (sn_out s)" unfolding sender_ok_def part_at_def same .
  moreover have "sn_link s = a" "\<not> sn_done s" by (simp_all add: s prepare_def from_outgoing_def Let_def)
  ultimately show thesis
    using that[of transfer] t F seg by (simp add: same)
qed

section \<open>Recovery\<close>

text \<open>What a bz2 decoder returns of an encoder's output, if anything, is the input.\<close>

definition bz2_laws :: "encoder \<Rightarrow> bz2 \<Rightarrow> bool" where
  "bz2_laws enc bz2 \<longleftrightarrow> (\<forall>compress bunzip x cap d. enc = Some compress \<longrightarrow> bz2 = Some bunzip \<longrightarrow>
     bunzip (compress x) cap = Inr d \<longrightarrow> d = x)"

lemma inflate_law:
  assumes "bz2_laws enc bz2" "enc = Some compress" "inflate bz2 (compress x) cap = Inr d"
  shows "d = x"
  using assms unfolding bz2_laws_def inflate_def
  by (auto split: option.splits sum.splits bounded_decompress_error.splits)

text \<open>The data and metadata a sender was given, as the body of its resource.\<close>

definition resource_body :: "bytes \<Rightarrow> bytes option \<Rightarrow> error + bytes" where
  "resource_body data metadata =
    (case metadata of None \<Rightarrow> Inr data | Some m \<Rightarrow> and_then (pack_metadata m) (\<lambda>framed. Inr (framed @ data)))"

definition offers :: "ciphers \<Rightarrow> sha256 \<Rightarrow> bz2 \<Rightarrow> link \<Rightarrow> bytes \<Rightarrow> bytes option \<Rightarrow> outgoing \<Rightarrow> bool" where
  "offers k sha bz2 a data metadata g \<longleftrightarrow> sender_ok sha g \<and> sint (og_total_segments g) = 1 \<and> sint (og_segment_index g) = 1
     \<and> og_has_metadata g = (metadata \<noteq> None)
     \<and> (\<exists>body transfer iv. resource_body data metadata = Inr body \<and> length iv = IV_LEN
          \<and> og_hash g = resource_hash sha body (to_be 4 (og_random_hash g)) \<and> og_expected_proof g = resource_proof sha body (og_hash g)
          \<and> og_token g = link_seal_owned k a transfer iv \<and> 4 \<le> length transfer
          \<and> (if og_compressed g then (\<forall>cap d. inflate bz2 (drop 4 transfer) cap = Inr d \<longrightarrow> d = body) else drop 4 transfer = body))"

lemma recover_offered:
  assumes k: "cipher_laws k" and g: "offers k sha bz2 a data metadata g" and p: "ln_keys (rv_link r) = ln_keys a"
    and s: "ic_hash s = og_hash g" "ic_random_hash s = to_be 4 (og_random_hash g)" "ic_compressed s = og_compressed g"
      "ic_has_metadata s = og_has_metadata g"
    and ok: "recover_all k sha bz2 r s (og_token g) = Inr (d, m, prf)"
  shows "d = data" "m = metadata" "prf = og_expected_proof g"
proof -
  obtain body transfer iv where b: "resource_body data metadata = Inr body" "length iv = IV_LEN"
    "og_hash g = resource_hash sha body (to_be 4 (og_random_hash g))" "og_expected_proof g = resource_proof sha body (og_hash g)"
    "og_token g = link_seal_owned k a transfer iv" "4 \<le> length transfer"
    "if og_compressed g then (\<forall>cap d. inflate bz2 (drop 4 transfer) cap = Inr d \<longrightarrow> d = body) else drop 4 transfer = body"
    using g unfolding offers_def by blast
  have opened: "link_open_owned k (rv_link r) (og_token g) = Inr transfer"
    using token_opens(2)[OF k b(2)] by (simp add: link_open_owned_def link_seal_owned_def b(5) p)
  obtain d' where d': "recover_owned sha bz2 s transfer (rv_max_decompressed r) = Inr d'"
    using ok opened by (cases "recover_owned sha bz2 s transfer (rv_max_decompressed r)") (simp_all add: recover_all_def)
  have c: "data_from_content transfer = Inr (drop 4 transfer)"
    using b(6) by (simp add: data_from_content_def slice_get_def RANDOM_HASH_LEN_def)
  have "d' = body"
    using d' b(7) by (auto simp: recover_owned_def c s(3) verified_data_def RANDOM_HASH_LEN_def split: if_splits sum.splits
        elim: and_then.elims)
  then have all: "recover_all k sha bz2 r s (og_token g) = (if og_has_metadata g
      then and_then (split_metadata body) (\<lambda>(m, rest). Inr (rest, Some m, resource_proof sha body (og_hash g)))
      else Inr (body, None, resource_proof sha body (og_hash g)))"
    by (simp add: recover_all_def opened d' s ic_proof_def Let_def)
  have "og_has_metadata g = (metadata \<noteq> None)" using g by (simp add: offers_def)
  then have "(d, m, prf) = (data, metadata, og_expected_proof g)"
  proof (cases metadata)
    case None
    with all ok b(1,4) \<open>og_has_metadata g = (metadata \<noteq> None)\<close> show ?thesis by (simp add: resource_body_def)
  next
    case (Some x)
    then obtain framed where f: "pack_metadata x = Inr framed" "body = framed @ data"
      using b(1) by (cases "pack_metadata x") (auto simp: resource_body_def)
    from all ok b(4) Some metadata_roundtrip[OF f(1)] \<open>og_has_metadata g = (metadata \<noteq> None)\<close> show ?thesis by (simp add: f(2))
  qed
  then show "d = data" "m = metadata" "prf = og_expected_proof g" by simp_all
qed

lemma prepared_offers:
  assumes "cipher_laws k" "length iv = IV_LEN" "length body < 2 ^ 62" "resource_body data metadata = Inr body" "bz2_laws enc bz2"
    and s: "s = prepare k sha enc a body random iv request_id (metadata \<noteq> None)"
    and c: "\<not> collides (og_token (sn_out s)) (og_part_size (sn_out s)) (og_by_hash (sn_out s))"
  shows "offers k sha bz2 a data metadata (sn_out s)" "sn_link s = a" "\<not> sn_done s"
proof -
  obtain transfer where P: "sender_ok sha (sn_out s)" "sn_link s = a" "\<not> sn_done s"
    "og_hash (sn_out s) = resource_hash sha body (to_be 4 (og_random_hash (sn_out s)))"
    "og_expected_proof (sn_out s) = resource_proof sha body (og_hash (sn_out s))"
    "og_has_metadata (sn_out s) = (metadata \<noteq> None)" "sint (og_total_segments (sn_out s)) = 1" "sint (og_segment_index (sn_out s)) = 1"
    "og_token (sn_out s) = link_seal_owned k a transfer iv" "4 \<le> length transfer"
    "if og_compressed (sn_out s) then \<exists>compress. enc = Some compress \<and> drop 4 transfer = compress body else drop 4 transfer = body"
    by (rule prepared[OF assms(1-3) s c]) blast
  have "if og_compressed (sn_out s) then \<forall>cap d. inflate bz2 (drop 4 transfer) cap = Inr d \<longrightarrow> d = body else drop 4 transfer = body"
    using P(11) inflate_law[OF assms(5)] by (cases "og_compressed (sn_out s)") auto
  then show "offers k sha bz2 a data metadata (sn_out s)" using P assms(2,4) unfolding offers_def by blast
  show "sn_link s = a" "\<not> sn_done s" by (fact P)+
qed

section \<open>The receiver's invariant\<close>

definition dead :: "receiver \<Rightarrow> bool" where
  "dead r \<longleftrightarrow> rv_failure r \<noteq> None \<or> rv_canceled r"

definition fetching :: "outgoing \<Rightarrow> nat \<Rightarrow> receiver \<Rightarrow> incoming \<Rightarrow> bool" where
  "fetching g L r s \<longleftrightarrow> rv_proved r = None \<and> rv_data r = None \<and> receives g L s \<and> ic_compressed s = og_compressed g
     \<and> ic_has_metadata s = og_has_metadata g"

definition fetched :: "outgoing \<Rightarrow> bytes \<Rightarrow> bytes option \<Rightarrow> receiver \<Rightarrow> incoming \<Rightarrow> bool" where
  "fetched g data metadata r s \<longleftrightarrow> ic_hash s = og_hash g \<and> rv_proved r = Some (og_hash g, og_expected_proof g)
     \<and> rv_data r = Some data \<and> rv_metadata r = metadata"

definition receiver_ok :: "outgoing \<Rightarrow> nat \<Rightarrow> link \<Rightarrow> bytes \<Rightarrow> bytes option \<Rightarrow> receiver \<Rightarrow> bool" where
  "receiver_ok g L b data metadata r \<longleftrightarrow> rv_link r = b
     \<and> (case rv_inc r of
          None \<Rightarrow> rv_data r = None \<and> rv_proved r = None
        | Some s \<Rightarrow> \<not> dead r \<and> (fetching g L r s \<or> fetched g data metadata r s))"

text \<open>What packets on the way rest on.\<close>

definition promise :: "receiver \<Rightarrow> (incoming \<Rightarrow> bool) \<Rightarrow> bool" where
  "promise r P \<longleftrightarrow> dead r \<or> rv_proved r \<noteq> None \<or> (\<exists>s. rv_inc r = Some s \<and> P s)"

definition down_ok :: "ciphers \<Rightarrow> outgoing \<Rightarrow> nat \<Rightarrow> link \<Rightarrow> receiver \<Rightarrow> packet \<Rightarrow> bool" where
  "down_ok k g limit a r p \<longleftrightarrow>
     (\<exists>iv. length iv = IV_LEN \<and> p = sealed_packet k a CTX_RESOURCE_ADV (pack_advertisement (advertisement_with_hash_limit g limit)) iv)
     \<or> (\<exists>i < og_parts g. p = framed_packet a CTX_RESOURCE (part_at g i))
     \<or> (\<exists>plain iv. length iv = IV_LEN \<and> p = sealed_packet k a CTX_RESOURCE_HMU plain iv
          \<and> promise r (\<lambda>s. updates_well g (clamp 1 HASHMAP_MAX_PARTS limit) s plain))
     \<or> pk_context p \<in> {CTX_RESOURCE_ICL, CTX_CACHE_REQUEST}"

definition up_ok :: "ciphers \<Rightarrow> outgoing \<Rightarrow> nat \<Rightarrow> link \<Rightarrow> receiver \<Rightarrow> packet \<Rightarrow> bool" where
  "up_ok k g L b r p \<longleftrightarrow>
     (\<exists>plain iv. length iv = IV_LEN \<and> p = sealed_packet k b CTX_RESOURCE_REQ plain iv \<and> promise r (\<lambda>s. asks_well g L s plain))
     \<or> pk_context p = CTX_RESOURCE_PRF \<and> rv_proved r \<noteq> None
     \<or> pk_context p = CTX_RESOURCE_RCL"

definition carries_on :: "receiver \<Rightarrow> receiver \<Rightarrow> bool" where
  "carries_on r r' \<longleftrightarrow> (dead r \<longrightarrow> dead r') \<and> (rv_proved r \<noteq> None \<longrightarrow> rv_proved r' \<noteq> None)
     \<and> (\<forall>s. rv_inc r = Some s \<longrightarrow> dead r' \<or> (\<exists>s'. rv_inc r' = Some s' \<and> grown s s'))"

lemma carries_on_refl [simp]: "carries_on r r"
  by (simp add: carries_on_def)

lemma carries_on_trans: "carries_on r r' \<Longrightarrow> carries_on r' r'' \<Longrightarrow> carries_on r r''"
  unfolding carries_on_def by (meson grown_trans)

lemma promise_kept:
  assumes "carries_on r r'" "promise r P" "\<And>s s'. grown s s' \<Longrightarrow> P s \<Longrightarrow> P s'"
  shows "promise r' P"
  using assms unfolding promise_def carries_on_def by blast

lemma packets_kept:
  assumes "carries_on r r'"
  shows "down_ok k g limit a r p \<Longrightarrow> down_ok k g limit a r' p" "up_ok k g L b r q \<Longrightarrow> up_ok k g L b r' q"
proof -
  have u: "promise r' (\<lambda>s. updates_well g L s plain)" if "promise r (\<lambda>s. updates_well g L s plain)" for L plain
    using promise_kept[OF assms that] promises_kept(2)[where us = "[plain]"] by simp
  have q: "promise r' (\<lambda>s. asks_well g L s plain)" if "promise r (\<lambda>s. asks_well g L s plain)" for L plain
    using promise_kept[OF assms that] promises_kept(1)[where rs = "[plain]"] by simp
  have pv: "rv_proved r \<noteq> None \<Longrightarrow> rv_proved r' \<noteq> None" using assms unfolding carries_on_def by blast
  show "down_ok k g limit a r p \<Longrightarrow> down_ok k g limit a r' p" unfolding down_ok_def using u by blast
  show "up_ok k g L b r q \<Longrightarrow> up_ok k g L b r' q" unfolding up_ok_def using q pv by blast
qed

section \<open>The receiver's steps\<close>

definition receiver_step_ok :: "ciphers \<Rightarrow> outgoing \<Rightarrow> nat \<Rightarrow> link \<Rightarrow> bytes \<Rightarrow> bytes option \<Rightarrow> receiver \<Rightarrow> receiver \<times> packet list \<Rightarrow> bool" where
  "receiver_step_ok k g L b data metadata r out \<longleftrightarrow> receiver_ok g L b data metadata (fst out) \<and> carries_on r (fst out)
     \<and> list_all (up_ok k g L b (fst out)) (snd out)"

lemma step_okI:
  assumes "receiver_ok g L b data metadata r'" "carries_on r r'" "list_all (up_ok k g L b r') ps"
  shows "receiver_step_ok k g L b data metadata r (r', ps)"
  using assms by (simp add: receiver_step_ok_def)

lemma step_ok_from:
  "receiver_step_ok k g L b data metadata r' out \<Longrightarrow> carries_on r r' \<Longrightarrow> receiver_step_ok k g L b data metadata r out"
  unfolding receiver_step_ok_def using carries_on_trans by blast

text \<open>Fields the invariant does not look at.\<close>

lemma receiver_ok_cong:
  assumes "receiver_ok g L b data metadata r" "rv_link r' = rv_link r" "rv_inc r' = rv_inc r" "rv_data r' = rv_data r"
    "rv_metadata r' = rv_metadata r" "rv_proved r' = rv_proved r" "rv_failure r' = rv_failure r" "rv_canceled r' = rv_canceled r"
  shows "receiver_ok g L b data metadata r'" "carries_on r r'"
  using assms by (auto simp: receiver_ok_def dead_def fetching_def fetched_def carries_on_def split: option.splits)

lemma window_receives:
  assumes "receives g L s"
  shows "receives g L (set_window s w)" "grown s (set_window s w)" "ic_compressed (set_window s w) = ic_compressed s"
    "ic_has_metadata (set_window s w) = ic_has_metadata s"
  using assms placed_cong[of s "set_window s w"]
  by (simp_all add: receives_def offered_def mapped_def counted_parts_def set_window_def clamp_def resource_consts grown_def)

lemma request_more_ok:
  assumes g: "sender_ok sha g" and r: "receiver_ok g L b data metadata r" and iv: "length iv = IV_LEN"
  shows "receiver_step_ok k g L b data metadata r (request_more k r now iv)"
proof (cases "rv_waiting_for_hmu r \<or> rv_proved r \<noteq> None \<or> rv_inc r = None")
  case True
  then show ?thesis using r by (auto simp: request_more_def receiver_step_ok_def)
next
  case False
  then obtain s where s: "rv_inc r = Some s" "rv_proved r = None" "\<not> rv_waiting_for_hmu r" by blast
  then have f: "fetching g L r s" "rv_link r = b" "\<not> dead r" using r by (auto simp: receiver_ok_def fetched_def)
  let ?s = "set_window s (window_size (rv_window r))"
  note W = window_receives[of g L s "window_size (rv_window r)"]
  have rc: "receives g L s" using f(1) by (simp add: fetching_def)
  obtain ws x where n: "next_request ?s = (ws, x)" by fastforce
  let ?r = "r\<lparr>rv_inc := Some ?s\<rparr>"
  have r1: "receiver_ok g L b data metadata ?r" "carries_on r ?r"
    using f s W[OF rc] by (auto simp: receiver_ok_def fetching_def carries_on_def dead_def)
  show ?thesis
  proof (cases "ws = [] \<and> \<not> x")
    case True
    then have "request_more k r now iv = (?r, [])" using s by (simp add: request_more_def n Let_def)
    then show ?thesis using r1 by (simp add: receiver_step_ok_def)
  next
    case False
    let ?p = "sealed_packet k b CTX_RESOURCE_REQ (request_with ?s ws x) iv"
    let ?r' = "?r\<lparr>rv_outstanding := length ws, rv_waiting_for_hmu := x, rv_last_activity := now,
        rv_window := window_on_request (rv_window r) now (encoded_len ?p)\<rparr>"
    have eq: "request_more k r now iv = (?r', [?p])" using s False f(2) by (auto simp: request_more_def n Let_def)
    have "receiver_ok g L b data metadata ?r'" "carries_on ?r ?r'" by (rule receiver_ok_cong[OF r1(1)]; simp)+
    moreover have "asks_well g L ?s (request_with ?s ws x)" using ask_well[OF g W(1)[OF rc]] by (simp add: n)
    then have "up_ok k g L b ?r' ?p" using iv by (auto simp: up_ok_def promise_def)
    ultimately show ?thesis unfolding eq using r1(2) carries_on_trans by (intro step_okI) auto
  qed
qed

text \<open>The two ends, and what the sender offers.\<close>

definition setting :: "ciphers \<Rightarrow> sha256 \<Rightarrow> bz2 \<Rightarrow> link \<Rightarrow> link \<Rightarrow> bytes \<Rightarrow> bytes option \<Rightarrow> outgoing \<Rightarrow> bool" where
  "setting k sha bz2 a b data metadata g \<longleftrightarrow> cipher_laws k \<and> offers k sha bz2 a data metadata g
     \<and> ln_id b = ln_id a \<and> ln_keys b = ln_keys a"

lemma settingD:
  assumes "setting k sha bz2 a b data metadata g"
  shows "cipher_laws k" "offers k sha bz2 a data metadata g" "sender_ok sha g" "ln_id b = ln_id a" "ln_keys b = ln_keys a"
  using assms by (simp_all add: setting_def offers_def)

lemma opens_at_receiver:
  "setting k sha bz2 a b data metadata g \<Longrightarrow> length iv = IV_LEN \<Longrightarrow> link_decrypt k b (sealed_packet k a ctxt plain iv) = Inr plain"
  using token_opens(1) by (simp add: setting_def link_decrypt_def sealed_packet_def link_packet_def)

lemma opens_at_sender:
  "setting k sha bz2 a b data metadata g \<Longrightarrow> length iv = IV_LEN \<Longrightarrow> link_decrypt k a (sealed_packet k b ctxt plain iv) = Inr plain"
  using token_opens(1) by (simp add: setting_def link_decrypt_def sealed_packet_def link_packet_def)

lemma packet_contexts [simp]:
  "pk_context (sealed_packet k l ctxt plain iv) = ctxt" "pk_context (framed_packet l ctxt payload) = ctxt"
  "pk_payload (framed_packet l ctxt payload) = payload" "pk_context (resource_proof_packet l h pf) = CTX_RESOURCE_PRF"
  "pk_context (cancel_packet k l ctxt plain iv) = ctxt"
  by (simp_all add: sealed_packet_def framed_packet_def link_packet_def resource_proof_packet_def cancel_packet_def)

lemma refusal_ok [simp]: "up_ok k g L b r (refuse_resource k r' h iv)"
  by (simp add: up_ok_def refuse_resource_def)

lemma proof_ok [simp]: "rv_proved r \<noteq> None \<Longrightarrow> up_ok k g L b r (resource_proof_packet b' h pf)"
  by (simp add: up_ok_def)

lemma recover_all_cong:
  assumes "rv_link r' = rv_link r" "rv_max_decompressed r' = rv_max_decompressed r" "ic_hash s' = ic_hash s"
    "ic_random_hash s' = ic_random_hash s" "ic_compressed s' = ic_compressed s" "ic_has_metadata s' = ic_has_metadata s"
  shows "recover_all k sha bz2 r' s' token = recover_all k sha bz2 r s token"
  unfolding recover_all_def recover_owned_def verified_data_def verify_data_def ic_proof_def assms ..

lemma finish_result:
  assumes S: "setting k sha bz2 a b data metadata g" and r: "rv_inc r = Some s" "fetching g L r s" "rv_link r = b" "\<not> dead r"
    and c: "is_complete s"
  shows "receiver_finish k sha bz2 r iv = (case recover_all k sha bz2 r s (og_token g) of
      Inl e \<Rightarrow> (r\<lparr>rv_failure := Some (if e = DecompressionLimit \<or> e = Unsupported then e else ResourceCorrupt), rv_inc := None\<rparr>,
        [refuse_resource k r (to_be 32 (og_hash g)) iv])
    | Inr _ \<Rightarrow> (r\<lparr>rv_inc := Some (s\<lparr>ic_token := []\<rparr>), rv_data := Some data, rv_metadata := metadata,
          rv_proved := Some (og_hash g, og_expected_proof g)\<rparr>,
        [resource_proof_packet b (to_be 32 (og_hash g)) (to_be 32 (og_expected_proof g))]))"
proof -
  have rc: "receives g L s" using r(2) by (simp add: fetching_def)
  let ?s = "s\<lparr>ic_token := []\<rparr>" and ?r = "r\<lparr>rv_inc := Some (s\<lparr>ic_token := []\<rparr>)\<rparr>"
  have tk: "take_token s = (?s, Inr (og_token g))"
    using complete_iff(3)[OF settingD(3)[OF S] rc c] by (simp add: take_token_def)
  have h: "ic_hash s = og_hash g" "ic_random_hash s = to_be 4 (og_random_hash g)" using rc by (simp_all add: receives_def offered_def)
  have fs: "ic_compressed s = og_compressed g" "ic_has_metadata s = og_has_metadata g" using r(2) by (simp_all add: fetching_def)
  have same: "recover_all k sha bz2 ?r ?s (og_token g) = recover_all k sha bz2 r s (og_token g)" by (rule recover_all_cong) simp_all
  show ?thesis
  proof (cases "recover_all k sha bz2 r s (og_token g)")
    case (Inl e)
    then show ?thesis using r(1) tk same h by (simp add: receiver_finish_def refuse_resource_def Let_def)
  next
    case (Inr x)
    obtain d m pf where x: "x = (d, m, pf)" by (rule prod_cases3)
    have "d = data" "m = metadata" "pf = og_expected_proof g"
      using recover_offered[OF settingD(1,2)[OF S], of r s d m pf] Inr x r(3) settingD(5)[OF S] h fs by simp_all
    then show ?thesis using Inr x r(1,3) tk same h(1) by (simp add: receiver_finish_def Let_def)
  qed
qed

lemma finish_ok:
  assumes S: "setting k sha bz2 a b data metadata g" and r: "rv_inc r = Some s" "fetching g L r s" "rv_link r = b" "\<not> dead r"
    and c: "is_complete s"
  shows "receiver_step_ok k g L b data metadata r (receiver_finish k sha bz2 r iv)"
proof -
  have rc: "receives g L s" using r(2) by (simp add: fetching_def)
  have h: "ic_hash s = og_hash g" "grown s (s\<lparr>ic_token := []\<rparr>)" "rv_data r = None" "rv_proved r = None"
    using rc r(2) by (simp_all add: receives_def offered_def grown_def fetching_def)
  show ?thesis
    unfolding finish_result[OF S r c]
    using r h by (auto simp: receiver_step_ok_def receiver_ok_def carries_on_def dead_def fetched_def split: sum.split)
qed

text \<open>The resource an \<open>incoming\<close> is for, which no part and no hashmap update changes.\<close>

definition same_resource :: "incoming \<Rightarrow> incoming \<Rightarrow> bool" where
  "same_resource s s' \<longleftrightarrow> ic_hash s' = ic_hash s \<and> ic_random_hash s' = ic_random_hash s \<and> ic_has_metadata s' = ic_has_metadata s"

lemma accept_part_same: "same_resource s (fst (accept_part sha s p))"
proof -
  have w: "same_resource s (fst (write_part s i z p))" for s i z p by (simp add: write_part_def same_resource_def Let_def)
  have t: "same_resource s (place_tail s n)" for s n
  proof (cases "ic_tail s")
    case (Some tail)
    obtain s' ok where wp: "write_part (s\<lparr>ic_tail := None\<rparr>) (ic_total_parts s - 1) n tail = (s', ok)" by fastforce
    then have "same_resource s s'" using w[of "s\<lparr>ic_tail := None\<rparr>" "ic_total_parts s - 1" n tail] by (simp add: same_resource_def)
    then show ?thesis using Some wp by (simp add: place_tail_def same_resource_def Let_def split: bool.split)
  qed (simp add: place_tail_def same_resource_def Let_def)
  have pl: "same_resource s (fst (place s i p))" for s i p
    using w t unfolding same_resource_def by (cases "ic_part_size s") (simp_all add: place_def Let_def)
  show ?thesis
    using pl unfolding same_resource_def
    by (auto simp: accept_part_def Let_def split: option.split prod.split bool.split) (metis fst_conv)+
qed

lemma accept_part_metadata: "ic_has_metadata (fst (accept_part sha s p)) = ic_has_metadata s"
  using accept_part_same unfolding same_resource_def by blast

lemma on_part_ok:
  assumes S: "setting k sha bz2 a b data metadata g" and r: "receiver_ok g L b data metadata r" "\<not> dead r" and i: "i < og_parts g"
    and iv: "length iv = IV_LEN"
  shows "receiver_step_ok k g L b data metadata r (on_part k sha bz2 r (framed_packet a CTX_RESOURCE (part_at g i)) now iv)"
proof (cases "received_all r \<or> rv_inc r = None")
  case True
  then show ?thesis using r by (auto simp: on_part_def receiver_step_ok_def)
next
  case False
  then obtain s where s: "rv_inc r = Some s" "rv_proved r = None" unfolding received_all_def by blast
  then have f: "fetching g L r s" "rv_link r = b" using r by (auto simp: receiver_ok_def fetched_def)
  obtain s' taken where a: "accept_part sha s (part_at g i) = (s', taken)" by fastforce
  have rc: "receives g L s" using f(1) by (simp add: fetching_def)
  note A = accept_part_honest[OF settingD(3)[OF S] rc i a]
  have md: "ic_has_metadata s' = ic_has_metadata s" using accept_part_metadata[of sha s "part_at g i"] a by simp
  let ?p = "framed_packet a CTX_RESOURCE (part_at g i)"
  let ?r = "r\<lparr>rv_last_activity := now, rv_retries_left := MAX_RETRIES,
      rv_window := window_on_part (rv_window r) now (tm_rtt (rv_timing r)) (encoded_len ?p) (length (part_at g i)), rv_inc := Some s'\<rparr>"
  have gr: "grown s s'" using A by (simp add: grown_def)
  have f': "fetching g L ?r s'" using f(1) A(1) md gr by (simp add: fetching_def grown_def)
  then have r1: "receiver_ok g L b data metadata ?r" "carries_on r ?r"
    using f r(2) s gr by (simp_all add: receiver_ok_def carries_on_def dead_def)
  let ?r2 = "?r\<lparr>rv_outstanding := rv_outstanding r - 1\<rparr>"
  have r2: "receiver_ok g L b data metadata ?r2" "carries_on ?r ?r2" by (rule receiver_ok_cong[OF r1(1)]; simp)+
  let ?r3 = "?r2\<lparr>rv_window := window_on_round (rv_window ?r2) now\<rparr>"
  have r3: "receiver_ok g L b data metadata ?r3" "carries_on ?r ?r3" by (rule receiver_ok_cong[OF r1(1)]; simp)+
  have c2: "carries_on r ?r2" "carries_on r ?r3" using r1(2) r2(2) r3(2) carries_on_trans by blast+
  have eq: "on_part k sha bz2 r ?p now iv = (if \<not> taken then (?r, []) else if is_complete s' then receiver_finish k sha bz2 ?r2 iv
      else if rv_outstanding ?r2 = 0 then request_more k ?r3 now iv else (?r2, []))"
    using s False by (simp add: on_part_def a Let_def received_all_def)
  have fin: "receiver_step_ok k g L b data metadata ?r2 (receiver_finish k sha bz2 ?r2 iv)" if "is_complete s'"
    by (rule finish_ok[OF S, of _ s']) (use f' f(2) r(2) that in \<open>simp_all add: fetching_def dead_def\<close>)
  have more: "receiver_step_ok k g L b data metadata ?r3 (request_more k ?r3 now iv)"
    by (rule request_more_ok[OF settingD(3)[OF S] r3(1) iv])
  have "receiver_step_ok k g L b data metadata r (?r, [])" "receiver_step_ok k g L b data metadata r (?r2, [])"
    using step_okI[OF r1] step_okI[OF r2(1) c2(1)] by simp_all
  then show ?thesis unfolding eq
    using step_ok_from[OF fin c2(1)] step_ok_from[OF more c2(2)] by (simp only: split: if_split) blast
qed

lemma ingest_hmu_keeps:
  "ic_hash (fst (ingest_hmu s u)) = ic_hash s" "ic_has_metadata (fst (ingest_hmu s u)) = ic_has_metadata s"
  "grown s (fst (ingest_hmu s u))"
  by (simp_all add: ingest_hmu_def grown_def Let_def split: option.split prod.split)

lemma on_update_ok:
  assumes S: "setting k sha bz2 a b data metadata g" and r: "receiver_ok g L b data metadata r" "\<not> dead r" and L: "0 < L"
    and u: "promise r (\<lambda>s. updates_well g L s plain)" and iv: "length iv = IV_LEN" "length iv' = IV_LEN"
  shows "receiver_step_ok k g L b data metadata r (on_update k r (sealed_packet k a CTX_RESOURCE_HMU plain iv) now iv')"
proof (cases "rv_waiting_for_hmu r")
  case False
  then show ?thesis using r by (simp add: on_update_def receiver_step_ok_def)
next
  case True
  have idle: "receiver_step_ok k g L b data metadata r (r, [])" using r by (simp add: receiver_step_ok_def)
  have b: "rv_link r = b" using r by (simp add: receiver_ok_def)
  let ?p = "sealed_packet k a CTX_RESOURCE_HMU plain iv"
  show ?thesis
  proof (cases "\<exists>s h. rv_inc r = Some s \<and> parse_hmu plain = Inr h \<and> ic_hash s = hu_resource_hash h")
    case False
    then have "on_update k r ?p now iv' = (r, [])"
      by (auto simp: on_update_def b opens_at_receiver[OF S iv(1)] split: sum.splits option.splits)
    then show ?thesis using idle by simp
  next
    case ex: True
    then obtain s h where s: "rv_inc r = Some s" "parse_hmu plain = Inr h" "ic_hash s = hu_resource_hash h" by blast
    have f: "fetching g L r s \<or> fetched g data metadata r s" using r s by (auto simp: receiver_ok_def)
    obtain s' n where i: "ingest_hmu s h = (s', n)" by fastforce
    note K = ingest_hmu_keeps[of s h, unfolded i fst_conv]
    have f': "fetching g L r s' \<or> fetched g data metadata r s'"
    proof (cases "rv_proved r")
      case None
      then have fe: "fetching g L r s" using f by (auto simp: fetched_def)
      then have rc: "receives g L s" by (simp add: fetching_def)
      have "updates_well g L s plain" using u r(2) None s(1) by (auto simp: promise_def)
      then have h: "update_ok g L (ic_hashmap_height s) h" "ic_segment_len s = L" using s(2) by (auto simp: updates_well_def)
      note A = ingest_hmu_honest[OF settingD(3)[OF S] rc L h(1) i h(2)]
      show ?thesis using fe A K(2) by (simp add: fetching_def)
    qed (use f K(1) in \<open>auto simp: fetched_def fetching_def\<close>)
    let ?r = "r\<lparr>rv_inc := Some s', rv_last_activity := now, rv_retries_left := MAX_RETRIES, rv_waiting_for_hmu := False\<rparr>"
    have r1: "receiver_ok g L b data metadata ?r" "carries_on r ?r"
      using b f' r(2) s K(3) by (auto simp: receiver_ok_def carries_on_def dead_def fetching_def fetched_def)
    have "on_update k r ?p now iv' = request_more k ?r now iv'"
      using True s i by (simp add: on_update_def b opens_at_receiver[OF S iv(1)])
    then show ?thesis using step_ok_from[OF request_more_ok[OF settingD(3)[OF S] r1(1) iv(2)] r1(2)] by simp
  qed
qed

lemma on_cancel_ok:
  assumes r: "receiver_ok g L b data metadata r" "\<not> dead r"
  shows "receiver_step_ok k g L b data metadata r (on_cancel k r p, [])"
proof (cases "rv_inc r")
  case None
  then show ?thesis using r by (simp add: on_cancel_def receiver_step_ok_def)
next
  case (Some s)
  then show ?thesis
    using r by (auto simp: on_cancel_def receiver_step_ok_def receiver_ok_def carries_on_def dead_def received_all_def fetching_def fetched_def)
qed

lemma packed_offer:
  "parse_advertisement (pack_advertisement (advertisement_with_hash_limit g limit)) = Inr (advertisement_with_hash_limit g limit)"
proof -
  have "clamp 1 HASHMAP_MAX_PARTS limit \<le> 74" by (simp add: clamp_def resource_consts)
  then have "adv_sized (advertisement_with_hash_limit g limit)"
    by (auto simp: adv_sized_def advertisement_with_hash_limit_def Let_def u32_max_def split: option.split)
  from advertisement_roundtrip[OF this, of "[]"] show ?thesis by simp
qed

lemma offered_advertisement:
  assumes S: "setting k sha bz2 a b data metadata g" and adv_def: "adv = advertisement_with_hash_limit g limit"
  shows "parse_advertisement (pack_advertisement adv) = Inr adv" "adv_resource_hash adv = to_be 32 (og_hash g)"
    "length (adv_resource_hash adv) = 32" "adv_has_metadata adv = og_has_metadata g" "sint (adv_i adv) = 1" "sint (adv_l adv) = 1"
proof -
  show "parse_advertisement (pack_advertisement adv) = Inr adv" unfolding adv_def by (rule packed_offer)
  show "adv_resource_hash adv = to_be 32 (og_hash g)" "length (adv_resource_hash adv) = 32"
    by (simp_all add: adv_def advertisement_with_hash_limit_def Let_def)
  show "adv_has_metadata adv = og_has_metadata g"
    by (simp add: adv_def advertisement_with_hash_limit_def Let_def adv_has_metadata_def resource_flags)
  show "sint (adv_i adv) = 1" "sint (adv_l adv) = 1"
    using settingD(2)[OF S] by (simp_all add: offers_def adv_def advertisement_with_hash_limit_def Let_def)
qed

lemma incoming_metadata:
  "incoming_with_max_parts adv n = Inr s \<Longrightarrow> ic_has_metadata s = (adv_has_metadata adv \<and> sint (adv_i adv) \<le> 1)"
  by (auto simp: incoming_with_max_parts_def Let_def split: if_splits)

lemma on_advertisement_ok:
  assumes S: "setting k sha bz2 a b data metadata g" and r: "receiver_ok g (clamp 1 HASHMAP_MAX_PARTS limit) b data metadata r"
    and iv: "length iv = IV_LEN" "length iv' = IV_LEN"
  shows "receiver_step_ok k g (clamp 1 HASHMAP_MAX_PARTS limit) b data metadata r
    (on_advertisement k bz2 r (sealed_packet k a CTX_RESOURCE_ADV (pack_advertisement (advertisement_with_hash_limit g limit)) iv) now iv')"
proof -
  let ?L = "clamp 1 HASHMAP_MAX_PARTS limit" and ?adv = "advertisement_with_hash_limit g limit"
  let ?p = "sealed_packet k a CTX_RESOURCE_ADV (pack_advertisement ?adv) iv"
  note O = offered_advertisement[OF S HOL.refl, of limit]
  have b: "rv_link r = b" using r by (simp add: receiver_ok_def)
  have dec: "and_then (link_decrypt k (rv_link r) ?p) parse_advertisement = Inr ?adv"
    by (simp add: b opens_at_receiver[OF S iv(1)] O(1))
  show ?thesis
  proof (cases "dead r")
    case True
    then have "on_advertisement k bz2 r ?p now iv' = (r, [refuse_resource k r (adv_resource_hash ?adv) iv'])"
      by (auto simp: on_advertisement_def dec O(3) dead_def simp del: O(2))
    then show ?thesis using r by (simp add: receiver_step_ok_def)
  next
    case alive: False
    then have al: "rv_failure r = None" "\<not> rv_canceled r" by (simp_all add: dead_def)
    show ?thesis
    proof (cases "rv_inc r")
      case (Some s)
      then have f: "fetching g ?L r s \<or> fetched g data metadata r s" using r by (simp add: receiver_ok_def)
      then have "ic_hash s = og_hash g" by (auto simp: fetched_def fetching_def receives_def offered_def)
      then have "on_advertisement k bz2 r ?p now iv' = (r, case proof_packet r of None \<Rightarrow> [] | Some q \<Rightarrow> [q])"
        using Some al by (simp add: on_advertisement_def dec O(2))
      then show ?thesis using r by (auto simp: receiver_step_ok_def proof_packet_def up_ok_def split: option.splits)
    next
      case None
      then have n: "rv_data r = None" "rv_proved r = None" using r by (simp_all add: receiver_ok_def)
      show ?thesis
      proof (cases "offered_request_id ?adv")
        case None
        then have "on_advertisement k bz2 r ?p now iv' = (r, [])"
          using \<open>rv_inc r = None\<close> al by (simp add: on_advertisement_def dec O(2))
        then show ?thesis using r by (simp add: receiver_step_ok_def)
      next
        case (Some q)
        show ?thesis
        proof (cases "admit_offer bz2 r ?adv")
          case (Inl e)
          then have "on_advertisement k bz2 r ?p now iv' = (if e = BadRequest then (r, [])
              else (r\<lparr>rv_failure := Some e\<rparr>, [refuse_resource k r (to_be 32 (og_hash g)) iv']))"
            using \<open>rv_inc r = None\<close> al Some by (simp add: on_advertisement_def dec O(2))
          moreover have "receiver_ok g ?L b data metadata (r\<lparr>rv_failure := Some e\<rparr>)" "carries_on r (r\<lparr>rv_failure := Some e\<rparr>)"
            using \<open>rv_inc r = None\<close> n b by (simp_all add: receiver_ok_def carries_on_def dead_def)
          ultimately show ?thesis using r by (simp add: receiver_step_ok_def)
        next
          case (Inr inc)
          then obtain s0 where s0: "incoming_with_max_parts ?adv (rv_max_parts r) = Inr s0" "inc = set_window s0 (rv_request_window r)"
            by (auto simp: admit_offer_def with_window_def split: if_splits)
          note T = start_ok[OF settingD(3)[OF S] s0(1)]
          note W = window_receives[OF T(1), of "rv_request_window r"]
          have "ic_has_metadata s0 = og_has_metadata g" using incoming_metadata[OF s0(1)] O(4,5) by simp
          then have fe: "fetching g ?L r inc" using W T(2) n by (simp add: fetching_def s0(2))
          let ?r = "r\<lparr>rv_inc := Some inc, rv_outstanding := 0, rv_retries_left := MAX_RETRIES, rv_waiting_for_hmu := False,
              rv_response_request_id := q\<rparr>"
          have "on_advertisement k bz2 r ?p now iv' = request_more k ?r now iv'"
            using \<open>rv_inc r = None\<close> al Some Inr by (simp add: on_advertisement_def dec O(2))
          moreover have "receiver_ok g ?L b data metadata ?r" "carries_on r ?r"
            using \<open>rv_inc r = None\<close> n b al fe by (simp_all add: receiver_ok_def carries_on_def dead_def fetching_def)
          ultimately show ?thesis using step_ok_from[OF request_more_ok[OF settingD(3)[OF S] _ iv(2)]] by simp
        qed
      qed
    qed
  qed
qed

lemmas resource_contexts = CTX_RESOURCE_def CTX_RESOURCE_ADV_def CTX_RESOURCE_REQ_def CTX_RESOURCE_HMU_def CTX_RESOURCE_PRF_def
  CTX_RESOURCE_ICL_def CTX_RESOURCE_RCL_def CTX_CACHE_REQUEST_def

lemma receiver_on_packet_ok:
  assumes S: "setting k sha bz2 a b data metadata g" and r: "receiver_ok g (clamp 1 HASHMAP_MAX_PARTS limit) b data metadata r"
    and p: "down_ok k g limit a r p" and iv: "length iv = IV_LEN"
  shows "receiver_step_ok k g (clamp 1 HASHMAP_MAX_PARTS limit) b data metadata r (receiver_on_packet k sha bz2 r p now iv)"
proof -
  let ?L = "clamp 1 HASHMAP_MAX_PARTS limit"
  have L: "0 < ?L" by (simp add: clamp_def resource_consts)
  have idle: "receiver_step_ok k g ?L b data metadata r (r, [])" using r by (simp add: receiver_step_ok_def)
  consider (adv) iv' where "length iv' = IV_LEN"
      "p = sealed_packet k a CTX_RESOURCE_ADV (pack_advertisement (advertisement_with_hash_limit g limit)) iv'"
    | (part) i where "i < og_parts g" "p = framed_packet a CTX_RESOURCE (part_at g i)"
    | (update) plain iv' where "length iv' = IV_LEN" "p = sealed_packet k a CTX_RESOURCE_HMU plain iv'"
        "promise r (\<lambda>s. updates_well g ?L s plain)"
    | (other) "pk_context p \<in> {CTX_RESOURCE_ICL, CTX_CACHE_REQUEST}"
    using p unfolding down_ok_def by blast
  then show ?thesis
  proof cases
    case adv
    then have "receiver_on_packet k sha bz2 r p now iv = on_advertisement k bz2 r p now iv" by (simp add: receiver_on_packet_def)
    with on_advertisement_ok[OF S r adv(1) iv] adv(2) show ?thesis by simp
  next
    case part
    show ?thesis
    proof (cases "dead r")
      case False
      then have "receiver_on_packet k sha bz2 r p now iv = on_part k sha bz2 r p now iv"
        by (simp add: receiver_on_packet_def part(2) dead_def resource_contexts)
      with on_part_ok[OF S r False part(1) iv] part(2) show ?thesis by simp
    qed (use idle in \<open>simp add: receiver_on_packet_def part(2) dead_def resource_contexts\<close>)
  next
    case update
    show ?thesis
    proof (cases "dead r")
      case False
      then have "receiver_on_packet k sha bz2 r p now iv = on_update k r p now iv"
        by (simp add: receiver_on_packet_def update(2) dead_def resource_contexts)
      with on_update_ok[OF S r False L update(3,1) iv] update(2) show ?thesis by simp
    qed (use idle in \<open>simp add: receiver_on_packet_def update(2) dead_def resource_contexts\<close>)
  next
    case other
    show ?thesis
    proof (cases "dead r")
      case False
      with other on_cancel_ok[OF r False] idle show ?thesis by (auto simp: receiver_on_packet_def dead_def resource_contexts)
    qed (use other idle in \<open>auto simp: receiver_on_packet_def dead_def resource_contexts\<close>)
  qed
qed

lemma receiver_poll_ok:
  assumes S: "setting k sha bz2 a b data metadata g" and r: "receiver_ok g L b data metadata r" and iv: "length iv = IV_LEN"
  shows "receiver_step_ok k g L b data metadata r (receiver_poll k r now iv)"
proof -
  have idle: "receiver_step_ok k g L b data metadata r (r, [])" using r by (simp add: receiver_step_ok_def)
  show ?thesis
  proof (cases "receiver_deadline r")
    case (Some d)
    then have "\<not> (rv_failure r \<noteq> None \<or> rv_canceled r \<or> rv_proved r \<noteq> None \<or> rv_inc r = None)"
      unfolding receiver_deadline_def by (metis option.distinct(1))
    then have "rv_inc r \<noteq> None" "rv_proved r = None" "\<not> dead r" unfolding dead_def by blast+
    then obtain s where s: "rv_inc r = Some s" "rv_proved r = None" "\<not> dead r" by blast
    then have f: "fetching g L r s" "rv_link r = b" using r by (auto simp: receiver_ok_def fetched_def)
    let ?r = "r\<lparr>rv_retries_left := rv_retries_left r - 1, rv_window := window_on_timeout (rv_window r), rv_waiting_for_hmu := False\<rparr>"
    have r1: "receiver_ok g L b data metadata ?r" "carries_on r ?r" by (rule receiver_ok_cong[OF r]; simp)+
    have more: "receiver_step_ok k g L b data metadata r (request_more k ?r now iv)"
      by (rule step_ok_from[OF request_more_ok[OF settingD(3)[OF S] r1(1) iv] r1(2)])
    have out: "receiver_step_ok k g L b data metadata r
        (r\<lparr>rv_inc := None, rv_failure := Some ResourceTimedOut\<rparr>, [refuse_resource k r (to_be 32 (ic_hash s)) iv])"
      using f s by (simp add: receiver_step_ok_def receiver_ok_def carries_on_def dead_def fetching_def)
    show ?thesis using idle more out s(1) Some by (simp add: receiver_poll_def)
  qed (use idle in \<open>simp add: receiver_poll_def\<close>)
qed

lemma receiver_cancel_ok:
  assumes r: "receiver_ok g L b data metadata r"
  shows "receiver_step_ok k g L b data metadata r (fst (receiver_cancel k r iv), case snd (receiver_cancel k r iv) of None \<Rightarrow> [] | Some p \<Rightarrow> [p])"
proof (cases "received_all r \<or> dead r \<or> rv_inc r = None")
  case True
  then show ?thesis using r by (auto simp: receiver_cancel_def receiver_step_ok_def dead_def)
next
  case False
  then obtain s where s: "rv_inc r = Some s" "rv_proved r = None" "\<not> dead r" unfolding received_all_def by blast
  then show ?thesis
    using r by (simp add: receiver_cancel_def receiver_step_ok_def receiver_ok_def carries_on_def dead_def received_all_def
        fetching_def fetched_def up_ok_def)
qed

section \<open>The sender's steps\<close>

definition sender_inv :: "outgoing \<Rightarrow> nat \<Rightarrow> link \<Rightarrow> receiver \<Rightarrow> sender \<Rightarrow> bool" where
  "sender_inv g limit a r s \<longleftrightarrow> sn_out s = g \<and> sn_link s = a \<and> sn_hash_window s = limit \<and> (sn_done s \<longrightarrow> rv_proved r \<noteq> None)"

definition sender_step_ok :: "ciphers \<Rightarrow> outgoing \<Rightarrow> nat \<Rightarrow> link \<Rightarrow> receiver \<Rightarrow> sender \<times> packet list \<Rightarrow> bool" where
  "sender_step_ok k g limit a r out \<longleftrightarrow> sender_inv g limit a r (fst out) \<and> list_all (down_ok k g limit a r) (snd out)"

lemma mark_sent_keeps:
  "sn_out (mark_sent cs s) = sn_out s \<and> sn_link (mark_sent cs s) = sn_link s \<and> sn_hash_window (mark_sent cs s) = sn_hash_window s
    \<and> sn_done (mark_sent cs s) = sn_done s"
  by (induction cs arbitrary: s) auto

lemma serve_parts_spec:
  "sn_out (fst (serve_parts is s out)) = sn_out s \<and> sn_link (fst (serve_parts is s out)) = sn_link s
    \<and> sn_hash_window (fst (serve_parts is s out)) = sn_hash_window s \<and> sn_done (fst (serve_parts is s out)) = sn_done s
    \<and> snd (serve_parts is s out) = out @ map (framed_packet (sn_link s) CTX_RESOURCE) (List.map_filter (og_part (sn_out s)) is)"
proof (induction "is" arbitrary: s out)
  case (Cons i "is")
  show ?case
  proof (cases "og_part (sn_out s) i")
    case None
    then show ?thesis using Cons[of s out] by (simp add: map_filter_simps)
  next
    case (Some part)
    let ?s = "mark_sent (copies_of (sn_out s) i) (s\<lparr>sn_served_parts := sn_served_parts s + 1\<rparr>)"
    have "sn_out ?s = sn_out s" "sn_link ?s = sn_link s" "sn_hash_window ?s = sn_hash_window s" "sn_done ?s = sn_done s"
      using mark_sent_keeps[of "copies_of (sn_out s) i" "s\<lparr>sn_served_parts := sn_served_parts s + 1\<rparr>"] by simp_all
    then show ?thesis using Cons[of ?s "out @ [framed_packet (sn_link s) CTX_RESOURCE part]"] Some
      by (simp add: map_filter_simps Let_def)
  qed
qed (simp add: map_filter_simps)

lemma notes_keep:
  "sender_inv g limit a r s \<Longrightarrow> sender_inv g limit a r (note_request s hash now)"
  "sender_inv g limit a r s \<Longrightarrow> sender_inv g limit a r (note_answered s out now)"
  by (simp_all add: sender_inv_def note_request_def remember_request_def note_answered_def Let_def)

lemma answer_ok:
  assumes g: "sender_ok sha g" and s: "sender_inv g limit a r s" and iv: "length iv = IV_LEN"
    and r: "receiver_ok g (clamp 1 HASHMAP_MAX_PARTS limit) b data metadata r"
    and q: "ResourceWire.parse_request plain = Inr q" "promise r (\<lambda>s. asks_well g (clamp 1 HASHMAP_MAX_PARTS limit) s plain)"
  shows "sender_step_ok k g limit a r (answer_request k s q hash now iv)"
proof -
  let ?L = "clamp 1 HASHMAP_MAX_PARTS limit" and ?s = "note_request s hash now"
  have keep: "sender_inv g limit a r ?s" by (rule notes_keep[OF s])
  obtain s2 out where s2: "serve_parts (requested_indices g q) ?s [] = (s2, out)" by fastforce
  have sp: "sn_out s2 = g" "sn_link s2 = a" "sn_hash_window s2 = limit" "sn_done s2 = sn_done ?s"
    "out = map (framed_packet a CTX_RESOURCE) (serve g q)"
    using serve_parts_spec[of "requested_indices g q" ?s "[]"] keep s2 by (simp_all add: sender_inv_def serve_def)
  have inv2: "sender_inv g limit a r s2" using sp keep by (simp add: sender_inv_def)
  let ?hmu = "case rq_last_map_hash q of None \<Rightarrow> []
      | Some m \<Rightarrow> [sealed_packet k a CTX_RESOURCE_HMU (hmu_after_with_hash_limit g m limit) iv]"
  let ?out = "if rq_exhausted q then out @ ?hmu else out"
  have eq: "answer_request k s q hash now iv = (note_answered s2 ?out now, ?out)"
    using s2 sp s by (cases "rq_last_map_hash q") (simp_all add: answer_request_def sender_inv_def Let_def)
  have parts: "list_all (down_ok k g limit a r) out"
    using served_parts[OF g, of q] unfolding sp(5) list_all_iff down_ok_def by auto
  have hmu: "list_all (down_ok k g limit a r) ?hmu" if x: "rq_exhausted q"
  proof (cases "rq_last_map_hash q")
    case (Some m)
    have "promise r (\<lambda>s. updates_well g ?L s (hmu_after_with_hash_limit g m limit))"
    proof (cases "dead r \<or> rv_proved r \<noteq> None")
      case False
      then obtain inc where inc: "rv_inc r = Some inc" "asks_well g ?L inc plain" using q(2) unfolding promise_def by blast
      then obtain h where h: "ic_segment_len inc = ?L" "0 < h" "h \<le> ic_hashmap_height inc" "?L dvd h" "m = og_map_hashes g ! (h - 1)"
        using q(1) x Some by (auto simp: asks_well_def)
      have "receives g ?L inc" using r inc(1) False by (auto simp: receiver_ok_def fetching_def fetched_def)
      then have "h \<le> og_parts g" using h(3) by (simp add: receives_def mapped_def)
      from hmu_answer[OF g h(2) this h(4) HOL.refl] h(5) obtain u where u: "parse_hmu (hmu_after_with_hash_limit g m limit) = Inr u"
        "hu_resource_hash u = og_hash g" "update_ok g ?L h u" by blast
      have "update_ok g ?L (ic_hashmap_height inc) u" using u(3) order.trans[OF _ h(3)] unfolding update_ok_def by auto
      then show ?thesis using u h(1) inc(1) by (simp add: promise_def updates_well_def)
    qed (auto simp: promise_def)
    then show ?thesis using iv Some by (auto simp: down_ok_def)
  qed simp
  show ?thesis unfolding eq using notes_keep(2)[OF inv2] parts hmu by (simp add: sender_step_ok_def)
qed

lemma sender_on_packet_ok:
  assumes S: "setting k sha bz2 a b data metadata g" and s: "sender_inv g limit a r s"
    and r: "receiver_ok g (clamp 1 HASHMAP_MAX_PARTS limit) b data metadata r"
    and p: "up_ok k g (clamp 1 HASHMAP_MAX_PARTS limit) b r p" and iv: "length iv = IV_LEN"
  shows "sender_step_ok k g limit a r (sender_on_packet k sha s p now iv)"
proof -
  have idle: "sender_step_ok k g limit a r (s, [])" using s by (simp add: sender_step_ok_def)
  have link: "sn_link s = a" "sn_out s = g" using s by (simp_all add: sender_inv_def)
  consider (request) plain iv' where "length iv' = IV_LEN" "p = sealed_packet k b CTX_RESOURCE_REQ plain iv'"
      "promise r (\<lambda>s. asks_well g (clamp 1 HASHMAP_MAX_PARTS limit) s plain)"
    | (proved) "pk_context p = CTX_RESOURCE_PRF" "rv_proved r \<noteq> None" | (refused) "pk_context p = CTX_RESOURCE_RCL"
    using p unfolding up_ok_def by blast
  then show ?thesis
  proof cases
    case request
    show ?thesis
    proof (cases "ResourceWire.parse_request plain")
      case (Inl e)
      then show ?thesis using idle
        by (simp add: sender_on_packet_def request(2) link opens_at_sender[OF S request(1)] resource_contexts)
    next
      case (Inr q)
      then show ?thesis using idle answer_ok[OF settingD(3)[OF S] s iv r Inr request(3)]
        by (simp add: sender_on_packet_def request(2) link opens_at_sender[OF S request(1)] Let_def)
    qed
  next
    case proved
    then have "sender_inv g limit a r (s\<lparr>sn_done := True\<rparr>)" using s by (simp add: sender_inv_def)
    with proved idle show ?thesis by (simp add: sender_on_packet_def sender_step_ok_def resource_contexts)
  next
    case refused
    have "sender_inv g limit a r (s\<lparr>sn_canceled := True\<rparr>)" using s by (simp add: sender_inv_def)
    with refused idle show ?thesis by (simp add: sender_on_packet_def sender_step_ok_def resource_contexts)
  qed
qed

definition as_list :: "'a option \<Rightarrow> 'a list" where
  "as_list x = (case x of None \<Rightarrow> [] | Some y \<Rightarrow> [y])"

lemma as_list_simps [simp]: "as_list None = []" "as_list (Some x) = [x]"
  by (simp_all add: as_list_def)

lemma advertise_ok:
  assumes "sender_inv g limit a r s" "length iv = IV_LEN"
  shows "sender_inv g limit a r (fst (sender_advertise k s now iv))" "down_ok k g limit a r (snd (sender_advertise k s now iv))"
  using assms by (auto simp: sender_advertise_def sender_advertisement_def sender_inv_def down_ok_def)

lemma cache_request_ok:
  assumes "sender_inv g limit a r s"
  shows "sender_step_ok k g limit a r (apsnd as_list (cache_request sha s))"
  using assms by (simp add: cache_request_def sender_step_ok_def sender_inv_def down_ok_def Let_def)

lemma sender_cancel_ok:
  assumes "sender_inv g limit a r s"
  shows "sender_step_ok k g limit a r (apsnd as_list (sender_cancel k s iv))"
  using assms by (simp add: sender_cancel_def sender_step_ok_def sender_inv_def down_ok_def)

lemma sender_poll_ok:
  assumes s: "sender_inv g limit a r s" and iv: "length iv = IV_LEN"
  shows "sender_step_ok k g limit a r (apsnd as_list (sender_poll k sha s now iv))"
proof -
  have idle: "sender_step_ok k g limit a r (s, [])" using s by (simp add: sender_step_ok_def)
  let ?s = "s\<lparr>sn_adv_retries_left := sn_adv_retries_left s - 1\<rparr>"
  have "sender_inv g limit a r ?s" using s by (simp add: sender_inv_def)
  note A = advertise_ok[OF this iv]
  have C: "sender_step_ok k g limit a r (apsnd as_list (sender_cancel k (t\<lparr>sn_timed_out := True\<rparr>) iv))" if "sender_inv g limit a r t" for t
    by (rule sender_cancel_ok) (use that in \<open>simp add: sender_inv_def\<close>)
  obtain t q where t: "(if sn_started s \<and> awaiting_proof s then cache_request sha s else (s, None)) = (t, q)" by fastforce
  have T: "sender_inv g limit a r t \<and> list_all (down_ok k g limit a r) (as_list q)"
    using t cache_request_ok[OF s, of k sha] s by (auto simp: sender_step_ok_def split: if_splits)
  show ?thesis
  proof (cases "sender_deadline s")
    case (Some d)
    show ?thesis
    proof (cases "now < d \<or> \<not> sn_started s \<and> 0 < sn_adv_retries_left s")
      case True
      obtain s' p where sp: "sender_advertise k ?s now iv = (s', p)" by fastforce
      have "sender_poll k sha s now iv = (if now < d then (s, None) else (s', Some p))"
        using True sp[unfolded One_nat_def] by (cases "now < d") (simp_all add: sender_poll_def Some)
      then show ?thesis using idle A[of k now, unfolded sp] by (simp add: sender_step_ok_def)
    next
      case False
      then have "sender_poll k sha s now iv = (case q of
          Some request \<Rightarrow> (t\<lparr>sn_last_part_sent := now\<rparr>, Some request) | None \<Rightarrow> sender_cancel k (t\<lparr>sn_timed_out := True\<rparr>) iv)"
        unfolding sender_poll_def Some option.case t by (auto split: option.split)
      then show ?thesis
      proof (cases q)
        case (Some request)
        with \<open>sender_poll k sha s now iv = _\<close> T show ?thesis by (simp add: sender_step_ok_def sender_inv_def)
      qed (use C T in simp)
    qed
  qed (use idle in \<open>simp add: sender_poll_def\<close>)
qed

section \<open>The two ends together\<close>

record delivery =
  dl_sender :: sender
  dl_receiver :: receiver
  dl_down :: "packet list"
  dl_up :: "packet list"

datatype delivery_event =
    SenderAdvertises nat bytes | SenderHears nat nat bytes | SenderPolls nat bytes | SenderAsksProof | SenderCancels bytes
  | ReceiverHears nat nat bytes | ReceiverPolls nat bytes | ReceiverCancels bytes

text \<open>Packets stay in the network once sent: a run may drop, repeat, reorder and delay them.\<close>

definition sender_acts :: "delivery \<Rightarrow> sender \<times> packet list \<Rightarrow> delivery" where
  "sender_acts d out = d\<lparr>dl_sender := fst out, dl_down := dl_down d @ snd out\<rparr>"

definition receiver_acts :: "delivery \<Rightarrow> receiver \<times> packet list \<Rightarrow> delivery" where
  "receiver_acts d out = d\<lparr>dl_receiver := fst out, dl_up := dl_up d @ snd out\<rparr>"

fun delivery_act :: "ciphers \<Rightarrow> sha256 \<Rightarrow> bz2 \<Rightarrow> delivery \<Rightarrow> delivery_event \<Rightarrow> delivery" where
  "delivery_act k sha bz2 d (SenderAdvertises now iv) = sender_acts d (apsnd (\<lambda>p. [p]) (sender_advertise k (dl_sender d) now iv))"
| "delivery_act k sha bz2 d (SenderHears n now iv) =
     (case get_at (dl_up d) n of None \<Rightarrow> d | Some p \<Rightarrow> sender_acts d (sender_on_packet k sha (dl_sender d) p now iv))"
| "delivery_act k sha bz2 d (SenderPolls now iv) = sender_acts d (apsnd as_list (sender_poll k sha (dl_sender d) now iv))"
| "delivery_act k sha bz2 d SenderAsksProof = sender_acts d (apsnd as_list (cache_request sha (dl_sender d)))"
| "delivery_act k sha bz2 d (SenderCancels iv) = sender_acts d (apsnd as_list (sender_cancel k (dl_sender d) iv))"
| "delivery_act k sha bz2 d (ReceiverHears n now iv) =
     (case get_at (dl_down d) n of None \<Rightarrow> d | Some p \<Rightarrow> receiver_acts d (receiver_on_packet k sha bz2 (dl_receiver d) p now iv))"
| "delivery_act k sha bz2 d (ReceiverPolls now iv) = receiver_acts d (receiver_poll k (dl_receiver d) now iv)"
| "delivery_act k sha bz2 d (ReceiverCancels iv) = receiver_acts d (apsnd as_list (receiver_cancel k (dl_receiver d) iv))"

fun event_iv :: "delivery_event \<Rightarrow> bytes option" where
  "event_iv (SenderAdvertises now iv) = Some iv"
| "event_iv (SenderHears n now iv) = Some iv"
| "event_iv (SenderPolls now iv) = Some iv"
| "event_iv SenderAsksProof = None"
| "event_iv (SenderCancels iv) = Some iv"
| "event_iv (ReceiverHears n now iv) = Some iv"
| "event_iv (ReceiverPolls now iv) = Some iv"
| "event_iv (ReceiverCancels iv) = Some iv"

definition sound_event :: "delivery_event \<Rightarrow> bool" where
  "sound_event ev \<longleftrightarrow> (case event_iv ev of None \<Rightarrow> True | Some iv \<Rightarrow> length iv = IV_LEN)"

text \<open>An IV has the length of its type; an event with another is none.\<close>

definition delivery_step :: "ciphers \<Rightarrow> sha256 \<Rightarrow> bz2 \<Rightarrow> delivery \<Rightarrow> delivery_event \<Rightarrow> delivery" where
  "delivery_step k sha bz2 d ev = (if sound_event ev then delivery_act k sha bz2 d ev else d)"

definition delivery_run :: "ciphers \<Rightarrow> sha256 \<Rightarrow> bz2 \<Rightarrow> sender \<Rightarrow> receiver \<Rightarrow> delivery_event list \<Rightarrow> delivery" where
  "delivery_run k sha bz2 s r evs =
     foldl (delivery_step k sha bz2) \<lparr>dl_sender = s, dl_receiver = r, dl_down = [], dl_up = []\<rparr> evs"

definition delivery_inv ::
  "ciphers \<Rightarrow> sha256 \<Rightarrow> bz2 \<Rightarrow> link \<Rightarrow> link \<Rightarrow> bytes \<Rightarrow> bytes option \<Rightarrow> outgoing \<Rightarrow> nat \<Rightarrow> delivery \<Rightarrow> bool" where
  "delivery_inv k sha bz2 a b data metadata g limit d \<longleftrightarrow> setting k sha bz2 a b data metadata g
     \<and> receiver_ok g (clamp 1 HASHMAP_MAX_PARTS limit) b data metadata (dl_receiver d)
     \<and> sender_inv g limit a (dl_receiver d) (dl_sender d)
     \<and> list_all (down_ok k g limit a (dl_receiver d)) (dl_down d)
     \<and> list_all (up_ok k g (clamp 1 HASHMAP_MAX_PARTS limit) b (dl_receiver d)) (dl_up d)"

lemma sender_acts_inv:
  assumes "delivery_inv k sha bz2 a b data metadata g limit d" "sender_step_ok k g limit a (dl_receiver d) out"
  shows "delivery_inv k sha bz2 a b data metadata g limit (sender_acts d out)"
  using assms by (simp add: delivery_inv_def sender_acts_def sender_step_ok_def)

lemma receiver_acts_inv:
  assumes d: "delivery_inv k sha bz2 a b data metadata g limit d"
    and out: "receiver_step_ok k g (clamp 1 HASHMAP_MAX_PARTS limit) b data metadata (dl_receiver d) out"
  shows "delivery_inv k sha bz2 a b data metadata g limit (receiver_acts d out)"
proof -
  let ?r = "dl_receiver d" and ?r' = "fst out" and ?L = "clamp 1 HASHMAP_MAX_PARTS limit"
  have c: "carries_on ?r ?r'" using out by (simp add: receiver_step_ok_def)
  have down: "list_all (down_ok k g limit a ?r') (dl_down d)"
    using d packets_kept(1)[OF c] unfolding delivery_inv_def by (auto elim: list.pred_mono_strong)
  have up: "list_all (up_ok k g ?L b ?r') (dl_up d)"
    using d packets_kept(2)[OF c] unfolding delivery_inv_def by (auto elim: list.pred_mono_strong)
  have "rv_proved ?r \<noteq> None \<Longrightarrow> rv_proved ?r' \<noteq> None" using c unfolding carries_on_def by blast
  then have "sender_inv g limit a ?r' (dl_sender d)" using d unfolding delivery_inv_def sender_inv_def by blast
  then show ?thesis using d out down up unfolding delivery_inv_def receiver_step_ok_def receiver_acts_def by simp
qed

lemma delivery_act_inv:
  assumes d: "delivery_inv k sha bz2 a b data metadata g limit d" and ev: "sound_event ev"
  shows "delivery_inv k sha bz2 a b data metadata g limit (delivery_act k sha bz2 d ev)"
proof -
  let ?L = "clamp 1 HASHMAP_MAX_PARTS limit" and ?s = "dl_sender d" and ?r = "dl_receiver d"
  have S: "setting k sha bz2 a b data metadata g" and r: "receiver_ok g ?L b data metadata ?r" and s: "sender_inv g limit a ?r ?s"
    using d by (simp_all add: delivery_inv_def)
  have dn: "down_ok k g limit a ?r p" if "get_at (dl_down d) n = Some p" for n p
    using d that by (auto simp: delivery_inv_def list_all_length get_at_def split: if_splits)
  have up: "up_ok k g ?L b ?r p" if "get_at (dl_up d) n = Some p" for n p
    using d that by (auto simp: delivery_inv_def list_all_length get_at_def split: if_splits)
  show ?thesis
  proof (cases ev)
    case (SenderAdvertises now iv)
    with advertise_ok[OF s, of iv k now] ev have "sender_step_ok k g limit a ?r (apsnd (\<lambda>p. [p]) (sender_advertise k ?s now iv))"
      by (simp add: sound_event_def sender_step_ok_def)
    from sender_acts_inv[OF d this] SenderAdvertises show ?thesis by simp
  next
    case (SenderHears n now iv)
    then show ?thesis using sender_acts_inv[OF d sender_on_packet_ok[OF S s r up]] d ev
      by (simp add: sound_event_def split: option.split)
  next
    case (SenderPolls now iv)
    with sender_acts_inv[OF d sender_poll_ok[OF s]] ev show ?thesis by (simp add: sound_event_def)
  next
    case SenderAsksProof
    with sender_acts_inv[OF d cache_request_ok[OF s]] show ?thesis by simp
  next
    case (SenderCancels iv)
    with sender_acts_inv[OF d sender_cancel_ok[OF s]] show ?thesis by simp
  next
    case (ReceiverHears n now iv)
    then show ?thesis using receiver_acts_inv[OF d receiver_on_packet_ok[OF S r dn]] d ev
      by (simp add: sound_event_def split: option.split)
  next
    case (ReceiverPolls now iv)
    with receiver_acts_inv[OF d receiver_poll_ok[OF S r]] ev show ?thesis by (simp add: sound_event_def)
  next
    case (ReceiverCancels iv)
    obtain r' p where c: "receiver_cancel k ?r iv = (r', p)" by fastforce
    have "receiver_step_ok k g ?L b data metadata ?r (r', as_list p)"
      using receiver_cancel_ok[OF r, of k iv] c by (simp add: as_list_def)
    from receiver_acts_inv[OF d this] ReceiverCancels c show ?thesis by simp
  qed
qed

interpretation deliveries: guarded_ops "delivery_step k sha bz2" "\<lambda>d. delivery_inv k sha bz2 a b data metadata g limit d"
  for k sha bz2 a b data metadata g limit
  by unfold_locales (simp add: delivery_step_def delivery_act_inv)

text \<open>
  C3: Whatever the network does with the packets of sender and receiver, and whenever either is polled or
  canceled, a receiver hands over nothing but the data and metadata the sender was given, and a sender
  is done only when its receiver has them.
\<close>

theorem resource_delivered:
  assumes "cipher_laws k" "bz2_laws enc bz2" "paired c a b \<or> paired c b a" "length iv = IV_LEN"
    and "resource_body data metadata = Inr body" "length body < 2 ^ 62"
    and s: "s = prepare k sha enc a body random iv request_id (metadata \<noteq> None)"
    and "\<not> collides (og_token (sn_out s)) (og_part_size (sn_out s)) (og_by_hash (sn_out s))"
    and r: "rv_link r = b" "rv_inc r = None" "rv_data r = None" "rv_proved r = None"
    and d: "d = delivery_run k sha bz2 s r evs"
  shows "(rv_data (dl_receiver d) = None \<or> rv_data (dl_receiver d) = Some data \<and> rv_metadata (dl_receiver d) = metadata)
    \<and> (sn_done (dl_sender d) \<longrightarrow> rv_data (dl_receiver d) = Some data)"
proof -
  let ?g = "sn_out s" and ?limit = "sn_hash_window s"
  note P = prepared_offers[OF assms(1,4,6,5,2) s assms(8)]
  have S: "setting k sha bz2 a b data metadata ?g" using P(1) assms(1,3) by (auto simp: setting_def paired_def)
  have "delivery_inv k sha bz2 a b data metadata ?g ?limit \<lparr>dl_sender = s, dl_receiver = r, dl_down = [], dl_up = []\<rparr>"
    using S P r by (simp add: delivery_inv_def receiver_ok_def sender_inv_def)
  then have I: "delivery_inv k sha bz2 a b data metadata ?g ?limit d"
    unfolding d delivery_run_def by (rule deliveries.run_inv)
  let ?r = "dl_receiver d"
  have ok: "receiver_ok ?g (clamp 1 HASHMAP_MAX_PARTS ?limit) b data metadata ?r" "sn_done (dl_sender d) \<Longrightarrow> rv_proved ?r \<noteq> None"
    using I by (auto simp: delivery_inv_def sender_inv_def)
  show ?thesis
  proof (cases "rv_inc ?r")
    case None
    then show ?thesis using ok by (auto simp: receiver_ok_def)
  next
    case (Some inc)
    then show ?thesis using ok by (auto simp: receiver_ok_def fetching_def fetched_def)
  qed
qed


text \<open>A pair of links that carries the two bytes of the example in one part.\<close>

definition sample_near :: link where "sample_near = sample_link (replicate 32 1) (replicate 32 2)"
definition sample_far :: link where "sample_far = sample_link (replicate 32 2) (replicate 32 1)"

definition sample_sender :: sender where
  "sample_sender = prepare sample_ciphers checksum None sample_near [7, 8] 9 (replicate 16 9) None (None \<noteq> (None :: bytes option))"

lemma sample_near_far: "paired sample_dh_curves sample_near sample_far"
  by (simp add: paired_def sample_near_def sample_far_def sample_link_def key_lens sample_dh_curves_def sample_curves_def)

lemma one_chunk:
  assumes "g = from_token sha data token random compressed part_size" "token \<noteq> []" "length token \<le> og_part_size g"
  shows "og_parts g = 1" "\<not> collides (og_token g) (og_part_size g) (og_by_hash g)"
proof -
  note F = from_token_fields[OF assms(1)]
  have "0 < length (chunks (og_part_size g) token)" "\<not> 1 < length (chunks (og_part_size g) token)"
    using chunks_index[OF F(2), of 0 token] chunks_index[OF F(2), of 1 token] assms(2,3) by simp_all
  then have "length (chunks (og_part_size g) token) = 1" by linarith
  then show one: "og_parts g = 1" by (simp add: F(3) hash_parts_def)
  have "length (og_by_hash g) = 1" using one by (simp add: F(4) sort_map_def)
  then have "tl (og_by_hash g) = []" by (cases "og_by_hash g") simp_all
  then show "\<not> collides (og_token g) (og_part_size g) (og_by_hash g)" by (simp add: collides_def)
qed

lemma sample_sender_offers:
  "og_parts (sn_out sample_sender) = 1"
  "\<not> collides (og_token (sn_out sample_sender)) (og_part_size (sn_out sample_sender)) (og_by_hash (sn_out sample_sender))"
proof -
  let ?transfer = "to_be 4 (9 :: u32) @ [7, 8]"
  let ?token = "link_seal_owned sample_ciphers sample_near ?transfer (replicate 16 9)"
  have o: "sn_out sample_sender = from_token checksum [7, 8] ?token 9 False (max (unat (ln_mtu sample_near) - (HEADER_MAX_LEN + 1)) 1)"
    by (simp add: sample_sender_def prepare_def from_outgoing_def sealed_outgoing_def Let_def)
  have "?token = token_encrypt sample_ciphers (ln_keys sample_near) ?transfer (replicate 16 9)"
    by (simp add: link_seal_owned_def encrypt_owned_def token_encrypt_def)
  then have l: "length ?token = 64"
    using token_shape(2)[OF sample_ciphers_laws, of "replicate 16 9" "ln_keys sample_near" ?transfer] by (simp add: token_lens)
  then have t: "?token \<noteq> []" by (metis list.size(3) zero_neq_numeral)
  have "og_part_size (sn_out sample_sender) = 464"
    unfolding o by (simp add: from_token_def Let_def sample_near_def sample_link_def HEADER_MAX_LEN_def split: prod.split)
  then show "og_parts (sn_out sample_sender) = 1"
    "\<not> collides (og_token (sn_out sample_sender)) (og_part_size (sn_out sample_sender)) (og_by_hash (sn_out sample_sender))"
    using one_chunk[OF o t] l by simp_all
qed

lemma fresh_receiver:
  "rv_link (new_receiver l) = l" "rv_inc (new_receiver l) = None" "rv_data (new_receiver l) = None" "rv_proved (new_receiver l) = None"
  by (simp_all add: new_receiver_def with_request_window_def with_limits_def)

theorem resource_delivered_witness:
  "let iv = replicate 16 3;
       d = delivery_run sample_ciphers checksum None sample_sender (new_receiver sample_far)
         [SenderAdvertises 5 iv, SenderPolls 900000 iv, ReceiverHears 1 900010 iv, ReceiverHears 0 900020 iv, SenderHears 0 900030 iv,
          ReceiverPolls 990000 iv, SenderHears 0 990010 iv, ReceiverHears 2 990020 iv, ReceiverHears 2 990030 iv, SenderHears 1 990040 iv]
   in (rv_data (dl_receiver d) = None \<or> rv_data (dl_receiver d) = Some [7, 8] \<and> rv_metadata (dl_receiver d) = None)
     \<and> (sn_done (dl_sender d) \<longrightarrow> rv_data (dl_receiver d) = Some [7, 8])"
  unfolding Let_def
  by (rule resource_delivered[OF sample_ciphers_laws _ disjI1[OF sample_near_far] _ _ _ sample_sender_def sample_sender_offers(2)
        fresh_receiver HOL.refl])
    (simp_all add: bz2_laws_def IV_LEN_def resource_body_def)

end
