(* ===== verification/ResourceClosing.thy ===== *)
theory ResourceClosing
  imports ResourceDelivery
begin

text \<open>
  How a transfer between the two state machines ends: a resource of one part after four packets, a transfer whose
  peer has gone silent after a bounded number of timeouts.
\<close>

section \<open>One part\<close>

lemma offer_taken:
  assumes g: "sender_ok sha g" and n: "og_parts g \<le> n"
  shows "\<exists>s. incoming_with_max_parts (advertisement_with_hash_limit g limit) n = Inr s"
proof -
  let ?L = "clamp 1 HASHMAP_MAX_PARTS limit"
  have L: "0 < ?L" by (simp add: clamp_def resource_consts)
  have b: "0 < og_parts g" "og_parts g \<le> length (og_token g)" "length (og_token g) < 2 ^ 63"
    using parts_positive[OF g] parts_bounds[OF g] g unfolding sender_ok_def by blast+
  show ?thesis
    using b L n by (auto simp: incoming_with_max_parts_def advertisement_with_hash_limit_def Let_def unat_of_nat resource_consts)
qed

lemma one_request:
  assumes r: "receives g L s" and one: "og_parts g = 1" and none: "ic_received s = 0"
  shows "next_request s = ([og_map_hashes g ! 0], False)"
proof -
  have I: "offered g s" "mapped g L s" "counted_parts g s" using r by (simp_all add: receives_def)
  have h: "ic_have s = [False]"
    using I(3) one none by (cases "ic_have s") (auto simp: counted_parts_def split: if_splits)
  have "ic_hashmap_height s = 1" using I(2) one by (simp add: mapped_def)
  then have "ic_hashmap s ! 0 = Some (og_map_hashes g ! 0)" using known_hash[OF I(2), of 0] one by simp
  moreover have "window_range s = [0]"
    using I(1,3) one h by (simp add: window_range_def offered_def counted_parts_def min_def upt_rec)
  ultimately show ?thesis by (simp add: next_request_def h)
qed

lemma one_answer:
  assumes g: "sender_ok sha g" and one: "og_parts g = 1" and s: "sn_out s = g" "sn_sent s = [False]" "sn_unsent s = 1"
    and q: "rq_wanted q = [og_map_hashes g ! 0]" "\<not> rq_exhausted q"
  shows "snd (answer_request k s q hash now iv) = [framed_packet (sn_link s) CTX_RESOURCE (part_at g 0)]"
    "sn_done (fst (answer_request k s q hash now iv)) = sn_done s"
    "sn_canceled (fst (answer_request k s q hash now iv)) = sn_canceled s"
    "sn_out (fst (answer_request k s q hash now iv)) = g"
proof -
  have i: "indices_of g (og_map_hashes g ! 0) = [0]"
    using g one indices_of_spec[of g "og_map_hashes g ! 0"] by (simp add: sender_ok_def)
  then have idx: "requested_indices g q = [0]" "copies_of g 0 = [0]"
    using one by (simp_all add: requested_indices_def q(1) first_of_def map_filter_simps copies_of_def get_at_def)
  have n: "sn_out (note_request s hash now) = g" "sn_link (note_request s hash now) = sn_link s"
    "sn_done (note_request s hash now) = sn_done s" "sn_canceled (note_request s hash now) = sn_canceled s"
    "sn_sent (note_request s hash now) = [False]" "sn_unsent (note_request s hash now) = 1"
    using s by (simp_all add: note_request_def remember_request_def Let_def)
  have p: "og_part g 0 = Some (part_at g 0)" using og_part_served[OF g] one by simp
  note d = answer_request_def s(1) idx n p q(2) note_answered_def Let_def
  show "snd (answer_request k s q hash now iv) = [framed_packet (sn_link s) CTX_RESOURCE (part_at g 0)]"
    "sn_done (fst (answer_request k s q hash now iv)) = sn_done s"
    "sn_canceled (fst (answer_request k s q hash now iv)) = sn_canceled s"
    "sn_out (fst (answer_request k s q hash now iv)) = g"
    by (simp_all add: d)
qed

lemma parse_proof_packet: "parse_proof (to_be 32 h @ to_be 32 p) = Some (h, p)"
  by (simp add: parse_proof_def)

lemma one_part_received:
  assumes S: "setting k sha bz2 a b data metadata g" and one: "og_parts g = 1"
    and r: "rv_inc r = Some s" "fetching g L r s" "rv_link r = b" "\<not> dead r" "ic_received s = 0"
    and rec: "\<exists>x. recover_all k sha bz2 r s (og_token g) = Inr x"
    and out: "out = receiver_on_packet k sha bz2 r (framed_packet a CTX_RESOURCE (part_at g 0)) now iv"
  shows "snd out = [resource_proof_packet b (to_be 32 (og_hash g)) (to_be 32 (og_expected_proof g))]" "rv_data (fst out) = Some data"
    "rv_metadata (fst out) = metadata"
proof -
  have rc: "receives g L s" and np: "rv_proved r = None" using r(2) by (simp_all add: fetching_def)
  note g = settingD(3)[OF S]
  obtain s' taken where acc: "accept_part sha s (part_at g 0) = (s', taken)" by fastforce
  note A = accept_part_honest[OF g rc _ acc]
  have I: "offered g s" "mapped g L s" "counted_parts g s" using rc by (simp_all add: receives_def)
  have h: "ic_have s = [False]"
    using I(3) one r(5) by (cases "ic_have s") (auto simp: counted_parts_def split: if_splits)
  have "ic_hashmap_height s = 1" using I(2) one by (simp add: mapped_def)
  then have "ic_hashmap s ! 0 = Some (og_map_hashes g ! 0)" using known_hash[OF I(2), of 0] one by simp
  moreover have "window_range s = [0]"
    using I(1,3) one h by (simp add: window_range_def offered_def counted_parts_def min_def upt_rec)
  ultimately have taken: taken using A(8) one h by simp
  have rs: "receives g L s'" using A(1) one by simp
  have c: "is_complete s'" using complete_iff(1)[OF g rs] A(5) taken one r(5) by simp
  have md: "ic_has_metadata s' = ic_has_metadata s" using accept_part_metadata[of sha s "part_at g 0"] acc by simp
  have f': "ic_hash s' = ic_hash s" "ic_random_hash s' = ic_random_hash s" "ic_compressed s' = ic_compressed s"
    using I(1) rs A(7) one by (simp_all add: receives_def offered_def)
  let ?p = "framed_packet a CTX_RESOURCE (part_at g 0)"
  let ?r = "r\<lparr>rv_last_activity := now, rv_retries_left := MAX_RETRIES,
      rv_window := window_on_part (rv_window r) now (tm_rtt (rv_timing r)) (encoded_len ?p) (length (part_at g 0)), rv_inc := Some s',
      rv_outstanding := rv_outstanding r - 1\<rparr>"
  have eq: "out = receiver_finish k sha bz2 ?r iv"
    using r(1,4) np acc taken c
    by (simp add: out receiver_on_packet_def dead_def resource_contexts on_part_def received_all_def Let_def)
  have fe: "fetching g L ?r s'" using r(2) rs f'(3) md by (simp add: fetching_def)
  have "recover_all k sha bz2 ?r s' (og_token g) = recover_all k sha bz2 r s (og_token g)"
    by (rule recover_all_cong) (simp_all add: f' md)
  then obtain x where x: "recover_all k sha bz2 ?r s' (og_token g) = Inr x" using rec by auto
  have "receiver_finish k sha bz2 ?r iv = (?r\<lparr>rv_inc := Some (s'\<lparr>ic_token := []\<rparr>), rv_data := Some data, rv_metadata := metadata,
          rv_proved := Some (og_hash g, og_expected_proof g)\<rparr>,
        [resource_proof_packet b (to_be 32 (og_hash g)) (to_be 32 (og_expected_proof g))])"
    using finish_result[OF S _ fe _ _ c, of iv] r(3,4) x by (simp add: dead_def)
  then show "snd out = [resource_proof_packet b (to_be 32 (og_hash g)) (to_be 32 (og_expected_proof g))]" "rv_data (fst out) = Some data"
    "rv_metadata (fst out) = metadata" by (simp_all add: eq)
qed


text \<open>What the receiver can decode of the sender's encoding.\<close>

definition decodes :: "encoder \<Rightarrow> bz2 \<Rightarrow> bytes \<Rightarrow> nat \<Rightarrow> bool" where
  "decodes enc bz2 body cap =
    (case enc of None \<Rightarrow> True | Some compress \<Rightarrow> (case bz2 of None \<Rightarrow> False | Some bunzip \<Rightarrow> bunzip (compress body) cap = Inr body))"

lemma prepared_recovers:
  assumes "cipher_laws k" "length iv = IV_LEN" "length body < 2 ^ 62" "resource_body data metadata = Inr body"
    and s: "s = prepare k sha enc a body random iv request_id (metadata \<noteq> None)"
    and c: "\<not> collides (og_token (sn_out s)) (og_part_size (sn_out s)) (og_by_hash (sn_out s))"
    and dec: "decodes enc bz2 body (rv_max_decompressed r)" and keys: "ln_keys (rv_link r) = ln_keys a"
    and i: "ic_hash i = og_hash (sn_out s)" "ic_random_hash i = to_be 4 (og_random_hash (sn_out s))"
      "ic_compressed i = og_compressed (sn_out s)" "ic_has_metadata i = og_has_metadata (sn_out s)"
  shows "\<exists>x. recover_all k sha bz2 r i (og_token (sn_out s)) = Inr x"
proof -
  obtain transfer where P:
    "og_hash (sn_out s) = resource_hash sha body (to_be 4 (og_random_hash (sn_out s)))"
    "og_has_metadata (sn_out s) = (metadata \<noteq> None)"
    "og_token (sn_out s) = link_seal_owned k a transfer iv" "4 \<le> length transfer"
    "if og_compressed (sn_out s) then \<exists>compress. enc = Some compress \<and> drop 4 transfer = compress body else drop 4 transfer = body"
    by (rule prepared[OF assms(1-3) s c]) blast
  have opened: "link_open_owned k (rv_link r) (og_token (sn_out s)) = Inr transfer"
    using token_opens(2)[OF assms(1,2)] by (simp add: link_open_owned_def link_seal_owned_def P(3) keys)
  have d: "data_from_content transfer = Inr (drop 4 transfer)"
    using P(4) by (simp add: data_from_content_def slice_get_def RANDOM_HASH_LEN_def)
  have "recover_owned sha bz2 i transfer (rv_max_decompressed r) = Inr body"
  proof (cases "og_compressed (sn_out s)")
    case True
    then have "inflate bz2 (drop 4 transfer) (rv_max_decompressed r) = Inr body"
      using P(5) dec by (auto simp: decodes_def inflate_def split: option.splits)
    then show ?thesis using True i P(1) by (simp add: recover_owned_def d verified_data_def verify_data_def)
  next
    case False
    then show ?thesis using P(1,5) i by (simp add: recover_owned_def d verified_data_def verify_data_def RANDOM_HASH_LEN_def)
  qed
  moreover have "\<exists>m rest. split_metadata body = Inr (m, rest)" if "metadata \<noteq> None"
    using that assms(4) metadata_roundtrip[of _ _ data]
    by (cases "pack_metadata (the metadata)") (auto simp: resource_body_def)
  ultimately show ?thesis
    using i(4) P(2) by (auto simp: recover_all_def opened Let_def)
qed

text \<open>The first packet: a receiver at rest takes the offer and asks for the part.\<close>

lemma offer_admitted:
  assumes S: "setting k sha bz2 a b data metadata g" and one: "og_parts g = 1" and c: "og_compressed g \<longrightarrow> bz2 \<noteq> None"
  obtains s q where "admit_offer bz2 (new_receiver b) (advertisement_with_hash_limit g limit) = Inr s"
    "offered_request_id (advertisement_with_hash_limit g limit) = Some q"
    "fetching g (clamp 1 HASHMAP_MAX_PARTS limit) (new_receiver b) s" "ic_received s = 0"
proof -
  let ?adv = "advertisement_with_hash_limit g limit" and ?r = "new_receiver b"
  note O = offered_advertisement[OF S HOL.refl, of limit] and g = settingD(3)[OF S]
  have nr: "rv_max_parts ?r = DEFAULT_MAX_PARTS" "rv_max_data_size ?r = None" "rv_accept ?r = None" "rv_data ?r = None" "rv_proved ?r = None"
    by (simp_all add: new_receiver_def with_request_window_def with_limits_def DEFAULT_MAX_PARTS_def)
  have "og_parts g \<le> DEFAULT_MAX_PARTS" using one by (simp add: DEFAULT_MAX_PARTS_def)
  from offer_taken[OF g this] obtain s0 where s0: "incoming_with_max_parts ?adv DEFAULT_MAX_PARTS = Inr s0" by blast
  let ?s = "set_window s0 (rv_request_window ?r)"
  note T = start_ok[OF g s0] and W = window_receives[OF start_ok(1)[OF g s0], of "rv_request_window ?r"]
  have z: "ic_received s0 = 0" "ic_compressed s0 = (adv_flags ?adv AND FLAG_COMPRESSED \<noteq> 0)"
    using s0 by (auto simp: incoming_with_max_parts_def Let_def split: if_splits)
  have "admit_offer bz2 ?r ?adv = Inr ?s" using nr O(6) c T(2) z(2) s0 by (auto simp: admit_offer_def with_window_def)
  moreover have "\<exists>q. offered_request_id ?adv = Some q"
    by (cases "og_request_id g")
      (simp_all add: offered_request_id_def advertisement_with_hash_limit_def Let_def resource_flags)
  moreover have "fetching g (clamp 1 HASHMAP_MAX_PARTS limit) ?r ?s"
    using W T(2) nr incoming_metadata[OF s0] O(4,5) by (simp add: fetching_def)
  ultimately show thesis using that z(1) by (auto simp: set_window_def)
qed


lemma offer_heard:
  assumes S: "setting k sha bz2 a b data metadata g" and one: "og_parts g = 1" and c: "og_compressed g \<longrightarrow> bz2 \<noteq> None"
    and iv: "length iv = IV_LEN"
    and p: "p = sealed_packet k a CTX_RESOURCE_ADV (pack_advertisement (advertisement_with_hash_limit g limit)) iv"
  obtains r s where "receiver_on_packet k sha bz2 (new_receiver b) p now iv'
      = (r, [sealed_packet k b CTX_RESOURCE_REQ (build_request (og_hash g) [og_map_hashes g ! 0]) iv'])"
    "rv_inc r = Some s" "fetching g (clamp 1 HASHMAP_MAX_PARTS limit) r s" "rv_link r = b" "\<not> dead r" "ic_received s = 0"
    "rv_max_decompressed r = DEFAULT_MAX_DECOMPRESSED_SIZE"
proof -
  let ?L = "clamp 1 HASHMAP_MAX_PARTS limit" and ?adv = "advertisement_with_hash_limit g limit" and ?r = "new_receiver b"
  note O = offered_advertisement[OF S HOL.refl, of limit]
  obtain s q where A: "admit_offer bz2 ?r ?adv = Inr s" "offered_request_id ?adv = Some q" "fetching g ?L ?r s" "ic_received s = 0"
    by (rule offer_admitted[OF S one c])
  have nr: "rv_link ?r = b" "rv_inc ?r = None" "rv_data ?r = None" "rv_proved ?r = None" "rv_failure ?r = None" "\<not> rv_canceled ?r"
    "rv_max_decompressed ?r = DEFAULT_MAX_DECOMPRESSED_SIZE"
    by (simp_all add: new_receiver_def with_request_window_def with_limits_def)
  have dec: "and_then (link_decrypt k b p) parse_advertisement = Inr ?adv"
    by (simp add: p opens_at_receiver[OF S iv] O(1))
  let ?r1 = "?r\<lparr>rv_inc := Some s, rv_outstanding := 0, rv_retries_left := MAX_RETRIES, rv_waiting_for_hmu := False,
      rv_response_request_id := q\<rparr>"
  have heard: "receiver_on_packet k sha bz2 ?r p now iv' = request_more k ?r1 now iv'"
    using nr A(1,2) by (simp add: receiver_on_packet_def p on_advertisement_def dec[unfolded p] O(2))
  let ?s = "set_window s (window_size (rv_window ?r))"
  have rs: "receives g ?L s" using A(3) by (simp add: fetching_def)
  note W = window_receives[OF rs, of "window_size (rv_window ?r)"]
  have z: "ic_received ?s = 0" using A(4) by (simp add: set_window_def)
  have h: "ic_hash ?s = og_hash g" using W(1) by (simp add: receives_def offered_def)
  let ?p = "sealed_packet k b CTX_RESOURCE_REQ (build_request (og_hash g) [og_map_hashes g ! 0]) iv'"
  let ?r2 = "?r1\<lparr>rv_inc := Some ?s, rv_outstanding := 1, rv_waiting_for_hmu := False, rv_last_activity := now,
      rv_window := window_on_request (rv_window ?r) now (encoded_len ?p)\<rparr>"
  have "request_more k ?r1 now iv' = (?r2, [?p])"
    using nr by (simp add: request_more_def one_request[OF W(1) one z] request_with_def h Let_def)
  moreover have "fetching g ?L ?r2 ?s" using A(3) W nr by (simp add: fetching_def)
  ultimately show thesis using that[of ?r2 ?s] nr z by (simp add: heard dead_def)
qed

lemma request_heard:
  assumes S: "setting k sha bz2 a b data metadata g" and one: "og_parts g = 1" and iv: "length iv = IV_LEN"
    and s: "sn_out s = g" "sn_link s = a" "sn_sent s = [False]" "sn_unsent s = 1" "\<not> sn_done s" "\<not> sn_canceled s" "sn_served_requests s = []"
    and p: "p = sealed_packet k b CTX_RESOURCE_REQ (build_request (og_hash g) [og_map_hashes g ! 0]) iv"
    and out: "out = sender_on_packet k sha s p now iv'"
  shows "snd out = [framed_packet a CTX_RESOURCE (part_at g 0)]" "\<not> sn_done (fst out)" "\<not> sn_canceled (fst out)" "sn_out (fst out) = g"
proof -
  let ?q = "\<lparr>rq_exhausted = False, rq_last_map_hash = None, rq_resource_hash = og_hash g, rq_wanted = [og_map_hashes g ! 0]\<rparr>"
  have "out = answer_request k s ?q (packet_hash sha p) now iv'"
    using s by (simp add: out sender_on_packet_def p opens_at_sender[OF S iv] request_written)
  then show "snd out = [framed_packet a CTX_RESOURCE (part_at g 0)]" "\<not> sn_done (fst out)" "\<not> sn_canceled (fst out)" "sn_out (fst out) = g"
    using one_answer[OF settingD(3)[OF S] one s(1,3,4), of ?q] s by simp_all
qed

lemma proof_heard:
  assumes "sn_out s = g" "\<not> sn_done s" "\<not> sn_canceled s"
  shows "sender_on_packet k sha s (resource_proof_packet b (to_be 32 (og_hash g)) (to_be 32 (og_expected_proof g))) now iv
    = (s\<lparr>sn_done := True\<rparr>, [])"
proof -
  have "pk_payload (resource_proof_packet b h pf) = h @ pf" for h pf by (simp add: resource_proof_packet_def)
  then show ?thesis using assms by (simp add: sender_on_packet_def parse_proof_packet resource_contexts)
qed


lemma prepared_idle:
  assumes "s = prepare k sha enc a body random iv request_id hm"
  shows "sn_sent s = replicate (og_parts (sn_out s)) False" "sn_unsent s = og_parts (sn_out s)" "sn_served_requests s = []"
    "\<not> sn_canceled s"
  by (simp_all add: assms prepare_def from_outgoing_def Let_def)

definition one_part_run :: "nat \<Rightarrow> bytes \<Rightarrow> delivery_event list" where
  "one_part_run now iv = [SenderAdvertises now iv, ReceiverHears 0 now iv, SenderHears 0 now iv, ReceiverHears 1 now iv, SenderHears 1 now iv]"

text \<open>
  C7: Once the network carries the offer, the request, the part and the proof of a resource of one
  part, a fresh receiver has its data and metadata and the sender is done.
\<close>

theorem small_resource_completes:
  assumes k: "cipher_laws k" and bz2: "bz2_laws enc bz2" and keys: "paired c a b \<or> paired c b a" and iv: "length iv = IV_LEN"
    and body: "resource_body data metadata = Inr body" "length body < 2 ^ 62" "decodes enc bz2 body DEFAULT_MAX_DECOMPRESSED_SIZE"
    and s: "s = prepare k sha enc a body random iv request_id (metadata \<noteq> None)"
    and c: "\<not> collides (og_token (sn_out s)) (og_part_size (sn_out s)) (og_by_hash (sn_out s))"
    and one: "og_parts (sn_out s) = 1" and iv': "length iv' = IV_LEN"
    and d: "d = delivery_run k sha bz2 s (new_receiver b) (one_part_run now iv')"
  shows "sn_done (dl_sender d) \<and> rv_data (dl_receiver d) = Some data \<and> rv_metadata (dl_receiver d) = metadata"
proof -
  let ?g = "sn_out s"
  note P = prepared_offers[OF k iv body(2,1) bz2 s c] and N = prepared_idle[OF s]
  have S: "setting k sha bz2 a b data metadata ?g" using P(1) k keys by (auto simp: setting_def paired_def)
  have cz: "og_compressed ?g \<longrightarrow> bz2 \<noteq> None"
    by (rule prepared[OF k iv body(2) s c]) (use body(3) in \<open>auto simp: decodes_def split: if_splits option.splits\<close>)
  let ?s1 = "s\<lparr>sn_advertised_at := Some now\<rparr>"
  let ?adv = "sealed_packet k a CTX_RESOURCE_ADV (pack_advertisement (advertisement_with_hash_limit ?g (sn_hash_window s))) iv'"
  let ?req = "sealed_packet k b CTX_RESOURCE_REQ (build_request (og_hash ?g) [og_map_hashes ?g ! 0]) iv'"
  let ?part = "framed_packet a CTX_RESOURCE (part_at ?g 0)"
  let ?pf = "resource_proof_packet b (to_be 32 (og_hash ?g)) (to_be 32 (og_expected_proof ?g))"
  obtain r i where r: "receiver_on_packet k sha bz2 (new_receiver b) ?adv now iv' = (r, [?req])"
    "rv_inc r = Some i" "fetching ?g (clamp 1 HASHMAP_MAX_PARTS (sn_hash_window s)) r i" "rv_link r = b" "\<not> dead r" "ic_received i = 0"
    "rv_max_decompressed r = DEFAULT_MAX_DECOMPRESSED_SIZE"
    by (rule offer_heard[OF S one cz iv' HOL.refl])
  obtain s2 ps where s2: "sender_on_packet k sha ?s1 ?req now iv' = (s2, ps)" by fastforce
  note Q = request_heard[OF S one iv' _ _ _ _ _ _ _ HOL.refl s2[symmetric]]
  have Q: "ps = [?part]" "\<not> sn_done s2" "\<not> sn_canceled s2" "sn_out s2 = ?g" using Q P(2,3) N one by simp_all
  have i: "ic_hash i = og_hash ?g" "ic_random_hash i = to_be 4 (og_random_hash ?g)" "ic_compressed i = og_compressed ?g"
    "ic_has_metadata i = og_has_metadata ?g"
    using r(3) by (simp_all add: fetching_def receives_def offered_def)
  have rec: "\<exists>x. recover_all k sha bz2 r i (og_token ?g) = Inr x"
    using prepared_recovers[OF k iv body(2,1) s c _ _ i, of bz2 r] body(3) r(4,7) settingD(5)[OF S] by simp
  obtain r2 qs where r2: "receiver_on_packet k sha bz2 r ?part now iv' = (r2, qs)" by fastforce
  note R = one_part_received[OF S one r(2-6) rec r2[symmetric], unfolded fst_conv snd_conv]
  have "d = \<lparr>dl_sender = s2\<lparr>sn_done := True\<rparr>, dl_receiver = r2, dl_down = [?adv, ?part], dl_up = [?req, ?pf]\<rparr>"
    using r(1) s2 Q(1) r2 R(1) proof_heard[OF Q(4,2,3)] iv' P(2)
    by (simp add: d delivery_run_def one_part_run_def delivery_step_def sound_event_def sender_acts_def receiver_acts_def
        sender_advertise_def sender_advertisement_def get_at_def)
  then show ?thesis using R(2,3) by simp
qed


theorem small_resource_completes_witness:
  "let d = delivery_run sample_ciphers checksum None sample_sender (new_receiver sample_far) (one_part_run 40 (replicate 16 3))
   in sn_done (dl_sender d) \<and> rv_data (dl_receiver d) = Some [7, 8] \<and> rv_metadata (dl_receiver d) = None"
  unfolding Let_def
  by (rule small_resource_completes[OF sample_ciphers_laws _ disjI1[OF sample_near_far] _ _ _ _ sample_sender_def sample_sender_offers(2,1)
        _ HOL.refl, where ?bz2.0 = None])
    (simp_all add: bz2_laws_def IV_LEN_def resource_body_def decodes_def)

section \<open>Silence\<close>

text \<open>A poll that comes some time after its deadline, with no packet in between.\<close>

definition receiver_left_alone :: "ciphers \<Rightarrow> receiver \<Rightarrow> nat \<times> bytes \<Rightarrow> receiver" where
  "receiver_left_alone k r late =
    (case receiver_deadline r of None \<Rightarrow> r | Some t \<Rightarrow> fst (receiver_poll k r (t + fst late) (snd late)))"

definition sender_left_alone :: "ciphers \<Rightarrow> sha256 \<Rightarrow> sender \<Rightarrow> nat \<times> bytes \<Rightarrow> sender" where
  "sender_left_alone k sha s late =
    (case sender_deadline s of None \<Rightarrow> s | Some t \<Rightarrow> fst (sender_poll k sha s (t + fst late) (snd late)))"

lemma request_more_keeps:
  "rv_failure (fst (request_more k r now iv)) = rv_failure r" "rv_canceled (fst (request_more k r now iv)) = rv_canceled r"
  "rv_proved (fst (request_more k r now iv)) = rv_proved r" "rv_retries_left (fst (request_more k r now iv)) = rv_retries_left r"
  "rv_inc (fst (request_more k r now iv)) = None \<longleftrightarrow> rv_inc r = None"
  by (simp_all add: request_more_def Let_def split: option.split prod.split)

definition waits_for_parts :: "receiver \<Rightarrow> bool" where
  "waits_for_parts r \<longleftrightarrow> \<not> dead r \<and> rv_proved r = None \<and> rv_inc r \<noteq> None"

lemma waiting_deadline: "receiver_deadline r \<noteq> None \<longleftrightarrow> waits_for_parts r"
  by (cases "rv_proved r"; cases "rv_inc r") (simp_all add: receiver_deadline_def waits_for_parts_def dead_def Let_def)

lemma silent_retry:
  assumes w: "waits_for_parts r" and n: "0 < rv_retries_left r"
  shows "waits_for_parts (receiver_left_alone k r late)"
    "rv_retries_left (receiver_left_alone k r late) = rv_retries_left r - 1"
proof -
  obtain t where t: "receiver_deadline r = Some t" using w waiting_deadline by blast
  let ?r = "r\<lparr>rv_retries_left := rv_retries_left r - 1, rv_window := window_on_timeout (rv_window r), rv_waiting_for_hmu := False\<rparr>"
  have eq: "receiver_left_alone k r late = fst (request_more k ?r (t + fst late) (snd late))"
    using n by (simp add: receiver_left_alone_def t receiver_poll_def)
  note K = request_more_keeps[of k ?r "t + fst late" "snd late"]
  show "waits_for_parts (receiver_left_alone k r late)"
    unfolding eq waits_for_parts_def dead_def K using w by (simp add: waits_for_parts_def dead_def)
  show "rv_retries_left (receiver_left_alone k r late) = rv_retries_left r - 1" unfolding eq K by simp
qed

lemma silent_give_up:
  assumes w: "waits_for_parts r" and n: "rv_retries_left r = 0"
  shows "rv_failure (receiver_left_alone k r late) = Some ResourceTimedOut" "rv_inc (receiver_left_alone k r late) = None"
proof -
  obtain t s where t: "receiver_deadline r = Some t" "rv_inc r = Some s"
    using w waiting_deadline unfolding waits_for_parts_def by blast
  show "rv_failure (receiver_left_alone k r late) = Some ResourceTimedOut" "rv_inc (receiver_left_alone k r late) = None"
    using n by (simp_all add: receiver_left_alone_def t receiver_poll_def)
qed

lemma left_alone_ended: "\<not> waits_for_parts r \<Longrightarrow> foldl (receiver_left_alone k) r lates = r"
  by (induction lates) (auto simp: receiver_left_alone_def waiting_deadline[symmetric] split: option.split)

text \<open>
  C8: A receiver that waits for parts of a sender gone silent polls once for each retry it has left and
  then gives up: the transfer has failed as timed out, and it asks for nothing any more.
\<close>

theorem silent_receiver_ends:
  assumes "rv_inc r \<noteq> None" "rv_proved r = None" "rv_failure r = None" "\<not> rv_canceled r"
    and "r' = foldl (receiver_left_alone k) r lates"
  shows "if length lates \<le> rv_retries_left r then receiver_deadline r' \<noteq> None
    else rv_failure r' = Some ResourceTimedOut \<and> rv_inc r' = None \<and> receiver_deadline r' = None"
proof -
  have "waits_for_parts r" using assms(1-4) by (simp add: waits_for_parts_def dead_def)
  then show ?thesis unfolding assms(5)
  proof (induction lates arbitrary: r)
    case Nil
    then show ?case unfolding waiting_deadline[symmetric] by simp
  next
    case (Cons late lates)
    show ?case
    proof (cases "rv_retries_left r")
      case 0
      note G = silent_give_up[OF Cons.prems 0, of k late]
      then have "\<not> waits_for_parts (receiver_left_alone k r late)" by (simp add: waits_for_parts_def)
      from left_alone_ended[OF this] G 0 waiting_deadline[of "receiver_left_alone k r late"] this show ?thesis by simp
    next
      case (Suc n)
      with silent_retry[OF Cons.prems, of k late] Cons.IH[of "receiver_left_alone k r late"] show ?thesis by simp
    qed
  qed
qed


theorem silent_receiver_ends_witness:
  "rv_failure (foldl (receiver_left_alone sample_ciphers) (new_receiver sample_far\<lparr>rv_inc := Some sample_incoming, rv_retries_left := 2\<rparr>)
     [(0, replicate 16 3), (700, replicate 16 3), (20, replicate 16 3)]) = Some ResourceTimedOut"
  using silent_receiver_ends[of "new_receiver sample_far\<lparr>rv_inc := Some sample_incoming, rv_retries_left := 2\<rparr>" _ sample_ciphers
      "[(0, replicate 16 3), (700, replicate 16 3), (20, replicate 16 3)]"]
  by (simp add: new_receiver_def with_request_window_def with_limits_def)

text \<open>How many polls a sender still has before it cancels.\<close>

definition patience :: "sender \<Rightarrow> nat" where
  "patience s = (if \<not> sn_started s then sn_adv_retries_left s else if awaiting_proof s then sn_cache_requests_left s else 0)"

lemma sender_deadline_some:
  "sender_deadline s \<noteq> None \<longleftrightarrow> \<not> sn_done s \<and> \<not> sn_canceled s \<and> (sn_started s \<or> sn_advertised_at s \<noteq> None)"
  by (cases "sn_advertised_at s") (simp_all add: sender_deadline_def Let_def)

lemma sender_retry:
  assumes w: "sender_deadline s \<noteq> None" and n: "0 < patience s"
  shows "sender_deadline (sender_left_alone k sha s late) \<noteq> None" "patience (sender_left_alone k sha s late) = patience s - 1"
proof -
  obtain t where t: "sender_deadline s = Some t" using w by blast
  have live: "\<not> sn_done s" "\<not> sn_canceled s" "sn_started s \<or> sn_advertised_at s \<noteq> None" using w unfolding sender_deadline_some by simp_all
  have "sender_left_alone k sha s late = (if sn_started s
      then s\<lparr>sn_cache_requests_left := sn_cache_requests_left s - 1, sn_last_part_sent := t + fst late\<rparr>
      else s\<lparr>sn_adv_retries_left := sn_adv_retries_left s - 1, sn_advertised_at := Some (t + fst late)\<rparr>)"
  proof (cases "sn_started s")
    case True
    then have "awaiting_proof s" "sn_cache_requests_left s \<noteq> 0" using n by (auto simp: patience_def split: if_splits)
    with True show ?thesis by (simp add: sender_left_alone_def t sender_poll_def cache_request_def Let_def)
  next
    case False
    with n show ?thesis by (simp add: sender_left_alone_def t sender_poll_def patience_def sender_advertise_def Let_def)
  qed
  then show "sender_deadline (sender_left_alone k sha s late) \<noteq> None" "patience (sender_left_alone k sha s late) = patience s - 1"
    using live n unfolding sender_deadline_some by (simp_all add: patience_def awaiting_proof_def split: if_splits)
qed

lemma sender_give_up:
  assumes w: "sender_deadline s \<noteq> None" and n: "patience s = 0"
  shows "sn_timed_out (sender_left_alone k sha s late)" "sn_canceled (sender_left_alone k sha s late)"
proof -
  obtain t where t: "sender_deadline s = Some t" using w by blast
  have live: "\<not> sn_done s" "\<not> sn_canceled s" using w unfolding sender_deadline_some by simp_all
  have "sender_left_alone k sha s late = s\<lparr>sn_timed_out := True, sn_canceled := True\<rparr>"
    using n live
    by (cases "sn_started s"; cases "awaiting_proof s")
      (simp_all add: sender_left_alone_def t sender_poll_def patience_def cache_request_def sender_cancel_def)
  then show "sn_timed_out (sender_left_alone k sha s late)" "sn_canceled (sender_left_alone k sha s late)" by simp_all
qed

lemma sender_left_alone_ended: "sn_canceled s \<Longrightarrow> foldl (sender_left_alone k sha) s lates = s"
  by (induction lates) (simp_all add: sender_left_alone_def sender_deadline_def)

text \<open>
  C9: A sender that advertised, or served parts, to a receiver gone silent polls once for each advertisement or
  proof request it has left and then cancels the transfer as timed out.
\<close>

theorem silent_sender_ends:
  assumes "sn_started s \<or> sn_advertised_at s \<noteq> None" "\<not> sn_done s" "\<not> sn_canceled s"
    and "s' = foldl (sender_left_alone k sha) s lates"
  shows "if length lates \<le> patience s then sender_deadline s' \<noteq> None
    else sn_timed_out s' \<and> sn_canceled s' \<and> sender_deadline s' = None"
proof -
  have "sender_deadline s \<noteq> None" unfolding sender_deadline_some using assms(1-3) by blast
  then show ?thesis unfolding assms(4)
  proof (induction lates arbitrary: s)
    case (Cons late lates)
    show ?case
    proof (cases "patience s")
      case 0
      note G = sender_give_up[OF Cons.prems 0, of k sha late]
      from sender_left_alone_ended[OF G(2)] G 0 show ?thesis by (simp add: sender_deadline_def)
    next
      case (Suc n)
      with sender_retry[OF Cons.prems, of k sha late] Cons.IH[of "sender_left_alone k sha s late"] show ?thesis by simp
    qed
  qed simp
qed


theorem silent_sender_ends_witness:
  "sn_timed_out (foldl (sender_left_alone sample_ciphers checksum) (sample_sender\<lparr>sn_advertised_at := Some 5, sn_adv_retries_left := 1\<rparr>)
     [(0, replicate 16 3), (700, replicate 16 3)])"
  using silent_sender_ends[of "sample_sender\<lparr>sn_advertised_at := Some 5, sn_adv_retries_left := 1\<rparr>" _ sample_ciphers checksum
      "[(0, replicate 16 3), (700, replicate 16 3)]"]
  by (simp add: patience_def sample_sender_def prepare_def from_outgoing_def Let_def)

end
