(* ===== verification/SegmentedTransfer.thy ===== *)
theory SegmentedTransfer
  imports ResourceTransfer
begin

text \<open>
  Resources of any size as segments, each one transfer of its own: \<open>resource_transfer/segmented_sender.rs\<close> and
  \<open>segmented_receiver.rs\<close>. A panic of the code (\<open>expect\<close>) is \<open>None\<close>. The closure that makes each segment's
  receiver is pure here: the receiver it makes is a field.
\<close>

definition METADATA_FRAMING :: nat where "METADATA_FRAMING = 3"

definition DEFAULT_MAX_RESOURCE_SIZE :: nat where "DEFAULT_MAX_RESOURCE_SIZE = DEFAULT_MAX_DECOMPRESSED_SIZE"

definition MAX_SEGMENT_SIZE :: nat where "MAX_SEGMENT_SIZE = 1048575"

datatype resource_kind = DataKind | RequestKind "128 word" | ResponseKind "128 word"

definition segment_count :: "nat \<Rightarrow> nat" where
  "segment_count total_size = (total_size - 1) div MAX_SEGMENT_SIZE + 1"

section \<open>The sender\<close>

record plan =
  pn_link :: link
  pn_data :: "bytes option"
  pn_len :: nat
  pn_metadata :: "bytes option"
  pn_kind :: resource_kind
  pn_compress :: bool
  pn_segments :: nat
  pn_original_hash :: hash256
  pn_timing :: timing

definition framed_metadata_len :: "plan \<Rightarrow> nat" where
  "framed_metadata_len p = (case pn_metadata p of None \<Rightarrow> 0 | Some m \<Rightarrow> length m)"

definition total_size :: "plan \<Rightarrow> nat" where
  "total_size p = pn_len p + framed_metadata_len p"

definition segment_range :: "plan \<Rightarrow> nat \<Rightarrow> nat \<times> nat" where
  "segment_range p index =
    (let len = pn_len p;
         first = MAX_SEGMENT_SIZE - framed_metadata_len p;
         (start, stop) =
           (if index = 1 \<and> pn_segments p = 1 then (0, len)
            else if index = 1 then (0, first)
            else let start = first + (index - 2) * MAX_SEGMENT_SIZE in (start, start + MAX_SEGMENT_SIZE))
     in (min start len, min stop len))"

definition segment_bytes :: "plan \<Rightarrow> nat \<Rightarrow> bytes \<Rightarrow> bytes" where
  "segment_bytes p index data =
    (let (start, stop) = segment_range p index;
         slice = take (stop - start) (drop start data)
     in case pn_metadata p of
          Some metadata \<Rightarrow> if index = 1 then metadata @ slice else slice
        | None \<Rightarrow> slice)"

definition plan_segment :: "ciphers \<Rightarrow> sha256 \<Rightarrow> encoder \<Rightarrow> plan \<Rightarrow> nat \<Rightarrow> u32 \<Rightarrow> bytes \<Rightarrow> (plan \<times> sender) option" where
  "plan_segment k sha enc p index random iv =
    (case pn_data p of
       None \<Rightarrow> None
     | Some data \<Rightarrow>
         let bytes = segment_bytes p index data;
             out = with_segment (sealed_outgoing k sha enc (pn_link p) bytes random iv (pn_compress p)) (of_nat index)
                     (of_nat (pn_segments p)) (of_nat (total_size p)) (pn_original_hash p);
             out = (case pn_kind p of
                      DataKind \<Rightarrow> out | RequestKind i \<Rightarrow> with_request out i | ResponseKind i \<Rightarrow> with_request_id out i);
             out = (if pn_metadata p \<noteq> None then with_metadata out else out);
             p = (if index = pn_segments p then p\<lparr>pn_data := None\<rparr> else p)
         in Some (p, sender_with_timing (from_outgoing k (pn_link p) out) (pn_timing p)))"

record segmented_sender =
  gs_plan :: plan
  gs_current :: sender
  gs_index :: nat
  gs_served_before :: nat

text \<open>The error of \<open>new\<close> is an \<open>Inl\<close>, its panic \<open>None\<close>.\<close>

definition new_segmented ::
  "ciphers \<Rightarrow> sha256 \<Rightarrow> encoder \<Rightarrow> link \<Rightarrow> bytes \<Rightarrow> bytes option \<Rightarrow> resource_kind \<Rightarrow> u32 \<Rightarrow> bytes \<Rightarrow> (error + segmented_sender) option" where
  "new_segmented k sha enc l data metadata kind random iv =
    (case (case metadata of None \<Rightarrow> Inr None | Some m \<Rightarrow> and_then (pack_metadata m) (\<lambda>framed. Inr (Some framed))) of
       Inl e \<Rightarrow> Some (Inl e)
     | Inr metadata \<Rightarrow>
         let len = length data;
             framed = (case metadata of None \<Rightarrow> 0 | Some m \<Rightarrow> length m);
             segments = segment_count (len + framed)
         in if 1 < segments \<and> MAX_SEGMENT_SIZE \<le> framed then Some (Inl CapacityExceeded)
            else
              let p = \<lparr>pn_link = l, pn_data = Some data, pn_len = len, pn_metadata = metadata, pn_kind = kind,
                       pn_compress = (len \<le> DEFAULT_MAX_DECOMPRESSED_SIZE), pn_segments = segments, pn_original_hash = 0,
                       pn_timing = timing_default\<rparr>
              in map_option (\<lambda>(p, current).
                   Inr \<lparr>gs_plan = p\<lparr>pn_original_hash := og_hash (sn_out current)\<rparr>, gs_current = current, gs_index = 1,
                        gs_served_before = 0\<rparr>)
                   (plan_segment k sha enc p 1 random iv))"

definition segmented_with_timing :: "segmented_sender \<Rightarrow> timing \<Rightarrow> segmented_sender" where
  "segmented_with_timing s t = s\<lparr>gs_plan := (gs_plan s)\<lparr>pn_timing := t\<rparr>, gs_current := sender_with_timing (gs_current s) t\<rparr>"

definition segmented_advertise :: "ciphers \<Rightarrow> segmented_sender \<Rightarrow> nat \<Rightarrow> bytes \<Rightarrow> segmented_sender \<times> packet" where
  "segmented_advertise k s now iv =
    (let (current, p) = sender_advertise k (gs_current s) now iv in (s\<lparr>gs_current := current\<rparr>, p))"

text \<open>
  The IVs are those the closure yields in one call. A packet that proves the segment draws none
  before the next segment is built, so the first of them is also where its random hash comes from.
\<close>

definition segmented_on_packet ::
  "ciphers \<Rightarrow> sha256 \<Rightarrow> encoder \<Rightarrow> segmented_sender \<Rightarrow> packet \<Rightarrow> nat \<Rightarrow> bytes \<Rightarrow> bytes \<Rightarrow> bytes
    \<Rightarrow> (segmented_sender \<times> packet list) option" where
  "segmented_on_packet k sha enc s p now iv1 iv2 iv3 =
    (let (current, out) = sender_on_packet k sha (gs_current s) p now iv1;
         s = s\<lparr>gs_current := current\<rparr>
     in if sn_done current \<and> gs_index s < pn_segments (gs_plan s) then
          let s = s\<lparr>gs_index := gs_index s + 1, gs_served_before := gs_served_before s + sn_served_parts current\<rparr>
          in case plan_segment k sha enc (gs_plan s) (gs_index s) (of_be (take RANDOM_HASH_LEN iv1)) iv2 of
               None \<Rightarrow> None
             | Some (plan, current) \<Rightarrow>
                 let (current, adv) = sender_advertise k current now iv3
                 in Some (s\<lparr>gs_plan := plan, gs_current := current\<rparr>, out @ [adv])
        else Some (s, out))"

definition segmented_poll :: "ciphers \<Rightarrow> sha256 \<Rightarrow> segmented_sender \<Rightarrow> nat \<Rightarrow> bytes \<Rightarrow> segmented_sender \<times> packet option" where
  "segmented_poll k sha s now iv =
    (let (current, p) = sender_poll k sha (gs_current s) now iv in (s\<lparr>gs_current := current\<rparr>, p))"

definition segmented_cache_request :: "sha256 \<Rightarrow> segmented_sender \<Rightarrow> segmented_sender \<times> packet option" where
  "segmented_cache_request sha s =
    (let (current, p) = cache_request sha (gs_current s) in (s\<lparr>gs_current := current\<rparr>, p))"

definition segmented_cancel :: "ciphers \<Rightarrow> segmented_sender \<Rightarrow> bytes \<Rightarrow> segmented_sender \<times> packet option" where
  "segmented_cancel k s iv =
    (let (current, p) = sender_cancel k (gs_current s) iv in (s\<lparr>gs_current := current\<rparr>, p))"

definition segmented_done :: "segmented_sender \<Rightarrow> bool" where
  "segmented_done s \<longleftrightarrow> gs_index s = pn_segments (gs_plan s) \<and> sn_done (gs_current s)"

section \<open>The receiver\<close>

record offered_resource =
  so_original_hash :: bytes
  so_segments :: nat
  so_total_size :: nat
  so_kind :: resource_kind
  so_index :: nat

record segmented_receiver =
  gr_link :: link
  gr_make :: receiver
  gr_filter :: "(advertisement \<Rightarrow> bool) option"
  gr_max_size :: nat
  gr_offer :: "offered_resource option"
  gr_current :: "receiver option"
  gr_segment_hash :: "bytes option"
  gr_data :: bytes
  gr_metadata :: "bytes option"
  gr_received :: nat
  gr_proved :: nat
  gr_last_proof :: "packet option"
  gr_complete :: bool
  gr_delivered :: bool
  gr_failure :: "error option"
  gr_canceled :: bool
  gr_carry :: "window_carry option"

definition new_segmented_receiver :: "link \<Rightarrow> receiver \<Rightarrow> segmented_receiver" where
  "new_segmented_receiver l made =
     \<lparr>gr_link = l, gr_make = made, gr_filter = None, gr_max_size = DEFAULT_MAX_RESOURCE_SIZE, gr_offer = None,
      gr_current = None, gr_segment_hash = None, gr_data = [], gr_metadata = None, gr_received = 0, gr_proved = 0,
      gr_last_proof = None, gr_complete = False, gr_delivered = False, gr_failure = None, gr_canceled = False,
      gr_carry = None\<rparr>"

definition with_max_size :: "segmented_receiver \<Rightarrow> nat \<Rightarrow> segmented_receiver" where
  "with_max_size r n = r\<lparr>gr_max_size := n\<rparr>"

definition with_filter :: "segmented_receiver \<Rightarrow> (advertisement \<Rightarrow> bool) \<Rightarrow> segmented_receiver" where
  "with_filter r f = r\<lparr>gr_filter := Some f\<rparr>"

definition segmented_ended :: "segmented_receiver \<Rightarrow> bool" where
  "segmented_ended r \<longleftrightarrow> gr_complete r \<or> gr_failure r \<noteq> None \<or> gr_canceled r"

definition kind_of :: "advertisement \<Rightarrow> resource_kind option" where
  "kind_of adv =
    (let i = (case adv_q adv of None \<Rightarrow> None | Some q \<Rightarrow> if length q = 16 then Some (of_be q) else None)
     in if adv_flags adv AND FLAG_REQUEST \<noteq> 0 then map_option RequestKind i
        else if adv_flags adv AND FLAG_RESPONSE \<noteq> 0 then map_option ResponseKind i
        else Some DataKind)"

definition is_first_segment :: "advertisement \<Rightarrow> bool" where
  "is_first_segment adv \<longleftrightarrow> adv_i adv = 1 \<and>
    (adv_l adv = 1 \<or>
     1 < sint (adv_l adv) \<and> of_nat (segment_count (unat (adv_data_size adv))) = adv_l adv \<and> adv_original_hash adv = adv_resource_hash adv)"

definition segmented_refusal :: "ciphers \<Rightarrow> segmented_receiver \<Rightarrow> advertisement \<Rightarrow> bytes \<Rightarrow> packet" where
  "segmented_refusal k r adv iv = cancel_packet k (gr_link r) CTX_RESOURCE_RCL (adv_resource_hash adv) iv"

definition segmented_fail :: "ciphers \<Rightarrow> segmented_receiver \<Rightarrow> error \<Rightarrow> advertisement \<Rightarrow> bytes \<Rightarrow> segmented_receiver \<times> packet list" where
  "segmented_fail k r e adv iv =
    (r\<lparr>gr_failure := Some e, gr_current := None, gr_data := []\<rparr>, [segmented_refusal k r adv iv])"

text \<open>Which segment an offer may start: \<open>Inr\<close> its index, or what is done with it instead.\<close>

definition offered_segment ::
  "ciphers \<Rightarrow> segmented_receiver \<Rightarrow> advertisement \<Rightarrow> resource_kind \<Rightarrow> bytes \<Rightarrow> (segmented_receiver \<times> packet list) + nat" where
  "offered_segment k r adv kind iv =
    (case gr_offer r of
       None \<Rightarrow>
         if (case gr_filter r of None \<Rightarrow> False | Some f \<Rightarrow> \<not> f adv) then Inl (r, [])
         else if gr_max_size r < unat (adv_data_size adv) then Inl (segmented_fail k r CapacityExceeded adv iv)
         else if \<not> is_first_segment adv then Inl (segmented_fail k r ResourceCorrupt adv iv)
         else Inr 1
     | Some offer \<Rightarrow>
         if adv_original_hash adv \<noteq> so_original_hash offer then Inl (r, [segmented_refusal k r adv iv])
         else if \<not> (adv_i adv = of_nat (so_index offer) \<and> adv_l adv = of_nat (so_segments offer)
                    \<and> unat (adv_data_size adv) = so_total_size offer \<and> kind = so_kind offer)
              then Inl (segmented_fail k r ResourceCorrupt adv iv)
         else Inr (so_index offer))"

text \<open>The receiver of the segment an offer starts.\<close>

definition segment_receiver :: "segmented_receiver \<Rightarrow> advertisement \<Rightarrow> receiver" where
  "segment_receiver r adv =
    (let rv = gr_make r;
         rv = (case gr_carry r of None \<Rightarrow> rv | Some carry \<Rightarrow> with_carry rv carry)
     in if 1 < sint (adv_l adv) then with_max_decompressed_size (allow_segments rv) MAX_SEGMENT_SIZE
        else cap_decompressed rv (unat (adv_data_size adv)))"

definition start_segment ::
  "ciphers \<Rightarrow> sha256 \<Rightarrow> bz2 \<Rightarrow> segmented_receiver \<Rightarrow> advertisement \<Rightarrow> resource_kind \<Rightarrow> nat \<Rightarrow> packet \<Rightarrow> nat \<Rightarrow> bytes
    \<Rightarrow> segmented_receiver \<times> packet list" where
  "start_segment k sha bz2 r adv kind index p now iv =
    (let (rv, replies) = receiver_on_packet k sha bz2 (segment_receiver r adv) p now iv
     in case rv_failure rv of
          Some e \<Rightarrow> (r\<lparr>gr_failure := Some e\<rparr>, replies)
        | None \<Rightarrow>
            if replies = [] then (r, replies)
            else
              let offer = (case gr_offer r of
                    Some offer \<Rightarrow> offer
                  | None \<Rightarrow> \<lparr>so_original_hash = adv_original_hash adv, so_segments = unat (adv_l adv),
                            so_total_size = unat (adv_data_size adv), so_kind = kind, so_index = index\<rparr>)
              in (r\<lparr>gr_offer := Some offer, gr_segment_hash := Some (adv_resource_hash adv), gr_current := Some rv\<rparr>, replies))"

definition read_offer :: "ciphers \<Rightarrow> link \<Rightarrow> packet \<Rightarrow> advertisement option" where
  "read_offer k l p =
    (case and_then (link_decrypt k l p) parse_advertisement of
       Inl _ \<Rightarrow> None
     | Inr adv \<Rightarrow> if length (adv_resource_hash adv) = 32 then Some adv else None)"

definition on_offer ::
  "ciphers \<Rightarrow> sha256 \<Rightarrow> bz2 \<Rightarrow> segmented_receiver \<Rightarrow> packet \<Rightarrow> nat \<Rightarrow> bytes \<Rightarrow> segmented_receiver \<times> packet list" where
  "on_offer k sha bz2 r p now iv =
    (case read_offer k (gr_link r) p of
       None \<Rightarrow> (r, [])
     | Some adv \<Rightarrow>
         let again = (gr_segment_hash r = Some (adv_resource_hash adv))
         in if again \<and> \<not> segmented_ended r \<and> gr_current r \<noteq> None then
              (case gr_current r of
                 None \<Rightarrow> (r, [])
               | Some current \<Rightarrow>
                   let (current, replies) = receiver_on_packet k sha bz2 current p now iv
                   in (r\<lparr>gr_current := Some current\<rparr>, replies))
            else if again \<and> gr_failure r = None \<and> \<not> gr_canceled r then
              (r, case gr_last_proof r of None \<Rightarrow> [] | Some q \<Rightarrow> [q])
            else if gr_complete r then (r, [])
            else if segmented_ended r \<or> gr_current r \<noteq> None then (r, [segmented_refusal k r adv iv])
            else
              (case kind_of adv of
                 None \<Rightarrow> (r, [])
               | Some kind \<Rightarrow>
                   (case offered_segment k r adv kind iv of
                      Inl out \<Rightarrow> out
                    | Inr index \<Rightarrow> start_segment k sha bz2 r adv kind index p now iv)))"

text \<open>A finished segment, added to what came before.\<close>

definition add_segment :: "segmented_receiver \<Rightarrow> receiver \<Rightarrow> bytes \<Rightarrow> bytes option \<Rightarrow> segmented_receiver" where
  "add_segment r current data metadata =
    r\<lparr>gr_proved := gr_proved r + 1, gr_last_proof := proof_packet current, gr_carry := Some (receiver_carry current),
      gr_received := gr_received r + (length data + (case metadata of None \<Rightarrow> 0 | Some m \<Rightarrow> METADATA_FRAMING + length m)),
      gr_metadata := (if metadata \<noteq> None then metadata else gr_metadata r),
      gr_data := (if gr_data r = [] then data else gr_data r @ data)\<rparr>"

definition segmented_settle :: "segmented_receiver \<Rightarrow> segmented_receiver option" where
  "segmented_settle r =
    (case gr_current r of
       None \<Rightarrow> Some r
     | Some current \<Rightarrow>
         if rv_failure current \<noteq> None then Some (r\<lparr>gr_failure := rv_failure current\<rparr>)
         else if rv_canceled current then Some (r\<lparr>gr_canceled := True\<rparr>)
         else
           (case take_payload current of
              (_, None) \<Rightarrow> Some r
            | (current, Some (data, metadata)) \<Rightarrow>
                let r = add_segment (r\<lparr>gr_current := Some current\<rparr>) current data metadata
                in case gr_offer r of
                     None \<Rightarrow> None
                   | Some offer \<Rightarrow>
                       let split = 1 < so_segments offer;
                           r = (if so_total_size offer < gr_received r then r\<lparr>gr_failure := Some ResourceCorrupt\<rparr>
                                else if so_index offer < so_segments offer
                                  then r\<lparr>gr_offer := Some (offer\<lparr>so_index := so_index offer + 1\<rparr>), gr_current := None\<rparr>
                                else if split \<and> gr_received r \<noteq> so_total_size offer then r\<lparr>gr_failure := Some ResourceCorrupt\<rparr>
                                else r\<lparr>gr_complete := True\<rparr>)
                       in Some (if gr_failure r \<noteq> None then r\<lparr>gr_data := []\<rparr> else r)))"

definition segmented_receive ::
  "ciphers \<Rightarrow> sha256 \<Rightarrow> bz2 \<Rightarrow> segmented_receiver \<Rightarrow> packet \<Rightarrow> nat \<Rightarrow> bytes \<Rightarrow> (segmented_receiver \<times> packet list) option" where
  "segmented_receive k sha bz2 r p now iv =
    (if pk_context p = CTX_RESOURCE_ADV then Some (on_offer k sha bz2 r p now iv)
     else if segmented_ended r then Some (r, [])
     else case gr_current r of
       None \<Rightarrow> Some (r, [])
     | Some current \<Rightarrow>
         let (current, replies) = receiver_on_packet k sha bz2 current p now iv
         in map_option (\<lambda>r. (r, replies)) (segmented_settle (r\<lparr>gr_current := Some current\<rparr>)))"

definition segmented_receiver_poll ::
  "ciphers \<Rightarrow> segmented_receiver \<Rightarrow> nat \<Rightarrow> bytes \<Rightarrow> (segmented_receiver \<times> packet list) option" where
  "segmented_receiver_poll k r now iv =
    (if segmented_ended r then Some (r, [])
     else case gr_current r of
       None \<Rightarrow> Some (r, [])
     | Some current \<Rightarrow>
         let (current, replies) = receiver_poll k current now iv
         in map_option (\<lambda>r. (r, replies)) (segmented_settle (r\<lparr>gr_current := Some current\<rparr>)))"

definition segmented_deadline :: "segmented_receiver \<Rightarrow> nat option" where
  "segmented_deadline r = (if segmented_ended r then None else case gr_current r of None \<Rightarrow> None | Some c \<Rightarrow> receiver_deadline c)"

definition segmented_carry :: "segmented_receiver \<Rightarrow> window_carry option" where
  "segmented_carry r = (case gr_current r of Some c \<Rightarrow> Some (receiver_carry c) | None \<Rightarrow> gr_carry r)"

definition segmented_receiver_cancel ::
  "ciphers \<Rightarrow> segmented_receiver \<Rightarrow> bytes \<Rightarrow> segmented_receiver \<times> packet option" where
  "segmented_receiver_cancel k r iv =
    (if segmented_ended r then (r, None)
     else
       let r = r\<lparr>gr_canceled := True, gr_data := []\<rparr>
       in case gr_current r of
            None \<Rightarrow> (r, None)
          | Some current \<Rightarrow> let (current, p) = receiver_cancel k current iv in (r\<lparr>gr_current := Some current\<rparr>, p))"

definition segmented_proof_packet :: "segmented_receiver \<Rightarrow> packet option" where
  "segmented_proof_packet r = (if gr_complete r then gr_last_proof r else None)"

definition received_data :: "segmented_receiver \<Rightarrow> bytes option" where
  "received_data r = (if gr_complete r \<and> \<not> gr_delivered r then Some (gr_data r) else None)"

definition received_metadata :: "segmented_receiver \<Rightarrow> bytes option" where
  "received_metadata r = (if gr_complete r then gr_metadata r else None)"

definition segmented_take_payload :: "segmented_receiver \<Rightarrow> segmented_receiver \<times> (bytes \<times> bytes option) option" where
  "segmented_take_payload r =
    (if \<not> gr_complete r \<or> gr_delivered r then (r, None)
     else (r\<lparr>gr_delivered := True, gr_data := [], gr_metadata := None\<rparr>, Some (gr_data r, gr_metadata r)))"

end
