(* ===== verification/SegmentedDelivery.thy ===== *)
theory SegmentedDelivery
  imports SegmentedTransfer ResourceDelivery
begin

text \<open>
  A resource of several segments between its two halves. The sender's packets reach the receiver lost, repeated,
  late and out of order, among any other packets that are not offers; the sender hears anything at all.
  The resource is put together of what its sender was given. The argument rests on the hash each offer names: a
  segment is handed over only when its body has that hash.
\<close>

section \<open>What a segment's receiver hands over\<close>

definition recovers :: "sha256 \<Rightarrow> incoming \<Rightarrow> bytes \<Rightarrow> bytes option \<Rightarrow> bool" where
  "recovers sha s d m \<longleftrightarrow> (\<exists>body. resource_hash sha body (ic_random_hash s) = ic_hash s
     \<and> (if ic_has_metadata s then \<exists>x. m = Some x \<and> split_metadata body = Inr (x, d) else m = None \<and> d = body))"

lemma recover_all_sound:
  assumes "recover_all k sha bz2 r s token = Inr (d, m, pf)"
  shows "recovers sha s d m"
proof -
  obtain decrypted where o: "link_open_owned k (rv_link r) token = Inr decrypted"
    using assms by (cases "link_open_owned k (rv_link r) token") (simp_all add: recover_all_def)
  obtain body where b: "recover_owned sha bz2 s decrypted (rv_max_decompressed r) = Inr body"
    using assms o by (cases "recover_owned sha bz2 s decrypted (rv_max_decompressed r)") (simp_all add: recover_all_def)
  then have "resource_hash sha body (ic_random_hash s) = ic_hash s"
    by (auto simp: recover_owned_def verified_data_def verify_data_def split: if_splits elim!: and_then.elims)
  moreover have "if ic_has_metadata s then \<exists>x. m = Some x \<and> split_metadata body = Inr (x, d) else m = None \<and> d = body"
    using assms o b by (cases "split_metadata body") (auto simp: recover_all_def Let_def split: if_splits)
  ultimately show ?thesis unfolding recovers_def by blast
qed

lemma recovers_same: "same_resource s s' \<Longrightarrow> recovers sha s' d m = recovers sha s d m"
  unfolding recovers_def same_resource_def by simp

lemma same_resource_trans: "same_resource s s' \<Longrightarrow> same_resource s' s'' \<Longrightarrow> same_resource s s''"
  by (simp add: same_resource_def)

text \<open>A receiver that goes on with the resource of \<open>s\<close>, has given it up, or has its content.\<close>

definition goes_on :: "sha256 \<Rightarrow> incoming \<Rightarrow> receiver \<Rightarrow> bool" where
  "goes_on sha s r \<longleftrightarrow> (dead r \<or> (\<exists>s'. rv_inc r = Some s' \<and> same_resource s s'))
     \<and> (\<forall>d. rv_data r = Some d \<longrightarrow> recovers sha s d (rv_metadata r))"

definition busy :: "incoming \<Rightarrow> receiver \<Rightarrow> bool" where
  "busy s r \<longleftrightarrow> rv_data r = None \<and> (\<exists>s'. rv_inc r = Some s' \<and> same_resource s s')"

lemma request_more_busy:
  assumes "busy s r"
  shows "busy s (fst (request_more k r now iv))"
proof -
  obtain s' where s: "rv_inc r = Some s'" "same_resource s s'" "rv_data r = None" using assms unfolding busy_def by blast
  show ?thesis
    using s by (simp add: request_more_def busy_def same_resource_def set_window_def Let_def split: prod.split)
qed

lemma busy_goes_on: "busy s r \<Longrightarrow> goes_on sha s r"
  by (auto simp: busy_def goes_on_def)

lemma finish_unfolded:
  assumes "rv_inc r = Some s1" "take_token s1 = (s2, t)"
  shows "receiver_finish k sha bz2 r iv = (case and_then t (recover_all k sha bz2 (r\<lparr>rv_inc := Some s2\<rparr>) s2) of
      Inr (data, metadata, prf) \<Rightarrow>
        (r\<lparr>rv_inc := Some s2\<rparr>\<lparr>rv_data := Some data, rv_metadata := metadata, rv_proved := Some (ic_hash s1, prf)\<rparr>,
         [resource_proof_packet (rv_link (r\<lparr>rv_inc := Some s2\<rparr>)) (to_be 32 (ic_hash s1)) (to_be 32 prf)])
    | Inl e \<Rightarrow>
        (r\<lparr>rv_inc := Some s2\<rparr>\<lparr>rv_failure := Some (if e = DecompressionLimit \<or> e = Unsupported then e else ResourceCorrupt), rv_inc := None\<rparr>,
         [refuse_resource k (r\<lparr>rv_inc := Some s2\<rparr>) (to_be 32 (ic_hash s1)) iv]))"
  by (simp only: receiver_finish_def assms option.case Let_def prod.case)

lemma finish_goes_on:
  assumes b: "busy s r"
  shows "goes_on sha s (fst (receiver_finish k sha bz2 r iv))"
proof -
  obtain s1 where s1: "rv_inc r = Some s1" "same_resource s s1" "rv_data r = None" using b unfolding busy_def by blast
  obtain s2 t where t: "take_token s1 = (s2, t)" by fastforce
  have s2: "same_resource s s2" using t s1(2) by (auto simp: take_token_def same_resource_def split: sum.splits)
  let ?r = "r\<lparr>rv_inc := Some s2\<rparr>"
  note eq = finish_unfolded[OF s1(1) t]
  show ?thesis
  proof (cases "and_then t (recover_all k sha bz2 ?r s2)")
    case (Inl e)
    then show ?thesis unfolding eq Inl using s1(3) by (simp add: goes_on_def dead_def)
  next
    case (Inr x)
    obtain d m pf where x: "x = (d, m, pf)" by (rule prod_cases3)
    obtain token where "recover_all k sha bz2 ?r s2 token = Inr (d, m, pf)" using Inr x by (cases t) simp_all
    then have "recovers sha s d m" using recover_all_sound recovers_same[OF s2] by blast
    then show ?thesis unfolding eq Inr x using s2 by (simp add: goes_on_def)
  qed
qed

lemma on_part_goes_on:
  assumes b: "busy s r"
  shows "goes_on sha s (fst (on_part k sha bz2 r p now iv))"
proof (cases "received_all r")
  case True
  then show ?thesis using busy_goes_on[OF b] by (simp add: on_part_def)
next
  case False
  obtain s1 where s1: "rv_inc r = Some s1" "same_resource s s1" "rv_data r = None" using b unfolding busy_def by blast
  obtain s2 taken where a: "accept_part sha s1 (pk_payload p) = (s2, taken)" by fastforce
  have s2: "same_resource s s2" using accept_part_same[of s1 sha "pk_payload p"] s1(2) a same_resource_trans by simp
  let ?r = "r\<lparr>rv_last_activity := now, rv_retries_left := MAX_RETRIES,
      rv_window := window_on_part (rv_window r) now (tm_rtt (rv_timing r)) (encoded_len p) (length (pk_payload p)), rv_inc := Some s2\<rparr>"
  let ?r2 = "?r\<lparr>rv_outstanding := rv_outstanding r - 1\<rparr>"
  let ?r3 = "?r2\<lparr>rv_window := window_on_round (rv_window ?r2) now\<rparr>"
  have busy: "busy s ?r" "busy s ?r2" "busy s ?r3" using s1(3) s2 by (simp_all add: busy_def)
  have eq: "fst (on_part k sha bz2 r p now iv) = (if \<not> taken then ?r else if is_complete s2 then fst (receiver_finish k sha bz2 ?r2 iv)
      else if rv_outstanding ?r2 = 0 then fst (request_more k ?r3 now iv) else ?r2)"
    using s1 False by (simp add: on_part_def a Let_def)
  show ?thesis unfolding eq using busy_goes_on[OF busy(1)] busy_goes_on[OF busy(2)] busy_goes_on[OF request_more_busy[OF busy(3)]]
      finish_goes_on[OF busy(2)]
    by (simp only: split: if_split) blast
qed

lemma on_update_goes_on:
  assumes b: "busy s r"
  shows "goes_on sha s (fst (on_update k r p now iv))"
proof (cases "rv_waiting_for_hmu r \<and> (\<exists>h s1. and_then (link_decrypt k (rv_link r) p) parse_hmu = Inr h \<and> rv_inc r = Some s1
    \<and> ic_hash s1 = hu_resource_hash h)")
  case True
  then obtain h s1 where h: "rv_waiting_for_hmu r" "and_then (link_decrypt k (rv_link r) p) parse_hmu = Inr h" "rv_inc r = Some s1"
    "ic_hash s1 = hu_resource_hash h" by blast
  have s1: "same_resource s s1" "rv_data r = None" using b h(3) by (auto simp: busy_def)
  let ?r = "r\<lparr>rv_inc := Some (fst (ingest_hmu s1 h)), rv_last_activity := now, rv_retries_left := MAX_RETRIES, rv_waiting_for_hmu := False\<rparr>"
  have "ic_random_hash (fst (ingest_hmu s1 h)) = ic_random_hash s1"
    by (simp add: ingest_hmu_def Let_def split: option.split prod.split)
  then have "busy s ?r" using s1 ingest_hmu_keeps[of s1 h] by (simp add: busy_def same_resource_def)
  then show ?thesis using h(1,3,4) by (simp add: on_update_def h(2) busy_goes_on request_more_busy)
next
  case False
  then have "on_update k r p now iv = (r, [])" by (auto simp: on_update_def split: sum.split option.split)
  then show ?thesis using busy_goes_on[OF b] by simp
qed

lemma on_cancel_goes_on: "busy s r \<Longrightarrow> goes_on sha s (on_cancel k r p)"
  by (auto simp: busy_def goes_on_def on_cancel_def dead_def)

lemma receiver_on_packet_goes_on:
  assumes "busy s r" "pk_context p \<noteq> CTX_RESOURCE_ADV"
  shows "goes_on sha s (fst (receiver_on_packet k sha bz2 r p now iv))"
  using assms busy_goes_on on_part_goes_on on_update_goes_on on_cancel_goes_on by (simp add: receiver_on_packet_def)

lemma receiver_poll_goes_on:
  assumes b: "busy s r"
  shows "goes_on sha s (fst (receiver_poll k r now iv))"
proof (cases "receiver_deadline r")
  case (Some t)
  let ?r = "r\<lparr>rv_retries_left := rv_retries_left r - 1, rv_window := window_on_timeout (rv_window r), rv_waiting_for_hmu := False\<rparr>"
  have "busy s ?r" using b by (simp add: busy_def)
  then show ?thesis
    using b Some busy_goes_on[OF b] busy_goes_on[OF request_more_busy, of s ?r]
    by (auto simp: receiver_poll_def busy_def goes_on_def dead_def Let_def)
qed (use busy_goes_on[OF b] in \<open>simp add: receiver_poll_def\<close>)

text \<open>Its own offer again.\<close>

lemma offer_again:
  assumes "and_then (link_decrypt k (rv_link r) p) parse_advertisement = Inr adv" "pk_context p = CTX_RESOURCE_ADV"
    and "rv_inc r = Some s" "to_be 32 (ic_hash s) = adv_resource_hash adv"
  shows "fst (receiver_on_packet k sha bz2 r p now iv) = r"
  using assms by (auto simp: receiver_on_packet_def on_advertisement_def)


section \<open>The pieces\<close>

definition segment_slice :: "plan \<Rightarrow> bytes \<Rightarrow> nat \<Rightarrow> bytes" where
  "segment_slice p data i = (case segment_range p i of (start, stop) \<Rightarrow> take (stop - start) (drop start data))"

lemma segment_bytes_slice:
  "segment_bytes p i data = (case pn_metadata p of Some m \<Rightarrow> if i = 1 then m @ segment_slice p data i else segment_slice p data i
    | None \<Rightarrow> segment_slice p data i)"
  by (auto simp: segment_bytes_def segment_slice_def Let_def split: option.split prod.split)

text \<open>A plan whose number of segments is that of its size, with room for data in the first.\<close>

definition well_planned :: "plan \<Rightarrow> bytes \<Rightarrow> bool" where
  "well_planned p data \<longleftrightarrow> pn_len p = length data \<and> pn_segments p = segment_count (total_size p)
     \<and> (1 < pn_segments p \<longrightarrow> framed_metadata_len p < MAX_SEGMENT_SIZE)"

lemma segment_count_covers: "n \<le> segment_count n * MAX_SEGMENT_SIZE"
  using div_mult_mod_eq[of "n - 1" MAX_SEGMENT_SIZE] mod_less_divisor[of MAX_SEGMENT_SIZE "n - 1"]
  by (simp add: segment_count_def MAX_SEGMENT_SIZE_def algebra_simps)

lemma take_more: "m \<le> n \<Longrightarrow> take m xs @ take (n - m) (drop m xs) = take n xs"
  using take_add[of m "n - m" xs] by simp

lemma slices_prefix:
  assumes p: "well_planned p data" "1 < pn_segments p" and i: "1 \<le> i" "i \<le> pn_segments p"
  shows "concat (map (segment_slice p data) [1..<i + 1])
    = take (MAX_SEGMENT_SIZE - framed_metadata_len p + (i - 1) * MAX_SEGMENT_SIZE) data"
  using i
proof (induction i rule: dec_induct)
  case base
  have "pn_segments p \<noteq> 1" using p(2) by simp
  then show ?case using p(1) by (simp add: segment_slice_def segment_range_def well_planned_def min_def Let_def)
next
  case (step i)
  let ?M = MAX_SEGMENT_SIZE and ?f = "MAX_SEGMENT_SIZE - framed_metadata_len p"
  let ?a = "?f + (i - 1) * ?M"
  have len: "pn_len p = length data" using p(1) by (simp add: well_planned_def)
  have "segment_slice p data (Suc i) = take (min (?a + ?M) (length data) - min ?a (length data)) (drop (min ?a (length data)) data)"
    using step.hyps len by (simp add: segment_slice_def segment_range_def Let_def)
  also have "\<dots> = take ?M (drop ?a data)"
    by (cases "?a \<le> length data") (simp_all add: min_def)
  finally have "segment_slice p data (Suc i) = take ?M (drop ?a data)" .
  moreover have "concat (map (segment_slice p data) [1..<i + 1]) = take ?a data" using step by simp
  moreover have "[1..<Suc i + 1] = [1..<i + 1] @ [Suc i]" using step.hyps by simp
  ultimately have "concat (map (segment_slice p data) [1..<Suc i + 1]) = take (?a + ?M) data"
    by (simp only: map_append concat_append list.map concat.simps append_Nil2 take_add)
  moreover have "?a + ?M = ?f + (Suc i - 1) * ?M" using step.hyps by (cases i) simp_all
  ultimately show ?case by (simp only:)
qed

lemma slices_all:
  assumes p: "well_planned p data"
  shows "concat (map (segment_slice p data) [1..<pn_segments p + 1]) = data" "1 \<le> pn_segments p"
proof -
  show n: "1 \<le> pn_segments p" using p by (simp add: well_planned_def segment_count_def)
  show "concat (map (segment_slice p data) [1..<pn_segments p + 1]) = data"
  proof (cases "pn_segments p = 1")
    case True
    then have "segment_slice p data 1 = data" using p by (simp add: segment_slice_def segment_range_def well_planned_def Let_def)
    then show ?thesis unfolding True by simp
  next
    case False
    then have n: "1 < pn_segments p" using n by simp
    obtain j where j: "pn_segments p = Suc j" using n by (cases "pn_segments p") simp_all
    have "length data + framed_metadata_len p \<le> pn_segments p * MAX_SEGMENT_SIZE"
      using segment_count_covers[of "total_size p"] p by (simp add: well_planned_def total_size_def)
    moreover have "pn_segments p * MAX_SEGMENT_SIZE = MAX_SEGMENT_SIZE + (pn_segments p - 1) * MAX_SEGMENT_SIZE" by (simp add: j)
    moreover have "framed_metadata_len p < MAX_SEGMENT_SIZE" using p n by (simp add: well_planned_def)
    ultimately have "length data \<le> MAX_SEGMENT_SIZE - framed_metadata_len p + (pn_segments p - 1) * MAX_SEGMENT_SIZE"
      by linarith
    then show ?thesis using slices_prefix[OF p n, of "pn_segments p"] n by simp
  qed
qed

section \<open>What the sender offers\<close>

definition offer_of :: "ciphers \<Rightarrow> link \<Rightarrow> outgoing \<Rightarrow> packet \<Rightarrow> bool" where
  "offer_of k a g p \<longleftrightarrow> (pk_context p = CTX_RESOURCE_ADV \<longrightarrow>
     (\<exists>limit iv. length iv = IV_LEN
       \<and> p = sealed_packet k a CTX_RESOURCE_ADV (pack_advertisement (advertisement_with_hash_limit g limit)) iv))"

definition offering :: "link \<Rightarrow> outgoing \<Rightarrow> sender \<Rightarrow> bool" where
  "offering a g s \<longleftrightarrow> sn_link s = a \<and> sn_out s = g"

definition offering_step :: "ciphers \<Rightarrow> link \<Rightarrow> outgoing \<Rightarrow> sender \<times> packet list \<Rightarrow> bool" where
  "offering_step k a g out \<longleftrightarrow> offering a g (fst out) \<and> list_all (offer_of k a g) (snd out)"

lemma answer_offering:
  assumes "offering a g s"
  shows "offering_step k a g (answer_request k s q hash now iv)"
proof -
  obtain s2 out where s2: "serve_parts (requested_indices (sn_out (note_request s hash now)) q) (note_request s hash now) [] = (s2, out)" by fastforce
  have n: "sn_out (note_request s hash now) = sn_out s" "sn_link (note_request s hash now) = sn_link s"
    by (simp_all add: note_request_def remember_request_def Let_def)
  have sp: "sn_out s2 = g" "sn_link s2 = a" "list_all (offer_of k a g) out"
    using serve_parts_spec[of "requested_indices (sn_out (note_request s hash now)) q" "note_request s hash now" "[]"] s2 assms n
    by (auto simp: offering_def list_all_iff offer_of_def resource_contexts)
  have na: "sn_out (note_answered s2 out now) = sn_out s2" "sn_link (note_answered s2 out now) = sn_link s2" for out
    by (simp_all add: note_answered_def Let_def)
  show ?thesis
    using sp s2 n by (cases "rq_last_map_hash q")
      (simp_all add: answer_request_def offering_step_def offering_def na offer_of_def resource_contexts Let_def)
qed

lemma on_packet_offering:
  assumes "offering a g s"
  shows "offering_step k a g (sender_on_packet k sha s p now iv)"
  using assms answer_offering[OF assms]
  by (simp add: sender_on_packet_def offering_step_def offering_def Let_def split: sum.split)

lemma advertise_offering:
  assumes "offering a g s" "length iv = IV_LEN"
  shows "offering_step k a g (apsnd (\<lambda>p. [p]) (sender_advertise k s now iv))"
  using assms by (auto simp: offering_step_def offering_def sender_advertise_def sender_advertisement_def offer_of_def)

lemma cancel_offering:
  assumes "offering a g s"
  shows "offering_step k a g (apsnd as_list (sender_cancel k s iv))"
  using assms by (simp add: offering_step_def offering_def sender_cancel_def offer_of_def resource_contexts)

lemma cache_request_offering:
  assumes "offering a g s"
  shows "offering_step k a g (apsnd as_list (cache_request sha s))"
  using assms by (simp add: offering_step_def offering_def cache_request_def offer_of_def resource_contexts Let_def)

lemma poll_offering:
  assumes s: "offering a g s" and iv: "length iv = IV_LEN"
  shows "offering_step k a g (apsnd as_list (sender_poll k sha s now iv))"
proof (cases "sender_deadline s")
  case (Some d)
  have c: "offering a g (t\<lparr>sn_timed_out := x\<rparr>)" "offering a g (t\<lparr>sn_adv_retries_left := y\<rparr>)" "offering a g (t\<lparr>sn_last_part_sent := y\<rparr>)"
    if "offering a g t" for t x y
    using that by (simp_all add: offering_def)
  obtain t q where t: "(if sn_started s \<and> awaiting_proof s then cache_request sha s else (s, None)) = (t, q)" by fastforce
  have T: "offering a g t" "list_all (offer_of k a g) (as_list q)"
    using t s cache_request_offering[OF s, of k sha] by (auto simp: offering_step_def split: if_splits)
  consider (early) "now < d" | (again) "\<not> now < d" "\<not> sn_started s \<and> 0 < sn_adv_retries_left s"
    | (asks) r where "\<not> now < d" "\<not> (\<not> sn_started s \<and> 0 < sn_adv_retries_left s)" "q = Some r"
    | (ends) "\<not> now < d" "\<not> (\<not> sn_started s \<and> 0 < sn_adv_retries_left s)" "q = None"
    by (cases q) blast+
  then show ?thesis
  proof cases
    case early
    then show ?thesis using s by (simp add: sender_poll_def Some offering_step_def)
  next
    case again
    then show ?thesis using advertise_offering[OF c(2)[OF s] iv, of k "sn_adv_retries_left s - 1" now]
      by (simp add: sender_poll_def Some apsnd_def map_prod_def split: prod.splits)
  next
    case asks
    then have "sender_poll k sha s now iv = (t\<lparr>sn_last_part_sent := now\<rparr>, Some r)"
      unfolding sender_poll_def Some option.case t by auto
    then show ?thesis using T asks(3) c(3)[OF T(1)] by (simp add: offering_step_def)
  next
    case ends
    then have "sender_poll k sha s now iv = sender_cancel k (t\<lparr>sn_timed_out := True\<rparr>) iv"
      unfolding sender_poll_def Some option.case t by auto
    then show ?thesis using cancel_offering[OF c(1)[OF T(1)]] by simp
  qed
qed (use s in \<open>simp add: sender_poll_def offering_step_def\<close>)


text \<open>Segment \<open>i\<close> of a plan, as its advertisement describes it.\<close>

definition segment_offer :: "sha256 \<Rightarrow> plan \<Rightarrow> bytes \<Rightarrow> nat \<Rightarrow> outgoing \<Rightarrow> bool" where
  "segment_offer sha p data i g \<longleftrightarrow> 1 \<le> i \<and> i \<le> pn_segments p
     \<and> og_hash g = resource_hash sha (segment_bytes p i data) (to_be 4 (og_random_hash g))
     \<and> og_segment_index g = of_nat i \<and> og_total_segments g = of_nat (pn_segments p)
     \<and> og_total_data_size g = of_nat (total_size p) \<and> og_has_metadata g = (pn_metadata p \<noteq> None)"

definition same_layout :: "plan \<Rightarrow> plan \<Rightarrow> bool" where
  "same_layout p q \<longleftrightarrow> pn_link q = pn_link p \<and> pn_len q = pn_len p \<and> pn_metadata q = pn_metadata p \<and> pn_segments q = pn_segments p"

lemma layout_offers:
  assumes "same_layout p q"
  shows "segment_offer sha q data i g = segment_offer sha p data i g"
  using assms unfolding same_layout_def segment_offer_def segment_bytes_def segment_range_def total_size_def framed_metadata_len_def
  by simp

lemma sealed_is_token:
  "\<exists>token compressed part_size. sealed_outgoing k sha enc l data random iv c = from_token sha data token random compressed part_size"
proof -
  obtain transfer compressed where t: "(case enc of None \<Rightarrow> (to_be 4 random @ data, False) | Some compress \<Rightarrow>
      if c then let encoded = to_be 4 random @ compress data
        in if length encoded - RANDOM_HASH_LEN < length data then (encoded, True) else (to_be 4 random @ data, False)
      else (to_be 4 random @ data, False)) = (transfer, compressed)" by fastforce
  show ?thesis unfolding sealed_outgoing_def Let_def t[unfolded Let_def] prod.case by blast
qed

lemma planned_segment:
  assumes "plan_segment k sha enc p i random iv = Some (p', s)" and i: "1 \<le> i" "i \<le> pn_segments p"
  obtains data where "pn_data p = Some data" "p' = (if i = pn_segments p then p\<lparr>pn_data := None\<rparr> else p)"
    "offering (pn_link p) (sn_out s) s" "segment_offer sha p data i (sn_out s)"
proof -
  obtain data where d: "pn_data p = Some data" using assms(1) by (cases "pn_data p") (simp_all add: plan_segment_def)
  let ?bytes = "segment_bytes p i data"
  let ?o = "sealed_outgoing k sha enc (pn_link p) ?bytes random iv (pn_compress p)"
  obtain token compressed ps where t: "?o = from_token sha ?bytes token random compressed ps" using sealed_is_token by blast
  note F = from_token_fields[OF t]
  have s: "s = sender_with_timing (from_outgoing k (pn_link p) (sn_out s)) (pn_timing p)"
    "p' = (if i = pn_segments p then p\<lparr>pn_data := None\<rparr> else p)"
    "sn_out s = (let out = with_segment ?o (of_nat i) (of_nat (pn_segments p))
          (of_nat (total_size p)) (pn_original_hash p);
        out = (case pn_kind p of DataKind \<Rightarrow> out | RequestKind i \<Rightarrow> with_request out i | ResponseKind i \<Rightarrow> with_request_id out i)
      in if pn_metadata p \<noteq> None then with_metadata out else out)"
    using assms(1) by (auto simp: plan_segment_def d sender_with_timing_def from_outgoing_def Let_def)
  have "offering (pn_link p) (sn_out s) s" by (subst s(1)) (simp add: offering_def sender_with_timing_def from_outgoing_def Let_def)
  moreover have "segment_offer sha p data i (sn_out s)"
    using F i unfolding segment_offer_def s(3)
    by (cases "pn_kind p"; cases "pn_metadata p")
      (simp_all add: with_segment_def with_request_def with_request_id_def with_metadata_def Let_def)
  ultimately show thesis using that d s(2) by blast
qed

text \<open>The sender between two events.\<close>

definition sending :: "sha256 \<Rightarrow> plan \<Rightarrow> bytes \<Rightarrow> segmented_sender \<Rightarrow> bool" where
  "sending sha p data s \<longleftrightarrow> same_layout p (gs_plan s) \<and> offering (pn_link p) (sn_out (gs_current s)) (gs_current s)
     \<and> segment_offer sha p data (gs_index s) (sn_out (gs_current s))
     \<and> (gs_index s < pn_segments p \<longrightarrow> pn_data (gs_plan s) = Some data)"

definition segment_packet :: "ciphers \<Rightarrow> sha256 \<Rightarrow> plan \<Rightarrow> bytes \<Rightarrow> packet \<Rightarrow> bool" where
  "segment_packet k sha p data q \<longleftrightarrow> (\<exists>i g. segment_offer sha p data i g \<and> offer_of k (pn_link p) g q)"

definition sending_step :: "ciphers \<Rightarrow> sha256 \<Rightarrow> plan \<Rightarrow> bytes \<Rightarrow> segmented_sender \<times> packet list \<Rightarrow> bool" where
  "sending_step k sha p data out \<longleftrightarrow> sending sha p data (fst out) \<and> list_all (segment_packet k sha p data) (snd out)"

lemma current_step:
  assumes s: "sending sha p data s" and out: "offering_step k (pn_link p) (sn_out (gs_current s)) (c, ps)"
  shows "sending_step k sha p data (s\<lparr>gs_current := c\<rparr>, ps)"
  using assms unfolding sending_step_def sending_def offering_step_def segment_packet_def offering_def list_all_iff by auto

lemma segmented_on_packet_sends:
  assumes s: "sending sha p data s" and iv: "length iv3 = IV_LEN"
  shows "\<exists>out. segmented_on_packet k sha enc s q now iv1 iv2 iv3 = Some out \<and> sending_step k sha p data out"
proof -
  obtain c ps where c: "sender_on_packet k sha (gs_current s) q now iv1 = (c, ps)" by fastforce
  let ?s = "s\<lparr>gs_current := c\<rparr>"
  have o: "offering (pn_link p) (sn_out (gs_current s)) (gs_current s)" using s by (simp add: sending_def)
  have stay: "sending_step k sha p data (?s, ps)"
    by (rule current_step[OF s]) (use on_packet_offering[OF o, of k sha q now iv1] c in simp)
  show ?thesis
  proof (cases "sn_done c \<and> gs_index s < pn_segments (gs_plan s)")
    case False
    then show ?thesis using stay by (auto simp: segmented_on_packet_def c Let_def)
  next
    case True
    have lay: "same_layout p (gs_plan s)" and i: "1 \<le> gs_index s" using s by (auto simp: sending_def segment_offer_def)
    have n: "pn_segments (gs_plan s) = pn_segments p" using lay by (simp add: same_layout_def)
    have d: "pn_data (gs_plan s) = Some data" using s True n by (simp add: sending_def)
    let ?random = "of_be (take RANDOM_HASH_LEN iv1) :: u32"
    have "plan_segment k sha enc (gs_plan s) (gs_index s + 1) ?random iv2 \<noteq> None" by (simp add: plan_segment_def d Let_def)
    then obtain p' c' where pc: "plan_segment k sha enc (gs_plan s) (gs_index s + 1) ?random iv2 = Some (p', c')" by auto
    obtain data' where P: "pn_data (gs_plan s) = Some data'"
      "p' = (if gs_index s + 1 = pn_segments (gs_plan s) then (gs_plan s)\<lparr>pn_data := None\<rparr> else gs_plan s)"
      "offering (pn_link (gs_plan s)) (sn_out c') c'" "segment_offer sha (gs_plan s) data' (gs_index s + 1) (sn_out c')"
      by (rule planned_segment[OF pc]) (use True in simp_all)
    let ?s' = "s\<lparr>gs_current := c', gs_index := gs_index s + 1, gs_served_before := gs_served_before s + sn_served_parts c, gs_plan := p'\<rparr>"
    have "same_layout p p'" using lay P(2) by (simp add: same_layout_def)
    moreover have "segment_offer sha p data (gs_index s + 1) (sn_out c')" using P(1,4) d layout_offers[OF lay] by simp
    moreover have "pn_link (gs_plan s) = pn_link p" using lay by (simp add: same_layout_def)
    ultimately have s': "sending sha p data ?s'" using P(2,3) d n by (simp add: sending_def)
    obtain c2 adv where adv: "sender_advertise k c' now iv3 = (c2, adv)" by fastforce
    have "offering_step k (pn_link p) (sn_out c') (c2, [adv])"
      using advertise_offering[of "pn_link p" "sn_out c'" c' iv3 k now] s' iv adv by (simp add: sending_def)
    then have "sending_step k sha p data (?s'\<lparr>gs_current := c2\<rparr>, [adv])" using current_step[OF s', of k c2 "[adv]"] by simp
    moreover have "segmented_on_packet k sha enc s q now iv1 iv2 iv3 = Some (?s'\<lparr>gs_current := c2\<rparr>, ps @ [adv])"
      using True pc adv by (simp add: segmented_on_packet_def c Let_def)
    ultimately show ?thesis using stay by (simp add: sending_step_def)
  qed
qed


section \<open>What the receiver puts together\<close>

text \<open>Different bodies have different resource hashes, as far as the segments' bodies go.\<close>

definition no_second_preimage :: "sha256 \<Rightarrow> bytes list \<Rightarrow> bool" where
  "no_second_preimage sha bodies \<longleftrightarrow> (\<forall>x. \<forall>body \<in> set bodies. \<forall>random. length random = 4
     \<longrightarrow> resource_hash sha x random = resource_hash sha body random \<longrightarrow> x = body)"

definition segment_bodies :: "plan \<Rightarrow> bytes \<Rightarrow> bytes list" where
  "segment_bodies p data = map (\<lambda>i. segment_bytes p i data) [1..<pn_segments p + 1]"

definition given :: "plan \<Rightarrow> bytes option \<Rightarrow> bool" where
  "given p metadata \<longleftrightarrow> (case metadata of None \<Rightarrow> pn_metadata p = None
     | Some m \<Rightarrow> \<exists>framed. pack_metadata m = Inr framed \<and> pn_metadata p = Some framed)"

definition of_segment :: "sha256 \<Rightarrow> plan \<Rightarrow> bytes \<Rightarrow> nat \<Rightarrow> incoming \<Rightarrow> bool" where
  "of_segment sha p data i s \<longleftrightarrow> ic_hash s = resource_hash sha (segment_bytes p i data) (ic_random_hash s)
     \<and> length (ic_random_hash s) = 4 \<and> ic_has_metadata s = (pn_metadata p \<noteq> None \<and> i = 1)"

lemma segment_content:
  assumes sha: "no_second_preimage sha (segment_bodies p data)" and m: "given p metadata" and i: "1 \<le> i" "i \<le> pn_segments p"
    and s: "of_segment sha p data i s" and r: "recovers sha s d m"
  shows "d = segment_slice p data i" "m = (if i = 1 then metadata else None)"
proof -
  obtain body where b: "resource_hash sha body (ic_random_hash s) = ic_hash s"
    "if ic_has_metadata s then \<exists>x. m = Some x \<and> split_metadata body = Inr (x, d) else m = None \<and> d = body"
    using r unfolding recovers_def by blast
  have "segment_bytes p i data \<in> set (segment_bodies p data)" using i
    by (cases "i = pn_segments p") (auto simp: segment_bodies_def)
  then have body: "body = segment_bytes p i data" using sha b(1) s unfolding no_second_preimage_def of_segment_def by metis
  have "d = segment_slice p data i \<and> m = (if i = 1 then metadata else None)"
  proof (cases "ic_has_metadata s")
    case True
    then obtain x framed where x: "i = 1" "metadata = Some x" "pack_metadata x = Inr framed" "pn_metadata p = Some framed"
      using s m by (auto simp: of_segment_def given_def split: option.splits)
    then have "body = framed @ segment_slice p data i" by (simp add: body segment_bytes_slice)
    then show ?thesis using b(2) True metadata_roundtrip[OF x(3)] x(1,2) by simp
  next
    case False
    then have "body = segment_slice p data i"
      using s by (auto simp: body segment_bytes_slice of_segment_def split: option.split)
    moreover have "i = 1 \<longrightarrow> metadata = None"
      using False s m by (auto simp: of_segment_def given_def split: option.splits)
    ultimately show ?thesis using b(2) False by simp
  qed
  then show "d = segment_slice p data i" "m = (if i = 1 then metadata else None)" by simp_all
qed

definition idle_receiver :: "link \<Rightarrow> receiver \<Rightarrow> bool" where
  "idle_receiver b r \<longleftrightarrow> rv_link r = b \<and> rv_inc r = None \<and> rv_data r = None \<and> \<not> dead r"

definition gathered :: "sha256 \<Rightarrow> link \<Rightarrow> plan \<Rightarrow> bytes \<Rightarrow> bytes option \<Rightarrow> segmented_receiver \<Rightarrow> offered_resource \<Rightarrow> bool" where
  "gathered sha b p data metadata r offer \<longleftrightarrow> 1 \<le> so_index offer \<and> so_index offer \<le> pn_segments p \<and> so_segments offer = pn_segments p
     \<and> gr_data r = concat (map (segment_slice p data) [1..<so_index offer])
     \<and> gr_metadata r = (if so_index offer = 1 then None else metadata)"

definition fetches :: "sha256 \<Rightarrow> link \<Rightarrow> plan \<Rightarrow> bytes \<Rightarrow> segmented_receiver \<Rightarrow> nat \<Rightarrow> incoming \<Rightarrow> receiver \<Rightarrow> bool" where
  "fetches sha b p data r i s rv \<longleftrightarrow> of_segment sha p data i s \<and> gr_segment_hash r = Some (to_be 32 (ic_hash s)) \<and> rv_link rv = b"

definition gathers :: "sha256 \<Rightarrow> link \<Rightarrow> plan \<Rightarrow> bytes \<Rightarrow> bytes option \<Rightarrow> segmented_receiver \<Rightarrow> bool" where
  "gathers sha b p data metadata r \<longleftrightarrow>
     (case gr_offer r of
        None \<Rightarrow> gr_current r = None \<and> gr_data r = [] \<and> gr_metadata r = None
      | Some offer \<Rightarrow> gathered sha b p data metadata r offer
          \<and> (\<forall>rv. gr_current r = Some rv \<longrightarrow> (\<exists>s. fetches sha b p data r (so_index offer) s rv \<and> busy s rv)))"

definition receiving :: "sha256 \<Rightarrow> link \<Rightarrow> plan \<Rightarrow> bytes \<Rightarrow> bytes option \<Rightarrow> segmented_receiver \<Rightarrow> bool" where
  "receiving sha b p data metadata r \<longleftrightarrow> gr_link r = b \<and> idle_receiver b (gr_make r)
     \<and> (gr_complete r \<and> \<not> gr_delivered r \<longrightarrow> gr_data r = data \<and> gr_metadata r = metadata)
     \<and> (\<not> segmented_ended r \<longrightarrow> gathers sha b p data metadata r)"

lemma settle_receiving:
  assumes sha: "no_second_preimage sha (segment_bodies p data)" and m: "given p metadata" and p: "well_planned p data"
    and r: "receiving sha b p data metadata r" "\<not> segmented_ended r" "gr_offer r = Some offer" "gathered sha b p data metadata r offer"
    and rv: "fetches sha b p data r (so_index offer) s rv" "goes_on sha s rv"
  shows "\<exists>r'. segmented_settle (r\<lparr>gr_current := Some rv\<rparr>) = Some r' \<and> receiving sha b p data metadata r'"
proof -
  let ?r = "r\<lparr>gr_current := Some rv\<rparr>"
  have al: "\<not> gr_complete r" "gr_failure r = None" "\<not> gr_canceled r" using r(2) by (simp_all add: segmented_ended_def)
  have base: "gr_link r = b" "idle_receiver b (gr_make r)" using r(1) by (simp_all add: receiving_def)
  consider (failed) e where "rv_failure rv = Some e" | (canceled) "rv_failure rv = None" "rv_canceled rv"
    | (more) "\<not> dead rv" "rv_data rv = None" | (whole) d where "\<not> dead rv" "rv_data rv = Some d"
    by (cases "rv_failure rv"; cases "rv_data rv"; cases "rv_canceled rv") (auto simp: dead_def)
  then show ?thesis
  proof cases
    case failed
    then show ?thesis using base al by (simp add: segmented_settle_def receiving_def segmented_ended_def)
  next
    case canceled
    then show ?thesis using base al by (simp add: segmented_settle_def receiving_def segmented_ended_def)
  next
    case more
    then have "busy s rv" using rv(2) by (auto simp: goes_on_def busy_def)
    moreover have "gathered sha b p data metadata ?r offer" "fetches sha b p data ?r (so_index offer) s rv"
      using r(4) rv(1) by (simp_all add: gathered_def fetches_def)
    ultimately have "receiving sha b p data metadata ?r" using base al r(3) by (auto simp: receiving_def gathers_def segmented_ended_def)
    then show ?thesis using more by (simp add: segmented_settle_def take_payload_def dead_def)
  next
    case (whole d)
    let ?i = "so_index offer" and ?d = "rv_metadata rv"
    have i: "1 \<le> ?i" "?i \<le> pn_segments p" "so_segments offer = pn_segments p" using r(4) by (simp_all add: gathered_def)
    have "recovers sha s d ?d" using rv(2) whole(2) by (simp add: goes_on_def)
    from segment_content[OF sha m i(1,2) _ this] rv(1)
    have c: "d = segment_slice p data ?i" "?d = (if ?i = 1 then metadata else None)" by (simp_all add: fetches_def)
    let ?rv = "rv\<lparr>rv_data := None, rv_metadata := None\<rparr>"
    let ?a = "add_segment (?r\<lparr>gr_current := Some ?rv\<rparr>) ?rv d ?d"
    have t: "take_payload rv = (?rv, Some (d, ?d))" using whole(2) by (simp add: take_payload_def)
    have snoc: "[1..<Suc ?i] = [1..<?i] @ [?i]" using i(1) by simp
    have a: "gr_data ?a = concat (map (segment_slice p data) [1..<Suc ?i])" "gr_metadata ?a = metadata"
      "gr_link ?a = b" "gr_make ?a = gr_make r" "gr_complete ?a = False" "gr_failure ?a = None" "gr_canceled ?a = False"
      "gr_offer ?a = Some offer" "gr_delivered ?a = gr_delivered r"
      using r(3,4) base al c unfolding snoc gathered_def add_segment_def by (auto split: if_splits)
    show ?thesis
    proof (cases "so_total_size offer < gr_received ?a")
      case True
      then show ?thesis
        using whole a base by (simp add: segmented_settle_def t dead_def receiving_def segmented_ended_def Let_def)
    next
      case fits: False
      show ?thesis
      proof (cases "?i < pn_segments p")
        case True
        let ?n = "?a\<lparr>gr_offer := Some (offer\<lparr>so_index := ?i + 1\<rparr>), gr_current := None\<rparr>"
        have "segmented_settle ?r = Some ?n"
          using whole a fits True i(3) by (simp add: segmented_settle_def t dead_def Let_def)
        moreover have "gathered sha b p data metadata ?n (offer\<lparr>so_index := ?i + 1\<rparr>)"
          using a(1,2) i True by (simp add: gathered_def)
        then have "receiving sha b p data metadata ?n"
          using a base by (simp add: receiving_def gathers_def segmented_ended_def)
        ultimately show ?thesis by blast
      next
        case False
        then have n: "?i = pn_segments p" using i(2) by simp
        then have "gr_data ?a = data" using a(1) slices_all(1)[OF p] by simp
        then show ?thesis
          using whole a base n i(3) fits
          by (simp add: segmented_settle_def t dead_def receiving_def segmented_ended_def Let_def)
      qed
    qed
  qed
qed


lemma more_link_kept: "rv_link (fst (request_more k r now iv)) = rv_link r"
  by (simp add: request_more_def Let_def split: option.split prod.split)

lemma link_kept:
  assumes "pk_context p \<noteq> CTX_RESOURCE_ADV"
  shows "rv_link (fst (receiver_on_packet k sha bz2 r p now iv)) = rv_link r"
proof -
  have f: "rv_link (fst (receiver_finish k sha bz2 r iv)) = rv_link r" for r
  proof (cases "rv_inc r")
    case (Some s1)
    obtain s2 t where t: "take_token s1 = (s2, t)" by fastforce
    show ?thesis unfolding finish_unfolded[OF Some t] by (simp split: sum.split prod.split)
  qed (simp add: receiver_finish_def)
  have u: "rv_link (fst (on_update k r p now iv)) = rv_link r"
    by (auto simp: on_update_def more_link_kept split: option.split sum.split)
  have p: "rv_link (fst (on_part k sha bz2 r p now iv)) = rv_link r"
    by (simp add: on_part_def Let_def more_link_kept f split: option.split prod.split)
  have c: "rv_link (on_cancel k r p) = rv_link r"
    by (auto simp: on_cancel_def split: option.split)
  show ?thesis using assms by (simp add: receiver_on_packet_def u p c)
qed

lemma poll_link_kept: "rv_link (fst (receiver_poll k r now iv)) = rv_link r"
  by (auto simp: receiver_poll_def more_link_kept split: option.split)

lemma sint_nat: "i < 2 ^ 63 \<Longrightarrow> sint (of_nat i :: i64) = int i"
  by (simp add: signed_of_nat signed_take_bit_int_eq_self)

lemma first_offer:
  assumes r: "idle_receiver b r" and p: "pk_context p = CTX_RESOURCE_ADV"
    and adv: "and_then (link_decrypt k b p) parse_advertisement = Inr adv" "length (adv_resource_hash adv) = 32"
    and out: "out = receiver_on_packet k sha bz2 r p now iv" "rv_failure (fst out) = None" "snd out \<noteq> []"
  shows "\<exists>s. busy s (fst out) \<and> rv_link (fst out) = b \<and> ic_hash s = of_be (adv_resource_hash adv) \<and> ic_random_hash s = adv_random_hash adv
    \<and> length (ic_random_hash s) = 4 \<and> ic_has_metadata s = (adv_has_metadata adv \<and> sint (adv_i adv) \<le> 1)"
proof -
  have i: "rv_link r = b" "rv_inc r = None" "rv_data r = None" "rv_failure r = None" "\<not> rv_canceled r"
    using r by (simp_all add: idle_receiver_def dead_def)
  have eq: "out = on_advertisement k bz2 r p now iv" using out(1) p by (simp add: receiver_on_packet_def)
  obtain q where q: "offered_request_id adv = Some q"
    using eq out(3) i adv(2) by (cases "offered_request_id adv") (simp_all add: on_advertisement_def adv(1))
  obtain inc where inc: "admit_offer bz2 r adv = Inr inc"
    using eq out(2,3) i adv(2) q by (cases "admit_offer bz2 r adv") (auto simp: on_advertisement_def adv(1) split: if_splits)
  obtain s where s: "incoming_with_max_parts adv (rv_max_parts r) = Inr s" "inc = set_window s (rv_request_window r)"
    using inc by (auto simp: admit_offer_def with_window_def split: if_splits)
  let ?r = "r\<lparr>rv_inc := Some inc, rv_outstanding := 0, rv_retries_left := MAX_RETRIES, rv_waiting_for_hmu := False,
      rv_response_request_id := q\<rparr>"
  have "out = request_more k ?r now iv" using eq i adv(2) q inc by (simp add: on_advertisement_def adv(1))
  moreover have "busy s ?r" using i s(2) by (simp add: busy_def same_resource_def set_window_def)
  ultimately have "busy s (fst out)" "rv_link (fst out) = b" using request_more_busy more_link_kept i(1) by simp_all
  moreover have "ic_hash s = of_be (adv_resource_hash adv)" "ic_random_hash s = adv_random_hash adv" "length (adv_random_hash adv) = 4"
    "ic_has_metadata s = (adv_has_metadata adv \<and> sint (adv_i adv) \<le> 1)"
    using s(1) by (auto simp: incoming_with_max_parts_def RANDOM_HASH_LEN_def Let_def split: if_splits)
  ultimately show ?thesis by auto
qed

lemma segment_receiver_idle: "idle_receiver b (gr_make r) \<Longrightarrow> idle_receiver b (segment_receiver r adv)"
  by (simp add: idle_receiver_def dead_def segment_receiver_def with_carry_def with_max_decompressed_size_def allow_segments_def
      cap_decompressed_def Let_def split: option.split)

text \<open>Offers of the plan, as the receiver reads them.\<close>

definition planned_offer :: "sha256 \<Rightarrow> plan \<Rightarrow> bytes \<Rightarrow> nat \<Rightarrow> advertisement \<Rightarrow> bool" where
  "planned_offer sha p data i adv \<longleftrightarrow> (\<exists>g limit. segment_offer sha p data i g \<and> adv = advertisement_with_hash_limit g limit)"

lemma start_segment_receiving:
  assumes r: "receiving sha b p data metadata r" "\<not> segmented_ended r" "gr_current r = None"
    and q: "pk_context q = CTX_RESOURCE_ADV" "and_then (link_decrypt k b q) parse_advertisement = Inr adv"
    and adv: "planned_offer sha p data i adv" and n: "pn_segments p < 2 ^ 63"
    and i: "case gr_offer r of None \<Rightarrow> i = 1 | Some offer \<Rightarrow> so_index offer = i"
  shows "receiving sha b p data metadata (fst (start_segment k sha bz2 r adv kind i q now iv))"
proof -
  let ?rv = "segment_receiver r adv"
  have base: "gr_link r = b" "idle_receiver b (gr_make r)" "gathers sha b p data metadata r" using r by (simp_all add: receiving_def)
  have al: "\<not> gr_complete r" "gr_failure r = None" "\<not> gr_canceled r" using r(2) by (simp_all add: segmented_ended_def)
  note idle = segment_receiver_idle[OF base(2), of adv]
  obtain rv replies where out: "receiver_on_packet k sha bz2 ?rv q now iv = (rv, replies)" by fastforce
  obtain g limit where g: "segment_offer sha p data i g" "adv = advertisement_with_hash_limit g limit"
    using adv unfolding planned_offer_def by blast
  have ib: "1 \<le> i" "i \<le> pn_segments p" using g(1) by (simp_all add: segment_offer_def)
  have a: "adv_resource_hash adv = to_be 32 (og_hash g)" "adv_random_hash adv = to_be 4 (og_random_hash g)"
    "adv_has_metadata adv = (pn_metadata p \<noteq> None)" "adv_i adv = of_nat i" "adv_l adv = of_nat (pn_segments p)"
    using g by (simp_all add: advertisement_with_hash_limit_def segment_offer_def adv_has_metadata_def resource_flags Let_def)
  have nl: "unat (adv_l adv) = pn_segments p" using n by (simp add: a(5) unat_of_nat)
  show ?thesis
  proof (cases "rv_failure rv = None \<and> replies \<noteq> []")
    case False
    then show ?thesis
      using out r(1) base(1,2) al by (cases "rv_failure rv") (simp_all add: start_segment_def receiving_def segmented_ended_def)
  next
    case True
    have "length (adv_resource_hash adv) = 32" by (simp add: a(1))
    note first_offer[OF idle q this out[symmetric], unfolded fst_conv snd_conv, OF conjunct1[OF True] conjunct2[OF True]]
    then obtain s where s: "busy s rv" "ic_hash s = of_be (adv_resource_hash adv)"
      "ic_random_hash s = adv_random_hash adv" "length (ic_random_hash s) = 4"
      "ic_has_metadata s = (adv_has_metadata adv \<and> sint (adv_i adv) \<le> 1)" "rv_link rv = b"
      by (elim exE conjE)
    have "of_segment sha p data i s"
      using s(2-5) g(1) ib n a by (auto simp: of_segment_def segment_offer_def sint_nat)
    then have f: "fetches sha b p data (r\<lparr>gr_segment_hash := Some (adv_resource_hash adv)\<rparr>) i s rv"
      using s(2,6) a(1) by (simp add: fetches_def)
    define offer where "offer = (case gr_offer r of Some offer \<Rightarrow> offer
      | None \<Rightarrow> \<lparr>so_original_hash = adv_original_hash adv, so_segments = unat (adv_l adv), so_total_size = unat (adv_data_size adv),
          so_kind = kind, so_index = i\<rparr>)"
    let ?n = "r\<lparr>gr_offer := Some offer, gr_segment_hash := Some (adv_resource_hash adv), gr_current := Some rv\<rparr>"
    have eq: "start_segment k sha bz2 r adv kind i q now iv = (?n, replies)"
      using True unfolding start_segment_def offer_def by (simp add: out Let_def)
    have "gathered sha b p data metadata ?n offer" "so_index offer = i"
      using base(3) i ib nl by (auto simp: gathers_def gathered_def offer_def split: option.splits)
    then have "gathers sha b p data metadata ?n" using f s(1) by (auto simp: gathers_def fetches_def)
    then show ?thesis unfolding eq using base(1,2) al by (simp add: receiving_def)
  qed
qed


lemma of_nat_inject: "i < 2 ^ 63 \<Longrightarrow> j < 2 ^ 63 \<Longrightarrow> (of_nat i :: i64) = of_nat j \<Longrightarrow> i = j"
  by (metis sint_nat of_nat_eq_iff)

lemma failed_receiving:
  assumes "receiving sha b p data metadata r" "\<not> gr_complete r"
  shows "receiving sha b p data metadata (fst (segmented_fail k r e adv iv))"
  using assms by (simp add: receiving_def segmented_fail_def segmented_ended_def)

lemma on_offer_receiving:
  assumes r: "receiving sha b p data metadata r" and q: "pk_context q = CTX_RESOURCE_ADV" and n: "pn_segments p < 2 ^ 63"
    and offers: "\<And>adv. read_offer k b q = Some adv \<Longrightarrow> \<exists>i. planned_offer sha p data i adv"
  shows "receiving sha b p data metadata (fst (on_offer k sha bz2 r q now iv))"
proof (cases "read_offer k b q")
  case None
  then show ?thesis using r by (simp add: on_offer_def receiving_def)
next
  case (Some adv)
  have b: "gr_link r = b" using r by (simp add: receiving_def)
  have d: "and_then (link_decrypt k b q) parse_advertisement = Inr adv"
    using Some by (simp add: read_offer_def split: sum.splits if_splits)
  obtain i where i: "planned_offer sha p data i adv" using offers[OF Some] by blast
  then have ib: "adv_i adv = of_nat i" "1 \<le> i" "i \<le> pn_segments p"
    by (auto simp: planned_offer_def segment_offer_def advertisement_with_hash_limit_def Let_def)
  let ?again = "gr_segment_hash r = Some (adv_resource_hash adv)"
  consider (repeated) rv where "?again" "\<not> segmented_ended r" "gr_current r = Some rv"
    | (fresh) kind where "\<not> (?again \<and> gr_failure r = None \<and> \<not> gr_canceled r)" "\<not> segmented_ended r" "gr_current r = None" "kind_of adv = Some kind"
    | (kept) "fst (on_offer k sha bz2 r q now iv) = r"
  proof (cases "?again \<and> gr_failure r = None \<and> \<not> gr_canceled r")
    case True
    then show ?thesis
      using that(1,3) b Some by (cases "\<not> segmented_ended r"; cases "gr_current r") (simp_all add: on_offer_def Let_def)
  next
    case no: False
    show ?thesis
    proof (cases "segmented_ended r \<or> gr_current r \<noteq> None \<or> kind_of adv = None")
      case True
      have "\<not> (?again \<and> \<not> segmented_ended r)" using no by (auto simp: segmented_ended_def)
      with True no have "fst (on_offer k sha bz2 r q now iv) = r"
        by (cases "kind_of adv") (auto simp: on_offer_def b Some Let_def)
      then show ?thesis by (rule that(3))
    qed (use that(2) no in auto)
  qed
  then show ?thesis
  proof cases
    case repeated
    have "gathers sha b p data metadata r" using r repeated(2) by (simp add: receiving_def)
    then obtain offer :: offered_resource and s where s: "fetches sha b p data r (so_index offer) s rv" "busy s rv"
      using repeated(3) unfolding gathers_def by (cases "gr_offer r") auto
    then obtain s' where s': "rv_inc rv = Some s'" "to_be 32 (ic_hash s') = adv_resource_hash adv" "rv_link rv = b"
      using repeated(1) unfolding busy_def fetches_def same_resource_def by auto
    have "fst (receiver_on_packet k sha bz2 rv q now iv) = rv"
      by (rule offer_again[OF _ q s'(1,2)]) (simp add: s'(3) d)
    then have "fst (on_offer k sha bz2 r q now iv) = r\<lparr>gr_current := Some rv\<rparr>"
      using repeated b Some by (cases "receiver_on_packet k sha bz2 rv q now iv") (simp add: on_offer_def)
    also have "\<dots> = r" by (cases r) (use repeated(3) in simp)
    finally show ?thesis using r by simp
  next
    case fresh
    have al: "\<not> gr_complete r" using fresh(2) by (simp add: segmented_ended_def)
    have eq: "on_offer k sha bz2 r q now iv = (case offered_segment k r adv kind iv of Inl out \<Rightarrow> out
        | Inr index \<Rightarrow> start_segment k sha bz2 r adv kind index q now iv)"
      using fresh b Some by (auto simp: on_offer_def segmented_ended_def Let_def)
    show ?thesis
    proof (cases "offered_segment k r adv kind iv")
      case (Inl out)
      then have "fst out = r \<or> (\<exists>e. out = segmented_fail k r e adv iv)"
        by (cases "gr_offer r") (auto simp: offered_segment_def split: if_splits)
      then show ?thesis unfolding eq Inl sum.case using r failed_receiving[OF r al] by auto
    next
      case (Inr index)
      have g: "gathers sha b p data metadata r" using r fresh(2) by (simp add: receiving_def)
      have "index = i \<and> (case gr_offer r of None \<Rightarrow> i = 1 | Some offer \<Rightarrow> so_index offer = i)"
      proof (cases "gr_offer r")
        case None
        then have "adv_i adv = of_nat 1" "index = 1" using Inr by (auto simp: offered_segment_def is_first_segment_def split: if_splits)
        then show ?thesis using None of_nat_inject[of i 1] ib n by simp
      next
        case (Some offer)
        then have o: "adv_i adv = of_nat (so_index offer)" "index = so_index offer"
          using Inr by (auto simp: offered_segment_def split: if_splits)
        have "so_index offer \<le> pn_segments p" using g Some by (simp add: gathers_def gathered_def)
        then show ?thesis using Some o of_nat_inject[of i "so_index offer"] ib n by simp
      qed
      then show ?thesis unfolding eq Inr sum.case using start_segment_receiving[OF r fresh(2,3) q d i n] by simp
    qed
  qed (use r in simp)
qed

lemma fetching_kept:
  assumes sha: "no_second_preimage sha (segment_bodies p data)" and m: "given p metadata" and p: "well_planned p data"
    and r: "receiving sha b p data metadata r" "\<not> segmented_ended r" "gr_current r = Some rv"
    and rv: "\<And>s. busy s rv \<Longrightarrow> goes_on sha s rv'" "rv_link rv' = rv_link rv"
  shows "\<exists>r'. segmented_settle (r\<lparr>gr_current := Some rv'\<rparr>) = Some r' \<and> receiving sha b p data metadata r'"
proof -
  have "gathers sha b p data metadata r" using r(1,2) by (simp add: receiving_def)
  then obtain offer s where o: "gr_offer r = Some offer" "gathered sha b p data metadata r offer"
    "fetches sha b p data r (so_index offer) s rv" "busy s rv"
    using r(3) unfolding gathers_def by (cases "gr_offer r") auto
  have "fetches sha b p data r (so_index offer) s rv'" using o(3) rv(2) by (simp add: fetches_def)
  from settle_receiving[OF sha m p r(1,2) o(1,2) this rv(1)[OF o(4)]] show ?thesis .
qed

lemma receive_receiving:
  assumes sha: "no_second_preimage sha (segment_bodies p data)" and m: "given p metadata" and p: "well_planned p data"
    and r: "receiving sha b p data metadata r" and n: "pn_segments p < 2 ^ 63"
    and offers: "\<And>adv. pk_context q = CTX_RESOURCE_ADV \<Longrightarrow> read_offer k b q = Some adv \<Longrightarrow> \<exists>i. planned_offer sha p data i adv"
  shows "\<exists>out. segmented_receive k sha bz2 r q now iv = Some out \<and> receiving sha b p data metadata (fst out)"
proof -
  consider (offer) "pk_context q = CTX_RESOURCE_ADV" | (idle) "pk_context q \<noteq> CTX_RESOURCE_ADV" "segmented_ended r \<or> gr_current r = None"
    | (busy) rv where "pk_context q \<noteq> CTX_RESOURCE_ADV" "\<not> segmented_ended r" "gr_current r = Some rv"
    by (cases "gr_current r") auto
  then show ?thesis
  proof cases
    case offer
    then show ?thesis using on_offer_receiving[OF r offer n offers[OF offer]] by (simp add: segmented_receive_def)
  next
    case idle
    then show ?thesis using r by (auto simp: segmented_receive_def)
  next
    case busy
    obtain rv' replies where out: "receiver_on_packet k sha bz2 rv q now iv = (rv', replies)" by fastforce
    have "goes_on sha s rv'" if "busy s rv" for s
      using receiver_on_packet_goes_on[OF that busy(1), of sha k bz2 now iv] out by simp
    from fetching_kept[OF sha m p r busy(2,3) this] link_kept[OF busy(1), of k sha bz2 rv now iv] out
    show ?thesis using busy by (auto simp: segmented_receive_def)
  qed
qed

lemma poll_receiving:
  assumes sha: "no_second_preimage sha (segment_bodies p data)" and m: "given p metadata" and p: "well_planned p data"
    and r: "receiving sha b p data metadata r"
  shows "\<exists>out. segmented_receiver_poll k r now iv = Some out \<and> receiving sha b p data metadata (fst out)"
proof (cases "segmented_ended r \<or> gr_current r = None")
  case True
  then show ?thesis using r by (auto simp: segmented_receiver_poll_def)
next
  case False
  then obtain rv where busy: "\<not> segmented_ended r" "gr_current r = Some rv" by blast
  obtain rv' replies where out: "receiver_poll k rv now iv = (rv', replies)" by fastforce
  have "goes_on sha s rv'" if "busy s rv" for s
    using receiver_poll_goes_on[OF that, of sha k now iv] out by simp
  from fetching_kept[OF sha m p r busy this] poll_link_kept[of k rv now iv] out
  show ?thesis using busy by (auto simp: segmented_receiver_poll_def)
qed

lemma cancel_receiving:
  "receiving sha b p data metadata r \<Longrightarrow> receiving sha b p data metadata (fst (segmented_receiver_cancel k r iv))"
  by (auto simp: segmented_receiver_cancel_def receiving_def segmented_ended_def Let_def split: option.split prod.split)

lemma take_receiving:
  "receiving sha b p data metadata r \<Longrightarrow> receiving sha b p data metadata (fst (segmented_take_payload r))"
  by (simp add: segmented_take_payload_def receiving_def segmented_ended_def)


section \<open>Sender and receiver together\<close>

record carriage =
  sg_sender :: segmented_sender
  sg_receiver :: segmented_receiver
  sg_sent :: "packet list"

datatype carriage_event =
    Advertised nat bytes | SenderGets packet nat bytes bytes bytes | SenderTicks nat bytes | ProofAsked | SenderStops bytes
  | Carried nat nat bytes | Stranger packet nat bytes | ReceiverTicks nat bytes | ReceiverStops bytes | Taken

definition sender_moves :: "carriage \<Rightarrow> segmented_sender \<times> packet list \<Rightarrow> carriage" where
  "sender_moves c out = c\<lparr>sg_sender := fst out, sg_sent := sg_sent c @ snd out\<rparr>"

definition receiver_moves :: "carriage \<Rightarrow> segmented_receiver \<Rightarrow> carriage" where
  "receiver_moves c r = c\<lparr>sg_receiver := r\<rparr>"

fun carriage_act :: "ciphers \<Rightarrow> sha256 \<Rightarrow> encoder \<Rightarrow> bz2 \<Rightarrow> carriage \<Rightarrow> carriage_event \<Rightarrow> carriage option" where
  "carriage_act k sha enc bz2 c (Advertised now iv) =
     Some (sender_moves c (apsnd (\<lambda>p. [p]) (segmented_advertise k (sg_sender c) now iv)))"
| "carriage_act k sha enc bz2 c (SenderGets p now iv1 iv2 iv3) =
     map_option (sender_moves c) (segmented_on_packet k sha enc (sg_sender c) p now iv1 iv2 iv3)"
| "carriage_act k sha enc bz2 c (SenderTicks now iv) = Some (sender_moves c (apsnd as_list (segmented_poll k sha (sg_sender c) now iv)))"
| "carriage_act k sha enc bz2 c ProofAsked = Some (sender_moves c (apsnd as_list (segmented_cache_request sha (sg_sender c))))"
| "carriage_act k sha enc bz2 c (SenderStops iv) = Some (sender_moves c (apsnd as_list (segmented_cancel k (sg_sender c) iv)))"
| "carriage_act k sha enc bz2 c (Carried n now iv) =
     (case get_at (sg_sent c) n of
        None \<Rightarrow> Some c
      | Some p \<Rightarrow> map_option (\<lambda>out. receiver_moves c (fst out)) (segmented_receive k sha bz2 (sg_receiver c) p now iv))"
| "carriage_act k sha enc bz2 c (Stranger p now iv) =
     map_option (\<lambda>out. receiver_moves c (fst out)) (segmented_receive k sha bz2 (sg_receiver c) p now iv)"
| "carriage_act k sha enc bz2 c (ReceiverTicks now iv) =
     map_option (\<lambda>out. receiver_moves c (fst out)) (segmented_receiver_poll k (sg_receiver c) now iv)"
| "carriage_act k sha enc bz2 c (ReceiverStops iv) = Some (receiver_moves c (fst (segmented_receiver_cancel k (sg_receiver c) iv)))"
| "carriage_act k sha enc bz2 c Taken = Some (receiver_moves c (fst (segmented_take_payload (sg_receiver c))))"

text \<open>An IV has the length of its type; a stranger has not the keys of the link, so it can offer nothing.\<close>

fun plausible :: "ciphers \<Rightarrow> carriage \<Rightarrow> carriage_event \<Rightarrow> bool" where
  "plausible k c (Advertised now iv) = (length iv = IV_LEN)"
| "plausible k c (SenderGets p now iv1 iv2 iv3) = (length iv3 = IV_LEN)"
| "plausible k c (SenderTicks now iv) = (length iv = IV_LEN)"
| "plausible k c (Stranger p now iv) = (pk_context p \<noteq> CTX_RESOURCE_ADV \<or> read_offer k (gr_link (sg_receiver c)) p = None)"
| "plausible k c _ = True"

definition carriage_step :: "ciphers \<Rightarrow> sha256 \<Rightarrow> encoder \<Rightarrow> bz2 \<Rightarrow> carriage \<Rightarrow> carriage_event \<Rightarrow> carriage option" where
  "carriage_step k sha enc bz2 c ev = (if plausible k c ev then carriage_act k sha enc bz2 c ev else Some c)"

text \<open>A run; \<open>None\<close> once either half panics.\<close>

definition carriage_next :: "ciphers \<Rightarrow> sha256 \<Rightarrow> encoder \<Rightarrow> bz2 \<Rightarrow> carriage option \<Rightarrow> carriage_event \<Rightarrow> carriage option" where
  "carriage_next k sha enc bz2 x ev = (case x of None \<Rightarrow> None | Some c \<Rightarrow> carriage_step k sha enc bz2 c ev)"

definition carriage_run ::
  "ciphers \<Rightarrow> sha256 \<Rightarrow> encoder \<Rightarrow> bz2 \<Rightarrow> segmented_sender \<Rightarrow> segmented_receiver \<Rightarrow> carriage_event list \<Rightarrow> carriage option" where
  "carriage_run k sha enc bz2 s r evs =
     foldl (carriage_next k sha enc bz2) (Some \<lparr>sg_sender = s, sg_receiver = r, sg_sent = []\<rparr>) evs"

text \<open>The two ends and the plan between them.\<close>

definition carriage_setting :: "ciphers \<Rightarrow> sha256 \<Rightarrow> link \<Rightarrow> plan \<Rightarrow> bytes \<Rightarrow> bytes option \<Rightarrow> bool" where
  "carriage_setting k sha b p data metadata \<longleftrightarrow> cipher_laws k \<and> ln_id b = ln_id (pn_link p) \<and> ln_keys b = ln_keys (pn_link p)
     \<and> no_second_preimage sha (segment_bodies p data) \<and> given p metadata \<and> well_planned p data \<and> pn_segments p < 2 ^ 63"

definition carriage_inv :: "ciphers \<Rightarrow> sha256 \<Rightarrow> link \<Rightarrow> plan \<Rightarrow> bytes \<Rightarrow> bytes option \<Rightarrow> carriage \<Rightarrow> bool" where
  "carriage_inv k sha b p data metadata c \<longleftrightarrow> carriage_setting k sha b p data metadata \<and> sending sha p data (sg_sender c)
     \<and> list_all (segment_packet k sha p data) (sg_sent c) \<and> receiving sha b p data metadata (sg_receiver c)"

lemma sender_moves_inv:
  "carriage_inv k sha b p data metadata c \<Longrightarrow> sending_step k sha p data out \<Longrightarrow> carriage_inv k sha b p data metadata (sender_moves c out)"
  by (simp add: carriage_inv_def sender_moves_def sending_step_def)

lemma receiver_moves_inv:
  "carriage_inv k sha b p data metadata c \<Longrightarrow> receiving sha b p data metadata r \<Longrightarrow> carriage_inv k sha b p data metadata (receiver_moves c r)"
  by (simp add: carriage_inv_def receiver_moves_def)

lemma sent_offers:
  assumes "carriage_setting k sha b p data metadata" "segment_packet k sha p data q" "pk_context q = CTX_RESOURCE_ADV"
    "read_offer k b q = Some adv"
  shows "\<exists>i. planned_offer sha p data i adv"
proof -
  obtain i g limit iv where g: "segment_offer sha p data i g" "length iv = IV_LEN"
    "q = sealed_packet k (pn_link p) CTX_RESOURCE_ADV (pack_advertisement (advertisement_with_hash_limit g limit)) iv"
    using assms(2,3) unfolding segment_packet_def offer_of_def by blast
  have "link_decrypt k b q = Inr (pack_advertisement (advertisement_with_hash_limit g limit))"
    using token_opens(1) assms(1) g(2) by (simp add: carriage_setting_def g(3) link_decrypt_def sealed_packet_def link_packet_def)
  then have "adv = advertisement_with_hash_limit g limit"
    using assms(4) by (simp add: read_offer_def packed_offer split: if_splits)
  then show ?thesis using g(1) unfolding planned_offer_def by blast
qed

lemma carriage_step_inv:
  assumes c: "carriage_inv k sha b p data metadata c"
  shows "\<exists>c'. carriage_step k sha enc bz2 c ev = Some c' \<and> carriage_inv k sha b p data metadata c'"
proof (cases "plausible k c ev")
  case False
  then show ?thesis using c by (simp add: carriage_step_def)
next
  case ok: True
  let ?s = "sg_sender c" and ?r = "sg_receiver c"
  have S: "carriage_setting k sha b p data metadata" and s: "sending sha p data ?s" and r: "receiving sha b p data metadata ?r"
    and sent: "list_all (segment_packet k sha p data) (sg_sent c)"
    using c by (simp_all add: carriage_inv_def)
  have o: "offering (pn_link p) (sn_out (gs_current ?s)) (gs_current ?s)" using s by (simp add: sending_def)
  have b: "gr_link ?r = b" using r by (simp add: receiving_def)
  have P: "no_second_preimage sha (segment_bodies p data)" "given p metadata" "well_planned p data" "pn_segments p < 2 ^ 63"
    using S by (simp_all add: carriage_setting_def)
  have via: "\<exists>c'. Some (sender_moves c (apsnd f out)) = Some c' \<and> carriage_inv k sha b p data metadata c'"
    if "sending_step k sha p data (apsnd f out)" for f and out :: "segmented_sender \<times> 'x"
    using sender_moves_inv[OF c that] by simp
  have hears: "\<exists>c'. map_option (\<lambda>out. receiver_moves c (fst out)) (segmented_receive k sha bz2 ?r q now iv) = Some c'
      \<and> carriage_inv k sha b p data metadata c'"
    if offers: "\<And>adv. pk_context q = CTX_RESOURCE_ADV \<Longrightarrow> read_offer k b q = Some adv \<Longrightarrow> \<exists>i. planned_offer sha p data i adv" for q now iv
  proof -
    obtain out where "segmented_receive k sha bz2 ?r q now iv = Some out" "receiving sha b p data metadata (fst out)"
      using receive_receiving[OF P(1-3) r P(4) offers, where ?bz2.0 = bz2 and now = now and iv = iv] by blast
    then show ?thesis using receiver_moves_inv[OF c] by simp
  qed
  have "\<exists>c'. carriage_act k sha enc bz2 c ev = Some c' \<and> carriage_inv k sha b p data metadata c'"
  proof (cases ev)
    case (Advertised now iv)
    obtain c' q where "sender_advertise k (gs_current ?s) now iv = (c', q)" by fastforce
    then have "sending_step k sha p data (apsnd (\<lambda>q. [q]) (segmented_advertise k ?s now iv))"
      using current_step[OF s, of k c' "[q]"] advertise_offering[OF o, of iv k now] ok Advertised
      by (simp add: segmented_advertise_def)
    then show ?thesis unfolding Advertised carriage_act.simps by (rule via)
  next
    case (SenderGets q now iv1 iv2 iv3)
    then obtain out where "segmented_on_packet k sha enc ?s q now iv1 iv2 iv3 = Some out" "sending_step k sha p data out"
      using segmented_on_packet_sends[OF s, of iv3 k enc q now iv1 iv2] ok by auto
    then show ?thesis using sender_moves_inv[OF c] SenderGets by simp
  next
    case (SenderTicks now iv)
    obtain c' q where "sender_poll k sha (gs_current ?s) now iv = (c', q)" by fastforce
    then have "sending_step k sha p data (apsnd as_list (segmented_poll k sha ?s now iv))"
      using current_step[OF s, of k c' "as_list q"] poll_offering[OF o, of iv k sha now] ok SenderTicks
      by (simp add: segmented_poll_def)
    then show ?thesis unfolding SenderTicks carriage_act.simps by (rule via)
  next
    case ProofAsked
    obtain c' q where "cache_request sha (gs_current ?s) = (c', q)" by fastforce
    then have "sending_step k sha p data (apsnd as_list (segmented_cache_request sha ?s))"
      using current_step[OF s, of k c' "as_list q"] cache_request_offering[OF o, of k sha] by (simp add: segmented_cache_request_def)
    then show ?thesis unfolding ProofAsked carriage_act.simps by (rule via)
  next
    case (SenderStops iv)
    obtain c' q where "sender_cancel k (gs_current ?s) iv = (c', q)" by fastforce
    then have "sending_step k sha p data (apsnd as_list (segmented_cancel k ?s iv))"
      using current_step[OF s, of k c' "as_list q"] cancel_offering[OF o, of k iv] by (simp add: segmented_cancel_def)
    then show ?thesis unfolding SenderStops carriage_act.simps by (rule via)
  next
    case (Carried n now iv)
    show ?thesis
    proof (cases "get_at (sg_sent c) n")
      case (Some q)
      then have "segment_packet k sha p data q" using sent by (auto simp: list_all_length get_at_def split: if_splits)
      from hears[OF sent_offers[OF S this]] show ?thesis by (simp add: Carried Some)
    qed (use c Carried in simp)
  next
    case (Stranger q now iv)
    have "\<exists>i. planned_offer sha p data i adv" if "pk_context q = CTX_RESOURCE_ADV" "read_offer k b q = Some adv" for adv
      using ok Stranger b that by simp
    from hears[OF this] show ?thesis by (simp add: Stranger)
  next
    case (ReceiverTicks now iv)
    obtain out where "segmented_receiver_poll k ?r now iv = Some out" "receiving sha b p data metadata (fst out)"
      using poll_receiving[OF P(1-3) r, of k now iv] by blast
    then show ?thesis using receiver_moves_inv[OF c] ReceiverTicks by simp
  next
    case (ReceiverStops iv)
    then show ?thesis using receiver_moves_inv[OF c cancel_receiving[OF r]] by simp
  next
    case Taken
    then show ?thesis using receiver_moves_inv[OF c take_receiving[OF r]] by simp
  qed
  then show ?thesis using ok by (simp add: carriage_step_def)
qed

interpretation carriages: guarded_ops "carriage_next k sha enc bz2"
  "\<lambda>x. \<exists>c. x = Some c \<and> carriage_inv k sha b p data metadata c"
  for k sha enc bz2 b p data metadata
  by unfold_locales (use carriage_step_inv in \<open>fastforce simp: carriage_next_def\<close>)


lemma new_segmented_starts:
  assumes s: "new_segmented k sha enc a data metadata kind random iv = Some (Inr s)" and len: "length data < 2 ^ 62"
  shows "sending sha (gs_plan s) data s" "given (gs_plan s) metadata" "well_planned (gs_plan s) data" "pn_segments (gs_plan s) < 2 ^ 63"
    "pn_link (gs_plan s) = a"
proof -
  obtain m where m: "(case metadata of None \<Rightarrow> Inr None | Some x \<Rightarrow> and_then (pack_metadata x) (\<lambda>framed. Inr (Some framed))) = Inr m"
    using s by (cases "case metadata of None \<Rightarrow> Inr None | Some x \<Rightarrow> and_then (pack_metadata x) (\<lambda>framed. Inr (Some framed))")
      (simp_all add: new_segmented_def)
  let ?framed = "case m of None \<Rightarrow> 0 | Some x \<Rightarrow> length x"
  let ?n = "segment_count (length data + ?framed)"
  let ?p = "\<lparr>pn_link = a, pn_data = Some data, pn_len = length data, pn_metadata = m, pn_kind = kind,
      pn_compress = (length data \<le> DEFAULT_MAX_DECOMPRESSED_SIZE), pn_segments = ?n, pn_original_hash = 0, pn_timing = timing_default\<rparr>"
  have big: "\<not> (1 < ?n \<and> MAX_SEGMENT_SIZE \<le> ?framed)"
  proof
    assume "1 < ?n \<and> MAX_SEGMENT_SIZE \<le> ?framed"
    then show False using s by (simp add: new_segmented_def m Let_def)
  qed
  have eq: "new_segmented k sha enc a data metadata kind random iv = map_option (\<lambda>(p, current).
      Inr \<lparr>gs_plan = p\<lparr>pn_original_hash := og_hash (sn_out current)\<rparr>, gs_current = current, gs_index = 1, gs_served_before = 0\<rparr>)
      (plan_segment k sha enc ?p 1 random iv)"
    using big unfolding new_segmented_def m sum.case Let_def by (simp only: if_False)
  obtain p' c where pc: "plan_segment k sha enc ?p 1 random iv = Some (p', c)"
    "s = \<lparr>gs_plan = p'\<lparr>pn_original_hash := og_hash (sn_out c)\<rparr>, gs_current = c, gs_index = 1, gs_served_before = 0\<rparr>"
    using s unfolding eq by auto
  have n: "1 \<le> ?n" by (simp add: segment_count_def)
  obtain data' where d: "pn_data ?p = Some data'" "p' = (if 1 = pn_segments ?p then ?p\<lparr>pn_data := None\<rparr> else ?p)"
    "offering (pn_link ?p) (sn_out c) c" "segment_offer sha ?p data' 1 (sn_out c)"
    by (rule planned_segment[OF pc(1)]) (use n in simp_all)
  have gp: "gs_plan s = p'\<lparr>pn_original_hash := og_hash (sn_out c)\<rparr>" "gs_current s = c" "gs_index s = 1" using pc(2) by simp_all
  have lay: "same_layout ?p (gs_plan s)" "same_layout (gs_plan s) (gs_plan s)" using d(2) by (simp_all add: gp same_layout_def)
  have off: "segment_offer sha (gs_plan s) data 1 (sn_out c)" using d(1,4) layout_offers[OF lay(1)] by simp
  have f: "pn_link (gs_plan s) = a" "pn_len (gs_plan s) = length data" "pn_metadata (gs_plan s) = m" "pn_segments (gs_plan s) = ?n"
    using lay(1) by (simp_all add: same_layout_def)
  show "pn_link (gs_plan s) = a" by (fact f)
  show "sending sha (gs_plan s) data s"
    using lay(2) off d(2,3) f(1,4) by (simp add: sending_def gp(2,3)) (simp add: gp(1))
  show "given (gs_plan s) metadata"
    using m f(3) by (cases metadata) (auto simp: given_def)
  have fr: "framed_metadata_len (gs_plan s) = ?framed" "total_size (gs_plan s) = length data + ?framed"
    using f by (simp_all add: framed_metadata_len_def total_size_def)
  show "well_planned (gs_plan s) data" unfolding well_planned_def fr f(2,4) using big by (auto simp: not_le)
  have "?framed < 2 ^ 25"
    using m by (cases metadata) (auto simp: pack_metadata_def METADATA_MAX_SIZE_def split: if_splits)
  moreover have "?n \<le> length data + ?framed + 1"
    using le_trans[OF div_le_dividend[of "length data + ?framed - 1" MAX_SEGMENT_SIZE] diff_le_self] by (simp add: segment_count_def)
  ultimately show "pn_segments (gs_plan s) < 2 ^ 63" using len f(4) by simp
qed

text \<open>
  C4: A resource of any number of segments is put together of what its sender was given: whatever becomes of the
  sender's packets on the way, whatever strangers without the keys of the link send to either side and
  however both are polled and canceled, neither half panics and the receiver hands over the
  data and the metadata of the sender or nothing.
\<close>

theorem segmented_delivered:
  assumes k: "cipher_laws k" and keys: "paired c a b \<or> paired c b a"
    and s: "new_segmented k sha enc a data metadata kind random iv = Some (Inr s)" and len: "length data < 2 ^ 62"
    and sha: "no_second_preimage sha (segment_bodies (gs_plan s) data)"
    and made: "rv_link made = b" "rv_inc made = None" "rv_data made = None" "rv_failure made = None" "\<not> rv_canceled made"
    and r: "r = (new_segmented_receiver b made)\<lparr>gr_filter := offer_filter, gr_max_size := max_size\<rparr>"
  shows "\<exists>d. carriage_run k sha enc bz2 s r evs = Some d
    \<and> (received_data (sg_receiver d) = None \<or> received_data (sg_receiver d) = Some data \<and> received_metadata (sg_receiver d) = metadata)"
proof -
  let ?p = "gs_plan s"
  note N = new_segmented_starts[OF s len]
  have S: "carriage_setting k sha b ?p data metadata"
    using k keys sha N(2-5) by (auto simp: carriage_setting_def paired_def)
  have "receiving sha b ?p data metadata r"
    using made by (simp add: r new_segmented_receiver_def receiving_def gathers_def idle_receiver_def dead_def)
  then have "\<exists>c. Some \<lparr>sg_sender = s, sg_receiver = r, sg_sent = []\<rparr> = Some c \<and> carriage_inv k sha b ?p data metadata c"
    using S N(1) by (simp add: carriage_inv_def)
  from carriages.run_inv[OF this] obtain d where d: "carriage_run k sha enc bz2 s r evs = Some d" "carriage_inv k sha b ?p data metadata d"
    unfolding carriage_run_def by blast
  then show ?thesis by (auto simp: carriage_inv_def receiving_def received_data_def received_metadata_def)
qed


text \<open>A resource of one segment, under a hash that singles out its body.\<close>

definition telling_hash :: sha256 where
  "telling_hash z = (if length z = 6 \<and> take 2 z = [7, 8] then 1 else 0)"

definition sample_segmented :: segmented_sender where
  "sample_segmented = projr (the (new_segmented sample_ciphers telling_hash None sample_near [7, 8] None DataKind 9 (replicate 16 9)))"

lemma sample_segmented_is:
  "new_segmented sample_ciphers telling_hash None sample_near [7, 8] None DataKind 9 (replicate 16 9) = Some (Inr sample_segmented)"
  "segment_bodies (gs_plan sample_segmented) [7, 8] = [[7, 8]]"
proof -
  let ?new = "new_segmented sample_ciphers telling_hash None sample_near [7, 8] None DataKind 9 (replicate 16 9)"
  have n: "segment_count 2 = 1" by (simp add: segment_count_def MAX_SEGMENT_SIZE_def)
  have "\<exists>s. ?new = Some (Inr s)" by (simp add: new_segmented_def plan_segment_def MAX_SEGMENT_SIZE_def Let_def)
  then show new: "?new = Some (Inr sample_segmented)" by (auto simp: sample_segmented_def)
  note N = new_segmented_starts[OF new, simplified]
  have m: "pn_metadata (gs_plan sample_segmented) = None" using N(2) by (simp add: given_def)
  have p: "pn_segments (gs_plan sample_segmented) = 1" "pn_len (gs_plan sample_segmented) = 2"
    using N(3) n by (simp_all add: well_planned_def total_size_def framed_metadata_len_def m numeral_2_eq_2)
  show "segment_bodies (gs_plan sample_segmented) [7, 8] = [[7, 8]]"
    by (simp add: segment_bodies_def segment_bytes_def segment_range_def p m p[unfolded One_nat_def] Let_def)
qed

lemma telling_hash_tells: "no_second_preimage telling_hash [[7, 8]]"
  by (auto simp: no_second_preimage_def resource_hash_def telling_hash_def split: if_splits)

theorem segmented_delivered_witness:
  "let iv = replicate 16 3
   in \<exists>d. carriage_run sample_ciphers telling_hash None None sample_segmented
        (new_segmented_receiver sample_far (new_receiver sample_far)\<lparr>gr_filter := None, gr_max_size := 100\<rparr>)
        [Advertised 5 iv, Carried 0 6 iv, Carried 0 7 iv, Stranger (framed_packet sample_far CTX_RESOURCE [1, 2, 3]) 8 iv,
         SenderGets (framed_packet sample_near CTX_RESOURCE_PRF [1]) 9 iv iv iv, ReceiverTicks 20000 iv, Taken] = Some d
     \<and> (received_data (sg_receiver d) = None \<or> received_data (sg_receiver d) = Some [7, 8] \<and> received_metadata (sg_receiver d) = None)"
  unfolding Let_def
  by (rule segmented_delivered[OF sample_ciphers_laws disjI1[OF sample_near_far] sample_segmented_is(1) _ _ fresh_receiver(1-3) _ _ HOL.refl])
    (simp_all add: sample_segmented_is(2) telling_hash_tells new_receiver_def with_request_window_def with_limits_def)

end
