(* ===== verification/Spec2Isabelle.thy ===== *)
theory Spec2Isabelle
  imports Packets BufferSession ChannelWindow LinkLiveness Hdlc Kiss Dedup PathRequest Freshness Msgpack
    AnnounceCap NodeTheorems Link ResourceClosing SegmentedDelivery
begin

text \<open>
  A model of the protocol core of retinue (\<open>src/crates/retinue/src\<close>), a Rust implementation of the
  Reticulum network stack, and the theorems that make its parts correct.

  The program. Nodes exchange packets of at most \<open>MTU\<close> bytes. A node announces its destination with
  a signed announce; others verify it, remember the keys (the address book), check that it is newer
  than what they heard (freshness), learn a route and relay it with a jittered delay inside a share
  of the interface's airtime. A packet for a destination further away is carried along the routes by
  transport hops, a link request leaves a bridge behind it at every hop, and the link's packets and
  proofs come back over the bridges. The two ends of a link agree on keys and prove to each other what they
  received. Over an established link runs a reliable channel, and over the channel a byte stream; data too
  large for a packet is offered as a resource and fetched in parts. Framings (HDLC, KISS) carry packets over byte streams.

  The theories, and the sources they model:

    \<^item> \<open>Prelude\<close>, \<open>Interfaces\<close>: integers, big-endian bytes, slices, iterator searches, results, and the
      contracts the components share, as locales (\<open>wire_codec\<close>, \<open>strict_codec\<close>, \<open>framing\<close>, \<open>guarded_ops\<close>, and \<open>keyed_map\<close> in \<open>SortedMap\<close>).
      Each is interpreted on the model's own operations in the theory that provides them.
    \<^item> \<open>Hashes\<close> (\<open>hash.rs\<close>), \<open>Packets\<close> (\<open>packet.rs\<close>): the packet codec. Round trips both ways, the exact
      error conditions, and a hash that does not change along a route.
    \<^item> \<open>ChannelWire\<close>, \<open>Channel\<close>, \<open>ChannelSender\<close>, \<open>ChannelReceiver\<close>, \<open>ChannelSession\<close>, \<open>ChannelWindow\<close>
      (\<open>channel/wire.rs\<close>, \<open>window.rs\<close>, \<open>state.rs\<close>, \<open>send.rs\<close>, \<open>recv.rs\<close>): envelopes, the sliding window and
      the two state machines. A session is a sender and a receiver over a network that loses,
      repeats and reorders envelopes and proofs; what is read is a prefix of what was written, and
      all of it once the sender is idle.
    \<^item> \<open>Buffer\<close>, \<open>BufferSession\<close> (\<open>channel/buffer.rs\<close>): the byte stream, a refinement of the channel
      session: bytes taken are a prefix of bytes accepted, and the end is reported after all of them.
    \<^item> \<open>LinkLiveness\<close> (\<open>link_liveness.rs\<close>): keepalive and staleness timers; the reported due time is exact.
    \<^item> \<open>Hdlc\<close>, \<open>Kiss\<close> (\<open>iface/hdlc.rs\<close>, \<open>iface/kiss.rs\<close>, \<open>iface/beacon.rs\<close>): framing round trips, resynchronisation.
    \<^item> \<open>Dedup\<close> (\<open>endpoint/dedup.rs\<close>), \<open>PathRequest\<close> (\<open>destination.rs\<close>, \<open>path.rs\<close>), \<open>Msgpack\<close> (\<open>msgpack.rs\<close>).
    \<^item> \<open>Timebase\<close> and \<open>Announce\<close> (\<open>announce.rs\<close>, \<open>announce/verified.rs\<close>), \<open>Identity\<close> (\<open>identity.rs\<close>):
      announce blobs, the strictly increasing timebases, the announce codec with its signature.
    \<^item> \<open>SortedMap\<close>, \<open>Freshness\<close> (\<open>announce_freshness.rs\<close>, and the protocol of \<open>node/ingest.rs\<close> around it):
      the bounded freshness table refines a queue by last acceptance; a live route admits only newer announces.
    \<^item> \<open>Rebroadcast\<close>, \<open>AnnounceCap\<close> (\<open>rebroadcast.rs\<close>): the announce table, its transmission budget, and the
      airtime share of an interface.
    \<^item> \<open>AddressBook\<close> (\<open>address_book.rs\<close>, \<open>address_book/retention.rs\<close>): known peers; a held destination's key never changes.
    \<^item> \<open>LinkWire\<close> (\<open>link/wire.rs\<close>): link requests, their ids, and the MTU clamp of a transport hop.
    \<^item> \<open>Token\<close> (\<open>token.rs\<close>), \<open>Link\<close> (\<open>link/handshake.rs\<close>, \<open>link/established.rs\<close>, \<open>link/proof.rs\<close>): sealed tokens,
      the handshake from both ends with the hops a request may cross in between (\<open>carried\<close>), and what the two
      ends of a link (\<open>paired\<close>) make of each other's packets.
    \<^item> \<open>ResourceWire\<close>, \<open>Resource\<close> (\<open>resource.rs\<close>, \<open>resource/\<close>): advertisements, requests and hashmap updates, the
      offered resource and the receiving one. \<open>ResourceSession\<close> puts both on a network that loses, repeats,
      reorders and delays their messages, an \<open>exchange\<close> whose invariant \<open>exchange_ok\<close> every event keeps;
      \<open>ResourceTheorems\<close> has what a completed transfer yields and exactly which transfers can complete.
    \<^item> \<open>TransferWindow\<close> (\<open>resource_transfer/window.rs\<close>, \<open>timing.rs\<close>): how many parts a receiver asks for, and the waits.
    \<^item> \<open>ResourceTransfer\<close> (\<open>resource_transfer/sender.rs\<close>, \<open>receiver.rs\<close>, \<open>cancel.rs\<close>): the records \<open>sender\<close> and
      \<open>receiver\<close> with their handlers, polls and cancels. \<open>ResourceDelivery\<close> runs one against the other over a
      network that may drop, repeat, reorder and delay every packet (\<open>delivery\<close>, invariant \<open>delivery_inv\<close>, which
      lifts that of \<open>ResourceSession\<close>): the receiver hands over what the sender was given or nothing.
      \<open>ResourceClosing\<close> shows that a transfer of one part completes and that either half ends when the other is silent.
    \<^item> \<open>SegmentedTransfer\<close> (\<open>resource_transfer/segmented_sender.rs\<close>, \<open>segmented_receiver.rs\<close>): resources past
      \<open>MAX_SEGMENT_SIZE\<close>, a segment at a time over the halves above. In \<open>SegmentedDelivery\<close> the two run against each
      other with a stranger who lacks the keys of the link (\<open>carriage\<close>, invariant \<open>carriage_inv\<close>); what is put together
      is what was given, because each segment is handed over only under the hash its offer names.
    \<^item> \<open>NodeTables\<close> (\<open>node/tables.rs\<close>, \<open>iface_mode.rs\<close>), \<open>NodeRoutes\<close> (\<open>node/routes.rs\<close>, \<open>node/params.rs\<close>,
      \<open>node/report.rs\<close>, \<open>node/action.rs\<close>), \<open>NodeTransit\<close> (\<open>node/transit.rs\<close>): the transport half of the node.
      A record \<open>node\<close> holds the transport state of \<open>Node\<close>; an operation takes the node and the
      list of actions it may push to and returns both. The lemmas keep the tables within their
      bounds with one row per key, the properties say what is carried, what is refused and how
      the answer finds its way back.
    \<^item> \<open>NodeRelay\<close> (\<open>node/rebroadcast.rs\<close>, \<open>node/ingest.rs\<close>, \<open>node/poll.rs\<close>), \<open>NodeSetup\<close> (\<open>node/setup.rs\<close>),
      \<open>NodeSafety\<close>, \<open>NodeTheorems\<close>: the node as a whole. \<open>ingest_transport\<close> is the dispatch of a received
      packet up to the handlers of the node's own links, \<open>poll_transport\<close> the timers without the
      sessions. A run is any sequence of packets, polls and configuration calls, a \<open>reactive\<close> system
      whose invariant \<open>node_ok\<close> holds in all of them: every table of the record within its bounds, every
      packet handed over one that fits the carrier and, save a delivery proof passed back at the hop ceiling,
      one the next decoder takes. The properties follow announces, path requests and bridges through runs.

  Conventions. A struct is a record, an enum a datatype, a \<open>Result\<close> a sum with the error on the left,
  a bounded vector a list whose owner checks its length. Fixed-width fields are words; \<open>usize\<close>
  sizes and millisecond ticks are \<open>nat\<close> with the saturation or the checked overflow of the code
  written out, so \<open>usize\<close> itself does not wrap. Loops that search and remove are recursions with a
  measure; nothing in the model runs on fuel.

  Parameters and what is assumed of them. SHA-256 is the argument \<open>sha\<close>, with no law except where a
  property names one (the cache of verified announces assumes that distinct contents have distinct
  hashes, and \<open>no_second_preimage\<close> that nothing but a segment's body has its resource hash). The curve
  operations of \<open>x25519_dalek\<close> and \<open>ed25519_dalek\<close> are the record \<open>curves\<close>, whose laws \<open>curve_laws\<close> say that a signature verifies under its own key and whose \<open>dh_laws\<close> that a key agreement is
  symmetric. HKDF, HMAC and AES are the record \<open>ciphers\<close>, whose laws \<open>cipher_laws\<close> say that decryption inverts
  encryption under one key and what lengths come out. The bz2 decoder of a compressed
  stream frame is an argument of the buffer; a resource has encoder and decoder as arguments, and \<open>bz2_laws\<close> says that what
  a decoder returns of an encoder's output is its input. Each property with a hypothesis has a witness that
  applies it to a concrete input.

  Bounds. The network of a channel session delivers any copy at any time, save that none comes half
  the 16-bit sequence space late. The window bounds what is in flight. A copy that \<open>clobbers\<close> describes
  leaves a stale reorder entry, which the session records in \<open>s_clobbered\<close> (the stream in
  \<open>x_clobbered\<close>): the reliability properties hold of runs that met no such copy, and of all others
  until 65,536 messages are sent (\<open>within_a_turn\<close>, \<open>stream_within_a_turn\<close>); \<open>stale_entry_redelivered\<close>
  shows that they do not hold beyond that. Freshness assumes a capacity below \<open>u64_max\<close>; the announce cap's 128-bit arithmetic does not
  overflow for the packets of this stack and is computed in \<open>nat\<close>.

  A resource transfer is followed as long as the sender's parts with one map hash are equal, which the sender
  arranges by redrawing its random hash up to eight times. It finishes within two rounds for each part exactly
  if no two of its hashmap segments end in the same map hash (\<open>segment_ends_apart\<close>); otherwise no run completes it.

  Not modelled: the ratchet ring and the proofs of single packets, the session half
  of the node (\<open>node/links.rs\<close>, \<open>node/session.rs\<close>, \<open>node/resources.rs\<close>, and the parts of \<open>Node::ingest\<close> and
  \<open>Node::poll\<close> that call them), the tokio endpoint around the core, socket and
  serial interfaces, and the other crates, which are clients of this core or drivers under it.
\<close>

end
